(* ===== verification/PgPrelude.thy ===== *)
theory PgPrelude
  imports Main "HOL-Library.Word"
begin

unbundle bit_operations_syntax

section \<open>Shared types, results and word lemmas\<close>

text \<open>
  The types every component uses: the machine integers of the Rust sources as words of their
  width, errors as values (\<^verbatim>\<open>PgResult\<close> becomes the sum \<open>'a res\<close>), the
  \<^verbatim>\<open>?\<close> operator as the combinators \<open>bindR\<close> (no state), \<open>tryS\<close>
  (the state reached so far is returned with the error) and \<open>bindS\<close> (the call changes the state), and the generic facts about bits,
  lists and modular distance that the component theories rest on.
\<close>

type_synonym u8 = "8 word"
type_synonym u16 = "16 word"
type_synonym u32 = "32 word"
type_synonym u64 = "64 word"
type_synonym TransactionId = "32 word"
type_synonym MultiXactId = "32 word"
type_synonym CommandId = "32 word"
type_synonym XLogRecPtr = "64 word"
type_synonym BlockNumber = "32 word"
type_synonym XidStatus = "32 word"

text \<open>
  The errors the modelled code can return. \<open>ExternalError\<close> stands for an error
  that comes back from a call into code outside the model; \<open>Panic\<close> is a Rust panic or a
  failed \<^verbatim>\<open>assert!\<close>.
\<close>

datatype SlruErrorCause =
    SLRU_OPEN_FAILED | SLRU_SEEK_FAILED | SLRU_READ_FAILED
  | SLRU_WRITE_FAILED | SLRU_FSYNC_FAILED | SLRU_CLOSE_FAILED

datatype pg_error =
    SlruIOError SlruErrorCause nat int TransactionId
  | InvalidSubtransEntry TransactionId TransactionId
  | InvalidFSMRequestSize nat
  | LockAlreadyHeld nat
  | UnrecognizedLockMethod nat
  | UnrecognizedLockMode nat
  | ElogError string
  | ProgramLimitExceeded u32
  | TooManyConnections | ObjectInUse string | InsufficientPrivilege
  | ExternalError nat
  | Panic

type_synonym 'a res = "pg_error + 'a"

subsection \<open>The result combinators\<close>

definition bindR :: "'a res \<Rightarrow> ('a \<Rightarrow> 'b res) \<Rightarrow> 'b res" where
  "bindR r k = (case r of Inl e \<Rightarrow> Inl e | Inr a \<Rightarrow> k a)"

definition tryS :: "'a res \<Rightarrow> 's \<Rightarrow> ('a \<Rightarrow> 'b res \<times> 's) \<Rightarrow> 'b res \<times> 's" where
  "tryS r s k = (case r of Inl e \<Rightarrow> (Inl e, s) | Inr a \<Rightarrow> k a)"

definition bindS :: "'a res \<times> 's \<Rightarrow> ('a \<Rightarrow> 's \<Rightarrow> 'b res \<times> 's) \<Rightarrow> 'b res \<times> 's" where
  "bindS rs k = tryS (fst rs) (snd rs) (\<lambda>a. k a (snd rs))"

lemma bindR_simps [simp]:
  "bindR (Inl e) k = Inl e"
  "bindR (Inr a) k = k a"
  by (simp_all add: bindR_def)

lemma tryS_simps [simp]:
  "tryS (Inl e) s k = (Inl e, s)"
  "tryS (Inr a) s k = k a"
  by (simp_all add: tryS_def)

lemma bindS_simps [simp]:
  "bindS (Inl e, s) k = (Inl e, s)"
  "bindS (Inr a, s) k = k a s"
  by (simp_all add: bindS_def)

lemma bindR_Inr_iff: "bindR r k = Inr b \<longleftrightarrow> (\<exists>a. r = Inr a \<and> k a = Inr b)"
  by (cases r) auto

lemma bindR_Inr_E [elim]:
  assumes "bindR r k = Inr b"
  obtains a where "r = Inr a" and "k a = Inr b"
  using assms by (auto simp: bindR_Inr_iff)

lemma tryS_cong [fundef_cong]:
  assumes "r = r'" and "s = s'" and "\<And>a. r' = Inr a \<Longrightarrow> k a = k' a"
  shows "tryS r s k = tryS r' s' k'"
  using assms by (cases r') simp_all

lemma bindR_cong [fundef_cong]:
  assumes "r = r'" and "\<And>a. r' = Inr a \<Longrightarrow> k a = k' a"
  shows "bindR r k = bindR r' k'"
  using assms by (cases r') simp_all

text \<open>A prefix of a vector; beyond its length the slice panics.\<close>

definition slice_to :: "nat \<Rightarrow> 'a list \<Rightarrow> 'a list res" where
  "slice_to n xs = (if n \<le> length xs then Inr (take n xs) else Inl Panic)"

subsection \<open>Loops\<close>

text \<open>
  A \<^verbatim>\<open>loop\<close> whose body either continues with a new state or leaves with a result; the body
  may itself run loops, so it is option-valued, and \<open>None\<close> means that the loop does not return.
  \<open>iterate_total\<close> is the rule by which the components show that their loops return.
\<close>

partial_function (option) iterate :: "('s \<Rightarrow> ('s + 'r) option) \<Rightarrow> 's \<Rightarrow> 'r option" where
  "iterate body s =
     Option.bind (body s) (\<lambda>x. case x of Inl s' \<Rightarrow> iterate body s' | Inr r \<Rightarrow> Some r)"

lemma iterate_done [simp]: "body s = Some (Inr r) \<Longrightarrow> iterate body s = Some r"
  by (simp add: iterate.simps)

lemma iterate_step: "body s = Some (Inl s') \<Longrightarrow> iterate body s = iterate body s'"
  by (subst iterate.simps) simp

lemma iterate_total:
  assumes "I s"
    and step: "\<And>s. I s \<Longrightarrow>
      (\<exists>s'. body s = Some (Inl s') \<and> I s' \<and> m s' < (m s :: nat)) \<or> (\<exists>r. body s = Some (Inr r) \<and> Q r)"
  shows "\<exists>r. iterate body s = Some r \<and> Q r"
  using assms(1)
proof (induction "m s" arbitrary: s rule: less_induct)
  case less
  from step [OF less.prems] show ?case
  proof (elim disjE exE conjE)
    fix s' assume "body s = Some (Inl s')" "I s'" "m s' < m s"
    with less.hyps show ?thesis
      by (simp add: iterate_step)
  qed auto
qed

definition bindP ::
  "('a res \<times> 's) option \<Rightarrow> ('a \<Rightarrow> 's \<Rightarrow> ('b res \<times> 's) option) \<Rightarrow> ('b res \<times> 's) option" where
  "bindP m k =
     (case m of
        None \<Rightarrow> None
      | Some rs \<Rightarrow> (case fst rs of Inl e \<Rightarrow> Some (Inl e, snd rs) | Inr a \<Rightarrow> k a (snd rs)))"

lemma bindP_simps [simp]:
  "bindP None k = None"
  "bindP (Some (Inl e, s)) k = Some (Inl e, s)"
  "bindP (Some (Inr a, s)) k = k a s"
  by (simp_all add: bindP_def)

subsection \<open>Bits of words\<close>

named_theorems bit_rules \<open>mask tests rewritten to single bits\<close>

lemma and_flag_eq_0:
  fixes f g :: "'a::len word"
  assumes "\<And>n. bit g n \<longleftrightarrow> n = k"
  shows "f AND g = 0 \<longleftrightarrow> \<not> bit f k"
proof
  assume "f AND g = 0"
  then have "\<not> bit (f AND g) k"
    by simp
  then show "\<not> bit f k"
    using assms by (simp add: bit_and_iff)
next
  assume "\<not> bit f k"
  then show "f AND g = 0"
    using assms by (auto intro!: bit_word_eqI simp: bit_and_iff)
qed

subsection \<open>Casts between word sizes\<close>

lemma ucast_32_add: "(ucast (v + w :: 64 word) :: 32 word) = ucast v + ucast w"
proof -
  have "(ucast (v + w) :: 32 word) = word_of_int (uint (v + w))"
    by simp
  also have "\<dots> = word_of_int (take_bit 64 (uint v + uint w))"
    by (simp add: uint_word_ariths take_bit_eq_mod del: of_int_uint)
  also have "\<dots> = word_of_int (uint v + uint w)"
    by (rule wi_bintr) simp
  finally show ?thesis
    by simp
qed

lemma sint_ucast_diff:
  fixes a b :: "64 word"
  assumes "- (2 ^ 31) \<le> uint a - uint b" and "uint a - uint b < 2 ^ 31"
  shows "sint (ucast a - ucast b :: 32 word) = uint a - uint b"
proof -
  have "(ucast a - ucast b :: 32 word) = word_of_int (uint a - uint b)"
    by simp
  then have "sint (ucast a - ucast b :: 32 word) = signed_take_bit 31 (uint a - uint b)"
    by (simp only: signed_of_int) simp
  also have "\<dots> = uint a - uint b"
    by (rule signed_take_bit_int_eq_self) (use assms in simp_all)
  finally show ?thesis .
qed

lemma unat_bounds:
  "unat (w8 :: 8 word) < 256" "unat (w16 :: 16 word) < 65536" "unat (w32 :: 32 word) < 4294967296"
proof -
  have "unat w8 < 2 ^ LENGTH(8)" "unat w16 < 2 ^ LENGTH(16)" "unat w32 < 2 ^ LENGTH(32)"
    by (rule unsigned_less)+
  then show "unat w8 < 256" "unat w16 < 65536" "unat w32 < 4294967296"
    by simp_all
qed

lemma unat_Suc_word: "w + 1 \<noteq> 0 \<Longrightarrow> unat (w + 1) = Suc (unat w)"
  using unatSuc [of w] by (simp add: add.commute)

lemma word_plus_1_eq_0:
  "(w16 :: 16 word) + 1 = 0 \<longleftrightarrow> w16 = 0xffff"
  "(w32 :: 32 word) + 1 = 0 \<longleftrightarrow> w32 = 0xffffffff"
proof -
  have "(- 1 :: 16 word) = 0xffff" "(- 1 :: 32 word) = 0xffffffff"
    by (simp_all flip: mask_full) (simp_all add: mask_eq_exp_minus_1)
  then show "w16 + 1 = 0 \<longleftrightarrow> w16 = 0xffff" "w32 + 1 = 0 \<longleftrightarrow> w32 = 0xffffffff"
    unfolding add_eq_0_iff2 by (simp_all only:)
qed

lemma unat_of_nat_32: "i < 2 ^ 32 \<Longrightarrow> unat (word_of_nat i :: 32 word) = i"
  by (simp add: unat_of_nat)

lemma word_of_int_uint_diff: "word_of_int (uint a + (uint b - uint a)) = b"
  by simp

end
