(* ===== verification/Xid.thy ===== *)
theory Xid
  imports PgPrelude
begin

unbundle bit_operations_syntax

section \<open>Transaction ids\<close>

text \<open>
  Transaction ids and their modular order
  (\<^verbatim>\<open>crates/_support/types/types_core/src/xact.rs\<close>), 64-bit full transaction ids, and the
  advance and widening helpers of \<^verbatim>\<open>varsup\<close> and \<^verbatim>\<open>procarray\<close>. A transaction id is
  the low 32 bits of a full transaction id; the order on 32-bit ids is defined by the sign of
  their wrapped difference. The theorems show that this order agrees with the order of
  the full ids as long as those are less than \<open>2^31\<close> apart, which is what the rest of the
  system relies on.
\<close>

subsection \<open>Constants and the modular order\<close>

definition InvalidTransactionId :: TransactionId where "InvalidTransactionId = 0"
definition BootstrapTransactionId :: TransactionId where "BootstrapTransactionId = 1"
definition FrozenTransactionId :: TransactionId where "FrozenTransactionId = 2"
definition FirstNormalTransactionId :: TransactionId where "FirstNormalTransactionId = 3"
definition MaxTransactionId :: TransactionId where "MaxTransactionId = 0xFFFFFFFF"
definition FirstCommandId :: CommandId where "FirstCommandId = 0"
definition InvalidCommandId :: CommandId where "InvalidCommandId = NOT 0"
definition InvalidXLogRecPtr :: XLogRecPtr where "InvalidXLogRecPtr = 0"

definition TRANSACTION_STATUS_IN_PROGRESS :: XidStatus where
  "TRANSACTION_STATUS_IN_PROGRESS = 0"
definition TRANSACTION_STATUS_COMMITTED :: XidStatus where
  "TRANSACTION_STATUS_COMMITTED = 1"
definition TRANSACTION_STATUS_ABORTED :: XidStatus where
  "TRANSACTION_STATUS_ABORTED = 2"
definition TRANSACTION_STATUS_SUB_COMMITTED :: XidStatus where
  "TRANSACTION_STATUS_SUB_COMMITTED = 3"

lemmas xid_consts =
  InvalidTransactionId_def BootstrapTransactionId_def FrozenTransactionId_def
  FirstNormalTransactionId_def MaxTransactionId_def

lemmas xact_status_consts =
  TRANSACTION_STATUS_IN_PROGRESS_def TRANSACTION_STATUS_COMMITTED_def
  TRANSACTION_STATUS_ABORTED_def TRANSACTION_STATUS_SUB_COMMITTED_def

definition TransactionIdIsValid :: "TransactionId \<Rightarrow> bool" where
  "TransactionIdIsValid xid \<longleftrightarrow> xid \<noteq> InvalidTransactionId"

definition TransactionIdIsNormal :: "TransactionId \<Rightarrow> bool" where
  "TransactionIdIsNormal xid \<longleftrightarrow> FirstNormalTransactionId \<le> xid"

definition TransactionIdEquals :: "TransactionId \<Rightarrow> TransactionId \<Rightarrow> bool" where
  "TransactionIdEquals id1 id2 \<longleftrightarrow> id1 = id2"

definition TransactionIdPrecedes :: "TransactionId \<Rightarrow> TransactionId \<Rightarrow> bool" where
  "TransactionIdPrecedes id1 id2 =
     (if \<not> TransactionIdIsNormal id1 \<or> \<not> TransactionIdIsNormal id2 then id1 < id2
      else sint (id1 - id2) < 0)"

definition TransactionIdPrecedesOrEquals :: "TransactionId \<Rightarrow> TransactionId \<Rightarrow> bool" where
  "TransactionIdPrecedesOrEquals id1 id2 =
     (if \<not> TransactionIdIsNormal id1 \<or> \<not> TransactionIdIsNormal id2 then id1 \<le> id2
      else sint (id1 - id2) \<le> 0)"

definition TransactionIdFollows :: "TransactionId \<Rightarrow> TransactionId \<Rightarrow> bool" where
  "TransactionIdFollows id1 id2 =
     (if \<not> TransactionIdIsNormal id1 \<or> \<not> TransactionIdIsNormal id2 then id1 > id2
      else sint (id1 - id2) > 0)"

definition TransactionIdFollowsOrEquals :: "TransactionId \<Rightarrow> TransactionId \<Rightarrow> bool" where
  "TransactionIdFollowsOrEquals id1 id2 =
     (if \<not> TransactionIdIsNormal id1 \<or> \<not> TransactionIdIsNormal id2 then id1 \<ge> id2
      else sint (id1 - id2) \<ge> 0)"

definition MultiXactIdPrecedes :: "MultiXactId \<Rightarrow> MultiXactId \<Rightarrow> bool" where
  "MultiXactIdPrecedes multi1 multi2 \<longleftrightarrow> sint (multi1 - multi2) < 0"

definition MultiXactIdPrecedesOrEquals :: "MultiXactId \<Rightarrow> MultiXactId \<Rightarrow> bool" where
  "MultiXactIdPrecedesOrEquals multi1 multi2 \<longleftrightarrow> sint (multi1 - multi2) \<le> 0"

subsection \<open>Full transaction ids\<close>

record FullTransactionId =
  fxid_value :: u64

definition from_u64 :: "u64 \<Rightarrow> FullTransactionId" where
  "from_u64 v = \<lparr> fxid_value = v \<rparr>"

definition from_epoch_and_xid :: "u32 \<Rightarrow> TransactionId \<Rightarrow> FullTransactionId" where
  "from_epoch_and_xid epoch xid = \<lparr> fxid_value = push_bit 32 (ucast epoch) OR ucast xid \<rparr>"

definition fxid_epoch :: "FullTransactionId \<Rightarrow> u32" where
  "fxid_epoch f = ucast (drop_bit 32 (fxid_value f))"

definition fxid_xid :: "FullTransactionId \<Rightarrow> TransactionId" where
  "fxid_xid f = ucast (fxid_value f)"

definition fxid_is_valid :: "FullTransactionId \<Rightarrow> bool" where
  "fxid_is_valid f \<longleftrightarrow> fxid_xid f \<noteq> InvalidTransactionId"

definition fxid_is_normal :: "FullTransactionId \<Rightarrow> bool" where
  "fxid_is_normal f = TransactionIdIsNormal (fxid_xid f)"

definition fxid_precedes :: "FullTransactionId \<Rightarrow> FullTransactionId \<Rightarrow> bool" where
  "fxid_precedes a b \<longleftrightarrow> fxid_value a < fxid_value b"

definition fxid_precedes_or_equals :: "FullTransactionId \<Rightarrow> FullTransactionId \<Rightarrow> bool" where
  "fxid_precedes_or_equals a b \<longleftrightarrow> fxid_value a \<le> fxid_value b"

subsection \<open>Advancing and widening\<close>

definition TransactionIdAdvance :: "TransactionId \<Rightarrow> TransactionId" where
  "TransactionIdAdvance xid =
     (let xid' = xid + 1 in
      if xid' < FirstNormalTransactionId then FirstNormalTransactionId else xid')"

text \<open>The \<^verbatim>\<open>while\<close> loop of \<^verbatim>\<open>FullTransactionIdAdvance\<close>, skipping the special ids.\<close>

function skip_special :: "u64 \<Rightarrow> u64" where
  "skip_special v =
     (if fxid_xid \<lparr> fxid_value = v \<rparr> < FirstNormalTransactionId then skip_special (v + 1) else v)"
  by pat_completeness auto

termination skip_special
proof (relation "measure (\<lambda>v. 3 - unat (ucast v :: 32 word))")
  fix v :: u64
  assume "fxid_xid \<lparr> fxid_value = v \<rparr> < FirstNormalTransactionId"
  then have lt: "unat (ucast v :: 32 word) < 3"
    by (simp add: fxid_xid_def FirstNormalTransactionId_def word_less_nat_alt)
  have "(ucast (v + 1) :: 32 word) = ucast v + 1"
    by (simp add: ucast_32_add)
  with lt have "unat (ucast (v + 1) :: 32 word) = unat (ucast v :: 32 word) + 1"
    by (simp add: unat_word_ariths)
  with lt show "(v + 1, v) \<in> measure (\<lambda>v. 3 - unat (ucast v :: 32 word))"
    by simp
qed simp

definition FullTransactionIdAdvance :: "FullTransactionId \<Rightarrow> FullTransactionId" where
  "FullTransactionIdAdvance dest = \<lparr> fxid_value = skip_special (fxid_value dest + 1) \<rparr>"

definition NormalTransactionIdPrecedes :: "TransactionId \<Rightarrow> TransactionId \<Rightarrow> bool" where
  "NormalTransactionIdPrecedes id1 id2 \<longleftrightarrow> sint (id1 - id2) < 0"

definition TransactionIdOlder :: "TransactionId \<Rightarrow> TransactionId \<Rightarrow> TransactionId" where
  "TransactionIdOlder a b =
     (if \<not> TransactionIdIsValid a then b
      else if \<not> TransactionIdIsValid b then a
      else if TransactionIdPrecedes a b then a
      else b)"

definition FullTransactionIdNewer :: "FullTransactionId \<Rightarrow> FullTransactionId \<Rightarrow> FullTransactionId"
  where
  "FullTransactionIdNewer a b =
     (if \<not> fxid_is_valid a then b
      else if \<not> fxid_is_valid b then a
      else if fxid_value a > fxid_value b then a
      else b)"

definition FullXidRelativeTo :: "FullTransactionId \<Rightarrow> TransactionId \<Rightarrow> FullTransactionId" where
  "FullXidRelativeTo rel xid =
     from_u64 (fxid_value rel + scast (xid - fxid_xid rel))"

declare skip_special.simps [simp del]

subsection \<open>Laws of the order\<close>

lemma TransactionIdPrecedes_irrefl [simp]: "\<not> TransactionIdPrecedes x x"
  by (simp add: TransactionIdPrecedes_def)

lemma TransactionIdIsNormal_iff: "TransactionIdIsNormal x \<longleftrightarrow> 3 \<le> x"
  by (simp add: TransactionIdIsNormal_def FirstNormalTransactionId_def)

lemma TransactionIdNormal_valid [simp]: "TransactionIdIsNormal x \<Longrightarrow> TransactionIdIsValid x"
  by (auto simp: TransactionIdIsNormal_iff TransactionIdIsValid_def InvalidTransactionId_def)

lemma Precedes_half_space:
  assumes "TransactionIdIsNormal x" and "TransactionIdIsNormal y"
  shows "TransactionIdPrecedesOrEquals x y \<longleftrightarrow> x = y \<or> TransactionIdPrecedes x y"
    and "TransactionIdFollowsOrEquals x y \<longleftrightarrow> x = y \<or> TransactionIdFollows x y"
    and "TransactionIdFollowsOrEquals x y \<longleftrightarrow> \<not> TransactionIdPrecedes x y"
    and "TransactionIdPrecedesOrEquals x y \<longleftrightarrow> \<not> TransactionIdFollows x y"
proof -
  have "sint (x - y) = 0 \<longleftrightarrow> x = y"
    by (metis right_minus_eq signed_0 signed_eq_0_iff)
  then show "TransactionIdPrecedesOrEquals x y \<longleftrightarrow> x = y \<or> TransactionIdPrecedes x y"
    and "TransactionIdFollowsOrEquals x y \<longleftrightarrow> x = y \<or> TransactionIdFollows x y"
    using assms by (auto simp: TransactionIdPrecedesOrEquals_def TransactionIdPrecedes_def
        TransactionIdFollowsOrEquals_def TransactionIdFollows_def)
qed (use assms in \<open>auto simp: TransactionIdPrecedesOrEquals_def TransactionIdPrecedes_def
        TransactionIdFollowsOrEquals_def TransactionIdFollows_def\<close>)

text \<open>
  The window in which 32-bit comparison is meaningful: two full ids closer than half the
  32-bit circle.
\<close>

definition fxid_close :: "FullTransactionId \<Rightarrow> FullTransactionId \<Rightarrow> bool" where
  "fxid_close a b \<longleftrightarrow> \<bar>uint (fxid_value a) - uint (fxid_value b)\<bar> < 2 ^ 31"

lemma fxid_close_diff:
  assumes "fxid_close a b"
  shows "sint (fxid_xid a - fxid_xid b) = uint (fxid_value a) - uint (fxid_value b)"
  unfolding fxid_xid_def
  using assms by (intro sint_ucast_diff) (auto simp: fxid_close_def)

lemma fxid_value_order:
  "fxid_precedes a b \<longleftrightarrow> uint (fxid_value a) - uint (fxid_value b) < 0"
  "fxid_precedes_or_equals a b \<longleftrightarrow> uint (fxid_value a) - uint (fxid_value b) \<le> 0"
  by (auto simp: fxid_precedes_def fxid_precedes_or_equals_def word_less_def word_le_def)

lemma fxid_xid_from_epoch [simp]: "fxid_xid (from_epoch_and_xid e x) = x"
  by (rule bit_word_eqI) (simp add: fxid_xid_def from_epoch_and_xid_def bit_simps)

lemma fxid_epoch_from_epoch [simp]: "fxid_epoch (from_epoch_and_xid e x) = e"
  by (rule bit_word_eqI) (auto simp: fxid_epoch_def from_epoch_and_xid_def bit_simps
      dest: bit_imp_le_length)

lemma from_epoch_and_xid_inverse [simp]: "from_epoch_and_xid (fxid_epoch f) (fxid_xid f) = f"
proof -
  have "push_bit 32 (ucast (fxid_epoch f)) OR ucast (fxid_xid f) = fxid_value f"
    by (rule bit_word_eqI) (auto simp: fxid_xid_def fxid_epoch_def bit_simps
        dest: bit_imp_le_length)
  then show ?thesis
    by (simp add: from_epoch_and_xid_def)
qed

subsection \<open>The order on 32-bit ids is the order of full ids\<close>

text \<open>
  For two normal full transaction ids less than \<open>2^31\<close> apart, each of the four 32-bit
  comparisons, which look only at the low halves, decides the order of the 64-bit values.
\<close>

theorem xid_order_agrees:
  assumes "fxid_is_normal a" and "fxid_is_normal b" and "fxid_close a b"
  shows "(TransactionIdPrecedes (fxid_xid a) (fxid_xid b) \<longleftrightarrow> fxid_precedes a b)
       \<and> (TransactionIdPrecedesOrEquals (fxid_xid a) (fxid_xid b) \<longleftrightarrow> fxid_precedes_or_equals a b)
       \<and> (TransactionIdFollows (fxid_xid a) (fxid_xid b) \<longleftrightarrow> fxid_precedes b a)
       \<and> (TransactionIdFollowsOrEquals (fxid_xid a) (fxid_xid b) \<longleftrightarrow> fxid_precedes_or_equals b a)"
  using assms
  by (auto simp: fxid_is_normal_def fxid_value_order fxid_close_diff TransactionIdPrecedes_def
      TransactionIdPrecedesOrEquals_def TransactionIdFollows_def TransactionIdFollowsOrEquals_def)

theorem xid_order_agrees_witness:
  "TransactionIdPrecedes (fxid_xid (from_u64 0x1FFFFFFF0)) (fxid_xid (from_u64 0x200000005))
     \<and> fxid_precedes (from_u64 0x1FFFFFFF0) (from_u64 0x200000005)"
proof -
  let ?a = "from_u64 0x1FFFFFFF0" and ?b = "from_u64 0x200000005"
  have "fxid_is_normal ?a" "fxid_is_normal ?b" "fxid_close ?a ?b"
    by (simp_all add: fxid_is_normal_def fxid_close_def from_u64_def fxid_xid_def
        TransactionIdIsNormal_iff)
  moreover have "fxid_precedes ?a ?b"
    by (simp add: fxid_precedes_def from_u64_def)
  ultimately show ?thesis
    using xid_order_agrees [of ?a ?b] by blast
qed

lemma FullXidRelativeTo_close:
  assumes "fxid_close f rel"
  shows "FullXidRelativeTo rel (fxid_xid f) = f"
proof -
  have "scast (fxid_xid f - fxid_xid rel)
      = (word_of_int (uint (fxid_value f) - uint (fxid_value rel)) :: u64)"
    by (simp only: fxid_close_diff [OF assms, symmetric]) simp
  then have "fxid_value rel + scast (fxid_xid f - fxid_xid rel) = fxid_value f"
    by simp
  then show ?thesis
    by (simp add: FullXidRelativeTo_def from_u64_def)
qed

text \<open>
  Widening recovers the full id. Any full id less than \<open>2^31\<close> away from the reference
  \<^verbatim>\<open>rel\<close> is restored by \<^verbatim>\<open>FullXidRelativeTo\<close> from its low 32 bits, across an epoch
  boundary as well.
\<close>

theorem FullXidRelativeTo_recovers:
  assumes "fxid_close f rel"
  shows "FullXidRelativeTo rel (fxid_xid f) = f
       \<and> fxid_epoch (FullXidRelativeTo rel (fxid_xid f)) = fxid_epoch f"
  using FullXidRelativeTo_close [OF assms] by simp

theorem FullXidRelativeTo_recovers_witness:
  "fxid_epoch (FullXidRelativeTo (from_u64 0x200000005) (fxid_xid (from_u64 0x1FFFFFFF0))) = 1"
proof -
  have "fxid_close (from_u64 0x1FFFFFFF0) (from_u64 0x200000005)"
    by (simp add: fxid_close_def from_u64_def)
  from FullXidRelativeTo_recovers [OF this]
  have "fxid_epoch (FullXidRelativeTo (from_u64 0x200000005) (fxid_xid (from_u64 0x1FFFFFFF0)))
      = fxid_epoch (from_u64 0x1FFFFFFF0)"
    by blast
  also have "\<dots> = 1"
    by (simp add: fxid_epoch_def from_u64_def)
  finally show ?thesis .
qed

subsection \<open>Advancing\<close>

lemma skip_special_normal: "\<not> ucast (skip_special v) < (3 :: 32 word)"
proof (induction v rule: skip_special.induct)
  case (1 v)
  then show ?case
    by (subst skip_special.simps) (simp add: fxid_xid_def FirstNormalTransactionId_def)
qed

lemma special_xid_cases: "x < (3 :: 32 word) \<longleftrightarrow> x = 0 \<or> x = 1 \<or> x = 2"
  by (auto simp: word_less_nat_alt word_unat_eq_iff)

lemma skip_special_xid:
  "(ucast (skip_special v) :: 32 word) = (if ucast v < (3 :: 32 word) then 3 else ucast v)"
proof (induction v rule: skip_special.induct)
  case (1 v)
  show ?case
  proof (cases "ucast v < (3 :: 32 word)")
    case True
    then have "ucast (v + 1) < (3 :: 32 word) \<or> ucast (v + 1) = (3 :: 32 word)"
      by (auto simp: special_xid_cases ucast_32_add)
    with 1 True show ?thesis
      by (subst skip_special.simps) (auto simp: fxid_xid_def FirstNormalTransactionId_def)
  next
    case False
    then show ?thesis
      by (subst skip_special.simps) (simp add: fxid_xid_def FirstNormalTransactionId_def)
  qed
qed

lemma special_not_max:
  assumes "ucast (v :: u64) < (3 :: 32 word)"
  shows "v \<noteq> - 1"
proof
  assume "v = - 1"
  then have "bit (ucast v :: 32 word) 5"
    by (simp add: bit_simps)
  moreover have "\<not> bit (ucast v :: 32 word) 5"
    using assms unfolding special_xid_cases by (elim disjE) (simp_all only:, simp_all add: bit_simps)
  ultimately show False
    by simp
qed

lemma skip_special_least:
  "v \<le> skip_special v \<and> (\<forall>w. v \<le> w \<and> w < skip_special v \<longrightarrow> ucast w < (3 :: 32 word))"
proof (induction v rule: skip_special.induct)
  case (1 v)
  show ?case
  proof (cases "ucast v < (3 :: 32 word)")
    case True
    then have lt: "v < v + 1"
      using special_not_max [OF True] by (simp add: inc_less_eq_self_iff_eq flip: not_le)
    have "w = v \<or> v + 1 \<le> w" if "v \<le> w" for w
      using that by (auto simp: inc_less_eq_iff)
    with 1 True lt show ?thesis
      by (subst (1 2) skip_special.simps) (auto simp: fxid_xid_def FirstNormalTransactionId_def)
  next
    case False
    then show ?thesis
      by (subst (1 2) skip_special.simps) (auto simp: fxid_xid_def FirstNormalTransactionId_def)
  qed
qed

lemma fxid_xid_Advance: "fxid_xid (FullTransactionIdAdvance f) = TransactionIdAdvance (fxid_xid f)"
  by (simp add: fxid_xid_def FullTransactionIdAdvance_def TransactionIdAdvance_def
      FirstNormalTransactionId_def skip_special_xid ucast_32_add)

text \<open>
  Advancing the 64-bit next-transaction counter and advancing its 32-bit half agree; the
  result is a normal id; and unless the 64-bit counter is exhausted it is the least normal
  full id above the old value, so no assignable id is skipped.
\<close>

theorem FullTransactionIdAdvance_next_normal:
  assumes "fxid_value f \<noteq> - 1"
  shows "fxid_xid (FullTransactionIdAdvance f) = TransactionIdAdvance (fxid_xid f)
       \<and> fxid_is_normal (FullTransactionIdAdvance f)
       \<and> fxid_precedes f (FullTransactionIdAdvance f)
       \<and> (\<forall>g. fxid_is_normal g \<longrightarrow> fxid_precedes f g
            \<longrightarrow> fxid_precedes_or_equals (FullTransactionIdAdvance f) g)"
proof (intro conjI allI impI)
  have lt: "fxid_value f < fxid_value f + 1"
    using assms by (simp add: inc_less_eq_self_iff_eq flip: not_le)
  then show "fxid_precedes f (FullTransactionIdAdvance f)"
    using skip_special_least [of "fxid_value f + 1"]
    by (auto simp: fxid_precedes_def FullTransactionIdAdvance_def)
  fix g assume g: "fxid_is_normal g" "fxid_precedes f g"
  then have "fxid_value f + 1 \<le> fxid_value g"
    by (simp add: inc_le fxid_precedes_def)
  with g show "fxid_precedes_or_equals (FullTransactionIdAdvance f) g"
    using skip_special_least [of "fxid_value f + 1"]
    by (auto simp: fxid_precedes_or_equals_def FullTransactionIdAdvance_def fxid_is_normal_def
        TransactionIdIsNormal_iff fxid_xid_def not_le [symmetric])
qed (simp_all add: fxid_xid_Advance fxid_is_normal_def TransactionIdIsNormal_iff
      TransactionIdAdvance_def FirstNormalTransactionId_def Let_def not_less)

theorem FullTransactionIdAdvance_next_normal_witness:
  "fxid_is_normal (FullTransactionIdAdvance (from_u64 0x1FFFFFFFF))
     \<and> fxid_precedes (from_u64 0x1FFFFFFFF) (FullTransactionIdAdvance (from_u64 0x1FFFFFFFF))"
proof -
  have "fxid_value (from_u64 0x1FFFFFFFF) \<noteq> - 1"
    by (simp add: from_u64_def)
  from FullTransactionIdAdvance_next_normal [OF this] show ?thesis
    by blast
qed

end
