(* ===== verification/ItemPtr.thy ===== *)
theory ItemPtr
  imports PgPrelude
begin

unbundle bit_operations_syntax

section \<open>Item pointers\<close>

text \<open>
  Block ids, offset numbers and item pointers (tuple ids) of
  \<^verbatim>\<open>crates/_support/types/types_tuple/src/itemptr.rs\<close>: a 32-bit block number stored as two
  16-bit halves and a 16-bit offset. The theorems are the round trip of the 64-bit sort key, that
  the three-way comparison is the order of those keys, and that stepping forward and backward
  follows that order.
\<close>

type_synonym OffsetNumber = u16

definition InvalidBlockNumber :: BlockNumber where "InvalidBlockNumber = 0xFFFFFFFF"
definition InvalidOffsetNumber :: OffsetNumber where "InvalidOffsetNumber = 0"
definition FirstOffsetNumber :: OffsetNumber where "FirstOffsetNumber = 1"
definition MaxOffsetNumber :: OffsetNumber where "MaxOffsetNumber = 2048"
definition SpecTokenOffsetNumber :: OffsetNumber where "SpecTokenOffsetNumber = 0xfffe"
definition MovedPartitionsOffsetNumber :: OffsetNumber where "MovedPartitionsOffsetNumber = 0xfffd"
definition MovedPartitionsBlockNumber :: BlockNumber where
  "MovedPartitionsBlockNumber = InvalidBlockNumber"

definition OffsetNumberIsValid :: "OffsetNumber \<Rightarrow> bool" where
  "OffsetNumberIsValid off \<longleftrightarrow> off \<noteq> InvalidOffsetNumber \<and> off \<le> MaxOffsetNumber"

record BlockIdData =
  bi_hi :: u16
  bi_lo :: u16

definition BlockIdSet :: "BlockIdData \<Rightarrow> BlockNumber \<Rightarrow> BlockIdData" where
  "BlockIdSet blockId blockNumber =
     blockId \<lparr> bi_hi := ucast (drop_bit 16 blockNumber), bi_lo := ucast (blockNumber AND 0xffff) \<rparr>"

definition BlockIdGetBlockNumber :: "BlockIdData \<Rightarrow> BlockNumber" where
  "BlockIdGetBlockNumber blockId = push_bit 16 (ucast (bi_hi blockId)) OR ucast (bi_lo blockId)"

definition BlockIdIsValid :: "BlockIdData \<Rightarrow> bool" where
  "BlockIdIsValid blockId \<longleftrightarrow> BlockIdGetBlockNumber blockId \<noteq> InvalidBlockNumber"

record ItemPointerData =
  ip_blkid :: BlockIdData
  ip_posid :: OffsetNumber

definition ItemPointerNew :: "BlockNumber \<Rightarrow> OffsetNumber \<Rightarrow> ItemPointerData" where
  "ItemPointerNew blockNumber offNum =
     \<lparr> ip_blkid = \<lparr> bi_hi = ucast (drop_bit 16 blockNumber), bi_lo = ucast (blockNumber AND 0xffff) \<rparr>,
       ip_posid = offNum \<rparr>"

definition ItemPointerInvalid :: ItemPointerData where
  "ItemPointerInvalid = ItemPointerNew InvalidBlockNumber InvalidOffsetNumber"

definition ItemPointerIsValid :: "ItemPointerData \<Rightarrow> bool" where
  "ItemPointerIsValid p \<longleftrightarrow> ip_posid p \<noteq> 0"

definition ItemPointerGetBlockNumberNoCheck :: "ItemPointerData \<Rightarrow> BlockNumber" where
  "ItemPointerGetBlockNumberNoCheck p = BlockIdGetBlockNumber (ip_blkid p)"

definition ItemPointerGetBlockNumber :: "ItemPointerData \<Rightarrow> BlockNumber" where
  "ItemPointerGetBlockNumber p = ItemPointerGetBlockNumberNoCheck p"

definition ItemPointerGetOffsetNumberNoCheck :: "ItemPointerData \<Rightarrow> OffsetNumber" where
  "ItemPointerGetOffsetNumberNoCheck p = ip_posid p"

definition ItemPointerGetOffsetNumber :: "ItemPointerData \<Rightarrow> OffsetNumber" where
  "ItemPointerGetOffsetNumber p = ItemPointerGetOffsetNumberNoCheck p"

definition ItemPointerSet :: "ItemPointerData \<Rightarrow> BlockNumber \<Rightarrow> OffsetNumber \<Rightarrow> ItemPointerData" where
  "ItemPointerSet p blockNumber offNum =
     p \<lparr> ip_blkid := BlockIdSet (ip_blkid p) blockNumber, ip_posid := offNum \<rparr>"

definition ItemPointerSetBlockNumber :: "ItemPointerData \<Rightarrow> BlockNumber \<Rightarrow> ItemPointerData" where
  "ItemPointerSetBlockNumber p blockNumber =
     p \<lparr> ip_blkid := BlockIdSet (ip_blkid p) blockNumber \<rparr>"

definition ItemPointerSetOffsetNumber :: "ItemPointerData \<Rightarrow> OffsetNumber \<Rightarrow> ItemPointerData" where
  "ItemPointerSetOffsetNumber p off = p \<lparr> ip_posid := off \<rparr>"

definition ItemPointerSetInvalid :: "ItemPointerData \<Rightarrow> ItemPointerData" where
  "ItemPointerSetInvalid p =
     p \<lparr> ip_blkid := BlockIdSet (ip_blkid p) InvalidBlockNumber, ip_posid := InvalidOffsetNumber \<rparr>"

definition ItemPointerIndicatesMovedPartitions :: "ItemPointerData \<Rightarrow> bool" where
  "ItemPointerIndicatesMovedPartitions p \<longleftrightarrow>
     ItemPointerGetOffsetNumber p = MovedPartitionsOffsetNumber
     \<and> ItemPointerGetBlockNumberNoCheck p = MovedPartitionsBlockNumber"

definition ItemPointerSetMovedPartitions :: "ItemPointerData \<Rightarrow> ItemPointerData" where
  "ItemPointerSetMovedPartitions p =
     ItemPointerSet p MovedPartitionsBlockNumber MovedPartitionsOffsetNumber"

definition ItemPointerEquals :: "ItemPointerData \<Rightarrow> ItemPointerData \<Rightarrow> bool" where
  "ItemPointerEquals p q \<longleftrightarrow>
     ItemPointerGetBlockNumber p = ItemPointerGetBlockNumber q
     \<and> ItemPointerGetOffsetNumber p = ItemPointerGetOffsetNumber q"

definition itemptr_encode :: "ItemPointerData \<Rightarrow> 64 word" where
  "itemptr_encode p =
     push_bit 16 (ucast (ItemPointerGetBlockNumber p)) OR ucast (ItemPointerGetOffsetNumber p)"

definition itemptr_decode :: "64 word \<Rightarrow> ItemPointerData" where
  "itemptr_decode encoded =
     ItemPointerNew (ucast (signed_drop_bit 16 encoded)) (ucast (encoded AND 0xffff))"

definition ItemPointerCompare :: "ItemPointerData \<Rightarrow> ItemPointerData \<Rightarrow> int" where
  "ItemPointerCompare a b =
     (let b1 = ItemPointerGetBlockNumberNoCheck a; b2 = ItemPointerGetBlockNumberNoCheck b in
      if b1 < b2 then -1
      else if b1 > b2 then 1
      else if ItemPointerGetOffsetNumberNoCheck a < ItemPointerGetOffsetNumberNoCheck b then -1
      else if ItemPointerGetOffsetNumberNoCheck a > ItemPointerGetOffsetNumberNoCheck b then 1
      else 0)"

definition ItemPointerInc :: "ItemPointerData \<Rightarrow> ItemPointerData" where
  "ItemPointerInc p =
     (let blk = ItemPointerGetBlockNumberNoCheck p; off = ItemPointerGetOffsetNumberNoCheck p in
      if off = 0xffff then
        (if blk \<noteq> InvalidBlockNumber then ItemPointerSet p (blk + 1) 0 else ItemPointerSet p blk off)
      else ItemPointerSet p blk (off + 1))"

definition ItemPointerDec :: "ItemPointerData \<Rightarrow> ItemPointerData" where
  "ItemPointerDec p =
     (let blk = ItemPointerGetBlockNumberNoCheck p; off = ItemPointerGetOffsetNumberNoCheck p in
      if off = 0 then
        (if blk \<noteq> 0 then ItemPointerSet p (blk - 1) 0xffff else ItemPointerSet p blk off)
      else ItemPointerSet p blk (off - 1))"

lemmas itemptr_get_defs =
  ItemPointerGetBlockNumber_def ItemPointerGetBlockNumberNoCheck_def
  ItemPointerGetOffsetNumber_def ItemPointerGetOffsetNumberNoCheck_def

subsection \<open>Block ids\<close>

lemma mask_ffff: "(0xffff :: 'a::len word) = mask 16"
  by (simp add: mask_eq_exp_minus_1)

lemma BlockIdGet_BlockIdSet [simp]: "BlockIdGetBlockNumber (BlockIdSet b n) = n"
  unfolding BlockIdGetBlockNumber_def BlockIdSet_def mask_ffff
  by (rule bit_word_eqI) (auto simp: bit_simps)

lemma BlockIdSet_BlockIdGet [simp]: "BlockIdSet b (BlockIdGetBlockNumber c) = c"
proof -
  have "ucast (drop_bit 16 (BlockIdGetBlockNumber c)) = bi_hi c"
    by (rule bit_word_eqI) (auto simp: BlockIdGetBlockNumber_def bit_simps dest: bit_imp_le_length)
  moreover have "ucast (BlockIdGetBlockNumber c AND 0xffff) = bi_lo c"
    unfolding BlockIdGetBlockNumber_def mask_ffff
    by (rule bit_word_eqI) (auto simp: bit_simps)
  ultimately show ?thesis
    by (simp add: BlockIdSet_def)
qed

lemma ItemPointerSet_get [simp]:
  "ItemPointerGetBlockNumberNoCheck (ItemPointerSet p b off) = b"
  "ItemPointerGetOffsetNumberNoCheck (ItemPointerSet p b off) = off"
  "ItemPointerGetBlockNumber (ItemPointerSet p b off) = b"
  "ItemPointerGetOffsetNumber (ItemPointerSet p b off) = off"
  by (simp_all add: ItemPointerSet_def itemptr_get_defs)

lemma ItemPointerNew_Set: "ItemPointerNew b off = ItemPointerSet p b off"
  by (simp add: ItemPointerNew_def ItemPointerSet_def BlockIdSet_def)

lemma ItemPointer_eq_iff:
  "p = q \<longleftrightarrow> ItemPointerGetBlockNumberNoCheck p = ItemPointerGetBlockNumberNoCheck q
            \<and> ItemPointerGetOffsetNumberNoCheck p = ItemPointerGetOffsetNumberNoCheck q"
proof -
  have "BlockIdGetBlockNumber a = BlockIdGetBlockNumber b \<longleftrightarrow> a = b" for a b :: BlockIdData
    by (metis BlockIdSet_BlockIdGet)
  then show ?thesis
    by (auto simp: itemptr_get_defs)
qed

subsection \<open>The 64-bit key\<close>

definition itemptr_key :: "ItemPointerData \<Rightarrow> nat" where
  "itemptr_key p = unat (ItemPointerGetBlockNumber p) * 2 ^ 16 + unat (ItemPointerGetOffsetNumber p)"

lemma itemptr_key_less: "itemptr_key p < 2 ^ 48"
  using unat_bounds(3) [of "ItemPointerGetBlockNumber p"]
    unat_bounds(2) [of "ItemPointerGetOffsetNumber p"]
  by (simp add: itemptr_key_def)

lemma unat_itemptr_encode: "unat (itemptr_encode p) = itemptr_key p"
proof -
  let ?b = "ItemPointerGetBlockNumber p" and ?o = "ItemPointerGetOffsetNumber p"
  have "itemptr_encode p = push_bit 16 (ucast ?b) + ucast ?o"
    unfolding itemptr_encode_def
    by (rule sym, rule disjunctive_add) (auto simp: bit_simps dest: bit_imp_le_length)
  also have "\<dots> = word_of_nat (itemptr_key p)"
    by (simp add: itemptr_key_def push_bit_eq_mult)
  finally have "unat (itemptr_encode p) = take_bit 64 (itemptr_key p)"
    by (simp add: unsigned_of_nat)
  moreover have "itemptr_key p < 2 ^ 48"
    by (rule itemptr_key_less)
  ultimately show ?thesis
    by (simp add: take_bit_nat_eq_self)
qed

lemma sint_itemptr_encode: "sint (itemptr_encode p) = int (itemptr_key p)"
proof -
  have "uint (itemptr_encode p) = int (itemptr_key p)"
    by (simp flip: unat_itemptr_encode)
  moreover have "sint (itemptr_encode p) = signed_take_bit 63 (uint (itemptr_encode p))"
    by (simp add: signed_take_bit_eq_if_positive sint_uint)
  moreover have "signed_take_bit 63 (int (itemptr_key p)) = int (itemptr_key p)"
    using itemptr_key_less [of p] by (intro signed_take_bit_int_eq_self) simp_all
  ultimately show ?thesis
    by simp
qed

lemma itemptr_decode_encode [simp]: "itemptr_decode (itemptr_encode p) = p"
proof -
  have "ucast (signed_drop_bit 16 (itemptr_encode p)) = ItemPointerGetBlockNumber p"
    by (rule bit_word_eqI)
      (auto simp: itemptr_encode_def bit_simps bit_signed_drop_bit_iff dest: bit_imp_le_length)
  moreover have "ucast (itemptr_encode p AND 0xffff) = ItemPointerGetOffsetNumber p"
    unfolding itemptr_encode_def mask_ffff
    by (rule bit_word_eqI) (auto simp: bit_simps dest: bit_imp_le_length)
  ultimately show ?thesis
    unfolding itemptr_decode_def ItemPointerNew_Set [of _ _ p] ItemPointer_eq_iff
    by (simp, simp add: itemptr_get_defs)
qed

lemma sgn_lex_key:
  fixes b1 b2 o1 o2 :: nat
  assumes "o1 < 65536" and "o2 < 65536"
  shows "sgn (int (b1 * 65536 + o1) - int (b2 * 65536 + o2)) =
     (if b1 < b2 then - 1 else if b1 > b2 then 1 else if o1 < o2 then - 1 else if o1 > o2 then 1 else 0)"
  using assms by (auto simp: sgn_if not_less)

lemma ItemPointerCompare_key:
  "ItemPointerCompare a b = sgn (int (itemptr_key a) - int (itemptr_key b))"
proof -
  have "sgn (int (itemptr_key a) - int (itemptr_key b)) =
    (let b1 = unat (ItemPointerGetBlockNumber a); b2 = unat (ItemPointerGetBlockNumber b);
         o1 = unat (ItemPointerGetOffsetNumber a); o2 = unat (ItemPointerGetOffsetNumber b) in
     if b1 < b2 then - 1 else if b1 > b2 then 1 else if o1 < o2 then - 1 else if o1 > o2 then 1 else 0)"
    using sgn_lex_key [OF unat_bounds(2) unat_bounds(2)]
    by (simp add: itemptr_key_def Let_def del: of_nat_add of_nat_mult)
  then show ?thesis
    by (simp add: ItemPointerCompare_def Let_def word_less_nat_alt itemptr_get_defs)
qed

text \<open>
  The sort key of a tuple id is faithful. Decoding the 64-bit key gives back the tuple id, and
  the sign of the three-way comparison of two tuple ids is the sign of the difference of their
  keys read as signed 64-bit integers, so sorting keys sorts tuple ids by block and offset.
\<close>

theorem itemptr_key_faithful:
  "itemptr_decode (itemptr_encode a) = a
   \<and> ItemPointerCompare a b = sgn (sint (itemptr_encode a) - sint (itemptr_encode b))
   \<and> (ItemPointerCompare a b = 0 \<longleftrightarrow> a = b)"
proof -
  have "itemptr_encode a = itemptr_encode b \<longleftrightarrow> a = b"
    by (metis itemptr_decode_encode)
  then have "itemptr_key a = itemptr_key b \<longleftrightarrow> a = b"
    by (simp add: word_unat_eq_iff flip: unat_itemptr_encode)
  then show ?thesis
    by (simp add: ItemPointerCompare_key sint_itemptr_encode sgn_eq_0_iff)
qed

lemma ItemPointerSet_self [simp]:
  "ItemPointerSet p (ItemPointerGetBlockNumberNoCheck p) (ItemPointerGetOffsetNumberNoCheck p) = p"
  by (simp add: ItemPointer_eq_iff)

lemma ItemPointerSet_Set [simp]: "ItemPointerSet (ItemPointerSet p b off) b' off' = ItemPointerSet p b' off'"
  by (simp add: ItemPointer_eq_iff)

lemma itemptr_key_Set: "itemptr_key (ItemPointerSet p b off) = unat b * 2 ^ 16 + unat off"
  by (simp add: itemptr_key_def)

text \<open>
  Stepping is exact. Below the largest tuple id \<^verbatim>\<open>ItemPointerInc\<close> moves to the tuple id
  whose key is the next one, crossing into the next block after offset 65535, and
  \<^verbatim>\<open>ItemPointerDec\<close> undoes it.
\<close>

theorem ItemPointerInc_next:
  assumes "ItemPointerCompare p (ItemPointerNew InvalidBlockNumber 0xffff) = - 1"
  shows "sint (itemptr_encode (ItemPointerInc p)) = sint (itemptr_encode p) + 1
       \<and> ItemPointerDec (ItemPointerInc p) = p"
proof -
  let ?b = "ItemPointerGetBlockNumberNoCheck p" and ?o = "ItemPointerGetOffsetNumberNoCheck p"
  have lt: "itemptr_key p < itemptr_key (ItemPointerNew InvalidBlockNumber 0xffff)"
    using assms by (simp add: ItemPointerCompare_key sgn_if split: if_splits)
  have key: "itemptr_key p = unat ?b * 65536 + unat ?o"
    by (simp add: itemptr_key_def ItemPointerGetBlockNumber_def ItemPointerGetOffsetNumber_def)
  show ?thesis
  proof (cases "?o = 0xffff")
    case True
    have nb: "?b \<noteq> 0xffffffff"
      using lt key True by (auto simp: itemptr_key_Set ItemPointerNew_Set [of _ _ p] InvalidBlockNumber_def)
    then have b1: "?b + 1 \<noteq> 0"
      by (simp add: word_plus_1_eq_0)
    have "ItemPointerInc p = ItemPointerSet p (?b + 1) 0"
      using True nb by (simp add: ItemPointerInc_def InvalidBlockNumber_def)
    moreover have "ItemPointerDec (ItemPointerSet p (?b + 1) 0) = p"
      using b1 True ItemPointerSet_self [of p] by (simp add: ItemPointerDec_def)
    ultimately show ?thesis
      using True key b1 by (simp add: sint_itemptr_encode itemptr_key_Set unat_Suc_word)
  next
    case False
    then have o1: "?o + 1 \<noteq> 0"
      by (simp add: word_plus_1_eq_0)
    have "ItemPointerInc p = ItemPointerSet p ?b (?o + 1)"
      using False by (simp add: ItemPointerInc_def)
    moreover have "ItemPointerDec (ItemPointerSet p ?b (?o + 1)) = p"
      using o1 by (simp add: ItemPointerDec_def)
    ultimately show ?thesis
      using key o1 by (simp add: sint_itemptr_encode itemptr_key_Set unat_Suc_word)
  qed
qed

theorem ItemPointerInc_next_witness:
  "ItemPointerDec (ItemPointerInc (ItemPointerNew 7 0xffff)) = ItemPointerNew 7 0xffff"
proof -
  have "ItemPointerCompare (ItemPointerNew 7 0xffff) (ItemPointerNew InvalidBlockNumber 0xffff) = - 1"
    by (simp add: ItemPointerCompare_def ItemPointerNew_def itemptr_get_defs BlockIdGetBlockNumber_def
        InvalidBlockNumber_def)
  from ItemPointerInc_next [OF this] show ?thesis
    by blast
qed

end
