(* ===== verification/HeapTuple.thy ===== *)
theory HeapTuple
  imports Xid ItemPtr
begin

unbundle bit_operations_syntax

section \<open>Heap tuple headers\<close>

text \<open>
  The heap tuple header of \<^verbatim>\<open>crates/_support/types/types_tuple/src/htup.rs\<close>: the flag bits of
  \<^verbatim>\<open>t_infomask\<close> and \<^verbatim>\<open>t_infomask2\<close>, the header record and its accessors. The C union of
  the command id and the old-VACUUM transaction id is the single word \<open>t_field3\<close>, as in the
  source. Every mask test is rewritten to single bits by the \<open>bit_rules\<close> collection.
\<close>

subsection \<open>Flags\<close>

definition HEAP_HASEXTERNAL :: u16 where "HEAP_HASEXTERNAL = 0x0004"
definition HEAP_XMAX_KEYSHR_LOCK :: u16 where "HEAP_XMAX_KEYSHR_LOCK = 0x0010"
definition HEAP_COMBOCID :: u16 where "HEAP_COMBOCID = 0x0020"
definition HEAP_XMAX_EXCL_LOCK :: u16 where "HEAP_XMAX_EXCL_LOCK = 0x0040"
definition HEAP_XMAX_LOCK_ONLY :: u16 where "HEAP_XMAX_LOCK_ONLY = 0x0080"
definition HEAP_XMAX_SHR_LOCK :: u16 where
  "HEAP_XMAX_SHR_LOCK = HEAP_XMAX_EXCL_LOCK OR HEAP_XMAX_KEYSHR_LOCK"
definition HEAP_LOCK_MASK :: u16 where
  "HEAP_LOCK_MASK = HEAP_XMAX_SHR_LOCK OR HEAP_XMAX_EXCL_LOCK OR HEAP_XMAX_KEYSHR_LOCK"
definition HEAP_XMIN_COMMITTED :: u16 where "HEAP_XMIN_COMMITTED = 0x0100"
definition HEAP_XMIN_INVALID :: u16 where "HEAP_XMIN_INVALID = 0x0200"
definition HEAP_XMIN_FROZEN :: u16 where
  "HEAP_XMIN_FROZEN = HEAP_XMIN_COMMITTED OR HEAP_XMIN_INVALID"
definition HEAP_XMAX_COMMITTED :: u16 where "HEAP_XMAX_COMMITTED = 0x0400"
definition HEAP_XMAX_INVALID :: u16 where "HEAP_XMAX_INVALID = 0x0800"
definition HEAP_XMAX_IS_MULTI :: u16 where "HEAP_XMAX_IS_MULTI = 0x1000"
definition HEAP_MOVED_OFF :: u16 where "HEAP_MOVED_OFF = 0x4000"
definition HEAP_MOVED_IN :: u16 where "HEAP_MOVED_IN = 0x8000"
definition HEAP_MOVED :: u16 where "HEAP_MOVED = HEAP_MOVED_OFF OR HEAP_MOVED_IN"
definition HEAP_NATTS_MASK :: u16 where "HEAP_NATTS_MASK = 0x07FF"
definition HEAP_HOT_UPDATED :: u16 where "HEAP_HOT_UPDATED = 0x4000"
definition HEAP_ONLY_TUPLE :: u16 where "HEAP_ONLY_TUPLE = 0x8000"

lemmas infomask_defs =
  HEAP_HASEXTERNAL_def HEAP_XMAX_KEYSHR_LOCK_def
  HEAP_COMBOCID_def HEAP_XMAX_EXCL_LOCK_def HEAP_XMAX_LOCK_ONLY_def HEAP_XMAX_SHR_LOCK_def
  HEAP_LOCK_MASK_def HEAP_XMIN_COMMITTED_def HEAP_XMIN_INVALID_def HEAP_XMIN_FROZEN_def
  HEAP_XMAX_COMMITTED_def HEAP_XMAX_INVALID_def HEAP_XMAX_IS_MULTI_def
  HEAP_MOVED_OFF_def HEAP_MOVED_IN_def HEAP_MOVED_def HEAP_NATTS_MASK_def
  HEAP_HOT_UPDATED_def HEAP_ONLY_TUPLE_def

definition HEAP_XMAX_IS_LOCKED_ONLY :: "u16 \<Rightarrow> bool" where
  "HEAP_XMAX_IS_LOCKED_ONLY infomask \<longleftrightarrow>
     infomask AND HEAP_XMAX_LOCK_ONLY \<noteq> 0
     \<or> infomask AND (HEAP_XMAX_IS_MULTI OR HEAP_LOCK_MASK) = HEAP_XMAX_EXCL_LOCK"

definition HEAP_LOCKED_UPGRADED :: "u16 \<Rightarrow> bool" where
  "HEAP_LOCKED_UPGRADED infomask \<longleftrightarrow>
     infomask AND HEAP_XMAX_IS_MULTI \<noteq> 0
     \<and> infomask AND HEAP_XMAX_LOCK_ONLY \<noteq> 0
     \<and> infomask AND (HEAP_XMAX_EXCL_LOCK OR HEAP_XMAX_KEYSHR_LOCK) = 0"

definition HEAP_XMAX_IS_SHR_LOCKED :: "u16 \<Rightarrow> bool" where
  "HEAP_XMAX_IS_SHR_LOCKED infomask \<longleftrightarrow> infomask AND HEAP_LOCK_MASK = HEAP_XMAX_SHR_LOCK"

definition HEAP_XMAX_IS_EXCL_LOCKED :: "u16 \<Rightarrow> bool" where
  "HEAP_XMAX_IS_EXCL_LOCKED infomask \<longleftrightarrow> infomask AND HEAP_LOCK_MASK = HEAP_XMAX_EXCL_LOCK"

definition HEAP_XMAX_IS_KEYSHR_LOCKED :: "u16 \<Rightarrow> bool" where
  "HEAP_XMAX_IS_KEYSHR_LOCKED infomask \<longleftrightarrow> infomask AND HEAP_LOCK_MASK = HEAP_XMAX_KEYSHR_LOCK"

subsection \<open>The header and its accessors\<close>

record HeapTupleHeaderData =
  t_xmin :: TransactionId
  t_xmax :: TransactionId
  t_field3 :: u32
  t_ctid :: ItemPointerData
  t_infomask2 :: u16
  t_infomask :: u16
  t_hoff :: u8

definition xmin_raw :: "HeapTupleHeaderData \<Rightarrow> TransactionId" where
  "xmin_raw tup = t_xmin tup"

definition xmin_committed :: "HeapTupleHeaderData \<Rightarrow> bool" where
  "xmin_committed tup \<longleftrightarrow> t_infomask tup AND HEAP_XMIN_COMMITTED \<noteq> 0"

definition xmin_invalid :: "HeapTupleHeaderData \<Rightarrow> bool" where
  "xmin_invalid tup \<longleftrightarrow>
     t_infomask tup AND (HEAP_XMIN_COMMITTED OR HEAP_XMIN_INVALID) = HEAP_XMIN_INVALID"

definition xmin_frozen :: "HeapTupleHeaderData \<Rightarrow> bool" where
  "xmin_frozen tup \<longleftrightarrow> t_infomask tup AND HEAP_XMIN_FROZEN = HEAP_XMIN_FROZEN"

definition xmin :: "HeapTupleHeaderData \<Rightarrow> TransactionId" where
  "xmin tup = (if xmin_frozen tup then FrozenTransactionId else xmin_raw tup)"

definition set_xmin :: "HeapTupleHeaderData \<Rightarrow> TransactionId \<Rightarrow> HeapTupleHeaderData" where
  "set_xmin tup xid = tup \<lparr> t_xmin := xid \<rparr>"

definition set_xmin_committed :: "HeapTupleHeaderData \<Rightarrow> HeapTupleHeaderData" where
  "set_xmin_committed tup = tup \<lparr> t_infomask := t_infomask tup OR HEAP_XMIN_COMMITTED \<rparr>"

definition set_xmin_invalid :: "HeapTupleHeaderData \<Rightarrow> HeapTupleHeaderData" where
  "set_xmin_invalid tup = tup \<lparr> t_infomask := t_infomask tup OR HEAP_XMIN_INVALID \<rparr>"

definition set_xmin_frozen :: "HeapTupleHeaderData \<Rightarrow> HeapTupleHeaderData" where
  "set_xmin_frozen tup = tup \<lparr> t_infomask := t_infomask tup OR HEAP_XMIN_FROZEN \<rparr>"

definition xmax_raw :: "HeapTupleHeaderData \<Rightarrow> TransactionId" where
  "xmax_raw tup = t_xmax tup"

definition set_xmax :: "HeapTupleHeaderData \<Rightarrow> TransactionId \<Rightarrow> HeapTupleHeaderData" where
  "set_xmax tup xid = tup \<lparr> t_xmax := xid \<rparr>"

definition raw_command_id :: "HeapTupleHeaderData \<Rightarrow> CommandId" where
  "raw_command_id tup = t_field3 tup"

definition set_cmin :: "HeapTupleHeaderData \<Rightarrow> CommandId \<Rightarrow> HeapTupleHeaderData" where
  "set_cmin tup cid = tup \<lparr> t_field3 := cid, t_infomask := t_infomask tup AND NOT HEAP_COMBOCID \<rparr>"

definition set_cmax :: "HeapTupleHeaderData \<Rightarrow> CommandId \<Rightarrow> bool \<Rightarrow> HeapTupleHeaderData" where
  "set_cmax tup cid iscombo =
     tup \<lparr> t_field3 := cid,
           t_infomask := (if iscombo then t_infomask tup OR HEAP_COMBOCID
                          else t_infomask tup AND NOT HEAP_COMBOCID) \<rparr>"

definition xvac :: "HeapTupleHeaderData \<Rightarrow> TransactionId" where
  "xvac tup = (if t_infomask tup AND HEAP_MOVED \<noteq> 0 then t_field3 tup else InvalidTransactionId)"

definition set_xvac :: "HeapTupleHeaderData \<Rightarrow> TransactionId \<Rightarrow> HeapTupleHeaderData" where
  "set_xvac tup xid = tup \<lparr> t_field3 := xid \<rparr>"

definition is_speculative :: "HeapTupleHeaderData \<Rightarrow> bool" where
  "is_speculative tup \<longleftrightarrow> ItemPointerGetOffsetNumberNoCheck (t_ctid tup) = SpecTokenOffsetNumber"

definition speculative_token :: "HeapTupleHeaderData \<Rightarrow> BlockNumber" where
  "speculative_token tup = ItemPointerGetBlockNumber (t_ctid tup)"

definition set_speculative_token :: "HeapTupleHeaderData \<Rightarrow> BlockNumber \<Rightarrow> HeapTupleHeaderData" where
  "set_speculative_token tup token =
     tup \<lparr> t_ctid := ItemPointerSet (t_ctid tup) token SpecTokenOffsetNumber \<rparr>"

definition indicates_moved_partitions :: "HeapTupleHeaderData \<Rightarrow> bool" where
  "indicates_moved_partitions tup = ItemPointerIndicatesMovedPartitions (t_ctid tup)"

definition set_moved_partitions :: "HeapTupleHeaderData \<Rightarrow> HeapTupleHeaderData" where
  "set_moved_partitions tup = tup \<lparr> t_ctid := ItemPointerSetMovedPartitions (t_ctid tup) \<rparr>"

definition is_hot_updated :: "HeapTupleHeaderData \<Rightarrow> bool" where
  "is_hot_updated tup \<longleftrightarrow>
     t_infomask2 tup AND HEAP_HOT_UPDATED \<noteq> 0
     \<and> t_infomask tup AND HEAP_XMAX_INVALID = 0
     \<and> \<not> xmin_invalid tup"

definition set_hot_updated :: "HeapTupleHeaderData \<Rightarrow> HeapTupleHeaderData" where
  "set_hot_updated tup = tup \<lparr> t_infomask2 := t_infomask2 tup OR HEAP_HOT_UPDATED \<rparr>"

definition clear_hot_updated :: "HeapTupleHeaderData \<Rightarrow> HeapTupleHeaderData" where
  "clear_hot_updated tup = tup \<lparr> t_infomask2 := t_infomask2 tup AND NOT HEAP_HOT_UPDATED \<rparr>"

definition is_heap_only :: "HeapTupleHeaderData \<Rightarrow> bool" where
  "is_heap_only tup \<longleftrightarrow> t_infomask2 tup AND HEAP_ONLY_TUPLE \<noteq> 0"

definition set_heap_only :: "HeapTupleHeaderData \<Rightarrow> HeapTupleHeaderData" where
  "set_heap_only tup = tup \<lparr> t_infomask2 := t_infomask2 tup OR HEAP_ONLY_TUPLE \<rparr>"

definition clear_heap_only :: "HeapTupleHeaderData \<Rightarrow> HeapTupleHeaderData" where
  "clear_heap_only tup = tup \<lparr> t_infomask2 := t_infomask2 tup AND NOT HEAP_ONLY_TUPLE \<rparr>"

definition natts :: "HeapTupleHeaderData \<Rightarrow> u16" where
  "natts tup = t_infomask2 tup AND HEAP_NATTS_MASK"

definition set_natts :: "HeapTupleHeaderData \<Rightarrow> u16 \<Rightarrow> HeapTupleHeaderData" where
  "set_natts tup n = tup \<lparr> t_infomask2 := (t_infomask2 tup AND NOT HEAP_NATTS_MASK) OR n \<rparr>"

definition has_external :: "HeapTupleHeaderData \<Rightarrow> bool" where
  "has_external tup \<longleftrightarrow> t_infomask tup AND HEAP_HASEXTERNAL \<noteq> 0"

subsection \<open>Mask tests as bits\<close>

lemma word16_eq_bits: "(v :: u16) = w \<longleftrightarrow> (\<forall>n < 16. bit v n = bit w n)"
  by (auto intro!: bit_word_eqI)

lemma all_less_16:
  "(\<forall>n < 16. P n) \<longleftrightarrow> P 0 \<and> P 1 \<and> P 2 \<and> P 3 \<and> P 4 \<and> P 5 \<and> P 6 \<and> P 7 \<and> P 8 \<and> P 9 \<and> P 10
     \<and> P 11 \<and> P 12 \<and> P 13 \<and> P 14 \<and> P (15::nat)"
  by (simp add: eval_nat_numeral All_less_Suc conj_ac)

lemmas word16_bits = word16_eq_bits [unfolded all_less_16]

lemma infomask_tests [bit_rules]:
  "(m :: u16) AND HEAP_XMIN_COMMITTED = 0 \<longleftrightarrow> \<not> bit m 8"
  "m AND HEAP_XMIN_INVALID = 0 \<longleftrightarrow> \<not> bit m 9"
  "m AND HEAP_XMAX_COMMITTED = 0 \<longleftrightarrow> \<not> bit m 10"
  "m AND HEAP_XMAX_INVALID = 0 \<longleftrightarrow> \<not> bit m 11"
  "m AND HEAP_XMAX_IS_MULTI = 0 \<longleftrightarrow> \<not> bit m 12"
  "m AND HEAP_MOVED_OFF = 0 \<longleftrightarrow> \<not> bit m 14"
  "m AND HEAP_MOVED_IN = 0 \<longleftrightarrow> \<not> bit m 15"
  "m AND HEAP_MOVED = 0 \<longleftrightarrow> \<not> bit m 14 \<and> \<not> bit m 15"
  "m AND HEAP_COMBOCID = 0 \<longleftrightarrow> \<not> bit m 5"
  "m AND HEAP_XMAX_LOCK_ONLY = 0 \<longleftrightarrow> \<not> bit m 7"
  "m AND HEAP_HASEXTERNAL = 0 \<longleftrightarrow> \<not> bit m 2"
  by (simp_all add: word16_bits infomask_defs bit_simps)

lemma infomask_preds [bit_rules]:
  "HEAP_XMAX_IS_LOCKED_ONLY m \<longleftrightarrow> bit m 7 \<or> bit m 6 \<and> \<not> bit m 4 \<and> \<not> bit m 12"
  "HEAP_LOCKED_UPGRADED m \<longleftrightarrow> bit m 12 \<and> bit m 7 \<and> \<not> bit m 6 \<and> \<not> bit m 4"
  "xmin_committed tup \<longleftrightarrow> bit (t_infomask tup) 8"
  "xmin_invalid tup \<longleftrightarrow> \<not> bit (t_infomask tup) 8 \<and> bit (t_infomask tup) 9"
  "xmin_frozen tup \<longleftrightarrow> bit (t_infomask tup) 8 \<and> bit (t_infomask tup) 9"
  unfolding HEAP_XMAX_IS_LOCKED_ONLY_def HEAP_LOCKED_UPGRADED_def xmin_committed_def
    xmin_invalid_def xmin_frozen_def
  by (auto simp: word16_bits infomask_defs bit_simps)

lemma infomask_bits [bit_rules]:
  "bit HEAP_XMIN_COMMITTED n \<longleftrightarrow> n = 8"
  "bit HEAP_XMIN_INVALID n \<longleftrightarrow> n = 9"
  "bit HEAP_XMAX_COMMITTED n \<longleftrightarrow> n = 10"
  "bit HEAP_XMAX_INVALID n \<longleftrightarrow> n = 11"
proof -
  have eqs: "HEAP_XMIN_COMMITTED = 2 ^ 8" "HEAP_XMIN_INVALID = 2 ^ 9"
    "HEAP_XMAX_COMMITTED = 2 ^ 10" "HEAP_XMAX_INVALID = 2 ^ 11"
    by (simp_all add: infomask_defs)
  show "bit HEAP_XMIN_COMMITTED n \<longleftrightarrow> n = 8" "bit HEAP_XMIN_INVALID n \<longleftrightarrow> n = 9"
    "bit HEAP_XMAX_COMMITTED n \<longleftrightarrow> n = 10" "bit HEAP_XMAX_INVALID n \<longleftrightarrow> n = 11"
    unfolding eqs bit_exp_iff by auto
qed

subsection \<open>Setting hint bits\<close>

text \<open>
  The effect a hint may have on a header: only \<open>t_infomask\<close> changes, and only by setting bits
  of \<^verbatim>\<open>HEAP_XMIN_COMMITTED\<close>, \<^verbatim>\<open>HEAP_XMIN_INVALID\<close>, \<^verbatim>\<open>HEAP_XMAX_COMMITTED\<close>
  and \<^verbatim>\<open>HEAP_XMAX_INVALID\<close>.
\<close>

definition hint_ext :: "HeapTupleHeaderData \<Rightarrow> HeapTupleHeaderData \<Rightarrow> bool" where
  "hint_ext tup tup' \<longleftrightarrow>
     tup' = tup \<lparr> t_infomask := t_infomask tup' \<rparr>
     \<and> (\<forall>n. bit (t_infomask tup) n \<longrightarrow> bit (t_infomask tup') n)
     \<and> (\<forall>n. bit (t_infomask tup') n \<longrightarrow> \<not> bit (t_infomask tup) n \<longrightarrow> n \<in> {8, 9, 10, 11})"

lemma hint_ext_refl [simp, intro]: "hint_ext tup tup"
  by (simp add: hint_ext_def)

lemma hint_ext_trans:
  assumes "hint_ext a b" and "hint_ext b c"
  shows "hint_ext a c"
proof -
  from assms have "b = a \<lparr> t_infomask := t_infomask b \<rparr>" "c = b \<lparr> t_infomask := t_infomask c \<rparr>"
    by (simp_all add: hint_ext_def)
  then have "c = a \<lparr> t_infomask := t_infomask c \<rparr>"
    by (cases a, cases b, cases c) simp
  with assms show ?thesis
    unfolding hint_ext_def by blast
qed

lemma hint_ext_set:
  assumes "h \<in> {HEAP_XMIN_COMMITTED, HEAP_XMIN_INVALID, HEAP_XMAX_COMMITTED, HEAP_XMAX_INVALID}"
  shows "hint_ext tup (tup \<lparr> t_infomask := t_infomask tup OR h \<rparr>)"
  using assms by (auto simp: hint_ext_def bit_simps bit_rules)

lemma hint_ext_fields:
  assumes "hint_ext tup tup'"
  shows "t_xmin tup' = t_xmin tup" "t_xmax tup' = t_xmax tup" "t_field3 tup' = t_field3 tup"
    "t_ctid tup' = t_ctid tup" "t_infomask2 tup' = t_infomask2 tup" "t_hoff tup' = t_hoff tup"
  using assms by (metis (no_types, lifting) hint_ext_def HeapTupleHeaderData.ext_inject
      HeapTupleHeaderData.surjective HeapTupleHeaderData.update_convs)+

lemma hint_ext_other_bits:
  assumes "hint_ext tup tup'" and "n \<notin> {8, 9, 10, 11}"
  shows "bit (t_infomask tup') n \<longleftrightarrow> bit (t_infomask tup) n"
  using assms unfolding hint_ext_def by blast

subsection \<open>Accessor laws\<close>

lemma set_speculative_token_token [simp]:
  "is_speculative (set_speculative_token tup tok)"
  "speculative_token (set_speculative_token tup tok) = tok"
  by (simp_all add: is_speculative_def speculative_token_def set_speculative_token_def)

lemma set_moved_partitions_indicates [simp]:
  "indicates_moved_partitions (set_moved_partitions tup)"
  by (simp add: indicates_moved_partitions_def set_moved_partitions_def
      ItemPointerIndicatesMovedPartitions_def ItemPointerSetMovedPartitions_def)

lemma natts_set_natts:
  assumes "n \<le> HEAP_NATTS_MASK"
  shows "natts (set_natts tup n) = n"
    and "t_infomask2 (set_natts tup n) AND NOT HEAP_NATTS_MASK = t_infomask2 tup AND NOT HEAP_NATTS_MASK"
proof -
  have m: "HEAP_NATTS_MASK = mask 11"
    by (simp add: infomask_defs mask_eq_exp_minus_1)
  have "n < 2 ^ 11"
    using assms by (simp add: HEAP_NATTS_MASK_def word_le_nat_alt word_less_nat_alt)
  then have "n AND mask 11 = n"
    by (rule less_mask_eq)
  then have "bit n k \<Longrightarrow> k < 11" for k
    by (metis bit_and_iff bit_mask_iff)
  then show "natts (set_natts tup n) = n"
    and "t_infomask2 (set_natts tup n) AND NOT HEAP_NATTS_MASK = t_infomask2 tup AND NOT HEAP_NATTS_MASK"
    unfolding natts_def set_natts_def m by (auto intro!: bit_word_eqI simp: bit_simps)
qed

end
