(* ===== verification/ComboCid.thy ===== *)
theory ComboCid
  imports HeapTuple
begin

unbundle bit_operations_syntax

section \<open>Combo command ids\<close>

text \<open>
  \<^verbatim>\<open>crates/backend/utils/time/combocid/src/lib.rs\<close>. A tuple header has one word for cmin and
  cmax; when a transaction deletes a tuple it inserted itself, the pair is interned in
  backend-private state and the header keeps its index. The state is the vector of pairs and the
  hash table that finds the index of a pair; \<^verbatim>\<open>TransactionIdIsCurrentTransactionId\<close> is a
  parameter. An index outside the vector panics in the source and is \<open>Inl Panic\<close> here.
\<close>

record ComboCidState =
  comboCids :: "(CommandId \<times> CommandId) list"
  comboHash :: "(CommandId \<times> CommandId) \<rightharpoonup> CommandId"

definition combo_empty :: ComboCidState where
  "combo_empty = \<lparr> comboCids = [], comboHash = Map.empty \<rparr>"

definition GetRealCmin :: "ComboCidState \<Rightarrow> CommandId \<Rightarrow> CommandId res" where
  "GetRealCmin s combocid =
     (if unat combocid < length (comboCids s) then Inr (fst (comboCids s ! unat combocid))
      else Inl Panic)"

definition GetRealCmax :: "ComboCidState \<Rightarrow> CommandId \<Rightarrow> CommandId res" where
  "GetRealCmax s combocid =
     (if unat combocid < length (comboCids s) then Inr (snd (comboCids s ! unat combocid))
      else Inl Panic)"

definition GetComboCommandId ::
  "CommandId \<Rightarrow> CommandId \<Rightarrow> ComboCidState \<Rightarrow> CommandId \<times> ComboCidState" where
  "GetComboCommandId cmin cmax s =
     (let nxt = word_of_nat (length (comboCids s)) in
      case comboHash s (cmin, cmax) of
        Some e \<Rightarrow> (e, s)
      | None \<Rightarrow> (nxt, s \<lparr> comboHash := (comboHash s)((cmin, cmax) \<mapsto> nxt),
                        comboCids := comboCids s @ [(cmin, cmax)] \<rparr>))"

definition HeapTupleHeaderGetCmin :: "ComboCidState \<Rightarrow> HeapTupleHeaderData \<Rightarrow> CommandId res" where
  "HeapTupleHeaderGetCmin s tup =
     (let cid = raw_command_id tup in
      if t_infomask tup AND HEAP_COMBOCID \<noteq> 0 then GetRealCmin s cid else Inr cid)"

definition HeapTupleHeaderGetCmax :: "ComboCidState \<Rightarrow> HeapTupleHeaderData \<Rightarrow> CommandId res" where
  "HeapTupleHeaderGetCmax s tup =
     (let cid = raw_command_id tup in
      if t_infomask tup AND HEAP_COMBOCID \<noteq> 0 then GetRealCmax s cid else Inr cid)"

definition HeapTupleHeaderAdjustCmax ::
  "(TransactionId \<Rightarrow> bool) \<Rightarrow> HeapTupleHeaderData \<Rightarrow> CommandId \<Rightarrow> ComboCidState
     \<Rightarrow> (CommandId \<times> bool) res \<times> ComboCidState" where
  "HeapTupleHeaderAdjustCmax is_current tup cmax s =
     (if \<not> xmin_committed tup \<and> is_current (xmin_raw tup) then
        tryS (HeapTupleHeaderGetCmin s tup) s (\<lambda>cmin.
          let (cid, s') = GetComboCommandId cmin cmax s in (Inr (cid, True), s'))
      else (Inr (cmax, False), s))"

definition AtEOXact_ComboCid :: "ComboCidState \<Rightarrow> ComboCidState" where
  "AtEOXact_ComboCid s = s \<lparr> comboCids := [], comboHash := Map.empty \<rparr>"

definition SerializeComboCIDState :: "ComboCidState \<Rightarrow> (CommandId \<times> CommandId) list" where
  "SerializeComboCIDState s = comboCids s"

definition RestoreComboCIDState ::
  "(CommandId \<times> CommandId) list \<Rightarrow> ComboCidState \<Rightarrow> ComboCidState" where
  "RestoreComboCIDState state s =
     s \<lparr> comboCids := comboCids s @ state,
         comboHash := fold (\<lambda>(i, key) h. h(key \<mapsto> word_of_nat i))
           (enumerate 0 state) (comboHash s) \<rparr>"

subsection \<open>The invariant\<close>

definition combo_inv :: "ComboCidState \<Rightarrow> bool" where
  "combo_inv s \<longleftrightarrow>
     distinct (comboCids s)
     \<and> length (comboCids s) \<le> 2 ^ 32
     \<and> (\<forall>key c. comboHash s key = Some c \<longleftrightarrow>
          unat c < length (comboCids s) \<and> comboCids s ! unat c = key)"

lemma combo_inv_empty: "combo_inv combo_empty" "combo_inv (AtEOXact_ComboCid s)"
  by (simp_all add: combo_inv_def combo_empty_def AtEOXact_ComboCid_def)

lemma combo_inv_hash_None:
  assumes "combo_inv s" and "comboHash s key = None"
  shows "key \<notin> set (comboCids s)"
proof
  assume "key \<in> set (comboCids s)"
  then obtain i where i: "i < length (comboCids s)" "comboCids s ! i = key"
    by (auto simp: in_set_conv_nth)
  moreover have "i < 2 ^ 32"
    using assms i by (simp add: combo_inv_def)
  ultimately have "comboHash s key = Some (word_of_nat i)"
    using assms unfolding combo_inv_def by (metis unat_of_nat_32)
  with assms show False
    by simp
qed

lemma GetComboCommandId_inv:
  assumes inv: "combo_inv s" and len: "length (comboCids s) < 2 ^ 32"
    and get: "GetComboCommandId cmin cmax s = (c, s')"
  shows "combo_inv s'"
    and "GetRealCmin s' c = Inr cmin" and "GetRealCmax s' c = Inr cmax"
    and "\<And>d. unat d < length (comboCids s) \<Longrightarrow>
           GetRealCmin s' d = GetRealCmin s d \<and> GetRealCmax s' d = GetRealCmax s d"
proof -
  let ?n = "length (comboCids s)"
  have n: "unat (word_of_nat ?n :: CommandId) = ?n"
    using len by (simp add: unat_of_nat)
  have "combo_inv s' \<and> GetRealCmin s' c = Inr cmin \<and> GetRealCmax s' c = Inr cmax
    \<and> (\<forall>d. unat d < ?n \<longrightarrow> GetRealCmin s' d = GetRealCmin s d \<and> GetRealCmax s' d = GetRealCmax s d)"
  proof (cases "comboHash s (cmin, cmax)")
    case None
    then have s': "c = word_of_nat ?n"
      "s' = s \<lparr> comboHash := (comboHash s)((cmin, cmax) \<mapsto> word_of_nat ?n),
                comboCids := comboCids s @ [(cmin, cmax)] \<rparr>"
      using get by (auto simp add: GetComboCommandId_def Let_def)
    note fresh = combo_inv_hash_None [OF inv None]
    have "combo_inv s'"
      unfolding combo_inv_def
    proof (intro conjI allI)
      fix key and d :: CommandId
      have "unat d < Suc ?n \<longleftrightarrow> unat d < ?n \<or> d = word_of_nat ?n"
        using n by (auto simp: less_Suc_eq word_unat_eq_iff)
      moreover have "comboHash s key = Some d \<longleftrightarrow> unat d < ?n \<and> comboCids s ! unat d = key"
        using inv unfolding combo_inv_def by blast
      ultimately show "comboHash s' key = Some d \<longleftrightarrow>
          unat d < length (comboCids s') \<and> comboCids s' ! unat d = key"
        using n fresh by (auto simp: s' nth_append in_set_conv_nth)
    qed (use inv len fresh in \<open>auto simp: s' combo_inv_def\<close>)
    then show ?thesis
      using n by (auto simp: s' GetRealCmin_def GetRealCmax_def nth_append)
  next
    case (Some e)
    then have "c = e" "s' = s"
      using get by (simp_all add: GetComboCommandId_def Let_def)
    then show ?thesis
      using inv Some by (auto simp: combo_inv_def GetRealCmin_def GetRealCmax_def)
  qed
  then show "combo_inv s'" "GetRealCmin s' c = Inr cmin" "GetRealCmax s' c = Inr cmax"
    "\<And>d. unat d < ?n \<Longrightarrow> GetRealCmin s' d = GetRealCmin s d \<and> GetRealCmax s' d = GetRealCmax s d"
    by blast+
qed

lemma combo_inv_determines_hash:
  assumes "combo_inv s" and "combo_inv t" and "comboCids s = comboCids t"
  shows "s = t"
proof -
  have "comboHash s key = comboHash t key" for key
    using assms unfolding combo_inv_def by (metis option.exhaust)
  then have "comboHash s = comboHash t"
    by blast
  with assms show ?thesis
    by simp
qed

lemma restore_hash:
  assumes "distinct (pre @ state)" and "length (pre @ state) \<le> 2 ^ 32"
    and "\<forall>key c. h key = Some c \<longleftrightarrow> unat c < length pre \<and> pre ! unat c = key"
  shows "fold (\<lambda>(i, key) h. h(key \<mapsto> word_of_nat i)) (enumerate (length pre) state) h key = Some c
     \<longleftrightarrow> unat (c :: CommandId) < length (pre @ state) \<and> (pre @ state) ! unat c = key"
  using assms
proof (induction state arbitrary: pre h)
  case (Cons a state)
  let ?n = "length pre" and ?h' = "h(a \<mapsto> word_of_nat (length pre))"
  have n: "unat (word_of_nat ?n :: CommandId) = ?n"
    using Cons.prems by (intro unat_of_nat_32) simp
  have "?h' key = Some c \<longleftrightarrow> unat c < length (pre @ [a]) \<and> (pre @ [a]) ! unat c = key" for key c
  proof -
    have "unat c < Suc ?n \<longleftrightarrow> unat c < ?n \<or> c = word_of_nat ?n"
      using n by (auto simp: less_Suc_eq word_unat_eq_iff)
    moreover have "h key = Some c \<longleftrightarrow> unat c < ?n \<and> pre ! unat c = key"
      using Cons.prems by blast
    moreover have "a \<notin> set pre"
      using Cons.prems by simp
    ultimately show ?thesis
      using n by (auto simp: nth_append in_set_conv_nth)
  qed
  then show ?case
    using Cons.IH [of "pre @ [a]" ?h'] Cons.prems by simp
qed simp

lemma Restore_Serialize:
  assumes "combo_inv s"
  shows "RestoreComboCIDState (SerializeComboCIDState s) combo_empty = s"
proof (rule combo_inv_determines_hash [OF _ assms])
  show "combo_inv (RestoreComboCIDState (SerializeComboCIDState s) combo_empty)"
    using assms restore_hash [of "[]" "comboCids s" Map.empty]
    by (simp add: combo_inv_def RestoreComboCIDState_def SerializeComboCIDState_def combo_empty_def)
qed (simp add: RestoreComboCIDState_def SerializeComboCIDState_def combo_empty_def)

subsection \<open>Recovering both command ids\<close>

text \<open>
  Deleting a tuple does not lose its command ids. Storing the cmax that
  \<^verbatim>\<open>HeapTupleHeaderAdjustCmax\<close> computes into the header, the real cmax is read back; if
  the deleter also inserted the tuple, its cmin is still read back as before; every combo id handed
  out earlier keeps its meaning; and the invariant of the interning state is kept.
\<close>

theorem AdjustCmax_roundtrip:
  assumes inv: "combo_inv s" and len: "length (comboCids s) < 2 ^ 32"
    and adj: "HeapTupleHeaderAdjustCmax is_current tup cmax s = (Inr (cid, iscombo), s')"
  shows "combo_inv s'
       \<and> HeapTupleHeaderGetCmax s' (set_cmax tup cid iscombo) = Inr cmax
       \<and> (iscombo \<longrightarrow> HeapTupleHeaderGetCmin s' (set_cmax tup cid iscombo) = HeapTupleHeaderGetCmin s tup)
       \<and> (\<forall>d. unat d < length (comboCids s) \<longrightarrow>
            GetRealCmin s' d = GetRealCmin s d \<and> GetRealCmax s' d = GetRealCmax s d)"
proof (cases "\<not> xmin_committed tup \<and> is_current (xmin_raw tup)")
  case True
  then obtain cmin where cmin: "HeapTupleHeaderGetCmin s tup = Inr cmin"
    and get: "GetComboCommandId cmin cmax s = (cid, s')" and "iscombo"
    using adj by (cases "HeapTupleHeaderGetCmin s tup")
      (auto simp: HeapTupleHeaderAdjustCmax_def split: prod.splits)
  moreover have "(m OR HEAP_COMBOCID) AND HEAP_COMBOCID \<noteq> 0" for m :: u16
    by (simp add: infomask_tests bit_simps) (simp add: HEAP_COMBOCID_def)
  ultimately show ?thesis
    using GetComboCommandId_inv [OF inv len get]
    by (simp add: HeapTupleHeaderGetCmin_def HeapTupleHeaderGetCmax_def set_cmax_def raw_command_id_def)
next
  case False
  then have "cid = cmax" "\<not> iscombo" "s' = s"
    using adj by (auto simp: HeapTupleHeaderAdjustCmax_def)
  moreover have "(m AND NOT HEAP_COMBOCID) AND HEAP_COMBOCID = 0" for m :: u16
    by (rule bit_word_eqI) (auto simp: bit_simps)
  ultimately show ?thesis
    using inv by (simp add: HeapTupleHeaderGetCmax_def set_cmax_def raw_command_id_def)
qed

definition example_tuple :: HeapTupleHeaderData where
  "example_tuple = \<lparr> t_xmin = 700, t_xmax = 0, t_field3 = 4, t_ctid = ItemPointerNew 0 1,
     t_infomask2 = 2, t_infomask = 0x0800, t_hoff = 24 \<rparr>"

theorem AdjustCmax_roundtrip_witness:
  "\<exists>cid s'. HeapTupleHeaderAdjustCmax (\<lambda>x. x = 700) example_tuple 9 combo_empty = (Inr (cid, True), s')
     \<and> HeapTupleHeaderGetCmax s' (set_cmax example_tuple cid True) = Inr 9
     \<and> HeapTupleHeaderGetCmin s' (set_cmax example_tuple cid True) = Inr 4"
proof -
  obtain s' where adj:
    "HeapTupleHeaderAdjustCmax (\<lambda>x. x = 700) example_tuple 9 combo_empty = (Inr (0, True), s')"
    by (simp add: HeapTupleHeaderAdjustCmax_def example_tuple_def xmin_committed_def xmin_raw_def
        HeapTupleHeaderGetCmin_def raw_command_id_def infomask_defs combo_empty_def
        GetComboCommandId_def)
  have "HeapTupleHeaderGetCmin combo_empty example_tuple = Inr 4"
    by (simp add: HeapTupleHeaderGetCmin_def example_tuple_def raw_command_id_def infomask_defs)
  with AdjustCmax_roundtrip [OF combo_inv_empty(1) _ adj] adj show ?thesis
    by (auto simp: combo_empty_def)
qed

text \<open>
  A parallel worker that restores the leader's serialized combo ids into its empty state has
  exactly the leader's state: the same pair for every id and the same id for every pair.
\<close>

theorem ComboCID_serialize_restore:
  assumes "combo_inv s"
  shows "RestoreComboCIDState (SerializeComboCIDState s) (AtEOXact_ComboCid w) = s"
proof -
  have "AtEOXact_ComboCid w = combo_empty"
    by (simp add: AtEOXact_ComboCid_def combo_empty_def)
  then show ?thesis
    using Restore_Serialize [OF assms] by simp
qed

theorem ComboCID_serialize_restore_witness:
  "let s = snd (GetComboCommandId 3 5 combo_empty) in
   RestoreComboCIDState (SerializeComboCIDState s) (AtEOXact_ComboCid combo_empty) = s"
  unfolding Let_def
  by (rule ComboCID_serialize_restore, rule GetComboCommandId_inv(1) [OF combo_inv_empty(1)])
    (simp_all add: combo_empty_def GetComboCommandId_def)

end
