(* ===== verification/Snapshot.thy ===== *)
theory Snapshot
  imports HeapTuple
begin

unbundle bit_operations_syntax

section \<open>Snapshots\<close>

text \<open>
  Snapshot data and the page memo of \<^verbatim>\<open>crates/_support/types/snapshot/src/lib.rs\<close>, the
  membership test \<^verbatim>\<open>XidInMVCCSnapshot\<close> of
  \<^verbatim>\<open>crates/backend/utils/time/snapmgr/src/lib.rs\<close>, and multixact member status with the
  updater lookup of \<^verbatim>\<open>heapam\<close>. The subtransaction-to-topmost lookup is an argument
  \<open>topmost\<close>; the theory \<open>Subtrans\<close> provides it. Slicing a vector beyond its length panics.
\<close>

subsection \<open>Multixact members\<close>

datatype MultiXactStatus =
    MultiXactStatusForKeyShare | MultiXactStatusForShare | MultiXactStatusForNoKeyUpdate
  | MultiXactStatusForUpdate | MultiXactStatusNoKeyUpdate | MultiXactStatusUpdate

fun status_code :: "MultiXactStatus \<Rightarrow> nat" where
  "status_code MultiXactStatusForKeyShare = 0"
| "status_code MultiXactStatusForShare = 1"
| "status_code MultiXactStatusForNoKeyUpdate = 2"
| "status_code MultiXactStatusForUpdate = 3"
| "status_code MultiXactStatusNoKeyUpdate = 4"
| "status_code MultiXactStatusUpdate = 5"

instantiation MultiXactStatus :: linorder
begin

definition less_eq_MultiXactStatus :: "MultiXactStatus \<Rightarrow> MultiXactStatus \<Rightarrow> bool" where
  "less_eq_MultiXactStatus a b \<longleftrightarrow> status_code a \<le> status_code b"

definition less_MultiXactStatus :: "MultiXactStatus \<Rightarrow> MultiXactStatus \<Rightarrow> bool" where
  "less_MultiXactStatus a b \<longleftrightarrow> status_code a < status_code b"

instance
proof
  fix x y :: MultiXactStatus
  assume "x \<le> y" and "y \<le> x"
  then show "x = y"
    by (cases x; cases y) (simp_all add: less_eq_MultiXactStatus_def)
qed (auto simp: less_eq_MultiXactStatus_def less_MultiXactStatus_def)

end

record MultiXactMember =
  mxm_xid :: TransactionId
  mxm_status :: MultiXactStatus

definition ISUPDATE_from_mxstatus :: "MultiXactStatus \<Rightarrow> bool" where
  "ISUPDATE_from_mxstatus status \<longleftrightarrow> status > MultiXactStatusForUpdate"

text \<open>
  \<^verbatim>\<open>MultiXactIdGetUpdateXid\<close> of \<^verbatim>\<open>heapam\<close>: the release-build loop stops at the first
  updating member.
\<close>

fun first_update_member :: "MultiXactMember list \<Rightarrow> TransactionId" where
  "first_update_member [] = InvalidTransactionId"
| "first_update_member (m # ms) =
     (if \<not> ISUPDATE_from_mxstatus (mxm_status m) then first_update_member ms else mxm_xid m)"

text \<open>
  Reading the members of a multixact from its pages is an argument \<open>lookup\<close>; a lookup that finds
  no running members, where the source does not call the consumer, gives the empty list.
\<close>

type_synonym member_lookup = "MultiXactId \<Rightarrow> bool \<Rightarrow> MultiXactMember list res"

definition MultiXactIdIsValid :: "MultiXactId \<Rightarrow> bool" where
  "MultiXactIdIsValid multi \<longleftrightarrow> multi \<noteq> 0"

definition GetMultiXactIdMembers ::
  "member_lookup \<Rightarrow> MultiXactId \<Rightarrow> bool \<Rightarrow> bool \<Rightarrow> MultiXactMember list res" where
  "GetMultiXactIdMembers lookup multi from_pgupgrade is_lock_only =
     (if \<not> MultiXactIdIsValid multi \<or> from_pgupgrade then Inr [] else lookup multi is_lock_only)"

fun any_in_progress ::
  "(TransactionId \<Rightarrow> bool res) \<Rightarrow> MultiXactMember list \<Rightarrow> bool res" where
  "any_in_progress in_progress [] = Inr False"
| "any_in_progress in_progress (m # ms) =
     bindR (in_progress (mxm_xid m)) (\<lambda>b. if b then Inr True else any_in_progress in_progress ms)"

definition MultiXactIdIsRunning ::
  "(TransactionId \<Rightarrow> bool) \<Rightarrow> (TransactionId \<Rightarrow> bool res) \<Rightarrow> member_lookup
     \<Rightarrow> MultiXactId \<Rightarrow> bool \<Rightarrow> bool res" where
  "MultiXactIdIsRunning is_current in_progress lookup multi is_lock_only =
     bindR (GetMultiXactIdMembers lookup multi False is_lock_only) (\<lambda>ms.
       if \<exists>m \<in> set ms. is_current (mxm_xid m) then Inr True
       else any_in_progress in_progress ms)"

definition MultiXactIdGetUpdateXid :: "member_lookup \<Rightarrow> MultiXactId \<Rightarrow> TransactionId res" where
  "MultiXactIdGetUpdateXid lookup xmax =
     bindR (GetMultiXactIdMembers lookup xmax False False) (\<lambda>ms. Inr (first_update_member ms))"

definition HeapTupleGetUpdateXid ::
  "member_lookup \<Rightarrow> HeapTupleHeaderData \<Rightarrow> TransactionId res" where
  "HeapTupleGetUpdateXid lookup hdr = MultiXactIdGetUpdateXid lookup (xmax_raw hdr)"

definition HeapTupleHeaderGetUpdateXid ::
  "member_lookup \<Rightarrow> HeapTupleHeaderData \<Rightarrow> TransactionId res" where
  "HeapTupleHeaderGetUpdateXid lookup hdr =
     (let infomask = t_infomask hdr in
      if infomask AND HEAP_XMAX_INVALID = 0 \<and> infomask AND HEAP_XMAX_IS_MULTI \<noteq> 0
         \<and> \<not> HEAP_XMAX_IS_LOCKED_ONLY infomask
      then MultiXactIdGetUpdateXid lookup (xmax_raw hdr)
      else Inr (xmax_raw hdr))"

subsection \<open>Snapshot data\<close>

datatype HTSV_Result =
    HEAPTUPLE_DEAD | HEAPTUPLE_LIVE | HEAPTUPLE_RECENTLY_DEAD
  | HEAPTUPLE_INSERT_IN_PROGRESS | HEAPTUPLE_DELETE_IN_PROGRESS

datatype SnapshotType =
    SNAPSHOT_MVCC | SNAPSHOT_SELF | SNAPSHOT_ANY | SNAPSHOT_TOAST | SNAPSHOT_DIRTY
  | SNAPSHOT_HISTORIC_MVCC | SNAPSHOT_NON_VACUUMABLE

record SnapshotData =
  snapshot_type :: SnapshotType
  snap_xmin :: TransactionId
  snap_xmax :: TransactionId
  snap_xip :: "TransactionId list"
  snap_xcnt :: u32
  snap_subxip :: "TransactionId list"
  snap_subxcnt :: int
  suboverflowed :: bool
  takenDuringRecovery :: bool
  snap_copied :: bool
  curcid :: CommandId
  speculativeToken :: u32
  dirty_xmin :: TransactionId
  dirty_xmax :: TransactionId
  dirty_speculative_token :: u32
  vistest :: u64
  active_count :: u32
  regd_count :: u32
  snapXactCompletionCount :: u64

definition sentinel :: "SnapshotType \<Rightarrow> SnapshotData" where
  "sentinel ty =
     \<lparr> snapshot_type = ty, snap_xmin = 0, snap_xmax = 0, snap_xip = [], snap_xcnt = 0,
       snap_subxip = [], snap_subxcnt = 0, suboverflowed = False, takenDuringRecovery = False, snap_copied = False,
       curcid = 0, speculativeToken = 0, dirty_xmin = 0, dirty_xmax = 0,
       dirty_speculative_token = 0, vistest = 0, active_count = 0, regd_count = 0,
       snapXactCompletionCount = 0 \<rparr>"

definition IsMVCCSnapshot :: "SnapshotData \<Rightarrow> bool" where
  "IsMVCCSnapshot snapshot \<longleftrightarrow>
     snapshot_type snapshot = SNAPSHOT_MVCC \<or> snapshot_type snapshot = SNAPSHOT_HISTORIC_MVCC"

abbreviation xip_slice :: "SnapshotData \<Rightarrow> TransactionId list res" where
  "xip_slice snapshot \<equiv> slice_to (unat (snap_xcnt snapshot)) (snap_xip snapshot)"

abbreviation subxip_slice :: "SnapshotData \<Rightarrow> TransactionId list res" where
  "subxip_slice snapshot \<equiv> slice_to (nat (max (snap_subxcnt snapshot) 0)) (snap_subxip snapshot)"

definition XidInMVCCSnapshot ::
  "(TransactionId \<Rightarrow> TransactionId res) \<Rightarrow> TransactionId \<Rightarrow> SnapshotData \<Rightarrow> bool res" where
  "XidInMVCCSnapshot topmost xid snapshot =
    (if TransactionIdPrecedes xid (snap_xmin snapshot) then Inr False
     else if TransactionIdFollowsOrEquals xid (snap_xmax snapshot) then Inr True
     else if \<not> takenDuringRecovery snapshot then
       (if \<not> suboverflowed snapshot then
          bindR (subxip_slice snapshot) (\<lambda>subs.
            if xid \<in> set subs then Inr True
            else bindR (xip_slice snapshot) (\<lambda>xs. Inr (xid \<in> set xs)))
        else
          bindR (topmost xid) (\<lambda>xid.
            if TransactionIdPrecedes xid (snap_xmin snapshot) then Inr False
            else bindR (xip_slice snapshot) (\<lambda>xs. Inr (xid \<in> set xs))))
     else
       (if suboverflowed snapshot then
          bindR (topmost xid) (\<lambda>xid.
            if TransactionIdPrecedes xid (snap_xmin snapshot) then Inr False
            else bindR (subxip_slice snapshot) (\<lambda>subs. Inr (xid \<in> set subs)))
        else
          bindR (subxip_slice snapshot) (\<lambda>subs. Inr (xid \<in> set subs))))"

subsection \<open>The page memo\<close>

definition XVM_SNAP_VALID :: u8 where "XVM_SNAP_VALID = 1"
definition XVM_IN_SNAPSHOT :: u8 where "XVM_IN_SNAPSHOT = 2"
definition XVM_COMMIT_VALID :: u8 where "XVM_COMMIT_VALID = 4"
definition XVM_COMMITTED :: u8 where "XVM_COMMITTED = 8"
definition XVM_HINT_OK :: u8 where "XVM_HINT_OK = 16"

definition XVM_N :: nat where "XVM_N = 4"

record XidVisMemo =
  memo_xids :: "TransactionId list"
  memo_flags :: "u8 list"
  memo_next :: nat

definition memo_new :: XidVisMemo where
  "memo_new = \<lparr> memo_xids = replicate XVM_N 0, memo_flags = replicate XVM_N 0, memo_next = 0 \<rparr>"

text \<open>The scan loop shared by \<^verbatim>\<open>get\<close> and \<^verbatim>\<open>merge\<close>: the first slot that holds \<open>xid\<close>.\<close>

fun memo_find :: "TransactionId list \<Rightarrow> TransactionId \<Rightarrow> nat \<Rightarrow> nat option" where
  "memo_find [] xid i = None"
| "memo_find (x # xs) xid i = (if x = xid then Some i else memo_find xs xid (Suc i))"

definition memo_get :: "XidVisMemo \<Rightarrow> TransactionId \<Rightarrow> u8" where
  "memo_get m xid =
     (case memo_find (memo_xids m) xid 0 of Some i \<Rightarrow> memo_flags m ! i | None \<Rightarrow> 0)"

definition memo_merge :: "XidVisMemo \<Rightarrow> TransactionId \<Rightarrow> u8 \<Rightarrow> XidVisMemo" where
  "memo_merge m xid flags =
     (case memo_find (memo_xids m) xid 0 of
        Some i \<Rightarrow> m \<lparr> memo_flags := (memo_flags m)[i := memo_flags m ! i OR flags] \<rparr>
      | None \<Rightarrow>
          let slot = memo_next m in
          m \<lparr> memo_xids := (memo_xids m)[slot := xid],
              memo_flags := (memo_flags m)[slot := flags],
              memo_next := (slot + 1) mod XVM_N \<rparr>)"

subsection \<open>Laws of the updater lookup\<close>

lemma ISUPDATE_iff:
  "ISUPDATE_from_mxstatus st \<longleftrightarrow> st = MultiXactStatusNoKeyUpdate \<or> st = MultiXactStatusUpdate"
  by (cases st) (simp_all add: ISUPDATE_from_mxstatus_def less_MultiXactStatus_def)

lemma any_in_progress_False:
  "any_in_progress in_progress ms = Inr False \<longleftrightarrow> (\<forall>m \<in> set ms. in_progress (mxm_xid m) = Inr False)"
  by (induction ms) (auto simp: bindR_Inr_iff)

lemma first_update_member_in:
  "first_update_member ms \<noteq> InvalidTransactionId \<Longrightarrow> \<exists>m \<in> set ms. first_update_member ms = mxm_xid m"
  by (induction ms) auto

text \<open>A multixact that is not running has no running updater.\<close>

lemma MultiXactIdIsRunning_updater:
  assumes "MultiXactIdIsRunning cur prog lookup multi False = Inr False"
    and "MultiXactIdGetUpdateXid lookup multi = Inr xid" and "TransactionIdIsValid xid"
  shows "\<not> cur xid" and "prog xid = Inr False"
proof -
  from assms(2) obtain ms where ms: "GetMultiXactIdMembers lookup multi False False = Inr ms"
    "xid = first_update_member ms"
    by (auto simp: MultiXactIdGetUpdateXid_def bindR_Inr_iff)
  moreover obtain m where "m \<in> set ms" "xid = mxm_xid m"
    using first_update_member_in [of ms] assms(3) ms(2) by (auto simp: TransactionIdIsValid_def)
  ultimately show "\<not> cur xid" "prog xid = Inr False"
    using assms(1) by (auto simp: MultiXactIdIsRunning_def any_in_progress_False split: if_splits)
qed

lemma first_update_member_cases:
  "first_update_member ms = InvalidTransactionId
   \<or> (\<exists>m \<in> set ms. ISUPDATE_from_mxstatus (mxm_status m) \<and> first_update_member ms = mxm_xid m)"
  by (induction ms) auto

lemma first_update_member_unique:
  assumes "m \<in> set ms" and "ISUPDATE_from_mxstatus (mxm_status m)"
    and "\<And>m'. m' \<in> set ms \<Longrightarrow> ISUPDATE_from_mxstatus (mxm_status m') \<Longrightarrow> mxm_xid m' = mxm_xid m"
  shows "first_update_member ms = mxm_xid m"
proof -
  have "\<exists>m' \<in> set ms. ISUPDATE_from_mxstatus (mxm_status m') \<and> first_update_member ms = mxm_xid m'"
    using assms(1,2) by (induction ms) auto
  with assms(3) show ?thesis
    by metis
qed

lemma HeapTupleGetUpdateXid_hint:
  "hint_ext tup tup' \<Longrightarrow> HeapTupleGetUpdateXid members tup' = HeapTupleGetUpdateXid members tup"
  by (simp add: HeapTupleGetUpdateXid_def xmax_raw_def hint_ext_fields [of tup tup'])

subsection \<open>Laws of the memo\<close>

definition memo_wf :: "XidVisMemo \<Rightarrow> bool" where
  "memo_wf m \<longleftrightarrow> length (memo_xids m) = XVM_N \<and> length (memo_flags m) = XVM_N \<and> memo_next m < XVM_N"

lemma memo_find_Some:
  "memo_find xs xid i = Some j \<Longrightarrow> i \<le> j \<and> j < i + length xs \<and> xs ! (j - i) = xid"
proof (induction xs arbitrary: i)
  case (Cons x xs)
  show ?case
  proof (cases "x = xid")
    case False
    then have "Suc i \<le> j \<and> j < Suc i + length xs \<and> xs ! (j - Suc i) = xid"
      using Cons.IH [of "Suc i"] Cons.prems by simp
    then show ?thesis
      by (simp add: nth_Cons' Suc_le_eq)
  qed (use Cons.prems in simp)
qed simp

lemma memo_wf_new [simp]: "memo_wf memo_new"
  by (simp add: memo_wf_def memo_new_def XVM_N_def)

lemma memo_wf_merge: "memo_wf m \<Longrightarrow> memo_wf (memo_merge m xid flags)"
  by (auto simp: memo_wf_def memo_merge_def XVM_N_def Let_def split: option.splits)

definition memo_all :: "(TransactionId \<Rightarrow> u8 \<Rightarrow> bool) \<Rightarrow> XidVisMemo \<Rightarrow> bool" where
  "memo_all P m \<longleftrightarrow> memo_wf m \<and> (\<forall>i < XVM_N. P (memo_xids m ! i) (memo_flags m ! i))"

lemma memo_all_new: "(\<And>x. P x 0) \<Longrightarrow> memo_all P memo_new"
  by (simp add: memo_all_def memo_new_def memo_wf_def XVM_N_def)

lemma memo_all_get:
  assumes "memo_all P m" and "P xid 0"
  shows "P xid (memo_get m xid)"
  using assms memo_find_Some [of "memo_xids m" xid 0]
  by (auto simp: memo_get_def memo_all_def memo_wf_def split: option.splits)

lemma memo_all_merge:
  assumes "memo_all P m" and "P xid (memo_get m xid OR flags)"
  shows "memo_all P (memo_merge m xid flags)"
proof (cases "memo_find (memo_xids m) xid 0")
  case None
  with assms show ?thesis
    using memo_wf_merge [of m xid flags]
    by (auto simp: memo_all_def memo_get_def memo_merge_def memo_wf_def nth_list_update Let_def)
next
  case (Some i)
  with assms show ?thesis
    using memo_wf_merge [of m xid flags] memo_find_Some [of "memo_xids m" xid 0 i]
    by (auto simp: memo_all_def memo_get_def memo_merge_def memo_wf_def nth_list_update)
qed

end
