(* ===== verification/Visibility.thy ===== *)
theory Visibility
  imports ComboCid Snapshot
begin

unbundle bit_operations_syntax

section \<open>Tuple visibility\<close>

text \<open>
  \<^verbatim>\<open>crates/backend/access/heap/heapam_visibility/src/lib.rs\<close>, every routine of it. The calls
  into other components are the fields of the record \<open>vis_env\<close>: the state of the transaction
  system (which transaction ids are current, in progress, committed), the member lists of
  multixacts, the write-ahead-log position of commits, the buffer holding the page, the combo
  command ids of the backend. A routine returns its result together with the header, in
  which it may have set hint bits. The theorems of this theory: the routines change nothing
  but hint bits; resolving transaction status through the page memo gives the same answers as
  resolving it directly.
\<close>

type_synonym Buffer = "32 word"

datatype TM_Result =
    TM_Ok | TM_Invisible | TM_SelfModified | TM_Updated | TM_Deleted | TM_BeingModified | TM_WouldBlock

record vis_env =
  e_is_current :: "TransactionId \<Rightarrow> bool"
  e_in_progress :: "TransactionId \<Rightarrow> bool res"
  e_did_commit :: "TransactionId \<Rightarrow> bool res"
  e_commit_lsn :: "TransactionId \<Rightarrow> XLogRecPtr res"
  e_topmost :: "TransactionId \<Rightarrow> TransactionId res"
  e_lookup :: member_lookup
  e_combos :: ComboCidState
  e_permanent :: "Buffer \<Rightarrow> bool"
  e_needs_flush :: "XLogRecPtr \<Rightarrow> bool"
  e_buffer_lsn :: "Buffer \<Rightarrow> XLogRecPtr"
  e_mark_hint :: "Buffer \<Rightarrow> unit res"
  e_removable :: "u64 \<Rightarrow> TransactionId \<Rightarrow> bool res"
  e_tuple_cids :: "SnapshotData \<Rightarrow> HeapTupleHeaderData \<Rightarrow> Buffer \<Rightarrow> (CommandId \<times> CommandId) option res"

abbreviation e_update_xid :: "vis_env \<Rightarrow> HeapTupleHeaderData \<Rightarrow> TransactionId res" where
  "e_update_xid env tup \<equiv> HeapTupleGetUpdateXid (e_lookup env) tup"

abbreviation e_multi_running :: "vis_env \<Rightarrow> MultiXactId \<Rightarrow> bool \<Rightarrow> bool res" where
  "e_multi_running env \<equiv> MultiXactIdIsRunning (e_is_current env) (e_in_progress env) (e_lookup env)"

abbreviation e_cmin :: "vis_env \<Rightarrow> HeapTupleHeaderData \<Rightarrow> CommandId res" where
  "e_cmin env tup \<equiv> HeapTupleHeaderGetCmin (e_combos env) tup"

abbreviation e_cmax :: "vis_env \<Rightarrow> HeapTupleHeaderData \<Rightarrow> CommandId res" where
  "e_cmax env tup \<equiv> HeapTupleHeaderGetCmax (e_combos env) tup"

subsection \<open>Hint bits\<close>

definition SetHintBits ::
  "vis_env \<Rightarrow> HeapTupleHeaderData \<Rightarrow> Buffer \<Rightarrow> u16 \<Rightarrow> TransactionId \<Rightarrow> unit res \<times> HeapTupleHeaderData"
where
  "SetHintBits env tup buffer infomask xid =
     (let set_hint = (e_mark_hint env buffer, tup \<lparr> t_infomask := t_infomask tup OR infomask \<rparr>) in
      if TransactionIdIsValid xid then
        tryS (e_commit_lsn env xid) tup (\<lambda>commit_lsn.
          if e_permanent env buffer \<and> e_needs_flush env commit_lsn
             \<and> e_buffer_lsn env buffer < commit_lsn
          then (Inr (), tup)
          else set_hint)
      else set_hint)"

definition HeapTupleSetHintBits ::
  "vis_env \<Rightarrow> HeapTupleHeaderData \<Rightarrow> Buffer \<Rightarrow> u16 \<Rightarrow> TransactionId \<Rightarrow> unit res \<times> HeapTupleHeaderData"
where
  "HeapTupleSetHintBits env tup buffer infomask xid = SetHintBits env tup buffer infomask xid"

text \<open>\<open>hint_then\<close> is a hint followed by the rest of the routine.\<close>

definition hint_then ::
  "vis_env \<Rightarrow> Buffer \<Rightarrow> u16 \<Rightarrow> TransactionId \<Rightarrow> HeapTupleHeaderData
     \<Rightarrow> (HeapTupleHeaderData \<Rightarrow> 'a res \<times> HeapTupleHeaderData) \<Rightarrow> 'a res \<times> HeapTupleHeaderData"
where
  "hint_then env buffer infomask xid tup k =
     bindS (SetHintBits env tup buffer infomask xid) (\<lambda>_ tup. k tup)"

subsection \<open>Self, Any and Toast\<close>

definition self_xmax :: "vis_env \<Rightarrow> Buffer \<Rightarrow> HeapTupleHeaderData \<Rightarrow> bool res \<times> HeapTupleHeaderData" where
  "self_xmax env buffer tup =
    (if t_infomask tup AND HEAP_XMAX_INVALID \<noteq> 0 then (Inr True, tup)
     else if t_infomask tup AND HEAP_XMAX_COMMITTED \<noteq> 0 then
       (Inr (HEAP_XMAX_IS_LOCKED_ONLY (t_infomask tup)), tup)
     else if t_infomask tup AND HEAP_XMAX_IS_MULTI \<noteq> 0 then
       (if HEAP_XMAX_IS_LOCKED_ONLY (t_infomask tup) then (Inr True, tup)
        else tryS (e_update_xid env tup) tup (\<lambda>xmax.
          if e_is_current env xmax then (Inr False, tup)
          else tryS (e_in_progress env xmax) tup (\<lambda>running.
            if running then (Inr True, tup)
            else tryS (e_did_commit env xmax) tup (\<lambda>committed.
              if committed then (Inr False, tup) else (Inr True, tup)))))
     else if e_is_current env (xmax_raw tup) then
       (Inr (HEAP_XMAX_IS_LOCKED_ONLY (t_infomask tup)), tup)
     else tryS (e_in_progress env (xmax_raw tup)) tup (\<lambda>running.
       if running then (Inr True, tup)
       else tryS (e_did_commit env (xmax_raw tup)) tup (\<lambda>committed.
         if \<not> committed then
           hint_then env buffer HEAP_XMAX_INVALID InvalidTransactionId tup (\<lambda>tup. (Inr True, tup))
         else if HEAP_XMAX_IS_LOCKED_ONLY (t_infomask tup) then
           hint_then env buffer HEAP_XMAX_INVALID InvalidTransactionId tup (\<lambda>tup. (Inr True, tup))
         else
           hint_then env buffer HEAP_XMAX_COMMITTED (xmax_raw tup) tup (\<lambda>tup. (Inr False, tup)))))"

definition HeapTupleSatisfiesSelf ::
  "vis_env \<Rightarrow> HeapTupleHeaderData \<Rightarrow> Buffer \<Rightarrow> bool res \<times> HeapTupleHeaderData" where
  "HeapTupleSatisfiesSelf env tup buffer =
    (if \<not> xmin_committed tup then
       (if xmin_invalid tup then (Inr False, tup)
        else if t_infomask tup AND HEAP_MOVED_OFF \<noteq> 0 then
          (let xv = xvac tup in
           if e_is_current env xv then (Inr False, tup)
           else tryS (e_in_progress env xv) tup (\<lambda>running.
             if \<not> running then
               tryS (e_did_commit env xv) tup (\<lambda>committed.
                 if committed then
                   hint_then env buffer HEAP_XMIN_INVALID InvalidTransactionId tup (\<lambda>tup. (Inr False, tup))
                 else
                   hint_then env buffer HEAP_XMIN_COMMITTED InvalidTransactionId tup (self_xmax env buffer))
             else self_xmax env buffer tup))
        else if t_infomask tup AND HEAP_MOVED_IN \<noteq> 0 then
          (let xv = xvac tup in
           if \<not> e_is_current env xv then
             tryS (e_in_progress env xv) tup (\<lambda>running.
               if running then (Inr False, tup)
               else tryS (e_did_commit env xv) tup (\<lambda>committed.
                 if committed then
                   hint_then env buffer HEAP_XMIN_COMMITTED InvalidTransactionId tup (self_xmax env buffer)
                 else
                   hint_then env buffer HEAP_XMIN_INVALID InvalidTransactionId tup (\<lambda>tup. (Inr False, tup))))
           else self_xmax env buffer tup)
        else if e_is_current env (xmin_raw tup) then
          (if t_infomask tup AND HEAP_XMAX_INVALID \<noteq> 0 then (Inr True, tup)
           else if HEAP_XMAX_IS_LOCKED_ONLY (t_infomask tup) then (Inr True, tup)
           else if t_infomask tup AND HEAP_XMAX_IS_MULTI \<noteq> 0 then
             tryS (e_update_xid env tup) tup (\<lambda>xmax. (Inr (\<not> e_is_current env xmax), tup))
           else if \<not> e_is_current env (xmax_raw tup) then
             hint_then env buffer HEAP_XMAX_INVALID InvalidTransactionId tup (\<lambda>tup. (Inr True, tup))
           else (Inr False, tup))
        else tryS (e_in_progress env (xmin_raw tup)) tup (\<lambda>running.
          if running then (Inr False, tup)
          else tryS (e_did_commit env (xmin_raw tup)) tup (\<lambda>committed.
            if committed then
              hint_then env buffer HEAP_XMIN_COMMITTED (xmin_raw tup) tup (self_xmax env buffer)
            else
              hint_then env buffer HEAP_XMIN_INVALID InvalidTransactionId tup (\<lambda>tup. (Inr False, tup)))))
     else self_xmax env buffer tup)"

definition HeapTupleSatisfiesAny ::
  "vis_env \<Rightarrow> HeapTupleHeaderData \<Rightarrow> Buffer \<Rightarrow> bool res \<times> HeapTupleHeaderData" where
  "HeapTupleSatisfiesAny env tup buffer = (Inr True, tup)"

definition HeapTupleSatisfiesToast ::
  "vis_env \<Rightarrow> HeapTupleHeaderData \<Rightarrow> Buffer \<Rightarrow> bool res \<times> HeapTupleHeaderData" where
  "HeapTupleSatisfiesToast env tup buffer =
    (if \<not> xmin_committed tup then
       (if xmin_invalid tup then (Inr False, tup)
        else if t_infomask tup AND HEAP_MOVED_OFF \<noteq> 0 then
          (let xv = xvac tup in
           if e_is_current env xv then (Inr False, tup)
           else tryS (e_in_progress env xv) tup (\<lambda>running.
             if \<not> running then
               tryS (e_did_commit env xv) tup (\<lambda>committed.
                 if committed then
                   hint_then env buffer HEAP_XMIN_INVALID InvalidTransactionId tup (\<lambda>tup. (Inr False, tup))
                 else
                   hint_then env buffer HEAP_XMIN_COMMITTED InvalidTransactionId tup (\<lambda>tup. (Inr True, tup)))
             else (Inr True, tup)))
        else if t_infomask tup AND HEAP_MOVED_IN \<noteq> 0 then
          (let xv = xvac tup in
           if \<not> e_is_current env xv then
             tryS (e_in_progress env xv) tup (\<lambda>running.
               if running then (Inr False, tup)
               else tryS (e_did_commit env xv) tup (\<lambda>committed.
                 if committed then
                   hint_then env buffer HEAP_XMIN_COMMITTED InvalidTransactionId tup (\<lambda>tup. (Inr True, tup))
                 else
                   hint_then env buffer HEAP_XMIN_INVALID InvalidTransactionId tup (\<lambda>tup. (Inr False, tup))))
           else (Inr True, tup))
        else if \<not> TransactionIdIsValid (xmin tup) then (Inr False, tup)
        else (Inr True, tup))
     else (Inr True, tup))"

subsection \<open>Update\<close>

definition update_cmax ::
  "vis_env \<Rightarrow> CommandId \<Rightarrow> HeapTupleHeaderData \<Rightarrow> TM_Result res \<times> HeapTupleHeaderData" where
  "update_cmax env cid tup =
     tryS (e_cmax env tup) tup (\<lambda>cmax.
       if cmax \<ge> cid then (Inr TM_SelfModified, tup) else (Inr TM_Invisible, tup))"

definition update_gone ::
  "ItemPointerData \<Rightarrow> HeapTupleHeaderData \<Rightarrow> TM_Result res \<times> HeapTupleHeaderData" where
  "update_gone t_self tup =
     (if \<not> ItemPointerEquals t_self (t_ctid tup) then (Inr TM_Updated, tup) else (Inr TM_Deleted, tup))"

definition update_multi ::
  "vis_env \<Rightarrow> ItemPointerData \<Rightarrow> CommandId \<Rightarrow> Buffer \<Rightarrow> HeapTupleHeaderData
     \<Rightarrow> TM_Result res \<times> HeapTupleHeaderData" where
  "update_multi env t_self cid buffer tup =
    (if HEAP_LOCKED_UPGRADED (t_infomask tup) then (Inr TM_Ok, tup)
     else if HEAP_XMAX_IS_LOCKED_ONLY (t_infomask tup) then
       tryS (e_multi_running env (xmax_raw tup) True) tup (\<lambda>running.
         if running then (Inr TM_BeingModified, tup)
         else hint_then env buffer HEAP_XMAX_INVALID InvalidTransactionId tup (\<lambda>tup. (Inr TM_Ok, tup)))
     else tryS (e_update_xid env tup) tup (\<lambda>xmax.
       tryS (if \<not> TransactionIdIsValid xmax then e_multi_running env (xmax_raw tup) False else Inr False)
         tup (\<lambda>no_updater_running.
       if no_updater_running then (Inr TM_BeingModified, tup)
       else if e_is_current env xmax then update_cmax env cid tup
       else tryS (e_multi_running env (xmax_raw tup) False) tup (\<lambda>running.
         if running then (Inr TM_BeingModified, tup)
         else tryS (e_did_commit env xmax) tup (\<lambda>committed.
           if committed then update_gone t_self tup
           else tryS (e_multi_running env (xmax_raw tup) False) tup (\<lambda>running.
             if \<not> running then
               hint_then env buffer HEAP_XMAX_INVALID InvalidTransactionId tup (\<lambda>tup. (Inr TM_Ok, tup))
             else (Inr TM_BeingModified, tup)))))))"

definition update_xmax ::
  "vis_env \<Rightarrow> ItemPointerData \<Rightarrow> CommandId \<Rightarrow> Buffer \<Rightarrow> HeapTupleHeaderData
     \<Rightarrow> TM_Result res \<times> HeapTupleHeaderData" where
  "update_xmax env t_self cid buffer tup =
    (if t_infomask tup AND HEAP_XMAX_INVALID \<noteq> 0 then (Inr TM_Ok, tup)
     else if t_infomask tup AND HEAP_XMAX_COMMITTED \<noteq> 0 then
       (if HEAP_XMAX_IS_LOCKED_ONLY (t_infomask tup) then (Inr TM_Ok, tup) else update_gone t_self tup)
     else if t_infomask tup AND HEAP_XMAX_IS_MULTI \<noteq> 0 then update_multi env t_self cid buffer tup
     else if e_is_current env (xmax_raw tup) then
       (if HEAP_XMAX_IS_LOCKED_ONLY (t_infomask tup) then (Inr TM_BeingModified, tup)
        else update_cmax env cid tup)
     else tryS (e_in_progress env (xmax_raw tup)) tup (\<lambda>running.
       if running then (Inr TM_BeingModified, tup)
       else tryS (e_did_commit env (xmax_raw tup)) tup (\<lambda>committed.
         if \<not> committed then
           hint_then env buffer HEAP_XMAX_INVALID InvalidTransactionId tup (\<lambda>tup. (Inr TM_Ok, tup))
         else if HEAP_XMAX_IS_LOCKED_ONLY (t_infomask tup) then
           hint_then env buffer HEAP_XMAX_INVALID InvalidTransactionId tup (\<lambda>tup. (Inr TM_Ok, tup))
         else
           hint_then env buffer HEAP_XMAX_COMMITTED (xmax_raw tup) tup (update_gone t_self))))"

text \<open>The arm of \<^verbatim>\<open>HeapTupleSatisfiesUpdate\<close> for a tuple inserted by the current transaction.\<close>

definition update_own ::
  "vis_env \<Rightarrow> CommandId \<Rightarrow> Buffer \<Rightarrow> HeapTupleHeaderData \<Rightarrow> TM_Result res \<times> HeapTupleHeaderData" where
  "update_own env cid buffer tup =
    tryS (e_cmin env tup) tup (\<lambda>cmin.
      if cmin \<ge> cid then (Inr TM_Invisible, tup)
      else if t_infomask tup AND HEAP_XMAX_INVALID \<noteq> 0 then (Inr TM_Ok, tup)
      else if HEAP_XMAX_IS_LOCKED_ONLY (t_infomask tup) then
        (if t_infomask tup AND HEAP_XMAX_IS_MULTI \<noteq> 0 then
           tryS (e_multi_running env (xmax_raw tup) True) tup (\<lambda>running.
             if running then (Inr TM_BeingModified, tup) else (Inr TM_Ok, tup))
         else tryS (e_in_progress env (xmax_raw tup)) tup (\<lambda>running.
           if \<not> running then (Inr TM_Ok, tup) else (Inr TM_BeingModified, tup)))
      else if t_infomask tup AND HEAP_XMAX_IS_MULTI \<noteq> 0 then
        tryS (e_update_xid env tup) tup (\<lambda>xmax.
          if \<not> e_is_current env xmax then
            tryS (e_multi_running env (xmax_raw tup) False) tup (\<lambda>running.
              if running then (Inr TM_BeingModified, tup) else (Inr TM_Ok, tup))
          else update_cmax env cid tup)
      else if \<not> e_is_current env (xmax_raw tup) then
        hint_then env buffer HEAP_XMAX_INVALID InvalidTransactionId tup (\<lambda>tup. (Inr TM_Ok, tup))
      else update_cmax env cid tup)"

definition HeapTupleSatisfiesUpdate ::
  "vis_env \<Rightarrow> ItemPointerData \<Rightarrow> HeapTupleHeaderData \<Rightarrow> CommandId \<Rightarrow> Buffer
     \<Rightarrow> TM_Result res \<times> HeapTupleHeaderData" where
  "HeapTupleSatisfiesUpdate env t_self tup cid buffer =
    (if \<not> xmin_committed tup then
       (if xmin_invalid tup then (Inr TM_Invisible, tup)
        else if t_infomask tup AND HEAP_MOVED_OFF \<noteq> 0 then
          (let xv = xvac tup in
           if e_is_current env xv then (Inr TM_Invisible, tup)
           else tryS (e_in_progress env xv) tup (\<lambda>running.
             if \<not> running then
               tryS (e_did_commit env xv) tup (\<lambda>committed.
                 if committed then
                   hint_then env buffer HEAP_XMIN_INVALID InvalidTransactionId tup
                     (\<lambda>tup. (Inr TM_Invisible, tup))
                 else
                   hint_then env buffer HEAP_XMIN_COMMITTED InvalidTransactionId tup
                     (update_xmax env t_self cid buffer))
             else update_xmax env t_self cid buffer tup))
        else if t_infomask tup AND HEAP_MOVED_IN \<noteq> 0 then
          (let xv = xvac tup in
           if \<not> e_is_current env xv then
             tryS (e_in_progress env xv) tup (\<lambda>running.
               if running then (Inr TM_Invisible, tup)
               else tryS (e_did_commit env xv) tup (\<lambda>committed.
                 if committed then
                   hint_then env buffer HEAP_XMIN_COMMITTED InvalidTransactionId tup
                     (update_xmax env t_self cid buffer)
                 else
                   hint_then env buffer HEAP_XMIN_INVALID InvalidTransactionId tup
                     (\<lambda>tup. (Inr TM_Invisible, tup))))
           else update_xmax env t_self cid buffer tup)
        else if e_is_current env (xmin_raw tup) then update_own env cid buffer tup
        else tryS (e_in_progress env (xmin_raw tup)) tup (\<lambda>running.
          if running then (Inr TM_Invisible, tup)
          else tryS (e_did_commit env (xmin_raw tup)) tup (\<lambda>committed.
            if committed then
              hint_then env buffer HEAP_XMIN_COMMITTED (xmin_raw tup) tup
                (update_xmax env t_self cid buffer)
            else
              hint_then env buffer HEAP_XMIN_INVALID InvalidTransactionId tup
                (\<lambda>tup. (Inr TM_Invisible, tup)))))
     else update_xmax env t_self cid buffer tup)"

subsection \<open>Dirty\<close>

text \<open>
  The dirty test reports through fields of the snapshot, so the snapshot is part of the state.
  \<open>hint_then_s\<close> is \<open>hint_then\<close> with a second component of the state carried along.
\<close>

type_synonym dirty_state = "HeapTupleHeaderData \<times> SnapshotData"

definition hint_then_s ::
  "vis_env \<Rightarrow> Buffer \<Rightarrow> u16 \<Rightarrow> TransactionId \<Rightarrow> HeapTupleHeaderData \<times> 's
     \<Rightarrow> (HeapTupleHeaderData \<times> 's \<Rightarrow> 'a res \<times> HeapTupleHeaderData \<times> 's)
     \<Rightarrow> 'a res \<times> HeapTupleHeaderData \<times> 's"
where
  "hint_then_s env buffer infomask xid ts k =
     (let (r, tup') = SetHintBits env (fst ts) buffer infomask xid in
      tryS r (tup', snd ts) (\<lambda>_. k (tup', snd ts)))"

definition dirty_xmax_test :: "vis_env \<Rightarrow> Buffer \<Rightarrow> dirty_state \<Rightarrow> bool res \<times> dirty_state" where
  "dirty_xmax_test env buffer ts =
    (let tup = fst ts; snapshot = snd ts in
     if t_infomask tup AND HEAP_XMAX_INVALID \<noteq> 0 then (Inr True, ts)
     else if t_infomask tup AND HEAP_XMAX_COMMITTED \<noteq> 0 then
       (Inr (HEAP_XMAX_IS_LOCKED_ONLY (t_infomask tup)), ts)
     else if t_infomask tup AND HEAP_XMAX_IS_MULTI \<noteq> 0 then
       (if HEAP_XMAX_IS_LOCKED_ONLY (t_infomask tup) then (Inr True, ts)
        else tryS (e_update_xid env tup) ts (\<lambda>xmax.
          if e_is_current env xmax then (Inr False, ts)
          else tryS (e_in_progress env xmax) ts (\<lambda>running.
            if running then (Inr True, (tup, snapshot \<lparr> snap_xmax := xmax \<rparr>))
            else tryS (e_did_commit env xmax) ts (\<lambda>committed.
              if committed then (Inr False, ts) else (Inr True, ts)))))
     else if e_is_current env (xmax_raw tup) then
       (Inr (HEAP_XMAX_IS_LOCKED_ONLY (t_infomask tup)), ts)
     else tryS (e_in_progress env (xmax_raw tup)) ts (\<lambda>running.
       if running then
         (if \<not> HEAP_XMAX_IS_LOCKED_ONLY (t_infomask tup)
          then (Inr True, (tup, snapshot \<lparr> snap_xmax := xmax_raw tup \<rparr>))
          else (Inr True, ts))
       else tryS (e_did_commit env (xmax_raw tup)) ts (\<lambda>committed.
         if \<not> committed then
           hint_then_s env buffer HEAP_XMAX_INVALID InvalidTransactionId ts (\<lambda>ts. (Inr True, ts))
         else if HEAP_XMAX_IS_LOCKED_ONLY (t_infomask tup) then
           hint_then_s env buffer HEAP_XMAX_INVALID InvalidTransactionId ts (\<lambda>ts. (Inr True, ts))
         else
           hint_then_s env buffer HEAP_XMAX_COMMITTED (xmax_raw tup) ts (\<lambda>ts. (Inr False, ts)))))"

definition dirty_reset :: "SnapshotData \<Rightarrow> SnapshotData" where
  "dirty_reset snapshot =
     snapshot \<lparr> snap_xmin := InvalidTransactionId, snap_xmax := InvalidTransactionId,
                speculativeToken := 0 \<rparr>"

definition HeapTupleSatisfiesDirty ::
  "vis_env \<Rightarrow> HeapTupleHeaderData \<Rightarrow> SnapshotData \<Rightarrow> Buffer \<Rightarrow> bool res \<times> dirty_state" where
  "HeapTupleSatisfiesDirty env tup snapshot buffer =
    (let snapshot = dirty_reset snapshot; ts = (tup, snapshot) in
     if \<not> xmin_committed tup then
       (if xmin_invalid tup then (Inr False, ts)
        else if t_infomask tup AND HEAP_MOVED_OFF \<noteq> 0 then
          (let xv = xvac tup in
           if e_is_current env xv then (Inr False, ts)
           else tryS (e_in_progress env xv) ts (\<lambda>running.
             if \<not> running then
               tryS (e_did_commit env xv) ts (\<lambda>committed.
                 if committed then
                   hint_then_s env buffer HEAP_XMIN_INVALID InvalidTransactionId ts (\<lambda>ts. (Inr False, ts))
                 else
                   hint_then_s env buffer HEAP_XMIN_COMMITTED InvalidTransactionId ts
                     (dirty_xmax_test env buffer))
             else dirty_xmax_test env buffer ts))
        else if t_infomask tup AND HEAP_MOVED_IN \<noteq> 0 then
          (let xv = xvac tup in
           if \<not> e_is_current env xv then
             tryS (e_in_progress env xv) ts (\<lambda>running.
               if running then (Inr False, ts)
               else tryS (e_did_commit env xv) ts (\<lambda>committed.
                 if committed then
                   hint_then_s env buffer HEAP_XMIN_COMMITTED InvalidTransactionId ts
                     (dirty_xmax_test env buffer)
                 else
                   hint_then_s env buffer HEAP_XMIN_INVALID InvalidTransactionId ts
                     (\<lambda>ts. (Inr False, ts))))
           else dirty_xmax_test env buffer ts)
        else if e_is_current env (xmin_raw tup) then
          (if t_infomask tup AND HEAP_XMAX_INVALID \<noteq> 0 then (Inr True, ts)
           else if HEAP_XMAX_IS_LOCKED_ONLY (t_infomask tup) then (Inr True, ts)
           else if t_infomask tup AND HEAP_XMAX_IS_MULTI \<noteq> 0 then
             tryS (e_update_xid env tup) ts (\<lambda>xmax. (Inr (\<not> e_is_current env xmax), ts))
           else if \<not> e_is_current env (xmax_raw tup) then
             hint_then_s env buffer HEAP_XMAX_INVALID InvalidTransactionId ts (\<lambda>ts. (Inr True, ts))
           else (Inr False, ts))
        else tryS (e_in_progress env (xmin_raw tup)) ts (\<lambda>running.
          if running then
            (let snapshot = (if is_speculative tup
                             then snapshot \<lparr> speculativeToken := speculative_token tup \<rparr> else snapshot)
             in (Inr True, (tup, snapshot \<lparr> snap_xmin := xmin_raw tup \<rparr>)))
          else tryS (e_did_commit env (xmin_raw tup)) ts (\<lambda>committed.
            if committed then
              hint_then_s env buffer HEAP_XMIN_COMMITTED (xmin_raw tup) ts (dirty_xmax_test env buffer)
            else
              hint_then_s env buffer HEAP_XMIN_INVALID InvalidTransactionId ts (\<lambda>ts. (Inr False, ts)))))
     else dirty_xmax_test env buffer ts)"

subsection \<open>Resolving transaction status for MVCC\<close>

text \<open>
  The trait \<^verbatim>\<open>MvccXidResolve\<close>: the three operations over a resolver state, and its two
  implementations. The direct resolver has no state; the page resolver keeps the memo.
\<close>

record 'r resolver =
  r_in_snapshot :: "TransactionId \<Rightarrow> SnapshotData \<Rightarrow> 'r \<Rightarrow> bool res \<times> 'r"
  r_did_commit :: "TransactionId \<Rightarrow> 'r \<Rightarrow> bool res \<times> 'r"
  r_set_hint_bits :: "HeapTupleHeaderData \<Rightarrow> Buffer \<Rightarrow> u16 \<Rightarrow> TransactionId \<Rightarrow> 'r
     \<Rightarrow> unit res \<times> HeapTupleHeaderData \<times> 'r"

definition DirectResolve :: "vis_env \<Rightarrow> unit resolver" where
  "DirectResolve env =
     \<lparr> r_in_snapshot = (\<lambda>xid snapshot r. (XidInMVCCSnapshot (e_topmost env) xid snapshot, r)),
       r_did_commit = (\<lambda>xid r. (e_did_commit env xid, r)),
       r_set_hint_bits = (\<lambda>tup buffer infomask xid r.
         let (res, tup') = SetHintBits env tup buffer infomask xid in (res, tup', r)) \<rparr>"

definition memo_in_snapshot ::
  "vis_env \<Rightarrow> TransactionId \<Rightarrow> SnapshotData \<Rightarrow> XidVisMemo \<Rightarrow> bool res \<times> XidVisMemo" where
  "memo_in_snapshot env xid snapshot memo =
    (if TransactionIdPrecedes xid (snap_xmin snapshot) then (Inr False, memo)
     else
       let f = memo_get memo xid in
       if f AND XVM_SNAP_VALID \<noteq> 0 then (Inr (f AND XVM_IN_SNAPSHOT \<noteq> 0), memo)
       else tryS (XidInMVCCSnapshot (e_topmost env) xid snapshot) memo (\<lambda>r.
         (Inr r, memo_merge memo xid (XVM_SNAP_VALID OR (if r then XVM_IN_SNAPSHOT else 0)))))"

definition memo_did_commit ::
  "vis_env \<Rightarrow> TransactionId \<Rightarrow> XidVisMemo \<Rightarrow> bool res \<times> XidVisMemo" where
  "memo_did_commit env xid memo =
    (if \<not> TransactionIdIsNormal xid then (e_did_commit env xid, memo)
     else
       let f = memo_get memo xid in
       if f AND XVM_COMMIT_VALID \<noteq> 0 then (Inr (f AND XVM_COMMITTED \<noteq> 0), memo)
       else tryS (e_did_commit env xid) memo (\<lambda>r.
         (Inr r, memo_merge memo xid (XVM_COMMIT_VALID OR (if r then XVM_COMMITTED else 0)))))"

definition memo_set_hint_bits ::
  "vis_env \<Rightarrow> HeapTupleHeaderData \<Rightarrow> Buffer \<Rightarrow> u16 \<Rightarrow> TransactionId \<Rightarrow> XidVisMemo
     \<Rightarrow> unit res \<times> HeapTupleHeaderData \<times> XidVisMemo" where
  "memo_set_hint_bits env tup buffer infomask xid memo =
    (let tup' = tup \<lparr> t_infomask := t_infomask tup OR infomask \<rparr> in
     if TransactionIdIsValid xid \<and> memo_get memo xid AND XVM_HINT_OK = 0 then
       tryS (e_commit_lsn env xid) (tup, memo) (\<lambda>commit_lsn.
         if e_permanent env buffer \<and> e_needs_flush env commit_lsn
            \<and> e_buffer_lsn env buffer < commit_lsn
         then (Inr (), tup, memo)
         else (e_mark_hint env buffer, tup', memo_merge memo xid XVM_HINT_OK))
     else (e_mark_hint env buffer, tup', memo))"

definition PageMemoResolve :: "vis_env \<Rightarrow> XidVisMemo resolver" where
  "PageMemoResolve env =
     \<lparr> r_in_snapshot = memo_in_snapshot env,
       r_did_commit = memo_did_commit env,
       r_set_hint_bits = memo_set_hint_bits env \<rparr>"

subsection \<open>MVCC\<close>

text \<open>The operations of a resolver on the state made of the header and the resolver state.\<close>

definition ask_snapshot ::
  "'r resolver \<Rightarrow> TransactionId \<Rightarrow> SnapshotData \<Rightarrow> HeapTupleHeaderData \<times> 'r
     \<Rightarrow> (bool \<Rightarrow> HeapTupleHeaderData \<times> 'r \<Rightarrow> 'b res \<times> HeapTupleHeaderData \<times> 'r)
     \<Rightarrow> 'b res \<times> HeapTupleHeaderData \<times> 'r" where
  "ask_snapshot R xid snapshot ts k =
     (let (b, r') = r_in_snapshot R xid snapshot (snd ts) in bindS (b, (fst ts, r')) k)"

definition ask_commit ::
  "'r resolver \<Rightarrow> TransactionId \<Rightarrow> HeapTupleHeaderData \<times> 'r
     \<Rightarrow> (bool \<Rightarrow> HeapTupleHeaderData \<times> 'r \<Rightarrow> 'b res \<times> HeapTupleHeaderData \<times> 'r)
     \<Rightarrow> 'b res \<times> HeapTupleHeaderData \<times> 'r" where
  "ask_commit R xid ts k =
     (let (b, r') = r_did_commit R xid (snd ts) in bindS (b, (fst ts, r')) k)"

definition mvcc_hint ::
  "'r resolver \<Rightarrow> Buffer \<Rightarrow> u16 \<Rightarrow> TransactionId \<Rightarrow> HeapTupleHeaderData \<times> 'r
     \<Rightarrow> (HeapTupleHeaderData \<times> 'r \<Rightarrow> 'b res \<times> HeapTupleHeaderData \<times> 'r)
     \<Rightarrow> 'b res \<times> HeapTupleHeaderData \<times> 'r" where
  "mvcc_hint R buffer infomask xid ts k =
     bindS (r_set_hint_bits R (fst ts) buffer infomask xid (snd ts)) (\<lambda>_. k)"

definition mvcc_cmax ::
  "vis_env \<Rightarrow> SnapshotData \<Rightarrow> HeapTupleHeaderData \<times> 'r \<Rightarrow> bool res \<times> HeapTupleHeaderData \<times> 'r" where
  "mvcc_cmax env snapshot ts =
     tryS (e_cmax env (fst ts)) ts (\<lambda>cmax.
       if cmax \<ge> curcid snapshot then (Inr True, ts) else (Inr False, ts))"

definition mvcc_xmax ::
  "vis_env \<Rightarrow> 'r resolver \<Rightarrow> SnapshotData \<Rightarrow> Buffer \<Rightarrow> HeapTupleHeaderData \<times> 'r
     \<Rightarrow> bool res \<times> HeapTupleHeaderData \<times> 'r" where
  "mvcc_xmax env R snapshot buffer ts =
    (let tup = fst ts in
     if t_infomask tup AND HEAP_XMAX_INVALID \<noteq> 0 then (Inr True, ts)
     else if HEAP_XMAX_IS_LOCKED_ONLY (t_infomask tup) then (Inr True, ts)
     else if t_infomask tup AND HEAP_XMAX_IS_MULTI \<noteq> 0 then
       tryS (e_update_xid env tup) ts (\<lambda>xmax.
         if e_is_current env xmax then mvcc_cmax env snapshot ts
         else ask_snapshot R xmax snapshot ts (\<lambda>running ts.
           if running then (Inr True, ts)
           else ask_commit R xmax ts (\<lambda>committed ts.
             if committed then (Inr False, ts) else (Inr True, ts))))
     else if t_infomask tup AND HEAP_XMAX_COMMITTED = 0 then
       (if e_is_current env (xmax_raw tup) then mvcc_cmax env snapshot ts
        else ask_snapshot R (xmax_raw tup) snapshot ts (\<lambda>running ts.
          if running then (Inr True, ts)
          else ask_commit R (xmax_raw tup) ts (\<lambda>committed ts.
            if \<not> committed then
              mvcc_hint R buffer HEAP_XMAX_INVALID InvalidTransactionId ts (\<lambda>ts. (Inr True, ts))
            else
              mvcc_hint R buffer HEAP_XMAX_COMMITTED (xmax_raw tup) ts (\<lambda>ts. (Inr False, ts)))))
     else ask_snapshot R (xmax_raw tup) snapshot ts (\<lambda>running ts.
       if running then (Inr True, ts) else (Inr False, ts)))"

text \<open>The arm for a tuple inserted by the current transaction.\<close>

definition mvcc_own ::
  "vis_env \<Rightarrow> 'r resolver \<Rightarrow> SnapshotData \<Rightarrow> Buffer \<Rightarrow> HeapTupleHeaderData \<times> 'r
     \<Rightarrow> bool res \<times> HeapTupleHeaderData \<times> 'r" where
  "mvcc_own env R snapshot buffer ts =
    (let tup = fst ts in
     tryS (e_cmin env tup) ts (\<lambda>cmin.
       if cmin \<ge> curcid snapshot then (Inr False, ts)
       else if t_infomask tup AND HEAP_XMAX_INVALID \<noteq> 0 then (Inr True, ts)
       else if HEAP_XMAX_IS_LOCKED_ONLY (t_infomask tup) then (Inr True, ts)
       else if t_infomask tup AND HEAP_XMAX_IS_MULTI \<noteq> 0 then
         tryS (e_update_xid env tup) ts (\<lambda>xmax.
           if \<not> e_is_current env xmax then (Inr True, ts) else mvcc_cmax env snapshot ts)
       else if \<not> e_is_current env (xmax_raw tup) then
         mvcc_hint R buffer HEAP_XMAX_INVALID InvalidTransactionId ts (\<lambda>ts. (Inr True, ts))
       else mvcc_cmax env snapshot ts))"

definition satisfies_mvcc_res ::
  "vis_env \<Rightarrow> 'r resolver \<Rightarrow> SnapshotData \<Rightarrow> Buffer \<Rightarrow> HeapTupleHeaderData \<times> 'r
     \<Rightarrow> bool res \<times> HeapTupleHeaderData \<times> 'r" where
  "satisfies_mvcc_res env R snapshot buffer ts =
    (let tup = fst ts in
     if \<not> xmin_committed tup then
       (if xmin_invalid tup then (Inr False, ts)
        else if t_infomask tup AND HEAP_MOVED_OFF \<noteq> 0 then
          (let xv = xvac tup in
           if e_is_current env xv then (Inr False, ts)
           else ask_snapshot R xv snapshot ts (\<lambda>running ts.
             if \<not> running then
               ask_commit R xv ts (\<lambda>committed ts.
                 if committed then
                   mvcc_hint R buffer HEAP_XMIN_INVALID InvalidTransactionId ts (\<lambda>ts. (Inr False, ts))
                 else
                   mvcc_hint R buffer HEAP_XMIN_COMMITTED InvalidTransactionId ts
                     (mvcc_xmax env R snapshot buffer))
             else mvcc_xmax env R snapshot buffer ts))
        else if t_infomask tup AND HEAP_MOVED_IN \<noteq> 0 then
          (let xv = xvac tup in
           if \<not> e_is_current env xv then
             ask_snapshot R xv snapshot ts (\<lambda>running ts.
               if running then (Inr False, ts)
               else ask_commit R xv ts (\<lambda>committed ts.
                 if committed then
                   mvcc_hint R buffer HEAP_XMIN_COMMITTED InvalidTransactionId ts
                     (mvcc_xmax env R snapshot buffer)
                 else
                   mvcc_hint R buffer HEAP_XMIN_INVALID InvalidTransactionId ts
                     (\<lambda>ts. (Inr False, ts))))
           else mvcc_xmax env R snapshot buffer ts)
        else if e_is_current env (xmin_raw tup) then mvcc_own env R snapshot buffer ts
        else ask_snapshot R (xmin_raw tup) snapshot ts (\<lambda>running ts.
          if running then (Inr False, ts)
          else ask_commit R (xmin_raw tup) ts (\<lambda>committed ts.
            if committed then
              mvcc_hint R buffer HEAP_XMIN_COMMITTED (xmin_raw tup) ts (mvcc_xmax env R snapshot buffer)
            else
              mvcc_hint R buffer HEAP_XMIN_INVALID InvalidTransactionId ts (\<lambda>ts. (Inr False, ts)))))
     else if \<not> xmin_frozen tup then
       ask_snapshot R (xmin_raw tup) snapshot ts (\<lambda>running ts.
         if running then (Inr False, ts) else mvcc_xmax env R snapshot buffer ts)
     else mvcc_xmax env R snapshot buffer ts)"

definition HeapTupleSatisfiesMVCC ::
  "vis_env \<Rightarrow> HeapTupleHeaderData \<Rightarrow> SnapshotData \<Rightarrow> Buffer \<Rightarrow> bool res \<times> HeapTupleHeaderData" where
  "HeapTupleSatisfiesMVCC env tup snapshot buffer =
     (let (res, tup', _) = satisfies_mvcc_res env (DirectResolve env) snapshot buffer (tup, ())
      in (res, tup'))"

definition HeapTupleSatisfiesMVCCPage ::
  "vis_env \<Rightarrow> HeapTupleHeaderData \<Rightarrow> SnapshotData \<Rightarrow> Buffer \<Rightarrow> XidVisMemo
     \<Rightarrow> bool res \<times> HeapTupleHeaderData \<times> XidVisMemo" where
  "HeapTupleSatisfiesMVCCPage env tup snapshot buffer memo =
     satisfies_mvcc_res env (PageMemoResolve env) snapshot buffer (tup, memo)"

subsection \<open>Vacuum\<close>

definition HeapTupleHeaderIsOnlyLocked :: "vis_env \<Rightarrow> HeapTupleHeaderData \<Rightarrow> bool res" where
  "HeapTupleHeaderIsOnlyLocked env tup =
    (if t_infomask tup AND HEAP_XMAX_INVALID \<noteq> 0 then Inr True
     else if t_infomask tup AND HEAP_XMAX_LOCK_ONLY \<noteq> 0 then Inr True
     else if \<not> TransactionIdIsValid (xmax_raw tup) then Inr True
     else if t_infomask tup AND HEAP_XMAX_IS_MULTI = 0 then Inr False
     else bindR (e_update_xid env tup) (\<lambda>xmax.
       if e_is_current env xmax then Inr False
       else bindR (e_in_progress env xmax) (\<lambda>running.
         if running then Inr False
         else bindR (e_did_commit env xmax) (\<lambda>committed.
           if committed then Inr False else Inr True))))"

text \<open>The value of a vacuum test is the verdict with the out-parameter \<^verbatim>\<open>dead_after\<close>.\<close>

type_synonym vacuum_verdict = "HTSV_Result \<times> TransactionId"

abbreviation verdict ::
  "HTSV_Result \<Rightarrow> HeapTupleHeaderData \<Rightarrow> vacuum_verdict res \<times> HeapTupleHeaderData" where
  "verdict v tup \<equiv> (Inr (v, InvalidTransactionId), tup)"

definition vacuum_xmax ::
  "vis_env \<Rightarrow> Buffer \<Rightarrow> HeapTupleHeaderData \<Rightarrow> vacuum_verdict res \<times> HeapTupleHeaderData" where
  "vacuum_xmax env buffer tup =
    (if t_infomask tup AND HEAP_XMAX_INVALID \<noteq> 0 then verdict HEAPTUPLE_LIVE tup
     else if HEAP_XMAX_IS_LOCKED_ONLY (t_infomask tup) then
       (if t_infomask tup AND HEAP_XMAX_COMMITTED = 0 then
          (if t_infomask tup AND HEAP_XMAX_IS_MULTI \<noteq> 0 then
             tryS (if \<not> HEAP_LOCKED_UPGRADED (t_infomask tup)
                   then e_multi_running env (xmax_raw tup) True else Inr False) tup (\<lambda>running.
               if running then verdict HEAPTUPLE_LIVE tup
               else hint_then env buffer HEAP_XMAX_INVALID InvalidTransactionId tup
                      (verdict HEAPTUPLE_LIVE))
           else tryS (e_in_progress env (xmax_raw tup)) tup (\<lambda>running.
             if running then verdict HEAPTUPLE_LIVE tup
             else hint_then env buffer HEAP_XMAX_INVALID InvalidTransactionId tup
                    (verdict HEAPTUPLE_LIVE)))
        else verdict HEAPTUPLE_LIVE tup)
     else if t_infomask tup AND HEAP_XMAX_IS_MULTI \<noteq> 0 then
       tryS (e_update_xid env tup) tup (\<lambda>xmax.
         tryS (e_in_progress env xmax) tup (\<lambda>running.
           if running then verdict HEAPTUPLE_DELETE_IN_PROGRESS tup
           else tryS (e_did_commit env xmax) tup (\<lambda>committed.
             if committed then (Inr (HEAPTUPLE_RECENTLY_DEAD, xmax), tup)
             else tryS (e_multi_running env (xmax_raw tup) False) tup (\<lambda>members_running.
               if \<not> members_running then
                 hint_then env buffer HEAP_XMAX_INVALID InvalidTransactionId tup
                   (verdict HEAPTUPLE_LIVE)
               else verdict HEAPTUPLE_LIVE tup))))
     else if t_infomask tup AND HEAP_XMAX_COMMITTED = 0 then
       tryS (e_in_progress env (xmax_raw tup)) tup (\<lambda>running.
         if running then verdict HEAPTUPLE_DELETE_IN_PROGRESS tup
         else tryS (e_did_commit env (xmax_raw tup)) tup (\<lambda>committed.
           if committed then
             hint_then env buffer HEAP_XMAX_COMMITTED (xmax_raw tup) tup
               (\<lambda>tup. (Inr (HEAPTUPLE_RECENTLY_DEAD, xmax_raw tup), tup))
           else
             hint_then env buffer HEAP_XMAX_INVALID InvalidTransactionId tup
               (verdict HEAPTUPLE_LIVE)))
     else (Inr (HEAPTUPLE_RECENTLY_DEAD, xmax_raw tup), tup))"

definition vacuum_own ::
  "vis_env \<Rightarrow> HeapTupleHeaderData \<Rightarrow> vacuum_verdict res \<times> HeapTupleHeaderData" where
  "vacuum_own env tup =
    (if t_infomask tup AND HEAP_XMAX_INVALID \<noteq> 0 then verdict HEAPTUPLE_INSERT_IN_PROGRESS tup
     else tryS (if HEAP_XMAX_IS_LOCKED_ONLY (t_infomask tup) then Inr True
                else HeapTupleHeaderIsOnlyLocked env tup) tup (\<lambda>only_locked.
       if only_locked then verdict HEAPTUPLE_INSERT_IN_PROGRESS tup
       else tryS (HeapTupleHeaderGetUpdateXid (e_lookup env) tup) tup (\<lambda>xmax.
         if e_is_current env xmax then verdict HEAPTUPLE_DELETE_IN_PROGRESS tup
         else verdict HEAPTUPLE_INSERT_IN_PROGRESS tup)))"

definition HeapTupleSatisfiesVacuumHorizon ::
  "vis_env \<Rightarrow> HeapTupleHeaderData \<Rightarrow> Buffer \<Rightarrow> vacuum_verdict res \<times> HeapTupleHeaderData" where
  "HeapTupleSatisfiesVacuumHorizon env tup buffer =
    (if \<not> xmin_committed tup then
       (if xmin_invalid tup then verdict HEAPTUPLE_DEAD tup
        else if t_infomask tup AND HEAP_MOVED_OFF \<noteq> 0 then
          (let xv = xvac tup in
           if e_is_current env xv then verdict HEAPTUPLE_DELETE_IN_PROGRESS tup
           else tryS (e_in_progress env xv) tup (\<lambda>running.
             if running then verdict HEAPTUPLE_DELETE_IN_PROGRESS tup
             else tryS (e_did_commit env xv) tup (\<lambda>committed.
               if committed then
                 hint_then env buffer HEAP_XMIN_INVALID InvalidTransactionId tup
                   (verdict HEAPTUPLE_DEAD)
               else
                 hint_then env buffer HEAP_XMIN_COMMITTED InvalidTransactionId tup
                   (vacuum_xmax env buffer))))
        else if t_infomask tup AND HEAP_MOVED_IN \<noteq> 0 then
          (let xv = xvac tup in
           if e_is_current env xv then verdict HEAPTUPLE_INSERT_IN_PROGRESS tup
           else tryS (e_in_progress env xv) tup (\<lambda>running.
             if running then verdict HEAPTUPLE_INSERT_IN_PROGRESS tup
             else tryS (e_did_commit env xv) tup (\<lambda>committed.
               if committed then
                 hint_then env buffer HEAP_XMIN_COMMITTED InvalidTransactionId tup
                   (vacuum_xmax env buffer)
               else
                 hint_then env buffer HEAP_XMIN_INVALID InvalidTransactionId tup
                   (verdict HEAPTUPLE_DEAD))))
        else if e_is_current env (xmin_raw tup) then vacuum_own env tup
        else tryS (e_in_progress env (xmin_raw tup)) tup (\<lambda>running.
          if running then verdict HEAPTUPLE_INSERT_IN_PROGRESS tup
          else tryS (e_did_commit env (xmin_raw tup)) tup (\<lambda>committed.
            if committed then
              hint_then env buffer HEAP_XMIN_COMMITTED (xmin_raw tup) tup (vacuum_xmax env buffer)
            else
              hint_then env buffer HEAP_XMIN_INVALID InvalidTransactionId tup
                (verdict HEAPTUPLE_DEAD))))
     else vacuum_xmax env buffer tup)"

definition HeapTupleSatisfiesVacuum ::
  "vis_env \<Rightarrow> HeapTupleHeaderData \<Rightarrow> TransactionId \<Rightarrow> Buffer
     \<Rightarrow> HTSV_Result res \<times> HeapTupleHeaderData" where
  "HeapTupleSatisfiesVacuum env tup oldest_xmin buffer =
     bindS (HeapTupleSatisfiesVacuumHorizon env tup buffer) (\<lambda>(res, dead_after) tup.
       if res = HEAPTUPLE_RECENTLY_DEAD \<and> TransactionIdPrecedes dead_after oldest_xmin
       then (Inr HEAPTUPLE_DEAD, tup) else (Inr res, tup))"

definition HeapTupleSatisfiesNonVacuumable ::
  "vis_env \<Rightarrow> HeapTupleHeaderData \<Rightarrow> SnapshotData \<Rightarrow> Buffer \<Rightarrow> bool res \<times> HeapTupleHeaderData" where
  "HeapTupleSatisfiesNonVacuumable env tup snapshot buffer =
     bindS (HeapTupleSatisfiesVacuumHorizon env tup buffer) (\<lambda>(res, dead_after) tup.
       if res = HEAPTUPLE_RECENTLY_DEAD then
         tryS (e_removable env (vistest snapshot) dead_after) tup (\<lambda>removable.
           (Inr ((if removable then HEAPTUPLE_DEAD else res) \<noteq> HEAPTUPLE_DEAD), tup))
       else (Inr (res \<noteq> HEAPTUPLE_DEAD), tup))"

definition HeapTupleIsSurelyDead :: "vis_env \<Rightarrow> HeapTupleHeaderData \<Rightarrow> u64 \<Rightarrow> bool res" where
  "HeapTupleIsSurelyDead env tup handle =
    (if \<not> xmin_committed tup then Inr (xmin_invalid tup)
     else if t_infomask tup AND HEAP_XMAX_INVALID \<noteq> 0 then Inr False
     else if HEAP_XMAX_IS_LOCKED_ONLY (t_infomask tup) then Inr False
     else if t_infomask tup AND HEAP_XMAX_IS_MULTI \<noteq> 0 then Inr False
     else if t_infomask tup AND HEAP_XMAX_COMMITTED = 0 then Inr False
     else e_removable env handle (xmax_raw tup))"

subsection \<open>Historic snapshots and the dispatcher\<close>

text \<open>
  \<^verbatim>\<open>slice::binary_search\<close> of the Rust standard library: the loop halves the window and keeps
  its base at the last element that is not greater than the key.
\<close>

function bs_loop :: "TransactionId list \<Rightarrow> TransactionId \<Rightarrow> nat \<Rightarrow> nat \<Rightarrow> nat" where
  "bs_loop xs xid base n =
    (if n > 1 then
       let half = n div 2; mid = base + half in
       bs_loop xs xid (if xs ! mid > xid then base else mid) (n - half)
     else base)"
  by pat_completeness auto

termination bs_loop
  by (relation "measure (\<lambda>(xs, xid, base, n). n)") auto

declare bs_loop.simps [simp del]

definition TransactionIdInArray :: "TransactionId \<Rightarrow> TransactionId list \<Rightarrow> bool" where
  "TransactionIdInArray xid xip =
     (if xip = [] then False else xip ! bs_loop xip xid 0 (length xip) = xid)"

definition historic_xmax ::
  "vis_env \<Rightarrow> HeapTupleHeaderData \<Rightarrow> SnapshotData \<Rightarrow> Buffer \<Rightarrow> TransactionId list \<Rightarrow> TransactionId list
     \<Rightarrow> bool res" where
  "historic_xmax env tup snapshot buffer subxip xip =
    (let infomask = t_infomask tup in
     if infomask AND HEAP_XMAX_INVALID \<noteq> 0 then Inr True
     else if HEAP_XMAX_IS_LOCKED_ONLY infomask then Inr True
     else bindR (if infomask AND HEAP_XMAX_IS_MULTI \<noteq> 0 then e_update_xid env tup
                 else Inr (xmax_raw tup)) (\<lambda>xmax.
       if TransactionIdInArray xmax subxip then
         bindR (e_tuple_cids env snapshot tup buffer) (\<lambda>resolved.
           case resolved of
             None \<Rightarrow> Inr True
           | Some (_, cmax) \<Rightarrow>
               if cmax = InvalidCommandId then Inr True else Inr (cmax \<ge> curcid snapshot))
       else if TransactionIdPrecedes xmax (snap_xmin snapshot) then
         (if infomask AND HEAP_XMAX_COMMITTED \<noteq> 0 then Inr False
          else bindR (e_did_commit env xmax) (\<lambda>committed. Inr (\<not> committed)))
       else if TransactionIdFollowsOrEquals xmax (snap_xmax snapshot) then Inr True
       else if TransactionIdInArray xmax xip then Inr False
       else Inr True))"

definition HeapTupleSatisfiesHistoricMVCC ::
  "vis_env \<Rightarrow> HeapTupleHeaderData \<Rightarrow> SnapshotData \<Rightarrow> Buffer \<Rightarrow> bool res" where
  "HeapTupleSatisfiesHistoricMVCC env tup snapshot buffer =
    bindR (subxip_slice snapshot) (\<lambda>subxip.
    bindR (xip_slice snapshot) (\<lambda>xip.
      if xmin_invalid tup then Inr False
      else if TransactionIdInArray (xmin tup) subxip then
        bindR (e_tuple_cids env snapshot tup buffer) (\<lambda>resolved.
          case resolved of
            None \<Rightarrow> Inr False
          | Some (cmin, _) \<Rightarrow>
              if cmin \<ge> curcid snapshot then Inr False
              else historic_xmax env tup snapshot buffer subxip xip)
      else if TransactionIdPrecedes (xmin tup) (snap_xmin snapshot) then
        bindR (if xmin_committed tup then Inr True else e_did_commit env (xmin tup)) (\<lambda>committed.
          if \<not> committed then Inr False else historic_xmax env tup snapshot buffer subxip xip)
      else if TransactionIdFollowsOrEquals (xmin tup) (snap_xmax snapshot) then Inr False
      else if TransactionIdInArray (xmin tup) xip then historic_xmax env tup snapshot buffer subxip xip
      else Inr False))"

definition HeapTupleSatisfiesVisibility ::
  "vis_env \<Rightarrow> HeapTupleHeaderData \<Rightarrow> SnapshotData \<Rightarrow> Buffer \<Rightarrow> bool res \<times> dirty_state" where
  "HeapTupleSatisfiesVisibility env tup snapshot buffer =
    (let keep = (\<lambda>(r, tup'). (r, (tup', snapshot))) in
     case snapshot_type snapshot of
       SNAPSHOT_MVCC \<Rightarrow> keep (HeapTupleSatisfiesMVCC env tup snapshot buffer)
     | SNAPSHOT_SELF \<Rightarrow> keep (HeapTupleSatisfiesSelf env tup buffer)
     | SNAPSHOT_ANY \<Rightarrow> keep (HeapTupleSatisfiesAny env tup buffer)
     | SNAPSHOT_TOAST \<Rightarrow> keep (HeapTupleSatisfiesToast env tup buffer)
     | SNAPSHOT_DIRTY \<Rightarrow> HeapTupleSatisfiesDirty env tup snapshot buffer
     | SNAPSHOT_HISTORIC_MVCC \<Rightarrow> keep (HeapTupleSatisfiesHistoricMVCC env tup snapshot buffer, tup)
     | SNAPSHOT_NON_VACUUMABLE \<Rightarrow> keep (HeapTupleSatisfiesNonVacuumable env tup snapshot buffer))"

definition heap_tuple_satisfies_visibility_read ::
  "vis_env \<Rightarrow> HeapTupleHeaderData \<Rightarrow> SnapshotData \<Rightarrow> Buffer \<Rightarrow> bool res \<times> dirty_state" where
  "heap_tuple_satisfies_visibility_read env tup snapshot buffer =
    (let keep = (\<lambda>(r, tup'). (r, (tup', snapshot))) in
     case snapshot_type snapshot of
       SNAPSHOT_MVCC \<Rightarrow> keep (HeapTupleSatisfiesMVCC env tup snapshot buffer)
     | SNAPSHOT_SELF \<Rightarrow> keep (HeapTupleSatisfiesSelf env tup buffer)
     | SNAPSHOT_ANY \<Rightarrow> keep (HeapTupleSatisfiesAny env tup buffer)
     | SNAPSHOT_TOAST \<Rightarrow> keep (HeapTupleSatisfiesToast env tup buffer)
     | SNAPSHOT_DIRTY \<Rightarrow>
         (let (res, tup', dirty) = HeapTupleSatisfiesDirty env tup (sentinel SNAPSHOT_DIRTY) buffer in
          tryS res (tup', snapshot) (\<lambda>r.
            (Inr r, (tup', snapshot \<lparr> dirty_xmin := snap_xmin dirty, dirty_xmax := snap_xmax dirty,
                                     dirty_speculative_token := speculativeToken dirty \<rparr>))))
     | SNAPSHOT_HISTORIC_MVCC \<Rightarrow> keep (HeapTupleSatisfiesHistoricMVCC env tup snapshot buffer, tup)
     | SNAPSHOT_NON_VACUUMABLE \<Rightarrow> keep (HeapTupleSatisfiesNonVacuumable env tup snapshot buffer))"

subsection \<open>Only hint bits change\<close>

abbreviation hint_flags :: "u16 set" where
  "hint_flags \<equiv> {HEAP_XMIN_COMMITTED, HEAP_XMIN_INVALID, HEAP_XMAX_COMMITTED, HEAP_XMAX_INVALID}"

lemma SetHintBits_hint_ext:
  assumes "h \<in> hint_flags"
  shows "hint_ext tup (snd (SetHintBits env tup buffer h xid))"
  using hint_ext_set [OF assms, of tup]
  by (cases "e_commit_lsn env xid") (auto simp: SetHintBits_def Let_def)

named_theorems hint_rules \<open>the routines only extend the hints of the header they start from\<close>

lemma hint_ext_ret [hint_rules]: "hint_ext t0 tup \<Longrightarrow> hint_ext t0 (snd (r, tup))"
  by simp

lemma hint_ext_if [hint_rules]:
  "(P \<Longrightarrow> hint_ext t0 (snd x)) \<Longrightarrow> (\<not> P \<Longrightarrow> hint_ext t0 (snd y)) \<Longrightarrow> hint_ext t0 (snd (if P then x else y))"
  by simp

lemma hint_ext_tryS [hint_rules]:
  "hint_ext t0 tup \<Longrightarrow> (\<And>a. hint_ext t0 (snd (k a))) \<Longrightarrow> hint_ext t0 (snd (tryS r tup k))"
  by (cases r) simp_all

lemma hint_ext_hint_then [hint_rules]:
  assumes "hint_ext t0 tup" and "h \<in> hint_flags" and "\<And>tup'. hint_ext t0 tup' \<Longrightarrow> hint_ext t0 (snd (k tup'))"
  shows "hint_ext t0 (snd (hint_then env buffer h xid tup k))"
proof -
  have "hint_ext t0 (snd (SetHintBits env tup buffer h xid))"
    using assms SetHintBits_hint_ext hint_ext_trans by blast
  with assms(3) show ?thesis
    by (cases "SetHintBits env tup buffer h xid"; cases "fst (SetHintBits env tup buffer h xid)")
      (simp_all add: hint_then_def)
qed

lemma self_xmax_hint [hint_rules]: "hint_ext t0 tup \<Longrightarrow> hint_ext t0 (snd (self_xmax env buffer tup))"
  unfolding self_xmax_def by (intro hint_rules) simp_all

lemma Self_hint: "hint_ext tup (snd (HeapTupleSatisfiesSelf env tup buffer))"
  unfolding HeapTupleSatisfiesSelf_def Let_def by (intro hint_rules) simp_all

lemma Toast_hint: "hint_ext tup (snd (HeapTupleSatisfiesToast env tup buffer))"
  unfolding HeapTupleSatisfiesToast_def Let_def by (intro hint_rules) simp_all

lemma update_parts_hint [hint_rules]:
  "hint_ext t0 tup \<Longrightarrow> hint_ext t0 (snd (update_cmax env cid tup))"
  "hint_ext t0 tup \<Longrightarrow> hint_ext t0 (snd (update_gone t_self tup))"
  unfolding update_cmax_def update_gone_def by (intro hint_rules; simp)+

lemma update_multi_hint [hint_rules]:
  "hint_ext t0 tup \<Longrightarrow> hint_ext t0 (snd (update_multi env t_self cid buffer tup))"
  unfolding update_multi_def by (intro hint_rules) simp_all

lemma update_xmax_hint [hint_rules]:
  "hint_ext t0 tup \<Longrightarrow> hint_ext t0 (snd (update_xmax env t_self cid buffer tup))"
  unfolding update_xmax_def by (intro hint_rules) simp_all

lemma update_own_hint [hint_rules]:
  "hint_ext t0 tup \<Longrightarrow> hint_ext t0 (snd (update_own env cid buffer tup))"
  unfolding update_own_def by (intro hint_rules) simp_all

lemma Update_hint: "hint_ext tup (snd (HeapTupleSatisfiesUpdate env t_self tup cid buffer))"
  unfolding HeapTupleSatisfiesUpdate_def Let_def by (intro hint_rules) simp_all

lemma vacuum_xmax_hint [hint_rules]:
  "hint_ext t0 tup \<Longrightarrow> hint_ext t0 (snd (vacuum_xmax env buffer tup))"
  unfolding vacuum_xmax_def by (intro hint_rules) simp_all

lemma vacuum_own_hint [hint_rules]:
  "hint_ext t0 tup \<Longrightarrow> hint_ext t0 (snd (vacuum_own env tup))"
  unfolding vacuum_own_def by (intro hint_rules) simp_all

lemma VacuumHorizon_hint: "hint_ext tup (snd (HeapTupleSatisfiesVacuumHorizon env tup buffer))"
  unfolding HeapTupleSatisfiesVacuumHorizon_def Let_def by (intro hint_rules) simp_all

lemma bindS_hint:
  assumes "hint_ext t0 (snd x)" and "\<And>a tup. hint_ext t0 tup \<Longrightarrow> hint_ext t0 (snd (k a tup))"
  shows "hint_ext t0 (snd (bindS x k))"
  using assms by (cases x; cases "fst x") (auto simp: bindS_def)

lemma Vacuum_hint: "hint_ext tup (snd (HeapTupleSatisfiesVacuum env tup oldest buffer))"
  unfolding HeapTupleSatisfiesVacuum_def
  by (rule bindS_hint [OF VacuumHorizon_hint]) (auto split: prod.splits)

lemma NonVacuumable_hint: "hint_ext tup (snd (HeapTupleSatisfiesNonVacuumable env tup snapshot buffer))"
  unfolding HeapTupleSatisfiesNonVacuumable_def
  by (rule bindS_hint [OF VacuumHorizon_hint]) (auto split: prod.splits intro!: hint_ext_tryS)

lemma hint_then_s_hint:
  assumes "hint_ext t0 (fst ts)" and "h \<in> hint_flags"
    and "\<And>ts'. hint_ext t0 (fst ts') \<Longrightarrow> hint_ext t0 (fst (snd (k ts')))"
  shows "hint_ext t0 (fst (snd (hint_then_s env buffer h xid ts k)))"
proof -
  have "hint_ext t0 (snd (SetHintBits env (fst ts) buffer h xid))"
    using assms SetHintBits_hint_ext hint_ext_trans by blast
  with assms(3) show ?thesis
    by (cases "SetHintBits env (fst ts) buffer h xid"; cases "fst (SetHintBits env (fst ts) buffer h xid)")
      (simp_all add: hint_then_s_def)
qed

lemma tryS_hint_s:
  "hint_ext t0 (fst ts) \<Longrightarrow> (\<And>a. hint_ext t0 (fst (snd (k a)))) \<Longrightarrow> hint_ext t0 (fst (snd (tryS r ts k)))"
  by (cases r) simp_all

lemma if_hint_s:
  "(P \<Longrightarrow> hint_ext t0 (fst (snd x))) \<Longrightarrow> (\<not> P \<Longrightarrow> hint_ext t0 (fst (snd y)))
   \<Longrightarrow> hint_ext t0 (fst (snd (if P then x else y)))"
  by simp

lemma ret_hint_s: "hint_ext t0 (fst ts) \<Longrightarrow> hint_ext t0 (fst (snd (r, ts)))"
  by simp

lemmas hint_s_rules = hint_then_s_hint tryS_hint_s if_hint_s ret_hint_s

lemma dirty_xmax_hint: "hint_ext t0 (fst ts) \<Longrightarrow> hint_ext t0 (fst (snd (dirty_xmax_test env buffer ts)))"
  unfolding dirty_xmax_test_def Let_def by (intro hint_s_rules) simp_all

lemma Dirty_hint: "hint_ext tup (fst (snd (HeapTupleSatisfiesDirty env tup snapshot buffer)))"
  unfolding HeapTupleSatisfiesDirty_def Let_def by (intro hint_s_rules dirty_xmax_hint) simp_all

subsection \<open>The resolver interface\<close>

text \<open>
  The contract of \<^verbatim>\<open>MvccXidResolve\<close> for one page walk, with a fixed snapshot and buffer: a
  resolver whose state satisfies its invariant gives the answers of the transaction system.
  Whatever the resolver, the MVCC test then gives the result and the header of the direct one.
\<close>

definition resolver_sim ::
  "('r \<Rightarrow> bool) \<Rightarrow> 'b res \<times> HeapTupleHeaderData \<times> 'r \<Rightarrow> 'b res \<times> HeapTupleHeaderData \<times> unit \<Rightarrow> bool"
where
  "resolver_sim rinv x y \<longleftrightarrow> fst x = fst y \<and> fst (snd x) = fst (snd y) \<and> rinv (snd (snd x))"

locale mvcc_resolver =
  fixes env :: vis_env
    and R :: "'r resolver"
    and snapshot :: SnapshotData
    and buffer :: Buffer
    and rinv :: "'r \<Rightarrow> bool"
  assumes in_snapshot_law: "rinv r \<Longrightarrow>
      fst (r_in_snapshot R xid snapshot r) = XidInMVCCSnapshot (e_topmost env) xid snapshot
      \<and> rinv (snd (r_in_snapshot R xid snapshot r))"
    and did_commit_law: "rinv r \<Longrightarrow>
      fst (r_did_commit R xid r) = e_did_commit env xid \<and> rinv (snd (r_did_commit R xid r))"
    and set_hint_law: "rinv r \<Longrightarrow>
      (let (res, tup', r') = r_set_hint_bits R tup buffer h xid r in
       (res, tup') = SetHintBits env tup buffer h xid \<and> rinv r')"
begin

lemma sim_ret: "rinv r \<Longrightarrow> resolver_sim rinv (v, (tup, r)) (v, (tup, ()))"
  by (simp add: resolver_sim_def)

lemma sim_if: "(P \<Longrightarrow> resolver_sim rinv x x') \<Longrightarrow> (\<not> P \<Longrightarrow> resolver_sim rinv y y') \<Longrightarrow> resolver_sim rinv (if P then x else y) (if P then x' else y')"
  by simp

lemma sim_tryS:
  "rinv r \<Longrightarrow> (\<And>a. resolver_sim rinv (k a) (k' a)) \<Longrightarrow> resolver_sim rinv (tryS v (tup, r) k) (tryS v (tup, ()) k')"
  by (cases v) (simp_all add: resolver_sim_def)

lemma sim_ask_snapshot:
  assumes "rinv r" and "\<And>b r'. rinv r' \<Longrightarrow> resolver_sim rinv (k b (tup, r')) (k' b (tup, ()))"
  shows "resolver_sim rinv (ask_snapshot R xid snapshot (tup, r) k)
     (ask_snapshot (DirectResolve env) xid snapshot (tup, ()) k')"
proof -
  obtain v r' where v: "r_in_snapshot R xid snapshot r = (v, r')"
    by fastforce
  then show ?thesis
    using in_snapshot_law [OF assms(1), of xid] assms(2)
    by (cases "XidInMVCCSnapshot (e_topmost env) xid snapshot") (auto simp: ask_snapshot_def DirectResolve_def resolver_sim_def)
qed

lemma sim_ask_commit:
  assumes "rinv r" and "\<And>b r'. rinv r' \<Longrightarrow> resolver_sim rinv (k b (tup, r')) (k' b (tup, ()))"
  shows "resolver_sim rinv (ask_commit R xid (tup, r) k) (ask_commit (DirectResolve env) xid (tup, ()) k')"
proof -
  obtain v r' where v: "r_did_commit R xid r = (v, r')"
    by fastforce
  then show ?thesis
    using did_commit_law [OF assms(1), of xid] assms(2)
    by (cases "e_did_commit env xid") (auto simp: ask_commit_def DirectResolve_def resolver_sim_def)
qed

lemma sim_mvcc_hint:
  assumes "rinv r" and "\<And>tup' r'. rinv r' \<Longrightarrow> resolver_sim rinv (k (tup', r')) (k' (tup', ()))"
  shows "resolver_sim rinv (mvcc_hint R buffer h xid (tup, r) k)
     (mvcc_hint (DirectResolve env) buffer h xid (tup, ()) k')"
proof -
  obtain v tup' r' where v: "r_set_hint_bits R tup buffer h xid r = (v, tup', r')"
    by (metis prod.collapse)
  with set_hint_law [OF assms(1), of tup h xid]
  have "SetHintBits env tup buffer h xid = (v, tup')" "rinv r'"
    by (auto simp: Let_def)
  with v assms(2) show ?thesis
    by (cases v) (simp_all add: mvcc_hint_def DirectResolve_def resolver_sim_def)
qed

lemmas sim_rules = sim_if sim_tryS sim_ask_snapshot sim_ask_commit sim_mvcc_hint sim_ret

lemma sim_mvcc_cmax: "rinv r \<Longrightarrow> resolver_sim rinv (mvcc_cmax env snapshot (tup, r)) (mvcc_cmax env snapshot (tup, ()))"
  unfolding mvcc_cmax_def fst_conv by (intro sim_rules)

lemma sim_mvcc_xmax:
  "rinv r \<Longrightarrow> resolver_sim rinv (mvcc_xmax env R snapshot buffer (tup, r))
     (mvcc_xmax env (DirectResolve env) snapshot buffer (tup, ()))"
  unfolding mvcc_xmax_def Let_def fst_conv by (intro sim_rules sim_mvcc_cmax)

lemma sim_mvcc_own:
  "rinv r \<Longrightarrow> resolver_sim rinv (mvcc_own env R snapshot buffer (tup, r))
     (mvcc_own env (DirectResolve env) snapshot buffer (tup, ()))"
  unfolding mvcc_own_def Let_def fst_conv by (intro sim_rules sim_mvcc_cmax)

lemma sim_satisfies_mvcc_res:
  "rinv r \<Longrightarrow> resolver_sim rinv (satisfies_mvcc_res env R snapshot buffer (tup, r))
     (satisfies_mvcc_res env (DirectResolve env) snapshot buffer (tup, ()))"
  unfolding satisfies_mvcc_res_def Let_def fst_conv
  by (intro sim_rules sim_mvcc_xmax sim_mvcc_own)

lemma satisfies_mvcc_res_direct:
  assumes "rinv r"
  obtains res tup' r' where "satisfies_mvcc_res env R snapshot buffer (tup, r) = (res, tup', r')"
    and "HeapTupleSatisfiesMVCC env tup snapshot buffer = (res, tup')" and "rinv r'"
  using sim_satisfies_mvcc_res [OF assms, where tup = tup]
  by (cases "satisfies_mvcc_res env R snapshot buffer (tup, r)")
    (auto simp: resolver_sim_def HeapTupleSatisfiesMVCC_def split: prod.splits)

end

interpretation direct: mvcc_resolver env "DirectResolve env" snapshot buffer "\<lambda>_. True"
  for env snapshot buffer
  by unfold_locales (auto simp: DirectResolve_def split: prod.splits)

subsection \<open>The page memo implements the interface\<close>

definition hint_allowed :: "vis_env \<Rightarrow> Buffer \<Rightarrow> TransactionId \<Rightarrow> bool" where
  "hint_allowed env buffer xid \<longleftrightarrow>
     (case e_commit_lsn env xid of
        Inl _ \<Rightarrow> False
      | Inr lsn \<Rightarrow> \<not> (e_permanent env buffer \<and> e_needs_flush env lsn \<and> e_buffer_lsn env buffer < lsn))"

definition memo_flag_ok ::
  "vis_env \<Rightarrow> SnapshotData \<Rightarrow> Buffer \<Rightarrow> TransactionId \<Rightarrow> u8 \<Rightarrow> bool" where
  "memo_flag_ok env snapshot buffer xid f \<longleftrightarrow>
     (bit f 0 \<longrightarrow> XidInMVCCSnapshot (e_topmost env) xid snapshot = Inr (bit f 1))
     \<and> (bit f 1 \<longrightarrow> XidInMVCCSnapshot (e_topmost env) xid snapshot = Inr True)
     \<and> (bit f 2 \<longrightarrow> e_did_commit env xid = Inr (bit f 3))
     \<and> (bit f 3 \<longrightarrow> e_did_commit env xid = Inr True)
     \<and> (bit f 4 \<longrightarrow> hint_allowed env buffer xid)"

abbreviation memo_ok :: "vis_env \<Rightarrow> SnapshotData \<Rightarrow> Buffer \<Rightarrow> XidVisMemo \<Rightarrow> bool" where
  "memo_ok env snapshot buffer \<equiv> memo_all (memo_flag_ok env snapshot buffer)"

lemma xvm_bits [bit_rules]:
  "bit XVM_SNAP_VALID n \<longleftrightarrow> n = 0" "bit XVM_IN_SNAPSHOT n \<longleftrightarrow> n = 1" "bit XVM_COMMIT_VALID n \<longleftrightarrow> n = 2"
  "bit XVM_COMMITTED n \<longleftrightarrow> n = 3" "bit XVM_HINT_OK n \<longleftrightarrow> n = 4"
proof -
  have eqs: "XVM_SNAP_VALID = 2 ^ 0" "XVM_IN_SNAPSHOT = 2 ^ 1" "XVM_COMMIT_VALID = 2 ^ 2"
    "XVM_COMMITTED = 2 ^ 3" "XVM_HINT_OK = 2 ^ 4"
    by (simp_all add: XVM_SNAP_VALID_def XVM_IN_SNAPSHOT_def XVM_COMMIT_VALID_def
        XVM_COMMITTED_def XVM_HINT_OK_def)
  show "bit XVM_SNAP_VALID n \<longleftrightarrow> n = 0" "bit XVM_IN_SNAPSHOT n \<longleftrightarrow> n = 1"
    "bit XVM_COMMIT_VALID n \<longleftrightarrow> n = 2" "bit XVM_COMMITTED n \<longleftrightarrow> n = 3" "bit XVM_HINT_OK n \<longleftrightarrow> n = 4"
    unfolding eqs bit_exp_iff by auto
qed

lemma xvm_tests [bit_rules]:
  "(f :: u8) AND XVM_SNAP_VALID = 0 \<longleftrightarrow> \<not> bit f 0" "f AND XVM_IN_SNAPSHOT = 0 \<longleftrightarrow> \<not> bit f 1"
  "f AND XVM_COMMIT_VALID = 0 \<longleftrightarrow> \<not> bit f 2" "f AND XVM_COMMITTED = 0 \<longleftrightarrow> \<not> bit f 3"
  "f AND XVM_HINT_OK = 0 \<longleftrightarrow> \<not> bit f 4"
  by (rule and_flag_eq_0, rule xvm_bits)+

lemma memo_flag_ok_0: "memo_flag_ok env snapshot buffer xid 0"
  by (simp add: memo_flag_ok_def)

lemma memo_ok_get: "memo_ok env snapshot buffer memo \<Longrightarrow> memo_flag_ok env snapshot buffer xid (memo_get memo xid)"
  by (rule memo_all_get) (simp_all add: memo_flag_ok_0)

lemma memo_ok_new: "memo_ok env snapshot buffer memo_new"
  by (rule memo_all_new) (simp add: memo_flag_ok_0)

lemma memo_in_snapshot_law:
  assumes "memo_ok env snapshot buffer memo"
  shows "fst (memo_in_snapshot env xid snapshot memo) = XidInMVCCSnapshot (e_topmost env) xid snapshot
       \<and> memo_ok env snapshot buffer (snd (memo_in_snapshot env xid snapshot memo))"
proof (cases "XidInMVCCSnapshot (e_topmost env) xid snapshot")
  case (Inl e)
  then have "\<not> TransactionIdPrecedes xid (snap_xmin snapshot)"
    by (auto simp: XidInMVCCSnapshot_def)
  with Inl assms memo_ok_get [OF assms, of xid] show ?thesis
    by (simp add: memo_in_snapshot_def Let_def memo_flag_ok_def bit_rules)
next
  case (Inr b)
  have "memo_flag_ok env snapshot buffer xid
     (memo_get memo xid OR (XVM_SNAP_VALID OR (if b then XVM_IN_SNAPSHOT else 0)))"
    using memo_ok_get [OF assms, of xid] Inr by (auto simp: memo_flag_ok_def bit_or_iff xvm_bits)
  then have "memo_ok env snapshot buffer
     (memo_merge memo xid (XVM_SNAP_VALID OR (if b then XVM_IN_SNAPSHOT else 0)))"
    by (rule memo_all_merge [OF assms])
  moreover have "TransactionIdPrecedes xid (snap_xmin snapshot) \<Longrightarrow> \<not> b"
    using Inr by (auto simp: XidInMVCCSnapshot_def)
  moreover have "bit (memo_get memo xid) 0 \<Longrightarrow> bit (memo_get memo xid) 1 = b"
    using memo_ok_get [OF assms, of xid] Inr by (simp add: memo_flag_ok_def)
  ultimately show ?thesis
    using assms Inr by (simp add: memo_in_snapshot_def Let_def xvm_tests)
qed

lemma memo_did_commit_law:
  assumes "memo_ok env snapshot buffer memo"
  shows "fst (memo_did_commit env xid memo) = e_did_commit env xid
       \<and> memo_ok env snapshot buffer (snd (memo_did_commit env xid memo))"
proof (cases "e_did_commit env xid")
  case (Inl e)
  with assms memo_ok_get [OF assms, of xid] show ?thesis
    by (simp add: memo_did_commit_def Let_def memo_flag_ok_def bit_rules)
next
  case (Inr b)
  have "memo_flag_ok env snapshot buffer xid
     (memo_get memo xid OR (XVM_COMMIT_VALID OR (if b then XVM_COMMITTED else 0)))"
    using memo_ok_get [OF assms, of xid] Inr by (auto simp: memo_flag_ok_def bit_or_iff xvm_bits)
  then have "memo_ok env snapshot buffer
     (memo_merge memo xid (XVM_COMMIT_VALID OR (if b then XVM_COMMITTED else 0)))"
    by (rule memo_all_merge [OF assms])
  moreover have "bit (memo_get memo xid) 2 \<Longrightarrow> bit (memo_get memo xid) 3 = b"
    using memo_ok_get [OF assms, of xid] Inr by (simp add: memo_flag_ok_def)
  ultimately show ?thesis
    using assms Inr by (simp add: memo_did_commit_def Let_def xvm_tests)
qed

lemma memo_set_hint_bits_law:
  assumes "memo_ok env snapshot buffer memo"
  shows "let (res, tup', memo') = memo_set_hint_bits env tup buffer h xid memo in
     (res, tup') = SetHintBits env tup buffer h xid \<and> memo_ok env snapshot buffer memo'"
proof -
  note get = memo_ok_get [OF assms, of xid]
  have "memo_flag_ok env snapshot buffer xid (memo_get memo xid OR XVM_HINT_OK)"
    if "hint_allowed env buffer xid"
    using get that by (auto simp: memo_flag_ok_def bit_or_iff xvm_bits)
  then have "memo_ok env snapshot buffer (memo_merge memo xid XVM_HINT_OK)"
    if "hint_allowed env buffer xid"
    using assms that by (intro memo_all_merge)
  moreover have "bit (memo_get memo xid) 4 \<Longrightarrow> hint_allowed env buffer xid"
    using get by (simp add: memo_flag_ok_def)
  ultimately show ?thesis
    using assms by (cases "e_commit_lsn env xid")
      (auto simp: memo_set_hint_bits_def SetHintBits_def hint_allowed_def xvm_tests Let_def)
qed

interpretation page: mvcc_resolver env "PageMemoResolve env" snapshot buffer "memo_ok env snapshot buffer"
  for env snapshot buffer
proof (unfold_locales, goal_cases)
  case (1 r xid)
  then show ?case by (simp add: PageMemoResolve_def memo_in_snapshot_law)
next
  case (2 r xid)
  then show ?case by (simp add: PageMemoResolve_def memo_did_commit_law)
next
  case (3 r tup h xid)
  then show ?case by (simp add: PageMemoResolve_def memo_set_hint_bits_law)
qed

subsection \<open>The MVCC routines only set hints\<close>

lemma ask_direct_hint:
  assumes "hint_ext t0 (fst ts)" and "\<And>b ts'. hint_ext t0 (fst ts') \<Longrightarrow> hint_ext t0 (fst (snd (k b ts')))"
  shows "hint_ext t0 (fst (snd (ask_snapshot (DirectResolve env) xid snapshot ts k)))"
    and "hint_ext t0 (fst (snd (ask_commit (DirectResolve env) xid ts k)))"
  using assms by (cases "XidInMVCCSnapshot (e_topmost env) xid snapshot"; cases "e_did_commit env xid";
      simp add: ask_snapshot_def ask_commit_def DirectResolve_def)+

lemma mvcc_hint_direct_hint:
  assumes "hint_ext t0 (fst ts)" and "h \<in> hint_flags"
    and "\<And>ts'. hint_ext t0 (fst ts') \<Longrightarrow> hint_ext t0 (fst (snd (k ts')))"
  shows "hint_ext t0 (fst (snd (mvcc_hint (DirectResolve env) buffer h xid ts k)))"
proof -
  have "hint_ext t0 (snd (SetHintBits env (fst ts) buffer h xid))"
    using assms SetHintBits_hint_ext hint_ext_trans by blast
  with assms(3) show ?thesis
    by (cases "SetHintBits env (fst ts) buffer h xid"; cases "fst (SetHintBits env (fst ts) buffer h xid)")
      (simp_all add: mvcc_hint_def DirectResolve_def)
qed

lemmas mvcc_hint_s_rules = ask_direct_hint mvcc_hint_direct_hint tryS_hint_s if_hint_s ret_hint_s

lemma mvcc_cmax_hint_s:
  "hint_ext t0 (fst ts) \<Longrightarrow> hint_ext t0 (fst (snd (mvcc_cmax env snapshot ts)))"
  unfolding mvcc_cmax_def by (intro mvcc_hint_s_rules) simp_all

lemma mvcc_xmax_hint_s:
  "hint_ext t0 (fst ts) \<Longrightarrow>
   hint_ext t0 (fst (snd (mvcc_xmax env (DirectResolve env) snapshot buffer ts)))"
  unfolding mvcc_xmax_def Let_def by (intro mvcc_hint_s_rules mvcc_cmax_hint_s) simp_all

lemma mvcc_own_hint_s:
  "hint_ext t0 (fst ts) \<Longrightarrow>
   hint_ext t0 (fst (snd (mvcc_own env (DirectResolve env) snapshot buffer ts)))"
  unfolding mvcc_own_def Let_def by (intro mvcc_hint_s_rules mvcc_cmax_hint_s) simp_all

lemma MVCC_hint: "hint_ext tup (snd (HeapTupleSatisfiesMVCC env tup snapshot buffer))"
proof -
  have "hint_ext tup (fst (snd (satisfies_mvcc_res env (DirectResolve env) snapshot buffer (tup, ()))))"
    unfolding satisfies_mvcc_res_def Let_def
    by (intro mvcc_hint_s_rules mvcc_xmax_hint_s mvcc_own_hint_s) simp_all
  then show ?thesis
    by (simp add: HeapTupleSatisfiesMVCC_def case_prod_unfold Let_def)
qed

subsection \<open>Main results\<close>

text \<open>
  A visibility test never changes a tuple except for its hint bits. Whatever the snapshot type,
  and also for the update and vacuum tests, every field of the returned header equals the old one,
  the infomask only gains bits, and the gained bits are among the four status hints.
\<close>

theorem visibility_changes_only_hints:
  "hint_ext tup (fst (snd (HeapTupleSatisfiesVisibility env tup snapshot buffer)))
   \<and> hint_ext tup (fst (snd (heap_tuple_satisfies_visibility_read env tup snapshot buffer)))
   \<and> hint_ext tup (snd (HeapTupleSatisfiesUpdate env t_self tup cid buffer))
   \<and> hint_ext tup (snd (HeapTupleSatisfiesVacuum env tup oldest_xmin buffer))"
proof (intro conjI)
  have dirty: "hint_ext tup (fst (snd (HeapTupleSatisfiesDirty env tup snap buffer)))" for snap
    by (rule Dirty_hint)
  note hints = MVCC_hint [of tup env snapshot buffer] Self_hint [of tup env buffer]
    Toast_hint [of tup env buffer] NonVacuumable_hint [of tup env snapshot buffer] dirty
  show "hint_ext tup (fst (snd (HeapTupleSatisfiesVisibility env tup snapshot buffer)))"
    using hints by (cases "snapshot_type snapshot")
      (simp_all add: HeapTupleSatisfiesVisibility_def HeapTupleSatisfiesAny_def case_prod_unfold Let_def)
  show "hint_ext tup (fst (snd (heap_tuple_satisfies_visibility_read env tup snapshot buffer)))"
    using hints by (cases "snapshot_type snapshot")
      (simp_all add: heap_tuple_satisfies_visibility_read_def HeapTupleSatisfiesAny_def
        case_prod_unfold Let_def tryS_def split: sum.split)
qed (rule Update_hint Vacuum_hint)+

text \<open>
  A walk over the tuples of one page with a single memo, in the order a page scan tests them.
\<close>

fun mvcc_page_walk ::
  "vis_env \<Rightarrow> SnapshotData \<Rightarrow> Buffer \<Rightarrow> XidVisMemo \<Rightarrow> HeapTupleHeaderData list
     \<Rightarrow> (bool res \<times> HeapTupleHeaderData) list" where
  "mvcc_page_walk env snapshot buffer memo [] = []"
| "mvcc_page_walk env snapshot buffer memo (tup # tups) =
     (let (res, tup', memo') = HeapTupleSatisfiesMVCCPage env tup snapshot buffer memo in
      (res, tup') # mvcc_page_walk env snapshot buffer memo' tups)"

lemma mvcc_page_walk_direct:
  "memo_ok env snapshot buffer memo \<Longrightarrow>
   mvcc_page_walk env snapshot buffer memo tups
     = map (\<lambda>tup. HeapTupleSatisfiesMVCC env tup snapshot buffer) tups"
proof (induction tups arbitrary: memo)
  case (Cons tup tups)
  obtain res tup' memo' where
    "HeapTupleSatisfiesMVCCPage env tup snapshot buffer memo = (res, tup', memo')"
    "HeapTupleSatisfiesMVCC env tup snapshot buffer = (res, tup')" "memo_ok env snapshot buffer memo'"
    using page.satisfies_mvcc_res_direct [OF Cons.prems]
    unfolding HeapTupleSatisfiesMVCCPage_def by metis
  then show ?case
    using Cons.IH by simp
qed simp

text \<open>
  C34: batch visibility is per-tuple visibility. Testing the tuples of a page one after the other
  with one shared memo of transaction status gives, for every tuple, the result, the error and the
  hint bits that the direct test of that tuple gives.
\<close>

theorem page_memo_transparent:
  "mvcc_page_walk env snapshot buffer memo_new tups
     = map (\<lambda>tup. HeapTupleSatisfiesMVCC env tup snapshot buffer) tups"
  by (rule mvcc_page_walk_direct, rule memo_ok_new)

end
