(* ===== verification/VisibilitySpec.thy ===== *)
theory VisibilitySpec
  imports Visibility
begin

unbundle bit_operations_syntax

section \<open>What the visibility tests promise\<close>

text \<open>
  The meaning of a tuple header in terms of the transaction system, without hint bits, and the
  theorems that the routines of \<open>Visibility\<close> compute it: hint bits are sound and stay sound, the MVCC
  test decides the two-line specification \<open>mvcc_visible\<close>, and what VACUUM calls dead no
  snapshot can see.
\<close>

subsection \<open>The meaning of a header\<close>

text \<open>
  \<open>deleter env tup x\<close>: the transaction whose outcome decides whether the tuple is deleted. A
  header that only locks the tuple has none; a multixact stands for its updating member.
\<close>

definition deleter :: "vis_env \<Rightarrow> HeapTupleHeaderData \<Rightarrow> TransactionId \<Rightarrow> bool" where
  "deleter env tup x \<longleftrightarrow>
     \<not> HEAP_XMAX_IS_LOCKED_ONLY (t_infomask tup)
     \<and> (if t_infomask tup AND HEAP_XMAX_IS_MULTI \<noteq> 0 then e_update_xid env tup = Inr x
        else x = xmax_raw tup)"

definition finished_aborted :: "vis_env \<Rightarrow> TransactionId \<Rightarrow> bool" where
  "finished_aborted env x \<longleftrightarrow> e_in_progress env x = Inr False \<and> e_did_commit env x = Inr False"

definition unmoved :: "HeapTupleHeaderData \<Rightarrow> bool" where
  "unmoved tup \<longleftrightarrow> t_infomask tup AND HEAP_MOVED = 0"

text \<open>
  The outcome of the insertion; a tuple moved by an old-style VACUUM lives or dies with the
  transaction of that VACUUM.
\<close>

definition insert_committed :: "vis_env \<Rightarrow> HeapTupleHeaderData \<Rightarrow> bool" where
  "insert_committed env tup \<longleftrightarrow>
     (if t_infomask tup AND HEAP_MOVED_OFF \<noteq> 0 then finished_aborted env (xvac tup)
      else if t_infomask tup AND HEAP_MOVED_IN \<noteq> 0 then e_did_commit env (xvac tup) = Inr True
      else e_did_commit env (xmin_raw tup) = Inr True)"

definition insert_aborted :: "vis_env \<Rightarrow> HeapTupleHeaderData \<Rightarrow> bool" where
  "insert_aborted env tup \<longleftrightarrow>
     (if t_infomask tup AND HEAP_MOVED_OFF \<noteq> 0 then e_did_commit env (xvac tup) = Inr True
      else if t_infomask tup AND HEAP_MOVED_IN \<noteq> 0 then finished_aborted env (xvac tup)
      else finished_aborted env (xmin_raw tup))"

definition hints_sound :: "vis_env \<Rightarrow> HeapTupleHeaderData \<Rightarrow> bool" where
  "hints_sound env tup \<longleftrightarrow>
     (xmin_committed tup \<longrightarrow> \<not> xmin_frozen tup \<longrightarrow> insert_committed env tup)
     \<and> (xmin_invalid tup \<longrightarrow> insert_aborted env tup)
     \<and> (t_infomask tup AND HEAP_XMAX_COMMITTED \<noteq> 0 \<longrightarrow>
          (\<forall>x. deleter env tup x \<longrightarrow> e_did_commit env x = Inr True))
     \<and> (t_infomask tup AND HEAP_XMAX_INVALID \<noteq> 0 \<longrightarrow>
          (\<forall>x. deleter env tup x \<longrightarrow> finished_aborted env x))"

text \<open>
  What is assumed of the transaction system: a current transaction is in progress and not
  committed, and the invalid transaction id is neither in progress nor committed. Of a tuple the
  current transaction inserted: whoever deleted it is a current (sub)transaction or has aborted,
  because nobody else can see the tuple.
\<close>

definition env_ok :: "vis_env \<Rightarrow> bool" where
  "env_ok env \<longleftrightarrow>
     (\<forall>x. e_is_current env x \<longrightarrow> e_in_progress env x = Inr True \<and> e_did_commit env x = Inr False)
     \<and> finished_aborted env InvalidTransactionId"

definition own_ok :: "vis_env \<Rightarrow> HeapTupleHeaderData \<Rightarrow> bool" where
  "own_ok env tup \<longleftrightarrow>
     (unmoved tup \<longrightarrow> e_is_current env (xmin_raw tup) \<longrightarrow>
        (\<forall>x. deleter env tup x \<longrightarrow> e_is_current env x \<or> finished_aborted env x))"

text \<open>The transaction ids that a header mentions.\<close>

definition tuple_xid :: "vis_env \<Rightarrow> HeapTupleHeaderData \<Rightarrow> TransactionId \<Rightarrow> bool" where
  "tuple_xid env tup x \<longleftrightarrow> x = xmin_raw tup \<or> x = xmax_raw tup \<or> x = xvac tup \<or> e_update_xid env tup = Inr x"

text \<open>
  A snapshot contains every transaction of the header that is still in progress, except the current one.
\<close>

definition snapshot_ok :: "vis_env \<Rightarrow> SnapshotData \<Rightarrow> HeapTupleHeaderData \<Rightarrow> bool" where
  "snapshot_ok env snapshot tup \<longleftrightarrow>
     (\<forall>x. tuple_xid env tup x \<longrightarrow> \<not> e_is_current env x \<longrightarrow> XidInMVCCSnapshot (e_topmost env) x snapshot = Inr False
        \<longrightarrow> e_in_progress env x = Inr False)"

subsection \<open>The MVCC specification\<close>

text \<open>
  A snapshot sees what its own transaction did in earlier commands, and what other
  transactions did that were committed when it was taken. A tuple is visible when the snapshot sees its
  insertion and does not see its deletion.
\<close>

definition sees :: "vis_env \<Rightarrow> SnapshotData \<Rightarrow> TransactionId \<Rightarrow> CommandId res \<Rightarrow> bool" where
  "sees env snapshot x cid \<longleftrightarrow>
     (if e_is_current env x then (\<exists>c. cid = Inr c \<and> c < curcid snapshot)
      else XidInMVCCSnapshot (e_topmost env) x snapshot = Inr False \<and> e_did_commit env x = Inr True)"

definition insert_seen :: "vis_env \<Rightarrow> SnapshotData \<Rightarrow> HeapTupleHeaderData \<Rightarrow> bool" where
  "insert_seen env snapshot tup \<longleftrightarrow>
     xmin_frozen tup \<or> sees env snapshot (xmin_raw tup) (e_cmin env tup)"

definition delete_seen :: "vis_env \<Rightarrow> SnapshotData \<Rightarrow> HeapTupleHeaderData \<Rightarrow> bool" where
  "delete_seen env snapshot tup \<longleftrightarrow>
     (\<exists>x. deleter env tup x \<and> sees env snapshot x (e_cmax env tup))"

definition mvcc_visible :: "vis_env \<Rightarrow> SnapshotData \<Rightarrow> HeapTupleHeaderData \<Rightarrow> bool" where
  "mvcc_visible env snapshot tup \<longleftrightarrow> insert_seen env snapshot tup \<and> \<not> delete_seen env snapshot tup"

subsection \<open>Hint bits do not change the meaning\<close>

lemma hint_ext_deleter:
  assumes "hint_ext tup tup'"
  shows "deleter env tup' x \<longleftrightarrow> deleter env tup x"
proof -
  have "bit (t_infomask tup') n = bit (t_infomask tup) n" if "n \<in> {4, 6, 7, 12}" for n
    using hint_ext_other_bits [OF assms, of n] that by auto
  then show ?thesis
    using hint_ext_fields [OF assms] HeapTupleGetUpdateXid_hint [OF assms]
    by (simp add: deleter_def bit_rules xmax_raw_def)
qed

lemma hint_ext_cids:
  assumes "hint_ext tup tup'"
  shows "e_cmin env tup' = e_cmin env tup" and "e_cmax env tup' = e_cmax env tup"
  using hint_ext_fields [OF assms] hint_ext_other_bits [OF assms, of 5]
  by (simp_all add: HeapTupleHeaderGetCmin_def HeapTupleHeaderGetCmax_def raw_command_id_def bit_rules)

lemma hint_ext_moved:
  assumes "hint_ext tup tup'"
  shows "xvac tup' = xvac tup" and "unmoved tup' = unmoved tup"
    and "insert_committed env tup' = insert_committed env tup"
    and "insert_aborted env tup' = insert_aborted env tup"
proof -
  have bits: "bit (t_infomask tup') 14 = bit (t_infomask tup) 14"
    "bit (t_infomask tup') 15 = bit (t_infomask tup) 15"
    using hint_ext_other_bits [OF assms] by auto
  then show xv: "xvac tup' = xvac tup"
    using hint_ext_fields [OF assms] by (simp add: xvac_def bit_rules)
  show "unmoved tup' = unmoved tup" "insert_committed env tup' = insert_committed env tup"
    "insert_aborted env tup' = insert_aborted env tup"
    using bits xv hint_ext_fields [OF assms]
    by (simp_all add: unmoved_def insert_committed_def insert_aborted_def xmin_raw_def bit_rules)
qed

lemma tuple_xid_hint: "hint_ext tup tup' \<Longrightarrow> tuple_xid env tup' x \<longleftrightarrow> tuple_xid env tup x"
  using hint_ext_fields [of tup tup'] hint_ext_moved(1) [of tup tup'] HeapTupleGetUpdateXid_hint [of tup tup']
  by (simp add: tuple_xid_def xmin_raw_def xmax_raw_def)

lemma snapshot_ok_hint: "hint_ext tup tup' \<Longrightarrow> snapshot_ok env snapshot tup' \<longleftrightarrow> snapshot_ok env snapshot tup"
  by (simp add: snapshot_ok_def tuple_xid_hint [of tup tup'])

lemma delete_seen_hint:
  "hint_ext tup tup' \<Longrightarrow> delete_seen env snapshot tup' = delete_seen env snapshot tup"
  by (simp add: delete_seen_def hint_ext_deleter [of tup tup'] hint_ext_cids [of tup tup'])

lemma own_ok_hint: "hint_ext tup tup' \<Longrightarrow> own_ok env tup' = own_ok env tup"
  using hint_ext_fields(1) [of tup tup']
  by (simp add: own_ok_def hint_ext_moved [of tup tup'] hint_ext_deleter [of tup tup'] xmin_raw_def)

subsection \<open>Hint bits stay sound\<close>

text \<open>A hint is justified when setting it keeps the header sound.\<close>

definition justified :: "vis_env \<Rightarrow> HeapTupleHeaderData \<Rightarrow> u16 \<Rightarrow> bool" where
  "justified env tup h \<longleftrightarrow> hints_sound env (tup \<lparr> t_infomask := t_infomask tup OR h \<rparr>)"

lemma hints_sound_bits:
  "hints_sound env tup \<longleftrightarrow>
     (bit (t_infomask tup) 8 \<longrightarrow> \<not> bit (t_infomask tup) 9 \<longrightarrow> insert_committed env tup)
     \<and> (\<not> bit (t_infomask tup) 8 \<longrightarrow> bit (t_infomask tup) 9 \<longrightarrow> insert_aborted env tup)
     \<and> (bit (t_infomask tup) 10 \<longrightarrow> (\<forall>x. deleter env tup x \<longrightarrow> e_did_commit env x = Inr True))
     \<and> (bit (t_infomask tup) 11 \<longrightarrow> (\<forall>x. deleter env tup x \<longrightarrow> finished_aborted env x))"
  by (auto simp: hints_sound_def bit_rules)

lemma justified_rule:
  assumes "hints_sound env tup" and "h \<in> hint_flags"
    and "h = HEAP_XMIN_COMMITTED \<Longrightarrow> \<not> bit (t_infomask tup) 9 \<and> insert_committed env tup"
    and "h = HEAP_XMIN_INVALID \<Longrightarrow> insert_aborted env tup"
    and "h = HEAP_XMAX_COMMITTED \<Longrightarrow> \<forall>x. deleter env tup x \<longrightarrow> e_did_commit env x = Inr True"
    and "h = HEAP_XMAX_INVALID \<Longrightarrow> \<forall>x. deleter env tup x \<longrightarrow> finished_aborted env x"
  shows "justified env tup h"
proof -
  let ?tup' = "tup \<lparr> t_infomask := t_infomask tup OR h \<rparr>"
  note ext = hint_ext_set [OF assms(2), of tup]
  have "bit (t_infomask ?tup') n \<longleftrightarrow> bit (t_infomask tup) n \<or> bit h n" for n
    by (simp add: bit_or_iff)
  with assms show ?thesis
    unfolding justified_def hints_sound_bits hint_ext_moved(3,4) [OF ext] hint_ext_deleter [OF ext]
    by (elim insertE emptyE) (simp_all add: infomask_bits)
qed

lemma justified_xmax_invalid:
  assumes "hints_sound env tup" and "\<And>x. deleter env tup x \<Longrightarrow> finished_aborted env x"
  shows "justified env tup HEAP_XMAX_INVALID"
  by (rule justified_rule [OF assms(1)]) (use assms in \<open>auto simp: infomask_defs\<close>)

lemma justified_xmax_committed:
  assumes "hints_sound env tup" and "\<And>x. deleter env tup x \<Longrightarrow> e_did_commit env x = Inr True"
  shows "justified env tup HEAP_XMAX_COMMITTED"
  by (rule justified_rule [OF assms(1)]) (use assms in \<open>auto simp: infomask_defs\<close>)

lemma justified_xmin_committed:
  assumes "hints_sound env tup" and "\<not> xmin_committed tup" and "\<not> xmin_invalid tup"
    and "insert_committed env tup"
  shows "justified env tup HEAP_XMIN_COMMITTED"
  by (rule justified_rule [OF assms(1)]) (use assms in \<open>auto simp: infomask_defs infomask_preds\<close>)

lemma justified_xmin_invalid:
  assumes "hints_sound env tup" and "insert_aborted env tup"
  shows "justified env tup HEAP_XMIN_INVALID"
  by (rule justified_rule [OF assms(1)]) (use assms in \<open>auto simp: infomask_defs\<close>)

lemma SetHintBits_sound:
  assumes "hints_sound env tup" and "justified env tup h"
  shows "hints_sound env (snd (SetHintBits env tup buffer h xid))"
  using assms by (cases "e_commit_lsn env xid") (auto simp: SetHintBits_def Let_def justified_def)

named_theorems sound_rules \<open>routines keep the hints sound\<close>

lemma sound_ret [sound_rules]: "hints_sound env tup \<Longrightarrow> hints_sound env (snd (r, tup))"
  by simp

lemma sound_if [sound_rules]:
  "(P \<Longrightarrow> hints_sound env (snd x)) \<Longrightarrow> (\<not> P \<Longrightarrow> hints_sound env (snd y))
   \<Longrightarrow> hints_sound env (snd (if P then x else y))"
  by simp

lemma sound_tryS [sound_rules]:
  "hints_sound env tup \<Longrightarrow> (\<And>a. r = Inr a \<Longrightarrow> hints_sound env (snd (k a)))
   \<Longrightarrow> hints_sound env (snd (tryS r tup k))"
  by (cases r) simp_all

lemma sound_hint_then [sound_rules]:
  assumes "hints_sound env tup" and "justified env tup h"
    and "\<And>tup'. hints_sound env tup' \<Longrightarrow> hints_sound env (snd (k tup'))"
  shows "hints_sound env (snd (hint_then env buffer h xid tup k))"
  using SetHintBits_sound [OF assms(1,2), of buffer xid] assms(3)
  by (cases "SetHintBits env tup buffer h xid"; cases "fst (SetHintBits env tup buffer h xid)")
    (simp_all add: hint_then_def)

lemmas justified_rules =
  justified_xmax_invalid justified_xmax_committed justified_xmin_committed justified_xmin_invalid

lemma self_xmax_sound [sound_rules]:
  "hints_sound env tup \<Longrightarrow> hints_sound env (snd (self_xmax env buffer tup))"
  unfolding self_xmax_def
  by (intro sound_rules justified_rules) (auto simp: deleter_def finished_aborted_def)

lemma Self_sound:
  assumes "hints_sound env tup" and "own_ok env tup"
  shows "hints_sound env (snd (HeapTupleSatisfiesSelf env tup buffer))"
  unfolding HeapTupleSatisfiesSelf_def Let_def
  by (intro sound_rules justified_rules)
    (use assms in \<open>auto simp: insert_committed_def insert_aborted_def finished_aborted_def own_ok_def
       unmoved_def infomask_tests deleter_def\<close>)

lemma multi_updater_dead:
  assumes "env_ok env" and "e_multi_running env (xmax_raw tup) False = Inr False"
    and "e_update_xid env tup = Inr x" and "e_did_commit env x = Inr False"
  shows "finished_aborted env x"
proof (cases "TransactionIdIsValid x")
  case True
  then show ?thesis
    using MultiXactIdIsRunning_updater [OF assms(2), of x] assms(3,4)
    by (simp add: HeapTupleGetUpdateXid_def finished_aborted_def)
next
  case False
  with assms(1) show ?thesis
    by (simp add: env_ok_def TransactionIdIsValid_def)
qed

lemma Toast_sound:
  assumes "hints_sound env tup"
  shows "hints_sound env (snd (HeapTupleSatisfiesToast env tup buffer))"
  unfolding HeapTupleSatisfiesToast_def Let_def
  by (intro sound_rules justified_rules)
    (use assms in \<open>auto simp: insert_committed_def insert_aborted_def finished_aborted_def\<close>)

lemma update_leaf_sound [sound_rules]:
  "hints_sound env tup \<Longrightarrow> hints_sound env (snd (update_cmax env cid tup))"
  "hints_sound env tup \<Longrightarrow> hints_sound env (snd (update_gone t_self tup))"
  unfolding update_cmax_def update_gone_def by (intro sound_rules; assumption)+

lemma update_multi_sound [sound_rules]:
  assumes "hints_sound env tup" and "env_ok env" and "t_infomask tup AND HEAP_XMAX_IS_MULTI \<noteq> 0"
  shows "hints_sound env (snd (update_multi env t_self cid buffer tup))"
  unfolding update_multi_def
  by (intro sound_rules justified_rules)
    (use assms in \<open>auto simp: deleter_def intro: multi_updater_dead\<close>)

lemma update_xmax_sound [sound_rules]:
  assumes "hints_sound env tup" and "env_ok env"
  shows "hints_sound env (snd (update_xmax env t_self cid buffer tup))"
  unfolding update_xmax_def
  by (intro sound_rules justified_rules)
    (use assms in \<open>auto simp: deleter_def finished_aborted_def\<close>)

lemma update_own_sound [sound_rules]:
  assumes "hints_sound env tup" and "own_ok env tup" and "unmoved tup" and "e_is_current env (xmin_raw tup)"
  shows "hints_sound env (snd (update_own env cid buffer tup))"
  unfolding update_own_def
  by (intro sound_rules justified_rules)
    (use assms in \<open>auto simp: own_ok_def deleter_def\<close>)

lemma Update_sound:
  assumes "hints_sound env tup" and "own_ok env tup" and "env_ok env"
  shows "hints_sound env (snd (HeapTupleSatisfiesUpdate env t_self tup cid buffer))"
  unfolding HeapTupleSatisfiesUpdate_def Let_def
  by (intro sound_rules justified_rules)
    (use assms in \<open>auto simp: insert_committed_def insert_aborted_def finished_aborted_def
       unmoved_def infomask_tests\<close>)

lemma vacuum_xmax_sound [sound_rules]:
  assumes "hints_sound env tup" and "env_ok env"
  shows "hints_sound env (snd (vacuum_xmax env buffer tup))"
  unfolding vacuum_xmax_def
  by (intro sound_rules justified_rules)
    (use assms in \<open>auto simp: deleter_def finished_aborted_def intro: multi_updater_dead\<close>)

lemma vacuum_own_sound [sound_rules]:
  "hints_sound env tup \<Longrightarrow> hints_sound env (snd (vacuum_own env tup))"
  unfolding vacuum_own_def by (intro sound_rules; assumption)

lemma VacuumHorizon_sound:
  assumes "hints_sound env tup" and "env_ok env"
  shows "hints_sound env (snd (HeapTupleSatisfiesVacuumHorizon env tup buffer))"
  unfolding HeapTupleSatisfiesVacuumHorizon_def Let_def
  by (intro sound_rules justified_rules)
    (use assms in \<open>auto simp: insert_committed_def insert_aborted_def finished_aborted_def\<close>)

lemma bindS_sound:
  assumes "hints_sound env (snd x)" and "\<And>a tup. hints_sound env tup \<Longrightarrow> hints_sound env (snd (k a tup))"
  shows "hints_sound env (snd (bindS x k))"
  using assms by (cases x; cases "fst x") (auto simp: bindS_def)

lemma Vacuum_sound:
  assumes "hints_sound env tup" and "env_ok env"
  shows "hints_sound env (snd (HeapTupleSatisfiesVacuum env tup oldest buffer))"
  unfolding HeapTupleSatisfiesVacuum_def
  by (rule bindS_sound [OF VacuumHorizon_sound [OF assms]]) (auto split: prod.splits)

lemma NonVacuumable_sound:
  assumes "hints_sound env tup" and "env_ok env"
  shows "hints_sound env (snd (HeapTupleSatisfiesNonVacuumable env tup snapshot buffer))"
  unfolding HeapTupleSatisfiesNonVacuumable_def
  by (rule bindS_sound [OF VacuumHorizon_sound [OF assms]]) (auto split: prod.splits intro!: sound_tryS)

text \<open>The same rules for routines whose state has a second component.\<close>

lemma sound_ret_s: "hints_sound env (fst ts) \<Longrightarrow> hints_sound env (fst (snd (r, ts)))"
  by simp

lemma sound_if_s:
  "(P \<Longrightarrow> hints_sound env (fst (snd x))) \<Longrightarrow> (\<not> P \<Longrightarrow> hints_sound env (fst (snd y)))
   \<Longrightarrow> hints_sound env (fst (snd (if P then x else y)))"
  by simp

lemma sound_tryS_s:
  "hints_sound env (fst ts) \<Longrightarrow> (\<And>a. r = Inr a \<Longrightarrow> hints_sound env (fst (snd (k a))))
   \<Longrightarrow> hints_sound env (fst (snd (tryS r ts k)))"
  by (cases r) simp_all

lemma sound_hint_then_s:
  assumes "hints_sound env (fst ts)" and "justified env (fst ts) h"
    and "\<And>ts'. hints_sound env (fst ts') \<Longrightarrow> hints_sound env (fst (snd (k ts')))"
  shows "hints_sound env (fst (snd (hint_then_s env buffer h xid ts k)))"
  using SetHintBits_sound [OF assms(1,2), of buffer xid] assms(3)
  by (cases "SetHintBits env (fst ts) buffer h xid"; cases "fst (SetHintBits env (fst ts) buffer h xid)")
    (simp_all add: hint_then_s_def)

lemma sound_mvcc_hint_s:
  assumes "hints_sound env (fst ts)" and "justified env (fst ts) h" and "h \<in> hint_flags"
    and "\<And>ts'. hint_ext (fst ts) (fst ts') \<Longrightarrow> hints_sound env (fst ts') \<Longrightarrow> hints_sound env (fst (snd (k ts')))"
  shows "hints_sound env (fst (snd (mvcc_hint (DirectResolve env) buffer h xid ts k)))"
  using SetHintBits_sound [OF assms(1,2), of buffer xid] SetHintBits_hint_ext [OF assms(3), of "fst ts" env buffer xid] assms(4)
  by (cases "SetHintBits env (fst ts) buffer h xid"; cases "fst (SetHintBits env (fst ts) buffer h xid)")
    (simp_all add: mvcc_hint_def DirectResolve_def)

lemma sound_ask_snapshot_s:
  assumes "hints_sound env (fst ts)"
    and "\<And>b. XidInMVCCSnapshot (e_topmost env) xid snapshot = Inr b
       \<Longrightarrow> hints_sound env (fst (snd (k b ts)))"
  shows "hints_sound env (fst (snd (ask_snapshot (DirectResolve env) xid snapshot ts k)))"
  using assms by (cases ts; cases "XidInMVCCSnapshot (e_topmost env) xid snapshot")
    (simp_all add: ask_snapshot_def DirectResolve_def)

lemma sound_ask_commit_s:
  assumes "hints_sound env (fst ts)"
    and "\<And>b. e_did_commit env xid = Inr b \<Longrightarrow> hints_sound env (fst (snd (k b ts)))"
  shows "hints_sound env (fst (snd (ask_commit (DirectResolve env) xid ts k)))"
  using assms by (cases ts; cases "e_did_commit env xid") (simp_all add: ask_commit_def DirectResolve_def)

lemmas sound_s_rules = sound_hint_then_s sound_mvcc_hint_s sound_ask_snapshot_s sound_ask_commit_s
  sound_tryS_s sound_if_s sound_ret_s

lemma dirty_xmax_sound:
  "hints_sound env (fst ts) \<Longrightarrow> hints_sound env (fst (snd (dirty_xmax_test env buffer ts)))"
  unfolding dirty_xmax_test_def Let_def
  by (intro sound_s_rules justified_rules) (auto simp: deleter_def finished_aborted_def)

lemma Dirty_sound:
  assumes "hints_sound env tup" and "own_ok env tup"
  shows "hints_sound env (fst (snd (HeapTupleSatisfiesDirty env tup snapshot buffer)))"
  unfolding HeapTupleSatisfiesDirty_def Let_def
  by (intro sound_s_rules justified_rules dirty_xmax_sound)
    (use assms in \<open>auto simp: insert_committed_def insert_aborted_def finished_aborted_def own_ok_def
       unmoved_def infomask_tests deleter_def\<close>)

lemma not_in_snapshot_aborted:
  assumes "snapshot_ok env snapshot tup" and "tuple_xid env tup x" and "\<not> e_is_current env x"
    and "XidInMVCCSnapshot (e_topmost env) x snapshot = Inr False" and "e_did_commit env x = Inr False"
  shows "finished_aborted env x"
  using assms by (simp add: snapshot_ok_def finished_aborted_def)

lemma mvcc_cmax_sound:
  "hints_sound env (fst ts) \<Longrightarrow> hints_sound env (fst (snd (mvcc_cmax env snapshot ts)))"
  unfolding mvcc_cmax_def by (intro sound_s_rules; assumption)

lemma mvcc_xmax_sound:
  assumes "hints_sound env (fst ts)" and "snapshot_ok env snapshot (fst ts)"
  shows "hints_sound env (fst (snd (mvcc_xmax env (DirectResolve env) snapshot buffer ts)))"
  unfolding mvcc_xmax_def Let_def
  by (intro sound_s_rules justified_rules mvcc_cmax_sound)
    (use assms in \<open>auto simp: deleter_def tuple_xid_def intro: not_in_snapshot_aborted\<close>)

lemma mvcc_own_sound:
  assumes "hints_sound env (fst ts)" and "own_ok env (fst ts)" and "unmoved (fst ts)"
    and "e_is_current env (xmin_raw (fst ts))"
  shows "hints_sound env (fst (snd (mvcc_own env (DirectResolve env) snapshot buffer ts)))"
  unfolding mvcc_own_def Let_def
  by (intro sound_s_rules justified_rules mvcc_cmax_sound)
    (use assms in \<open>auto simp: own_ok_def deleter_def\<close>)

lemma MVCC_sound:
  assumes "hints_sound env tup" and "own_ok env tup" and "snapshot_ok env snapshot tup"
  shows "hints_sound env (snd (HeapTupleSatisfiesMVCC env tup snapshot buffer))"
proof -
  have "hints_sound env (fst (snd (satisfies_mvcc_res env (DirectResolve env) snapshot buffer (tup, ()))))"
    unfolding satisfies_mvcc_res_def Let_def
    by (intro sound_s_rules justified_rules mvcc_xmax_sound mvcc_own_sound)
      (use assms in \<open>auto simp: insert_committed_def insert_aborted_def unmoved_def infomask_tests
         tuple_xid_def snapshot_ok_hint intro: not_in_snapshot_aborted\<close>)
  then show ?thesis
    by (simp add: HeapTupleSatisfiesMVCC_def case_prod_unfold Let_def)
qed

text \<open>
  C32: hint bits tell the truth, and every test keeps them truthful. If the hints of a header are sound
  for the state of the transaction system, so are the hints of the header that any visibility test
  returns, for every snapshot type, also when the test returns an error, and for the
  update and vacuum tests.
\<close>

theorem visibility_keeps_hints_sound:
  assumes "hints_sound env tup" and "own_ok env tup" and "env_ok env" and "snapshot_ok env snapshot tup"
  shows "hints_sound env (fst (snd (HeapTupleSatisfiesVisibility env tup snapshot buffer)))
       \<and> hints_sound env (snd (HeapTupleSatisfiesUpdate env t_self tup cid buffer))
       \<and> hints_sound env (snd (HeapTupleSatisfiesVacuum env tup oldest_xmin buffer))"
proof (intro conjI)
  show "hints_sound env (fst (snd (HeapTupleSatisfiesVisibility env tup snapshot buffer)))"
    using MVCC_sound [of env tup snapshot buffer] Self_sound [of env tup buffer]
      Toast_sound [of env tup buffer] Dirty_sound [of env tup snapshot buffer]
      NonVacuumable_sound [of env tup snapshot buffer] assms
    by (cases "snapshot_type snapshot")
      (simp_all add: HeapTupleSatisfiesVisibility_def HeapTupleSatisfiesAny_def case_prod_unfold Let_def)
qed (use assms in \<open>simp_all add: Update_sound Vacuum_sound\<close>)

text \<open>
  A concrete transaction system for the examples: 700 has committed, 800 is the current
  transaction, 900 is in progress elsewhere, every other id has aborted.
\<close>

definition demo_env :: vis_env where
  "demo_env =
     \<lparr> e_is_current = (\<lambda>x. x = 800),
       e_in_progress = (\<lambda>x. Inr (x = 800 \<or> x = 900)),
       e_did_commit = (\<lambda>x. Inr (x = 700)),
       e_commit_lsn = (\<lambda>x. Inr 0),
       e_topmost = (\<lambda>x. Inr x),
       e_lookup = (\<lambda>_ _. Inr []),
       e_combos = combo_empty,
       e_permanent = (\<lambda>_. True),
       e_needs_flush = (\<lambda>_. False),
       e_buffer_lsn = (\<lambda>_. 0),
       e_mark_hint = (\<lambda>_. Inr ()),
       e_removable = (\<lambda>_ x. Inr (TransactionIdPrecedes x 800)),
       e_tuple_cids = (\<lambda>_ _ _. Inr None) \<rparr>"

definition demo_snapshot :: SnapshotData where
  "demo_snapshot = (sentinel SNAPSHOT_MVCC)
     \<lparr> snap_xmin := 800, snap_xmax := 901, snap_xip := [900], snap_xcnt := 1, curcid := 5 \<rparr>"

definition demo_tuple :: "TransactionId \<Rightarrow> TransactionId \<Rightarrow> u16 \<Rightarrow> HeapTupleHeaderData" where
  "demo_tuple xmn xmx flags =
     \<lparr> t_xmin = xmn, t_xmax = xmx, t_field3 = 3, t_ctid = ItemPointerNew 0 1,
       t_infomask2 = 2, t_infomask = flags, t_hoff = 24 \<rparr>"

lemma demo_env_ok: "env_ok demo_env"
  by (auto simp: env_ok_def demo_env_def finished_aborted_def InvalidTransactionId_def)

lemma demo_snapshot_ok: "snapshot_ok demo_env demo_snapshot tup"
  by (auto simp: snapshot_ok_def demo_env_def demo_snapshot_def sentinel_def XidInMVCCSnapshot_def
      slice_to_def TransactionIdPrecedes_def TransactionIdIsNormal_iff)

lemma demo_hints_sound: "hints_sound demo_env (demo_tuple 700 0 0x0800)"
  by (auto simp: hints_sound_bits demo_tuple_def bit_simps deleter_def infomask_preds infomask_tests
      xmax_raw_def demo_env_def finished_aborted_def)

lemma demo_own_ok: "own_ok demo_env (demo_tuple 700 0 0x0800)"
  by (simp add: own_ok_def demo_tuple_def demo_env_def xmin_raw_def)

theorem visibility_keeps_hints_sound_witness:
  "hints_sound demo_env
     (fst (snd (HeapTupleSatisfiesVisibility demo_env (demo_tuple 700 0 0x0800) demo_snapshot 1)))"
  using visibility_keeps_hints_sound
    [OF demo_hints_sound demo_own_ok demo_env_ok demo_snapshot_ok, of 1 ItemPointerInvalid 0 0]
  by blast

subsection \<open>MVCC decides the specification\<close>

text \<open>\<open>post P x\<close>: if the run \<open>x\<close> ends with a value, the value satisfies \<open>P\<close>.\<close>

definition post :: "('a \<Rightarrow> bool) \<Rightarrow> 'a res \<times> 's \<Rightarrow> bool" where
  "post P x \<longleftrightarrow> (\<forall>v. fst x = Inr v \<longrightarrow> P v)"

named_theorems post_rules \<open>partial correctness of the combinators\<close>

lemma post_ret [post_rules]: "P v \<Longrightarrow> post P (Inr v, s)"
  by (simp add: post_def)

lemma post_if [post_rules]:
  "(b \<Longrightarrow> post P x) \<Longrightarrow> (\<not> b \<Longrightarrow> post P y) \<Longrightarrow> post P (if b then x else y)"
  by simp

lemma post_tryS [post_rules]: "(\<And>a. r = Inr a \<Longrightarrow> post P (k a)) \<Longrightarrow> post P (tryS r s k)"
  by (cases r) (simp_all add: post_def)

lemma post_ask_snapshot [post_rules]:
  assumes "\<And>b. XidInMVCCSnapshot (e_topmost env) xid snapshot = Inr b \<Longrightarrow> post P (k b ts)"
  shows "post P (ask_snapshot (DirectResolve env) xid snapshot ts k)"
  using assms by (cases ts; cases "XidInMVCCSnapshot (e_topmost env) xid snapshot")
    (simp_all add: ask_snapshot_def DirectResolve_def post_def)

lemma post_ask_commit [post_rules]:
  assumes "\<And>b. e_did_commit env xid = Inr b \<Longrightarrow> post P (k b ts)"
  shows "post P (ask_commit (DirectResolve env) xid ts k)"
  using assms by (cases ts; cases "e_did_commit env xid")
    (simp_all add: ask_commit_def DirectResolve_def post_def)

lemma post_mvcc_hint [post_rules]:
  assumes "h \<in> hint_flags" and "hints_sound env (fst ts)" and "justified env (fst ts) h"
    and "\<And>ts'. hint_ext (fst ts) (fst ts') \<Longrightarrow> hints_sound env (fst ts') \<Longrightarrow> post P (k ts')"
  shows "post P (mvcc_hint (DirectResolve env) buffer h xid ts k)"
  using SetHintBits_sound [OF assms(2,3), of buffer xid] SetHintBits_hint_ext [OF assms(1), of "fst ts" env buffer xid]
    assms(4) [of "(snd (SetHintBits env (fst ts) buffer h xid), ())"]
  by (cases "SetHintBits env (fst ts) buffer h xid"; cases "fst (SetHintBits env (fst ts) buffer h xid)")
    (simp_all add: mvcc_hint_def DirectResolve_def post_def)

lemma mvcc_cmax_post [post_rules]:
  assumes "\<And>c. e_cmax env (fst ts) = Inr c \<Longrightarrow> P (\<not> c < curcid snapshot)"
  shows "post P (mvcc_cmax env snapshot ts)"
  unfolding mvcc_cmax_def by (intro post_rules) (use assms in \<open>auto simp: not_less\<close>)

lemma mvcc_xmax_post:
  assumes "hints_sound env (fst ts)" and "env_ok env" and "snapshot_ok env snapshot (fst ts)"
  shows "post (\<lambda>v. v = (\<not> delete_seen env snapshot (fst ts))) (mvcc_xmax env (DirectResolve env) snapshot buffer ts)"
  unfolding mvcc_xmax_def Let_def
  by (intro post_rules justified_rules)
    (use assms in \<open>auto simp: delete_seen_def deleter_def sees_def finished_aborted_def snapshot_ok_def tuple_xid_def
       hints_sound_def env_ok_def\<close>)

lemma mvcc_own_post:
  assumes "hints_sound env (fst ts)" and "own_ok env (fst ts)" and "unmoved (fst ts)"
    and "e_is_current env (xmin_raw (fst ts))" and "\<not> xmin_frozen (fst ts)" and "env_ok env"
  shows "post (\<lambda>v. v = mvcc_visible env snapshot (fst ts)) (mvcc_own env (DirectResolve env) snapshot buffer ts)"
proof -
  have aborted: "\<not> sees env snapshot x c" if "finished_aborted env x" for x c
    using that assms(6) by (auto simp: sees_def finished_aborted_def env_ok_def)
  have own: "e_is_current env x \<or> finished_aborted env x" if "deleter env (fst ts) x" for x
    using that assms by (auto simp: own_ok_def)
  have del: "delete_seen env snapshot (fst ts) \<longleftrightarrow> (\<exists>x. deleter env (fst ts) x \<and> e_is_current env x
      \<and> (\<exists>c. e_cmax env (fst ts) = Inr c \<and> c < curcid snapshot))"
    unfolding delete_seen_def using own aborted by (metis sees_def)
  have invalid: "\<not> delete_seen env snapshot (fst ts)" if "t_infomask (fst ts) AND HEAP_XMAX_INVALID \<noteq> 0"
    unfolding delete_seen_def using assms(1) aborted that by (auto simp: hints_sound_def)
  have vis: "mvcc_visible env snapshot (fst ts) \<longleftrightarrow>
      (\<exists>c. e_cmin env (fst ts) = Inr c \<and> c < curcid snapshot) \<and> \<not> delete_seen env snapshot (fst ts)"
    using assms by (simp add: mvcc_visible_def insert_seen_def sees_def)
  have only_own: "finished_aborted env x" if "deleter env (fst ts) x" "\<not> e_is_current env x" for x
    using own that by blast
  show ?thesis
    unfolding mvcc_own_def Let_def
    by (intro post_rules justified_rules)
      (use assms(1) invalid only_own in \<open>auto simp: vis del deleter_def\<close>)
qed

lemma mvcc_xmax_post_seen:
  assumes "hints_sound env (fst ts)" and "env_ok env" and "snapshot_ok env snapshot tup"
    and "insert_seen env snapshot tup" and "hint_ext tup (fst ts)"
  shows "post (\<lambda>v. v = mvcc_visible env snapshot tup) (mvcc_xmax env (DirectResolve env) snapshot buffer ts)"
  using mvcc_xmax_post [OF assms(1,2), of snapshot] snapshot_ok_hint [OF assms(5)] assms(3) delete_seen_hint [OF assms(5)] assms(4)
  by (simp add: mvcc_visible_def)

lemma satisfies_mvcc_post:
  assumes "hints_sound env tup" and "own_ok env tup" and "unmoved tup" and "env_ok env"
    and "snapshot_ok env snapshot tup"
  shows "post (\<lambda>v. v = mvcc_visible env snapshot tup)
     (satisfies_mvcc_res env (DirectResolve env) snapshot buffer (tup, ()))"
proof -
  have cur: "e_did_commit env x \<noteq> Inr True" if "e_is_current env x" for x
    using that assms(4) by (auto simp: env_ok_def)
  have invalid: "\<not> mvcc_visible env snapshot tup" if "xmin_invalid tup"
    using that assms cur by (auto simp: mvcc_visible_def insert_seen_def sees_def hints_sound_def
        insert_aborted_def unmoved_def infomask_preds infomask_tests finished_aborted_def env_ok_def)
  have hinted: "\<not> e_is_current env (xmin_raw tup) \<and> e_did_commit env (xmin_raw tup) = Inr True"
    if "xmin_committed tup" "\<not> xmin_frozen tup"
    using that assms cur by (auto simp: hints_sound_def insert_committed_def unmoved_def infomask_tests)
  have moved: "t_infomask tup AND HEAP_MOVED_OFF = 0" "t_infomask tup AND HEAP_MOVED_IN = 0"
    using assms(3) by (simp_all add: unmoved_def infomask_tests)
  have own: "post (\<lambda>v. v = mvcc_visible env snapshot tup)
      (mvcc_own env (DirectResolve env) snapshot buffer (tup, ()))"
    if "e_is_current env (xmin_raw tup)" "\<not> xmin_frozen tup"
    using mvcc_own_post [of env "(tup, ())" snapshot buffer] that assms by simp
  show ?thesis
    unfolding satisfies_mvcc_res_def Let_def
    by (intro post_rules justified_rules mvcc_xmax_post_seen own)
      (use assms invalid hinted moved in \<open>auto simp: mvcc_visible_def insert_seen_def sees_def
         insert_committed_def insert_aborted_def finished_aborted_def snapshot_ok_def tuple_xid_def infomask_preds\<close>)
qed

text \<open>All lookups the MVCC test may make for this tuple and snapshot succeed.\<close>

definition lookups_ok :: "vis_env \<Rightarrow> SnapshotData \<Rightarrow> HeapTupleHeaderData \<Rightarrow> bool" where
  "lookups_ok env snapshot tup \<longleftrightarrow>
     (\<forall>x. tuple_xid env tup x \<longrightarrow> \<not> isl (e_did_commit env x) \<and> \<not> isl (e_commit_lsn env x)
        \<and> \<not> isl (XidInMVCCSnapshot (e_topmost env) x snapshot))
     \<and> (\<forall>b. \<not> isl (e_mark_hint env b))
     \<and> \<not> isl (e_update_xid env tup) \<and> \<not> isl (e_cmin env tup) \<and> \<not> isl (e_cmax env tup)"

lemma lookups_ok_hint:
  "hint_ext tup tup' \<Longrightarrow> lookups_ok env snapshot tup \<Longrightarrow> lookups_ok env snapshot tup'"
  by (simp add: lookups_ok_def HeapTupleGetUpdateXid_hint [of tup tup'] hint_ext_cids [of tup tup'] tuple_xid_hint [of tup tup'])

lemma ret_total: "\<not> isl (fst (Inr v :: 'a res, s))"
  by simp

lemma if_total: "(P \<Longrightarrow> \<not> isl (fst x)) \<Longrightarrow> (\<not> P \<Longrightarrow> \<not> isl (fst y)) \<Longrightarrow> \<not> isl (fst (if P then x else y))"
  by simp

lemma tryS_total: "\<not> isl r \<Longrightarrow> (\<And>a. r = Inr a \<Longrightarrow> \<not> isl (fst (k a))) \<Longrightarrow> \<not> isl (fst (tryS r s k))"
  by (cases r) simp_all

lemma ask_total:
  assumes "lookups_ok env snapshot (fst ts)" and "tuple_xid env (fst ts) xid" and "\<And>b. \<not> isl (fst (k b ts))"
  shows "\<not> isl (fst (ask_snapshot (DirectResolve env) xid snapshot ts k))"
    and "\<not> isl (fst (ask_commit (DirectResolve env) xid ts k))"
proof -
  have "\<not> isl (XidInMVCCSnapshot (e_topmost env) xid snapshot)" "\<not> isl (e_did_commit env xid)"
    using assms(1,2) by (simp_all add: lookups_ok_def)
  then show "\<not> isl (fst (ask_snapshot (DirectResolve env) xid snapshot ts k))"
    "\<not> isl (fst (ask_commit (DirectResolve env) xid ts k))"
    using assms(3) by (cases ts; cases "XidInMVCCSnapshot (e_topmost env) xid snapshot";
        cases "e_did_commit env xid"; simp add: ask_snapshot_def ask_commit_def DirectResolve_def)+
qed

lemma mvcc_hint_total:
  assumes "lookups_ok env snapshot (fst ts)" and "h \<in> hint_flags"
    and "TransactionIdIsValid xid \<Longrightarrow> tuple_xid env (fst ts) xid"
    and "\<And>ts'. lookups_ok env snapshot (fst ts') \<Longrightarrow> \<not> isl (fst (k ts'))"
  shows "\<not> isl (fst (mvcc_hint (DirectResolve env) buffer h xid ts k))"
proof -
  have "TransactionIdIsValid xid \<Longrightarrow> \<not> isl (e_commit_lsn env xid)" "\<not> isl (e_mark_hint env buffer)"
    using assms(1,3) by (simp_all add: lookups_ok_def)
  then have "\<not> isl (fst (SetHintBits env (fst ts) buffer h xid))"
    by (cases "e_commit_lsn env xid") (auto simp: SetHintBits_def Let_def)
  moreover have "lookups_ok env snapshot (snd (SetHintBits env (fst ts) buffer h xid))"
    using lookups_ok_hint [OF SetHintBits_hint_ext [OF assms(2)] assms(1)] .
  ultimately show ?thesis
    using assms(4) [of "(snd (SetHintBits env (fst ts) buffer h xid), ())"]
    by (cases "SetHintBits env (fst ts) buffer h xid"; cases "fst (SetHintBits env (fst ts) buffer h xid)")
      (simp_all add: mvcc_hint_def DirectResolve_def)
qed

lemmas total_rules = ask_total mvcc_hint_total
lemmas return_rules = tryS_total if_total ret_total

lemma mvcc_xmax_total:
  "lookups_ok env snapshot (fst ts) \<Longrightarrow>
   \<not> isl (fst (mvcc_xmax env (DirectResolve env) snapshot buffer ts))"
  unfolding mvcc_xmax_def mvcc_cmax_def Let_def
  by (intro total_rules [where snapshot = snapshot] return_rules)
    (simp_all add: lookups_ok_def tuple_xid_def TransactionIdIsValid_def)

lemma MVCC_total:
  assumes "lookups_ok env snapshot tup"
  shows "\<not> isl (fst (HeapTupleSatisfiesMVCC env tup snapshot buffer))"
proof -
  have own: "\<not> isl (fst (mvcc_own env (DirectResolve env) snapshot buffer (tup, ())))"
    unfolding mvcc_own_def mvcc_cmax_def Let_def
    by (intro total_rules [where snapshot = snapshot] return_rules) (use assms in \<open>simp_all add: lookups_ok_def tuple_xid_def TransactionIdIsValid_def\<close>)
  have "\<not> isl (fst (satisfies_mvcc_res env (DirectResolve env) snapshot buffer (tup, ())))"
    unfolding satisfies_mvcc_res_def Let_def
    by (intro total_rules [where snapshot = snapshot] return_rules mvcc_xmax_total own)
      (use assms in \<open>simp_all add: tuple_xid_def TransactionIdIsValid_def\<close>)
  then show ?thesis
    by (simp add: HeapTupleSatisfiesMVCC_def case_prod_unfold Let_def)
qed


lemma demo_lookups_ok: "t_infomask tup AND HEAP_COMBOCID = 0 \<Longrightarrow> lookups_ok demo_env demo_snapshot tup"
  by (simp add: lookups_ok_def demo_env_def demo_snapshot_def sentinel_def XidInMVCCSnapshot_def
      slice_to_def HeapTupleGetUpdateXid_def MultiXactIdGetUpdateXid_def GetMultiXactIdMembers_def
      HeapTupleHeaderGetCmin_def HeapTupleHeaderGetCmax_def)


subsection \<open>VACUUM removes nothing a snapshot can see\<close>

lemma post_hint_then [post_rules]:
  assumes "h \<in> hint_flags" and "hints_sound env tup" and "justified env tup h"
    and "\<And>tup'. hint_ext tup tup' \<Longrightarrow> hints_sound env tup' \<Longrightarrow> post P (k tup')"
  shows "post P (hint_then env buffer h xid tup k)"
  using SetHintBits_sound [OF assms(2,3), of buffer xid]
    SetHintBits_hint_ext [OF assms(1), of tup env buffer xid] assms(4)
  by (cases "SetHintBits env tup buffer h xid"; cases "fst (SetHintBits env tup buffer h xid)")
    (simp_all add: hint_then_def post_def)

text \<open>What a verdict of the vacuum test means.\<close>

definition verdict_ok :: "vis_env \<Rightarrow> HeapTupleHeaderData \<Rightarrow> vacuum_verdict \<Rightarrow> bool" where
  "verdict_ok env tup v \<longleftrightarrow>
     (fst v = HEAPTUPLE_DEAD \<longrightarrow> \<not> xmin_frozen tup \<and> finished_aborted env (xmin_raw tup))
     \<and> (fst v = HEAPTUPLE_RECENTLY_DEAD \<longrightarrow> deleter env tup (snd v) \<and> e_did_commit env (snd v) = Inr True)"

lemma verdict_ok_simps [simp]:
  "verdict_ok env tup (HEAPTUPLE_LIVE, x)" "verdict_ok env tup (HEAPTUPLE_INSERT_IN_PROGRESS, x)"
  "verdict_ok env tup (HEAPTUPLE_DELETE_IN_PROGRESS, x)"
  "verdict_ok env tup (HEAPTUPLE_DEAD, x) \<longleftrightarrow> \<not> xmin_frozen tup \<and> finished_aborted env (xmin_raw tup)"
  "verdict_ok env tup (HEAPTUPLE_RECENTLY_DEAD, x) \<longleftrightarrow> deleter env tup x \<and> e_did_commit env x = Inr True"
  by (simp_all add: verdict_ok_def)

lemma vacuum_xmax_post:
  assumes "hints_sound env tup" and "hint_ext t0 tup" and "env_ok env"
  shows "post (verdict_ok env t0) (vacuum_xmax env buffer tup)"
proof -
  have del: "deleter env t0 x = deleter env tup x" for x
    by (rule hint_ext_deleter [OF assms(2), symmetric])
  have hinted: "e_did_commit env x = Inr True"
    if "t_infomask tup AND HEAP_XMAX_COMMITTED \<noteq> 0" "deleter env tup x" for x
    using that assms(1) by (simp add: hints_sound_def)
  have xm: "xmax_raw tup' = xmax_raw tup" if "hint_ext tup tup'" for tup'
    using hint_ext_fields(2) [OF that] by (simp add: xmax_raw_def)
  show ?thesis
    unfolding vacuum_xmax_def
    by (intro post_rules justified_rules)
      (auto simp: assms(1) del finished_aborted_def deleter_def [of env tup] dest!: xm
        intro: multi_updater_dead [OF assms(3)] hinted)
qed

lemma vacuum_own_post: "post (verdict_ok env t0) (vacuum_own env tup)"
  unfolding vacuum_own_def by (intro post_rules) simp_all

lemma VacuumHorizon_post:
  assumes "hints_sound env tup" and "unmoved tup" and "env_ok env"
  shows "post (verdict_ok env tup) (HeapTupleSatisfiesVacuumHorizon env tup buffer)"
proof -
  have moved: "t_infomask tup AND HEAP_MOVED_OFF = 0" "t_infomask tup AND HEAP_MOVED_IN = 0"
    using assms(2) by (simp_all add: unmoved_def infomask_tests)
  have hinted: "e_in_progress env (xmin_raw tup) = Inr False" "e_did_commit env (xmin_raw tup) = Inr False"
    if "\<not> bit (t_infomask tup) 8" "bit (t_infomask tup) 9"
    using that assms(1) moved
    by (simp_all add: hints_sound_def insert_aborted_def infomask_preds finished_aborted_def)
  show ?thesis
    unfolding HeapTupleSatisfiesVacuumHorizon_def Let_def
    by (intro post_rules justified_rules vacuum_xmax_post vacuum_own_post)
      (auto simp: assms moved insert_committed_def insert_aborted_def finished_aborted_def infomask_preds
        intro: hinted)
qed

lemma Vacuum_dead_cases:
  assumes "hints_sound env tup" and "unmoved tup" and "env_ok env"
    and "HeapTupleSatisfiesVacuum env tup oldest buffer = (Inr HEAPTUPLE_DEAD, tup')"
  shows "(\<not> xmin_frozen tup \<and> finished_aborted env (xmin_raw tup))
     \<or> (\<exists>x. deleter env tup x \<and> e_did_commit env x = Inr True \<and> TransactionIdPrecedes x oldest)"
  using VacuumHorizon_post [OF assms(1-3), of buffer] assms(4)
  by (cases "HeapTupleSatisfiesVacuumHorizon env tup buffer";
      cases "fst (HeapTupleSatisfiesVacuumHorizon env tup buffer)")
    (auto simp: HeapTupleSatisfiesVacuum_def post_def verdict_ok_def split: if_splits prod.splits)

lemma vacuum_dead_hidden:
  assumes "hints_sound env tup" and "unmoved tup" and "env_ok env"
    and dead: "HeapTupleSatisfiesVacuum env tup oldest_xmin buffer = (Inr HEAPTUPLE_DEAD, tup')"
    and same: "e_did_commit reader = e_did_commit env" "e_lookup reader = e_lookup env"
    and reader: "\<forall>x. e_is_current reader x \<longrightarrow> e_in_progress env x = Inr True"
      "env_ok reader" "snapshot_ok reader snapshot tup"
    and horizon: "\<forall>x. deleter env tup x \<longrightarrow> TransactionIdPrecedes x oldest_xmin \<longrightarrow> TransactionIdPrecedes x (snap_xmin snapshot)"
    and seen: "hint_ext tup seen" "xmin_frozen seen = xmin_frozen tup" "hints_sound reader seen"
      "own_ok reader seen"
  shows "fst (HeapTupleSatisfiesMVCC reader seen snapshot rbuffer) \<noteq> Inr True"
proof -
  have "\<not> mvcc_visible reader snapshot seen"
    using Vacuum_dead_cases [OF assms(1-3) dead]
  proof (elim disjE exE conjE)
    assume "\<not> xmin_frozen tup" "finished_aborted env (xmin_raw tup)"
    then have "\<not> insert_seen reader snapshot seen"
      using seen same reader hint_ext_fields(1) [OF seen(1)]
      by (auto simp: insert_seen_def sees_def finished_aborted_def xmin_raw_def)
    then show ?thesis
      by (simp add: mvcc_visible_def)
  next
    fix x assume x: "deleter env tup x" "e_did_commit env x = Inr True" "TransactionIdPrecedes x oldest_xmin"
    then have "deleter reader seen x"
      using hint_ext_deleter [OF seen(1)] same by (simp add: deleter_def)
    moreover have "sees reader snapshot x c" for c
      using x same horizon reader(2) by (auto simp: sees_def env_ok_def XidInMVCCSnapshot_def)
    ultimately show ?thesis
      by (auto simp: mvcc_visible_def delete_seen_def)
  qed
  moreover have "unmoved seen"
    using assms(2) hint_ext_moved(2) [OF seen(1)] by simp
  ultimately show ?thesis
    using satisfies_mvcc_post [OF seen(3,4) _ reader(2), of snapshot rbuffer] reader(3) snapshot_ok_hint [OF seen(1)]
    by (auto simp: HeapTupleSatisfiesMVCC_def post_def case_prod_unfold Let_def)
qed

text \<open>
  C19: VACUUM is safe. If the vacuum test calls a tuple dead for a horizon \<^verbatim>\<open>oldest_xmin\<close>, then
  no backend can see the tuple with a snapshot whose xmin is not before the horizon: the MVCC test of
  that backend, on the header as VACUUM found it or with further truthful hints, never answers that
  the tuple is visible.
\<close>

theorem vacuum_dead_is_invisible:
  assumes "hints_sound env tup" and "unmoved tup" and "env_ok env"
    and dead: "HeapTupleSatisfiesVacuum env tup oldest_xmin buffer = (Inr HEAPTUPLE_DEAD, tup')"
    and same: "e_did_commit reader = e_did_commit env" "e_lookup reader = e_lookup env"
    and reader: "\<forall>x. e_is_current reader x \<longrightarrow> e_in_progress env x = Inr True"
      "env_ok reader" "snapshot_ok reader snapshot tup"
    and horizon: "\<forall>x. deleter env tup x \<longrightarrow> TransactionIdPrecedes x oldest_xmin \<longrightarrow> TransactionIdPrecedes x (snap_xmin snapshot)"
    and seen: "hint_ext tup seen" "xmin_frozen seen = xmin_frozen tup" "hints_sound reader seen"
      "own_ok reader seen"
  shows "fst (HeapTupleSatisfiesMVCC reader seen snapshot rbuffer) \<noteq> Inr True"
  by (rule vacuum_dead_hidden [OF assms])

lemmas demo_simps = demo_env_def demo_tuple_def xmin_raw_def xmax_raw_def infomask_defs
  xmin_committed_def xmin_invalid_def xmin_frozen_def HEAP_XMAX_IS_LOCKED_ONLY_def
  hint_then_def SetHintBits_def bindS_def TransactionIdIsValid_def InvalidTransactionId_def

lemma demo_vacuum:
  "HeapTupleSatisfiesVacuum demo_env (demo_tuple 700 700 0) 800 1
     = (Inr HEAPTUPLE_DEAD, demo_tuple 700 700 0x0500)"
  by (simp add: HeapTupleSatisfiesVacuum_def HeapTupleSatisfiesVacuumHorizon_def vacuum_xmax_def
      TransactionIdPrecedes_def TransactionIdIsNormal_iff demo_simps)

theorem vacuum_dead_is_invisible_witness:
  "fst (HeapTupleSatisfiesMVCC demo_env (demo_tuple 700 700 0) demo_snapshot 1) \<noteq> Inr True"
proof (rule vacuum_dead_is_invisible [OF _ _ demo_env_ok demo_vacuum refl refl _ demo_env_ok demo_snapshot_ok])
  show "hints_sound demo_env (demo_tuple 700 700 0)"
    by (simp add: hints_sound_bits demo_tuple_def)
  then show "hints_sound demo_env (demo_tuple 700 700 0)" .
  show "unmoved (demo_tuple 700 700 0)"
    by (simp add: unmoved_def demo_tuple_def)
  show "own_ok demo_env (demo_tuple 700 700 0)"
    by (simp add: own_ok_def demo_simps)
qed (simp_all add: demo_snapshot_def demo_env_def)

subsection \<open>The verdict for updaters\<close>

text \<open>What the answer of \<^verbatim>\<open>HeapTupleSatisfiesUpdate\<close> promises to an updater.\<close>

definition deleted_for_good :: "vis_env \<Rightarrow> HeapTupleHeaderData \<Rightarrow> bool" where
  "deleted_for_good env tup \<longleftrightarrow>
     \<not> HEAP_XMAX_IS_LOCKED_ONLY (t_infomask tup) \<and> (\<forall>x. deleter env tup x \<longrightarrow> e_did_commit env x = Inr True)"

definition update_ok ::
  "vis_env \<Rightarrow> ItemPointerData \<Rightarrow> HeapTupleHeaderData \<Rightarrow> TM_Result \<Rightarrow> bool" where
  "update_ok env t_self tup v \<longleftrightarrow>
     (case v of
        TM_Ok \<Rightarrow> \<forall>x. deleter env tup x \<longrightarrow> finished_aborted env x
      | TM_Updated \<Rightarrow> \<not> ItemPointerEquals t_self (t_ctid tup) \<and> deleted_for_good env tup
      | TM_Deleted \<Rightarrow> ItemPointerEquals t_self (t_ctid tup) \<and> deleted_for_good env tup
      | TM_SelfModified \<Rightarrow> \<exists>x. deleter env tup x \<and> e_is_current env x
      | TM_WouldBlock \<Rightarrow> False
      | TM_Invisible \<Rightarrow> True
      | TM_BeingModified \<Rightarrow> True)"

lemma update_ok_simps [simp]:
  "update_ok env t_self tup TM_Invisible" "update_ok env t_self tup TM_BeingModified"
  "update_ok env t_self tup TM_Ok \<longleftrightarrow> (\<forall>x. deleter env tup x \<longrightarrow> finished_aborted env x)"
  "update_ok env t_self tup TM_SelfModified \<longleftrightarrow> (\<exists>x. deleter env tup x \<and> e_is_current env x)"
  by (simp_all add: update_ok_def)

lemma update_ok_hint:
  assumes "hint_ext tup tup'"
  shows "update_ok env t_self tup' v = update_ok env t_self tup v"
proof -
  have "bit (t_infomask tup') n = bit (t_infomask tup) n" if "n \<in> {4, 6, 7, 12}" for n
    using hint_ext_other_bits [OF assms, of n] that by auto
  then have "deleted_for_good env tup' = deleted_for_good env tup"
    using hint_ext_deleter [OF assms] by (simp add: deleted_for_good_def infomask_preds)
  then show ?thesis
    using hint_ext_fields(4) [OF assms] hint_ext_deleter [OF assms]
    by (simp add: update_ok_def split: TM_Result.split)
qed

lemma update_cmax_post [post_rules]:
  assumes "\<exists>x. deleter env t0 x \<and> e_is_current env x"
  shows "post (update_ok env t_self t0) (update_cmax env cid tup)"
  unfolding update_cmax_def by (intro post_rules) (use assms in simp_all)

lemma update_gone_post:
  assumes "hint_ext t0 tup" and "deleted_for_good env t0"
  shows "post (update_ok env t_self t0) (update_gone t_self tup)"
  unfolding update_gone_def using assms hint_ext_fields(4) [OF assms(1)]
  by (auto intro!: post_rules simp: update_ok_def)

lemma update_multi_post:
  assumes "hints_sound env tup" and "env_ok env" and "t_infomask tup AND HEAP_XMAX_IS_MULTI \<noteq> 0"
  shows "post (update_ok env t_self tup) (update_multi env t_self cid buffer tup)"
proof -
  have locked: "\<not> deleter env tup x" if "HEAP_XMAX_IS_LOCKED_ONLY (t_infomask tup)" for x
    using that by (simp add: deleter_def)
  have upgraded: "HEAP_XMAX_IS_LOCKED_ONLY (t_infomask tup)" if "HEAP_LOCKED_UPGRADED (t_infomask tup)"
    using that by (simp add: infomask_preds)
  have multi: "deleter env tup x \<longleftrightarrow> e_update_xid env tup = Inr x"
    if "\<not> HEAP_XMAX_IS_LOCKED_ONLY (t_infomask tup)" for x
    using that assms(3) by (simp add: deleter_def)
  note dead = multi_updater_dead [OF assms(2)]
  show ?thesis
    unfolding update_multi_def
    by (intro post_rules justified_rules update_gone_post [OF hint_ext_refl])
      (use assms(1) in \<open>auto simp: locked multi deleted_for_good_def dest: upgraded intro: dead\<close>)
qed

lemma update_xmax_post:
  assumes "hints_sound env tup" and "env_ok env"
  shows "post (update_ok env t_self tup) (update_xmax env t_self cid buffer tup)"
proof -
  have locked: "\<not> deleter env tup x" if "HEAP_XMAX_IS_LOCKED_ONLY (t_infomask tup)" for x
    using that by (simp add: deleter_def)
  have hinted: "e_did_commit env x = Inr True"
    if "t_infomask tup AND HEAP_XMAX_COMMITTED \<noteq> 0" "deleter env tup x" for x
    using that assms(1) by (simp add: hints_sound_def)
  have invalid: "e_in_progress env x = Inr False" "e_did_commit env x = Inr False"
    if "t_infomask tup AND HEAP_XMAX_INVALID \<noteq> 0" "deleter env tup x" for x
    using that assms(1) by (simp_all add: hints_sound_def finished_aborted_def)
  have plain: "x = xmax_raw tup" if "deleter env tup x" "t_infomask tup AND HEAP_XMAX_IS_MULTI = 0" for x
    using that by (simp add: deleter_def)
  have self: "deleter env tup (xmax_raw tup)"
    if "\<not> HEAP_XMAX_IS_LOCKED_ONLY (t_infomask tup)" "\<not> t_infomask tup AND HEAP_XMAX_IS_MULTI \<noteq> 0"
    using that by (simp add: deleter_def)
  show ?thesis
    unfolding update_xmax_def
    by (intro post_rules justified_rules update_gone_post update_multi_post)
      (use assms in \<open>auto simp: locked deleted_for_good_def finished_aborted_def
         intro: hinted invalid self dest: plain\<close>)
qed

lemma update_own_post:
  assumes "hints_sound env tup" and "own_ok env tup" and "unmoved tup" and "e_is_current env (xmin_raw tup)"
  shows "post (update_ok env t_self tup) (update_own env cid buffer tup)"
proof -
  have own: "e_is_current env x \<or> finished_aborted env x" if "deleter env tup x" for x
    using that assms by (auto simp: own_ok_def)
  have invalid: "finished_aborted env x" if "t_infomask tup AND HEAP_XMAX_INVALID \<noteq> 0" "deleter env tup x" for x
    using that assms(1) by (simp add: hints_sound_def)
  have locked: "\<not> deleter env tup x" if "HEAP_XMAX_IS_LOCKED_ONLY (t_infomask tup)" for x
    using that by (simp add: deleter_def)
  show ?thesis
    unfolding update_own_def
    by (intro post_rules justified_rules)
      (use assms(1) own in \<open>auto simp: locked intro: invalid simp: deleter_def\<close>)
qed



end
