(* ===== verification/VisibilityAgree.thy ===== *)
theory VisibilityAgree
  imports VisibilitySpec
begin

unbundle bit_operations_syntax

section \<open>How the visibility tests relate\<close>

text \<open>
  Agreement between routines of \<open>Visibility\<close> that walk the same decision tree: the dirty test and the
  self test, the three tests that ask whether a tuple can be removed; and the
  array search of historic snapshots.
\<close>

subsection \<open>Dirty and Self\<close>

text \<open>
  Related runs: same header, same error, and the self test answers yes exactly when
  the dirty test does without reporting an inserter in progress.
\<close>

definition dirty_rel :: "bool res \<times> HeapTupleHeaderData \<Rightarrow> bool res \<times> dirty_state \<Rightarrow> bool" where
  "dirty_rel x y \<longleftrightarrow>
     snd x = fst (snd y)
     \<and> (case fst y of
          Inl e \<Rightarrow> fst x = Inl e
        | Inr d \<Rightarrow> fst x = Inr (d \<and> \<not> TransactionIdIsValid (snap_xmin (snd (snd y)))))"

abbreviation no_inserter :: "SnapshotData \<Rightarrow> bool" where
  "no_inserter snapshot \<equiv> \<not> TransactionIdIsValid (snap_xmin snapshot)"

named_theorems dirty_rules \<open>related runs of the dirty and the self test\<close>

lemma dirty_rel_ret [dirty_rules]:
  "no_inserter (snd ts) \<Longrightarrow> tup = fst ts \<Longrightarrow> dirty_rel (Inr b, tup) (Inr b, ts)"
  by (simp add: dirty_rel_def)

lemma dirty_rel_if [dirty_rules]:
  "(P \<Longrightarrow> dirty_rel x x') \<Longrightarrow> (\<not> P \<Longrightarrow> dirty_rel y y') \<Longrightarrow>
   dirty_rel (if P then x else y) (if P then x' else y')"
  by simp

lemma dirty_rel_tryS [dirty_rules]:
  "fst ts = tup \<Longrightarrow> (\<And>a. r = Inr a \<Longrightarrow> dirty_rel (k a) (k' a)) \<Longrightarrow> dirty_rel (tryS r tup k) (tryS r ts k')"
  by (cases r) (simp_all add: dirty_rel_def)

lemma dirty_rel_hint [dirty_rules]:
  assumes "fst ts = tup" and "\<And>ts'. snd ts' = snd ts \<Longrightarrow> dirty_rel (k (fst ts')) (k' ts')"
  shows "dirty_rel (hint_then env buffer h xid tup k) (hint_then_s env buffer h xid ts k')"
  using assms(1) assms(2) [of "(snd (SetHintBits env tup buffer h xid), snd ts)"]
  by (cases "SetHintBits env tup buffer h xid"; cases "fst (SetHintBits env tup buffer h xid)")
    (simp_all add: hint_then_def hint_then_s_def dirty_rel_def)

lemma dirty_rel_xmax:
  assumes "no_inserter (snd ts)"
  shows "dirty_rel (self_xmax env buffer (fst ts)) (dirty_xmax_test env buffer ts)"
proof -
  have running: "dirty_rel (Inr True, fst ts) (Inr True, (fst ts, (snd ts) \<lparr> snap_xmax := x \<rparr>))" for x
    using assms by (simp add: dirty_rel_def)
  show ?thesis
    unfolding self_xmax_def dirty_xmax_test_def Let_def
    by (intro dirty_rules) (use assms running in \<open>auto simp: dirty_rel_def\<close>)
qed

text \<open>
  The dirty test is the self test plus reporting. On every tuple both return the same error or
  leave the same hint bits, and the self test accepts a tuple exactly when the dirty test accepts it
  without reporting an inserting transaction in the snapshot's xmin.
\<close>

theorem Dirty_extends_Self:
  assumes "\<forall>x. e_in_progress env x = Inr True \<longrightarrow> TransactionIdIsValid x"
  shows "dirty_rel (HeapTupleSatisfiesSelf env tup buffer) (HeapTupleSatisfiesDirty env tup snapshot buffer)"
proof -
  let ?s = "dirty_reset snapshot"
  have no: "no_inserter ?s"
    by (simp add: dirty_reset_def TransactionIdIsValid_def)
  have tail: "dirty_rel (self_xmax env buffer t) (dirty_xmax_test env buffer ts)"
    if "t = fst ts" "snd ts = ?s" for ts t
    using dirty_rel_xmax [of ts] that no by simp
  have inserting: "dirty_rel (Inr False, tup) (Inr True, (tup, s \<lparr> snap_xmin := x \<rparr>))"
    if "e_in_progress env x = Inr True" for x s
    using assms that by (simp add: dirty_rel_def)
  show ?thesis
    unfolding HeapTupleSatisfiesSelf_def HeapTupleSatisfiesDirty_def Let_def
    by (intro dirty_rules tail) (use no inserting in auto)
qed

theorem Dirty_extends_Self_witness:
  "dirty_rel (HeapTupleSatisfiesSelf demo_env (demo_tuple 900 0 0x0800) 1)
     (HeapTupleSatisfiesDirty demo_env (demo_tuple 900 0 0x0800) demo_snapshot 1)
   \<and> fst (HeapTupleSatisfiesDirty demo_env (demo_tuple 900 0 0x0800) demo_snapshot 1) = Inr True
   \<and> fst (HeapTupleSatisfiesSelf demo_env (demo_tuple 900 0 0x0800) 1) = Inr False"
proof (intro conjI)
  show "dirty_rel (HeapTupleSatisfiesSelf demo_env (demo_tuple 900 0 0x0800) 1)
     (HeapTupleSatisfiesDirty demo_env (demo_tuple 900 0 0x0800) demo_snapshot 1)"
    by (rule Dirty_extends_Self) (auto simp: demo_simps)
qed (simp_all add: HeapTupleSatisfiesDirty_def HeapTupleSatisfiesSelf_def demo_simps Let_def)

subsection \<open>Removable tuples\<close>

lemma SurelyDead_cases:
  assumes "HeapTupleIsSurelyDead env tup handle = Inr True"
  shows "xmin_invalid tup
     \<or> xmin_committed tup \<and> HeapTupleSatisfiesVacuumHorizon env tup buffer
         = (Inr (HEAPTUPLE_RECENTLY_DEAD, xmax_raw tup), tup)
       \<and> e_removable env handle (xmax_raw tup) = Inr True"
  using assms by (auto simp: HeapTupleIsSurelyDead_def HeapTupleSatisfiesVacuumHorizon_def vacuum_xmax_def
      split: if_splits)

text \<open>
  The cheap test never overreaches. When \<^verbatim>\<open>HeapTupleIsSurelyDead\<close> answers yes from hint bits
  alone, the full test against the same horizon handle, which consults the transaction log, also
  says that the tuple can be removed, and leaves the header as it is.
\<close>

theorem SurelyDead_implies_vacuumable:
  assumes "HeapTupleIsSurelyDead env tup (vistest snapshot) = Inr True"
  shows "HeapTupleSatisfiesNonVacuumable env tup snapshot buffer = (Inr False, tup)"
  using SurelyDead_cases [OF assms, of buffer]
  by (auto simp: HeapTupleSatisfiesNonVacuumable_def HeapTupleSatisfiesVacuumHorizon_def infomask_preds)

theorem SurelyDead_implies_vacuumable_witness:
  "HeapTupleSatisfiesNonVacuumable demo_env (demo_tuple 700 700 0x0500) demo_snapshot 1
     = (Inr False, demo_tuple 700 700 0x0500)"
  by (rule SurelyDead_implies_vacuumable)
    (simp add: HeapTupleIsSurelyDead_def demo_simps TransactionIdPrecedes_def TransactionIdIsNormal_iff)

subsection \<open>The array search\<close>

lemma bs_loop_spec:
  assumes "sorted xs" and "base + n \<le> length xs" and "n > 0"
    and "\<forall>i. base + n \<le> i \<longrightarrow> i < length xs \<longrightarrow> xid < xs ! i"
    and "base = 0 \<or> xs ! base \<le> xid"
  shows "bs_loop xs xid base n < length xs
     \<and> (\<forall>i. bs_loop xs xid base n < i \<longrightarrow> i < length xs \<longrightarrow> xid < xs ! i)
     \<and> (bs_loop xs xid base n = 0 \<or> xs ! bs_loop xs xid base n \<le> xid)"
  using assms
proof (induction xs xid base n rule: bs_loop.induct)
  case (1 xs xid base n)
  let ?half = "n div 2"
  show ?case
  proof (cases "n > 1")
    case False
    with 1 show ?thesis
      by (subst (1 2 3 4) bs_loop.simps) (auto simp: Suc_le_eq)
  next
    case True
    let ?base' = "if xs ! (base + ?half) > xid then base else base + ?half"
    have step: "bs_loop xs xid base n = bs_loop xs xid ?base' (n - ?half)"
      using True by (subst bs_loop.simps) (simp add: Let_def)
    have "\<forall>i. ?base' + (n - ?half) \<le> i \<longrightarrow> i < length xs \<longrightarrow> xid < xs ! i"
    proof (intro allI impI)
      fix i assume i: "?base' + (n - ?half) \<le> i" "i < length xs"
      show "xid < xs ! i"
      proof (cases "xs ! (base + ?half) > xid")
        case gt: True
        have "base + ?half \<le> i"
          using i gt by simp
        then have "xs ! (base + ?half) \<le> xs ! i"
          using 1(2) i(2) by (intro sorted_nth_mono)
        with gt show ?thesis by simp
      next
        case False
        then have "base + n \<le> i"
          using i True by simp
        with 1(5) i(2) show ?thesis by blast
      qed
    qed
    moreover have "?base' = 0 \<or> xs ! ?base' \<le> xid"
      using 1(6) by (auto simp: not_less)
    moreover have "?base' + (n - ?half) \<le> length xs" "n - ?half > 0"
      using 1(3) True by auto
    ultimately show ?thesis
      unfolding step using 1(1) [OF True refl refl 1(2)] by blast
  qed
qed

lemma TransactionIdInArray_sorted:
  assumes "sorted xip"
  shows "TransactionIdInArray xid xip \<longleftrightarrow> xid \<in> set xip"
proof (cases "xip = []")
  case False
  let ?b = "bs_loop xip xid 0 (length xip)"
  have spec: "?b < length xip" "\<forall>i. ?b < i \<longrightarrow> i < length xip \<longrightarrow> xid < xip ! i" "?b = 0 \<or> xip ! ?b \<le> xid"
    using bs_loop_spec [OF assms, of 0 "length xip" xid] False by auto
  have "xip ! ?b = xid" if mem: "xid \<in> set xip"
  proof -
    obtain j where j: "j < length xip" "xip ! j = xid"
      using mem by (auto simp: in_set_conv_nth)
    then have "j \<le> ?b"
      using spec(2) by (metis less_irrefl not_less)
    moreover have "xip ! j \<le> xip ! ?b"
      using assms \<open>j \<le> ?b\<close> spec(1) by (rule sorted_nth_mono)
    ultimately show ?thesis
      using spec(3) j by auto
  qed
  with False spec(1) show ?thesis
    unfolding TransactionIdInArray_def by (metis nth_mem)
qed (simp add: TransactionIdInArray_def)

text \<open>
  A historic snapshot decides membership by binary search, and on its sorted arrays the search
  finds an id exactly when the array contains it, so a tuple inserted between the snapshot's xmin
  and xmax by a transaction that is neither in the subtransaction array nor in the array of
  committed transactions is invisible.
\<close>

theorem HistoricMVCC_uncommitted_invisible:
  assumes "subxip_slice snapshot = Inr subxip" and "xip_slice snapshot = Inr xip"
    and "sorted subxip" and "sorted xip"
    and "xmin tup \<notin> set subxip" and "xmin tup \<notin> set xip"
    and "\<not> TransactionIdPrecedes (xmin tup) (snap_xmin snapshot)"
  shows "HeapTupleSatisfiesHistoricMVCC env tup snapshot buffer = Inr False"
  using assms by (simp add: HeapTupleSatisfiesHistoricMVCC_def TransactionIdInArray_sorted)

theorem HistoricMVCC_uncommitted_invisible_witness:
  "HeapTupleSatisfiesHistoricMVCC demo_env (demo_tuple 850 0 0x0800) demo_snapshot 1 = Inr False"
  by (rule HistoricMVCC_uncommitted_invisible [where subxip = "[]" and xip = "[900]"])
    (simp_all add: demo_snapshot_def sentinel_def slice_to_def xmin_def demo_simps
      TransactionIdPrecedes_def TransactionIdIsNormal_iff)

end
