(* ===== verification/Slru.thy ===== *)
theory Slru
  imports Xid
begin

section \<open>The SLRU buffer pool\<close>

text \<open>
  \<^verbatim>\<open>crates/backend/access/transam/slru/src/lib.rs\<close>: the page cache under the commit log and the
  subtransaction log. The state holds the arrays of \<^verbatim>\<open>SlruSharedData\<close> and the segment files;
  the faults of the file system, the write-ahead log and the sync queue are fields of
  \<open>slru_ctl\<close>. The model is of one backend at a time: an operation that gives up
  the bank lock finds the pool as it left it, so an in-progress page met by
  \<^verbatim>\<open>SimpleLruWaitIO\<close> is one whose I/O failed before. Page numbers are not negative.
  A segment file is its list of pages; writing past its end fills the gap with zero pages.
  Statistics counters are left out.
\<close>

type_synonym page = "u8 list"

definition BLCKSZ :: nat where "BLCKSZ = 8192"
definition SLRU_PAGES_PER_SEGMENT :: int where "SLRU_PAGES_PER_SEGMENT = 32"
definition SLRU_BANK_SIZE :: nat where "SLRU_BANK_SIZE = 16"
definition MAX_WRITEALL_BUFFERS :: nat where "MAX_WRITEALL_BUFFERS = 16"
definition ENOENT :: nat where "ENOENT = 2"
definition ENOSPC :: nat where "ENOSPC = 28"

definition zero_page :: page where "zero_page = replicate BLCKSZ 0"

datatype SlruPageStatus =
    SLRU_PAGE_EMPTY | SLRU_PAGE_READ_IN_PROGRESS | SLRU_PAGE_VALID | SLRU_PAGE_WRITE_IN_PROGRESS

record slru_ctl =
  nbanks :: nat
  lsn_groups_per_page :: nat
  PagePrecedes :: "int \<Rightarrow> int \<Rightarrow> bool"
  sync_handler :: bool
  in_recovery :: bool
  open_fault :: "int \<Rightarrow> nat option res"
  read_fault :: "int \<Rightarrow> nat option"
  write_fault :: "int \<Rightarrow> nat option"
  fsync_fault :: "int \<Rightarrow> nat option"
  close_fault :: "int \<Rightarrow> nat option"
  xlog_flush :: "XLogRecPtr \<Rightarrow> unit res"
  register_sync :: "int \<Rightarrow> bool res"
  forget_sync :: "int \<Rightarrow> unit res"

record slru =
  page_status :: "SlruPageStatus list"
  page_dirty :: "bool list"
  page_number :: "int list"
  page_lru_count :: "32 word list"
  page_buffer :: "page list"
  bank_cur_lru_count :: "32 word list"
  group_lsn :: "XLogRecPtr list"
  latest_page_number :: int
  segments :: "int \<rightharpoonup> page list"

definition SlotGetBankNumber :: "nat \<Rightarrow> nat" where
  "SlotGetBankNumber slotno = slotno div SLRU_BANK_SIZE"

definition bank_of :: "slru_ctl \<Rightarrow> int \<Rightarrow> nat" where
  "bank_of ctl pageno = nat (pageno mod int (nbanks ctl))"

definition bank_slots :: "slru_ctl \<Rightarrow> int \<Rightarrow> nat list" where
  "bank_slots ctl pageno =
     (let bankstart = bank_of ctl pageno * SLRU_BANK_SIZE
      in [bankstart ..< bankstart + SLRU_BANK_SIZE])"

definition mark_page_dirty :: "nat \<Rightarrow> slru \<Rightarrow> slru" where
  "mark_page_dirty slotno s = s \<lparr> page_dirty := (page_dirty s)[slotno := True] \<rparr>"

definition set_page_buffer :: "nat \<Rightarrow> page \<Rightarrow> slru \<Rightarrow> slru" where
  "set_page_buffer slotno p s = s \<lparr> page_buffer := (page_buffer s)[slotno := p] \<rparr>"

definition set_group_lsn :: "nat \<Rightarrow> XLogRecPtr \<Rightarrow> slru \<Rightarrow> slru" where
  "set_group_lsn lsnindex lsn s = s \<lparr> group_lsn := (group_lsn s)[lsnindex := lsn] \<rparr>"

definition set_latest_page_number :: "int \<Rightarrow> slru \<Rightarrow> slru" where
  "set_latest_page_number pageno s = s \<lparr> latest_page_number := pageno \<rparr>"

definition set_status :: "nat \<Rightarrow> SlruPageStatus \<Rightarrow> slru \<Rightarrow> slru" where
  "set_status slotno st s = s \<lparr> page_status := (page_status s)[slotno := st] \<rparr>"

definition set_dirty :: "nat \<Rightarrow> bool \<Rightarrow> slru \<Rightarrow> slru" where
  "set_dirty slotno b s = s \<lparr> page_dirty := (page_dirty s)[slotno := b] \<rparr>"

definition set_pageno :: "nat \<Rightarrow> int \<Rightarrow> slru \<Rightarrow> slru" where
  "set_pageno slotno n s = s \<lparr> page_number := (page_number s)[slotno := n] \<rparr>"

definition SimpleLruResetAfterCrash :: "slru_ctl \<Rightarrow> slru \<Rightarrow> slru" where
  "SimpleLruResetAfterCrash ctl s =
     (let nslots = nbanks ctl * SLRU_BANK_SIZE in
      s \<lparr> page_status := replicate nslots SLRU_PAGE_EMPTY,
          page_dirty := replicate nslots False,
          page_number := replicate nslots 0,
          page_lru_count := replicate nslots 0,
          page_buffer := replicate nslots zero_page,
          bank_cur_lru_count := replicate (nbanks ctl) 0,
          group_lsn := (if lsn_groups_per_page ctl > 0
                        then replicate (nslots * lsn_groups_per_page ctl) InvalidXLogRecPtr
                        else group_lsn s),
          latest_page_number := 0 \<rparr>)"

fun zero_lsns :: "nat list \<Rightarrow> slru \<Rightarrow> slru" where
  "zero_lsns [] s = s"
| "zero_lsns (i # is) s = zero_lsns is (set_group_lsn i InvalidXLogRecPtr s)"

definition SimpleLruZeroLSNs :: "slru_ctl \<Rightarrow> nat \<Rightarrow> slru \<Rightarrow> slru" where
  "SimpleLruZeroLSNs ctl slotno s =
     (let groups = lsn_groups_per_page ctl in
      zero_lsns [slotno * groups ..< (slotno + 1) * groups] s)"

definition SimpleLruWaitIO :: "nat \<Rightarrow> slru \<Rightarrow> slru" where
  "SimpleLruWaitIO slotno s =
     (if page_status s ! slotno = SLRU_PAGE_READ_IN_PROGRESS then set_status slotno SLRU_PAGE_EMPTY s
      else if page_status s ! slotno = SLRU_PAGE_WRITE_IN_PROGRESS then
        set_dirty slotno True (set_status slotno SLRU_PAGE_VALID s)
      else s)"

definition SlruRecentlyUsed :: "nat \<Rightarrow> slru \<Rightarrow> slru" where
  "SlruRecentlyUsed slotno s =
     (let bankno = SlotGetBankNumber slotno; cur = bank_cur_lru_count s ! bankno in
      if cur \<noteq> page_lru_count s ! slotno then
        s \<lparr> bank_cur_lru_count := (bank_cur_lru_count s)[bankno := cur + 1],
            page_lru_count := (page_lru_count s)[slotno := cur + 1] \<rparr>
      else s)"

subsection \<open>Physical input and output\<close>

text \<open>An inner failure carries its cause and errno; the outer error is that of opening the file.\<close>

type_synonym SlruIoError = "SlruErrorCause \<times> nat"

definition SlruReportIOError :: "int \<Rightarrow> TransactionId \<Rightarrow> SlruIoError \<Rightarrow> 'a res" where
  "SlruReportIOError pageno xid io_err = Inl (SlruIOError (fst io_err) (snd io_err) pageno xid)"

definition SlruPhysicalReadPage ::
  "slru_ctl \<Rightarrow> int \<Rightarrow> nat \<Rightarrow> slru \<Rightarrow> (SlruIoError + unit) res \<times> slru" where
  "SlruPhysicalReadPage ctl pageno slotno s =
    (let segno = pageno div SLRU_PAGES_PER_SEGMENT;
         rpageno = nat (pageno mod SLRU_PAGES_PER_SEGMENT);
         open_failed = (\<lambda>en.
           if en \<noteq> ENOENT \<or> \<not> in_recovery ctl then (Inr (Inl (SLRU_OPEN_FAILED, en)), s)
           else (Inr (Inr ()), set_page_buffer slotno zero_page s)) in
     tryS (open_fault ctl segno) s (\<lambda>fault.
       case fault of
         Some en \<Rightarrow> open_failed en
       | None \<Rightarrow>
         (case segments s segno of
            None \<Rightarrow> open_failed ENOENT
          | Some file \<Rightarrow>
            (case read_fault ctl pageno of
               Some en \<Rightarrow> (Inr (Inl (SLRU_READ_FAILED, en)), s)
             | None \<Rightarrow>
               if rpageno < length file then
                 (let s' = set_page_buffer slotno (file ! rpageno) s in
                  case close_fault ctl segno of
                    Some en \<Rightarrow> (Inr (Inl (SLRU_CLOSE_FAILED, en)), s')
                  | None \<Rightarrow> (Inr (Inr ()), s'))
               else (Inr (Inl (SLRU_READ_FAILED, 0)), s)))))"

definition max_group_lsn :: "slru_ctl \<Rightarrow> nat \<Rightarrow> slru \<Rightarrow> XLogRecPtr" where
  "max_group_lsn ctl slotno s =
     (let groups = lsn_groups_per_page ctl; lsnindex = slotno * groups in
      fold (\<lambda>lsnoff max_lsn.
          let this_lsn = group_lsn s ! (lsnindex + lsnoff) in
          if max_lsn < this_lsn then this_lsn else max_lsn)
        [1 ..< groups] (group_lsn s ! lsnindex))"

definition flush_before_write :: "slru_ctl \<Rightarrow> nat \<Rightarrow> slru \<Rightarrow> unit res" where
  "flush_before_write ctl slotno s =
     (if lsn_groups_per_page ctl > 0 then
        let max_lsn = max_group_lsn ctl slotno s in
        if max_lsn \<noteq> InvalidXLogRecPtr then xlog_flush ctl max_lsn else Inr ()
      else Inr ())"

definition file_write :: "page list \<Rightarrow> nat \<Rightarrow> page \<Rightarrow> page list" where
  "file_write file i p =
     (if i < length file then file[i := p] else file @ replicate (i - length file) zero_page @ [p])"

text \<open>
  The files a checkpoint keeps open are the list of their segment numbers; \<open>None\<close> is a
  standalone write.
\<close>

type_synonym write_all = "int list option"

definition SlruPhysicalWritePage ::
  "slru_ctl \<Rightarrow> int \<Rightarrow> nat \<Rightarrow> write_all \<Rightarrow> slru \<Rightarrow> (SlruIoError + unit) res \<times> slru \<times> write_all" where
  "SlruPhysicalWritePage ctl pageno slotno fdata s =
    (let segno = pageno div SLRU_PAGES_PER_SEGMENT;
         rpageno = nat (pageno mod SLRU_PAGES_PER_SEGMENT);
         already_open = (case fdata of Some f \<Rightarrow> segno \<in> set f | None \<Rightarrow> False) in
     tryS (flush_before_write ctl slotno s) (s, fdata) (\<lambda>_.
     tryS (if already_open then Inr None else open_fault ctl segno) (s, fdata) (\<lambda>fault.
       case fault of
         Some en \<Rightarrow> (Inr (Inl (SLRU_OPEN_FAILED, en)), s, fdata)
       | None \<Rightarrow>
         (let fdata' = (if already_open then fdata
                else (case fdata of
                   Some f \<Rightarrow> if length f < MAX_WRITEALL_BUFFERS then Some (f @ [segno]) else fdata
                 | None \<Rightarrow> None));
              standalone = (case fdata of
                   None \<Rightarrow> True
                 | Some f \<Rightarrow> \<not> already_open \<and> \<not> length f < MAX_WRITEALL_BUFFERS);
              file = (case segments s segno of Some file \<Rightarrow> file | None \<Rightarrow> []) in
          case write_fault ctl pageno of
            Some en \<Rightarrow>
              (Inr (Inl (SLRU_WRITE_FAILED, if en = 0 then ENOSPC else en)),
               s \<lparr> segments := (segments s)(segno \<mapsto> file) \<rparr>, fdata')
          | None \<Rightarrow>
            (let s' = s \<lparr> segments := (segments s)
                             (segno \<mapsto> file_write file rpageno (page_buffer s ! slotno)) \<rparr> in
             tryS (if sync_handler ctl then register_sync ctl segno else Inr True) (s', fdata') (\<lambda>queued.
               if \<not> queued \<and> fsync_fault ctl segno \<noteq> None then
                 (Inr (Inl (SLRU_FSYNC_FAILED, the (fsync_fault ctl segno))), s', fdata')
               else if standalone \<and> close_fault ctl segno \<noteq> None then
                 (Inr (Inl (SLRU_CLOSE_FAILED, the (close_fault ctl segno))), s', fdata')
               else (Inr (Inr ()), s', fdata')))))))"

subsection \<open>Writing and choosing a victim\<close>

definition write_wait :: "nat \<Rightarrow> int \<Rightarrow> slru \<Rightarrow> slru option" where
  "write_wait slotno pageno =
     iterate (\<lambda>s. Some
       (if page_status s ! slotno = SLRU_PAGE_WRITE_IN_PROGRESS \<and> page_number s ! slotno = pageno
        then Inl (SimpleLruWaitIO slotno s) else Inr s))"

definition SlruInternalWritePage ::
  "slru_ctl \<Rightarrow> nat \<Rightarrow> write_all \<Rightarrow> slru \<Rightarrow> (unit res \<times> slru \<times> write_all) option" where
  "SlruInternalWritePage ctl slotno fdata s =
    (let pageno = page_number s ! slotno in
     Option.bind (write_wait slotno pageno s) (\<lambda>s.
       if \<not> page_dirty s ! slotno \<or> page_status s ! slotno \<noteq> SLRU_PAGE_VALID
          \<or> page_number s ! slotno \<noteq> pageno
       then Some (Inr (), s, fdata)
       else
         (let s = set_dirty slotno False (set_status slotno SLRU_PAGE_WRITE_IN_PROGRESS s);
              (res, s, fdata) = SlruPhysicalWritePage ctl pageno slotno fdata s in
          Some (tryS res (s, fdata) (\<lambda>ok.
            case ok of
              Inl io_err \<Rightarrow>
                (SlruReportIOError pageno InvalidTransactionId io_err,
                 set_status slotno SLRU_PAGE_VALID (set_dirty slotno True s), fdata)
            | Inr _ \<Rightarrow> (Inr (), set_status slotno SLRU_PAGE_VALID s, fdata))))))"

definition SimpleLruWritePage :: "slru_ctl \<Rightarrow> nat \<Rightarrow> slru \<Rightarrow> (unit res \<times> slru) option" where
  "SimpleLruWritePage ctl slotno s =
     map_option (\<lambda>(r, s, _). (r, s)) (SlruInternalWritePage ctl slotno None s)"

fun find_slot :: "slru \<Rightarrow> int \<Rightarrow> nat list \<Rightarrow> nat option" where
  "find_slot s pageno [] = None"
| "find_slot s pageno (slotno # slots) =
     (if page_status s ! slotno \<noteq> SLRU_PAGE_EMPTY \<and> page_number s ! slotno = pageno then Some slotno
      else find_slot s pageno slots)"

text \<open>The best candidates so far: slot, age and page number.\<close>

record victim =
  v_slot :: nat
  v_delta :: int
  v_page :: int

definition no_victim :: victim where
  "no_victim = \<lparr> v_slot = 0, v_delta = -1, v_page = 0 \<rparr>"

definition better :: "slru_ctl \<Rightarrow> int \<Rightarrow> int \<Rightarrow> victim \<Rightarrow> bool" where
  "better ctl this_delta this_page_number best \<longleftrightarrow>
     this_delta > v_delta best
     \<or> this_delta = v_delta best \<and> PagePrecedes ctl this_page_number (v_page best)"

text \<open>The scan of one bank: the first empty slot ends it (\<open>Inl\<close>).\<close>

fun scan_bank ::
  "slru_ctl \<Rightarrow> 32 word \<Rightarrow> nat list \<Rightarrow> victim \<Rightarrow> victim \<Rightarrow> slru \<Rightarrow> (nat + victim \<times> victim) \<times> slru" where
  "scan_bank ctl cur_count [] bv bi s = (Inr (bv, bi), s)"
| "scan_bank ctl cur_count (slotno # slots) bv bi s =
    (if page_status s ! slotno = SLRU_PAGE_EMPTY then (Inl slotno, s)
     else
       (let delta0 = sint (cur_count - page_lru_count s ! slotno);
            s = (if delta0 < 0
                 then s \<lparr> page_lru_count := (page_lru_count s)[slotno := cur_count] \<rparr> else s);
            this_delta = (if delta0 < 0 then 0 else delta0);
            this_page_number = page_number s ! slotno;
            this = \<lparr> v_slot = slotno, v_delta = this_delta, v_page = this_page_number \<rparr> in
        if this_page_number = latest_page_number s then scan_bank ctl cur_count slots bv bi s
        else if page_status s ! slotno = SLRU_PAGE_VALID then
          scan_bank ctl cur_count slots
            (if better ctl this_delta this_page_number bv then this else bv) bi s
        else
          scan_bank ctl cur_count slots bv
            (if better ctl this_delta this_page_number bi then this else bi) s))"

definition select_step :: "slru_ctl \<Rightarrow> int \<Rightarrow> slru \<Rightarrow> (slru + nat res \<times> slru) option" where
  "select_step ctl pageno s =
    (let bankno = bank_of ctl pageno; slots = bank_slots ctl pageno in
     case find_slot s pageno slots of
       Some slotno \<Rightarrow> Some (Inr (Inr slotno, s))
     | None \<Rightarrow>
       (let cur_count = bank_cur_lru_count s ! bankno;
            s = s \<lparr> bank_cur_lru_count := (bank_cur_lru_count s)[bankno := cur_count + 1] \<rparr>;
            (found, s) = scan_bank ctl cur_count slots no_victim no_victim s in
        case found of
          Inl slotno \<Rightarrow> Some (Inr (Inr slotno, s))
        | Inr (bv, bi) \<Rightarrow>
          if v_delta bv < 0 then Some (Inl (SimpleLruWaitIO (v_slot bi) s))
          else if \<not> page_dirty s ! v_slot bv then Some (Inr (Inr (v_slot bv), s))
          else Option.bind (SlruInternalWritePage ctl (v_slot bv) None s) (\<lambda>(res, s, _).
            Some (case res of Inl e \<Rightarrow> Inr (Inl e, s) | Inr _ \<Rightarrow> Inl s))))"

definition SlruSelectLRUPage :: "slru_ctl \<Rightarrow> int \<Rightarrow> slru \<Rightarrow> (nat res \<times> slru) option" where
  "SlruSelectLRUPage ctl pageno = iterate (select_step ctl pageno)"

subsection \<open>Reading and zeroing pages\<close>

definition SimpleLruZeroPage :: "slru_ctl \<Rightarrow> int \<Rightarrow> slru \<Rightarrow> (nat res \<times> slru) option" where
  "SimpleLruZeroPage ctl pageno s =
     bindP (SlruSelectLRUPage ctl pageno s) (\<lambda>slotno s.
       let s = set_dirty slotno True (set_status slotno SLRU_PAGE_VALID (set_pageno slotno pageno s));
           s = SlruRecentlyUsed slotno s;
           s = set_page_buffer slotno zero_page s;
           s = SimpleLruZeroLSNs ctl slotno s
       in Some (Inr slotno, set_latest_page_number pageno s))"

definition read_step ::
  "slru_ctl \<Rightarrow> int \<Rightarrow> bool \<Rightarrow> TransactionId \<Rightarrow> slru \<Rightarrow> (slru + nat res \<times> slru) option" where
  "read_step ctl pageno write_ok xid s =
    Option.bind (SlruSelectLRUPage ctl pageno s) (\<lambda>(res, s).
      case res of
        Inl e \<Rightarrow> Some (Inr (Inl e, s))
      | Inr slotno \<Rightarrow>
        if page_status s ! slotno \<noteq> SLRU_PAGE_EMPTY \<and> page_number s ! slotno = pageno then
          (if page_status s ! slotno = SLRU_PAGE_READ_IN_PROGRESS
              \<or> page_status s ! slotno = SLRU_PAGE_WRITE_IN_PROGRESS \<and> \<not> write_ok
           then Some (Inl (SimpleLruWaitIO slotno s))
           else Some (Inr (Inr slotno, SlruRecentlyUsed slotno s)))
        else
          (let s = set_dirty slotno False
                     (set_status slotno SLRU_PAGE_READ_IN_PROGRESS (set_pageno slotno pageno s));
               (ok, s) = SlruPhysicalReadPage ctl pageno slotno s in
           case ok of
             Inl e \<Rightarrow> Some (Inr (Inl e, s))
           | Inr (Inl io_err) \<Rightarrow>
               Some (Inr (SlruReportIOError pageno xid io_err,
                          set_status slotno SLRU_PAGE_EMPTY (SimpleLruZeroLSNs ctl slotno s)))
           | Inr (Inr _) \<Rightarrow>
               Some (Inr (Inr slotno,
                          SlruRecentlyUsed slotno
                            (set_status slotno SLRU_PAGE_VALID (SimpleLruZeroLSNs ctl slotno s))))))"

definition SimpleLruReadPage ::
  "slru_ctl \<Rightarrow> int \<Rightarrow> bool \<Rightarrow> TransactionId \<Rightarrow> slru \<Rightarrow> (nat res \<times> slru) option" where
  "SimpleLruReadPage ctl pageno write_ok xid = iterate (read_step ctl pageno write_ok xid)"

fun find_readable :: "slru \<Rightarrow> int \<Rightarrow> nat list \<Rightarrow> nat option" where
  "find_readable s pageno [] = None"
| "find_readable s pageno (slotno # slots) =
     (if page_status s ! slotno \<noteq> SLRU_PAGE_EMPTY \<and> page_number s ! slotno = pageno
         \<and> page_status s ! slotno \<noteq> SLRU_PAGE_READ_IN_PROGRESS
      then Some slotno else find_readable s pageno slots)"

definition SimpleLruReadPage_ReadOnly ::
  "slru_ctl \<Rightarrow> int \<Rightarrow> TransactionId \<Rightarrow> slru \<Rightarrow> (nat res \<times> slru) option" where
  "SimpleLruReadPage_ReadOnly ctl pageno xid s =
    (case find_readable s pageno (bank_slots ctl pageno) of
       Some slotno \<Rightarrow> Some (Inr slotno, SlruRecentlyUsed slotno s)
     | None \<Rightarrow> SimpleLruReadPage ctl pageno True xid s)"

subsection \<open>Checkpoint, existence, truncation\<close>

definition SimpleLruDoesPhysicalPageExist :: "slru_ctl \<Rightarrow> int \<Rightarrow> slru \<Rightarrow> bool res" where
  "SimpleLruDoesPhysicalPageExist ctl pageno s =
    (let segno = pageno div SLRU_PAGES_PER_SEGMENT;
         rpageno = nat (pageno mod SLRU_PAGES_PER_SEGMENT);
         open_failed = (\<lambda>en. if en = ENOENT then Inr False
                              else SlruReportIOError pageno 0 (SLRU_OPEN_FAILED, en)) in
     bindR (open_fault ctl segno) (\<lambda>fault.
       case fault of
         Some en \<Rightarrow> open_failed en
       | None \<Rightarrow>
         (case segments s segno of
            None \<Rightarrow> open_failed ENOENT
          | Some file \<Rightarrow>
              if close_fault ctl segno \<noteq> None then Inr False
              else Inr (length file * BLCKSZ \<ge> rpageno * BLCKSZ + BLCKSZ))))"

fun write_all_loop ::
  "slru_ctl \<Rightarrow> nat list \<Rightarrow> write_all \<Rightarrow> slru \<Rightarrow> (unit res \<times> slru \<times> write_all) option" where
  "write_all_loop ctl [] fdata s = Some (Inr (), s, fdata)"
| "write_all_loop ctl (slotno # slots) fdata s =
    (if page_status s ! slotno = SLRU_PAGE_EMPTY then write_all_loop ctl slots fdata s
     else Option.bind (SlruInternalWritePage ctl slotno fdata s) (\<lambda>(res, s, fdata).
       case res of Inl e \<Rightarrow> Some (Inl e, s, fdata) | Inr _ \<Rightarrow> write_all_loop ctl slots fdata s))"

definition SimpleLruWriteAll ::
  "slru_ctl \<Rightarrow> unit res \<Rightarrow> slru \<Rightarrow> (unit res \<times> slru) option" where
  "SimpleLruWriteAll ctl fsync_dir s =
    Option.bind (write_all_loop ctl [0 ..< nbanks ctl * SLRU_BANK_SIZE] (Some []) s) (\<lambda>(res, s, fdata).
      Some (tryS res s (\<lambda>_.
        let opened = (case fdata of Some f \<Rightarrow> f | None \<Rightarrow> []);
            failed = filter (\<lambda>segno. close_fault ctl segno \<noteq> None) opened in
        if failed \<noteq> [] then
          (SlruReportIOError (last failed * SLRU_PAGES_PER_SEGMENT) InvalidTransactionId
             (SLRU_CLOSE_FAILED, the (close_fault ctl (last failed))), s)
        else if sync_handler ctl then (fsync_dir, s)
        else (Inr (), s))))"

definition SlruMayDeleteSegment :: "slru_ctl \<Rightarrow> int \<Rightarrow> int \<Rightarrow> bool" where
  "SlruMayDeleteSegment ctl segpage cutoffPage \<longleftrightarrow>
     (let seg_last_page = segpage + SLRU_PAGES_PER_SEGMENT - 1 in
      PagePrecedes ctl segpage cutoffPage \<and> PagePrecedes ctl seg_last_page cutoffPage)"

definition SlruInternalDeleteSegment :: "slru_ctl \<Rightarrow> int \<Rightarrow> slru \<Rightarrow> unit res \<times> slru" where
  "SlruInternalDeleteSegment ctl segno s =
     tryS (if sync_handler ctl then forget_sync ctl segno else Inr ()) s (\<lambda>_.
       (Inr (), s \<lparr> segments := (segments s)(segno := None) \<rparr>))"

text \<open>\<open>names\<close> are the segment numbers of the directory, in the order it lists them.\<close>

fun delete_cutoff :: "slru_ctl \<Rightarrow> int \<Rightarrow> int list \<Rightarrow> slru \<Rightarrow> unit res \<times> slru" where
  "delete_cutoff ctl cutoffPage [] s = (Inr (), s)"
| "delete_cutoff ctl cutoffPage (segno # names) s =
    (if SlruMayDeleteSegment ctl (segno * SLRU_PAGES_PER_SEGMENT) cutoffPage
     then bindS (SlruInternalDeleteSegment ctl segno s) (\<lambda>_ s. delete_cutoff ctl cutoffPage names s)
     else delete_cutoff ctl cutoffPage names s)"

text \<open>One pass over the slots: \<open>Inl\<close> asks for a restart, \<open>Inr\<close> is the end of the pass or an error.\<close>

fun truncate_pass ::
  "slru_ctl \<Rightarrow> int \<Rightarrow> nat list \<Rightarrow> slru \<Rightarrow> (slru + unit res \<times> slru) option" where
  "truncate_pass ctl cutoffPage [] s = Some (Inr (Inr (), s))"
| "truncate_pass ctl cutoffPage (slotno # slots) s =
    (if page_status s ! slotno = SLRU_PAGE_EMPTY then truncate_pass ctl cutoffPage slots s
     else if \<not> PagePrecedes ctl (page_number s ! slotno) cutoffPage then
       truncate_pass ctl cutoffPage slots s
     else if page_status s ! slotno = SLRU_PAGE_VALID \<and> \<not> page_dirty s ! slotno then
       truncate_pass ctl cutoffPage slots (set_status slotno SLRU_PAGE_EMPTY s)
     else if page_status s ! slotno = SLRU_PAGE_VALID then
       Option.bind (SlruInternalWritePage ctl slotno None s) (\<lambda>(res, s, _).
         Some (case res of Inl e \<Rightarrow> Inr (Inl e, s) | Inr _ \<Rightarrow> Inl s))
     else Some (Inl (SimpleLruWaitIO slotno s)))"

definition SimpleLruTruncate :: "slru_ctl \<Rightarrow> int list \<Rightarrow> int \<Rightarrow> slru \<Rightarrow> (unit res \<times> slru) option" where
  "SimpleLruTruncate ctl names cutoffPage s =
    (let body = (\<lambda>s.
         if PagePrecedes ctl (latest_page_number s) cutoffPage then Some (Inr (None, s))
         else map_option (\<lambda>x. case x of Inl s \<Rightarrow> Inl s | Inr (r, s) \<Rightarrow> Inr (Some r, s))
                (truncate_pass ctl cutoffPage [0 ..< nbanks ctl * SLRU_BANK_SIZE] s)) in
     Option.bind (iterate body s) (\<lambda>(stop, s).
       Some (case stop of
           None \<Rightarrow> (Inr (), s)
         | Some r \<Rightarrow> tryS r s (\<lambda>_. delete_cutoff ctl cutoffPage names s))))"

fun delete_pass ::
  "slru_ctl \<Rightarrow> int \<Rightarrow> nat list \<Rightarrow> bool \<Rightarrow> slru \<Rightarrow> (bool res \<times> slru) option" where
  "delete_pass ctl segno [] did_write s = Some (Inr did_write, s)"
| "delete_pass ctl segno (slotno # slots) did_write s =
    (if page_status s ! slotno = SLRU_PAGE_EMPTY then delete_pass ctl segno slots did_write s
     else if page_number s ! slotno div SLRU_PAGES_PER_SEGMENT \<noteq> segno then
       delete_pass ctl segno slots did_write s
     else if page_status s ! slotno = SLRU_PAGE_VALID \<and> \<not> page_dirty s ! slotno then
       delete_pass ctl segno slots did_write (set_status slotno SLRU_PAGE_EMPTY s)
     else if page_status s ! slotno = SLRU_PAGE_VALID then
       Option.bind (SlruInternalWritePage ctl slotno None s) (\<lambda>(res, s, _).
         case res of Inl e \<Rightarrow> Some (Inl e, s) | Inr _ \<Rightarrow> delete_pass ctl segno slots True s)
     else delete_pass ctl segno slots True (SimpleLruWaitIO slotno s))"

definition SlruDeleteSegment :: "slru_ctl \<Rightarrow> int \<Rightarrow> slru \<Rightarrow> (unit res \<times> slru) option" where
  "SlruDeleteSegment ctl segno s =
    (let body = (\<lambda>s. Option.bind
         (delete_pass ctl segno [0 ..< nbanks ctl * SLRU_BANK_SIZE] False s) (\<lambda>(res, s).
           Some (case res of
               Inl e \<Rightarrow> Inr (Inl e, s)
             | Inr did_write \<Rightarrow> if did_write then Inl s else Inr (Inr (), s)))) in
     bindP (iterate body s) (\<lambda>_ s. Some (SlruInternalDeleteSegment ctl segno s)))"

end
