(* ===== verification/SlruSpec.thy ===== *)
theory SlruSpec
  imports Slru
begin

section \<open>The buffer pool implements a map of pages\<close>

text \<open>
  The abstract view of the pool is the relation \<open>content\<close>: the bytes a page has, in a
  buffer if it is cached, else in its segment file. The invariant \<open>slru_wf\<close> says that a page is
  cached once, in its bank, and that a clean cached page equals the file. Reading, evicting and
  writing back keep the content of every page; zeroing a page changes that page only; and all loops
  return.
\<close>

subsection \<open>View and invariant\<close>

abbreviation nslots :: "slru_ctl \<Rightarrow> nat" where
  "nslots ctl \<equiv> nbanks ctl * SLRU_BANK_SIZE"

definition disk_page :: "slru \<Rightarrow> int \<Rightarrow> page option" where
  "disk_page s p =
     (case segments s (p div SLRU_PAGES_PER_SEGMENT) of
        None \<Rightarrow> None
      | Some file \<Rightarrow>
          let r = nat (p mod SLRU_PAGES_PER_SEGMENT) in if r < length file then Some (file ! r) else None)"

definition busy :: "SlruPageStatus \<Rightarrow> bool" where
  "busy st \<longleftrightarrow> st = SLRU_PAGE_READ_IN_PROGRESS \<or> st = SLRU_PAGE_WRITE_IN_PROGRESS"

definition cached :: "slru \<Rightarrow> nat \<Rightarrow> int \<Rightarrow> bool" where
  "cached s i p \<longleftrightarrow>
     i < length (page_status s) \<and> page_number s ! i = p
     \<and> (page_status s ! i = SLRU_PAGE_VALID \<or> page_status s ! i = SLRU_PAGE_WRITE_IN_PROGRESS)"

definition content :: "slru \<Rightarrow> int \<Rightarrow> page \<Rightarrow> bool" where
  "content s p c \<longleftrightarrow>
     (\<exists>i. cached s i p \<and> page_buffer s ! i = c) \<or> (\<nexists>i. cached s i p) \<and> disk_page s p = Some c"

definition slru_shape :: "slru_ctl \<Rightarrow> slru \<Rightarrow> bool" where
  "slru_shape ctl s \<longleftrightarrow>
     nbanks ctl > 0
     \<and> length (page_status s) = nslots ctl \<and> length (page_dirty s) = nslots ctl
     \<and> length (page_number s) = nslots ctl \<and> length (page_lru_count s) = nslots ctl
     \<and> length (page_buffer s) = nslots ctl \<and> length (bank_cur_lru_count s) = nbanks ctl"

definition slru_wf :: "slru_ctl \<Rightarrow> slru \<Rightarrow> bool" where
  "slru_wf ctl s \<longleftrightarrow>
     slru_shape ctl s
     \<and> (\<forall>i < nslots ctl. \<forall>j < nslots ctl.
          page_status s ! i \<noteq> SLRU_PAGE_EMPTY \<longrightarrow> page_status s ! j \<noteq> SLRU_PAGE_EMPTY
          \<longrightarrow> page_number s ! i = page_number s ! j \<longrightarrow> i = j)
     \<and> (\<forall>i < nslots ctl. page_status s ! i \<noteq> SLRU_PAGE_EMPTY
          \<longrightarrow> i div SLRU_BANK_SIZE = bank_of ctl (page_number s ! i))
     \<and> (\<forall>i < nslots ctl. page_status s ! i = SLRU_PAGE_VALID \<longrightarrow> \<not> page_dirty s ! i
          \<longrightarrow> disk_page s (page_number s ! i) = Some (page_buffer s ! i))"

text \<open>Outstanding work of a slot: failed I/O to settle, a dirty page to write.\<close>

definition slot_work :: "slru \<Rightarrow> nat \<Rightarrow> nat" where
  "slot_work s i =
     (if busy (page_status s ! i) then 2
      else if page_status s ! i = SLRU_PAGE_VALID \<and> page_dirty s ! i then 1 else 0)"

definition work :: "slru_ctl \<Rightarrow> slru \<Rightarrow> nat" where
  "work ctl s = (\<Sum>i < nslots ctl. slot_work s i)"

lemma work_less:
  assumes "i < nslots ctl" and "slot_work s' i < slot_work s i"
    and "\<And>j. j < nslots ctl \<Longrightarrow> j \<noteq> i \<Longrightarrow> slot_work s' j = slot_work s j"
  shows "work ctl s' < work ctl s"
proof -
  have "(\<Sum>j \<in> {..<nslots ctl} - {i}. slot_work s' j) = (\<Sum>j \<in> {..<nslots ctl} - {i}. slot_work s j)"
    by (rule sum.cong) (use assms(3) in auto)
  moreover have "work ctl t = slot_work t i + (\<Sum>j \<in> {..<nslots ctl} - {i}. slot_work t j)" for t
    unfolding work_def by (rule sum.remove) (use assms(1) in auto)
  ultimately show ?thesis
    using assms(2) by simp
qed

text \<open>
  The states an operation may move between: the invariant holds after, page contents are
  kept, and so is the newest page.
\<close>

definition step_ok :: "slru_ctl \<Rightarrow> slru \<Rightarrow> slru \<Rightarrow> bool" where
  "step_ok ctl s s' \<longleftrightarrow>
     (slru_wf ctl s \<longrightarrow> slru_wf ctl s' \<and> (\<forall>p c. content s p c \<longrightarrow> content s' p c))
     \<and> latest_page_number s' = latest_page_number s"

lemma step_ok_refl [simp, intro]: "step_ok ctl s s"
  by (simp add: step_ok_def)

lemma step_ok_trans [trans]: "step_ok ctl a b \<Longrightarrow> step_ok ctl b c \<Longrightarrow> step_ok ctl a c"
  by (auto simp: step_ok_def)

subsection \<open>Bookkeeping that touches no page\<close>

definition same_pages :: "slru \<Rightarrow> slru \<Rightarrow> bool" where
  "same_pages s s' \<longleftrightarrow>
     page_status s' = page_status s \<and> page_dirty s' = page_dirty s \<and> page_number s' = page_number s
     \<and> page_buffer s' = page_buffer s \<and> segments s' = segments s
     \<and> latest_page_number s' = latest_page_number s
     \<and> length (page_lru_count s') = length (page_lru_count s)
     \<and> length (bank_cur_lru_count s') = length (bank_cur_lru_count s)"

lemma same_pages_refl [simp]: "same_pages s s"
  by (simp add: same_pages_def)

lemma same_pages_trans: "same_pages a b \<Longrightarrow> same_pages b c \<Longrightarrow> same_pages a c"
  by (simp add: same_pages_def)

lemma same_pages_disk: "same_pages s s' \<Longrightarrow> disk_page s' p = disk_page s p"
  by (simp add: same_pages_def disk_page_def)

lemma same_pages_cached: "same_pages s s' \<Longrightarrow> cached s' i p = cached s i p"
  by (simp add: same_pages_def cached_def)

lemma same_pages_content:
  assumes "same_pages s s'"
  shows "content s' p c = content s p c"
  unfolding content_def same_pages_cached [OF assms] same_pages_disk [OF assms]
  using assms by (simp add: same_pages_def)

lemma same_pages_wf:
  assumes "same_pages s s'"
  shows "slru_wf ctl s' = slru_wf ctl s"
  unfolding slru_wf_def slru_shape_def same_pages_disk [OF assms]
  using assms by (simp add: same_pages_def)

lemma same_pages_work: "same_pages s s' \<Longrightarrow> work ctl s' = work ctl s"
  by (auto simp: same_pages_def work_def slot_work_def intro!: sum.cong)

lemma same_pages_step: "same_pages s s' \<Longrightarrow> step_ok ctl s s'"
  using same_pages_wf [of s s' ctl] same_pages_content [of s s']
  by (simp add: step_ok_def) (simp add: same_pages_def)

lemma RecentlyUsed_same: "same_pages s (SlruRecentlyUsed slotno s)"
  by (simp add: SlruRecentlyUsed_def same_pages_def Let_def)

lemma zero_lsns_same: "same_pages s (zero_lsns is s)"
proof (induction "is" arbitrary: s)
  case (Cons i "is")
  have "same_pages s (set_group_lsn i InvalidXLogRecPtr s)"
    by (simp add: same_pages_def set_group_lsn_def)
  then show ?case
    by (metis zero_lsns.simps(2) same_pages_trans Cons.IH)
qed simp

lemma ZeroLSNs_same: "same_pages s (SimpleLruZeroLSNs ctl slotno s)"
  by (simp add: SimpleLruZeroLSNs_def Let_def zero_lsns_same)

subsection \<open>Writing a page back\<close>

lemma file_write_nth:
  "i < length (file_write file i p)" "file_write file i p ! i = p"
  "j < length file \<Longrightarrow> j \<noteq> i \<Longrightarrow> j < length (file_write file i p) \<and> file_write file i p ! j = file ! j"
  by (auto simp: file_write_def nth_append)

lemma disk_page_write:
  fixes p :: int
  assumes "segments s' = (segments s)(p div SLRU_PAGES_PER_SEGMENT \<mapsto>
      file_write (case segments s (p div SLRU_PAGES_PER_SEGMENT) of Some file \<Rightarrow> file | None \<Rightarrow> [])
        (nat (p mod SLRU_PAGES_PER_SEGMENT)) b)"
  shows "disk_page s' p = Some b"
    and "disk_page s q = Some c \<Longrightarrow> q \<noteq> p \<Longrightarrow> disk_page s' q = Some c"
proof -
  show "disk_page s' p = Some b"
    using assms by (simp add: disk_page_def file_write_nth Let_def)
  assume q: "disk_page s q = Some c" "q \<noteq> p"
  show "disk_page s' q = Some c"
  proof (cases "q div SLRU_PAGES_PER_SEGMENT = p div SLRU_PAGES_PER_SEGMENT")
    case True
    then have "q mod SLRU_PAGES_PER_SEGMENT \<noteq> p mod SLRU_PAGES_PER_SEGMENT"
      using q(2) by (metis div_mult_mod_eq)
    then have "nat (q mod SLRU_PAGES_PER_SEGMENT) \<noteq> nat (p mod SLRU_PAGES_PER_SEGMENT)"
      by (simp add: SLRU_PAGES_PER_SEGMENT_def)
    with True assms q(1) show ?thesis
      by (auto simp: disk_page_def Let_def file_write_nth(3) split: option.splits if_splits)
  next
    case False
    with assms q(1) show ?thesis
      by (simp add: disk_page_def)
  qed
qed

lemma PhysicalWrite_cases:
  assumes "SlruPhysicalWritePage ctl p slot fdata s = (res, s', fdata')"
  shows "s' = s \<lparr> segments := segments s' \<rparr>
     \<and> (\<forall>q c. disk_page s q = Some c \<longrightarrow> q \<noteq> p \<longrightarrow> disk_page s' q = Some c)
     \<and> (res = Inr (Inr ()) \<longrightarrow> disk_page s' p = Some (page_buffer s ! slot))"
proof -
  let ?file = "case segments s (p div SLRU_PAGES_PER_SEGMENT) of Some file \<Rightarrow> file | None \<Rightarrow> []"
  let ?created = "s \<lparr> segments := (segments s)(p div SLRU_PAGES_PER_SEGMENT \<mapsto> ?file) \<rparr>"
  let ?written = "s \<lparr> segments := (segments s)(p div SLRU_PAGES_PER_SEGMENT \<mapsto>
      file_write ?file (nat (p mod SLRU_PAGES_PER_SEGMENT)) (page_buffer s ! slot)) \<rparr>"
  have "s' = s \<and> res \<noteq> Inr (Inr ()) \<or> s' = ?created \<and> res \<noteq> Inr (Inr ()) \<or> s' = ?written"
    using assms by (auto simp: SlruPhysicalWritePage_def tryS_def Let_def
        split: sum.splits option.splits if_splits)
  moreover have "disk_page ?created q = disk_page s q" for q
    by (auto simp: disk_page_def split: option.splits)
  moreover have "disk_page ?written p = Some (page_buffer s ! slot)"
    by (rule disk_page_write) simp
  moreover have "disk_page ?written q = Some c" if "disk_page s q = Some c" "q \<noteq> p" for q c
    by (rule disk_page_write(2)) (use that in simp_all)
  ultimately show ?thesis
    by (elim disjE conjE) simp_all
qed

subsection \<open>Changing one slot\<close>

abbreviation holds_page :: "SlruPageStatus \<Rightarrow> bool" where
  "holds_page st \<equiv> st = SLRU_PAGE_VALID \<or> st = SLRU_PAGE_WRITE_IN_PROGRESS"

lemma slru_wfD:
  assumes "slru_wf ctl s"
  shows "slru_shape ctl s"
    and "i < nslots ctl \<Longrightarrow> j < nslots ctl \<Longrightarrow> page_status s ! i \<noteq> SLRU_PAGE_EMPTY
      \<Longrightarrow> page_status s ! j \<noteq> SLRU_PAGE_EMPTY \<Longrightarrow> page_number s ! i = page_number s ! j \<Longrightarrow> i = j"
    and "i < nslots ctl \<Longrightarrow> page_status s ! i \<noteq> SLRU_PAGE_EMPTY
      \<Longrightarrow> i div SLRU_BANK_SIZE = bank_of ctl (page_number s ! i)"
    and "i < nslots ctl \<Longrightarrow> page_status s ! i = SLRU_PAGE_VALID \<Longrightarrow> \<not> page_dirty s ! i
      \<Longrightarrow> disk_page s (page_number s ! i) = Some (page_buffer s ! i)"
  using assms unfolding slru_wf_def by blast+

lemma cached_iff:
  "slru_shape ctl s \<Longrightarrow> cached s i p \<longleftrightarrow> i < nslots ctl \<and> page_number s ! i = p \<and> holds_page (page_status s ! i)"
  by (auto simp: cached_def slru_shape_def)

text \<open>Only the status and the dirty flag of slot \<open>i\<close> change, and the file of its page may.\<close>

lemma slot_touch:
  assumes wf: "slru_wf ctl s" and i: "i < nslots ctl"
    and s': "page_status s' = (page_status s)[i := st]" "page_dirty s' = (page_dirty s)[i := d]"
      "page_number s' = page_number s" "page_buffer s' = page_buffer s"
      "page_lru_count s' = page_lru_count s" "bank_cur_lru_count s' = bank_cur_lru_count s"
    and st: "holds_page st = holds_page (page_status s ! i)" "st \<noteq> SLRU_PAGE_EMPTY \<longrightarrow> page_status s ! i \<noteq> SLRU_PAGE_EMPTY"
    and disk: "\<And>q c. disk_page s q = Some c \<Longrightarrow> q \<noteq> page_number s ! i \<or> \<not> holds_page st \<Longrightarrow> disk_page s' q = Some c"
    and clean: "st = SLRU_PAGE_VALID \<Longrightarrow> \<not> d \<Longrightarrow> disk_page s' (page_number s ! i) = Some (page_buffer s ! i)"
  shows "slru_wf ctl s' \<and> (\<forall>p c. content s p c \<longrightarrow> content s' p c)"
proof
  note wfD = slru_wfD [OF wf]
  have shape: "slru_shape ctl s'" and len: "length (page_status s) = nslots ctl" "length (page_dirty s) = nslots ctl"
    using wfD(1) by (simp_all add: slru_shape_def s')
  have stat: "page_status s' ! j = (if j = i then st else page_status s ! j)" if "j < nslots ctl" for j
    using that len by (simp add: s' nth_list_update)
  have dirt: "page_dirty s' ! j = (if j = i then d else page_dirty s ! j)" if "j < nslots ctl" for j
    using that len by (simp add: s' nth_list_update)
  have nonempty: "page_status s' ! j \<noteq> SLRU_PAGE_EMPTY \<Longrightarrow> page_status s ! j \<noteq> SLRU_PAGE_EMPTY" if "j < nslots ctl" for j
    using st(2) stat [OF that] by (auto split: if_splits)
  show "slru_wf ctl s'"
    unfolding slru_wf_def
  proof (intro conjI allI impI shape)
    fix j assume j: "j < nslots ctl" "page_status s' ! j = SLRU_PAGE_VALID" "\<not> page_dirty s' ! j"
    show "disk_page s' (page_number s' ! j) = Some (page_buffer s' ! j)"
    proof (cases "j = i")
      case True
      with j stat dirt clean show ?thesis by (simp add: s')
    next
      case False
      then have old: "page_status s ! j = SLRU_PAGE_VALID" "\<not> page_dirty s ! j"
        using j stat dirt by auto
      have "page_number s ! j \<noteq> page_number s ! i \<or> \<not> holds_page st"
        using wfD(2) [of j i] j(1) i old(1) False st by auto
      then show ?thesis
        using disk wfD(4) [OF j(1) old] by (simp add: s')
    qed
  qed (use wfD(2,3) nonempty in \<open>auto simp: s'\<close>)
  have cach: "cached s' j p = cached s j p" for j p
    using stat [of j] st(1)
    by (cases "j = i") (simp_all add: cached_iff [OF shape] cached_iff [OF wfD(1)] s'(3) cong: conj_cong)
  show "\<forall>p c. content s p c \<longrightarrow> content s' p c"
  proof (intro allI impI)
    fix p c assume "content s p c"
    then consider j where "cached s j p" "page_buffer s ! j = c"
      | "\<nexists>j. cached s j p" "disk_page s p = Some c"
      by (auto simp: content_def)
    then show "content s' p c"
    proof cases
      case 1
      then show ?thesis by (auto simp: content_def cach s')
    next
      case 2
      then have "p \<noteq> page_number s ! i \<or> \<not> holds_page st"
        using i st(1) cached_iff [OF wfD(1), of i p] by auto
      with 2 disk show ?thesis by (simp add: content_def cach)
    qed
  qed
qed

text \<open>Slot \<open>i\<close>, which has nothing to lose, is given to page \<open>pageno\<close>, which no slot holds.\<close>

lemma slot_load:
  assumes wf: "slru_wf ctl s" and i: "i < nslots ctl" "i div SLRU_BANK_SIZE = bank_of ctl pageno"
    and free: "page_status s ! i = SLRU_PAGE_EMPTY \<or> page_status s ! i = SLRU_PAGE_VALID \<and> \<not> page_dirty s ! i"
    and fresh: "\<And>j. j < nslots ctl \<Longrightarrow> page_number s ! j = pageno \<Longrightarrow> page_status s ! j = SLRU_PAGE_EMPTY"
    and s': "page_status s' = (page_status s)[i := st]" "page_dirty s' = (page_dirty s)[i := d]"
      "page_number s' = (page_number s)[i := pageno]" "page_buffer s' = (page_buffer s)[i := b]"
      "segments s' = segments s" "length (page_lru_count s') = length (page_lru_count s)"
      "length (bank_cur_lru_count s') = length (bank_cur_lru_count s)"
    and clean: "st = SLRU_PAGE_VALID \<Longrightarrow> \<not> d \<Longrightarrow> disk_page s pageno = Some b"
  shows "slru_wf ctl s'"
    and "\<And>q c. q \<noteq> pageno \<Longrightarrow> content s q c \<Longrightarrow> content s' q c"
    and "content s pageno c \<longleftrightarrow> disk_page s pageno = Some c"
    and "content s' pageno c \<longleftrightarrow> (if holds_page st then c = b else disk_page s pageno = Some c)"
proof -
  note wfD = slru_wfD [OF wf]
  have disk: "disk_page s' q = disk_page s q" for q
    by (simp add: disk_page_def s')
  have shape: "slru_shape ctl s'" and len: "length (page_status s) = nslots ctl" "length (page_dirty s) = nslots ctl"
    "length (page_number s) = nslots ctl" "length (page_buffer s) = nslots ctl"
    using wfD(1) by (simp_all add: slru_shape_def s')
  have at: "page_status s' ! j = (if j = i then st else page_status s ! j)"
    "page_dirty s' ! j = (if j = i then d else page_dirty s ! j)"
    "page_number s' ! j = (if j = i then pageno else page_number s ! j)"
    "page_buffer s' ! j = (if j = i then b else page_buffer s ! j)" if "j < nslots ctl" for j
    using that len by (simp_all add: s' nth_list_update)
  show "slru_wf ctl s'"
    unfolding slru_wf_def
    using shape wfD(2,3,4) i fresh clean by (auto simp: at disk)
  have uncached: "\<not> cached s j pageno" for j
    using fresh cached_iff [OF wfD(1), of j pageno] by auto
  then show "content s pageno c \<longleftrightarrow> disk_page s pageno = Some c"
    by (simp add: content_def)
  have cach: "cached s' j q \<longleftrightarrow> (if j = i then q = pageno \<and> holds_page st else cached s j q)" for j q
    unfolding cached_iff [OF shape] cached_iff [OF wfD(1)] using i(1) at by auto
  then show "content s' pageno c \<longleftrightarrow> (if holds_page st then c = b else disk_page s pageno = Some c)"
    unfolding content_def disk using uncached i(1) at(4) by auto
  fix q c assume q: "q \<noteq> pageno" "content s q c"
  show "content s' q c"
  proof (cases "\<exists>j. j \<noteq> i \<and> cached s j q")
    case True
    then obtain j where j: "j \<noteq> i" "cached s j q" by blast
    then have "page_buffer s ! j = c"
      using q(2) wfD(2) unfolding content_def cached_iff [OF wfD(1)]
      by (metis SlruPageStatus.distinct)
    then show ?thesis
      using j cach at(4) [of j] cached_iff [OF wfD(1), of j q] unfolding content_def by auto
  next
    case False
    then have "\<nexists>j. cached s' j q"
      using cach q(1) by auto
    moreover have "disk_page s q = Some c"
      using q(2) False free wfD(4) unfolding content_def cached_iff [OF wfD(1)] by auto
    ultimately show ?thesis
      unfolding content_def disk by blast
  qed
qed

subsection \<open>Waiting and writing\<close>

text \<open>The shape of a step that works on slot \<open>i\<close> alone.\<close>

definition touches :: "nat \<Rightarrow> slru \<Rightarrow> slru \<Rightarrow> bool" where
  "touches i s s' \<longleftrightarrow>
     (\<exists>st d segs. s' = s \<lparr> page_status := (page_status s)[i := st],
                        page_dirty := (page_dirty s)[i := d], segments := segs \<rparr>)"

lemma touches_others:
  assumes "touches i s s'" and "j \<noteq> i"
  shows "page_status s' ! j = page_status s ! j \<and> page_dirty s' ! j = page_dirty s ! j"
  using assms by (auto simp: touches_def)

lemma touches_same:
  assumes "touches i s s'"
  shows "page_number s' = page_number s \<and> page_buffer s' = page_buffer s
    \<and> latest_page_number s' = latest_page_number s"
  using assms by (auto simp: touches_def)

lemma touches_refl [simp]: "touches i s s"
  unfolding touches_def
  by (intro exI [of _ "page_status s ! i"] exI [of _ "page_dirty s ! i"] exI [of _ "segments s"]) simp

lemma touches_trans:
  assumes "touches i a b" and "touches i b c"
  shows "touches i a c"
proof -
  obtain st d segs where b: "b = a \<lparr> page_status := (page_status a)[i := st],
      page_dirty := (page_dirty a)[i := d], segments := segs \<rparr>"
    using assms(1) unfolding touches_def by blast
  show ?thesis
    using assms(2) unfolding touches_def b by auto
qed

lemma touches_work:
  assumes "touches i s s'" and "i < nslots ctl" and "slot_work s' i < slot_work s i"
  shows "work ctl s' < work ctl s"
  by (rule work_less [OF assms(2,3)]) (simp add: slot_work_def touches_others [OF assms(1)])

lemma touch_step:
  assumes s': "s' = s \<lparr> page_status := (page_status s)[i := st], page_dirty := (page_dirty s)[i := d],
        segments := segs \<rparr>"
    and i: "i < nslots ctl"
    and st: "holds_page st = holds_page (page_status s ! i)" "st \<noteq> SLRU_PAGE_EMPTY \<longrightarrow> page_status s ! i \<noteq> SLRU_PAGE_EMPTY"
    and disk: "\<And>q c. disk_page s q = Some c \<Longrightarrow> q \<noteq> page_number s ! i \<or> \<not> holds_page st \<Longrightarrow> disk_page s' q = Some c"
    and clean: "st = SLRU_PAGE_VALID \<Longrightarrow> \<not> d \<Longrightarrow> disk_page s' (page_number s ! i) = Some (page_buffer s ! i)"
  shows "step_ok ctl s s'"
  using slot_touch [OF _ i _ _ _ _ _ _ st, of s' d] disk clean unfolding step_ok_def by (simp add: s')

lemma WaitIO_touches: "touches slot s (SimpleLruWaitIO slot s)"
proof -
  let ?upd = "\<lambda>st d. s \<lparr> page_status := (page_status s)[slot := st],
      page_dirty := (page_dirty s)[slot := d], segments := segments s \<rparr>"
  have "SimpleLruWaitIO slot s = ?upd SLRU_PAGE_EMPTY (page_dirty s ! slot)
      \<or> SimpleLruWaitIO slot s = ?upd SLRU_PAGE_VALID True
      \<or> SimpleLruWaitIO slot s = s"
    by (simp add: SimpleLruWaitIO_def set_status_def set_dirty_def)
  then show ?thesis
    using touches_refl unfolding touches_def by metis
qed

lemma WaitIO_ok:
  assumes "slot < nslots ctl"
  shows "step_ok ctl s (SimpleLruWaitIO slot s)"
proof -
  consider "\<not> busy (page_status s ! slot)" | "page_status s ! slot = SLRU_PAGE_READ_IN_PROGRESS"
    | "page_status s ! slot = SLRU_PAGE_WRITE_IN_PROGRESS"
    by (auto simp: busy_def)
  then show ?thesis
  proof cases
    case 1
    then show ?thesis by (simp add: SimpleLruWaitIO_def busy_def)
  next
    case 2
    then have s': "SimpleLruWaitIO slot s = s \<lparr> page_status := (page_status s)[slot := SLRU_PAGE_EMPTY],
        page_dirty := (page_dirty s)[slot := page_dirty s ! slot], segments := segments s \<rparr>"
      by (simp add: SimpleLruWaitIO_def set_status_def)
    show ?thesis
      by (rule touch_step [OF s' assms]) (use 2 in \<open>simp_all add: s' disk_page_def\<close>)
  next
    case 3
    then have s': "SimpleLruWaitIO slot s = s \<lparr> page_status := (page_status s)[slot := SLRU_PAGE_VALID],
        page_dirty := (page_dirty s)[slot := True], segments := segments s \<rparr>"
      by (simp add: SimpleLruWaitIO_def set_status_def set_dirty_def)
    show ?thesis
      by (rule touch_step [OF s' assms]) (use 3 in \<open>simp_all add: s' disk_page_def\<close>)
  qed
qed

lemma WaitIO_work:
  assumes "slru_shape ctl s" and "slot < nslots ctl" and "busy (page_status s ! slot)"
  shows "work ctl (SimpleLruWaitIO slot s) < work ctl s"
  by (rule touches_work [OF WaitIO_touches assms(2)])
    (use assms in \<open>auto simp: SimpleLruWaitIO_def set_status_def set_dirty_def slot_work_def busy_def slru_shape_def\<close>)

lemma write_wait_eq:
  assumes "slot < length (page_status s)"
  shows "write_wait slot (page_number s ! slot) s =
    Some (if page_status s ! slot = SLRU_PAGE_WRITE_IN_PROGRESS then SimpleLruWaitIO slot s else s)"
proof (cases "page_status s ! slot = SLRU_PAGE_WRITE_IN_PROGRESS")
  case True
  then have "page_status (SimpleLruWaitIO slot s) ! slot = SLRU_PAGE_VALID"
    using assms by (simp add: SimpleLruWaitIO_def set_status_def set_dirty_def)
  with True show ?thesis
    unfolding write_wait_def by (simp add: iterate.simps)
qed (simp add: write_wait_def)

lemma write_started_ok:
  assumes wf: "slru_wf ctl s" and slot: "slot < nslots ctl"
    and st: "page_status s ! slot = SLRU_PAGE_VALID" "page_dirty s ! slot"
    and run: "SlruPhysicalWritePage ctl (page_number s ! slot) slot fdata
        (set_dirty slot False (set_status slot SLRU_PAGE_WRITE_IN_PROGRESS s)) = (r, t, fdata')"
  shows "t = s \<lparr> page_status := (page_status s)[slot := SLRU_PAGE_WRITE_IN_PROGRESS],
      page_dirty := (page_dirty s)[slot := False], segments := segments t \<rparr>"
    and "step_ok ctl s t"
    and "r = Inr (Inl err) \<Longrightarrow> step_ok ctl s (set_status slot SLRU_PAGE_VALID (set_dirty slot True t))"
    and "r = Inr (Inr ()) \<Longrightarrow> step_ok ctl s (set_status slot SLRU_PAGE_VALID t)"
proof -
  let ?s = "set_dirty slot False (set_status slot SLRU_PAGE_WRITE_IN_PROGRESS s)"
  note phys = PhysicalWrite_cases [OF run]
  have disk_s: "disk_page ?s q = disk_page s q" for q
    by (simp add: disk_page_def set_status_def set_dirty_def)
  have t: "t = s \<lparr> page_status := (page_status s)[slot := SLRU_PAGE_WRITE_IN_PROGRESS],
      page_dirty := (page_dirty s)[slot := False], segments := segments t \<rparr>"
    by (rule trans [OF conjunct1 [OF phys]]) (simp add: set_status_def set_dirty_def)
  then show "t = \<dots>" .
  have disk: "disk_page t q = Some c" if "disk_page s q = Some c" "q \<noteq> page_number s ! slot" for q c
    using phys that by (simp add: disk_s)
  show "step_ok ctl s t"
    by (rule touch_step [OF t slot]) (use st disk in auto)
  have err: "set_status slot SLRU_PAGE_VALID (set_dirty slot True t) =
      s \<lparr> page_status := (page_status s)[slot := SLRU_PAGE_VALID],
          page_dirty := (page_dirty s)[slot := True], segments := segments t \<rparr>"
    by (subst t) (simp add: set_status_def set_dirty_def)
  show "step_ok ctl s (set_status slot SLRU_PAGE_VALID (set_dirty slot True t))"
    by (rule touch_step [OF err slot]) (use st disk in \<open>auto simp: disk_page_def set_status_def set_dirty_def\<close>)
  have written: "r = Inr (Inr ()) \<Longrightarrow> disk_page t (page_number s ! slot) = Some (page_buffer s ! slot)"
    using phys by (simp add: set_status_def set_dirty_def)
  have finished: "set_status slot SLRU_PAGE_VALID t =
      s \<lparr> page_status := (page_status s)[slot := SLRU_PAGE_VALID],
          page_dirty := (page_dirty s)[slot := False], segments := segments t \<rparr>"
    by (subst t) (simp add: set_status_def)
  have same: "disk_page (set_status slot SLRU_PAGE_VALID t) q = disk_page t q" for q
    by (simp add: disk_page_def set_status_def)
  show "step_ok ctl s (set_status slot SLRU_PAGE_VALID t)" if "r = Inr (Inr ())"
    by (rule touch_step [OF finished slot])
      (use st disk written that in \<open>auto simp: same\<close>)
qed

lemma InternalWrite_ok:
  assumes wf: "slru_wf ctl s" and slot: "slot < nslots ctl"
  obtains r s' fdata' where "SlruInternalWritePage ctl slot fdata s = Some (r, s', fdata')"
    and "touches slot s s'" and "step_ok ctl s s'"
    and "r = Inr () \<Longrightarrow> holds_page (page_status s ! slot)
      \<Longrightarrow> page_status s' ! slot = SLRU_PAGE_VALID \<and> \<not> page_dirty s' ! slot"
    and "\<not> holds_page (page_status s ! slot) \<Longrightarrow> s' = s"
proof -
  define u where "u = (if page_status s ! slot = SLRU_PAGE_WRITE_IN_PROGRESS then SimpleLruWaitIO slot s else s)"
  have len: "slot < length (page_status s)" "slot < length (page_dirty s)"
    using slru_wfD(1) [OF wf] slot by (simp_all add: slru_shape_def)
  have u: "touches slot s u" "step_ok ctl s u"
    by (simp_all add: u_def WaitIO_touches WaitIO_ok [OF slot])
  have wfu: "slru_wf ctl u"
    using u(2) wf by (simp add: step_ok_def)
  have st: "holds_page (page_status s ! slot) \<Longrightarrow> page_status u ! slot = SLRU_PAGE_VALID"
    and st': "\<not> holds_page (page_status s ! slot) \<Longrightarrow> u = s"
    using len by (auto simp: u_def SimpleLruWaitIO_def set_status_def set_dirty_def)
  have num: "page_number u ! slot = page_number s ! slot"
    using touches_same [OF u(1)] by simp
  have run: "SlruInternalWritePage ctl slot fdata s =
      (if \<not> page_dirty u ! slot \<or> page_status u ! slot \<noteq> SLRU_PAGE_VALID then Some (Inr (), u, fdata)
       else case SlruPhysicalWritePage ctl (page_number s ! slot) slot fdata
           (set_dirty slot False (set_status slot SLRU_PAGE_WRITE_IN_PROGRESS u)) of
         (res, t, fdata') \<Rightarrow> Some (tryS res (t, fdata') (\<lambda>ok. case ok of
              Inl io_err \<Rightarrow> (SlruReportIOError (page_number s ! slot) InvalidTransactionId io_err,
                 set_status slot SLRU_PAGE_VALID (set_dirty slot True t), fdata')
            | Inr _ \<Rightarrow> (Inr (), set_status slot SLRU_PAGE_VALID t, fdata'))))"
    unfolding SlruInternalWritePage_def Let_def write_wait_eq [OF len(1)] u_def [symmetric]
    by (simp add: num)
  show ?thesis
  proof (cases "\<not> page_dirty u ! slot \<or> page_status u ! slot \<noteq> SLRU_PAGE_VALID")
    case True
    then show ?thesis
      using that [of "Inr ()" u fdata] run u st st' by auto
  next
    case False
    obtain r t fdata' where phys: "SlruPhysicalWritePage ctl (page_number u ! slot) slot fdata
        (set_dirty slot False (set_status slot SLRU_PAGE_WRITE_IN_PROGRESS u)) = (r, t, fdata')"
      by (metis prod_cases3)
    note ok = write_started_ok [OF wfu slot _ _ phys]
    have held: "holds_page (page_status s ! slot)"
      using False st' by auto
    have t: "t = u \<lparr> page_status := (page_status u)[slot := SLRU_PAGE_WRITE_IN_PROGRESS],
        page_dirty := (page_dirty u)[slot := False], segments := segments t \<rparr>"
      using ok(1) False by blast
    have "touches slot u (u \<lparr> page_status := (page_status u)[slot := st],
        page_dirty := (page_dirty u)[slot := d], segments := segs \<rparr>)" for st d segs
      unfolding touches_def by blast
    moreover have ended: "set_status slot SLRU_PAGE_VALID t = u \<lparr> page_status := (page_status u)[slot := SLRU_PAGE_VALID],
        page_dirty := (page_dirty u)[slot := False], segments := segments t \<rparr>"
      "set_status slot SLRU_PAGE_VALID (set_dirty slot True t) =
        u \<lparr> page_status := (page_status u)[slot := SLRU_PAGE_VALID],
          page_dirty := (page_dirty u)[slot := True], segments := segments t \<rparr>"
      by (subst t, simp add: set_status_def set_dirty_def)+
    ultimately have "touches slot u t" "touches slot u (set_status slot SLRU_PAGE_VALID t)"
      "touches slot u (set_status slot SLRU_PAGE_VALID (set_dirty slot True t))"
      using t by metis+
    note touches = this [THEN touches_trans [OF u(1)]]
    have cleaned: "page_status (set_status slot SLRU_PAGE_VALID t) ! slot = SLRU_PAGE_VALID"
      "\<not> page_dirty (set_status slot SLRU_PAGE_VALID t) ! slot"
      using len u(1) unfolding ended touches_def by auto
    have steps: "step_ok ctl s t"
      "r = Inr (Inl err) \<Longrightarrow> step_ok ctl s (set_status slot SLRU_PAGE_VALID (set_dirty slot True t))"
      "r = Inr (Inr ()) \<Longrightarrow> step_ok ctl s (set_status slot SLRU_PAGE_VALID t)" for err
      using ok(2-4) False step_ok_trans [OF u(2)] by simp_all
    consider e where "r = Inl e" | err where "r = Inr (Inl err)" | "r = Inr (Inr ())"
      by (cases r rule: sum.exhaust) (blast, metis sum.exhaust unit.exhaust)
    then show ?thesis
    proof cases
      case 1
      then show ?thesis
        using that [of "Inl _" t fdata'] run phys touches steps held False num by simp
    next
      case 2
      then show ?thesis
        using that [of "SlruReportIOError (page_number s ! slot) InvalidTransactionId err"]
          run phys touches steps held False num by (simp add: SlruReportIOError_def)
    next
      case 3
      then show ?thesis
        using that [of "Inr ()"] run phys touches steps cleaned held False num by simp
    qed
  qed
qed

subsection \<open>Choosing a victim\<close>

lemma bank_of_less: "nbanks ctl > 0 \<Longrightarrow> bank_of ctl p < nbanks ctl"
  by (simp add: bank_of_def nat_less_iff)

lemma set_bank_slots:
  assumes "nbanks ctl > 0"
  shows "i \<in> set (bank_slots ctl p) \<longleftrightarrow> i < nslots ctl \<and> i div SLRU_BANK_SIZE = bank_of ctl p"
proof -
  have "i \<in> set (bank_slots ctl p) \<longleftrightarrow> i div SLRU_BANK_SIZE = bank_of ctl p"
    by (auto simp: bank_slots_def Let_def SLRU_BANK_SIZE_def)
  moreover have "i div SLRU_BANK_SIZE = bank_of ctl p \<Longrightarrow> i < nslots ctl"
    using bank_of_less [OF assms, of p] by (auto simp: SLRU_BANK_SIZE_def)
  ultimately show ?thesis by blast
qed

lemma find_slot_Some:
  "find_slot s p slots = Some i
    \<Longrightarrow> i \<in> set slots \<and> page_status s ! i \<noteq> SLRU_PAGE_EMPTY \<and> page_number s ! i = p"
  by (induction slots) (auto split: if_splits)

lemma find_slot_None:
  "find_slot s p slots = None
    \<Longrightarrow> \<forall>i \<in> set slots. page_number s ! i = p \<longrightarrow> page_status s ! i = SLRU_PAGE_EMPTY"
  by (induction slots) (auto split: if_splits)

text \<open>A candidate is one of the slots scanned, not of the newest page, in a state that \<open>P\<close> allows.\<close>

definition candidate :: "(SlruPageStatus \<Rightarrow> bool) \<Rightarrow> nat list \<Rightarrow> slru \<Rightarrow> victim \<Rightarrow> bool" where
  "candidate P slots s v \<longleftrightarrow>
     v_slot v \<in> set slots \<and> P (page_status s ! v_slot v)
     \<and> page_number s ! v_slot v \<noteq> latest_page_number s"

text \<open>What a scan reports: an empty slot, or the best candidates, at least one of which exists if some slot is not of the newest page.\<close>

definition scan_ok :: "nat list \<Rightarrow> nat list \<Rightarrow> victim \<Rightarrow> victim \<Rightarrow> slru \<Rightarrow> nat + victim \<times> victim \<Rightarrow> bool" where
  "scan_ok all slots bv bi s found \<longleftrightarrow>
     (case found of
        Inl i \<Rightarrow> i \<in> set slots \<and> page_status s ! i = SLRU_PAGE_EMPTY
      | Inr (bv', bi') \<Rightarrow>
          (v_delta bv' < 0 \<or> candidate (\<lambda>st. st = SLRU_PAGE_VALID) all s bv')
          \<and> (v_delta bi' < 0 \<or> candidate busy all s bi')
          \<and> v_delta bv \<le> v_delta bv' \<and> v_delta bi \<le> v_delta bi'
          \<and> (\<forall>j \<in> set slots. page_status s ! j \<noteq> SLRU_PAGE_EMPTY
               \<and> (page_number s ! j \<noteq> latest_page_number s \<longrightarrow> v_delta bv' \<ge> 0 \<or> v_delta bi' \<ge> 0)))"

lemma scan_ok_Cons:
  assumes "scan_ok all slots bv1 bi1 s found" and "page_status s ! slot \<noteq> SLRU_PAGE_EMPTY"
    and "v_delta bv \<le> v_delta bv1" and "v_delta bi \<le> v_delta bi1"
    and "page_number s ! slot = latest_page_number s \<or> v_delta bv1 \<ge> 0 \<or> v_delta bi1 \<ge> 0"
  shows "scan_ok all (slot # slots) bv bi s found"
  using assms unfolding scan_ok_def by (cases found) (simp, force)

lemma scan_bank_spec:
  assumes "scan_bank ctl cur slots bv bi s = (found, s')"
    and "v_delta bv < 0 \<or> candidate (\<lambda>st. st = SLRU_PAGE_VALID) all s bv"
    and "v_delta bi < 0 \<or> candidate busy all s bi"
    and "set slots \<subseteq> set all"
  shows "same_pages s s' \<and> scan_ok all slots bv bi s found"
  using assms
proof (induction slots arbitrary: bv bi s)
  case Nil
  then show ?case by (auto simp: scan_ok_def)
next
  case (Cons slot slots)
  define s1 where "s1 = (if sint (cur - page_lru_count s ! slot) < 0
      then s \<lparr> page_lru_count := (page_lru_count s)[slot := cur] \<rparr> else s)"
  have same: "same_pages s s1"
    by (simp add: s1_def same_pages_def)
  then have eqs: "page_status s1 = page_status s" "page_number s1 = page_number s"
    "latest_page_number s1 = latest_page_number s"
    by (simp_all add: same_pages_def)
  have cand: "candidate P all s1 = candidate P all s" "scan_ok all slots b b' s1 = scan_ok all slots b b' s" for P b b'
    by (simp_all add: candidate_def scan_ok_def fun_eq_iff eqs split: sum.split)
  note IH = Cons.IH [of _ _ s1, unfolded cand]
  show ?case
  proof (cases "page_status s ! slot = SLRU_PAGE_EMPTY")
    case True
    with Cons.prems show ?thesis by (auto simp: scan_ok_def)
  next
    case False
    define d where "d = (if sint (cur - page_lru_count s ! slot) < 0 then 0 else sint (cur - page_lru_count s ! slot))"
    define v where "v = \<lparr> v_slot = slot, v_delta = d, v_page = page_number s ! slot \<rparr>"
    define upd where "upd = (\<lambda>b. if better ctl d (page_number s ! slot) b then v else b)"
    have upd: "v_delta (upd b) \<ge> v_delta b" "v_delta (upd b) \<ge> 0" "upd b = b \<or> upd b = v" for b
      by (auto simp: upd_def better_def v_def d_def)
    have run: "scan_bank ctl cur (slot # slots) bv bi s =
        (if page_number s ! slot = latest_page_number s then scan_bank ctl cur slots bv bi s1
         else if page_status s ! slot = SLRU_PAGE_VALID then scan_bank ctl cur slots (upd bv) bi s1
         else scan_bank ctl cur slots bv (upd bi) s1)"
      using False eqs by (simp add: Let_def s1_def [symmetric] d_def [symmetric] upd_def v_def)
    have v: "candidate P all s v \<longleftrightarrow> P (page_status s ! slot) \<and> page_number s ! slot \<noteq> latest_page_number s" for P
      using Cons.prems(4) by (simp add: candidate_def v_def)
    consider "page_number s ! slot = latest_page_number s"
      | "page_number s ! slot \<noteq> latest_page_number s" "page_status s ! slot = SLRU_PAGE_VALID"
      | "page_number s ! slot \<noteq> latest_page_number s" "busy (page_status s ! slot)"
        "page_status s ! slot \<noteq> SLRU_PAGE_VALID"
      using False by (cases "page_status s ! slot") (auto simp: busy_def)
    then show ?thesis
    proof cases
      case 1
      with run Cons.prems IH [of bv bi] have "same_pages s1 s' \<and> scan_ok all slots bv bi s found"
        by simp
      with 1 False same show ?thesis
        by (auto intro: same_pages_trans scan_ok_Cons)
    next
      case 2
      with run Cons.prems IH [of "upd bv" bi] v upd(3) [of bv]
      have "same_pages s1 s' \<and> scan_ok all slots (upd bv) bi s found"
        by auto
      with False same upd [of bv] show ?thesis
        by (auto intro: same_pages_trans scan_ok_Cons)
    next
      case 3
      with run Cons.prems IH [of bv "upd bi"] v upd(3) [of bi]
      have "same_pages s1 s' \<and> scan_ok all slots bv (upd bi) s found"
        by auto
      with False same upd [of bi] show ?thesis
        by (auto intro: same_pages_trans scan_ok_Cons)
    qed
  qed
qed

text \<open>
  A slot fit for page \<open>p\<close>: it holds the page already, or no slot does and this one can be given up
  without losing a change and without evicting the newest page.
\<close>

definition absent :: "slru_ctl \<Rightarrow> int \<Rightarrow> slru \<Rightarrow> bool" where
  "absent ctl p s \<longleftrightarrow>
     (\<forall>j < nslots ctl. page_number s ! j = p \<longrightarrow> page_status s ! j = SLRU_PAGE_EMPTY)"

definition selected :: "slru_ctl \<Rightarrow> int \<Rightarrow> slru \<Rightarrow> nat \<Rightarrow> bool" where
  "selected ctl p s i \<longleftrightarrow>
     i < nslots ctl \<and> i div SLRU_BANK_SIZE = bank_of ctl p
     \<and> (page_status s ! i \<noteq> SLRU_PAGE_EMPTY \<and> page_number s ! i = p
        \<or> absent ctl p s
          \<and> (page_status s ! i = SLRU_PAGE_EMPTY
             \<or> page_status s ! i = SLRU_PAGE_VALID \<and> \<not> page_dirty s ! i
               \<and> page_number s ! i \<noteq> latest_page_number s))"

lemma find_slot_absent:
  assumes "slru_wf ctl s" and "find_slot s p (bank_slots ctl p) = None"
  shows "absent ctl p s"
  using find_slot_None [OF assms(2)] slru_wfD(1,3) [OF assms(1)] set_bank_slots [of ctl _ p]
  unfolding absent_def slru_shape_def by blast

text \<open>With sixteen slots in a bank, some slot is not of the newest page.\<close>

lemma scan_finds_candidate:
  assumes wf: "slru_wf ctl s"
    and scan: "scan_ok (bank_slots ctl p) (bank_slots ctl p) no_victim no_victim s (Inr (bv, bi))"
  shows "v_delta bv \<ge> 0 \<or> candidate busy (bank_slots ctl p) s bi"
proof -
  let ?i = "bank_of ctl p * SLRU_BANK_SIZE"
  have two: "?i \<in> set (bank_slots ctl p)" "Suc ?i \<in> set (bank_slots ctl p)"
    by (simp_all add: bank_slots_def Let_def SLRU_BANK_SIZE_def)
  then have full: "page_status s ! ?i \<noteq> SLRU_PAGE_EMPTY" "page_status s ! Suc ?i \<noteq> SLRU_PAGE_EMPTY"
    using scan by (simp_all add: scan_ok_def)
  have "?i < nslots ctl" "Suc ?i < nslots ctl"
    using two set_bank_slots slru_wfD(1) [OF wf] unfolding slru_shape_def by blast+
  with full have "page_number s ! ?i \<noteq> page_number s ! Suc ?i"
    using slru_wfD(2) [OF wf, of ?i "Suc ?i"] by auto
  then obtain j where "j \<in> set (bank_slots ctl p)" "page_number s ! j \<noteq> latest_page_number s"
    using two by metis
  then show ?thesis
    using scan by (auto simp: scan_ok_def)
qed

lemma select_step_ok:
  assumes wf: "slru_wf ctl s"
  shows "(\<exists>s'. select_step ctl p s = Some (Inl s') \<and> slru_wf ctl s' \<and> step_ok ctl s s' \<and> work ctl s' < work ctl s)
    \<or> (\<exists>r s'. select_step ctl p s = Some (Inr (r, s')) \<and> step_ok ctl s s'
         \<and> (\<forall>i. r = Inr i \<longrightarrow> selected ctl p s' i \<and> work ctl s' \<le> work ctl s))"
proof (cases "find_slot s p (bank_slots ctl p)")
  case (Some i)
  with find_slot_Some [OF Some] set_bank_slots [of ctl i p] slru_wfD(1) [OF wf]
  show ?thesis
    by (auto simp: select_step_def selected_def slru_shape_def)
next
  case None
  let ?cur = "bank_cur_lru_count s ! bank_of ctl p"
  let ?t = "s \<lparr> bank_cur_lru_count := (bank_cur_lru_count s)[bank_of ctl p := ?cur + 1] \<rparr>"
  obtain found u where scan: "scan_bank ctl ?cur (bank_slots ctl p) no_victim no_victim ?t = (found, u)"
    by fastforce
  have t: "same_pages s ?t"
    by (simp add: same_pages_def)
  have spec: "same_pages ?t u \<and> scan_ok (bank_slots ctl p) (bank_slots ctl p) no_victim no_victim ?t found"
    using scan by (rule scan_bank_spec) (simp_all add: no_victim_def)
  then have same: "same_pages s u"
    using t same_pages_trans by blast
  have wfu: "slru_wf ctl u" and work: "work ctl u = work ctl s" and step: "step_ok ctl s u"
    using same_pages_wf [OF same] wf same_pages_work [OF same] same_pages_step [OF same] by simp_all
  have ok: "scan_ok (bank_slots ctl p) (bank_slots ctl p) no_victim no_victim u found"
    using spec by (auto simp: scan_ok_def candidate_def same_pages_def split: sum.splits)
  have absent: "absent ctl p u"
    using find_slot_absent [OF wf None] same by (simp add: absent_def same_pages_def)
  have bank: "i < nslots ctl \<and> i div SLRU_BANK_SIZE = bank_of ctl p" if "i \<in> set (bank_slots ctl p)" for i
    using that set_bank_slots slru_wfD(1) [OF wf] unfolding slru_shape_def by blast
  have run: "select_step ctl p s =
      (case found of
          Inl slotno \<Rightarrow> Some (Inr (Inr slotno, u))
        | Inr (bv, bi) \<Rightarrow>
          if v_delta bv < 0 then Some (Inl (SimpleLruWaitIO (v_slot bi) u))
          else if \<not> page_dirty u ! v_slot bv then Some (Inr (Inr (v_slot bv), u))
          else Option.bind (SlruInternalWritePage ctl (v_slot bv) None u) (\<lambda>(res, s, _).
            Some (case res of Inl e \<Rightarrow> Inr (Inl e, s) | Inr _ \<Rightarrow> Inl s)))"
    using scan by (simp add: select_step_def None Let_def)
  consider i where "found = Inl i" | bv bi where "found = Inr (bv, bi)" "v_delta bv < 0"
    | bv bi where "found = Inr (bv, bi)" "v_delta bv \<ge> 0"
    by (cases found) (auto, force)
  then show ?thesis
  proof cases
    case 1
    with ok run step work absent bank show ?thesis
      by (auto simp: scan_ok_def selected_def)
  next
    case 2
    then have "candidate busy (bank_slots ctl p) u bi"
      using scan_finds_candidate [OF wfu] ok by force
    then have bi: "v_slot bi < nslots ctl" "busy (page_status u ! v_slot bi)"
      using bank by (auto simp: candidate_def)
    have "step_ok ctl s (SimpleLruWaitIO (v_slot bi) u)"
      using step WaitIO_ok [OF bi(1)] step_ok_trans by blast
    with 2 run wf WaitIO_work [OF slru_wfD(1) [OF wfu] bi] work show ?thesis
      by (auto simp: step_ok_def)
  next
    case 3
    then have bv: "candidate (\<lambda>st. st = SLRU_PAGE_VALID) (bank_slots ctl p) u bv"
      using ok by (auto simp: scan_ok_def)
    then have slot: "v_slot bv < nslots ctl"
      using bank by (simp add: candidate_def)
    show ?thesis
    proof (cases "page_dirty u ! v_slot bv")
      case False
      with 3 run bv step work absent bank show ?thesis
        by (auto simp: selected_def candidate_def)
    next
      case True
      obtain r s' fdata' where w: "SlruInternalWritePage ctl (v_slot bv) None u = Some (r, s', fdata')"
        "touches (v_slot bv) u s'" "step_ok ctl u s'"
        "r = Inr () \<Longrightarrow> holds_page (page_status u ! v_slot bv)
          \<Longrightarrow> page_status s' ! v_slot bv = SLRU_PAGE_VALID \<and> \<not> page_dirty s' ! v_slot bv"
        using InternalWrite_ok [OF wfu slot] by metis
      have less: "work ctl s' < work ctl s" if "r = Inr ()"
        using touches_work [OF w(2) slot] w(4) that bv True work
        by (simp add: slot_work_def candidate_def busy_def)
      show ?thesis
        using 3 run True w(1) less step_ok_trans [OF step w(3)] wf
        by (cases r) (auto simp: step_ok_def)
    qed
  qed
qed

lemma SlruSelectLRUPage_ok:
  assumes "slru_wf ctl s"
  obtains r s' where "SlruSelectLRUPage ctl p s = Some (r, s')" and "step_ok ctl s s'"
    and "\<And>i. r = Inr i \<Longrightarrow> selected ctl p s' i \<and> work ctl s' \<le> work ctl s"
proof -
  have "\<exists>rs. iterate (select_step ctl p) s = Some rs \<and> step_ok ctl s (snd rs)
      \<and> (\<forall>i. fst rs = Inr i \<longrightarrow> selected ctl p (snd rs) i \<and> work ctl (snd rs) \<le> work ctl s)"
  proof (rule iterate_total [where m = "work ctl"
        and I = "\<lambda>t. slru_wf ctl t \<and> step_ok ctl s t \<and> work ctl t \<le> work ctl s"])
    fix t assume t: "slru_wf ctl t \<and> step_ok ctl s t \<and> work ctl t \<le> work ctl s"
    then show "(\<exists>s'. select_step ctl p t = Some (Inl s')
          \<and> (slru_wf ctl s' \<and> step_ok ctl s s' \<and> work ctl s' \<le> work ctl s) \<and> work ctl s' < work ctl t)
      \<or> (\<exists>r. select_step ctl p t = Some (Inr r) \<and> step_ok ctl s (snd r)
          \<and> (\<forall>i. fst r = Inr i \<longrightarrow> selected ctl p (snd r) i \<and> work ctl (snd r) \<le> work ctl s))"
      using select_step_ok [of ctl t p] step_ok_trans [of ctl s t] by fastforce
  qed (use assms in simp)
  then show ?thesis
    using that unfolding SlruSelectLRUPage_def by (metis prod.collapse)
qed

subsection \<open>Reading a page\<close>

lemma PhysicalRead_cases:
  assumes "SlruPhysicalReadPage ctl p slot s = (res, s')" and "\<not> in_recovery ctl"
  shows "\<exists>b. s' = set_page_buffer slot b s \<and> (res = Inr (Inr ()) \<longrightarrow> disk_page s p = Some b)"
proof -
  have keep: "\<exists>b. s = set_page_buffer slot b s"
    by (rule exI [of _ "page_buffer s ! slot"]) (simp add: set_page_buffer_def)
  show ?thesis
    using assms keep
    by (auto simp: SlruPhysicalReadPage_def tryS_def Let_def disk_page_def
        split: sum.splits option.splits if_splits)
qed

text \<open>Reading into the slot chosen; \<open>st\<close> is the status the slot gets in the end.\<close>

lemma load_selected:
  assumes wf: "slru_wf ctl s" and sel: "selected ctl p s i"
    and new: "\<not> (page_status s ! i \<noteq> SLRU_PAGE_EMPTY \<and> page_number s ! i = p)"
    and s': "same_pages (s \<lparr> page_status := (page_status s)[i := st], page_dirty := (page_dirty s)[i := False],
        page_number := (page_number s)[i := p], page_buffer := (page_buffer s)[i := b] \<rparr>) s'"
    and st: "st = SLRU_PAGE_READ_IN_PROGRESS \<or> st = SLRU_PAGE_EMPTY
      \<or> st = SLRU_PAGE_VALID \<and> disk_page s p = Some b"
  shows "step_ok ctl s s'"
proof -
  let ?t = "s \<lparr> page_status := (page_status s)[i := st], page_dirty := (page_dirty s)[i := False],
        page_number := (page_number s)[i := p], page_buffer := (page_buffer s)[i := b] \<rparr>"
  have free: "page_status s ! i = SLRU_PAGE_EMPTY \<or> page_status s ! i = SLRU_PAGE_VALID \<and> \<not> page_dirty s ! i"
    and i: "i < nslots ctl" "i div SLRU_BANK_SIZE = bank_of ctl p"
    and fresh: "\<And>j. j < nslots ctl \<Longrightarrow> page_number s ! j = p \<Longrightarrow> page_status s ! j = SLRU_PAGE_EMPTY"
    using sel new by (auto simp: selected_def absent_def)
  note load = slot_load [OF wf i free fresh, where s' = ?t and st = st and d = False and b = b]
  have "slru_wf ctl ?t"
    by (rule load(1)) (use st in auto)
  moreover have "content ?t q c" if "content s q c" for q c
  proof (cases "q = p")
    case True
    then have "disk_page s p = Some c"
      using load(3) [of c] st that by auto
    then show ?thesis
      using load(4) [of c] st True by auto
  qed (use load(2) [of q c] st that in auto)
  ultimately have "step_ok ctl s ?t"
    by (simp add: step_ok_def)
  then show ?thesis
    using same_pages_step [OF s'] by (rule step_ok_trans)
qed

definition read_ok :: "slru_ctl \<Rightarrow> int \<Rightarrow> bool \<Rightarrow> slru \<Rightarrow> nat \<Rightarrow> bool" where
  "read_ok ctl p write_ok s i \<longleftrightarrow>
     cached s i p \<and> (write_ok \<or> page_status s ! i = SLRU_PAGE_VALID)"

lemma read_into_ok:
  assumes wf: "slru_wf ctl s" and sel: "selected ctl p s i" and live: "\<not> in_recovery ctl"
    and new: "\<not> (page_status s ! i \<noteq> SLRU_PAGE_EMPTY \<and> page_number s ! i = p)"
    and run: "SlruPhysicalReadPage ctl p i (set_dirty i False
        (set_status i SLRU_PAGE_READ_IN_PROGRESS (set_pageno i p s))) = (ok, t)"
  shows "step_ok ctl s t"
    and "step_ok ctl s (set_status i SLRU_PAGE_EMPTY (SimpleLruZeroLSNs ctl i t))"
    and "ok = Inr (Inr ()) \<Longrightarrow>
      step_ok ctl s (SlruRecentlyUsed i (set_status i SLRU_PAGE_VALID (SimpleLruZeroLSNs ctl i t)))
      \<and> read_ok ctl p w (SlruRecentlyUsed i (set_status i SLRU_PAGE_VALID (SimpleLruZeroLSNs ctl i t))) i"
proof -
  obtain b where t: "t = set_page_buffer i b (set_dirty i False
        (set_status i SLRU_PAGE_READ_IN_PROGRESS (set_pageno i p s)))"
    and disk: "ok = Inr (Inr ()) \<Longrightarrow> disk_page s p = Some b"
    using PhysicalRead_cases [OF run live]
    by (auto simp: disk_page_def set_dirty_def set_status_def set_pageno_def)
  let ?upd = "\<lambda>st. s \<lparr> page_status := (page_status s)[i := st], page_dirty := (page_dirty s)[i := False],
      page_number := (page_number s)[i := p], page_buffer := (page_buffer s)[i := b] \<rparr>"
  have same: "same_pages (?upd SLRU_PAGE_READ_IN_PROGRESS) t"
    by (simp add: t same_pages_def set_page_buffer_def set_dirty_def set_status_def set_pageno_def)
  note zeroed = same_pages_trans [OF this ZeroLSNs_same [of t ctl i]]
  have set: "same_pages (?upd st) (set_status i st (SimpleLruZeroLSNs ctl i t))" for st
    using zeroed by (simp add: same_pages_def set_status_def)
  show "step_ok ctl s t"
    by (rule load_selected [OF wf sel new same]) simp
  show "step_ok ctl s (set_status i SLRU_PAGE_EMPTY (SimpleLruZeroLSNs ctl i t))"
    by (rule load_selected [OF wf sel new set]) simp
  assume "ok = Inr (Inr ())"
  note used = same_pages_trans [OF set [of SLRU_PAGE_VALID] RecentlyUsed_same [of _ i]]
  show "step_ok ctl s (SlruRecentlyUsed i (set_status i SLRU_PAGE_VALID (SimpleLruZeroLSNs ctl i t)))
      \<and> read_ok ctl p w (SlruRecentlyUsed i (set_status i SLRU_PAGE_VALID (SimpleLruZeroLSNs ctl i t))) i"
  proof
    show "step_ok ctl s (SlruRecentlyUsed i (set_status i SLRU_PAGE_VALID (SimpleLruZeroLSNs ctl i t)))"
      by (rule load_selected [OF wf sel new used]) (use disk \<open>ok = _\<close> in simp)
    show "read_ok ctl p w (SlruRecentlyUsed i (set_status i SLRU_PAGE_VALID (SimpleLruZeroLSNs ctl i t))) i"
      using used sel slru_wfD(1) [OF wf]
      by (simp add: read_ok_def cached_def same_pages_def selected_def slru_shape_def)
  qed
qed

lemma read_step_ok:
  assumes wf: "slru_wf ctl s" and live: "\<not> in_recovery ctl"
  shows "(\<exists>s'. read_step ctl p w xid s = Some (Inl s') \<and> slru_wf ctl s' \<and> step_ok ctl s s' \<and> work ctl s' < work ctl s)
    \<or> (\<exists>r s'. read_step ctl p w xid s = Some (Inr (r, s')) \<and> step_ok ctl s s'
         \<and> (\<forall>i. r = Inr i \<longrightarrow> read_ok ctl p w s' i))"
proof -
  obtain r t where select: "SlruSelectLRUPage ctl p s = Some (r, t)" "step_ok ctl s t"
    "\<And>i. r = Inr i \<Longrightarrow> selected ctl p t i \<and> work ctl t \<le> work ctl s"
    using SlruSelectLRUPage_ok [OF wf] by blast
  have wft: "slru_wf ctl t"
    using select(2) wf by (simp add: step_ok_def)
  show ?thesis
  proof (cases r)
    case (Inl e)
    with select show ?thesis by (simp add: read_step_def)
  next
    case (Inr i)
    note sel = select(3) [OF Inr]
    have i: "i < nslots ctl"
      using sel by (simp add: selected_def)
    consider "page_status t ! i \<noteq> SLRU_PAGE_EMPTY" "page_number t ! i = p"
        "page_status t ! i = SLRU_PAGE_READ_IN_PROGRESS \<or> page_status t ! i = SLRU_PAGE_WRITE_IN_PROGRESS \<and> \<not> w"
      | "page_status t ! i \<noteq> SLRU_PAGE_EMPTY" "page_number t ! i = p"
        "\<not> (page_status t ! i = SLRU_PAGE_READ_IN_PROGRESS \<or> page_status t ! i = SLRU_PAGE_WRITE_IN_PROGRESS \<and> \<not> w)"
      | "\<not> (page_status t ! i \<noteq> SLRU_PAGE_EMPTY \<and> page_number t ! i = p)"
      by blast
    then show ?thesis
    proof cases
      case 1
      then have "work ctl (SimpleLruWaitIO i t) < work ctl t"
        by (intro WaitIO_work [OF slru_wfD(1) [OF wft] i]) (auto simp: busy_def)
      then show ?thesis
        using 1 Inr select sel step_ok_trans [OF select(2) WaitIO_ok [OF i]] wf
        by (auto simp: read_step_def step_ok_def)
    next
      case 2
      have "read_ok ctl p w (SlruRecentlyUsed i t) i"
        using RecentlyUsed_same [of t i] 2 i slru_wfD(1) [OF wft]
        by (cases "page_status t ! i") (auto simp: read_ok_def cached_def same_pages_def slru_shape_def)
      then show ?thesis
        using 2 Inr select step_ok_trans [OF select(2) same_pages_step [OF RecentlyUsed_same]]
        by (auto simp: read_step_def)
    next
      case 3
      obtain ok u where phys: "SlruPhysicalReadPage ctl p i (set_dirty i False
          (set_status i SLRU_PAGE_READ_IN_PROGRESS (set_pageno i p t))) = (ok, u)"
        by fastforce
      note into = read_into_ok [OF wft conjunct1 [OF sel] live 3 phys]
      have run: "read_step ctl p w xid s = (case ok of
             Inl e \<Rightarrow> Some (Inr (Inl e, u))
           | Inr (Inl io_err) \<Rightarrow> Some (Inr (SlruReportIOError p xid io_err,
                          set_status i SLRU_PAGE_EMPTY (SimpleLruZeroLSNs ctl i u)))
           | Inr (Inr _) \<Rightarrow> Some (Inr (Inr i, SlruRecentlyUsed i
                            (set_status i SLRU_PAGE_VALID (SimpleLruZeroLSNs ctl i u)))))"
        using select(1) Inr 3 phys by (auto simp: read_step_def Let_def)
      show ?thesis
        using run into step_ok_trans [OF select(2)]
        by (auto simp: SlruReportIOError_def split: sum.split)
    qed
  qed
qed

lemma SimpleLruReadPage_ok:
  assumes "slru_wf ctl s" and "\<not> in_recovery ctl"
  obtains r s' where "SimpleLruReadPage ctl p w xid s = Some (r, s')" and "step_ok ctl s s'"
    and "\<And>i. r = Inr i \<Longrightarrow> read_ok ctl p w s' i"
proof -
  have "\<exists>rs. iterate (read_step ctl p w xid) s = Some rs \<and> step_ok ctl s (snd rs)
      \<and> (\<forall>i. fst rs = Inr i \<longrightarrow> read_ok ctl p w (snd rs) i)"
  proof (rule iterate_total [where m = "work ctl" and I = "\<lambda>t. slru_wf ctl t \<and> step_ok ctl s t"])
    fix t assume t: "slru_wf ctl t \<and> step_ok ctl s t"
    then show "(\<exists>s'. read_step ctl p w xid t = Some (Inl s')
          \<and> (slru_wf ctl s' \<and> step_ok ctl s s') \<and> work ctl s' < work ctl t)
      \<or> (\<exists>r. read_step ctl p w xid t = Some (Inr r) \<and> step_ok ctl s (snd r)
          \<and> (\<forall>i. fst r = Inr i \<longrightarrow> read_ok ctl p w (snd r) i))"
      using read_step_ok [of ctl t p w xid] step_ok_trans [of ctl s t] assms(2) by fastforce
  qed (use assms in simp)
  then show ?thesis
    using that unfolding SimpleLruReadPage_def by (metis prod.collapse)
qed

lemma find_readable_Some:
  "find_readable s p slots = Some i
    \<Longrightarrow> i \<in> set slots \<and> page_number s ! i = p \<and> holds_page (page_status s ! i)"
proof (induction slots)
  case (Cons j slots)
  then show ?case
    by (cases "page_status s ! j") (auto split: if_splits)
qed simp

lemma ReadOnly_ok:
  assumes wf: "slru_wf ctl s" and "\<not> in_recovery ctl"
  obtains r s' where "SimpleLruReadPage_ReadOnly ctl p xid s = Some (r, s')" and "step_ok ctl s s'"
    and "\<And>i. r = Inr i \<Longrightarrow> read_ok ctl p True s' i"
proof (cases "find_readable s p (bank_slots ctl p)")
  case None
  with SimpleLruReadPage_ok [OF assms, of p True xid] that show ?thesis
    by (auto simp: SimpleLruReadPage_ReadOnly_def)
next
  case (Some i)
  have "i < nslots ctl"
    using find_readable_Some [OF Some] set_bank_slots slru_wfD(1) [OF wf] unfolding slru_shape_def by blast
  then have "read_ok ctl p True (SlruRecentlyUsed i s) i"
    using find_readable_Some [OF Some] RecentlyUsed_same [of s i] slru_wfD(1) [OF wf]
    by (auto simp: read_ok_def cached_def same_pages_def slru_shape_def)
  with Some that [of "Inr i"] same_pages_step [OF RecentlyUsed_same] show ?thesis
    by (simp add: SimpleLruReadPage_ReadOnly_def)
qed

lemma cached_content:
  assumes "slru_wf ctl s" and "cached s i p"
  shows "content s p c \<longleftrightarrow> c = page_buffer s ! i"
proof -
  have "cached s j p \<longleftrightarrow> j = i" for j
    using slru_wfD(2) [OF assms(1), of j i] assms(2)
    by (auto simp: cached_iff [OF slru_wfD(1) [OF assms(1)]])
  then show ?thesis
    by (auto simp: content_def)
qed

lemma content_unique:
  assumes "slru_wf ctl s" and "content s p c" and "content s p c'"
  shows "c = c'"
proof (cases "\<exists>i. cached s i p")
  case True
  then obtain i where "cached s i p" ..
  from cached_content [OF assms(1) this] show ?thesis
    using assms(2,3) by simp
next
  case False
  then show ?thesis
    using assms(2,3) by (simp add: content_def)
qed

end
