(* ===== verification/SlruOps.thy ===== *)
theory SlruOps
  imports SlruSpec
begin

section \<open>Correctness of the buffer pool operations\<close>

text \<open>
  The public operations of \<^verbatim>\<open>slru/src/lib.rs\<close> against the view of \<open>SlruSpec\<close>: reading, zeroing,
  changing, checkpointing and truncating pages; and the interface \<open>page_cache\<close> through
  which the commit log and the subtransaction log use the pool.
\<close>

subsection \<open>A pool with two pages on disk\<close>

definition demo_ctl :: "(int \<Rightarrow> int \<Rightarrow> bool) \<Rightarrow> slru_ctl" where
  "demo_ctl precedes = \<lparr> nbanks = 1, lsn_groups_per_page = 0, PagePrecedes = precedes, sync_handler = False,
     in_recovery = False, open_fault = (\<lambda>_. Inr None), read_fault = (\<lambda>_. None), write_fault = (\<lambda>_. None),
     fsync_fault = (\<lambda>_. None), close_fault = (\<lambda>_. None), xlog_flush = (\<lambda>_. Inr ()),
     register_sync = (\<lambda>_. Inr True), forget_sync = (\<lambda>_. Inr ()) \<rparr>"

definition demo_pool :: slru where
  "demo_pool = SimpleLruResetAfterCrash (demo_ctl (<))
     \<lparr> page_status = [], page_dirty = [], page_number = [], page_lru_count = [], page_buffer = [],
       bank_cur_lru_count = [], group_lsn = [], latest_page_number = 0,
       segments = [0 \<mapsto> [zero_page, zero_page]] \<rparr>"

lemma Reset_wf: "nbanks ctl > 0 \<Longrightarrow> slru_wf ctl (SimpleLruResetAfterCrash ctl s)"
  by (simp add: slru_wf_def slru_shape_def SimpleLruResetAfterCrash_def Let_def)

lemma demo_pool_wf: "slru_wf (demo_ctl precedes) demo_pool"
proof -
  have "demo_pool = SimpleLruResetAfterCrash (demo_ctl precedes) demo_pool"
    by (simp add: demo_pool_def SimpleLruResetAfterCrash_def Let_def demo_ctl_def)
  then show ?thesis
    using Reset_wf [of "demo_ctl precedes" demo_pool] by (simp add: demo_ctl_def)
qed

lemma demo_live: "\<not> in_recovery (demo_ctl precedes)"
  by (simp add: demo_ctl_def)

lemma demo_content: "content demo_pool 0 zero_page" "content demo_pool 1 zero_page"
  by (simp_all add: content_def cached_def disk_page_def demo_pool_def SimpleLruResetAfterCrash_def Let_def
      demo_ctl_def SLRU_PAGES_PER_SEGMENT_def)

subsection \<open>Reading\<close>

text \<open>
  C6: reading a page through the cache is correct. In a well-formed pool outside recovery,
  \<^verbatim>\<open>SimpleLruReadPage\<close> returns (its retry loop and the victim search inside it end), whatever
  the input and output faults are; the pool stays well-formed; every page that had a content
  has the same content afterwards, evictions and failed writes included; and if it
  returns a slot, that slot holds the requested page, in a valid state unless the caller
  allows a write in progress, with the bytes the page had before the call.
\<close>

theorem SimpleLruReadPage_correct:
  assumes "slru_wf ctl s" and "\<not> in_recovery ctl"
  shows "\<exists>r s'. SimpleLruReadPage ctl p w xid s = Some (r, s') \<and> slru_wf ctl s'
    \<and> (\<forall>q c. content s q c \<longrightarrow> content s' q c)
    \<and> (\<forall>i. r = Inr i \<longrightarrow> cached s' i p \<and> (w \<or> page_status s' ! i = SLRU_PAGE_VALID)
         \<and> (\<forall>c. content s p c \<longrightarrow> page_buffer s' ! i = c))"
proof -
  obtain r s' where "SimpleLruReadPage ctl p w xid s = Some (r, s')" "step_ok ctl s s'"
    "\<And>i. r = Inr i \<Longrightarrow> read_ok ctl p w s' i"
    using SimpleLruReadPage_ok [OF assms] by blast
  moreover from this(2) assms have "slru_wf ctl s'" "\<And>q c. content s q c \<Longrightarrow> content s' q c"
    by (simp_all add: step_ok_def)
  moreover have "cached s' i p \<Longrightarrow> content s' p c \<Longrightarrow> page_buffer s' ! i = c" for i c
    using cached_content [OF \<open>slru_wf ctl s'\<close>] by simp
  ultimately show ?thesis
    by (auto simp: read_ok_def)
qed

theorem SimpleLruReadPage_correct_witness:
  "slru_wf (demo_ctl (<)) demo_pool \<and> \<not> in_recovery (demo_ctl (<))
    \<and> (\<exists>r s'. SimpleLruReadPage (demo_ctl (<)) 0 False 0 demo_pool = Some (r, s')
         \<and> content s' 0 zero_page \<and> (\<forall>i. r = Inr i \<longrightarrow> page_buffer s' ! i = zero_page))"
  using SimpleLruReadPage_correct [OF demo_pool_wf demo_live, of "(<)" 0 False 0]
    demo_pool_wf [of "(<)"] demo_live demo_content by blast

subsection \<open>Changing a page\<close>

lemma slot_overwrite:
  assumes wf: "slru_wf ctl s" and i: "i < nslots ctl" "page_status s ! i \<noteq> SLRU_PAGE_EMPTY" "page_number s ! i = p"
    and s': "page_status s' = (page_status s)[i := st]" "page_dirty s' = (page_dirty s)[i := True]"
      "page_number s' = page_number s" "page_buffer s' = (page_buffer s)[i := b]"
      "segments s' = segments s" "length (page_lru_count s') = length (page_lru_count s)"
      "length (bank_cur_lru_count s') = length (bank_cur_lru_count s)"
    and st: "holds_page st"
  shows "slru_wf ctl s' \<and> cached s' i p \<and> (\<forall>q c. content s' q c \<longleftrightarrow> (if q = p then c = b else content s q c))"
proof -
  note wfD = slru_wfD [OF wf]
  have disk: "disk_page s' q = disk_page s q" for q
    by (simp add: disk_page_def s')
  have shape: "slru_shape ctl s'" and len: "length (page_status s) = nslots ctl" "length (page_dirty s) = nslots ctl"
    "length (page_number s) = nslots ctl" "length (page_buffer s) = nslots ctl"
    using wfD(1) by (simp_all add: slru_shape_def s')
  have at: "page_status s' ! j = (if j = i then st else page_status s ! j)"
    "page_dirty s' ! j = (if j = i then True else page_dirty s ! j)"
    "page_buffer s' ! j = (if j = i then b else page_buffer s ! j)" if "j < nslots ctl" for j
    using that len by (simp_all add: s' nth_list_update)
  have wf': "slru_wf ctl s'"
    unfolding slru_wf_def
    using shape wfD(2,3,4) i by (auto simp: at disk s'(3))
  have cached: "cached s' i p"
    using i(1,3) st by (simp add: cached_iff [OF shape] at s'(3))
  have other: "cached s' j q = cached s j q" if "q \<noteq> p" for j q
    using that i(3) by (cases "j = i") (auto simp: cached_iff [OF shape] cached_iff [OF wfD(1)] at s'(3))
  have "content s' q c = content s q c" if "q \<noteq> p" for q c
  proof -
    have "cached s j q \<Longrightarrow> page_buffer s' ! j = page_buffer s ! j" for j
      using that i(3) at(3) [of j] by (auto simp: cached_iff [OF wfD(1)])
    then show ?thesis
      unfolding content_def other [OF that] disk by auto
  qed
  then show ?thesis
    using wf' cached cached_content [OF wf' cached] at(3) [OF i(1)] by simp
qed

definition store_page :: "nat \<Rightarrow> page \<Rightarrow> slru \<Rightarrow> slru" where
  "store_page i b s = mark_page_dirty i (set_page_buffer i b s)"

lemma store_page_ok:
  assumes "slru_wf ctl s" and "cached s i p"
  shows "slru_wf ctl (store_page i b s)" and "cached (store_page i b s) i p"
    and "content (store_page i b s) q c \<longleftrightarrow> (if q = p then c = b else content s q c)"
proof -
  have "i < nslots ctl" "page_status s ! i \<noteq> SLRU_PAGE_EMPTY" "page_number s ! i = p"
    "holds_page (page_status s ! i)"
    using assms(2) by (auto simp: cached_iff [OF slru_wfD(1) [OF assms(1)]])
  then have "slru_wf ctl (store_page i b s) \<and> cached (store_page i b s) i p
      \<and> (\<forall>q c. content (store_page i b s) q c \<longleftrightarrow> (if q = p then c = b else content s q c))"
    by (intro slot_overwrite [OF assms(1), where st = "page_status s ! i"])
      (simp_all add: store_page_def mark_page_dirty_def set_page_buffer_def)
  then show "slru_wf ctl (store_page i b s)" and "cached (store_page i b s) i p"
    and "content (store_page i b s) q c \<longleftrightarrow> (if q = p then c = b else content s q c)"
    by blast+
qed

lemma ZeroPage_ok:
  assumes wf: "slru_wf ctl s"
  shows "\<exists>r s'. SimpleLruZeroPage ctl p s = Some (r, s') \<and> slru_wf ctl s'
    \<and> (\<forall>q c. (q \<noteq> p \<or> (\<exists>e. r = Inl e)) \<longrightarrow> content s q c \<longrightarrow> content s' q c)
    \<and> (\<forall>i. r = Inr i \<longrightarrow> cached s' i p \<and> content s' p zero_page \<and> latest_page_number s' = p)"
proof -
  obtain r t where select: "SlruSelectLRUPage ctl p s = Some (r, t)" "step_ok ctl s t"
    "\<And>i. r = Inr i \<Longrightarrow> selected ctl p t i \<and> work ctl t \<le> work ctl s"
    using SlruSelectLRUPage_ok [OF wf] by blast
  have t: "slru_wf ctl t" "\<And>q c. content s q c \<Longrightarrow> content t q c"
    using select(2) wf by (simp_all add: step_ok_def)
  show ?thesis
  proof (cases r)
    case (Inl e)
    with select(1) t show ?thesis by (simp add: SimpleLruZeroPage_def)
  next
    case (Inr i)
    then have sel: "selected ctl p t i"
      using select(3) by blast
    let ?s = "set_dirty i True (set_status i SLRU_PAGE_VALID (set_pageno i p t))"
    let ?u = "SlruRecentlyUsed i ?s"
    let ?v = "SimpleLruZeroLSNs ctl i (set_page_buffer i zero_page ?u)"
    let ?s' = "set_latest_page_number p ?v"
    have run: "SimpleLruZeroPage ctl p s = Some (Inr i, ?s')"
      using select(1) Inr by (simp add: SimpleLruZeroPage_def Let_def)
    have fields: "page_status ?s' = (page_status t)[i := SLRU_PAGE_VALID]"
      "page_dirty ?s' = (page_dirty t)[i := True]" "page_number ?s' = (page_number t)[i := p]"
      "page_buffer ?s' = (page_buffer t)[i := zero_page]" "segments ?s' = segments t"
      "length (page_lru_count ?s') = length (page_lru_count t)"
      "length (bank_cur_lru_count ?s') = length (bank_cur_lru_count t)"
      using RecentlyUsed_same [of ?s i] ZeroLSNs_same [of "set_page_buffer i zero_page ?u" ctl i]
      by (simp_all add: same_pages_def set_latest_page_number_def set_page_buffer_def set_dirty_def
          set_status_def set_pageno_def)
    have i: "i < nslots ctl" "i div SLRU_BANK_SIZE = bank_of ctl p"
      using sel by (simp_all add: selected_def)
    have "slru_wf ctl ?s' \<and> cached ?s' i p \<and> content ?s' p zero_page
        \<and> (\<forall>q c. q \<noteq> p \<longrightarrow> content t q c \<longrightarrow> content ?s' q c)"
    proof (cases "page_status t ! i \<noteq> SLRU_PAGE_EMPTY \<and> page_number t ! i = p")
      case True
      then have "(page_number t)[i := p] = page_number t"
        by (metis list_update_id)
      then show ?thesis
        using slot_overwrite [OF t(1) i(1) _ _ fields(1,2) _ fields(4-7)] True fields(3) by simp
    next
      case False
      then have free: "page_status t ! i = SLRU_PAGE_EMPTY \<or> page_status t ! i = SLRU_PAGE_VALID \<and> \<not> page_dirty t ! i"
        and fresh: "\<And>j. j < nslots ctl \<Longrightarrow> page_number t ! j = p \<Longrightarrow> page_status t ! j = SLRU_PAGE_EMPTY"
        using sel by (auto simp: selected_def absent_def)
      note load = slot_load [OF t(1) i free fresh fields]
      have "cached ?s' i p"
        using i(1) slru_wfD(1) [OF t(1)] fields by (simp add: cached_def slru_shape_def)
      then show ?thesis
        using load(1,2) load(4) [of zero_page] by simp
    qed
    moreover have "latest_page_number ?s' = p"
      by (simp add: set_latest_page_number_def)
    ultimately show ?thesis
      using run t(2) by (intro exI [of _ "Inr i"] exI [of _ ?s']) simp
  qed
qed

text \<open>
  Zeroing a page initialises that page and no other. In a well-formed pool
  \<^verbatim>\<open>SimpleLruZeroPage\<close> returns; on success the slot returned holds the page with all bytes
  zero, the page is the newest one, the pool is well-formed, and every other page keeps its
  content; on an error (an eviction that could not be written) every page keeps its content.
\<close>

theorem SimpleLruZeroPage_correct:
  assumes wf: "slru_wf ctl s"
  shows "\<exists>r s'. SimpleLruZeroPage ctl p s = Some (r, s') \<and> slru_wf ctl s'
    \<and> (\<forall>q c. (q \<noteq> p \<or> (\<exists>e. r = Inl e)) \<longrightarrow> content s q c \<longrightarrow> content s' q c)
    \<and> (\<forall>i. r = Inr i \<longrightarrow> cached s' i p \<and> content s' p zero_page \<and> latest_page_number s' = p)"
  by (rule ZeroPage_ok [OF assms])

theorem SimpleLruZeroPage_correct_witness:
  "slru_wf (demo_ctl (<)) demo_pool
    \<and> (\<exists>r s'. SimpleLruZeroPage (demo_ctl (<)) 1 demo_pool = Some (r, s')
         \<and> content s' 0 zero_page \<and> (\<forall>i. r = Inr i \<longrightarrow> content s' 1 zero_page))"
proof -
  obtain r s' where "SimpleLruZeroPage (demo_ctl (<)) 1 demo_pool = Some (r, s')"
    "\<forall>q c. (q \<noteq> 1 \<or> (\<exists>e. r = Inl e)) \<longrightarrow> content demo_pool q c \<longrightarrow> content s' q c"
    "\<forall>i. r = Inr i \<longrightarrow> content s' 1 zero_page"
    using SimpleLruZeroPage_correct [OF demo_pool_wf, of "(<)" 1] by fastforce
  then show ?thesis
    using demo_pool_wf demo_content by auto
qed

subsection \<open>Checkpoint\<close>

lemma write_all_loop_ok:
  assumes "slru_wf ctl s" and "set slots \<subseteq> {..< nslots ctl}" and "distinct slots"
  shows "\<exists>r s' fdata'. write_all_loop ctl slots fdata s = Some (r, s', fdata') \<and> step_ok ctl s s'
    \<and> (\<forall>j. j \<notin> set slots \<longrightarrow> page_status s' ! j = page_status s ! j \<and> page_dirty s' ! j = page_dirty s ! j)
    \<and> (r = Inr () \<longrightarrow> (\<forall>i \<in> set slots. holds_page (page_status s' ! i)
         \<longrightarrow> page_status s' ! i = SLRU_PAGE_VALID \<and> \<not> page_dirty s' ! i))"
  using assms
proof (induction slots arbitrary: s fdata)
  case (Cons i slots)
  then have i: "i < nslots ctl" "i \<notin> set slots" by auto
  show ?case
  proof (cases "page_status s ! i = SLRU_PAGE_EMPTY")
    case True
    obtain r s' fdata' where IH: "write_all_loop ctl slots fdata s = Some (r, s', fdata')" "step_ok ctl s s'"
      "\<forall>j. j \<notin> set slots \<longrightarrow> page_status s' ! j = page_status s ! j \<and> page_dirty s' ! j = page_dirty s ! j"
      "r = Inr () \<longrightarrow> (\<forall>i \<in> set slots. holds_page (page_status s' ! i)
         \<longrightarrow> page_status s' ! i = SLRU_PAGE_VALID \<and> \<not> page_dirty s' ! i)"
      using Cons by force
    with True i show ?thesis by auto
  next
    case False
    obtain r t fdata1 where w: "SlruInternalWritePage ctl i fdata s = Some (r, t, fdata1)"
      "touches i s t" "step_ok ctl s t"
      "r = Inr () \<Longrightarrow> holds_page (page_status s ! i)
        \<Longrightarrow> page_status t ! i = SLRU_PAGE_VALID \<and> \<not> page_dirty t ! i"
      "\<not> holds_page (page_status s ! i) \<Longrightarrow> t = s"
      using InternalWrite_ok [OF Cons.prems(1) i(1)] by metis
    note others = touches_others [OF w(2)]
    show ?thesis
    proof (cases r)
      case (Inl e)
      with w others False show ?thesis by auto
    next
      case (Inr u)
      have "slru_wf ctl t"
        using w(3) Cons.prems(1) by (simp add: step_ok_def)
      then obtain r' s' fdata' where IH: "write_all_loop ctl slots fdata1 t = Some (r', s', fdata')" "step_ok ctl t s'"
        "\<forall>j. j \<notin> set slots \<longrightarrow> page_status s' ! j = page_status t ! j \<and> page_dirty s' ! j = page_dirty t ! j"
        "r' = Inr () \<longrightarrow> (\<forall>i \<in> set slots. holds_page (page_status s' ! i)
           \<longrightarrow> page_status s' ! i = SLRU_PAGE_VALID \<and> \<not> page_dirty s' ! i)"
        using Cons.IH [of t fdata1] Cons.prems by force
      have "holds_page (page_status t ! i) \<Longrightarrow> page_status t ! i = SLRU_PAGE_VALID \<and> \<not> page_dirty t ! i"
        using w(4,5) Inr by (cases "holds_page (page_status s ! i)") auto
      moreover have "step_ok ctl s s'"
        using w(3) IH(2) by (rule step_ok_trans)
      ultimately show ?thesis
        using False w(1) Inr IH others i(2) by auto
    qed
  qed
qed simp

lemma clean_on_disk:
  assumes wf: "slru_wf ctl s" and c: "content s p c"
    and clean: "\<forall>i < nslots ctl. holds_page (page_status s ! i)
      \<longrightarrow> page_status s ! i = SLRU_PAGE_VALID \<and> \<not> page_dirty s ! i"
  shows "disk_page s p = Some c"
  using c slru_wfD(4) [OF wf] clean unfolding content_def cached_iff [OF slru_wfD(1) [OF wf]] by blast

text \<open>
  C39: a checkpoint makes the log durable. In a well-formed pool \<^verbatim>\<open>SimpleLruWriteAll\<close> returns, keeps
  the pool well-formed and every page's content, and when it reports success the segment
  files alone hold that content: a crash that empties the cache right
  after loses nothing.
\<close>

theorem SimpleLruWriteAll_durable:
  assumes wf: "slru_wf ctl s"
  shows "\<exists>r s'. SimpleLruWriteAll ctl fsync_dir s = Some (r, s') \<and> slru_wf ctl s'
    \<and> (\<forall>p c. content s p c \<longrightarrow> content s' p c)
    \<and> (r = Inr () \<longrightarrow> (\<forall>p c. content s p c \<longrightarrow> content (SimpleLruResetAfterCrash ctl s') p c))"
proof -
  obtain r s' fdata' where loop: "write_all_loop ctl [0 ..< nslots ctl] (Some []) s = Some (r, s', fdata')"
    "step_ok ctl s s'"
    "r = Inr () \<longrightarrow> (\<forall>i \<in> {..< nslots ctl}. holds_page (page_status s' ! i)
       \<longrightarrow> page_status s' ! i = SLRU_PAGE_VALID \<and> \<not> page_dirty s' ! i)"
    using write_all_loop_ok [OF wf, of "[0 ..< nslots ctl]" "Some []"]
    unfolding set_upt atLeast0LessThan by auto
  have s': "slru_wf ctl s'" "\<And>p c. content s p c \<Longrightarrow> content s' p c"
    using loop(2) wf by (simp_all add: step_ok_def)
  have reset: "content (SimpleLruResetAfterCrash ctl s') p c \<longleftrightarrow> disk_page s' p = Some c" for p c
    by (auto simp: content_def cached_def disk_page_def SimpleLruResetAfterCrash_def Let_def)
  have disk: "disk_page s' p = Some c" if "r = Inr ()" "content s p c" for p c
    using clean_on_disk [OF s'(1) s'(2)] loop(3) that by simp
  have "\<exists>r'. SimpleLruWriteAll ctl fsync_dir s = Some (r', s') \<and> (r' = Inr () \<longrightarrow> r = Inr ())"
    using loop(1) by (cases r) (simp_all add: SimpleLruWriteAll_def Let_def)
  then show ?thesis
    using s' reset disk by auto
qed

theorem SimpleLruWriteAll_durable_witness:
  "slru_wf (demo_ctl (<)) demo_pool
    \<and> (\<exists>r s'. SimpleLruWriteAll (demo_ctl (<)) (Inr ()) demo_pool = Some (r, s')
         \<and> (r = Inr () \<longrightarrow> content (SimpleLruResetAfterCrash (demo_ctl (<)) s') 0 zero_page))"
  using SimpleLruWriteAll_durable [OF demo_pool_wf, of "(<)" "Inr ()"] demo_pool_wf demo_content by blast

subsection \<open>Truncation\<close>

lemma empty_clean_ok:
  assumes wf: "slru_wf ctl s" and i: "i < nslots ctl"
    and st: "page_status s ! i = SLRU_PAGE_VALID" "\<not> page_dirty s ! i"
  shows "step_ok ctl s (set_status i SLRU_PAGE_EMPTY s)"
    and "work ctl (set_status i SLRU_PAGE_EMPTY s) = work ctl s"
proof -
  let ?s' = "set_status i SLRU_PAGE_EMPTY s"
  note wfD = slru_wfD [OF wf]
  have shape: "slru_shape ctl ?s'" and len: "length (page_status s) = nslots ctl"
    using wfD(1) by (simp_all add: slru_shape_def set_status_def)
  have at: "page_status ?s' ! j = (if j = i then SLRU_PAGE_EMPTY else page_status s ! j)" if "j < nslots ctl" for j
    using that len by (simp add: set_status_def nth_list_update)
  have same: "page_number ?s' = page_number s" "page_buffer ?s' = page_buffer s" "page_dirty ?s' = page_dirty s"
    "disk_page ?s' = disk_page s" "latest_page_number ?s' = latest_page_number s"
    by (simp_all add: set_status_def disk_page_def fun_eq_iff)
  have "slru_wf ctl ?s'"
    unfolding slru_wf_def using shape wfD(2-4) by (auto simp: at same)
  moreover have "content ?s' p c" if "content s p c" for p c
  proof (cases "p = page_number s ! i")
    case True
    then have "cached s i p"
      using i st by (simp add: cached_iff [OF wfD(1)])
    then have "c = page_buffer s ! i" "\<And>j. cached s j p \<Longrightarrow> j = i"
      using that cached_content [OF wf] wfD(2) [of _ i] by (auto simp: cached_iff [OF wfD(1)])
    moreover have "\<not> cached ?s' j p" for j
      using wfD(2) [of j i] i st True at [of j] by (auto simp: cached_iff [OF shape] same split: if_splits)
    ultimately show ?thesis
      using wfD(4) [OF i st] True by (simp add: content_def same)
  next
    case False
    then have "cached ?s' j p = cached s j p" for j
      using at [of j] by (cases "j = i") (auto simp: cached_iff [OF shape] cached_iff [OF wfD(1)] same)
    with that show ?thesis
      by (simp add: content_def same)
  qed
  ultimately show "step_ok ctl s ?s'"
    by (simp add: step_ok_def same)
  show "work ctl ?s' = work ctl s"
    unfolding work_def
    by (rule sum.cong) (use st at in \<open>auto simp: slot_work_def same busy_def\<close>)
qed

definition pages_gone :: "slru_ctl \<Rightarrow> (int \<Rightarrow> bool) \<Rightarrow> nat set \<Rightarrow> slru \<Rightarrow> bool" where
  "pages_gone ctl P slots s \<longleftrightarrow> (\<forall>i \<in> slots. page_status s ! i \<noteq> SLRU_PAGE_EMPTY \<longrightarrow> \<not> P (page_number s ! i))"

lemma truncate_pass_ok:
  assumes "slru_wf ctl s" and "set slots \<subseteq> {..< nslots ctl}"
  shows "(\<exists>s'. truncate_pass ctl cutoff slots s = Some (Inl s') \<and> step_ok ctl s s' \<and> work ctl s' < work ctl s)
    \<or> (\<exists>r s'. truncate_pass ctl cutoff slots s = Some (Inr (r, s')) \<and> step_ok ctl s s'
        \<and> (r = Inr () \<longrightarrow> page_number s' = page_number s
            \<and> (\<forall>j. page_status s' ! j \<noteq> SLRU_PAGE_EMPTY \<longrightarrow> page_status s ! j \<noteq> SLRU_PAGE_EMPTY)
            \<and> pages_gone ctl (\<lambda>p. PagePrecedes ctl p cutoff) (set slots) s'))"
  using assms
proof (induction slots arbitrary: s)
  case Nil
  then show ?case by (auto simp: pages_gone_def)
next
  case (Cons i slots)
  then have i: "i < nslots ctl" and rest: "set slots \<subseteq> {..< nslots ctl}" by auto
  consider "page_status s ! i = SLRU_PAGE_EMPTY \<or> \<not> PagePrecedes ctl (page_number s ! i) cutoff"
    | "page_status s ! i = SLRU_PAGE_VALID" "\<not> page_dirty s ! i" "PagePrecedes ctl (page_number s ! i) cutoff"
    | "page_status s ! i = SLRU_PAGE_VALID" "page_dirty s ! i" "PagePrecedes ctl (page_number s ! i) cutoff"
    | "busy (page_status s ! i)" "PagePrecedes ctl (page_number s ! i) cutoff"
    by (cases "page_status s ! i") (auto simp: busy_def)
  then show ?case
  proof cases
    case 1
    then have "truncate_pass ctl cutoff (i # slots) s = truncate_pass ctl cutoff slots s"
      by auto
    with 1 Cons.IH [OF Cons.prems(1) rest] show ?thesis
      by (auto simp: pages_gone_def)
  next
    case 2
    let ?t = "set_status i SLRU_PAGE_EMPTY s"
    note t = empty_clean_ok [OF Cons.prems(1) i 2(1,2)]
    have wft: "slru_wf ctl ?t"
      using t(1) Cons.prems(1) by (simp add: step_ok_def)
    have len: "i < length (page_status s)"
      using slru_wfD(1) [OF Cons.prems(1)] i by (simp add: slru_shape_def)
    have at: "page_status ?t ! j = (if j = i then SLRU_PAGE_EMPTY else page_status s ! j)"
      "page_number ?t = page_number s" for j
      using len by (auto simp: set_status_def nth_list_update)
    have "truncate_pass ctl cutoff (i # slots) s = truncate_pass ctl cutoff slots ?t"
      using 2 by simp
    with Cons.IH [OF wft rest] t(2) step_ok_trans [OF t(1)] at show ?thesis
      by (auto simp: pages_gone_def split: if_splits)
  next
    case 3
    obtain r s' fdata' where w: "SlruInternalWritePage ctl i None s = Some (r, s', fdata')"
      "touches i s s'" "step_ok ctl s s'"
      "r = Inr () \<Longrightarrow> page_status s' ! i = SLRU_PAGE_VALID \<and> \<not> page_dirty s' ! i"
      using InternalWrite_ok [OF Cons.prems(1) i] 3(1) by metis
    have "work ctl s' < work ctl s" if "r = Inr ()"
      using touches_work [OF w(2) i] w(4) that 3 by (simp add: slot_work_def busy_def)
    with w 3 show ?thesis
      by (cases r) auto
  next
    case 4
    then have "work ctl (SimpleLruWaitIO i s) < work ctl s"
      by (intro WaitIO_work [OF slru_wfD(1) [OF Cons.prems(1)] i])
    moreover have "truncate_pass ctl cutoff (i # slots) s = Some (Inl (SimpleLruWaitIO i s))"
      using 4 by (auto simp: busy_def)
    ultimately show ?thesis
      using WaitIO_ok [OF i] by blast
  qed
qed

definition segment_convex :: "slru_ctl \<Rightarrow> int \<Rightarrow> bool" where
  "segment_convex ctl cutoff \<longleftrightarrow>
     (\<forall>q. SlruMayDeleteSegment ctl (q div SLRU_PAGES_PER_SEGMENT * SLRU_PAGES_PER_SEGMENT) cutoff
        \<longrightarrow> PagePrecedes ctl q cutoff)"

lemma delete_segment_ok:
  assumes wf: "slru_wf ctl s" and gone: "pages_gone ctl (\<lambda>p. PagePrecedes ctl p cutoff) {..< nslots ctl} s"
    and convex: "segment_convex ctl cutoff"
    and may: "SlruMayDeleteSegment ctl (seg * SLRU_PAGES_PER_SEGMENT) cutoff"
    and s': "s' = s \<lparr> segments := (segments s)(seg := None) \<rparr>"
  shows "slru_wf ctl s'" and "pages_gone ctl (\<lambda>p. PagePrecedes ctl p cutoff) {..< nslots ctl} s'"
    and "\<And>q c. content s q c \<Longrightarrow> \<not> PagePrecedes ctl q cutoff \<Longrightarrow> content s' q c"
proof -
  note wfD = slru_wfD [OF wf]
  have disk: "disk_page s' q = disk_page s q" if "\<not> PagePrecedes ctl q cutoff" for q
  proof -
    have "q div SLRU_PAGES_PER_SEGMENT \<noteq> seg"
      using convex may that unfolding segment_convex_def by blast
    then show ?thesis
      by (simp add: s' disk_page_def)
  qed
  have live: "\<not> PagePrecedes ctl (page_number s ! i) cutoff"
    if "i < nslots ctl" "page_status s ! i \<noteq> SLRU_PAGE_EMPTY" for i
    using gone that by (simp add: pages_gone_def)
  have shape: "slru_shape ctl s'"
    using wfD(1) by (simp add: s' slru_shape_def)
  have same: "page_status s' = page_status s" "page_number s' = page_number s" "page_dirty s' = page_dirty s"
    "page_buffer s' = page_buffer s"
    by (simp_all add: s')
  show "slru_wf ctl s'"
    unfolding slru_wf_def same using shape wfD(2-4) disk [OF live] by auto
  show "pages_gone ctl (\<lambda>p. PagePrecedes ctl p cutoff) {..< nslots ctl} s'"
    using gone by (simp add: pages_gone_def same)
  show "content s' q c" if "content s q c" "\<not> PagePrecedes ctl q cutoff" for q c
    using that disk [OF that(2)] by (simp add: content_def cached_def same)
qed

lemma delete_cutoff_ok:
  assumes "slru_wf ctl s" and "pages_gone ctl (\<lambda>p. PagePrecedes ctl p cutoff) {..< nslots ctl} s"
    and "segment_convex ctl cutoff" and "delete_cutoff ctl cutoff names s = (r, s')"
  shows "slru_wf ctl s' \<and> (\<forall>q c. content s q c \<longrightarrow> \<not> PagePrecedes ctl q cutoff \<longrightarrow> content s' q c)
    \<and> (\<forall>seg. segments s seg = None \<longrightarrow> segments s' seg = None)
    \<and> (r = Inr () \<longrightarrow> (\<forall>seg \<in> set names.
         SlruMayDeleteSegment ctl (seg * SLRU_PAGES_PER_SEGMENT) cutoff \<longrightarrow> segments s' seg = None))"
  using assms
proof (induction names arbitrary: s)
  case (Cons seg names)
  show ?case
  proof (cases "SlruMayDeleteSegment ctl (seg * SLRU_PAGES_PER_SEGMENT) cutoff")
    case False
    with Cons show ?thesis by auto
  next
    case True
    let ?t = "s \<lparr> segments := (segments s)(seg := None) \<rparr>"
    note t = delete_segment_ok [OF Cons.prems(1-3) True refl]
    show ?thesis
    proof (cases "if sync_handler ctl then forget_sync ctl seg else Inr ()")
      case (Inl e)
      with True Cons.prems show ?thesis
        by (auto simp: SlruInternalDeleteSegment_def)
    next
      case (Inr u)
      then have "delete_cutoff ctl cutoff names ?t = (r, s')"
        using True Cons.prems(4) by (simp add: SlruInternalDeleteSegment_def)
      from Cons.IH [OF t(1,2) Cons.prems(3) this] t(3) show ?thesis
        by auto
    qed
  qed
qed simp

lemma Truncate_ok:
  assumes wf: "slru_wf ctl s" and convex: "segment_convex ctl cutoff"
  shows "\<exists>r s'. SimpleLruTruncate ctl names cutoff s = Some (r, s') \<and> slru_wf ctl s'
    \<and> (\<forall>q c. content s q c \<longrightarrow> \<not> PagePrecedes ctl q cutoff \<or> PagePrecedes ctl (latest_page_number s) cutoff
         \<longrightarrow> content s' q c)
    \<and> (r = Inr () \<longrightarrow> \<not> PagePrecedes ctl (latest_page_number s) cutoff
         \<longrightarrow> (\<forall>seg \<in> set names. SlruMayDeleteSegment ctl (seg * SLRU_PAGES_PER_SEGMENT) cutoff
                \<longrightarrow> segments s' seg = None))"
proof -
  let ?gone = "pages_gone ctl (\<lambda>p. PagePrecedes ctl p cutoff) {..< nslots ctl}"
  define body where "body = (\<lambda>s. if PagePrecedes ctl (latest_page_number s) cutoff then Some (Inr (None, s))
         else map_option (\<lambda>x. case x of Inl s \<Rightarrow> Inl s | Inr (r, s) \<Rightarrow> Inr (Some r, s))
                (truncate_pass ctl cutoff [0 ..< nslots ctl] s))"
  have "\<exists>x. iterate body s = Some x \<and> step_ok ctl s (snd x)
      \<and> (fst x = None \<longleftrightarrow> PagePrecedes ctl (latest_page_number s) cutoff)
      \<and> (fst x = Some (Inr ()) \<longrightarrow> ?gone (snd x))"
  proof (rule iterate_total [where m = "work ctl" and I = "\<lambda>t. slru_wf ctl t \<and> step_ok ctl s t"])
    fix t assume t: "slru_wf ctl t \<and> step_ok ctl s t"
    then have latest: "latest_page_number t = latest_page_number s"
      by (simp add: step_ok_def)
    have "set [0 ..< nslots ctl] = {..< nslots ctl}"
      by auto
    with t truncate_pass_ok [of ctl t "[0 ..< nslots ctl]" cutoff] step_ok_trans [of ctl s t]
    show "(\<exists>s'. body t = Some (Inl s') \<and> (slru_wf ctl s' \<and> step_ok ctl s s') \<and> work ctl s' < work ctl t)
      \<or> (\<exists>x. body t = Some (Inr x) \<and> step_ok ctl s (snd x)
          \<and> (fst x = None \<longleftrightarrow> PagePrecedes ctl (latest_page_number s) cutoff)
          \<and> (fst x = Some (Inr ()) \<longrightarrow> ?gone (snd x)))"
      unfolding body_def latest
      by (cases "PagePrecedes ctl (latest_page_number s) cutoff") (fastforce simp: step_ok_def)+
  qed (use wf in simp)
  then obtain stop t where loop: "iterate body s = Some (stop, t)" "step_ok ctl s t"
    "stop = None \<longleftrightarrow> PagePrecedes ctl (latest_page_number s) cutoff" "stop = Some (Inr ()) \<Longrightarrow> ?gone t"
    by auto
  have t: "slru_wf ctl t" "\<And>q c. content s q c \<Longrightarrow> content t q c"
    using loop(2) wf by (simp_all add: step_ok_def)
  have run: "SimpleLruTruncate ctl names cutoff s = Some (case stop of None \<Rightarrow> (Inr (), t)
         | Some r \<Rightarrow> tryS r t (\<lambda>_. delete_cutoff ctl cutoff names t))"
    using loop(1) unfolding SimpleLruTruncate_def body_def by simp
  consider "stop = None" | e where "stop = Some (Inl e)" | "stop = Some (Inr ())"
    by (cases stop) (auto elim: sum.exhaust)
  then show ?thesis
  proof cases
    case 3
    obtain r s' where del: "delete_cutoff ctl cutoff names t = (r, s')"
      by fastforce
    with delete_cutoff_ok [OF t(1) loop(4) [OF 3] convex del] 3 run t(2) loop(3) show ?thesis
      by auto
  qed (use run t loop(3) in auto)
qed



subsection \<open>The page cache as an interface\<close>

text \<open>
  What the logs rely on: fetching a page returns, keeps the state sound and the
  pages' contents, and on success gives a slot that holds the page; storing new bytes in a held
  slot changes that page only.
\<close>

locale page_cache =
  fixes ok :: "'s \<Rightarrow> bool"
    and view :: "'s \<Rightarrow> int \<Rightarrow> page \<Rightarrow> bool"
    and held :: "'s \<Rightarrow> nat \<Rightarrow> int \<Rightarrow> bool"
    and buf :: "'s \<Rightarrow> nat \<Rightarrow> page"
    and stored :: "nat \<Rightarrow> page \<Rightarrow> 's \<Rightarrow> 's \<Rightarrow> bool"
    and fetch :: "int \<Rightarrow> 's \<Rightarrow> (nat res \<times> 's) option"
  assumes fetch_ok: "ok s \<Longrightarrow> \<exists>r s'. fetch p s = Some (r, s') \<and> ok s'
      \<and> (\<forall>q c. view s q c \<longrightarrow> view s' q c) \<and> (\<forall>i. r = Inr i \<longrightarrow> held s' i p)"
    and held_view: "ok s \<Longrightarrow> held s i p \<Longrightarrow> view s p c \<longleftrightarrow> c = buf s i"
    and stored_ok: "ok s \<Longrightarrow> held s i p \<Longrightarrow> stored i b s s' \<Longrightarrow> ok s'"
    and stored_view: "ok s \<Longrightarrow> held s i p \<Longrightarrow> stored i b s s'
      \<Longrightarrow> view s' q c \<longleftrightarrow> (if q = p then c = b else view s q c)"
begin

lemma fetch_cases:
  assumes "ok s"
  obtains (error) e s' where "fetch p s = Some (Inl e, s')" and "ok s'" and "\<And>q c. view s q c \<Longrightarrow> view s' q c"
  | (slot) i s' where "fetch p s = Some (Inr i, s')" and "ok s'" and "\<And>q c. view s q c \<Longrightarrow> view s' q c"
      and "held s' i p" and "\<And>c. view s p c \<Longrightarrow> buf s' i = c"
proof -
  obtain r s' where r: "fetch p s = Some (r, s')" "ok s'" "\<And>q c. view s q c \<Longrightarrow> view s' q c"
    "\<And>i. r = Inr i \<Longrightarrow> held s' i p"
    using fetch_ok [OF assms] by blast
  show ?thesis
  proof (cases r)
    case (Inl e)
    with r error show ?thesis by blast
  next
    case (Inr i)
    with r slot held_view [OF r(2)] show ?thesis by metis
  qed
qed

lemma modify_ok:
  assumes "ok s" and g: "\<And>i t. ok t \<Longrightarrow> held t i p \<Longrightarrow> stored i (f (buf t i)) t (g i t)"
  shows "\<exists>r s'. bindP (fetch p s) (\<lambda>i t. Some (Inr a, g i t)) = Some (r, s') \<and> ok s'
    \<and> (\<forall>q c. view s q c \<longrightarrow> view s' q (if q = p \<and> r = Inr a then f c else c))"
proof (cases rule: fetch_cases [OF assms(1), of p, case_names error slot])
  case (slot i t)
  note st = g [OF slot(2,4)]
  show ?thesis
    using slot stored_ok [OF slot(2,4) st] stored_view [OF slot(2,4) st]
    by (intro exI [of _ "Inr a"] exI [of _ "g i t"]) auto
qed auto

end

definition slru_ok :: "slru_ctl \<Rightarrow> slru \<Rightarrow> bool" where
  "slru_ok ctl s \<longleftrightarrow> slru_wf ctl s \<and> \<not> in_recovery ctl"

definition slru_stored :: "nat \<Rightarrow> page \<Rightarrow> slru \<Rightarrow> slru \<Rightarrow> bool" where
  "slru_stored i b s s' \<longleftrightarrow>
     same_pages (store_page i b s) s' \<or> same_pages s s' \<and> b = page_buffer s ! i"

lemma slru_stored_ok:
  assumes ok: "slru_ok ctl s" and i: "cached s i p" and st: "slru_stored i b s s'"
  shows "slru_ok ctl s'" and "content s' q c \<longleftrightarrow> (if q = p then c = b else content s q c)"
proof -
  have wf: "slru_wf ctl s" and live: "\<not> in_recovery ctl"
    using ok by (simp_all add: slru_ok_def)
  from st consider "same_pages (store_page i b s) s'" | "same_pages s s'" "b = page_buffer s ! i"
    by (auto simp: slru_stored_def)
  then have "slru_wf ctl s' \<and> (content s' q c \<longleftrightarrow> (if q = p then c = b else content s q c))"
  proof cases
    case 1
    then show ?thesis
      using same_pages_wf [OF 1, of ctl] same_pages_content [OF 1] store_page_ok [OF wf i] by simp
  next
    case 2
    then show ?thesis
      using same_pages_wf [OF 2(1), of ctl] same_pages_content [OF 2(1)] cached_content [OF wf i] wf by simp
  qed
  with live show "slru_ok ctl s'" and "content s' q c \<longleftrightarrow> (if q = p then c = b else content s q c)"
    by (simp_all add: slru_ok_def)
qed

interpretation rw: page_cache "slru_ok ctl" content cached "\<lambda>s i. page_buffer s ! i" slru_stored
  "\<lambda>p. SimpleLruReadPage ctl p w xid" for ctl w xid
proof (unfold_locales, goal_cases)
  case (1 s p)
  then show ?case
    using SimpleLruReadPage_ok [of ctl s p w xid] by (metis slru_ok_def step_ok_def read_ok_def)
qed (use cached_content slru_stored_ok in \<open>auto simp: slru_ok_def\<close>)

interpretation ro: page_cache "slru_ok ctl" content cached "\<lambda>s i. page_buffer s ! i" slru_stored
  "\<lambda>p. SimpleLruReadPage_ReadOnly ctl p xid" for ctl xid
proof (unfold_locales, goal_cases)
  case (1 s p)
  then show ?case
    using ReadOnly_ok [of ctl s p xid] by (metis slru_ok_def step_ok_def read_ok_def)
qed (use cached_content slru_stored_ok in \<open>auto simp: slru_ok_def\<close>)

end
