(* ===== verification/Clog.thy ===== *)
theory Clog
  imports SlruOps
begin

unbundle bit_operations_syntax

section \<open>The commit log\<close>

text \<open>
  \<^verbatim>\<open>crates/backend/access/transam/clog/src/lib.rs\<close>: two status bits for each transaction id, packed into the
  pages of an SLRU pool, with the write-ahead-log position of asynchronous commits. The
  choices of the lock scheduler are the record \<open>clog_locks\<close>; of the group update the leader's part is
  modelled (the loop is \<open>group_update\<close>), a follower's wait is not. Calls into the transaction manager and the
  write-ahead log are the fields of \<open>clog_calls\<close>. The correctness statements use the view
  \<open>clog_status\<close>.
\<close>

definition CLOG_BITS_PER_XACT :: nat where "CLOG_BITS_PER_XACT = 2"
definition CLOG_XACTS_PER_BYTE :: u32 where "CLOG_XACTS_PER_BYTE = 4"
definition CLOG_XACTS_PER_PAGE :: u32 where "CLOG_XACTS_PER_PAGE = 32768"
definition CLOG_XACT_BITMASK :: u32 where "CLOG_XACT_BITMASK = 3"
definition CLOG_XACTS_PER_LSN_GROUP :: u32 where "CLOG_XACTS_PER_LSN_GROUP = 32"
definition CLOG_LSNS_PER_PAGE :: nat where "CLOG_LSNS_PER_PAGE = 1024"
definition CLOG_ZEROPAGE :: u8 where "CLOG_ZEROPAGE = 0x00"
definition CLOG_TRUNCATE :: u8 where "CLOG_TRUNCATE = 0x10"
definition XLR_INFO_MASK :: u8 where "XLR_INFO_MASK = 0x0F"

definition TransactionIdToPage :: "TransactionId \<Rightarrow> int" where
  "TransactionIdToPage xid = uint xid div uint CLOG_XACTS_PER_PAGE"

definition TransactionIdToPgIndex :: "TransactionId \<Rightarrow> u32" where
  "TransactionIdToPgIndex xid = xid mod CLOG_XACTS_PER_PAGE"

definition TransactionIdToByte :: "TransactionId \<Rightarrow> nat" where
  "TransactionIdToByte xid = unat (TransactionIdToPgIndex xid div CLOG_XACTS_PER_BYTE)"

definition TransactionIdToBIndex :: "TransactionId \<Rightarrow> u32" where
  "TransactionIdToBIndex xid = xid mod CLOG_XACTS_PER_BYTE"

definition GetLSNIndex :: "nat \<Rightarrow> TransactionId \<Rightarrow> nat" where
  "GetLSNIndex slotno xid =
     slotno * CLOG_LSNS_PER_PAGE + unat ((xid mod CLOG_XACTS_PER_PAGE) div CLOG_XACTS_PER_LSN_GROUP)"

definition clog_bshift :: "TransactionId \<Rightarrow> nat" where
  "clog_bshift xid = unat (TransactionIdToBIndex xid) * CLOG_BITS_PER_XACT"

definition clog_get :: "page \<Rightarrow> TransactionId \<Rightarrow> XidStatus" where
  "clog_get buffer xid =
     drop_bit (clog_bshift xid) (ucast (buffer ! TransactionIdToByte xid)) AND CLOG_XACT_BITMASK"

definition clog_put :: "TransactionId \<Rightarrow> XidStatus \<Rightarrow> page \<Rightarrow> page" where
  "clog_put xid status buffer =
     (let byteno = TransactionIdToByte xid; bshift = clog_bshift xid;
          byteval = ucast (buffer ! byteno) :: u32;
          byteval = byteval AND NOT (push_bit bshift (push_bit CLOG_BITS_PER_XACT 1 - 1));
          byteval = byteval OR push_bit bshift status
      in buffer[byteno := ucast byteval])"

definition TransactionIdSetStatusBit ::
  "slru_ctl \<Rightarrow> TransactionId \<Rightarrow> XidStatus \<Rightarrow> XLogRecPtr \<Rightarrow> nat \<Rightarrow> slru \<Rightarrow> slru" where
  "TransactionIdSetStatusBit ctl xid status lsn slotno s =
    (let curval = clog_get (page_buffer s ! slotno) xid in
     if in_recovery ctl \<and> status = TRANSACTION_STATUS_SUB_COMMITTED \<and> curval = TRANSACTION_STATUS_COMMITTED
     then s
     else
       (let s = set_page_buffer slotno (clog_put xid status (page_buffer s ! slotno)) s in
        if lsn \<noteq> InvalidXLogRecPtr then
          (let lsnindex = GetLSNIndex slotno xid in
           if group_lsn s ! lsnindex < lsn then set_group_lsn lsnindex lsn s else s)
        else s))"

fun set_status_bits ::
  "slru_ctl \<Rightarrow> TransactionId list \<Rightarrow> XidStatus \<Rightarrow> XLogRecPtr \<Rightarrow> nat \<Rightarrow> slru \<Rightarrow> slru" where
  "set_status_bits ctl [] status lsn slotno s = s"
| "set_status_bits ctl (sub # subs) status lsn slotno s =
     set_status_bits ctl subs status lsn slotno (TransactionIdSetStatusBit ctl sub status lsn slotno s)"

definition set_tree_bits ::
  "slru_ctl \<Rightarrow> TransactionId \<Rightarrow> TransactionId list \<Rightarrow> XidStatus \<Rightarrow> XLogRecPtr \<Rightarrow> nat \<Rightarrow> slru \<Rightarrow> slru" where
  "set_tree_bits ctl xid subxids status lsn slotno s =
    (let s = (if TransactionIdIsValid xid then
                (let s = (if status = TRANSACTION_STATUS_COMMITTED
                          then set_status_bits ctl subxids TRANSACTION_STATUS_SUB_COMMITTED lsn slotno s
                          else s)
                 in TransactionIdSetStatusBit ctl xid status lsn slotno s)
              else s)
     in set_status_bits ctl subxids status lsn slotno s)"

definition TransactionIdSetPageStatusInternal ::
  "slru_ctl \<Rightarrow> TransactionId \<Rightarrow> TransactionId list \<Rightarrow> XidStatus \<Rightarrow> XLogRecPtr \<Rightarrow> int \<Rightarrow> slru
    \<Rightarrow> (unit res \<times> slru) option" where
  "TransactionIdSetPageStatusInternal ctl xid subxids status lsn pageno s =
     bindP (SimpleLruReadPage ctl pageno (lsn = InvalidXLogRecPtr) xid s) (\<lambda>slotno s.
       Some (Inr (), mark_page_dirty slotno (set_tree_bits ctl xid subxids status lsn slotno s)))"

text \<open>The requests a group leader finds in the list it detached, in its order.\<close>

record clog_request =
  req_xid :: TransactionId
  req_subxids :: "TransactionId list"
  req_status :: XidStatus
  req_lsn :: XLogRecPtr
  req_page :: int

fun group_update :: "slru_ctl \<Rightarrow> clog_request list \<Rightarrow> slru \<Rightarrow> (unit res \<times> slru) option" where
  "group_update ctl [] s = Some (Inr (), s)"
| "group_update ctl (r # rs) s =
     bindP (TransactionIdSetPageStatusInternal ctl (req_xid r) (req_subxids r) (req_status r) (req_lsn r)
              (req_page r) s) (\<lambda>_ s. group_update ctl rs s)"

text \<open>
  What the scheduler decides: whether the backend's own entry carries exactly this xid and these children,
  whether the bank lock is free at once, and, if not, whether the backend may open a
  group, with the requests that join behind it before it gets the lock.
\<close>

record clog_locks =
  cl_my_proc_matches :: "TransactionId \<Rightarrow> TransactionId list \<Rightarrow> bool"
  cl_free :: bool
  cl_group :: "clog_request list option"

definition THRESHOLD_SUBTRANS_CLOG_OPT :: nat where "THRESHOLD_SUBTRANS_CLOG_OPT = 5"

definition TransactionGroupUpdateXidStatus ::
  "slru_ctl \<Rightarrow> clog_locks \<Rightarrow> clog_request \<Rightarrow> slru \<Rightarrow> (bool res \<times> slru) option" where
  "TransactionGroupUpdateXidStatus ctl L req s =
    (case cl_group L of
       None \<Rightarrow> Some (Inr False, s)
     | Some joined \<Rightarrow> bindP (group_update ctl (joined @ [req]) s) (\<lambda>_ s. Some (Inr True, s)))"

definition TransactionIdSetPageStatus ::
  "slru_ctl \<Rightarrow> clog_locks \<Rightarrow> TransactionId \<Rightarrow> TransactionId list \<Rightarrow> XidStatus \<Rightarrow> XLogRecPtr \<Rightarrow> int \<Rightarrow> bool
    \<Rightarrow> slru \<Rightarrow> (unit res \<times> slru) option" where
  "TransactionIdSetPageStatus ctl L xid subxids status lsn pageno all_xact_same_page s =
    (let direct = TransactionIdSetPageStatusInternal ctl xid subxids status lsn pageno in
     if all_xact_same_page \<and> length subxids \<le> THRESHOLD_SUBTRANS_CLOG_OPT
        \<and> cl_my_proc_matches L xid subxids then
       (if cl_free L then direct s
        else bindP (TransactionGroupUpdateXidStatus ctl L
               \<lparr> req_xid = xid, req_subxids = subxids, req_status = status, req_lsn = lsn, req_page = pageno \<rparr> s)
          (\<lambda>updated s. if updated then Some (Inr (), s) else direct s))
     else direct s)"

function set_pages_loop ::
  "slru_ctl \<Rightarrow> clog_locks \<Rightarrow> TransactionId list \<Rightarrow> XidStatus \<Rightarrow> XLogRecPtr \<Rightarrow> slru \<Rightarrow> (unit res \<times> slru) option" where
  "set_pages_loop ctl L [] status lsn s = Some (Inr (), s)"
| "set_pages_loop ctl L (x # xs) status lsn s =
    (let pageno = TransactionIdToPage x; on_page = (\<lambda>y. TransactionIdToPage y = pageno) in
     bindP (TransactionIdSetPageStatus ctl L InvalidTransactionId (takeWhile on_page (x # xs)) status lsn pageno False s)
       (\<lambda>_ s. set_pages_loop ctl L (dropWhile on_page xs) status lsn s))"
  by pat_completeness auto
termination
  by (relation "measure (\<lambda>(_, _, xs, _). length xs)") (auto simp: le_imp_less_Suc length_dropWhile_le)

definition set_status_by_pages ::
  "slru_ctl \<Rightarrow> clog_locks \<Rightarrow> TransactionId list \<Rightarrow> XidStatus \<Rightarrow> XLogRecPtr \<Rightarrow> slru \<Rightarrow> (unit res \<times> slru) option" where
  "set_status_by_pages ctl L subxids status lsn s =
     (if subxids = [] then Some (Inl Panic, s) else set_pages_loop ctl L subxids status lsn s)"

definition TransactionIdSetTreeStatus ::
  "slru_ctl \<Rightarrow> clog_locks \<Rightarrow> TransactionId \<Rightarrow> TransactionId list \<Rightarrow> XidStatus \<Rightarrow> XLogRecPtr \<Rightarrow> slru
    \<Rightarrow> (unit res \<times> slru) option" where
  "TransactionIdSetTreeStatus ctl L xid subxids status lsn s =
    (let pageno = TransactionIdToPage xid;
         i = length (takeWhile (\<lambda>x. TransactionIdToPage x = pageno) subxids) in
     if i = length subxids then TransactionIdSetPageStatus ctl L xid subxids status lsn pageno True s
     else
       bindP (if status = TRANSACTION_STATUS_COMMITTED
              then set_status_by_pages ctl L (drop i subxids) TRANSACTION_STATUS_SUB_COMMITTED lsn s
              else Some (Inr (), s)) (\<lambda>_ s.
       bindP (TransactionIdSetPageStatus ctl L xid (take i subxids) status lsn pageno False s) (\<lambda>_ s.
       set_status_by_pages ctl L (drop i subxids) status lsn s)))"

definition TransactionIdGetStatus ::
  "slru_ctl \<Rightarrow> TransactionId \<Rightarrow> slru \<Rightarrow> ((XidStatus \<times> XLogRecPtr) res \<times> slru) option" where
  "TransactionIdGetStatus ctl xid s =
     bindP (SimpleLruReadPage_ReadOnly ctl (TransactionIdToPage xid) xid s) (\<lambda>slotno s.
       Some (Inr (clog_get (page_buffer s ! slotno) xid, group_lsn s ! GetLSNIndex slotno xid), s))"

subsection \<open>Start, extension, truncation, replay\<close>

record clog_calls =
  c_next_xid :: "TransactionId res"
  c_insert_zeropage :: "int \<Rightarrow> unit res"
  c_insert_truncate :: "int \<Rightarrow> TransactionId \<Rightarrow> u32 \<Rightarrow> XLogRecPtr res"
  c_flush :: "XLogRecPtr \<Rightarrow> unit res"
  c_advance_oldest :: "TransactionId \<Rightarrow> unit res"

definition CLOGShmemResetAfterCrash :: "slru_ctl \<Rightarrow> slru \<Rightarrow> slru" where
  "CLOGShmemResetAfterCrash ctl s = SimpleLruResetAfterCrash ctl s"

definition ZeroCLOGPage :: "slru_ctl \<Rightarrow> clog_calls \<Rightarrow> int \<Rightarrow> bool \<Rightarrow> slru \<Rightarrow> (nat res \<times> slru) option" where
  "ZeroCLOGPage ctl calls pageno writeXlog s =
     bindP (SimpleLruZeroPage ctl pageno s) (\<lambda>slotno s.
       Some (tryS (if writeXlog then c_insert_zeropage calls pageno else Inr ()) s (\<lambda>_. (Inr slotno, s))))"

definition zero_and_write :: "slru_ctl \<Rightarrow> clog_calls \<Rightarrow> int \<Rightarrow> slru \<Rightarrow> (unit res \<times> slru) option" where
  "zero_and_write ctl calls pageno s =
     bindP (ZeroCLOGPage ctl calls pageno False s) (\<lambda>slotno s. SimpleLruWritePage ctl slotno s)"

definition BootStrapCLOG :: "slru_ctl \<Rightarrow> clog_calls \<Rightarrow> slru \<Rightarrow> (unit res \<times> slru) option" where
  "BootStrapCLOG ctl calls s = zero_and_write ctl calls 0 s"

definition StartupCLOG :: "clog_calls \<Rightarrow> slru \<Rightarrow> unit res \<times> slru" where
  "StartupCLOG calls s =
     tryS (c_next_xid calls) s (\<lambda>xid. (Inr (), set_latest_page_number (TransactionIdToPage xid) s))"

definition trim_page :: "TransactionId \<Rightarrow> page \<Rightarrow> page" where
  "trim_page xid buffer =
     (let byteno = TransactionIdToByte xid; bshift = clog_bshift xid;
          buffer = buffer[byteno := buffer ! byteno AND ucast (push_bit bshift (1::u32) - 1)]
      in take (byteno + 1) buffer @ replicate (length buffer - (byteno + 1)) 0)"

definition TrimCLOG :: "slru_ctl \<Rightarrow> clog_calls \<Rightarrow> slru \<Rightarrow> (unit res \<times> slru) option" where
  "TrimCLOG ctl calls s =
    (case c_next_xid calls of
       Inl e \<Rightarrow> Some (Inl e, s)
     | Inr xid \<Rightarrow>
       if TransactionIdToPgIndex xid \<noteq> 0 then
         bindP (SimpleLruReadPage ctl (TransactionIdToPage xid) False xid s) (\<lambda>slotno s.
           Some (Inr (), mark_page_dirty slotno
             (set_page_buffer slotno (trim_page xid (page_buffer s ! slotno)) s)))
       else Some (Inr (), s))"

definition CheckPointCLOG :: "slru_ctl \<Rightarrow> unit res \<Rightarrow> slru \<Rightarrow> (unit res \<times> slru) option" where
  "CheckPointCLOG ctl fsync_dir s = SimpleLruWriteAll ctl fsync_dir s"

definition ExtendCLOG :: "slru_ctl \<Rightarrow> clog_calls \<Rightarrow> TransactionId \<Rightarrow> slru \<Rightarrow> (unit res \<times> slru) option" where
  "ExtendCLOG ctl calls newestXact s =
    (if TransactionIdToPgIndex newestXact \<noteq> 0
        \<and> \<not> TransactionIdEquals newestXact FirstNormalTransactionId
     then Some (Inr (), s)
     else bindP (ZeroCLOGPage ctl calls (TransactionIdToPage newestXact) True s) (\<lambda>_ s. Some (Inr (), s)))"

definition WriteTruncateXlogRec :: "clog_calls \<Rightarrow> int \<Rightarrow> TransactionId \<Rightarrow> u32 \<Rightarrow> unit res" where
  "WriteTruncateXlogRec calls pageno oldestXact oldestXactDb =
     bindR (c_insert_truncate calls pageno oldestXact oldestXactDb) (\<lambda>recptr. c_flush calls recptr)"

definition TruncateCLOG ::
  "slru_ctl \<Rightarrow> clog_calls \<Rightarrow> int list \<Rightarrow> TransactionId \<Rightarrow> u32 \<Rightarrow> slru \<Rightarrow> (unit res \<times> slru) option" where
  "TruncateCLOG ctl calls names oldestXact oldestxid_datoid s =
    (let cutoffPage = TransactionIdToPage oldestXact in
     if \<not> list_ex (\<lambda>segno. SlruMayDeleteSegment ctl (segno * SLRU_PAGES_PER_SEGMENT) cutoffPage) names
     then Some (Inr (), s)
     else case c_advance_oldest calls oldestXact of
         Inl e \<Rightarrow> Some (Inl e, s)
       | Inr _ \<Rightarrow>
         (case WriteTruncateXlogRec calls cutoffPage oldestXact oldestxid_datoid of
            Inl e \<Rightarrow> Some (Inl e, s)
          | Inr _ \<Rightarrow> SimpleLruTruncate ctl names cutoffPage s))"

definition CLOGPagePrecedes :: "int \<Rightarrow> int \<Rightarrow> bool" where
  "CLOGPagePrecedes page1 page2 \<longleftrightarrow>
     (let xid1 = word_of_int page1 * CLOG_XACTS_PER_PAGE + (FirstNormalTransactionId + 1);
          xid2 = word_of_int page2 * CLOG_XACTS_PER_PAGE + (FirstNormalTransactionId + 1)
      in TransactionIdPrecedes xid1 xid2
         \<and> TransactionIdPrecedes xid1 (xid2 + (CLOG_XACTS_PER_PAGE - 1)))"

text \<open>A replayed record, decoded: the info byte, the page and the oldest transaction id.\<close>

definition clog_redo ::
  "slru_ctl \<Rightarrow> clog_calls \<Rightarrow> int list \<Rightarrow> u8 \<Rightarrow> int \<Rightarrow> TransactionId \<Rightarrow> slru \<Rightarrow> (unit res \<times> slru) option" where
  "clog_redo ctl calls names xl_info pageno oldest_xact s =
    (let info = xl_info AND NOT XLR_INFO_MASK in
     if info = CLOG_ZEROPAGE then zero_and_write ctl calls pageno s
     else if info = CLOG_TRUNCATE then
       (case c_advance_oldest calls oldest_xact of
          Inl e \<Rightarrow> Some (Inl e, s)
        | Inr _ \<Rightarrow> SimpleLruTruncate ctl names pageno s)
     else Some (Inl Panic, s))"

subsection \<open>Addresses and bits\<close>

lemma clog_addr:
  "TransactionIdToPage xid = int (unat xid div 32768)"
  "TransactionIdToByte xid = unat xid mod 32768 div 4"
  "clog_bshift xid = 2 * (unat xid mod 4)"
  by (simp_all add: TransactionIdToPage_def TransactionIdToByte_def TransactionIdToPgIndex_def
      TransactionIdToBIndex_def CLOG_XACTS_PER_PAGE_def CLOG_XACTS_PER_BYTE_def clog_bshift_def
      CLOG_BITS_PER_XACT_def unat_mod_distrib unat_div_distrib zdiv_int)

lemma clog_split: "m = m div 32768 * 32768 + (m mod 32768 div 4 * 4 + m mod 4)" for m :: nat
proof -
  have "m mod 4 = m mod 32768 mod 4"
    by (simp add: mod_mod_cancel)
  then show ?thesis
    by (simp only: div_mult_mod_eq)
qed

lemma clog_addr_inj:
  assumes "TransactionIdToPage x = TransactionIdToPage y"
    and "TransactionIdToByte x = TransactionIdToByte y" and "clog_bshift x = clog_bshift y"
  shows "x = y"
proof -
  have "unat x = unat y"
    using assms clog_split [of "unat x"] clog_split [of "unat y"] unfolding clog_addr by simp
  then show ?thesis by (simp add: word_unat_eq_iff)
qed

lemma clog_byte_bound: "TransactionIdToByte xid < BLCKSZ"
  by (simp add: clog_addr BLCKSZ_def)

lemma status_bits_byte:
  fixes b :: u8 and st :: u32
  assumes "i < 4" and "j < 4" and "st AND 3 = st"
  shows "drop_bit (2 * i) (ucast (ucast (ucast b AND NOT (push_bit (2 * j) 3) OR push_bit (2 * j) st :: u32) :: u8)) AND 3
    = (if i = j then st else drop_bit (2 * i) (ucast b) AND 3)"
proof -
  have three: "(3 :: u32) = mask 2"
    by (simp add: mask_eq_exp_minus_1)
  have st: "bit st n \<Longrightarrow> n < 2" for n
    using assms(3) by (metis three bit_and_iff bit_mask_iff)
  show ?thesis
    unfolding three
    by (rule bit_word_eqI)
      (use assms(1,2) st in \<open>auto simp: bit_simps not_less dest: st\<close>)
qed

lemma clog_put_length [simp]: "length (clog_put xid st c) = length c"
  by (simp add: clog_put_def Let_def)

lemma clog_get_put:
  assumes "length c = BLCKSZ" and "TransactionIdToPage x = TransactionIdToPage xid" and "st AND 3 = st"
  shows "clog_get (clog_put xid st c) x = (if x = xid then st else clog_get c x)"
proof (cases "TransactionIdToByte x = TransactionIdToByte xid")
  case False
  then show ?thesis
    by (auto simp: clog_get_def clog_put_def Let_def)
next
  case True
  have idx: "x = xid \<longleftrightarrow> unat x mod 4 = unat xid mod 4"
    using clog_addr_inj [OF assms(2) True] by (auto simp: clog_addr(3))
  show ?thesis
    using True clog_byte_bound [of xid] assms(1) status_bits_byte [of "unat x mod 4" "unat xid mod 4" st "c ! TransactionIdToByte xid"] assms(3)
    by (simp add: clog_get_def clog_put_def Let_def clog_addr(3) CLOG_BITS_PER_XACT_def CLOG_XACT_BITMASK_def idx)
qed

text \<open>The status a transaction id has in the log, and its ids as a group on one page.\<close>

definition clog_status :: "slru \<Rightarrow> TransactionId \<Rightarrow> XidStatus \<Rightarrow> bool" where
  "clog_status s xid st \<longleftrightarrow>
     (\<exists>c. content s (TransactionIdToPage xid) c \<and> length c = BLCKSZ \<and> clog_get c xid = st)"

definition is_status :: "XidStatus \<Rightarrow> bool" where
  "is_status st \<longleftrightarrow> st AND 3 = st"

lemma is_status_consts:
  "is_status TRANSACTION_STATUS_COMMITTED" "is_status TRANSACTION_STATUS_ABORTED"
  "is_status TRANSACTION_STATUS_SUB_COMMITTED" "is_status TRANSACTION_STATUS_IN_PROGRESS"
  by (simp_all add: is_status_def TRANSACTION_STATUS_COMMITTED_def TRANSACTION_STATUS_ABORTED_def
      TRANSACTION_STATUS_SUB_COMMITTED_def TRANSACTION_STATUS_IN_PROGRESS_def)

lemma status_distinct [simp]:
  "TRANSACTION_STATUS_SUB_COMMITTED \<noteq> TRANSACTION_STATUS_COMMITTED"
  "TRANSACTION_STATUS_ABORTED \<noteq> TRANSACTION_STATUS_COMMITTED"
  "TRANSACTION_STATUS_IN_PROGRESS \<noteq> TRANSACTION_STATUS_COMMITTED"
  by (simp_all add: TRANSACTION_STATUS_COMMITTED_def TRANSACTION_STATUS_ABORTED_def
      TRANSACTION_STATUS_SUB_COMMITTED_def TRANSACTION_STATUS_IN_PROGRESS_def)

subsection \<open>Setting the bits of one page\<close>

fun puts :: "TransactionId list \<Rightarrow> XidStatus \<Rightarrow> page \<Rightarrow> page" where
  "puts [] st c = c"
| "puts (x # xs) st c = puts xs st (clog_put x st c)"

definition tree_puts :: "TransactionId \<Rightarrow> TransactionId list \<Rightarrow> XidStatus \<Rightarrow> page \<Rightarrow> page" where
  "tree_puts xid subs st c =
     puts subs st
       (if TransactionIdIsValid xid
        then clog_put xid st (if st = TRANSACTION_STATUS_COMMITTED then puts subs TRANSACTION_STATUS_SUB_COMMITTED c else c)
        else c)"

lemma puts_length [simp]: "length (puts xs st c) = length c"
  by (induction xs arbitrary: c) simp_all

lemma puts_get:
  assumes "length c = BLCKSZ" and "is_status st" and "\<forall>y \<in> set xs. TransactionIdToPage y = p"
    and "TransactionIdToPage x = p"
  shows "clog_get (puts xs st c) x = (if x \<in> set xs then st else clog_get c x)"
  using assms(1,3)
proof (induction xs arbitrary: c)
  case (Cons y xs)
  then have "clog_get (clog_put y st c) x = (if x = y then st else clog_get c x)"
    using assms(2,4) by (intro clog_get_put) (simp_all add: is_status_def)
  with Cons show ?case by auto
qed simp

lemma tree_puts_length [simp]: "length (tree_puts xid subs st c) = length c"
  by (simp add: tree_puts_def)

lemma tree_puts_get:
  assumes c: "length c = BLCKSZ" and st: "is_status st"
    and subs: "\<forall>y \<in> set subs. TransactionIdToPage y = p" and x: "TransactionIdToPage x = p"
    and xid: "TransactionIdIsValid xid \<longrightarrow> TransactionIdToPage xid = p"
  shows "clog_get (tree_puts xid subs st c) x =
    (if x \<in> set subs \<or> TransactionIdIsValid xid \<and> x = xid then st else clog_get c x)"
proof -
  let ?sub = "if st = TRANSACTION_STATUS_COMMITTED then puts subs TRANSACTION_STATUS_SUB_COMMITTED c else c"
  have sub: "length ?sub = BLCKSZ" "x \<notin> set subs \<Longrightarrow> clog_get ?sub x = clog_get c x"
    using c puts_get [OF c is_status_consts(3) subs x] by simp_all
  let ?top = "if TransactionIdIsValid xid then clog_put xid st ?sub else c"
  have top: "length ?top = BLCKSZ"
    "x \<notin> set subs \<Longrightarrow> clog_get ?top x = (if TransactionIdIsValid xid \<and> x = xid then st else clog_get c x)"
    using c sub clog_get_put [OF sub(1), of x xid st] st x xid by (auto simp: is_status_def)
  show ?thesis
    unfolding tree_puts_def puts_get [OF top(1) st subs x] using top(2) by (cases "x \<in> set subs") presburger+
qed

text \<open>What setting bits does to the pool: the bytes of one slot, and group positions.\<close>

definition rebuffered :: "nat \<Rightarrow> (page \<Rightarrow> page) \<Rightarrow> slru \<Rightarrow> slru \<Rightarrow> bool" where
  "rebuffered i f s s' \<longleftrightarrow> same_pages (set_page_buffer i (f (page_buffer s ! i)) s) s'"

lemma rebuffered_trans:
  assumes "rebuffered i f s t" and "rebuffered i g t u" and "i < length (page_buffer s)"
  shows "rebuffered i (g \<circ> f) s u"
  using assms by (auto simp: rebuffered_def same_pages_def set_page_buffer_def)

lemma rebuffered_refl: "rebuffered i (\<lambda>c. c) s s"
  by (simp add: rebuffered_def same_pages_def set_page_buffer_def)

lemma rebuffered_length: "rebuffered i f s t \<Longrightarrow> length (page_buffer t) = length (page_buffer s)"
  by (simp add: rebuffered_def same_pages_def set_page_buffer_def)

lemma SetStatusBit_rebuffered:
  "\<not> in_recovery ctl \<Longrightarrow> rebuffered i (clog_put x st) s (TransactionIdSetStatusBit ctl x st lsn i s)"
  by (auto simp: rebuffered_def TransactionIdSetStatusBit_def Let_def same_pages_def set_group_lsn_def
      set_page_buffer_def)

lemma set_status_bits_rebuffered:
  assumes "\<not> in_recovery ctl" and "i < length (page_buffer s)"
  shows "rebuffered i (puts xs st) s (set_status_bits ctl xs st lsn i s)"
  using assms(2)
proof (induction xs arbitrary: s)
  case Nil
  then show ?case by (simp add: rebuffered_def same_pages_def set_page_buffer_def)
next
  case (Cons x xs)
  let ?t = "TransactionIdSetStatusBit ctl x st lsn i s"
  have t: "rebuffered i (clog_put x st) s ?t"
    by (rule SetStatusBit_rebuffered [OF assms(1)])
  then have "rebuffered i (puts xs st) ?t (set_status_bits ctl xs st lsn i ?t)"
    using Cons by (simp add: rebuffered_length [OF t])
  from rebuffered_trans [OF t this Cons.prems] show ?case
    by (simp add: comp_def)
qed

lemma set_tree_bits_rebuffered:
  assumes "\<not> in_recovery ctl" and i: "i < length (page_buffer s)"
  shows "rebuffered i (tree_puts xid subs st) s (set_tree_bits ctl xid subs st lsn i s)"
proof -
  note bits = set_status_bits_rebuffered [OF assms(1)]
  let ?sub = "if st = TRANSACTION_STATUS_COMMITTED
      then set_status_bits ctl subs TRANSACTION_STATUS_SUB_COMMITTED lsn i s else s"
  have sub: "rebuffered i (if st = TRANSACTION_STATUS_COMMITTED then puts subs TRANSACTION_STATUS_SUB_COMMITTED else (\<lambda>c. c)) s ?sub"
    using bits [OF i] rebuffered_refl by simp
  let ?top = "if TransactionIdIsValid xid then TransactionIdSetStatusBit ctl xid st lsn i ?sub else s"
  have top: "rebuffered i (if TransactionIdIsValid xid
      then clog_put xid st \<circ> (if st = TRANSACTION_STATUS_COMMITTED then puts subs TRANSACTION_STATUS_SUB_COMMITTED else (\<lambda>c. c))
      else (\<lambda>c. c)) s ?top"
    using rebuffered_trans [OF sub SetStatusBit_rebuffered [OF assms(1)] i] rebuffered_refl by simp
  have "set_tree_bits ctl xid subs st lsn i s = set_status_bits ctl subs st lsn i ?top"
    by (simp add: set_tree_bits_def Let_def)
  moreover have "rebuffered i (puts subs st) ?top (set_status_bits ctl subs st lsn i ?top)"
    using bits rebuffered_length [OF top] i by simp
  moreover note rebuffered_trans [OF top this i]
  moreover have "puts subs st \<circ> (if TransactionIdIsValid xid
      then clog_put xid st \<circ> (if st = TRANSACTION_STATUS_COMMITTED then puts subs TRANSACTION_STATUS_SUB_COMMITTED else (\<lambda>c. c))
      else (\<lambda>c. c)) = tree_puts xid subs st"
    by (auto simp: tree_puts_def)
  ultimately show ?thesis
    by simp
qed

subsection \<open>Setting and reading statuses\<close>

lemma mark_dirty_stored:
  assumes "rebuffered i f s s'"
  shows "slru_stored i (f (page_buffer s ! i)) s (mark_page_dirty i s')"
  using assms
  by (simp add: slru_stored_def store_page_def rebuffered_def same_pages_def mark_page_dirty_def set_page_buffer_def)

text \<open>What an update may do: keep the pool sound and give each id in \<open>X\<close> the status \<open>st\<close> when it succeeds.\<close>

definition sets_status :: "slru_ctl \<Rightarrow> TransactionId set \<Rightarrow> XidStatus \<Rightarrow> slru \<Rightarrow> (unit res \<times> slru) option \<Rightarrow> bool" where
  "sets_status ctl X st s m \<longleftrightarrow>
     (\<exists>r s'. m = Some (r, s') \<and> slru_ok ctl s'
       \<and> (\<forall>x v. clog_status s x v \<longrightarrow> clog_status s' x v \<or> x \<in> X \<and> clog_status s' x st)
       \<and> (r = Inr () \<longrightarrow> (\<forall>x \<in> X. \<forall>v. clog_status s x v \<longrightarrow> clog_status s' x st)))"

lemma Internal_exact:
  assumes ok: "slru_ok ctl s" and st: "is_status st"
    and subs: "\<forall>y \<in> set subs. TransactionIdToPage y = p"
    and xid: "TransactionIdIsValid xid \<longrightarrow> TransactionIdToPage xid = p"
  shows "\<exists>r s'. TransactionIdSetPageStatusInternal ctl xid subs st lsn p s = Some (r, s') \<and> slru_ok ctl s'
    \<and> (\<forall>x v. clog_status s x v \<longrightarrow> clog_status s' x
         (if r = Inr () \<and> x \<in> set subs \<union> (if TransactionIdIsValid xid then {xid} else {}) then st else v))"
proof -
  let ?w = "lsn = InvalidXLogRecPtr" and ?X = "set subs \<union> (if TransactionIdIsValid xid then {xid} else {})"
  have live: "\<not> in_recovery ctl"
    using ok by (simp add: slru_ok_def)
  have "\<exists>r s'. TransactionIdSetPageStatusInternal ctl xid subs st lsn p s = Some (r, s') \<and> slru_ok ctl s'
      \<and> (\<forall>q c. content s q c \<longrightarrow> content s' q (if q = p \<and> r = Inr () then tree_puts xid subs st c else c))"
    unfolding TransactionIdSetPageStatusInternal_def
  proof (rule rw.modify_ok [OF ok])
    fix i t assume t: "slru_ok ctl t" "cached t i p"
    then have "i < length (page_buffer t)"
      by (auto simp: slru_ok_def slru_wf_def slru_shape_def cached_def)
    from set_tree_bits_rebuffered [OF live this]
    show "slru_stored i (tree_puts xid subs st (page_buffer t ! i)) t
        (mark_page_dirty i (set_tree_bits ctl xid subs st lsn i t))"
      by (rule mark_dirty_stored)
  qed
  then obtain r s' where run: "TransactionIdSetPageStatusInternal ctl xid subs st lsn p s = Some (r, s')"
    and s': "slru_ok ctl s'"
    and page: "\<And>q c. content s q c \<Longrightarrow> content s' q (if q = p \<and> r = Inr () then tree_puts xid subs st c else c)"
    by blast
  have get: "clog_status s' x (if r = Inr () \<and> x \<in> ?X then st else v)" if "clog_status s x v" for x v
  proof -
    obtain c where c: "content s (TransactionIdToPage x) c" "length c = BLCKSZ" "clog_get c x = v"
      using \<open>clog_status s x v\<close> by (auto simp: clog_status_def)
    show ?thesis
    proof (cases "TransactionIdToPage x = p \<and> r = Inr ()")
      case True
      then show ?thesis
        using page [OF c(1)] c tree_puts_get [OF c(2) st subs _ xid, of x]
        by (auto simp: clog_status_def)
    next
      case False
      then show ?thesis
        using page [OF c(1)] c subs xid by (auto simp: clog_status_def split: if_splits)
    qed
  qed
  show ?thesis
    using run s' get by blast
qed

lemma Internal_sets:
  assumes "slru_ok ctl s" and "is_status st"
    and "\<forall>y \<in> set subs. TransactionIdToPage y = p"
    and "TransactionIdIsValid xid \<longrightarrow> TransactionIdToPage xid = p"
  shows "sets_status ctl (set subs \<union> (if TransactionIdIsValid xid then {xid} else {})) st s
    (TransactionIdSetPageStatusInternal ctl xid subs st lsn p s)"
proof -
  let ?X = "set subs \<union> (if TransactionIdIsValid xid then {xid} else {})"
  obtain r s' where run: "TransactionIdSetPageStatusInternal ctl xid subs st lsn p s = Some (r, s')" "slru_ok ctl s'"
    and get: "\<And>x v. clog_status s x v \<Longrightarrow> clog_status s' x (if r = Inr () \<and> x \<in> ?X then st else v)"
    using Internal_exact [OF assms, of lsn] by blast
  show ?thesis
    unfolding sets_status_def
  proof (intro exI conjI allI impI ballI)
    show "TransactionIdSetPageStatusInternal ctl xid subs st lsn p s = Some (r, s')" "slru_ok ctl s'"
      by (fact run)+
    show "clog_status s' x v \<or> x \<in> ?X \<and> clog_status s' x st" if "clog_status s x v" for x v
      using get [OF that] by (auto split: if_splits)
    show "clog_status s' x st" if "r = Inr ()" "x \<in> ?X" "clog_status s x v" for x v
      using get [OF that(3)] that(1,2) by simp
  qed
qed

lemma sets_status_bind:
  assumes m: "sets_status ctl X st s m"
    and k: "\<And>t. slru_ok ctl t \<Longrightarrow> sets_status ctl Y st t (k t)"
  shows "sets_status ctl (X \<union> Y) st s (bindP m (\<lambda>_ t. k t))"
proof -
  obtain r t where t: "m = Some (r, t)" "slru_ok ctl t"
    "\<And>x v. clog_status s x v \<Longrightarrow> clog_status t x v \<or> x \<in> X \<and> clog_status t x st"
    "\<And>x v. r = Inr () \<Longrightarrow> x \<in> X \<Longrightarrow> clog_status s x v \<Longrightarrow> clog_status t x st"
    using m unfolding sets_status_def by blast
  show ?thesis
  proof (cases r)
    case (Inl e)
    with t(1) have "bindP m (\<lambda>_ t. k t) = Some (Inl e, t)"
      by simp
    with t(2,3) show ?thesis
      unfolding sets_status_def by blast
  next
    case (Inr u)
    obtain r' s' where s': "k t = Some (r', s')" "slru_ok ctl s'"
      "\<And>x v. clog_status t x v \<Longrightarrow> clog_status s' x v \<or> x \<in> Y \<and> clog_status s' x st"
      "\<And>x v. r' = Inr () \<Longrightarrow> x \<in> Y \<Longrightarrow> clog_status t x v \<Longrightarrow> clog_status s' x st"
      using k [OF t(2)] unfolding sets_status_def by blast
    have run: "bindP m (\<lambda>_ t. k t) = Some (r', s')"
      using t(1) Inr s'(1) by simp
    show ?thesis
      unfolding sets_status_def
    proof (intro exI conjI allI impI ballI)
      show "bindP m (\<lambda>_ t. k t) = Some (r', s')" by (rule run)
      show "slru_ok ctl s'" by (rule s'(2))
      show "clog_status s' x v \<or> x \<in> X \<union> Y \<and> clog_status s' x st" if "clog_status s x v" for x v
        using t(3) [OF that] s'(3) by blast
      show "clog_status s' x st" if "r' = Inr ()" "x \<in> X \<union> Y" "clog_status s x v" for x v
        using that t(3) [OF that(3)] t(4) [of x v] s'(3,4) Inr by auto
    qed
  qed
qed

lemma sets_status_skip: "slru_ok ctl s \<Longrightarrow> sets_status ctl {} st s (Some (Inr (), s))"
  by (simp add: sets_status_def)

lemma SetPageStatus_far:
  "TransactionIdSetPageStatus ctl L xid subs st lsn p False s = TransactionIdSetPageStatusInternal ctl xid subs st lsn p s"
  by (simp add: TransactionIdSetPageStatus_def)

lemma set_pages_sets:
  assumes "slru_ok ctl s" and "is_status st"
  shows "sets_status ctl (set xs) st s (set_pages_loop ctl L xs st lsn s)"
  using assms
proof (induction ctl L xs st lsn s rule: set_pages_loop.induct)
  case (1 ctl L st lsn s)
  then show ?case by (simp add: sets_status_skip)
next
  case (2 ctl L x xs st lsn s)
  let ?on = "\<lambda>y. TransactionIdToPage y = TransactionIdToPage x"
  have set: "set (takeWhile ?on (x # xs)) \<union> set (dropWhile ?on xs) = set (x # xs)"
    by (metis (mono_tags, lifting) dropWhile.simps(2) set_append takeWhile_dropWhile_id)
  have "sets_status ctl (set (takeWhile ?on (x # xs)) \<union> (if TransactionIdIsValid InvalidTransactionId then {InvalidTransactionId} else {})) st s
      (TransactionIdSetPageStatus ctl L InvalidTransactionId (takeWhile ?on (x # xs)) st lsn (TransactionIdToPage x) False s)"
    unfolding SetPageStatus_far
    by (rule Internal_sets) (use 2 in \<open>auto simp: TransactionIdIsValid_def dest: set_takeWhileD\<close>)
  then have first: "sets_status ctl (set (takeWhile ?on (x # xs))) st s
      (TransactionIdSetPageStatus ctl L InvalidTransactionId (takeWhile ?on (x # xs)) st lsn (TransactionIdToPage x) False s)"
    by (simp add: TransactionIdIsValid_def)
  have rest: "sets_status ctl (set (dropWhile ?on xs)) st t (set_pages_loop ctl L (dropWhile ?on xs) st lsn t)"
    if "slru_ok ctl t" for t
    using 2 that by blast
  from sets_status_bind [OF first rest] show ?case
    unfolding set by (simp add: Let_def)
qed

lemma clog_status_unique:
  "slru_ok ctl s \<Longrightarrow> clog_status s x v \<Longrightarrow> clog_status s x w \<Longrightarrow> v = w"
  using content_unique by (fastforce simp: clog_status_def slru_ok_def)

lemma GetStatus_ok:
  assumes "slru_ok ctl s"
  shows "\<exists>r s'. TransactionIdGetStatus ctl xid s = Some (r, s') \<and> slru_ok ctl s'
    \<and> (\<forall>x v. clog_status s x v \<longrightarrow> clog_status s' x v)
    \<and> (\<forall>v lsn st. r = Inr (v, lsn) \<longrightarrow> clog_status s xid st \<longrightarrow> v = st)"
proof (cases rule: ro.fetch_cases [OF assms, of "TransactionIdToPage xid" xid, case_names error slot])
  case (error e s')
  then have "clog_status s x v \<Longrightarrow> clog_status s' x v" for x v
    by (auto simp: clog_status_def)
  with error(1,2) show ?thesis
    by (simp add: TransactionIdGetStatus_def)
next
  case (slot i s')
  then have "clog_status s x v \<Longrightarrow> clog_status s' x v" for x v
    by (auto simp: clog_status_def)
  moreover have "clog_status s xid st \<Longrightarrow> clog_get (page_buffer s' ! i) xid = st" for st
    using slot(5) by (auto simp: clog_status_def)
  ultimately show ?thesis
    using slot(1,2) by (simp add: TransactionIdGetStatus_def)
qed

lemma sets_statusE:
  assumes "sets_status ctl X st s m"
  obtains r s' where "m = Some (r, s')" and "slru_ok ctl s'"
    and "\<And>x v. clog_status s x v \<Longrightarrow> clog_status s' x v \<or> x \<in> X \<and> clog_status s' x st"
    and "\<And>x v. r = Inr () \<Longrightarrow> x \<in> X \<Longrightarrow> clog_status s x v \<Longrightarrow> clog_status s' x st"
  using assms unfolding sets_status_def by blast

text \<open>
  The outcome of a tree update: other ids keep their status; on success all ids of the
  tree have the new one; and a tree that commits shows its parent committed only when every child is
  committed or sub-committed.
\<close>

definition tree_outcome ::
  "slru_ctl \<Rightarrow> TransactionId \<Rightarrow> TransactionId list \<Rightarrow> XidStatus \<Rightarrow> slru \<Rightarrow> (unit res \<times> slru) option \<Rightarrow> bool" where
  "tree_outcome ctl xid subs st s m \<longleftrightarrow>
     (\<exists>r s'. m = Some (r, s') \<and> slru_ok ctl s'
       \<and> (\<forall>x v. clog_status s x v \<longrightarrow> x \<notin> insert xid (set subs) \<longrightarrow> clog_status s' x v)
       \<and> (r = Inr () \<longrightarrow> (\<forall>x \<in> insert xid (set subs). \<forall>v. clog_status s x v \<longrightarrow> clog_status s' x st))
       \<and> (st = TRANSACTION_STATUS_COMMITTED \<longrightarrow> clog_status s' xid TRANSACTION_STATUS_COMMITTED
            \<longrightarrow> (\<forall>v. clog_status s xid v \<longrightarrow> v \<noteq> TRANSACTION_STATUS_COMMITTED)
            \<longrightarrow> (\<exists>v. clog_status s xid v)
            \<longrightarrow> (\<forall>x \<in> set subs. \<forall>v. clog_status s x v \<longrightarrow>
                  clog_status s' x TRANSACTION_STATUS_COMMITTED \<or> clog_status s' x TRANSACTION_STATUS_SUB_COMMITTED)))"

text \<open>No other backend joins the group: then the three ways to update a page agree.\<close>

definition quiet :: "clog_locks \<Rightarrow> bool" where
  "quiet L \<longleftrightarrow> (\<forall>joined. cl_group L = Some joined \<longrightarrow> joined = [])"

lemma SetPageStatus_quiet:
  assumes "quiet L" and "slru_ok ctl s" and "is_status st"
    and "\<forall>y \<in> set subs. TransactionIdToPage y = p" and "TransactionIdIsValid xid \<longrightarrow> TransactionIdToPage xid = p"
  shows "TransactionIdSetPageStatus ctl L xid subs st lsn p same s =
    TransactionIdSetPageStatusInternal ctl xid subs st lsn p s"
proof -
  obtain r s' where "TransactionIdSetPageStatusInternal ctl xid subs st lsn p s = Some (r, s')"
    using Internal_exact [OF assms(2-5), of lsn] by blast
  with assms(1) show ?thesis
    by (cases r) (auto simp: TransactionIdSetPageStatus_def TransactionGroupUpdateXidStatus_def Let_def quiet_def
        split: option.split)
qed

lemma tree_one_page:
  assumes quiet: "quiet L" and ok: "slru_ok ctl s" and st: "is_status st" and xid: "TransactionIdIsValid xid"
    and subs: "\<forall>y \<in> set subs. TransactionIdToPage y = TransactionIdToPage xid"
  shows "tree_outcome ctl xid subs st s (TransactionIdSetPageStatus ctl L xid subs st lsn (TransactionIdToPage xid) True s)"
proof -
  obtain r s' where run: "TransactionIdSetPageStatus ctl L xid subs st lsn (TransactionIdToPage xid) True s = Some (r, s')"
    "slru_ok ctl s'"
    and get: "\<And>x v. clog_status s x v \<Longrightarrow> clog_status s' x (if r = Inr () \<and> x \<in> insert xid (set subs) then st else v)"
    using Internal_exact [OF ok st subs, of xid lsn] xid SetPageStatus_quiet [OF quiet ok st subs, of xid lsn True] by auto
  show ?thesis
    unfolding tree_outcome_def
  proof (intro exI conjI allI impI ballI)
    show "TransactionIdSetPageStatus ctl L xid subs st lsn (TransactionIdToPage xid) True s = Some (r, s')" "slru_ok ctl s'"
      by (fact run)+
    show "clog_status s' x v" if "clog_status s x v" "x \<notin> insert xid (set subs)" for x v
      using get [OF that(1)] that(2) by simp
    show "clog_status s' x st" if "r = Inr ()" "x \<in> insert xid (set subs)" "clog_status s x v" for x v
      using get [OF that(3)] that(1,2) by simp
  next
    fix x v
    assume st_c: "st = TRANSACTION_STATUS_COMMITTED" and top: "clog_status s' xid TRANSACTION_STATUS_COMMITTED"
      and before: "\<forall>v. clog_status s xid v \<longrightarrow> v \<noteq> TRANSACTION_STATUS_COMMITTED" "\<exists>v. clog_status s xid v"
      and x: "x \<in> set subs" "clog_status s x v"
    obtain v0 where v0: "clog_status s xid v0" "v0 \<noteq> TRANSACTION_STATUS_COMMITTED"
      using before by blast
    have "r = Inr ()"
      using get [OF v0(1)] clog_status_unique [OF run(2) top] v0(2) by (auto split: if_splits)
    then show "clog_status s' x TRANSACTION_STATUS_COMMITTED \<or> clog_status s' x TRANSACTION_STATUS_SUB_COMMITTED"
      using get [OF x(2)] x(1) st_c by simp
  qed
qed

text \<open>Sub-commit the far children, update the first page, then update the far children.\<close>

lemma tree_steps:
  assumes sub: "sets_status ctl (if st = TRANSACTION_STATUS_COMMITTED then D else {}) TRANSACTION_STATUS_SUB_COMMITTED s m"
    and top: "\<And>t. slru_ok ctl t \<Longrightarrow> \<exists>r t'. k t = Some (r, t') \<and> slru_ok ctl t'
        \<and> (\<forall>x v. clog_status t x v \<longrightarrow> clog_status t' x (if r = Inr () \<and> x \<in> insert xid T then st else v))"
    and rest: "\<And>t. slru_ok ctl t \<Longrightarrow> sets_status ctl D st t (l t)"
    and subs: "set subs = T \<union> D" "xid \<notin> D"
  shows "tree_outcome ctl xid subs st s (bindP m (\<lambda>_ t. bindP (k t) (\<lambda>_ t. l t)))"
    (is "tree_outcome _ _ _ _ _ ?run")
proof -
  let ?C = TRANSACTION_STATUS_COMMITTED and ?S = TRANSACTION_STATUS_SUB_COMMITTED
  obtain r1 t1 where 1: "m = Some (r1, t1)" "slru_ok ctl t1"
    "\<And>x v. clog_status s x v \<Longrightarrow> clog_status t1 x v \<or> x \<in> (if st = ?C then D else {}) \<and> clog_status t1 x ?S"
    "\<And>x v. r1 = Inr () \<Longrightarrow> x \<in> (if st = ?C then D else {}) \<Longrightarrow> clog_status s x v \<Longrightarrow> clog_status t1 x ?S"
    using sub by (rule sets_statusE) blast
  have other1: "clog_status t1 x v" if "clog_status s x v" "x \<notin> D" for x v
    using 1(3) [OF that(1)] that(2) by (auto split: if_splits)
  have stop: "tree_outcome ctl xid subs st s (Some (Inl e, t))"
    if "slru_ok ctl t" "\<And>x v. clog_status s x v \<Longrightarrow> x \<notin> D \<Longrightarrow> clog_status t x v" for e t
    unfolding tree_outcome_def
  proof (intro exI conjI allI impI ballI)
    show "Some (Inl e, t) = Some (Inl e, t)" "slru_ok ctl t"
      using that(1) by simp_all
    show "clog_status t x v" if "clog_status s x v" "x \<notin> insert xid (set subs)" for x v
      using \<open>\<And>x v. clog_status s x v \<Longrightarrow> x \<notin> D \<Longrightarrow> clog_status t x v\<close> that subs by blast
    fix x v
    assume "clog_status t xid ?C" "\<forall>v. clog_status s xid v \<longrightarrow> v \<noteq> ?C" "\<exists>v. clog_status s xid v"
    then have False
      using that subs(2) clog_status_unique [OF that(1)] by blast
    then show "clog_status t x ?C \<or> clog_status t x ?S" ..
  qed simp
  show ?thesis
  proof (cases r1)
    case (Inl e)
    with 1(1) stop [OF 1(2) other1] show ?thesis by simp
  next
    case Inr1: (Inr u)
    obtain r2 t2 where 2: "k t1 = Some (r2, t2)" "slru_ok ctl t2"
      "\<And>x v. clog_status t1 x v \<Longrightarrow> clog_status t2 x (if r2 = Inr () \<and> x \<in> insert xid T then st else v)"
      using top [OF 1(2)] by blast
    show ?thesis
    proof (cases r2)
      case (Inl e)
      then have "clog_status s x v \<Longrightarrow> x \<notin> D \<Longrightarrow> clog_status t2 x v" for x v
        using 2(3) [OF other1] by auto
      with 1(1) 2(1) Inl Inr1 stop [OF 2(2)] show ?thesis by simp
    next
      case Inr2: (Inr u)
      obtain r3 t3 where 3: "l t2 = Some (r3, t3)" "slru_ok ctl t3"
        "\<And>x v. clog_status t2 x v \<Longrightarrow> clog_status t3 x v \<or> x \<in> D \<and> clog_status t3 x st"
        "\<And>x v. r3 = Inr () \<Longrightarrow> x \<in> D \<Longrightarrow> clog_status t2 x v \<Longrightarrow> clog_status t3 x st"
        using rest [OF 2(2)] by (rule sets_statusE) blast
      have run: "?run = Some (r3, t3)"
        using 1(1) 2(1) 3(1) Inr1 Inr2 by simp
      have near: "clog_status t3 x st" if x: "x \<in> insert xid T" "clog_status s x v" for x v
      proof -
        obtain w where "clog_status t1 x w"
          using 1(3) [OF x(2)] by blast
        then have "clog_status t2 x st"
          using 2(3) [of x w] x(1) Inr2 by simp
        then show ?thesis using 3(3) by blast
      qed
      have far: "clog_status t2 x (if x \<in> insert xid T then st else w)" if "clog_status t1 x w" for x w
        using 2(3) [OF that] Inr2 by simp
      have far_sub: "clog_status t3 x ?C \<or> clog_status t3 x ?S" if "st = ?C" "x \<in> D" "clog_status s x v" for x v
      proof -
        have "clog_status t1 x ?S"
          using 1(4) Inr1 that by auto
        from far [OF this] 3(3) [of x] that(1) show ?thesis
          by (auto split: if_splits)
      qed
      show ?thesis
        unfolding tree_outcome_def
      proof (intro exI conjI allI impI ballI)
        show "?run = Some (r3, t3)" "slru_ok ctl t3"
          by (fact run 3(2))+
        show "clog_status t3 x v" if "clog_status s x v" "x \<notin> insert xid (set subs)" for x v
          using far [OF other1 [OF that(1)]] that(2) subs 3(3) [of x v] by auto
        show "clog_status t3 x st" if x: "r3 = Inr ()" "x \<in> insert xid (set subs)" "clog_status s x v" for x v
        proof (cases "x \<in> D")
          case True
          obtain w where "clog_status t1 x w"
            using 1(3) [OF x(3)] by blast
          then show ?thesis
            using 3(4) [OF x(1) True] far by blast
        next
          case False
          then show ?thesis
            using near [OF _ x(3)] x(2) subs by blast
        qed
        show "clog_status t3 x ?C \<or> clog_status t3 x ?S" if "st = ?C" "x \<in> set subs" "clog_status s x v" for x v
          using near [OF _ that(3)] far_sub [OF that(1) _ that(3)] that(1,2) subs by blast
      qed
    qed
  qed
qed

lemma SetTreeStatus_outcome:
  assumes quiet: "quiet L" and ok: "slru_ok ctl s" and st: "is_status st"
    and xid: "TransactionIdIsValid xid" "xid \<notin> set subs"
  shows "tree_outcome ctl xid subs st s (TransactionIdSetTreeStatus ctl L xid subs st lsn s)"
proof -
  define T where "T = takeWhile (\<lambda>x. TransactionIdToPage x = TransactionIdToPage xid) subs"
  define D where "D = dropWhile (\<lambda>x. TransactionIdToPage x = TransactionIdToPage xid) subs"
  have split: "subs = T @ D"
    by (simp add: T_def D_def)
  have T: "\<forall>y \<in> set T. TransactionIdToPage y = TransactionIdToPage xid"
    unfolding T_def by (auto dest: set_takeWhileD)
  have run: "TransactionIdSetTreeStatus ctl L xid subs st lsn s =
      (if D = [] then TransactionIdSetPageStatus ctl L xid T st lsn (TransactionIdToPage xid) True s
       else bindP (if st = TRANSACTION_STATUS_COMMITTED
              then set_status_by_pages ctl L D TRANSACTION_STATUS_SUB_COMMITTED lsn s else Some (Inr (), s)) (\<lambda>_ s.
         bindP (TransactionIdSetPageStatus ctl L xid T st lsn (TransactionIdToPage xid) False s) (\<lambda>_ s.
         set_status_by_pages ctl L D st lsn s)))"
    unfolding TransactionIdSetTreeStatus_def Let_def T_def [symmetric] by (simp add: split)
  show ?thesis
  proof (cases "D = []")
    case True
    then have "subs = T"
      using split by simp
    with tree_one_page [OF quiet ok st xid(1) T] show ?thesis
      unfolding run if_P [OF True] by simp
  next
    case False
    have by_pages: "set_status_by_pages ctl L D v lsn t = set_pages_loop ctl L D v lsn t" for v t
      using False by (simp add: set_status_by_pages_def)
    show ?thesis
      unfolding run if_not_P [OF False] by_pages
    proof (rule tree_steps [where T = "set T" and D = "set D"])
      show "sets_status ctl (if st = TRANSACTION_STATUS_COMMITTED then set D else {}) TRANSACTION_STATUS_SUB_COMMITTED s
          (if st = TRANSACTION_STATUS_COMMITTED then set_pages_loop ctl L D TRANSACTION_STATUS_SUB_COMMITTED lsn s
           else Some (Inr (), s))"
        using set_pages_sets [OF ok is_status_consts(3)] sets_status_skip [OF ok] by simp
      show "\<exists>r t'. TransactionIdSetPageStatus ctl L xid T st lsn (TransactionIdToPage xid) False t = Some (r, t') \<and> slru_ok ctl t'
          \<and> (\<forall>x v. clog_status t x v \<longrightarrow> clog_status t' x (if r = Inr () \<and> x \<in> insert xid (set T) then st else v))"
        if "slru_ok ctl t" for t
        using Internal_exact [OF that st T, of xid lsn] xid(1)
        unfolding SetPageStatus_far by simp
      show "sets_status ctl (set D) st t (set_pages_loop ctl L D st lsn t)" if "slru_ok ctl t" for t
        by (rule set_pages_sets [OF that st])
      show "set subs = set T \<union> set D" "xid \<notin> set D"
        using xid(2) by (simp_all add: split)
    qed
  qed
qed

definition demo_locks :: clog_locks where
  "demo_locks = \<lparr> cl_my_proc_matches = (\<lambda>_ _. True), cl_free = False, cl_group = Some [] \<rparr>"

lemma demo_quiet: "quiet demo_locks"
  by (simp add: quiet_def demo_locks_def)

lemma demo_clog:
  "slru_ok (demo_ctl precedes) demo_pool"
  "TransactionIdToPage x = 0 \<or> TransactionIdToPage x = 1 \<Longrightarrow> clog_status demo_pool x TRANSACTION_STATUS_IN_PROGRESS"
proof -
  show "slru_ok (demo_ctl precedes) demo_pool"
    by (simp add: slru_ok_def demo_pool_wf demo_live)
  have "clog_get zero_page x = TRANSACTION_STATUS_IN_PROGRESS"
    using clog_byte_bound [of x] by (simp add: clog_get_def zero_page_def TRANSACTION_STATUS_IN_PROGRESS_def)
  then show "clog_status demo_pool x TRANSACTION_STATUS_IN_PROGRESS"
    if "TransactionIdToPage x = 0 \<or> TransactionIdToPage x = 1"
    using that demo_content unfolding clog_status_def by (auto simp: zero_page_def)
qed

text \<open>
  C21: a transaction status written is the status read. Outside recovery, when no other backend joins the group update, \<^verbatim>\<open>TransactionIdSetTreeStatus\<close> on a
  sound pool returns and leaves it sound; every transaction id outside the tree keeps its
  status, also when the update fails half way; and after a success a lookup
  \<^verbatim>\<open>TransactionIdGetStatus\<close> of the parent or any child returns, and what it reports is the new status.
\<close>

theorem SetTreeStatus_GetStatus:
  assumes "quiet L" and "slru_ok ctl s" and "is_status st" and "TransactionIdIsValid xid" and "xid \<notin> set subs"
  shows "\<exists>r s'. TransactionIdSetTreeStatus ctl L xid subs st lsn s = Some (r, s') \<and> slru_ok ctl s'
    \<and> (\<forall>x v. clog_status s x v \<longrightarrow> x \<notin> insert xid (set subs) \<longrightarrow> clog_status s' x v)
    \<and> (r = Inr () \<longrightarrow> (\<forall>x \<in> insert xid (set subs). \<forall>v. clog_status s x v \<longrightarrow>
         clog_status s' x st
         \<and> (\<exists>r2 s2. TransactionIdGetStatus ctl x s' = Some (r2, s2)
              \<and> (\<forall>w l. r2 = Inr (w, l) \<longrightarrow> w = st))))"
proof -
  obtain r s' where run: "TransactionIdSetTreeStatus ctl L xid subs st lsn s = Some (r, s')" "slru_ok ctl s'"
    and other: "\<And>x v. clog_status s x v \<Longrightarrow> x \<notin> insert xid (set subs) \<Longrightarrow> clog_status s' x v"
    and tree: "\<And>x v. r = Inr () \<Longrightarrow> x \<in> insert xid (set subs) \<Longrightarrow> clog_status s x v \<Longrightarrow> clog_status s' x st"
    using SetTreeStatus_outcome [OF assms, of lsn] unfolding tree_outcome_def by blast
  have get: "\<exists>r2 s2. TransactionIdGetStatus ctl x s' = Some (r2, s2) \<and> (\<forall>w l. r2 = Inr (w, l) \<longrightarrow> w = st)"
    if "clog_status s' x st" for x
    using GetStatus_ok [OF run(2), of x] that by blast
  show ?thesis
    using run other tree get by blast
qed

theorem SetTreeStatus_GetStatus_witness:
  "slru_ok (demo_ctl (<)) demo_pool
    \<and> (\<exists>r s'. TransactionIdSetTreeStatus (demo_ctl (<)) demo_locks 5 [6, 40000] TRANSACTION_STATUS_COMMITTED 0 demo_pool = Some (r, s')
         \<and> clog_status s' 7 TRANSACTION_STATUS_IN_PROGRESS
         \<and> (r = Inr () \<longrightarrow> clog_status s' 40000 TRANSACTION_STATUS_COMMITTED))"
proof -
  have pages: "TransactionIdToPage 7 = 0" "TransactionIdToPage 40000 = 1"
    by (simp_all add: clog_addr)
  obtain r s' where "TransactionIdSetTreeStatus (demo_ctl (<)) demo_locks 5 [6, 40000] TRANSACTION_STATUS_COMMITTED 0 demo_pool = Some (r, s')"
    "\<forall>x v. clog_status demo_pool x v \<longrightarrow> x \<notin> insert 5 (set [6, 40000]) \<longrightarrow> clog_status s' x v"
    "r = Inr () \<longrightarrow> (\<forall>x \<in> insert 5 (set [6, 40000]). \<forall>v. clog_status demo_pool x v
       \<longrightarrow> clog_status s' x TRANSACTION_STATUS_COMMITTED)"
    using SetTreeStatus_GetStatus [OF demo_quiet demo_clog(1) [of "(<)"] is_status_consts(1), of 5 "[6, 40000]" 0]
    by (auto simp: TransactionIdIsValid_def InvalidTransactionId_def)
  then show ?thesis
    using demo_clog(1) demo_clog(2) [of 7] demo_clog(2) [of 40000] pages by auto
qed

text \<open>
  C7: commit is atomic. When no other backend joins the group update, starting from a sound pool in which the parent is not yet
  committed, whatever point a multi-page commit reaches before an error stops it, if the parent is
  then marked committed, every child is marked committed or sub-committed, so no reader
  that consults the parent for a sub-committed child can see half a commit.
\<close>

theorem SetTreeStatus_commit_atomic:
  assumes quiet: "quiet L" and "slru_ok ctl s" and "TransactionIdIsValid xid" and "xid \<notin> set subs"
    and "clog_status s xid v" and "v \<noteq> TRANSACTION_STATUS_COMMITTED"
    and "\<forall>x \<in> set subs. \<exists>w. clog_status s x w"
  shows "\<exists>r s'. TransactionIdSetTreeStatus ctl L xid subs TRANSACTION_STATUS_COMMITTED lsn s = Some (r, s')
    \<and> (r = Inr () \<longrightarrow> clog_status s' xid TRANSACTION_STATUS_COMMITTED)
    \<and> (clog_status s' xid TRANSACTION_STATUS_COMMITTED \<longrightarrow>
         (\<forall>x \<in> set subs. clog_status s' x TRANSACTION_STATUS_COMMITTED
            \<or> clog_status s' x TRANSACTION_STATUS_SUB_COMMITTED))"
proof -
  have fresh: "\<forall>w. clog_status s xid w \<longrightarrow> w \<noteq> TRANSACTION_STATUS_COMMITTED" "\<exists>w. clog_status s xid w"
    using clog_status_unique [OF assms(2,5)] assms(5,6) by blast+
  show ?thesis
    using SetTreeStatus_outcome [OF quiet assms(2) is_status_consts(1) assms(3,4), of lsn] fresh assms(5,7)
    unfolding tree_outcome_def by (elim exE conjE) (intro exI conjI, assumption, auto)
qed

theorem SetTreeStatus_commit_atomic_witness:
  "clog_status demo_pool 5 TRANSACTION_STATUS_IN_PROGRESS
    \<and> (\<exists>r s'. TransactionIdSetTreeStatus (demo_ctl (<)) demo_locks 5 [40000] TRANSACTION_STATUS_COMMITTED 0 demo_pool = Some (r, s')
         \<and> (r = Inr () \<longrightarrow> clog_status s' 5 TRANSACTION_STATUS_COMMITTED)
         \<and> (clog_status s' 5 TRANSACTION_STATUS_COMMITTED \<longrightarrow>
              clog_status s' 40000 TRANSACTION_STATUS_COMMITTED \<or> clog_status s' 40000 TRANSACTION_STATUS_SUB_COMMITTED))"
proof -
  have before: "clog_status demo_pool 5 TRANSACTION_STATUS_IN_PROGRESS"
    "\<forall>x \<in> set [40000]. \<exists>w. clog_status demo_pool x w"
    using demo_clog(2) [of 5] demo_clog(2) [of 40000] by (auto simp: clog_addr)
  have "TransactionIdIsValid 5" "(5 :: TransactionId) \<notin> set [40000]"
    by (simp_all add: TransactionIdIsValid_def InvalidTransactionId_def)
  from SetTreeStatus_commit_atomic [OF demo_quiet demo_clog(1) [of "(<)"] this before(1) status_distinct(3) before(2), of 0]
  show ?thesis
    using before(1) by simp
qed

end
