(* ===== verification/ClogTruncate.thy ===== *)
theory ClogTruncate
  imports Clog
begin

section \<open>Truncating and trimming the commit log\<close>

text \<open>
  \<^verbatim>\<open>CLOGPagePrecedes\<close> orders pages on the circle of transaction ids. It is characterised by the
  signed distance of two pages, which gives the two facts truncation needs: a segment lies
  before the cutoff as a whole, and the page of a transaction id at or after the oldest one never
  precedes the cutoff page, not even half the circle away. Trimming after recovery clears the
  statuses from the next transaction id to the end of its page.
\<close>

definition page_distance :: "int \<Rightarrow> int \<Rightarrow> int" where
  "page_distance p q = signed_take_bit 16 (p - q)"

lemma page_distance_bounds: "- 65536 \<le> page_distance p q \<and> page_distance p q < 65536"
  using signed_take_bit_int_greater_eq_minus_exp [of 16 "p - q"] signed_take_bit_int_less_exp [of 16 "p - q"]
  by (simp add: page_distance_def)

lemma page_distance_eqI:
  assumes "- 65536 \<le> d" and "d < 65536" and "p - q = d + 131072 * k"
  shows "page_distance p q = d"
proof -
  have "signed_take_bit 16 (d + 131072 * k) = signed_take_bit 16 d"
    by (rule signed_take_bit_eq_iff_take_bit_eq [THEN iffD2]) (simp add: take_bit_eq_mod)
  then show ?thesis
    using assms signed_take_bit_int_eq_self [of 16 d] by (simp add: page_distance_def)
qed

lemma page_distance_mod: "\<exists>k. p - q = page_distance p q + 131072 * k"
proof -
  have "(p - q) mod 131072 = page_distance p q mod 131072"
    using take_bit_signed_take_bit [of 17 16 "p - q"] by (simp add: page_distance_def take_bit_eq_mod)
  then show ?thesis
    by (metis mod_eqE)
qed

text \<open>A transaction id of page \<open>p\<close>, \<open>r\<close> places into it, and the order of two of them.\<close>

definition on_page :: "int \<Rightarrow> int \<Rightarrow> TransactionId" where
  "on_page p r = word_of_int (p * 32768 + r)"

lemma on_page_normal:
  assumes "3 \<le> r" and "r < 32768"
  shows "TransactionIdIsNormal (on_page p r)"
proof -
  have "(p * 32768 + r) mod 4294967296 mod 32768 = r"
    using assms by (simp add: mod_mod_cancel)
  moreover have "(p * 32768 + r) mod 4294967296 mod 32768 \<le> (p * 32768 + r) mod 4294967296"
    by (rule zmod_le_nonneg_dividend) simp
  moreover have "uint (on_page p r) = (p * 32768 + r) mod 4294967296"
    unfolding on_page_def uint_word_of_int by simp
  ultimately have "3 \<le> uint (on_page p r)"
    using assms(1) by simp
  then show ?thesis
    by (simp add: TransactionIdIsNormal_iff word_le_def)
qed

lemma sint_on_page_diff:
  "sint (on_page p a - on_page q b) = signed_take_bit 31 (page_distance p q * 32768 + (a - b))"
proof -
  obtain k where k: "p - q = page_distance p q + 131072 * k"
    using page_distance_mod by blast
  have "on_page p a - on_page q b = word_of_int ((p - q) * 32768 + (a - b))"
    by (simp add: on_page_def algebra_simps)
  also have "(p - q) * 32768 + (a - b) = page_distance p q * 32768 + (a - b) + 4294967296 * k"
    by (simp add: k algebra_simps)
  finally have "sint (on_page p a - on_page q b)
      = signed_take_bit 31 (page_distance p q * 32768 + (a - b) + 4294967296 * k)"
    by (simp only: signed_of_int) simp
  also have "\<dots> = signed_take_bit 31 (page_distance p q * 32768 + (a - b))"
    by (rule signed_take_bit_eq_iff_take_bit_eq [THEN iffD2]) (simp add: take_bit_eq_mod)
  finally show ?thesis .
qed

lemma precedes_distance:
  "CLOGPagePrecedes p q \<longleftrightarrow> - 65536 < page_distance p q \<and> page_distance p q < 0"
proof -
  let ?d = "page_distance p q"
  have xids: "word_of_int p * CLOG_XACTS_PER_PAGE + (FirstNormalTransactionId + 1) = on_page p 4" for p
    by (simp add: on_page_def CLOG_XACTS_PER_PAGE_def FirstNormalTransactionId_def)
  have xid2: "on_page q 4 + (CLOG_XACTS_PER_PAGE - 1) = on_page (q + 1) 3"
    by (simp add: on_page_def CLOG_XACTS_PER_PAGE_def algebra_simps)
  have next_page: "on_page (q + 1) 3 = on_page q 32771"
    by (simp add: on_page_def algebra_simps)
  have "CLOGPagePrecedes p q \<longleftrightarrow> sint (on_page p 4 - on_page q 4) < 0 \<and> sint (on_page p 4 - on_page (q + 1) 3) < 0"
    unfolding CLOGPagePrecedes_def Let_def xids xid2 TransactionIdPrecedes_def
    by (simp add: on_page_normal)
  also have "\<dots> \<longleftrightarrow> signed_take_bit 31 (?d * 32768) < 0 \<and> signed_take_bit 31 (?d * 32768 - 32767) < 0"
    unfolding next_page sint_on_page_diff by simp
  also have "signed_take_bit 31 (?d * 32768) = ?d * 32768"
    by (rule signed_take_bit_int_eq_self) (use page_distance_bounds [of p q] in simp_all)
  also have "signed_take_bit 31 (?d * 32768 - 32767) =
      (if ?d = - 65536 then 2147450881 else ?d * 32768 - 32767)"
  proof (cases "?d = - 65536")
    case True
    then show ?thesis by (simp add: signed_take_bit_eq_if_negative take_bit_eq_mod)
  next
    case False
    then show ?thesis
      using page_distance_bounds [of p q]
      by (simp add: signed_take_bit_int_eq_self)
  qed
  finally show ?thesis
    using page_distance_bounds [of p q] by auto
qed

lemma clog_segment_convex:
  assumes "PagePrecedes ctl = CLOGPagePrecedes"
  shows "segment_convex ctl cutoff"
  unfolding segment_convex_def SlruMayDeleteSegment_def Let_def assms precedes_distance
proof (intro allI impI, elim conjE)
  fix q
  let ?a = "q div SLRU_PAGES_PER_SEGMENT * SLRU_PAGES_PER_SEGMENT"
  assume first: "- 65536 < page_distance ?a cutoff" "page_distance ?a cutoff < 0"
    and last: "page_distance (?a + SLRU_PAGES_PER_SEGMENT - 1) cutoff < 0"
  obtain k where k: "?a - cutoff = page_distance ?a cutoff + 131072 * k"
    using page_distance_mod by blast
  define r where "r = q mod 32"
  have r: "0 \<le> r" "r \<le> 31" "q = ?a + r"
    by (simp_all add: r_def SLRU_PAGES_PER_SEGMENT_def)
  have shift: "page_distance (?a + j) cutoff = page_distance ?a cutoff + j" if "0 \<le> j" "j \<le> 31" for j
    by (rule page_distance_eqI [of _ _ _ k]) (use first that k in simp_all)
  have "page_distance ?a cutoff + 31 < 0"
    using last shift [of 31] by (simp add: SLRU_PAGES_PER_SEGMENT_def add.commute)
  then show "- 65536 < page_distance q cutoff \<and> page_distance q cutoff < 0"
    using shift [OF r(1,2)] r first by simp
qed

lemma live_page_kept:
  assumes "TransactionIdIsNormal x" and "TransactionIdIsNormal oldest" and "TransactionIdFollowsOrEquals x oldest"
  shows "\<not> CLOGPagePrecedes (TransactionIdToPage x) (TransactionIdToPage oldest)"
proof -
  let ?p = "TransactionIdToPage x" and ?q = "TransactionIdToPage oldest"
  have d: "0 \<le> sint (x - oldest)"
    using assms by (simp add: TransactionIdFollowsOrEquals_def)
  have sint: "sint w = signed_take_bit 31 (uint w)" for w :: TransactionId
    by (simp add: sint_uint)
  have "(uint x - uint oldest) mod 4294967296 = sint (x - oldest) mod 4294967296"
    using take_bit_signed_take_bit [of 32 31 "uint (x - oldest)"]
    by (simp add: sint take_bit_eq_mod uint_word_ariths)
  then obtain k where k: "uint x - uint oldest = sint (x - oldest) + 4294967296 * k"
    by (metis mod_eqE)
  have bound: "sint (x - oldest) < 2147483648"
    using signed_take_bit_int_less_exp [of 31 "uint (x - oldest)"] by (simp add: sint)
  have split: "uint w = TransactionIdToPage w * 32768 + uint w mod 32768" for w :: TransactionId
    by (simp add: TransactionIdToPage_def CLOG_XACTS_PER_PAGE_def)
  define e where "e = ?p - ?q - 131072 * k"
  have "sint (x - oldest) = e * 32768 + (uint x mod 32768 - uint oldest mod 32768)"
    using k split [of x] split [of oldest] by (simp add: e_def algebra_simps)
  then have "0 \<le> e \<and> e \<le> 65536"
    using d bound pos_mod_bound [of 32768 "uint x"] pos_mod_sign [of 32768 "uint x"]
      pos_mod_bound [of 32768 "uint oldest"] pos_mod_sign [of 32768 "uint oldest"] by linarith
  then have "page_distance ?p ?q = (if e = 65536 then - 65536 else e)"
    by (cases "e = 65536") (auto simp: e_def intro: page_distance_eqI [of _ _ _ k] page_distance_eqI [of _ _ _ "k + 1"])
  then show ?thesis
    using \<open>0 \<le> e \<and> e \<le> 65536\<close> by (auto simp: precedes_distance)
qed

text \<open>
  C23: truncation never loses a live transaction's status. With the commit log's page order, on a well-formed pool and with any list of
  segment files, \<^verbatim>\<open>TruncateCLOG\<close> returns and keeps the pool well-formed, and
  the status of every normal transaction id at or after the given oldest one is what it was, wraparound
  of the 32-bit id space included.
\<close>

theorem TruncateCLOG_keeps_live:
  assumes "slru_wf ctl s" and "PagePrecedes ctl = CLOGPagePrecedes"
    and "TransactionIdIsNormal oldest" and "TransactionIdIsNormal x" and "TransactionIdFollowsOrEquals x oldest"
    and "clog_status s x v"
  shows "\<exists>r s'. TruncateCLOG ctl calls names oldest datoid s = Some (r, s') \<and> slru_wf ctl s' \<and> clog_status s' x v"
proof -
  obtain c where c: "content s (TransactionIdToPage x) c" "length c = BLCKSZ" "clog_get c x = v"
    using assms(6) by (auto simp: clog_status_def)
  have live: "\<not> PagePrecedes ctl (TransactionIdToPage x) (TransactionIdToPage oldest)"
    using live_page_kept [OF assms(4,3,5)] by (simp add: assms(2))
  obtain r s' where "SimpleLruTruncate ctl names (TransactionIdToPage oldest) s = Some (r, s')" "slru_wf ctl s'"
    "content s' (TransactionIdToPage x) c"
    using Truncate_ok [OF assms(1) clog_segment_convex [OF assms(2), of "TransactionIdToPage oldest"], of names] c(1) live by blast
  then show ?thesis
    using assms(1,6) c(2,3)
    unfolding TruncateCLOG_def Let_def by (auto simp: clog_status_def split: sum.split)
qed

definition demo_calls :: clog_calls where
  "demo_calls = \<lparr> c_next_xid = Inr 40001, c_insert_zeropage = (\<lambda>_. Inr ()), c_insert_truncate = (\<lambda>_ _ _. Inr 1),
     c_flush = (\<lambda>_. Inr ()), c_advance_oldest = (\<lambda>_. Inr ()) \<rparr>"

theorem TruncateCLOG_keeps_live_witness:
  "clog_status demo_pool 40000 TRANSACTION_STATUS_IN_PROGRESS
    \<and> (\<exists>r s'. TruncateCLOG (demo_ctl CLOGPagePrecedes) demo_calls [0] 3 0 demo_pool = Some (r, s')
         \<and> clog_status s' 40000 TRANSACTION_STATUS_IN_PROGRESS)"
proof -
  have st: "clog_status demo_pool 40000 TRANSACTION_STATUS_IN_PROGRESS"
    by (rule demo_clog) (simp add: clog_addr)
  have "PagePrecedes (demo_ctl CLOGPagePrecedes) = CLOGPagePrecedes"
    by (simp add: demo_ctl_def)
  moreover have "TransactionIdIsNormal 3" "TransactionIdIsNormal 40000" "TransactionIdFollowsOrEquals 40000 3"
    by (simp_all add: TransactionIdIsNormal_def TransactionIdFollowsOrEquals_def FirstNormalTransactionId_def)
  ultimately show ?thesis
    using TruncateCLOG_keeps_live [OF demo_pool_wf _ _ _ _ st, of CLOGPagePrecedes 3 demo_calls "[0]" 0] st by auto
qed

subsection \<open>Trimming\<close>

lemma trim_bits:
  fixes b :: u8
  assumes "i < 4" and "j < 4"
  shows "(drop_bit (2 * i) (ucast (b AND ucast (push_bit (2 * j) (1 :: u32) - 1))) :: u32) AND 3
    = (if i < j then drop_bit (2 * i) (ucast b) AND 3 else 0)"
proof -
  have masks: "(3 :: u32) = mask 2" "push_bit (2 * j) (1 :: u32) - 1 = mask (2 * j)"
    by (simp_all add: mask_eq_exp_minus_1 push_bit_eq_mult)
  show ?thesis
    unfolding masks by (rule bit_word_eqI) (use assms in \<open>auto simp: bit_simps\<close>)
qed

lemma trim_page_length: "TransactionIdToByte n < length c \<Longrightarrow> length (trim_page n c) = length c"
  by (simp add: trim_page_def Let_def)

lemma trim_page_nth:
  assumes "j < length c"
  shows "trim_page n c ! j = (if j < TransactionIdToByte n then c ! j
    else if j = TransactionIdToByte n then c ! j AND ucast (push_bit (clog_bshift n) (1 :: u32) - 1) else 0)"
  using assms by (auto simp: trim_page_def Let_def nth_append)

lemma same_page_order:
  assumes "TransactionIdToPage x = TransactionIdToPage n"
  shows "x < n \<longleftrightarrow> TransactionIdToByte x < TransactionIdToByte n
    \<or> TransactionIdToByte x = TransactionIdToByte n \<and> unat x mod 4 < unat n mod 4"
  using assms clog_split [of "unat x"] clog_split [of "unat n"] mod_less_divisor [of 4 "unat x"] mod_less_divisor [of 4 "unat n"]
  unfolding clog_addr word_less_nat_alt by linarith

lemma trim_page_get:
  assumes c: "length c = BLCKSZ" and page: "TransactionIdToPage x = TransactionIdToPage n"
  shows "clog_get (trim_page n c) x = (if n \<le> x then TRANSACTION_STATUS_IN_PROGRESS else clog_get c x)"
proof -
  have x: "TransactionIdToByte x < length c"
    using clog_byte_bound c by simp
  have order: "n \<le> x \<longleftrightarrow> \<not> (TransactionIdToByte x < TransactionIdToByte n
      \<or> TransactionIdToByte x = TransactionIdToByte n \<and> unat x mod 4 < unat n mod 4)"
    using same_page_order [OF page] by (simp add: not_less [symmetric])
  show ?thesis
    using trim_bits [of "unat x mod 4" "unat n mod 4" "c ! TransactionIdToByte x"]
    unfolding clog_get_def trim_page_nth [OF x] order CLOG_XACT_BITMASK_def clog_addr(3) TRANSACTION_STATUS_IN_PROGRESS_def
    by auto
qed

text \<open>
  Trimming clears exactly the tail. Outside recovery, on a sound pool, \<^verbatim>\<open>TrimCLOG\<close> returns and leaves it sound; when it succeeds, the ids
  from the next transaction id to the end of its page read as in progress, and every other
  id keeps its status; on an error all ids keep theirs.
\<close>

theorem TrimCLOG_clears_tail:
  assumes ok: "slru_ok ctl s" and n: "c_next_xid calls = Inr n"
  shows "\<exists>r s'. TrimCLOG ctl calls s = Some (r, s') \<and> slru_ok ctl s'
    \<and> (\<forall>x v. clog_status s x v \<longrightarrow> clog_status s' x
         (if r = Inr () \<and> TransactionIdToPgIndex n \<noteq> 0 \<and> TransactionIdToPage x = TransactionIdToPage n \<and> n \<le> x
          then TRANSACTION_STATUS_IN_PROGRESS else v))"
proof (cases "TransactionIdToPgIndex n = 0")
  case True
  then show ?thesis
    using ok n by (simp add: TrimCLOG_def)
next
  case False
  let ?p = "TransactionIdToPage n"
  have run: "TrimCLOG ctl calls s = bindP (SimpleLruReadPage ctl ?p False n s) (\<lambda>i t.
      Some (Inr (), mark_page_dirty i (set_page_buffer i (trim_page n (page_buffer t ! i)) t)))"
    using False n by (simp add: TrimCLOG_def)
  have "\<exists>r s'. TrimCLOG ctl calls s = Some (r, s') \<and> slru_ok ctl s'
      \<and> (\<forall>q c. content s q c \<longrightarrow> content s' q (if q = ?p \<and> r = Inr () then trim_page n c else c))"
    unfolding run
    by (rule rw.modify_ok [OF ok]) (simp add: slru_stored_def store_page_def)
  then obtain r s' where s': "TrimCLOG ctl calls s = Some (r, s')" "slru_ok ctl s'"
    and page: "\<And>q c. content s q c \<Longrightarrow> content s' q (if q = ?p \<and> r = Inr () then trim_page n c else c)"
    by blast
  have "clog_status s' x (if r = Inr () \<and> TransactionIdToPgIndex n \<noteq> 0 \<and> TransactionIdToPage x = ?p \<and> n \<le> x
          then TRANSACTION_STATUS_IN_PROGRESS else v)" if "clog_status s x v" for x v
  proof -
    obtain c where c: "content s (TransactionIdToPage x) c" "length c = BLCKSZ" "clog_get c x = v"
      using \<open>clog_status s x v\<close> by (auto simp: clog_status_def)
    have len: "length (trim_page n c) = BLCKSZ"
      using trim_page_length [of n c] clog_byte_bound [of n] c(2) by simp
    show ?thesis
      using page [OF c(1)] c False len trim_page_get [OF c(2), of x n]
      unfolding clog_status_def by (cases "TransactionIdToPage x = ?p \<and> r = Inr ()") auto
  qed
  with s' show ?thesis by blast
qed

theorem TrimCLOG_clears_tail_witness:
  "slru_ok (demo_ctl CLOGPagePrecedes) demo_pool \<and> c_next_xid demo_calls = Inr 40001
    \<and> (\<exists>r s'. TrimCLOG (demo_ctl CLOGPagePrecedes) demo_calls demo_pool = Some (r, s')
         \<and> clog_status s' 40005 TRANSACTION_STATUS_IN_PROGRESS)"
proof -
  have n: "c_next_xid demo_calls = Inr 40001"
    by (simp add: demo_calls_def)
  have st: "clog_status demo_pool 40005 TRANSACTION_STATUS_IN_PROGRESS"
    by (rule demo_clog) (simp add: clog_addr)
  obtain r s' where run: "TrimCLOG (demo_ctl CLOGPagePrecedes) demo_calls demo_pool = Some (r, s')"
    and get: "\<And>x v. clog_status demo_pool x v \<Longrightarrow> clog_status s' x
         (if r = Inr () \<and> TransactionIdToPgIndex 40001 \<noteq> 0 \<and> TransactionIdToPage x = TransactionIdToPage 40001 \<and> 40001 \<le> x
          then TRANSACTION_STATUS_IN_PROGRESS else v)"
    using TrimCLOG_clears_tail [OF demo_clog(1) [of CLOGPagePrecedes] n] by blast
  have "clog_status s' 40005 TRANSACTION_STATUS_IN_PROGRESS"
    using get [OF st] by simp
  with run n demo_clog(1) [of CLOGPagePrecedes] show ?thesis by blast
qed

end
