(* ===== verification/FsmPage.thy ===== *)
theory FsmPage
  imports PgPrelude "HOL-Library.Signed_Division"
begin

unbundle bit_operations_syntax

section \<open>The free space map page\<close>

text \<open>
  \<^verbatim>\<open>crates/backend/storage/freespace/freespace/src/fsmpage.rs\<close>: one page of the free space map is a
  binary tree kept in an array, each inner node the maximum of its children, the leaves the slots.
  Node numbers are \<^verbatim>\<open>i32\<close>, here \<open>int\<close>: they stay below twice the page size. An access outside
  the array is the failed \<^verbatim>\<open>debug_assert!\<close>, \<open>Panic\<close>. A loop is a
  recursive function, the restarting search an \<open>iterate\<close>. The buffer manager's calls are the
  fields of \<open>fsm_buf\<close>: giving up the shared lock and taking the exclusive one can fail, and can find
  the page changed by others.
\<close>

definition SizeOfPageHeaderData :: int where "SizeOfPageHeaderData = 24"
definition CONTENTS_OFF :: int where "CONTENTS_OFF = (SizeOfPageHeaderData + 7) AND NOT 7"
definition NON_LEAF_NODES_PER_PAGE :: int where "NON_LEAF_NODES_PER_PAGE = 8192 div 2 - 1"
definition NODES_PER_PAGE :: int where "NODES_PER_PAGE = 8192 - CONTENTS_OFF - 4"
definition LEAF_NODES_PER_PAGE :: int where "LEAF_NODES_PER_PAGE = NODES_PER_PAGE - NON_LEAF_NODES_PER_PAGE"
definition SLOTS_PER_FSM_PAGE :: int where "SLOTS_PER_FSM_PAGE = LEAF_NODES_PER_PAGE"

text \<open>The page: whether its header is still zero, the search hint, and the nodes.\<close>

record fsm_page =
  fp_new :: bool
  fp_next_slot :: int
  fp_nodes :: "u8 list"

record fsm_buf =
  relock :: "fsm_page \<Rightarrow> fsm_page res"
  mark_buffer_dirty_hint :: "fsm_page \<Rightarrow> unit res"

definition node :: "fsm_page \<Rightarrow> int \<Rightarrow> u8 res" where
  "node page nodeno =
     (if 0 \<le> nodeno \<and> nodeno < NODES_PER_PAGE then Inr (fp_nodes page ! nat nodeno) else Inl Panic)"

definition set_node :: "int \<Rightarrow> u8 \<Rightarrow> fsm_page \<Rightarrow> fsm_page res" where
  "set_node nodeno value page =
     (if 0 \<le> nodeno \<and> nodeno < NODES_PER_PAGE
      then Inr (page \<lparr> fp_nodes := (fp_nodes page)[nat nodeno := value] \<rparr>) else Inl Panic)"

definition set_next_slot :: "int \<Rightarrow> fsm_page \<Rightarrow> fsm_page" where
  "set_next_slot value page = page \<lparr> fp_next_slot := value \<rparr>"

definition leftchild :: "int \<Rightarrow> int" where
  "leftchild x = 2 * x + 1"

definition parentof :: "int \<Rightarrow> int" where
  "parentof x = (x - 1) sdiv 2"

definition rightneighbor :: "int \<Rightarrow> int" where
  "rightneighbor x = (let x = x + 1 in if (x + 1) AND x = 0 then parentof x else x)"

lemma fsm_sizes:
  "CONTENTS_OFF = 24" "NON_LEAF_NODES_PER_PAGE = 4095" "NODES_PER_PAGE = 8164" "LEAF_NODES_PER_PAGE = 4069"
  "SLOTS_PER_FSM_PAGE = 4069"
  by (simp_all add: CONTENTS_OFF_def SizeOfPageHeaderData_def NON_LEAF_NODES_PER_PAGE_def NODES_PER_PAGE_def
      LEAF_NODES_PER_PAGE_def SLOTS_PER_FSM_PAGE_def)

lemma parentof_div: "1 \<le> x \<Longrightarrow> parentof x = (x - 1) div 2"
  by (simp add: parentof_def signed_divide_int_def sgn_if)

lemma parentof_0 [simp]: "parentof 0 = 0"
  by (simp add: parentof_def signed_divide_int_def)

lemma parentof_bounds: "1 \<le> x \<Longrightarrow> 0 \<le> parentof x \<and> parentof x < x"
  by (simp add: parentof_div)

lemma parentof_pos: "0 \<le> parentof x \<Longrightarrow> parentof x \<noteq> 0 \<Longrightarrow> 0 < x"
proof (rule ccontr)
  assume "0 \<le> parentof x" "parentof x \<noteq> 0" "\<not> 0 < x"
  moreover from this have "parentof x \<le> 0"
    by (auto simp: parentof_def signed_divide_int_def sgn_if)
  ultimately show False by simp
qed

lemma parentof_less: "0 \<le> parentof x \<Longrightarrow> parentof x \<noteq> 0 \<Longrightarrow> parentof x < x"
  using parentof_pos [of x] parentof_bounds [of x] by simp

lemma right_parent_bounds:
  assumes "1 \<le> x" shows "0 \<le> parentof (rightneighbor x)" "parentof (rightneighbor x) < x" "parentof (rightneighbor x) \<le> x div 2"
proof -
  have "1 \<le> rightneighbor x \<and> rightneighbor x \<le> x + 1"
  proof (cases "x = 1")
    case False
    then have "2 \<le> x" using assms by simp
    then show ?thesis
      by (auto simp: rightneighbor_def Let_def parentof_div)
  qed (simp add: rightneighbor_def)
  moreover have "parentof y \<le> x div 2 \<and> 0 \<le> parentof y" if "1 \<le> y" "y \<le> x + 1" for y
    using that by (auto simp: parentof_div zdiv_mono1)
  ultimately show "0 \<le> parentof (rightneighbor x)" "parentof (rightneighbor x) \<le> x div 2"
    by auto
  then show "parentof (rightneighbor x) < x"
    using assms by linarith
qed

subsection \<open>Operations\<close>

text \<open>The larger of a node's children, or the left one when there is no right one.\<close>

definition child_max :: "fsm_page \<Rightarrow> int \<Rightarrow> u8 \<Rightarrow> u8 res" where
  "child_max page rchild newvalue =
     (if rchild < NODES_PER_PAGE then bindR (node page rchild) (\<lambda>v. Inr (max newvalue v)) else Inr newvalue)"

function rebuild_nodes :: "nat \<Rightarrow> bool \<Rightarrow> fsm_page \<Rightarrow> (bool \<times> fsm_page) res" where
  "rebuild_nodes 0 changed page = Inr (changed, page)"
| "rebuild_nodes (Suc n) changed page =
    (let nodeno = int n; lchild = leftchild nodeno; rchild = lchild + 1 in
     bindR (if lchild < NODES_PER_PAGE then node page lchild else Inr 0) (\<lambda>newvalue.
     bindR (child_max page rchild newvalue) (\<lambda>newvalue.
     bindR (node page nodeno) (\<lambda>old.
     if old \<noteq> newvalue then
       bindR (set_node nodeno newvalue page) (\<lambda>page. rebuild_nodes n True page)
     else rebuild_nodes n changed page))))"
  by pat_completeness auto
termination by (relation "measure (\<lambda>(n, _). n)") simp_all

definition fsm_rebuild_page :: "fsm_page \<Rightarrow> (bool \<times> fsm_page) res" where
  "fsm_rebuild_page page = rebuild_nodes (nat NON_LEAF_NODES_PER_PAGE) False page"

function set_avail_up :: "int \<Rightarrow> fsm_page \<Rightarrow> fsm_page res" where
  "set_avail_up nodeno page =
    (let nodeno = parentof nodeno; lchild = leftchild nodeno; rchild = lchild + 1 in
     bindR (node page lchild) (\<lambda>newvalue.
     bindR (child_max page rchild newvalue) (\<lambda>newvalue.
     bindR (node page nodeno) (\<lambda>old.
     if old = newvalue then Inr page
     else bindR (set_node nodeno newvalue page) (\<lambda>page.
       if nodeno = 0 then Inr page else set_avail_up nodeno page)))))"
  by pat_completeness auto
termination
  by (relation "measure (\<lambda>(nodeno, _). nat nodeno)")
    (auto simp: node_def zless_nat_conj intro: parentof_less parentof_pos split: if_splits)

definition fsm_set_avail :: "fsm_page \<Rightarrow> int \<Rightarrow> u8 \<Rightarrow> (bool \<times> fsm_page) res" where
  "fsm_set_avail page slot value =
    (let nodeno = NON_LEAF_NODES_PER_PAGE + slot in
     bindR (node page nodeno) (\<lambda>oldvalue.
     bindR (node page 0) (\<lambda>root.
     if oldvalue = value \<and> value \<le> root then Inr (False, page)
     else
       bindR (set_node nodeno value page) (\<lambda>page.
       bindR (set_avail_up nodeno page) (\<lambda>page.
       bindR (node page 0) (\<lambda>root.
       if value > root then bindR (fsm_rebuild_page page) (\<lambda>(_, page). Inr (True, page))
       else Inr (True, page)))))))"

definition fsm_get_avail :: "fsm_page \<Rightarrow> int \<Rightarrow> u8 res" where
  "fsm_get_avail page slot = node page (NON_LEAF_NODES_PER_PAGE + slot)"

definition fsm_get_max_avail :: "fsm_page \<Rightarrow> u8 res" where
  "fsm_get_max_avail page = node page 0"

text \<open>The expanding search triangle, and the way down; \<open>None\<close> is a torn page.\<close>

function search_up :: "fsm_page \<Rightarrow> u8 \<Rightarrow> int \<Rightarrow> int res" where
  "search_up page minvalue nodeno =
    (if nodeno > 0 then
       bindR (node page nodeno) (\<lambda>v.
         if v \<ge> minvalue then Inr nodeno else search_up page minvalue (parentof (rightneighbor nodeno)))
     else Inr nodeno)"
  by pat_completeness auto
termination
  by (relation "measure (\<lambda>(_, _, nodeno). nat nodeno)") (auto simp: right_parent_bounds(2))

function search_down :: "fsm_page \<Rightarrow> u8 \<Rightarrow> int \<Rightarrow> int option res" where
  "search_down page minvalue nodeno =
    (if nodeno < NON_LEAF_NODES_PER_PAGE then
       let childnodeno = leftchild nodeno in
       bindR (if childnodeno < NODES_PER_PAGE then bindR (node page childnodeno) (\<lambda>v. Inr (v \<ge> minvalue)) else Inr False) (\<lambda>left.
       if left then search_down page minvalue childnodeno
       else
         bindR (if childnodeno + 1 < NODES_PER_PAGE then bindR (node page (childnodeno + 1)) (\<lambda>v. Inr (v \<ge> minvalue))
                else Inr False) (\<lambda>right.
         if right then search_down page minvalue (childnodeno + 1) else Inr None))
     else Inr (Some nodeno))"
  by pat_completeness auto
termination
  by (relation "measure (\<lambda>(_, _, nodeno). nat (NON_LEAF_NODES_PER_PAGE - nodeno))")
    (auto simp: node_def leftchild_def bindR_Inr_iff split: if_splits)

definition search_step ::
  "fsm_buf \<Rightarrow> u8 \<Rightarrow> bool \<Rightarrow> fsm_page \<times> bool \<Rightarrow> ((fsm_page \<times> bool) + int res \<times> fsm_page) option" where
  "search_step B minvalue advancenext = (\<lambda>(page, exclusive_lock_held).
    (case bindR (node page 0) (\<lambda>root.
            if root < minvalue then Inr (Inr (- 1))
            else
              let target = fp_next_slot page;
                  target = (if 0 \<le> target \<and> target < LEAF_NODES_PER_PAGE then target else 0);
                  target = target + NON_LEAF_NODES_PER_PAGE in
              bindR (search_up page minvalue target) (\<lambda>nodeno.
              bindR (search_down page minvalue nodeno) (\<lambda>found. Inr (Inl found)))) of
       Inl e \<Rightarrow> Some (Inr (Inl e, page))
     | Inr (Inr none) \<Rightarrow> Some (Inr (Inr none, page))
     | Inr (Inl (Some nodeno)) \<Rightarrow>
         let slot = nodeno - NON_LEAF_NODES_PER_PAGE in
         Some (Inr (Inr slot, set_next_slot (slot + (if advancenext then 1 else 0)) page))
     | Inr (Inl None) \<Rightarrow>
         Some (case (if exclusive_lock_held then Inr page else relock B page) of
            Inl e \<Rightarrow> Inr (Inl e, page)
          | Inr page \<Rightarrow>
              (case fsm_rebuild_page page of
                 Inl e \<Rightarrow> Inr (Inl e, page)
               | Inr (_, page) \<Rightarrow>
                   (case mark_buffer_dirty_hint B page of
                      Inl e \<Rightarrow> Inr (Inl e, page)
                    | Inr _ \<Rightarrow> Inl (page, True))))))"

definition fsm_search_avail ::
  "fsm_buf \<Rightarrow> fsm_page \<Rightarrow> u8 \<Rightarrow> bool \<Rightarrow> bool \<Rightarrow> (int res \<times> fsm_page) option" where
  "fsm_search_avail B page minvalue advancenext exclusive_lock_held =
     iterate (search_step B minvalue advancenext) (page, exclusive_lock_held)"

fun zero_nodes :: "int list \<Rightarrow> bool \<Rightarrow> fsm_page \<Rightarrow> (bool \<times> fsm_page) res" where
  "zero_nodes [] changed page = Inr (changed, page)"
| "zero_nodes (nodeno # rest) changed page =
     bindR (node page nodeno) (\<lambda>v.
     bindR (set_node nodeno 0 page) (\<lambda>page. zero_nodes rest (changed \<or> v \<noteq> 0) page))"

definition fsm_truncate_avail :: "fsm_page \<Rightarrow> int \<Rightarrow> (bool \<times> fsm_page) res" where
  "fsm_truncate_avail page nslots =
    (if \<not> (0 \<le> nslots \<and> nslots < LEAF_NODES_PER_PAGE) then Inl Panic
     else bindR (zero_nodes [NON_LEAF_NODES_PER_PAGE + nslots .. NODES_PER_PAGE - 1] False page) (\<lambda>(changed, page).
       if changed then bindR (fsm_rebuild_page page) (\<lambda>(_, page). Inr (changed, page)) else Inr (changed, page)))"

subsection \<open>The tree\<close>

text \<open>
  \<open>page_wf\<close> is an initialised page; \<open>nval\<close> reads a node, zero outside the page; a sound tree is one in which each inner node
  is the maximum of its children. \<open>leaves\<close> is what the page records.
\<close>

definition page_wf :: "fsm_page \<Rightarrow> bool" where
  "page_wf p \<longleftrightarrow> \<not> fp_new p \<and> length (fp_nodes p) = 8164"

definition nval :: "fsm_page \<Rightarrow> nat \<Rightarrow> u8" where
  "nval p n = (if n < 8164 then fp_nodes p ! n else 0)"

definition want :: "fsm_page \<Rightarrow> nat \<Rightarrow> u8" where
  "want p n = max (nval p (2 * n + 1)) (nval p (2 * n + 2))"

definition heap_except :: "nat set \<Rightarrow> fsm_page \<Rightarrow> bool" where
  "heap_except N p \<longleftrightarrow> (\<forall>n < 4095. n \<notin> N \<longrightarrow> nval p n = want p n)"

abbreviation heap :: "fsm_page \<Rightarrow> bool" where
  "heap p \<equiv> heap_except {} p"

definition leaves :: "fsm_page \<Rightarrow> u8 list" where
  "leaves p = drop 4095 (fp_nodes p)"

definition put :: "nat \<Rightarrow> u8 \<Rightarrow> fsm_page \<Rightarrow> fsm_page" where
  "put n v p = p \<lparr> fp_nodes := (fp_nodes p)[n := v] \<rparr>"

lemma node_nval: "n < 8164 \<Longrightarrow> node p (int n) = Inr (nval p n)"
  by (simp add: node_def nval_def fsm_sizes)

lemma set_node_put: "n < 8164 \<Longrightarrow> set_node (int n) v p = Inr (put n v p)"
  by (simp add: set_node_def put_def fsm_sizes)

lemma put_simps [simp]:
  "page_wf (put n v p) \<longleftrightarrow> page_wf p"
  "page_wf p \<Longrightarrow> m < 8164 \<Longrightarrow> nval (put m v p) n = (if n = m then v else nval p n)"
  "fp_next_slot (put n v p) = fp_next_slot p"
  by (auto simp: put_def page_wf_def nval_def)

lemma leaves_length [simp]: "page_wf p \<Longrightarrow> length (leaves p) = 4069"
  by (simp add: leaves_def page_wf_def)

lemma leaves_nth: "page_wf p \<Longrightarrow> i < 4069 \<Longrightarrow> leaves p ! i = nval p (4095 + i)"
  by (simp add: leaves_def page_wf_def nval_def)

lemma leaves_put_inner [simp]: "n < 4095 \<Longrightarrow> leaves (put n v p) = leaves p"
  by (simp add: leaves_def put_def)

lemma leaves_put_leaf: "page_wf p \<Longrightarrow> leaves (put (4095 + i) v p) = (leaves p)[i := v]"
  by (simp add: leaves_def put_def drop_update_swap page_wf_def)

lemma set_next_slot_simps [simp]:
  "page_wf (set_next_slot i p) \<longleftrightarrow> page_wf p" "leaves (set_next_slot i p) = leaves p"
  "nval (set_next_slot i p) n = nval p n" "heap_except N (set_next_slot i p) \<longleftrightarrow> heap_except N p"
  by (simp_all add: set_next_slot_def page_wf_def leaves_def nval_def heap_except_def want_def)

lemma node_int: "node p (int n) = (if n < 8164 then Inr (nval p n) else Inl Panic)"
  by (simp add: node_def nval_def fsm_sizes)

lemma child_max_nval: "child_max p (int n) v = Inr (max v (nval p n))"
  by (simp add: child_max_def fsm_sizes node_int nval_def max_def)

lemma left_nval: "(if int n < NODES_PER_PAGE then node p (int n) else Inr 0) = Inr (nval p n)"
  by (simp add: fsm_sizes node_int nval_def)

lemma leftchild_int: "leftchild (int n) = int (2 * n + 1)" "int (2 * n + 1) + 1 = int (2 * n + 2)"
  by (simp_all add: leftchild_def)

lemma parentof_int: "parentof (int (Suc n)) = int (n div 2)"
  by (simp add: parentof_div zdiv_int)

subsection \<open>Rebuilding\<close>

lemma rebuild_node:
  assumes "page_wf p" and "n < 4095"
  shows "rebuild_nodes (Suc n) c p =
    (if nval p n \<noteq> want p n then rebuild_nodes n True (put n (want p n) p) else rebuild_nodes n c p)"
  unfolding rebuild_nodes.simps Let_def leftchild_int left_nval bindR_simps child_max_nval
  using assms(2) by (simp add: node_nval set_node_put want_def)

lemma want_put:
  assumes "page_wf p" and "m < 8164" and "2 * n + 1 \<noteq> m" and "2 * n + 2 \<noteq> m"
  shows "want (put m v p) n = want p n"
  using assms by (simp add: want_def)

lemma rebuild_nodes_ok:
  assumes "page_wf p" and "n \<le> 4095" and "heap_except {..<n} p"
  shows "\<exists>b p'. rebuild_nodes n c p = Inr (b, p') \<and> page_wf p' \<and> heap p' \<and> leaves p' = leaves p"
  using assms
proof (induction n arbitrary: c p)
  case 0
  then show ?case by simp
next
  case (Suc n)
  have less: "n < 4095" using Suc.prems by simp
  show ?case
  proof (cases "nval p n = want p n")
    case True
    have "heap_except {..<n} p"
      using Suc.prems(3) True by (auto simp: heap_except_def less_Suc_eq)
    with Suc.IH [of p c] Suc.prems less True show ?thesis
      by (simp add: rebuild_node del: rebuild_nodes.simps)
  next
    case False
    let ?q = "put n (want p n) p"
    have "heap_except {..<n} ?q"
      using Suc.prems less by (auto simp: heap_except_def less_Suc_eq want_put not_less)
    with Suc.IH [of ?q True] Suc.prems less False show ?thesis
      by (simp add: rebuild_node del: rebuild_nodes.simps)
  qed
qed

lemma rebuild_ok:
  assumes "page_wf p"
  shows "\<exists>b p'. fsm_rebuild_page p = Inr (b, p') \<and> page_wf p' \<and> heap p' \<and> leaves p' = leaves p"
  using rebuild_nodes_ok [OF assms, of 4095 False] by (simp add: fsm_rebuild_page_def fsm_sizes heap_except_def)

text \<open>In a sound tree the root is the largest leaf.\<close>

lemma heap_parent_le:
  assumes "heap p" and "0 < n" and "n < 8164"
  shows "nval p n \<le> nval p ((n - 1) div 2)"
proof -
  let ?q = "(n - 1) div 2"
  have "n = 2 * ?q + 1 \<or> n = 2 * ?q + 2" "?q < 4095"
    using assms(2,3) by presburger+
  then have "nval p n \<le> want p ?q"
    by (auto simp: want_def)
  with assms(1) \<open>?q < 4095\<close> show ?thesis
    by (simp add: heap_except_def)
qed

lemma heap_below_root: "heap p \<Longrightarrow> n < 8164 \<Longrightarrow> nval p n \<le> nval p 0"
proof (induction n rule: less_induct)
  case (less n)
  show ?case
  proof (cases "n = 0")
    case False
    then have "nval p n \<le> nval p ((n - 1) div 2)"
      using less.prems by (intro heap_parent_le) auto
    also have "\<dots> \<le> nval p 0"
      using less False by auto
    finally show ?thesis .
  qed simp
qed

lemma heap_root_max: "page_wf p \<Longrightarrow> heap p \<Longrightarrow> i < 4069 \<Longrightarrow> leaves p ! i \<le> nval p 0"
  by (simp add: leaves_nth heap_below_root)

subsection \<open>Setting a slot\<close>

lemma set_avail_up_step:
  assumes "page_wf p" and "0 < n" and "n < 8164"
  shows "set_avail_up (int n) p =
    (let q = (n - 1) div 2 in
     if nval p q = want p q then Inr p
     else if q = 0 then Inr (put q (want p q) p) else set_avail_up (int q) (put q (want p q) p))"
proof -
  have q: "parentof (int n) = int ((n - 1) div 2)"
    using parentof_int [of "n - 1"] assms(2) by simp
  have l: "2 * ((n - 1) div 2) + 1 < 8164" "(n - 1) div 2 < 8164"
    using assms(3) by auto
  show ?thesis
    unfolding set_avail_up.simps [of "int n"] Let_def q leftchild_int node_nval [OF l(1)] node_nval [OF l(2)]
      bindR_simps child_max_nval set_node_put [OF l(2)] want_def
    by simp
qed

lemma set_avail_up_ok:
  assumes "page_wf p" and "0 < n" and "n < 8164" and "H \<Longrightarrow> heap_except {(n - 1) div 2} p"
  shows "\<exists>p'. set_avail_up (int n) p = Inr p' \<and> page_wf p' \<and> leaves p' = leaves p \<and> (H \<longrightarrow> heap p')"
  using assms
proof (induction n arbitrary: p rule: less_induct)
  case (less n)
  let ?q = "(n - 1) div 2"
  have q: "?q < n" "?q < 4095"
    using less.prems(2,3) by auto
  show ?case
  proof (cases "nval p ?q = want p ?q")
    case True
    then have "H \<longrightarrow> heap p"
      using less.prems(4) by (auto simp: heap_except_def)
    with True less.prems show ?thesis
      by (simp add: set_avail_up_step Let_def del: set_avail_up.simps)
  next
    case False
    let ?p = "put ?q (want p ?q) p"
    have rest: "heap_except {(?q - 1) div 2} ?p" and top: "?q = 0 \<Longrightarrow> heap ?p" if H
    proof -
      have "nval ?p m = want ?p m" if "m < 4095" "m \<noteq> (?q - 1) div 2 \<or> ?q = 0" for m
      proof -
        have "2 * m + 1 \<noteq> ?q" "2 * m + 2 \<noteq> ?q"
          using that(2) by auto
        then have "want ?p m = want p m"
          using less.prems(1) q by (simp add: want_put)
        with that(1) \<open>H\<close> less.prems(1,4) q show ?thesis
          by (simp add: heap_except_def)
      qed
      then show "heap_except {(?q - 1) div 2} ?p" "?q = 0 \<Longrightarrow> heap ?p"
        by (auto simp: heap_except_def)
    qed
    show ?thesis
    proof (cases "?q = 0")
      case True
      with False less.prems q top show ?thesis
        by (simp add: set_avail_up_step Let_def del: set_avail_up.simps)
    next
      case nz: False
      have "\<exists>p'. set_avail_up (int ?q) ?p = Inr p' \<and> page_wf p' \<and> leaves p' = leaves ?p \<and> (H \<longrightarrow> heap p')"
        by (rule less.IH) (use less.prems q nz rest in auto)
      with False nz less.prems q show ?thesis
        by (simp add: set_avail_up_step Let_def del: set_avail_up.simps)
    qed
  qed
qed

lemma set_avail_ok:
  assumes wf: "page_wf p" and i: "i < 4069"
  shows "\<exists>b p'. fsm_set_avail p (int i) v = Inr (b, p') \<and> page_wf p' \<and> leaves p' = (leaves p)[i := v]
    \<and> (heap p \<longrightarrow> heap p') \<and> v \<le> nval p' 0 \<and> (\<not> b \<longrightarrow> p' = p)"
proof -
  let ?n = "4095 + i"
  have n: "NON_LEAF_NODES_PER_PAGE + int i = int ?n" "?n < 8164" "0 < ?n"
    using i by (simp_all add: fsm_sizes)
  have zero: "node q 0 = Inr (nval q 0)" for q
    using node_nval [of 0 q] by simp
  show ?thesis
  proof (cases "nval p ?n = v \<and> v \<le> nval p 0")
    case True
    then have "(leaves p)[i := v] = leaves p"
      using wf i leaves_nth [of p i] by (metis list_update_id)
    with True wf n show ?thesis
      unfolding fsm_set_avail_def n(1) Let_def node_nval [OF n(2)] by (auto simp: zero)
  next
    case False
    let ?p = "put ?n v p"
    have "heap_except {(?n - 1) div 2} ?p" if h: "heap p"
    proof -
      have "nval ?p m = want ?p m" if "m < 4095" "m \<noteq> (?n - 1) div 2" for m
      proof -
        have "2 * m + 1 \<noteq> ?n" "2 * m + 2 \<noteq> ?n"
          using that(2) by auto
        then show ?thesis
          using h that(1) wf n by (simp add: want_put heap_except_def)
      qed
      then show ?thesis by (auto simp: heap_except_def)
    qed
    then obtain p' where p': "set_avail_up (int ?n) ?p = Inr p'" "page_wf p'" "leaves p' = leaves ?p"
      "heap p \<longrightarrow> heap p'"
      using set_avail_up_ok [of ?p ?n "heap p"] wf n by auto
    obtain c p'' where r: "fsm_rebuild_page p' = Inr (c, p'')" "page_wf p''" "heap p''" "leaves p'' = leaves p'"
      using rebuild_ok [OF p'(2)] by blast
    have root: "v \<le> nval p'' 0"
    proof -
      have "leaves p'' ! i = v"
        using r(4) p'(3) wf i by (simp add: leaves_put_leaf)
      then show ?thesis
        using heap_root_max [OF r(2,3) i] by simp
    qed
    show ?thesis
      using False wf n p' r root
      unfolding fsm_set_avail_def n(1) Let_def node_nval [OF n(2)] set_node_put [OF n(2)]
      by (auto simp: zero leaves_put_leaf not_less simp del: set_avail_up.simps)
  qed
qed

subsection \<open>Searching\<close>

declare search_up.simps [simp del] and search_down.simps [simp del] and set_avail_up.simps [simp del]

lemma search_up_ok:
  assumes "page_wf p" and "lim \<le> nval p 0" and "n < 8164"
  shows "\<exists>m. search_up p lim (int n) = Inr (int m) \<and> m < 8164 \<and> lim \<le> nval p m \<and> (lim = 0 \<longrightarrow> m = n)"
  using assms(3)
proof (induction n rule: less_induct)
  case (less n)
  consider "n = 0" | "0 < n" "lim \<le> nval p n" | "0 < n" "\<not> lim \<le> nval p n" by auto
  then show ?case
  proof cases
    case 1
    then show ?thesis
      using assms(2) by (auto simp: search_up.simps [of _ _ 0] intro!: exI [of _ 0])
  next
    case 2
    then show ?thesis
      using less.prems by (auto simp: search_up.simps [of _ _ "int n"] node_nval)
  next
    case 3
    define q where "q = nat (parentof (rightneighbor (int n)))"
    have q: "parentof (rightneighbor (int n)) = int q" "q < n"
      using right_parent_bounds [of "int n"] 3(1) by (auto simp: q_def)
    have "search_up p lim (int n) = search_up p lim (int q)"
      using 3 less.prems q(1) by (simp add: search_up.simps [of _ _ "int n"] node_nval)
    with less.IH [OF q(2)] less.prems q(2) 3 show ?thesis by auto
  qed
qed

text \<open>The way down ends at a leaf that is large enough, or shows that the tree is torn.\<close>

lemma search_down_step:
  assumes "n < 4095"
  shows "search_down p lim (int n) =
    (if 2 * n + 1 < 8164 \<and> lim \<le> nval p (2 * n + 1) then search_down p lim (int (2 * n + 1))
     else if 2 * n + 2 < 8164 \<and> lim \<le> nval p (2 * n + 2) then search_down p lim (int (2 * n + 2))
     else Inr None)"
proof -
  have child: "(if int m < NODES_PER_PAGE then bindR (node p (int m)) (\<lambda>v. Inr (lim \<le> v)) else Inr False)
      = Inr (m < 8164 \<and> lim \<le> nval p m)" for m
    by (simp add: fsm_sizes node_int)
  show ?thesis
    unfolding search_down.simps [of p lim "int n"] Let_def leftchild_int child bindR_simps
    using assms by (simp add: fsm_sizes)
qed

lemma search_down_ok:
  assumes "page_wf p" and "n < 8164" and "lim \<le> nval p n"
  shows "(\<exists>i < 4069. search_down p lim (int n) = Inr (Some (int (4095 + i))) \<and> lim \<le> leaves p ! i)
    \<or> search_down p lim (int n) = Inr None \<and> n < 4095 \<and> \<not> (heap p \<and> 0 < lim)"
  using assms(2,3)
proof (induction "8164 - n" arbitrary: n rule: less_induct)
  case less
  show ?case
  proof (cases "n < 4095")
    case False
    then have "search_down p lim (int n) = Inr (Some (int (4095 + (n - 4095))))" "n - 4095 < 4069"
      using less.prems by (simp_all add: search_down.simps [of _ _ "int n"] fsm_sizes)
    moreover have "lim \<le> leaves p ! (n - 4095)"
      using leaves_nth [OF assms(1), of "n - 4095"] False less.prems by simp
    ultimately show ?thesis by blast
  next
    case True
    consider (left) "2 * n + 1 < 8164 \<and> lim \<le> nval p (2 * n + 1)"
      | (right) "\<not> (2 * n + 1 < 8164 \<and> lim \<le> nval p (2 * n + 1))" "2 * n + 2 < 8164 \<and> lim \<le> nval p (2 * n + 2)"
      | (torn) "\<not> (2 * n + 1 < 8164 \<and> lim \<le> nval p (2 * n + 1))" "\<not> (2 * n + 2 < 8164 \<and> lim \<le> nval p (2 * n + 2))"
      by blast
    then show ?thesis
    proof cases
      case left
      then have "8164 - (2 * n + 1) < 8164 - n" by arith
      from less.hyps [OF this] left have "(\<exists>i < 4069. search_down p lim (int (2 * n + 1)) = Inr (Some (int (4095 + i))) \<and> lim \<le> leaves p ! i)
          \<or> search_down p lim (int (2 * n + 1)) = Inr None \<and> \<not> (heap p \<and> 0 < lim)"
        by blast
      moreover have "search_down p lim (int n) = search_down p lim (int (2 * n + 1))"
        using search_down_step [OF True] left by simp
      ultimately show ?thesis
        using True by simp
    next
      case right
      then have "8164 - (2 * n + 2) < 8164 - n" by arith
      from less.hyps [OF this] right have "(\<exists>i < 4069. search_down p lim (int (2 * n + 2)) = Inr (Some (int (4095 + i))) \<and> lim \<le> leaves p ! i)
          \<or> search_down p lim (int (2 * n + 2)) = Inr None \<and> \<not> (heap p \<and> 0 < lim)"
        by blast
      moreover have "search_down p lim (int n) = search_down p lim (int (2 * n + 2))"
        using right by (simp only: search_down_step [OF True, of p lim] if_False if_True simp_thms)
      ultimately show ?thesis
        using True by simp
    next
      case torn
      have "\<not> heap p" if "0 < lim"
      proof
        assume "heap p"
        then have "lim \<le> want p n"
          using True less.prems(2) by (simp add: heap_except_def)
        with torn that show False
          by (auto simp: want_def nval_def max_def split: if_splits)
      qed
      with torn True show ?thesis
        by (auto simp: search_down_step)
    qed
  qed
qed

text \<open>What the buffer manager promises: the page found after relocking is a page.\<close>

definition buf_ok :: "fsm_buf \<Rightarrow> bool" where
  "buf_ok B \<longleftrightarrow> (\<forall>p p'. page_wf p \<longrightarrow> relock B p = Inr p' \<longrightarrow> page_wf p')"

definition search_post :: "fsm_buf \<Rightarrow> u8 \<Rightarrow> int res \<times> fsm_page \<Rightarrow> bool" where
  "search_post B lim = (\<lambda>(r, p). page_wf p \<and>
     (case r of
        Inl e \<Rightarrow> \<exists>q. page_wf q \<and> (relock B q = Inl e \<or> mark_buffer_dirty_hint B q = Inl e)
      | Inr slot \<Rightarrow> slot = - 1 \<and> nval p 0 < lim
          \<or> (\<exists>i < 4069. slot = int i \<and> lim \<le> leaves p ! i)))"

lemma hint_target:
  "\<exists>i < 4069. (if 0 \<le> t \<and> t < LEAF_NODES_PER_PAGE then t else 0) + NON_LEAF_NODES_PER_PAGE = int (4095 + i)"
proof (cases "0 \<le> t \<and> t < 4069")
  case True
  then show ?thesis by (intro exI [of _ "nat t"]) (auto simp: fsm_sizes)
qed (auto simp: fsm_sizes)

text \<open>
  One pass of the search: it leaves, without touching more than the hint; or the tree is torn, and it
  continues with a sound one or fails in the buffer manager.
\<close>

lemma search_pass:
  assumes p: "page_wf p" and B: "buf_ok B"
  shows "(\<exists>slot h. search_step B lim adv (p, x) = Some (Inr (Inr slot, set_next_slot h p))
      \<and> search_post B lim (Inr slot, set_next_slot h p))
    \<or> \<not> heap p \<and> ((\<exists>p'. search_step B lim adv (p, x) = Some (Inl (p', True)) \<and> page_wf p' \<and> heap p'
          \<and> (x \<longrightarrow> leaves p' = leaves p))
        \<or> (\<exists>e p'. search_step B lim adv (p, x) = Some (Inr (Inl e, p')) \<and> search_post B lim (Inl e, p')
          \<and> (x \<longrightarrow> leaves p' = leaves p)))"
proof (cases "nval p 0 < lim")
  case True
  have "set_next_slot (fp_next_slot p) p = p"
    by (simp add: set_next_slot_def)
  moreover have "search_step B lim adv (p, x) = Some (Inr (Inr (- 1), p))"
    using True node_nval [of 0 p] by (simp add: search_step_def)
  ultimately show ?thesis
    using True p by (intro disjI1 exI [of _ "- 1"] exI [of _ "fp_next_slot p"]) (simp add: search_post_def)
next
  case False
  obtain t where t: "t < 4069"
    "(if 0 \<le> fp_next_slot p \<and> fp_next_slot p < LEAF_NODES_PER_PAGE then fp_next_slot p else 0) + NON_LEAF_NODES_PER_PAGE
      = int (4095 + t)"
    using hint_target by blast
  obtain m where m: "search_up p lim (int (4095 + t)) = Inr (int m)" "m < 8164" "lim \<le> nval p m" "lim = 0 \<longrightarrow> m = 4095 + t"
    using search_up_ok [OF p, of lim "4095 + t"] False t(1) by (auto simp: not_less)
  have root: "node p 0 = Inr (nval p 0)"
    using node_nval [of 0 p] by simp
  from search_down_ok [OF p m(2,3)] show ?thesis
  proof (elim disjE exE conjE)
    fix i assume i: "i < 4069" "search_down p lim (int m) = Inr (Some (int (4095 + i)))" "lim \<le> leaves p ! i"
    have "search_step B lim adv (p, x) =
        Some (Inr (Inr (int i), set_next_slot (int i + (if adv then 1 else 0)) p))"
      unfolding search_step_def prod.case root bindR_simps Let_def t(2) m(1) i(2)
      using False by (simp add: fsm_sizes)
    with i p show ?thesis
      by (intro disjI1 exI conjI) (auto simp: search_post_def)
  next
    assume torn: "search_down p lim (int m) = Inr None" "m < 4095" "\<not> (heap p \<and> 0 < lim)"
    then have "0 < lim"
      using m(4) by (auto simp: word_neq_0_conv)
    with torn have h: "\<not> heap p" by simp
    have run: "search_step B lim adv (p, x) =
        Some (case (if x then Inr p else relock B p) of
            Inl e \<Rightarrow> Inr (Inl e, p)
          | Inr page \<Rightarrow>
              (case fsm_rebuild_page page of
                 Inl e \<Rightarrow> Inr (Inl e, page)
               | Inr (_, page) \<Rightarrow>
                   (case mark_buffer_dirty_hint B page of
                      Inl e \<Rightarrow> Inr (Inl e, page)
                    | Inr _ \<Rightarrow> Inl (page, True))))"
      unfolding search_step_def prod.case root bindR_simps Let_def t(2) m(1) torn(1)
      using False by simp
    show ?thesis
    proof (cases "if x then Inr p else relock B p")
      case (Inl e)
      then have "relock B p = Inl e"
        by (simp split: if_splits)
      with run Inl h p show ?thesis
        by (auto simp: search_post_def)
    next
      case (Inr q)
      then have q: "page_wf q" "x \<longrightarrow> q = p"
        using B p by (auto simp: buf_ok_def split: if_splits)
      obtain b q' where q': "fsm_rebuild_page q = Inr (b, q')" "page_wf q'" "heap q'" "leaves q' = leaves q"
        using rebuild_ok [OF q(1)] by blast
      show ?thesis
        using run Inr q q' h by (cases "mark_buffer_dirty_hint B q'") (auto simp: search_post_def)
    qed
  qed
qed

lemma search_avail_ok:
  assumes p: "page_wf p" and B: "buf_ok B"
  shows "\<exists>r p'. fsm_search_avail B p lim adv x = Some (r, p') \<and> search_post B lim (r, p')
    \<and> (heap p \<or> x \<longrightarrow> leaves p' = leaves p) \<and> (heap p \<longrightarrow> (\<exists>slot h. r = Inr slot \<and> p' = set_next_slot h p))"
proof -
  let ?step = "search_step B lim adv"
  have sound: "\<exists>slot h. iterate ?step (q, y) = Some (Inr slot, set_next_slot h q) \<and> search_post B lim (Inr slot, set_next_slot h q)"
    if "page_wf q" "heap q" for q y
    using search_pass [OF that(1) B, of lim adv y] that(2) by auto
  from search_pass [OF p B, of lim adv x] show ?thesis
  proof (elim disjE exE conjE)
    fix q assume q: "?step (p, x) = Some (Inl (q, True))" "page_wf q" "heap q" "x \<longrightarrow> leaves q = leaves p" "\<not> heap p"
    from sound [OF q(2,3), of True] obtain slot h where
      "iterate ?step (p, x) = Some (Inr slot, set_next_slot h q)" "search_post B lim (Inr slot, set_next_slot h q)"
      using q(1) by (auto simp: iterate_step)
    with q(4,5) show ?thesis
      by (auto simp: fsm_search_avail_def)
  qed (auto simp: fsm_search_avail_def)
qed

subsection \<open>Truncating\<close>

lemma zero_nodes_ok:
  assumes "page_wf p" and "4095 + n + k = 8164"
  shows "\<exists>p'. zero_nodes [int (4095 + n) .. int (4095 + n + k) - 1] c p
      = Inr (c \<or> (\<exists>i < 4069. n \<le> i \<and> leaves p ! i \<noteq> 0), p')
    \<and> page_wf p' \<and> leaves p' = take n (leaves p) @ replicate k 0
    \<and> (\<forall>m < 4095. nval p' m = nval p m)"
  using assms
proof (induction k arbitrary: n c p)
  case 0
  then have n: "n = 4069" by simp
  with 0 show ?case by auto
next
  case (Suc k)
  let ?q = "put (4095 + n) 0 p"
  have n: "n < 4069" "4095 + n < 8164" using Suc.prems by simp_all
  have list: "[int (4095 + n) .. int (4095 + n + Suc k) - 1] = int (4095 + n) # [int (4095 + Suc n) .. int (4095 + Suc n + k) - 1]"
    by (subst upto.simps) simp
  have leaf: "nval p (4095 + n) = leaves p ! n" "leaves ?q = (leaves p)[n := 0]"
    using Suc.prems n by (simp_all add: leaves_nth leaves_put_leaf)
  obtain p' where p': "zero_nodes [int (4095 + Suc n) .. int (4095 + Suc n + k) - 1] (c \<or> leaves p ! n \<noteq> 0) ?q
      = Inr ((c \<or> leaves p ! n \<noteq> 0) \<or> (\<exists>i < 4069. Suc n \<le> i \<and> leaves ?q ! i \<noteq> 0), p')"
    "page_wf p'" "leaves p' = take (Suc n) (leaves ?q) @ replicate k 0" "\<forall>m < 4095. nval p' m = nval ?q m"
    using Suc.IH [of ?q "Suc n" "c \<or> leaves p ! n \<noteq> 0"] Suc.prems by auto
  have any: "((c \<or> leaves p ! n \<noteq> 0) \<or> (\<exists>i < 4069. Suc n \<le> i \<and> leaves ?q ! i \<noteq> 0))
      \<longleftrightarrow> (c \<or> (\<exists>i < 4069. n \<le> i \<and> leaves p ! i \<noteq> 0))"
  proof -
    have "(\<exists>i < 4069. Suc n \<le> i \<and> leaves ?q ! i \<noteq> 0) \<longleftrightarrow> (\<exists>i < 4069. Suc n \<le> i \<and> leaves p ! i \<noteq> 0)"
      unfolding leaf(2) by (intro ex_cong1) auto
    moreover have "(\<exists>i < 4069. n \<le> i \<and> leaves p ! i \<noteq> 0)
        \<longleftrightarrow> leaves p ! n \<noteq> 0 \<or> (\<exists>i < 4069. Suc n \<le> i \<and> leaves p ! i \<noteq> 0)"
      using n by (auto simp: Suc_le_eq le_less)
    ultimately show ?thesis by blast
  qed
  have "take (Suc n) (leaves ?q) = take n (leaves p) @ [0]"
    unfolding leaf(2) using n Suc.prems(1) by (simp add: take_Suc_conv_app_nth)
  then have "leaves p' = take n (leaves p) @ replicate (Suc k) 0"
    using p'(3) by simp
  moreover have "\<forall>m < 4095. nval p' m = nval p m"
    using p'(4) Suc.prems n by simp
  ultimately show ?case
    using p'(1,2) unfolding list zero_nodes.simps node_nval [OF n(2)] set_node_put [OF n(2)] bindR_simps leaf(1) any
    by blast
qed

lemma truncate_avail_ok:
  assumes wf: "page_wf p" and n: "n < 4069"
  shows "\<exists>b p'. fsm_truncate_avail p (int n) = Inr (b, p') \<and> page_wf p'
    \<and> leaves p' = take n (leaves p) @ replicate (4069 - n) 0 \<and> (heap p \<longrightarrow> heap p')
    \<and> (b \<longleftrightarrow> leaves p' \<noteq> leaves p)"
proof -
  let ?b = "\<exists>i < 4069. n \<le> i \<and> leaves p ! i \<noteq> 0"
  have range: "NON_LEAF_NODES_PER_PAGE + int n = int (4095 + n)" "NODES_PER_PAGE - 1 = int (4095 + n + (4069 - n)) - 1"
    using n by (simp_all add: fsm_sizes)
  obtain p' where p': "zero_nodes [int (4095 + n) .. int (4095 + n + (4069 - n)) - 1] False p = Inr (?b, p')"
    "page_wf p'" "leaves p' = take n (leaves p) @ replicate (4069 - n) 0" "\<forall>m < 4095. nval p' m = nval p m"
    using zero_nodes_ok [OF wf, of n "4069 - n" False] n by auto
  have diff: "?b \<longleftrightarrow> leaves p' \<noteq> leaves p"
  proof
    assume ?b
    then obtain i where "i < 4069" "n \<le> i" "leaves p ! i \<noteq> 0" by blast
    then have "leaves p' ! i \<noteq> leaves p ! i"
      using p'(3) wf n by (simp add: nth_append)
    then show "leaves p' \<noteq> leaves p" by auto
  next
    assume ne: "leaves p' \<noteq> leaves p"
    show ?b
    proof (rule ccontr)
      assume "\<not> ?b"
      then have "leaves p' = leaves p"
        using p'(3) wf n by (intro nth_equalityI) (auto simp: nth_append)
      with ne show False ..
    qed
  qed
  obtain c q where q: "fsm_rebuild_page p' = Inr (c, q)" "page_wf q" "heap q" "leaves q = leaves p'"
    using rebuild_ok [OF p'(2)] by blast
  have guard: "0 \<le> int n \<and> int n < LEAF_NODES_PER_PAGE"
    using n by (simp add: fsm_sizes)
  show ?thesis
  proof (cases ?b)
    case True
    then have "fsm_truncate_avail p (int n) = Inr (True, q)"
      unfolding fsm_truncate_avail_def range p'(1) using guard q(1) by simp
    with True q p' diff show ?thesis by auto
  next
    case False
    then have "fsm_truncate_avail p (int n) = Inr (False, p')"
      unfolding fsm_truncate_avail_def range p'(1) using guard by auto
    moreover have "nval p' m = nval p m" for m
    proof (cases "m < 4095")
      case m: False
      then show ?thesis
        using False diff leaves_nth [OF wf, of "m - 4095"] leaves_nth [OF p'(2), of "m - 4095"]
        by (cases "m < 8164") (auto simp: nval_def)
    qed (use p'(4) in simp)
    ultimately show ?thesis
      using False p' diff by (auto simp: heap_except_def want_def)
  qed
qed

subsection \<open>Properties\<close>

text \<open>
  C36: recording a slot. On an initialised page \<^verbatim>\<open>fsm_set_avail\<close> never leaves the array, changes that slot and no
  other, keeps the tree sound when it was, and even on a torn tree ends with a root that
  is at least the value, so a search from the root sees the slot; it reports no change only when nothing changed.
\<close>

theorem fsm_set_avail_correct:
  assumes "page_wf p" and "0 \<le> slot" and "slot < SLOTS_PER_FSM_PAGE"
  shows "\<exists>b p'. fsm_set_avail p slot v = Inr (b, p') \<and> page_wf p' \<and> leaves p' = (leaves p)[nat slot := v]
    \<and> fsm_get_avail p' slot = Inr v \<and> (heap p \<longrightarrow> heap p')
    \<and> (\<exists>root. fsm_get_max_avail p' = Inr root \<and> v \<le> root) \<and> (\<not> b \<longrightarrow> p' = p)"
proof -
  obtain i where i: "slot = int i" "i < 4069"
    using assms(2,3) nonneg_int_cases [OF assms(2)] by (auto simp: fsm_sizes)
  obtain b p' where p': "fsm_set_avail p (int i) v = Inr (b, p')" "page_wf p'" "leaves p' = (leaves p)[i := v]"
    "heap p \<longrightarrow> heap p'" "v \<le> nval p' 0" "\<not> b \<longrightarrow> p' = p"
    using set_avail_ok [OF assms(1) i(2)] by blast
  have "fsm_get_avail p' slot = Inr (leaves p' ! i)"
    using i p'(2) node_nval [of "4095 + i" p'] by (simp add: fsm_get_avail_def fsm_sizes leaves_nth)
  moreover have "leaves p' ! i = v"
    using p'(3) assms(1) i(2) by simp
  moreover have "fsm_get_max_avail p' = Inr (nval p' 0)"
    using node_nval [of 0 p'] by (simp add: fsm_get_max_avail_def)
  ultimately show ?thesis
    using p' i(1) by simp
qed

text \<open>
  C35: the search finds. For every page, torn or not, and whatever the buffer manager and other backends do while the lock is exchanged,
  \<^verbatim>\<open>fsm_search_avail\<close> returns, and a slot it returns is a slot of the page with at least the wanted value; on
  a sound tree it records nothing but the hint, cannot fail, and answers -1 exactly if no slot has the value.
\<close>

theorem fsm_search_avail_finds:
  assumes "page_wf p" and "buf_ok B"
  shows "\<exists>r p'. fsm_search_avail B p lim adv x = Some (r, p') \<and> page_wf p'
    \<and> (\<forall>slot. r = Inr slot \<longrightarrow> slot \<noteq> - 1 \<longrightarrow> 0 \<le> slot \<and> slot < SLOTS_PER_FSM_PAGE \<and> lim \<le> leaves p' ! nat slot)
    \<and> (heap p \<longrightarrow> leaves p' = leaves p \<and> (\<exists>slot. r = Inr slot) \<and> (r = Inr (- 1) \<longleftrightarrow> (\<forall>v \<in> set (leaves p). v < lim)))"
proof -
  obtain r p' where r: "fsm_search_avail B p lim adv x = Some (r, p')" "search_post B lim (r, p')"
    "heap p \<or> x \<longrightarrow> leaves p' = leaves p" "heap p \<longrightarrow> (\<exists>slot h. r = Inr slot \<and> p' = set_next_slot h p)"
    using search_avail_ok [OF assms, of lim adv x] by (elim exE conjE) (rule that)
  have slot: "0 \<le> slot \<and> slot < SLOTS_PER_FSM_PAGE \<and> lim \<le> leaves p' ! nat slot" if "r = Inr slot" "slot \<noteq> - 1" for slot
    using r(2) that by (auto simp: search_post_def fsm_sizes)
  have "r = Inr (- 1) \<longleftrightarrow> (\<forall>v \<in> set (leaves p). v < lim)" if h: "heap p"
  proof -
    obtain s g where s: "r = Inr s" "p' = set_next_slot g p"
      using r(4) h by blast
    show ?thesis
    proof (cases "s = - 1")
      case True
      then have "nval p 0 < lim"
        using r(2) s by (auto simp: search_post_def)
      then have "leaves p ! i < lim" if "i < 4069" for i
        using heap_root_max [OF assms(1) h that] by simp
      then have "\<forall>v \<in> set (leaves p). v < lim"
        using assms(1) by (auto simp: in_set_conv_nth)
      with True s show ?thesis by simp
    next
      case False
      with slot [OF s(1)] s have "leaves p ! nat s \<in> set (leaves p)" "lim \<le> leaves p ! nat s"
        using assms(1) by (auto simp: fsm_sizes)
      then have "\<not> (\<forall>v \<in> set (leaves p). v < lim)"
        by (auto simp: not_less)
      with False s show ?thesis by simp
    qed
  qed
  moreover have "page_wf p'"
    using r(2) by (simp add: search_post_def)
  moreover have "leaves p' = leaves p \<and> (\<exists>slot. r = Inr slot)" if "heap p"
    using r(3,4) that by blast
  ultimately show ?thesis
    using r(1) slot by simp
qed

text \<open>A page with one free slot, and a torn page: a value in a leaf and in none of the nodes above but the root.\<close>

definition demo_page :: fsm_page where
  "demo_page = \<lparr> fp_new = False, fp_next_slot = 0, fp_nodes = replicate 8164 0 \<rparr>"

definition demo_buf :: fsm_buf where
  "demo_buf = \<lparr> relock = Inr, mark_buffer_dirty_hint = (\<lambda>_. Inr ()) \<rparr>"

lemma demo_page_ok: "page_wf demo_page" "heap demo_page" "leaves demo_page = replicate 4069 0" "buf_ok demo_buf"
  by (simp_all add: demo_page_def page_wf_def heap_except_def nval_def want_def leaves_def buf_ok_def demo_buf_def)

theorem fsm_set_avail_correct_witness:
  "page_wf demo_page \<and> (\<exists>b p'. fsm_set_avail demo_page 7 200 = Inr (b, p') \<and> fsm_get_avail p' 7 = Inr 200 \<and> heap p')"
  using fsm_set_avail_correct [OF demo_page_ok(1), of 7 200] demo_page_ok by (auto simp: fsm_sizes)

theorem fsm_search_avail_finds_witness:
  "page_wf demo_page \<and> buf_ok demo_buf
    \<and> (\<exists>p'. fsm_search_avail demo_buf demo_page 1 True False = Some (Inr (- 1), p'))"
  using fsm_search_avail_finds [OF demo_page_ok(1,4), of 1 True False] demo_page_ok by auto

end
