(* ===== verification/FreeSpace.thy ===== *)
theory FreeSpace
  imports FsmPage
begin

section \<open>The free space map\<close>

text \<open>
  \<^verbatim>\<open>crates/backend/storage/freespace/freespace/src/lib.rs\<close>: the map of one relation, a tree of map pages
  three levels high kept in a fork. The state holds the fork's pages, the lengths of
  the fork and of the main fork, and the lengths the storage manager has cached; \<open>fsm_env\<close> says which calls into the
  buffer and the storage manager fail. One backend at a time: a page
  is found as it was left, except across the lock exchange of \<open>fsm_search_avail\<close>. Node and
  level numbers are \<^verbatim>\<open>i32\<close>, here \<open>int\<close>, with the wrap written out where the code wraps;
  block numbers are words. The logging of truncated pages is left out.
\<close>

type_synonym Size = nat

definition InvalidBlockNumber :: BlockNumber where "InvalidBlockNumber = 0xFFFFFFFF"
definition FSM_CAT_STEP :: Size where "FSM_CAT_STEP = 8192 div 256"
definition MaxFSMRequestSize :: Size where "MaxFSMRequestSize = 8160"
definition FSM_TREE_DEPTH :: int where "FSM_TREE_DEPTH = (if SLOTS_PER_FSM_PAGE \<ge> 1626 then 3 else 4)"
definition FSM_ROOT_LEVEL :: int where "FSM_ROOT_LEVEL = FSM_TREE_DEPTH - 1"
definition FSM_BOTTOM_LEVEL :: int where "FSM_BOTTOM_LEVEL = 0"

record FSMAddress =
  level :: int
  logpageno :: int

definition FSM_ROOT_ADDRESS :: FSMAddress where
  "FSM_ROOT_ADDRESS = \<lparr> level = FSM_ROOT_LEVEL, logpageno = 0 \<rparr>"

subsection \<open>Categories and addresses\<close>

definition fsm_space_avail_to_cat :: "Size \<Rightarrow> u8" where
  "fsm_space_avail_to_cat avail =
    (if avail \<ge> MaxFSMRequestSize then 255
     else let cat = avail div FSM_CAT_STEP in if cat > 254 then 254 else word_of_nat cat)"

definition fsm_space_cat_to_avail :: "u8 \<Rightarrow> Size" where
  "fsm_space_cat_to_avail cat = (if cat = 255 then MaxFSMRequestSize else unat cat * FSM_CAT_STEP)"

definition fsm_space_needed_to_cat :: "Size \<Rightarrow> u8 res" where
  "fsm_space_needed_to_cat needed =
    (if needed > MaxFSMRequestSize then Inl (InvalidFSMRequestSize needed)
     else if needed = 0 then Inr 1
     else let cat = (needed + FSM_CAT_STEP - 1) div FSM_CAT_STEP in
       if cat > 255 then Inr 255 else Inr (word_of_nat cat))"

definition wrap32 :: "int \<Rightarrow> int" where
  "wrap32 x = (x + 2 ^ 31) mod 2 ^ 32 - 2 ^ 31"

primrec scale_level :: "nat \<Rightarrow> int \<Rightarrow> int" where
  "scale_level 0 leafno = leafno"
| "scale_level (Suc n) leafno = scale_level n (wrap32 (leafno * SLOTS_PER_FSM_PAGE))"

primrec count_pages :: "nat \<Rightarrow> int \<Rightarrow> BlockNumber \<Rightarrow> BlockNumber" where
  "count_pages 0 leafno pages = pages"
| "count_pages (Suc n) leafno pages =
     count_pages n (leafno sdiv SLOTS_PER_FSM_PAGE) (pages + word_of_int (wrap32 (leafno + 1)))"

definition fsm_logical_to_physical :: "FSMAddress \<Rightarrow> BlockNumber" where
  "fsm_logical_to_physical addr =
    (let leafno = scale_level (nat (level addr)) (logpageno addr);
         pages = count_pages (nat FSM_TREE_DEPTH) leafno 0;
         pages = pages - word_of_int (level addr)
     in pages - 1)"

definition fsm_get_location :: "BlockNumber \<Rightarrow> FSMAddress \<times> int" where
  "fsm_get_location heapblk =
    (\<lparr> level = FSM_BOTTOM_LEVEL, logpageno = uint heapblk div SLOTS_PER_FSM_PAGE \<rparr>, uint heapblk mod SLOTS_PER_FSM_PAGE)"

definition fsm_get_heap_blk :: "FSMAddress \<Rightarrow> int \<Rightarrow> BlockNumber" where
  "fsm_get_heap_blk addr slot = word_of_int (logpageno addr) * word_of_int SLOTS_PER_FSM_PAGE + word_of_int slot"

definition fsm_get_parent :: "FSMAddress \<Rightarrow> FSMAddress \<times> int" where
  "fsm_get_parent child =
    (\<lparr> level = level child + 1, logpageno = logpageno child sdiv SLOTS_PER_FSM_PAGE \<rparr>,
     logpageno child smod SLOTS_PER_FSM_PAGE)"

definition fsm_get_child :: "FSMAddress \<Rightarrow> int \<Rightarrow> FSMAddress" where
  "fsm_get_child parent slot =
    \<lparr> level = level parent - 1, logpageno = logpageno parent * SLOTS_PER_FSM_PAGE + slot \<rparr>"

subsection \<open>The fork\<close>

record fsm =
  fork :: "fsm_page list option"
  fsm_cached :: BlockNumber
  main_nblocks :: BlockNumber
  main_cached :: BlockNumber

datatype fsm_call =
    SmgrExists | SmgrNblocks | RelationNblocks
  | ReadBuffer BlockNumber | ExtendRel BlockNumber | LockBuffer BlockNumber | MarkDirty BlockNumber

record fsm_env =
  fault :: "fsm_call \<Rightarrow> unit res"
  recovery :: bool
  bufs :: fsm_buf

definition new_page :: fsm_page where
  "new_page = \<lparr> fp_new = True, fp_next_slot = 0, fp_nodes = replicate (nat NODES_PER_PAGE) 0 \<rparr>"

definition page_init :: fsm_page where
  "page_init = new_page \<lparr> fp_new := False \<rparr>"

definition get_page :: "fsm \<Rightarrow> BlockNumber \<Rightarrow> fsm_page" where
  "get_page s blkno = the (fork s) ! unat blkno"

definition put_page :: "BlockNumber \<Rightarrow> fsm_page \<Rightarrow> fsm \<Rightarrow> fsm" where
  "put_page blkno p s = s \<lparr> fork := map_option (\<lambda>ps. ps[unat blkno := p]) (fork s) \<rparr>"

definition call :: "fsm_env \<Rightarrow> fsm_call \<Rightarrow> fsm \<Rightarrow> unit res \<times> fsm" where
  "call E c s = (fault E c, s)"

definition fork_nblocks :: "fsm \<Rightarrow> BlockNumber" where
  "fork_nblocks s = word_of_nat (case fork s of None \<Rightarrow> 0 | Some ps \<Rightarrow> length ps)"

definition smgr_exists :: "fsm_env \<Rightarrow> fsm \<Rightarrow> bool res \<times> fsm" where
  "smgr_exists E s = bindS (call E SmgrExists s) (\<lambda>_ s. (Inr (fork s \<noteq> None), s))"

definition smgr_nblocks :: "fsm_env \<Rightarrow> fsm \<Rightarrow> BlockNumber res \<times> fsm" where
  "smgr_nblocks E s =
    (if recovery E \<and> fsm_cached s \<noteq> InvalidBlockNumber then (Inr (fsm_cached s), s)
     else bindS (call E SmgrNblocks s) (\<lambda>_ s. (Inr (fork_nblocks s), s \<lparr> fsm_cached := fork_nblocks s \<rparr>)))"

definition fsm_extend :: "fsm_env \<Rightarrow> BlockNumber \<Rightarrow> fsm \<Rightarrow> unit res \<times> fsm" where
  "fsm_extend E fsm_nblocks s =
    bindS (call E (ExtendRel fsm_nblocks) (s \<lparr> fsm_cached := InvalidBlockNumber \<rparr>)) (\<lambda>_ s.
      let ps = (case fork s of None \<Rightarrow> [] | Some ps \<Rightarrow> ps);
          ps = ps @ replicate (unat fsm_nblocks - length ps) new_page in
      (Inr (), s \<lparr> fork := Some ps, fsm_cached := word_of_nat (length ps) \<rparr>))"

definition fsm_readbuf :: "fsm_env \<Rightarrow> FSMAddress \<Rightarrow> bool \<Rightarrow> fsm \<Rightarrow> BlockNumber option res \<times> fsm" where
  "fsm_readbuf E addr extend_fork s =
    (let blkno = fsm_logical_to_physical addr; nblocks = fsm_cached s in
     bindS
       (if nblocks = InvalidBlockNumber \<or> blkno \<ge> nblocks then
          bindS (smgr_exists E (s \<lparr> fsm_cached := InvalidBlockNumber \<rparr>)) (\<lambda>found s.
            if found then smgr_nblocks E s else (Inr 0, s \<lparr> fsm_cached := 0 \<rparr>))
        else (Inr nblocks, s)) (\<lambda>nblocks s.
     bindS
       (if blkno \<ge> nblocks then
          if \<not> extend_fork then (Inr False, s)
          else bindS (fsm_extend E (blkno + 1) s) (\<lambda>_ s. (Inr True, s))
        else bindS (call E (ReadBuffer blkno) s) (\<lambda>_ s. (Inr True, s))) (\<lambda>found s.
     if \<not> found then (Inr None, s)
     else if fp_new (get_page s blkno) then
       bindS (call E (LockBuffer blkno) s) (\<lambda>_ s. (Inr (Some blkno), put_page blkno page_init s))
     else (Inr (Some blkno), s))))"

definition fsm_does_block_exist :: "fsm_env \<Rightarrow> BlockNumber \<Rightarrow> fsm \<Rightarrow> bool res \<times> fsm" where
  "fsm_does_block_exist E blknumber s =
    (let cached = main_cached s in
     if cached \<noteq> InvalidBlockNumber \<and> blknumber < cached then (Inr True, s)
     else bindS (call E RelationNblocks s) (\<lambda>_ s.
       (Inr (blknumber < main_nblocks s), s \<lparr> main_cached := main_nblocks s \<rparr>)))"

subsection \<open>Recording and searching\<close>

text \<open>A page operation that can panic, run on a block of the fork.\<close>

definition on_page :: "BlockNumber \<Rightarrow> (fsm_page \<Rightarrow> ('a \<times> fsm_page) res) \<Rightarrow> fsm \<Rightarrow> 'a res \<times> fsm" where
  "on_page blkno f s =
     (case f (get_page s blkno) of Inl e \<Rightarrow> (Inl e, s) | Inr (a, p) \<Rightarrow> (Inr a, put_page blkno p s))"

definition fsm_set_and_search ::
  "fsm_env \<Rightarrow> FSMAddress \<Rightarrow> int \<Rightarrow> u8 \<Rightarrow> u8 \<Rightarrow> fsm \<Rightarrow> (int res \<times> fsm) option" where
  "fsm_set_and_search E addr slot newValue minValue s =
    bindP (Some (fsm_readbuf E addr True s)) (\<lambda>pin s.
      case pin of
        None \<Rightarrow> Some (Inl Panic, s)
      | Some blkno \<Rightarrow>
          bindP (Some (call E (LockBuffer blkno) s)) (\<lambda>_ s.
          bindP (Some (on_page blkno (\<lambda>p. fsm_set_avail p slot newValue) s)) (\<lambda>changed s.
          bindP (Some (if changed then call E (MarkDirty blkno) s else (Inr (), s))) (\<lambda>_ s.
          bindP (if minValue \<noteq> 0
                 then map_option (\<lambda>(r, p). (r, put_page blkno p s))
                        (fsm_search_avail (bufs E) (get_page s blkno) minValue (level addr = FSM_BOTTOM_LEVEL) True)
                 else Some (Inr (- 1), s)) (\<lambda>newslot s.
          bindP (Some (call E (LockBuffer blkno) s)) (\<lambda>_ s. Some (Inr newslot, s)))))))"

definition MAX_RESTARTS :: nat where "MAX_RESTARTS = 10000"

text \<open>The body of the loop of \<^verbatim>\<open>fsm_search\<close>: the read of one page, then what its answer leads to.\<close>

definition search_page ::
  "fsm_env \<Rightarrow> FSMAddress \<Rightarrow> u8 \<Rightarrow> fsm \<Rightarrow> ((BlockNumber option \<times> int \<times> u8) res \<times> fsm) option" where
  "search_page E addr min_cat s =
    bindP (Some (fsm_readbuf E addr False s)) (\<lambda>held s.
      case held of
        None \<Rightarrow> Some (Inr (None, - 1, 0), s)
      | Some blkno \<Rightarrow>
          bindP (Some (call E (LockBuffer blkno) s)) (\<lambda>_ s.
          bindP (map_option (\<lambda>(r, p). (r, put_page blkno p s))
                   (fsm_search_avail (bufs E) (get_page s blkno) min_cat (level addr = FSM_BOTTOM_LEVEL) False)) (\<lambda>slot s.
          if slot = - 1 then
            bindP (Some (fsm_get_max_avail (get_page s blkno), s)) (\<lambda>max_avail s.
            bindP (Some (call E (LockBuffer blkno) s)) (\<lambda>_ s. Some (Inr (None, slot, max_avail), s)))
          else bindP (Some (call E (LockBuffer blkno) s)) (\<lambda>_ s. Some (Inr (Some blkno, slot, 0), s)))))"

definition fsm_search_step ::
  "fsm_env \<Rightarrow> u8 \<Rightarrow> nat \<times> FSMAddress \<times> fsm \<Rightarrow> ((nat \<times> FSMAddress \<times> fsm) + BlockNumber res \<times> fsm) option" where
  "fsm_search_step E min_cat = (\<lambda>(restarts, addr, s).
    Option.bind (search_page E addr min_cat s) (\<lambda>(r, s).
      case r of
        Inl e \<Rightarrow> Some (Inr (Inl e, s))
      | Inr (held, slot, max_avail) \<Rightarrow>
          if slot \<noteq> - 1 then
            if level addr = FSM_BOTTOM_LEVEL then
              (case held of
                 None \<Rightarrow> Some (Inr (Inl Panic, s))
               | Some pin \<Rightarrow>
                   let blkno = fsm_get_heap_blk addr slot in
                   (case fsm_does_block_exist E blkno s of
                      (Inl e, s) \<Rightarrow> Some (Inr (Inl e, s))
                    | (Inr True, s) \<Rightarrow> Some (Inr (Inr blkno, s))
                    | (Inr False, s) \<Rightarrow>
                        (case bindS (call E (LockBuffer pin) s) (\<lambda>_ s.
                              bindS (on_page pin (\<lambda>p. fsm_set_avail p slot 0) s) (\<lambda>_ s.
                              bindS (call E (MarkDirty pin) s) (\<lambda>_ s. call E (LockBuffer pin) s))) of
                           (Inl e, s) \<Rightarrow> Some (Inr (Inl e, s))
                         | (Inr _, s) \<Rightarrow>
                             if restarts > MAX_RESTARTS then Some (Inr (Inr InvalidBlockNumber, s))
                             else Some (Inl (restarts + 1, fsm_get_child FSM_ROOT_ADDRESS slot, s)))))
            else Some (Inl (restarts, fsm_get_child addr slot, s))
          else if level addr = FSM_ROOT_LEVEL then Some (Inr (Inr InvalidBlockNumber, s))
          else
            let (parent, parentslot) = fsm_get_parent addr in
            Option.bind (fsm_set_and_search E parent parentslot max_avail 0 s) (\<lambda>(r, s).
              case r of
                Inl e \<Rightarrow> Some (Inr (Inl e, s))
              | Inr _ \<Rightarrow>
                  if restarts > MAX_RESTARTS then Some (Inr (Inr InvalidBlockNumber, s))
                  else Some (Inl (restarts + 1, FSM_ROOT_ADDRESS, s)))))"

definition fsm_search :: "fsm_env \<Rightarrow> u8 \<Rightarrow> fsm \<Rightarrow> (BlockNumber res \<times> fsm) option" where
  "fsm_search E min_cat s = iterate (fsm_search_step E min_cat) (0, FSM_ROOT_ADDRESS, s)"

definition GetPageWithFreeSpace :: "fsm_env \<Rightarrow> Size \<Rightarrow> fsm \<Rightarrow> (BlockNumber res \<times> fsm) option" where
  "GetPageWithFreeSpace E spaceNeeded s =
    bindP (Some (fsm_space_needed_to_cat spaceNeeded, s)) (\<lambda>min_cat s. fsm_search E min_cat s)"

definition RecordAndGetPageWithFreeSpace ::
  "fsm_env \<Rightarrow> BlockNumber \<Rightarrow> Size \<Rightarrow> Size \<Rightarrow> fsm \<Rightarrow> (BlockNumber res \<times> fsm) option" where
  "RecordAndGetPageWithFreeSpace E oldPage oldSpaceAvail spaceNeeded s =
    (let old_cat = fsm_space_avail_to_cat oldSpaceAvail in
     bindP (Some (fsm_space_needed_to_cat spaceNeeded, s)) (\<lambda>search_cat s.
       let (addr, slot) = fsm_get_location oldPage in
       bindP (fsm_set_and_search E addr slot old_cat search_cat s) (\<lambda>search_slot s.
         bindP (Some (if search_slot \<noteq> - 1
                      then bindS (fsm_does_block_exist E (fsm_get_heap_blk addr search_slot) s) (\<lambda>b s. (Inr b, s))
                      else (Inr False, s))) (\<lambda>found s.
         if found then Some (Inr (fsm_get_heap_blk addr search_slot), s) else fsm_search E search_cat s))))"

definition RecordPageWithFreeSpace :: "fsm_env \<Rightarrow> BlockNumber \<Rightarrow> Size \<Rightarrow> fsm \<Rightarrow> (unit res \<times> fsm) option" where
  "RecordPageWithFreeSpace E heapBlk spaceAvail s =
    (let new_cat = fsm_space_avail_to_cat spaceAvail; (addr, slot) = fsm_get_location heapBlk in
     bindP (fsm_set_and_search E addr slot new_cat 0 s) (\<lambda>_ s. Some (Inr (), s)))"

definition GetRecordedFreeSpace :: "fsm_env \<Rightarrow> BlockNumber \<Rightarrow> fsm \<Rightarrow> Size res \<times> fsm" where
  "GetRecordedFreeSpace E heapBlk s =
    (let (addr, slot) = fsm_get_location heapBlk in
     bindS (fsm_readbuf E addr False s) (\<lambda>pin s.
       case pin of
         None \<Rightarrow> (Inr 0, s)
       | Some blkno \<Rightarrow>
           bindS (fsm_get_avail (get_page s blkno) slot, s) (\<lambda>cat s. (Inr (fsm_space_cat_to_avail cat), s))))"

text \<open>Replay reads the page with \<^verbatim>\<open>XLogReadBufferExtended\<close>, which extends the fork as far as needed.\<close>

definition XLogReadBufferExtended :: "fsm_env \<Rightarrow> BlockNumber \<Rightarrow> fsm \<Rightarrow> unit res \<times> fsm" where
  "XLogReadBufferExtended E blkno s =
    (if unat blkno < (case fork s of None \<Rightarrow> 0 | Some ps \<Rightarrow> length ps) then call E (ReadBuffer blkno) s
     else fsm_extend E (blkno + 1) s)"

definition XLogRecordPageWithFreeSpace :: "fsm_env \<Rightarrow> BlockNumber \<Rightarrow> Size \<Rightarrow> fsm \<Rightarrow> unit res \<times> fsm" where
  "XLogRecordPageWithFreeSpace E heapBlk spaceAvail s =
    (let new_cat = fsm_space_avail_to_cat spaceAvail; (addr, slot) = fsm_get_location heapBlk;
         blkno = fsm_logical_to_physical addr in
     bindS (XLogReadBufferExtended E blkno s) (\<lambda>_ s.
     bindS (call E (LockBuffer blkno) s) (\<lambda>_ s.
       let s = (if fp_new (get_page s blkno) then put_page blkno page_init s else s) in
     bindS (on_page blkno (\<lambda>p. fsm_set_avail p slot new_cat) s) (\<lambda>changed s.
       if changed then call E (MarkDirty blkno) s else (Inr (), s)))))"

definition GetFreeIndexPage :: "fsm_env \<Rightarrow> fsm \<Rightarrow> (BlockNumber res \<times> fsm) option" where
  "GetFreeIndexPage E s =
    bindP (GetPageWithFreeSpace E (8192 div 2) s) (\<lambda>blkno s.
      if blkno \<noteq> InvalidBlockNumber
      then bindP (RecordPageWithFreeSpace E blkno 0 s) (\<lambda>_ s. Some (Inr blkno, s))
      else Some (Inr blkno, s))"

definition RecordFreeIndexPage :: "fsm_env \<Rightarrow> BlockNumber \<Rightarrow> fsm \<Rightarrow> (unit res \<times> fsm) option" where
  "RecordFreeIndexPage E freeBlock s = RecordPageWithFreeSpace E freeBlock (8192 - 1) s"

definition RecordUsedIndexPage :: "fsm_env \<Rightarrow> BlockNumber \<Rightarrow> fsm \<Rightarrow> (unit res \<times> fsm) option" where
  "RecordUsedIndexPage E usedBlock s = RecordPageWithFreeSpace E usedBlock 0 s"

subsection \<open>Vacuum and truncation\<close>

function parents_upto ::
  "int \<Rightarrow> FSMAddress \<times> int \<Rightarrow> FSMAddress \<times> int \<Rightarrow> (FSMAddress \<times> int) \<times> (FSMAddress \<times> int)" where
  "parents_upto lev (fsm_start, start_slot) (fsm_end, end_slot) =
    (if level fsm_start < lev
     then parents_upto lev (fsm_get_parent fsm_start) (fsm_get_parent fsm_end)
     else ((fsm_start, start_slot), (fsm_end, end_slot)))"
  by pat_completeness auto
termination
  by (relation "measure (\<lambda>(lev, (a, _), _). nat (lev - level a))") (auto simp: fsm_get_parent_def)

text \<open>The slots of the page at \<open>addr\<close> that cover the heap blocks from \<open>start\<close> to \<open>end - 1\<close>.\<close>

definition slot_range :: "FSMAddress \<Rightarrow> BlockNumber \<Rightarrow> BlockNumber \<Rightarrow> int list" where
  "slot_range addr start stop =
    (let ((fsm_start, fsm_start_slot), (fsm_end, fsm_end_slot)) =
           parents_upto (level addr) (fsm_get_location start) (fsm_get_location (stop - 1));
         start_slot = (if logpageno fsm_start = logpageno addr then fsm_start_slot
                       else if logpageno fsm_start > logpageno addr then SLOTS_PER_FSM_PAGE else 0);
         end_slot = (if logpageno fsm_end = logpageno addr then fsm_end_slot
                     else if logpageno fsm_end > logpageno addr then SLOTS_PER_FSM_PAGE - 1 else - 1)
     in [start_slot .. end_slot])"

function (sequential) fsm_vacuum_page ::
    "fsm_env \<Rightarrow> FSMAddress \<Rightarrow> BlockNumber \<Rightarrow> BlockNumber \<Rightarrow> fsm \<Rightarrow> (u8 \<times> bool) res \<times> fsm"
  and vacuum_slots ::
    "fsm_env \<Rightarrow> FSMAddress \<Rightarrow> BlockNumber \<Rightarrow> BlockNumber \<Rightarrow> BlockNumber \<Rightarrow> int list \<Rightarrow> bool \<Rightarrow> fsm \<Rightarrow> unit res \<times> fsm" where
  "fsm_vacuum_page E addr start stop s =
    (case fsm_readbuf E addr False s of
       (Inl e, s) \<Rightarrow> (Inl e, s)
     | (Inr None, s) \<Rightarrow> (Inr (0, True), s)
     | (Inr (Some blkno), s) \<Rightarrow>
         (case (if level addr > FSM_BOTTOM_LEVEL
                then vacuum_slots E addr start stop blkno (slot_range addr start stop) False s
                else (Inr (), s)) of
            (Inl e, s) \<Rightarrow> (Inl e, s)
          | (Inr _, s) \<Rightarrow>
              (case fsm_get_max_avail (get_page s blkno) of
                 Inl e \<Rightarrow> (Inl e, s)
               | Inr max_avail \<Rightarrow>
                   (Inr (max_avail, False), put_page blkno (set_next_slot 0 (get_page s blkno)) s))))"
| "vacuum_slots E addr start stop blkno [] eof s = (Inr (), s)"
| "vacuum_slots E addr start stop blkno (slot # slots) eof s =
    (if level addr \<le> FSM_BOTTOM_LEVEL then (Inl Panic, s)
     else
      case (if \<not> eof then fsm_vacuum_page E (fsm_get_child addr slot) start stop s else (Inr (0, eof), s)) of
        (Inl e, s) \<Rightarrow> (Inl e, s)
      | (Inr (child_avail, eof), s) \<Rightarrow>
          (case fsm_get_avail (get_page s blkno) slot of
             Inl e \<Rightarrow> (Inl e, s)
           | Inr avail \<Rightarrow>
               (case (if avail \<noteq> child_avail then
                        bindS (call E (LockBuffer blkno) s) (\<lambda>_ s.
                        bindS (on_page blkno (\<lambda>p. fsm_set_avail p slot child_avail) s) (\<lambda>_ s.
                        bindS (call E (MarkDirty blkno) s) (\<lambda>_ s. call E (LockBuffer blkno) s)))
                      else (Inr (), s)) of
                  (Inl e, s) \<Rightarrow> (Inl e, s)
                | (Inr _, s) \<Rightarrow> vacuum_slots E addr start stop blkno slots eof s)))"
  by pat_completeness auto
termination
  by (relation "measures [\<lambda>x. case x of Inl (_, addr, _) \<Rightarrow> 2 * nat (level addr) + 1 | Inr (_, addr, _) \<Rightarrow> 2 * nat (level addr),
        \<lambda>x. case x of Inl _ \<Rightarrow> 0 | Inr (_, _, _, _, _, slots, _) \<Rightarrow> length slots]")
    (auto simp: fsm_get_child_def FSM_BOTTOM_LEVEL_def)

definition FreeSpaceMapVacuum :: "fsm_env \<Rightarrow> fsm \<Rightarrow> unit res \<times> fsm" where
  "FreeSpaceMapVacuum E s =
    bindS (fsm_vacuum_page E FSM_ROOT_ADDRESS 0 InvalidBlockNumber s) (\<lambda>_ s. (Inr (), s))"

definition FreeSpaceMapVacuumRange :: "fsm_env \<Rightarrow> BlockNumber \<Rightarrow> BlockNumber \<Rightarrow> fsm \<Rightarrow> unit res \<times> fsm" where
  "FreeSpaceMapVacuumRange E start stop s =
    (if stop > start then bindS (fsm_vacuum_page E FSM_ROOT_ADDRESS start stop s) (\<lambda>_ s. (Inr (), s)) else (Inr (), s))"

definition IndexFreeSpaceMapVacuum :: "fsm_env \<Rightarrow> fsm \<Rightarrow> unit res \<times> fsm" where
  "IndexFreeSpaceMapVacuum E s = FreeSpaceMapVacuum E s"

definition FreeSpaceMapPrepareTruncateRel :: "fsm_env \<Rightarrow> BlockNumber \<Rightarrow> fsm \<Rightarrow> BlockNumber res \<times> fsm" where
  "FreeSpaceMapPrepareTruncateRel E nblocks s =
    bindS (smgr_exists E s) (\<lambda>found s.
      if \<not> found then (Inr InvalidBlockNumber, s)
      else
        let (first_removed_address, first_removed_slot) = fsm_get_location nblocks in
        if first_removed_slot > 0 then
          bindS (fsm_readbuf E first_removed_address False s) (\<lambda>pin s.
            case pin of
              None \<Rightarrow> (Inr InvalidBlockNumber, s)
            | Some blkno \<Rightarrow>
                bindS (call E (LockBuffer blkno) s) (\<lambda>_ s.
                bindS (on_page blkno (\<lambda>p. fsm_truncate_avail p first_removed_slot) s) (\<lambda>_ s.
                bindS (call E (MarkDirty blkno) s) (\<lambda>_ s.
                  (Inr (fsm_logical_to_physical first_removed_address + 1), s)))))
        else
          let new_nfsmblocks = fsm_logical_to_physical first_removed_address in
          bindS (smgr_nblocks E s) (\<lambda>n s.
            if n \<le> new_nfsmblocks then (Inr InvalidBlockNumber, s) else (Inr new_nfsmblocks, s)))"

end
