(* ===== verification/FreeSpaceSpec.thy ===== *)
theory FreeSpaceSpec
  imports FreeSpace
begin

section \<open>Correctness of the free space map\<close>

text \<open>
  The map seen as a table: \<open>slot_val s a i\<close> is the category recorded in slot \<open>i\<close> of the page at
  address \<open>a\<close>, zero where there is no page. \<open>fsm_wf H s\<close> is the
  invariant of the state; \<open>H\<close> says whether the trees are known to be sound, since a crash can tear
  them. Every operation returns, keeps the invariant and changes the table in the slots it should.
\<close>

subsection \<open>Addresses\<close>

definition valid_addr :: "FSMAddress \<Rightarrow> bool" where
  "valid_addr a \<longleftrightarrow> 0 \<le> logpageno a \<and>
     (level a = 0 \<and> logpageno a < 4069 * 4069 \<or> level a = 1 \<and> logpageno a < 4069 \<or> level a = 2 \<and> logpageno a < 1)"

definition phys :: "FSMAddress \<Rightarrow> nat" where
  "phys a =
    (if level a = 0 then nat (logpageno a + logpageno a div 4069 + 2)
     else if level a = 1 then nat (4070 * logpageno a + 1) else 0)"

lemma fsm_consts:
  "FSM_CAT_STEP = 32" "FSM_TREE_DEPTH = 3" "FSM_ROOT_LEVEL = 2" "FSM_BOTTOM_LEVEL = 0"
  by (simp_all add: FSM_CAT_STEP_def FSM_TREE_DEPTH_def FSM_ROOT_LEVEL_def FSM_BOTTOM_LEVEL_def fsm_sizes)

lemma valid_cases:
  assumes "valid_addr a"
  obtains (bottom) q r where "level a = 0" "logpageno a = 4069 * q + r" "0 \<le> q" "q < 4069" "0 \<le> r" "r < 4069"
      "phys a = nat (4070 * q + r + 2)"
    | (middle) q where "level a = 1" "logpageno a = q" "0 \<le> q" "q < 4069" "phys a = nat (4070 * q + 1)"
    | (root) "level a = 2" "logpageno a = 0" "phys a = 0"
proof -
  consider "level a = 0" | "level a = 1" | "level a = 2"
    using assms by (auto simp: valid_addr_def)
  then show thesis
  proof cases
    case 1
    define q where "q = logpageno a div 4069"
    define r where "r = logpageno a mod 4069"
    have qr: "logpageno a = 4069 * q + r" "0 \<le> r" "r < 4069"
      by (simp_all add: q_def r_def)
    have p: "0 \<le> logpageno a" "logpageno a < 4069 * 4069"
      using 1 assms by (auto simp: valid_addr_def)
    then have "0 \<le> q" "q < 4069"
      by (auto simp: q_def)
    moreover have "phys a = nat (4070 * q + r + 2)"
      using 1 qr by (simp add: phys_def)
    ultimately show thesis
      using bottom 1 qr by blast
  next
    case 2
    with assms show thesis
      by (intro middle) (auto simp: valid_addr_def phys_def)
  next
    case 3
    with assms show thesis
      by (intro root) (auto simp: valid_addr_def phys_def)
  qed
qed

lemma phys_less: "valid_addr a \<Longrightarrow> phys a < 16560831"
  by (erule valid_cases) auto

lemma split_unique:
  fixes q q' r r' :: int
  assumes "4070 * q + r = 4070 * q' + r'" and "0 \<le> r" and "r < 4070" and "0 \<le> r'" and "r' < 4070"
  shows "q = q'" "r = r'"
proof -
  have "(4070 * q + r) div 4070 = q" "(4070 * q' + r') div 4070 = q'"
    using assms(2-5) by simp_all
  then show "q = q'"
    using assms(1) by simp
  then show "r = r'"
    using assms(1) by simp
qed

lemma phys_inj:
  assumes "valid_addr a" and "valid_addr b" and "phys a = phys b"
  shows "a = b"
proof -
  have "level a = level b \<and> logpageno a = logpageno b"
    using assms(1)
  proof (cases rule: valid_cases)
    case a: (bottom q r)
    from assms(2) show ?thesis
    proof (cases rule: valid_cases)
      case b: (bottom q' r')
      have "4070 * q + r = 4070 * q' + r'"
        using a b assms(3) by simp
      then have "q = q'" "r = r'"
        using a b by (auto dest: split_unique)
      with a b show ?thesis by simp
    next
      case b: (middle q')
      have "4070 * q + (r + 1) = 4070 * q' + 0"
        using a b assms(3) by simp
      from split_unique(2) [OF this] a b show ?thesis by simp
    qed (use a assms(3) in simp)
  next
    case a: (middle q)
    from assms(2) show ?thesis
    proof (cases rule: valid_cases)
      case b: (bottom q' r')
      have "4070 * q' + (r' + 1) = 4070 * q + 0"
        using a b assms(3) by simp
      from split_unique(2) [OF this] a b show ?thesis by simp
    qed (use a assms(3) in simp_all)
  next
    case a: root
    from assms(2) show ?thesis
      by (cases rule: valid_cases) (use a assms(3) in auto)
  qed
  then show ?thesis
    by (cases a, cases b) simp
qed

lemma wrap32_id: "- (2 ^ 31) \<le> x \<Longrightarrow> x < 2 ^ 31 \<Longrightarrow> wrap32 x = x"
  by (simp add: wrap32_def)

lemma sdiv_pos: "0 \<le> x \<Longrightarrow> x sdiv (4069 :: int) = x div 4069" "0 \<le> x \<Longrightarrow> x smod (4069 :: int) = x mod 4069"
  by (auto simp: signed_divide_int_def signed_modulo_int_def sgn_if minus_div_mult_eq_mod)

lemma logical_to_physical:
  assumes "valid_addr a"
  shows "fsm_logical_to_physical a = word_of_nat (phys a)"
  using assms
proof (cases rule: valid_cases)
  case (bottom q r)
  let ?p = "4069 * q + r"
  have "?p div 4069 = q" "q div 4069 = 0"
    using bottom by simp_all
  then have "fsm_logical_to_physical a = word_of_int (?p + 1) + word_of_int (q + 1) + word_of_int 1 - 1"
    using bottom by (simp add: fsm_logical_to_physical_def fsm_consts fsm_sizes numeral_3_eq_3 wrap32_id sdiv_pos)
  also have "\<dots> = word_of_int (4070 * q + r + 2)"
    by simp
  also have "\<dots> = word_of_nat (phys a)"
    using bottom by (simp add: word_of_nat_eq_iff)
  finally show ?thesis .
next
  case (middle q)
  have "4069 * q div 4069 = q" "q div 4069 = 0"
    using middle by simp_all
  then have "fsm_logical_to_physical a = word_of_int (4069 * q + 1) + word_of_int (q + 1) + word_of_int 1 - 1 - 1"
    using middle by (simp add: fsm_logical_to_physical_def fsm_consts fsm_sizes numeral_3_eq_3 wrap32_id sdiv_pos mult.commute)
  also have "\<dots> = word_of_nat (phys a)"
    using middle by simp
  finally show ?thesis .
next
  case root
  then show ?thesis
    by (simp add: fsm_logical_to_physical_def fsm_consts fsm_sizes numeral_3_eq_3 numeral_2_eq_2 wrap32_id)
qed

lemma unat_physical: "valid_addr a \<Longrightarrow> unat (fsm_logical_to_physical a) = phys a"
  using phys_less [of a] by (simp add: logical_to_physical unat_of_nat)

lemma valid_root [simp]: "valid_addr FSM_ROOT_ADDRESS"
  by (simp add: valid_addr_def FSM_ROOT_ADDRESS_def fsm_consts)

lemma valid_child:
  assumes "valid_addr a" and "0 < level a" and "0 \<le> slot" and "slot < 4069"
  shows "valid_addr (fsm_get_child a slot)"
  using assms(1)
proof (cases rule: valid_cases)
  case (middle q)
  then have "q * 4069 + slot < 4069 * 4069"
    using assms(4) by linarith
  with middle assms show ?thesis
    by (simp add: valid_addr_def fsm_get_child_def fsm_sizes)
qed (use assms in \<open>auto simp: valid_addr_def fsm_get_child_def fsm_sizes\<close>)

lemma parent_child:
  assumes "0 \<le> logpageno a" and "0 \<le> slot" and "slot < 4069"
  shows "fsm_get_parent (fsm_get_child a slot) = (a, slot)"
  using assms by (simp add: fsm_get_parent_def fsm_get_child_def fsm_sizes sdiv_pos)

lemma valid_parent:
  assumes "valid_addr a" and "level a < 2"
  shows "valid_addr (fst (fsm_get_parent a))" "0 \<le> snd (fsm_get_parent a)" "snd (fsm_get_parent a) < 4069"
    "fsm_get_child (fst (fsm_get_parent a)) (snd (fsm_get_parent a)) = a"
proof -
  have p: "0 \<le> logpageno a"
    using assms(1) by (simp add: valid_addr_def)
  show "valid_addr (fst (fsm_get_parent a))"
    using assms p by (auto simp: valid_addr_def fsm_get_parent_def fsm_sizes sdiv_pos)
  show "0 \<le> snd (fsm_get_parent a)" "snd (fsm_get_parent a) < 4069"
    using p by (simp_all add: fsm_get_parent_def fsm_sizes sdiv_pos)
  show "fsm_get_child (fst (fsm_get_parent a)) (snd (fsm_get_parent a)) = a"
    using p by (simp add: fsm_get_parent_def fsm_get_child_def fsm_sizes sdiv_pos)
qed

lemma location_valid:
  "valid_addr (fst (fsm_get_location blk))" "level (fst (fsm_get_location blk)) = 0"
  "0 \<le> snd (fsm_get_location blk)" "snd (fsm_get_location blk) < 4069"
proof -
  have "uint blk < 4294967296"
    using uint_lt2p [of blk] by simp
  then have "uint blk div 4069 \<le> 4294967296 div 4069"
    by (intro zdiv_mono1) simp_all
  then show "valid_addr (fst (fsm_get_location blk))"
    by (simp add: fsm_get_location_def valid_addr_def fsm_consts fsm_sizes pos_imp_zdiv_nonneg_iff)
qed (simp_all add: fsm_get_location_def fsm_consts fsm_sizes)

lemma heap_blk_location: "fsm_get_heap_blk (fst (fsm_get_location blk)) (snd (fsm_get_location blk)) = blk"
proof -
  have "fsm_get_heap_blk (fst (fsm_get_location blk)) (snd (fsm_get_location blk)) =
      word_of_int (uint blk div 4069) * word_of_int 4069 + word_of_int (uint blk mod 4069)"
    by (simp add: fsm_get_heap_blk_def fsm_get_location_def fsm_sizes)
  also have "\<dots> = word_of_int (uint blk div 4069 * 4069 + uint blk mod 4069)"
    by (simp only: wi_hom_syms)
  also have "\<dots> = blk"
    by (simp only: div_mult_mod_eq) simp
  finally show ?thesis .
qed

subsection \<open>The table and the invariant\<close>

definition pages :: "fsm \<Rightarrow> fsm_page list" where
  "pages s = (case fork s of None \<Rightarrow> [] | Some ps \<Rightarrow> ps)"

definition slot_val :: "fsm \<Rightarrow> FSMAddress \<Rightarrow> nat \<Rightarrow> u8" where
  "slot_val s a i = (if phys a < length (pages s) then leaves (pages s ! phys a) ! i else 0)"

definition page_ok :: "bool \<Rightarrow> fsm_page \<Rightarrow> bool" where
  "page_ok H p \<longleftrightarrow> p = new_page \<or> page_wf p \<and> (H \<longrightarrow> heap p)"

definition fsm_wf :: "bool \<Rightarrow> fsm \<Rightarrow> bool" where
  "fsm_wf H s \<longleftrightarrow>
     (fork s = None \<longrightarrow> fsm_cached s = InvalidBlockNumber \<or> fsm_cached s = 0)
     \<and> length (pages s) < 2 ^ 31 \<and> (\<forall>p \<in> set (pages s). page_ok H p)
     \<and> (fsm_cached s \<noteq> InvalidBlockNumber \<longrightarrow> unat (fsm_cached s) \<le> length (pages s))
     \<and> (main_cached s \<noteq> InvalidBlockNumber \<longrightarrow> main_cached s \<le> main_nblocks s)"

text \<open>What the map records of a heap block.\<close>

definition block_cat :: "fsm \<Rightarrow> BlockNumber \<Rightarrow> u8" where
  "block_cat s blk = (case fsm_get_location blk of (a, slot) \<Rightarrow> slot_val s a (nat slot))"

text \<open>The same table: at least the same pages, the same slots.\<close>

definition same_map :: "fsm \<Rightarrow> fsm \<Rightarrow> bool" where
  "same_map s s' \<longleftrightarrow> main_nblocks s' = main_nblocks s \<and> length (pages s) \<le> length (pages s')
     \<and> (\<forall>a i. i < 4069 \<longrightarrow> slot_val s' a i = slot_val s a i)"

lemma same_map_refl [simp]: "same_map s s"
  by (simp add: same_map_def)

lemma same_map_trans: "same_map a b \<Longrightarrow> same_map b c \<Longrightarrow> same_map a c"
  by (auto simp: same_map_def)

lemma new_page_leaves [simp]:
  "leaves new_page = replicate 4069 0" "leaves page_init = replicate 4069 0" "page_ok H page_init" "page_ok H new_page"
  "fp_new new_page" "page_wf page_init" "heap page_init"
  by (simp_all add: leaves_def new_page_def page_init_def page_ok_def page_wf_def heap_except_def nval_def want_def fsm_sizes)

lemma page_wf_not_new: "page_wf p \<Longrightarrow> \<not> fp_new p"
  by (simp add: page_wf_def)

lemma page_ok_old: "page_ok H p \<Longrightarrow> \<not> fp_new p \<Longrightarrow> page_wf p \<and> (H \<longrightarrow> heap p)"
  by (auto simp: page_ok_def)

lemma page_ok_new: "page_ok H p \<Longrightarrow> fp_new p \<Longrightarrow> p = new_page"
  by (auto simp: page_ok_def page_wf_def)

lemma pages_simps [simp]:
  "pages (s \<lparr> fsm_cached := c \<rparr>) = pages s" "pages (s \<lparr> main_cached := c \<rparr>) = pages s"
  "slot_val (s \<lparr> fsm_cached := c \<rparr>) a i = slot_val s a i" "slot_val (s \<lparr> main_cached := c \<rparr>) a i = slot_val s a i"
  by (simp_all add: pages_def slot_val_def)

lemma put_page_pages: "pages (put_page b p s) = (pages s)[unat b := p]"
  by (auto simp: pages_def put_page_def split: option.splits)

lemma put_page_simps [simp]:
  "length (pages (put_page b p s)) = length (pages s)" "fsm_cached (put_page b p s) = fsm_cached s"
  "main_cached (put_page b p s) = main_cached s" "main_nblocks (put_page b p s) = main_nblocks s"
  "fork (put_page b p s) = None \<longleftrightarrow> fork s = None"
  by (simp_all add: put_page_pages) (simp_all add: put_page_def)

lemma get_page_pages: "valid_addr a \<Longrightarrow> phys a < length (pages s) \<Longrightarrow> get_page s (fsm_logical_to_physical a) = pages s ! phys a"
  by (auto simp: get_page_def pages_def unat_physical split: option.splits)

lemma put_page_wf: "fsm_wf H s \<Longrightarrow> page_ok H p \<Longrightarrow> fsm_wf H (put_page b p s)"
  using set_update_subset_insert [of "pages s" "unat b" p] by (auto simp: fsm_wf_def put_page_pages)

lemma put_page_slot:
  assumes "valid_addr a" and "valid_addr b" and "phys a < length (pages s)"
  shows "slot_val (put_page (fsm_logical_to_physical a) p s) b i = (if b = a then leaves p ! i else slot_val s b i)"
  using assms phys_inj [of b a] by (auto simp: slot_val_def put_page_pages unat_physical nth_list_update)

lemma get_put_page:
  "valid_addr a \<Longrightarrow> phys a < length (pages s) \<Longrightarrow> get_page (put_page (fsm_logical_to_physical a) p s) (fsm_logical_to_physical a) = p"
  by (simp add: get_page_pages put_page_pages unat_physical)

lemma fork_nblocks_unat: "fsm_wf H s \<Longrightarrow> unat (fork_nblocks s) = length (pages s)"
  by (auto simp: fsm_wf_def fork_nblocks_def pages_def unat_of_nat split: option.splits)

lemma fork_nblocks_valid: "fsm_wf H s \<Longrightarrow> fork_nblocks s \<noteq> InvalidBlockNumber"
  using fork_nblocks_unat [of H s] by (auto simp: InvalidBlockNumber_def fsm_wf_def)

subsection \<open>Reading a page of the map\<close>

definition failing :: "fsm_env \<Rightarrow> pg_error \<Rightarrow> bool" where
  "failing E e \<longleftrightarrow> (\<exists>c. fault E c = Inl e)
     \<or> (\<exists>p. relock (bufs E) p = Inl e \<or> mark_buffer_dirty_hint (bufs E) p = Inl e)"

lemma call_cases:
  obtains (fail) e where "call E c s = (Inl e, s)" "failing E e" | (ok) "call E c s = (Inr (), s)"
  by (cases "fault E c") (auto simp: call_def failing_def)

text \<open>The length of the fork, through the cache.\<close>

definition fork_size :: "fsm_env \<Rightarrow> BlockNumber \<Rightarrow> fsm \<Rightarrow> BlockNumber res \<times> fsm" where
  "fork_size E blkno s =
     (if fsm_cached s = InvalidBlockNumber \<or> blkno \<ge> fsm_cached s then
        bindS (smgr_exists E (s \<lparr> fsm_cached := InvalidBlockNumber \<rparr>)) (\<lambda>found s.
          if found then smgr_nblocks E s else (Inr 0, s \<lparr> fsm_cached := 0 \<rparr>))
      else (Inr (fsm_cached s), s))"

lemma fork_size_ok:
  assumes "fsm_wf H s"
  shows "\<exists>r s'. fork_size E blkno s = (r, s') \<and> fsm_wf H s' \<and> same_map s s' \<and> pages s' = pages s
    \<and> (\<forall>e. r = Inl e \<longrightarrow> failing E e)
    \<and> (\<forall>n. r = Inr n \<longrightarrow> (blkno < n \<longleftrightarrow> unat blkno < length (pages s)))"
proof (cases "fsm_cached s = InvalidBlockNumber \<or> blkno \<ge> fsm_cached s")
  case False
  then have "blkno < fsm_cached s" "unat blkno < length (pages s)"
    using assms by (auto simp: fsm_wf_def word_less_nat_alt not_le)
  with False assms show ?thesis
    by (simp add: fork_size_def)
next
  case True
  let ?s = "s \<lparr> fsm_cached := InvalidBlockNumber \<rparr>"
  have s: "fsm_wf H ?s"
    using assms by (simp add: fsm_wf_def)
  show ?thesis
  proof (cases rule: call_cases [of E SmgrExists ?s])
    case (fail e)
    with True s show ?thesis
      by (auto simp: fork_size_def smgr_exists_def same_map_def)
  next
    case ok: ok
    show ?thesis
    proof (cases "fork s = None")
      case none: True
      with True ok s show ?thesis
        by (auto simp: fork_size_def smgr_exists_def same_map_def fsm_wf_def pages_def)
    next
      case some: False
      show ?thesis
      proof (cases rule: call_cases [of E SmgrNblocks ?s])
        case (fail e)
        with True ok some s show ?thesis
          by (auto simp: fork_size_def smgr_exists_def smgr_nblocks_def same_map_def)
      next
        case 2: ok
        have n: "fork_nblocks ?s = fork_nblocks s" "unat (fork_nblocks s) = length (pages s)"
          using fork_nblocks_unat [OF assms] by (simp_all add: fork_nblocks_def)
        then have "fsm_wf H (s \<lparr> fsm_cached := fork_nblocks s \<rparr>)"
          using assms some by (auto simp: fsm_wf_def)
        with True ok some 2 n show ?thesis
          by (auto simp: fork_size_def smgr_exists_def smgr_nblocks_def same_map_def word_less_nat_alt)
      qed
    qed
  qed
qed

text \<open>Extending the fork adds new pages, which record nothing.\<close>

lemma extend_ok:
  assumes "fsm_wf H s" and "unat n < 2 ^ 31"
  shows "\<exists>r s'. fsm_extend E n s = (r, s') \<and> fsm_wf H s' \<and> same_map s s'
    \<and> (\<forall>e. r = Inl e \<longrightarrow> failing E e) \<and> (r = Inr () \<longrightarrow> unat n \<le> length (pages s'))
    \<and> length (pages s') \<le> max (length (pages s)) (unat n)"
proof (cases rule: call_cases [of E "ExtendRel n" "s \<lparr> fsm_cached := InvalidBlockNumber \<rparr>"])
  case (fail e)
  with assms show ?thesis
    by (auto simp: fsm_extend_def same_map_def fsm_wf_def)
next
  case ok
  define ps where "ps = pages s @ replicate (unat n - length (pages s)) new_page"
  let ?s = "s \<lparr> fork := Some ps, fsm_cached := word_of_nat (length ps) \<rparr>"
  have run: "fsm_extend E n s = (Inr (), ?s)"
    using ok by (simp add: fsm_extend_def pages_def Let_def ps_def)
  have pages: "pages ?s = ps"
    by (simp add: pages_def)
  have len: "length ps < 2 ^ 31" "unat n \<le> length ps" "length (pages s) \<le> length ps"
    using assms by (auto simp: fsm_wf_def ps_def)
  then have "unat (word_of_nat (length ps) :: BlockNumber) = length ps"
    by (simp add: unat_of_nat)
  moreover have "\<forall>p \<in> set ps. page_ok H p"
    using assms(1) by (auto simp: fsm_wf_def ps_def)
  ultimately have wf: "fsm_wf H ?s"
    using assms(1) len unfolding fsm_wf_def pages by simp
  have "slot_val ?s a i = slot_val s a i" if "i < 4069" for a i
    using that unfolding slot_val_def pages by (auto simp: ps_def nth_append)
  then have "same_map s ?s"
    using len unfolding same_map_def pages by simp
  moreover have "length ps \<le> max (length (pages s)) (unat n)"
    by (simp add: ps_def)
  ultimately show ?thesis
    using run wf len pages by auto
qed

definition read_page :: "fsm_env \<Rightarrow> BlockNumber \<Rightarrow> bool \<Rightarrow> BlockNumber \<Rightarrow> fsm \<Rightarrow> bool res \<times> fsm" where
  "read_page E blkno extend_fork n s =
     (if blkno \<ge> n then
        if \<not> extend_fork then (Inr False, s) else bindS (fsm_extend E (blkno + 1) s) (\<lambda>_ s. (Inr True, s))
      else bindS (call E (ReadBuffer blkno) s) (\<lambda>_ s. (Inr True, s)))"

lemma readbuf_parts:
  "fsm_readbuf E addr ext s =
    (let blkno = fsm_logical_to_physical addr in
     bindS (fork_size E blkno s) (\<lambda>n s. bindS (read_page E blkno ext n s) (\<lambda>found s.
       if \<not> found then (Inr None, s)
       else if fp_new (get_page s blkno) then
         bindS (call E (LockBuffer blkno) s) (\<lambda>_ s. (Inr (Some blkno), put_page blkno page_init s))
       else (Inr (Some blkno), s))))"
  by (simp add: fsm_readbuf_def fork_size_def read_page_def Let_def)

lemma init_page_same:
  assumes "fsm_wf H s" and "valid_addr a" and "phys a < length (pages s)" and "fp_new (pages s ! phys a)"
  shows "same_map s (put_page (fsm_logical_to_physical a) page_init s)"
proof -
  have "pages s ! phys a = new_page"
    using assms by (auto simp: fsm_wf_def intro: page_ok_new)
  then have "slot_val (put_page (fsm_logical_to_physical a) page_init s) b i = slot_val s b i" if "i < 4069" for b i
    using that assms by (auto simp: slot_val_def put_page_pages unat_physical nth_list_update)
  then show ?thesis
    by (simp add: same_map_def)
qed

lemma readbuf_ok:
  assumes wf: "fsm_wf H s" and a: "valid_addr a"
  shows "\<exists>r s'. fsm_readbuf E a ext s = (r, s') \<and> fsm_wf H s' \<and> same_map s s'
    \<and> (\<forall>e. r = Inl e \<longrightarrow> failing E e) \<and> length (pages s') \<le> max (length (pages s)) (Suc (phys a))
    \<and> (r = Inr None \<longrightarrow> \<not> ext \<and> length (pages s) \<le> phys a \<and> pages s' = pages s)
    \<and> (\<forall>b. r = Inr (Some b) \<longrightarrow> b = fsm_logical_to_physical a \<and> phys a < length (pages s')
         \<and> page_wf (pages s' ! phys a) \<and> (H \<longrightarrow> heap (pages s' ! phys a)))"
proof -
  let ?b = "fsm_logical_to_physical a"
  have b: "unat ?b = phys a" "phys a < 16560831"
    using a by (simp_all add: unat_physical phys_less)
  obtain r1 s1 where s1: "fork_size E ?b s = (r1, s1)" "fsm_wf H s1" "same_map s s1" "pages s1 = pages s"
    "\<forall>e. r1 = Inl e \<longrightarrow> failing E e" "\<forall>n. r1 = Inr n \<longrightarrow> (?b < n \<longleftrightarrow> phys a < length (pages s))"
    using fork_size_ok [OF wf, of E ?b] b(1) by auto
  show ?thesis
  proof (cases r1)
    case (Inl e)
    with s1 show ?thesis by (auto simp: readbuf_parts)
  next
    case (Inr n)
    have "?b + 1 \<noteq> 0"
    proof
      assume "?b + 1 = 0"
      then have "?b = 0xFFFFFFFF" by (simp add: word_plus_1_eq_0)
      with b show False by simp
    qed
    then have suc: "unat (?b + 1) = Suc (phys a)"
      using b by (simp add: unat_Suc_word)
    have "\<exists>r2 s2. read_page E ?b ext n s1 = (r2, s2) \<and> fsm_wf H s2 \<and> same_map s1 s2
        \<and> (\<forall>e. r2 = Inl e \<longrightarrow> failing E e) \<and> (r2 = Inr False \<longrightarrow> \<not> ext \<and> length (pages s) \<le> phys a \<and> s2 = s1)
        \<and> (r2 = Inr True \<longrightarrow> phys a < length (pages s2)) \<and> length (pages s2) \<le> max (length (pages s)) (Suc (phys a))"
    proof (cases "?b \<ge> n")
      case True
      then have "length (pages s) \<le> phys a"
        using s1(6) Inr by (auto simp: not_less [symmetric])
      moreover obtain r3 s3 where "fsm_extend E (?b + 1) s1 = (r3, s3)" "fsm_wf H s3" "same_map s1 s3"
        "\<forall>e. r3 = Inl e \<longrightarrow> failing E e" "r3 = Inr () \<longrightarrow> Suc (phys a) \<le> length (pages s3)"
        "length (pages s3) \<le> max (length (pages s)) (Suc (phys a))"
        using extend_ok [OF s1(2), of "?b + 1" E] suc b(2) s1(4) by auto
      ultimately show ?thesis
        using True s1(2,4) by (cases r3) (auto simp: read_page_def)
    next
      case False
      then have "phys a < length (pages s1)"
        using s1(4,6) Inr by auto
      with False s1(2,4) show ?thesis
        by (cases rule: call_cases [of E "ReadBuffer ?b" s1]) (auto simp: read_page_def)
    qed
    then obtain r2 s2 where s2: "read_page E ?b ext n s1 = (r2, s2)" "fsm_wf H s2" "same_map s1 s2"
      "\<forall>e. r2 = Inl e \<longrightarrow> failing E e" "r2 = Inr False \<longrightarrow> \<not> ext \<and> length (pages s) \<le> phys a \<and> s2 = s1"
      "r2 = Inr True \<longrightarrow> phys a < length (pages s2)" "length (pages s2) \<le> max (length (pages s)) (Suc (phys a))"
      by blast
    have same: "same_map s s2"
      using s1(3) s2(3) by (rule same_map_trans)
    consider (err) e where "r2 = Inl e" | (none) "r2 = Inr False" | (page) "r2 = Inr True"
      by (cases r2) auto
    then show ?thesis
    proof cases
      case err
      with s1 s2 Inr same show ?thesis by (auto simp: readbuf_parts)
    next
      case none
      with s1 s2 Inr same show ?thesis by (auto simp: readbuf_parts)
    next
      case page
      then have p: "phys a < length (pages s2)" using s2 by blast
      then have ok: "page_ok H (pages s2 ! phys a)"
        using s2(2) by (auto simp: fsm_wf_def)
      have get: "get_page s2 ?b = pages s2 ! phys a"
        using a p by (rule get_page_pages)
      show ?thesis
      proof (cases "fp_new (pages s2 ! phys a)")
        case False
        with page s1 s2 Inr get page_ok_old [OF ok] p same show ?thesis
          by (auto simp: readbuf_parts)
      next
        case True
        have "same_map s (put_page ?b page_init s2)"
          using init_page_same [OF s2(2) a p True] same same_map_trans by blast
        moreover have "fsm_wf H (put_page ?b page_init s2)"
          by (rule put_page_wf [OF s2(2)]) simp
        ultimately show ?thesis
          using page s1 s2 Inr get True p same b(1)
          by (cases rule: call_cases [of E "LockBuffer ?b" s2]) (auto simp: readbuf_parts put_page_pages Let_def)
      qed
    qed
  qed
qed

text \<open>A read that does not extend keeps the length of the fork and its initialised pages.\<close>

definition inited :: "fsm \<Rightarrow> fsm \<Rightarrow> bool" where
  "inited s t \<longleftrightarrow> length (pages t) = length (pages s)
     \<and> (\<forall>k < length (pages s). \<not> fp_new (pages s ! k) \<longrightarrow> \<not> fp_new (pages t ! k))"

lemma inited_refl [simp]: "inited s s"
  by (simp add: inited_def)

lemma inited_trans: "inited s t \<Longrightarrow> inited t u \<Longrightarrow> inited s u"
  by (simp add: inited_def)

lemma inited_pages: "pages t = pages s \<Longrightarrow> inited s t"
  by (simp add: inited_def)

lemma inited_put: "\<not> fp_new p \<Longrightarrow> inited s (put_page b p s)"
  by (cases "unat b < length (pages s)") (auto simp: inited_def put_page_pages nth_list_update)

lemma readbuf_inited:
  assumes wf: "fsm_wf H s" and a: "valid_addr a" and run: "fsm_readbuf E a False s = (r, s')"
  shows "inited s s'"
proof -
  let ?b = "fsm_logical_to_physical a"
  obtain r1 s1 where s1: "fork_size E ?b s = (r1, s1)" "pages s1 = pages s"
    using fork_size_ok [OF wf, of E ?b] by blast
  have read: "pages (snd (read_page E ?b False n s1)) = pages s1" for n
    by (cases rule: call_cases [of E "ReadBuffer ?b" s1]) (auto simp: read_page_def)
  show ?thesis
  proof (cases r1)
    case (Inl e)
    with s1 run show ?thesis by (simp add: readbuf_parts inited_pages)
  next
    case (Inr n)
    obtain r2 s2 where s2: "read_page E ?b False n s1 = (r2, s2)" by (cases "read_page E ?b False n s1")
    have "inited s s2" "inited s2 (put_page ?b page_init s2)"
      using read [of n] s2 s1 by (simp_all add: inited_pages inited_put page_wf_not_new)
    then have "inited s s2" "inited s (put_page ?b page_init s2)"
      using inited_trans by blast+
    then show ?thesis
      using Inr s1(1) s2 run
      by (cases r2; cases rule: call_cases [of E "LockBuffer ?b" s2]) (auto simp: readbuf_parts Let_def split: if_splits)
  qed
qed

subsection \<open>Recording\<close>

definition record_slot :: "FSMAddress \<Rightarrow> nat \<Rightarrow> u8 \<Rightarrow> fsm \<Rightarrow> fsm \<Rightarrow> bool" where
  "record_slot a i v s s' \<longleftrightarrow> main_nblocks s' = main_nblocks s \<and> length (pages s) \<le> length (pages s')
     \<and> phys a < length (pages s')
     \<and> (\<forall>b j. valid_addr b \<longrightarrow> j < 4069 \<longrightarrow> slot_val s' b j = (if b = a \<and> j = i then v else slot_val s b j))"

lemma same_record: "same_map s t \<Longrightarrow> record_slot a i v t u \<Longrightarrow> record_slot a i v s u"
  by (auto simp: same_map_def record_slot_def)

lemma put_page_leaves:
  assumes "valid_addr a" and "phys a < length (pages s)" and "leaves p = (leaves (pages s ! phys a))[i := v]"
    and "page_wf (pages s ! phys a)"
  shows "record_slot a i v s (put_page (fsm_logical_to_physical a) p s)"
  unfolding record_slot_def
proof (intro conjI allI impI)
  fix b and j :: nat assume b: "valid_addr b" "j < 4069"
  have "slot_val s a j = leaves (pages s ! phys a) ! j"
    using assms(2) by (simp add: slot_val_def)
  then show "slot_val (put_page (fsm_logical_to_physical a) p s) b j = (if b = a \<and> j = i then v else slot_val s b j)"
    using put_page_slot [OF assms(1) b(1) assms(2), of p j] b assms(3,4) by (simp add: nth_list_update)
qed (use assms in simp_all)

lemma put_page_same:
  assumes "valid_addr a" and "phys a < length (pages s)" and "leaves p = leaves (pages s ! phys a)"
  shows "same_map s (put_page (fsm_logical_to_physical a) p s)"
  using assms by (auto simp: same_map_def slot_val_def put_page_pages unat_physical nth_list_update)

lemma on_page_others:
  "on_page b f s = (r, t) \<Longrightarrow> length (pages t) = length (pages s) \<and> (\<forall>k. k \<noteq> unat b \<longrightarrow> pages t ! k = pages s ! k)"
  by (auto simp: on_page_def put_page_pages split: sum.splits prod.splits)

lemma set_on_page:
  assumes wf: "fsm_wf H s" and a: "valid_addr a" and p: "phys a < length (pages s)" "page_wf (pages s ! phys a)"
    "H \<longrightarrow> heap (pages s ! phys a)" and i: "i < 4069"
  shows "\<exists>b s'. on_page (fsm_logical_to_physical a) (\<lambda>p. fsm_set_avail p (int i) v) s = (Inr b, s')
    \<and> fsm_wf H s' \<and> record_slot a i v s s' \<and> page_wf (pages s' ! phys a) \<and> (H \<longrightarrow> heap (pages s' ! phys a))
    \<and> v \<le> nval (pages s' ! phys a) 0"
proof -
  obtain b q where q: "fsm_set_avail (pages s ! phys a) (int i) v = Inr (b, q)" "page_wf q"
    "leaves q = (leaves (pages s ! phys a))[i := v]" "heap (pages s ! phys a) \<longrightarrow> heap q" "v \<le> nval q 0"
    using set_avail_ok [OF p(2) i] by blast
  let ?s = "put_page (fsm_logical_to_physical a) q s"
  have "on_page (fsm_logical_to_physical a) (\<lambda>p. fsm_set_avail p (int i) v) s = (Inr b, ?s)"
    using q(1) a p(1) by (simp add: on_page_def get_page_pages)
  moreover have "fsm_wf H ?s"
    by (rule put_page_wf [OF wf]) (use q p in \<open>auto simp: page_ok_def\<close>)
  moreover have "record_slot a i v s ?s"
    using a p q(3) by (intro put_page_leaves)
  moreover have "pages ?s ! phys a = q"
    using a p by (simp add: put_page_pages unat_physical)
  ultimately show ?thesis
    using q p(3) by auto
qed

lemma search_on_page:
  assumes wf: "fsm_wf H s" and a: "valid_addr a" and p: "phys a < length (pages s)" "page_wf (pages s ! phys a)"
    "H \<longrightarrow> heap (pages s ! phys a)" and B: "buf_ok (bufs E)"
  shows "\<exists>r s'. map_option (\<lambda>(r, p). (r, put_page (fsm_logical_to_physical a) p s))
        (fsm_search_avail (bufs E) (get_page s (fsm_logical_to_physical a)) lim adv x) = Some (r, s')
    \<and> fsm_wf H s' \<and> phys a < length (pages s') \<and> length (pages s') = length (pages s) \<and> main_nblocks s' = main_nblocks s
    \<and> (H \<or> x \<longrightarrow> same_map s s') \<and> page_wf (pages s' ! phys a) \<and> (H \<longrightarrow> heap (pages s' ! phys a))
    \<and> (\<forall>e. r = Inl e \<longrightarrow> failing E e)
    \<and> (\<forall>n. r = Inr n \<longrightarrow> n = - 1 \<and> nval (pages s' ! phys a) 0 < lim \<or> (\<exists>k < 4069. n = int k \<and> lim \<le> slot_val s' a k))"
proof -
  let ?p = "pages s ! phys a"
  obtain r q where r: "fsm_search_avail (bufs E) ?p lim adv x = Some (r, q)" "search_post (bufs E) lim (r, q)"
    "heap ?p \<or> x \<longrightarrow> leaves q = leaves ?p" "heap ?p \<longrightarrow> (\<exists>slot h. r = Inr slot \<and> q = set_next_slot h ?p)"
    using search_avail_ok [OF p(2) B, of lim adv x] by (elim exE conjE) (rule that)
  have q: "page_wf q" "H \<longrightarrow> heap q"
    using r(2,4) p(3) by (auto simp: search_post_def)
  let ?s = "put_page (fsm_logical_to_physical a) q s"
  have at: "pages ?s ! phys a = q"
    using a p by (simp add: put_page_pages unat_physical)
  have val: "slot_val ?s a k = leaves q ! k" for k
    using put_page_slot [OF a a p(1)] by simp
  have "fsm_wf H ?s"
    by (rule put_page_wf [OF wf]) (use q in \<open>auto simp: page_ok_def\<close>)
  moreover have "H \<or> x \<longrightarrow> same_map s ?s"
    using put_page_same [OF a p(1), of q] r(3) p(3) by blast
  moreover have "\<forall>e. r = Inl e \<longrightarrow> failing E e"
    using r(2) by (auto simp: search_post_def failing_def)
  moreover have "\<forall>n. r = Inr n \<longrightarrow> n = - 1 \<and> nval q 0 < lim \<or> (\<exists>k < 4069. n = int k \<and> lim \<le> slot_val ?s a k)"
    using r(2) by (auto simp: search_post_def val)
  ultimately show ?thesis
    using r(1) a p q at by (simp add: get_page_pages)
qed

lemma set_and_search_ok:
  assumes wf: "fsm_wf H s" and a: "valid_addr a" and i: "i < 4069" and B: "buf_ok (bufs E)"
  shows "\<exists>r s'. fsm_set_and_search E a (int i) v lim s = Some (r, s') \<and> fsm_wf H s'
    \<and> (same_map s s' \<or> record_slot a i v s s') \<and> (\<forall>e. r = Inl e \<longrightarrow> failing E e)
    \<and> length (pages s') \<le> max (length (pages s)) (Suc (phys a))
    \<and> (\<forall>n. r = Inr n \<longrightarrow> record_slot a i v s s'
         \<and> (n = - 1 \<or> (\<exists>k < 4069. n = int k \<and> lim \<le> slot_val s' a k)))"
proof -
  obtain r1 s1 where s1: "fsm_readbuf E a True s = (r1, s1)" "fsm_wf H s1" "same_map s s1"
    "\<forall>e. r1 = Inl e \<longrightarrow> failing E e" "r1 \<noteq> Inr None"
    "\<forall>b. r1 = Inr (Some b) \<longrightarrow> b = fsm_logical_to_physical a \<and> phys a < length (pages s1)
         \<and> page_wf (pages s1 ! phys a) \<and> (H \<longrightarrow> heap (pages s1 ! phys a))"
    "length (pages s1) \<le> max (length (pages s)) (Suc (phys a))"
    using readbuf_ok [OF wf a, of E True] by (elim exE conjE) (rule that, assumption+, blast, assumption+)
  show ?thesis
  proof (cases r1)
    case (Inl e)
    with s1 show ?thesis by (auto simp: fsm_set_and_search_def)
  next
    case (Inr pin)
    let ?b = "fsm_logical_to_physical a"
    from Inr s1(5,6) have r1: "r1 = Inr (Some ?b)" and p: "phys a < length (pages s1)" "page_wf (pages s1 ! phys a)"
      "H \<longrightarrow> heap (pages s1 ! phys a)"
      by (cases pin; auto)+
    obtain c s2 where s2: "on_page ?b (\<lambda>p. fsm_set_avail p (int i) v) s1 = (Inr c, s2)" "fsm_wf H s2"
      "record_slot a i v s1 s2" "page_wf (pages s2 ! phys a)" "H \<longrightarrow> heap (pages s2 ! phys a)"
      using set_on_page [OF s1(2) a p i, of v] by blast
    have p2: "phys a < length (pages s2)" and rec: "record_slot a i v s s2"
      using s2(3) same_record [OF s1(3)] by (auto simp: record_slot_def)
    have l2: "length (pages s2) \<le> max (length (pages s)) (Suc (phys a))"
      using s1(7) on_page_others [OF s2(1)] by simp
    obtain r3 s3 where s3: "map_option (\<lambda>(r, p). (r, put_page ?b p s2))
        (fsm_search_avail (bufs E) (get_page s2 ?b) lim (level a = FSM_BOTTOM_LEVEL) True) = Some (r3, s3)"
      "fsm_wf H s3" "same_map s2 s3" "length (pages s3) = length (pages s2)" "\<forall>e. r3 = Inl e \<longrightarrow> failing E e"
      "\<forall>n. r3 = Inr n \<longrightarrow> n = - 1 \<or> (\<exists>k < 4069. n = int k \<and> lim \<le> slot_val s3 a k)"
      using search_on_page [OF s2(2) a p2 s2(4,5) B, of lim "level a = FSM_BOTTOM_LEVEL" True]
      by (elim exE conjE) (rule that, assumption, assumption, simp, assumption, assumption, blast)
    have rec3: "record_slot a i v s s3"
      using rec s3(3,4) by (auto simp: record_slot_def same_map_def)
    have unlock: "\<exists>r s'. (if lim \<noteq> 0 then bindP (Some (r3, s3)) (\<lambda>n s. bindP (Some (call E (LockBuffer ?b) s)) (\<lambda>_ s. Some (Inr n, s)))
          else bindP (Some (call E (LockBuffer ?b) s2)) (\<lambda>_ s. Some (Inr (- 1), s))) = Some (r, s') \<and> fsm_wf H s'
        \<and> record_slot a i v s s' \<and> (\<forall>e. r = Inl e \<longrightarrow> failing E e)
        \<and> length (pages s') \<le> max (length (pages s)) (Suc (phys a))
        \<and> (\<forall>n. r = Inr n \<longrightarrow> n = - 1 \<or> (\<exists>k < 4069. n = int k \<and> lim \<le> slot_val s' a k))"
      using s3 rec rec3 s2(2) l2
      by (cases rule: call_cases [of E "LockBuffer ?b" s3]; cases rule: call_cases [of E "LockBuffer ?b" s2]; cases r3) auto
    have run: "fsm_set_and_search E a (int i) v lim s =
        bindP (Some (call E (LockBuffer ?b) s1)) (\<lambda>_ s.
          bindP (Some (on_page ?b (\<lambda>p. fsm_set_avail p (int i) v) s)) (\<lambda>changed s.
          bindP (Some (if changed then call E (MarkDirty ?b) s else (Inr (), s))) (\<lambda>_ s.
          bindP (if lim \<noteq> 0
                 then map_option (\<lambda>(r, p). (r, put_page ?b p s))
                        (fsm_search_avail (bufs E) (get_page s ?b) lim (level a = FSM_BOTTOM_LEVEL) True)
                 else Some (Inr (- 1), s)) (\<lambda>newslot s.
          bindP (Some (call E (LockBuffer ?b) s)) (\<lambda>_ s. Some (Inr newslot, s))))))"
      unfolding fsm_set_and_search_def s1(1) r1 by simp
    show ?thesis
    proof (cases rule: call_cases [of E "LockBuffer ?b" s1])
      case (fail e)
      with run s1 show ?thesis by auto
    next
      case 1: ok
      show ?thesis
      proof (cases rule: call_cases [of E "MarkDirty ?b" s2])
        case (fail e)
        show ?thesis
        proof (cases c)
          case True
          with run 1 s2 fail rec l2 show ?thesis by auto
        next
          case False
          with run 1 s2 s3(1) unlock show ?thesis by (auto split: if_splits)
        qed
      next
        case 2: ok
        with run 1 s2 s3(1) unlock show ?thesis by (cases c) (auto split: if_splits)
      qed
    qed
  qed
qed

subsection \<open>Searching the map\<close>

text \<open>
  What a search may do to the table of a sound map: slots of the upper levels change, and a bottom
  slot only when its heap block does not exist.
\<close>

definition keeps_space :: "fsm \<Rightarrow> fsm \<Rightarrow> bool" where
  "keeps_space s s' \<longleftrightarrow> main_nblocks s' = main_nblocks s \<and> length (pages s) \<le> length (pages s')
     \<and> (\<forall>a i. valid_addr a \<longrightarrow> level a = 0 \<longrightarrow> i < 4069 \<longrightarrow> fsm_get_heap_blk a (int i) < main_nblocks s
          \<longrightarrow> slot_val s' a i = slot_val s a i)"

lemma keeps_refl [simp]: "keeps_space s s"
  by (simp add: keeps_space_def)

lemma keeps_trans: "keeps_space s t \<Longrightarrow> keeps_space t u \<Longrightarrow> keeps_space s u"
  by (auto simp: keeps_space_def)

lemma same_keeps: "same_map s t \<Longrightarrow> keeps_space s t"
  by (simp add: same_map_def keeps_space_def)

lemma record_keeps:
  "record_slot a i v s t \<Longrightarrow> level a \<noteq> 0 \<or> \<not> fsm_get_heap_blk a (int i) < main_nblocks s \<Longrightarrow> keeps_space s t"
  by (auto simp: record_slot_def keeps_space_def)

lemma search_page_ok:
  assumes wf: "fsm_wf H s" and a: "valid_addr a" and B: "buf_ok (bufs E)"
  shows "\<exists>r s'. search_page E a lim s = Some (r, s') \<and> fsm_wf H s' \<and> main_nblocks s' = main_nblocks s \<and> (H \<longrightarrow> same_map s s')
    \<and> (\<forall>e. r = Inl e \<longrightarrow> failing E e)
    \<and> (\<forall>held slot m. r = Inr (held, slot, m) \<longrightarrow>
         slot = - 1 \<and> (phys a < length (pages s') \<longrightarrow> nval (pages s' ! phys a) 0 < lim)
         \<or> held = Some (fsm_logical_to_physical a) \<and> phys a < length (pages s') \<and> page_wf (pages s' ! phys a)
           \<and> (H \<longrightarrow> heap (pages s' ! phys a)) \<and> (\<exists>k < 4069. slot = int k \<and> lim \<le> slot_val s' a k))"
proof -
  obtain r1 s1 where s1: "fsm_readbuf E a False s = (r1, s1)" "fsm_wf H s1" "same_map s s1"
    "\<forall>e. r1 = Inl e \<longrightarrow> failing E e" "r1 = Inr None \<longrightarrow> length (pages s1) \<le> phys a"
    "\<forall>b. r1 = Inr (Some b) \<longrightarrow> b = fsm_logical_to_physical a \<and> phys a < length (pages s1)
         \<and> page_wf (pages s1 ! phys a) \<and> (H \<longrightarrow> heap (pages s1 ! phys a))"
    using readbuf_ok [OF wf a, of E False] by (elim exE conjE) (rule that, auto)
  have main: "main_nblocks s1 = main_nblocks s"
    using s1(3) by (simp add: same_map_def)
  consider (err) e where "r1 = Inl e" | (none) "r1 = Inr None" | (page) b where "r1 = Inr (Some b)"
    by (cases r1) (auto simp: split_option_all)
  then show ?thesis
  proof cases
    case err
    with s1 main show ?thesis by (auto simp: search_page_def)
  next
    case none
    with s1 main show ?thesis by (auto simp: search_page_def)
  next
    case (page b)
    let ?b = "fsm_logical_to_physical a"
    have b: "r1 = Inr (Some ?b)" and p: "phys a < length (pages s1)" "page_wf (pages s1 ! phys a)" "H \<longrightarrow> heap (pages s1 ! phys a)"
      using page s1(6) by auto
    obtain r2 s2 where s2: "map_option (\<lambda>(r, p). (r, put_page ?b p s1))
        (fsm_search_avail (bufs E) (get_page s1 ?b) lim (level a = FSM_BOTTOM_LEVEL) False) = Some (r2, s2)"
      "fsm_wf H s2" "phys a < length (pages s2)" "main_nblocks s2 = main_nblocks s1"
      "H \<longrightarrow> same_map s1 s2" "page_wf (pages s2 ! phys a)" "H \<longrightarrow> heap (pages s2 ! phys a)"
      "\<forall>e. r2 = Inl e \<longrightarrow> failing E e"
      "\<forall>n. r2 = Inr n \<longrightarrow> n = - 1 \<and> nval (pages s2 ! phys a) 0 < lim \<or> (\<exists>k < 4069. n = int k \<and> lim \<le> slot_val s2 a k)"
      using search_on_page [OF s1(2) a p B, of lim "level a = FSM_BOTTOM_LEVEL" False]
      by (elim exE conjE) (rule that, assumption, assumption, assumption, assumption, simp, assumption, assumption, assumption, assumption)
    have same: "H \<longrightarrow> same_map s s2"
      using s1(3) s2(5) same_map_trans by blast
    have run: "search_page E a lim s =
        bindP (Some (call E (LockBuffer ?b) s1)) (\<lambda>_ s.
          bindP (map_option (\<lambda>(r, p). (r, put_page ?b p s))
                   (fsm_search_avail (bufs E) (get_page s ?b) lim (level a = FSM_BOTTOM_LEVEL) False)) (\<lambda>slot s.
          if slot = - 1 then
            bindP (Some (fsm_get_max_avail (get_page s ?b), s)) (\<lambda>max_avail s.
            bindP (Some (call E (LockBuffer ?b) s)) (\<lambda>_ s. Some (Inr (None, slot, max_avail), s)))
          else bindP (Some (call E (LockBuffer ?b) s)) (\<lambda>_ s. Some (Inr (Some ?b, slot, 0), s))))"
      unfolding search_page_def s1(1) b by simp
    have root: "fsm_get_max_avail (get_page s2 ?b) = Inr (nval (pages s2 ! phys a) 0)"
      using a s2(3) node_nval [of 0 "pages s2 ! phys a"] by (simp add: get_page_pages fsm_get_max_avail_def)
    show ?thesis
    proof (cases rule: call_cases [of E "LockBuffer ?b" s1])
      case (fail e)
      with run s1 main show ?thesis by auto
    next
      case 1: ok
      show ?thesis
      proof (cases r2)
        case (Inl e)
        with run 1 s2 same main show ?thesis by auto
      next
        case (Inr n)
        show ?thesis
        proof (cases rule: call_cases [of E "LockBuffer ?b" s2])
          case (fail e)
          with run 1 s2 Inr root same main show ?thesis by (cases "n = - 1") auto
        next
          case 2: ok
          with run 1 s2 Inr root same main show ?thesis by (cases "n = - 1") auto
        qed
      qed
    qed
  qed
qed

lemma block_exists_ok:
  assumes "fsm_wf H s"
  shows "\<exists>r s'. fsm_does_block_exist E blk s = (r, s') \<and> fsm_wf H s' \<and> same_map s s' \<and> pages s' = pages s
    \<and> (\<forall>e. r = Inl e \<longrightarrow> failing E e) \<and> (\<forall>b. r = Inr b \<longrightarrow> (b \<longleftrightarrow> blk < main_nblocks s))"
proof (cases "main_cached s \<noteq> InvalidBlockNumber \<and> blk < main_cached s")
  case True
  with assms have "blk < main_nblocks s"
    by (auto simp: fsm_wf_def)
  with True assms show ?thesis
    by (simp add: fsm_does_block_exist_def)
next
  case False
  have "fsm_wf H (s \<lparr> main_cached := main_nblocks s \<rparr>)"
    using assms by (simp add: fsm_wf_def)
  with False assms show ?thesis
    by (cases rule: call_cases [of E RelationNblocks s]) (auto simp: fsm_does_block_exist_def same_map_def)
qed

definition search_inv :: "bool \<Rightarrow> fsm \<Rightarrow> nat \<times> FSMAddress \<times> fsm \<Rightarrow> bool" where
  "search_inv H s0 = (\<lambda>(n, a, s). fsm_wf H s \<and> valid_addr a \<and> n \<le> MAX_RESTARTS + 1 \<and> main_nblocks s = main_nblocks s0
     \<and> (H \<longrightarrow> keeps_space s0 s))"

definition search_done :: "bool \<Rightarrow> fsm_env \<Rightarrow> u8 \<Rightarrow> fsm \<Rightarrow> BlockNumber res \<times> fsm \<Rightarrow> bool" where
  "search_done H E lim s0 = (\<lambda>(r, s). fsm_wf H s \<and> main_nblocks s = main_nblocks s0 \<and> (H \<longrightarrow> keeps_space s0 s)
     \<and> (\<forall>e. r = Inl e \<longrightarrow> failing E e)
     \<and> (\<forall>blk. r = Inr blk \<longrightarrow> blk = InvalidBlockNumber \<or> blk < main_nblocks s
          \<and> (\<exists>a i. valid_addr a \<and> level a = 0 \<and> i < 4069 \<and> fsm_get_heap_blk a (int i) = blk \<and> lim \<le> slot_val s a i)))"

definition search_left :: "nat \<times> FSMAddress \<times> fsm \<Rightarrow> nat" where
  "search_left = (\<lambda>(n, a, s). (MAX_RESTARTS + 2 - n) * 3 + nat (level a))"

text \<open>Clearing the slot of a block that does not exist, in the bottom page.\<close>

lemma clear_slot:
  assumes wf: "fsm_wf H s" and a: "valid_addr a" and p: "phys a < length (pages s)" "page_wf (pages s ! phys a)"
    "H \<longrightarrow> heap (pages s ! phys a)" and i: "i < 4069"
  shows "\<exists>r s'. bindS (call E (LockBuffer (fsm_logical_to_physical a)) s) (\<lambda>_ s.
        bindS (on_page (fsm_logical_to_physical a) (\<lambda>p. fsm_set_avail p (int i) v) s) (\<lambda>_ s.
        bindS (call E (MarkDirty (fsm_logical_to_physical a)) s) (\<lambda>_ s. call E (LockBuffer (fsm_logical_to_physical a)) s))) = (r, s')
    \<and> fsm_wf H s' \<and> (s' = s \<or> record_slot a i v s s' \<and> page_wf (pages s' ! phys a) \<and> (H \<longrightarrow> heap (pages s' ! phys a)))
    \<and> (\<forall>e. r = Inl e \<longrightarrow> failing E e)
    \<and> (r = Inr () \<longrightarrow> record_slot a i v s s' \<and> page_wf (pages s' ! phys a) \<and> (H \<longrightarrow> heap (pages s' ! phys a)))"
proof -
  let ?b = "fsm_logical_to_physical a"
  obtain c t where t: "on_page ?b (\<lambda>p. fsm_set_avail p (int i) v) s = (Inr c, t)" "fsm_wf H t" "record_slot a i v s t"
    "page_wf (pages t ! phys a)" "H \<longrightarrow> heap (pages t ! phys a)"
    using set_on_page [OF wf a p i, of v] by blast
  show ?thesis
    using wf t
    by (cases rule: call_cases [of E "LockBuffer ?b" s]; cases rule: call_cases [of E "MarkDirty ?b" t];
        cases rule: call_cases [of E "LockBuffer ?b" t]) auto
qed

lemma clear_others:
  "bindS (call E c1 s) (\<lambda>_ s. bindS (on_page b f s) (\<lambda>_ s. bindS (call E c2 s) (\<lambda>_ s. call E c3 s))) = (r, t)
    \<Longrightarrow> length (pages t) = length (pages s) \<and> (\<forall>k. k \<noteq> unat b \<longrightarrow> pages t ! k = pages s ! k)"
  by (cases "on_page b f s"; cases "fst (on_page b f s)"; cases "fault E c1"; cases "fault E c2")
    (auto simp: call_def dest: on_page_others)

lemma search_step_ok:
  assumes inv: "search_inv H s0 (n, a, s)" and B: "buf_ok (bufs E)"
  shows "(\<exists>x. fsm_search_step E lim (n, a, s) = Some (Inl x) \<and> search_inv H s0 x \<and> search_left x < search_left (n, a, s))
    \<or> (\<exists>r. fsm_search_step E lim (n, a, s) = Some (Inr r) \<and> search_done H E lim s0 r)"
proof -
  have I: "fsm_wf H s" "valid_addr a" "n \<le> MAX_RESTARTS + 1" "main_nblocks s = main_nblocks s0" "H \<longrightarrow> keeps_space s0 s"
    using inv by (auto simp: search_inv_def)
  obtain r1 s1 where s1: "search_page E a lim s = Some (r1, s1)" "fsm_wf H s1" "main_nblocks s1 = main_nblocks s"
    "H \<longrightarrow> same_map s s1" "\<forall>e. r1 = Inl e \<longrightarrow> failing E e"
    and found: "\<forall>held slot m. r1 = Inr (held, slot, m) \<longrightarrow>
         slot = - 1 \<and> (phys a < length (pages s1) \<longrightarrow> nval (pages s1 ! phys a) 0 < lim)
         \<or> held = Some (fsm_logical_to_physical a) \<and> phys a < length (pages s1) \<and> page_wf (pages s1 ! phys a)
           \<and> (H \<longrightarrow> heap (pages s1 ! phys a)) \<and> (\<exists>k < 4069. slot = int k \<and> lim \<le> slot_val s1 a k)"
    using search_page_ok [OF I(1,2) B, of lim] by (elim exE conjE) (rule that)
  have keeps: "H \<longrightarrow> keeps_space s0 s1"
    using I(5) s1(4) keeps_trans same_keeps by blast
  show ?thesis
  proof (cases r1)
    case (Inl e)
    with s1 I keeps show ?thesis
      by (auto simp: fsm_search_step_def search_done_def)
  next
    case (Inr y)
    obtain held slot m where y: "y = (held, slot, m)" by (cases y)
    from found Inr y consider (none) "slot = - 1"
      | (some) k where "held = Some (fsm_logical_to_physical a)" "phys a < length (pages s1)" "page_wf (pages s1 ! phys a)"
        "H \<longrightarrow> heap (pages s1 ! phys a)" "k < 4069" "slot = int k" "lim \<le> slot_val s1 a k"
      by blast
    then show ?thesis
    proof cases
      case none
      show ?thesis
      proof (cases "level a = 2")
        case True
        with none s1 Inr y keeps I show ?thesis
          by (auto simp: fsm_search_step_def fsm_consts search_done_def)
      next
        case False
        with I(2) have lev: "level a < 2" by (auto simp: valid_addr_def)
        note par = valid_parent [OF I(2) lev]
        obtain pa ps where pp: "fsm_get_parent a = (pa, ps)" by (cases "fsm_get_parent a")
        obtain j where j: "ps = int j" "j < 4069"
          using par(2,3) pp nonneg_int_cases [of ps] by auto
        obtain r2 s2 where s2: "fsm_set_and_search E pa (int j) m 0 s1 = Some (r2, s2)" "fsm_wf H s2"
          "same_map s1 s2 \<or> record_slot pa j m s1 s2" "\<forall>e. r2 = Inl e \<longrightarrow> failing E e"
          using set_and_search_ok [OF s1(2) _ j(2) B, of pa m 0] par(1) pp by auto
        have "level pa \<noteq> 0"
          using pp lev I(2) by (auto simp: fsm_get_parent_def valid_addr_def)
        then have k: "keeps_space s1 s2"
          using s2(3) same_keeps record_keeps by blast
        then have k2: "main_nblocks s2 = main_nblocks s0" "H \<longrightarrow> keeps_space s0 s2"
          using keeps keeps_trans s1(3) I(4) by (auto simp: keeps_space_def)
        have run: "fsm_search_step E lim (n, a, s) =
            (case r2 of Inl e \<Rightarrow> Some (Inr (Inl e, s2))
             | Inr _ \<Rightarrow> if n > MAX_RESTARTS then Some (Inr (Inr InvalidBlockNumber, s2))
                        else Some (Inl (n + 1, FSM_ROOT_ADDRESS, s2)))"
          using none s1(1) Inr y False pp j(1) s2(1) by (simp add: fsm_search_step_def fsm_consts)
        show ?thesis
        proof (cases "\<exists>e. r2 = Inl e")
          case True
          with run s2 k2 show ?thesis by (auto simp: search_done_def)
        next
          case False
          then obtain z where z: "r2 = Inr z" by (cases r2) auto
          show ?thesis
          proof (cases "n > MAX_RESTARTS")
            case True
            with run z s2 k2 show ?thesis by (auto simp: search_done_def)
          next
            case small: False
            have "search_left (n + 1, FSM_ROOT_ADDRESS, s2) < search_left (n, a, s)"
              using small I(2) by (auto simp: search_left_def FSM_ROOT_ADDRESS_def fsm_consts valid_addr_def)
            with run z small s2 k2 show ?thesis by (auto simp: search_inv_def)
          qed
        qed
      qed
    next
      case (some k)
      show ?thesis
      proof (cases "level a = 0")
        case False
        then have lev: "0 < level a" using I(2) by (auto simp: valid_addr_def)
        have "fsm_search_step E lim (n, a, s) = Some (Inl (n, fsm_get_child a (int k), s1))"
          using some s1(1) Inr y False by (simp add: fsm_search_step_def fsm_consts)
        moreover have "search_inv H s0 (n, fsm_get_child a (int k), s1)"
          using I s1 keeps valid_child [OF I(2) lev, of "int k"] some(5) by (simp add: search_inv_def)
        moreover have "search_left (n, fsm_get_child a (int k), s1) < search_left (n, a, s)"
          using lev by (simp add: search_left_def fsm_get_child_def)
        ultimately show ?thesis by blast
      next
        case True
        let ?b = "fsm_logical_to_physical a" and ?blk = "fsm_get_heap_blk a (int k)"
        obtain r2 s2 where s2: "fsm_does_block_exist E ?blk s1 = (r2, s2)" "fsm_wf H s2" "same_map s1 s2" "pages s2 = pages s1"
          "\<forall>e. r2 = Inl e \<longrightarrow> failing E e" "\<forall>b. r2 = Inr b \<longrightarrow> (b \<longleftrightarrow> ?blk < main_nblocks s1)"
          using block_exists_ok [OF s1(2), of E ?blk] by (elim exE conjE) (rule that)
        have k2: "H \<longrightarrow> keeps_space s0 s2" "main_nblocks s2 = main_nblocks s0"
          using keeps keeps_trans same_keeps [OF s2(3)] s2(3) s1(3) I(4) by (auto simp: same_map_def)
        obtain r3 s3 where s3: "bindS (call E (LockBuffer ?b) s2) (\<lambda>_ s.
            bindS (on_page ?b (\<lambda>p. fsm_set_avail p (int k) 0) s) (\<lambda>_ s.
            bindS (call E (MarkDirty ?b) s) (\<lambda>_ s. call E (LockBuffer ?b) s))) = (r3, s3)"
          "fsm_wf H s3" "s3 = s2 \<or> record_slot a k 0 s2 s3" "\<forall>e. r3 = Inl e \<longrightarrow> failing E e"
          using clear_slot [OF s2(2) I(2), of k E 0] some(2-5) s2(4) by auto
        have run: "fsm_search_step E lim (n, a, s) =
            (case r2 of Inl e \<Rightarrow> Some (Inr (Inl e, s2))
             | Inr True \<Rightarrow> Some (Inr (Inr ?blk, s2))
             | Inr False \<Rightarrow>
                 (case r3 of Inl e \<Rightarrow> Some (Inr (Inl e, s3))
                  | Inr _ \<Rightarrow> if n > MAX_RESTARTS then Some (Inr (Inr InvalidBlockNumber, s3))
                             else Some (Inl (n + 1, fsm_get_child FSM_ROOT_ADDRESS (int k), s3))))"
          using some(1,6) s1(1) Inr y True s2(1) s3(1)
          by (simp add: fsm_search_step_def fsm_consts Let_def split: sum.splits bool.splits)
        consider (err) e where "r2 = Inl e" | (yes) "r2 = Inr True" | (no) "r2 = Inr False"
          by (cases r2) auto
        then show ?thesis
        proof cases
          case err
          with run s2 k2 show ?thesis by (auto simp: search_done_def)
        next
          case yes
          have "slot_val s2 a k = slot_val s1 a k"
            using s2(4) by (simp add: slot_val_def)
          then have "valid_addr a \<and> level a = 0 \<and> k < 4069 \<and> fsm_get_heap_blk a (int k) = ?blk \<and> lim \<le> slot_val s2 a k"
            using True I(2) some(5,7) by simp
          then have "\<exists>a i. valid_addr a \<and> level a = 0 \<and> i < 4069 \<and> fsm_get_heap_blk a (int i) = ?blk \<and> lim \<le> slot_val s2 a i"
            by blast
          moreover have "?blk < main_nblocks s2"
            using s2(3,6) yes by (auto simp: same_map_def)
          ultimately have "search_done H E lim s0 (Inr ?blk, s2)"
            using s2(2) k2 by (simp add: search_done_def)
          with run yes show ?thesis by simp
        next
          case no
          have "keeps_space s2 s3"
            using s3(3) s2(3,6) no record_keeps [of a k 0 s2 s3] by (auto simp: same_map_def)
          then have k3: "H \<longrightarrow> keeps_space s0 s3" "main_nblocks s3 = main_nblocks s0"
            using k2 keeps_trans by (auto simp: keeps_space_def)
          show ?thesis
          proof (cases "\<exists>e. r3 = Inl e")
            case True
            with run no s3 k3 show ?thesis by (auto simp: search_done_def)
          next
            case False
            then obtain z where z: "r3 = Inr z" by (cases r3) auto
            show ?thesis
            proof (cases "n > MAX_RESTARTS")
              case True
              with run no z s3 k3 show ?thesis by (auto simp: search_done_def)
            next
              case small: False
              have "search_left (n + 1, fsm_get_child FSM_ROOT_ADDRESS (int k), s3) < search_left (n, a, s)"
                using small True by (simp add: search_left_def FSM_ROOT_ADDRESS_def fsm_consts fsm_get_child_def)
              moreover have "valid_addr (fsm_get_child FSM_ROOT_ADDRESS (int k))"
                using valid_child [OF valid_root, of "int k"] some(5) by (simp add: FSM_ROOT_ADDRESS_def fsm_consts)
              ultimately show ?thesis
                using run no z small s3 k3 by (auto simp: search_inv_def)
            qed
          qed
        qed
      qed
    qed
  qed
qed

lemma search_ok:
  assumes "fsm_wf H s" and "buf_ok (bufs E)"
  shows "\<exists>r. fsm_search E lim s = Some r \<and> search_done H E lim s r"
  unfolding fsm_search_def
proof (rule iterate_total [where I = "search_inv H s" and m = search_left])
  show "search_inv H s (0, FSM_ROOT_ADDRESS, s)"
    using assms by (simp add: search_inv_def)
  fix x assume "search_inv H s x"
  then show "(\<exists>y. fsm_search_step E lim x = Some (Inl y) \<and> search_inv H s y \<and> search_left y < search_left x)
      \<or> (\<exists>r. fsm_search_step E lim x = Some (Inr r) \<and> search_done H E lim s r)"
    using search_step_ok [OF _ assms(2)] by (cases x) blast
qed

subsection \<open>Properties\<close>

text \<open>
  Enough is enough. A request over the largest size is refused with its error; any other gets a
  category such that every amount of free space whose recorded category reaches it is at least the amount needed,
  and the amount that the map reports for a page is never more than what was recorded.
\<close>

theorem fsm_categories_safe:
  "(needed > MaxFSMRequestSize \<longrightarrow> fsm_space_needed_to_cat needed = Inl (InvalidFSMRequestSize needed))
    \<and> (needed \<le> MaxFSMRequestSize \<longrightarrow>
         (\<exists>cat. fsm_space_needed_to_cat needed = Inr cat \<and> 0 < cat
            \<and> (\<forall>avail. cat \<le> fsm_space_avail_to_cat avail \<longrightarrow> needed \<le> avail)))
    \<and> fsm_space_cat_to_avail (fsm_space_avail_to_cat avail) \<le> avail"
proof (intro conjI impI)
  have to_cat: "unat (fsm_space_avail_to_cat v) = (if 8160 \<le> v then 255 else v div 32)" for v
    by (auto simp: fsm_space_avail_to_cat_def MaxFSMRequestSize_def fsm_consts Let_def unat_of_nat)
  show "fsm_space_needed_to_cat needed = Inl (InvalidFSMRequestSize needed)" if "needed > MaxFSMRequestSize"
    using that by (simp add: fsm_space_needed_to_cat_def)
  show "\<exists>cat. fsm_space_needed_to_cat needed = Inr cat \<and> 0 < cat
      \<and> (\<forall>avail. cat \<le> fsm_space_avail_to_cat avail \<longrightarrow> needed \<le> avail)" if "needed \<le> MaxFSMRequestSize"
  proof (cases "needed = 0")
    case True
    then show ?thesis
      by (simp add: fsm_space_needed_to_cat_def)
  next
    case False
    define c where "c = (needed + 31) div 32"
    have c: "0 < c" "c \<le> 255" "needed \<le> 32 * c"
      using False that by (simp_all add: c_def MaxFSMRequestSize_def)
    let ?cat = "word_of_nat c :: u8"
    have u: "unat ?cat = c"
      using c by (simp add: unat_of_nat)
    have "fsm_space_needed_to_cat needed = Inr ?cat"
      using False that c by (simp add: fsm_space_needed_to_cat_def fsm_consts Let_def c_def add.commute)
    moreover have "0 < ?cat"
      using c u by (simp add: word_less_nat_alt)
    moreover have "needed \<le> v" if "?cat \<le> fsm_space_avail_to_cat v" for v
    proof -
      have "c \<le> (if 8160 \<le> v then 255 else v div 32)"
        using that u to_cat [of v] by (simp add: word_le_nat_alt)
      then show ?thesis
        using c \<open>needed \<le> MaxFSMRequestSize\<close> by (auto simp: MaxFSMRequestSize_def split: if_splits)
    qed
    ultimately show ?thesis by blast
  qed
  show "fsm_space_cat_to_avail (fsm_space_avail_to_cat avail) \<le> avail"
    using to_cat [of avail] by (auto simp: fsm_space_cat_to_avail_def MaxFSMRequestSize_def fsm_consts split: if_splits)
qed

theorem fsm_categories_safe_witness:
  "fsm_space_needed_to_cat 8161 = Inl (InvalidFSMRequestSize 8161)
    \<and> (\<exists>cat. fsm_space_needed_to_cat 100 = Inr cat \<and> (\<forall>avail. cat \<le> fsm_space_avail_to_cat avail \<longrightarrow> 100 \<le> avail))"
  using fsm_categories_safe [of 8161 0] fsm_categories_safe [of 100 0] by (auto simp: MaxFSMRequestSize_def)

text \<open>
  C38: the layout of the fork. For the addresses a three-level map has, the arithmetic of
  \<^verbatim>\<open>fsm_logical_to_physical\<close> does not wrap, no two pages share a block, a child's parent and slot are the ones it
  was reached by, and every heap block has a bottom page and slot that lead back to it.
\<close>

theorem fsm_layout:
  assumes "valid_addr a" and "valid_addr b"
  shows "(fsm_logical_to_physical a = fsm_logical_to_physical b \<longleftrightarrow> a = b)
    \<and> unat (fsm_logical_to_physical a) = phys a
    \<and> (\<forall>slot. 0 < level a \<longrightarrow> 0 \<le> slot \<longrightarrow> slot < SLOTS_PER_FSM_PAGE \<longrightarrow>
         valid_addr (fsm_get_child a slot) \<and> fsm_get_parent (fsm_get_child a slot) = (a, slot))
    \<and> (case fsm_get_location blk of (c, slot) \<Rightarrow>
         valid_addr c \<and> level c = FSM_BOTTOM_LEVEL \<and> 0 \<le> slot \<and> slot < SLOTS_PER_FSM_PAGE \<and> fsm_get_heap_blk c slot = blk)"
proof -
  have "fsm_logical_to_physical a = fsm_logical_to_physical b \<longleftrightarrow> a = b"
    using phys_inj [OF assms] unat_physical [OF assms(1)] unat_physical [OF assms(2)] by auto
  moreover have "0 \<le> logpageno a"
    using assms(1) by (simp add: valid_addr_def)
  ultimately show ?thesis
    using assms location_valid [of blk] heap_blk_location [of blk] valid_child [OF assms(1)] parent_child [of a]
    by (auto simp: unat_physical fsm_sizes fsm_consts split: prod.splits)
qed

text \<open>
  What is recorded is read back. On a sound state \<^verbatim>\<open>RecordPageWithFreeSpace\<close> returns; it fails only with an error
  of the buffer or the storage manager, never with a panic; when it succeeds, \<^verbatim>\<open>GetRecordedFreeSpace\<close> of that block
  can only answer the amount of the category, and every other block keeps its category.
\<close>

theorem Record_GetRecorded:
  assumes wf: "fsm_wf H s" and B: "buf_ok (bufs E)"
  shows "\<exists>r s'. RecordPageWithFreeSpace E blk avail s = Some (r, s') \<and> fsm_wf H s' \<and> (\<forall>e. r = Inl e \<longrightarrow> failing E e)
    \<and> (r = Inr () \<longrightarrow>
         (\<forall>got s''. GetRecordedFreeSpace E blk s' = (Inr got, s'') \<longrightarrow>
            got = fsm_space_cat_to_avail (fsm_space_avail_to_cat avail))
         \<and> (\<forall>other. other \<noteq> blk \<longrightarrow> block_cat s' other = block_cat s other))"
proof -
  obtain a slot where loc: "fsm_get_location blk = (a, slot)" by (cases "fsm_get_location blk")
  then have a: "valid_addr a" "level a = 0" "0 \<le> slot" "slot < 4069"
    using location_valid [of blk] by simp_all
  obtain i where i: "slot = int i" "i < 4069"
    using a(3,4) nonneg_int_cases [of slot] by auto
  let ?v = "fsm_space_avail_to_cat avail"
  obtain r s' where s': "fsm_set_and_search E a (int i) ?v 0 s = Some (r, s')" "fsm_wf H s'"
    "\<forall>e. r = Inl e \<longrightarrow> failing E e" "\<forall>n. r = Inr n \<longrightarrow> record_slot a i ?v s s'"
    using set_and_search_ok [OF wf a(1) i(2) B, of ?v 0] by blast
  show ?thesis
  proof (cases r)
    case (Inl e)
    with s' loc i(1) show ?thesis
      by (simp add: RecordPageWithFreeSpace_def)
  next
    case (Inr n)
    with s' have rec: "record_slot a i ?v s s'" by blast
    have "got = fsm_space_cat_to_avail ?v" if get: "GetRecordedFreeSpace E blk s' = (Inr got, s'')" for got s''
    proof -
      obtain r2 s2 where s2: "fsm_readbuf E a False s' = (r2, s2)" "same_map s' s2"
        "r2 = Inr None \<longrightarrow> length (pages s') \<le> phys a"
        "\<forall>b. r2 = Inr (Some b) \<longrightarrow> b = fsm_logical_to_physical a \<and> phys a < length (pages s2) \<and> page_wf (pages s2 ! phys a)"
        using readbuf_ok [OF s'(2) a(1), of E False] by blast
      obtain b where "r2 = Inr (Some b)"
        using s2(1,3) get loc rec by (cases r2) (auto simp: GetRecordedFreeSpace_def record_slot_def split: option.splits)
      with s2(4) have b: "r2 = Inr (Some (fsm_logical_to_physical a))" and p: "phys a < length (pages s2)" "page_wf (pages s2 ! phys a)"
        by auto
      have "fsm_get_avail (get_page s2 (fsm_logical_to_physical a)) slot = Inr (slot_val s2 a i)"
        using p a(1) i node_nval [of "4095 + i" "pages s2 ! phys a"]
        by (simp add: get_page_pages fsm_get_avail_def fsm_sizes slot_val_def leaves_nth)
      moreover have "slot_val s2 a i = ?v"
        using s2(2) rec i(2) a(1) by (simp add: same_map_def record_slot_def)
      ultimately show ?thesis
        using get loc s2(1) b by (simp add: GetRecordedFreeSpace_def)
    qed
    moreover have "block_cat s' other = block_cat s other" if "other \<noteq> blk" for other
    proof -
      obtain b j where lo: "fsm_get_location other = (b, j)" by (cases "fsm_get_location other")
      have "\<not> (b = a \<and> j = slot)"
        using that heap_blk_location [of other] heap_blk_location [of blk] lo loc by auto
      moreover have "0 \<le> j"
        using location_valid(3) [of other] lo by simp
      ultimately have "\<not> (b = a \<and> nat j = i)"
        using i(1) by auto
      then show ?thesis
        using rec location_valid [of other] lo by (auto simp: record_slot_def block_cat_def)
    qed
    ultimately show ?thesis
      using s' Inr loc i(1) by (auto simp: RecordPageWithFreeSpace_def)
  qed
qed


subsection \<open>Examples\<close>

definition demo_fsm :: fsm where
  "demo_fsm = \<lparr> fork = Some [page_init, page_init, new_page], fsm_cached = InvalidBlockNumber, main_nblocks = 10,
     main_cached = InvalidBlockNumber \<rparr>"

definition demo_fsm_env :: fsm_env where
  "demo_fsm_env = \<lparr> fault = (\<lambda>_. Inr ()), recovery = False, bufs = demo_buf \<rparr>"

lemma demo_fsm_ok: "fsm_wf True demo_fsm" "buf_ok (bufs demo_fsm_env)" "\<not> failing demo_fsm_env e"
  using demo_page_ok(4)
  by (simp_all add: fsm_wf_def demo_fsm_def demo_fsm_env_def pages_def failing_def demo_buf_def)

theorem fsm_layout_witness:
  "valid_addr \<lparr> level = 1, logpageno = 3 \<rparr>
    \<and> fsm_logical_to_physical \<lparr> level = 1, logpageno = 3 \<rparr> \<noteq> fsm_logical_to_physical \<lparr> level = 0, logpageno = 12211 \<rparr>"
proof -
  have v: "valid_addr \<lparr> level = 1, logpageno = 3 \<rparr>" "valid_addr \<lparr> level = 0, logpageno = 12211 \<rparr>"
    by (simp_all add: valid_addr_def)
  from fsm_layout [OF this, of 0] v(1) show ?thesis
    by simp
qed

theorem Record_GetRecorded_witness:
  "\<exists>s'. RecordPageWithFreeSpace demo_fsm_env 4 1000 demo_fsm = Some (Inr (), s') \<and> block_cat s' 5 = block_cat demo_fsm 5"
proof -
  obtain r s' where "RecordPageWithFreeSpace demo_fsm_env 4 1000 demo_fsm = Some (r, s')" "\<forall>e. r = Inl e \<longrightarrow> failing demo_fsm_env e"
    "r = Inr () \<longrightarrow> (\<forall>other. other \<noteq> 4 \<longrightarrow> block_cat s' other = block_cat demo_fsm other)"
    using Record_GetRecorded [OF demo_fsm_ok(1,2), of 4 1000] by (elim exE conjE) blast
  then show ?thesis
    using demo_fsm_ok(3) by (cases r) auto
qed


end
