(* ===== verification/FreeSpaceVacuum.thy ===== *)
theory FreeSpaceVacuum
  imports FreeSpaceSpec
begin

section \<open>Vacuuming the free space map\<close>

text \<open>
  The upper levels of the map lag behind the bottom; \<^verbatim>\<open>FreeSpaceMapVacuum\<close> brings them up to date. The
  table after a vacuum is specified by \<open>good\<close>: each slot of an upper page is the largest
  slot of the page it stands for. On such a map the search goes straight down to a
  block that has the space, if there is one.
\<close>

definition best :: "fsm \<Rightarrow> FSMAddress \<Rightarrow> u8" where
  "best s a = Max ((\<lambda>i. slot_val s a i) ` {..<4069})"

definition good :: "fsm \<Rightarrow> FSMAddress \<Rightarrow> bool" where
  "good s a \<longleftrightarrow> (0 < level a \<longrightarrow> (\<forall>i < 4069. slot_val s a i = best s (fsm_get_child a (int i))))"

text \<open>The map records only what exists.\<close>

definition map_sane :: "fsm \<Rightarrow> bool" where
  "map_sane s \<longleftrightarrow> length (pages s) \<le> 1055795
     \<and> (\<forall>a i. valid_addr a \<longrightarrow> 0 < level a \<longrightarrow> i < 4069 \<longrightarrow> 0 < slot_val s a i
          \<longrightarrow> phys (fsm_get_child a (int i)) < length (pages s))
     \<and> (\<forall>a i. valid_addr a \<longrightarrow> level a = 0 \<longrightarrow> i < 4069 \<longrightarrow> 0 < slot_val s a i
          \<longrightarrow> (\<exists>blk < main_nblocks s. fsm_get_location blk = (a, int i)))"

definition no_faults :: "fsm_env \<Rightarrow> bool" where
  "no_faults E \<longleftrightarrow> (\<forall>e. \<not> failing E e)"

lemma best_ge: "i < 4069 \<Longrightarrow> slot_val s a i \<le> best s a"
  by (simp add: best_def)

lemma best_attained: "\<exists>i < 4069. slot_val s a i = best s a"
proof -
  have "best s a \<in> (\<lambda>i. slot_val s a i) ` {..<4069}"
    unfolding best_def by (rule Max_in) (auto simp: lessThan_empty_iff)
  then show ?thesis by auto
qed

lemma best_cong: "(\<And>i. i < 4069 \<Longrightarrow> slot_val s a i = slot_val t b i) \<Longrightarrow> best s a = best t b"
  unfolding best_def by (metis image_cong lessThan_iff)

lemma best_missing: "length (pages s) \<le> phys a \<Longrightarrow> best s a = 0"
  using best_attained [of s a] by (auto simp: slot_val_def)

lemma heap_root_best:
  assumes "page_wf p" and "heap p"
  shows "\<exists>i < 4069. leaves p ! i = nval p 0"
proof -
  consider "nval p 0 = 0" | "0 < nval p 0"
    using word_neq_0_conv by blast
  then show ?thesis
  proof cases
    case 1
    then show ?thesis
      using heap_root_max [OF assms, of 0] by (intro exI [of _ 0]) simp
  next
    case 2
    obtain i where "i < 4069" "nval p 0 \<le> leaves p ! i"
      using search_down_ok [OF assms(1), of 0 "nval p 0"] assms(2) 2 by auto
    with heap_root_max [OF assms, of i] show ?thesis by auto
  qed
qed

lemma root_is_best:
  assumes "phys a < length (pages s)" and "page_wf (pages s ! phys a)" and "heap (pages s ! phys a)"
  shows "nval (pages s ! phys a) 0 = best s a"
proof -
  obtain i where i: "i < 4069" "leaves (pages s ! phys a) ! i = nval (pages s ! phys a) 0"
    using heap_root_best [OF assms(2,3)] by blast
  have val: "slot_val s a j = leaves (pages s ! phys a) ! j" for j
    using assms(1) by (simp add: slot_val_def)
  have "best s a \<le> nval (pages s ! phys a) 0"
    using best_attained [of s a] heap_root_max [OF assms(2,3)] val by metis
  with i val best_ge [OF i(1), of s a] show ?thesis by simp
qed

text \<open>The fork stores a page before its children.\<close>

lemma child_after:
  assumes "valid_addr a" and "0 < level a" and "i < 4069"
  shows "phys a < phys (fsm_get_child a (int i))"
  using assms(1)
proof (cases rule: valid_cases)
  case (middle q)
  then have "(q * 4069 + int i) div 4069 = q"
    using assms(3) by simp
  with middle show ?thesis
    by (simp add: phys_def fsm_get_child_def fsm_sizes)
qed (use assms in \<open>auto simp: phys_def fsm_get_child_def fsm_sizes\<close>)

lemma child_order:
  assumes "valid_addr a" and "0 < level a" and "i < j" and "j < 4069"
  shows "phys (fsm_get_child a (int i)) < phys (fsm_get_child a (int j))"
  using assms(1)
proof (cases rule: valid_cases)
  case (middle q)
  then have "(q * 4069 + int i) div 4069 = q" "(q * 4069 + int j) div 4069 = q"
    using assms by simp_all
  with middle assms(3) show ?thesis
    by (simp add: phys_def fsm_get_child_def fsm_sizes)
qed (use assms in \<open>auto simp: phys_def fsm_get_child_def fsm_sizes\<close>)

lemma child_inj:
  "valid_addr a \<Longrightarrow> 0 < level a \<Longrightarrow> i < 4069 \<Longrightarrow> j < 4069 \<Longrightarrow> fsm_get_child a (int i) = fsm_get_child a (int j) \<longleftrightarrow> i = j"
  using child_order [of a i j] child_order [of a j i] by (cases i j rule: linorder_cases) auto

lemma child_neq: "fsm_get_child a slot \<noteq> a"
  by (cases a) (simp add: fsm_get_child_def)

text \<open>The slots that a whole vacuum visits are those of the children that can exist.\<close>

definition last_slot :: "FSMAddress \<Rightarrow> int" where
  "last_slot a = (if level a = 2 then 259 else if logpageno a < 259 then 4068 else if logpageno a = 259 then 1662 else - 1)"

lemma whole_range:
  assumes "valid_addr a" and "0 < level a"
  shows "slot_range a 0 InvalidBlockNumber = [0 .. last_slot a]"
proof -
  have stop: "InvalidBlockNumber - 1 = (0xFFFFFFFE :: BlockNumber)"
    by (simp add: InvalidBlockNumber_def)
  have loc: "fsm_get_location 0 = (\<lparr> level = 0, logpageno = 0 \<rparr>, 0)"
    "fsm_get_location 0xFFFFFFFE = (\<lparr> level = 0, logpageno = 1055533 \<rparr>, 3517)"
    by (simp_all add: fsm_get_location_def fsm_consts fsm_sizes)
  have par: "fsm_get_parent \<lparr> level = 0, logpageno = 0 \<rparr> = (\<lparr> level = 1, logpageno = 0 \<rparr>, 0)"
    "fsm_get_parent \<lparr> level = 1, logpageno = 0 \<rparr> = (\<lparr> level = 2, logpageno = 0 \<rparr>, 0)"
    "fsm_get_parent \<lparr> level = 0, logpageno = 1055533 \<rparr> = (\<lparr> level = 1, logpageno = 259 \<rparr>, 1662)"
    "fsm_get_parent \<lparr> level = 1, logpageno = 259 \<rparr> = (\<lparr> level = 2, logpageno = 0 \<rparr>, 259)"
    by (simp_all add: fsm_get_parent_def fsm_sizes sdiv_pos)
  from assms(1) show ?thesis
  proof (cases rule: valid_cases)
    case (middle q)
    then show ?thesis
      by (auto simp: slot_range_def stop loc par last_slot_def fsm_sizes Let_def)
  next
    case root
    then show ?thesis
      by (simp add: slot_range_def stop loc par last_slot_def fsm_sizes Let_def)
  qed (use assms in simp)
qed

lemma beyond_last:
  assumes "valid_addr a" and "0 < level a" and "i < 4069" and "last_slot a < int i"
  shows "1055795 \<le> phys (fsm_get_child a (int i))"
  using assms(1)
proof (cases rule: valid_cases)
  case (middle q)
  then have "(q * 4069 + int i) div 4069 = q"
    using assms(3) by simp
  with middle assms(3,4) show ?thesis
    by (auto simp: phys_def fsm_get_child_def fsm_sizes last_slot_def split: if_splits)
qed (use assms in \<open>auto simp: phys_def fsm_get_child_def fsm_sizes last_slot_def\<close>)

lemma last_slot_less: "last_slot a < 4069"
  by (simp add: last_slot_def)

subsection \<open>One page\<close>

text \<open>A whole vacuum keeps the fork's length, and what it does not own.\<close>

definition vac_inv :: "nat \<Rightarrow> BlockNumber \<Rightarrow> fsm \<Rightarrow> bool" where
  "vac_inv n m s \<longleftrightarrow> fsm_wf True s \<and> map_sane s \<and> length (pages s) = n \<and> main_nblocks s = m"

definition same_but :: "FSMAddress set \<Rightarrow> fsm \<Rightarrow> fsm \<Rightarrow> bool" where
  "same_but A s s' \<longleftrightarrow> (\<forall>b i. valid_addr b \<longrightarrow> b \<notin> A \<longrightarrow> i < 4069 \<longrightarrow> slot_val s' b i = slot_val s b i)"

lemma same_but_refl [simp]: "same_but A s s"
  by (simp add: same_but_def)

lemma same_but_trans: "same_but A s t \<Longrightarrow> same_but B t u \<Longrightarrow> A \<subseteq> C \<Longrightarrow> B \<subseteq> C \<Longrightarrow> same_but C s u"
  unfolding same_but_def subset_iff by metis

lemma same_but_best: "same_but A s t \<Longrightarrow> valid_addr b \<Longrightarrow> b \<notin> A \<Longrightarrow> best t b = best s b"
  by (rule best_cong) (simp add: same_but_def)

lemma sane_same: "map_sane s \<Longrightarrow> same_map s t \<Longrightarrow> length (pages t) = length (pages s) \<Longrightarrow> map_sane t"
  by (auto simp: map_sane_def same_map_def)

lemma same_map_but: "same_map s t \<Longrightarrow> same_but A s t"
  by (simp add: same_map_def same_but_def)

lemma good_stable:
  assumes "good s a" and "valid_addr a" and "same_but A s t" and "a \<notin> A"
    and "\<And>i. i < 4069 \<Longrightarrow> 0 < level a \<Longrightarrow> fsm_get_child a (int i) \<notin> A"
  shows "good t a"
  unfolding good_def
proof (intro impI allI)
  fix i :: nat assume i: "0 < level a" "i < 4069"
  have "valid_addr (fsm_get_child a (int i))"
    using valid_child [OF assms(2) i(1), of "int i"] i(2) by simp
  then have "best t (fsm_get_child a (int i)) = best s (fsm_get_child a (int i))"
    using same_but_best [OF assms(3)] assms(5) i by blast
  then show "slot_val t a i = best t (fsm_get_child a (int i))"
    using assms(1-4) i by (simp add: good_def same_but_def)
qed

lemma readbuf_vac:
  assumes inv: "vac_inv n m s" and a: "valid_addr a" and E: "no_faults E"
  shows "\<exists>t. fsm_readbuf E a False s = (Inr (if n \<le> phys a then None else Some (fsm_logical_to_physical a)), t)
    \<and> vac_inv n m t \<and> same_map s t \<and> inited s t
    \<and> (phys a < n \<longrightarrow> page_wf (pages t ! phys a) \<and> heap (pages t ! phys a))"
proof -
  have wf: "fsm_wf True s" "length (pages s) = n" "map_sane s" "main_nblocks s = m"
    using inv by (auto simp: vac_inv_def)
  obtain r t where t: "fsm_readbuf E a False s = (r, t)" "fsm_wf True t" "same_map s t" "\<forall>e. r = Inl e \<longrightarrow> failing E e"
    "r = Inr None \<longrightarrow> n \<le> phys a \<and> pages t = pages s"
    "\<forall>b. r = Inr (Some b) \<longrightarrow> b = fsm_logical_to_physical a \<and> phys a < length (pages t)
         \<and> page_wf (pages t ! phys a) \<and> heap (pages t ! phys a)"
    using readbuf_ok [OF wf(1) a, of E False] wf(2) by (elim exE conjE) (rule that, auto)
  have ini: "inited s t"
    using wf(1) a t(1) by (rule readbuf_inited)
  then have len: "length (pages t) = n"
    using wf(2) by (simp add: inited_def)
  then have "vac_inv n m t"
    using wf t(2,3) sane_same [OF wf(3) t(3)] by (simp add: vac_inv_def same_map_def)
  moreover obtain o' where "r = Inr o'"
    using t(4) E by (cases r) (auto simp: no_faults_def)
  ultimately show ?thesis
    using t len ini by (cases o') auto
qed

lemma put_hint:
  assumes inv: "vac_inv n m s" and a: "valid_addr a" and p: "phys a < n" "page_wf (pages s ! phys a)" "heap (pages s ! phys a)"
  shows "vac_inv n m (put_page (fsm_logical_to_physical a) (set_next_slot 0 (get_page s (fsm_logical_to_physical a))) s)"
    "same_map s (put_page (fsm_logical_to_physical a) (set_next_slot 0 (get_page s (fsm_logical_to_physical a))) s)"
proof -
  have n: "length (pages s) = n" "fsm_wf True s" "map_sane s" "main_nblocks s = m"
    using inv by (auto simp: vac_inv_def)
  then have g: "get_page s (fsm_logical_to_physical a) = pages s ! phys a"
    using a p(1) by (simp add: get_page_pages)
  show same: "same_map s (put_page (fsm_logical_to_physical a) (set_next_slot 0 (get_page s (fsm_logical_to_physical a))) s)"
    using put_page_same [OF a, of s] p(1) n(1) by (simp add: g)
  have "page_ok True (set_next_slot 0 (pages s ! phys a))"
    using p by (simp add: page_ok_def)
  then show "vac_inv n m (put_page (fsm_logical_to_physical a) (set_next_slot 0 (get_page s (fsm_logical_to_physical a))) s)"
    using n put_page_wf [OF n(2)] sane_same [OF n(3) same] by (simp add: vac_inv_def g)
qed

text \<open>Writing the value of a child into its slot.\<close>

lemma write_slot:
  assumes inv: "vac_inv n m s" and a: "valid_addr a" "0 < level a" and E: "no_faults E"
    and p: "phys a < n" "page_wf (pages s ! phys a)" "heap (pages s ! phys a)" and i: "i < 4069"
    and v: "0 < v \<longrightarrow> phys (fsm_get_child a (int i)) < n"
  shows "\<exists>t. (if slot_val s a i \<noteq> v then
        bindS (call E (LockBuffer (fsm_logical_to_physical a)) s) (\<lambda>_ s.
        bindS (on_page (fsm_logical_to_physical a) (\<lambda>p. fsm_set_avail p (int i) v) s) (\<lambda>_ s.
        bindS (call E (MarkDirty (fsm_logical_to_physical a)) s) (\<lambda>_ s. call E (LockBuffer (fsm_logical_to_physical a)) s)))
      else (Inr (), s)) = (Inr (), t)
    \<and> vac_inv n m t \<and> inited s t
    \<and> (\<forall>b j. valid_addr b \<longrightarrow> j < 4069 \<longrightarrow> slot_val t b j = (if b = a \<and> j = i then v else slot_val s b j))"
proof (cases "slot_val s a i = v")
  case True
  then have "(if slot_val s a i \<noteq> v then x else (Inr (), s)) = (Inr (), s)" for x :: "unit res \<times> fsm"
    by simp
  with True inv p show ?thesis by (intro exI [of _ s]) auto
next
  case False
  have wf: "fsm_wf True s" "length (pages s) = n" "map_sane s" "main_nblocks s = m"
    using inv by (auto simp: vac_inv_def)
  have pp: "phys a < length (pages s)" "True \<longrightarrow> heap (pages s ! phys a)"
    using p wf(2) by simp_all
  obtain r t where t: "bindS (call E (LockBuffer (fsm_logical_to_physical a)) s) (\<lambda>_ s.
        bindS (on_page (fsm_logical_to_physical a) (\<lambda>p. fsm_set_avail p (int i) v) s) (\<lambda>_ s.
        bindS (call E (MarkDirty (fsm_logical_to_physical a)) s) (\<lambda>_ s. call E (LockBuffer (fsm_logical_to_physical a)) s))) = (r, t)"
    "fsm_wf True t" "\<forall>e. r = Inl e \<longrightarrow> failing E e"
    "r = Inr () \<longrightarrow> record_slot a i v s t \<and> page_wf (pages t ! phys a) \<and> heap (pages t ! phys a)"
    using clear_slot [OF wf(1) a(1) pp(1) p(2) pp(2) i, of E v] by (elim exE conjE) (rule that, auto)
  have r: "r = Inr ()"
    using t(3) E by (cases r) (auto simp: no_faults_def)
  with t(4) have rec: "record_slot a i v s t" "page_wf (pages t ! phys a)" "heap (pages t ! phys a)"
    by auto
  have ini: "inited s t" and len: "length (pages t) = n"
  proof -
    note others = clear_others [OF t(1), unfolded unat_physical [OF a(1)]]
    then show "length (pages t) = n" using wf(2) by simp
    show "inited s t"
      unfolding inited_def
    proof (intro conjI allI impI)
      fix k assume "\<not> fp_new (pages s ! k)"
      then show "\<not> fp_new (pages t ! k)"
        using others page_wf_not_new [OF rec(2)] by (cases "k = phys a") auto
    qed (use others in simp)
  qed
  have vals: "\<forall>b j. valid_addr b \<longrightarrow> j < 4069 \<longrightarrow> slot_val t b j = (if b = a \<and> j = i then v else slot_val s b j)"
    using rec(1) by (simp add: record_slot_def)
  have "map_sane t"
    unfolding map_sane_def
  proof (intro conjI allI impI)
    show "length (pages t) \<le> 1055795"
      using wf len by (simp add: map_sane_def)
    show "phys (fsm_get_child b (int j)) < length (pages t)"
      if "valid_addr b" "0 < level b" "j < 4069" "0 < slot_val t b j" for b j
      using that vals v wf(2,3) len by (auto simp: map_sane_def split: if_splits)
    show "\<exists>blk < main_nblocks t. fsm_get_location blk = (b, int j)"
      if "valid_addr b" "level b = 0" "j < 4069" "0 < slot_val t b j" for b j
    proof -
      have "b \<noteq> a" using that(2) a(2) by auto
      then have "0 < slot_val s b j" using that vals by simp
      then show ?thesis
        using that wf(3) rec(1) by (simp add: map_sane_def record_slot_def)
    qed
  qed
  then have "vac_inv n m t"
    using t(2) len rec(1) wf(4) by (simp add: vac_inv_def record_slot_def)
  with False t(1) r vals ini show ?thesis by auto
qed

lemma inv_page:
  assumes "vac_inv n m s" and "k < n" and "\<not> fp_new (pages s ! k)"
  shows "page_wf (pages s ! k)" "heap (pages s ! k)"
proof -
  have "page_ok True (pages s ! k)"
    using assms(1,2) by (auto simp: vac_inv_def fsm_wf_def)
  with page_ok_old [OF this assms(3)] show "page_wf (pages s ! k)" "heap (pages s ! k)"
    by auto
qed

lemma put_hint_inited:
  assumes "vac_inv n m s" and "valid_addr a" and "phys a < n" and "\<not> fp_new (pages s ! phys a)"
  shows "inited s (put_page (fsm_logical_to_physical a) (set_next_slot 0 (get_page s (fsm_logical_to_physical a))) s)"
  using assms by (intro inited_put) (auto simp: get_page_pages vac_inv_def set_next_slot_def)

subsection \<open>The recursion\<close>

text \<open>
  What a vacuum of the page at \<open>c\<close>, on one of the two lower levels, does: it answers the largest slot, and whether
  the page is missing; an upper page is brought up to date, and no other page changes.
\<close>

definition vacuums :: "fsm_env \<Rightarrow> nat \<Rightarrow> BlockNumber \<Rightarrow> FSMAddress \<Rightarrow> bool" where
  "vacuums E n m c \<longleftrightarrow> (\<forall>s. vac_inv n m s \<longrightarrow>
     (\<exists>t. fsm_vacuum_page E c 0 InvalidBlockNumber s = (Inr (best t c, n \<le> phys c), t) \<and> vac_inv n m t \<and> inited s t
        \<and> same_but (if level c = 0 then {} else {c}) s t \<and> good t c))"

declare fsm_vacuum_page.simps [simp del]

lemma missing_good:
  assumes "valid_addr a" and "length (pages s) \<le> phys a"
  shows "good s a"
  unfolding good_def
proof (intro impI allI)
  fix i :: nat assume "0 < level a" "i < 4069"
  with child_after [OF assms(1), of i] assms(2) show "slot_val s a i = best s (fsm_get_child a (int i))"
    by (simp add: best_missing slot_val_def)
qed

lemma vacuum_missing:
  assumes "vac_inv n m s" and "valid_addr c" and "no_faults E" and "n \<le> phys c"
  shows "\<exists>t. fsm_vacuum_page E c 0 InvalidBlockNumber s = (Inr (0, True), t) \<and> vac_inv n m t \<and> same_map s t \<and> inited s t"
  using readbuf_vac [OF assms(1-3)] assms(4) by (auto simp: fsm_vacuum_page.simps)

text \<open>The end of a vacuum of a page that exists, after its slots.\<close>

lemma vacuum_finish:
  assumes inv: "vac_inv n m s" and c: "valid_addr c" and p: "phys c < n" "\<not> fp_new (pages s ! phys c)"
  shows "\<exists>t. (case fsm_get_max_avail (get_page s (fsm_logical_to_physical c)) of
        Inl e \<Rightarrow> (Inl e, s)
      | Inr max_avail \<Rightarrow> (Inr (max_avail, False),
          put_page (fsm_logical_to_physical c) (set_next_slot 0 (get_page s (fsm_logical_to_physical c))) s))
      = (Inr (best t c, False), t)
    \<and> vac_inv n m t \<and> same_map s t \<and> inited s t"
proof -
  let ?t = "put_page (fsm_logical_to_physical c) (set_next_slot 0 (get_page s (fsm_logical_to_physical c))) s"
  note page = inv_page [OF inv p]
  have n: "phys c < length (pages s)"
    using inv p(1) by (simp add: vac_inv_def)
  have "fsm_get_max_avail (get_page s (fsm_logical_to_physical c)) = Inr (best s c)"
    using c n node_nval [of 0 "pages s ! phys c"] root_is_best [OF n page] by (simp add: get_page_pages fsm_get_max_avail_def)
  moreover have "best ?t c = best s c"
    using put_hint(2) [OF inv c p(1) page] by (intro best_cong) (simp add: same_map_def)
  ultimately show ?thesis
    using put_hint [OF inv c p(1) page] put_hint_inited [OF inv c p] by simp
qed

lemma vacuums_bottom:
  assumes c: "valid_addr c" "level c = 0" and E: "no_faults E"
  shows "vacuums E n m c"
  unfolding vacuums_def
proof (intro allI impI)
  fix s assume inv: "vac_inv n m s"
  show "\<exists>t. fsm_vacuum_page E c 0 InvalidBlockNumber s = (Inr (best t c, n \<le> phys c), t) \<and> vac_inv n m t \<and> inited s t
      \<and> same_but (if level c = 0 then {} else {c}) s t \<and> good t c"
  proof (cases "n \<le> phys c")
    case True
    obtain t where t: "fsm_vacuum_page E c 0 InvalidBlockNumber s = (Inr (0, True), t)" "vac_inv n m t" "same_map s t" "inited s t"
      using vacuum_missing [OF inv c(1) E True] by blast
    have "best t c = 0"
      using t(2) True by (intro best_missing) (simp add: vac_inv_def)
    with t True c show ?thesis
      by (auto simp: same_map_but good_def)
  next
    case False
    obtain u where u: "fsm_readbuf E c False s = (Inr (Some (fsm_logical_to_physical c)), u)" "vac_inv n m u" "same_map s u" "inited s u"
      "page_wf (pages u ! phys c)"
      using readbuf_vac [OF inv c(1) E] False by auto
    have p: "phys c < n" "\<not> fp_new (pages u ! phys c)"
      using False u(5) by (simp_all add: page_wf_not_new)
    obtain t where t: "(case fsm_get_max_avail (get_page u (fsm_logical_to_physical c)) of
        Inl e \<Rightarrow> (Inl e, u)
      | Inr max_avail \<Rightarrow> (Inr (max_avail, False),
          put_page (fsm_logical_to_physical c) (set_next_slot 0 (get_page u (fsm_logical_to_physical c))) u))
      = (Inr (best t c, False), t)" "vac_inv n m t" "same_map u t" "inited u t"
      using vacuum_finish [OF u(2) c(1) p] by blast
    have "fsm_vacuum_page E c 0 InvalidBlockNumber s = (Inr (best t c, False), t)"
      using u(1) t(1) c(2) by (simp add: fsm_vacuum_page.simps fsm_consts)
    with t u False c(2) same_map_trans [OF u(3) t(3)] inited_trans [OF u(4) t(4)] show ?thesis
      by (auto simp: same_map_but good_def)
  qed
qed

text \<open>The loop over the slots of a page; \<open>k\<close> is the next slot.\<close>

lemma vacuum_loop:
  assumes a: "valid_addr a" "0 < level a" and E: "no_faults E" and p: "phys a < n"
    and calls: "\<And>i. i < 4069 \<Longrightarrow> vacuums E n m (fsm_get_child a (int i))"
  shows "vac_inv n m s \<Longrightarrow> \<not> fp_new (pages s ! phys a)
    \<Longrightarrow> (eof \<longrightarrow> (\<forall>j < 4069. k \<le> j \<longrightarrow> n \<le> phys (fsm_get_child a (int j))))
    \<Longrightarrow> \<forall>j < k. slot_val s a j = best s (fsm_get_child a (int j)) \<and> good s (fsm_get_child a (int j))
    \<Longrightarrow> k + d \<le> 4069
    \<Longrightarrow> \<exists>t. vacuum_slots E a 0 InvalidBlockNumber (fsm_logical_to_physical a) [int k .. int (k + d) - 1] eof s = (Inr (), t)
      \<and> vac_inv n m t \<and> inited s t
      \<and> same_but (insert a {fsm_get_child a (int j) | j. j < 4069 \<and> 1 < level a}) s t
      \<and> (\<forall>j < k + d. slot_val t a j = best t (fsm_get_child a (int j)) \<and> good t (fsm_get_child a (int j)))"
proof (induction d arbitrary: k s eof)
  case 0
  then show ?case by auto
next
  case (Suc d)
  let ?A = "insert a {fsm_get_child a (int j) | j. j < 4069 \<and> 1 < level a}"
  let ?c = "fsm_get_child a (int k)"
  have k: "k < 4069" using Suc.prems by simp
  have c: "valid_addr ?c" "?c \<noteq> a" "level ?c = level a - 1"
    using valid_child [OF a, of "int k"] k child_neq by (auto simp: fsm_get_child_def)
  define call where "call = (if \<not> eof then fsm_vacuum_page E ?c 0 InvalidBlockNumber s else (Inr (0, eof), s))"
  have "\<exists>u. call = (Inr (best u ?c, n \<le> phys ?c), u) \<and> vac_inv n m u \<and> inited s u
      \<and> same_but (if level ?c = 0 then {} else {?c}) s u \<and> good u ?c"
  proof (cases eof)
    case False
    then show ?thesis
      using calls [OF k] Suc.prems(1) unfolding vacuums_def call_def by simp
  next
    case True
    then have "n \<le> phys ?c"
      using Suc.prems(3) k by simp
    moreover have "length (pages s) = n"
      using Suc.prems(1) by (simp add: vac_inv_def)
    ultimately show ?thesis
      using True Suc.prems(1) missing_good [OF c(1), of s] best_missing [of s ?c] by (simp add: call_def)
  qed
  then obtain u where u: "call = (Inr (best u ?c, n \<le> phys ?c), u)" "vac_inv n m u" "inited s u"
    "same_but (if level ?c = 0 then {} else {?c}) s u" "good u ?c"
    by blast
  have n: "length (pages s) = n" "length (pages u) = n"
    using Suc.prems(1) u(2) by (simp_all add: vac_inv_def)
  have pu: "\<not> fp_new (pages u ! phys a)"
    using u(3) Suc.prems(2) p n by (simp add: inited_def)
  note pagu = inv_page [OF u(2) p pu]
  have sub: "(if level ?c = 0 then {} else {?c}) \<subseteq> ?A"
    using c(3) a(2) k by auto
  have "0 < best u ?c \<longrightarrow> phys ?c < n"
  proof (cases "n \<le> phys ?c")
    case True
    then show ?thesis
      using best_missing [of u ?c] n by simp
  qed simp
  then obtain w where w: "(if slot_val u a k \<noteq> best u ?c then
        bindS (FreeSpace.call E (LockBuffer (fsm_logical_to_physical a)) u) (\<lambda>_ s.
        bindS (on_page (fsm_logical_to_physical a) (\<lambda>p. fsm_set_avail p (int k) (best u ?c)) s) (\<lambda>_ s.
        bindS (FreeSpace.call E (MarkDirty (fsm_logical_to_physical a)) s) (\<lambda>_ s. FreeSpace.call E (LockBuffer (fsm_logical_to_physical a)) s)))
      else (Inr (), u)) = (Inr (), w)"
    "vac_inv n m w" "inited u w"
    "\<forall>b j. valid_addr b \<longrightarrow> j < 4069 \<longrightarrow> slot_val w b j = (if b = a \<and> j = k then best u ?c else slot_val u b j)"
    using write_slot [OF u(2) a E p pagu k] by blast
  have uw: "same_but {a} u w"
    using w(4) by (simp add: same_but_def)
  have sw: "same_but ?A s w"
    by (rule same_but_trans [OF u(4) uw sub]) simp
  have pw: "\<not> fp_new (pages w ! phys a)"
    using w(3) pu p n by (simp add: inited_def)
  have valid: "valid_addr (fsm_get_child a (int j))" if "j < 4069" for j
    using valid_child [OF a, of "int j"] that by simp
  have neq: "fsm_get_child a (int j) \<noteq> a" for j
    by (rule child_neq)
  have grand: "fsm_get_child (fsm_get_child a x) y \<noteq> a" "fsm_get_child (fsm_get_child a x) y \<noteq> ?c" for x y
    by (cases a; simp add: fsm_get_child_def)+
  have upto: "slot_val w a j = best w (fsm_get_child a (int j)) \<and> good w (fsm_get_child a (int j))" if "j < Suc k" for j
  proof (cases "j = k")
    case True
    have "good w ?c"
      by (rule good_stable [OF u(5) c(1) uw]) (use c(2) grand in auto)
    moreover have "best w ?c = best u ?c"
      using same_but_best [OF uw c(1)] c(2) by simp
    ultimately show ?thesis
      using True w(4) a(1) k by simp
  next
    case False
    with that have j: "j < k" "j < 4069" using k by auto
    have d: "fsm_get_child a (int j) \<noteq> ?c"
      using child_inj [OF a j(2) k] False by simp
    let ?B = "{a, ?c}"
    have sB: "same_but ?B s w"
      by (rule same_but_trans [OF u(4) uw]) auto
    have "good w (fsm_get_child a (int j))"
      by (rule good_stable [OF _ valid [OF j(2)] sB]) (use Suc.prems(4) j d neq grand in auto)
    moreover have "best w (fsm_get_child a (int j)) = best s (fsm_get_child a (int j))"
      using same_but_best [OF sB valid [OF j(2)]] d neq by simp
    moreover have "slot_val w a j = slot_val s a j"
      using w(4) a(1) j False u(4) c(2) by (auto simp: same_but_def split: if_splits)
    ultimately show ?thesis
      using Suc.prems(4) j(1) by simp
  qed
  have eof: "n \<le> phys ?c \<longrightarrow> (\<forall>j < 4069. Suc k \<le> j \<longrightarrow> n \<le> phys (fsm_get_child a (int j)))"
    using child_order [OF a, of k] by (meson Suc_le_eq le_trans less_imp_le)
  obtain t where t: "vacuum_slots E a 0 InvalidBlockNumber (fsm_logical_to_physical a) [int (Suc k) .. int (Suc k + d) - 1] (n \<le> phys ?c) w = (Inr (), t)"
    "vac_inv n m t" "inited w t" "same_but ?A w t"
    "\<forall>j < Suc k + d. slot_val t a j = best t (fsm_get_child a (int j)) \<and> good t (fsm_get_child a (int j))"
    using Suc.IH [OF w(2) pw eof] upto Suc.prems(5) by auto
  have list: "[int k .. int (k + Suc d) - 1] = int k # [int (Suc k) .. int (Suc k + d) - 1]"
    by (subst upto.simps) (simp add: add.commute)
  have child: "(if \<not> eof then fsm_vacuum_page E ?c 0 InvalidBlockNumber s else (Inr (0, eof), s)) = (Inr (best u ?c, n \<le> phys ?c), u)"
    using u(1) by (simp add: call_def)
  have avail: "fsm_get_avail (get_page u (fsm_logical_to_physical a)) (int k) = Inr (slot_val u a k)"
    using p n a(1) k pagu node_nval [of "4095 + k" "pages u ! phys a"]
    by (simp add: get_page_pages fsm_get_avail_def fsm_sizes slot_val_def leaves_nth)
  have "vacuum_slots E a 0 InvalidBlockNumber (fsm_logical_to_physical a) [int k .. int (k + Suc d) - 1] eof s = (Inr (), t)"
    unfolding list vacuum_slots.simps child
    using a(2) t(1) w(1) avail by (simp add: fsm_consts)
  moreover have "same_but ?A s t"
    by (rule same_but_trans [OF sw t(4)]) simp_all
  ultimately show ?case
    using t inited_trans [OF u(3) inited_trans [OF w(3) t(3)]] by auto
qed

lemma vacuum_upper:
  assumes inv: "vac_inv n m s" and a: "valid_addr a" "0 < level a" and E: "no_faults E"
    and calls: "\<And>i. i < 4069 \<Longrightarrow> vacuums E n m (fsm_get_child a (int i))"
  shows "\<exists>t. fsm_vacuum_page E a 0 InvalidBlockNumber s = (Inr (best t a, n \<le> phys a), t) \<and> vac_inv n m t \<and> inited s t
    \<and> same_but (insert a {fsm_get_child a (int j) | j. j < 4069 \<and> 1 < level a}) s t
    \<and> good t a \<and> (\<forall>j < 4069. good t (fsm_get_child a (int j)))"
proof -
  have valid: "valid_addr (fsm_get_child a (int j))" if "j < 4069" for j
    using valid_child [OF a, of "int j"] that by simp
  show ?thesis
  proof (cases "n \<le> phys a")
    case True
    obtain t where t: "fsm_vacuum_page E a 0 InvalidBlockNumber s = (Inr (0, True), t)" "vac_inv n m t" "same_map s t" "inited s t"
      using vacuum_missing [OF inv a(1) E True] by blast
    have n: "length (pages t) = n"
      using t(2) by (simp add: vac_inv_def)
    have "good t (fsm_get_child a (int j))" if "j < 4069" for j
      using child_after [OF a that] True n by (intro missing_good valid [OF that]) simp
    with t n True missing_good [OF a(1), of t] best_missing [of t a] show ?thesis
      by (simp add: same_map_but)
  next
    case False
    let ?b = "fsm_logical_to_physical a" and ?A = "insert a {fsm_get_child a (int j) | j. j < 4069 \<and> 1 < level a}"
    obtain u where u: "fsm_readbuf E a False s = (Inr (Some ?b), u)" "vac_inv n m u" "same_map s u" "inited s u"
      "page_wf (pages u ! phys a)"
      using readbuf_vac [OF inv a(1) E] False by auto
    have p: "phys a < n" "\<not> fp_new (pages u ! phys a)"
      using False u(5) by (simp_all add: page_wf_not_new)
    define d where "d = nat (last_slot a + 1)"
    have d: "int d = last_slot a + 1" "0 + d \<le> 4069"
      using last_slot_less [of a] by (auto simp: d_def last_slot_def)
    obtain w where w: "vacuum_slots E a 0 InvalidBlockNumber ?b [int 0 .. int (0 + d) - 1] False u = (Inr (), w)"
      "vac_inv n m w" "inited u w" "same_but ?A u w"
      "\<forall>j < 0 + d. slot_val w a j = best w (fsm_get_child a (int j)) \<and> good w (fsm_get_child a (int j))"
      using vacuum_loop [OF a E p(1) calls u(2) p(2), of False 0 d] d(2) by auto
    have range: "slot_range a 0 InvalidBlockNumber = [int 0 .. int (0 + d) - 1]"
      using whole_range [OF a] d(1) by simp
    have nw: "length (pages w) = n" "map_sane w" "length (pages u) = n"
      using w(2) u(2) by (simp_all add: vac_inv_def)
    have pw: "\<not> fp_new (pages w ! phys a)"
      using w(3) p nw(3) by (simp add: inited_def)
    obtain t where t: "(case fsm_get_max_avail (get_page w ?b) of
        Inl e \<Rightarrow> (Inl e, w)
      | Inr max_avail \<Rightarrow> (Inr (max_avail, False), put_page ?b (set_next_slot 0 (get_page w ?b)) w)) = (Inr (best t a, False), t)"
      "vac_inv n m t" "same_map w t" "inited w t"
      using vacuum_finish [OF w(2) a(1) p(1) pw] by blast
    have run: "fsm_vacuum_page E a 0 InvalidBlockNumber s = (Inr (best t a, False), t)"
      using u(1) w(1) t(1) a(2) unfolding fsm_vacuum_page.simps [of E a] range by (simp add: fsm_consts)
    have all: "slot_val w a j = best w (fsm_get_child a (int j)) \<and> good w (fsm_get_child a (int j))" if j: "j < 4069" for j
    proof (cases "j < d")
      case False
      then have "last_slot a < int j" using d(1) by simp
      then have "1055795 \<le> phys (fsm_get_child a (int j))"
        by (rule beyond_last [OF a j])
      then have miss: "length (pages w) \<le> phys (fsm_get_child a (int j))"
        using nw(2) by (simp add: map_sane_def)
      then have "\<not> 0 < slot_val w a j"
        using nw(2) a j unfolding map_sane_def by (meson not_less)
      then have "slot_val w a j = 0"
        using word_neq_0_conv by blast
      with miss show ?thesis
        by (simp add: best_missing missing_good [OF valid [OF j]])
    qed (use w(5) in simp)
    have eqs: "slot_val t b i = slot_val w b i" if "i < 4069" for b i
      using t(3) that by (simp add: same_map_def)
    then have "best t b = best w b" for b
      by (intro best_cong) simp
    then have "good t a" "\<forall>j < 4069. good t (fsm_get_child a (int j))"
      using all eqs by (simp_all add: good_def)
    moreover have "same_but ?A s t"
      by (rule same_but_trans [OF same_map_but [OF u(3), of "{}"] same_but_trans [OF w(4) same_map_but [OF t(3), of "{}"] order_refl]])
        simp_all
    ultimately show ?thesis
      using run False t(2) inited_trans [OF u(4) inited_trans [OF w(3) t(4)]] by auto
  qed
qed

lemma vacuums_middle:
  assumes a: "valid_addr a" "level a = 1" and E: "no_faults E"
  shows "vacuums E n m a"
  unfolding vacuums_def
proof (intro allI impI)
  fix s assume inv: "vac_inv n m s"
  have calls: "vacuums E n m (fsm_get_child a (int i))" if "i < 4069" for i
    using valid_child [OF a(1), of "int i"] that a(2) by (intro vacuums_bottom E) (simp_all add: fsm_get_child_def)
  have "insert a {fsm_get_child a (int j) | j. j < 4069 \<and> 1 < level a} = {a}"
    using a(2) by simp
  with vacuum_upper [OF inv a(1) _ E calls] a(2)
  show "\<exists>t. fsm_vacuum_page E a 0 InvalidBlockNumber s = (Inr (best t a, n \<le> phys a), t) \<and> vac_inv n m t \<and> inited s t
      \<and> same_but (if level a = 0 then {} else {a}) s t \<and> good t a"
    by auto
qed

text \<open>The whole vacuum: the upper levels are up to date, the bottom is as it was.\<close>

lemma Vacuum_ok:
  assumes inv: "vac_inv n m s" and E: "no_faults E"
  shows "\<exists>t. FreeSpaceMapVacuum E s = (Inr (), t) \<and> vac_inv n m t
    \<and> (\<forall>a i. valid_addr a \<longrightarrow> level a = 0 \<longrightarrow> i < 4069 \<longrightarrow> slot_val t a i = slot_val s a i)
    \<and> good t FSM_ROOT_ADDRESS \<and> (\<forall>j < 4069. good t (fsm_get_child FSM_ROOT_ADDRESS (int j)))"
proof -
  let ?r = FSM_ROOT_ADDRESS
  have lev: "level ?r = 2"
    by (simp add: FSM_ROOT_ADDRESS_def fsm_consts)
  have calls: "vacuums E n m (fsm_get_child ?r (int i))" if "i < 4069" for i
    using valid_child [OF valid_root, of "int i"] that lev by (intro vacuums_middle E) (simp_all add: fsm_get_child_def)
  obtain t where t: "fsm_vacuum_page E ?r 0 InvalidBlockNumber s = (Inr (best t ?r, n \<le> phys ?r), t)" "vac_inv n m t"
    "same_but (insert ?r {fsm_get_child ?r (int j) | j. j < 4069 \<and> 1 < level ?r}) s t"
    "good t ?r" "\<forall>j < 4069. good t (fsm_get_child ?r (int j))"
    using vacuum_upper [OF inv valid_root _ E calls] lev by auto
  have "slot_val t a i = slot_val s a i" if a: "valid_addr a" "level a = 0" "i < 4069" for a i
  proof -
    have "a \<notin> insert ?r {fsm_get_child ?r (int j) | j. j < 4069 \<and> 1 < level ?r}"
      using a(2) lev by (auto simp: fsm_get_child_def)
    with t(3) a show ?thesis
      unfolding same_but_def by blast
  qed
  with t show ?thesis
    by (simp add: FreeSpaceMapVacuum_def)
qed

subsection \<open>Searching an up-to-date map\<close>

lemma root_is_best':
  assumes "fsm_wf True s" and "phys a < length (pages s)"
  shows "nval (pages s ! phys a) 0 = best s a"
proof (cases "fp_new (pages s ! phys a)")
  case True
  then have new: "pages s ! phys a = new_page"
    using assms by (auto simp: fsm_wf_def intro: page_ok_new)
  obtain i where "i < 4069" "slot_val s a i = best s a"
    using best_attained by blast
  with new assms(2) have "best s a = 0"
    by (simp add: slot_val_def)
  with new show ?thesis
    by (simp add: nval_def new_page_def fsm_sizes)
next
  case False
  then have "page_wf (pages s ! phys a)" "heap (pages s ! phys a)"
    using assms page_ok_old [of True "pages s ! phys a"] by (auto simp: fsm_wf_def)
  then show ?thesis
    using root_is_best [OF assms(2)] by simp
qed

lemma same_best: "same_map s t \<Longrightarrow> best t a = best s a"
  by (rule best_cong) (simp add: same_map_def)

lemma search_page_up_to_date:
  assumes wf: "fsm_wf True s" and a: "valid_addr a" and B: "buf_ok (bufs E)" and E: "no_faults E" and lim: "0 < lim"
  shows "\<exists>t held slot m. search_page E a lim s = Some (Inr (held, slot, m), t) \<and> fsm_wf True t \<and> same_map s t
    \<and> (if lim \<le> best s a
       then held = Some (fsm_logical_to_physical a) \<and> (\<exists>k < 4069. slot = int k \<and> lim \<le> slot_val s a k)
       else slot = - 1)"
proof -
  obtain r t where t: "search_page E a lim s = Some (r, t)" "fsm_wf True t" "same_map s t" "\<forall>e. r = Inl e \<longrightarrow> failing E e"
    and found: "\<forall>held slot m. r = Inr (held, slot, m) \<longrightarrow>
         slot = - 1 \<and> (phys a < length (pages t) \<longrightarrow> nval (pages t ! phys a) 0 < lim)
         \<or> held = Some (fsm_logical_to_physical a) \<and> (\<exists>k < 4069. slot = int k \<and> lim \<le> slot_val t a k)"
    using search_page_ok [OF wf a B, of lim] by (elim exE conjE) (rule that, auto)
  obtain held slot m where r: "r = Inr (held, slot, m)"
    using t(4) E by (cases r) (auto simp: no_faults_def)
  have best: "best t a = best s a"
    using t(3) by (rule same_best)
  from found r consider
    (none) "slot = - 1" "phys a < length (pages t) \<longrightarrow> nval (pages t ! phys a) 0 < lim"
    | (some) k where "held = Some (fsm_logical_to_physical a)" "k < 4069" "slot = int k" "lim \<le> slot_val t a k"
    by blast
  then show ?thesis
  proof cases
    case none
    have "best t a < lim"
    proof (cases "phys a < length (pages t)")
      case True
      with none root_is_best' [OF t(2) True] show ?thesis by simp
    next
      case False
      with best_missing [of t a] lim show ?thesis by simp
    qed
    with none t r best show ?thesis by auto
  next
    case (some k)
    then have "lim \<le> slot_val s a k"
      using t(3) by (simp add: same_map_def)
    moreover from this have "lim \<le> best s a"
      using best_ge [OF some(2), of s a] by simp
    ultimately show ?thesis
      using some t r by auto
  qed
qed

lemma search_descends:
  assumes "fsm_wf True s" and "valid_addr a" and "0 < level a" and "buf_ok (bufs E)" and "no_faults E" and "0 < lim"
    and "lim \<le> best s a" and "good s a"
  shows "\<exists>k t. fsm_search_step E lim (0, a, s) = Some (Inl (0, fsm_get_child a (int k), t)) \<and> k < 4069
    \<and> fsm_wf True t \<and> same_map s t \<and> lim \<le> best t (fsm_get_child a (int k))"
proof -
  obtain t held k m where t: "search_page E a lim s = Some (Inr (held, int k, m), t)" "fsm_wf True t" "same_map s t"
    "k < 4069" "lim \<le> slot_val s a k"
    using search_page_up_to_date [OF assms(1,2,4-6)] assms(7) by auto
  have "slot_val s a k = best s (fsm_get_child a (int k))"
    using assms(3,8) t(4) by (simp add: good_def)
  with t assms(3) show ?thesis
    by (auto simp: fsm_search_step_def fsm_consts same_best)
qed

lemma search_up_to_date:
  assumes wf: "fsm_wf True s" and sane: "map_sane s" and B: "buf_ok (bufs E)" and E: "no_faults E" and lim: "0 < lim"
    and g: "good s FSM_ROOT_ADDRESS" "\<And>j. j < 4069 \<Longrightarrow> good s (fsm_get_child FSM_ROOT_ADDRESS (int j))"
  shows "\<exists>blk t. fsm_search E lim s = Some (Inr blk, t) \<and> same_map s t
    \<and> (if lim \<le> best s FSM_ROOT_ADDRESS then blk < main_nblocks s \<and> lim \<le> block_cat s blk else blk = InvalidBlockNumber)"
proof -
  let ?r = FSM_ROOT_ADDRESS
  have lev: "level ?r = 2"
    by (simp add: FSM_ROOT_ADDRESS_def fsm_consts)
  show ?thesis
  proof (cases "lim \<le> best s ?r")
    case False
    then obtain t held m where "search_page E ?r lim s = Some (Inr (held, - 1, m), t)" "same_map s t"
      using search_page_up_to_date [OF wf valid_root B E lim] by auto
    with False lev show ?thesis
      by (auto simp: fsm_search_def fsm_search_step_def fsm_consts iterate.simps)
  next
    case True
    obtain i t where t: "fsm_search_step E lim (0, ?r, s) = Some (Inl (0, fsm_get_child ?r (int i), t))" "i < 4069"
      "fsm_wf True t" "same_map s t" "lim \<le> best t (fsm_get_child ?r (int i))"
      using search_descends [OF wf valid_root _ B E lim True g(1)] lev by auto
    let ?a = "fsm_get_child ?r (int i)"
    have a: "valid_addr ?a" "level ?a = 1"
      using valid_child [OF valid_root, of "int i"] t(2) lev by (auto simp: fsm_get_child_def)
    have "good t ?a"
      using g(2) [OF t(2)] t(4) same_best [OF t(4)] by (simp add: good_def same_map_def)
    then obtain j u where u: "fsm_search_step E lim (0, ?a, t) = Some (Inl (0, fsm_get_child ?a (int j), u))" "j < 4069"
      "fsm_wf True u" "same_map t u" "lim \<le> best u (fsm_get_child ?a (int j))"
      using search_descends [OF t(3) a(1) _ B E lim t(5)] a(2) by auto
    let ?c = "fsm_get_child ?a (int j)"
    have c: "valid_addr ?c" "level ?c = 0"
      using valid_child [OF a(1), of "int j"] u(2) a(2) by (auto simp: fsm_get_child_def)
    obtain w k m where w: "search_page E ?c lim u = Some (Inr (Some (fsm_logical_to_physical ?c), int k, m), w)" "fsm_wf True w"
      "same_map u w" "k < 4069" "lim \<le> slot_val u ?c k"
      using search_page_up_to_date [OF u(3) c(1) B E lim] u(5) by auto
    have su: "same_map s u" and sw: "same_map s w"
      using t(4) u(4) w(3) same_map_trans by blast+
    have val: "slot_val s ?c k = slot_val u ?c k"
      using su w(4) by (simp add: same_map_def)
    then have "0 < slot_val s ?c k"
      using lim w(5) by simp
    then obtain blk where blk: "blk < main_nblocks s" "fsm_get_location blk = (?c, int k)"
      using sane c w(4) unfolding map_sane_def by blast
    have hb: "fsm_get_heap_blk ?c (int k) = blk"
      using heap_blk_location [of blk] blk(2) by simp
    obtain r x where x: "fsm_does_block_exist E blk w = (r, x)" "same_map w x" "\<forall>e. r = Inl e \<longrightarrow> failing E e"
      "\<forall>b. r = Inr b \<longrightarrow> (b \<longleftrightarrow> blk < main_nblocks w)"
      using block_exists_ok [OF w(2), of E blk] by (elim exE conjE) (rule that)
    have "r = Inr True"
      using x(3,4) E sw blk(1) by (cases r) (auto simp: no_faults_def same_map_def)
    then have last: "fsm_search_step E lim (0, ?c, u) = Some (Inr (Inr blk, x))"
      using w(1) x(1) hb c(2) by (simp add: fsm_search_step_def fsm_consts Let_def)
    have "fsm_search E lim s = Some (Inr blk, x)"
      unfolding fsm_search_def iterate_step [where body = "fsm_search_step E lim", OF t(1)]
        iterate_step [where body = "fsm_search_step E lim", OF u(1)]
      by (rule iterate_done [where body = "fsm_search_step E lim", OF last])
    moreover have "same_map s x"
      using sw x(2) by (rule same_map_trans)
    ultimately show ?thesis
      using True blk w(5) val by (auto simp: block_cat_def)
  qed
qed

text \<open>Bottom slots never exceed the root of an up-to-date map.\<close>

lemma bottom_le_root:
  assumes g: "good s FSM_ROOT_ADDRESS" "\<And>j. j < 4069 \<Longrightarrow> good s (fsm_get_child FSM_ROOT_ADDRESS (int j))"
    and a: "valid_addr a" "level a = 0" and i: "i < 4069"
  shows "slot_val s a i \<le> best s FSM_ROOT_ADDRESS"
proof -
  obtain b x where b: "fsm_get_parent a = (b, x)" by (cases "fsm_get_parent a")
  note pa = valid_parent [OF a(1), unfolded b fst_conv snd_conv]
  have lb: "level b = 1"
    using b a(2) by (auto simp: fsm_get_parent_def)
  then have bl: "level b = 1" "valid_addr b" "fsm_get_child b x = a" "0 \<le> x" "x < 4069"
    using a pa by simp_all
  obtain c y where c: "fsm_get_parent b = (c, y)" by (cases "fsm_get_parent b")
  note pb = valid_parent [OF bl(2), unfolded c fst_conv snd_conv]
  have lc: "level c = 2"
    using c lb by (auto simp: fsm_get_parent_def)
  then have cl: "level c = 2" "valid_addr c" "fsm_get_child c y = b" "0 \<le> y" "y < 4069"
    using lb pb by simp_all
  have root: "c = FSM_ROOT_ADDRESS"
    using cl(1,2) by (cases c) (simp add: valid_addr_def FSM_ROOT_ADDRESS_def fsm_consts)
  obtain p q where pq: "x = int p" "p < 4069" "y = int q" "q < 4069"
    using bl(4,5) cl(4,5) by (intro that [of "nat x" "nat y"]) auto
  have "slot_val s a i \<le> best s a"
    using i by (rule best_ge)
  also have "best s a = slot_val s b p"
    using g(2) [OF pq(4)] cl(3) root pq bl(1,3) by (simp add: good_def)
  also have "\<dots> \<le> best s b"
    using pq(2) by (rule best_ge)
  also have "best s b = slot_val s c q"
    using g(1) cl(1,3) root pq by (simp add: good_def)
  also have "\<dots> \<le> best s c"
    using pq(4) by (rule best_ge)
  finally show ?thesis
    using root by simp
qed

subsection \<open>Properties\<close>

lemma location_phys:
  assumes "blk < main_nblocks s"
  shows "phys (fst (fsm_get_location blk)) < 1055795"
proof -
  have "unat blk < unat (main_nblocks s)" "unat (main_nblocks s) < 4294967296"
    using assms unat_bounds(3) by (simp_all add: word_less_nat_alt)
  moreover have "uint blk = int (unat blk)"
    by simp
  ultimately have "uint blk \<le> 4294967294"
    by linarith
  then have d: "uint blk div 4069 \<le> 1055533"
    using zdiv_mono1 [of "uint blk" 4294967294 4069] by simp
  then have "uint blk div 4069 div 4069 \<le> 259"
    using zdiv_mono1 [of "uint blk div 4069" 1055533 4069] by simp
  with d show ?thesis
    by (simp add: phys_def fsm_get_location_def fsm_consts fsm_sizes)
qed

lemma Record_sane:
  assumes wf: "fsm_wf True s" and sane: "map_sane s" and B: "buf_ok (bufs E)" and E: "no_faults E" and blk: "blk < main_nblocks s"
  shows "\<exists>t. RecordPageWithFreeSpace E blk avail s = Some (Inr (), t) \<and> fsm_wf True t \<and> map_sane t
    \<and> main_nblocks t = main_nblocks s \<and> block_cat t blk = fsm_space_avail_to_cat avail"
proof -
  obtain a slot where loc: "fsm_get_location blk = (a, slot)" by (cases "fsm_get_location blk")
  then have a: "valid_addr a" "level a = 0" "0 \<le> slot" "slot < 4069"
    using location_valid [of blk] by simp_all
  obtain i where i: "slot = int i" "i < 4069"
    using a(3,4) by (intro that [of "nat slot"]) auto
  let ?v = "fsm_space_avail_to_cat avail"
  obtain r t where t: "fsm_set_and_search E a (int i) ?v 0 s = Some (r, t)" "fsm_wf True t"
    "\<forall>e. r = Inl e \<longrightarrow> failing E e" "\<forall>n. r = Inr n \<longrightarrow> record_slot a i ?v s t"
    "length (pages t) \<le> max (length (pages s)) (Suc (phys a))"
    using set_and_search_ok [OF wf a(1) i(2) B, of ?v 0] by (elim exE conjE) (rule that, auto)
  obtain n where r: "r = Inr n"
    using t(3) E by (cases r) (auto simp: no_faults_def)
  with t(4) have rec: "record_slot a i ?v s t" by simp
  have vals: "\<And>b j. valid_addr b \<Longrightarrow> j < 4069 \<Longrightarrow> slot_val t b j = (if b = a \<and> j = i then ?v else slot_val s b j)"
    and main: "main_nblocks t = main_nblocks s" and grow: "length (pages s) \<le> length (pages t)"
    using rec by (simp_all add: record_slot_def)
  have "map_sane t"
    unfolding map_sane_def
  proof (intro conjI allI impI)
    have "length (pages s) \<le> 1055795" "phys a < 1055795"
      using sane location_phys [OF blk] loc by (simp_all add: map_sane_def)
    with t(5) show "length (pages t) \<le> 1055795"
      by simp
    show "phys (fsm_get_child b (int j)) < length (pages t)"
      if b: "valid_addr b" "0 < level b" "j < 4069" "0 < slot_val t b j" for b j
    proof -
      have "b \<noteq> a" using b(2) a(2) by auto
      then have "0 < slot_val s b j" using b vals by simp
      then show ?thesis
        using b sane grow unfolding map_sane_def by (meson less_le_trans)
    qed
    show "\<exists>blk < main_nblocks t. fsm_get_location blk = (b, int j)"
      if b: "valid_addr b" "level b = 0" "j < 4069" "0 < slot_val t b j" for b j
    proof (cases "b = a \<and> j = i")
      case True
      then show ?thesis using blk loc i(1) main by auto
    next
      case False
      then have "0 < slot_val s b j" using b vals by auto
      then show ?thesis
        using b sane main unfolding map_sane_def by simp
    qed
  qed
  moreover have "block_cat t blk = ?v"
    using loc i vals [OF a(1) i(2)] by (simp add: block_cat_def)
  ultimately show ?thesis
    using t(1,2) r loc i(1) main by (simp add: RecordPageWithFreeSpace_def)
qed

text \<open>
  C22: recorded space is found. On a sound map that records only what exists, with a buffer and a storage manager that do not
  fail: record the space of a block, vacuum the map, then ask for
  an amount that the recorded category covers. Every step succeeds, and the block handed out exists and has a recorded category that covers the
  request; the vacuum changes nothing of what is recorded of any block.
\<close>

theorem Record_Vacuum_GetPage:
  assumes wf: "fsm_wf True s" and sane: "map_sane s" and B: "buf_ok (bufs E)" and E: "no_faults E"
    and blk: "blk < main_nblocks s"
    and needed: "fsm_space_needed_to_cat needed = Inr cat" "cat \<le> fsm_space_avail_to_cat avail"
  shows "\<exists>s1 s2 found s3. RecordPageWithFreeSpace E blk avail s = Some (Inr (), s1)
    \<and> FreeSpaceMapVacuum E s1 = (Inr (), s2) \<and> (\<forall>b. block_cat s2 b = block_cat s1 b)
    \<and> GetPageWithFreeSpace E needed s2 = Some (Inr found, s3)
    \<and> found < main_nblocks s \<and> cat \<le> block_cat s3 found"
proof -
  have cat: "0 < cat"
    using needed(1) by (auto simp: fsm_space_needed_to_cat_def Let_def FSM_CAT_STEP_def word_less_nat_alt unat_of_nat
        MaxFSMRequestSize_def split: if_splits)
  obtain s1 where s1: "RecordPageWithFreeSpace E blk avail s = Some (Inr (), s1)" "fsm_wf True s1" "map_sane s1"
    "main_nblocks s1 = main_nblocks s" "block_cat s1 blk = fsm_space_avail_to_cat avail"
    using Record_sane [OF wf sane B E blk] by blast
  have "vac_inv (length (pages s1)) (main_nblocks s1) s1"
    using s1 by (simp add: vac_inv_def)
  from Vacuum_ok [OF this E] obtain s2 where s2: "FreeSpaceMapVacuum E s1 = (Inr (), s2)"
    "vac_inv (length (pages s1)) (main_nblocks s1) s2"
    "\<forall>a i. valid_addr a \<longrightarrow> level a = 0 \<longrightarrow> i < 4069 \<longrightarrow> slot_val s2 a i = slot_val s1 a i"
    "good s2 FSM_ROOT_ADDRESS" "\<And>j. j < 4069 \<Longrightarrow> good s2 (fsm_get_child FSM_ROOT_ADDRESS (int j))"
    by blast
  have cats: "block_cat s2 b = block_cat s1 b" for b
    using s2(3) location_valid [of b] by (auto simp: block_cat_def split: prod.splits)
  have "block_cat s2 blk \<le> best s2 FSM_ROOT_ADDRESS"
    using bottom_le_root [OF s2(4,5)] location_valid [of blk] by (auto simp: block_cat_def split: prod.splits)
  then have "cat \<le> best s2 FSM_ROOT_ADDRESS"
    using needed(2) cats [of blk] s1(5) by simp
  moreover have "fsm_wf True s2" "map_sane s2" "main_nblocks s2 = main_nblocks s"
    using s2(2) s1(4) by (simp_all add: vac_inv_def)
  ultimately obtain found s3 where s3: "fsm_search E cat s2 = Some (Inr found, s3)" "same_map s2 s3"
    "found < main_nblocks s" "cat \<le> block_cat s2 found"
    using search_up_to_date [OF _ _ B E cat s2(4,5)] by auto
  have "block_cat s3 found = block_cat s2 found"
    using s3(2) location_valid [of found] by (auto simp: block_cat_def same_map_def split: prod.splits)
  then show ?thesis
    using s1(1) s2(1) cats s3 needed(1) by (simp add: GetPageWithFreeSpace_def)
qed

theorem Record_Vacuum_GetPage_witness:
  "fsm_wf True demo_fsm \<and> map_sane demo_fsm \<and> no_faults demo_fsm_env
    \<and> (\<exists>s1 s2 found s3. RecordPageWithFreeSpace demo_fsm_env 4 1000 demo_fsm = Some (Inr (), s1)
         \<and> FreeSpaceMapVacuum demo_fsm_env s1 = (Inr (), s2)
         \<and> GetPageWithFreeSpace demo_fsm_env 100 s2 = Some (Inr found, s3) \<and> found < 10)"
proof -
  have zero: "slot_val demo_fsm a i = 0" if "i < 4069" for a i
  proof -
    have "\<forall>p \<in> set (pages demo_fsm). leaves p = replicate 4069 0"
      by (simp add: demo_fsm_def pages_def)
    then have "leaves (pages demo_fsm ! phys a) = replicate 4069 0" if "phys a < length (pages demo_fsm)"
      using that nth_mem by blast
    with that show ?thesis by (simp add: slot_val_def)
  qed
  have sane: "map_sane demo_fsm"
    unfolding map_sane_def
  proof (intro conjI allI impI)
    show "length (pages demo_fsm) \<le> 1055795"
      by (simp add: demo_fsm_def pages_def)
  qed (use zero in auto)
  have E: "no_faults demo_fsm_env"
    using demo_fsm_ok(3) by (simp add: no_faults_def)
  have cats: "fsm_space_needed_to_cat 100 = Inr 4" "(4 :: u8) \<le> fsm_space_avail_to_cat 1000"
    by (simp_all add: fsm_space_needed_to_cat_def fsm_space_avail_to_cat_def MaxFSMRequestSize_def FSM_CAT_STEP_def Let_def)
  have main: "main_nblocks demo_fsm = 10" "(4 :: BlockNumber) < main_nblocks demo_fsm"
    by (simp_all add: demo_fsm_def)
  from Record_Vacuum_GetPage [OF demo_fsm_ok(1) sane demo_fsm_ok(2) E main(2) cats] demo_fsm_ok(1) sane E
  show ?thesis
    unfolding main(1) by (elim exE conjE) (intro conjI exI, assumption+)
qed

end
