(* ===== verification/LockTable.thy ===== *)
theory LockTable
  imports PgPrelude
begin

unbundle bit_operations_syntax

section \<open>The lock table\<close>

text \<open>
  \<^verbatim>\<open>crates/backend/storage/lmgr/lock/src\<close>, \<^verbatim>\<open>lib.rs\<close>, \<^verbatim>\<open>shared.rs\<close>, \<^verbatim>\<open>waitqueue.rs\<close> and the part of
  \<^verbatim>\<open>acquire.rs\<close> that works on shared memory: the conflict table, the lock objects with their holders
  and waiters, granting, releasing, queueing and waking. An operation runs under the partition lock, so it is one
  step. The lists \<^verbatim>\<open>procLocks\<close> and \<^verbatim>\<open>waitProcs\<close> are lists of the model (the links that thread them through the
  shared structures are not modelled); a \<^verbatim>\<open>PROCLOCK\<close> is found by its process. The lock groups are the parameter
  \<open>G\<close>, the \<^verbatim>\<open>lockGroupLeader\<close> of each process; whether the shared hash tables have room for a new entry is a
  parameter too. Lock modes are numbers, masks are 32-bit words. The local lock table and the fast path are
  not modelled.
\<close>

type_synonym LOCKMODE = nat
type_synonym LOCKMASK = "32 word"
type_synonym ProcNumber = nat

definition MAX_LOCKMODES :: nat where "MAX_LOCKMODES = 10"

definition LOCKBIT_ON :: "LOCKMODE \<Rightarrow> LOCKMASK" where
  "LOCKBIT_ON lockmode = push_bit lockmode 1"

definition LOCKBIT_OFF :: "LOCKMODE \<Rightarrow> LOCKMASK" where
  "LOCKBIT_OFF lockmode = NOT (push_bit lockmode 1)"

definition AccessShareLock :: LOCKMODE where "AccessShareLock = 1"
definition RowShareLock :: LOCKMODE where "RowShareLock = 2"
definition RowExclusiveLock :: LOCKMODE where "RowExclusiveLock = 3"
definition ShareUpdateExclusiveLock :: LOCKMODE where "ShareUpdateExclusiveLock = 4"
definition ShareLock :: LOCKMODE where "ShareLock = 5"
definition ShareRowExclusiveLock :: LOCKMODE where "ShareRowExclusiveLock = 6"
definition ExclusiveLock :: LOCKMODE where "ExclusiveLock = 7"
definition AccessExclusiveLock :: LOCKMODE where "AccessExclusiveLock = 8"
definition MaxLockMode :: LOCKMODE where "MaxLockMode = AccessExclusiveLock"
definition LOCKTAG_RELATION_EXTEND :: nat where "LOCKTAG_RELATION_EXTEND = 1"

definition LOCK_CONFLICTS :: "LOCKMASK list" where
  "LOCK_CONFLICTS =
    [0,
     LOCKBIT_ON AccessExclusiveLock,
     LOCKBIT_ON ExclusiveLock OR LOCKBIT_ON AccessExclusiveLock,
     LOCKBIT_ON ShareLock OR LOCKBIT_ON ShareRowExclusiveLock OR LOCKBIT_ON ExclusiveLock OR LOCKBIT_ON AccessExclusiveLock,
     LOCKBIT_ON ShareUpdateExclusiveLock OR LOCKBIT_ON ShareLock OR LOCKBIT_ON ShareRowExclusiveLock
       OR LOCKBIT_ON ExclusiveLock OR LOCKBIT_ON AccessExclusiveLock,
     LOCKBIT_ON RowExclusiveLock OR LOCKBIT_ON ShareUpdateExclusiveLock OR LOCKBIT_ON ShareRowExclusiveLock
       OR LOCKBIT_ON ExclusiveLock OR LOCKBIT_ON AccessExclusiveLock,
     LOCKBIT_ON RowExclusiveLock OR LOCKBIT_ON ShareUpdateExclusiveLock OR LOCKBIT_ON ShareLock
       OR LOCKBIT_ON ShareRowExclusiveLock OR LOCKBIT_ON ExclusiveLock OR LOCKBIT_ON AccessExclusiveLock,
     LOCKBIT_ON RowShareLock OR LOCKBIT_ON RowExclusiveLock OR LOCKBIT_ON ShareUpdateExclusiveLock OR LOCKBIT_ON ShareLock
       OR LOCKBIT_ON ShareRowExclusiveLock OR LOCKBIT_ON ExclusiveLock OR LOCKBIT_ON AccessExclusiveLock,
     LOCKBIT_ON AccessShareLock OR LOCKBIT_ON RowShareLock OR LOCKBIT_ON RowExclusiveLock OR LOCKBIT_ON ShareUpdateExclusiveLock
       OR LOCKBIT_ON ShareLock OR LOCKBIT_ON ShareRowExclusiveLock OR LOCKBIT_ON ExclusiveLock OR LOCKBIT_ON AccessExclusiveLock]"

definition conflictTab :: "LOCKMODE \<Rightarrow> LOCKMASK" where
  "conflictTab lockmode = LOCK_CONFLICTS ! lockmode"

definition DoLockModesConflict :: "LOCKMODE \<Rightarrow> LOCKMODE \<Rightarrow> bool" where
  "DoLockModesConflict mode1 mode2 \<longleftrightarrow> LOCK_CONFLICTS ! mode1 AND LOCKBIT_ON mode2 \<noteq> 0"

definition lock_method_checked :: "nat \<Rightarrow> LOCKMODE \<Rightarrow> unit res" where
  "lock_method_checked lockmethodid lockmode =
    (if lockmethodid \<noteq> 1 \<and> lockmethodid \<noteq> 2 then Inl (UnrecognizedLockMethod lockmethodid)
     else if lockmode = 0 \<or> lockmode > MaxLockMode then Inl (UnrecognizedLockMode lockmode)
     else Inr ())"

record PROCLOCK =
  myProc :: ProcNumber
  groupLeader :: ProcNumber
  holdMask :: LOCKMASK

record LOCK =
  locktag_type :: nat
  grantMask :: LOCKMASK
  waitMask :: LOCKMASK
  procLocks :: "PROCLOCK list"
  waitProcs :: "ProcNumber list"
  requested :: "int list"
  nRequested :: int
  granted :: "int list"
  nGranted :: int

datatype ProcWaitStatus = PROC_WAIT_STATUS_OK | PROC_WAIT_STATUS_WAITING | PROC_WAIT_STATUS_ERROR

record PGPROC =
  waitLock :: "nat option"
  waitLockMode :: LOCKMODE
  heldLocks :: LOCKMASK
  waitStatus :: ProcWaitStatus

text \<open>The shared state: the lock objects by tag, and the processes.\<close>

record lock_state =
  lock_hash :: "nat \<rightharpoonup> LOCK"
  procs :: "ProcNumber \<Rightarrow> PGPROC"

type_synonym groups = "ProcNumber \<Rightarrow> ProcNumber option"

subsection \<open>Holders\<close>

definition find_proclock :: "LOCK \<Rightarrow> ProcNumber \<Rightarrow> PROCLOCK option" where
  "find_proclock lock procno = find (\<lambda>p. myProc p = procno) (procLocks lock)"

definition hold_mask :: "LOCK \<Rightarrow> ProcNumber \<Rightarrow> LOCKMASK" where
  "hold_mask lock procno = (case find_proclock lock procno of None \<Rightarrow> 0 | Some p \<Rightarrow> holdMask p)"

definition set_hold :: "ProcNumber \<Rightarrow> (LOCKMASK \<Rightarrow> LOCKMASK) \<Rightarrow> LOCK \<Rightarrow> LOCK" where
  "set_hold procno f lock = lock \<lparr> procLocks :=
     map (\<lambda>p. if myProc p = procno then p \<lparr> holdMask := f (holdMask p) \<rparr> else p) (procLocks lock) \<rparr>"

definition bump :: "nat \<Rightarrow> int \<Rightarrow> int list \<Rightarrow> int list" where
  "bump m d xs = xs[m := xs ! m + d]"

definition new_lock :: "nat \<Rightarrow> LOCK" where
  "new_lock typ = \<lparr> locktag_type = typ, grantMask = 0, waitMask = 0, procLocks = [], waitProcs = [],
     requested = replicate MAX_LOCKMODES 0, nRequested = 0, granted = replicate MAX_LOCKMODES 0, nGranted = 0 \<rparr>"

text \<open>
  The lock object with the new request counted; \<open>None\<close> when shared memory is exhausted, an error when
  the process holds the lock already.
\<close>

definition SetupLockInTable ::
  "bool \<Rightarrow> bool \<Rightarrow> groups \<Rightarrow> ProcNumber \<Rightarrow> nat \<Rightarrow> nat \<Rightarrow> LOCKMODE \<Rightarrow> lock_state \<Rightarrow> LOCK option res \<times> lock_state" where
  "SetupLockInTable lock_room proclock_room G procno tag typ lockmode s =
    (case (case lock_hash s tag of Some lock \<Rightarrow> Some lock | None \<Rightarrow> if lock_room then Some (new_lock typ) else None) of
       None \<Rightarrow> (Inr None, s)
     | Some lock \<Rightarrow>
         (case (case find_proclock lock procno of
                  Some _ \<Rightarrow> Some lock
                | None \<Rightarrow>
                    if proclock_room then
                      Some (lock \<lparr> procLocks := procLocks lock @
                        [\<lparr> myProc = procno, groupLeader = (case G procno of None \<Rightarrow> procno | Some leader \<Rightarrow> leader),
                           holdMask = 0 \<rparr>] \<rparr>)
                    else None) of
            None \<Rightarrow>
              (Inr None, s \<lparr> lock_hash := (if nRequested lock = 0 then (lock_hash s)(tag := None)
                                            else (lock_hash s)(tag \<mapsto> lock)) \<rparr>)
          | Some lock \<Rightarrow>
              let lock = lock \<lparr> nRequested := nRequested lock + 1, requested := bump lockmode 1 (requested lock) \<rparr>;
                  s = s \<lparr> lock_hash := (lock_hash s)(tag \<mapsto> lock) \<rparr> in
              if hold_mask lock procno AND LOCKBIT_ON lockmode \<noteq> 0 then (Inl (LockAlreadyHeld lockmode), s)
              else (Inr (Some lock), s)))"

definition grant_lock_raw :: "ProcNumber \<Rightarrow> LOCKMODE \<Rightarrow> LOCK \<Rightarrow> LOCK" where
  "grant_lock_raw procno lockmode lock =
    (let lock = lock \<lparr> nGranted := nGranted lock + 1, granted := bump lockmode 1 (granted lock),
                       grantMask := grantMask lock OR LOCKBIT_ON lockmode \<rparr>;
         lock = (if granted lock ! lockmode = requested lock ! lockmode
                 then lock \<lparr> waitMask := waitMask lock AND LOCKBIT_OFF lockmode \<rparr> else lock)
     in set_hold procno (\<lambda>m. m OR LOCKBIT_ON lockmode) lock)"

definition UnGrantLock :: "LOCKMODE \<Rightarrow> ProcNumber \<Rightarrow> LOCK \<Rightarrow> bool \<times> LOCK" where
  "UnGrantLock lockmode procno lock =
    (let lock = lock \<lparr> nRequested := nRequested lock - 1, requested := bump lockmode (- 1) (requested lock),
                       nGranted := nGranted lock - 1, granted := bump lockmode (- 1) (granted lock) \<rparr>;
         lock = (if granted lock ! lockmode = 0
                 then lock \<lparr> grantMask := grantMask lock AND LOCKBIT_OFF lockmode \<rparr> else lock);
         wakeup_needed = (conflictTab lockmode AND waitMask lock \<noteq> 0)
     in (wakeup_needed, set_hold procno (\<lambda>m. m AND LOCKBIT_OFF lockmode) lock))"

subsection \<open>Conflicts\<close>

text \<open>The counts of conflicting holders other than oneself, by mode and in total_conflicts.\<close>

fun conflict_counts :: "LOCKMASK \<Rightarrow> LOCKMASK \<Rightarrow> int list \<Rightarrow> nat list \<Rightarrow> int list \<Rightarrow> int \<Rightarrow> int list \<times> int" where
  "conflict_counts conflictMask myLocks gr [] remaining total_conflicts = (remaining, total_conflicts)"
| "conflict_counts conflictMask myLocks gr (i # is) remaining total_conflicts =
    (if conflictMask AND LOCKBIT_ON i = 0 then conflict_counts conflictMask myLocks gr is remaining total_conflicts
     else
       let c = gr ! i - (if myLocks AND LOCKBIT_ON i \<noteq> 0 then 1 else 0)
       in conflict_counts conflictMask myLocks gr is (remaining[i := c]) (total_conflicts + c))"

fun discount_modes :: "LOCKMASK \<Rightarrow> nat list \<Rightarrow> int list \<Rightarrow> int \<Rightarrow> (int list \<times> int) res" where
  "discount_modes intersect [] remaining total_conflicts = Inr (remaining, total_conflicts)"
| "discount_modes intersect (i # is) remaining total_conflicts =
    (if intersect AND LOCKBIT_ON i \<noteq> 0 then
       if \<not> remaining ! i > 0 then Inl Panic
       else discount_modes intersect is (bump i (- 1) remaining) (total_conflicts - 1)
     else discount_modes intersect is remaining total_conflicts)"

fun discount_group ::
  "LOCKMASK \<Rightarrow> ProcNumber \<Rightarrow> ProcNumber \<Rightarrow> PROCLOCK list \<Rightarrow> int list \<Rightarrow> int \<Rightarrow> bool res" where
  "discount_group conflictMask procno leader [] remaining total_conflicts = Inr True"
| "discount_group conflictMask procno leader (other # rest) remaining total_conflicts =
    (if myProc other \<noteq> procno \<and> groupLeader other = leader \<and> holdMask other AND conflictMask \<noteq> 0 then
       bindR (discount_modes (holdMask other AND conflictMask) [1 ..< MaxLockMode + 1] remaining total_conflicts) (\<lambda>(remaining, total_conflicts).
         if total_conflicts = 0 then Inr False else discount_group conflictMask procno leader rest remaining total_conflicts)
     else discount_group conflictMask procno leader rest remaining total_conflicts)"

definition lock_check_conflicts_raw :: "groups \<Rightarrow> LOCKMODE \<Rightarrow> LOCK \<Rightarrow> ProcNumber \<Rightarrow> bool res" where
  "lock_check_conflicts_raw G lockmode lock procno =
    (let conflictMask = conflictTab lockmode in
     if conflictMask AND grantMask lock = 0 then Inr False
     else
       let myLocks = hold_mask lock procno;
           (remaining, total_conflicts) = conflict_counts conflictMask myLocks (granted lock) [1 ..< MaxLockMode + 1]
             (replicate MAX_LOCKMODES 0) 0 in
       if total_conflicts = 0 then Inr False
       else
         let leader = (case find_proclock lock procno of None \<Rightarrow> procno | Some p \<Rightarrow> groupLeader p) in
         if leader = procno \<and> G procno = None then Inr True
         else if locktag_type lock = LOCKTAG_RELATION_EXTEND then Inr True
         else discount_group conflictMask procno leader (procLocks lock) remaining total_conflicts)"

subsection \<open>Waking\<close>

text \<open>The wait queue's loop: \<open>waiting\<close> is what of the queue is still to be visited.\<close>

fun wakeup_loop ::
  "groups \<Rightarrow> ProcNumber list \<Rightarrow> LOCKMASK \<Rightarrow> LOCK \<Rightarrow> (ProcNumber \<Rightarrow> PGPROC) \<Rightarrow> (LOCK \<times> (ProcNumber \<Rightarrow> PGPROC)) res" where
  "wakeup_loop G [] ahead_requests lock ps = Inr (lock, ps)"
| "wakeup_loop G (waiter # waiting) ahead_requests lock ps =
    (let lockmode = waitLockMode (ps waiter) in
     bindR (if conflictTab lockmode AND ahead_requests = 0
            then bindR (lock_check_conflicts_raw G lockmode lock waiter) (\<lambda>c. Inr (\<not> c)) else Inr False) (\<lambda>wake.
     if wake then
       let lock = grant_lock_raw waiter lockmode lock;
           lock = lock \<lparr> waitProcs := remove1 waiter (waitProcs lock) \<rparr>;
           ps = ps(waiter := (ps waiter) \<lparr> waitLock := None, waitStatus := PROC_WAIT_STATUS_OK \<rparr>)
       in wakeup_loop G waiting ahead_requests lock ps
     else wakeup_loop G waiting (ahead_requests OR LOCKBIT_ON lockmode) lock ps))"

definition ProcLockWakeup :: "groups \<Rightarrow> LOCK \<Rightarrow> (ProcNumber \<Rightarrow> PGPROC) \<Rightarrow> (LOCK \<times> (ProcNumber \<Rightarrow> PGPROC)) res" where
  "ProcLockWakeup G lock ps = (if waitProcs lock = [] then Inr (lock, ps) else wakeup_loop G (waitProcs lock) 0 lock ps)"

definition drop_proclock :: "ProcNumber \<Rightarrow> LOCK \<Rightarrow> LOCK" where
  "drop_proclock procno lock = lock \<lparr> procLocks := filter (\<lambda>p. myProc p \<noteq> procno) (procLocks lock) \<rparr>"

definition CleanUpLock :: "groups \<Rightarrow> nat \<Rightarrow> ProcNumber \<Rightarrow> bool \<Rightarrow> LOCK \<Rightarrow> lock_state \<Rightarrow> unit res \<times> lock_state" where
  "CleanUpLock G tag procno wakeupNeeded lock s =
    (let lock = (if hold_mask lock procno = 0 then drop_proclock procno lock else lock) in
     if nRequested lock = 0 then (Inr (), s \<lparr> lock_hash := (lock_hash s)(tag := None) \<rparr>)
     else if wakeupNeeded then
       (case ProcLockWakeup G lock (procs s) of
          Inl e \<Rightarrow> (Inl e, s \<lparr> lock_hash := (lock_hash s)(tag \<mapsto> lock) \<rparr>)
        | Inr (lock, ps) \<Rightarrow> (Inr (), s \<lparr> lock_hash := (lock_hash s)(tag \<mapsto> lock), procs := ps \<rparr>))
     else (Inr (), s \<lparr> lock_hash := (lock_hash s)(tag \<mapsto> lock) \<rparr>))"

subsection \<open>Queueing\<close>

datatype queue_place = Tail | Before ProcNumber | EarlyDeadlock | GrantedInstead

text \<open>Where a request goes: ahead of the first waiter that waits for locks the process or its group holds.\<close>

fun queue_scan ::
  "groups \<Rightarrow> (ProcNumber \<Rightarrow> PGPROC) \<Rightarrow> LOCK \<Rightarrow> ProcNumber \<Rightarrow> LOCKMODE \<Rightarrow> LOCKMASK \<Rightarrow> ProcNumber list \<Rightarrow> LOCKMASK
    \<Rightarrow> queue_place res" where
  "queue_scan G ps lock procno lockmode my_held [] ahead_requests = Inr Tail"
| "queue_scan G ps lock procno lockmode my_held (waiter # rest) ahead_requests =
    (if G procno \<noteq> None \<and> G procno = G waiter then queue_scan G ps lock procno lockmode my_held rest ahead_requests
     else
       let waiter_mode = waitLockMode (ps waiter) in
       if conflictTab waiter_mode AND my_held \<noteq> 0 then
         if conflictTab lockmode AND heldLocks (ps waiter) \<noteq> 0 then Inr EarlyDeadlock
         else
           bindR (if conflictTab lockmode AND ahead_requests = 0
                  then bindR (lock_check_conflicts_raw G lockmode lock procno) (\<lambda>c. Inr (\<not> c)) else Inr False) (\<lambda>free.
           if free then Inr GrantedInstead else Inr (Before waiter))
       else queue_scan G ps lock procno lockmode my_held rest (ahead_requests OR LOCKBIT_ON waiter_mode))"

fun insert_before :: "ProcNumber \<Rightarrow> ProcNumber \<Rightarrow> ProcNumber list \<Rightarrow> ProcNumber list" where
  "insert_before procno before [] = []"
| "insert_before procno before (q # qs) = (if q = before then procno # q # qs else q # insert_before procno before qs)"

definition group_held :: "groups \<Rightarrow> LOCK \<Rightarrow> ProcNumber \<Rightarrow> LOCKMASK" where
  "group_held G lock procno =
    (case G procno of
       None \<Rightarrow> hold_mask lock procno
     | Some leader \<Rightarrow>
         fold (\<lambda>other held. if groupLeader other = leader then held OR holdMask other else held) (procLocks lock)
           (hold_mask lock procno))"

definition JoinWaitQueue ::
  "groups \<Rightarrow> nat \<Rightarrow> ProcNumber \<Rightarrow> LOCKMODE \<Rightarrow> bool \<Rightarrow> LOCK \<Rightarrow> (ProcNumber \<Rightarrow> PGPROC)
    \<Rightarrow> (ProcWaitStatus \<times> LOCK \<times> (ProcNumber \<Rightarrow> PGPROC)) res" where
  "JoinWaitQueue G tag procno lockmode dontWait lock ps =
    (let my_proc_held = hold_mask lock procno;
         my_held = group_held G lock procno;
         ps = ps(procno := (ps procno) \<lparr> heldLocks := my_proc_held \<rparr>) in
     bindR (if my_held \<noteq> 0 \<and> waitProcs lock \<noteq> []
            then queue_scan G ps lock procno lockmode my_held (waitProcs lock) 0 else Inr Tail) (\<lambda>place.
     if place = GrantedInstead then Inr (PROC_WAIT_STATUS_OK, grant_lock_raw procno lockmode lock, ps)
     else if place = EarlyDeadlock \<or> dontWait then Inr (PROC_WAIT_STATUS_ERROR, lock, ps)
     else
       let lock = (case place of
                     Before w \<Rightarrow> lock \<lparr> waitProcs := insert_before procno w (waitProcs lock) \<rparr>
                   | _ \<Rightarrow> lock \<lparr> waitProcs := waitProcs lock @ [procno] \<rparr>);
           lock = lock \<lparr> waitMask := waitMask lock OR LOCKBIT_ON lockmode \<rparr>;
           ps = ps(procno := (ps procno) \<lparr> waitLock := Some tag, waitLockMode := lockmode,
                     waitStatus := PROC_WAIT_STATUS_WAITING \<rparr>)
       in Inr (PROC_WAIT_STATUS_WAITING, lock, ps)))"

definition SetWaitQueueOrder :: "ProcNumber list \<Rightarrow> LOCK \<Rightarrow> LOCK" where
  "SetWaitQueueOrder order lock = lock \<lparr> waitProcs := order \<rparr>"

subsection \<open>Acquiring and releasing\<close>

datatype acquire_result = NoMemory | Granted | Waiting | NotGranted

text \<open>
  The shared-memory part of \<^verbatim>\<open>LockAcquireExtended\<close>: set up the request, test for conflicts, grant or
  queue; a request that can neither be granted nor wait is taken back.
\<close>

definition undo_request :: "ProcNumber \<Rightarrow> LOCKMODE \<Rightarrow> LOCK \<Rightarrow> LOCK" where
  "undo_request procno lockmode lock =
    (let lock = (if hold_mask lock procno = 0 then drop_proclock procno lock else lock)
     in lock \<lparr> nRequested := nRequested lock - 1, requested := bump lockmode (- 1) (requested lock) \<rparr>)"

definition LockAcquireShared ::
  "bool \<Rightarrow> bool \<Rightarrow> groups \<Rightarrow> ProcNumber \<Rightarrow> nat \<Rightarrow> nat \<Rightarrow> LOCKMODE \<Rightarrow> bool \<Rightarrow> lock_state \<Rightarrow> acquire_result res \<times> lock_state" where
  "LockAcquireShared lock_room proclock_room G procno tag typ lockmode dontWait s =
    bindS (SetupLockInTable lock_room proclock_room G procno tag typ lockmode s) (\<lambda>found s.
      case found of
        None \<Rightarrow> (Inr NoMemory, s)
      | Some lock \<Rightarrow>
          bindS (if conflictTab lockmode AND waitMask lock \<noteq> 0 then (Inr True, s)
                 else (lock_check_conflicts_raw G lockmode lock procno, s)) (\<lambda>found_conflict s.
          if \<not> found_conflict
          then (Inr Granted, s \<lparr> lock_hash := (lock_hash s)(tag \<mapsto> grant_lock_raw procno lockmode lock) \<rparr>)
          else
            (case JoinWaitQueue G tag procno lockmode dontWait lock (procs s) of
               Inl e \<Rightarrow> (Inl e, s)
             | Inr (status, lock, ps) \<Rightarrow>
                 let s = s \<lparr> procs := ps \<rparr> in
                 (case status of
                    PROC_WAIT_STATUS_OK \<Rightarrow> (Inr Granted, s \<lparr> lock_hash := (lock_hash s)(tag \<mapsto> lock) \<rparr>)
                  | PROC_WAIT_STATUS_WAITING \<Rightarrow> (Inr Waiting, s \<lparr> lock_hash := (lock_hash s)(tag \<mapsto> lock) \<rparr>)
                  | PROC_WAIT_STATUS_ERROR \<Rightarrow>
                      (Inr NotGranted, s \<lparr> lock_hash := (lock_hash s)(tag \<mapsto> undo_request procno lockmode lock) \<rparr>)))))"

definition LockRefindAndRelease :: "groups \<Rightarrow> ProcNumber \<Rightarrow> nat \<Rightarrow> LOCKMODE \<Rightarrow> lock_state \<Rightarrow> unit res \<times> lock_state" where
  "LockRefindAndRelease G procno tag lockmode s =
    (case lock_hash s tag of
       None \<Rightarrow> (Inl Panic, s)
     | Some lock \<Rightarrow>
         (case find_proclock lock procno of
            None \<Rightarrow> (Inl Panic, s)
          | Some p \<Rightarrow>
              if holdMask p AND LOCKBIT_ON lockmode = 0 then (Inr (), s)
              else
                let (wakeup_needed, lock) = UnGrantLock lockmode procno lock
                in CleanUpLock G tag procno wakeup_needed lock s))"

definition RemoveFromWaitQueue :: "groups \<Rightarrow> ProcNumber \<Rightarrow> lock_state \<Rightarrow> unit res \<times> lock_state" where
  "RemoveFromWaitQueue G procno s =
    (case waitLock (procs s procno) of
       None \<Rightarrow> (Inl Panic, s)
     | Some tag \<Rightarrow>
         (case lock_hash s tag of
            None \<Rightarrow> (Inl Panic, s)
          | Some lock \<Rightarrow>
              let lockmode = waitLockMode (procs s procno);
                  lock = lock \<lparr> waitProcs := remove1 procno (waitProcs lock),
                                nRequested := nRequested lock - 1, requested := bump lockmode (- 1) (requested lock) \<rparr>;
                  lock = (if granted lock ! lockmode = requested lock ! lockmode
                          then lock \<lparr> waitMask := waitMask lock AND LOCKBIT_OFF lockmode \<rparr> else lock);
                  s = s \<lparr> procs := (procs s)(procno := (procs s procno) \<lparr> waitLock := None,
                            waitStatus := PROC_WAIT_STATUS_ERROR \<rparr>) \<rparr>
              in CleanUpLock G tag procno True lock s))"

end
