(* ===== verification/LockSpec.thy ===== *)
theory LockSpec
  imports LockTable
begin

unbundle bit_operations_syntax

section \<open>Correctness of the lock table\<close>

text \<open>
  The invariant of the lock table: the counters and masks of a lock object are what its holders and waiters make
  them; holders of conflicting modes belong to one lock group; and no waiter is left asleep that could run. Every operation keeps it, so
  it holds in every reachable state.
\<close>

subsection \<open>Masks\<close>

named_theorems mask_simps \<open>mask tests as single bits\<close>

lemma bit_LOCKBIT [simp]:
  "bit (LOCKBIT_ON i) n \<longleftrightarrow> n = i \<and> i < 32"
  "bit (LOCKBIT_OFF i) n \<longleftrightarrow> n \<noteq> i \<and> n < 32"
  by (auto simp: LOCKBIT_ON_def LOCKBIT_OFF_def bit_simps)

lemma bit_32: "bit (m :: LOCKMASK) n \<Longrightarrow> n < 32"
  using bit_imp_le_length [of m n] by simp

lemma and_nonzero: "(a :: LOCKMASK) AND b \<noteq> 0 \<longleftrightarrow> (\<exists>n. bit a n \<and> bit b n)"
proof
  show "\<exists>n. bit a n \<and> bit b n" if "a AND b \<noteq> 0"
  proof (rule ccontr)
    assume "\<not> (\<exists>n. bit a n \<and> bit b n)"
    then have "a AND b = 0"
      by (intro bit_word_eqI) (simp add: bit_and_iff)
    with that show False ..
  qed
  show "a AND b \<noteq> 0" if "\<exists>n. bit a n \<and> bit b n"
    using that by (metis bit_and_iff bit_0_eq bot_apply bot_bool_def)
qed

lemma and_bit [mask_simps]: "i < 32 \<Longrightarrow> m AND LOCKBIT_ON i = 0 \<longleftrightarrow> \<not> bit m i"
  using and_nonzero [of m "LOCKBIT_ON i"] by auto

definition modes :: "nat list" where "modes = [1 ..< MaxLockMode + 1]"

lemma modes_simps: "modes = [1, 2, 3, 4, 5, 6, 7, 8]" "set modes = {1 .. 8}" "distinct modes"
  by (auto simp: modes_def MaxLockMode_def AccessExclusiveLock_def upt_rec)

lemmas mode_defs = AccessShareLock_def RowShareLock_def RowExclusiveLock_def ShareUpdateExclusiveLock_def ShareLock_def
  ShareRowExclusiveLock_def ExclusiveLock_def AccessExclusiveLock_def

definition conflict :: "LOCKMODE \<Rightarrow> LOCKMODE \<Rightarrow> bool" where
  "conflict a b \<longleftrightarrow> bit (conflictTab a) b"

lemmas table_defs = conflict_def conflictTab_def LOCK_CONFLICTS_def mode_defs bit_or_iff

lemma conflict_sym: "a \<in> {1 .. 8} \<Longrightarrow> b \<in> {1 .. 8} \<Longrightarrow> conflict a b \<longleftrightarrow> conflict b a"
proof -
  have "\<forall>a \<in> set modes. \<forall>b \<in> set modes. conflict a b = conflict b a"
    unfolding modes_simps(1) by (simp add: table_defs)
  then show "a \<in> {1 .. 8} \<Longrightarrow> b \<in> {1 .. 8} \<Longrightarrow> ?thesis"
    by (simp add: modes_simps(2))
qed

lemma conflict_range: "a \<in> {1 .. 8} \<Longrightarrow> conflict a b \<Longrightarrow> b \<in> {1 .. 8}"
proof -
  have "\<forall>a \<in> set modes. conflict a b \<longrightarrow> b \<in> {1 .. 8}"
    unfolding modes_simps(1) by (auto simp: table_defs)
  then show "a \<in> {1 .. 8} \<Longrightarrow> conflict a b \<Longrightarrow> ?thesis"
    unfolding modes_simps(2) by blast
qed

lemma conflict_mask: "conflictTab a AND m \<noteq> 0 \<longleftrightarrow> (\<exists>b. conflict a b \<and> bit m b)" "conflictTab a AND m = 0 \<longleftrightarrow> \<not> (\<exists>b. conflict a b \<and> bit m b)"
  using and_nonzero [of "conflictTab a" m] by (auto simp: conflict_def)

subsection \<open>Holders\<close>

definition leader_of :: "groups \<Rightarrow> ProcNumber \<Rightarrow> ProcNumber" where
  "leader_of G p = (case G p of None \<Rightarrow> p | Some l \<Rightarrow> l)"

text \<open>A group's leader is a member of its group.\<close>

definition groups_ok :: "groups \<Rightarrow> bool" where
  "groups_ok G \<longleftrightarrow> (\<forall>p l. G p = Some l \<longrightarrow> G l = Some l)"

definition held_by :: "LOCKMODE \<Rightarrow> PROCLOCK list \<Rightarrow> nat" where
  "held_by m ps = length (filter (\<lambda>p. bit (holdMask p) m) ps)"

definition holders_ok :: "groups \<Rightarrow> LOCK \<Rightarrow> bool" where
  "holders_ok G L \<longleftrightarrow>
     distinct (map myProc (procLocks L))
     \<and> (\<forall>p \<in> set (procLocks L). groupLeader p = leader_of G (myProc p) \<and> (\<forall>m. bit (holdMask p) m \<longrightarrow> m \<in> {1 .. 8}))
     \<and> length (granted L) = MAX_LOCKMODES
     \<and> (\<forall>m < MAX_LOCKMODES. granted L ! m = int (held_by m (procLocks L)))
     \<and> (\<forall>m. bit (grantMask L) m \<longleftrightarrow> 0 < held_by m (procLocks L))
     \<and> nGranted L = sum_list (granted L)"

text \<open>
  What makes a request wait: a mode that conflicts with it is held by another process that is
  not of its group, or by any other process if the lock is a relation extension lock.
\<close>

definition blocker :: "groups \<Rightarrow> LOCK \<Rightarrow> ProcNumber \<Rightarrow> LOCKMODE \<Rightarrow> PROCLOCK \<Rightarrow> bool" where
  "blocker G L p m q \<longleftrightarrow> myProc q \<noteq> p
     \<and> (leader_of G (myProc q) \<noteq> leader_of G p \<or> locktag_type L = LOCKTAG_RELATION_EXTEND)
     \<and> (\<exists>b. conflict m b \<and> bit (holdMask q) b)"

definition conflicting :: "groups \<Rightarrow> LOCK \<Rightarrow> ProcNumber \<Rightarrow> LOCKMODE \<Rightarrow> bool" where
  "conflicting G L p m \<longleftrightarrow> (\<exists>q \<in> set (procLocks L). blocker G L p m q)"

lemma held_by_simps [simp]:
  "held_by m [] = 0" "held_by m (p # ps) = (if bit (holdMask p) m then 1 else 0) + held_by m ps"
  "held_by m (ps @ qs) = held_by m ps + held_by m qs"
  by (simp_all add: held_by_def)

lemma held_by_pos: "0 < held_by m ps \<longleftrightarrow> (\<exists>p \<in> set ps. bit (holdMask p) m)"
  by (induction ps) auto

lemma find_proclock_iff:
  assumes "distinct (map myProc (procLocks L))"
  shows "find_proclock L p = Some q \<longleftrightarrow> q \<in> set (procLocks L) \<and> myProc q = p"
proof -
  have "find (\<lambda>q. myProc q = p) xs = Some q \<longleftrightarrow> q \<in> set xs \<and> myProc q = p" if "distinct (map myProc xs)" for xs
    using that by (induction xs) auto
  then show ?thesis
    using assms by (simp add: find_proclock_def)
qed

lemma find_proclock_None: "find_proclock L p = None \<longleftrightarrow> p \<notin> myProc ` set (procLocks L)"
  by (auto simp: find_proclock_def find_None_iff)

lemma hold_mask_eq:
  assumes "distinct (map myProc (procLocks L))" and "q \<in> set (procLocks L)"
  shows "hold_mask L (myProc q) = holdMask q"
  using find_proclock_iff [OF assms(1), of "myProc q" q] assms(2) by (simp add: hold_mask_def)

text \<open>The holders of a mode other than oneself.\<close>

lemma held_by_others:
  assumes "distinct (map myProc ps)"
  shows "held_by m ps = held_by m (filter (\<lambda>q. myProc q \<noteq> p) ps)
    + (if \<exists>q \<in> set ps. myProc q = p \<and> bit (holdMask q) m then 1 else 0)"
  using assms
proof (induction ps)
  case (Cons q ps)
  show ?case
  proof (cases "myProc q = p")
    case True
    then have "p \<notin> myProc ` set ps"
      using Cons.prems by simp
    then have "\<forall>r \<in> set ps. myProc r \<noteq> p"
      by (metis image_eqI)
    moreover from this have "filter (\<lambda>q. myProc q \<noteq> p) ps = ps"
      by (simp add: filter_id_conv)
    ultimately show ?thesis
      using True by auto
  qed (use Cons in auto)
qed simp

subsection \<open>The conflict test\<close>

definition wanted :: "LOCKMASK \<Rightarrow> int list \<Rightarrow> int" where
  "wanted cm rem = (\<Sum>i \<leftarrow> filter (bit cm) modes. rem ! i)"

lemma conflict_counts_ok:
  assumes "distinct is" and "\<forall>i \<in> set is. i < 10" and "length rem = 10"
  shows "\<exists>rem'. conflict_counts cm mine gr is rem tot = (rem', tot + (\<Sum>i \<leftarrow> filter (bit cm) is. rem' ! i))
    \<and> length rem' = 10 \<and> (\<forall>i \<in> set is. bit cm i \<longrightarrow> rem' ! i = gr ! i - (if bit mine i then 1 else 0))
    \<and> (\<forall>i. i \<notin> set is \<longrightarrow> rem' ! i = rem ! i)"
  using assms
proof (induction "is" arbitrary: rem tot)
  case (Cons i "is")
  have i: "i < 32" "i < 10" "i \<notin> set is" using Cons.prems by auto
  show ?case
  proof (cases "bit cm i")
    case False
    with Cons.IH [of rem tot] Cons.prems i show ?thesis
      by (auto simp: mask_simps)
  next
    case True
    define c where "c = gr ! i - (if bit mine i then 1 else 0)"
    obtain rem' where rem': "conflict_counts cm mine gr is (rem[i := c]) (tot + c) = (rem', tot + c + (\<Sum>i \<leftarrow> filter (bit cm) is. rem' ! i))"
      "length rem' = 10" "\<forall>j \<in> set is. bit cm j \<longrightarrow> rem' ! j = gr ! j - (if bit mine j then 1 else 0)"
      "\<forall>j. j \<notin> set is \<longrightarrow> rem' ! j = rem[i := c] ! j"
      using Cons.IH [of "rem[i := c]" "tot + c"] Cons.prems by auto
    have "rem' ! i = c"
      using rem'(4) i Cons.prems by simp
    moreover have "conflict_counts cm mine gr (i # is) rem tot = conflict_counts cm mine gr is (rem[i := c]) (tot + c)"
      using True i by (simp add: mask_simps c_def Let_def)
    ultimately show ?thesis
      using rem' True i by (auto simp: c_def)
  qed
qed simp

lemma discount_modes_ok:
  assumes "distinct is" and "\<forall>i \<in> set is. i < 10" and "length rem = 10" and "\<forall>i \<in> set is. bit cm i \<longrightarrow> 0 < rem ! i"
  shows "\<exists>rem'. discount_modes cm is rem tot = Inr (rem', tot - int (length (filter (bit cm) is)))
    \<and> length rem' = 10 \<and> (\<forall>i \<in> set is. rem' ! i = rem ! i - (if bit cm i then 1 else 0))
    \<and> (\<forall>i. i \<notin> set is \<longrightarrow> rem' ! i = rem ! i)"
  using assms
proof (induction "is" arbitrary: rem tot)
  case (Cons i "is")
  have i: "i < 32" "i < 10" "i \<notin> set is" using Cons.prems by auto
  show ?case
  proof (cases "bit cm i")
    case False
    with Cons.IH [of rem tot] Cons.prems i show ?thesis
      by (auto simp: mask_simps)
  next
    case True
    have "\<forall>j \<in> set is. bit cm j \<longrightarrow> 0 < bump i (- 1) rem ! j"
      using Cons.prems i by (auto simp: bump_def nth_list_update)
    then obtain rem' where rem': "discount_modes cm is (bump i (- 1) rem) (tot - 1)
        = Inr (rem', tot - 1 - int (length (filter (bit cm) is)))"
      "length rem' = 10" "\<forall>j \<in> set is. rem' ! j = bump i (- 1) rem ! j - (if bit cm j then 1 else 0)"
      "\<forall>j. j \<notin> set is \<longrightarrow> rem' ! j = bump i (- 1) rem ! j"
      using Cons.IH [of "bump i (- 1) rem" "tot - 1"] Cons.prems by (auto simp: bump_def)
    have "discount_modes cm (i # is) rem tot = discount_modes cm is (bump i (- 1) rem) (tot - 1)"
      using True i Cons.prems(4) by (simp add: mask_simps)
    with rem' True i Cons.prems(3) show ?thesis
      by (auto simp: bump_def nth_list_update)
  qed
qed simp

lemma discount_group_ok:
  assumes "length rem = 10" and "tot = wanted cm rem" and "tot \<noteq> 0" and "\<forall>i. bit cm i \<longrightarrow> i \<in> {1 .. 8}"
    and "\<forall>i \<in> {1 .. 8}. bit cm i \<longrightarrow> rem ! i = int (held_by i (filter (\<lambda>q. myProc q \<noteq> p \<and> groupLeader q \<noteq> l) xs)
        + held_by i (filter (\<lambda>q. myProc q \<noteq> p) ys))"
  shows "discount_group cm p l ys rem tot
    = Inr (\<exists>q \<in> set (xs @ ys). myProc q \<noteq> p \<and> groupLeader q \<noteq> l \<and> holdMask q AND cm \<noteq> 0)"
  using assms
proof (induction ys arbitrary: xs rem tot)
  case Nil
  have "\<exists>i \<in> {1 .. 8}. bit cm i \<and> rem ! i \<noteq> 0"
  proof (rule ccontr)
    assume "\<not> ?thesis"
    then have "\<forall>i \<in> set (filter (bit cm) modes). rem ! i = 0"
      by (auto simp: modes_simps(2))
    then have "map ((!) rem) (filter (bit cm) modes) = map (\<lambda>_. 0) (filter (bit cm) modes)"
      by (intro map_cong) simp_all
    then have "wanted cm rem = 0"
      unfolding wanted_def by (simp only: sum_list_0)
    with Nil.prems show False by simp
  qed
  then obtain i where i: "i \<in> {1 .. 8}" "bit cm i" "rem ! i \<noteq> 0" by blast
  then have "0 < held_by i (filter (\<lambda>q. myProc q \<noteq> p \<and> groupLeader q \<noteq> l) xs)"
    using Nil.prems(5) by auto
  with i show ?case
    by (auto simp: held_by_pos and_nonzero)
next
  case (Cons q ys)
  let ?hit = "myProc q \<noteq> p \<and> groupLeader q = l \<and> holdMask q AND cm \<noteq> 0"
  show ?case
  proof (cases ?hit)
    case False
    have rem: "\<forall>i \<in> {1 .. 8}. bit cm i \<longrightarrow> rem ! i = int (held_by i (filter (\<lambda>q. myProc q \<noteq> p \<and> groupLeader q \<noteq> l) (xs @ [q]))
        + held_by i (filter (\<lambda>q. myProc q \<noteq> p) ys))"
      using Cons.prems(5) False by (auto simp: and_nonzero)
    have "discount_group cm p l (q # ys) rem tot = discount_group cm p l ys rem tot"
      using False by auto
    also have "\<dots> = Inr (\<exists>r \<in> set ((xs @ [q]) @ ys). myProc r \<noteq> p \<and> groupLeader r \<noteq> l \<and> holdMask r AND cm \<noteq> 0)"
      by (rule Cons.IH [OF Cons.prems(1-4) rem])
    finally show ?thesis by simp
  next
    case True
    let ?m = "holdMask q AND cm"
    have "\<forall>i \<in> set modes. bit ?m i \<longrightarrow> 0 < rem ! i"
      using Cons.prems(5) True by (auto simp: modes_simps(2) bit_and_iff)
    then obtain rem' where rem': "discount_modes ?m modes rem tot = Inr (rem', tot - int (length (filter (bit ?m) modes)))"
      "length rem' = 10" "\<forall>i \<in> set modes. rem' ! i = rem ! i - (if bit ?m i then 1 else 0)"
      using discount_modes_ok [of modes rem ?m tot] Cons.prems(1) by (auto simp: modes_simps(2,3))
    have sum: "wanted cm rem' = wanted cm rem - int (length (filter (bit ?m) modes))"
    proof -
      have "(\<Sum>i \<leftarrow> filter (bit cm) is. rem' ! i) = (\<Sum>i \<leftarrow> filter (bit cm) is. rem ! i) - int (length (filter (bit ?m) is))"
        if "set is \<subseteq> set modes" for "is"
        using that rem'(3) by (induction "is") (auto simp: bit_and_iff)
      then show ?thesis
        by (simp add: wanted_def)
    qed
    have rem2: "\<forall>i \<in> {1 .. 8}. bit cm i \<longrightarrow> rem' ! i = int (held_by i (filter (\<lambda>q. myProc q \<noteq> p \<and> groupLeader q \<noteq> l) (xs @ [q]))
        + held_by i (filter (\<lambda>q. myProc q \<noteq> p) ys))"
      using Cons.prems(5) rem'(3) True by (auto simp: modes_simps(2) bit_and_iff)
    have run: "discount_group cm p l (q # ys) rem tot =
        (if wanted cm rem' = 0 then Inr False else discount_group cm p l ys rem' (wanted cm rem'))"
      using True rem'(1) sum Cons.prems(2) by (simp add: modes_def)
    show ?thesis
    proof (cases "wanted cm rem' = 0")
      case False
      have "discount_group cm p l ys rem' (wanted cm rem')
          = Inr (\<exists>r \<in> set ((xs @ [q]) @ ys). myProc r \<noteq> p \<and> groupLeader r \<noteq> l \<and> holdMask r AND cm \<noteq> 0)"
        by (rule Cons.IH [OF rem'(2) refl False Cons.prems(4) rem2])
      with run False show ?thesis by simp
    next
      case zero: True
      have nonneg: "\<forall>i \<in> set (filter (bit cm) modes). 0 \<le> rem' ! i"
        using rem2 by (auto simp: modes_simps(2))
      then have "\<forall>i \<in> set (filter (bit cm) modes). rem' ! i = 0"
        using zero sum_list_nonneg_eq_0_iff [of "map ((!) rem') (filter (bit cm) modes)"] by (auto simp: wanted_def)
      then have z: "rem' ! i = 0" if "bit cm i" for i
        using Cons.prems(4) that by (auto simp: modes_simps(2))
      have "\<not> (\<exists>r \<in> set (xs @ q # ys). myProc r \<noteq> p \<and> groupLeader r \<noteq> l \<and> holdMask r AND cm \<noteq> 0)"
      proof
        assume "\<exists>r \<in> set (xs @ q # ys). myProc r \<noteq> p \<and> groupLeader r \<noteq> l \<and> holdMask r AND cm \<noteq> 0"
        then obtain r i where r: "r \<in> set (xs @ q # ys)" "myProc r \<noteq> p" "groupLeader r \<noteq> l" "bit (holdMask r) i" "bit cm i"
          by (auto simp: and_nonzero)
        then have "0 < held_by i (filter (\<lambda>q. myProc q \<noteq> p \<and> groupLeader q \<noteq> l) (xs @ [q]))
            + held_by i (filter (\<lambda>q. myProc q \<noteq> p) ys)"
          using True by (auto simp: held_by_pos)
        with z [OF r(5)] rem2 r(5) Cons.prems(4) show False
          by (auto simp del: held_by_simps filter_append)
      qed
      with run zero show ?thesis by auto
    qed
  qed
qed

lemma check_conflicts_ok:
  assumes ok: "holders_ok G L" and G: "groups_ok G" and m: "m \<in> {1 .. 8}" and p: "p \<in> myProc ` set (procLocks L)"
  shows "lock_check_conflicts_raw G m L p = Inr (conflicting G L p m)"
proof -
  let ?cm = "conflictTab m" and ?l = "leader_of G p"
  have H: "distinct (map myProc (procLocks L))"
    "\<And>q. q \<in> set (procLocks L) \<Longrightarrow> groupLeader q = leader_of G (myProc q)"
    "\<And>i. i < 10 \<Longrightarrow> granted L ! i = int (held_by i (procLocks L))" "\<And>i. bit (grantMask L) i \<longleftrightarrow> 0 < held_by i (procLocks L)"
    using ok by (auto simp: holders_ok_def MAX_LOCKMODES_def)
  obtain me where me: "me \<in> set (procLocks L)" "myProc me = p" using p by auto
  have hm: "hold_mask L p = holdMask me" "find_proclock L p = Some me"
    using hold_mask_eq [OF H(1) me(1)] find_proclock_iff [OF H(1)] me by auto
  have range: "\<forall>i. bit ?cm i \<longrightarrow> i \<in> {1 .. 8}"
    using conflict_range [OF m] by (simp add: conflict_def)
  let ?others = "filter (\<lambda>q. myProc q \<noteq> p) (procLocks L)"
  have mine: "(\<exists>q \<in> set (procLocks L). myProc q = p \<and> bit (holdMask q) i) \<longleftrightarrow> bit (holdMask me) i" for i
    using me find_proclock_iff [OF H(1), of p] hm(2) by (metis option.inject)
  obtain rem where rem: "conflict_counts ?cm (holdMask me) (granted L) modes (replicate 10 0) 0 = (rem, wanted ?cm rem)"
    "length rem = 10" "\<And>i. i \<in> {1 .. 8} \<Longrightarrow> bit ?cm i \<Longrightarrow> rem ! i = granted L ! i - (if bit (holdMask me) i then 1 else 0)"
    using conflict_counts_ok [of modes "replicate 10 0" ?cm "holdMask me" "granted L" 0]
    by (auto simp: modes_simps(2,3) wanted_def)
  have others: "rem ! i = int (held_by i ?others)" if "i \<in> {1 .. 8}" "bit ?cm i" for i
    using rem(3) [OF that] H(3) [of i] held_by_others [OF H(1), of i p] mine [of i] that(1) by auto
  have none: "wanted ?cm rem = 0 \<longleftrightarrow> \<not> (\<exists>q \<in> set ?others. holdMask q AND ?cm \<noteq> 0)"
  proof -
    have "wanted ?cm rem = 0 \<longleftrightarrow> (\<forall>i \<in> set (filter (bit ?cm) modes). rem ! i = 0)"
      unfolding wanted_def using others
      by (subst sum_list_nonneg_eq_0_iff) (auto simp: modes_simps(2))
    also have "\<dots> \<longleftrightarrow> (\<forall>i. bit ?cm i \<longrightarrow> held_by i ?others = 0)"
      using others range by (auto simp: modes_simps(2))
    also have "\<dots> \<longleftrightarrow> (\<forall>i. bit ?cm i \<longrightarrow> \<not> (\<exists>q \<in> set ?others. bit (holdMask q) i))"
      by (simp only: held_by_pos [symmetric] not_gr_zero)
    finally show ?thesis
      by (auto simp: and_nonzero)
  qed
  have run: "lock_check_conflicts_raw G m L p =
      (if ?cm AND grantMask L = 0 then Inr False
       else if wanted ?cm rem = 0 then Inr False
       else if ?l = p \<and> G p = None then Inr True
       else if locktag_type L = LOCKTAG_RELATION_EXTEND then Inr True
       else discount_group ?cm p ?l (procLocks L) rem (wanted ?cm rem))"
    unfolding lock_check_conflicts_raw_def Let_def modes_def [symmetric] MAX_LOCKMODES_def hm rem(1)
    using H(2) [OF me(1)] me(2) by simp
  have block: "conflicting G L p m \<longleftrightarrow> (\<exists>q \<in> set ?others. (groupLeader q \<noteq> ?l \<or> locktag_type L = LOCKTAG_RELATION_EXTEND)
      \<and> holdMask q AND ?cm \<noteq> 0)"
    using H(2) by (auto simp: conflicting_def blocker_def and_nonzero conflict_def)
  consider (free) "?cm AND grantMask L = 0" | (alone) "wanted ?cm rem = 0" | (single) "wanted ?cm rem \<noteq> 0" "?cm AND grantMask L \<noteq> 0" "?l = p \<and> G p = None"
    | (extend) "wanted ?cm rem \<noteq> 0" "?cm AND grantMask L \<noteq> 0" "\<not> (?l = p \<and> G p = None)" "locktag_type L = LOCKTAG_RELATION_EXTEND"
    | (group) "wanted ?cm rem \<noteq> 0" "?cm AND grantMask L \<noteq> 0" "\<not> (?l = p \<and> G p = None)" "locktag_type L \<noteq> LOCKTAG_RELATION_EXTEND"
    by blast
  then show ?thesis
  proof cases
    case free
    have "\<not> (\<exists>q \<in> set ?others. holdMask q AND ?cm \<noteq> 0)"
    proof
      assume "\<exists>q \<in> set ?others. holdMask q AND ?cm \<noteq> 0"
      then obtain q i where "q \<in> set (procLocks L)" "bit (holdMask q) i" "bit ?cm i"
        by (auto simp: and_nonzero)
      then have "?cm AND grantMask L \<noteq> 0"
        using H(4) [of i] by (auto simp: and_nonzero held_by_pos)
      with free show False by contradiction
    qed
    with free run block show ?thesis by auto
  next
    case alone
    with none run block show ?thesis by auto
  next
    case single
    have "groupLeader q \<noteq> ?l" if "q \<in> set ?others" for q
    proof
      assume eq: "groupLeader q = ?l"
      have q: "leader_of G (myProc q) = p" "myProc q \<noteq> p"
        using that eq H(2) [of q] single(3) by auto
      then have "G (myProc q) = Some p"
        by (auto simp: leader_of_def split: option.splits)
      then have "G p = Some p"
        using G by (simp add: groups_ok_def)
      with single(3) show False by simp
    qed
    with single none run block show ?thesis by auto
  next
    case extend
    with none run block show ?thesis by auto
  next
    case group
    have "discount_group ?cm p ?l (procLocks L) rem (wanted ?cm rem)
        = Inr (\<exists>q \<in> set ([] @ procLocks L). myProc q \<noteq> p \<and> groupLeader q \<noteq> ?l \<and> holdMask q AND ?cm \<noteq> 0)"
      by (rule discount_group_ok [OF rem(2) refl group(1) range]) (use others in simp)
    with group run block show ?thesis by auto
  qed
qed

subsection \<open>The invariant of a lock object\<close>

definition waiting :: "LOCKMODE \<Rightarrow> LOCK \<Rightarrow> (ProcNumber \<Rightarrow> PGPROC) \<Rightarrow> nat" where
  "waiting m L ps = length (filter (\<lambda>w. waitLockMode (ps w) = m) (waitProcs L))"

text \<open>
  Between the counting of a request and its outcome one request is pending: \<open>pend\<close>. It is counted as requested, and neither granted
  nor waiting; the wait mask may still show its mode.
\<close>

type_synonym pending = "(ProcNumber \<times> LOCKMODE) option"

definition pends :: "pending \<Rightarrow> LOCKMODE \<Rightarrow> int" where
  "pends pend m = (case pend of Some (_, m') \<Rightarrow> if m' = m then 1 else 0 | None \<Rightarrow> 0)"

definition counts_ok :: "LOCK \<Rightarrow> (ProcNumber \<Rightarrow> PGPROC) \<Rightarrow> pending \<Rightarrow> bool" where
  "counts_ok L ps pend \<longleftrightarrow> length (requested L) = MAX_LOCKMODES \<and> nRequested L = sum_list (requested L)
     \<and> (\<forall>m < MAX_LOCKMODES. requested L ! m = granted L ! m + int (waiting m L ps) + pends pend m)
     \<and> (\<forall>m. 0 < waiting m L ps \<longrightarrow> bit (waitMask L) m) \<and> (\<forall>m. bit (waitMask L) m \<longrightarrow> pends pend m = 0 \<longrightarrow> 0 < waiting m L ps)"

definition queue_ok :: "nat \<Rightarrow> LOCK \<Rightarrow> (ProcNumber \<Rightarrow> PGPROC) \<Rightarrow> bool" where
  "queue_ok tag L ps \<longleftrightarrow> distinct (waitProcs L)
     \<and> (\<forall>w \<in> set (waitProcs L). w \<in> myProc ` set (procLocks L) \<and> waitLock (ps w) = Some tag
          \<and> waitLockMode (ps w) \<in> {1 .. 8} \<and> \<not> bit (hold_mask L w) (waitLockMode (ps w)))"

definition pending_ok :: "LOCK \<Rightarrow> pending \<Rightarrow> bool" where
  "pending_ok L pend \<longleftrightarrow> (\<forall>p m. pend = Some (p, m) \<longrightarrow>
     p \<in> myProc ` set (procLocks L) \<and> p \<notin> set (waitProcs L) \<and> m \<in> {1 .. 8} \<and> \<not> bit (hold_mask L p) m)"

definition compatible :: "groups \<Rightarrow> LOCK \<Rightarrow> bool" where
  "compatible G L \<longleftrightarrow> (\<forall>q \<in> set (procLocks L). \<forall>m. bit (holdMask q) m \<longrightarrow> \<not> conflicting G L (myProc q) m)"

definition lock_inv :: "groups \<Rightarrow> nat \<Rightarrow> LOCK \<Rightarrow> (ProcNumber \<Rightarrow> PGPROC) \<Rightarrow> pending \<Rightarrow> bool" where
  "lock_inv G tag L ps pend \<longleftrightarrow> holders_ok G L \<and> counts_ok L ps pend \<and> queue_ok tag L ps \<and> pending_ok L pend \<and> compatible G L"

text \<open>No holder entry without a hold or a wait.\<close>

definition tidy :: "LOCK \<Rightarrow> pending \<Rightarrow> bool" where
  "tidy L pend \<longleftrightarrow> (\<forall>q \<in> set (procLocks L). holdMask q \<noteq> 0 \<or> myProc q \<in> set (waitProcs L) \<or> (\<exists>m. pend = Some (myProc q, m)))"

text \<open>Why a waiter waits: a request ahead of it in the queue, or a holder.\<close>

definition waits :: "groups \<Rightarrow> LOCK \<Rightarrow> (ProcNumber \<Rightarrow> PGPROC) \<Rightarrow> ProcNumber list \<Rightarrow> ProcNumber \<Rightarrow> bool" where
  "waits G L ps ahead w \<longleftrightarrow> (\<exists>v \<in> set ahead. conflict (waitLockMode (ps w)) (waitLockMode (ps v)))
     \<or> conflicting G L w (waitLockMode (ps w))"

definition all_wait :: "groups \<Rightarrow> LOCK \<Rightarrow> (ProcNumber \<Rightarrow> PGPROC) \<Rightarrow> ProcNumber list \<Rightarrow> bool" where
  "all_wait G L ps q \<longleftrightarrow> (\<forall>xs w ys. q = xs @ w # ys \<longrightarrow> waits G L ps xs w)"

lemma all_wait_snoc: "all_wait G L ps q \<Longrightarrow> waits G L ps q w \<Longrightarrow> all_wait G L ps (q @ [w])"
  unfolding all_wait_def
proof (intro allI impI)
  fix xs v ys assume a: "\<forall>xs w ys. q = xs @ w # ys \<longrightarrow> waits G L ps xs w" "waits G L ps q w" and e: "q @ [w] = xs @ v # ys"
  show "waits G L ps xs v"
  proof (cases ys rule: rev_cases)
    case Nil
    with e a(2) show ?thesis by simp
  next
    case (snoc zs z)
    with e have "q = xs @ v # zs" by simp
    with a(1) show ?thesis by blast
  qed
qed

lemma all_wait_Nil [simp]: "all_wait G L ps []"
  by (simp add: all_wait_def)

lemma all_wait_mono:
  assumes "all_wait G L ps q" and "\<And>w. w \<in> set q \<Longrightarrow> conflicting G L w (waitLockMode (ps w)) \<Longrightarrow> conflicting G L' w (waitLockMode (ps w))"
    and "\<And>w. w \<in> set q \<Longrightarrow> waitLockMode (ps' w) = waitLockMode (ps w)"
  shows "all_wait G L' ps' q"
  unfolding all_wait_def
proof (intro allI impI)
  fix xs w ys assume q: "q = xs @ w # ys"
  then have "waits G L ps xs w"
    using assms(1) by (simp add: all_wait_def)
  with q assms(2,3) show "waits G L' ps' xs w"
    by (auto simp: waits_def)
qed

text \<open>Only the queue, and of the processes only the waiting ones, matter.\<close>

lemma inv_procs:
  assumes "lock_inv G tag L ps pend" and "\<And>w. w \<in> set (waitProcs L) \<Longrightarrow> ps' w = ps w"
  shows "lock_inv G tag L ps' pend"
proof -
  have "waiting m L ps' = waiting m L ps" for m
    unfolding waiting_def by (rule arg_cong [where f = length], rule filter_cong) (simp_all add: assms(2))
  with assms show ?thesis
    by (simp add: lock_inv_def counts_ok_def queue_ok_def)
qed

subsection \<open>Holds that change\<close>

lemma set_hold_simps [simp]:
  "map myProc (procLocks (set_hold p f L)) = map myProc (procLocks L)"
  "waitProcs (set_hold p f L) = waitProcs L" "requested (set_hold p f L) = requested L" "granted (set_hold p f L) = granted L"
  "nRequested (set_hold p f L) = nRequested L" "nGranted (set_hold p f L) = nGranted L"
  "grantMask (set_hold p f L) = grantMask L" "waitMask (set_hold p f L) = waitMask L" "locktag_type (set_hold p f L) = locktag_type L"
  by (auto simp: set_hold_def)

lemma set_hold_procs: "myProc ` set (procLocks (set_hold p f L)) = myProc ` set (procLocks L)"
  by (metis set_hold_simps(1) list.set_map)

lemma set_hold_set:
  "set (procLocks (set_hold p f L)) = (\<lambda>q. if myProc q = p then q \<lparr> holdMask := f (holdMask q) \<rparr> else q) ` set (procLocks L)"
  by (simp add: set_hold_def)

lemma set_hold_mask:
  assumes "distinct (map myProc (procLocks L))"
  shows "hold_mask (set_hold p f L) q = (if q = p \<and> p \<in> myProc ` set (procLocks L) then f (hold_mask L p) else hold_mask L q)"
proof -
  have "find (\<lambda>r. myProc r = q) (map (\<lambda>r. if myProc r = p then r \<lparr> holdMask := f (holdMask r) \<rparr> else r) xs)
      = map_option (\<lambda>r. if myProc r = p then r \<lparr> holdMask := f (holdMask r) \<rparr> else r) (find (\<lambda>r. myProc r = q) xs)" for xs
    by (induction xs) auto
  then have "find_proclock (set_hold p f L) q
      = map_option (\<lambda>r. if myProc r = p then r \<lparr> holdMask := f (holdMask r) \<rparr> else r) (find_proclock L q)"
    by (simp add: find_proclock_def set_hold_def)
  note f = this
  show ?thesis
  proof (cases "find_proclock L q")
    case None
    then have "q \<notin> myProc ` set (procLocks L)"
      using find_proclock_None [of L q] by simp
    with None f show ?thesis by (auto simp: hold_mask_def)
  next
    case (Some r)
    then have "r \<in> set (procLocks L)" "myProc r = q"
      using find_proclock_iff [OF assms, of q r] by simp_all
    with Some f show ?thesis by (auto simp: hold_mask_def)
  qed
qed

lemma held_by_set_hold:
  assumes "distinct (map myProc (procLocks L))" and "p \<in> myProc ` set (procLocks L)"
  shows "int (held_by m (procLocks (set_hold p f L))) = int (held_by m (procLocks L))
    + (if bit (f (hold_mask L p)) m then 1 else 0) - (if bit (hold_mask L p) m then 1 else 0)"
proof -
  have "int (held_by m (map (\<lambda>r. if myProc r = p then r \<lparr> holdMask := f (holdMask r) \<rparr> else r) xs))
      = int (held_by m xs) + (if bit (f (holdMask q)) m then 1 else 0) - (if bit (holdMask q) m then 1 else 0)"
    if "distinct (map myProc xs)" "q \<in> set xs" "myProc q = p" for xs q
    using that
  proof (induction xs)
    case (Cons r xs)
    show ?case
    proof (cases "r = q")
      case True
      then have "p \<notin> myProc ` set xs"
        using Cons.prems by auto
      then have "map (\<lambda>r. if myProc r = p then r \<lparr> holdMask := f (holdMask r) \<rparr> else r) xs = xs"
        by (intro map_idI) (metis image_eqI)
      with True Cons.prems(3) show ?thesis by simp
    next
      case False
      then have "q \<in> set xs" using Cons.prems by simp
      then have "myProc r \<noteq> p"
        using Cons.prems(1,3) by (metis distinct.simps(2) image_eqI list.set_map list.simps(9))
      with False Cons \<open>q \<in> set xs\<close> show ?thesis by simp
    qed
  qed simp
  note upd = this
  obtain q where q: "q \<in> set (procLocks L)" "myProc q = p"
    using assms(2) by auto
  then have "hold_mask L p = holdMask q"
    using hold_mask_eq [OF assms(1) q(1)] by simp
  with upd [OF assms(1) q] show ?thesis
    by (simp add: set_hold_def)
qed

text \<open>The group and the type of a lock do not change, so conflicts depend on holds alone.\<close>

lemma conflicting_holds:
  assumes "distinct (map myProc (procLocks L))"
  shows "conflicting G L p m \<longleftrightarrow> (\<exists>q \<in> myProc ` set (procLocks L). q \<noteq> p
    \<and> (leader_of G q \<noteq> leader_of G p \<or> locktag_type L = LOCKTAG_RELATION_EXTEND) \<and> (\<exists>b. conflict m b \<and> bit (hold_mask L q) b))"
  using hold_mask_eq [OF assms] by (auto simp: conflicting_def blocker_def)

lemma compatible_holds:
  assumes "distinct (map myProc (procLocks L))"
  shows "compatible G L \<longleftrightarrow> (\<forall>q \<in> myProc ` set (procLocks L). \<forall>m. bit (hold_mask L q) m \<longrightarrow> \<not> conflicting G L q m)"
  using hold_mask_eq [OF assms] by (auto simp: compatible_def)

lemma holders_distinct: "holders_ok G L \<Longrightarrow> distinct (map myProc (procLocks L))"
  by (simp add: holders_ok_def)

lemma hold_range:
  assumes "holders_ok G L" and "bit (hold_mask L q) m"
  shows "m \<in> {1 .. 8}" "q \<in> myProc ` set (procLocks L)"
proof -
  have "find_proclock L q \<noteq> None"
    using assms(2) by (auto simp: hold_mask_def split: option.splits)
  then show q: "q \<in> myProc ` set (procLocks L)"
    by (simp add: find_proclock_None)
  then obtain r where r: "r \<in> set (procLocks L)" "q = myProc r" by blast
  then have "bit (holdMask r) m"
    using assms(2) hold_mask_eq [OF holders_distinct [OF assms(1)] r(1)] by simp
  with r(1) assms(1) show "m \<in> {1 .. 8}"
    unfolding holders_ok_def by blast
qed

lemma bump_simps [simp]:
  "length (bump m d xs) = length xs" "m < length xs \<Longrightarrow> bump m d xs ! i = (if i = m then xs ! m + d else xs ! i)"
  "m < length xs \<Longrightarrow> sum_list (bump m d xs) = sum_list xs + d"
proof -
  show "m < length xs \<Longrightarrow> sum_list (bump m d xs) = sum_list xs + d"
    unfolding bump_def by (induction xs arbitrary: m) (auto split: nat.splits)
qed (auto simp: bump_def nth_list_update)

lemma waiting_cong: "waitProcs L' = waitProcs L \<Longrightarrow> waiting m L' ps = waiting m L ps"
  by (simp add: waiting_def)

text \<open>A change of the holds of one process that keeps the counters right.\<close>

lemma holders_change:
  assumes ok: "holders_ok G L" and p: "p \<in> myProc ` set (procLocks L)" and m: "m \<in> {1 .. 8}"
    and L': "procLocks L' = procLocks (set_hold p f L)" "granted L' = bump m d (granted L)" "nGranted L' = nGranted L + d"
    and f: "\<And>x. bit (f (hold_mask L p)) x \<longleftrightarrow> (if x = m then b else bit (hold_mask L p) x)"
    and d: "d = (if b then 1 else 0) - (if bit (hold_mask L p) m then 1 else 0)"
    and gm: "\<And>x. bit (grantMask L') x \<longleftrightarrow> (if x = m then 0 < granted L ! m + d else bit (grantMask L) x)"
  shows "holders_ok G L'"
proof -
  have H: "distinct (map myProc (procLocks L))" "length (granted L) = 10"
    "\<And>i. i < 10 \<Longrightarrow> granted L ! i = int (held_by i (procLocks L))" "\<And>i. bit (grantMask L) i \<longleftrightarrow> 0 < held_by i (procLocks L)"
    "nGranted L = sum_list (granted L)"
    using ok by (auto simp: holders_ok_def MAX_LOCKMODES_def)
  have held: "int (held_by x (procLocks L')) = int (held_by x (procLocks L)) + (if x = m then d else 0)" for x
    using held_by_set_hold [OF H(1) p, of x f] L'(1) f [of x] d by (auto split: if_splits)
  have pl: "groupLeader q = leader_of G (myProc q) \<and> (\<forall>x. bit (holdMask q) x \<longrightarrow> x \<in> {1 .. 8})"
    if "q \<in> set (procLocks L')" for q
  proof -
    from that obtain r where r: "r \<in> set (procLocks L)" "q = (if myProc r = p then r \<lparr> holdMask := f (holdMask r) \<rparr> else r)"
      using L'(1) by (auto simp: set_hold_set)
    have "bit (f (holdMask r)) x \<longleftrightarrow> (if x = m then b else bit (holdMask r) x)" if "myProc r = p" for x
      using f [of x] hold_mask_eq [OF H(1) r(1)] that by simp
    with r ok m show ?thesis
      by (auto simp: holders_ok_def split: if_splits)
  qed
  have len: "m < length (granted L)" using m H(2) by simp
  have gr: "granted L' ! x = int (held_by x (procLocks L'))" if "x < 10" for x
    using H(3) [OF that] held [of x] L'(2) len by (auto simp: H(3))
  have bits: "bit (grantMask L') x \<longleftrightarrow> 0 < held_by x (procLocks L')" for x
    using gm [of x] H(4) [of x] held [of x] H(3) [of m] m by (auto split: if_splits)
  have "distinct (map myProc (procLocks L'))" "length (granted L') = MAX_LOCKMODES" "nGranted L' = sum_list (granted L')"
    using H(1,2,5) L' len by (simp_all add: MAX_LOCKMODES_def)
  with pl gr bits show ?thesis
    by (simp add: holders_ok_def MAX_LOCKMODES_def)
qed

subsection \<open>Granting\<close>

lemma grant_fields [simp]:
  "waitProcs (grant_lock_raw p m L) = waitProcs L" "requested (grant_lock_raw p m L) = requested L"
  "nRequested (grant_lock_raw p m L) = nRequested L" "locktag_type (grant_lock_raw p m L) = locktag_type L"
  "granted (grant_lock_raw p m L) = bump m 1 (granted L)" "nGranted (grant_lock_raw p m L) = nGranted L + 1"
  "grantMask (grant_lock_raw p m L) = grantMask L OR LOCKBIT_ON m"
  "procLocks (grant_lock_raw p m L) = procLocks (set_hold p (\<lambda>h. h OR LOCKBIT_ON m) L)"
  "waitMask (grant_lock_raw p m L) = (if bump m 1 (granted L) ! m = requested L ! m then waitMask L AND LOCKBIT_OFF m else waitMask L)"
  by (simp_all add: grant_lock_raw_def Let_def) (simp_all add: set_hold_def)

lemma hold_mask_cong: "procLocks L = procLocks L' \<Longrightarrow> hold_mask L q = hold_mask L' q"
  by (simp add: hold_mask_def find_proclock_def)

lemma grant_hold:
  assumes "holders_ok G L" and "p \<in> myProc ` set (procLocks L)"
  shows "hold_mask (grant_lock_raw p m L) q = (if q = p then hold_mask L p OR LOCKBIT_ON m else hold_mask L q)"
  using set_hold_mask [OF holders_distinct [OF assms(1)], of p _ q] assms(2)
  by (simp add: hold_mask_cong [OF grant_fields(8)])

lemma grant_procs: "myProc ` set (procLocks (grant_lock_raw p m L)) = myProc ` set (procLocks L)"
  by (simp add: set_hold_procs)

lemma grant_mono:
  assumes "holders_ok G L" and "p \<in> myProc ` set (procLocks L)" and "conflicting G L w x"
  shows "conflicting G (grant_lock_raw p m L) w x"
proof -
  have "distinct (map myProc (procLocks (grant_lock_raw p m L)))"
    using holders_distinct [OF assms(1)] by simp
  then show ?thesis
    using assms(3) grant_hold [OF assms(1,2)]
    unfolding conflicting_holds [OF holders_distinct [OF assms(1)]] by (subst conflicting_holds) (auto simp: grant_procs bit_or_iff simp del: grant_fields(8))
qed

lemma grant_compatible:
  assumes ok: "holders_ok G L" and p: "p \<in> myProc ` set (procLocks L)" and m: "m \<in> {1 .. 8}"
    and c: "compatible G L" and free: "\<not> conflicting G L p m"
  shows "compatible G (grant_lock_raw p m L)"
proof -
  let ?L = "grant_lock_raw p m L"
  note d = holders_distinct [OF ok]
  have d': "distinct (map myProc (procLocks ?L))" using d by simp
  have holds: "bit (hold_mask ?L q) x \<longleftrightarrow> bit (hold_mask L q) x \<or> q = p \<and> x = m" for q x
    using m by (auto simp: grant_hold [OF ok p] bit_or_iff)
  have old: "\<not> conflicting G L q x" if "bit (hold_mask L q) x" for q x
    using bspec [OF c [unfolded compatible_holds [OF d]] hold_range(2) [OF ok that]] that by simp
  have "\<not> conflicting G ?L q x" if b: "bit (hold_mask ?L q) x" for q x
  proof
    assume "conflicting G ?L q x"
    then obtain r y where r: "r \<in> myProc ` set (procLocks L)" "r \<noteq> q" "leader_of G r \<noteq> leader_of G q \<or> locktag_type L = LOCKTAG_RELATION_EXTEND"
      "conflict x y" "bit (hold_mask ?L r) y"
      unfolding conflicting_holds [OF d'] grant_procs grant_fields(4) by blast
    have x: "x \<in> {1 .. 8}" using b hold_range(1) [OF ok, of q x] m holds [of q x] by blast
    show False
    proof (cases "bit (hold_mask L r) y")
      case True
      then have c1: "conflicting G L q x"
        unfolding conflicting_holds [OF d] using r by blast
      show False
      proof (cases "bit (hold_mask L q) x")
        case True
        with old c1 show False by blast
      next
        case False
        with b holds c1 free show False by blast
      qed
    next
      case False
      then have e: "r = p" "y = m" using r(5) holds by auto
      then have "bit (hold_mask L q) x" using b holds r(2) by auto
      moreover have "conflict m x" using conflict_sym [OF x m] r(4) e by simp
      moreover have "q \<noteq> p" "leader_of G q \<noteq> leader_of G p \<or> locktag_type L = LOCKTAG_RELATION_EXTEND"
        using r(2,3) e by auto
      ultimately have "conflicting G L p m"
        unfolding conflicting_holds [OF d] using hold_range(2) [OF ok, of q x] by blast
      with free show False ..
    qed
  qed
  then show ?thesis
    by (simp add: compatible_holds [OF d'] del: grant_fields(8))
qed

lemma grant_inv:
  assumes inv: "lock_inv G tag L ps (Some (p, m))" and free: "\<not> conflicting G L p m"
  shows "lock_inv G tag (grant_lock_raw p m L) ps None"
proof -
  let ?L = "grant_lock_raw p m L"
  have ok: "holders_ok G L" and cnt: "counts_ok L ps (Some (p, m))" and qu: "queue_ok tag L ps"
    and pe: "p \<in> myProc ` set (procLocks L)" "p \<notin> set (waitProcs L)" "m \<in> {1 .. 8}" "\<not> bit (hold_mask L p) m" and c: "compatible G L"
    using inv by (auto simp: lock_inv_def pending_ok_def)
  have len: "length (granted L) = 10" and pos: "0 \<le> granted L ! m"
    using ok pe(3) by (auto simp: holders_ok_def MAX_LOCKMODES_def)
  have "holders_ok G ?L"
    by (rule holders_change [OF ok pe(1,3), where f = "\<lambda>h. h OR LOCKBIT_ON m" and d = 1 and b = True])
      (use pe(3,4) pos in \<open>auto simp: bit_or_iff\<close>)
  moreover have "counts_ok ?L ps None"
  proof -
    have r: "requested L ! m = granted L ! m + int (waiting m L ps) + 1"
      using cnt pe(3) by (simp add: counts_ok_def pends_def MAX_LOCKMODES_def)
    have w: "waiting x ?L ps = waiting x L ps" for x by (rule waiting_cong) simp
    have b: "bit (waitMask ?L) x \<longleftrightarrow> 0 < waiting x L ps" for x
    proof (cases "x = m")
      case True
      then show ?thesis using r len pe(3) cnt bit_32 [of "waitMask L" m] by (auto simp: counts_ok_def bit_and_iff)
    next
      case False
      then show ?thesis using cnt bit_32 [of "waitMask L" x] by (auto simp: counts_ok_def pends_def bit_and_iff)
    qed
    have "requested ?L ! x = granted ?L ! x + int (waiting x ?L ps)" if "x < 10" for x
      using cnt that len pe(3) unfolding w by (auto simp: counts_ok_def pends_def MAX_LOCKMODES_def)
    with cnt b show ?thesis
      by (simp add: counts_ok_def w pends_def MAX_LOCKMODES_def del: grant_fields(5,9))
  qed
  moreover have "queue_ok tag ?L ps"
  proof -
    have "hold_mask ?L w = hold_mask L w" if "w \<in> set (waitProcs L)" for w
      using that pe(2) by (auto simp: grant_hold [OF ok pe(1)])
    with qu show ?thesis
      by (simp add: queue_ok_def grant_procs del: grant_fields(8))
  qed
  ultimately show ?thesis
    using grant_compatible [OF ok pe(1,3) c free] by (simp add: lock_inv_def pending_ok_def)
qed

subsection \<open>Releasing\<close>

text \<open>Conflicts and compatibility as a matter of holds alone.\<close>

lemma conflicting_iff:
  assumes "holders_ok G L"
  shows "conflicting G L p m \<longleftrightarrow> (\<exists>q b. q \<noteq> p \<and> (leader_of G q \<noteq> leader_of G p \<or> locktag_type L = LOCKTAG_RELATION_EXTEND)
    \<and> conflict m b \<and> bit (hold_mask L q) b)"
  unfolding conflicting_holds [OF holders_distinct [OF assms]]
  by (metis hold_range(2) [OF assms])

lemma compatible_iff:
  assumes "holders_ok G L"
  shows "compatible G L \<longleftrightarrow> (\<forall>q m. bit (hold_mask L q) m \<longrightarrow> \<not> conflicting G L q m)"
  unfolding compatible_holds [OF holders_distinct [OF assms]]
  by (metis hold_range(2) [OF assms])

lemma fewer_holds:
  assumes "holders_ok G L" "holders_ok G L'" "locktag_type L' = locktag_type L"
    and le: "\<And>q x. bit (hold_mask L' q) x \<Longrightarrow> bit (hold_mask L q) x"
  shows "conflicting G L' p m \<Longrightarrow> conflicting G L p m" "compatible G L \<Longrightarrow> compatible G L'"
proof -
  show c: "conflicting G L p m" if "conflicting G L' p m" for p m
    using that le assms(3) unfolding conflicting_iff [OF assms(1)] conflicting_iff [OF assms(2)] by metis
  show "compatible G L'" if "compatible G L"
    using that le c unfolding compatible_iff [OF assms(1)] compatible_iff [OF assms(2)] by metis
qed

lemma same_holds:
  assumes "holders_ok G L" "holders_ok G L'" "locktag_type L' = locktag_type L" "\<And>q. hold_mask L' q = hold_mask L q"
  shows "conflicting G L' p m \<longleftrightarrow> conflicting G L p m" "compatible G L' \<longleftrightarrow> compatible G L"
  using fewer_holds [OF assms(1-3)] fewer_holds [OF assms(2,1) assms(3) [symmetric]] assms(4) by auto

lemma ungrant_fields:
  assumes "UnGrantLock m p L = (wn, L')"
  shows "waitProcs L' = waitProcs L" "requested L' = bump m (- 1) (requested L)" "nRequested L' = nRequested L - 1"
    "locktag_type L' = locktag_type L" "granted L' = bump m (- 1) (granted L)" "nGranted L' = nGranted L - 1"
    "grantMask L' = (if bump m (- 1) (granted L) ! m = 0 then grantMask L AND LOCKBIT_OFF m else grantMask L)"
    "procLocks L' = procLocks (set_hold p (\<lambda>h. h AND LOCKBIT_OFF m) L)" "waitMask L' = waitMask L"
    "wn \<longleftrightarrow> conflictTab m AND waitMask L \<noteq> 0"
  using assms by (auto simp: UnGrantLock_def Let_def set_hold_def split: if_splits)

lemma ungrant_inv:
  assumes inv: "lock_inv G tag L ps None" and b: "bit (hold_mask L p) m" and u: "UnGrantLock m p L = (wn, L')"
  shows "lock_inv G tag L' ps None" "hold_mask L' q = (if q = p then hold_mask L p AND LOCKBIT_OFF m else hold_mask L q)"
    "myProc ` set (procLocks L') = myProc ` set (procLocks L)"
    "\<not> wn \<Longrightarrow> w \<in> set (waitProcs L) \<Longrightarrow> conflicting G L w (waitLockMode (ps w)) \<Longrightarrow> conflicting G L' w (waitLockMode (ps w))"
proof -
  note F = ungrant_fields [OF u]
  have ok: "holders_ok G L" and cnt: "counts_ok L ps None" and qu: "queue_ok tag L ps" and c: "compatible G L"
    using inv by (auto simp: lock_inv_def)
  have p: "p \<in> myProc ` set (procLocks L)" and m: "m \<in> {1 .. 8}"
    using hold_range [OF ok b] by auto
  have len: "length (granted L) = 10" "length (requested L) = 10" and pos: "0 < granted L ! m"
  proof -
    show "length (granted L) = 10" "length (requested L) = 10"
      using ok cnt by (simp_all add: holders_ok_def counts_ok_def MAX_LOCKMODES_def)
    obtain r where "r \<in> set (procLocks L)" "bit (holdMask r) m"
      using p b hold_mask_eq [OF holders_distinct [OF ok]] by auto
    then have "0 < held_by m (procLocks L)" by (auto simp: held_by_pos)
    then show "0 < granted L ! m"
      using ok m by (simp add: holders_ok_def MAX_LOCKMODES_def)
  qed
  have hold: "hold_mask L' q = (if q = p then hold_mask L p AND LOCKBIT_OFF m else hold_mask L q)" for q
    using set_hold_mask [OF holders_distinct [OF ok], of p _ q] p hold_mask_cong [OF F(8)] by simp
  have procs: "myProc ` set (procLocks L') = myProc ` set (procLocks L)"
    unfolding F(8) by (rule set_hold_procs)
  have gm: "bit (grantMask L) m"
    using ok pos m by (simp add: holders_ok_def MAX_LOCKMODES_def)
  have ok': "holders_ok G L'"
    by (rule holders_change [OF ok p m, where f = "\<lambda>h. h AND LOCKBIT_OFF m" and d = "- 1" and b = False])
      (use F b pos m gm len bit_32 in \<open>auto simp: bit_and_iff split: if_splits\<close>)
  have le: "bit (hold_mask L q) x" if "bit (hold_mask L' q) x" for q x
    using that by (auto simp: hold bit_and_iff split: if_splits)
  have w: "waiting x L' ps = waiting x L ps" for x by (rule waiting_cong [OF F(1)])
  have cnt': "counts_ok L' ps None"
    using cnt F m len by (auto simp: counts_ok_def w MAX_LOCKMODES_def)
  have "queue_ok tag L' ps"
    unfolding queue_ok_def F(1) procs using qu le unfolding queue_ok_def by blast
  then show "lock_inv G tag L' ps None"
    using ok' cnt' fewer_holds(2) [OF ok ok' F(4) le c] by (simp add: lock_inv_def pending_ok_def)
  show "hold_mask L' q = (if q = p then hold_mask L p AND LOCKBIT_OFF m else hold_mask L q)" by (rule hold)
  show "myProc ` set (procLocks L') = myProc ` set (procLocks L)" by (rule procs)
  show "conflicting G L' w (waitLockMode (ps w))"
    if n: "\<not> wn" and wq: "w \<in> set (waitProcs L)" and cf: "conflicting G L w (waitLockMode (ps w))"
  proof -
    let ?x = "waitLockMode (ps w)"
    have x: "?x \<in> {1 .. 8}" using qu wq by (simp add: queue_ok_def)
    have "0 < waiting ?x L ps" using wq by (auto simp: waiting_def filter_empty_conv)
    then have "bit (waitMask L) ?x" using cnt by (simp add: counts_ok_def)
    then have "\<not> conflict m ?x" using n F(10) conflict_mask(1) by blast
    then have nc: "\<not> conflict ?x m" using conflict_sym [OF x m] by simp
    from cf obtain q y where q: "q \<noteq> w" "leader_of G q \<noteq> leader_of G w \<or> locktag_type L = LOCKTAG_RELATION_EXTEND" "conflict ?x y" "bit (hold_mask L q) y"
      unfolding conflicting_iff [OF ok] by blast
    have "y \<noteq> m" using q(3) nc by auto
    then have "bit (hold_mask L' q) y"
      using q(4) bit_32 [OF q(4)] by (auto simp: hold bit_and_iff)
    then show ?thesis
      unfolding conflicting_iff [OF ok'] F(4) using q by blast
  qed
qed

text \<open>A holder entry that neither holds nor waits can go.\<close>

lemma drop_hold: "hold_mask L p = 0 \<Longrightarrow> hold_mask (drop_proclock p L) q = hold_mask L q"
proof -
  have "find (\<lambda>r. myProc r = q) (filter (\<lambda>r. myProc r \<noteq> p) xs) = (if q = p then None else find (\<lambda>r. myProc r = q) xs)"
    for xs :: "PROCLOCK list"
    by (induction xs) auto
  then have "find_proclock (drop_proclock p L) q = (if q = p then None else find_proclock L q)"
    by (simp add: find_proclock_def drop_proclock_def)
  then show "hold_mask L p = 0 \<Longrightarrow> ?thesis"
    by (simp add: hold_mask_def)
qed

lemma drop_fields [simp]:
  "waitProcs (drop_proclock p L) = waitProcs L" "requested (drop_proclock p L) = requested L" "nRequested (drop_proclock p L) = nRequested L"
  "locktag_type (drop_proclock p L) = locktag_type L" "granted (drop_proclock p L) = granted L" "nGranted (drop_proclock p L) = nGranted L"
  "grantMask (drop_proclock p L) = grantMask L" "waitMask (drop_proclock p L) = waitMask L"
  "set (procLocks (drop_proclock p L)) = {r \<in> set (procLocks L). myProc r \<noteq> p}"
  by (auto simp: drop_proclock_def)

lemma drop_holders:
  assumes ok: "holders_ok G L" and z: "hold_mask L p = 0"
  shows "holders_ok G (drop_proclock p L)"
proof -
  have "held_by m (procLocks (drop_proclock p L)) = held_by m (procLocks L)" for m
  proof -
    have "\<not> (\<exists>q \<in> set (procLocks L). myProc q = p \<and> bit (holdMask q) m)"
      using hold_mask_eq [OF holders_distinct [OF ok]] z by fastforce
    then show ?thesis
      using held_by_others [OF holders_distinct [OF ok], of m p] by (simp add: drop_proclock_def)
  qed
  moreover have "distinct (map myProc (procLocks (drop_proclock p L)))"
    using holders_distinct [OF ok] by (simp add: drop_proclock_def distinct_map_filter)
  ultimately show ?thesis
    using ok unfolding holders_ok_def drop_fields by auto
qed

lemma drop_inv:
  assumes inv: "lock_inv G tag L ps None" and z: "hold_mask L p = 0" and q: "p \<notin> set (waitProcs L)"
  shows "lock_inv G tag (drop_proclock p L) ps None"
proof -
  have ok: "holders_ok G L" using inv by (simp add: lock_inv_def)
  note ok' = drop_holders [OF ok z]
  have "counts_ok (drop_proclock p L) ps None"
    using inv by (simp add: lock_inv_def counts_ok_def waiting_def)
  moreover have "queue_ok tag (drop_proclock p L) ps"
    using inv q drop_hold [OF z] by (auto simp: lock_inv_def queue_ok_def)
  ultimately show ?thesis
    using ok' inv same_holds(2) [OF ok ok' drop_fields(4) drop_hold [OF z]] by (simp add: lock_inv_def pending_ok_def)
qed

text \<open>A request leaves the wait queue.\<close>

lemma waiting_remove:
  assumes "distinct (waitProcs L)" and "w \<in> set (waitProcs L)"
  shows "waiting m (L \<lparr> waitProcs := remove1 w (waitProcs L) \<rparr>) ps + (if waitLockMode (ps w) = m then 1 else 0) = waiting m L ps"
proof -
  have "length (filter P (remove1 w xs)) + (if P w then 1 else 0) = length (filter P xs)" if "w \<in> set xs" for P xs
    using that by (induction xs) auto
  from this [OF assms(2), of "\<lambda>w. waitLockMode (ps w) = m"] show ?thesis
    by (simp add: waiting_def split: if_splits)
qed

lemma remove_pending:
  assumes inv: "lock_inv G tag L ps None" and w: "w \<in> set (waitProcs L)"
  shows "lock_inv G tag (L \<lparr> waitProcs := remove1 w (waitProcs L) \<rparr>) ps (Some (w, waitLockMode (ps w)))"
proof -
  let ?L = "L \<lparr> waitProcs := remove1 w (waitProcs L) \<rparr>"
  have ok: "holders_ok G L" and cnt: "counts_ok L ps None" and qu: "queue_ok tag L ps" and c: "compatible G L"
    using inv by (auto simp: lock_inv_def)
  have d: "distinct (waitProcs L)" using qu by (simp add: queue_ok_def)
  have hm: "hold_mask ?L q = hold_mask L q" for q by (rule hold_mask_cong) simp
  note wr = waiting_remove [OF d w]
  have "counts_ok ?L ps (Some (w, waitLockMode (ps w)))"
    unfolding counts_ok_def
  proof (intro conjI allI impI)
    show "length (requested ?L) = MAX_LOCKMODES" "nRequested ?L = sum_list (requested ?L)"
      using cnt by (simp_all add: counts_ok_def)
    show "requested ?L ! m = granted ?L ! m + int (waiting m ?L ps) + pends (Some (w, waitLockMode (ps w))) m" if "m < MAX_LOCKMODES" for m
      using cnt that wr [of m ps] by (auto simp: counts_ok_def pends_def split: if_splits)
    show "bit (waitMask ?L) m" if "0 < waiting m ?L ps" for m
      using cnt that wr [of m ps] by (auto simp: counts_ok_def)
    show "0 < waiting m ?L ps" if "bit (waitMask ?L) m" "pends (Some (w, waitLockMode (ps w))) m = 0" for m
      using cnt that wr [of m ps] by (auto simp: counts_ok_def pends_def split: if_splits)
  qed
  moreover have "queue_ok tag ?L ps"
    using qu by (auto simp: queue_ok_def hm dest: in_set_remove1 [THEN iffD1, rotated] notin_set_remove1)
  moreover have "pending_ok ?L (Some (w, waitLockMode (ps w)))"
    using qu w d by (auto simp: queue_ok_def pending_ok_def hm)
  moreover have "holders_ok G ?L" "compatible G ?L"
    using ok c by (simp_all add: holders_ok_def compatible_def conflicting_def blocker_def)
  ultimately show ?thesis
    by (simp add: lock_inv_def)
qed

subsection \<open>Waking\<close>

text \<open>
  What waking the queue does: some waiters leave it, each holding the lock it waited for; nothing
  else changes for anybody.
\<close>

definition woken :: "LOCK \<Rightarrow> (ProcNumber \<Rightarrow> PGPROC) \<Rightarrow> LOCK \<Rightarrow> (ProcNumber \<Rightarrow> PGPROC) \<Rightarrow> bool" where
  "woken L ps L' ps' \<longleftrightarrow> nRequested L' = nRequested L \<and> locktag_type L' = locktag_type L
     \<and> myProc ` set (procLocks L') = myProc ` set (procLocks L) \<and> set (waitProcs L') \<subseteq> set (waitProcs L)
     \<and> (\<forall>q x. bit (hold_mask L' q) x \<longleftrightarrow> bit (hold_mask L q) x
          \<or> q \<in> set (waitProcs L) \<and> q \<notin> set (waitProcs L') \<and> x = waitLockMode (ps q))
     \<and> (\<forall>q. ps' q = (if q \<in> set (waitProcs L) \<and> q \<notin> set (waitProcs L')
                      then (ps q) \<lparr> waitLock := None, waitStatus := PROC_WAIT_STATUS_OK \<rparr> else ps q))"

lemma woken_refl: "woken L ps L ps"
  by (auto simp: woken_def)

lemma grant_waiter:
  "(grant_lock_raw w m L) \<lparr> waitProcs := remove1 w (waitProcs L) \<rparr>
   = grant_lock_raw w m (L \<lparr> waitProcs := remove1 w (waitProcs L) \<rparr>)"
  by (simp add: grant_lock_raw_def set_hold_def Let_def)

lemma wake_one:
  assumes inv: "lock_inv G tag L ps None" and w: "w \<in> set (waitProcs L)" and free: "\<not> conflicting G L w (waitLockMode (ps w))"
    and L': "L' = grant_lock_raw w (waitLockMode (ps w)) (L \<lparr> waitProcs := remove1 w (waitProcs L) \<rparr>)"
    and ps': "ps' = ps(w := (ps w) \<lparr> waitLock := None, waitStatus := PROC_WAIT_STATUS_OK \<rparr>)"
  shows "lock_inv G tag L' ps' None" "woken L ps L' ps'" "conflicting G L v x \<Longrightarrow> conflicting G L' v x"
proof -
  let ?m = "waitLockMode (ps w)" and ?L = "L \<lparr> waitProcs := remove1 w (waitProcs L) \<rparr>"
  note pe = remove_pending [OF inv w]
  have ok: "holders_ok G ?L" and p: "w \<in> myProc ` set (procLocks ?L)" and m: "?m \<in> {1 .. 8}"
    using pe by (auto simp: lock_inv_def pending_ok_def)
  have d: "distinct (waitProcs L)" using inv by (simp add: lock_inv_def queue_ok_def)
  have cf: "conflicting G ?L v x \<longleftrightarrow> conflicting G L v x" for v x by (simp add: conflicting_def blocker_def)
  have "lock_inv G tag L' ps None"
    unfolding L' using free by (intro grant_inv [OF pe]) (simp add: cf)
  moreover have "ps' v = ps v" if "v \<in> set (waitProcs L')" for v
    using that d by (auto simp: L' ps')
  ultimately show "lock_inv G tag L' ps' None"
    by (rule inv_procs)
  have hm: "hold_mask ?L q = hold_mask L q" for q by (rule hold_mask_cong) simp
  have "bit (hold_mask L' q) x \<longleftrightarrow> bit (hold_mask L q) x \<or> q = w \<and> x = ?m" for q x
    unfolding L' grant_hold [OF ok p] using m by (auto simp: hm bit_or_iff)
  moreover have "set (waitProcs L') = set (waitProcs L) - {w}" using d by (simp add: L')
  moreover have "myProc ` set (procLocks L') = myProc ` set (procLocks L)"
    unfolding L' grant_procs by simp
  moreover have "nRequested L' = nRequested L" "locktag_type L' = locktag_type L" by (simp_all add: L')
  ultimately show "woken L ps L' ps'"
    using w by (auto simp: woken_def ps')
  show "conflicting G L' v x" if "conflicting G L v x"
    unfolding L' using grant_mono [OF ok p] that by (simp add: cf)
qed

lemma woken_trans:
  assumes "woken L ps L1 ps1" and "woken L1 ps1 L' ps'"
  shows "woken L ps L' ps'"
proof -
  have q: "set (waitProcs L') \<subseteq> set (waitProcs L1)" "set (waitProcs L1) \<subseteq> set (waitProcs L)"
    using assms by (simp_all add: woken_def)
  have keep: "ps1 v = ps v" if "v \<in> set (waitProcs L1)" for v
    using assms(1) that by (simp add: woken_def)
  have "bit (hold_mask L' v) x \<longleftrightarrow> bit (hold_mask L v) x \<or> v \<in> set (waitProcs L) \<and> v \<notin> set (waitProcs L') \<and> x = waitLockMode (ps v)" for v x
  proof (cases "v \<in> set (waitProcs L1)")
    case True
    with keep [OF True] assms q show ?thesis by (auto simp: woken_def)
  next
    case False
    with assms q show ?thesis by (auto simp: woken_def)
  qed
  moreover have "ps' v = (if v \<in> set (waitProcs L) \<and> v \<notin> set (waitProcs L')
      then (ps v) \<lparr> waitLock := None, waitStatus := PROC_WAIT_STATUS_OK \<rparr> else ps v)" for v
    using assms q keep [of v] by (cases "v \<in> set (waitProcs L1)") (auto simp: woken_def)
  ultimately show ?thesis
    using assms q unfolding woken_def by auto
qed

lemma wakeup_loop_ok:
  assumes "lock_inv G tag L ps None" and "groups_ok G" and "waitProcs L = kept @ rest"
    and "\<forall>x. bit ahead x \<longleftrightarrow> (\<exists>v \<in> set kept. waitLockMode (ps v) = x)" and "all_wait G L ps kept"
  shows "\<exists>L' ps'. wakeup_loop G rest ahead L ps = Inr (L', ps') \<and> lock_inv G tag L' ps' None
    \<and> all_wait G L' ps' (waitProcs L') \<and> woken L ps L' ps'"
  using assms
proof (induction rest arbitrary: kept ahead L ps)
  case Nil
  then show ?case by (auto intro: woken_refl)
next
  case (Cons w rest)
  let ?m = "waitLockMode (ps w)"
  have w: "w \<in> set (waitProcs L)" using Cons.prems by simp
  have m: "?m \<in> {1 .. 8}" and pl: "w \<in> myProc ` set (procLocks L)" and d: "distinct (waitProcs L)" and ok: "holders_ok G L"
    using Cons.prems(1) w by (auto simp: lock_inv_def queue_ok_def)
  have test: "conflictTab ?m AND ahead = 0 \<longleftrightarrow> \<not> (\<exists>v \<in> set kept. conflict ?m (waitLockMode (ps v)))"
    unfolding conflict_mask using Cons.prems(4) by metis
  note chk = check_conflicts_ok [OF ok Cons.prems(2) m pl]
  show ?case
  proof (cases "waits G L ps kept w")
    case True
    have run: "wakeup_loop G (w # rest) ahead L ps = wakeup_loop G rest (ahead OR LOCKBIT_ON ?m) L ps"
      using True chk test by (auto simp: waits_def Let_def)
    have a: "\<forall>x. bit (ahead OR LOCKBIT_ON ?m) x \<longleftrightarrow> (\<exists>v \<in> set (kept @ [w]). waitLockMode (ps v) = x)"
      using Cons.prems(4) m by (auto simp: bit_or_iff)
    have q: "waitProcs L = (kept @ [w]) @ rest" using Cons.prems(3) by simp
    show ?thesis
      unfolding run by (rule Cons.IH [OF Cons.prems(1,2) q a all_wait_snoc [OF Cons.prems(5) True]])
  next
    case False
    then have free: "\<not> conflicting G L w ?m" and t: "conflictTab ?m AND ahead = 0"
      using test by (simp_all add: waits_def)
    define L1 where "L1 = grant_lock_raw w ?m (L \<lparr> waitProcs := remove1 w (waitProcs L) \<rparr>)"
    define ps1 where "ps1 = ps(w := (ps w) \<lparr> waitLock := None, waitStatus := PROC_WAIT_STATUS_OK \<rparr>)"
    have run: "wakeup_loop G (w # rest) ahead L ps = wakeup_loop G rest ahead L1 ps1"
      using free t chk by (simp add: Let_def L1_def ps1_def grant_waiter)
    note one = wake_one [OF Cons.prems(1) w free L1_def ps1_def]
    have wk: "w \<notin> set kept" using d Cons.prems(3) by simp
    then have q: "waitProcs L1 = kept @ rest"
      using Cons.prems(3) by (simp add: L1_def remove1_append)
    have a: "\<forall>x. bit ahead x \<longleftrightarrow> (\<exists>v \<in> set kept. waitLockMode (ps1 v) = x)"
      using Cons.prems(4) wk by (auto simp: ps1_def)
    have al: "all_wait G L1 ps1 kept"
      by (rule all_wait_mono [OF Cons.prems(5)]) (use one(3) wk in \<open>auto simp: ps1_def\<close>)
    obtain L' ps' where "wakeup_loop G rest ahead L1 ps1 = Inr (L', ps')" "lock_inv G tag L' ps' None"
      "all_wait G L' ps' (waitProcs L')" "woken L1 ps1 L' ps'"
      using Cons.IH [OF one(1) Cons.prems(2) q a al] by (elim exE conjE) (rule that, assumption+)
    then show ?thesis
      unfolding run using woken_trans [OF one(2)] by (intro exI conjI)
  qed
qed

lemma ProcLockWakeup_ok:
  assumes "lock_inv G tag L ps None" and "groups_ok G"
  shows "\<exists>L' ps'. ProcLockWakeup G L ps = Inr (L', ps') \<and> lock_inv G tag L' ps' None
    \<and> all_wait G L' ps' (waitProcs L') \<and> woken L ps L' ps'"
proof (cases "waitProcs L = []")
  case True
  with assms(1) show ?thesis by (auto simp: ProcLockWakeup_def intro: woken_refl)
next
  case False
  then have "ProcLockWakeup G L ps = wakeup_loop G (waitProcs L) 0 L ps" by (simp add: ProcLockWakeup_def)
  with wakeup_loop_ok [OF assms, of "[]" "waitProcs L" 0] show ?thesis by simp
qed

end
