(* ===== verification/LockOps.thy ===== *)
theory LockOps
  imports LockSpec
begin

unbundle bit_operations_syntax

section \<open>The operations of the lock table\<close>

text \<open>
  The invariant of the whole lock table, and that acquiring, releasing, giving up waiting and reordering a
  wait queue keep it, with what each operation does to who holds and who waits. The states reached by any interleaving of these operations
  therefore satisfy it.
\<close>

subsection \<open>The state\<close>

definition lock_ok :: "groups \<Rightarrow> nat \<Rightarrow> LOCK \<Rightarrow> (ProcNumber \<Rightarrow> PGPROC) \<Rightarrow> bool" where
  "lock_ok G tag L ps \<longleftrightarrow> lock_inv G tag L ps None \<and> tidy L None \<and> all_wait G L ps (waitProcs L) \<and> 0 < nRequested L"

definition state_ok :: "groups \<Rightarrow> lock_state \<Rightarrow> bool" where
  "state_ok G s \<longleftrightarrow> (\<forall>t L. lock_hash s t = Some L \<longrightarrow> lock_ok G t L (procs s))
     \<and> (\<forall>q t. waitLock (procs s q) = Some t \<longrightarrow> (\<exists>L. lock_hash s t = Some L \<and> q \<in> set (waitProcs L)))"

definition holds :: "lock_state \<Rightarrow> nat \<Rightarrow> ProcNumber \<Rightarrow> LOCKMODE \<Rightarrow> bool" where
  "holds s tag p m = (case lock_hash s tag of None \<Rightarrow> False | Some L \<Rightarrow> bit (hold_mask L p) m)"

definition queue :: "lock_state \<Rightarrow> nat \<Rightarrow> ProcNumber list" where
  "queue s tag = (case lock_hash s tag of None \<Rightarrow> [] | Some L \<Rightarrow> waitProcs L)"

text \<open>The state apart from the lock that an operation works on.\<close>

definition rest_ok :: "groups \<Rightarrow> nat \<Rightarrow> lock_state \<Rightarrow> LOCK \<Rightarrow> bool" where
  "rest_ok G tag s L \<longleftrightarrow> (\<forall>t L'. t \<noteq> tag \<longrightarrow> lock_hash s t = Some L' \<longrightarrow> lock_ok G t L' (procs s))
     \<and> (\<forall>q t. waitLock (procs s q) = Some t \<longrightarrow>
          (if t = tag then q \<in> set (waitProcs L) else \<exists>L'. lock_hash s t = Some L' \<and> q \<in> set (waitProcs L')))"

lemma rest_okI: "state_ok G s \<Longrightarrow> lock_hash s tag = Some L \<Longrightarrow> rest_ok G tag s L"
  by (fastforce simp: state_ok_def rest_ok_def)

lemma put_ok:
  "rest_ok G tag s L \<Longrightarrow> lock_ok G tag L (procs s) \<Longrightarrow> state_ok G (s \<lparr> lock_hash := (lock_hash s)(tag \<mapsto> L) \<rparr>)"
  by (auto simp: rest_ok_def state_ok_def split: if_splits)

lemma del_ok:
  assumes "rest_ok G tag s L" and "waitProcs L = []"
  shows "state_ok G (s \<lparr> lock_hash := (lock_hash s)(tag := None) \<rparr>)"
  using assms by (fastforce simp: rest_ok_def state_ok_def split: if_splits)

lemma lock_ok_procs:
  assumes "lock_ok G t L ps" and "\<And>w. w \<in> set (waitProcs L) \<Longrightarrow> ps' w = ps w"
  shows "lock_ok G t L ps'"
  using assms(1) inv_procs [where ps' = ps', OF _ assms(2)] all_wait_mono [where ps' = ps' and L' = L, of G L ps "waitProcs L"] assms(2)
  by (auto simp: lock_ok_def)

lemma queue_tag: "lock_ok G t L ps \<Longrightarrow> w \<in> set (waitProcs L) \<Longrightarrow> waitLock (ps w) = Some t"
  by (simp add: lock_ok_def lock_inv_def queue_ok_def)

text \<open>The processes of other queues are not touched.\<close>

lemma rest_procs:
  assumes r: "rest_ok G tag s L"
    and same: "\<And>q t. t \<noteq> tag \<Longrightarrow> waitLock (procs s q) = Some t \<Longrightarrow> ps' q = procs s q"
    and new: "\<And>q t. waitLock (ps' q) = Some t \<Longrightarrow> if t = tag then q \<in> set (waitProcs L') else waitLock (procs s q) = Some t"
  shows "rest_ok G tag (s \<lparr> procs := ps' \<rparr>) L'"
proof -
  have "lock_ok G t M ps'" if t: "t \<noteq> tag" "lock_hash s t = Some M" for t M
  proof (rule lock_ok_procs)
    show ok: "lock_ok G t M (procs s)" using r t by (simp add: rest_ok_def)
    show "ps' w = procs s w" if "w \<in> set (waitProcs M)" for w
      using same [OF t(1) queue_tag [OF ok that]] .
  qed
  moreover have "if t = tag then q \<in> set (waitProcs L') else \<exists>M. lock_hash s t = Some M \<and> q \<in> set (waitProcs M)"
    if "waitLock (ps' q) = Some t" for q t
    using new [OF that] r by (auto simp: rest_ok_def split: if_splits)
  ultimately show ?thesis
    by (simp add: rest_ok_def)
qed

lemma rest_wake:
  assumes r: "rest_ok G tag s L" and inv: "lock_inv G tag L (procs s) None" and w: "woken L (procs s) L' ps'"
  shows "rest_ok G tag (s \<lparr> procs := ps' \<rparr>) L'"
proof (rule rest_procs [OF r])
  have q: "waitLock (procs s v) = Some tag" if "v \<in> set (waitProcs L)" for v
    using inv that by (simp add: lock_inv_def queue_ok_def)
  have ps': "ps' v = (if v \<in> set (waitProcs L) \<and> v \<notin> set (waitProcs L')
      then (procs s v) \<lparr> waitLock := None, waitStatus := PROC_WAIT_STATUS_OK \<rparr> else procs s v)" for v
    using w by (simp add: woken_def)
  show "ps' v = procs s v" if "t \<noteq> tag" "waitLock (procs s v) = Some t" for v t
    using that q [of v] by (auto simp: ps')
  show "if t = tag then v \<in> set (waitProcs L') else waitLock (procs s v) = Some t" if "waitLock (ps' v) = Some t" for v t
    using that r by (auto simp: ps' rest_ok_def split: if_splits)
qed

subsection \<open>Requests in numbers\<close>

lemma sum_ge: "\<forall>x \<in> set xs. 0 \<le> x \<Longrightarrow> y \<in> set xs \<Longrightarrow> (y :: int) \<le> sum_list xs"
proof (induction xs)
  case (Cons x xs)
  then have "0 \<le> sum_list xs" by (intro sum_list_nonneg) simp
  with Cons show ?case by auto
qed simp

lemma requests:
  assumes inv: "lock_inv G tag L ps pend"
  shows "0 \<le> nRequested L" "bit (hold_mask L q) m \<Longrightarrow> 0 < nRequested L" "w \<in> set (waitProcs L) \<Longrightarrow> 0 < nRequested L"
proof -
  have ok: "holders_ok G L" using inv by (simp add: lock_inv_def)
  have n: "nRequested L = sum_list (requested L)" "length (requested L) = 10" "length (granted L) = 10"
    using inv by (simp_all add: lock_inv_def counts_ok_def holders_ok_def MAX_LOCKMODES_def)
  have r: "requested L ! x = int (held_by x (procLocks L)) + int (waiting x L ps) + pends pend x" if "x < 10" for x
    using inv that by (simp add: lock_inv_def counts_ok_def holders_ok_def MAX_LOCKMODES_def)
  have p: "0 \<le> pends pend x" for x by (auto simp: pends_def split: option.splits)
  have pos: "\<forall>x \<in> set (requested L). 0 \<le> x"
    using r p n(2) by (auto simp: in_set_conv_nth)
  then show "0 \<le> nRequested L" unfolding n by (intro sum_list_nonneg) simp
  have big: "0 < nRequested L" if "x \<in> {1 .. 8}" "0 < held_by x (procLocks L) \<or> 0 < waiting x L ps" for x
  proof -
    have "requested L ! x \<in> set (requested L)" using that(1) n(2) by simp
    then have "requested L ! x \<le> nRequested L" unfolding n(1) by (rule sum_ge [OF pos])
    with that r [of x] p [of x] show ?thesis by auto
  qed
  show "0 < nRequested L" if b: "bit (hold_mask L q) m"
  proof -
    obtain v where v: "v \<in> set (procLocks L)" "myProc v = q" using hold_range(2) [OF ok b] by auto
    then have "bit (holdMask v) m" using hold_mask_eq [OF holders_distinct [OF ok] v(1)] b by simp
    with v have "0 < held_by m (procLocks L)" by (auto simp: held_by_pos)
    then show ?thesis using big hold_range(1) [OF ok b] by blast
  qed
  show "0 < nRequested L" if w: "w \<in> set (waitProcs L)"
  proof (rule big)
    show "waitLockMode (ps w) \<in> {1 .. 8}" using inv w by (simp add: lock_inv_def queue_ok_def)
    show "0 < held_by (waitLockMode (ps w)) (procLocks L) \<or> 0 < waiting (waitLockMode (ps w)) L ps"
      using w by (auto simp: waiting_def filter_empty_conv)
  qed
qed

subsection \<open>Cleaning up\<close>

text \<open>
  What remains of a lock once an operation has left it as \<open>L\<close>: the holds of \<open>L\<close> and those of the waiters
  it wakes.
\<close>

definition settled :: "nat \<Rightarrow> LOCK \<Rightarrow> lock_state \<Rightarrow> lock_state \<Rightarrow> bool" where
  "settled tag L s s' \<longleftrightarrow> (\<forall>t. t \<noteq> tag \<longrightarrow> lock_hash s' t = lock_hash s t) \<and> set (queue s' tag) \<subseteq> set (waitProcs L)
     \<and> (\<forall>q x. holds s' tag q x \<longleftrightarrow> bit (hold_mask L q) x
          \<or> q \<in> set (waitProcs L) \<and> q \<notin> set (queue s' tag) \<and> x = waitLockMode (procs s q))
     \<and> (\<forall>q. procs s' q = (if q \<in> set (waitProcs L) \<and> q \<notin> set (queue s' tag)
          then (procs s q) \<lparr> waitLock := None, waitStatus := PROC_WAIT_STATUS_OK \<rparr> else procs s q))"

lemma woken_tidy:
  assumes "woken L ps L' ps'" and "tidy L None" and "holders_ok G L" and "holders_ok G L'"
  shows "tidy L' None"
  unfolding tidy_def
proof
  fix r assume r: "r \<in> set (procLocks L')"
  then have "myProc r \<in> myProc ` set (procLocks L)" using assms(1) unfolding woken_def by blast
  then obtain q where q: "q \<in> set (procLocks L)" "myProc q = myProc r" by auto
  have h: "hold_mask L' (myProc r) = holdMask r" "hold_mask L (myProc r) = holdMask q"
    using hold_mask_eq [OF holders_distinct [OF assms(4)] r] hold_mask_eq [OF holders_distinct [OF assms(3)] q(1)] q(2) by simp_all
  have b: "bit (holdMask r) x \<longleftrightarrow> bit (holdMask q) x
      \<or> myProc r \<in> set (waitProcs L) \<and> myProc r \<notin> set (waitProcs L') \<and> x = waitLockMode (ps (myProc r))" for x
    unfolding h [symmetric] using assms(1) unfolding woken_def by blast
  show "holdMask r \<noteq> 0 \<or> myProc r \<in> set (waitProcs L') \<or> (\<exists>m. None = Some (myProc r, m))"
  proof (rule ccontr)
    assume n: "\<not> ?thesis"
    then have "\<not> bit (holdMask r) x" for x by simp
    then have "\<not> bit (holdMask q) x" "myProc q \<notin> set (waitProcs L)" for x
      using b q(2) n by auto
    moreover from this(1) have "holdMask q = 0" by (intro bit_word_eqI) simp
    ultimately show False using assms(2) q(1) by (simp add: tidy_def)
  qed
qed

lemma CleanUpLock_ok:
  assumes inv: "lock_inv G tag L (procs s) None" and G: "groups_ok G" and rest: "rest_ok G tag s L"
    and p: "p \<notin> set (waitProcs L)" and tidy: "\<forall>q \<in> set (procLocks L). myProc q = p \<or> holdMask q \<noteq> 0 \<or> myProc q \<in> set (waitProcs L)"
    and wn: "wn \<or> all_wait G L (procs s) (waitProcs L)"
  shows "\<exists>s'. CleanUpLock G tag p wn L s = (Inr (), s') \<and> state_ok G s' \<and> settled tag L s s'"
proof -
  define L1 where "L1 = (if hold_mask L p = 0 then drop_proclock p L else L)"
  have ok: "holders_ok G L" using inv by (simp add: lock_inv_def)
  have inv1: "lock_inv G tag L1 (procs s) None"
    using inv drop_inv [OF inv _ p] by (simp add: L1_def)
  then have ok1: "holders_ok G L1" by (simp add: lock_inv_def)
  have h1: "hold_mask L1 q = hold_mask L q" for q by (simp add: L1_def drop_hold)
  have q1: "waitProcs L1 = waitProcs L" and t1: "locktag_type L1 = locktag_type L" by (simp_all add: L1_def)
  have tidy1: "tidy L1 None"
  proof (cases "hold_mask L p = 0")
    case False
    have "holdMask q \<noteq> 0" if "q \<in> set (procLocks L)" "myProc q = p" for q
      using False hold_mask_eq [OF holders_distinct [OF ok] that(1)] that(2) by simp
    with False tidy show ?thesis by (auto simp: tidy_def L1_def)
  qed (use tidy in \<open>auto simp: tidy_def L1_def\<close>)
  have rest1: "rest_ok G tag s L1" using rest by (simp add: rest_ok_def q1)
  have cf: "conflicting G L1 v x \<longleftrightarrow> conflicting G L v x" for v x
    by (rule same_holds(1) [OF ok ok1 t1 h1])
  have run: "CleanUpLock G tag p wn L s =
    (if nRequested L1 = 0 then (Inr (), s \<lparr> lock_hash := (lock_hash s)(tag := None) \<rparr>)
     else if wn then
       (case ProcLockWakeup G L1 (procs s) of
          Inl e \<Rightarrow> (Inl e, s \<lparr> lock_hash := (lock_hash s)(tag \<mapsto> L1) \<rparr>)
        | Inr (M, ps) \<Rightarrow> (Inr (), s \<lparr> lock_hash := (lock_hash s)(tag \<mapsto> M), procs := ps \<rparr>))
     else (Inr (), s \<lparr> lock_hash := (lock_hash s)(tag \<mapsto> L1) \<rparr>))"
    unfolding CleanUpLock_def Let_def L1_def [symmetric] by (rule refl)
  consider (gone) "nRequested L1 = 0" | (wake) "0 < nRequested L1" wn | (keep) "0 < nRequested L1" "\<not> wn"
    using requests(1) [OF inv1] by linarith
  then show ?thesis
  proof cases
    case gone
    have e: "waitProcs L1 = []"
      using requests(3) [OF inv1] gone by (cases "waitProcs L1") auto
    have nh: "\<not> bit (hold_mask L q) x" for q x
      using requests(2) [OF inv1, of q x] gone by (auto simp: h1)
    have "settled tag L s (s \<lparr> lock_hash := (lock_hash s)(tag := None) \<rparr>)"
      using e nh by (simp add: settled_def holds_def queue_def q1)
    with gone del_ok [OF rest1 e] show ?thesis
      by (simp add: run)
  next
    case wake
    obtain M ps where M: "ProcLockWakeup G L1 (procs s) = Inr (M, ps)" "lock_inv G tag M ps None" "all_wait G M ps (waitProcs M)"
      "woken L1 (procs s) M ps"
      using ProcLockWakeup_ok [OF inv1 G] by (elim exE conjE) (rule that, assumption+)
    let ?s = "s \<lparr> procs := ps \<rparr>"
    have upd: "s \<lparr> lock_hash := (lock_hash s)(tag \<mapsto> M), procs := ps \<rparr> = ?s \<lparr> lock_hash := (lock_hash ?s)(tag \<mapsto> M) \<rparr>"
      by simp
    have "holders_ok G M" using M(2) by (simp add: lock_inv_def)
    then have "tidy M None" by (rule woken_tidy [OF M(4) tidy1 ok1])
    then have "lock_ok G tag M (procs ?s)"
      using M wake by (simp add: lock_ok_def woken_def)
    from put_ok [OF rest_wake [OF rest1 inv1 M(4)] this] have "state_ok G (?s \<lparr> lock_hash := (lock_hash ?s)(tag \<mapsto> M) \<rparr>)" .
    moreover have "settled tag L s (?s \<lparr> lock_hash := (lock_hash ?s)(tag \<mapsto> M) \<rparr>)"
      using M(4) unfolding settled_def woken_def holds_def queue_def h1 q1 by simp
    moreover have "CleanUpLock G tag p wn L s = (Inr (), ?s \<lparr> lock_hash := (lock_hash ?s)(tag \<mapsto> M) \<rparr>)"
      unfolding run M(1) upd [symmetric] using wake by simp
    ultimately show ?thesis by blast
  next
    case keep
    with wn have "all_wait G L (procs s) (waitProcs L)" by simp
    then have "all_wait G L1 (procs s) (waitProcs L1)"
      unfolding q1 by (rule all_wait_mono) (simp_all add: cf)
    then have "lock_ok G tag L1 (procs s)"
      using keep inv1 tidy1 by (simp add: lock_ok_def)
    note put = put_ok [OF rest1 this]
    have "settled tag L s (s \<lparr> lock_hash := (lock_hash s)(tag \<mapsto> L1) \<rparr>)"
      by (auto simp add: settled_def holds_def queue_def h1 q1)
    with put show ?thesis
      unfolding run using keep by simp
  qed
qed

subsection \<open>Releasing\<close>

lemma state_lock:
  assumes "state_ok G s" and "lock_hash s tag = Some L"
  shows "lock_inv G tag L (procs s) None" "tidy L None" "all_wait G L (procs s) (waitProcs L)" "0 < nRequested L" "holders_ok G L"
  using assms by (auto simp: state_ok_def lock_ok_def lock_inv_def)

lemma not_queued: "state_ok G s \<Longrightarrow> lock_hash s tag = Some L \<Longrightarrow> waitLock (procs s p) = None \<Longrightarrow> p \<notin> set (waitProcs L)"
  using queue_tag [of G tag L "procs s" p] by (auto simp: state_ok_def)

lemma release_ok:
  assumes ok: "state_ok G s" and G: "groups_ok G" and np: "waitLock (procs s p) = None" and h: "holds s tag p m"
  shows "\<exists>s'. LockRefindAndRelease G p tag m s = (Inr (), s') \<and> state_ok G s' \<and> (\<forall>t. t \<noteq> tag \<longrightarrow> lock_hash s' t = lock_hash s t)
    \<and> set (queue s' tag) \<subseteq> set (queue s tag)
    \<and> (\<forall>q x. holds s' tag q x \<longleftrightarrow> holds s tag q x \<and> (q, x) \<noteq> (p, m)
         \<or> q \<in> set (queue s tag) \<and> q \<notin> set (queue s' tag) \<and> x = waitLockMode (procs s q))"
proof -
  obtain L where L: "lock_hash s tag = Some L" and b: "bit (hold_mask L p) m"
    using h by (auto simp: holds_def split: option.splits)
  note S = state_lock [OF ok L]
  obtain wn L' where u: "UnGrantLock m p L = (wn, L')" by (cases "UnGrantLock m p L")
  note F = ungrant_fields [OF u] and U = ungrant_inv [OF S(1) b u]
  have m: "m \<in> {1 .. 8}" using hold_range [OF S(5) b] by simp
  obtain r where r: "find_proclock L p = Some r" "holdMask r = hold_mask L p"
    using b by (auto simp: hold_mask_def split: option.splits)
  have run: "LockRefindAndRelease G p tag m s = CleanUpLock G tag p wn L' s"
    using b m by (simp add: LockRefindAndRelease_def L r u mask_simps)
  have ok': "holders_ok G L'" using U(1) by (simp add: lock_inv_def)
  have tidy: "\<forall>q \<in> set (procLocks L'). myProc q = p \<or> holdMask q \<noteq> 0 \<or> myProc q \<in> set (waitProcs L')"
    using S(2) unfolding F(1) F(8) set_hold_set by (auto simp: tidy_def)
  have "\<not> wn \<Longrightarrow> all_wait G L' (procs s) (waitProcs L)"
    by (rule all_wait_mono [OF S(3)]) (use U(4) in auto)
  then have "\<exists>s'. CleanUpLock G tag p wn L' s = (Inr (), s') \<and> state_ok G s' \<and> settled tag L' s s'"
    using not_queued [OF ok L np] F(1) rest_okI [OF ok L]
    by (intro CleanUpLock_ok [OF U(1) G _ _ tidy]) (auto simp: rest_ok_def)
  then obtain s' where s': "CleanUpLock G tag p wn L' s = (Inr (), s')" "state_ok G s'" "settled tag L' s s'"
    by (elim exE conjE) (rule that, assumption+)
  have hold: "bit (hold_mask L' q) x \<longleftrightarrow> bit (hold_mask L q) x \<and> (q, x) \<noteq> (p, m)" for q x
    using U(2) [of q] bit_32 [of "hold_mask L q" x] by (auto simp: bit_and_iff)
  have q: "holds s tag q x \<longleftrightarrow> bit (hold_mask L q) x" "queue s tag = waitProcs L" for q x
    by (simp_all add: holds_def queue_def L)
  show ?thesis
    unfolding run s'(1) q using s'(2,3) by (simp add: settled_def hold F(1))
qed

subsection \<open>Giving up\<close>

text \<open>A pending request is taken back.\<close>

lemma withdraw:
  assumes inv: "lock_inv G tag L ps (Some (p, m))"
    and L': "procLocks L' = procLocks L" "waitProcs L' = waitProcs L" "granted L' = granted L" "nGranted L' = nGranted L"
      "grantMask L' = grantMask L" "locktag_type L' = locktag_type L" "nRequested L' = nRequested L - 1" "requested L' = bump m (- 1) (requested L)"
    and wm: "\<And>x. bit (waitMask L') x \<longleftrightarrow> 0 < waiting x L ps"
  shows "lock_inv G tag L' ps None" "hold_mask L' q = hold_mask L q"
proof -
  have hm: "hold_mask L' q = hold_mask L q" for q by (rule hold_mask_cong [OF L'(1)])
  have m: "m \<in> {1 .. 8}" using inv by (simp add: lock_inv_def pending_ok_def)
  have w: "waiting x L' ps = waiting x L ps" for x by (rule waiting_cong [OF L'(2)])
  have len: "length (requested L) = 10" using inv by (simp add: lock_inv_def counts_ok_def MAX_LOCKMODES_def)
  have "counts_ok L' ps None"
    using inv m len wm by (auto simp: lock_inv_def counts_ok_def w L' pends_def MAX_LOCKMODES_def)
  moreover have "holders_ok G L'" "compatible G L'"
    using inv by (simp_all add: lock_inv_def holders_ok_def compatible_def conflicting_def blocker_def L')
  moreover have "queue_ok tag L' ps"
    using inv by (simp add: lock_inv_def queue_ok_def hm L')
  ultimately show "lock_inv G tag L' ps None"
    by (simp add: lock_inv_def pending_ok_def)
  show "hold_mask L' q = hold_mask L q" by (rule hm)
qed

lemma cancel_ok:
  assumes ok: "state_ok G s" and G: "groups_ok G" and w: "waitLock (procs s p) = Some tag"
  shows "\<exists>s'. RemoveFromWaitQueue G p s = (Inr (), s') \<and> state_ok G s' \<and> waitLock (procs s' p) = None
    \<and> (\<forall>t. t \<noteq> tag \<longrightarrow> lock_hash s' t = lock_hash s t) \<and> set (queue s' tag) \<subseteq> set (queue s tag) - {p}
    \<and> (\<forall>q x. holds s' tag q x \<longleftrightarrow> holds s tag q x
         \<or> q \<in> set (queue s tag) - {p} \<and> q \<notin> set (queue s' tag) \<and> x = waitLockMode (procs s q))"
proof -
  obtain L where L: "lock_hash s tag = Some L" and p: "p \<in> set (waitProcs L)"
    using ok w unfolding state_ok_def by blast
  note S = state_lock [OF ok L]
  let ?m = "waitLockMode (procs s p)"
  define L0 where "L0 = L \<lparr> waitProcs := remove1 p (waitProcs L) \<rparr>"
  define L1 where "L1 = L0 \<lparr> nRequested := nRequested L0 - 1, requested := bump ?m (- 1) (requested L0) \<rparr>"
  define L2 where "L2 = (if granted L1 ! ?m = requested L1 ! ?m then L1 \<lparr> waitMask := waitMask L1 AND LOCKBIT_OFF ?m \<rparr> else L1)"
  define ps where "ps = (procs s)(p := (procs s p) \<lparr> waitLock := None, waitStatus := PROC_WAIT_STATUS_ERROR \<rparr>)"
  define s1 where "s1 = s \<lparr> procs := ps \<rparr>"
  have run: "RemoveFromWaitQueue G p s = CleanUpLock G tag p True L2 s1"
    by (simp add: RemoveFromWaitQueue_def w L Let_def L2_def L1_def L0_def s1_def ps_def)
  have pe: "lock_inv G tag L0 (procs s) (Some (p, ?m))"
    unfolding L0_def by (rule remove_pending [OF S(1) p])
  have m: "?m \<in> {1 .. 8}" and d: "distinct (waitProcs L)" using S(1) p by (auto simp: lock_inv_def queue_ok_def)
  have c0: "counts_ok L0 (procs s) (Some (p, ?m))" using pe by (simp add: lock_inv_def)
  have gr: "granted L1 ! ?m = requested L1 ! ?m \<longleftrightarrow> waiting ?m L0 (procs s) = 0"
    using c0 m by (simp add: L1_def counts_ok_def pends_def MAX_LOCKMODES_def)
  have wm: "bit (waitMask L2) x \<longleftrightarrow> 0 < waiting x L0 (procs s)" for x
  proof (cases "x = ?m")
    case True
    then show ?thesis
      using c0 gr by (auto simp: L2_def L1_def counts_ok_def bit_and_iff)
  next
    case False
    then show ?thesis
      using c0 bit_32 [of "waitMask L0" x] by (auto simp: L2_def L1_def counts_ok_def bit_and_iff pends_def)
  qed
  have F2: "procLocks L2 = procLocks L0" "waitProcs L2 = waitProcs L0" "granted L2 = granted L0" "nGranted L2 = nGranted L0"
    "grantMask L2 = grantMask L0" "locktag_type L2 = locktag_type L0" "nRequested L2 = nRequested L0 - 1" "requested L2 = bump ?m (- 1) (requested L0)"
    by (simp_all add: L2_def L1_def)
  note inv2 = withdraw(1) [OF pe F2 wm] and h2 = withdraw(2) [OF pe F2 wm]
  have q2: "waitProcs L2 = remove1 p (waitProcs L)" by (simp add: L2_def L1_def L0_def)
  have h0: "hold_mask L0 q = hold_mask L q" for q by (rule hold_mask_cong) (simp add: L0_def)
  have inv: "lock_inv G tag L2 (procs s1) None"
    by (rule inv_procs [OF inv2]) (use d q2 in \<open>auto simp: s1_def ps_def\<close>)
  have rest: "rest_ok G tag s1 L2"
    unfolding s1_def
  proof (rule rest_procs [OF rest_okI [OF ok L]])
    show "ps q = procs s q" if "t \<noteq> tag" "waitLock (procs s q) = Some t" for q t
      using that w by (auto simp: ps_def)
    show "if t = tag then q \<in> set (waitProcs L2) else waitLock (procs s q) = Some t" if "waitLock (ps q) = Some t" for q t
      using that rest_okI [OF ok L] d by (auto simp: ps_def q2 rest_ok_def split: if_splits)
  qed
  have tidy: "\<forall>q \<in> set (procLocks L2). myProc q = p \<or> holdMask q \<noteq> 0 \<or> myProc q \<in> set (waitProcs L2)"
    using S(2) d unfolding q2 by (auto simp: tidy_def L2_def L1_def L0_def)
  have "p \<notin> set (waitProcs L2)" using d q2 by simp
  from CleanUpLock_ok [OF inv G rest this tidy disjI1] obtain s' where
    s': "CleanUpLock G tag p True L2 s1 = (Inr (), s')" "state_ok G s'" "settled tag L2 s1 s'" by auto
  have "waitLock (procs s' p) = None"
    using s'(3) d by (simp add: settled_def q2 s1_def ps_def)
  moreover have "holds s tag q x \<longleftrightarrow> bit (hold_mask L q) x" "queue s tag = waitProcs L" for q x
    by (simp_all add: holds_def queue_def L)
  ultimately show ?thesis
    unfolding run s'(1) using s'(2,3) d by (auto simp: settled_def h2 h0 q2 s1_def ps_def)
qed

subsection \<open>Setting up a request\<close>

lemma new_lock_inv: "lock_inv G tag (new_lock typ) ps None" "waitProcs (new_lock typ) = []" "procLocks (new_lock typ) = []"
  by (auto simp: new_lock_def lock_inv_def holders_ok_def counts_ok_def queue_ok_def pending_ok_def compatible_def waiting_def pends_def
      MAX_LOCKMODES_def sum_list_replicate)

definition add_proclock :: "groups \<Rightarrow> ProcNumber \<Rightarrow> LOCK \<Rightarrow> LOCK" where
  "add_proclock G p L = (case find_proclock L p of Some _ \<Rightarrow> L
     | None \<Rightarrow> L \<lparr> procLocks := procLocks L @ [\<lparr> myProc = p, groupLeader = leader_of G p, holdMask = 0 \<rparr>] \<rparr>)"

lemma add_proclock_hold: "hold_mask (add_proclock G p L) q = hold_mask L q"
proof -
  have "find P (xs @ ys) = (case find P xs of None \<Rightarrow> find P ys | Some r \<Rightarrow> Some r)" for P and xs ys :: "PROCLOCK list"
    by (induction xs) auto
  then show ?thesis
    by (auto simp: hold_mask_def find_proclock_def add_proclock_def split: option.splits)
qed

lemma add_proclock_fields [simp]:
  "waitProcs (add_proclock G p L) = waitProcs L" "requested (add_proclock G p L) = requested L" "nRequested (add_proclock G p L) = nRequested L"
  "locktag_type (add_proclock G p L) = locktag_type L" "granted (add_proclock G p L) = granted L" "nGranted (add_proclock G p L) = nGranted L"
  "grantMask (add_proclock G p L) = grantMask L" "waitMask (add_proclock G p L) = waitMask L"
  "myProc ` set (procLocks (add_proclock G p L)) = insert p (myProc ` set (procLocks L))"
  using find_proclock_None [of L p] by (auto simp: add_proclock_def split: option.splits)

lemma add_proclock_inv:
  assumes inv: "lock_inv G tag L ps None"
  shows "lock_inv G tag (add_proclock G p L) ps None"
proof -
  have ok: "holders_ok G L" using inv by (simp add: lock_inv_def)
  have ok': "holders_ok G (add_proclock G p L)"
    using ok find_proclock_None [of L p] by (auto simp: holders_ok_def add_proclock_def split: option.splits)
  have "counts_ok (add_proclock G p L) ps None"
    using inv by (simp add: lock_inv_def counts_ok_def waiting_def)
  moreover have "queue_ok tag (add_proclock G p L) ps"
    using inv by (auto simp: lock_inv_def queue_ok_def add_proclock_hold)
  ultimately show ?thesis
    using ok' inv same_holds(2) [OF ok ok' add_proclock_fields(4) add_proclock_hold] by (simp add: lock_inv_def pending_ok_def)
qed

definition count_request :: "LOCKMODE \<Rightarrow> LOCK \<Rightarrow> LOCK" where
  "count_request m L = L \<lparr> nRequested := nRequested L + 1, requested := bump m 1 (requested L) \<rparr>"

lemma count_request_fields [simp]:
  "procLocks (count_request m L) = procLocks L" "waitProcs (count_request m L) = waitProcs L"
  "requested (count_request m L) = bump m 1 (requested L)" "nRequested (count_request m L) = nRequested L + 1"
  "locktag_type (count_request m L) = locktag_type L" "granted (count_request m L) = granted L" "nGranted (count_request m L) = nGranted L"
  "grantMask (count_request m L) = grantMask L" "waitMask (count_request m L) = waitMask L"
  by (simp_all add: count_request_def)

lemma count_request_inv:
  assumes inv: "lock_inv G tag L ps None" and p: "p \<in> myProc ` set (procLocks L)" "p \<notin> set (waitProcs L)"
    and m: "m \<in> {1 .. 8}" and nh: "\<not> bit (hold_mask L p) m"
  shows "lock_inv G tag (count_request m L) ps (Some (p, m))"
proof -
  let ?L = "count_request m L"
  have hm: "hold_mask ?L q = hold_mask L q" for q by (rule hold_mask_cong) simp
  have w: "waiting x ?L ps = waiting x L ps" for x by (rule waiting_cong) simp
  have len: "length (requested L) = 10" using inv by (simp add: lock_inv_def counts_ok_def MAX_LOCKMODES_def)
  have "counts_ok ?L ps (Some (p, m))"
    using inv m len by (auto simp: lock_inv_def counts_ok_def w pends_def MAX_LOCKMODES_def)
  moreover have "holders_ok G ?L" "compatible G ?L"
    using inv by (simp_all add: lock_inv_def holders_ok_def compatible_def conflicting_def blocker_def)
  moreover have "queue_ok tag ?L ps" "pending_ok ?L (Some (p, m))"
    using inv p m nh unfolding lock_inv_def queue_ok_def pending_ok_def hm by simp_all
  ultimately show ?thesis by (simp add: lock_inv_def)
qed

text \<open>
  A lock with a request set up: it was \<open>L0\<close>, in the table or new.
\<close>

lemma Setup_run:
  assumes "L0 = (case lock_hash s tag of Some L \<Rightarrow> L | None \<Rightarrow> new_lock typ)" and "\<not> bit (hold_mask L0 p) m" and "m \<in> {1 .. 8}"
    and "lock_hash s tag \<noteq> None \<Longrightarrow> nRequested L0 \<noteq> 0"
    and L2: "L2 = count_request m (add_proclock G p L0)"
  shows "SetupLockInTable lr pr G p tag typ m s = (Inr None, s)
    \<or> SetupLockInTable lr pr G p tag typ m s = (Inr (Some L2), s \<lparr> lock_hash := (lock_hash s)(tag \<mapsto> L2) \<rparr>)"
proof -
  have h2: "hold_mask L2 p AND LOCKBIT_ON m = 0"
    using assms(2,3) hold_mask_cong [of L2 "add_proclock G p L0" p] by (simp add: mask_simps L2 count_request_def add_proclock_hold)
  have P: "(case find_proclock L0 p of Some _ \<Rightarrow> Some L0
      | None \<Rightarrow> if pr then Some (L0 \<lparr> procLocks := procLocks L0 @ [\<lparr> myProc = p, groupLeader = leader_of G p, holdMask = 0 \<rparr>] \<rparr>) else None)
      = (if find_proclock L0 p = None \<and> \<not> pr then None else Some (add_proclock G p L0))"
    by (simp add: add_proclock_def split: option.splits)
  have run: "SetupLockInTable lr pr G p tag typ m s =
      (if find_proclock L0 p = None \<and> \<not> pr
       then (Inr None, s \<lparr> lock_hash := (if nRequested L0 = 0 then (lock_hash s)(tag := None) else (lock_hash s)(tag \<mapsto> L0)) \<rparr>)
       else (Inr (Some L2), s \<lparr> lock_hash := (lock_hash s)(tag \<mapsto> L2) \<rparr>))" if "lock_hash s tag \<noteq> None \<or> lr"
  proof -
    have "(case lock_hash s tag of Some lock \<Rightarrow> Some lock | None \<Rightarrow> if lr then Some (new_lock typ) else None) = Some L0"
      using that assms(1) by (auto split: option.splits)
    then show ?thesis
      unfolding SetupLockInTable_def leader_of_def [symmetric] using h2 P
      by (simp add: Let_def L2 count_request_def)
  qed
  have keep: "s \<lparr> lock_hash := (if nRequested L0 = 0 then (lock_hash s)(tag := None) else (lock_hash s)(tag \<mapsto> L0)) \<rparr> = s"
  proof (cases "lock_hash s tag")
    case None
    then have "nRequested L0 = 0" "(lock_hash s)(tag := None) = lock_hash s"
      using assms(1) by (simp_all add: new_lock_def fun_upd_idem)
    then show ?thesis by simp
  next
    case (Some L)
    then have "nRequested L0 \<noteq> 0" "(lock_hash s)(tag \<mapsto> L0) = lock_hash s"
      using assms(1,4) by (simp_all add: fun_upd_idem)
    then show ?thesis by simp
  qed
  show ?thesis
  proof (cases "lock_hash s tag \<noteq> None \<or> lr")
    case True
    then show ?thesis using run keep by simp
  next
    case False
    then show ?thesis by (simp add: SetupLockInTable_def)
  qed
qed

subsection \<open>Joining the queue\<close>

text \<open>A request that must wait behind the waiters \<open>xs\<close>.\<close>

definition held_up :: "groups \<Rightarrow> LOCK \<Rightarrow> (ProcNumber \<Rightarrow> PGPROC) \<Rightarrow> ProcNumber list \<Rightarrow> ProcNumber \<Rightarrow> LOCKMODE \<Rightarrow> bool" where
  "held_up G L ps xs p m \<longleftrightarrow> (\<exists>v \<in> set xs. conflict m (waitLockMode (ps v))) \<or> conflicting G L p m"

lemma queue_scan_ok:
  assumes "\<forall>x. bit ahead x \<longrightarrow> (\<exists>v \<in> set seen. waitLockMode (ps v) = x)"
    and "lock_check_conflicts_raw G m L p = Inr (conflicting G L p m)"
  shows "\<exists>place. queue_scan G ps L p m held rest ahead = Inr place \<and> (place = GrantedInstead \<longrightarrow> \<not> conflicting G L p m)
    \<and> (\<forall>w. place = Before w \<longrightarrow> (\<exists>xs ys. rest = xs @ w # ys \<and> held_up G L ps (seen @ xs) p m))"
  using assms
proof (induction rest arbitrary: seen ahead)
  case (Cons w rest)
  let ?m = "waitLockMode (ps w)"
  have skip: "\<exists>place. queue_scan G ps L p m held rest a = Inr place \<and> (place = GrantedInstead \<longrightarrow> \<not> conflicting G L p m)
      \<and> (\<forall>v. place = Before v \<longrightarrow> (\<exists>xs ys. w # rest = xs @ v # ys \<and> held_up G L ps (seen @ xs) p m))"
    if a: "\<forall>x. bit a x \<longrightarrow> (\<exists>v \<in> set (seen @ [w]). waitLockMode (ps v) = x)" for a
  proof -
    obtain place where pl: "queue_scan G ps L p m held rest a = Inr place" "place = GrantedInstead \<longrightarrow> \<not> conflicting G L p m"
      "\<forall>v. place = Before v \<longrightarrow> (\<exists>xs ys. rest = xs @ v # ys \<and> held_up G L ps ((seen @ [w]) @ xs) p m)"
      using Cons.IH [OF a Cons.prems(2)] by (elim exE conjE) (rule that, assumption+)
    have "\<exists>xs ys. w # rest = xs @ v # ys \<and> held_up G L ps (seen @ xs) p m" if "place = Before v" for v
    proof -
      from pl(3) that obtain xs ys where "rest = xs @ v # ys" "held_up G L ps ((seen @ [w]) @ xs) p m" by blast
      then have "w # rest = (w # xs) @ v # ys \<and> held_up G L ps (seen @ (w # xs)) p m" by simp
      then show ?thesis by blast
    qed
    with pl(1,2) show ?thesis by blast
  qed
  have a1: "\<forall>x. bit ahead x \<longrightarrow> (\<exists>v \<in> set (seen @ [w]). waitLockMode (ps v) = x)"
    using Cons.prems(1) by auto
  have a2: "\<forall>x. bit (ahead OR LOCKBIT_ON ?m) x \<longrightarrow> (\<exists>v \<in> set (seen @ [w]). waitLockMode (ps v) = x)"
    using Cons.prems(1) by (auto simp: bit_or_iff)
  consider (group) "G p \<noteq> None \<and> G p = G w" | (next') "\<not> (G p \<noteq> None \<and> G p = G w)" "conflictTab ?m AND held = 0"
    | (dead) "\<not> (G p \<noteq> None \<and> G p = G w)" "conflictTab ?m AND held \<noteq> 0" "conflictTab m AND heldLocks (ps w) \<noteq> 0"
    | (here) "\<not> (G p \<noteq> None \<and> G p = G w)" "conflictTab ?m AND held \<noteq> 0" "conflictTab m AND heldLocks (ps w) = 0"
    by blast
  then show ?case
  proof cases
    case group
    then have "queue_scan G ps L p m held (w # rest) ahead = queue_scan G ps L p m held rest ahead" by auto
    with skip [OF a1] show ?thesis by simp
  next
    case next'
    then have "queue_scan G ps L p m held (w # rest) ahead = queue_scan G ps L p m held rest (ahead OR LOCKBIT_ON ?m)"
      by (auto simp: Let_def)
    with skip [OF a2] show ?thesis by simp
  next
    case dead
    then have "queue_scan G ps L p m held (w # rest) ahead = Inr EarlyDeadlock" by (auto simp: Let_def)
    then show ?thesis by simp
  next
    case here
    have run: "queue_scan G ps L p m held (w # rest) ahead =
        (if conflictTab m AND ahead = 0 \<and> \<not> conflicting G L p m then Inr GrantedInstead else Inr (Before w))"
      using here Cons.prems(2) by (auto simp: Let_def)
    have "held_up G L ps seen p m" if "\<not> (conflictTab m AND ahead = 0 \<and> \<not> conflicting G L p m)"
      using that Cons.prems(1) unfolding conflict_mask held_up_def by metis
    then show ?thesis
      unfolding run by (auto intro: exI [of _ "[]"])
  qed
qed simp

lemma insert_before_at: "w \<notin> set xs \<Longrightarrow> insert_before p w (xs @ w # ys) = xs @ p # w # ys"
  by (induction xs) auto

lemma all_wait_insert:
  assumes "all_wait G L ps (xs @ ys)" and "waits G L ps' xs p"
    and "\<And>v. v \<in> set (xs @ ys) \<Longrightarrow> waitLockMode (ps' v) = waitLockMode (ps v)"
  shows "all_wait G L ps' (xs @ p # ys)"
  unfolding all_wait_def
proof (intro allI impI)
  fix as w bs assume e: "xs @ p # ys = as @ w # bs"
  have mono: "waits G L ps' zs w" if "waits G L ps zs' w" "set zs' \<subseteq> set zs" "set zs' \<subseteq> set (xs @ ys)" "w \<in> set (xs @ ys)" for zs zs'
    using that assms(3) unfolding waits_def by (metis subsetD)
  from e consider (before) us where "xs = as @ w # us" | (at) "as = xs" "w = p" | (after) us where "as = xs @ p # us" "ys = us @ w # bs"
    by (auto simp: append_eq_append_conv2 append_eq_Cons_conv Cons_eq_append_conv)
  then show "waits G L ps' as w"
  proof cases
    case before
    then have "waits G L ps as w" using assms(1) by (simp add: all_wait_def)
    then show ?thesis by (rule mono) (use before in auto)
  next
    case at
    with assms(2) show ?thesis by simp
  next
    case after
    then have "waits G L ps (xs @ us) w" using assms(1) by (simp add: all_wait_def)
    then show ?thesis by (rule mono) (use after in auto)
  qed
qed

lemma enqueue_inv:
  assumes inv: "lock_inv G tag L ps (Some (p, m))" and aw: "all_wait G L ps (waitProcs L)" and q: "waitProcs L = xs @ ys"
    and up: "held_up G L ps xs p m"
    and L': "L' = L \<lparr> waitProcs := xs @ p # ys, waitMask := waitMask L OR LOCKBIT_ON m \<rparr>"
    and ps': "\<And>v. v \<noteq> p \<Longrightarrow> ps' v = ps v" "waitLock (ps' p) = Some tag" "waitLockMode (ps' p) = m"
  shows "lock_inv G tag L' ps' None" "all_wait G L' ps' (waitProcs L')"
proof -
  have pe: "p \<in> myProc ` set (procLocks L)" "p \<notin> set (waitProcs L)" "m \<in> {1 .. 8}" "\<not> bit (hold_mask L p) m"
    and cnt: "counts_ok L ps (Some (p, m))" and qu: "queue_ok tag L ps"
    using inv by (auto simp: lock_inv_def pending_ok_def)
  have hm: "hold_mask L' v = hold_mask L v" for v by (rule hold_mask_cong) (simp add: L')
  have same: "ps' v = ps v" if "v \<in> set (waitProcs L)" for v using that pe(2) ps'(1) [of v] by auto
  have w: "waiting x L' ps' = waiting x L ps + (if x = m then 1 else 0)" for x
  proof -
    have "filter (\<lambda>v. waitLockMode (ps' v) = x) zs = filter (\<lambda>v. waitLockMode (ps v) = x) zs" if "set zs \<subseteq> set (waitProcs L)" for zs
      using that same by (intro filter_cong) auto
    from this [of xs] this [of ys] show ?thesis
      using ps'(3) by (auto simp: waiting_def L' q)
  qed
  have "counts_ok L' ps' None"
    using cnt pe(3) unfolding counts_ok_def w by (auto simp: L' pends_def bit_or_iff split: if_splits)
  moreover have "queue_ok tag L' ps'"
    using qu pe same ps' unfolding queue_ok_def hm by (auto simp: L' q)
  moreover have "holders_ok G L'" "compatible G L'"
    using inv by (simp_all add: lock_inv_def holders_ok_def compatible_def conflicting_def blocker_def L')
  ultimately show "lock_inv G tag L' ps' None" by (simp add: lock_inv_def pending_ok_def)
  have cf: "conflicting G L' v x \<longleftrightarrow> conflicting G L v x" for v x by (simp add: conflicting_def blocker_def L')
  have "waits G L ps' xs p"
    using up same unfolding waits_def held_up_def ps'(3) q by (metis Un_iff set_append)
  then have "all_wait G L ps' (xs @ p # ys)"
    using aw same unfolding q by (intro all_wait_insert) simp_all
  then have "all_wait G L' ps' (xs @ p # ys)" by (rule all_wait_mono) (simp_all add: cf)
  then show "all_wait G L' ps' (waitProcs L')" by (simp add: L')
qed

definition joined ::
  "groups \<Rightarrow> nat \<Rightarrow> ProcNumber \<Rightarrow> LOCKMODE \<Rightarrow> LOCK \<Rightarrow> (ProcNumber \<Rightarrow> PGPROC) \<Rightarrow> ProcWaitStatus \<Rightarrow> LOCK \<Rightarrow> (ProcNumber \<Rightarrow> PGPROC) \<Rightarrow> bool" where
  "joined G tag p m L ps st L' ps' \<longleftrightarrow> (\<forall>v. v \<noteq> p \<longrightarrow> ps' v = ps v) \<and>
    (case st of
       PROC_WAIT_STATUS_OK \<Rightarrow> L' = grant_lock_raw p m L \<and> \<not> conflicting G L p m \<and> waitLock (ps' p) = waitLock (ps p)
     | PROC_WAIT_STATUS_ERROR \<Rightarrow> L' = L \<and> waitLock (ps' p) = waitLock (ps p)
     | PROC_WAIT_STATUS_WAITING \<Rightarrow> lock_inv G tag L' ps' None \<and> all_wait G L' ps' (waitProcs L') \<and> waitLock (ps' p) = Some tag
         \<and> waitLockMode (ps' p) = m \<and> (\<exists>xs ys. waitProcs L = xs @ ys \<and> waitProcs L' = xs @ p # ys) \<and> procLocks L' = procLocks L
         \<and> nRequested L' = nRequested L)"

lemma JoinWaitQueue_ok:
  assumes inv: "lock_inv G tag L ps (Some (p, m))" and G: "groups_ok G" and aw: "all_wait G L ps (waitProcs L)"
    and up: "held_up G L ps (waitProcs L) p m"
  shows "\<exists>st L' ps'. JoinWaitQueue G tag p m dw L ps = Inr (st, L', ps') \<and> joined G tag p m L ps st L' ps'"
proof -
  define ps1 where "ps1 = ps(p := (ps p) \<lparr> heldLocks := hold_mask L p \<rparr>)"
  have pe: "p \<in> myProc ` set (procLocks L)" "p \<notin> set (waitProcs L)" "m \<in> {1 .. 8}" and ok: "holders_ok G L" and d: "distinct (waitProcs L)"
    using inv by (auto simp: lock_inv_def pending_ok_def queue_ok_def)
  note chk = check_conflicts_ok [OF ok G pe(3,1)]
  have mode: "waitLockMode (ps1 v) = waitLockMode (ps v)" for v by (simp add: ps1_def)
  have hu: "held_up G L ps1 xs p m \<longleftrightarrow> held_up G L ps xs p m" for xs by (simp add: held_up_def mode)
  define scan where "scan = (if group_held G L p \<noteq> 0 \<and> waitProcs L \<noteq> []
    then queue_scan G ps1 L p m (group_held G L p) (waitProcs L) 0 else Inr Tail)"
  have "\<exists>place. scan = Inr place \<and> (place = GrantedInstead \<longrightarrow> \<not> conflicting G L p m)
      \<and> (\<forall>w. place = Before w \<longrightarrow> (\<exists>xs ys. waitProcs L = xs @ w # ys \<and> held_up G L ps1 ([] @ xs) p m))"
    unfolding scan_def using queue_scan_ok [of 0 "[]" ps1 G m L p "group_held G L p" "waitProcs L"] chk by auto
  then obtain place where pl: "scan = Inr place" "place = GrantedInstead \<Longrightarrow> \<not> conflicting G L p m"
    "\<And>w. place = Before w \<Longrightarrow> \<exists>xs ys. waitProcs L = xs @ w # ys \<and> held_up G L ps xs p m"
    by (auto simp: hu)
  define ps2 where "ps2 = ps1(p := (ps1 p) \<lparr> waitLock := Some tag, waitLockMode := m, waitStatus := PROC_WAIT_STATUS_WAITING \<rparr>)"
  define L2 where "L2 = (case place of Before w \<Rightarrow> L \<lparr> waitProcs := insert_before p w (waitProcs L) \<rparr>
      | _ \<Rightarrow> L \<lparr> waitProcs := waitProcs L @ [p] \<rparr>)"
  have run: "JoinWaitQueue G tag p m dw L ps =
      (if place = GrantedInstead then Inr (PROC_WAIT_STATUS_OK, grant_lock_raw p m L, ps1)
       else if place = EarlyDeadlock \<or> dw then Inr (PROC_WAIT_STATUS_ERROR, L, ps1)
       else Inr (PROC_WAIT_STATUS_WAITING, L2 \<lparr> waitMask := waitMask L2 OR LOCKBIT_ON m \<rparr>, ps2))"
    using pl(1) unfolding JoinWaitQueue_def Let_def scan_def ps1_def [symmetric] ps2_def [symmetric] by (simp add: L2_def)
  consider (ok) "place = GrantedInstead" | (error) "place \<noteq> GrantedInstead" "place = EarlyDeadlock \<or> dw"
    | (wait) "place \<noteq> GrantedInstead" "\<not> (place = EarlyDeadlock \<or> dw)" by blast
  then show ?thesis
  proof cases
    case ok
    with pl(2) show ?thesis by (simp add: run joined_def ps1_def)
  next
    case error
    then show ?thesis by (simp add: run joined_def ps1_def)
  next
    case wait
    have "\<exists>xs ys. waitProcs L = xs @ ys \<and> held_up G L ps xs p m \<and> L2 = L \<lparr> waitProcs := xs @ p # ys \<rparr>"
    proof (cases place)
      case (Before w)
      then obtain xs ys where q: "waitProcs L = xs @ w # ys" "held_up G L ps xs p m" using pl(3) by blast
      moreover have "w \<notin> set xs" using d q(1) by simp
      ultimately show ?thesis
        by (intro exI [of _ xs] exI [of _ "w # ys"]) (simp add: L2_def Before insert_before_at)
    qed (use wait up in \<open>auto simp: L2_def\<close>)
    then obtain xs ys where q: "waitProcs L = xs @ ys" "held_up G L ps xs p m" "L2 = L \<lparr> waitProcs := xs @ p # ys \<rparr>" by blast
    define L3 where "L3 = L \<lparr> waitProcs := xs @ p # ys, waitMask := waitMask L OR LOCKBIT_ON m \<rparr>"
    have e: "L2 \<lparr> waitMask := waitMask L2 OR LOCKBIT_ON m \<rparr> = L3" by (simp add: q(3) L3_def)
    have ps2: "v \<noteq> p \<Longrightarrow> ps2 v = ps v" "waitLock (ps2 p) = Some tag" "waitLockMode (ps2 p) = m" for v
      by (simp_all add: ps2_def ps1_def)
    note E = enqueue_inv [OF inv aw q(1,2) L3_def ps2]
    have "joined G tag p m L ps PROC_WAIT_STATUS_WAITING L3 ps2"
      using E ps2 q(1) by (auto simp: joined_def L3_def)
    then show ?thesis
      unfolding run e using wait by auto
  qed
qed

subsection \<open>Acquiring\<close>

lemma undo_inv:
  assumes inv: "lock_inv G tag L ps (Some (p, m))" and wm: "\<And>x. bit (waitMask L) x \<longleftrightarrow> 0 < waiting x L ps"
    and tidy: "tidy L (Some (p, m))" and aw: "all_wait G L ps (waitProcs L)" and up: "held_up G L ps (waitProcs L) p m"
  shows "lock_ok G tag (undo_request p m L) ps" "hold_mask (undo_request p m L) q = hold_mask L q" "waitProcs (undo_request p m L) = waitProcs L"
proof -
  define L1 where "L1 = L \<lparr> nRequested := nRequested L - 1, requested := bump m (- 1) (requested L) \<rparr>"
  have F: "procLocks L1 = procLocks L" "waitProcs L1 = waitProcs L" "granted L1 = granted L" "nGranted L1 = nGranted L"
      "grantMask L1 = grantMask L" "locktag_type L1 = locktag_type L" "nRequested L1 = nRequested L - 1" "requested L1 = bump m (- 1) (requested L)"
    by (simp_all add: L1_def)
  have "bit (waitMask L1) x \<longleftrightarrow> 0 < waiting x L ps" for x using wm by (simp add: L1_def)
  note W = withdraw [OF inv F this]
  have p: "p \<notin> set (waitProcs L1)" using inv by (simp add: F(2) lock_inv_def pending_ok_def)
  define L2 where "L2 = (if hold_mask L1 p = 0 then drop_proclock p L1 else L1)"
  have e: "undo_request p m L = L2"
    unfolding undo_request_def L2_def W(2) Let_def by (simp add: L1_def drop_proclock_def)
  have ok: "holders_ok G L1" using W(1) by (simp add: lock_inv_def)
  have inv2: "lock_inv G tag L2 ps None" using W(1) drop_inv [OF W(1) _ p] by (simp add: L2_def)
  then have ok2: "holders_ok G L2" by (simp add: lock_inv_def)
  have h2: "hold_mask L2 v = hold_mask L v" for v by (simp add: L2_def drop_hold W(2))
  have q2: "waitProcs L2 = waitProcs L" "locktag_type L2 = locktag_type L" by (simp_all add: L2_def F)
  have okL: "holders_ok G L" using inv by (simp add: lock_inv_def)
  have cf: "conflicting G L2 v x \<longleftrightarrow> conflicting G L v x" for v x by (rule same_holds(1) [OF okL ok2 q2(2) h2])
  have "tidy L2 None"
  proof (cases "hold_mask L1 p = 0")
    case True
    then show ?thesis using tidy by (auto simp: L2_def tidy_def F)
  next
    case False
    have "holdMask r \<noteq> 0" if "r \<in> set (procLocks L)" "myProc r = p" for r
      using False hold_mask_eq [OF holders_distinct [OF okL] that(1)] that(2) by (simp add: W(2))
    with False tidy show ?thesis by (auto simp: L2_def tidy_def F)
  qed
  moreover have "all_wait G L2 ps (waitProcs L2)"
    unfolding q2 by (rule all_wait_mono [OF aw]) (simp_all add: cf)
  moreover have "0 < nRequested L2"
    using up unfolding held_up_def
  proof
    assume "\<exists>v \<in> set (waitProcs L). conflict m (waitLockMode (ps v))"
    then show ?thesis using requests(3) [OF inv2] q2 by auto
  next
    assume "conflicting G L p m"
    then obtain q b where "bit (hold_mask L q) b" unfolding conflicting_iff [OF okL] by blast
    then show ?thesis using requests(2) [OF inv2] h2 by simp
  qed
  ultimately show "lock_ok G tag (undo_request p m L) ps" using inv2 by (simp add: lock_ok_def e)
  show "hold_mask (undo_request p m L) q = hold_mask L q" by (simp add: e h2)
  show "waitProcs (undo_request p m L) = waitProcs L" by (simp add: e q2)
qed

lemma grant_ok:
  assumes inv: "lock_inv G tag L ps (Some (p, m))" and tidy: "tidy L (Some (p, m))" and aw: "all_wait G L ps (waitProcs L)"
    and free: "\<not> conflicting G L p m"
  shows "lock_ok G tag (grant_lock_raw p m L) ps" "bit (hold_mask (grant_lock_raw p m L) q) x \<longleftrightarrow> bit (hold_mask L q) x \<or> (q, x) = (p, m)"
proof -
  let ?L = "grant_lock_raw p m L"
  have ok: "holders_ok G L" and p: "p \<in> myProc ` set (procLocks L)" and m: "m \<in> {1 .. 8}"
    using inv by (auto simp: lock_inv_def pending_ok_def)
  have h: "bit (hold_mask ?L q) x \<longleftrightarrow> bit (hold_mask L q) x \<or> (q, x) = (p, m)" for q x
    using m by (auto simp: grant_hold [OF ok p] bit_or_iff)
  note inv' = grant_inv [OF inv free]
  have "bit (hold_mask ?L p) m" by (simp add: h)
  then have "0 < nRequested ?L" by (rule requests(2) [OF inv'])
  moreover have "all_wait G ?L ps (waitProcs ?L)"
    unfolding grant_fields by (rule all_wait_mono [OF aw]) (simp_all add: grant_mono [OF ok p])
  moreover have "tidy ?L None"
  proof -
    have "bit (h OR LOCKBIT_ON m) m" for h :: LOCKMASK using m by (simp add: bit_or_iff)
    then have "h OR LOCKBIT_ON m \<noteq> 0" for h :: LOCKMASK by (metis bit_0_eq bot_apply bot_bool_def)
    then show ?thesis
      using tidy unfolding tidy_def grant_fields set_hold_set by auto
  qed
  ultimately show "lock_ok G tag ?L ps" using inv' by (simp add: lock_ok_def)
  show "bit (hold_mask ?L q) x \<longleftrightarrow> bit (hold_mask L q) x \<or> (q, x) = (p, m)" by (rule h)
qed

text \<open>A request as set up for a process that neither waits nor holds the mode.\<close>

lemma setup_inv:
  assumes ok: "state_ok G s" and np: "waitLock (procs s p) = None" and m: "m \<in> {1 .. 8}" and nh: "\<not> holds s tag p m"
    and L0: "L0 = (case lock_hash s tag of Some L \<Rightarrow> L | None \<Rightarrow> new_lock typ)" and L2: "L2 = count_request m (add_proclock G p L0)"
  shows "bit (hold_mask L0 q) x \<longleftrightarrow> holds s tag q x" "lock_inv G tag L2 (procs s) (Some (p, m))" "tidy L2 (Some (p, m))"
    "all_wait G L2 (procs s) (waitProcs L2)" "bit (waitMask L2) x \<longleftrightarrow> 0 < waiting x L2 (procs s)"
    "waitProcs L2 = queue s tag" "hold_mask L2 q = hold_mask L0 q" "rest_ok G tag s L2"
proof -
  have inv0: "lock_inv G tag L0 (procs s) None" and q0: "waitProcs L0 = queue s tag" and aw0: "all_wait G L0 (procs s) (waitProcs L0)"
    and tidy0: "tidy L0 None" and pq: "p \<notin> set (waitProcs L0)" and h0: "bit (hold_mask L0 q) x \<longleftrightarrow> holds s tag q x" for q x
  proof -
    show "lock_inv G tag L0 (procs s) None" "all_wait G L0 (procs s) (waitProcs L0)" "tidy L0 None" "p \<notin> set (waitProcs L0)"
      using state_lock [OF ok] not_queued [OF ok _ np] new_lock_inv
      by (auto simp: L0 tidy_def split: option.splits)
    show "waitProcs L0 = queue s tag" "bit (hold_mask L0 q) x \<longleftrightarrow> holds s tag q x" for q x
      by (auto simp: L0 queue_def holds_def new_lock_def hold_mask_def find_proclock_def split: option.splits)
  qed
  show "bit (hold_mask L0 q) x \<longleftrightarrow> holds s tag q x" by (rule h0)
  have h2: "hold_mask L2 q = hold_mask L0 q" for q
    unfolding L2 using hold_mask_cong [OF count_request_fields(1)] by (simp add: add_proclock_hold)
  then show "hold_mask L2 q = hold_mask L0 q" .
  have q2: "waitProcs L2 = waitProcs L0" by (simp add: L2)
  then show "waitProcs L2 = queue s tag" by (simp add: q0)
  show inv2: "lock_inv G tag L2 (procs s) (Some (p, m))"
    unfolding L2 using pq m nh by (intro count_request_inv add_proclock_inv inv0) (auto simp: add_proclock_hold h0)
  have ok0: "holders_ok G L0" and ok2: "holders_ok G L2" using inv0 inv2 by (simp_all add: lock_inv_def)
  have cf: "conflicting G L2 v x \<longleftrightarrow> conflicting G L0 v x" for v x
    by (rule same_holds(1) [OF ok0 ok2 _ h2]) (simp add: L2)
  show "all_wait G L2 (procs s) (waitProcs L2)"
    unfolding q2 by (rule all_wait_mono [OF aw0]) (simp_all add: cf)
  show "tidy L2 (Some (p, m))"
    using tidy0 by (auto simp: tidy_def L2 add_proclock_def split: option.splits)
  have "waiting x L2 (procs s) = waiting x L0 (procs s)" by (rule waiting_cong [OF q2])
  then show "bit (waitMask L2) x \<longleftrightarrow> 0 < waiting x L2 (procs s)"
    using inv0 by (auto simp: lock_inv_def counts_ok_def pends_def L2)
  show "rest_ok G tag s L2"
  proof (cases "lock_hash s tag")
    case None
    then have "waitLock (procs s q) \<noteq> Some tag" for q using ok unfolding state_ok_def by (metis option.distinct(1))
    with ok show ?thesis unfolding state_ok_def rest_ok_def by simp
  next
    case (Some L)
    then have "L = L0" by (simp add: L0)
    with rest_okI [OF ok Some] show ?thesis by (simp add: rest_ok_def q2)
  qed
qed

text \<open>What an attempt to acquire does: it is granted, waits, or leaves the holds and queues as they were.\<close>

definition acquired :: "nat \<Rightarrow> ProcNumber \<Rightarrow> LOCKMODE \<Rightarrow> lock_state \<Rightarrow> acquire_result \<Rightarrow> lock_state \<Rightarrow> bool" where
  "acquired tag p m s r s' \<longleftrightarrow> (\<forall>t q x. holds s' t q x \<longleftrightarrow> holds s t q x \<or> r = Granted \<and> (t, q, x) = (tag, p, m))
     \<and> (\<forall>t. set (queue s' t) = (if r = Waiting \<and> t = tag then insert p (set (queue s t)) else set (queue s t)))
     \<and> (\<forall>q. q \<noteq> p \<longrightarrow> procs s' q = procs s q)
     \<and> (if r = Waiting then waitLock (procs s' p) = Some tag \<and> waitLockMode (procs s' p) = m else waitLock (procs s' p) = None)"

lemma finish_acquire:
  assumes rest: "rest_ok G tag s L" and q: "waitProcs L = queue s tag" and np: "waitLock (procs s p) = None"
    and ok: "lock_ok G tag L' ps'" and ps': "\<And>v. v \<noteq> p \<Longrightarrow> ps' v = procs s v"
    and h: "\<And>q x. bit (hold_mask L' q) x \<longleftrightarrow> holds s tag q x \<or> r = Granted \<and> (q, x) = (p, m)"
    and q': "set (waitProcs L') = (if r = Waiting then insert p (set (queue s tag)) else set (queue s tag))"
    and w: "if r = Waiting then waitLock (ps' p) = Some tag \<and> waitLockMode (ps' p) = m else waitLock (ps' p) = None"
    and s': "s' = \<lparr> lock_hash = (lock_hash s)(tag \<mapsto> L'), procs = ps' \<rparr>"
  shows "state_ok G s'" "acquired tag p m s r s'"
proof -
  have "rest_ok G tag (s \<lparr> procs := ps' \<rparr>) L'"
  proof (rule rest_procs [OF rest])
    show "ps' v = procs s v" if "t \<noteq> tag" "waitLock (procs s v) = Some t" for v t
      by (rule ps') (use that np in auto)
    show "if t = tag then v \<in> set (waitProcs L') else waitLock (procs s v) = Some t" if "waitLock (ps' v) = Some t" for v t
    proof (cases "v = p")
      case True
      then show ?thesis using that w q' by (auto split: if_splits)
    next
      case False
      then have "waitLock (procs s v) = Some t" using that ps' by simp
      then show ?thesis using rest q q' by (auto simp: rest_ok_def split: if_splits)
    qed
  qed
  from put_ok [OF this] ok show "state_ok G s'" by (cases s) (simp add: s')
  show "acquired tag p m s r s'"
    using h q' w ps' by (auto simp: acquired_def s' holds_def queue_def)
qed

lemma finish_join:
  assumes inv: "lock_inv G tag L (procs s) (Some (p, m))" and tidy: "tidy L (Some (p, m))" and aw: "all_wait G L (procs s) (waitProcs L)"
    and wm: "\<And>x. bit (waitMask L) x \<longleftrightarrow> 0 < waiting x L (procs s)" and rest: "rest_ok G tag s L" and q: "waitProcs L = queue s tag"
    and up: "held_up G L (procs s) (waitProcs L) p m" and np: "waitLock (procs s p) = None"
    and h: "\<And>q x. bit (hold_mask L q) x \<longleftrightarrow> holds s tag q x" and j: "joined G tag p m L (procs s) st L' ps'"
    and r: "(r, M) = (case st of PROC_WAIT_STATUS_OK \<Rightarrow> (Granted, L') | PROC_WAIT_STATUS_WAITING \<Rightarrow> (Waiting, L')
      | PROC_WAIT_STATUS_ERROR \<Rightarrow> (NotGranted, undo_request p m L'))"
    and s': "s' = \<lparr> lock_hash = (lock_hash s)(tag \<mapsto> M), procs = ps' \<rparr>"
  shows "state_ok G s'" "acquired tag p m s r s'"
proof -
  have ps': "\<And>v. v \<noteq> p \<Longrightarrow> ps' v = procs s v" using j by (simp add: joined_def)
  have pq: "p \<notin> set (waitProcs L)" using inv by (simp add: lock_inv_def pending_ok_def)
  have keep: "lock_ok G tag N ps'" if "lock_ok G tag N (procs s)" "waitProcs N = waitProcs L" for N
    by (rule lock_ok_procs [OF that(1)]) (use that(2) pq ps' in metis)
  have "lock_ok G tag M ps' \<and> (\<forall>q x. bit (hold_mask M q) x \<longleftrightarrow> holds s tag q x \<or> r = Granted \<and> (q, x) = (p, m))
    \<and> set (waitProcs M) = (if r = Waiting then insert p (set (queue s tag)) else set (queue s tag))
    \<and> (if r = Waiting then waitLock (ps' p) = Some tag \<and> waitLockMode (ps' p) = m else waitLock (ps' p) = None)"
  proof (cases st)
    case PROC_WAIT_STATUS_OK
    then have e: "r = Granted" "M = grant_lock_raw p m L" "\<not> conflicting G L p m" "waitLock (ps' p) = None"
      using r j np by (simp_all add: joined_def)
    note gr = grant_ok [OF inv tidy aw e(3)]
    show ?thesis using keep [OF gr(1)] gr(2) e q by (simp add: h)
  next
    case PROC_WAIT_STATUS_WAITING
    then have e: "r = Waiting" "M = L'" using r by simp_all
    have w: "lock_inv G tag L' ps' None" "all_wait G L' ps' (waitProcs L')" "waitLock (ps' p) = Some tag" "waitLockMode (ps' p) = m"
      "procLocks L' = procLocks L" "set (waitProcs L') = insert p (set (waitProcs L))"
      using j PROC_WAIT_STATUS_WAITING by (auto simp: joined_def)
    have "tidy L' None" using tidy w(5,6) by (auto simp: tidy_def)
    then have "lock_ok G tag L' ps'" using w requests(3) [OF w(1), of p] by (simp add: lock_ok_def)
    then show ?thesis using w e q h hold_mask_cong [OF w(5)] by simp
  next
    case PROC_WAIT_STATUS_ERROR
    then have e: "r = NotGranted" "M = undo_request p m L" "waitLock (ps' p) = None"
      using r j np by (simp_all add: joined_def)
    note un = undo_inv [OF inv wm tidy aw up]
    show ?thesis using keep [OF un(1,3)] un(2,3) e q h by simp
  qed
  then have F: "lock_ok G tag M ps'" "\<And>q x. bit (hold_mask M q) x \<longleftrightarrow> holds s tag q x \<or> r = Granted \<and> (q, x) = (p, m)"
    "set (waitProcs M) = (if r = Waiting then insert p (set (queue s tag)) else set (queue s tag))"
    "if r = Waiting then waitLock (ps' p) = Some tag \<and> waitLockMode (ps' p) = m else waitLock (ps' p) = None" by blast+
  note fin = finish_acquire [OF rest q np F(1) ps' F(2-4) s']
  show "state_ok G s'" by (rule fin(1))
  show "acquired tag p m s r s'" by (rule fin(2))
qed

lemma acquire_ok:
  assumes ok: "state_ok G s" and G: "groups_ok G" and np: "waitLock (procs s p) = None" and m: "m \<in> {1 .. 8}" and nh: "\<not> holds s tag p m"
  shows "\<exists>r s'. LockAcquireShared lr pr G p tag typ m dw s = (Inr r, s') \<and> state_ok G s' \<and> acquired tag p m s r s'"
proof -
  define L0 where "L0 = (case lock_hash s tag of Some L \<Rightarrow> L | None \<Rightarrow> new_lock typ)"
  define L2 where "L2 = count_request m (add_proclock G p L0)"
  define put where "put L ps = \<lparr> lock_hash = (lock_hash s)(tag \<mapsto> L), procs = ps \<rparr>" for L ps
  note S = setup_inv [OF ok np m nh L0_def L2_def]
  have nr: "lock_hash s tag \<noteq> None \<Longrightarrow> nRequested L0 \<noteq> 0"
    using state_lock(4) [OF ok] by (fastforce simp: L0_def)
  have nb: "\<not> bit (hold_mask L0 p) m" using S(1) nh by simp
  have ok2: "holders_ok G L2" and p2: "p \<in> myProc ` set (procLocks L2)"
    using S(2) by (auto simp: lock_inv_def pending_ok_def)
  note chk = check_conflicts_ok [OF ok2 G m p2]
  have up: "conflictTab m AND waitMask L2 \<noteq> 0 \<or> conflicting G L2 p m \<longleftrightarrow> held_up G L2 (procs s) (waitProcs L2) p m"
    unfolding conflict_mask held_up_def S(5) by (auto simp: waiting_def filter_empty_conv)
  from Setup_run [OF L0_def nb m nr L2_def, of lr "pr"] show ?thesis
  proof
    assume "SetupLockInTable lr pr G p tag typ m s = (Inr None, s)"
    then have "LockAcquireShared lr pr G p tag typ m dw s = (Inr NoMemory, s)"
      by (simp add: LockAcquireShared_def)
    with ok np show ?thesis by (simp add: acquired_def)
  next
    assume st: "SetupLockInTable lr pr G p tag typ m s = (Inr (Some L2), s \<lparr> lock_hash := (lock_hash s)(tag \<mapsto> L2) \<rparr>)"
    show ?thesis
    proof (cases "held_up G L2 (procs s) (waitProcs L2) p m")
      case False
      have run: "LockAcquireShared lr pr G p tag typ m dw s = (Inr Granted, put (grant_lock_raw p m L2) (procs s))"
        using False up st chk by (cases s) (simp add: LockAcquireShared_def put_def)
      have free: "\<not> conflicting G L2 p m" using False up by blast
      note gr = grant_ok [OF S(2-4) free]
      have "state_ok G (put (grant_lock_raw p m L2) (procs s)) \<and> acquired tag p m s Granted (put (grant_lock_raw p m L2) (procs s))"
        using finish_acquire [OF S(8,6) np gr(1) refl, where r = Granted and m = m, OF _ _ _ put_def]
        by (simp add: gr(2) S(1,6,7) np)
      then show ?thesis using run by blast
    next
      case True
      obtain st' L' ps' where j: "JoinWaitQueue G tag p m dw L2 (procs s) = Inr (st', L', ps')" "joined G tag p m L2 (procs s) st' L' ps'"
        using JoinWaitQueue_ok [OF S(2) G S(4) True, of dw] by (elim exE conjE) (rule that, assumption+)
      have run: "LockAcquireShared lr pr G p tag typ m dw s = (case st' of
          PROC_WAIT_STATUS_OK \<Rightarrow> (Inr Granted, put L' ps') | PROC_WAIT_STATUS_WAITING \<Rightarrow> (Inr Waiting, put L' ps')
        | PROC_WAIT_STATUS_ERROR \<Rightarrow> (Inr NotGranted, put (undo_request p m L') ps'))"
        using True up st chk j(1) by (cases s) (auto simp: LockAcquireShared_def put_def split: ProcWaitStatus.splits)
      have h: "bit (hold_mask L2 q) x \<longleftrightarrow> holds s tag q x" for q x using S(1,7) by simp
      obtain r M where rM: "(r, M) = (case st' of PROC_WAIT_STATUS_OK \<Rightarrow> (Granted, L') | PROC_WAIT_STATUS_WAITING \<Rightarrow> (Waiting, L')
        | PROC_WAIT_STATUS_ERROR \<Rightarrow> (NotGranted, undo_request p m L'))" by (metis surj_pair)
      have "LockAcquireShared lr pr G p tag typ m dw s = (Inr r, put M ps')"
        unfolding run using rM by (cases st') simp_all
      with finish_join [OF S(2-5,8,6) True np h j(2) rM put_def] show ?thesis by blast
    qed
  qed
qed

subsection \<open>Reordering a queue\<close>

lemma reorder_inv:
  assumes inv: "lock_inv G tag L ps None" and o: "distinct order" "set order = set (waitProcs L)"
  shows "lock_inv G tag (SetWaitQueueOrder order L) ps None"
proof -
  let ?L = "SetWaitQueueOrder order L"
  have d: "distinct (waitProcs L)" using inv by (simp add: lock_inv_def queue_ok_def)
  have hm: "hold_mask ?L q = hold_mask L q" for q by (rule hold_mask_cong) (simp add: SetWaitQueueOrder_def)
  have w: "waiting x ?L ps = waiting x L ps" for x
  proof -
    have "length (filter P order) = length (filter P (waitProcs L))" for P
      using o d distinct_card [OF distinct_filter [OF o(1), of P]] distinct_card [OF distinct_filter [OF d, of P]] by simp
    then show ?thesis by (simp add: waiting_def SetWaitQueueOrder_def)
  qed
  have "counts_ok ?L ps None"
    using inv unfolding lock_inv_def counts_ok_def w by (simp add: SetWaitQueueOrder_def)
  moreover have "queue_ok tag ?L ps"
    using inv o unfolding lock_inv_def queue_ok_def hm by (simp add: SetWaitQueueOrder_def)
  moreover have "holders_ok G ?L" "compatible G ?L"
    using inv by (simp_all add: lock_inv_def holders_ok_def compatible_def conflicting_def blocker_def SetWaitQueueOrder_def)
  ultimately show ?thesis by (simp add: lock_inv_def pending_ok_def)
qed

lemma reorder_ok:
  assumes ok: "state_ok G s" and G: "groups_ok G" and L: "lock_hash s tag = Some L" and o: "distinct order" "set order = set (waitProcs L)"
  shows "\<exists>L' ps'. ProcLockWakeup G (SetWaitQueueOrder order L) (procs s) = Inr (L', ps')
    \<and> state_ok G (s \<lparr> lock_hash := (lock_hash s)(tag \<mapsto> L'), procs := ps' \<rparr>)"
proof -
  note S = state_lock [OF ok L] and inv = reorder_inv [OF state_lock(1) [OF ok L] o]
  let ?L = "SetWaitQueueOrder order L"
  obtain M ps where M: "ProcLockWakeup G ?L (procs s) = Inr (M, ps)" "lock_inv G tag M ps None" "all_wait G M ps (waitProcs M)"
    "woken ?L (procs s) M ps"
    using ProcLockWakeup_ok [OF inv G] by (elim exE conjE) (rule that, assumption+)
  have "holders_ok G M" "holders_ok G ?L" using M(2) inv by (simp_all add: lock_inv_def)
  moreover have "tidy ?L None" using S(2) o by (simp add: tidy_def SetWaitQueueOrder_def)
  ultimately have "tidy M None" using woken_tidy [OF M(4)] by blast
  moreover have "0 < nRequested M" using M(4) S(4) by (simp add: woken_def SetWaitQueueOrder_def)
  ultimately have "lock_ok G tag M ps" using M(2,3) by (simp add: lock_ok_def)
  moreover have "rest_ok G tag s ?L"
    using rest_okI [OF ok L] o by (simp add: rest_ok_def SetWaitQueueOrder_def)
  ultimately have "state_ok G ((s \<lparr> procs := ps \<rparr>) \<lparr> lock_hash := (lock_hash (s \<lparr> procs := ps \<rparr>))(tag \<mapsto> M) \<rparr>)"
    using rest_wake [OF _ inv M(4)] by (intro put_ok) simp_all
  then have "state_ok G (s \<lparr> lock_hash := (lock_hash s)(tag \<mapsto> M), procs := ps \<rparr>)"
    by (cases s) simp
  with M(1) show ?thesis by (intro exI conjI)
qed

subsection \<open>Reachable states\<close>

definition lock_init :: lock_state where
  "lock_init = \<lparr> lock_hash = (\<lambda>_. None), procs = (\<lambda>_. \<lparr> waitLock = None, waitLockMode = 0, heldLocks = 0, waitStatus = PROC_WAIT_STATUS_OK \<rparr>) \<rparr>"

text \<open>
  Any process that is not waiting may ask for a lock it does not hold in that mode, with or without room in
  shared memory, or release a lock it holds; a waiting one may give up; and the deadlock detector may reorder a queue.
\<close>

inductive lock_reach :: "groups \<Rightarrow> lock_state \<Rightarrow> bool" for G where
  init: "lock_reach G lock_init"
| acquire: "lock_reach G s \<Longrightarrow> waitLock (procs s p) = None \<Longrightarrow> lock_method_checked lm m = Inr () \<Longrightarrow> \<not> holds s tag p m
    \<Longrightarrow> lock_reach G (snd (LockAcquireShared lr pr G p tag typ m dw s))"
| release: "lock_reach G s \<Longrightarrow> waitLock (procs s p) = None \<Longrightarrow> holds s tag p m
    \<Longrightarrow> lock_reach G (snd (LockRefindAndRelease G p tag m s))"
| cancel: "lock_reach G s \<Longrightarrow> waitLock (procs s p) \<noteq> None \<Longrightarrow> lock_reach G (snd (RemoveFromWaitQueue G p s))"
| reorder: "lock_reach G s \<Longrightarrow> lock_hash s tag = Some L \<Longrightarrow> distinct order \<Longrightarrow> set order = set (waitProcs L)
    \<Longrightarrow> ProcLockWakeup G (SetWaitQueueOrder order L) (procs s) = Inr (L', ps')
    \<Longrightarrow> lock_reach G (s \<lparr> lock_hash := (lock_hash s)(tag \<mapsto> L'), procs := ps' \<rparr>)"

lemma mode_checked: "lock_method_checked lm m = Inr () \<Longrightarrow> m \<in> {1 .. 8}"
  by (simp add: lock_method_checked_def MaxLockMode_def AccessExclusiveLock_def split: if_splits)

lemma reach_ok: "lock_reach G s \<Longrightarrow> groups_ok G \<Longrightarrow> state_ok G s"
proof (induction rule: lock_reach.induct)
  case init
  show ?case by (simp add: lock_init_def state_ok_def)
next
  case (acquire s p lm m tag lr room kind dw)
  from acquire_ok [OF acquire.IH [OF acquire.prems] acquire.prems acquire.hyps(2) mode_checked [OF acquire.hyps(3)] acquire.hyps(4)]
  show ?case by (metis snd_conv)
next
  case (release s p tag m)
  from release_ok [OF release.IH [OF release.prems] release.prems release.hyps(2,3)] show ?case by (metis snd_conv)
next
  case (cancel s p)
  then obtain tag where "waitLock (procs s p) = Some tag" by auto
  from cancel_ok [OF cancel.IH [OF cancel.prems] cancel.prems this] show ?case by (metis snd_conv)
next
  case (reorder s tag L order L' ps')
  from reorder_ok [OF reorder.IH [OF reorder.prems] reorder.prems reorder.hyps(2-4)] reorder.hyps(5) show ?case by auto
qed

lemma conflict_modes: "b \<in> {1 .. 8} \<Longrightarrow> DoLockModesConflict a b \<longleftrightarrow> conflict a b"
  using and_bit [of b "LOCK_CONFLICTS ! a"] by (simp add: DoLockModesConflict_def conflict_def conflictTab_def)

lemma holds_lock: "holds s t q b \<longleftrightarrow> (\<exists>L. lock_hash s t = Some L \<and> bit (hold_mask L q) b)"
  by (auto simp: holds_def split: option.splits)

lemma dontWait_no_wait: "LockAcquireShared lr room G p tag typ m dw s = (Inr Waiting, s') \<Longrightarrow> \<not> dw"
proof -
  have join: "\<not> dw" if "JoinWaitQueue G tag p m dw L ps = Inr (PROC_WAIT_STATUS_WAITING, L', ps')" for L ps L' ps'
    using that by (auto simp: JoinWaitQueue_def Let_def bindR_Inr_iff split: if_splits)
  assume a: "LockAcquireShared lr room G p tag typ m dw s = (Inr Waiting, s')"
  obtain f s1 where s: "SetupLockInTable lr room G p tag typ m s = (f, s1)" by (cases "SetupLockInTable lr room G p tag typ m s")
  show "\<not> dw"
    using a join unfolding LockAcquireShared_def s
    by (cases f) (auto simp: Let_def bindS_def tryS_def split: sum.splits option.splits if_splits ProcWaitStatus.splits)
qed

subsection \<open>An example run\<close>

text \<open>Processes 1 and 2 are one lock group and take an exclusive lock; process 3 queues behind them.\<close>

definition run_groups :: groups where
  "run_groups p = (if p = 1 \<or> p = 2 then Some 1 else None)"

definition run1 :: lock_state where
  "run1 = snd (LockAcquireShared True True run_groups 1 7 0 AccessExclusiveLock False lock_init)"

definition run2 :: lock_state where
  "run2 = snd (LockAcquireShared True True run_groups 2 7 0 AccessExclusiveLock False run1)"

definition run3 :: lock_state where
  "run3 = snd (LockAcquireShared True True run_groups 3 7 0 AccessShareLock False run2)"

lemma run_groups_ok: "groups_ok run_groups"
  by (auto simp: groups_ok_def run_groups_def split: if_splits)

lemma run_checked: "lock_method_checked 1 AccessExclusiveLock = Inr ()" "lock_method_checked 1 AccessShareLock = Inr ()"
  by (simp_all add: lock_method_checked_def MaxLockMode_def mode_defs)

lemma run_lists: "replicate 10 (0 :: int) = [0, 0, 0, 0, 0, 0, 0, 0, 0, 0]" "[Suc 0 ..< Suc MaxLockMode] = [1, 2, 3, 4, 5, 6, 7, 8]"
  using modes_simps(1) by (simp_all add: modes_def numeral_eq_Suc)

lemmas run_defs = LockAcquireShared_def SetupLockInTable_def new_lock_def find_proclock_def hold_mask_def bump_def MAX_LOCKMODES_def mode_defs
  LOCKBIT_ON_def LOCKBIT_OFF_def conflictTab_def LOCK_CONFLICTS_def lock_check_conflicts_raw_def grant_lock_raw_def set_hold_def Let_def
  JoinWaitQueue_def group_held_def run_groups_def LOCKTAG_RELATION_EXTEND_def run_lists

lemma run1_eq: "run1 = \<lparr> lock_hash = [7 \<mapsto> \<lparr> locktag_type = 0, grantMask = 256, waitMask = 0,
    procLocks = [\<lparr> myProc = 1, groupLeader = 1, holdMask = 256 \<rparr>], waitProcs = [],
    requested = [0, 0, 0, 0, 0, 0, 0, 0, 1, 0], nRequested = 1, granted = [0, 0, 0, 0, 0, 0, 0, 0, 1, 0], nGranted = 1 \<rparr>],
    procs = procs lock_init \<rparr>"
  unfolding run1_def lock_init_def by (simp add: run_defs)

lemma run2_eq: "run2 = \<lparr> lock_hash = [7 \<mapsto> \<lparr> locktag_type = 0, grantMask = 256, waitMask = 0,
    procLocks = [\<lparr> myProc = 1, groupLeader = 1, holdMask = 256 \<rparr>, \<lparr> myProc = 2, groupLeader = 1, holdMask = 256 \<rparr>], waitProcs = [],
    requested = [0, 0, 0, 0, 0, 0, 0, 0, 2, 0], nRequested = 2, granted = [0, 0, 0, 0, 0, 0, 0, 0, 2, 0], nGranted = 2 \<rparr>],
    procs = procs lock_init \<rparr>"
  unfolding run2_def run1_eq by (simp add: run_defs del: upt_Suc)

lemma run3_eq: "run3 = \<lparr> lock_hash = [7 \<mapsto> \<lparr> locktag_type = 0, grantMask = 256, waitMask = 2,
    procLocks = [\<lparr> myProc = 1, groupLeader = 1, holdMask = 256 \<rparr>, \<lparr> myProc = 2, groupLeader = 1, holdMask = 256 \<rparr>,
      \<lparr> myProc = 3, groupLeader = 3, holdMask = 0 \<rparr>], waitProcs = [3],
    requested = [0, 1, 0, 0, 0, 0, 0, 0, 2, 0], nRequested = 3, granted = [0, 0, 0, 0, 0, 0, 0, 0, 2, 0], nGranted = 2 \<rparr>],
    procs = (procs lock_init)(3 := \<lparr> waitLock = Some 7, waitLockMode = 1, heldLocks = 0, waitStatus = PROC_WAIT_STATUS_WAITING \<rparr>) \<rparr>"
  unfolding run3_def run2_eq by (simp add: run_defs lock_init_def del: upt_Suc)

lemma run_facts:
  "waitLock (procs run1 2) = None \<and> \<not> holds run1 7 2 AccessExclusiveLock"
  "waitLock (procs run2 3) = None \<and> \<not> holds run2 7 3 AccessShareLock \<and> holds run2 7 1 AccessExclusiveLock \<and> holds run2 7 2 AccessExclusiveLock"
  "waitLock (procs run3 1) = None \<and> holds run3 7 1 AccessExclusiveLock \<and> queue run3 7 = [3]"
  unfolding run1_eq run2_eq run3_eq
  by (simp_all add: holds_def queue_def hold_mask_def find_proclock_def lock_init_def mode_defs)

lemma run_reach: "lock_reach run_groups run1" "lock_reach run_groups run2" "lock_reach run_groups run3"
proof -
  show 1: "lock_reach run_groups run1"
    unfolding run1_def by (rule lock_reach.acquire [OF lock_reach.init _ run_checked(1)]) (simp_all add: lock_init_def holds_def)
  show 2: "lock_reach run_groups run2"
    unfolding run2_def by (rule lock_reach.acquire [OF 1 _ run_checked(1)]) (simp_all add: run_facts)
  show "lock_reach run_groups run3"
    unfolding run3_def by (rule lock_reach.acquire [OF 2 _ run_checked(2)]) (simp_all add: run_facts)
qed

subsection \<open>The guarantees\<close>

text \<open>
  C12: (Mutual exclusion.) In every reachable state, if two different processes hold a lock in conflicting modes,
  they belong to one lock group and the lock is not a relation extension lock.
\<close>

theorem lock_table_safe:
  assumes "lock_reach G s" and "groups_ok G" and "holds s tag p a" and "holds s tag q b" and "p \<noteq> q" and "DoLockModesConflict a b"
  shows "leader_of G p = leader_of G q \<and> (\<exists>L. lock_hash s tag = Some L \<and> locktag_type L \<noteq> LOCKTAG_RELATION_EXTEND)"
proof -
  obtain L where L: "lock_hash s tag = Some L" "bit (hold_mask L p) a" "bit (hold_mask L q) b"
    using assms(3,4) by (auto simp: holds_lock)
  note S = state_lock [OF reach_ok [OF assms(1,2)] L(1)]
  have "\<not> conflicting G L p a"
    using S(1) L(2) compatible_iff [OF S(5)] by (simp add: lock_inv_def)
  then have "leader_of G q = leader_of G p \<and> locktag_type L \<noteq> LOCKTAG_RELATION_EXTEND"
    using L(3) assms(5,6) conflict_modes [OF hold_range(1) [OF S(5) L(3)]] unfolding conflicting_iff [OF S(5)] by metis
  with L(1) show ?thesis by auto
qed

theorem lock_table_safe_witness:
  "holds run2 7 1 AccessExclusiveLock \<and> holds run2 7 2 AccessExclusiveLock \<and> leader_of run_groups 1 = leader_of run_groups 2"
  using lock_table_safe [OF run_reach(2) run_groups_ok, of 7 1 AccessExclusiveLock 2 AccessExclusiveLock] run_facts(2)
  by (simp add: DoLockModesConflict_def LOCK_CONFLICTS_def mode_defs and_nonzero bit_or_iff)

text \<open>
  C13: (No lost wakeups.) In every reachable state every waiter of a queue has a reason to wait: a conflicting request
  ahead of it in the queue, or a holder of a conflicting mode that is not exempt as a member of its lock group. The first waiter
  of a queue therefore always waits for a holder.
\<close>

theorem no_lost_wakeup:
  assumes "lock_reach G s" and "groups_ok G" and "lock_hash s tag = Some L" and "waitProcs L = ahead @ w # behind"
  shows "waitLock (procs s w) = Some tag
    \<and> ((\<exists>v \<in> set ahead. DoLockModesConflict (waitLockMode (procs s w)) (waitLockMode (procs s v)))
       \<or> (\<exists>q b. holds s tag q b \<and> q \<noteq> w \<and> DoLockModesConflict (waitLockMode (procs s w)) b
            \<and> (leader_of G q \<noteq> leader_of G w \<or> locktag_type L = LOCKTAG_RELATION_EXTEND)))"
proof -
  note S = state_lock [OF reach_ok [OF assms(1,2)] assms(3)]
  have q: "\<forall>v \<in> set (waitProcs L). waitLock (procs s v) = Some tag \<and> waitLockMode (procs s v) \<in> {1 .. 8}"
    using S(1) by (simp add: lock_inv_def queue_ok_def)
  have "waits G L (procs s) ahead w"
    using S(3) assms(4) by (simp add: all_wait_def)
  then have "(\<exists>v \<in> set ahead. DoLockModesConflict (waitLockMode (procs s w)) (waitLockMode (procs s v)))
      \<or> conflicting G L w (waitLockMode (procs s w))"
    using q conflict_modes unfolding waits_def assms(4) by auto
  moreover have "\<exists>q b. holds s tag q b \<and> q \<noteq> w \<and> DoLockModesConflict (waitLockMode (procs s w)) b
      \<and> (leader_of G q \<noteq> leader_of G w \<or> locktag_type L = LOCKTAG_RELATION_EXTEND)"
    if "conflicting G L w (waitLockMode (procs s w))"
  proof -
    from that obtain q b where qb: "q \<noteq> w" "leader_of G q \<noteq> leader_of G w \<or> locktag_type L = LOCKTAG_RELATION_EXTEND"
      "conflict (waitLockMode (procs s w)) b" "bit (hold_mask L q) b"
      unfolding conflicting_iff [OF S(5)] by blast
    then show ?thesis
      using conflict_modes [OF hold_range(1) [OF S(5) qb(4)]] assms(3) unfolding holds_lock by blast
  qed
  ultimately show ?thesis using q assms(4) by auto
qed

theorem no_lost_wakeup_witness:
  "\<exists>q b. holds run3 7 q b \<and> q \<noteq> 3 \<and> DoLockModesConflict (waitLockMode (procs run3 3)) b"
proof -
  obtain L where L: "lock_hash run3 7 = Some L" "waitProcs L = [] @ 3 # []"
    using run_facts(3) by (auto simp: queue_def split: option.splits)
  from no_lost_wakeup [OF run_reach(3) run_groups_ok L] show ?thesis by auto
qed



text \<open>
  C31: (Releasing.) In every reachable state, releasing a mode one holds succeeds; afterwards the releasing process does not hold
  the mode, every other hold remains, and each waiter of the lock either still waits or holds the mode it waited for.
\<close>

theorem LockRelease_correct:
  assumes "lock_reach G s" and "groups_ok G" and "waitLock (procs s p) = None" and "holds s tag p m"
  shows "\<exists>s'. LockRefindAndRelease G p tag m s = (Inr (), s')
    \<and> (\<forall>t. t \<noteq> tag \<longrightarrow> lock_hash s' t = lock_hash s t) \<and> set (queue s' tag) \<subseteq> set (queue s tag)
    \<and> (\<forall>q x. holds s' tag q x \<longleftrightarrow> holds s tag q x \<and> (q, x) \<noteq> (p, m)
         \<or> q \<in> set (queue s tag) \<and> q \<notin> set (queue s' tag) \<and> x = waitLockMode (procs s q))"
  using release_ok [OF reach_ok [OF assms(1,2)] assms(2-4)] by (elim exE conjE) (intro exI conjI)

theorem LockRelease_correct_witness:
  "\<exists>s'. LockRefindAndRelease run_groups 1 7 AccessExclusiveLock run3 = (Inr (), s') \<and> \<not> holds s' 7 1 AccessExclusiveLock"
proof -
  obtain s' where s': "LockRefindAndRelease run_groups 1 7 AccessExclusiveLock run3 = (Inr (), s')"
    "\<forall>q x. holds s' 7 q x \<longleftrightarrow> holds run3 7 q x \<and> (q, x) \<noteq> (1, AccessExclusiveLock)
       \<or> q \<in> set (queue run3 7) \<and> q \<notin> set (queue s' 7) \<and> x = waitLockMode (procs run3 q)"
    using LockRelease_correct [OF run_reach(3) run_groups_ok, of 1 7 AccessExclusiveLock] run_facts(3) by auto
  then show ?thesis using run_facts(3) by auto
qed

end
