(* ===== verification/XidNat.thy ===== *)
theory XidNat
  imports Xid
begin

section \<open>Full transaction ids as natural numbers\<close>

text \<open>
  The specifications of the process array count transactions by natural numbers: \<open>xid_of f\<close> is the 32-bit id of the \<open>f\<close>th
  one. Within a window of less than \<open>2^31\<close> the 32-bit comparisons decide the order of the numbers, and advancing and widening
  are functions on them.
\<close>

definition xid_of :: "nat \<Rightarrow> TransactionId" where
  "xid_of f = word_of_nat f"

definition normal_full :: "nat \<Rightarrow> bool" where
  "normal_full f \<longleftrightarrow> 3 \<le> f mod 2 ^ 32"

definition near :: "nat \<Rightarrow> nat \<Rightarrow> bool" where
  "near a b \<longleftrightarrow> \<bar>int a - int b\<bar> < 2 ^ 31"

definition next_full :: "nat \<Rightarrow> nat" where
  "next_full f = (if (f + 1) mod 2 ^ 32 < 3 then f + 1 + (3 - (f + 1) mod 2 ^ 32) else f + 1)"

lemma near_sym: "near a b \<longleftrightarrow> near b a"
  by (auto simp: near_def)

lemma near_refl [simp]: "near a a"
  by (simp add: near_def)

lemma near_between: "near a b \<Longrightarrow> a \<le> c \<Longrightarrow> c \<le> b \<Longrightarrow> near a c \<and> near c b"
  by (auto simp: near_def)

lemma unat_xid_of: "unat (xid_of f) = f mod 2 ^ 32"
  by (simp add: xid_of_def unat_of_nat)

lemma xid_of_normal [simp]: "TransactionIdIsNormal (xid_of f) \<longleftrightarrow> normal_full f"
  by (simp add: TransactionIdIsNormal_iff normal_full_def word_le_nat_alt unat_xid_of)

lemma xid_of_valid: "normal_full f \<Longrightarrow> xid_of f \<noteq> 0"
  using xid_of_normal [of f] by (auto simp: TransactionIdIsNormal_iff)

lemma sint_xid_of:
  assumes "near a b"
  shows "sint (xid_of a - xid_of b) = int a - int b"
proof -
  have "xid_of a - xid_of b = word_of_int (int a - int b)"
    by (simp add: xid_of_def)
  then have "sint (xid_of a - xid_of b) = signed_take_bit 31 (int a - int b)"
    by (simp only: signed_of_int) simp
  also have "\<dots> = int a - int b"
    by (rule signed_take_bit_int_eq_self) (use assms in \<open>auto simp: near_def\<close>)
  finally show ?thesis .
qed

lemma xid_of_order:
  assumes "normal_full a" "normal_full b" "near a b"
  shows "TransactionIdPrecedes (xid_of a) (xid_of b) \<longleftrightarrow> a < b"
    "TransactionIdPrecedesOrEquals (xid_of a) (xid_of b) \<longleftrightarrow> a \<le> b"
    "TransactionIdFollows (xid_of a) (xid_of b) \<longleftrightarrow> b < a"
    "TransactionIdFollowsOrEquals (xid_of a) (xid_of b) \<longleftrightarrow> b \<le> a"
    "NormalTransactionIdPrecedes (xid_of a) (xid_of b) \<longleftrightarrow> a < b"
  using assms by (auto simp: TransactionIdPrecedes_def TransactionIdPrecedesOrEquals_def TransactionIdFollows_def
      TransactionIdFollowsOrEquals_def NormalTransactionIdPrecedes_def sint_xid_of)

lemma xid_of_inj: "near a b \<Longrightarrow> xid_of a = xid_of b \<longleftrightarrow> a = b"
  using sint_xid_of [of a b] by auto

lemma next_full_props: "f < next_full f" "next_full f \<le> f + 4" "normal_full (next_full f)"
proof -
  show "f < next_full f" "next_full f \<le> f + 4" by (auto simp: next_full_def)
  show "normal_full (next_full f)"
  proof (cases "(f + 1) mod 2 ^ 32 < 3")
    case True
    define r where "r = (f + 1) mod 2 ^ 32"
    have "(f + 1 + (3 - r)) mod 2 ^ 32 = (r + (3 - r)) mod 2 ^ 32"
      unfolding r_def by (simp add: mod_add_left_eq)
    with True show ?thesis by (simp add: next_full_def normal_full_def r_def)
  qed (simp add: next_full_def normal_full_def)
qed

lemma next_full_least:
  assumes "f < g" "normal_full g"
  shows "next_full f \<le> g"
proof (cases "(f + 1) mod 2 ^ 32 < 3")
  case True
  define r where "r = (f + 1) mod 2 ^ 32"
  show ?thesis
  proof (rule ccontr)
    assume "\<not> ?thesis"
    then have g: "g < f + 1 + (3 - r)" using True by (simp add: next_full_def r_def)
    define k where "k = g - f - 1"
    have k: "g = f + 1 + k" "k < 3 - r" using assms(1) g by (auto simp: k_def)
    then have "g mod 2 ^ 32 = (r + k) mod 2 ^ 32" unfolding r_def by (simp add: mod_add_left_eq)
    with k(2) assms(2) show False by (simp add: normal_full_def)
  qed
next
  case False
  with assms show ?thesis by (simp add: next_full_def)
qed

lemma xid_of_next: "TransactionIdAdvance (xid_of f) = xid_of (next_full f)"
proof -
  have s: "xid_of f + 1 = xid_of (f + 1)" by (simp add: xid_of_def add.commute)
  have lt: "xid_of (f + 1) < 3 \<longleftrightarrow> (f + 1) mod 2 ^ 32 < 3"
    by (simp add: word_less_nat_alt unat_xid_of)
  have "xid_of (next_full f) = 3" if "(f + 1) mod 2 ^ 32 < 3"
  proof -
    define r where "r = (f + 1) mod 2 ^ 32"
    have "(f + 1 + (3 - r)) mod 2 ^ 32 = (r + (3 - r)) mod 2 ^ 32"
      unfolding r_def by (simp add: mod_add_left_eq)
    with that have "next_full f mod 2 ^ 32 = 3" by (simp add: next_full_def r_def)
    then have "unat (xid_of (next_full f)) = unat (3 :: TransactionId)" by (simp add: unat_xid_of)
    then show ?thesis by (simp only: word_unat_eq_iff)
  qed
  then show ?thesis
    using lt s by (simp add: TransactionIdAdvance_def FirstNormalTransactionId_def Let_def next_full_def)
qed

lemma near_next: "near a b \<Longrightarrow> a \<le> b \<Longrightarrow> b - a < 2 ^ 31 - 4 \<Longrightarrow> near a (next_full b)"
  using next_full_props(1,2) [of b] by (auto simp: near_def)

text \<open>64-bit values.\<close>

definition fxid_of :: "nat \<Rightarrow> FullTransactionId" where
  "fxid_of f = from_u64 (word_of_nat f)"

lemma fxid_of_xid [simp]: "fxid_xid (fxid_of f) = xid_of f"
proof -
  have "(ucast (word_of_nat f :: u64) :: u32) = word_of_nat f"
    by (rule bit_word_eqI) (simp add: bit_simps)
  then show ?thesis by (simp add: fxid_of_def fxid_xid_def from_u64_def xid_of_def)
qed

lemma fxid_of_relative: "near f rel \<Longrightarrow> FullXidRelativeTo (fxid_of rel) (xid_of f) = fxid_of f"
proof -
  assume a: "near f rel"
  have "scast (xid_of f - xid_of rel) = (word_of_int (int f - int rel) :: u64)"
    by (simp only: sint_xid_of [OF a, symmetric]) simp
  then have "(word_of_nat rel :: u64) + scast (xid_of f - xid_of rel) = word_of_nat f"
    by simp
  then show ?thesis
    unfolding FullXidRelativeTo_def fxid_of_xid by (simp add: fxid_of_def from_u64_def)
qed

lemma fxid_value_of: "fxid_value (fxid_of f) = word_of_nat f"
  by (simp add: fxid_of_def from_u64_def)

lemma unat_fxid_of: "f < 2 ^ 64 \<Longrightarrow> unat (fxid_value (fxid_of f)) = f"
  by (simp add: fxid_value_of unat_of_nat)

lemma fxid_of_less: "f < 2 ^ 64 \<Longrightarrow> g < 2 ^ 64 \<Longrightarrow> fxid_value (fxid_of f) < fxid_value (fxid_of g) \<longleftrightarrow> f < g"
  by (simp add: word_less_nat_alt unat_fxid_of)

lemma skip_special_nat:
  "skip_special (word_of_nat n) = word_of_nat (if n mod 2 ^ 32 < 3 then n + (3 - n mod 2 ^ 32) else n)"
proof (induction "3 - n mod 2 ^ 32" arbitrary: n)
  case 0
  then have "\<not> fxid_xid \<lparr> fxid_value = word_of_nat n \<rparr> < FirstNormalTransactionId"
    using fxid_of_xid [of n]
    by (simp add: fxid_of_def from_u64_def FirstNormalTransactionId_def word_less_nat_alt unat_xid_of)
  with 0 show ?case by (subst skip_special.simps) simp
next
  case (Suc k)
  then have lt: "n mod 2 ^ 32 < 3" by simp
  then have "fxid_xid \<lparr> fxid_value = word_of_nat n \<rparr> < FirstNormalTransactionId"
    using fxid_of_xid [of n]
    by (simp add: fxid_of_def from_u64_def FirstNormalTransactionId_def word_less_nat_alt unat_xid_of)
  then have step: "skip_special (word_of_nat n) = skip_special (word_of_nat (n + 1))"
    by (subst skip_special.simps) (simp add: add.commute)
  have m: "(n + 1) mod 2 ^ 32 = n mod 2 ^ 32 + 1" using lt by (simp add: mod_Suc)
  with Suc.hyps(2) have "k = 3 - (n + 1) mod 2 ^ 32" by simp
  note Suc.hyps(1) [OF this]
  moreover have "(if (n + 1) mod 2 ^ 32 < 3 then n + 1 + (3 - (n + 1) mod 2 ^ 32) else n + 1) = n + (3 - n mod 2 ^ 32)"
    using lt m by auto
  ultimately show ?case using step lt by simp
qed

lemma fxid_of_Advance: "FullTransactionIdAdvance (fxid_of f) = fxid_of (next_full f)"
proof -
  have "FullTransactionIdAdvance (fxid_of f) = \<lparr> fxid_value = skip_special (word_of_nat (f + 1)) \<rparr>"
    by (simp add: FullTransactionIdAdvance_def fxid_value_of add.commute)
  also have "\<dots> = fxid_of (next_full f)"
    unfolding skip_special_nat by (simp add: fxid_of_def from_u64_def next_full_def)
  finally show ?thesis .
qed

lemma fxid_epoch_of: "f < 2 ^ 64 \<Longrightarrow> fxid_epoch (fxid_of f) = word_of_nat (f div 2 ^ 32)"
proof -
  assume f: "f < 2 ^ 64"
  then have "unat (drop_bit 32 (word_of_nat f :: u64)) = f div 2 ^ 32"
    by (simp only: unat_drop_bit_eq unat_of_nat) (simp add: drop_bit_eq_div)
  then have "(ucast (drop_bit 32 (word_of_nat f :: u64)) :: u32) = word_of_nat (f div 2 ^ 32)"
    by (metis of_nat_unat)
  then show ?thesis by (simp add: fxid_epoch_def fxid_value_of)
qed

lemma from_epoch_nat:
  assumes "e < 2 ^ 32" "x < 2 ^ 32"
  shows "from_epoch_and_xid (word_of_nat e) (word_of_nat x) = fxid_of (e * 2 ^ 32 + x)"
proof -
  let ?m = "e * 2 ^ 32 + x"
  have "?m < 2 ^ 64" using assms by simp
  then have "fxid_epoch (fxid_of ?m) = word_of_nat e"
    using assms by (simp add: fxid_epoch_of)
  moreover have "unat (xid_of ?m) = unat (word_of_nat x :: u32)"
    using assms by (simp add: unat_xid_of unat_of_nat)
  then have "fxid_xid (fxid_of ?m) = word_of_nat x"
    by (simp only: fxid_of_xid word_unat_eq_iff)
  ultimately show ?thesis
    using from_epoch_and_xid_inverse [of "fxid_of ?m"] by simp
qed

end
