(* ===== verification/ProcGlobal.thy ===== *)
theory ProcGlobal
  imports XidNat
begin

unbundle bit_operations_syntax

section \<open>Shared memory of the process array\<close>

text \<open>
  The shared structures that snapshots are taken from: the transaction variables of
  \<^verbatim>\<open>backend/access/transam/varsup\<close>, the transaction part of \<^verbatim>\<open>PGPROC\<close> and the dense mirror arrays of
  \<^verbatim>\<open>PROC_HDR\<close> (\<^verbatim>\<open>types_storage/src/storage.rs\<close>), and \<^verbatim>\<open>ProcArrayStruct\<close> of
  \<^verbatim>\<open>backend/storage/ipc/procarray\<close>. Each structure is a record that extends the one before, so that the last one is the
  whole shared memory of the component. The sources access each field under the lock named in its comment; a routine that holds
  the lock is one step of the model. Acquiring and releasing these locks, which can only fail when the process dies, is left out.
\<close>

definition PGPROC_MAX_CACHED_SUBXIDS :: nat where "PGPROC_MAX_CACHED_SUBXIDS = 64"

definition PROC_IS_AUTOVACUUM :: u8 where "PROC_IS_AUTOVACUUM = 0x01"
definition PROC_IN_VACUUM :: u8 where "PROC_IN_VACUUM = 0x02"
definition PROC_IN_SAFE_IC :: u8 where "PROC_IN_SAFE_IC = 0x04"
definition PROC_VACUUM_FOR_WRAPAROUND :: u8 where "PROC_VACUUM_FOR_WRAPAROUND = 0x08"
definition PROC_IN_LOGICAL_DECODING :: u8 where "PROC_IN_LOGICAL_DECODING = 0x10"
definition PROC_AFFECTS_ALL_HORIZONS :: u8 where "PROC_AFFECTS_ALL_HORIZONS = 0x20"
definition PROC_VACUUM_STATE_MASK :: u8 where
  "PROC_VACUUM_STATE_MASK = PROC_IN_VACUUM OR PROC_IN_SAFE_IC OR PROC_VACUUM_FOR_WRAPAROUND"
definition PROC_XMIN_FLAGS :: u8 where "PROC_XMIN_FLAGS = PROC_IN_VACUUM OR PROC_IN_SAFE_IC"

lemmas proc_flags =
  PROC_IS_AUTOVACUUM_def PROC_IN_VACUUM_def PROC_IN_SAFE_IC_def PROC_VACUUM_FOR_WRAPAROUND_def
  PROC_IN_LOGICAL_DECODING_def PROC_AFFECTS_ALL_HORIZONS_def PROC_VACUUM_STATE_MASK_def PROC_XMIN_FLAGS_def

record TransamVariablesShared =
  nextOid :: u32
  oidCount :: u32
  nextXid :: u64
  oldestXid :: TransactionId
  xidVacLimit :: TransactionId
  xidWarnLimit :: TransactionId
  xidStopLimit :: TransactionId
  xidWrapLimit :: TransactionId
  oldestXidDB :: u32
  oldestCommitTsXid :: TransactionId
  newestCommitTsXid :: TransactionId
  latestCompletedXid :: u64
  xactCompletionCount :: u64
  oldestClogXid :: TransactionId

record XidCacheStatus =
  sx_count :: nat
  sx_overflowed :: bool

definition no_subxids :: XidCacheStatus where
  "no_subxids = \<lparr> sx_count = 0, sx_overflowed = False \<rparr>"

text \<open>
  A \<^verbatim>\<open>PGPROC\<close> as the process array uses it. \<open>proc_subxids\<close> is the array of
  \<open>PGPROC_MAX_CACHED_SUBXIDS\<close> entries, of which the first \<open>sx_count\<close> are in use; the slot number of
  \<^verbatim>\<open>procArrayGroupNext\<close> is \<open>None\<close> for \<^verbatim>\<open>INVALID_PROC_NUMBER\<close>.
\<close>

record PGPROC_XACT =
  proc_xid :: TransactionId
  proc_xmin :: TransactionId
  proc_pid :: int
  pgxactoff :: nat
  vxid_procNumber :: int
  vxid_lxid :: u32
  databaseId :: u32
  roleId :: u32
  isRegularBackend :: bool
  recoveryConflictPending :: bool
  waits_for_lock :: bool
  delayChkptFlags :: u32
  proc_statusFlags :: u8
  subxidStatus :: XidCacheStatus
  proc_subxids :: "TransactionId list"
  procArrayGroupMember :: bool
  procArrayGroupNext :: "nat option"
  procArrayGroupMemberXid :: TransactionId

record PROC_HDR = TransamVariablesShared +
  allProcs :: "nat \<Rightarrow> PGPROC_XACT"
  hdr_xids :: "TransactionId list"
  hdr_subxidStates :: "XidCacheStatus list"
  hdr_statusFlags :: "u8 list"
  procArrayGroupFirst :: "nat option"
  autovac_signals :: nat

text \<open>
  \<open>pgprocnos\<close> has \<open>maxProcs\<close> entries, \<open>- 1\<close> where the source has it. The last seven fields are the ring of known assigned
  transaction ids of a standby server. The field \<open>autovac_signals\<close> above counts the signals sent to the postmaster.
\<close>

record ProcArrayStruct = PROC_HDR +
  numProcs :: nat
  maxProcs :: nat
  replication_slot_xmin :: TransactionId
  replication_slot_catalog_xmin :: TransactionId
  pgprocnos :: "int list"
  maxKnownAssignedXids :: int
  numKnownAssignedXids :: int
  tailKnownAssignedXids :: int
  headKnownAssignedXids :: int
  lastOverflowedXid :: TransactionId
  knownAssignedXids :: "TransactionId list"
  knownAssignedXidsValid :: "bool list"

type_synonym shmem = ProcArrayStruct

subsection \<open>Startup\<close>

definition PGPROC_new_zeroed :: PGPROC_XACT where
  "PGPROC_new_zeroed =
     \<lparr> proc_xid = 0, proc_xmin = 0, proc_pid = 0, pgxactoff = 0, vxid_procNumber = 0, vxid_lxid = 0,
       databaseId = 0, roleId = 0, isRegularBackend = False, recoveryConflictPending = False,
       waits_for_lock = False, delayChkptFlags = 0, proc_statusFlags = 0, subxidStatus = no_subxids,
       proc_subxids = replicate PGPROC_MAX_CACHED_SUBXIDS 0, procArrayGroupMember = False,
       procArrayGroupNext = Some 0, procArrayGroupMemberXid = 0 \<rparr>"

definition NUM_AUXILIARY_PROCS :: nat where "NUM_AUXILIARY_PROCS = 38"

text \<open>The process array over a given \<^verbatim>\<open>PROC_HDR\<close>; its slots are as many as \<^verbatim>\<open>allProcs\<close> has.\<close>

definition ProcArrayShmemInit :: "PROC_HDR \<Rightarrow> shmem" where
  "ProcArrayShmemInit h =
     (let max_procs = length (hdr_xids h) - NUM_AUXILIARY_PROCS;
          max_kax = (PGPROC_MAX_CACHED_SUBXIDS + 1) * max_procs in
      PROC_HDR.extend h
        (ProcArrayStruct.fields 0 max_procs InvalidTransactionId InvalidTransactionId (replicate max_procs (- 1))
           (int max_kax) 0 0 0 InvalidTransactionId (replicate max_kax 0) (replicate max_kax False)))"

definition ProcArrayShmemResetAfterCrash :: "shmem \<Rightarrow> unit res \<times> shmem" where
  "ProcArrayShmemResetAfterCrash s =
     (if maxProcs s \<noteq> length (hdr_xids s) - NUM_AUXILIARY_PROCS then (Inl Panic, s)
      else (Inr (), s \<lparr> numProcs := 0, replication_slot_xmin := InvalidTransactionId,
                       replication_slot_catalog_xmin := InvalidTransactionId,
                       pgprocnos := map (\<lambda>_. - 1) (pgprocnos s),
                       numKnownAssignedXids := 0, tailKnownAssignedXids := 0, headKnownAssignedXids := 0,
                       lastOverflowedXid := InvalidTransactionId,
                       knownAssignedXidsValid := map (\<lambda>_. False) (knownAssignedXidsValid s) \<rparr>))"

subsection \<open>Accessing a process\<close>

abbreviation set_proc :: "nat \<Rightarrow> (PGPROC_XACT \<Rightarrow> PGPROC_XACT) \<Rightarrow> 'a PROC_HDR_scheme \<Rightarrow> 'a PROC_HDR_scheme" where
  "set_proc p f s \<equiv> s \<lparr> allProcs := (allProcs s)(p := f (allProcs s p)) \<rparr>"

text \<open>An index into the three mirror arrays; out of range is a panic.\<close>

definition hdr_bounds :: "'a PROC_HDR_scheme \<Rightarrow> nat \<Rightarrow> bool" where
  "hdr_bounds s i \<longleftrightarrow>
     i < length (hdr_xids s) \<and> i < length (hdr_subxidStates s) \<and> i < length (hdr_statusFlags s)"

definition nextFullXid :: "'a TransamVariablesShared_scheme \<Rightarrow> FullTransactionId" where
  "nextFullXid s = from_u64 (nextXid s)"

definition latest_completed_xid :: "'a TransamVariablesShared_scheme \<Rightarrow> FullTransactionId" where
  "latest_completed_xid s = from_u64 (latestCompletedXid s)"

end
