(* ===== verification/Varsup.thy ===== *)
theory Varsup
  imports ProcGlobal
begin

unbundle bit_operations_syntax

section \<open>Assigning transaction ids and object ids\<close>

text \<open>
  \<^verbatim>\<open>backend/access/transam/varsup/src/lib.rs\<close>. What the routines ask of the rest of the system is the record
  \<open>varsup_env\<close>. \<open>v_others\<close> is what the other processes do to the shared memory in the moment in which
  \<^verbatim>\<open>GetNewTransactionId\<close> has let go of its lock to report that the wraparound limits are near.
\<close>

definition VAR_OID_PREFETCH :: u32 where "VAR_OID_PREFETCH = 8192"
definition FirstGenbkiObjectId :: u32 where "FirstGenbkiObjectId = 10000"
definition FirstUnpinnedObjectId :: u32 where "FirstUnpinnedObjectId = 12000"
definition FirstNormalObjectId :: u32 where "FirstNormalObjectId = 16384"

record varsup_env =
  v_parallel_mode :: bool
  v_bootstrap_mode :: bool
  v_recovery_in_progress :: bool
  v_IsUnderPostmaster :: bool
  v_IsPostmasterEnvironment :: bool
  v_in_recovery :: bool
  v_is_transaction_state :: bool
  v_startup_process :: bool
  v_autovacuum_freeze_max_age :: u32
  v_get_database_name :: "u32 \<Rightarrow> string option res"
  v_database_exists :: "u32 \<Rightarrow> bool res"
  v_ExtendCLOG :: "TransactionId \<Rightarrow> unit res"
  v_extend_commit_ts :: "(TransactionId \<Rightarrow> unit res) option"
  v_extend_subtrans :: "TransactionId \<Rightarrow> unit res"
  v_put_next_oid :: "u32 \<Rightarrow> unit res"
  v_others :: "shmem \<Rightarrow> shmem"

definition boot_image :: "TransamVariablesShared" where
  "boot_image =
     \<lparr> nextOid = 0, oidCount = 0,
       nextXid = fxid_value (from_epoch_and_xid 0 FirstNormalTransactionId),
       oldestXid = FirstNormalTransactionId,
       xidVacLimit = 0, xidWarnLimit = 0, xidStopLimit = 0, xidWrapLimit = 0, oldestXidDB = 0,
       oldestCommitTsXid = 0, newestCommitTsXid = 0,
       latestCompletedXid = fxid_value (from_epoch_and_xid 0 FirstNormalTransactionId),
       xactCompletionCount = 1,
       oldestClogXid = FirstNormalTransactionId \<rparr>"

text \<open>Shared memory after startup with \<open>n\<close> process slots.\<close>

definition initial_shmem :: "nat \<Rightarrow> shmem" where
  "initial_shmem n =
     ProcArrayShmemInit
       (TransamVariablesShared.extend boot_image
          (PROC_HDR.fields (\<lambda>_. PGPROC_new_zeroed) (replicate n 0) (replicate n no_subxids) (replicate n 0) None 0))"

definition VarsupShmemReset :: "'a TransamVariablesShared_scheme \<Rightarrow> 'a TransamVariablesShared_scheme" where
  "VarsupShmemReset s =
     s \<lparr> nextOid := nextOid boot_image, oidCount := oidCount boot_image, nextXid := nextXid boot_image,
         oldestXid := oldestXid boot_image, xidVacLimit := xidVacLimit boot_image,
         xidWarnLimit := xidWarnLimit boot_image, xidStopLimit := xidStopLimit boot_image,
         xidWrapLimit := xidWrapLimit boot_image, oldestXidDB := oldestXidDB boot_image,
         oldestCommitTsXid := oldestCommitTsXid boot_image, newestCommitTsXid := newestCommitTsXid boot_image,
         latestCompletedXid := latestCompletedXid boot_image,
         xactCompletionCount := xactCompletionCount boot_image, oldestClogXid := oldestClogXid boot_image \<rparr>"

subsection \<open>New transaction ids\<close>

text \<open>
  The wraparound defences: past \<^verbatim>\<open>xidVacLimit\<close> the lock is dropped, the limits that were read are
  compared, and the caller goes on with what the other processes left.
\<close>

definition xid_limit_check :: "varsup_env \<Rightarrow> shmem \<Rightarrow> unit res \<times> shmem" where
  "xid_limit_check env s =
    (let xid = fxid_xid (nextFullXid s) in
     if TransactionIdFollowsOrEquals xid (xidVacLimit s) then
       let warnLimit = xidWarnLimit s;
           stopLimit = xidStopLimit s;
           oldest_datoid = oldestXidDB s;
           s = (if v_IsUnderPostmaster env \<and> xid mod 65536 = 0
                then s \<lparr> autovac_signals := autovac_signals s + 1 \<rparr> else s) in
       if v_IsUnderPostmaster env \<and> TransactionIdFollowsOrEquals xid stopLimit then
         tryS (v_get_database_name env oldest_datoid) s (\<lambda>_. (Inl (ProgramLimitExceeded oldest_datoid), s))
       else if TransactionIdFollowsOrEquals xid warnLimit then
         tryS (v_get_database_name env oldest_datoid) s (\<lambda>_. (Inr (), v_others env s))
       else (Inr (), v_others env s)
     else (Inr (), s))"

definition extend_logs :: "varsup_env \<Rightarrow> TransactionId \<Rightarrow> unit res" where
  "extend_logs env xid =
     bindR (v_ExtendCLOG env xid) (\<lambda>_.
     bindR (case v_extend_commit_ts env of Some f \<Rightarrow> f xid | None \<Rightarrow> Inr ()) (\<lambda>_.
     v_extend_subtrans env xid))"

text \<open>
  Publishing a new id in the process array: a top-level id in the two copies of \<open>xid\<close>, a
  subtransaction's id in the cache of the process, or, when the cache is full, as an overflow mark.
\<close>

definition publish_xid :: "nat \<Rightarrow> bool \<Rightarrow> TransactionId \<Rightarrow> shmem \<Rightarrow> unit res \<times> shmem" where
  "publish_xid me isSubXact xid s =
    (let proc = allProcs s me;
         off = pgxactoff proc;
         status = subxidStatus proc;
         nxids = sx_count status in
     if \<not> hdr_bounds s off then (Inl Panic, s)
     else if \<not> isSubXact then
       (if hdr_subxidStates s ! off \<noteq> no_subxids \<or> status \<noteq> no_subxids then (Inl Panic, s)
        else (Inr (), (set_proc me (proc_xid_update (\<lambda>_. xid)) s) \<lparr> hdr_xids := (hdr_xids s)[off := xid] \<rparr>))
     else if hdr_subxidStates s ! off \<noteq> status then (Inl Panic, s)
     else if nxids < PGPROC_MAX_CACHED_SUBXIDS then
       let status' = status \<lparr> sx_count := nxids + 1 \<rparr> in
       (Inr (), (set_proc me (proc_subxids_update (\<lambda>xs. xs[nxids := xid]) \<circ> subxidStatus_update (\<lambda>_. status')) s)
          \<lparr> hdr_subxidStates := (hdr_subxidStates s)[off := (hdr_subxidStates s ! off) \<lparr> sx_count := nxids + 1 \<rparr>] \<rparr>)
     else
       let status' = status \<lparr> sx_overflowed := True \<rparr> in
       (Inr (), (set_proc me (subxidStatus_update (\<lambda>_. status')) s)
          \<lparr> hdr_subxidStates := (hdr_subxidStates s)[off := (hdr_subxidStates s ! off) \<lparr> sx_overflowed := True \<rparr>] \<rparr>))"

definition GetNewTransactionId ::
  "varsup_env \<Rightarrow> nat \<Rightarrow> bool \<Rightarrow> shmem \<Rightarrow> FullTransactionId res \<times> shmem" where
  "GetNewTransactionId env me isSubXact s =
    (if v_parallel_mode env then
       (Inl (ElogError ''cannot assign TransactionIds during a parallel operation''), s)
     else if v_bootstrap_mode env then
       (let s' = set_proc me (proc_xid_update (\<lambda>_. BootstrapTransactionId)) s;
            off = pgxactoff (allProcs s me) in
        if isSubXact then (Inl Panic, s)
        else if \<not> off < length (hdr_xids s) then (Inl Panic, s')
        else (Inr (from_epoch_and_xid 0 BootstrapTransactionId),
              s' \<lparr> hdr_xids := (hdr_xids s)[off := BootstrapTransactionId] \<rparr>))
     else if v_recovery_in_progress env then
       (Inl (ElogError ''cannot assign TransactionIds during recovery''), s)
     else
       bindS (xid_limit_check env s) (\<lambda>_ s.
         let full_xid = nextFullXid s; xid = fxid_xid full_xid in
         tryS (extend_logs env xid) s (\<lambda>_.
           let s = s \<lparr> nextXid := fxid_value (FullTransactionIdAdvance full_xid) \<rparr> in
           bindS (publish_xid me isSubXact xid s) (\<lambda>_ s. (Inr full_xid, s)))))"

definition ReadNextFullTransactionId :: "'a TransamVariablesShared_scheme \<Rightarrow> FullTransactionId" where
  "ReadNextFullTransactionId s = nextFullXid s"

definition ReadNextTransactionId :: "'a TransamVariablesShared_scheme \<Rightarrow> TransactionId" where
  "ReadNextTransactionId s = fxid_xid (ReadNextFullTransactionId s)"

text \<open>During recovery: \<^verbatim>\<open>epoch += 1\<close> is checked arithmetic.\<close>

definition AdvanceNextFullTransactionIdPastXid ::
  "varsup_env \<Rightarrow> TransactionId \<Rightarrow> 'a TransamVariablesShared_scheme \<Rightarrow> unit res \<times> 'a TransamVariablesShared_scheme" where
  "AdvanceNextFullTransactionIdPastXid env xid s =
    (if \<not> (v_startup_process env \<or> \<not> v_IsUnderPostmaster env) then (Inl Panic, s)
     else
       let cur = nextFullXid s; next_xid = fxid_xid cur in
       if \<not> TransactionIdFollowsOrEquals xid next_xid then (Inr (), s)
       else
         let xid = TransactionIdAdvance xid; epoch = fxid_epoch cur in
         if xid < next_xid \<and> epoch + 1 = 0 then (Inl Panic, s)
         else
           let epoch = (if xid < next_xid then epoch + 1 else epoch) in
           (Inr (), s \<lparr> nextXid := fxid_value (from_epoch_and_xid epoch xid) \<rparr>))"

definition AdvanceOldestClogXid ::
  "TransactionId \<Rightarrow> 'a TransamVariablesShared_scheme \<Rightarrow> 'a TransamVariablesShared_scheme" where
  "AdvanceOldestClogXid oldest_datfrozenxid s =
     (if TransactionIdPrecedes (oldestClogXid s) oldest_datfrozenxid
      then s \<lparr> oldestClogXid := oldest_datfrozenxid \<rparr> else s)"

subsection \<open>Wraparound limits\<close>

definition add_skipping :: "TransactionId \<Rightarrow> u32 \<Rightarrow> TransactionId" where
  "add_skipping xid n =
     (let r = xid + n in if r < FirstNormalTransactionId then r + FirstNormalTransactionId else r)"

definition sub_skipping :: "TransactionId \<Rightarrow> u32 \<Rightarrow> TransactionId" where
  "sub_skipping xid n =
     (let r = xid - n in if r < FirstNormalTransactionId then r - FirstNormalTransactionId else r)"

definition SetTransactionIdLimit ::
  "varsup_env \<Rightarrow> TransactionId \<Rightarrow> u32 \<Rightarrow> shmem \<Rightarrow> unit res \<times> shmem" where
  "SetTransactionIdLimit env oldest_datfrozenxid oldest_datoid s =
    (if \<not> TransactionIdIsNormal oldest_datfrozenxid then (Inl Panic, s)
     else
       let wrapLimit = add_skipping oldest_datfrozenxid (drop_bit 1 MaxTransactionId);
           stopLimit = sub_skipping wrapLimit 3000000;
           warnLimit = sub_skipping wrapLimit 40000000;
           vacLimit = add_skipping oldest_datfrozenxid (v_autovacuum_freeze_max_age env);
           s = s \<lparr> oldestXid := oldest_datfrozenxid, xidVacLimit := vacLimit, xidWarnLimit := warnLimit,
                  xidStopLimit := stopLimit, xidWrapLimit := wrapLimit, oldestXidDB := oldest_datoid \<rparr>;
           curXid = fxid_xid (nextFullXid s);
           s = (if TransactionIdFollowsOrEquals curXid vacLimit \<and> v_IsUnderPostmaster env \<and> \<not> v_in_recovery env
                then s \<lparr> autovac_signals := autovac_signals s + 1 \<rparr> else s) in
       if TransactionIdFollowsOrEquals curXid warnLimit \<and> \<not> v_in_recovery env \<and> v_is_transaction_state env
       then tryS (v_get_database_name env oldest_datoid) s (\<lambda>_. (Inr (), s))
       else (Inr (), s))"

definition ForceTransactionIdLimitUpdate :: "varsup_env \<Rightarrow> shmem \<Rightarrow> bool res" where
  "ForceTransactionIdLimitUpdate env s =
    (if \<not> TransactionIdIsNormal (oldestXid s) then Inr True
     else if \<not> TransactionIdIsValid (xidVacLimit s) then Inr True
     else if TransactionIdFollowsOrEquals (fxid_xid (nextFullXid s)) (xidVacLimit s) then Inr True
     else bindR (v_database_exists env (oldestXidDB s)) (\<lambda>b. Inr (\<not> b)))"

subsection \<open>Object ids\<close>

definition GetNewObjectId :: "varsup_env \<Rightarrow> shmem \<Rightarrow> u32 res \<times> shmem" where
  "GetNewObjectId env s =
    (if v_recovery_in_progress env then (Inl (ElogError ''cannot assign OIDs during recovery''), s)
     else
       let s = (if nextOid s < FirstNormalObjectId then
                  if v_IsPostmasterEnvironment env then s \<lparr> nextOid := FirstNormalObjectId, oidCount := 0 \<rparr>
                  else if nextOid s < FirstGenbkiObjectId then s \<lparr> nextOid := FirstNormalObjectId, oidCount := 0 \<rparr>
                  else s
                else s) in
       bindS (if oidCount s = 0
              then tryS (v_put_next_oid env (nextOid s + VAR_OID_PREFETCH)) s
                     (\<lambda>_. (Inr (), s \<lparr> oidCount := VAR_OID_PREFETCH \<rparr>))
              else (Inr (), s)) (\<lambda>_ s.
         (Inr (nextOid s), s \<lparr> nextOid := nextOid s + 1, oidCount := oidCount s - 1 \<rparr>)))"

definition SetNextObjectId :: "varsup_env \<Rightarrow> u32 \<Rightarrow> shmem \<Rightarrow> unit res \<times> shmem" where
  "SetNextObjectId env next_oid s =
    (if v_IsPostmasterEnvironment env then (Inl (ElogError ''cannot advance OID counter anymore''), s)
     else if nextOid s > next_oid then (Inl (ElogError ''too late to advance OID counter''), s)
     else (Inr (), s \<lparr> nextOid := next_oid, oidCount := 0 \<rparr>))"

definition StopGeneratingPinnedObjectIds :: "varsup_env \<Rightarrow> shmem \<Rightarrow> unit res \<times> shmem" where
  "StopGeneratingPinnedObjectIds env s = SetNextObjectId env FirstUnpinnedObjectId s"

subsection \<open>The limits as natural numbers\<close>

definition skip_up :: "nat \<Rightarrow> nat" where
  "skip_up m = (if m mod 2 ^ 32 < 3 then m + 3 else m)"

definition skip_down :: "nat \<Rightarrow> nat" where
  "skip_down m = (if m mod 2 ^ 32 < 3 then m - 3 else m)"

definition stop_full :: "nat \<Rightarrow> nat" where
  "stop_full o' = skip_down (skip_up (o' + 2147483647) - 3000000)"

lemma skip_bounds: "m \<le> skip_up m" "skip_up m \<le> m + 3" "m - 3 \<le> skip_down m" "skip_down m \<le> m"
  by (simp_all add: skip_up_def skip_down_def)

lemma skip_up_normal: "normal_full (skip_up m)"
proof (cases "m mod 2 ^ 32 < 3")
  case True
  have "(m + 3) mod 2 ^ 32 = (m mod 2 ^ 32 + 3) mod 2 ^ 32" by (simp add: mod_add_left_eq)
  with True show ?thesis by (simp add: skip_up_def normal_full_def)
qed (simp add: skip_up_def normal_full_def)

lemma skip_down_normal:
  assumes "3 \<le> m"
  shows "normal_full (skip_down m)"
proof (cases "m mod 2 ^ 32 < 3")
  case True
  define k where "k = m - 3"
  have m: "m = k + 3" using assms by (simp add: k_def)
  have "\<not> k mod 2 ^ 32 < 3"
  proof
    assume "k mod 2 ^ 32 < 3"
    moreover have "m mod 2 ^ 32 = (k mod 2 ^ 32 + 3) mod 2 ^ 32" unfolding m by (simp add: mod_add_left_eq)
    ultimately have "m mod 2 ^ 32 = k mod 2 ^ 32 + 3" by simp
    with True show False by simp
  qed
  with True show ?thesis by (simp add: skip_down_def normal_full_def k_def)
qed (simp add: skip_down_def normal_full_def)

lemma xid_of_special: "xid_of m < FirstNormalTransactionId \<longleftrightarrow> m mod 2 ^ 32 < 3"
  by (simp add: FirstNormalTransactionId_def word_less_nat_alt unat_xid_of)

lemma add_skipping_nat: "add_skipping (xid_of m) (word_of_nat n) = xid_of (skip_up (m + n))"
proof -
  have "xid_of m + word_of_nat n = xid_of (m + n)" "xid_of (m + n) + 3 = xid_of (m + n + 3)"
    by (simp_all add: xid_of_def)
  then show ?thesis
    using xid_of_special [of "m + n"] by (simp add: add_skipping_def skip_up_def FirstNormalTransactionId_def)
qed

lemma sub_skipping_nat:
  assumes "n + 3 \<le> m"
  shows "sub_skipping (xid_of m) (word_of_nat n) = xid_of (skip_down (m - n))"
proof -
  have "xid_of m - word_of_nat n = xid_of (m - n)" "xid_of (m - n) - 3 = xid_of (m - n - 3)"
    using assms by (simp_all add: xid_of_def of_nat_diff)
  then show ?thesis
    using xid_of_special [of "m - n"] by (simp add: sub_skipping_def skip_down_def FirstNormalTransactionId_def)
qed

lemma stop_full_bounds:
  "o' + 2147483647 - 3000003 \<le> stop_full o'" "stop_full o' \<le> o' + 2147483650 - 3000000" "normal_full (stop_full o')"
proof -
  have b: "o' + 2147483647 \<le> skip_up (o' + 2147483647)" "skip_up (o' + 2147483647) \<le> o' + 2147483650"
    using skip_bounds(1,2) [of "o' + 2147483647"] by simp_all
  with skip_bounds(3,4) [of "skip_up (o' + 2147483647) - 3000000"]
  show "o' + 2147483647 - 3000003 \<le> stop_full o'" "stop_full o' \<le> o' + 2147483650 - 3000000"
    by (simp_all add: stop_full_def)
  show "normal_full (stop_full o')"
    unfolding stop_full_def using b by (intro skip_down_normal) simp
qed

lemma SetTransactionIdLimit_limits:
  fixes env :: varsup_env and db :: u32 and s :: shmem
  assumes "normal_full o'"
  defines "s' \<equiv> snd (SetTransactionIdLimit env (xid_of o') db s)"
  shows "oldestXid s' = xid_of o'" "xidStopLimit s' = xid_of (stop_full o')"
    "xidVacLimit s' = xid_of (skip_up (o' + unat (v_autovacuum_freeze_max_age env)))"
    "nextXid s' = nextXid s"
proof -
  have half: "drop_bit 1 MaxTransactionId = word_of_nat 2147483647"
    by (simp add: MaxTransactionId_def drop_bit_eq_div)
  have w: "o' + 2147483647 \<le> skip_up (o' + 2147483647)" by (rule skip_bounds)
  have stop: "sub_skipping (add_skipping (xid_of o') (drop_bit 1 MaxTransactionId)) 3000000 = xid_of (stop_full o')"
    unfolding half add_skipping_nat using sub_skipping_nat [of 3000000 "skip_up (o' + 2147483647)"] w
    by (simp add: stop_full_def)
  have vac: "add_skipping (xid_of o') (v_autovacuum_freeze_max_age env)
      = xid_of (skip_up (o' + unat (v_autovacuum_freeze_max_age env)))"
    using add_skipping_nat [of o' "unat (v_autovacuum_freeze_max_age env)"] by simp
  show "oldestXid s' = xid_of o'" "xidStopLimit s' = xid_of (stop_full o')"
    "xidVacLimit s' = xid_of (skip_up (o' + unat (v_autovacuum_freeze_max_age env)))" "nextXid s' = nextXid s"
    using assms(1) stop vac
    by (cases "v_get_database_name env db"; simp add: s'_def SetTransactionIdLimit_def Let_def)+
qed

subsection \<open>Assignment\<close>

lemma xid_limit_check_cases:
  "(\<exists>e. fst (xid_limit_check env s) = Inl e \<and> nextXid (snd (xid_limit_check env s)) = nextXid s
      \<and> allProcs (snd (xid_limit_check env s)) = allProcs s)
   \<or> (fst (xid_limit_check env s) = Inr ()
      \<and> (snd (xid_limit_check env s) = s
         \<or> (\<exists>k. snd (xid_limit_check env s) = v_others env (s \<lparr> autovac_signals := k \<rparr>)
              \<and> TransactionIdFollowsOrEquals (fxid_xid (nextFullXid s)) (xidVacLimit s)
              \<and> \<not> (v_IsUnderPostmaster env \<and> TransactionIdFollowsOrEquals (fxid_xid (nextFullXid s)) (xidStopLimit s)))))"
proof (cases "TransactionIdFollowsOrEquals (fxid_xid (nextFullXid s)) (xidVacLimit s)")
  case True
  define k where "k = (if v_IsUnderPostmaster env \<and> fxid_xid (nextFullXid s) mod 65536 = 0
                       then autovac_signals s + 1 else autovac_signals s)"
  have k: "(if v_IsUnderPostmaster env \<and> fxid_xid (nextFullXid s) mod 65536 = 0
            then s \<lparr> autovac_signals := autovac_signals s + 1 \<rparr> else s) = s \<lparr> autovac_signals := k \<rparr>"
    by (simp add: k_def)
  from True show ?thesis
    unfolding xid_limit_check_def Let_def k by (cases "v_get_database_name env (oldestXidDB s)") auto
qed (simp add: xid_limit_check_def Let_def)

text \<open>The state between the limit check and the assignment.\<close>

lemma GetNewTransactionId_Inr:
  assumes "GetNewTransactionId env me sub s = (Inr f, s')" and "\<not> v_bootstrap_mode env"
  obtains s1 where "xid_limit_check env s = (Inr (), s1)" "f = nextFullXid s1" "extend_logs env (fxid_xid f) = Inr ()"
    "publish_xid me sub (fxid_xid f) (s1 \<lparr> nextXid := fxid_value (FullTransactionIdAdvance f) \<rparr>) = (Inr (), s')"
proof (cases "xid_limit_check env s")
  case (Pair r s1)
  have ne: "\<not> v_parallel_mode env" "\<not> v_recovery_in_progress env"
    using assms by (auto simp: GetNewTransactionId_def split: if_splits)
  with assms Pair have run: "bindS (r, s1) (\<lambda>_ s.
         tryS (extend_logs env (fxid_xid (nextFullXid s))) s (\<lambda>_.
           bindS (publish_xid me sub (fxid_xid (nextFullXid s)) (s \<lparr> nextXid := fxid_value (FullTransactionIdAdvance (nextFullXid s)) \<rparr>))
             (\<lambda>_ s'. (Inr (nextFullXid s), s')))) = (Inr f, s')"
    by (simp add: GetNewTransactionId_def Let_def)
  then obtain u where r: "r = Inr u" by (cases r) auto
  with run have run: "tryS (extend_logs env (fxid_xid (nextFullXid s1))) s1 (\<lambda>_.
           bindS (publish_xid me sub (fxid_xid (nextFullXid s1)) (s1 \<lparr> nextXid := fxid_value (FullTransactionIdAdvance (nextFullXid s1)) \<rparr>))
             (\<lambda>_ s'. (Inr (nextFullXid s1), s'))) = (Inr f, s')"
    by simp
  then obtain u' where e: "extend_logs env (fxid_xid (nextFullXid s1)) = Inr u'"
    by (cases "extend_logs env (fxid_xid (nextFullXid s1))") auto
  obtain r2 s2 where p: "publish_xid me sub (fxid_xid (nextFullXid s1))
      (s1 \<lparr> nextXid := fxid_value (FullTransactionIdAdvance (nextFullXid s1)) \<rparr>) = (r2, s2)"
    by (rule prod.exhaust)
  with run e have "bindS (r2, s2) (\<lambda>_ s'. (Inr (nextFullXid s1), s')) = (Inr f, s')" by simp
  then have "r2 = Inr ()" "s2 = s'" "f = nextFullXid s1" by (cases r2; simp)+
  with that Pair r e p show ?thesis by simp
qed

lemma GetNewTransactionId_refused:
  assumes stop: "xidStopLimit s = xid_of (stop_full o')" and vac: "xidVacLimit s = xid_of v" "normal_full v" "o' \<le> v" "v \<le> o' + 2000000003"
    and n: "normal_full n" "nextXid s = word_of_nat n" "o' \<le> n" "n < o' + 2 ^ 31"
    and mode: "v_IsUnderPostmaster env" "\<not> v_bootstrap_mode env" and past: "stop_full o' \<le> n"
  shows "\<exists>e. fst (GetNewTransactionId env me sub s) = Inl e" "nextXid (snd (GetNewTransactionId env me sub s)) = nextXid s"
proof -
  have sb: "o' + 2147483647 - 3000003 \<le> stop_full o'" "stop_full o' \<le> o' + 2147483650 - 3000000"
    "normal_full (stop_full o')"
    by (rule stop_full_bounds)+
  have nx: "nextFullXid s = fxid_of n" by (simp add: nextFullXid_def fxid_of_def n(2))
  have at: "TransactionIdFollowsOrEquals (fxid_xid (nextFullXid s)) (xidStopLimit s)"
    "TransactionIdFollowsOrEquals (fxid_xid (nextFullXid s)) (xidVacLimit s)"
    unfolding nx fxid_of_xid stop vac(1)
    using xid_of_order(4) [of n "stop_full o'"] xid_of_order(4) [of n v] n sb vac past by (auto simp: near_def)
  have chk: "(\<exists>e. fst (xid_limit_check env s) = Inl e) \<and> nextXid (snd (xid_limit_check env s)) = nextXid s"
    using at mode(1) by (cases "v_get_database_name env (oldestXidDB s)") (simp_all add: xid_limit_check_def Let_def)
  then obtain e s1 where e: "xid_limit_check env s = (Inl e, s1)" "nextXid s1 = nextXid s"
    by (metis prod.collapse)
  then show "\<exists>e. fst (GetNewTransactionId env me sub s) = Inl e"
    "nextXid (snd (GetNewTransactionId env me sub s)) = nextXid s"
    using mode(2) by (simp_all add: GetNewTransactionId_def)
qed

text \<open>
  C20: no wraparound. After \<^verbatim>\<open>SetTransactionIdLimit\<close> has set the limits for the oldest id \<open>o'\<close> in use, an id that
  \<^verbatim>\<open>GetNewTransactionId\<close> hands out under the postmaster is less than \<open>2^31\<close> ahead of \<open>o'\<close>, so that the circular
  comparison of ids stays meaningful; the margin of three million ids covers what other processes can assign
  while the lock is released. At the stop limit the request is refused and the counter stays.
\<close>

theorem GetNewTransactionId_no_wraparound:
  assumes limits: "xidStopLimit s = xidStopLimit (snd (SetTransactionIdLimit env0 (xid_of o') db s0))"
      "xidVacLimit s = xidVacLimit (snd (SetTransactionIdLimit env0 (xid_of o') db s0))"
    and age: "v_autovacuum_freeze_max_age env0 \<le> 2000000000"
    and "normal_full o'" "normal_full n" "nextXid s = word_of_nat n" "o' \<le> n" "n < o' + 2 ^ 31"
    and mode: "v_IsUnderPostmaster env" "\<not> v_bootstrap_mode env"
    and others: "\<forall>t. nextXid t = word_of_nat n \<longrightarrow> (\<exists>k \<le> 2900000. nextXid (v_others env t) = word_of_nat (n + k))"
  shows "(\<forall>f s'. GetNewTransactionId env me sub s = (Inr f, s')
            \<longrightarrow> (\<exists>m. f = fxid_of m \<and> o' \<le> m \<and> m < o' + 2 ^ 31 \<and> m \<le> n + 2900000))
       \<and> (stop_full o' \<le> n \<longrightarrow>
            (\<exists>e. fst (GetNewTransactionId env me sub s) = Inl e)
            \<and> nextXid (snd (GetNewTransactionId env me sub s)) = nextXid s)"
proof (intro conjI allI impI)
  let ?vac = "skip_up (o' + unat (v_autovacuum_freeze_max_age env0))"
  have stop: "xidStopLimit s = xid_of (stop_full o')" and vac: "xidVacLimit s = xid_of ?vac"
    using limits SetTransactionIdLimit_limits(2,3) [OF assms(4)] by simp_all
  have sb: "o' + 2147483647 - 3000003 \<le> stop_full o'" "stop_full o' \<le> o' + 2147483650 - 3000000"
    "normal_full (stop_full o')"
    by (rule stop_full_bounds)+
  have "unat (v_autovacuum_freeze_max_age env0) \<le> 2000000000"
    using age by (simp add: word_le_nat_alt)
  then have vb: "?vac \<le> o' + 2000000003" "o' \<le> ?vac"
    using skip_bounds(1,2) [of "o' + unat (v_autovacuum_freeze_max_age env0)"] by linarith+
  have nx: "nextFullXid s = fxid_of n" by (simp add: nextFullXid_def fxid_of_def assms(6))
  have at_stop: "TransactionIdFollowsOrEquals (fxid_xid (nextFullXid s)) (xidStopLimit s) \<longleftrightarrow> stop_full o' \<le> n"
    unfolding nx fxid_of_xid stop
    by (rule xid_of_order(4)) (use assms sb in \<open>auto simp: near_def\<close>)
  show "\<exists>m. f = fxid_of m \<and> o' \<le> m \<and> m < o' + 2 ^ 31 \<and> m \<le> n + 2900000"
    if run: "GetNewTransactionId env me sub s = (Inr f, s')" for f s'
  proof -
    from GetNewTransactionId_Inr [OF run mode(2)] obtain s1 where
      s1: "xid_limit_check env s = (Inr (), s1)" "f = nextFullXid s1" by blast
    consider "s1 = s" | k where "s1 = v_others env (s \<lparr> autovac_signals := k \<rparr>)" "\<not> stop_full o' \<le> n"
      using xid_limit_check_cases [of env s] s1(1) at_stop mode(1) by auto
    then show ?thesis
    proof cases
      case 1
      with s1(2) nx assms(7,8) show ?thesis by (intro exI [of _ n]) simp
    next
      case 2
      have "nextXid (s \<lparr> autovac_signals := k \<rparr>) = word_of_nat n" by (simp add: assms(6))
      with others obtain j where "j \<le> 2900000" "nextXid s1 = word_of_nat (n + j)"
        unfolding 2(1) by blast
      with 2(2) s1(2) sb(2) assms(7) show ?thesis
        by (intro exI [of _ "n + j"]) (simp add: nextFullXid_def fxid_of_def)
    qed
  qed
  assume past: "stop_full o' \<le> n"
  show "\<exists>e. fst (GetNewTransactionId env me sub s) = Inl e"
    "nextXid (snd (GetNewTransactionId env me sub s)) = nextXid s"
    using GetNewTransactionId_refused [OF stop vac skip_up_normal vb(2,1) assms(5-8) mode past] by blast+
qed

text \<open>An environment in which every call succeeds, for examples.\<close>

definition quiet_env :: varsup_env where
  "quiet_env =
     \<lparr> v_parallel_mode = False, v_bootstrap_mode = False, v_recovery_in_progress = False, v_IsUnderPostmaster = True,
       v_IsPostmasterEnvironment = True, v_in_recovery = False, v_is_transaction_state = False, v_startup_process = True,
       v_autovacuum_freeze_max_age = 200000000, v_get_database_name = \<lambda>_. Inr None, v_database_exists = \<lambda>_. Inr True,
       v_ExtendCLOG = \<lambda>_. Inr (), v_extend_commit_ts = None, v_extend_subtrans = \<lambda>_. Inr (),
       v_put_next_oid = \<lambda>_. Inr (), v_others = \<lambda>s. s \<rparr>"

lemma initial_shmem_simps [simp]:
  "nextXid (initial_shmem n) = 3" "allProcs (initial_shmem n) p = PGPROC_new_zeroed"
  "hdr_xids (initial_shmem n) = replicate n 0" "hdr_subxidStates (initial_shmem n) = replicate n no_subxids"
  "hdr_statusFlags (initial_shmem n) = replicate n 0" "numProcs (initial_shmem n) = 0"
  "maxProcs (initial_shmem n) = n - NUM_AUXILIARY_PROCS"
  "pgprocnos (initial_shmem n) = replicate (n - NUM_AUXILIARY_PROCS) (- 1)"
  "latestCompletedXid (initial_shmem n) = 3" "xactCompletionCount (initial_shmem n) = 1"
  "nextOid (initial_shmem n) = 0" "oidCount (initial_shmem n) = 0"
  "oldestXid (initial_shmem n) = 3"
  "replication_slot_xmin (initial_shmem n) = 0" "replication_slot_catalog_xmin (initial_shmem n) = 0"
  by (simp_all add: initial_shmem_def ProcArrayShmemInit_def boot_image_def Let_def from_epoch_and_xid_def
      FirstNormalTransactionId_def InvalidTransactionId_def TransamVariablesShared.defs PROC_HDR.defs ProcArrayStruct.defs)

lemma quiet_env_simps [simp]:
  "\<not> v_parallel_mode quiet_env" "\<not> v_bootstrap_mode quiet_env" "\<not> v_recovery_in_progress quiet_env"
  "v_IsUnderPostmaster quiet_env" "v_IsPostmasterEnvironment quiet_env" "v_startup_process quiet_env"
  "v_autovacuum_freeze_max_age quiet_env = 200000000" "v_others quiet_env s = s" "v_put_next_oid quiet_env oid = Inr ()"
  "extend_logs quiet_env xid = Inr ()"
  by (simp_all add: quiet_env_def extend_logs_def)

theorem GetNewTransactionId_no_wraparound_witness:
  "stop_full 100 \<le> 2144483750
   \<and> (\<exists>e. fst (GetNewTransactionId quiet_env 0 False
        ((snd (SetTransactionIdLimit quiet_env (xid_of 100) 1 (initial_shmem 40))) \<lparr> nextXid := word_of_nat 2144483750 \<rparr>)) = Inl e)"
proof -
  let ?s1 = "snd (SetTransactionIdLimit quiet_env (xid_of 100) 1 (initial_shmem 40))"
  let ?s = "?s1 \<lparr> nextXid := word_of_nat 2144483750 \<rparr>"
  have st: "stop_full 100 \<le> 2144483750" by (simp add: stop_full_def skip_down_def skip_up_def)
  have n: "normal_full 100" "normal_full 2144483750" by (simp_all add: normal_full_def)
  have q: "\<forall>t. nextXid t = word_of_nat 2144483750 \<longrightarrow>
      (\<exists>k \<le> 2900000. nextXid (v_others quiet_env t) = word_of_nat (2144483750 + k))"
    by (intro allI impI exI [of _ 0]) simp
  have "stop_full 100 \<le> 2144483750 \<longrightarrow>
      (\<exists>e. fst (GetNewTransactionId quiet_env 0 False ?s) = Inl e)
      \<and> nextXid (snd (GetNewTransactionId quiet_env 0 False ?s)) = nextXid ?s"
    by (rule conjunct2 [OF GetNewTransactionId_no_wraparound
          [of ?s quiet_env 100 1 "initial_shmem 40" 2144483750 quiet_env 0 False]])
       (use n q in simp_all)
  with st show ?thesis by blast
qed

subsection \<open>Advancing during recovery\<close>

lemma advance_max:
  assumes "normal_full n" "normal_full x" "near x n" "n < 2 ^ 64 - 2 ^ 33" "nextXid s = word_of_nat n"
    and "v_startup_process env"
  shows "AdvanceNextFullTransactionIdPastXid env (xid_of x) s
       = (Inr (), s \<lparr> nextXid := word_of_nat (max n (next_full x)) \<rparr>)"
proof -
  have nx: "nextFullXid s = fxid_of n" by (simp add: nextFullXid_def fxid_of_def assms(5))
  have fol: "TransactionIdFollowsOrEquals (xid_of x) (xid_of n) \<longleftrightarrow> n \<le> x"
    using assms(1-3) by (intro xid_of_order(4)) auto
  show ?thesis
  proof (cases "n \<le> x")
    case False
    then have "max n (next_full x) = n" using next_full_least [of x n] assms(1) by simp
    moreover have "s \<lparr> nextXid := word_of_nat n \<rparr> = s" using assms(5) by (cases s) simp
    ultimately show ?thesis
      using False fol assms(6) by (simp add: AdvanceNextFullTransactionIdPastXid_def Let_def nx)
  next
    case True
    define y where "y = next_full x"
    define e where "e = n div 2 ^ 32"
    define r where "r = n mod 2 ^ 32"
    have n: "n = e * 2 ^ 32 + r" "r < 2 ^ 32" by (simp_all add: e_def r_def)
    have y: "n < y" "y \<le> n + 2 ^ 31 + 4"
      using True assms(3) next_full_props(1,2) [of x] by (auto simp: y_def near_def)
    have lt: "xid_of y < xid_of n \<longleftrightarrow> y mod 2 ^ 32 < r"
      by (simp add: word_less_nat_alt unat_xid_of r_def)
    define c where "c = y div 2 ^ 32"
    have yc: "y = c * 2 ^ 32 + y mod 2 ^ 32" "y mod 2 ^ 32 < 2 ^ 32" by (simp_all add: c_def)
    have carry: "c = (if y mod 2 ^ 32 < r then e + 1 else e)"
      using y n yc by (auto split: if_splits)
    have e: "e + 1 < 2 ^ 32" using assms(4) n(1) by simp
    have ep: "fxid_epoch (fxid_of n) = word_of_nat e" using assms(4) by (simp add: fxid_epoch_of e_def)
    have "(word_of_nat e + 1 :: u32) = word_of_nat (e + 1)" by simp
    moreover have "unat (word_of_nat (e + 1) :: u32) = e + 1"
      using e by (intro unat_of_nat_32) simp
    ultimately have ne: "(word_of_nat e + 1 :: u32) \<noteq> 0" by (metis unat_0 add_is_0 one_neq_zero)
    have ey: "(if xid_of y < xid_of n then word_of_nat e + 1 else word_of_nat e) = (word_of_nat c :: u32)"
      using lt carry by simp
    have "xid_of y = word_of_nat (y mod 2 ^ 32)"
      by (metis unat_xid_of of_nat_unat ucast_id)
    moreover have "from_epoch_and_xid (word_of_nat c) (word_of_nat (y mod 2 ^ 32)) = fxid_of y"
      using from_epoch_nat [of c "y mod 2 ^ 32"] carry e yc by auto
    ultimately have fin: "from_epoch_and_xid (word_of_nat c) (xid_of y) = fxid_of y" by (simp only:)
    have mx: "max n y = y" using y by simp
    show ?thesis
      using True fol ne assms(6) y_def
      by (simp add: AdvanceNextFullTransactionIdPastXid_def Let_def nx ep xid_of_next ey fin fxid_value_of mx
          flip: y_def)
  qed
qed

text \<open>
  During recovery the counter is moved past every id seen in the log and never back: for an id \<open>x\<close> within half the circle of the
  counter \<open>n\<close>, the new counter is the larger of \<open>n\<close> and the successor of \<open>x\<close>, across an epoch boundary as well.
\<close>

theorem AdvanceNextFullTransactionIdPastXid_max:
  assumes "normal_full n" "normal_full x" "near x n" "n < 2 ^ 64 - 2 ^ 33" "nextXid s = word_of_nat n"
    and "v_startup_process env"
  shows "AdvanceNextFullTransactionIdPastXid env (xid_of x) s
       = (Inr (), s \<lparr> nextXid := word_of_nat (max n (next_full x)) \<rparr>)"
  using assms by (rule advance_max)

theorem AdvanceNextFullTransactionIdPastXid_max_witness:
  "AdvanceNextFullTransactionIdPastXid quiet_env (xid_of 4294967400) ((initial_shmem 40) \<lparr> nextXid := word_of_nat 4294967290 \<rparr>)
     = (Inr (), (initial_shmem 40) \<lparr> nextXid := word_of_nat 4294967401 \<rparr>)"
proof -
  have "normal_full 4294967290" "normal_full 4294967400" "near 4294967400 4294967290" "v_startup_process quiet_env"
    by (simp_all add: normal_full_def near_def quiet_env_def)
  moreover have "max 4294967290 (next_full 4294967400) = 4294967401" by (simp add: next_full_def)
  ultimately show ?thesis
    using AdvanceNextFullTransactionIdPastXid_max [of 4294967290 4294967400
        "(initial_shmem 40) \<lparr> nextXid := word_of_nat 4294967290 \<rparr>" quiet_env] by simp
qed

subsection \<open>Object ids are reserved before they are used\<close>

text \<open>\<open>L\<close> is the limit last written to the log; the object ids from the counter up to it are reserved.\<close>

definition oid_reserved :: "u32 \<Rightarrow> shmem \<Rightarrow> bool" where
  "oid_reserved L s \<longleftrightarrow> oidCount s \<le> VAR_OID_PREFETCH \<and> (oidCount s \<noteq> 0 \<longrightarrow> nextOid s + oidCount s = L)"

definition oid_reset :: "varsup_env \<Rightarrow> shmem \<Rightarrow> shmem" where
  "oid_reset env s =
     (if nextOid s < FirstNormalObjectId \<and> (v_IsPostmasterEnvironment env \<or> nextOid s < FirstGenbkiObjectId)
      then s \<lparr> nextOid := FirstNormalObjectId, oidCount := 0 \<rparr> else s)"

lemma GetNewObjectId_reset:
  "\<not> v_recovery_in_progress env \<Longrightarrow>
   GetNewObjectId env s =
     (let s = oid_reset env s in
      bindS (if oidCount s = 0
             then tryS (v_put_next_oid env (nextOid s + VAR_OID_PREFETCH)) s
                    (\<lambda>_. (Inr (), s \<lparr> oidCount := VAR_OID_PREFETCH \<rparr>))
             else (Inr (), s)) (\<lambda>_ s.
        (Inr (nextOid s), s \<lparr> nextOid := nextOid s + 1, oidCount := oidCount s - 1 \<rparr>)))"
  by (auto simp: GetNewObjectId_def oid_reset_def Let_def)

lemma oid_reserved_step:
  assumes "oid_reserved L s" "oidCount s \<noteq> 0"
  shows "oid_reserved L (s \<lparr> nextOid := nextOid s + 1, oidCount := oidCount s - 1 \<rparr>)"
    and "0 < unat (L - nextOid s)" "unat (L - nextOid s) \<le> 8192"
proof -
  have L: "L - nextOid s = oidCount s" using assms by (auto simp: oid_reserved_def)
  have le: "unat (oidCount s) \<le> 8192"
    using assms(1) by (simp add: oid_reserved_def VAR_OID_PREFETCH_def word_le_nat_alt)
  show "0 < unat (L - nextOid s)" "unat (L - nextOid s) \<le> 8192"
    unfolding L using assms(2) le by (simp_all add: unat_gt_0)
  have "unat (oidCount s - 1) = unat (oidCount s) - 1" using assms(2) by (simp add: unat_minus_one)
  with le have "oidCount s - 1 \<le> VAR_OID_PREFETCH" by (simp add: VAR_OID_PREFETCH_def word_le_nat_alt)
  then show "oid_reserved L (s \<lparr> nextOid := nextOid s + 1, oidCount := oidCount s - 1 \<rparr>)"
    using assms by (auto simp: oid_reserved_def)
qed

text \<open>
  An object id is handed out only below a limit that is in the log, so that after a crash it is not handed out again: if
  the ids up to \<open>L\<close> are reserved, the new id lies within the \<open>8192\<close> before a limit that is \<open>L\<close> or has just been logged, the
  ids from its successor up to that limit are still reserved, and a server process never receives an id below
  \<^verbatim>\<open>FirstNormalObjectId\<close>.
\<close>

theorem GetNewObjectId_reserved:
  assumes "oid_reserved L s" and run: "GetNewObjectId env s = (Inr oid, s')"
  shows "\<exists>L'. (L' = L \<or> v_put_next_oid env L' = Inr ()) \<and> oid_reserved L' s'
       \<and> 0 < unat (L' - oid) \<and> unat (L' - oid) \<le> 8192 \<and> nextOid s' = oid + 1
       \<and> (v_IsPostmasterEnvironment env \<longrightarrow> FirstNormalObjectId \<le> oid)"
proof -
  define t where "t = oid_reset env s"
  have nr: "\<not> v_recovery_in_progress env" using run by (auto simp: GetNewObjectId_def)
  have t: "oid_reserved L t" "v_IsPostmasterEnvironment env \<longrightarrow> FirstNormalObjectId \<le> nextOid t"
    using assms(1) by (auto simp: t_def oid_reset_def oid_reserved_def VAR_OID_PREFETCH_def)
  show ?thesis
  proof (cases "oidCount t = 0")
    case False
    with run nr have "oid = nextOid t" "s' = t \<lparr> nextOid := nextOid t + 1, oidCount := oidCount t - 1 \<rparr>"
      by (auto simp add: GetNewObjectId_reset Let_def t_def [symmetric])
    with t oid_reserved_step [OF t(1) False] show ?thesis by auto
  next
    case True
    let ?u = "t \<lparr> oidCount := VAR_OID_PREFETCH \<rparr>"
    let ?L = "nextOid t + VAR_OID_PREFETCH"
    have put: "v_put_next_oid env ?L = Inr ()"
      using run nr True by (cases "v_put_next_oid env ?L") (simp_all add: GetNewObjectId_reset Let_def flip: t_def)
    with run nr True have "oid = nextOid ?u" "s' = ?u \<lparr> nextOid := nextOid ?u + 1, oidCount := oidCount ?u - 1 \<rparr>"
      by (auto simp add: GetNewObjectId_reset Let_def t_def [symmetric])
    moreover have "oid_reserved ?L ?u" "oidCount ?u \<noteq> 0"
      by (simp_all add: oid_reserved_def VAR_OID_PREFETCH_def)
    note oid_reserved_step [OF this]
    ultimately show ?thesis using put t(2) by auto
  qed
qed

theorem GetNewObjectId_reserved_witness:
  "\<exists>L' s'. GetNewObjectId quiet_env (initial_shmem 40) = (Inr 16384, s') \<and> oid_reserved L' s'"
proof -
  have r: "oid_reserved 0 (initial_shmem 40)" by (simp add: oid_reserved_def)
  obtain s' where run: "GetNewObjectId quiet_env (initial_shmem 40) = (Inr 16384, s')"
    by (simp add: GetNewObjectId_def Let_def FirstNormalObjectId_def)
  from GetNewObjectId_reserved [OF r run] run show ?thesis by blast
qed

end
