(* ===== verification/Subtrans.thy ===== *)
theory Subtrans
  imports SlruOps
begin

unbundle bit_operations_syntax

section \<open>The subtransaction log\<close>

text \<open>
  \<^verbatim>\<open>crates/backend/access/transam/subtrans/src/lib.rs\<close>: the parent of each subtransaction, four
  little-endian bytes per id in the pages of an SLRU pool. \<open>xmin\<close> is \<^verbatim>\<open>TransactionXmin()\<close>, and the next id is an argument.
  The view is \<open>subtrans_parent\<close>; the results are that a parent written is the parent
  read, that the walk to the topmost transaction ends on any contents and returns an
  ancestor, and that startup leaves the active ids without parents.
\<close>

definition SUBTRANS_XACTS_PER_PAGE :: u32 where "SUBTRANS_XACTS_PER_PAGE = 2048"

definition sub_page :: "TransactionId \<Rightarrow> int" where
  "sub_page xid = uint xid div uint SUBTRANS_XACTS_PER_PAGE"

definition TransactionIdToEntry :: "TransactionId \<Rightarrow> nat" where
  "TransactionIdToEntry xid = unat (xid mod SUBTRANS_XACTS_PER_PAGE)"

definition entry_bytes :: "nat \<Rightarrow> nat list" where
  "entry_bytes entryno = (let off = entryno * 4 in [off ..< off + 4])"

definition from_ne_bytes :: "u8 list \<Rightarrow> u32" where
  "from_ne_bytes bs =
     ucast (bs ! 0) OR push_bit 8 (ucast (bs ! 1)) OR push_bit 16 (ucast (bs ! 2)) OR push_bit 24 (ucast (bs ! 3))"

definition to_ne_bytes :: "u32 \<Rightarrow> u8 list" where
  "to_ne_bytes w = [ucast w, ucast (drop_bit 8 w), ucast (drop_bit 16 w), ucast (drop_bit 24 w)]"

definition sub_get :: "page \<Rightarrow> TransactionId \<Rightarrow> TransactionId" where
  "sub_get buffer xid = from_ne_bytes (map ((!) buffer) (entry_bytes (TransactionIdToEntry xid)))"

fun copy_from_slice :: "nat list \<Rightarrow> u8 list \<Rightarrow> page \<Rightarrow> page" where
  "copy_from_slice (i # is) (b # bs) buffer = copy_from_slice is bs (buffer[i := b])"
| "copy_from_slice _ _ buffer = buffer"

definition sub_put :: "TransactionId \<Rightarrow> TransactionId \<Rightarrow> page \<Rightarrow> page" where
  "sub_put xid parent buffer =
     copy_from_slice (entry_bytes (TransactionIdToEntry xid)) (to_ne_bytes parent) buffer"

definition SubTransSetParent ::
  "slru_ctl \<Rightarrow> TransactionId \<Rightarrow> TransactionId \<Rightarrow> slru \<Rightarrow> (unit res \<times> slru) option" where
  "SubTransSetParent ctl xid parent s =
     bindP (SimpleLruReadPage ctl (sub_page xid) True xid s) (\<lambda>slotno s.
       let cur = sub_get (page_buffer s ! slotno) xid in
       Some (Inr (),
         if cur \<noteq> parent
         then mark_page_dirty slotno (set_page_buffer slotno (sub_put xid parent (page_buffer s ! slotno)) s)
         else s))"

definition SubTransGetParent :: "slru_ctl \<Rightarrow> TransactionId \<Rightarrow> slru \<Rightarrow> (TransactionId res \<times> slru) option" where
  "SubTransGetParent ctl xid s =
    (if \<not> TransactionIdIsNormal xid then Some (Inr InvalidTransactionId, s)
     else bindP (SimpleLruReadPage_ReadOnly ctl (sub_page xid) xid s) (\<lambda>slotno s.
       Some (Inr (sub_get (page_buffer s ! slotno) xid), s)))"

text \<open>The loop's state: the two cursors and the pool.\<close>

definition topmost_step ::
  "slru_ctl \<Rightarrow> TransactionId \<Rightarrow> TransactionId \<times> TransactionId \<times> slru
    \<Rightarrow> ((TransactionId \<times> TransactionId \<times> slru) + TransactionId res \<times> slru) option" where
  "topmost_step ctl xmin = (\<lambda>(parentXid, previousXid, s).
     if \<not> TransactionIdIsValid parentXid then Some (Inr (Inr previousXid, s))
     else
       (let previousXid = parentXid in
        if TransactionIdPrecedes parentXid xmin then Some (Inr (Inr previousXid, s))
        else Option.bind (SubTransGetParent ctl parentXid s) (\<lambda>(r, s).
          Some (case r of
              Inl e \<Rightarrow> Inr (Inl e, s)
            | Inr parentXid \<Rightarrow>
                if \<not> TransactionIdPrecedes parentXid previousXid
                then Inr (Inl (InvalidSubtransEntry previousXid parentXid), s)
                else Inl (parentXid, previousXid, s)))))"

definition SubTransGetTopmostTransaction ::
  "slru_ctl \<Rightarrow> TransactionId \<Rightarrow> TransactionId \<Rightarrow> slru \<Rightarrow> (TransactionId res \<times> slru) option" where
  "SubTransGetTopmostTransaction ctl xmin xid s = iterate (topmost_step ctl xmin) (xid, xid, s)"

definition SUBTRANSShmemResetAfterCrash :: "slru_ctl \<Rightarrow> slru \<Rightarrow> slru" where
  "SUBTRANSShmemResetAfterCrash ctl s = SimpleLruResetAfterCrash ctl s"

definition ZeroSUBTRANSPage :: "slru_ctl \<Rightarrow> int \<Rightarrow> slru \<Rightarrow> (nat res \<times> slru) option" where
  "ZeroSUBTRANSPage ctl pageno s = SimpleLruZeroPage ctl pageno s"

definition BootStrapSUBTRANS :: "slru_ctl \<Rightarrow> slru \<Rightarrow> (unit res \<times> slru) option" where
  "BootStrapSUBTRANS ctl s = bindP (ZeroSUBTRANSPage ctl 0 s) (\<lambda>slotno s. SimpleLruWritePage ctl slotno s)"

definition startup_step :: "slru_ctl \<Rightarrow> int \<Rightarrow> int \<times> slru \<Rightarrow> ((int \<times> slru) + unit res \<times> slru) option" where
  "startup_step ctl endPage = (\<lambda>(startPage, s).
     Option.bind (ZeroSUBTRANSPage ctl startPage s) (\<lambda>(r, s).
       Some (case r of
           Inl e \<Rightarrow> Inr (Inl e, s)
         | Inr _ \<Rightarrow>
             if startPage = endPage then Inr (Inr (), s)
             else Inl (if startPage + 1 > sub_page MaxTransactionId then 0 else startPage + 1, s))))"

definition StartupSUBTRANS ::
  "slru_ctl \<Rightarrow> TransactionId res \<Rightarrow> TransactionId \<Rightarrow> slru \<Rightarrow> (unit res \<times> slru) option" where
  "StartupSUBTRANS ctl next_xid oldestActiveXID s =
    (case next_xid of
       Inl e \<Rightarrow> Some (Inl e, s)
     | Inr nextXid \<Rightarrow> iterate (startup_step ctl (sub_page nextXid)) (sub_page oldestActiveXID, s))"

definition CheckPointSUBTRANS :: "slru_ctl \<Rightarrow> unit res \<Rightarrow> slru \<Rightarrow> (unit res \<times> slru) option" where
  "CheckPointSUBTRANS ctl fsync_dir s = SimpleLruWriteAll ctl fsync_dir s"

definition ExtendSUBTRANS :: "slru_ctl \<Rightarrow> TransactionId \<Rightarrow> slru \<Rightarrow> (unit res \<times> slru) option" where
  "ExtendSUBTRANS ctl newestXact s =
    (if TransactionIdToEntry newestXact \<noteq> 0 \<and> \<not> TransactionIdEquals newestXact FirstNormalTransactionId
     then Some (Inr (), s)
     else bindP (ZeroSUBTRANSPage ctl (sub_page newestXact) s) (\<lambda>_ s. Some (Inr (), s)))"

text \<open>Stepping back from \<open>FirstNormalTransactionId\<close> passes the special ids in at most three steps.\<close>

definition TransactionIdRetreat :: "TransactionId \<Rightarrow> TransactionId" where
  "TransactionIdRetreat xid =
    (let xid = xid - 1 in
     if xid < FirstNormalTransactionId then
       (let xid = xid - 1 in
        if xid < FirstNormalTransactionId then
          (let xid = xid - 1 in if xid < FirstNormalTransactionId then xid - 1 else xid)
        else xid)
     else xid)"

definition TruncateSUBTRANS :: "slru_ctl \<Rightarrow> int list \<Rightarrow> TransactionId \<Rightarrow> slru \<Rightarrow> (unit res \<times> slru) option" where
  "TruncateSUBTRANS ctl names oldestXact s =
     SimpleLruTruncate ctl names (sub_page (TransactionIdRetreat oldestXact)) s"

definition SubTransPagePrecedes :: "int \<Rightarrow> int \<Rightarrow> bool" where
  "SubTransPagePrecedes page1 page2 \<longleftrightarrow>
     (let xid1 = word_of_int page1 * SUBTRANS_XACTS_PER_PAGE + (FirstNormalTransactionId + 1);
          xid2 = word_of_int page2 * SUBTRANS_XACTS_PER_PAGE + (FirstNormalTransactionId + 1)
      in TransactionIdPrecedes xid1 xid2
         \<and> TransactionIdPrecedes xid1 (xid2 + (SUBTRANS_XACTS_PER_PAGE - 1)))"

subsection \<open>Entries of a page\<close>

lemma entry_bytes_eq: "entry_bytes e = [e * 4, e * 4 + 1, e * 4 + 2, e * 4 + 3]"
  by (simp add: entry_bytes_def upt_conv_Cons Let_def eval_nat_numeral)

lemma ne_bytes_roundtrip: "from_ne_bytes (to_ne_bytes w) = w"
proof (rule bit_word_eqI)
  fix n assume "n < LENGTH(32)"
  then consider "n < 8" | "8 \<le> n" "n < 16" | "16 \<le> n" "n < 24" | "24 \<le> n" "n < 32"
    by (cases "n < 8"; cases "n < 16"; cases "n < 24") simp_all
  then show "bit (from_ne_bytes (to_ne_bytes w)) n = bit w n"
    by cases (simp_all add: from_ne_bytes_def to_ne_bytes_def bit_simps, auto)
qed

lemma sub_addr: "sub_page xid = int (unat xid div 2048)" "TransactionIdToEntry xid = unat xid mod 2048"
  by (simp_all add: sub_page_def TransactionIdToEntry_def SUBTRANS_XACTS_PER_PAGE_def unat_mod_distrib zdiv_int)

lemma sub_addr_inj:
  assumes "sub_page x = sub_page y" and "TransactionIdToEntry x = TransactionIdToEntry y"
  shows "x = y"
proof -
  have "unat x = unat y"
    using assms unfolding sub_addr by (metis div_mult_mod_eq of_nat_eq_iff)
  then show ?thesis by (simp add: word_unat_eq_iff)
qed

lemma sub_put_length [simp]: "length (sub_put xid parent c) = length c"
  by (simp add: sub_put_def entry_bytes_eq to_ne_bytes_def)

lemma sub_get_put:
  assumes c: "length c = BLCKSZ" and page: "sub_page x = sub_page xid"
  shows "sub_get (sub_put xid parent c) x = (if x = xid then parent else sub_get c x)"
proof (cases "x = xid")
  case True
  have "TransactionIdToEntry xid * 4 + 3 < length c"
    using c by (simp add: sub_addr BLCKSZ_def)
  then have "map ((!) (sub_put xid parent c)) (entry_bytes (TransactionIdToEntry xid)) = to_ne_bytes parent"
    by (simp add: sub_put_def entry_bytes_eq to_ne_bytes_def nth_list_update)
  with True show ?thesis
    by (simp add: sub_get_def ne_bytes_roundtrip)
next
  case False
  then have "TransactionIdToEntry x \<noteq> TransactionIdToEntry xid"
    using sub_addr_inj [OF page] by blast
  then have "map ((!) (sub_put xid parent c)) (entry_bytes (TransactionIdToEntry x))
      = map ((!) c) (entry_bytes (TransactionIdToEntry x))"
    by (simp add: sub_put_def entry_bytes_eq to_ne_bytes_def nth_list_update)
  with False show ?thesis
    unfolding sub_get_def by (simp only: if_False)
qed

lemma zero_entry: "sub_get zero_page x = InvalidTransactionId"
proof -
  have "TransactionIdToEntry x * 4 + 3 < BLCKSZ"
    by (simp add: sub_addr BLCKSZ_def)
  then show ?thesis
    by (simp add: sub_get_def entry_bytes_eq from_ne_bytes_def zero_page_def InvalidTransactionId_def)
qed

subsection \<open>Parents\<close>

definition subtrans_parent :: "slru \<Rightarrow> TransactionId \<Rightarrow> TransactionId \<Rightarrow> bool" where
  "subtrans_parent s xid p \<longleftrightarrow>
     (\<exists>c. content s (sub_page xid) c \<and> length c = BLCKSZ \<and> sub_get c xid = p)"

lemma subtrans_parent_unique:
  "slru_ok ctl s \<Longrightarrow> subtrans_parent s x p \<Longrightarrow> subtrans_parent s x q \<Longrightarrow> p = q"
  using content_unique by (fastforce simp: subtrans_parent_def slru_ok_def)

lemma SetParent_ok:
  assumes ok: "slru_ok ctl s"
  shows "\<exists>r s'. SubTransSetParent ctl xid parent s = Some (r, s') \<and> slru_ok ctl s'
    \<and> (\<forall>x p. subtrans_parent s x p \<longrightarrow> subtrans_parent s' x (if r = Inr () \<and> x = xid then parent else p))"
proof -
  let ?p = "sub_page xid"
  let ?g = "\<lambda>i t. if sub_get (page_buffer t ! i) xid \<noteq> parent
      then mark_page_dirty i (set_page_buffer i (sub_put xid parent (page_buffer t ! i)) t) else t"
  let ?f = "\<lambda>c. if sub_get c xid \<noteq> parent then sub_put xid parent c else c"
  have run: "SubTransSetParent ctl xid parent s = bindP (SimpleLruReadPage ctl ?p True xid s) (\<lambda>i t. Some (Inr (), ?g i t))"
    by (simp add: SubTransSetParent_def Let_def)
  have "\<exists>r s'. SubTransSetParent ctl xid parent s = Some (r, s') \<and> slru_ok ctl s'
      \<and> (\<forall>q c. content s q c \<longrightarrow> content s' q (if q = ?p \<and> r = Inr () then ?f c else c))"
    unfolding run
    by (rule rw.modify_ok [OF ok]) (auto simp: slru_stored_def store_page_def)
  then obtain r s' where s': "SubTransSetParent ctl xid parent s = Some (r, s')" "slru_ok ctl s'"
    and page: "\<And>q c. content s q c \<Longrightarrow> content s' q (if q = ?p \<and> r = Inr () then ?f c else c)"
    by blast
  have "subtrans_parent s' x (if r = Inr () \<and> x = xid then parent else p)" if "subtrans_parent s x p" for x p
  proof -
    obtain c where c: "content s (sub_page x) c" "length c = BLCKSZ" "sub_get c x = p"
      using \<open>subtrans_parent s x p\<close> by (auto simp: subtrans_parent_def)
    show ?thesis
      using page [OF c(1)] c sub_get_put [OF c(2), of x xid parent]
      unfolding subtrans_parent_def by (cases "sub_page x = ?p \<and> r = Inr ()") (auto split: if_splits)
  qed
  with s' show ?thesis by blast
qed

lemma GetParent_ok:
  assumes ok: "slru_ok ctl s"
  shows "\<exists>r s'. SubTransGetParent ctl xid s = Some (r, s') \<and> slru_ok ctl s'
    \<and> (\<forall>x p. subtrans_parent s x p \<longrightarrow> subtrans_parent s' x p)
    \<and> (\<forall>p q. r = Inr q \<longrightarrow> subtrans_parent s xid p \<longrightarrow>
         q = (if TransactionIdIsNormal xid then p else InvalidTransactionId))"
proof (cases "TransactionIdIsNormal xid")
  case False
  with ok show ?thesis by (simp add: SubTransGetParent_def)
next
  case True
  show ?thesis
  proof (cases rule: ro.fetch_cases [OF ok, of "sub_page xid" xid, case_names error slot])
    case (error e s')
    then have "subtrans_parent s x p \<Longrightarrow> subtrans_parent s' x p" for x p
      by (auto simp: subtrans_parent_def)
    with error(1,2) True show ?thesis
      by (simp add: SubTransGetParent_def)
  next
    case (slot i s')
    then have "subtrans_parent s x p \<Longrightarrow> subtrans_parent s' x p" for x p
      by (auto simp: subtrans_parent_def)
    moreover have "subtrans_parent s xid p \<Longrightarrow> sub_get (page_buffer s' ! i) xid = p" for p
      using slot(5) by (auto simp: subtrans_parent_def)
    ultimately show ?thesis
      using slot(1,2) True by (simp add: SubTransGetParent_def)
  qed
qed

text \<open>
  A parent written is the parent read. Outside recovery, on a sound pool, \<^verbatim>\<open>SubTransSetParent\<close> returns and leaves
  it sound, changes the entry of no other id, and after a success
  \<^verbatim>\<open>SubTransGetParent\<close> of the (normal) id returns, and what it reports is the parent written.
\<close>

theorem SetParent_GetParent:
  assumes "slru_ok ctl s" and "TransactionIdIsNormal xid" and "subtrans_parent s xid p0"
  shows "\<exists>r s'. SubTransSetParent ctl xid parent s = Some (r, s') \<and> slru_ok ctl s'
    \<and> (\<forall>x p. x \<noteq> xid \<longrightarrow> subtrans_parent s x p \<longrightarrow> subtrans_parent s' x p)
    \<and> (r = Inr () \<longrightarrow> (\<exists>r2 s2. SubTransGetParent ctl xid s' = Some (r2, s2) \<and> (\<forall>q. r2 = Inr q \<longrightarrow> q = parent)))"
proof -
  obtain r s' where s': "SubTransSetParent ctl xid parent s = Some (r, s')" "slru_ok ctl s'"
    and set: "\<And>x p. subtrans_parent s x p \<Longrightarrow> subtrans_parent s' x (if r = Inr () \<and> x = xid then parent else p)"
    using SetParent_ok [OF assms(1), of xid parent] by blast
  have other: "subtrans_parent s' x p" if "x \<noteq> xid" "subtrans_parent s x p" for x p
    using set [OF that(2)] that(1) by simp
  have "\<exists>r2 s2. SubTransGetParent ctl xid s' = Some (r2, s2) \<and> (\<forall>q. r2 = Inr q \<longrightarrow> q = parent)" if "r = Inr ()"
    using GetParent_ok [OF s'(2), of xid] set [OF assms(3)] assms(2) that by auto
  with s' other show ?thesis by blast
qed

subsection \<open>The topmost transaction\<close>

inductive ancestor :: "slru \<Rightarrow> TransactionId \<Rightarrow> TransactionId \<Rightarrow> bool" for s where
  ancestor_refl: "ancestor s x x"
| ancestor_step: "ancestor s x y \<Longrightarrow> subtrans_parent s y p \<Longrightarrow> TransactionIdIsNormal y \<Longrightarrow> ancestor s x p"

text \<open>How far an id is ahead of \<open>xmin\<close>: the walk moves towards \<open>xmin\<close> or ends.\<close>

definition ahead :: "TransactionId \<Rightarrow> TransactionId \<Rightarrow> nat" where
  "ahead xmin x = nat (sint (x - xmin))"

lemma not_before_xmin_normal:
  assumes "TransactionIdIsNormal xmin" and "TransactionIdIsValid p" and "\<not> TransactionIdPrecedes p xmin"
  shows "TransactionIdIsNormal p" and "0 \<le> sint (p - xmin)"
proof -
  show normal: "TransactionIdIsNormal p"
    using assms(1,3) by (auto simp: TransactionIdPrecedes_def TransactionIdIsNormal_iff split: if_splits)
  then show "0 \<le> sint (p - xmin)"
    using assms by (simp add: TransactionIdPrecedes_def)
qed

lemma sint_add_32:
  fixes a b :: "32 word"
  assumes "- (2 ^ 31) \<le> sint a + sint b" and "sint a + sint b < 2 ^ 31"
  shows "sint (a + b) = sint a + sint b"
proof -
  have "sint (a + b) = signed_take_bit 31 (sint a + sint b)"
    by (simp add: sint_word_ariths)
  also have "\<dots> = sint a + sint b"
    by (rule signed_take_bit_int_eq_self) (use assms in simp_all)
  finally show ?thesis .
qed

lemma sint_bounds_32: "- (2 ^ 31) \<le> sint (a :: 32 word)" "sint (a :: 32 word) < 2 ^ 31"
  using signed_take_bit_int_greater_eq_minus_exp [of 31 "uint a"] signed_take_bit_int_less_exp [of 31 "uint a"]
  by (simp_all add: sint_uint)

lemma parent_closer:
  assumes "TransactionIdIsNormal xmin" and "TransactionIdIsNormal y" and "\<not> TransactionIdPrecedes y xmin"
    and "TransactionIdPrecedes p y" and "TransactionIdIsValid p" and "\<not> TransactionIdPrecedes p xmin"
  shows "ahead xmin p < ahead xmin y"
proof -
  have p: "TransactionIdIsNormal p" "0 \<le> sint (p - xmin)"
    using not_before_xmin_normal [OF assms(1,5,6)] by blast+
  have "0 \<le> sint (y - xmin)" "sint (p - y) < 0"
    using assms p(1) by (simp_all add: TransactionIdPrecedes_def)
  moreover have "sint ((p - y) + (y - xmin)) = sint (p - y) + sint (y - xmin)"
    using calculation sint_bounds_32 [of "p - y"] sint_bounds_32 [of "y - xmin"] by (intro sint_add_32) simp_all
  ultimately show ?thesis
    using p(2) by (simp add: ahead_def)
qed

definition walk_left :: "TransactionId \<Rightarrow> TransactionId \<Rightarrow> nat" where
  "walk_left xmin x =
     (if \<not> TransactionIdIsValid x \<or> TransactionIdPrecedes x xmin then 0 else Suc (ahead xmin x))"

definition walk_inv :: "slru_ctl \<Rightarrow> slru \<Rightarrow> TransactionId \<Rightarrow> TransactionId \<times> TransactionId \<times> slru \<Rightarrow> bool" where
  "walk_inv ctl s xid = (\<lambda>(par, prev, t). slru_ok ctl t \<and> (\<forall>x p. subtrans_parent s x p \<longrightarrow> subtrans_parent t x p)
     \<and> ancestor s xid par \<and> ancestor s xid prev
     \<and> (TransactionIdIsValid par \<or> subtrans_parent s prev par))"

definition walk_post :: "slru_ctl \<Rightarrow> TransactionId \<Rightarrow> slru \<Rightarrow> TransactionId \<Rightarrow> TransactionId res \<times> slru \<Rightarrow> bool" where
  "walk_post ctl xmin s xid = (\<lambda>(r, t). slru_ok ctl t \<and> (\<forall>x p. subtrans_parent s x p \<longrightarrow> subtrans_parent t x p)
     \<and> (\<forall>top. r = Inr top \<longrightarrow> ancestor s xid top
          \<and> (TransactionIdPrecedes top xmin \<or> subtrans_parent s top InvalidTransactionId)))"

lemma topmost_step_ok:
  assumes xmin: "TransactionIdIsNormal xmin"
    and known: "\<forall>y. ancestor s xid y \<longrightarrow> TransactionIdIsNormal y \<longrightarrow> \<not> TransactionIdPrecedes y xmin
      \<longrightarrow> (\<exists>p. subtrans_parent s y p)"
    and inv: "walk_inv ctl s xid (par, prev, t)"
  shows "(\<exists>w. topmost_step ctl xmin (par, prev, t) = Some (Inl w) \<and> walk_inv ctl s xid w
      \<and> walk_left xmin (fst w) < walk_left xmin par)
    \<or> (\<exists>r. topmost_step ctl xmin (par, prev, t) = Some (Inr r) \<and> walk_post ctl xmin s xid r)"
proof -
  have inv': "slru_ok ctl t" "\<And>x p. subtrans_parent s x p \<Longrightarrow> subtrans_parent t x p" "ancestor s xid par" "ancestor s xid prev"
    "TransactionIdIsValid par \<or> subtrans_parent s prev par"
    using inv by (auto simp: walk_inv_def)
  consider "\<not> TransactionIdIsValid par" | "TransactionIdIsValid par" "TransactionIdPrecedes par xmin"
    | "TransactionIdIsValid par" "\<not> TransactionIdPrecedes par xmin" by blast
  then show ?thesis
  proof cases
    case 1
    then have "subtrans_parent s prev InvalidTransactionId"
      using inv'(5) by (simp add: TransactionIdIsValid_def)
    with 1 inv' show ?thesis
      by (simp add: topmost_step_def walk_post_def)
  next
    case 2
    with inv' show ?thesis
      by (simp add: topmost_step_def walk_post_def Let_def)
  next
    case 3
    have normal: "TransactionIdIsNormal par"
      using not_before_xmin_normal [OF xmin 3] by blast
    then obtain p where p: "subtrans_parent s par p"
      using known inv'(3) 3 by blast
    obtain r u where u: "SubTransGetParent ctl par t = Some (r, u)" "slru_ok ctl u"
      "\<And>x p. subtrans_parent t x p \<Longrightarrow> subtrans_parent u x p" "\<And>q. r = Inr q \<Longrightarrow> q = p"
      using GetParent_ok [OF inv'(1), of par] inv'(2) [OF p] normal by auto
    have views: "subtrans_parent s x p \<Longrightarrow> subtrans_parent u x p" for x p
      using inv'(2) u(3) by blast
    show ?thesis
    proof (cases r)
      case (Inl e)
      with 3 u views show ?thesis
        by (simp add: topmost_step_def walk_post_def Let_def)
    next
      case (Inr q)
      then have q: "subtrans_parent s par q" "ancestor s xid q"
        using u(4) p inv'(3) normal ancestor_step by blast+
      show ?thesis
      proof (cases "TransactionIdPrecedes q par")
        case True
        then have "walk_left xmin q < walk_left xmin par"
          using parent_closer [OF xmin normal 3(2) True] 3 by (auto simp: walk_left_def)
        with True 3 Inr u views q inv'(3) show ?thesis
          by (simp add: topmost_step_def walk_inv_def Let_def)
      next
        case False
        with 3 Inr u views show ?thesis
          by (simp add: topmost_step_def walk_post_def Let_def)
      qed
    qed
  qed
qed


subsection \<open>Startup\<close>

definition sub_pages :: int where "sub_pages = sub_page MaxTransactionId + 1"

definition page_offset :: "int \<Rightarrow> int \<Rightarrow> int" where
  "page_offset base p = (p - base) mod sub_pages"

lemma sub_pages_eq: "sub_pages = 2097152"
  by (simp add: sub_pages_def sub_addr MaxTransactionId_def)

lemma sub_page_range: "0 \<le> sub_page x" "sub_page x < sub_pages"
proof -
  have "unat x div 2048 < 2097152"
    using unat_bounds(3) [of x] by (simp add: less_mult_imp_div_less)
  then show "0 \<le> sub_page x" "sub_page x < sub_pages"
    unfolding sub_addr(1) sub_pages_eq by simp_all
qed

lemma page_offset_range: "0 \<le> page_offset b p" "page_offset b p < sub_pages"
  by (simp_all add: page_offset_def sub_pages_eq)

lemma page_offset_next:
  assumes "0 \<le> b" and "b < sub_pages" and "0 \<le> p" and "p < sub_pages" and "page_offset b p < page_offset b e"
  shows "page_offset b (if p + 1 > sub_page MaxTransactionId then 0 else p + 1) = page_offset b p + 1"
    and "0 \<le> (if p + 1 > sub_page MaxTransactionId then 0 else p + 1)"
    and "(if p + 1 > sub_page MaxTransactionId then 0 else p + 1) < sub_pages"
proof -
  let ?n = "if p + 1 > sub_page MaxTransactionId then 0 else p + 1"
  have N: "sub_page MaxTransactionId = sub_pages - 1" "(0 :: int) < sub_pages"
    by (simp_all add: sub_pages_def) (simp add: sub_page_range)
  show "0 \<le> ?n" "?n < sub_pages"
    using assms N by auto
  have "?n = (p + 1) mod sub_pages"
    using assms N by (cases "p = sub_pages - 1") auto
  then have "page_offset b ?n = (p + 1 - b) mod sub_pages"
    by (simp add: page_offset_def mod_diff_left_eq)
  also have "\<dots> = (page_offset b p + 1) mod sub_pages"
    by (simp add: page_offset_def mod_add_left_eq) (simp add: algebra_simps)
  also have "\<dots> = page_offset b p + 1"
    using assms(5) page_offset_range [of b e] page_offset_range [of b p] by (intro mod_pos_pos_trivial) simp_all
  finally show "page_offset b ?n = page_offset b p + 1" .
qed

lemma page_offset_inj:
  assumes "0 \<le> p" "p < sub_pages" "0 \<le> q" "q < sub_pages" "page_offset b p = page_offset b q"
  shows "p = q"
proof -
  have "(p - b) mod sub_pages = (q - b) mod sub_pages"
    using assms(5) by (simp add: page_offset_def)
  then have "p mod sub_pages = q mod sub_pages"
    by (metis diff_add_cancel mod_add_left_eq)
  then show ?thesis
    using assms by simp
qed

text \<open>The loop: the pages before the cursor are zero, pages off the range are as they were.\<close>

definition startup_inv :: "slru_ctl \<Rightarrow> slru \<Rightarrow> int \<Rightarrow> int \<Rightarrow> int \<times> slru \<Rightarrow> bool" where
  "startup_inv ctl s b e = (\<lambda>(p, t). slru_wf ctl t \<and> 0 \<le> p \<and> p < sub_pages \<and> page_offset b p \<le> page_offset b e
     \<and> (\<forall>q. 0 \<le> q \<longrightarrow> q < sub_pages \<longrightarrow> page_offset b q < page_offset b p \<longrightarrow> content t q zero_page)
     \<and> (\<forall>q c. content s q c \<longrightarrow> page_offset b q > page_offset b e \<longrightarrow> content t q c))"

definition startup_post :: "slru_ctl \<Rightarrow> slru \<Rightarrow> int \<Rightarrow> int \<Rightarrow> unit res \<times> slru \<Rightarrow> bool" where
  "startup_post ctl s b e = (\<lambda>(r, t). slru_wf ctl t
     \<and> (r = Inr () \<longrightarrow> (\<forall>q. 0 \<le> q \<longrightarrow> q < sub_pages \<longrightarrow> page_offset b q \<le> page_offset b e \<longrightarrow> content t q zero_page))
     \<and> (\<forall>q c. content s q c \<longrightarrow> page_offset b q > page_offset b e \<longrightarrow> content t q c))"

lemma startup_step_ok:
  assumes b: "0 \<le> b" "b < sub_pages" and e: "0 \<le> e" "e < sub_pages" and inv: "startup_inv ctl s b e (p, t)"
  shows "(\<exists>w. startup_step ctl e (p, t) = Some (Inl w) \<and> startup_inv ctl s b e w
      \<and> nat (page_offset b e - page_offset b (fst w)) < nat (page_offset b e - page_offset b p))
    \<or> (\<exists>r. startup_step ctl e (p, t) = Some (Inr r) \<and> startup_post ctl s b e r)"
proof -
  have I: "slru_wf ctl t" "0 \<le> p" "p < sub_pages" "page_offset b p \<le> page_offset b e"
    "\<And>q. 0 \<le> q \<Longrightarrow> q < sub_pages \<Longrightarrow> page_offset b q < page_offset b p \<Longrightarrow> content t q zero_page"
    "\<And>q c. content s q c \<Longrightarrow> page_offset b q > page_offset b e \<Longrightarrow> content t q c"
    using inv by (auto simp: startup_inv_def)
  obtain r u where u: "SimpleLruZeroPage ctl p t = Some (r, u)" "slru_wf ctl u"
    "\<And>q c. q \<noteq> p \<or> (\<exists>err. r = Inl err) \<Longrightarrow> content t q c \<Longrightarrow> content u q c"
    "\<And>i. r = Inr i \<Longrightarrow> content u p zero_page"
    using ZeroPage_ok [OF I(1), of p] by blast
  have kept: "content u q c" if "content s q c" "page_offset b q > page_offset b e" for q c
    using I(4) I(6) [OF that] u(3) [of q c] that(2) by (cases "q = p") auto
  show ?thesis
  proof (cases r)
    case (Inl err)
    then have "startup_post ctl s b e (Inl err, u)"
      using u(2) kept by (simp add: startup_post_def)
    with Inl u(1) show ?thesis
      by (simp add: startup_step_def ZeroSUBTRANSPage_def)
  next
    case (Inr i)
    have zero: "content u q zero_page" if q: "0 \<le> q" "q < sub_pages" "page_offset b q \<le> page_offset b p" for q
    proof (cases "q = p")
      case False
      then have "page_offset b q \<noteq> page_offset b p"
        using page_offset_inj [OF q(1,2) I(2,3)] by blast
      with I(5) [OF q(1,2)] u(3) False q(3) show ?thesis by simp
    qed (use u(4) Inr in simp)
    show ?thesis
    proof (cases "p = e")
      case True
      with zero kept u(2) have "startup_post ctl s b e (Inr (), u)"
        by (simp add: startup_post_def)
      with True Inr u(1) show ?thesis
        by (simp add: startup_step_def ZeroSUBTRANSPage_def)
    next
      case False
      let ?n = "if p + 1 > sub_page MaxTransactionId then 0 else p + 1"
      have less: "page_offset b p < page_offset b e"
        using I(4) page_offset_inj [OF I(2,3) e, of b] False by linarith
      note n = page_offset_next [OF b I(2,3) less]
      have "startup_inv ctl s b e (?n, u)"
        unfolding startup_inv_def using n u(2) less zero kept by auto
      moreover have "startup_step ctl e (p, t) = Some (Inl (?n, u))"
        using False Inr u(1) by (simp add: startup_step_def ZeroSUBTRANSPage_def)
      ultimately show ?thesis
        using n(1) less by (intro disjI1 exI [of _ "(?n, u)"]) simp
    qed
  qed
qed

text \<open>
  Startup forgets the parents of active transactions. On a well-formed pool \<^verbatim>\<open>StartupSUBTRANS\<close> returns, for every
  oldest and next id, also when the range passes the end of the id space; if it succeeds, every id whose page lies in the circular
  range from the oldest id's page to the next id's page has no parent; and entries on
  pages outside that range are kept.
\<close>

theorem StartupSUBTRANS_clears:
  assumes wf: "slru_wf ctl s"
  shows "\<exists>r s'. StartupSUBTRANS ctl (Inr nextXid) oldest s = Some (r, s') \<and> slru_wf ctl s'
    \<and> (\<forall>x. page_offset (sub_page oldest) (sub_page x) \<le> page_offset (sub_page oldest) (sub_page nextXid)
         \<longrightarrow> r = Inr () \<longrightarrow> subtrans_parent s' x InvalidTransactionId)
    \<and> (\<forall>x p. page_offset (sub_page oldest) (sub_page x) > page_offset (sub_page oldest) (sub_page nextXid)
         \<longrightarrow> subtrans_parent s x p \<longrightarrow> subtrans_parent s' x p)"
proof -
  let ?b = "sub_page oldest" and ?e = "sub_page nextXid"
  have "\<exists>r. iterate (startup_step ctl ?e) (?b, s) = Some r \<and> startup_post ctl s ?b ?e r"
  proof (rule iterate_total [where I = "startup_inv ctl s ?b ?e"
        and m = "\<lambda>w. nat (page_offset ?b ?e - page_offset ?b (fst w))"])
    have "page_offset ?b ?b = 0"
      by (simp add: page_offset_def)
    then show "startup_inv ctl s ?b ?e (?b, s)"
      using wf sub_page_range page_offset_range by (simp add: startup_inv_def not_less [symmetric])
    fix w assume "startup_inv ctl s ?b ?e w"
    then show "(\<exists>w'. startup_step ctl ?e w = Some (Inl w') \<and> startup_inv ctl s ?b ?e w'
          \<and> nat (page_offset ?b ?e - page_offset ?b (fst w')) < nat (page_offset ?b ?e - page_offset ?b (fst w)))
        \<or> (\<exists>r. startup_step ctl ?e w = Some (Inr r) \<and> startup_post ctl s ?b ?e r)"
      using startup_step_ok [OF sub_page_range sub_page_range] by (cases w) auto
  qed
  then obtain r s' where run: "StartupSUBTRANS ctl (Inr nextXid) oldest s = Some (r, s')"
    and post: "startup_post ctl s ?b ?e (r, s')"
    by (auto simp: StartupSUBTRANS_def)
  have "length zero_page = BLCKSZ"
    by (simp add: zero_page_def)
  then have "subtrans_parent s' x InvalidTransactionId"
    if "page_offset ?b (sub_page x) \<le> page_offset ?b ?e" "r = Inr ()" for x
    using post that sub_page_range [of x] zero_entry [of x]
    unfolding startup_post_def subtrans_parent_def by blast
  moreover have "subtrans_parent s' x p"
    if "page_offset ?b (sub_page x) > page_offset ?b ?e" "subtrans_parent s x p" for x p
    using post that unfolding startup_post_def subtrans_parent_def by blast
  moreover have "slru_wf ctl s'"
    using post by (simp add: startup_post_def)
  ultimately show ?thesis
    using run by blast
qed

theorem StartupSUBTRANS_clears_witness:
  "slru_wf (demo_ctl (<)) demo_pool
    \<and> (\<exists>r s'. StartupSUBTRANS (demo_ctl (<)) (Inr 5000) 3 demo_pool = Some (r, s')
         \<and> (r = Inr () \<longrightarrow> subtrans_parent s' 2500 InvalidTransactionId))"
proof -
  have "page_offset (sub_page 3) (sub_page 2500) \<le> page_offset (sub_page 3) (sub_page 5000)"
    by (simp add: page_offset_def sub_addr sub_pages_eq)
  with StartupSUBTRANS_clears [OF demo_pool_wf [of "(<)"], of 5000 3] demo_pool_wf [of "(<)"] show ?thesis
    by blast
qed

lemma demo_subtrans:
  "slru_ok (demo_ctl precedes) demo_pool"
  "sub_page x = 0 \<Longrightarrow> subtrans_parent demo_pool x InvalidTransactionId"
proof -
  show "slru_ok (demo_ctl precedes) demo_pool"
    by (simp add: slru_ok_def demo_pool_wf demo_live)
  show "subtrans_parent demo_pool x InvalidTransactionId" if "sub_page x = 0"
    using that demo_content(1) zero_entry [of x] unfolding subtrans_parent_def by (auto simp: zero_page_def)
qed

theorem SetParent_GetParent_witness:
  "slru_ok (demo_ctl (<)) demo_pool \<and> TransactionIdIsNormal 7 \<and> subtrans_parent demo_pool 7 0
    \<and> (\<exists>r s'. SubTransSetParent (demo_ctl (<)) 7 5 demo_pool = Some (r, s')
         \<and> (r = Inr () \<longrightarrow> (\<exists>r2 s2. SubTransGetParent (demo_ctl (<)) 7 s' = Some (r2, s2) \<and> (\<forall>q. r2 = Inr q \<longrightarrow> q = 5))))"
proof -
  have seven: "TransactionIdIsNormal 7" "subtrans_parent demo_pool 7 0"
    using demo_subtrans(2) [of 7] by (simp_all add: sub_addr InvalidTransactionId_def TransactionIdIsNormal_iff)
  obtain r s' where "SubTransSetParent (demo_ctl (<)) 7 5 demo_pool = Some (r, s')"
    "r = Inr () \<longrightarrow> (\<exists>r2 s2. SubTransGetParent (demo_ctl (<)) 7 s' = Some (r2, s2) \<and> (\<forall>q. r2 = Inr q \<longrightarrow> q = 5))"
    using SetParent_GetParent [OF demo_subtrans(1) [of "(<)"] seven, of 5] by (elim exE conjE) simp
  then show ?thesis
    using seven demo_subtrans(1) [of "(<)"] by simp
qed


end
