(* ===== verification/Transam.thy ===== *)
theory Transam
  imports Clog Subtrans
begin

section \<open>Transaction outcome\<close>

text \<open>
  \<^verbatim>\<open>crates/backend/access/transam/transam/src/lib.rs\<close>: the outcome of a transaction, asked of the commit
  log through a one-entry cache and, for a sub-committed id, of its parent in the
  subtransaction log. The state holds both pools and the cache of one backend; \<open>xmin\<close> is
  \<^verbatim>\<open>TransactionXmin()\<close>. Warnings are left out. The outcome is specified by the
  predicate \<open>did_commit\<close>.
\<close>

record transam =
  t_clog :: slru
  t_sub :: slru
  cachedFetchXid :: TransactionId
  cachedFetchXidStatus :: XidStatus
  cachedCommitLSN :: XLogRecPtr

text \<open>What stays fixed: the two pools' descriptors and the backend's \<open>xmin\<close>.\<close>

record transam_ctl =
  x_clog :: slru_ctl
  x_sub :: slru_ctl
  x_locks :: clog_locks
  x_xmin :: TransactionId

definition TransactionLogFetch ::
  "transam_ctl \<Rightarrow> TransactionId \<Rightarrow> transam \<Rightarrow> (XidStatus res \<times> transam) option" where
  "TransactionLogFetch X transactionId t =
    (if TransactionIdEquals transactionId (cachedFetchXid t) then Some (Inr (cachedFetchXidStatus t), t)
     else if \<not> TransactionIdIsNormal transactionId then
       (if TransactionIdEquals transactionId BootstrapTransactionId then Some (Inr TRANSACTION_STATUS_COMMITTED, t)
        else if TransactionIdEquals transactionId FrozenTransactionId then Some (Inr TRANSACTION_STATUS_COMMITTED, t)
        else Some (Inr TRANSACTION_STATUS_ABORTED, t))
     else
       Option.bind (TransactionIdGetStatus (x_clog X) transactionId (t_clog t)) (\<lambda>(r, s).
         let t = t \<lparr> t_clog := s \<rparr> in
         Some (tryS r t (\<lambda>(xidstatus, xidlsn).
           (Inr xidstatus,
            if xidstatus \<noteq> TRANSACTION_STATUS_IN_PROGRESS \<and> xidstatus \<noteq> TRANSACTION_STATUS_SUB_COMMITTED
            then t \<lparr> cachedFetchXid := transactionId, cachedFetchXidStatus := xidstatus, cachedCommitLSN := xidlsn \<rparr>
            else t)))))"

text \<open>
  One call of \<^verbatim>\<open>TransactionIdDidCommit\<close> or \<^verbatim>\<open>TransactionIdDidAbort\<close>: \<open>final\<close> is the status that
  answers yes, \<open>orphan\<close> the answer when there is no parent to ask; \<open>Inl\<close> is the tail call on the parent.
\<close>

definition outcome_step ::
  "transam_ctl \<Rightarrow> XidStatus \<Rightarrow> bool \<Rightarrow> TransactionId \<times> transam
    \<Rightarrow> ((TransactionId \<times> transam) + bool res \<times> transam) option" where
  "outcome_step X final_status orphan = (\<lambda>(transactionId, t).
     Option.bind (TransactionLogFetch X transactionId t) (\<lambda>(r, t).
       case r of
         Inl e \<Rightarrow> Some (Inr (Inl e, t))
       | Inr xidstatus \<Rightarrow>
           if xidstatus = final_status then Some (Inr (Inr True, t))
           else if xidstatus = TRANSACTION_STATUS_SUB_COMMITTED then
             (if TransactionIdPrecedes transactionId (x_xmin X) then Some (Inr (Inr orphan, t))
              else Option.bind (SubTransGetParent (x_sub X) transactionId (t_sub t)) (\<lambda>(r, s).
                let t = t \<lparr> t_sub := s \<rparr> in
                case r of
                  Inl e \<Rightarrow> Some (Inr (Inl e, t))
                | Inr parentXid \<Rightarrow>
                    if \<not> TransactionIdIsValid parentXid then Some (Inr (Inr orphan, t))
                    else Some (Inl (parentXid, t))))
           else Some (Inr (Inr False, t))))"

definition TransactionIdDidCommit :: "transam_ctl \<Rightarrow> TransactionId \<Rightarrow> transam \<Rightarrow> (bool res \<times> transam) option" where
  "TransactionIdDidCommit X transactionId t =
     iterate (outcome_step X TRANSACTION_STATUS_COMMITTED False) (transactionId, t)"

definition TransactionIdDidAbort :: "transam_ctl \<Rightarrow> TransactionId \<Rightarrow> transam \<Rightarrow> (bool res \<times> transam) option" where
  "TransactionIdDidAbort X transactionId t =
     iterate (outcome_step X TRANSACTION_STATUS_ABORTED True) (transactionId, t)"

definition set_tree ::
  "transam_ctl \<Rightarrow> TransactionId \<Rightarrow> TransactionId list \<Rightarrow> XidStatus \<Rightarrow> XLogRecPtr \<Rightarrow> transam \<Rightarrow> (unit res \<times> transam) option" where
  "set_tree X xid xids status lsn t =
     map_option (\<lambda>(r, s). (r, t \<lparr> t_clog := s \<rparr>))
       (TransactionIdSetTreeStatus (x_clog X) (x_locks X) xid xids status lsn (t_clog t))"

definition TransactionIdCommitTree ::
  "transam_ctl \<Rightarrow> TransactionId \<Rightarrow> TransactionId list \<Rightarrow> transam \<Rightarrow> (unit res \<times> transam) option" where
  "TransactionIdCommitTree X xid xids t = set_tree X xid xids TRANSACTION_STATUS_COMMITTED InvalidXLogRecPtr t"

definition TransactionIdAsyncCommitTree ::
  "transam_ctl \<Rightarrow> TransactionId \<Rightarrow> TransactionId list \<Rightarrow> XLogRecPtr \<Rightarrow> transam \<Rightarrow> (unit res \<times> transam) option" where
  "TransactionIdAsyncCommitTree X xid xids lsn t = set_tree X xid xids TRANSACTION_STATUS_COMMITTED lsn t"

definition TransactionIdAbortTree ::
  "transam_ctl \<Rightarrow> TransactionId \<Rightarrow> TransactionId list \<Rightarrow> transam \<Rightarrow> (unit res \<times> transam) option" where
  "TransactionIdAbortTree X xid xids t = set_tree X xid xids TRANSACTION_STATUS_ABORTED InvalidXLogRecPtr t"

definition TransactionIdLatest :: "TransactionId \<Rightarrow> TransactionId list \<Rightarrow> TransactionId" where
  "TransactionIdLatest mainxid xids =
     fold (\<lambda>xid result. if TransactionIdPrecedes result xid then xid else result) (rev xids) mainxid"

definition TransactionIdGetCommitLSN ::
  "transam_ctl \<Rightarrow> TransactionId \<Rightarrow> transam \<Rightarrow> (XLogRecPtr res \<times> transam) option" where
  "TransactionIdGetCommitLSN X xid t =
    (if TransactionIdEquals xid (cachedFetchXid t) then Some (Inr (cachedCommitLSN t), t)
     else if \<not> TransactionIdIsNormal xid then Some (Inr InvalidXLogRecPtr, t)
     else map_option (\<lambda>(r, s). tryS r (t \<lparr> t_clog := s \<rparr>) (\<lambda>(_, result). (Inr result, t \<lparr> t_clog := s \<rparr>)))
            (TransactionIdGetStatus (x_clog X) xid (t_clog t)))"

subsection \<open>The outcome specified\<close>

definition xid_status :: "transam \<Rightarrow> TransactionId \<Rightarrow> XidStatus \<Rightarrow> bool" where
  "xid_status t x st \<longleftrightarrow>
     (if TransactionIdIsNormal x then clog_status (t_clog t) x st
      else st = (if x = BootstrapTransactionId \<or> x = FrozenTransactionId
                 then TRANSACTION_STATUS_COMMITTED else TRANSACTION_STATUS_ABORTED))"

inductive did_commit :: "TransactionId \<Rightarrow> transam \<Rightarrow> TransactionId \<Rightarrow> bool" for xmin t where
  committed_self: "xid_status t x TRANSACTION_STATUS_COMMITTED \<Longrightarrow> did_commit xmin t x"
| committed_parent: "xid_status t x TRANSACTION_STATUS_SUB_COMMITTED \<Longrightarrow> \<not> TransactionIdPrecedes x xmin
    \<Longrightarrow> subtrans_parent (t_sub t) x p \<Longrightarrow> TransactionIdIsValid p \<Longrightarrow> did_commit xmin t p \<Longrightarrow> did_commit xmin t x"

definition final :: "XidStatus \<Rightarrow> bool" where
  "final st \<longleftrightarrow> st \<noteq> TRANSACTION_STATUS_IN_PROGRESS \<and> st \<noteq> TRANSACTION_STATUS_SUB_COMMITTED"

definition transam_ok :: "transam_ctl \<Rightarrow> transam \<Rightarrow> bool" where
  "transam_ok X t \<longleftrightarrow>
     slru_ok (x_clog X) (t_clog t) \<and> slru_ok (x_sub X) (t_sub t)
     \<and> (TransactionIdIsValid (cachedFetchXid t) \<longrightarrow>
          TransactionIdIsNormal (cachedFetchXid t) \<and> final (cachedFetchXidStatus t)
          \<and> clog_status (t_clog t) (cachedFetchXid t) (cachedFetchXidStatus t))"

text \<open>The two logs say at least as much as before.\<close>

definition extends :: "transam \<Rightarrow> transam \<Rightarrow> bool" where
  "extends t t' \<longleftrightarrow>
     (\<forall>x v. clog_status (t_clog t) x v \<longrightarrow> clog_status (t_clog t') x v)
     \<and> (\<forall>x p. subtrans_parent (t_sub t) x p \<longrightarrow> subtrans_parent (t_sub t') x p)"

lemma extends_refl [simp]: "extends t t"
  by (simp add: extends_def)

lemma extends_trans: "extends a b \<Longrightarrow> extends b c \<Longrightarrow> extends a c"
  by (simp add: extends_def)

lemma xid_status_unique:
  assumes "transam_ok X t" and "xid_status t x v" and "xid_status t x w"
  shows "v = w"
  using assms clog_status_unique by (auto simp: xid_status_def transam_ok_def split: if_splits)

lemma xid_status_extends: "extends t t' \<Longrightarrow> xid_status t x v \<Longrightarrow> xid_status t' x v"
  by (auto simp: extends_def xid_status_def split: if_splits)

lemma LogFetch_ok:
  assumes ok: "transam_ok X t" and x: "TransactionIdIsValid x" and v: "xid_status t x v"
  shows "\<exists>r t'. TransactionLogFetch X x t = Some (r, t') \<and> transam_ok X t' \<and> extends t t' \<and> t_sub t' = t_sub t
    \<and> (\<forall>st. r = Inr st \<longrightarrow> st = v)"
proof -
  consider "x = cachedFetchXid t" | "x \<noteq> cachedFetchXid t" "\<not> TransactionIdIsNormal x"
    | "x \<noteq> cachedFetchXid t" "TransactionIdIsNormal x" by blast
  then show ?thesis
  proof cases
    case 1
    then have "cachedFetchXidStatus t = v"
      using ok x v clog_status_unique by (auto simp: transam_ok_def xid_status_def)
    with 1 ok show ?thesis
      by (simp add: TransactionLogFetch_def TransactionIdEquals_def)
  next
    case 2
    with ok v show ?thesis
      by (simp add: TransactionLogFetch_def TransactionIdEquals_def xid_status_def)
  next
    case 3
    then have cv: "clog_status (t_clog t) x v"
      using v by (simp add: xid_status_def)
    obtain r s where s: "TransactionIdGetStatus (x_clog X) x (t_clog t) = Some (r, s)" "slru_ok (x_clog X) s"
      and view: "\<And>y v. clog_status (t_clog t) y v \<Longrightarrow> clog_status s y v" and get: "\<And>w l. r = Inr (w, l) \<Longrightarrow> w = v"
      using GetStatus_ok [of "x_clog X" "t_clog t" x] ok cv by (auto simp: transam_ok_def)
    let ?t = "t \<lparr> t_clog := s \<rparr>"
    have t: "transam_ok X ?t" "extends t ?t"
      using ok s(2) view by (auto simp: transam_ok_def extends_def)
    show ?thesis
    proof (cases r)
      case (Inl e)
      with 3 s(1) t show ?thesis
        by (simp add: TransactionLogFetch_def TransactionIdEquals_def Let_def)
    next
      case (Inr wl)
      then obtain l where r: "r = Inr (v, l)"
        using get by (cases wl) auto
      let ?u = "if final v then ?t \<lparr> cachedFetchXid := x, cachedFetchXidStatus := v, cachedCommitLSN := l \<rparr> else ?t"
      have run: "TransactionLogFetch X x t = Some (Inr v, ?u)"
        using 3 s(1) r by (simp add: TransactionLogFetch_def TransactionIdEquals_def Let_def final_def)
      have "transam_ok X ?u" "extends t ?u" "t_sub ?u = t_sub t"
        using t view [OF cv] 3(2) by (auto simp: transam_ok_def extends_def)
      with run show ?thesis by blast
    qed
  qed
qed

lemma did_commit_cases:
  assumes ok: "transam_ok X t" and v: "xid_status t x v"
  shows "did_commit xmin t x \<longleftrightarrow> v = TRANSACTION_STATUS_COMMITTED
    \<or> v = TRANSACTION_STATUS_SUB_COMMITTED \<and> \<not> TransactionIdPrecedes x xmin
      \<and> (\<exists>p. subtrans_parent (t_sub t) x p \<and> TransactionIdIsValid p \<and> did_commit xmin t p)"
  using xid_status_unique [OF ok v] v by (subst did_commit.simps) blast

text \<open>
  What the walk through parents needs: the ids it meets have a status and, when sub-committed and not before
  \<open>xmin\<close>, an entry that points to an older id.
\<close>

inductive meets :: "TransactionId \<Rightarrow> transam \<Rightarrow> TransactionId \<Rightarrow> TransactionId \<Rightarrow> bool" for xmin t where
  meets_self: "meets xmin t x x"
| meets_parent: "meets xmin t x y \<Longrightarrow> xid_status t y TRANSACTION_STATUS_SUB_COMMITTED \<Longrightarrow> \<not> TransactionIdPrecedes y xmin
    \<Longrightarrow> subtrans_parent (t_sub t) y p \<Longrightarrow> TransactionIdIsValid p \<Longrightarrow> meets xmin t x p"

definition chain_ok :: "TransactionId \<Rightarrow> transam \<Rightarrow> TransactionId \<Rightarrow> bool" where
  "chain_ok xmin t x \<longleftrightarrow>
     (\<forall>y. meets xmin t x y \<longrightarrow> (\<exists>v. xid_status t y v)
        \<and> (xid_status t y TRANSACTION_STATUS_SUB_COMMITTED \<longrightarrow> \<not> TransactionIdPrecedes y xmin
           \<longrightarrow> (\<exists>p. subtrans_parent (t_sub t) y p \<and> (TransactionIdIsValid p \<longrightarrow> TransactionIdPrecedes p y))))"

text \<open>The answer the walk gives, for both questions.\<close>

inductive answer :: "TransactionId \<Rightarrow> transam \<Rightarrow> XidStatus \<Rightarrow> bool \<Rightarrow> TransactionId \<Rightarrow> bool \<Rightarrow> bool"
  for xmin t yes orphan where
  answer_yes: "xid_status t x yes \<Longrightarrow> answer xmin t yes orphan x True"
| answer_no: "xid_status t x v \<Longrightarrow> v \<noteq> yes \<Longrightarrow> v \<noteq> TRANSACTION_STATUS_SUB_COMMITTED \<Longrightarrow> answer xmin t yes orphan x False"
| answer_orphan: "xid_status t x TRANSACTION_STATUS_SUB_COMMITTED
    \<Longrightarrow> TransactionIdPrecedes x xmin \<or> subtrans_parent (t_sub t) x InvalidTransactionId
    \<Longrightarrow> answer xmin t yes orphan x orphan"
| answer_parent: "xid_status t x TRANSACTION_STATUS_SUB_COMMITTED \<Longrightarrow> \<not> TransactionIdPrecedes x xmin
    \<Longrightarrow> subtrans_parent (t_sub t) x p \<Longrightarrow> TransactionIdIsValid p \<Longrightarrow> answer xmin t yes orphan p b
    \<Longrightarrow> answer xmin t yes orphan x b"

definition outcome_inv ::
  "transam_ctl \<Rightarrow> transam \<Rightarrow> XidStatus \<Rightarrow> bool \<Rightarrow> TransactionId \<Rightarrow> TransactionId \<times> transam \<Rightarrow> bool" where
  "outcome_inv X t yes orphan x = (\<lambda>(y, u). transam_ok X u \<and> extends t u \<and> meets (x_xmin X) t x y
     \<and> TransactionIdIsValid y
     \<and> (\<forall>b. answer (x_xmin X) t yes orphan y b \<longrightarrow> answer (x_xmin X) t yes orphan x b))"

definition outcome_post ::
  "transam_ctl \<Rightarrow> transam \<Rightarrow> XidStatus \<Rightarrow> bool \<Rightarrow> TransactionId \<Rightarrow> bool res \<times> transam \<Rightarrow> bool" where
  "outcome_post X t yes orphan x = (\<lambda>(r, u). transam_ok X u \<and> extends t u
     \<and> (\<forall>b. r = Inr b \<longrightarrow> answer (x_xmin X) t yes orphan x b))"

lemma outcome_step_ok:
  assumes ok: "transam_ok X t" and xmin: "TransactionIdIsNormal (x_xmin X)" and chain: "chain_ok (x_xmin X) t x"
    and yes: "yes \<noteq> TRANSACTION_STATUS_SUB_COMMITTED" and inv: "outcome_inv X t yes orphan x (y, u)"
  shows "(\<exists>w. outcome_step X yes orphan (y, u) = Some (Inl w) \<and> outcome_inv X t yes orphan x w
      \<and> walk_left (x_xmin X) (fst w) < walk_left (x_xmin X) y)
    \<or> (\<exists>r. outcome_step X yes orphan (y, u) = Some (Inr r) \<and> outcome_post X t yes orphan x r)"
proof -
  let ?S = TRANSACTION_STATUS_SUB_COMMITTED
  have I: "transam_ok X u" "extends t u" "meets (x_xmin X) t x y" "TransactionIdIsValid y"
    "\<And>b. answer (x_xmin X) t yes orphan y b \<Longrightarrow> answer (x_xmin X) t yes orphan x b"
    using inv by (auto simp: outcome_inv_def)
  obtain v where v: "xid_status t y v"
    using chain I(3) by (auto simp: chain_ok_def)
  obtain r u1 where u1: "TransactionLogFetch X y u = Some (r, u1)" "transam_ok X u1" "extends u u1" "t_sub u1 = t_sub u"
    "\<And>st. r = Inr st \<Longrightarrow> st = v"
    using LogFetch_ok [OF I(1,4) xid_status_extends [OF I(2) v]] by blast
  have ext1: "extends t u1"
    using I(2) u1(3) by (rule extends_trans)
  have finish: ?thesis if "outcome_step X yes orphan (y, u) = Some (Inr (Inr b, u2))" "transam_ok X u2" "extends t u2"
      "answer (x_xmin X) t yes orphan y b" for b u2
    using that I(5) by (simp add: outcome_post_def)
  consider e where "r = Inl e" | "r = Inr v" "v = yes" | "r = Inr v" "v \<noteq> yes" "v \<noteq> ?S"
    | "r = Inr v" "v \<noteq> yes" "v = ?S" "TransactionIdPrecedes y (x_xmin X)"
    | "r = Inr v" "v \<noteq> yes" "v = ?S" "\<not> TransactionIdPrecedes y (x_xmin X)"
    using u1(5) by (cases r) auto
  then show ?thesis
  proof cases
    case 1
    with u1 ext1 show ?thesis
      by (simp add: outcome_step_def outcome_post_def)
  next
    case 2
    then show ?thesis
      using u1(1) v by (intro finish [OF _ u1(2) ext1 answer_yes]) (simp_all add: outcome_step_def)
  next
    case 3
    then show ?thesis
      using u1(1) by (intro finish [OF _ u1(2) ext1 answer_no [OF v]]) (simp_all add: outcome_step_def)
  next
    case 4
    then show ?thesis
      using u1(1) v by (intro finish [OF _ u1(2) ext1 answer_orphan]) (simp_all add: outcome_step_def)
  next
    case 5
    have sub: "xid_status t y ?S"
      using v 5(3) by simp
    obtain p where p: "subtrans_parent (t_sub t) y p" "TransactionIdIsValid p \<longrightarrow> TransactionIdPrecedes p y"
      using chain I(3) sub 5(4) by (auto simp: chain_ok_def)
    have normal: "TransactionIdIsNormal y"
      using not_before_xmin_normal [OF xmin I(4) 5(4)] by blast
    obtain r2 s where s: "SubTransGetParent (x_sub X) y (t_sub u1) = Some (r2, s)" "slru_ok (x_sub X) s"
      "\<And>z q. subtrans_parent (t_sub u1) z q \<Longrightarrow> subtrans_parent s z q" "\<And>q. r2 = Inr q \<Longrightarrow> q = p"
      using GetParent_ok [of "x_sub X" "t_sub u1" y] u1(2) ext1 p(1) normal
      by (auto simp: transam_ok_def extends_def)
    let ?u2 = "u1 \<lparr> t_sub := s \<rparr>"
    have u2: "transam_ok X ?u2" "extends t ?u2"
      using u1(2) s(2,3) ext1 by (auto simp: transam_ok_def extends_def)
    show ?thesis
    proof (cases r2)
      case (Inl e)
      with 5 u1(1) s(1) u2 show ?thesis
        by (simp add: outcome_step_def outcome_post_def Let_def)
    next
      case (Inr q)
      then have r2: "r2 = Inr p"
        using s(4) by simp
      show ?thesis
      proof (cases "TransactionIdIsValid p")
        case False
        then have "subtrans_parent (t_sub t) y InvalidTransactionId"
          using p(1) by (simp add: TransactionIdIsValid_def)
        then show ?thesis
          using False 5 r2 u1(1) s(1) sub
          by (intro finish [OF _ u2 answer_orphan]) (simp_all add: outcome_step_def Let_def)
      next
        case True
        then have "walk_left (x_xmin X) p < walk_left (x_xmin X) y"
          using parent_closer [OF xmin normal 5(4)] p(2) 5(4) I(4) by (auto simp: walk_left_def)
        moreover have "outcome_inv X t yes orphan x (p, ?u2)"
          using u2 True I(5) answer_parent [OF sub 5(4) p(1) True] meets_parent [OF I(3) sub 5(4) p(1) True]
          by (simp add: outcome_inv_def)
        ultimately show ?thesis
          using True 5 r2 u1(1) s(1) by (simp add: outcome_step_def Let_def)
      qed
    qed
  qed
qed

lemma outcome_ok:
  assumes "transam_ok X t" and "TransactionIdIsNormal (x_xmin X)" and "chain_ok (x_xmin X) t x"
    and "TransactionIdIsValid x" and "yes \<noteq> TRANSACTION_STATUS_SUB_COMMITTED"
  obtains r u where "iterate (outcome_step X yes orphan) (x, t) = Some (r, u)" and "transam_ok X u" and "extends t u"
    and "\<And>b. r = Inr b \<Longrightarrow> answer (x_xmin X) t yes orphan x b"
proof -
  have "\<exists>r. iterate (outcome_step X yes orphan) (x, t) = Some r \<and> outcome_post X t yes orphan x r"
  proof (rule iterate_total [where I = "outcome_inv X t yes orphan x" and m = "\<lambda>w. walk_left (x_xmin X) (fst w)"])
    show "outcome_inv X t yes orphan x (x, t)"
      using assms by (simp add: outcome_inv_def meets_self)
    fix w assume "outcome_inv X t yes orphan x w"
    then show "(\<exists>w'. outcome_step X yes orphan w = Some (Inl w') \<and> outcome_inv X t yes orphan x w'
          \<and> walk_left (x_xmin X) (fst w') < walk_left (x_xmin X) (fst w))
        \<or> (\<exists>r. outcome_step X yes orphan w = Some (Inr r) \<and> outcome_post X t yes orphan x r)"
      using outcome_step_ok [OF assms(1-3,5)] by (cases w) auto
  qed
  then show ?thesis
    using that by (auto simp: outcome_post_def)
qed

lemma parent_iff:
  assumes "transam_ok X t" and "subtrans_parent (t_sub t) x p"
  shows "subtrans_parent (t_sub t) x q \<longleftrightarrow> q = p"
  using assms subtrans_parent_unique unfolding transam_ok_def by blast

lemma answer_commit:
  assumes ok: "transam_ok X t"
  shows "answer xmin t TRANSACTION_STATUS_COMMITTED False x b \<Longrightarrow> b \<longleftrightarrow> did_commit xmin t x"
proof (induction rule: answer.induct)
  case (answer_yes x)
  then show ?case
    by (simp add: committed_self)
next
  case (answer_no x v)
  then show ?case
    using did_commit_cases [OF ok answer_no(1)] by simp
next
  case (answer_orphan x)
  show ?case
  proof (cases "TransactionIdPrecedes x xmin")
    case True
    then show ?thesis
      using did_commit_cases [OF ok answer_orphan(1)] by simp
  next
    case False
    then have "subtrans_parent (t_sub t) x InvalidTransactionId"
      using answer_orphan(2) by simp
    then show ?thesis
      using did_commit_cases [OF ok answer_orphan(1)] parent_iff [OF ok] by (simp add: TransactionIdIsValid_def)
  qed
next
  case (answer_parent x p b)
  then show ?case
    using did_commit_cases [OF ok answer_parent(1)] parent_iff [OF ok answer_parent(3)] by simp
qed

inductive_cases answer_TrueE: "answer xmin t yes orphan x True"

lemma answer_exclusive:
  assumes ok: "transam_ok X t"
  shows "answer xmin t TRANSACTION_STATUS_COMMITTED False x b \<Longrightarrow> b
    \<Longrightarrow> \<not> answer xmin t TRANSACTION_STATUS_ABORTED True x True"
proof (induction rule: answer.induct)
  case (answer_yes x)
  note same = xid_status_unique [OF ok answer_yes(1)]
  have "\<not> xid_status t x TRANSACTION_STATUS_ABORTED" "\<not> xid_status t x TRANSACTION_STATUS_SUB_COMMITTED"
    using same status_distinct by metis+
  then show ?case
    by (blast elim: answer_TrueE)
next
  case (answer_parent x p b)
  note same = xid_status_unique [OF ok answer_parent(1)]
  have par: "q = p" if "subtrans_parent (t_sub t) x q" for q
    using parent_iff [OF ok answer_parent(3)] that by simp
  have "TRANSACTION_STATUS_SUB_COMMITTED \<noteq> TRANSACTION_STATUS_ABORTED"
    by (simp add: TRANSACTION_STATUS_ABORTED_def TRANSACTION_STATUS_SUB_COMMITTED_def)
  show ?case
  proof
    assume "answer xmin t TRANSACTION_STATUS_ABORTED True x True"
    then show False
    proof (rule answer_TrueE)
      assume "xid_status t x TRANSACTION_STATUS_ABORTED"
      with same \<open>_ \<noteq> TRANSACTION_STATUS_ABORTED\<close> show False by blast
    next
      assume "TransactionIdPrecedes x xmin \<or> subtrans_parent (t_sub t) x InvalidTransactionId"
      with answer_parent(2,4) par [of InvalidTransactionId] show False
        by (auto simp: TransactionIdIsValid_def)
    next
      fix q assume "subtrans_parent (t_sub t) x q" "answer xmin t TRANSACTION_STATUS_ABORTED True q True"
      with par [of q] answer_parent(6,7) show False by simp
    qed
  qed
qed simp_all

lemma did_commit_runs:
  assumes "transam_ok X t" and "TransactionIdIsNormal (x_xmin X)" and "chain_ok (x_xmin X) t x" and "TransactionIdIsValid x"
  shows "\<exists>r u. TransactionIdDidCommit X x t = Some (r, u) \<and> transam_ok X u \<and> extends t u
    \<and> (\<forall>b. r = Inr b \<longrightarrow> (b \<longleftrightarrow> did_commit (x_xmin X) t x) \<and> answer (x_xmin X) t TRANSACTION_STATUS_COMMITTED False x b)"
proof -
  have "TRANSACTION_STATUS_COMMITTED \<noteq> TRANSACTION_STATUS_SUB_COMMITTED"
    by (simp add: TRANSACTION_STATUS_COMMITTED_def TRANSACTION_STATUS_SUB_COMMITTED_def)
  from outcome_ok [OF assms this, of False] obtain r u
    where run: "TransactionIdDidCommit X x t = Some (r, u)" "transam_ok X u" "extends t u"
      and b: "\<And>b. r = Inr b \<Longrightarrow> answer (x_xmin X) t TRANSACTION_STATUS_COMMITTED False x b"
    unfolding TransactionIdDidCommit_def by metis
  have "\<forall>b. r = Inr b \<longrightarrow> (b \<longleftrightarrow> did_commit (x_xmin X) t x) \<and> answer (x_xmin X) t TRANSACTION_STATUS_COMMITTED False x b"
    using b answer_commit [OF assms(1), of "x_xmin X" x] by simp
  with run show ?thesis by blast
qed

text \<open>
  C17: the outcome of a transaction is the one the logs define. With sound pools and cache, normal \<open>xmin\<close>, and parent entries that point
  to older ids, \<^verbatim>\<open>TransactionIdDidCommit\<close> of a valid id returns, keeps pools and cache sound and every
  entry of the two logs, and answers yes exactly if the id is committed or is sub-committed
  under a committed ancestor; and \<^verbatim>\<open>TransactionIdDidAbort\<close> also returns and never answers yes for the same id.
\<close>

theorem TransactionIdDidCommit_correct:
  assumes "transam_ok X t" and "TransactionIdIsNormal (x_xmin X)" and "chain_ok (x_xmin X) t x" and "TransactionIdIsValid x"
  shows "\<exists>r u r' u'. TransactionIdDidCommit X x t = Some (r, u) \<and> transam_ok X u \<and> extends t u
    \<and> (\<forall>b. r = Inr b \<longrightarrow> (b \<longleftrightarrow> did_commit (x_xmin X) t x))
    \<and> TransactionIdDidAbort X x t = Some (r', u') \<and> \<not> (r = Inr True \<and> r' = Inr True)"
proof -
  have yes: "TRANSACTION_STATUS_ABORTED \<noteq> TRANSACTION_STATUS_SUB_COMMITTED"
    by (simp add: TRANSACTION_STATUS_ABORTED_def TRANSACTION_STATUS_SUB_COMMITTED_def)
  obtain r u where commit: "TransactionIdDidCommit X x t = Some (r, u)" "transam_ok X u" "extends t u"
    and b: "\<forall>b. r = Inr b \<longrightarrow> (b \<longleftrightarrow> did_commit (x_xmin X) t x) \<and> answer (x_xmin X) t TRANSACTION_STATUS_COMMITTED False x b"
    using did_commit_runs [OF assms] by blast
  obtain r' u' where abort: "TransactionIdDidAbort X x t = Some (r', u')"
    "\<And>b. r' = Inr b \<Longrightarrow> answer (x_xmin X) t TRANSACTION_STATUS_ABORTED True x b"
    using outcome_ok [OF assms yes, of True] unfolding TransactionIdDidAbort_def by metis
  have "\<not> (r = Inr True \<and> r' = Inr True)"
    using b abort(2) [of True] answer_exclusive [OF assms(1), of "x_xmin X" x True] by auto
  then show ?thesis
    using commit b abort(1) by simp
qed

lemma committed_chain:
  assumes ok: "transam_ok X t" and x: "xid_status t x TRANSACTION_STATUS_COMMITTED"
  shows "chain_ok xmin t x" and "did_commit xmin t x"
proof -
  have "y = x" if "meets xmin t x y" for y
    using that x
  proof (induction rule: meets.induct)
    case (meets_parent x y p)
    then have "xid_status t y TRANSACTION_STATUS_COMMITTED"
      by simp
    with meets_parent(2) have False
      using xid_status_unique [OF ok] status_distinct(1) by blast
    then show ?case ..
  qed simp
  moreover have "\<not> xid_status t x TRANSACTION_STATUS_SUB_COMMITTED"
    using xid_status_unique [OF ok x] status_distinct(1) by metis
  ultimately show "chain_ok xmin t x"
    using x unfolding chain_ok_def by metis
  show "did_commit xmin t x"
    using x by (rule committed_self)
qed

text \<open>
  A commit is seen. Take sound pools and cache and a transaction tree of normal ids none of which has ended. When no other backend joins the
  group update, \<^verbatim>\<open>TransactionIdCommitTree\<close> returns and keeps the state sound, the one-entry cache included; and
  after it succeeds \<^verbatim>\<open>TransactionIdDidCommit\<close> of the parent and of every child returns, and if it answers, it
  answers yes.
\<close>

theorem CommitTree_then_DidCommit:
  assumes ok: "transam_ok X t" and quiet: "quiet (x_locks X)" and xmin: "TransactionIdIsNormal (x_xmin X)"
    and tree: "\<forall>x \<in> insert xid (set xids). TransactionIdIsNormal x \<and> (\<exists>v. clog_status (t_clog t) x v \<and> \<not> final v)"
    and xid: "xid \<notin> set xids"
  shows "\<exists>r u. TransactionIdCommitTree X xid xids t = Some (r, u) \<and> transam_ok X u
    \<and> (r = Inr () \<longrightarrow> (\<forall>x \<in> insert xid (set xids). \<exists>r2 u2. TransactionIdDidCommit X x u = Some (r2, u2)
         \<and> (\<forall>b. r2 = Inr b \<longrightarrow> b)))"
proof -
  have valid: "TransactionIdIsValid xid"
    using tree by simp
  have pools: "slru_ok (x_clog X) (t_clog t)" "slru_ok (x_sub X) (t_sub t)"
    using ok by (simp_all add: transam_ok_def)
  obtain r s where run: "TransactionIdSetTreeStatus (x_clog X) (x_locks X) xid xids TRANSACTION_STATUS_COMMITTED
        InvalidXLogRecPtr (t_clog t) = Some (r, s)"
    and s: "slru_ok (x_clog X) s"
    and other: "\<forall>x v. clog_status (t_clog t) x v \<longrightarrow> x \<notin> insert xid (set xids) \<longrightarrow> clog_status s x v"
    and set: "r = Inr () \<longrightarrow> (\<forall>x \<in> insert xid (set xids). \<forall>v. clog_status (t_clog t) x v
        \<longrightarrow> clog_status s x TRANSACTION_STATUS_COMMITTED)"
    using SetTreeStatus_outcome [OF quiet pools(1) is_status_consts(1) valid xid, of InvalidXLogRecPtr]
    unfolding tree_outcome_def by (elim exE conjE) (rule that, assumption+)
  let ?u = "t \<lparr> t_clog := s \<rparr>"
  have "cachedFetchXid t \<notin> insert xid (set xids)" if cached: "TransactionIdIsValid (cachedFetchXid t)"
  proof
    assume "cachedFetchXid t \<in> insert xid (set xids)"
    then obtain v where "clog_status (t_clog t) (cachedFetchXid t) v" "\<not> final v"
      using tree by blast
    then show False
      using ok cached clog_status_unique [OF pools(1), of "cachedFetchXid t" v "cachedFetchXidStatus t"]
      by (simp add: transam_ok_def)
  qed
  then have u: "transam_ok X ?u"
    using ok s other by (simp add: transam_ok_def)
  have seen: "\<exists>r2 u2. TransactionIdDidCommit X x ?u = Some (r2, u2) \<and> (\<forall>b. r2 = Inr b \<longrightarrow> b)"
    if "r = Inr ()" "x \<in> insert xid (set xids)" for x
  proof -
    from tree that(2) obtain v where v: "TransactionIdIsNormal x" "clog_status (t_clog t) x v"
      by blast
    then have x: "TransactionIdIsNormal x" "clog_status s x TRANSACTION_STATUS_COMMITTED"
      using set that by blast+
    then have "xid_status ?u x TRANSACTION_STATUS_COMMITTED"
      by (simp add: xid_status_def)
    note c = committed_chain [OF u this, of "x_xmin X"]
    show ?thesis
      using did_commit_runs [OF u xmin c(1) TransactionIdNormal_valid [OF x(1)]] c(2) by blast
  qed
  have "TransactionIdCommitTree X xid xids t = Some (r, ?u)"
    using run by (simp add: TransactionIdCommitTree_def set_tree_def)
  with u seen show ?thesis by blast
qed

subsection \<open>Examples\<close>

definition demo_transam :: transam where
  "demo_transam = \<lparr> t_clog = demo_pool, t_sub = demo_pool, cachedFetchXid = InvalidTransactionId,
     cachedFetchXidStatus = TRANSACTION_STATUS_IN_PROGRESS, cachedCommitLSN = InvalidXLogRecPtr \<rparr>"

definition demo_transam_ctl :: transam_ctl where
  "demo_transam_ctl = \<lparr> x_clog = demo_ctl (<), x_sub = demo_ctl (<), x_locks = demo_locks, x_xmin = 3 \<rparr>"

lemma demo_transam_ok:
  "transam_ok demo_transam_ctl demo_transam" "TransactionIdIsNormal (x_xmin demo_transam_ctl)"
  "quiet (x_locks demo_transam_ctl)"
  using demo_clog(1) [of "(<)"] demo_quiet
  by (simp_all add: transam_ok_def demo_transam_def demo_transam_ctl_def TransactionIdIsValid_def TransactionIdIsNormal_iff)

lemma demo_transam_status:
  "TransactionIdToPage x = 0 \<Longrightarrow> clog_status (t_clog demo_transam) x TRANSACTION_STATUS_IN_PROGRESS"
  using demo_clog(2) [of x] by (simp add: demo_transam_def)

lemma demo_chain: "chain_ok (x_xmin demo_transam_ctl) demo_transam 5"
proof -
  have five: "xid_status demo_transam 5 TRANSACTION_STATUS_IN_PROGRESS"
    using demo_transam_status [of 5] by (simp add: xid_status_def TransactionIdIsNormal_iff clog_addr)
  have no: "\<not> xid_status demo_transam 5 TRANSACTION_STATUS_SUB_COMMITTED"
    using xid_status_unique [OF demo_transam_ok(1) five, of TRANSACTION_STATUS_SUB_COMMITTED]
    by (auto simp: TRANSACTION_STATUS_IN_PROGRESS_def TRANSACTION_STATUS_SUB_COMMITTED_def)
  have "x = 5 \<Longrightarrow> y = 5" if "meets 3 demo_transam x y" for x y
    using that by (induction rule: meets.induct) (use no in auto)
  with five no show ?thesis
    by (auto simp: chain_ok_def demo_transam_ctl_def)
qed

theorem TransactionIdDidCommit_correct_witness:
  "transam_ok demo_transam_ctl demo_transam \<and> chain_ok (x_xmin demo_transam_ctl) demo_transam 5
    \<and> (\<exists>r u. TransactionIdDidCommit demo_transam_ctl 5 demo_transam = Some (r, u)
         \<and> (\<forall>b. r = Inr b \<longrightarrow> (b \<longleftrightarrow> did_commit 3 demo_transam 5)))"
proof -
  have valid: "TransactionIdIsValid 5"
    by (simp add: TransactionIdIsValid_def InvalidTransactionId_def)
  have xmin: "x_xmin demo_transam_ctl = 3"
    by (simp add: demo_transam_ctl_def)
  obtain r u where "TransactionIdDidCommit demo_transam_ctl 5 demo_transam = Some (r, u)"
    "\<forall>b. r = Inr b \<longrightarrow> (b \<longleftrightarrow> did_commit (x_xmin demo_transam_ctl) demo_transam 5)"
    using TransactionIdDidCommit_correct [OF demo_transam_ok(1,2) demo_chain valid] by (elim exE conjE) simp
  then show ?thesis
    using demo_transam_ok(1) demo_chain unfolding xmin by blast
qed

theorem CommitTree_then_DidCommit_witness:
  "transam_ok demo_transam_ctl demo_transam
    \<and> (\<exists>r u. TransactionIdCommitTree demo_transam_ctl 5 [6, 7] demo_transam = Some (r, u) \<and> transam_ok demo_transam_ctl u
         \<and> (r = Inr () \<longrightarrow> (\<exists>r2 u2. TransactionIdDidCommit demo_transam_ctl 6 u = Some (r2, u2) \<and> (\<forall>b. r2 = Inr b \<longrightarrow> b))))"
proof -
  have "\<not> final TRANSACTION_STATUS_IN_PROGRESS"
    by (simp add: final_def)
  then have tree: "\<forall>x \<in> insert 5 (set [6, 7]). TransactionIdIsNormal x
      \<and> (\<exists>v. clog_status (t_clog demo_transam) x v \<and> \<not> final v)"
    using demo_transam_status [of 5] demo_transam_status [of 6] demo_transam_status [of 7]
    by (auto simp: TransactionIdIsNormal_iff clog_addr)
  have other: "(5 :: TransactionId) \<notin> set [6, 7]"
    by simp
  obtain r u where "TransactionIdCommitTree demo_transam_ctl 5 [6, 7] demo_transam = Some (r, u)" "transam_ok demo_transam_ctl u"
    "r = Inr () \<longrightarrow> (\<forall>x \<in> insert 5 (set [6, 7]). \<exists>r2 u2. TransactionIdDidCommit demo_transam_ctl x u = Some (r2, u2)
         \<and> (\<forall>b. r2 = Inr b \<longrightarrow> b))"
    using CommitTree_then_DidCommit [OF demo_transam_ok(1,3,2) tree other] by (elim exE conjE) simp
  then show ?thesis
    using demo_transam_ok(1) by simp
qed

end
