(* ===== verification/KnownAssigned.thy ===== *)
theory KnownAssigned
  imports Varsup Transam
begin

section \<open>Known assigned transaction ids of a standby\<close>

text \<open>
  \<^verbatim>\<open>backend/storage/ipc/procarray/src/known_assigned.rs\<close>: on a standby server the transactions running on the
  primary are kept as a sorted array of ids with a validity bit each, between \<open>tail\<close> and \<open>head\<close>. Only the startup process changes it. Its
  thread-local variables and the standby state extend the shared memory to the record \<open>startup\<close>. Calls into
  other components are the record \<open>kax_env\<close>; the clock is read at most twice by a routine, as \<open>k_now\<close> and \<open>k_now'\<close>. Log output is left out.
\<close>

datatype HotStandbyState =
    STANDBY_DISABLED | STANDBY_INITIALIZED | STANDBY_SNAPSHOT_PENDING | STANDBY_SNAPSHOT_READY

datatype subxids_array_status = SUBXIDS_IN_ARRAY | SUBXIDS_MISSING | SUBXIDS_IN_SUBTRANS

datatype KAXCompressReason = NoSpace | Prune | TransactionEnd | StartupProcessIdle

definition KAX_COMPRESS_FREQUENCY :: u32 where "KAX_COMPRESS_FREQUENCY = 128"
definition KAX_COMPRESS_IDLE_INTERVAL_MS :: int where "KAX_COMPRESS_IDLE_INTERVAL_MS = 1000"

record startup = ProcArrayStruct +
  TRANSACTION_ENDS_COUNTER :: u32
  LAST_COMPRESS_TS :: int
  LATEST_OBSERVED_XID :: TransactionId
  STANDBY_SNAPSHOT_PENDING_XMIN :: TransactionId
  standby_state :: HotStandbyState

record kax_env =
  k_now :: int
  k_now' :: int
  k_is_prepared :: "TransactionId \<Rightarrow> bool res"
  k_did_commit :: "TransactionId \<Rightarrow> bool res"
  k_did_abort :: "TransactionId \<Rightarrow> bool res"
  k_extend_subtrans :: "TransactionId \<Rightarrow> unit res"
  k_set_parent :: "TransactionId \<Rightarrow> TransactionId \<Rightarrow> unit res"
  k_release_old_locks :: "TransactionId \<Rightarrow> unit res"
  k_varsup :: varsup_env

record RunningTransactionsData =
  run_xcnt :: int
  run_subxcnt :: int
  run_subxid_status :: subxids_array_status
  run_nextXid :: TransactionId
  run_oldestRunningXid :: TransactionId
  run_oldestDatabaseRunningXid :: TransactionId
  run_latestCompletedXid :: TransactionId
  run_xids :: "TransactionId list"

text \<open>Loads and stores of an array; out of range panics.\<close>

definition load_at :: "'a list \<Rightarrow> int \<Rightarrow> 'a res" where
  "load_at xs i = (if 0 \<le> i \<and> i < int (length xs) then Inr (xs ! nat i) else Inl Panic)"

definition store_at :: "'a list \<Rightarrow> int \<Rightarrow> 'a \<Rightarrow> 'a list res" where
  "store_at xs i v = (if 0 \<le> i \<and> i < int (length xs) then Inr (xs[nat i := v]) else Inl Panic)"

function TransactionIdRetreat_loop :: "TransactionId \<Rightarrow> TransactionId" where
  "TransactionIdRetreat_loop xid =
     (let xid = xid - 1 in if FirstNormalTransactionId \<le> xid then xid else TransactionIdRetreat_loop xid)"
  by pat_completeness auto

termination TransactionIdRetreat_loop
proof (relation "measure unat", goal_cases)
  case (2 xid x)
  then have "x < 3" by (simp add: FirstNormalTransactionId_def not_le)
  then have "xid \<noteq> 0" using 2(1) by auto
  then show ?case using 2(1) by (simp add: unat_minus_one unat_gt_0)
qed simp

declare TransactionIdRetreat_loop.simps [simp del]

text \<open>\<^verbatim>\<open>fxid.value -= 1\<close> is checked.\<close>

function retreat_special :: "u64 \<Rightarrow> u64" where
  "retreat_special v =
     (if v \<noteq> 0 \<and> fxid_xid \<lparr> fxid_value = v \<rparr> < FirstNormalTransactionId then retreat_special (v - 1) else v)"
  by pat_completeness auto

termination retreat_special
  by (relation "measure unat") (simp_all add: unat_minus_one unat_gt_0)

declare retreat_special.simps [simp del]

definition FullTransactionIdRetreat :: "FullTransactionId \<Rightarrow> FullTransactionId res" where
  "FullTransactionIdRetreat fxid =
     (if fxid_value fxid = 0 then Inl Panic
      else
        let v = fxid_value fxid - 1 in
        if v < 3 then Inr \<lparr> fxid_value = v \<rparr> else Inr \<lparr> fxid_value = retreat_special v \<rparr>)"

subsection \<open>The ring\<close>

text \<open>The copying loop of \<^verbatim>\<open>KnownAssignedXidsCompress\<close>.\<close>

fun kax_compress ::
  "int list \<Rightarrow> int \<Rightarrow> TransactionId list \<Rightarrow> bool list \<Rightarrow> (int \<times> TransactionId list \<times> bool list) res" where
  "kax_compress [] j xs vs = Inr (j, xs, vs)"
| "kax_compress (i # is) j xs vs =
     bindR (load_at vs i) (\<lambda>v.
       if v then
         bindR (load_at xs i) (\<lambda>x.
         bindR (store_at xs j x) (\<lambda>xs.
         bindR (store_at vs j True) (\<lambda>vs. kax_compress is (j + 1) xs vs)))
       else kax_compress is j xs vs)"

definition KnownAssignedXidsCompress :: "kax_env \<Rightarrow> KAXCompressReason \<Rightarrow> startup \<Rightarrow> unit res \<times> startup" where
  "KnownAssignedXidsCompress env reason s =
    (let h = headKnownAssignedXids s; t = tailKnownAssignedXids s; num = numKnownAssignedXids s;
         nelements = h - t;
         (return_early, s) =
           (if nelements = num then (reason \<noteq> NoSpace, s)
            else if reason = TransactionEnd then
              let counter = TRANSACTION_ENDS_COUNTER s;
                  s = s \<lparr> TRANSACTION_ENDS_COUNTER := counter + 1 \<rparr> in
              (counter mod KAX_COMPRESS_FREQUENCY \<noteq> 0 \<or> nelements < 2 * num, s)
            else if reason = StartupProcessIdle then
              (LAST_COMPRESS_TS s \<noteq> 0 \<and> k_now env < LAST_COMPRESS_TS s + KAX_COMPRESS_IDLE_INTERVAL_MS * 1000, s)
            else (False, s)) in
     if return_early then (Inr (), s)
     else
       tryS (kax_compress [t..h - 1] 0 (knownAssignedXids s) (knownAssignedXidsValid s)) s (\<lambda>(j, xs, vs).
         let s = s \<lparr> knownAssignedXids := xs, knownAssignedXidsValid := vs \<rparr> in
         if j \<noteq> numKnownAssignedXids s then (Inl Panic, s)
         else (Inr (), s \<lparr> tailKnownAssignedXids := 0, headKnownAssignedXids := j, LAST_COMPRESS_TS := k_now' env \<rparr>)))"

text \<open>The loop that counts the ids from \<open>next_xid\<close> to \<open>to_xid\<close> when the range crosses the end of the 32-bit space.\<close>

lemma Advance_closer:
  assumes "TransactionIdPrecedes x y" "TransactionIdPrecedes (TransactionIdAdvance x) y"
  shows "unat (y - TransactionIdAdvance x) < unat (y - x)"
proof -
  have adv: "TransactionIdIsNormal (TransactionIdAdvance x)"
    by (simp add: TransactionIdAdvance_def TransactionIdIsNormal_iff FirstNormalTransactionId_def Let_def not_less)
  have y3: "3 \<le> y"
    using assms(2) adv by (cases "3 \<le> y") (auto simp: TransactionIdPrecedes_def TransactionIdIsNormal_iff)
  show ?thesis
  proof (cases "x + 1 < 3")
    case False
    then have "TransactionIdAdvance x = x + 1" by (simp add: TransactionIdAdvance_def FirstNormalTransactionId_def)
    moreover have "y - x \<noteq> 0" using assms(1) by auto
    then have "unat (y - x - 1) = unat (y - x) - 1" "0 < unat (y - x)" by (simp_all add: unat_minus_one unat_gt_0)
    ultimately show ?thesis by (simp add: diff_diff_eq)
  next
    case True
    then have a: "TransactionIdAdvance x = 3" by (simp add: TransactionIdAdvance_def FirstNormalTransactionId_def)
    have y: "unat (y - 3) = unat y - 3" "3 \<le> unat y"
      using y3 unat_sub [of 3 y] by (simp_all add: word_le_nat_alt)
    show ?thesis
    proof (cases "x < 3")
      case True
      then have "unat (y - x) = unat y - unat x" "unat x < 3"
        using y3 by (simp_all add: unat_sub word_le_nat_alt word_less_nat_alt)
      then show ?thesis using a y by simp
    next
      case x: False
      have "unat (x + 1) < 3" using True by (simp add: word_less_nat_alt)
      then have "x + 1 = 0"
        using x unat_Suc_word [of x] by (cases "x + 1 = 0") (simp_all add: word_less_nat_alt)
      then have "x = - 1" by (simp add: eq_neg_iff_add_eq_0)
      then have "y - x = y + 1" "y \<noteq> - 1" using assms(1) by auto
      then have "y + 1 \<noteq> 0" by (simp add: eq_neg_iff_add_eq_0)
      then have "unat (y + 1) = Suc (unat y)" by (rule unat_Suc_word)
      then show ?thesis unfolding a \<open>y - x = y + 1\<close> using y by simp
    qed
  qed
qed

function count_xids :: "TransactionId \<Rightarrow> TransactionId \<Rightarrow> int" where
  "count_xids next_xid to_xid =
     (if TransactionIdPrecedes next_xid to_xid then 1 + count_xids (TransactionIdAdvance next_xid) to_xid else 1)"
  by pat_completeness auto

termination count_xids
  by (relation "measure (\<lambda>(x, y). if TransactionIdPrecedes x y then Suc (unat (y - x)) else 0)")
     (auto simp: Advance_closer)

declare count_xids.simps [simp del]

fun kax_fill ::
  "nat \<Rightarrow> int \<Rightarrow> TransactionId \<Rightarrow> TransactionId list \<Rightarrow> bool list \<Rightarrow> (int \<times> TransactionId list \<times> bool list) res" where
  "kax_fill 0 h x xs vs = Inr (h, xs, vs)"
| "kax_fill (Suc n) h x xs vs =
     bindR (store_at xs h x) (\<lambda>xs.
     bindR (store_at vs h True) (\<lambda>vs. kax_fill n (h + 1) (TransactionIdAdvance x) xs vs))"

definition KnownAssignedXidsAdd ::
  "kax_env \<Rightarrow> TransactionId \<Rightarrow> TransactionId \<Rightarrow> startup \<Rightarrow> unit res \<times> startup" where
  "KnownAssignedXidsAdd env from_xid to_xid s =
    (if \<not> TransactionIdPrecedesOrEquals from_xid to_xid then (Inl Panic, s)
     else
       let nxids = (if from_xid \<le> to_xid then sint (to_xid - from_xid + 1) else count_xids from_xid to_xid);
           h = headKnownAssignedXids s; t = tailKnownAssignedXids s; limit = maxKnownAssignedXids s;
           fill = (\<lambda>h s.
             tryS (kax_fill (nat nxids) h from_xid (knownAssignedXids s) (knownAssignedXidsValid s)) s (\<lambda>(h, xs, vs).
               (Inr (), s \<lparr> knownAssignedXids := xs, knownAssignedXidsValid := vs,
                           numKnownAssignedXids := numKnownAssignedXids s + nxids, headKnownAssignedXids := h \<rparr>))) in
       if \<not> (0 \<le> h \<and> h \<le> limit) \<or> \<not> (0 \<le> t \<and> t < limit) then (Inl Panic, s)
       else
         tryS (if h > t then bindR (load_at (knownAssignedXids s) (h - 1)) (\<lambda>last.
                  Inr (TransactionIdFollowsOrEquals last from_xid)) else Inr False) s (\<lambda>bad.
           if bad then (Inl (ElogError ''out-of-order XID insertion in KnownAssignedXids''), s)
           else if h + nxids \<ge> 2 ^ 31 then (Inl Panic, s)
           else if h + nxids > limit then
             bindS (KnownAssignedXidsCompress env NoSpace s) (\<lambda>_ s.
               let h = headKnownAssignedXids s in
               if h + nxids > limit then (Inl (ElogError ''too many KnownAssignedXids''), s) else fill h s)
           else fill h s))"

text \<open>Binary search; invalid entries keep their ids, so they are ignored until the end.\<close>

function kax_search :: "TransactionId list \<Rightarrow> TransactionId \<Rightarrow> int \<Rightarrow> int \<Rightarrow> int res" where
  "kax_search xs xid lo hi =
     (if lo \<le> hi then
        let mid_index = (lo + hi) div 2 in
        bindR (load_at xs mid_index) (\<lambda>mid_xid.
          if xid = mid_xid then Inr mid_index
          else if TransactionIdPrecedes xid mid_xid then kax_search xs xid lo (mid_index - 1)
          else kax_search xs xid (mid_index + 1) hi)
      else Inr (- 1))"
  by pat_completeness auto

termination kax_search
  by (relation "measure (\<lambda>(xs, xid, lo, hi). nat (hi - lo + 1))") auto

declare kax_search.simps [simp del]

function kax_next_valid :: "bool list \<Rightarrow> int \<Rightarrow> int \<Rightarrow> int res" where
  "kax_next_valid vs i h =
     (if i < h then bindR (load_at vs i) (\<lambda>v. if v then Inr i else kax_next_valid vs (i + 1) h) else Inr i)"
  by pat_completeness auto

termination kax_next_valid
  by (relation "measure (\<lambda>(vs, i, h). nat (h - i))") auto

declare kax_next_valid.simps [simp del]

definition set_tail :: "int \<Rightarrow> int \<Rightarrow> 'a ProcArrayStruct_scheme \<Rightarrow> 'a ProcArrayStruct_scheme" where
  "set_tail i h s =
     (if i \<ge> h then s \<lparr> headKnownAssignedXids := 0, tailKnownAssignedXids := 0 \<rparr>
      else s \<lparr> tailKnownAssignedXids := i \<rparr>)"

definition KnownAssignedXidsSearch ::
  "TransactionId \<Rightarrow> bool \<Rightarrow> 'a ProcArrayStruct_scheme \<Rightarrow> bool res \<times> 'a ProcArrayStruct_scheme" where
  "KnownAssignedXidsSearch xid remove s =
    (let t = tailKnownAssignedXids s; h = headKnownAssignedXids s in
     tryS (kax_search (knownAssignedXids s) xid t (h - 1)) s (\<lambda>result_index.
       if result_index < 0 then (Inr False, s)
       else
         tryS (load_at (knownAssignedXidsValid s) result_index) s (\<lambda>v.
           if \<not> v then (Inr False, s)
           else if remove then
             let s = s \<lparr> knownAssignedXidsValid := (knownAssignedXidsValid s)[nat result_index := False],
                        numKnownAssignedXids := numKnownAssignedXids s - 1 \<rparr> in
             if numKnownAssignedXids s < 0 then (Inl Panic, s)
             else if result_index = t then
               tryS (kax_next_valid (knownAssignedXidsValid s) (t + 1) h) s (\<lambda>i. (Inr True, set_tail i h s))
             else (Inr True, s)
           else (Inr True, s))))"

definition KnownAssignedXidExists :: "TransactionId \<Rightarrow> 'a ProcArrayStruct_scheme \<Rightarrow> bool res" where
  "KnownAssignedXidExists xid s =
     (if \<not> TransactionIdIsValid xid then Inl Panic else fst (KnownAssignedXidsSearch xid False s))"

definition KnownAssignedXidsRemove ::
  "TransactionId \<Rightarrow> 'a ProcArrayStruct_scheme \<Rightarrow> unit res \<times> 'a ProcArrayStruct_scheme" where
  "KnownAssignedXidsRemove xid s =
     (if \<not> TransactionIdIsValid xid then (Inl Panic, s)
      else bindS (KnownAssignedXidsSearch xid True s) (\<lambda>_ s. (Inr (), s)))"

fun kax_remove_all ::
  "TransactionId list \<Rightarrow> 'a ProcArrayStruct_scheme \<Rightarrow> unit res \<times> 'a ProcArrayStruct_scheme" where
  "kax_remove_all [] s = (Inr (), s)"
| "kax_remove_all (x # xs) s = bindS (KnownAssignedXidsRemove x s) (\<lambda>_ s. kax_remove_all xs s)"

definition KnownAssignedXidsRemoveTree ::
  "kax_env \<Rightarrow> TransactionId \<Rightarrow> TransactionId list \<Rightarrow> startup \<Rightarrow> unit res \<times> startup" where
  "KnownAssignedXidsRemoveTree env xid subxids s =
     bindS (if TransactionIdIsValid xid then KnownAssignedXidsRemove xid s else (Inr (), s)) (\<lambda>_ s.
     bindS (kax_remove_all subxids s) (\<lambda>_ s. KnownAssignedXidsCompress env TransactionEnd s))"

fun kax_prune ::
  "kax_env \<Rightarrow> TransactionId \<Rightarrow> TransactionId list \<Rightarrow> int list \<Rightarrow> int \<Rightarrow> bool list \<Rightarrow> int res \<times> bool list" where
  "kax_prune env remove_xid xs [] count vs = (Inr count, vs)"
| "kax_prune env remove_xid xs (i # is) count vs =
     tryS (load_at vs i) vs (\<lambda>v.
       if v then
         tryS (load_at xs i) vs (\<lambda>known_xid.
           if TransactionIdFollowsOrEquals known_xid remove_xid then (Inr count, vs)
           else
             tryS (k_is_prepared env known_xid) vs (\<lambda>prepared.
               if \<not> prepared then kax_prune env remove_xid xs is (count + 1) (vs[nat i := False])
               else kax_prune env remove_xid xs is count vs))
       else kax_prune env remove_xid xs is count vs)"

definition KnownAssignedXidsRemovePreceding :: "kax_env \<Rightarrow> TransactionId \<Rightarrow> startup \<Rightarrow> unit res \<times> startup" where
  "KnownAssignedXidsRemovePreceding env remove_xid s =
    (if \<not> TransactionIdIsValid remove_xid then
       (Inr (), s \<lparr> numKnownAssignedXids := 0, headKnownAssignedXids := 0, tailKnownAssignedXids := 0 \<rparr>)
     else
       let t = tailKnownAssignedXids s; h = headKnownAssignedXids s;
           (r, vs) = kax_prune env remove_xid (knownAssignedXids s) [t..h - 1] 0 (knownAssignedXidsValid s);
           s = s \<lparr> knownAssignedXidsValid := vs \<rparr> in
       tryS r s (\<lambda>count.
         let s = s \<lparr> numKnownAssignedXids := numKnownAssignedXids s - count \<rparr> in
         if numKnownAssignedXids s < 0 then (Inl Panic, s)
         else
           tryS (kax_next_valid vs t h) s (\<lambda>i.
             KnownAssignedXidsCompress env Prune (set_tail i h s))))"

text \<open>
  The reading loop: the ids stored so far, and the running minimum. The callback \<^verbatim>\<open>store\<close> of the source appends to
  the list that is returned.
\<close>

fun kax_get ::
  "TransactionId list \<Rightarrow> bool list \<Rightarrow> TransactionId \<Rightarrow> int list \<Rightarrow> TransactionId list \<Rightarrow> TransactionId
     \<Rightarrow> (TransactionId list \<times> TransactionId) res" where
  "kax_get xs vs xmax [] out xmin = Inr (out, xmin)"
| "kax_get xs vs xmax (i # is) out xmin =
     bindR (load_at vs i) (\<lambda>v.
       if v then
         bindR (load_at xs i) (\<lambda>known_xid.
           let xmin = (if out = [] \<and> TransactionIdPrecedes known_xid xmin then known_xid else xmin) in
           if TransactionIdIsValid xmax \<and> TransactionIdFollowsOrEquals known_xid xmax then Inr (out, xmin)
           else kax_get xs vs xmax is (out @ [known_xid]) xmin)
       else kax_get xs vs xmax is out xmin)"

definition KnownAssignedXidsGetAndSetXmin ::
  "TransactionId \<Rightarrow> TransactionId \<Rightarrow> 'a ProcArrayStruct_scheme \<Rightarrow> (TransactionId list \<times> TransactionId) res" where
  "KnownAssignedXidsGetAndSetXmin xmin xmax s =
     kax_get (knownAssignedXids s) (knownAssignedXidsValid s) xmax
       [tailKnownAssignedXids s..headKnownAssignedXids s - 1] [] xmin"

definition KnownAssignedXidsGet :: "TransactionId \<Rightarrow> 'a ProcArrayStruct_scheme \<Rightarrow> TransactionId list res" where
  "KnownAssignedXidsGet xmax s =
     bindR (KnownAssignedXidsGetAndSetXmin InvalidTransactionId xmax s) (\<lambda>(out, _). Inr out)"

definition KnownAssignedXidsGetOldestXmin :: "'a ProcArrayStruct_scheme \<Rightarrow> TransactionId res" where
  "KnownAssignedXidsGetOldestXmin s =
     bindR (kax_next_valid (knownAssignedXidsValid s) (tailKnownAssignedXids s) (headKnownAssignedXids s)) (\<lambda>i.
       if i < headKnownAssignedXids s then load_at (knownAssignedXids s) i else Inr InvalidTransactionId)"

definition KnownAssignedXidsReset :: "'a ProcArrayStruct_scheme \<Rightarrow> 'a ProcArrayStruct_scheme" where
  "KnownAssignedXidsReset s =
     s \<lparr> numKnownAssignedXids := 0, tailKnownAssignedXids := 0, headKnownAssignedXids := 0 \<rparr>"

subsection \<open>Following the primary\<close>

definition MaintainLatestCompletedXidRecovery ::
  "TransactionId \<Rightarrow> 'a TransamVariablesShared_scheme \<Rightarrow> unit res \<times> 'a TransamVariablesShared_scheme" where
  "MaintainLatestCompletedXidRecovery latest_xid s =
    (let cur_latest = latest_completed_xid s; rel = nextFullXid s in
     if \<not> TransactionIdIsValid latest_xid \<or> \<not> fxid_is_valid rel then (Inl Panic, s)
     else if \<not> fxid_is_valid cur_latest \<or> TransactionIdPrecedes (fxid_xid cur_latest) latest_xid
     then (Inr (), s \<lparr> latestCompletedXid := fxid_value (FullXidRelativeTo rel latest_xid) \<rparr>)
     else (Inr (), s))"

definition increment_xact_completion_count ::
  "'a TransamVariablesShared_scheme \<Rightarrow> 'a TransamVariablesShared_scheme" where
  "increment_xact_completion_count s = s \<lparr> xactCompletionCount := xactCompletionCount s + 1 \<rparr>"

definition ProcArrayInitRecovery :: "TransactionId \<Rightarrow> startup \<Rightarrow> unit res \<times> startup" where
  "ProcArrayInitRecovery initialized_upto_xid s =
     (if standby_state s \<noteq> STANDBY_INITIALIZED \<or> \<not> TransactionIdIsNormal initialized_upto_xid then (Inl Panic, s)
      else (Inr (), s \<lparr> LATEST_OBSERVED_XID := TransactionIdRetreat_loop initialized_upto_xid \<rparr>))"

definition ExpireTreeKnownAssignedTransactionIds ::
  "kax_env \<Rightarrow> TransactionId \<Rightarrow> TransactionId list \<Rightarrow> TransactionId \<Rightarrow> startup \<Rightarrow> unit res \<times> startup" where
  "ExpireTreeKnownAssignedTransactionIds env xid subxids max_xid s =
    (if standby_state s = STANDBY_DISABLED then (Inl Panic, s)
     else
       bindS (KnownAssignedXidsRemoveTree env xid subxids s) (\<lambda>_ s.
       bindS (MaintainLatestCompletedXidRecovery max_xid s) (\<lambda>_ s.
         (Inr (), increment_xact_completion_count s))))"

definition ExpireAllKnownAssignedTransactionIds :: "kax_env \<Rightarrow> startup \<Rightarrow> unit res \<times> startup" where
  "ExpireAllKnownAssignedTransactionIds env s =
     bindS (KnownAssignedXidsRemovePreceding env InvalidTransactionId s) (\<lambda>_ s.
       let latest_xid = nextFullXid s in
       if \<not> fxid_is_valid latest_xid then (Inl Panic, s)
       else
         tryS (FullTransactionIdRetreat latest_xid) s (\<lambda>latest_xid.
           let s = increment_xact_completion_count (s \<lparr> latestCompletedXid := fxid_value latest_xid \<rparr>) in
           (Inr (), s \<lparr> lastOverflowedXid := InvalidTransactionId \<rparr>)))"

definition ExpireOldKnownAssignedTransactionIds :: "kax_env \<Rightarrow> TransactionId \<Rightarrow> startup \<Rightarrow> unit res \<times> startup" where
  "ExpireOldKnownAssignedTransactionIds env xid s =
     bindS (MaintainLatestCompletedXidRecovery (TransactionIdRetreat_loop xid) s) (\<lambda>_ s.
       let s = increment_xact_completion_count s;
           s = (if TransactionIdPrecedes (lastOverflowedXid s) xid then s \<lparr> lastOverflowedXid := InvalidTransactionId \<rparr> else s) in
       KnownAssignedXidsRemovePreceding env xid s)"

text \<open>The two loops that extend \<^verbatim>\<open>pg_subtrans\<close> up to an id.\<close>

function extend_after :: "(TransactionId \<Rightarrow> unit res) \<Rightarrow> TransactionId \<Rightarrow> TransactionId \<Rightarrow> TransactionId res" where
  "extend_after extend_subtrans next_xid xid =
     (if TransactionIdPrecedes next_xid xid then
        let next_xid = TransactionIdAdvance next_xid in
        bindR (extend_subtrans next_xid) (\<lambda>_. extend_after extend_subtrans next_xid xid)
      else Inr next_xid)"
  by pat_completeness auto

termination extend_after
  by (relation "measure (\<lambda>(_, x, y). if TransactionIdPrecedes x y then Suc (unat (y - x)) else 0)")
     (auto simp: Advance_closer)

function extend_before :: "(TransactionId \<Rightarrow> unit res) \<Rightarrow> TransactionId \<Rightarrow> TransactionId \<Rightarrow> TransactionId res" where
  "extend_before extend_subtrans latest next_xid =
     (if TransactionIdPrecedes latest next_xid then
        bindR (extend_subtrans latest) (\<lambda>_. extend_before extend_subtrans (TransactionIdAdvance latest) next_xid)
      else Inr latest)"
  by pat_completeness auto

termination extend_before
  by (relation "measure (\<lambda>(_, x, y). if TransactionIdPrecedes x y then Suc (unat (y - x)) else 0)")
     (auto simp: Advance_closer)

declare extend_after.simps [simp del] extend_before.simps [simp del]

definition RecordKnownAssignedTransactionIds :: "kax_env \<Rightarrow> TransactionId \<Rightarrow> startup \<Rightarrow> unit res \<times> startup" where
  "RecordKnownAssignedTransactionIds env xid s =
    (let latest_observed = LATEST_OBSERVED_XID s in
     if standby_state s = STANDBY_DISABLED \<or> \<not> TransactionIdIsValid xid \<or> \<not> TransactionIdIsValid latest_observed
     then (Inl Panic, s)
     else if TransactionIdFollows xid latest_observed then
       tryS (extend_after (k_extend_subtrans env) latest_observed xid) s (\<lambda>next_expected_xid.
         if next_expected_xid \<noteq> xid then (Inl Panic, s)
         else if standby_state s = STANDBY_INITIALIZED then (Inr (), s \<lparr> LATEST_OBSERVED_XID := xid \<rparr>)
         else
           bindS (KnownAssignedXidsAdd env (TransactionIdAdvance latest_observed) xid s) (\<lambda>_ s.
             AdvanceNextFullTransactionIdPastXid (k_varsup env) xid (s \<lparr> LATEST_OBSERVED_XID := xid \<rparr>)))
     else (Inr (), s))"

fun set_parents :: "kax_env \<Rightarrow> TransactionId \<Rightarrow> TransactionId list \<Rightarrow> unit res" where
  "set_parents env topxid [] = Inr ()"
| "set_parents env topxid (x # xs) = bindR (k_set_parent env x topxid) (\<lambda>_. set_parents env topxid xs)"

definition ProcArrayApplyXidAssignment ::
  "kax_env \<Rightarrow> TransactionId \<Rightarrow> TransactionId list \<Rightarrow> startup \<Rightarrow> unit res \<times> startup" where
  "ProcArrayApplyXidAssignment env topxid subxids s =
    (if standby_state s = STANDBY_DISABLED then (Inl Panic, s)
     else
       let max_xid = TransactionIdLatest topxid subxids in
       bindS (RecordKnownAssignedTransactionIds env max_xid s) (\<lambda>_ s.
       tryS (set_parents env topxid subxids) s (\<lambda>_.
         if standby_state s = STANDBY_INITIALIZED then (Inr (), s)
         else
           bindS (KnownAssignedXidsRemoveTree env InvalidTransactionId subxids s) (\<lambda>_ s.
             if TransactionIdPrecedes (lastOverflowedXid s) max_xid
             then (Inr (), s \<lparr> lastOverflowedXid := max_xid \<rparr>) else (Inr (), s)))))"

text \<open>The running transactions that are not known to have ended.\<close>

fun still_running :: "kax_env \<Rightarrow> TransactionId list \<Rightarrow> TransactionId list res" where
  "still_running env [] = Inr []"
| "still_running env (x # xs) =
     bindR (bindR (k_did_commit env x) (\<lambda>c. if c then Inr True else k_did_abort env x)) (\<lambda>ended.
       bindR (still_running env xs) (\<lambda>rest. Inr (if ended then rest else x # rest)))"

fun kax_add_each :: "kax_env \<Rightarrow> TransactionId option \<Rightarrow> TransactionId list \<Rightarrow> startup \<Rightarrow> unit res \<times> startup" where
  "kax_add_each env prev [] s = (Inr (), s)"
| "kax_add_each env prev (x # xs) s =
     (if prev = Some x then kax_add_each env (Some x) xs s
      else bindS (KnownAssignedXidsAdd env x x s) (\<lambda>_ s. kax_add_each env (Some x) xs s))"

text \<open>
  Building the initial set, under the lock. The source sorts with \<^verbatim>\<open>sort_unstable\<close>, in the order of unsigned numbers.
\<close>

definition build_known_assigned ::
  "kax_env \<Rightarrow> RunningTransactionsData \<Rightarrow> startup \<Rightarrow> unit res \<times> startup" where
  "build_known_assigned env running s =
     tryS (slice_to (nat (run_xcnt running + run_subxcnt running)) (run_xids running)) s (\<lambda>all_xids.
     tryS (still_running env all_xids) s (\<lambda>xids.
     bindS (if xids \<noteq> [] then
              if numKnownAssignedXids s \<noteq> 0 then (Inl (ElogError ''KnownAssignedXids is not empty''), s)
              else kax_add_each env None (sort xids) s
            else (Inr (), s)) (\<lambda>_ s.
       if \<not> TransactionIdIsNormal (LATEST_OBSERVED_XID s) then (Inl Panic, s)
       else
         tryS (extend_before (k_extend_subtrans env) (TransactionIdAdvance (LATEST_OBSERVED_XID s)) (run_nextXid running)) s
           (\<lambda>latest.
             let latest = TransactionIdRetreat_loop latest;
                 s = s \<lparr> LATEST_OBSERVED_XID := latest \<rparr>;
                 s = (case run_subxid_status running of
                        SUBXIDS_MISSING \<Rightarrow>
                          s \<lparr> standby_state := STANDBY_SNAPSHOT_PENDING, STANDBY_SNAPSHOT_PENDING_XMIN := latest,
                              lastOverflowedXid := latest \<rparr>
                      | SUBXIDS_IN_SUBTRANS \<Rightarrow>
                          s \<lparr> standby_state := STANDBY_SNAPSHOT_READY, STANDBY_SNAPSHOT_PENDING_XMIN := InvalidTransactionId,
                              lastOverflowedXid := latest \<rparr>
                      | SUBXIDS_IN_ARRAY \<Rightarrow>
                          s \<lparr> standby_state := STANDBY_SNAPSHOT_READY, STANDBY_SNAPSHOT_PENDING_XMIN := InvalidTransactionId,
                              lastOverflowedXid := InvalidTransactionId \<rparr>) in
             MaintainLatestCompletedXidRecovery (run_latestCompletedXid running) s))))"

definition ProcArrayApplyRecoveryInfo ::
  "kax_env \<Rightarrow> RunningTransactionsData \<Rightarrow> startup \<Rightarrow> unit res \<times> startup" where
  "ProcArrayApplyRecoveryInfo env running s =
    (if standby_state s = STANDBY_DISABLED \<or> \<not> TransactionIdIsValid (run_nextXid running)
        \<or> \<not> TransactionIdIsValid (run_oldestRunningXid running) \<or> \<not> TransactionIdIsNormal (run_latestCompletedXid running)
     then (Inl Panic, s)
     else
       bindS (ExpireOldKnownAssignedTransactionIds env (run_oldestRunningXid running) s) (\<lambda>_ s.
       bindS (AdvanceNextFullTransactionIdPastXid (k_varsup env) (TransactionIdRetreat_loop (run_nextXid running)) s) (\<lambda>_ s.
       tryS (k_release_old_locks env (run_oldestRunningXid running)) s (\<lambda>_.
         if standby_state s = STANDBY_SNAPSHOT_READY then (Inr (), s)
         else if standby_state s = STANDBY_SNAPSHOT_PENDING
                 \<and> \<not> (run_subxid_status running \<noteq> SUBXIDS_MISSING \<or> run_xcnt running = 0) then
           (if TransactionIdPrecedes (STANDBY_SNAPSHOT_PENDING_XMIN s) (run_oldestRunningXid running)
            then (Inr (), s \<lparr> standby_state := STANDBY_SNAPSHOT_READY \<rparr>) else (Inr (), s))
         else
           let s = (if standby_state s = STANDBY_SNAPSHOT_PENDING
                    then (KnownAssignedXidsReset s) \<lparr> standby_state := STANDBY_INITIALIZED \<rparr> else s) in
           build_known_assigned env running s))))"

definition KnownAssignedTransactionIdsIdleMaintenance :: "kax_env \<Rightarrow> startup \<Rightarrow> unit res \<times> startup" where
  "KnownAssignedTransactionIdsIdleMaintenance env s =
     (case KnownAssignedXidsCompress env StartupProcessIdle s of
        (Inl _, s) \<Rightarrow> (Inl Panic, s) | (Inr _, s) \<Rightarrow> (Inr (), s))"

end
