(* ===== verification/KnownAssignedSpec.thy ===== *)
theory KnownAssignedSpec
  imports KnownAssigned
begin

section \<open>What the known assigned ids promise\<close>

text \<open>
  The ring between \<open>tail\<close> and \<open>head\<close> is a list of full transaction ids in ascending order, each with its validity bit; the ids with the
  bit set are the transactions known to run on the primary. Every operation is shown to act on this list as its
  name says, without running into a panic.
\<close>

subsection \<open>Array slots\<close>

primrec slots :: "'a list \<Rightarrow> int \<Rightarrow> 'a list \<Rightarrow> bool" where
  "slots xs t [] \<longleftrightarrow> 0 \<le> t \<and> t \<le> int (length xs)"
| "slots xs t (y # ys) \<longleftrightarrow> load_at xs t = Inr y \<and> slots xs (t + 1) ys"

lemma load_at_Inr: "load_at xs i = Inr x \<longleftrightarrow> 0 \<le> i \<and> i < int (length xs) \<and> xs ! nat i = x"
  by (auto simp: load_at_def)

lemma slots_bounds: "slots xs t ys \<Longrightarrow> 0 \<le> t \<and> t + int (length ys) \<le> int (length xs)"
  by (induction ys arbitrary: t) (force simp: load_at_Inr)+

lemma slots_append: "slots xs t (ys @ zs) \<longleftrightarrow> slots xs t ys \<and> slots xs (t + int (length ys)) zs"
proof (induction ys arbitrary: t)
  case Nil
  then show ?case using slots_bounds [of xs t zs] by auto
qed (simp add: algebra_simps)

lemma slots_nth:
  "slots xs t ys \<longleftrightarrow> 0 \<le> t \<and> t + int (length ys) \<le> int (length xs) \<and> (\<forall>i < length ys. xs ! (nat t + i) = ys ! i)"
proof (induction ys arbitrary: t)
  case (Cons y ys)
  have "(\<forall>i < Suc (length ys). xs ! (nat t + i) = (y # ys) ! i)
      \<longleftrightarrow> xs ! nat t = y \<and> (\<forall>i < length ys. xs ! (nat t + Suc i) = ys ! i)"
    by (auto simp: less_Suc_eq_0_disj)
  moreover have "nat (t + 1) = Suc (nat t)" if "0 \<le> t" using that by simp
  ultimately show ?case using Cons.IH [of "t + 1"] by (auto simp: load_at_Inr)
qed simp

lemma slots_load: "slots xs t ys \<Longrightarrow> i < length ys \<Longrightarrow> load_at xs (t + int i) = Inr (ys ! i)"
  by (auto simp: slots_nth load_at_Inr nat_add_distrib)

lemma slots_update_outside:
  assumes "slots xs t ys" "int i < t \<or> t + int (length ys) \<le> int i"
  shows "slots (xs[i := v]) t ys"
  using assms by (auto simp: slots_nth nth_list_update)

lemma slots_update:
  "slots xs t ys \<Longrightarrow> i < length ys \<Longrightarrow> slots (xs[nat t + i := v]) t (ys[i := v])"
  by (auto simp: slots_nth nth_list_update)

lemma slots_prefix: "slots xs t ys \<Longrightarrow> take n xs' = take n xs \<Longrightarrow> t + int (length ys) \<le> int n \<Longrightarrow> length xs' = length xs \<Longrightarrow> slots xs' t ys"
proof -
  assume a: "slots xs t ys" "take n xs' = take n xs" "t + int (length ys) \<le> int n" "length xs' = length xs"
  have "xs' ! (nat t + i) = xs ! (nat t + i)" if "i < length ys" for i
  proof -
    have "nat t + i < n" using that a(1,3) by (auto simp: slots_nth)
    then show ?thesis using a(2) by (metis nth_take)
  qed
  with a show ?thesis by (auto simp: slots_nth)
qed

lemma upto_slots: "[t..t + int n] = t # [t + 1..t + int n]"
  by (subst upto.simps) simp

subsection \<open>The ring as a list\<close>

type_synonym ring = "(nat \<times> bool) list"

definition live :: "ring \<Rightarrow> nat list" where
  "live ps = map fst (filter snd ps)"

definition ring_fulls :: "ring \<Rightarrow> nat set" where
  "ring_fulls ps = fst ` set ps"

definition ring_sorted :: "ring \<Rightarrow> bool" where
  "ring_sorted ps \<longleftrightarrow> sorted_wrt (<) (map fst ps) \<and> (\<forall>f \<in> ring_fulls ps. normal_full f)
     \<and> (\<forall>f \<in> ring_fulls ps. \<forall>g \<in> ring_fulls ps. near f g)"

text \<open>All but the ring.\<close>

definition erase :: "'a ProcArrayStruct_scheme \<Rightarrow> 'a ProcArrayStruct_scheme" where
  "erase s = s \<lparr> numKnownAssignedXids := 0, tailKnownAssignedXids := 0, headKnownAssignedXids := 0,
                 knownAssignedXids := [], knownAssignedXidsValid := [] \<rparr>"

definition kax_core :: "ring \<Rightarrow> 'a ProcArrayStruct_scheme \<Rightarrow> bool" where
  "kax_core ps s \<longleftrightarrow>
     0 < maxKnownAssignedXids s \<and> maxKnownAssignedXids s = int (length (knownAssignedXids s))
     \<and> maxKnownAssignedXids s = int (length (knownAssignedXidsValid s))
     \<and> headKnownAssignedXids s = tailKnownAssignedXids s + int (length ps)
     \<and> slots (knownAssignedXids s) (tailKnownAssignedXids s) (map (xid_of \<circ> fst) ps)
     \<and> slots (knownAssignedXidsValid s) (tailKnownAssignedXids s) (map snd ps)
     \<and> numKnownAssignedXids s = int (length (live ps)) \<and> ring_sorted ps"

definition kax_inv :: "ring \<Rightarrow> 'a ProcArrayStruct_scheme \<Rightarrow> bool" where
  "kax_inv ps s \<longleftrightarrow>
     kax_core ps s \<and> (ps = [] \<longrightarrow> tailKnownAssignedXids s = 0) \<and> (ps \<noteq> [] \<longrightarrow> snd (hd ps))"

lemma live_simps [simp]: "live [] = []" "live (p # ps) = (if snd p then fst p # live ps else live ps)"
  "live (ps @ qs) = live ps @ live qs"
  by (simp_all add: live_def)

lemma live_subset: "set (live ps) \<subseteq> ring_fulls ps"
  by (auto simp: live_def ring_fulls_def)

lemma ring_sorted_sub:
  assumes "ring_sorted ps" "sorted_wrt (<) (map fst qs)" "ring_fulls qs \<subseteq> ring_fulls ps"
  shows "ring_sorted qs"
  using assms by (auto simp: ring_sorted_def)

lemma ring_sorted_distinct: "ring_sorted ps \<Longrightarrow> distinct (map fst ps)"
  by (auto simp: ring_sorted_def strict_sorted_iff)

lemma in_live_nth:
  assumes "ring_sorted ps" "i < length ps"
  shows "fst (ps ! i) \<in> set (live ps) \<longleftrightarrow> snd (ps ! i)"
proof -
  have "snd p = snd (ps ! i)" if "p \<in> set ps" "fst p = fst (ps ! i)" for p
    using that ring_sorted_distinct [OF assms(1)] assms(2)
    by (metis distinct_map in_set_conv_nth inj_on_eq_iff nth_mem)
  then show ?thesis
    using assms(2) by (force simp: live_def)
qed

lemma kax_bounds:
  assumes "kax_core ps s"
  shows "0 \<le> tailKnownAssignedXids s" "headKnownAssignedXids s \<le> maxKnownAssignedXids s"
  using assms slots_bounds [of "knownAssignedXids s" "tailKnownAssignedXids s" "map (xid_of \<circ> fst) ps"]
  by (auto simp: kax_core_def)

subsection \<open>Searching\<close>

lemma ring_nth_less:
  assumes "ring_sorted ps" "i < length ps" "j < length ps"
  shows "fst (ps ! i) < fst (ps ! j) \<longleftrightarrow> i < j" and "fst (ps ! i) = fst (ps ! j) \<longleftrightarrow> i = j"
proof -
  have lt: "fst (ps ! a) < fst (ps ! b)" if "a < b" "b < length ps" for a b
    using assms(1) that sorted_wrt_nth_less [of "(<)" "map fst ps" a b] by (auto simp: ring_sorted_def)
  consider "i < j" | "i = j" | "j < i" by linarith
  then show "fst (ps ! i) < fst (ps ! j) \<longleftrightarrow> i < j" "fst (ps ! i) = fst (ps ! j) \<longleftrightarrow> i = j"
    using lt [of i j] lt [of j i] assms(2,3) by (cases; fastforce)+
qed

definition search_result :: "ring \<Rightarrow> nat \<Rightarrow> int \<Rightarrow> nat \<Rightarrow> nat \<Rightarrow> int res \<Rightarrow> bool" where
  "search_result ps f t a b r \<longleftrightarrow>
     (\<exists>i. a \<le> i \<and> i < b \<and> fst (ps ! i) = f \<and> r = Inr (t + int i))
     \<or> r = Inr (- 1) \<and> (\<forall>i. a \<le> i \<longrightarrow> i < b \<longrightarrow> fst (ps ! i) \<noteq> f)"

lemma search_result_mono:
  assumes "search_result ps f t a' b' r" "a \<le> a'" "b' \<le> b"
    and "\<And>i. a \<le> i \<Longrightarrow> i < b \<Longrightarrow> i < a' \<or> b' \<le> i \<Longrightarrow> fst (ps ! i) \<noteq> f"
  shows "search_result ps f t a b r"
  using assms(1) unfolding search_result_def
proof (elim disjE exE conjE)
  fix i assume i: "a' \<le> i" "i < b'" "fst (ps ! i) = f" "r = Inr (t + int i)"
  with assms(2,3) have "a \<le> i" "i < b" by simp_all
  with i(3,4) show "(\<exists>i. a \<le> i \<and> i < b \<and> fst (ps ! i) = f \<and> r = Inr (t + int i))
      \<or> r = Inr (- 1) \<and> (\<forall>i. a \<le> i \<longrightarrow> i < b \<longrightarrow> fst (ps ! i) \<noteq> f)" by blast
next
  assume r: "r = Inr (- 1)" "\<forall>i. a' \<le> i \<longrightarrow> i < b' \<longrightarrow> fst (ps ! i) \<noteq> f"
  have "fst (ps ! i) \<noteq> f" if "a \<le> i" "i < b" for i
    using assms(4) [OF that] r(2) by (cases "a' \<le> i \<and> i < b'") (simp_all add: not_le not_less)
  with r(1) show "(\<exists>i. a \<le> i \<and> i < b \<and> fst (ps ! i) = f \<and> r = Inr (t + int i))
      \<or> r = Inr (- 1) \<and> (\<forall>i. a \<le> i \<longrightarrow> i < b \<longrightarrow> fst (ps ! i) \<noteq> f)" by blast
qed

lemma kax_search_index:
  assumes "slots xs t (map (xid_of \<circ> fst) ps)" "ring_sorted ps"
    and "normal_full f" "\<forall>g \<in> ring_fulls ps. near f g"
    and "a \<le> b" "b \<le> length ps"
  shows "search_result ps f t a b (kax_search xs (xid_of f) (t + int a) (t + int b - 1))"
  using assms(5,6)
proof (induction "b - a" arbitrary: a b rule: less_induct)
  case less
  note sim = kax_search.simps [of xs "xid_of f" "t + int a" "t + int b - 1"]
  show ?case
  proof (cases "a < b")
    case False
    then have "kax_search xs (xid_of f) (t + int a) (t + int b - 1) = Inr (- 1)" unfolding sim by simp
    then show ?thesis using False by (simp add: search_result_def)
  next
    case True
    define m where "m = (2 * nat t + a + (b - 1)) div 2 - nat t"
    have t0: "0 \<le> t" using slots_bounds [OF assms(1)] by simp
    have m: "a \<le> m" "m < b" using True by (auto simp: m_def)
    have "(t + int a + (t + int b - 1)) div 2 = int ((2 * nat t + a + (b - 1)) div 2)"
      using t0 True by (simp add: of_nat_diff zdiv_int algebra_simps)
    also have "\<dots> = t + int m" using t0 True by (auto simp: m_def)
    finally have mid: "(t + int a + (t + int b - 1)) div 2 = t + int m" .
    have mlen: "m < length ps" using m less.prems by simp
    have ld: "load_at xs (t + int m) = Inr (xid_of (fst (ps ! m)))"
      using slots_load [OF assms(1), of m] mlen by simp
    have mem: "fst (ps ! m) \<in> ring_fulls ps" using mlen by (simp add: ring_fulls_def)
    then have nm: "near f (fst (ps ! m))" "normal_full (fst (ps ! m))"
      using assms(2,4) by (auto simp: ring_sorted_def)
    have eq: "xid_of f = xid_of (fst (ps ! m)) \<longleftrightarrow> f = fst (ps ! m)" using nm by (simp add: xid_of_inj)
    have pre: "TransactionIdPrecedes (xid_of f) (xid_of (fst (ps ! m))) \<longleftrightarrow> f < fst (ps ! m)"
      using nm assms(3) by (intro xid_of_order(1)) auto
    have ord: "fst (ps ! i) < fst (ps ! m) \<longleftrightarrow> i < m" "fst (ps ! i) = fst (ps ! m) \<longleftrightarrow> i = m" if "i < b" for i
      using ring_nth_less [OF assms(2), of i m] that mlen less.prems by auto
    have "t + int a \<le> t + int b - 1" using True by simp
    then have step: "kax_search xs (xid_of f) (t + int a) (t + int b - 1)
        = (if f = fst (ps ! m) then Inr (t + int m)
           else if f < fst (ps ! m) then kax_search xs (xid_of f) (t + int a) (t + int m - 1)
           else kax_search xs (xid_of f) (t + int m + 1) (t + int b - 1))"
      unfolding sim Let_def mid ld eq [symmetric] pre [symmetric] by (simp only: bindR_simps if_True)
    consider "f = fst (ps ! m)" | "f < fst (ps ! m)" | "fst (ps ! m) < f" by linarith
    then show ?thesis
    proof cases
      case 1
      then have "kax_search xs (xid_of f) (t + int a) (t + int b - 1) = Inr (t + int m)" unfolding step by simp
      then show ?thesis using 1 m by (auto simp: search_result_def)
    next
      case 2
      have run: "kax_search xs (xid_of f) (t + int a) (t + int b - 1) = kax_search xs (xid_of f) (t + int a) (t + int m - 1)"
        unfolding step using 2 by simp
      have "fst (ps ! i) \<noteq> f" if "m \<le> i" "i < b" for i using ord(1) [OF that(2)] 2 that(1) by auto
      then show ?thesis
        unfolding run using m less.prems by (intro search_result_mono [OF less.hyps [of m a]]) simp_all
    next
      case 3
      have run: "kax_search xs (xid_of f) (t + int a) (t + int b - 1)
          = kax_search xs (xid_of f) (t + int (Suc m)) (t + int b - 1)"
        unfolding step using 3 by (simp add: algebra_simps)
      have "fst (ps ! i) \<noteq> f" if "i \<le> m" "i < b" for i
        using ord(1,2) [OF that(2)] 3 that(1) by (metis le_neq_implies_less nat_neq_iff less_asym)
      then show ?thesis
        unfolding run using m less.prems by (intro search_result_mono [OF less.hyps [of b "Suc m"]]) simp_all
    qed
  qed
qed

lemma kax_search_ring:
  assumes "kax_core ps s" "normal_full f" "\<forall>g \<in> ring_fulls ps. near f g"
  obtains (found) i where "i < length ps" "fst (ps ! i) = f"
      "kax_search (knownAssignedXids s) (xid_of f) (tailKnownAssignedXids s) (headKnownAssignedXids s - 1)
         = Inr (tailKnownAssignedXids s + int i)"
  | (missing) "f \<notin> ring_fulls ps"
      "kax_search (knownAssignedXids s) (xid_of f) (tailKnownAssignedXids s) (headKnownAssignedXids s - 1) = Inr (- 1)"
proof -
  let ?r = "kax_search (knownAssignedXids s) (xid_of f) (tailKnownAssignedXids s) (headKnownAssignedXids s - 1)"
  have "search_result ps f (tailKnownAssignedXids s) 0 (length ps) ?r"
    using kax_search_index [of "knownAssignedXids s" "tailKnownAssignedXids s" ps f 0 "length ps"] assms
    by (simp add: kax_core_def)
  then consider i where "i < length ps" "fst (ps ! i) = f" "?r = Inr (tailKnownAssignedXids s + int i)"
    | "\<forall>i < length ps. fst (ps ! i) \<noteq> f" "?r = Inr (- 1)"
    unfolding search_result_def by blast
  then show thesis
  proof cases
    case 2
    then have "f \<notin> ring_fulls ps" by (metis (no_types, lifting) imageE in_set_conv_nth ring_fulls_def)
    with 2(2) show ?thesis by (rule missing [rotated])
  qed (rule found)
qed

subsection \<open>Moving the tail\<close>

definition trim :: "ring \<Rightarrow> ring" where
  "trim ps = dropWhile (\<lambda>p. \<not> snd p) ps"

lemma live_trim [simp]: "live (trim ps) = live ps"
  by (induction ps) (auto simp: trim_def)

lemma trim_hd: "trim ps \<noteq> [] \<Longrightarrow> snd (hd (trim ps))"
  unfolding trim_def using hd_dropWhile [of "\<lambda>p. \<not> snd p" ps] by blast

lemma kax_next_valid_trim:
  assumes "slots vs t (map snd ps)"
  shows "kax_next_valid vs t (t + int (length ps)) = Inr (t + int (length ps - length (trim ps)))"
  using assms
proof (induction ps arbitrary: t)
  case Nil
  then show ?case by (simp add: kax_next_valid.simps trim_def)
next
  case (Cons p ps)
  have len: "length (trim ps) \<le> length ps" by (simp add: trim_def length_dropWhile_le)
  show ?case
  proof (cases "snd p")
    case True
    with Cons.prems show ?thesis by (subst kax_next_valid.simps) (simp add: trim_def)
  next
    case False
    have "kax_next_valid vs t (t + int (length (p # ps))) = kax_next_valid vs (t + 1) ((t + 1) + int (length ps))"
      using Cons.prems False by (subst kax_next_valid.simps) (simp add: algebra_simps)
    also have "\<dots> = Inr ((t + 1) + int (length ps - length (trim ps)))"
      using Cons.prems by (intro Cons.IH) simp
    finally show ?thesis using False len by (simp add: trim_def Suc_diff_le)
  qed
qed

lemma set_tail_inv:
  assumes "kax_core ps s"
  shows "kax_inv (trim ps)
    (set_tail (tailKnownAssignedXids s + int (length ps - length (trim ps))) (headKnownAssignedXids s) s)"
proof -
  let ?t = "tailKnownAssignedXids s" and ?k = "length ps - length (trim ps)"
  have split: "takeWhile (\<lambda>p. \<not> snd p) ps @ trim ps = ps" by (simp add: trim_def)
  have k: "length (takeWhile (\<lambda>p. \<not> snd p) ps) = ?k" "length (trim ps) \<le> length ps"
    using arg_cong [OF split, of length] by simp_all
  have h: "headKnownAssignedXids s = ?t + int (length ps)" using assms by (simp add: kax_core_def)
  have "slots (knownAssignedXids s) (?t + int ?k) (map (xid_of \<circ> fst) (trim ps))"
    "slots (knownAssignedXidsValid s) (?t + int ?k) (map snd (trim ps))"
    using assms split k(1) slots_append [of _ ?t "map (xid_of \<circ> fst) (takeWhile (\<lambda>p. \<not> snd p) ps)" "map (xid_of \<circ> fst) (trim ps)"]
      slots_append [of _ ?t "map snd (takeWhile (\<lambda>p. \<not> snd p) ps)" "map snd (trim ps)"]
    unfolding kax_core_def by (metis length_map map_append)+
  moreover have "ring_sorted (trim ps)"
  proof (rule ring_sorted_sub)
    show "ring_sorted ps" using assms by (simp add: kax_core_def)
    then show "sorted_wrt (<) (map fst (trim ps))"
      using split by (metis map_append ring_sorted_def sorted_wrt_append)
    show "ring_fulls (trim ps) \<subseteq> ring_fulls ps" using split by (metis Un_upper2 image_Un ring_fulls_def set_append)
  qed
  moreover have "live ps = []" if "trim ps = []" using that by (metis live_trim live_simps(1))
  ultimately show ?thesis
    using assms trim_hd [of ps] k(2) h
    by (cases "trim ps = []") (auto simp: kax_inv_def kax_core_def set_tail_def)
qed

subsection \<open>Removing one id\<close>

definition drop_full :: "nat \<Rightarrow> ring \<Rightarrow> ring" where
  "drop_full f ps = map (\<lambda>p. if fst p = f then (fst p, False) else p) ps"

lemma drop_full_simps [simp]: "map fst (drop_full f ps) = map fst ps" "ring_fulls (drop_full f ps) = ring_fulls ps"
  "length (drop_full f ps) = length ps"
proof -
  show *: "map fst (drop_full f ps) = map fst ps" by (auto simp: drop_full_def)
  show "ring_fulls (drop_full f ps) = ring_fulls ps" using arg_cong [OF *, of set] by (simp add: ring_fulls_def)
qed (simp add: drop_full_def)

lemma live_drop_full [simp]: "live (drop_full f ps) = removeAll f (live ps)"
  by (induction ps) (auto simp: drop_full_def)

lemma ring_sorted_drop [simp]: "ring_sorted (drop_full f ps) = ring_sorted ps"
  by (simp add: ring_sorted_def)

lemma drop_full_nth:
  assumes "ring_sorted ps" "i < length ps"
  shows "map snd (drop_full (fst (ps ! i)) ps) = (map snd ps)[i := False]"
    and "map (xid_of \<circ> fst) (drop_full (fst (ps ! i)) ps) = map (xid_of \<circ> fst) ps"
proof -
  have "snd (if fst (ps ! j) = fst (ps ! i) then (fst (ps ! j), False) else ps ! j) = (if i = j then False else snd (ps ! j))"
    if "j < length ps" for j
    using ring_nth_less(2) [OF assms(1) that assms(2)] by auto
  then show "map snd (drop_full (fst (ps ! i)) ps) = (map snd ps)[i := False]"
    by (intro nth_equalityI) (auto simp: drop_full_def nth_list_update)
qed (auto simp: drop_full_def)

lemma removeAll_length:
  "distinct xs \<Longrightarrow> f \<in> set xs \<Longrightarrow> int (length (removeAll f xs)) = int (length xs) - 1"
  by (induction xs) (auto simp: removeAll_id)

lemma live_distinct: "ring_sorted ps \<Longrightarrow> distinct (live ps)"
  using ring_sorted_distinct [of ps] by (auto simp: live_def distinct_map_filter)

lemma Search_ok:
  assumes inv: "kax_inv ps s" and f: "normal_full f" "\<forall>g \<in> ring_fulls ps. near f g"
  shows "KnownAssignedXidsSearch (xid_of f) False s = (Inr (f \<in> set (live ps)), s)"
    and "\<exists>ps' s'. KnownAssignedXidsSearch (xid_of f) True s = (Inr (f \<in> set (live ps)), s') \<and> kax_inv ps' s'
       \<and> live ps' = removeAll f (live ps) \<and> ring_fulls ps' \<subseteq> ring_fulls ps
       \<and> erase s' = erase s"
proof -
  have core: "kax_core ps s" using inv by (simp add: kax_inv_def)
  then have srt: "ring_sorted ps" by (simp add: kax_core_def)
  let ?t = "tailKnownAssignedXids s" and ?h = "headKnownAssignedXids s"
  have t0: "0 \<le> ?t" by (rule kax_bounds [OF core])
  have stay: "\<exists>ps' s'. (Inr False, s) = (Inr (f \<in> set (live ps)), s') \<and> kax_inv ps' s'
       \<and> live ps' = removeAll f (live ps) \<and> ring_fulls ps' \<subseteq> ring_fulls ps
       \<and> erase s' = erase s" if "f \<notin> set (live ps)"
    using that inv by (intro exI [of _ ps] exI [of _ s]) (auto simp: removeAll_id)
  have "KnownAssignedXidsSearch (xid_of f) False s = (Inr (f \<in> set (live ps)), s)
    \<and> (\<exists>ps' s'. KnownAssignedXidsSearch (xid_of f) True s = (Inr (f \<in> set (live ps)), s') \<and> kax_inv ps' s'
       \<and> live ps' = removeAll f (live ps) \<and> ring_fulls ps' \<subseteq> ring_fulls ps
       \<and> erase s' = erase s)"
    using core f
  proof (cases rule: kax_search_ring)
    case missing
    then have nl: "f \<notin> set (live ps)" using live_subset [of ps] by blast
    have run: "KnownAssignedXidsSearch (xid_of f) b s = (Inr False, s)" for b
      using missing(2) by (simp add: KnownAssignedXidsSearch_def Let_def)
    show ?thesis unfolding run using stay [OF nl] nl by simp
  next
    case (found i)
    have ld: "load_at (knownAssignedXidsValid s) (?t + int i) = Inr (snd (ps ! i))"
      using slots_load [of "knownAssignedXidsValid s" ?t "map snd ps" i] core found(1) by (simp add: kax_core_def)
    have pos: "\<not> ?t + int i < 0" using t0 by simp
    have lv: "f \<in> set (live ps) \<longleftrightarrow> snd (ps ! i)" using in_live_nth [OF srt found(1)] found(2) by simp
    show ?thesis
    proof (cases "snd (ps ! i)")
      case False
      have run: "KnownAssignedXidsSearch (xid_of f) b s = (Inr False, s)" for b
        using found(3) ld pos False by (simp add: KnownAssignedXidsSearch_def Let_def)
      show ?thesis unfolding run using stay lv False by simp
    next
      case True
      then have fl: "f \<in> set (live ps)" using lv by simp
      define qs where "qs = drop_full f ps"
      define u where "u = s \<lparr> knownAssignedXidsValid := (knownAssignedXidsValid s)[nat (?t + int i) := False],
          numKnownAssignedXids := numKnownAssignedXids s - 1 \<rparr>"
      have "nat (?t + int i) = nat ?t + i" using t0 by (simp add: nat_add_distrib)
      then have cu: "kax_core qs u"
        using core found(1,2) fl live_distinct [OF srt] removeAll_length [of "live ps" f]
          slots_update [of "knownAssignedXidsValid s" ?t "map snd ps" i False]
          drop_full_nth [OF srt found(1)] srt
        by (auto simp add: kax_core_def qs_def u_def)
      have nn: "\<not> numKnownAssignedXids u < 0" using cu by (simp add: kax_core_def)
      have tu: "tailKnownAssignedXids u = ?t" "headKnownAssignedXids u = ?h" by (simp_all add: u_def)
      have q0: "KnownAssignedXidsSearch (xid_of f) False s = (Inr True, s)"
        using found(3) ld pos True by (simp add: KnownAssignedXidsSearch_def Let_def)
      have step: "KnownAssignedXidsSearch (xid_of f) True s =
          (if i = 0 then tryS (kax_next_valid (knownAssignedXidsValid u) (?t + 1) ?h) u (\<lambda>j. (Inr True, set_tail j ?h u))
           else (Inr True, u))"
        using found(3) ld pos True nn by (simp add: KnownAssignedXidsSearch_def Let_def u_def)
      have ne: "ps \<noteq> []" using found(1) by auto
      show ?thesis
      proof (cases "i = 0")
        case False
        then have "snd (hd qs)"
          using inv ne ring_nth_less(2) [OF srt, of 0 i] found(1,2)
          by (auto simp: kax_inv_def qs_def drop_full_def hd_map hd_conv_nth)
        then have "kax_inv qs u" using cu ne by (auto simp: kax_inv_def qs_def drop_full_def)
        then show ?thesis
          unfolding q0 step using False fl
          by (intro conjI exI [of _ qs] exI [of _ u]) (auto simp: qs_def u_def erase_def)
      next
        case True
        have su: "slots (knownAssignedXidsValid u) ?t (map snd qs)" using cu tu by (simp add: kax_core_def)
        have "\<not> snd (hd qs)" "qs \<noteq> []"
          using True found(1,2) ne by (auto simp: qs_def drop_full_def hd_map hd_conv_nth)
        then obtain q qs' where q: "qs = q # qs'" "\<not> snd q" by (cases qs) auto
        have hq: "?h = ?t + int (length qs)" using cu tu by (simp add: kax_core_def)
        have "kax_next_valid (knownAssignedXidsValid u) (?t + 1) ?h
            = kax_next_valid (knownAssignedXidsValid u) ?t (?t + int (length qs))"
          using su by (subst (2) kax_next_valid.simps) (simp add: q hq)
        also have "\<dots> = Inr (?t + int (length qs - length (trim qs)))" by (rule kax_next_valid_trim [OF su])
        finally have nv: "kax_next_valid (knownAssignedXidsValid u) (?t + 1) ?h = Inr (?t + int (length qs - length (trim qs)))" .
        have "set (trim qs) \<subseteq> set qs" unfolding trim_def by (meson set_dropWhileD subsetI)
        then have "ring_fulls (trim qs) \<subseteq> ring_fulls ps"
          using drop_full_simps(2) [of f ps] unfolding qs_def ring_fulls_def by blast
        moreover have "live (trim qs) = removeAll f (live ps)" by (simp add: qs_def)
        moreover have "erase (set_tail j ?h u) = erase s" for j
          by (simp add: set_tail_def u_def erase_def)
        ultimately show ?thesis
          unfolding q0 step using True fl nv set_tail_inv [OF cu] tu
          by (intro conjI exI [of _ "trim qs"] exI [of _ "set_tail (?t + int (length qs - length (trim qs))) ?h u"]) auto
      qed
    qed
  qed
  then show "KnownAssignedXidsSearch (xid_of f) False s = (Inr (f \<in> set (live ps)), s)"
    and "\<exists>ps' s'. KnownAssignedXidsSearch (xid_of f) True s = (Inr (f \<in> set (live ps)), s') \<and> kax_inv ps' s'
       \<and> live ps' = removeAll f (live ps) \<and> ring_fulls ps' \<subseteq> ring_fulls ps
       \<and> erase s' = erase s"
    by blast+
qed

subsection \<open>Compressing\<close>

definition packed :: "ring \<Rightarrow> ring" where
  "packed ps = map (\<lambda>f. (f, True)) (live ps)"

lemma packed_simps [simp]: "live (packed ps) = live ps" "length (packed ps) = length (live ps)"
  "map snd (packed ps) = replicate (length (live ps)) True" "map (xid_of \<circ> fst) (packed ps) = map xid_of (live ps)"
  "ring_fulls (packed ps) \<subseteq> ring_fulls ps"
proof -
  show "live (packed ps) = live ps" by (simp add: packed_def live_def comp_def)
  show "map snd (packed ps) = replicate (length (live ps)) True" by (simp add: packed_def map_replicate_const comp_def)
  show "ring_fulls (packed ps) \<subseteq> ring_fulls ps" by (auto simp: packed_def ring_fulls_def live_def)
qed (auto simp: packed_def)

lemma ring_sorted_packed:
  assumes "ring_sorted ps"
  shows "ring_sorted (packed ps)"
proof (rule ring_sorted_sub [OF assms])
  have "sorted_wrt (<) (map fst (filter snd ps))"
    using assms unfolding ring_sorted_def by (metis sorted_wrt_filter sorted_wrt_map)
  then show "sorted_wrt (<) (map fst (packed ps))" by (simp add: packed_def live_def comp_def)
qed simp

lemma store_at_Inr: "store_at xs i v = Inr ys \<longleftrightarrow> 0 \<le> i \<and> i < int (length xs) \<and> ys = xs[nat i := v]"
  by (auto simp: store_at_def)

lemma kax_compress_ok:
  assumes "slots xs t (map (xid_of \<circ> fst) ps)" "slots vs t (map snd ps)" "0 \<le> j" "j \<le> t"
  shows "\<exists>xs' vs'. kax_compress [t..t + int (length ps) - 1] j xs vs = Inr (j + int (length (live ps)), xs', vs')
     \<and> slots xs' j (map xid_of (live ps)) \<and> slots vs' j (replicate (length (live ps)) True)
     \<and> take (nat j) xs' = take (nat j) xs \<and> take (nat j) vs' = take (nat j) vs
     \<and> length xs' = length xs \<and> length vs' = length vs"
  using assms
proof (induction ps arbitrary: t j xs vs)
  case Nil
  then show ?case by (auto simp: upto.simps)
next
  case (Cons p ps)
  note rng = upto_slots [of t "length ps"]
  from Cons.prems have ld: "load_at vs t = Inr (snd p)" "load_at xs t = Inr (xid_of (fst p))"
    and sl: "slots xs (t + 1) (map (xid_of \<circ> fst) ps)" "slots vs (t + 1) (map snd ps)"
    by (simp_all add: comp_def)
  show ?case
  proof (cases "snd p")
    case False
    with Cons.IH [OF sl, of j] Cons.prems ld show ?thesis by (simp add: rng)
  next
    case True
    let ?xs = "xs[nat j := xid_of (fst p)]" and ?vs = "vs[nat j := True]"
    have jl: "j < int (length xs)" "j < int (length vs)"
      using ld Cons.prems(4) by (simp_all add: load_at_Inr)
    then have st: "store_at xs j (xid_of (fst p)) = Inr ?xs" "store_at vs j True = Inr ?vs"
      using Cons.prems(3) by (simp_all add: store_at_def)
    have sl': "slots ?xs (t + 1) (map (xid_of \<circ> fst) ps)" "slots ?vs (t + 1) (map snd ps)"
      using Cons.prems(3,4) by (intro slots_update_outside sl; simp)+
    obtain xs' vs' where r: "kax_compress [t + 1..t + 1 + int (length ps) - 1] (j + 1) ?xs ?vs
          = Inr (j + 1 + int (length (live ps)), xs', vs')"
      "slots xs' (j + 1) (map xid_of (live ps))" "slots vs' (j + 1) (replicate (length (live ps)) True)"
      "take (nat (j + 1)) xs' = take (nat (j + 1)) ?xs" "take (nat (j + 1)) vs' = take (nat (j + 1)) ?vs"
      "length xs' = length ?xs" "length vs' = length ?vs"
      using Cons.IH [OF sl', of "j + 1"] Cons.prems(3,4) by auto
    have nj: "nat (j + 1) = Suc (nat j)" using Cons.prems(3) by simp
    have nth: "xs' ! nat j = xid_of (fst p)" "vs' ! nat j = True"
      using r(4,5) jl Cons.prems(3) unfolding nj by (metis (no_types) lessI nat_less_iff nth_list_update_eq nth_take)+
    have pre: "take (nat j) xs' = take (nat j) xs" "take (nat j) vs' = take (nat j) vs"
      using arg_cong [OF r(4), of "take (nat j)"] arg_cong [OF r(5), of "take (nat j)"] unfolding nj by simp_all
    have "kax_compress [t..t + int (length (p # ps)) - 1] j xs vs = Inr (j + int (length (live (p # ps))), xs', vs')"
      using ld True st r(1) by (simp add: rng add.assoc)
    moreover have "slots xs' j (map xid_of (live (p # ps)))" "slots vs' j (replicate (length (live (p # ps))) True)"
      using True r(2,3,6,7) nth jl Cons.prems(3) by (simp_all add: load_at_def)
    ultimately show ?thesis using pre r(6,7) by simp
  qed
qed

definition erase_st :: "startup \<Rightarrow> startup" where
  "erase_st s = (erase s) \<lparr> TRANSACTION_ENDS_COUNTER := 0, LAST_COMPRESS_TS := 0 \<rparr>"

lemma erase_st_fields:
  assumes "erase_st s' = erase_st s"
  shows "nextXid s' = nextXid s" "latestCompletedXid s' = latestCompletedXid s" "lastOverflowedXid s' = lastOverflowedXid s"
    "standby_state s' = standby_state s" "LATEST_OBSERVED_XID s' = LATEST_OBSERVED_XID s"
    "maxKnownAssignedXids s' = maxKnownAssignedXids s" "STANDBY_SNAPSHOT_PENDING_XMIN s' = STANDBY_SNAPSHOT_PENDING_XMIN s"
  using arg_cong [OF assms, of nextXid] arg_cong [OF assms, of latestCompletedXid] arg_cong [OF assms, of lastOverflowedXid]
    arg_cong [OF assms, of standby_state] arg_cong [OF assms, of LATEST_OBSERVED_XID]
    arg_cong [OF assms, of maxKnownAssignedXids] arg_cong [OF assms, of STANDBY_SNAPSHOT_PENDING_XMIN]
  by (simp_all add: erase_st_def erase_def)

lemma erase_erase_st: "erase s' = erase s \<Longrightarrow> erase_st s' = erase_st s"
  by (simp add: erase_st_def)

text \<open>The compression itself, after the early returns.\<close>

lemma compress_now:
  assumes "kax_core ps s"
  obtains s' where
    "tryS (kax_compress [tailKnownAssignedXids s..headKnownAssignedXids s - 1] 0 (knownAssignedXids s) (knownAssignedXidsValid s)) s
       (\<lambda>(j, xs, vs).
         let s = s \<lparr> knownAssignedXids := xs, knownAssignedXidsValid := vs \<rparr> in
         if j \<noteq> numKnownAssignedXids s then (Inl Panic, s)
         else (Inr (), s \<lparr> tailKnownAssignedXids := 0, headKnownAssignedXids := j, LAST_COMPRESS_TS := k_now' env \<rparr>)) = (Inr (), s')"
    "kax_inv (packed ps) s'" "erase_st s' = erase_st s" "tailKnownAssignedXids s' = 0"
proof -
  let ?t = "tailKnownAssignedXids s"
  have c: "headKnownAssignedXids s = ?t + int (length ps)" "numKnownAssignedXids s = int (length (live ps))"
    "slots (knownAssignedXids s) ?t (map (xid_of \<circ> fst) ps)" "slots (knownAssignedXidsValid s) ?t (map snd ps)"
    "ring_sorted ps"
    using assms by (simp_all add: kax_core_def)
  obtain xs' vs' where r: "kax_compress [?t..?t + int (length ps) - 1] 0 (knownAssignedXids s) (knownAssignedXidsValid s)
        = Inr (int (length (live ps)), xs', vs')"
    "slots xs' 0 (map xid_of (live ps))" "slots vs' 0 (replicate (length (live ps)) True)"
    "length xs' = length (knownAssignedXids s)" "length vs' = length (knownAssignedXidsValid s)"
    using kax_compress_ok [OF c(3,4), of 0] kax_bounds(1) [OF assms] by auto
  let ?s = "s \<lparr> knownAssignedXids := xs', knownAssignedXidsValid := vs',
      tailKnownAssignedXids := 0, headKnownAssignedXids := int (length (live ps)), LAST_COMPRESS_TS := k_now' env \<rparr>"
  have "kax_core (packed ps) ?s"
    using assms r(2-5) c(2) ring_sorted_packed [OF c(5)] by (auto simp: kax_core_def)
  moreover have "packed ps \<noteq> [] \<longrightarrow> snd (hd (packed ps))" by (auto simp: packed_def hd_map)
  ultimately have "kax_inv (packed ps) ?s" by (simp add: kax_inv_def)
  then show thesis
    by (rule that [rotated]) (simp_all add: c(1,2) r(1) erase_st_def erase_def)
qed

lemma kax_inv_cong:
  assumes "kax_inv ps s" "maxKnownAssignedXids s' = maxKnownAssignedXids s" "numKnownAssignedXids s' = numKnownAssignedXids s"
    "tailKnownAssignedXids s' = tailKnownAssignedXids s" "headKnownAssignedXids s' = headKnownAssignedXids s"
    "knownAssignedXids s' = knownAssignedXids s" "knownAssignedXidsValid s' = knownAssignedXidsValid s"
  shows "kax_inv ps s'"
  using assms by (auto simp: kax_inv_def kax_core_def)

lemma Compress_ok:
  assumes "kax_inv ps s"
  obtains ps' s' where "KnownAssignedXidsCompress env reason s = (Inr (), s')" "kax_inv ps' s'" "live ps' = live ps"
    "ring_fulls ps' \<subseteq> ring_fulls ps" "erase_st s' = erase_st s" "reason = NoSpace \<longrightarrow> ps' = packed ps \<and> tailKnownAssignedXids s' = 0"
proof -
  define nel where "nel = headKnownAssignedXids s - tailKnownAssignedXids s"
  define early where "early = (if nel = numKnownAssignedXids s then reason \<noteq> NoSpace
     else if reason = TransactionEnd
     then TRANSACTION_ENDS_COUNTER s mod KAX_COMPRESS_FREQUENCY \<noteq> 0 \<or> nel < 2 * numKnownAssignedXids s
     else reason = StartupProcessIdle \<and> LAST_COMPRESS_TS s \<noteq> 0
       \<and> k_now env < LAST_COMPRESS_TS s + KAX_COMPRESS_IDLE_INTERVAL_MS * 1000)"
  define u where "u = (if nel \<noteq> numKnownAssignedXids s \<and> reason = TransactionEnd
     then s \<lparr> TRANSACTION_ENDS_COUNTER := TRANSACTION_ENDS_COUNTER s + 1 \<rparr> else s)"
  have u: "kax_inv ps u" "erase_st u = erase_st s"
    using assms by (auto simp: u_def erase_st_def erase_def intro: kax_inv_cong)
  then have core: "kax_core ps u" by (simp add: kax_inv_def)
  have th: "tailKnownAssignedXids u = tailKnownAssignedXids s" "headKnownAssignedXids u = headKnownAssignedXids s"
    by (simp_all add: u_def)
  obtain s2 where s2: "tryS (kax_compress [tailKnownAssignedXids u..headKnownAssignedXids u - 1] 0 (knownAssignedXids u) (knownAssignedXidsValid u)) u
       (\<lambda>(j, xs, vs).
         let s = u \<lparr> knownAssignedXids := xs, knownAssignedXidsValid := vs \<rparr> in
         if j \<noteq> numKnownAssignedXids s then (Inl Panic, s)
         else (Inr (), s \<lparr> tailKnownAssignedXids := 0, headKnownAssignedXids := j, LAST_COMPRESS_TS := k_now' env \<rparr>)) = (Inr (), s2)"
    "kax_inv (packed ps) s2" "erase_st s2 = erase_st u" "tailKnownAssignedXids s2 = 0"
    by (rule compress_now [OF core])
  have run: "KnownAssignedXidsCompress env reason s = (if early then (Inr (), u) else (Inr (), s2))"
    unfolding s2(1) [symmetric] th
    by (cases reason) (simp_all add: KnownAssignedXidsCompress_def Let_def early_def u_def nel_def)
  show thesis
  proof (cases early)
    case True
    then have "reason \<noteq> NoSpace" by (auto simp: early_def split: if_splits)
    with True run u that [of u ps] show ?thesis by simp
  next
    case False
    with run u s2 that [of s2 "packed ps"] show ?thesis by simp
  qed
qed

subsection \<open>Adding a range\<close>

definition fulls :: "nat \<Rightarrow> nat \<Rightarrow> nat list" where
  "fulls f g = filter normal_full [f..<Suc g]"

lemma fulls_same [simp]: "normal_full g \<Longrightarrow> fulls g g = [g]"
  by (simp add: fulls_def)

lemma fulls_step:
  assumes "normal_full f" "normal_full g" "f < g"
  shows "fulls f g = f # fulls (next_full f) g"
proof -
  have le: "next_full f \<le> g" by (rule next_full_least) (use assms in auto)
  have "[f..<Suc g] = f # [Suc f..<Suc g]" using assms(3) by (simp add: upt_conv_Cons)
  also have "[Suc f..<Suc g] = [Suc f..<next_full f] @ [next_full f..<Suc g]"
    using next_full_props(1) [of f] le upt_add_eq_append [of "Suc f" "next_full f" "Suc g - next_full f"] by simp
  finally have "[f..<Suc g] = f # [Suc f..<next_full f] @ [next_full f..<Suc g]" .
  moreover have "\<not> normal_full x" if "x \<in> set [Suc f..<next_full f]" for x
    using next_full_least [of f x] that by auto
  then have "filter normal_full [Suc f..<next_full f] = []" by (simp add: filter_empty_conv)
  ultimately show ?thesis using assms(1) by (simp add: fulls_def)
qed

lemma fulls_set: "set (fulls f g) = {x. normal_full x \<and> f \<le> x \<and> x \<le> g}"
  by (auto simp: fulls_def)

lemma fulls_sorted: "sorted_wrt (<) (fulls f g)"
  unfolding fulls_def by (rule sorted_wrt_filter) (simp del: upt_Suc)

lemma fulls_length: "length (fulls f g) \<le> Suc g - f"
  using length_filter_le [of normal_full "[f..<Suc g]"] by (simp add: fulls_def del: upt_Suc)

lemma fulls_induct [consumes 3, case_names base step]:
  assumes "normal_full f" "normal_full g" "f \<le> g"
    and "P g" and "\<And>f. normal_full f \<Longrightarrow> f < g \<Longrightarrow> next_full f \<le> g \<Longrightarrow> P (next_full f) \<Longrightarrow> P f"
  shows "P f"
  using assms(1,3)
proof (induction "g - f" arbitrary: f rule: less_induct)
  case less
  show ?case
  proof (cases "f = g")
    case False
    then have lt: "f < g" using less.prems by simp
    then have le: "next_full f \<le> g" by (rule next_full_least) (rule assms(2))
    have "P (next_full f)"
      using next_full_props(1,3) [of f] lt le by (intro less.hyps) auto
    with assms(5) less.prems lt le show ?thesis by blast
  qed (use assms(4) in simp)
qed

lemma count_xids_fulls:
  assumes "normal_full f" "normal_full g" "f \<le> g" "g < f + 2 ^ 31"
  shows "count_xids (xid_of f) (xid_of g) = int (length (fulls f g))"
  using assms
proof (induction f rule: fulls_induct)
  case base
  then show ?case using assms(2) by (subst count_xids.simps) simp
next
  case (step f)
  have "TransactionIdPrecedes (xid_of f) (xid_of g)"
    using step assms(2) by (subst xid_of_order(1)) (auto simp: near_def)
  with step assms(2) show ?case
    using next_full_props(1) [of f] by (subst count_xids.simps) (simp add: xid_of_next fulls_step)
qed

lemma range_count:
  assumes "normal_full f" "normal_full g" "f \<le> g" "g + 1 < f + 2 ^ 31"
  shows "(if xid_of f \<le> xid_of g then sint (xid_of g - xid_of f + 1) else count_xids (xid_of f) (xid_of g))
      = int (length (fulls f g))"
proof (cases "xid_of f \<le> xid_of g")
  case False
  then show ?thesis using count_xids_fulls [OF assms(1-3)] assms(4) by simp
next
  case True
  define q where "q = f div 2 ^ 32"
  define a where "a = f mod 2 ^ 32"
  define b where "b = g mod 2 ^ 32"
  have f: "f = q * 2 ^ 32 + a" "a < 2 ^ 32" by (simp_all add: q_def a_def)
  have g0: "g = (g div 2 ^ 32) * 2 ^ 32 + b" "b < 2 ^ 32" by (simp_all add: b_def)
  have ab: "a \<le> b" using True by (simp add: word_le_nat_alt unat_xid_of a_def b_def)
  define p where "p = g div 2 ^ 32"
  have pq: "f = q * 4294967296 + a" "g = p * 4294967296 + b" "g + 1 < f + 2147483648" "f \<le> g" "b < 4294967296" "a < 4294967296"
    using f g0 assms(3,4) by (simp_all add: p_def)
  have "p \<le> q" using pq ab by linarith
  moreover have "q \<le> p" using pq ab by linarith
  ultimately have "g div 2 ^ 32 = q" by (simp add: p_def)
  with g0 have g: "g = q * 2 ^ 32 + b" by simp
  have "normal_full x" if "f \<le> x" "x \<le> g" for x
  proof -
    define c where "c = x - q * 2 ^ 32"
    have x: "x = q * 2 ^ 32 + c" using that f by (simp add: c_def)
    have "a \<le> c" "c < 2 ^ 32" using that f(1) g x g0(2) by simp_all
    then have "x mod 2 ^ 32 = c" unfolding x by simp
    with \<open>a \<le> c\<close> assms(1) show ?thesis by (simp add: normal_full_def a_def)
  qed
  then have "fulls f g = [f..<Suc g]" unfolding fulls_def by (auto simp: filter_id_conv)
  then have len: "length (fulls f g) = Suc g - f" by (simp del: upt_Suc)
  have "xid_of g - xid_of f + 1 = xid_of (g + 1) - xid_of f" by (simp add: xid_of_def)
  moreover have "near (g + 1) f" using assms(3,4) by (auto simp: near_def)
  ultimately have "sint (xid_of g - xid_of f + 1) = int (g + 1) - int f" by (simp only: sint_xid_of)
  then show ?thesis using True len assms(3) by simp
qed

lemma kax_fill_ok:
  assumes "normal_full f" "normal_full g" "f \<le> g"
    and "0 \<le> h" "h + int (length (fulls f g)) \<le> int (length xs)" "length vs = length xs"
  shows "\<exists>xs' vs'. kax_fill (length (fulls f g)) h (xid_of f) xs vs = Inr (h + int (length (fulls f g)), xs', vs')
     \<and> slots xs' h (map xid_of (fulls f g)) \<and> slots vs' h (replicate (length (fulls f g)) True)
     \<and> take (nat h) xs' = take (nat h) xs \<and> take (nat h) vs' = take (nat h) vs
     \<and> length xs' = length xs \<and> length vs' = length vs"
  using assms
proof (induction f arbitrary: h xs vs rule: fulls_induct)
  case base
  then show ?case using assms(2) by (auto simp: store_at_def load_at_def)
next
  case (step f)
  note fs = fulls_step [OF step(1) assms(2) step(2)]
  let ?xs = "xs[nat h := xid_of f]" and ?vs = "vs[nat h := True]"
  have hl: "h < int (length xs)" using step.prems by (simp add: fs)
  obtain xs' vs' where r: "kax_fill (length (fulls (next_full f) g)) (h + 1) (xid_of (next_full f)) ?xs ?vs
        = Inr (h + 1 + int (length (fulls (next_full f) g)), xs', vs')"
    "slots xs' (h + 1) (map xid_of (fulls (next_full f) g))"
    "slots vs' (h + 1) (replicate (length (fulls (next_full f) g)) True)"
    "take (nat (h + 1)) xs' = take (nat (h + 1)) ?xs" "take (nat (h + 1)) vs' = take (nat (h + 1)) ?vs"
    "length xs' = length ?xs" "length vs' = length ?vs"
    using step.IH [of "h + 1" ?xs ?vs] step.prems next_full_props(3) [of f] step(3) assms(2) by (auto simp: fs)
  have nh: "nat (h + 1) = Suc (nat h)" using step.prems by simp
  have nth: "xs' ! nat h = xid_of f" "vs' ! nat h = True"
    using r(4,5) hl step.prems unfolding nh by (metis (no_types) lessI nat_less_iff nth_list_update_eq nth_take)+
  have pre: "take (nat h) xs' = take (nat h) xs" "take (nat h) vs' = take (nat h) vs"
    using arg_cong [OF r(4), of "take (nat h)"] arg_cong [OF r(5), of "take (nat h)"] unfolding nh by simp_all
  have "store_at xs h (xid_of f) = Inr ?xs" "store_at vs h True = Inr ?vs"
    using hl step.prems by (simp_all add: store_at_def)
  then have "kax_fill (length (fulls f g)) h (xid_of f) xs vs = Inr (h + int (length (fulls f g)), xs', vs')"
    using r(1) by (simp add: fs xid_of_next add.assoc)
  moreover have "slots xs' h (map xid_of (fulls f g))" "slots vs' h (replicate (length (fulls f g)) True)"
    using r(2,3,6,7) nth hl step.prems by (simp_all add: load_at_def fs)
  ultimately show ?case using pre r(6,7) by simp
qed

lemma ring_sorted_append:
  assumes "ring_sorted ps" "normal_full f" "normal_full g" "f \<le> g" "g < f + 2 ^ 31"
    and "\<forall>x \<in> ring_fulls ps. x < f \<and> g < x + 2 ^ 31"
  shows "ring_sorted (ps @ map (\<lambda>x. (x, True)) (fulls f g))"
proof -
  let ?qs = "ps @ map (\<lambda>x. (x, True)) (fulls f g)"
  have set: "ring_fulls ?qs = ring_fulls ps \<union> set (fulls f g)" by (force simp: ring_fulls_def)
  have mid: "near x y" if "x \<in> ring_fulls ?qs" "y \<in> ring_fulls ?qs" for x y
    using that assms(1,5,6) unfolding set by (auto simp: fulls_set ring_sorted_def near_def dest: spec)
  have "map fst ?qs = map fst ps @ fulls f g" by (simp add: comp_def)
  moreover have "sorted_wrt (<) (map fst ps @ fulls f g)"
    using assms(1,6) fulls_sorted [of f g] by (force simp: sorted_wrt_append ring_sorted_def ring_fulls_def fulls_set)
  ultimately show ?thesis
    using mid assms(1) unfolding ring_sorted_def set by (auto simp: fulls_set)
qed

definition append_range :: "nat \<Rightarrow> nat \<Rightarrow> startup \<Rightarrow> unit res \<times> startup" where
  "append_range f g s =
     tryS (kax_fill (length (fulls f g)) (headKnownAssignedXids s) (xid_of f) (knownAssignedXids s) (knownAssignedXidsValid s)) s
       (\<lambda>(h, xs, vs). (Inr (), s \<lparr> knownAssignedXids := xs, knownAssignedXidsValid := vs,
          numKnownAssignedXids := numKnownAssignedXids s + int (length (fulls f g)), headKnownAssignedXids := h \<rparr>))"

lemma fill_ok:
  assumes "kax_inv ps s" "normal_full f" "normal_full g" "f \<le> g" "g < f + 2 ^ 31"
    and "\<forall>x \<in> ring_fulls ps. x < f \<and> g < x + 2 ^ 31"
    and "headKnownAssignedXids s + int (length (fulls f g)) \<le> maxKnownAssignedXids s"
  obtains s' where "append_range f g s = (Inr (), s')"
    "kax_inv (ps @ map (\<lambda>x. (x, True)) (fulls f g)) s'" "erase_st s' = erase_st s"
proof -
  have core: "kax_core ps s" using assms(1) by (simp add: kax_inv_def)
  let ?t = "tailKnownAssignedXids s" and ?h = "headKnownAssignedXids s"
  have c: "?h = ?t + int (length ps)" "length (knownAssignedXidsValid s) = length (knownAssignedXids s)"
    "maxKnownAssignedXids s = int (length (knownAssignedXids s))" "0 \<le> ?t"
    "slots (knownAssignedXids s) ?t (map (xid_of \<circ> fst) ps)" "slots (knownAssignedXidsValid s) ?t (map snd ps)"
    using core kax_bounds(1) [OF core] by (auto simp: kax_core_def)
  obtain xs' vs' where r:
    "kax_fill (length (fulls f g)) ?h (xid_of f) (knownAssignedXids s) (knownAssignedXidsValid s)
       = Inr (?h + int (length (fulls f g)), xs', vs')"
    "slots xs' ?h (map xid_of (fulls f g))" "slots vs' ?h (replicate (length (fulls f g)) True)"
    "take (nat ?h) xs' = take (nat ?h) (knownAssignedXids s)" "take (nat ?h) vs' = take (nat ?h) (knownAssignedXidsValid s)"
    "length xs' = length (knownAssignedXids s)" "length vs' = length (knownAssignedXidsValid s)"
    using kax_fill_ok [OF assms(2,3,4), of ?h "knownAssignedXids s" "knownAssignedXidsValid s"] c assms(7) by auto
  let ?qs = "ps @ map (\<lambda>x. (x, True)) (fulls f g)"
  let ?s = "s \<lparr> knownAssignedXids := xs', knownAssignedXidsValid := vs',
      numKnownAssignedXids := numKnownAssignedXids s + int (length (fulls f g)),
      headKnownAssignedXids := ?h + int (length (fulls f g)) \<rparr>"
  have old: "slots xs' ?t (map (xid_of \<circ> fst) ps)" "slots vs' ?t (map snd ps)"
    using slots_prefix [OF c(5) r(4)] slots_prefix [OF c(6) r(5)] r(6,7) c(1,4) by simp_all
  have "map (xid_of \<circ> fst) ?qs = map (xid_of \<circ> fst) ps @ map xid_of (fulls f g)"
    "map snd ?qs = map snd ps @ replicate (length (fulls f g)) True"
    by (simp_all add: comp_def map_replicate_const)
  then have "slots xs' ?t (map (xid_of \<circ> fst) ?qs)" "slots vs' ?t (map snd ?qs)"
    using old r(2,3) c(1) by (simp_all only: slots_append length_map)
  moreover have "ring_sorted ?qs"
    using ring_sorted_append [OF _ assms(2-6)] core by (simp add: kax_core_def)
  moreover have "live (map (\<lambda>x. (x, True)) (fulls f g)) = fulls f g" by (simp add: live_def comp_def)
  ultimately have "kax_core ?qs ?s" using core r(6,7) by (auto simp: kax_core_def)
  moreover have "fulls f g \<noteq> []" using assms(2-4) fulls_set [of f g] by (metis (mono_tags, lifting) empty_set emptyE mem_Collect_eq order_refl)
  ultimately have "kax_inv ?qs ?s" using assms(1) by (cases "ps = []") (auto simp: kax_inv_def hd_map)
  then show thesis by (rule that [rotated]) (simp_all add: append_range_def r(1) erase_st_def erase_def)
qed

definition ring_last_before :: "ring \<Rightarrow> nat \<Rightarrow> bool" where
  "ring_last_before ps f \<longleftrightarrow> (\<forall>x \<in> ring_fulls ps. x < f)"

lemma Add_ok:
  assumes inv: "kax_inv ps s" and fg: "normal_full f" "normal_full g" "f \<le> g" "g + 1 < f + 2 ^ 31"
    and win: "\<forall>x \<in> ring_fulls ps. near x f \<and> g < x + 2 ^ 31"
    and small: "maxKnownAssignedXids s + int (g - f) + 1 < 2 ^ 31"
  shows "case KnownAssignedXidsAdd env (xid_of f) (xid_of g) s of (r, s') \<Rightarrow>
      \<exists>ps'. kax_inv ps' s' \<and> erase_st s' = erase_st s \<and> ring_fulls ps' \<subseteq> ring_fulls ps \<union> set (fulls f g) \<and>
      (if \<not> ring_last_before ps f
       then r = Inl (ElogError ''out-of-order XID insertion in KnownAssignedXids'') \<and> s' = s \<and> ps' = ps
       else if maxKnownAssignedXids s < int (length (live ps) + length (fulls f g))
       then r = Inl (ElogError ''too many KnownAssignedXids'') \<and> live ps' = live ps
       else r = Inr () \<and> live ps' = live ps @ fulls f g)"
proof -
  have core: "kax_core ps s" using inv by (simp add: kax_inv_def)
  let ?t = "tailKnownAssignedXids s" and ?h = "headKnownAssignedXids s" and ?m = "maxKnownAssignedXids s"
  let ?n = "int (length (fulls f g))"
  have c: "?h = ?t + int (length ps)" "0 \<le> ?t" "?h \<le> ?m" "0 < ?m" "ring_sorted ps"
    using core kax_bounds [OF core] by (auto simp: kax_core_def)
  have "?t < ?m"
  proof (cases "ps = []")
    case False
    then have "0 < int (length ps)" by simp
    then show ?thesis using c(1,3) by linarith
  qed (use inv c(4) in \<open>auto simp: kax_inv_def\<close>)
  have h0: "0 \<le> ?h" using c(1,2) by simp
  have "length (fulls f g) \<le> Suc g - f" by (rule fulls_length)
  then have nov: "?h + ?n < 2 ^ 31" using small c(3) fg(3) by linarith
  have le: "TransactionIdPrecedesOrEquals (xid_of f) (xid_of g)"
    using fg by (subst xid_of_order(2)) (auto simp: near_def)
  have chk: "(if ?h > ?t then bindR (load_at (knownAssignedXids s) (?h - 1)) (\<lambda>last.
      Inr (TransactionIdFollowsOrEquals last (xid_of f))) else Inr False) = Inr (\<not> ring_last_before ps f)"
  proof (cases "ps = []")
    case True
    then show ?thesis using c(1) by (simp add: ring_last_before_def ring_fulls_def)
  next
    case False
    let ?x = "fst (last ps)"
    have x: "?x \<in> ring_fulls ps" using False by (simp add: ring_fulls_def)
    have lt: "length ps - 1 < length ps" using False by (simp add: Suc_le_eq)
    have "y \<le> ?x" if y: "y \<in> ring_fulls ps" for y
    proof -
      from y obtain i where "i < length ps" "y = fst (ps ! i)"
        unfolding ring_fulls_def by (metis imageE in_set_conv_nth)
      then show ?thesis
        using ring_nth_less [OF c(5), of i "length ps - 1"] lt False
        by (cases "i = length ps - 1") (auto simp: last_conv_nth intro!: less_imp_le)
    qed
    then have bad: "\<not> ring_last_before ps f \<longleftrightarrow> f \<le> ?x"
      using x unfolding ring_last_before_def by (meson leD le_less_trans not_le)
    have "load_at (knownAssignedXids s) (?h - 1) = Inr (xid_of ?x)"
      using slots_load [of "knownAssignedXids s" ?t "map (xid_of \<circ> fst) ps" "length ps - 1"] core lt False c(1)
      by (simp add: kax_core_def last_conv_nth of_nat_diff Suc_le_eq add_diff_eq)
    moreover have "TransactionIdFollowsOrEquals (xid_of ?x) (xid_of f) \<longleftrightarrow> f \<le> ?x"
      using win x c(5) fg(1) by (intro xid_of_order(4)) (auto simp: ring_sorted_def)
    ultimately show ?thesis using bad c(1) False by simp
  qed
  have run: "KnownAssignedXidsAdd env (xid_of f) (xid_of g) s =
     (if \<not> ring_last_before ps f then (Inl (ElogError ''out-of-order XID insertion in KnownAssignedXids''), s)
      else if ?h + ?n > ?m then
        bindS (KnownAssignedXidsCompress env NoSpace s) (\<lambda>_ s.
          if headKnownAssignedXids s + ?n > ?m then (Inl (ElogError ''too many KnownAssignedXids''), s)
          else append_range f g s)
      else append_range f g s)"
    using le c(2-4) h0 \<open>?t < ?m\<close> nov
    unfolding KnownAssignedXidsAdd_def Let_def range_count [OF fg] chk append_range_def nat_int
    by (simp add: not_le [symmetric])
  show ?thesis
  proof (cases "ring_last_before ps f")
    case False
    then show ?thesis using inv by (auto simp: run)
  next
    case True
    have w: "\<forall>x \<in> ring_fulls ps. x < f \<and> g < x + 2 ^ 31" using True win by (auto simp: ring_last_before_def)
    have gf: "g < f + 2 ^ 31" using fg(4) by simp
    have ll: "length (live ps) \<le> length ps" by (simp add: live_def)
    show ?thesis
    proof (cases "?h + ?n > ?m")
      case roomy: False
      then have "?h + ?n \<le> ?m" by simp
      obtain s' where
        "append_range f g s = (Inr (), s')" "kax_inv (ps @ map (\<lambda>x. (x, True)) (fulls f g)) s'" "erase_st s' = erase_st s"
        by (rule fill_ok [OF inv fg(1-3) gf w \<open>?h + ?n \<le> ?m\<close>])
      moreover have "\<not> ?m < int (length (live ps) + length (fulls f g))" using roomy c(1,2) ll by simp
      moreover have "live (map (\<lambda>x. (x, True)) (fulls f g)) = fulls f g" by (simp add: live_def comp_def)
      ultimately show ?thesis
        using True roomy by (auto simp: run intro!: exI [of _ "ps @ map (\<lambda>x. (x, True)) (fulls f g)"]) (auto simp: ring_fulls_def)
    next
      case tight: True
      obtain ps' u where u: "KnownAssignedXidsCompress env NoSpace s = (Inr (), u)" "kax_inv ps' u" "live ps' = live ps"
        "ring_fulls ps' \<subseteq> ring_fulls ps" "erase_st u = erase_st s" "NoSpace = NoSpace \<longrightarrow> ps' = packed ps \<and> tailKnownAssignedXids u = 0"
        by (rule Compress_ok [OF inv, of env NoSpace])
      have hu: "headKnownAssignedXids u = int (length (live ps))" "maxKnownAssignedXids u = ?m"
        using u(2,6) erase_st_fields(6) [OF u(5)] by (auto simp: kax_inv_def kax_core_def)
      show ?thesis
      proof (cases "?m < int (length (live ps) + length (fulls f g))")
        case full: True
        then show ?thesis using True tight u(1-5) hu by (auto simp: run intro!: exI [of _ ps'])
      next
        case False
        then have "headKnownAssignedXids u + ?n \<le> maxKnownAssignedXids u" using hu by simp
        moreover have "\<forall>x \<in> ring_fulls ps'. x < f \<and> g < x + 2 ^ 31" using w u(4) by blast
        ultimately obtain s' where s': "append_range f g u = (Inr (), s')"
          "kax_inv (ps' @ map (\<lambda>x. (x, True)) (fulls f g)) s'" "erase_st s' = erase_st u"
          using fill_ok [OF u(2) fg(1-3) gf, of thesis] by blast
        have lv: "live (map (\<lambda>x. (x, True)) (fulls f g)) = fulls f g" by (simp add: live_def comp_def)
        have rf: "ring_fulls (ps' @ map (\<lambda>x. (x, True)) (fulls f g)) \<subseteq> ring_fulls ps \<union> set (fulls f g)"
          using u(4) by (auto simp: ring_fulls_def)
        show ?thesis
          using True tight False u(1,3,5) hu s' lv rf
          by (auto simp: run intro!: exI [of _ "ps' @ map (\<lambda>x. (x, True)) (fulls f g)"])
      qed
    qed
  qed
qed

subsection \<open>Pruning\<close>

definition prune_ring :: "nat \<Rightarrow> (nat \<Rightarrow> bool) \<Rightarrow> ring \<Rightarrow> ring" where
  "prune_ring r prep ps = map (\<lambda>p. (fst p, snd p \<and> (r \<le> fst p \<or> prep (fst p)))) ps"

lemma prune_ring_simps [simp]:
  "map fst (prune_ring r prep ps) = map fst ps" "length (prune_ring r prep ps) = length ps"
  "map (xid_of \<circ> fst) (prune_ring r prep ps) = map (xid_of \<circ> fst) ps"
  "live (prune_ring r prep ps) = filter (\<lambda>x. r \<le> x \<or> prep x) (live ps)"
proof -
  show "live (prune_ring r prep ps) = filter (\<lambda>x. r \<le> x \<or> prep x) (live ps)"
    by (induction ps) (auto simp: prune_ring_def)
qed (auto simp: prune_ring_def)

lemma ring_fulls_map: "ring_fulls ps = set (map fst ps)"
  by (simp add: ring_fulls_def)

lemma ring_fulls_prune [simp]: "ring_fulls (prune_ring r prep ps) = ring_fulls ps"
  unfolding ring_fulls_map by (simp only: prune_ring_simps)

lemma ring_sorted_prune [simp]: "ring_sorted (prune_ring r prep ps) = ring_sorted ps"
  by (simp add: ring_sorted_def)

lemma ring_fulls_trim: "ring_fulls (trim ps) \<subseteq> ring_fulls ps"
  unfolding ring_fulls_def trim_def by (auto dest: set_dropWhileD)

lemma prune_ring_id:
  assumes "\<forall>x \<in> ring_fulls ps. r \<le> x"
  shows "prune_ring r prep ps = ps"
  using assms by (auto simp: prune_ring_def ring_fulls_def intro!: map_idI)

lemma kax_prune_ok:
  assumes "slots xs t (map (xid_of \<circ> fst) ps)" "slots vs t (map snd ps)" "ring_sorted ps"
    and "normal_full r" "\<forall>x \<in> ring_fulls ps. near x r" "\<forall>x \<in> set (live ps). k_is_prepared env (xid_of x) = Inr (prep x)"
  shows "\<exists>vs'. kax_prune env (xid_of r) xs [t..t + int (length ps) - 1] c vs
         = (Inr (c + int (length (live ps)) - int (length (live (prune_ring r prep ps)))), vs')
      \<and> slots vs' t (map snd (prune_ring r prep ps)) \<and> take (nat t) vs' = take (nat t) vs \<and> length vs' = length vs"
  using assms
proof (induction ps arbitrary: t c vs)
  case Nil
  then show ?case by (auto simp: prune_ring_def)
next
  case (Cons p ps)
  note rng = upto_slots [of t "length ps"]
  obtain x v where p: "p = (x, v)" by (cases p)
  from Cons.prems have ld: "load_at vs t = Inr v" "load_at xs t = Inr (xid_of x)"
    and sl: "slots xs (t + 1) (map (xid_of \<circ> fst) ps)" "slots vs (t + 1) (map snd ps)"
    by (simp_all add: comp_def p)
  have srt: "ring_sorted ps" "\<forall>y \<in> ring_fulls ps. x < y" and nx: "normal_full x" "near x r"
    using Cons.prems(3,5) by (auto simp: ring_sorted_def ring_fulls_def p)
  have rest: "\<forall>x \<in> ring_fulls ps. near x r" "\<forall>x \<in> set (live ps). k_is_prepared env (xid_of x) = Inr (prep x)"
    using Cons.prems(5,6) by (auto simp: ring_fulls_def p)
  have t0: "0 \<le> t" "t < int (length vs)" "nat (t + 1) = Suc (nat t)" using ld(1) by (auto simp: load_at_Inr)
  have fol: "TransactionIdFollowsOrEquals (xid_of x) (xid_of r) \<longleftrightarrow> r \<le> x"
    by (rule xid_of_order(4)) (use nx Cons.prems(4) in auto)
  have ext: "slots vs' t (w # map snd (prune_ring r prep ps)) \<and> take (nat t) vs' = take (nat t) vs \<and> length vs' = length vs"
    if "slots vs' (t + 1) (map snd (prune_ring r prep ps))" "take (nat (t + 1)) vs' = take (nat (t + 1)) (vs[nat t := w])"
      "length vs' = length vs" for vs' w
  proof -
    have "vs' ! nat t = w" using that(2) t0 by (metis lessI nat_less_iff nth_list_update_eq nth_take)
    moreover have "take (nat t) vs' = take (nat t) vs"
      using arg_cong [OF that(2), of "take (nat t)"] t0(3) by simp
    ultimately show ?thesis using that(1,3) t0 by (simp add: load_at_def)
  qed
  show ?case
  proof (cases "v \<and> r \<le> x")
    case True
    then have "prune_ring r prep (p # ps) = p # ps"
      using srt(2) by (intro prune_ring_id) (auto simp: ring_fulls_def p)
    with True ld fol show ?thesis using Cons.prems(2) by (simp add: rng p)
  next
    case stay: False
    define w where "w = (v \<and> prep x)"
    define c' where "c' = (if v \<and> \<not> prep x then c + 1 else c)"
    have upd: "vs[nat t := w] = (if v \<and> \<not> prep x then vs[nat t := False] else vs)"
      using ld(1) t0 list_update_id [of vs "nat t"] by (auto simp: w_def load_at_Inr)
    have sl': "slots (vs[nat t := w]) (t + 1) (map snd ps)" using sl(2) t0 by (intro slots_update_outside) simp_all
    obtain vs' where r: "kax_prune env (xid_of r) xs [t + 1..t + 1 + int (length ps) - 1] c' (vs[nat t := w])
         = (Inr (c' + int (length (live ps)) - int (length (live (prune_ring r prep ps)))), vs')"
      "slots vs' (t + 1) (map snd (prune_ring r prep ps))"
      "take (nat (t + 1)) vs' = take (nat (t + 1)) (vs[nat t := w])" "length vs' = length (vs[nat t := w])"
      using Cons.IH [OF sl(1) sl' srt(1) Cons.prems(4) rest, of c'] by blast
    have "kax_prune env (xid_of r) xs [t..t + int (length (p # ps)) - 1] c vs
        = kax_prune env (xid_of r) xs [t + 1..t + 1 + int (length ps) - 1] c' (vs[nat t := w])"
      using stay ld fol Cons.prems(6) by (auto simp: rng p c'_def upd)
    moreover have "c' + int (length (live ps)) - int (length (live (prune_ring r prep ps)))
        = c + int (length (live (p # ps))) - int (length (live (prune_ring r prep (p # ps))))"
      using stay by (auto simp: c'_def p)
    moreover have "map snd (prune_ring r prep (p # ps)) = w # map snd (prune_ring r prep ps)"
      using stay by (auto simp: prune_ring_def p w_def)
    ultimately show ?thesis using r ext [of vs' w] by simp
  qed
qed

lemma RemovePreceding_ok:
  assumes inv: "kax_inv ps s" and "normal_full r" "\<forall>x \<in> ring_fulls ps. near x r"
    and "\<forall>x \<in> set (live ps). k_is_prepared env (xid_of x) = Inr (prep x)"
  obtains ps' s' where "KnownAssignedXidsRemovePreceding env (xid_of r) s = (Inr (), s')" "kax_inv ps' s'"
    "live ps' = filter (\<lambda>x. r \<le> x \<or> prep x) (live ps)" "ring_fulls ps' \<subseteq> ring_fulls ps" "erase_st s' = erase_st s"
proof -
  have core: "kax_core ps s" using inv by (simp add: kax_inv_def)
  let ?t = "tailKnownAssignedXids s" and ?h = "headKnownAssignedXids s"
  let ?qs = "prune_ring r prep ps"
  have c: "?h = ?t + int (length ps)" "slots (knownAssignedXids s) ?t (map (xid_of \<circ> fst) ps)"
    "slots (knownAssignedXidsValid s) ?t (map snd ps)" "ring_sorted ps" "numKnownAssignedXids s = int (length (live ps))"
    using core by (auto simp: kax_core_def)
  obtain vs' where p: "kax_prune env (xid_of r) (knownAssignedXids s) [?t..?h - 1] 0 (knownAssignedXidsValid s)
         = (Inr (int (length (live ps)) - int (length (live ?qs))), vs')"
    "slots vs' ?t (map snd ?qs)" "length vs' = length (knownAssignedXidsValid s)"
    using kax_prune_ok [OF c(2,3,4) assms(2,3,4), of 0] c(1) by auto
  define u where "u = s \<lparr> knownAssignedXidsValid := vs', numKnownAssignedXids := int (length (live ?qs)) \<rparr>"
  have cu: "kax_core ?qs u" using core p(2,3) by (auto simp: kax_core_def u_def)
  have th: "tailKnownAssignedXids u = ?t" "headKnownAssignedXids u = ?h" by (simp_all add: u_def)
  let ?j = "?t + int (length ?qs - length (trim ?qs))"
  have iu: "kax_inv (trim ?qs) (set_tail ?j ?h u)" using set_tail_inv [OF cu] th by simp
  obtain ps' s' where s': "KnownAssignedXidsCompress env Prune (set_tail ?j ?h u) = (Inr (), s')" "kax_inv ps' s'"
    "live ps' = live (trim ?qs)" "ring_fulls ps' \<subseteq> ring_fulls (trim ?qs)" "erase_st s' = erase_st (set_tail ?j ?h u)"
    by (rule Compress_ok [OF iu])
  have nv: "kax_next_valid vs' ?t ?h = Inr ?j"
    using kax_next_valid_trim [of vs' ?t ?qs] p(2) c(1) by simp
  have valid: "TransactionIdIsValid (xid_of r)" using assms(2) by simp
  have "KnownAssignedXidsRemovePreceding env (xid_of r) s = (Inr (), s')"
    using valid p(1) nv s'(1) by (simp add: KnownAssignedXidsRemovePreceding_def Let_def u_def c(5))
  moreover have "ring_fulls (trim ?qs) \<subseteq> ring_fulls ps" using ring_fulls_trim [of ?qs] by simp
  moreover have "erase_st (set_tail ?j ?h u) = erase_st s" by (simp add: set_tail_def u_def erase_st_def erase_def)
  ultimately show thesis using s' that by simp
qed

subsection \<open>Reading\<close>

lemma kax_get_ok:
  assumes "slots xs t (map (xid_of \<circ> fst) ps)" "slots vs t (map snd ps)" "ring_sorted ps"
    and "normal_full m" "\<forall>x \<in> ring_fulls ps. near x m" "normal_full k" "\<forall>x \<in> ring_fulls ps. near x k"
  shows "kax_get xs vs (xid_of m) [t..t + int (length ps) - 1] out (xid_of k)
       = Inr (out @ map xid_of (takeWhile (\<lambda>x. x < m) (live ps)),
              xid_of (if out = [] \<and> live ps \<noteq> [] then min (hd (live ps)) k else k))"
  using assms
proof (induction ps arbitrary: t out k)
  case Nil
  then show ?case by simp
next
  case (Cons p ps)
  note rng = upto_slots [of t "length ps"]
  obtain x v where p: "p = (x, v)" by (cases p)
  from Cons.prems have ld: "load_at vs t = Inr v" "load_at xs t = Inr (xid_of x)"
    and sl: "slots xs (t + 1) (map (xid_of \<circ> fst) ps)" "slots vs (t + 1) (map snd ps)"
    by (simp_all add: comp_def p)
  have srt: "ring_sorted ps" "normal_full x" "near x m" "near x k" "\<forall>y \<in> ring_fulls ps. near y x"
    and rest: "\<forall>x \<in> ring_fulls ps. near x m" "\<forall>x \<in> ring_fulls ps. near x k"
    using Cons.prems(3,5,7) by (auto simp: ring_sorted_def ring_fulls_def p)
  have cmp: "TransactionIdPrecedes (xid_of x) (xid_of k) \<longleftrightarrow> x < k"
    "TransactionIdFollowsOrEquals (xid_of x) (xid_of m) \<longleftrightarrow> m \<le> x"
    using srt Cons.prems(4,6) by (simp_all add: xid_of_order)
  define k' where "k' = (if out = [] then min x k else k)"
  have k': "normal_full k'" "\<forall>y \<in> ring_fulls ps. near y k'"
    using srt(2,5) Cons.prems(6) rest(2) by (auto simp: k'_def min_def)
  have xm: "(if out = [] \<and> TransactionIdPrecedes (xid_of x) (xid_of k) then xid_of x else xid_of k) = xid_of k'"
    by (auto simp: cmp k'_def min_def)
  have val: "TransactionIdIsValid (xid_of m)" using Cons.prems(4) by simp
  show ?case
  proof (cases v)
    case False
    with Cons.IH [OF sl srt(1) Cons.prems(4) rest(1) Cons.prems(6) rest(2), of out] ld show ?thesis by (simp add: rng p)
  next
    case True
    show ?thesis
    proof (cases "m \<le> x")
      case le: True
      with True ld cmp val xm show ?thesis by (simp add: rng p Let_def) (simp add: k'_def)
    next
      case False
      have "kax_get xs vs (xid_of m) [t..t + int (length (p # ps)) - 1] out (xid_of k)
          = kax_get xs vs (xid_of m) [t + 1..t + 1 + int (length ps) - 1] (out @ [xid_of x]) (xid_of k')"
        using True False ld cmp xm by (simp add: rng p Let_def)
      also have "\<dots> = Inr ((out @ [xid_of x]) @ map xid_of (takeWhile (\<lambda>x. x < m) (live ps)), xid_of k')"
        using Cons.IH [OF sl srt(1) Cons.prems(4) rest(1) k', of "out @ [xid_of x]"] by simp
      finally show ?thesis using True False by (simp add: p k'_def)
    qed
  qed
qed

lemma GetAndSetXmin_ok:
  assumes "kax_inv ps s" "normal_full m" "\<forall>x \<in> ring_fulls ps. near x m" "normal_full k" "\<forall>x \<in> ring_fulls ps. near x k"
  shows "KnownAssignedXidsGetAndSetXmin (xid_of k) (xid_of m) s
       = Inr (map xid_of (takeWhile (\<lambda>x. x < m) (live ps)), xid_of (if live ps \<noteq> [] then min (hd (live ps)) k else k))"
  using kax_get_ok [of "knownAssignedXids s" "tailKnownAssignedXids s" ps "knownAssignedXidsValid s" m k "[]"] assms
  by (simp add: KnownAssignedXidsGetAndSetXmin_def kax_inv_def kax_core_def)

lemma GetOldestXmin_ok:
  assumes "kax_inv ps s"
  shows "KnownAssignedXidsGetOldestXmin s = Inr (if live ps = [] then InvalidTransactionId else xid_of (hd (live ps)))"
proof (cases ps)
  case Nil
  with assms show ?thesis
    by (simp add: KnownAssignedXidsGetOldestXmin_def kax_inv_def kax_core_def kax_next_valid.simps)
next
  case (Cons p qs)
  with assms have "snd p" "load_at (knownAssignedXidsValid s) (tailKnownAssignedXids s) = Inr True"
    "load_at (knownAssignedXids s) (tailKnownAssignedXids s) = Inr (xid_of (fst p))"
    "tailKnownAssignedXids s < headKnownAssignedXids s"
    by (auto simp: kax_inv_def kax_core_def)
  with Cons show ?thesis
    by (simp add: KnownAssignedXidsGetOldestXmin_def kax_next_valid.simps [of _ "tailKnownAssignedXids s"])
qed

end
