(* ===== verification/KnownAssignedOps.thy ===== *)
theory KnownAssignedOps
  imports KnownAssignedSpec "HOL-Library.Multiset"
begin

section \<open>A standby follows its primary\<close>

text \<open>
  The operations by which replay keeps the known assigned ids: each acts on the list of running transactions as specified, keeps the
  invariant \<open>kax_inv\<close> and moves the counters. At the end, the one place where the order of ids is not the circular one.
\<close>

subsection \<open>The counters\<close>

definition prev_full :: "nat \<Rightarrow> nat" where
  "prev_full f = (let r = (f - 1) mod 2 ^ 32 in if r < 3 then f - 1 - (r + 1) else f - 1)"

lemma Retreat_step:
  assumes "0 < f"
  shows "TransactionIdRetreat_loop (xid_of f)
       = (if (f - 1) mod 2 ^ 32 < 3 then TransactionIdRetreat_loop (xid_of (f - 1)) else xid_of (f - 1))"
proof -
  have "xid_of f - 1 = xid_of (f - 1)" using assms by (simp add: xid_of_def of_nat_diff)
  moreover have "FirstNormalTransactionId \<le> xid_of (f - 1) \<longleftrightarrow> \<not> (f - 1) mod 2 ^ 32 < 3"
    by (simp only: xid_of_special linorder_not_less [symmetric])
  ultimately show ?thesis by (subst TransactionIdRetreat_loop.simps) (simp add: Let_def)
qed

lemma prev_full_special:
  assumes "3 < f" "(f - 1) mod 2 ^ 32 < 3"
  obtains b r where "f = b + 2 + r" "r < 3" "prev_full f = b" "\<not> b mod 2 ^ 32 < 3" "\<forall>k < 3. (b + 1 + k) mod 2 ^ 32 = k"
proof -
  define r where "r = (f - 1) mod 2 ^ 32"
  define q where "q = (f - 1) div 2 ^ 32"
  have f: "f - 1 = q * 2 ^ 32 + r" "r < 3" using assms(2) by (simp_all add: q_def r_def)
  have "q \<noteq> 0"
  proof
    assume "q = 0"
    then show False using f assms(1) by simp
  qed
  then obtain b where b: "q * 2 ^ 32 = Suc b" by (metis not0_implies_Suc mult_eq_0_iff power_not_zero zero_neq_numeral)
  have fb: "f = b + 2 + r" using f(1) b assms(1) by simp
  have s: "(b + 1) mod 2 ^ 32 = 0" using b by (metis Suc_eq_plus1 mod_mult_self2_is_0)
  then have m: "(b + 1 + k) mod 2 ^ 32 = k" if "k < 3" for k
    using that mod_add_left_eq [of "b + 1" "2 ^ 32" k] by simp
  have "\<not> b mod 2 ^ 32 < 3"
  proof
    assume a: "b mod 2 ^ 32 < 3"
    then have "(b + 1) mod 2 ^ 32 = b mod 2 ^ 32 + 1" by (simp add: mod_Suc)
    with s show False by simp
  qed
  moreover have "prev_full f = f - 1 - (r + 1)" using assms(2) unfolding prev_full_def Let_def r_def by (simp only: if_True)
  then have "prev_full f = b" using fb by simp
  ultimately show thesis using that fb f(2) m by blast
qed

lemma prev_full_props:
  assumes "3 < r"
  shows "prev_full r < r" "r \<le> prev_full r + 4" "normal_full (prev_full r)"
proof -
  have "prev_full r < r \<and> r \<le> prev_full r + 4 \<and> normal_full (prev_full r)"
  proof (cases "(r - 1) mod 2 ^ 32 < 3")
    case True
    from assms True show ?thesis by (rule prev_full_special) (simp add: normal_full_def)
  next
    case False
    then show ?thesis using assms by (simp add: prev_full_def Let_def normal_full_def)
  qed
  then show "prev_full r < r" "r \<le> prev_full r + 4" "normal_full (prev_full r)" by auto
qed

lemma Retreat_nat:
  assumes "3 < f"
  shows "TransactionIdRetreat_loop (xid_of f) = xid_of (prev_full f)"
proof (cases "(f - 1) mod 2 ^ 32 < 3")
  case False
  with assms show ?thesis by (simp add: Retreat_step prev_full_def)
next
  case True
  obtain b r where b: "f = b + 2 + r" "r < 3" "prev_full f = b" "\<not> b mod 2 ^ 32 < 3" "\<forall>k < 3. (b + 1 + k) mod 2 ^ 32 = k"
    using assms True by (rule prev_full_special)
  have r1: "TransactionIdRetreat_loop (xid_of (b + 1)) = xid_of b" using b(4) by (simp add: Retreat_step)
  have rk: "TransactionIdRetreat_loop (xid_of (b + 2 + k)) = TransactionIdRetreat_loop (xid_of (b + 1 + k))" if "k < 3" for k
    using b(5) that by (subst Retreat_step) simp_all
  show ?thesis
    unfolding b(3) using b(2) rk [of 0] rk [of 1] rk [of 2] r1 unfolding b(1) by (auto simp: less_Suc_eq numeral_eq_Suc)
qed

lemma Maintain_recovery:
  assumes "latestCompletedXid s = word_of_nat c" "nextXid s = word_of_nat n"
    and "normal_full c" "normal_full m" "normal_full n" "near c m" "near m n"
  shows "MaintainLatestCompletedXidRecovery (xid_of m) s = (Inr (), s \<lparr> latestCompletedXid := word_of_nat (max c m) \<rparr>)"
proof -
  have lc: "latest_completed_xid s = fxid_of c" and nx: "nextFullXid s = fxid_of n"
    using assms(1,2) by (simp_all add: latest_completed_xid_def nextFullXid_def fxid_of_def)
  have v: "fxid_is_valid (fxid_of c)" "fxid_is_valid (fxid_of n)" "TransactionIdIsValid (xid_of m)"
    using assms(3-5) xid_of_valid by (simp_all add: fxid_is_valid_def InvalidTransactionId_def)
  have "TransactionIdPrecedes (xid_of c) (xid_of m) \<longleftrightarrow> c < m" using assms by (intro xid_of_order(1)) auto
  moreover have "s \<lparr> latestCompletedXid := word_of_nat c \<rparr> = s" using assms(1) by (cases s) simp
  ultimately show ?thesis
    using v assms(7) by (auto simp: MaintainLatestCompletedXidRecovery_def Let_def lc nx fxid_of_relative fxid_value_of max_def)
qed

lemma extend_after_ok:
  assumes "normal_full l" "normal_full f" "l \<le> f" "f < l + 2 ^ 31"
    and "\<forall>x. normal_full x \<longrightarrow> l < x \<longrightarrow> x \<le> f \<longrightarrow> ext (xid_of x) = Inr ()"
  shows "extend_after ext (xid_of l) (xid_of f) = Inr (xid_of f)"
  using assms(1,2,3,4,5)
proof (induction l rule: fulls_induct)
  case base
  then show ?case by (subst extend_after.simps) simp
next
  case (step l)
  have "TransactionIdPrecedes (xid_of l) (xid_of f)"
    using step assms(2) by (subst xid_of_order(1)) (auto simp: near_def)
  moreover have "ext (xid_of (next_full l)) = Inr ()"
    using step.prems step.hyps next_full_props [of l] by blast
  moreover have "extend_after ext (xid_of (next_full l)) (xid_of f) = Inr (xid_of f)"
    using step.prems step.hyps next_full_props [of l] by (intro step.IH) auto
  ultimately show ?case by (subst extend_after.simps) (simp add: xid_of_next Let_def)
qed

subsection \<open>Transactions that start\<close>

text \<open>
  C24: replaying a record of transaction \<open>f\<close> makes every transaction after the last one observed, up to \<open>f\<close>, known as running: they are
  appended in order, the invariant holds, \<open>f\<close> is the last one observed and the counter of the next id is past it. The hypotheses: the
  ids are within half the circle, the ring has room, and the calls into \<^verbatim>\<open>pg_subtrans\<close> succeed.
\<close>

theorem RecordKnownAssignedTransactionIds_tracks:
  assumes inv: "kax_inv ps s" and st: "standby_state s = STANDBY_SNAPSHOT_PENDING \<or> standby_state s = STANDBY_SNAPSHOT_READY"
    and l: "LATEST_OBSERVED_XID s = xid_of l" "normal_full l" "normal_full f" "l < f" "f + 1 < l + 2 ^ 31"
    and win: "\<forall>x \<in> ring_fulls ps. x \<le> l \<and> f < x + 2 ^ 31"
    and room: "int (length (live ps) + length (fulls (next_full l) f)) \<le> maxKnownAssignedXids s"
    and small: "maxKnownAssignedXids s + int (f - l) + 1 < 2 ^ 31"
    and ext: "\<forall>x. normal_full x \<longrightarrow> l < x \<longrightarrow> x \<le> f \<longrightarrow> k_extend_subtrans env (xid_of x) = Inr ()"
    and next': "nextXid s = word_of_nat n" "normal_full n" "near f n" "n < 2 ^ 64 - 2 ^ 33" "v_startup_process (k_varsup env)"
  shows "\<exists>ps' s'. RecordKnownAssignedTransactionIds env (xid_of f) s = (Inr (), s') \<and> kax_inv ps' s'
       \<and> live ps' = live ps @ fulls (next_full l) f
       \<and> LATEST_OBSERVED_XID s' = xid_of f \<and> nextXid s' = word_of_nat (max n (next_full f))"
proof -
  let ?l = "next_full l"
  have nl: "l < ?l" "?l \<le> f" "normal_full ?l" using next_full_props [of l] next_full_least [OF l(4,3)] by auto
  have fol: "TransactionIdFollows (xid_of f) (xid_of l)"
    using l by (subst xid_of_order(3)) (auto simp: near_def)
  have valid: "TransactionIdIsValid (xid_of f)" "TransactionIdIsValid (xid_of l)" using l(2,3) by simp_all
  have ea: "extend_after (k_extend_subtrans env) (xid_of l) (xid_of f) = Inr (xid_of f)"
    using l ext by (intro extend_after_ok) auto
  have w: "\<forall>x \<in> ring_fulls ps. near x ?l \<and> f < x + 2 ^ 31" using win nl by (fastforce simp: near_def)
  obtain r u where a: "KnownAssignedXidsAdd env (xid_of ?l) (xid_of f) s = (r, u)" by (rule prod.exhaust)
  have before: "ring_last_before ps ?l" using win nl(1) by (auto simp: ring_last_before_def)
  have "\<exists>ps'. kax_inv ps' u \<and> erase_st u = erase_st s \<and> r = Inr () \<and> live ps' = live ps @ fulls ?l f"
    using Add_ok [OF inv nl(3) l(3) nl(2) _ w, of env] a small nl l(5) before room by auto
  then obtain ps' where u: "kax_inv ps' u" "erase_st u = erase_st s" "r = Inr ()" "live ps' = live ps @ fulls ?l f" by blast
  let ?u = "u \<lparr> LATEST_OBSERVED_XID := xid_of f \<rparr>"
  have nx: "nextXid ?u = word_of_nat n" using next'(1) erase_st_fields(1) [OF u(2)] by simp
  have adv: "AdvanceNextFullTransactionIdPastXid (k_varsup env) (xid_of f) ?u
      = (Inr (), ?u \<lparr> nextXid := word_of_nat (max n (next_full f)) \<rparr>)"
    using next' nx l(3) advance_max [of n f ?u "k_varsup env"] by blast
  have "RecordKnownAssignedTransactionIds env (xid_of f) s = (Inr (), ?u \<lparr> nextXid := word_of_nat (max n (next_full f)) \<rparr>)"
    using st valid fol ea a u(3) adv by (auto simp: RecordKnownAssignedTransactionIds_def Let_def l(1) xid_of_next)
  moreover have "kax_inv ps' (?u \<lparr> nextXid := word_of_nat (max n (next_full f)) \<rparr>)"
    by (rule kax_inv_cong [OF u(1)]) simp_all
  ultimately show ?thesis using u(4) by (intro exI [of _ ps'] exI conjI) (assumption | simp)+
qed

text \<open>A small ring for examples: 101 and 102 are running on the primary.\<close>

definition ex_startup :: startup where
  "ex_startup =
     (ProcArrayStruct.extend (initial_shmem 40) (startup.fields 0 0 (xid_of 102) 0 STANDBY_SNAPSHOT_READY))
     \<lparr> maxKnownAssignedXids := 4, numKnownAssignedXids := 2, tailKnownAssignedXids := 0, headKnownAssignedXids := 2,
       knownAssignedXids := [xid_of 101, xid_of 102, 0, 0], knownAssignedXidsValid := [True, True, False, False] \<rparr>"

definition ex_kax_env :: kax_env where
  "ex_kax_env =
     \<lparr> k_now = 0, k_now' = 1, k_is_prepared = \<lambda>_. Inr False, k_did_commit = \<lambda>_. Inr False, k_did_abort = \<lambda>_. Inr False,
       k_extend_subtrans = \<lambda>_. Inr (), k_set_parent = \<lambda>_ _. Inr (), k_release_old_locks = \<lambda>_. Inr (), k_varsup = quiet_env \<rparr>"

lemma ex_startup_inv: "kax_inv [(101, True), (102, True)] ex_startup"
  by (simp add: kax_inv_def kax_core_def ex_startup_def ring_sorted_def ring_fulls_def normal_full_def near_def load_at_def)

lemma ex_startup_simps [simp]:
  "standby_state ex_startup = STANDBY_SNAPSHOT_READY" "LATEST_OBSERVED_XID ex_startup = xid_of 102"
  "maxKnownAssignedXids ex_startup = 4" "nextXid ex_startup = 3" "latestCompletedXid ex_startup = 3"
  "lastOverflowedXid ex_startup = lastOverflowedXid (initial_shmem 40)"
  by (simp_all add: ex_startup_def initial_shmem_def ProcArrayShmemInit_def boot_image_def Let_def from_epoch_and_xid_def
      FirstNormalTransactionId_def TransamVariablesShared.defs PROC_HDR.defs ProcArrayStruct.defs startup.defs)

lemma ex_fulls: "ring_fulls [(101, True), (102, True)] = {101, 102}" "live [(101, True), (102, True)] = [101, 102]"
  by (auto simp: ring_fulls_def)

theorem RecordKnownAssignedTransactionIds_tracks_witness:
  "\<exists>ps' s'. RecordKnownAssignedTransactionIds ex_kax_env (xid_of 104) ex_startup = (Inr (), s') \<and> kax_inv ps' s'
     \<and> live ps' = [101, 102, 103, 104]"
proof -
  have fu: "fulls (next_full 102) 104 = [103, 104]" by (simp add: fulls_def next_full_def normal_full_def upt_rec)
  have "normal_full 102" "normal_full 104" "normal_full 3" "near 104 3" by (simp_all add: normal_full_def near_def)
  then have "\<exists>ps' s'. RecordKnownAssignedTransactionIds ex_kax_env (xid_of 104) ex_startup = (Inr (), s') \<and> kax_inv ps' s'
       \<and> live ps' = live [(101, True), (102, True)] @ fulls (next_full 102) 104
       \<and> LATEST_OBSERVED_XID s' = xid_of 104 \<and> nextXid s' = word_of_nat (max 3 (next_full 104))"
    using ex_startup_inv
    by (intro RecordKnownAssignedTransactionIds_tracks) (simp_all add: ex_fulls fu ex_kax_env_def)
  then show ?thesis using fu ex_fulls(2) by auto
qed

subsection \<open>Transactions that end\<close>

lemma remove_all_ok:
  assumes "kax_inv ps s" "\<forall>f \<in> set fs. normal_full f \<and> (\<forall>x \<in> ring_fulls ps. near f x)"
  shows "\<exists>ps' s'. kax_remove_all (map xid_of fs) s = (Inr (), s') \<and> kax_inv ps' s'
       \<and> live ps' = filter (\<lambda>x. x \<notin> set fs) (live ps) \<and> ring_fulls ps' \<subseteq> ring_fulls ps \<and> erase s' = erase s"
  using assms
proof (induction fs arbitrary: ps s)
  case Nil
  then show ?case by auto
next
  case (Cons f fs)
  have nf: "normal_full f" "\<forall>x \<in> ring_fulls ps. near f x" using Cons.prems(2) by auto
  obtain ps1 s1 where a: "KnownAssignedXidsSearch (xid_of f) True s = (Inr (f \<in> set (live ps)), s1)" "kax_inv ps1 s1"
    "live ps1 = removeAll f (live ps)" "ring_fulls ps1 \<subseteq> ring_fulls ps" "erase s1 = erase s"
    using Search_ok(2) [OF Cons.prems(1) nf] by blast
  have run1: "KnownAssignedXidsRemove (xid_of f) s = (Inr (), s1)"
    using a(1) nf(1) by (simp add: KnownAssignedXidsRemove_def)
  obtain ps2 s2 where b: "kax_remove_all (map xid_of fs) s1 = (Inr (), s2)" "kax_inv ps2 s2"
    "live ps2 = filter (\<lambda>x. x \<notin> set fs) (live ps1)" "ring_fulls ps2 \<subseteq> ring_fulls ps1" "erase s2 = erase s1"
    using Cons.IH [OF a(2)] Cons.prems(2) a(4) by (metis (no_types, lifting) list.set_intros(2) subsetD)
  have "live ps2 = filter (\<lambda>x. x \<notin> set (f # fs)) (live ps)"
    unfolding b(3) a(3) removeAll_filter_not_eq by (auto intro: filter_cong)
  with run1 a b show ?case by (intro exI [of _ ps2] exI [of _ s2]) auto
qed

lemma RemoveTree_ok:
  assumes "kax_inv ps s" "\<forall>x \<in> set (f # fs). normal_full x \<and> (\<forall>y \<in> ring_fulls ps. near x y)"
  shows "\<exists>ps' s'. KnownAssignedXidsRemoveTree env (xid_of f) (map xid_of fs) s = (Inr (), s') \<and> kax_inv ps' s'
       \<and> live ps' = filter (\<lambda>x. x \<notin> set (f # fs)) (live ps) \<and> ring_fulls ps' \<subseteq> ring_fulls ps \<and> erase_st s' = erase_st s"
proof -
  obtain ps1 s1 where a: "kax_remove_all (map xid_of (f # fs)) s = (Inr (), s1)" "kax_inv ps1 s1"
    "live ps1 = filter (\<lambda>x. x \<notin> set (f # fs)) (live ps)" "ring_fulls ps1 \<subseteq> ring_fulls ps" "erase s1 = erase s"
    using remove_all_ok [OF assms] by blast
  obtain ps2 s2 where b: "KnownAssignedXidsCompress env TransactionEnd s1 = (Inr (), s2)" "kax_inv ps2 s2"
    "live ps2 = live ps1" "ring_fulls ps2 \<subseteq> ring_fulls ps1" "erase_st s2 = erase_st s1"
    by (rule Compress_ok [OF a(2)])
  have "KnownAssignedXidsRemoveTree env (xid_of f) (map xid_of fs) s
      = bindS (kax_remove_all (map xid_of (f # fs)) s) (\<lambda>_ s. KnownAssignedXidsCompress env TransactionEnd s)"
  proof -
    obtain r u where "KnownAssignedXidsRemove (xid_of f) s = (r, u)" by (rule prod.exhaust)
    with assms(2) show ?thesis by (cases r) (simp_all add: KnownAssignedXidsRemoveTree_def)
  qed
  moreover have "erase_st s2 = erase_st s" using b(5) erase_erase_st [OF a(5)] by simp
  ultimately show ?thesis using a(1,3,4) b(1-4) by (intro exI [of _ ps2] exI [of _ s2]) auto
qed

text \<open>
  C25: replaying the end of transaction \<open>f\<close> with its subtransactions \<open>fs\<close> removes exactly these from the transactions known to run,
  moves \<^verbatim>\<open>latestCompletedXid\<close> up to \<open>m\<close> if that is newer, and bumps the completion counter that invalidates cached snapshots.
\<close>

theorem ExpireTree_removes_exactly:
  assumes "kax_inv ps s" "\<forall>x \<in> set (f # fs). normal_full x \<and> (\<forall>y \<in> ring_fulls ps. near x y)"
    and "standby_state s \<noteq> STANDBY_DISABLED"
    and "latestCompletedXid s = word_of_nat c" "nextXid s = word_of_nat n"
    and "normal_full c" "normal_full m" "normal_full n" "near c m" "near m n"
  shows "\<exists>ps' s'. ExpireTreeKnownAssignedTransactionIds env (xid_of f) (map xid_of fs) (xid_of m) s = (Inr (), s')
       \<and> kax_inv ps' s' \<and> live ps' = filter (\<lambda>x. x \<notin> set (f # fs)) (live ps)
       \<and> latestCompletedXid s' = word_of_nat (max c m) \<and> xactCompletionCount s' = xactCompletionCount s + 1"
proof -
  obtain ps1 s1 where a: "KnownAssignedXidsRemoveTree env (xid_of f) (map xid_of fs) s = (Inr (), s1)" "kax_inv ps1 s1"
    "live ps1 = filter (\<lambda>x. x \<notin> set (f # fs)) (live ps)" "erase_st s1 = erase_st s"
    using RemoveTree_ok [OF assms(1,2)] by blast
  let ?s2 = "s1 \<lparr> latestCompletedXid := word_of_nat (max c m) \<rparr>"
  have "MaintainLatestCompletedXidRecovery (xid_of m) s1 = (Inr (), ?s2)"
    using assms(4-) erase_st_fields(1,2) [OF a(4)] by (intro Maintain_recovery) auto
  moreover have "xactCompletionCount s1 = xactCompletionCount s"
    using arg_cong [OF a(4), of xactCompletionCount] by (simp add: erase_st_def erase_def)
  moreover have "kax_inv ps1 (increment_xact_completion_count ?s2)"
    by (rule kax_inv_cong [OF a(2)]) (simp_all add: increment_xact_completion_count_def)
  ultimately show ?thesis
    using assms(3) a by (intro exI [of _ ps1] exI [of _ "increment_xact_completion_count ?s2"])
      (simp add: ExpireTreeKnownAssignedTransactionIds_def, simp add: increment_xact_completion_count_def)
qed

theorem ExpireTree_removes_exactly_witness:
  "\<exists>ps' s'. ExpireTreeKnownAssignedTransactionIds ex_kax_env (xid_of 101) [] (xid_of 101) ex_startup = (Inr (), s')
     \<and> kax_inv ps' s' \<and> live ps' = [102]"
proof -
  have "normal_full 101" "normal_full 3" "near 3 101" "near 101 3" "near 101 102" by (simp_all add: normal_full_def near_def)
  then have "\<exists>ps' s'. ExpireTreeKnownAssignedTransactionIds ex_kax_env (xid_of 101) (map xid_of []) (xid_of 101) ex_startup = (Inr (), s')
       \<and> kax_inv ps' s' \<and> live ps' = filter (\<lambda>x. x \<notin> set (101 # [])) (live [(101, True), (102, True)])
       \<and> latestCompletedXid s' = word_of_nat (max 3 101) \<and> xactCompletionCount s' = xactCompletionCount ex_startup + 1"
    using ex_startup_inv by (intro ExpireTree_removes_exactly [where n = 3]) (simp_all add: ex_fulls)
  then show ?thesis by (auto simp: ex_fulls)
qed

text \<open>What replay leaves alone: the processes and the sizes.\<close>

definition same_array :: "startup \<Rightarrow> startup \<Rightarrow> bool" where
  "same_array s s' \<longleftrightarrow> allProcs s' = allProcs s \<and> hdr_xids s' = hdr_xids s \<and> oldestXid s' = oldestXid s
     \<and> maxKnownAssignedXids s' = maxKnownAssignedXids s \<and> maxProcs s' = maxProcs s"

lemma erase_st_array:
  assumes "erase_st s' = erase_st s"
  shows "same_array s s'"
  using arg_cong [OF assms, of allProcs] arg_cong [OF assms, of hdr_xids] arg_cong [OF assms, of oldestXid]
    arg_cong [OF assms, of maxKnownAssignedXids] arg_cong [OF assms, of maxProcs]
  by (simp add: same_array_def erase_st_def erase_def)

lemma ExpireOld_run:
  assumes "kax_inv ps s" "3 < r" "normal_full r" "\<forall>x \<in> ring_fulls ps. near x r"
    and "\<forall>x \<in> set (live ps). k_is_prepared env (xid_of x) = Inr (prep x)"
    and "latestCompletedXid s = word_of_nat c" "nextXid s = word_of_nat n"
    and "normal_full c" "normal_full n" "near c (prev_full r)" "near (prev_full r) n"
  shows "\<exists>ps' s'. ExpireOldKnownAssignedTransactionIds env (xid_of r) s = (Inr (), s')
       \<and> kax_inv ps' s' \<and> live ps' = filter (\<lambda>x. r \<le> x \<or> prep x) (live ps)
       \<and> latestCompletedXid s' = word_of_nat (max c (prev_full r))
       \<and> nextXid s' = nextXid s \<and> LATEST_OBSERVED_XID s' = LATEST_OBSERVED_XID s \<and> standby_state s' = standby_state s
       \<and> same_array s s' \<and> ring_fulls ps' \<subseteq> ring_fulls ps"
proof -
  let ?s1 = "increment_xact_completion_count (s \<lparr> latestCompletedXid := word_of_nat (max c (prev_full r)) \<rparr>)"
  define s2 where "s2 = (if TransactionIdPrecedes (lastOverflowedXid ?s1) (xid_of r)
      then ?s1 \<lparr> lastOverflowedXid := InvalidTransactionId \<rparr> else ?s1)"
  have "MaintainLatestCompletedXidRecovery (TransactionIdRetreat_loop (xid_of r)) s
      = (Inr (), s \<lparr> latestCompletedXid := word_of_nat (max c (prev_full r)) \<rparr>)"
    unfolding Retreat_nat [OF assms(2)] using assms prev_full_props [OF assms(2)] by (intro Maintain_recovery) auto
  then have run: "ExpireOldKnownAssignedTransactionIds env (xid_of r) s = KnownAssignedXidsRemovePreceding env (xid_of r) s2"
    by (simp add: ExpireOldKnownAssignedTransactionIds_def Let_def s2_def)
  have i2: "kax_inv ps s2"
    by (rule kax_inv_cong [OF assms(1)]) (simp_all add: s2_def increment_xact_completion_count_def)
  have lc2: "latestCompletedXid s2 = word_of_nat (max c (prev_full r))"
    by (simp add: s2_def increment_xact_completion_count_def)
  obtain ps' s' where "KnownAssignedXidsRemovePreceding env (xid_of r) s2 = (Inr (), s')" "kax_inv ps' s'"
    "live ps' = filter (\<lambda>x. r \<le> x \<or> prep x) (live ps)" "ring_fulls ps' \<subseteq> ring_fulls ps" "erase_st s' = erase_st s2"
    by (rule RemovePreceding_ok [OF i2 assms(3,4,5)])
  note s' = this
  have "nextXid s2 = nextXid s" "LATEST_OBSERVED_XID s2 = LATEST_OBSERVED_XID s" "standby_state s2 = standby_state s" "same_array s s2"
    by (simp_all add: s2_def increment_xact_completion_count_def same_array_def)
  then have "nextXid s' = nextXid s" "LATEST_OBSERVED_XID s' = LATEST_OBSERVED_XID s" "standby_state s' = standby_state s" "same_array s s'"
    using erase_st_fields(1,4,5) [OF s'(5)] erase_st_array [OF s'(5)] by (simp_all add: same_array_def)
  then show ?thesis using run lc2 erase_st_fields(2) [OF s'(5)] s'(1-4) by (intro exI [of _ ps'] exI [of _ s']) simp
qed

text \<open>
  C26: when the primary reports that its oldest running transaction is \<open>r\<close>, the standby forgets the older ones, except the prepared
  transactions, which end by a record of their own.
\<close>

theorem ExpireOld_removes_exactly:
  assumes "kax_inv ps s" "3 < r" "normal_full r" "\<forall>x \<in> ring_fulls ps. near x r"
    and "\<forall>x \<in> set (live ps). k_is_prepared env (xid_of x) = Inr (prep x)"
    and "latestCompletedXid s = word_of_nat c" "nextXid s = word_of_nat n"
    and "normal_full c" "normal_full n" "near c (prev_full r)" "near (prev_full r) n"
  shows "\<exists>ps' s'. ExpireOldKnownAssignedTransactionIds env (xid_of r) s = (Inr (), s')
       \<and> kax_inv ps' s' \<and> live ps' = filter (\<lambda>x. r \<le> x \<or> prep x) (live ps)
       \<and> latestCompletedXid s' = word_of_nat (max c (prev_full r))"
  using ExpireOld_run [OF assms] by metis

theorem ExpireOld_removes_exactly_witness:
  "\<exists>ps' s'. ExpireOldKnownAssignedTransactionIds ex_kax_env (xid_of 102) ex_startup = (Inr (), s')
     \<and> kax_inv ps' s' \<and> live ps' = [102]"
proof -
  have p: "prev_full 102 = 101" by (simp add: prev_full_def)
  have "normal_full 102" "normal_full 3" "near 3 101" "near 101 3" "near 101 102" by (simp_all add: normal_full_def near_def)
  then have "\<exists>ps' s'. ExpireOldKnownAssignedTransactionIds ex_kax_env (xid_of 102) ex_startup = (Inr (), s')
       \<and> kax_inv ps' s' \<and> live ps' = filter (\<lambda>x. 102 \<le> x \<or> False) (live [(101, True), (102, True)])
       \<and> latestCompletedXid s' = word_of_nat (max 3 (prev_full 102))"
    using ex_startup_inv
    by (intro ExpireOld_removes_exactly [where n = 3]) (simp_all add: ex_fulls ex_kax_env_def p)
  then show ?thesis by (auto simp: ex_fulls)
qed

subsection \<open>The initial set\<close>

definition window :: "nat set \<Rightarrow> bool" where
  "window A \<longleftrightarrow> (\<forall>a \<in> A. normal_full a \<and> (\<forall>b \<in> A. near a b))"

lemma window_mono: "window A \<Longrightarrow> B \<subseteq> A \<Longrightarrow> window B"
  unfolding window_def by blast

lemma Add_one:
  assumes "kax_inv ps s" "\<forall>x \<in> ring_fulls ps. x < f" "window (insert f (ring_fulls ps))"
    and "int (length (live ps)) < maxKnownAssignedXids s" "maxKnownAssignedXids s + 1 < 2 ^ 31"
  obtains ps' s' where "KnownAssignedXidsAdd env (xid_of f) (xid_of f) s = (Inr (), s')" "kax_inv ps' s'"
    "live ps' = live ps @ [f]" "ring_fulls ps' \<subseteq> insert f (ring_fulls ps)" "erase_st s' = erase_st s"
proof -
  have nf: "normal_full f" using assms(3) by (simp add: window_def)
  have w: "\<forall>x \<in> ring_fulls ps. near x f \<and> f < x + 2 ^ 31"
    using assms(2,3) by (auto simp: window_def near_def)
  obtain r u where a: "KnownAssignedXidsAdd env (xid_of f) (xid_of f) s = (r, u)" by (rule prod.exhaust)
  have "ring_last_before ps f" using assms(2) by (simp add: ring_last_before_def)
  then have "\<exists>ps'. kax_inv ps' u \<and> erase_st u = erase_st s \<and> ring_fulls ps' \<subseteq> insert f (ring_fulls ps)
      \<and> r = Inr () \<and> live ps' = live ps @ [f]"
    using Add_ok [OF assms(1) nf nf order_refl _ w, of env] a assms(4,5) nf by auto
  then obtain ps' where "kax_inv ps' u" "erase_st u = erase_st s" "ring_fulls ps' \<subseteq> insert f (ring_fulls ps)"
      "r = Inr ()" "live ps' = live ps @ [f]" by blast
  with a that [of u ps'] show thesis by simp
qed

lemma add_each_ok:
  assumes "kax_inv ps s" "sorted fs" "window (ring_fulls ps \<union> set fs)"
    and "int (length (live ps) + length fs) \<le> maxKnownAssignedXids s" "maxKnownAssignedXids s + 1 < 2 ^ 31"
    and "case prev of None \<Rightarrow> ps = []
       | Some x \<Rightarrow> \<exists>p \<in> set (live ps). x = xid_of p \<and> (\<forall>y \<in> ring_fulls ps. y \<le> p) \<and> (\<forall>y \<in> set fs. p \<le> y)"
  shows "\<exists>ps' s'. kax_add_each env prev (map xid_of fs) s = (Inr (), s') \<and> kax_inv ps' s'
       \<and> set (live ps') = set (live ps) \<union> set fs \<and> ring_fulls ps' \<subseteq> ring_fulls ps \<union> set fs \<and> erase_st s' = erase_st s"
  using assms
proof (induction fs arbitrary: ps s prev)
  case Nil
  then show ?case by auto
next
  case (Cons f fs)
  have srt: "sorted fs" "\<forall>y \<in> set fs. f \<le> y" using Cons.prems(2) by auto
  show ?case
  proof (cases "prev = Some (xid_of f)")
    case True
    with Cons.prems(6) obtain p where p: "p \<in> set (live ps)" "xid_of f = xid_of p" "\<forall>y \<in> ring_fulls ps. y \<le> p" by auto
    then have "f = p"
      using Cons.prems(3) live_subset [of ps] xid_of_inj [of f p] by (auto simp: window_def)
    have w: "window (ring_fulls ps \<union> set fs)" by (rule window_mono [OF Cons.prems(3)]) auto
    have "\<exists>ps' s'. kax_add_each env (Some (xid_of f)) (map xid_of fs) s = (Inr (), s') \<and> kax_inv ps' s'
       \<and> set (live ps') = set (live ps) \<union> set fs \<and> ring_fulls ps' \<subseteq> ring_fulls ps \<union> set fs \<and> erase_st s' = erase_st s"
      using Cons.prems p \<open>f = p\<close> srt by (intro Cons.IH w) auto
    then show ?thesis using True p(1) \<open>f = p\<close> by auto
  next
    case False
    have before: "\<forall>x \<in> ring_fulls ps. x < f"
    proof (cases prev)
      case None
      with Cons.prems(6) show ?thesis by (simp add: ring_fulls_def)
    next
      case (Some x)
      with Cons.prems(6) obtain p where p: "x = xid_of p" "\<forall>y \<in> ring_fulls ps. y \<le> p" "p \<le> f" by auto
      with False Some have "p < f" by (cases "p = f") auto
      with p(2) show ?thesis by auto
    qed
    have w: "window (insert f (ring_fulls ps))" by (rule window_mono [OF Cons.prems(3)]) auto
    have "int (length (live ps)) < maxKnownAssignedXids s" using Cons.prems(4) by simp
    then obtain ps1 s1 where a: "KnownAssignedXidsAdd env (xid_of f) (xid_of f) s = (Inr (), s1)" "kax_inv ps1 s1"
      "live ps1 = live ps @ [f]" "ring_fulls ps1 \<subseteq> insert f (ring_fulls ps)" "erase_st s1 = erase_st s"
      by (rule Add_one [OF Cons.prems(1) before w _ Cons.prems(5)])
    have w1: "window (ring_fulls ps1 \<union> set fs)" by (rule window_mono [OF Cons.prems(3)]) (use a(4) in auto)
    have le1: "\<forall>y \<in> ring_fulls ps1. y \<le> f" using a(4) before by (metis insertE less_imp_le order_refl subsetD)
    have "\<exists>ps' s'. kax_add_each env (Some (xid_of f)) (map xid_of fs) s1 = (Inr (), s') \<and> kax_inv ps' s'
       \<and> set (live ps') = set (live ps1) \<union> set fs \<and> ring_fulls ps' \<subseteq> ring_fulls ps1 \<union> set fs \<and> erase_st s' = erase_st s1"
    proof (rule Cons.IH [OF a(2) srt(1) w1])
      show "int (length (live ps1) + length fs) \<le> maxKnownAssignedXids s1" "maxKnownAssignedXids s1 + 1 < 2 ^ 31"
        using Cons.prems(4,5) a(3) erase_st_fields(6) [OF a(5)] by simp_all
      show "case Some (xid_of f) of None \<Rightarrow> ps1 = []
         | Some x \<Rightarrow> \<exists>p \<in> set (live ps1). x = xid_of p \<and> (\<forall>y \<in> ring_fulls ps1. y \<le> p) \<and> (\<forall>y \<in> set fs. p \<le> y)"
        using a(3) le1 srt(2) by (auto intro: bexI [of _ f])
    qed
    then obtain ps' s' where "kax_add_each env (Some (xid_of f)) (map xid_of fs) s1 = (Inr (), s')" "kax_inv ps' s'"
      "set (live ps') = set (live ps1) \<union> set fs" "ring_fulls ps' \<subseteq> ring_fulls ps1 \<union> set fs" "erase_st s' = erase_st s1" by blast
    moreover from this(4) a(4) have "ring_fulls ps' \<subseteq> ring_fulls ps \<union> set (f # fs)" by auto
    ultimately show ?thesis using False a(1,3,5) by (intro exI [of _ ps'] exI [of _ s']) simp
  qed
qed

lemma still_running_ok:
  assumes "\<forall>f \<in> set fs. k_did_commit env (xid_of f) = Inr (com f) \<and> k_did_abort env (xid_of f) = Inr (ab f)"
  shows "still_running env (map xid_of fs) = Inr (map xid_of (filter (\<lambda>f. \<not> com f \<and> \<not> ab f) fs))"
  using assms by (induction fs) auto

lemma sort_map_xid:
  assumes "\<forall>a \<in> set fs. \<forall>b \<in> set fs. a \<le> b \<longrightarrow> xid_of a \<le> xid_of b"
  shows "sort (map xid_of fs) = map xid_of (sort fs)"
proof (rule properties_for_sort)
  have "sorted_wrt (\<le>) (sort fs)" by (rule sorted_sort)
  then have "sorted_wrt (\<lambda>a b. xid_of a \<le> xid_of b) (sort fs)"
    by (rule sorted_wrt_mono_rel [rotated]) (metis assms set_sort)
  then show "sorted (map xid_of (sort fs))" unfolding sorted_wrt_map .
  show "mset (map xid_of (sort fs)) = mset (map xid_of fs)" by (simp only: mset_map mset_sort)
qed

lemma extend_before_ok:
  assumes "normal_full l" "normal_full f" "l \<le> f" "f < l + 2 ^ 31"
    and "\<forall>x. normal_full x \<longrightarrow> l \<le> x \<longrightarrow> x < f \<longrightarrow> ext (xid_of x) = Inr ()"
  shows "extend_before ext (xid_of l) (xid_of f) = Inr (xid_of f)"
  using assms(1,2,3,4,5)
proof (induction l rule: fulls_induct)
  case base
  show ?case by (subst extend_before.simps) simp
next
  case (step l)
  have "TransactionIdPrecedes (xid_of l) (xid_of f)"
    using step assms(2) by (subst xid_of_order(1)) (auto simp: near_def)
  moreover have "ext (xid_of l) = Inr ()" using step.prems step.hyps by blast
  moreover have "extend_before ext (xid_of (next_full l)) (xid_of f) = Inr (xid_of f)"
  proof (rule step.IH)
    show "f < next_full l + 2 ^ 31" using step.prems(1) next_full_props(1) [of l] by linarith
    show "\<forall>x. normal_full x \<longrightarrow> next_full l \<le> x \<longrightarrow> x < f \<longrightarrow> ext (xid_of x) = Inr ()"
      using step.prems(2) next_full_props(1) [of l] by (meson le_trans less_imp_le)
  qed
  ultimately show ?case by (subst extend_before.simps) (simp add: xid_of_next)
qed

text \<open>The transactions of the list \<open>fs\<close> that have not ended.\<close>

definition unfinished :: "kax_env \<Rightarrow> nat list \<Rightarrow> nat list" where
  "unfinished env fs =
     filter (\<lambda>f. k_did_commit env (xid_of f) = Inr False \<and> k_did_abort env (xid_of f) = Inr False) fs"

lemma build_run:
  assumes inv: "kax_inv [] s" and xids: "run_xids running = map xid_of fs" "run_xcnt running + run_subxcnt running = int (length fs)"
    and win: "window (set fs)" and order: "\<forall>a \<in> set fs. \<forall>b \<in> set fs. a \<le> b \<longrightarrow> xid_of a \<le> xid_of b"
    and status: "\<forall>f \<in> set fs. \<exists>c a. k_did_commit env (xid_of f) = Inr c \<and> k_did_abort env (xid_of f) = Inr a"
    and room: "int (length fs) \<le> maxKnownAssignedXids s" "maxKnownAssignedXids s + 1 < 2 ^ 31"
    and latest: "LATEST_OBSERVED_XID s = xid_of l" "normal_full l" "normal_full N" "l < N" "N < l + 2 ^ 31"
      "run_nextXid running = xid_of N" "\<forall>x. normal_full x \<longrightarrow> l < x \<longrightarrow> x < N \<longrightarrow> k_extend_subtrans env (xid_of x) = Inr ()"
    and lc: "latestCompletedXid s = word_of_nat c" "nextXid s = word_of_nat n" "run_latestCompletedXid running = xid_of m"
      "normal_full c" "normal_full m" "normal_full n" "near c m" "near m n"
  shows "\<exists>ps' s'. build_known_assigned env running s = (Inr (), s') \<and> kax_inv ps' s'
       \<and> set (live ps') = set (unfinished env fs) \<and> LATEST_OBSERVED_XID s' = xid_of (prev_full N)
       \<and> latestCompletedXid s' = word_of_nat (max c m)
       \<and> standby_state s' = (if run_subxid_status running = SUBXIDS_MISSING then STANDBY_SNAPSHOT_PENDING else STANDBY_SNAPSHOT_READY)
       \<and> ring_fulls ps' \<subseteq> set fs \<and> same_array s s'
       \<and> lastOverflowedXid s' = (if run_subxid_status running = SUBXIDS_IN_ARRAY then InvalidTransactionId else xid_of (prev_full N))"
proof -
  obtain com ab where st: "\<forall>f \<in> set fs. k_did_commit env (xid_of f) = Inr (com f) \<and> k_did_abort env (xid_of f) = Inr (ab f)"
    using status by metis
  define gs where "gs = filter (\<lambda>f. \<not> com f \<and> \<not> ab f) fs"
  have gs: "unfinished env fs = gs" unfolding unfinished_def gs_def using st by (intro filter_cong) auto
  have sub: "set gs \<subseteq> set fs" "length gs \<le> length fs" by (auto simp: gs_def)
  have sl: "slice_to (nat (run_xcnt running + run_subxcnt running)) (run_xids running) = Inr (map xid_of fs)"
    using xids by (simp add: slice_to_def)
  have sr: "still_running env (map xid_of fs) = Inr (map xid_of gs)"
    unfolding gs_def using st by (rule still_running_ok)
  have srt: "sort (map xid_of gs) = map xid_of (sort gs)"
    using order sub(1) by (intro sort_map_xid) blast
  have w0: "window (ring_fulls [] \<union> set (sort gs))"
    by (rule window_mono [OF win]) (use sub(1) in \<open>auto simp: ring_fulls_def\<close>)
  have "\<exists>ps' s'. kax_add_each env None (map xid_of (sort gs)) s = (Inr (), s') \<and> kax_inv ps' s'
       \<and> set (live ps') = set (live []) \<union> set (sort gs) \<and> ring_fulls ps' \<subseteq> ring_fulls [] \<union> set (sort gs) \<and> erase_st s' = erase_st s"
    using sub(2) room by (intro add_each_ok [OF inv _ w0]) simp_all
  then obtain ps1 s1 where a: "kax_add_each env None (map xid_of (sort gs)) s = (Inr (), s1)" "kax_inv ps1 s1"
    "set (live ps1) = set gs" "ring_fulls ps1 \<subseteq> set gs" "erase_st s1 = erase_st s" by (auto simp: ring_fulls_def)
  have num: "numKnownAssignedXids s = 0" using inv by (simp add: kax_inv_def kax_core_def)
  have "\<exists>s1. (if map xid_of gs \<noteq> [] then
              if numKnownAssignedXids s \<noteq> 0 then (Inl (ElogError ''KnownAssignedXids is not empty''), s)
              else kax_add_each env None (sort (map xid_of gs)) s
            else (Inr (), s)) = (Inr (), s1) \<and> (\<exists>ps1. kax_inv ps1 s1 \<and> set (live ps1) = set gs \<and> ring_fulls ps1 \<subseteq> set gs) \<and> erase_st s1 = erase_st s"
  proof (cases "gs = []")
    case True
    with inv show ?thesis by (intro exI [of _ s] conjI exI [of _ "[]"]) (simp_all add: ring_fulls_def)
  next
    case False
    with a num srt show ?thesis by (intro exI [of _ s1] conjI exI [of _ ps1]) simp_all
  qed
  then obtain s1 ps1 where a: "(if map xid_of gs \<noteq> [] then
              if numKnownAssignedXids s \<noteq> 0 then (Inl (ElogError ''KnownAssignedXids is not empty''), s)
              else kax_add_each env None (sort (map xid_of gs)) s
            else (Inr (), s)) = (Inr (), s1)" "kax_inv ps1 s1" "set (live ps1) = set gs" "ring_fulls ps1 \<subseteq> set gs" "erase_st s1 = erase_st s" by blast
  have lo: "LATEST_OBSERVED_XID s1 = xid_of l" using latest(1) erase_st_fields(5) [OF a(5)] by simp
  have nl: "next_full l \<le> N" by (rule next_full_least [OF latest(4,3)])
  have eb: "extend_before (k_extend_subtrans env) (TransactionIdAdvance (xid_of l)) (xid_of N) = Inr (xid_of N)"
    unfolding xid_of_next
    using latest nl next_full_props [of l] by (intro extend_before_ok) (auto simp: less_le_trans)
  have "3 < N" using latest(2-4) by (auto simp: normal_full_def)
  then have ret: "TransactionIdRetreat_loop (xid_of N) = xid_of (prev_full N)" by (rule Retreat_nat)
  define u where "u = (case run_subxid_status running of
                        SUBXIDS_MISSING \<Rightarrow>
                          s1 \<lparr> LATEST_OBSERVED_XID := xid_of (prev_full N), standby_state := STANDBY_SNAPSHOT_PENDING,
                              STANDBY_SNAPSHOT_PENDING_XMIN := xid_of (prev_full N), lastOverflowedXid := xid_of (prev_full N) \<rparr>
                      | SUBXIDS_IN_SUBTRANS \<Rightarrow>
                          s1 \<lparr> LATEST_OBSERVED_XID := xid_of (prev_full N), standby_state := STANDBY_SNAPSHOT_READY,
                              STANDBY_SNAPSHOT_PENDING_XMIN := InvalidTransactionId, lastOverflowedXid := xid_of (prev_full N) \<rparr>
                      | SUBXIDS_IN_ARRAY \<Rightarrow>
                          s1 \<lparr> LATEST_OBSERVED_XID := xid_of (prev_full N), standby_state := STANDBY_SNAPSHOT_READY,
                              STANDBY_SNAPSHOT_PENDING_XMIN := InvalidTransactionId, lastOverflowedXid := InvalidTransactionId \<rparr>)"
  have u: "kax_inv ps1 u" "latestCompletedXid u = word_of_nat c" "nextXid u = word_of_nat n"
    "LATEST_OBSERVED_XID u = xid_of (prev_full N)"
    "standby_state u = (if run_subxid_status running = SUBXIDS_MISSING then STANDBY_SNAPSHOT_PENDING else STANDBY_SNAPSHOT_READY)"
    using kax_inv_cong [OF a(2), of u] lc(1,2) erase_st_fields(1,2) [OF a(5)]
    by (auto simp: u_def split: subxids_array_status.splits)
  have arr: "same_array s u" using erase_st_array [OF a(5)] by (simp add: u_def same_array_def split: subxids_array_status.split)
  have lo_u: "lastOverflowedXid u = (if run_subxid_status running = SUBXIDS_IN_ARRAY then InvalidTransactionId else xid_of (prev_full N))"
    by (simp add: u_def split: subxids_array_status.split)
  have fin: "MaintainLatestCompletedXidRecovery (xid_of m) u = (Inr (), u \<lparr> latestCompletedXid := word_of_nat (max c m) \<rparr>)"
    using lc u(2,3) by (intro Maintain_recovery) auto
  have "build_known_assigned env running s = (Inr (), u \<lparr> latestCompletedXid := word_of_nat (max c m) \<rparr>)"
    unfolding build_known_assigned_def sl tryS_simps sr a(1) bindS_simps lo latest(6) eb ret lc(3)
    using latest(2) fin by (simp add: Let_def u_def)
  moreover have "kax_inv ps1 (u \<lparr> latestCompletedXid := word_of_nat (max c m) \<rparr>)"
    by (rule kax_inv_cong [OF u(1)]) simp_all
  ultimately show ?thesis
    using a(3,4) sub(1) gs u(4,5) arr lo_u by (intro exI [of _ ps1] exI [of _ "u \<lparr> latestCompletedXid := word_of_nat (max c m) \<rparr>"]) (auto simp: same_array_def)
qed

text \<open>
  From the list \<open>fs\<close> of transactions running on the primary, replay builds a ring that holds exactly those that have not ended
  meanwhile, provided the ids lie in a window in which their unsigned order is their age; then the standby is ready for
  queries unless the list lacks subtransactions.
\<close>

theorem build_known_assigned_exact:
  assumes inv: "kax_inv [] s" and xids: "run_xids running = map xid_of fs" "run_xcnt running + run_subxcnt running = int (length fs)"
    and win: "window (set fs)" and order: "\<forall>a \<in> set fs. \<forall>b \<in> set fs. a \<le> b \<longrightarrow> xid_of a \<le> xid_of b"
    and status: "\<forall>f \<in> set fs. \<exists>c a. k_did_commit env (xid_of f) = Inr c \<and> k_did_abort env (xid_of f) = Inr a"
    and room: "int (length fs) \<le> maxKnownAssignedXids s" "maxKnownAssignedXids s + 1 < 2 ^ 31"
    and latest: "LATEST_OBSERVED_XID s = xid_of l" "normal_full l" "normal_full N" "l < N" "N < l + 2 ^ 31"
      "run_nextXid running = xid_of N" "\<forall>x. normal_full x \<longrightarrow> l < x \<longrightarrow> x < N \<longrightarrow> k_extend_subtrans env (xid_of x) = Inr ()"
    and lc: "latestCompletedXid s = word_of_nat c" "nextXid s = word_of_nat n" "run_latestCompletedXid running = xid_of m"
      "normal_full c" "normal_full m" "normal_full n" "near c m" "near m n"
  shows "\<exists>ps' s'. build_known_assigned env running s = (Inr (), s') \<and> kax_inv ps' s'
       \<and> set (live ps') = set (unfinished env fs) \<and> LATEST_OBSERVED_XID s' = xid_of (prev_full N)
       \<and> latestCompletedXid s' = word_of_nat (max c m)
       \<and> standby_state s' = (if run_subxid_status running = SUBXIDS_MISSING then STANDBY_SNAPSHOT_PENDING else STANDBY_SNAPSHOT_READY)"
  using build_run [OF assms] by metis

definition ex_empty :: startup where
  "ex_empty = ex_startup \<lparr> numKnownAssignedXids := 0, headKnownAssignedXids := 0, standby_state := STANDBY_INITIALIZED \<rparr>"

definition ex_running :: "TransactionId list \<Rightarrow> RunningTransactionsData" where
  "ex_running xids =
     \<lparr> run_xcnt = int (length xids), run_subxcnt = 0, run_subxid_status = SUBXIDS_IN_ARRAY, run_nextXid = xid_of 105,
       run_oldestRunningXid = xid_of 101, run_oldestDatabaseRunningXid = xid_of 101, run_latestCompletedXid = xid_of 100,
       run_xids = xids \<rparr>"

lemma ex_empty_inv: "kax_inv [] ex_empty"
  by (simp add: kax_inv_def kax_core_def ex_empty_def ex_startup_def ring_sorted_def ring_fulls_def)

theorem build_known_assigned_exact_witness:
  "\<exists>ps' s'. build_known_assigned ex_kax_env (ex_running [xid_of 104, xid_of 103]) ex_empty = (Inr (), s') \<and> kax_inv ps' s'
     \<and> set (live ps') = {103, 104} \<and> standby_state s' = STANDBY_SNAPSHOT_READY"
proof -
  let ?r = "ex_running [xid_of 104, xid_of 103]"
  have "window (set [104, 103])" by (simp add: window_def normal_full_def near_def)
  moreover have "\<forall>a \<in> set [104, 103]. \<forall>b \<in> set [104, 103]. a \<le> b \<longrightarrow> xid_of a \<le> xid_of b"
    by (simp add: word_le_nat_alt unat_xid_of)
  moreover have "\<forall>f \<in> set [104, 103]. \<exists>c a. k_did_commit ex_kax_env (xid_of f) = Inr c \<and> k_did_abort ex_kax_env (xid_of f) = Inr a"
    by (auto simp: ex_kax_env_def)
  moreover have "normal_full 102" "normal_full 105" "normal_full 3" "normal_full 100" "near 3 100" "near 100 3"
    by (simp_all add: normal_full_def near_def)
  ultimately have "\<exists>ps' s'. build_known_assigned ex_kax_env ?r ex_empty = (Inr (), s') \<and> kax_inv ps' s'
       \<and> set (live ps') = set (unfinished ex_kax_env [104, 103]) \<and> LATEST_OBSERVED_XID s' = xid_of (prev_full 105)
       \<and> latestCompletedXid s' = word_of_nat (max 3 100)
       \<and> standby_state s' = (if run_subxid_status ?r = SUBXIDS_MISSING then STANDBY_SNAPSHOT_PENDING else STANDBY_SNAPSHOT_READY)"
    using ex_empty_inv
    by (intro build_known_assigned_exact [where l = 102 and n = 3]) (simp_all add: ex_running_def ex_empty_def, simp add: ex_kax_env_def)
  moreover have "set (unfinished ex_kax_env [104, 103]) = {103, 104}" by (auto simp: unfinished_def ex_kax_env_def)
  ultimately show ?thesis by (auto simp: ex_running_def)
qed



end
