(* ===== verification/ProcArray.thy ===== *)
theory ProcArray
  imports KnownAssigned Snapshot
begin

unbundle bit_operations_syntax

section \<open>The process array\<close>

text \<open>
  The first half of \<^verbatim>\<open>backend/storage/ipc/procarray/src/lib.rs\<close>: how processes join and leave the array, what they publish in
  it, and how a transaction ends; and the routines that only look through the array. \<open>me\<close> is the number of the calling process. A routine under the array's lock is one
  step; \<open>GetPGProcByNumber\<close> is \<open>allProcs\<close>. Reading the array through a process number that is not one panics.
\<close>

definition slot_proc :: "shmem \<Rightarrow> nat \<Rightarrow> PGPROC_XACT res" where
  "slot_proc s i =
     (if i < length (pgprocnos s) \<and> 0 \<le> pgprocnos s ! i \<and> nat (pgprocnos s ! i) < length (hdr_xids s)
      then Inr (allProcs s (nat (pgprocnos s ! i))) else Inl Panic)"

subsection \<open>Status flags and published minima\<close>

text \<open>Setting the flags of a process and their mirror.\<close>

definition set_status_flags :: "nat \<Rightarrow> u8 \<Rightarrow> shmem \<Rightarrow> unit res \<times> shmem" where
  "set_status_flags me flags s =
     (let s' = set_proc me (proc_statusFlags_update (\<lambda>_. flags)) s; off = pgxactoff (allProcs s me) in
      if off < length (hdr_statusFlags s) then (Inr (), s' \<lparr> hdr_statusFlags := (hdr_statusFlags s)[off := flags] \<rparr>)
      else (Inl Panic, s'))"

definition ProcSetStatusFlagAffectsAllHorizons :: "nat \<Rightarrow> shmem \<Rightarrow> unit res \<times> shmem" where
  "ProcSetStatusFlagAffectsAllHorizons me s =
     (if proc_xmin (allProcs s me) \<noteq> InvalidTransactionId then (Inl Panic, s)
      else set_status_flags me (proc_statusFlags (allProcs s me) OR PROC_AFFECTS_ALL_HORIZONS) s)"

definition ProcSetStatusFlagInVacuum :: "nat \<Rightarrow> bool \<Rightarrow> shmem \<Rightarrow> unit res \<times> shmem" where
  "ProcSetStatusFlagInVacuum me is_wraparound s =
     (let flags = proc_statusFlags (allProcs s me) OR PROC_IN_VACUUM;
          flags = (if is_wraparound then flags OR PROC_VACUUM_FOR_WRAPAROUND else flags) in
      set_status_flags me flags s)"

definition ProcSetStatusFlagInLogicalDecoding :: "nat \<Rightarrow> shmem \<Rightarrow> unit res \<times> shmem" where
  "ProcSetStatusFlagInLogicalDecoding me s =
     set_status_flags me (proc_statusFlags (allProcs s me) OR PROC_IN_LOGICAL_DECODING) s"

definition SetIndexsafeProcflags :: "nat \<Rightarrow> shmem \<Rightarrow> unit res \<times> shmem" where
  "SetIndexsafeProcflags me s =
     (let proc = allProcs s me in
      if TransactionIdIsValid (proc_xid proc) \<or> TransactionIdIsValid (proc_xmin proc) then (Inl Panic, s)
      else set_status_flags me (proc_statusFlags proc OR PROC_IN_SAFE_IC) s)"

definition ProcArraySetReplicationSlotXmin :: "TransactionId \<Rightarrow> TransactionId \<Rightarrow> shmem \<Rightarrow> shmem" where
  "ProcArraySetReplicationSlotXmin xm catalog_xm s =
     s \<lparr> replication_slot_xmin := xm, replication_slot_catalog_xmin := catalog_xm \<rparr>"

definition ProcArrayGetReplicationSlotXmin :: "shmem \<Rightarrow> TransactionId \<times> TransactionId" where
  "ProcArrayGetReplicationSlotXmin s = (replication_slot_xmin s, replication_slot_catalog_xmin s)"

definition GetMaxSnapshotXidCount :: "shmem \<Rightarrow> nat" where
  "GetMaxSnapshotXidCount s = maxProcs s"

definition GetMaxSnapshotSubxidCount :: "shmem \<Rightarrow> nat" where
  "GetMaxSnapshotSubxidCount s = (PGPROC_MAX_CACHED_SUBXIDS + 1) * maxProcs s"

subsection \<open>Joining and leaving\<close>

text \<open>The place of a process: the array is kept in the order of process numbers.\<close>

fun insert_index :: "shmem \<Rightarrow> int \<Rightarrow> nat list \<Rightarrow> nat res" where
  "insert_index s procno [] = Inr (numProcs s)"
| "insert_index s procno (i # is) =
     bindR (load_at (pgprocnos s) (int i)) (\<lambda>this_procno.
       if this_procno < 0 \<or> pgxactoff (allProcs s (nat this_procno)) \<noteq> i then Inl Panic
       else if this_procno > procno then Inr i
       else insert_index s procno is)"

definition shift_up :: "nat \<Rightarrow> nat \<Rightarrow> 'a list \<Rightarrow> 'a list" where
  "shift_up a b xs = foldl (\<lambda>xs i. xs[i + 1 := xs ! i]) xs (rev [a..<b])"

definition shift_down :: "nat \<Rightarrow> nat \<Rightarrow> 'a list \<Rightarrow> 'a list" where
  "shift_down a b xs = foldl (\<lambda>xs i. xs[i := xs ! (i + 1)]) xs [a..<b]"

definition set_offsets :: "int list \<Rightarrow> nat list \<Rightarrow> (nat \<Rightarrow> PGPROC_XACT) \<Rightarrow> (nat \<Rightarrow> PGPROC_XACT)" where
  "set_offsets pnos idx procs =
     foldl (\<lambda>procs i. procs(nat (pnos ! i) := (procs (nat (pnos ! i))) \<lparr> pgxactoff := i \<rparr>)) procs idx"

definition ProcArrayAdd :: "nat \<Rightarrow> shmem \<Rightarrow> unit res \<times> shmem" where
  "ProcArrayAdd procno s =
    (let n = numProcs s in
     if n \<ge> maxProcs s then (Inl TooManyConnections, s)
     else
       tryS (insert_index s (int procno) [0..<n]) s (\<lambda>index.
         if \<not> n < length (pgprocnos s) \<or> \<not> hdr_bounds s n then (Inl Panic, s)
         else
           let proc = allProcs s procno;
               pnos = (shift_up index n (pgprocnos s))[index := int procno];
               procs = (allProcs s)(procno := proc \<lparr> pgxactoff := index \<rparr>) in
           (Inr (), s \<lparr> pgprocnos := pnos,
                       hdr_xids := (shift_up index n (hdr_xids s))[index := proc_xid proc],
                       hdr_subxidStates := (shift_up index n (hdr_subxidStates s))[index := subxidStatus proc],
                       hdr_statusFlags := (shift_up index n (hdr_statusFlags s))[index := proc_statusFlags proc],
                       numProcs := n + 1,
                       allProcs := set_offsets pnos [index + 1..<n + 1] procs \<rparr>)))"

definition MaintainLatestCompletedXid :: "TransactionId \<Rightarrow> shmem \<Rightarrow> unit res \<times> shmem" where
  "MaintainLatestCompletedXid latestXid s =
    (let cur_latest = latest_completed_xid s in
     if \<not> fxid_is_valid cur_latest then (Inl Panic, s)
     else if TransactionIdPrecedes (fxid_xid cur_latest) latestXid
     then (Inr (), s \<lparr> latestCompletedXid := fxid_value (FullXidRelativeTo cur_latest latestXid) \<rparr>)
     else (Inr (), s))"

definition remove_slot :: "nat \<Rightarrow> shmem \<Rightarrow> shmem" where
  "remove_slot myoff s =
    (let n = numProcs s;
         pnos = (shift_down myoff (n - 1) (pgprocnos s))[n - 1 := - 1] in
     s \<lparr> pgprocnos := pnos,
         hdr_xids := shift_down myoff (n - 1) (hdr_xids s),
         hdr_subxidStates := shift_down myoff (n - 1) (hdr_subxidStates s),
         hdr_statusFlags := shift_down myoff (n - 1) ((hdr_statusFlags s)[myoff := 0]),
         numProcs := n - 1,
         allProcs := set_offsets pnos [myoff..<n - 1] (allProcs s) \<rparr>)"

definition ProcArrayRemove :: "nat \<Rightarrow> TransactionId \<Rightarrow> shmem \<Rightarrow> unit res \<times> shmem" where
  "ProcArrayRemove procno latestXid s =
    (let myoff = pgxactoff (allProcs s procno); n = numProcs s in
     if \<not> (myoff < n \<and> n \<le> length (pgprocnos s) \<and> hdr_bounds s (n - 1) \<and> pgprocnos s ! myoff = int procno) then (Inl Panic, s)
     else
       bindS (if TransactionIdIsValid latestXid then
                if \<not> TransactionIdIsValid (hdr_xids s ! myoff) then (Inl Panic, s)
                else
                  bindS (MaintainLatestCompletedXid latestXid s) (\<lambda>_ s.
                    (Inr (), (increment_xact_completion_count s)
                       \<lparr> hdr_xids := (hdr_xids s)[myoff := InvalidTransactionId],
                         hdr_subxidStates := (hdr_subxidStates s)[myoff := no_subxids] \<rparr>))
              else if TransactionIdIsValid (hdr_xids s ! myoff) then (Inl Panic, s)
              else (Inr (), s)) (\<lambda>_ s. (Inr (), remove_slot myoff s)))"

subsection \<open>Ending a transaction\<close>

text \<open>The fields of the process that every end of a transaction clears.\<close>

definition clear_vacuum_flags :: "nat \<Rightarrow> shmem \<Rightarrow> unit res \<times> shmem" where
  "clear_vacuum_flags procno s =
     (if proc_statusFlags (allProcs s procno) AND PROC_VACUUM_STATE_MASK \<noteq> 0
      then set_status_flags procno (proc_statusFlags (allProcs s procno) AND NOT PROC_VACUUM_STATE_MASK) s
      else (Inr (), s))"

definition clear_subxids :: "nat \<Rightarrow> shmem \<Rightarrow> unit res \<times> shmem" where
  "clear_subxids procno s =
     (let off = pgxactoff (allProcs s procno); st = subxidStatus (allProcs s procno) in
      if hdr_subxidStates s ! off \<noteq> st then (Inl Panic, s)
      else if sx_count st > 0 \<or> sx_overflowed st
      then (Inr (), (set_proc procno (subxidStatus_update (\<lambda>_. no_subxids)) s)
              \<lparr> hdr_subxidStates := (hdr_subxidStates s)[off := no_subxids] \<rparr>)
      else (Inr (), s))"

definition ProcArrayEndTransactionInternal :: "nat \<Rightarrow> TransactionId \<Rightarrow> shmem \<Rightarrow> unit res \<times> shmem" where
  "ProcArrayEndTransactionInternal procno latestXid s =
    (let proc = allProcs s procno; off = pgxactoff proc in
     if \<not> hdr_bounds s off \<or> \<not> TransactionIdIsValid (hdr_xids s ! off) \<or> hdr_xids s ! off \<noteq> proc_xid proc then (Inl Panic, s)
     else
       let s = s \<lparr> hdr_xids := (hdr_xids s)[off := InvalidTransactionId],
                  allProcs := (allProcs s)(procno := proc \<lparr> proc_xid := InvalidTransactionId, vxid_lxid := 0,
                     proc_xmin := InvalidTransactionId, delayChkptFlags := 0, recoveryConflictPending := False \<rparr>) \<rparr> in
       bindS (clear_vacuum_flags procno s) (\<lambda>_ s.
       bindS (clear_subxids procno s) (\<lambda>_ s.
       bindS (MaintainLatestCompletedXid latestXid s) (\<lambda>_ s.
         (Inr (), increment_xact_completion_count s)))))"

text \<open>
  A process that cannot get the lock at once puts itself on a list; the first one on the list becomes leader and ends the transactions of
  all. \<open>group_join\<close> is the moment in which the compare-and-exchange succeeds; it gives back the head found. The leader takes the whole list and follows
  its links twice: to end the transactions, and to wake the processes.
\<close>

definition group_join :: "nat \<Rightarrow> TransactionId \<Rightarrow> shmem \<Rightarrow> nat option \<times> shmem" where
  "group_join procno latestXid s =
     (procArrayGroupFirst s,
      set_proc procno (procArrayGroupMember_update (\<lambda>_. True) \<circ> procArrayGroupMemberXid_update (\<lambda>_. latestXid)
          \<circ> procArrayGroupNext_update (\<lambda>_. procArrayGroupFirst s)) s
        \<lparr> procArrayGroupFirst := Some procno \<rparr>)"

definition group_clear_step ::
  "nat option \<times> shmem \<Rightarrow> ((nat option \<times> shmem) + (unit res \<times> shmem)) option" where
  "group_clear_step = (\<lambda>(nextidx, s).
     case nextidx of
       None \<Rightarrow> Some (Inr (Inr (), s))
     | Some p \<Rightarrow>
         if \<not> p < length (hdr_xids s) then Some (Inr (Inl Panic, s))
         else
           (case ProcArrayEndTransactionInternal p (procArrayGroupMemberXid (allProcs s p)) s of
              (Inl e, s) \<Rightarrow> Some (Inr (Inl e, s))
            | (Inr _, s) \<Rightarrow> Some (Inl (procArrayGroupNext (allProcs s p), s))))"

definition group_wake_step ::
  "nat option \<times> shmem \<Rightarrow> ((nat option \<times> shmem) + (unit res \<times> shmem)) option" where
  "group_wake_step = (\<lambda>(wakeidx, s).
     case wakeidx of
       None \<Rightarrow> Some (Inr (Inr (), s))
     | Some p \<Rightarrow>
         if \<not> p < length (hdr_xids s) then Some (Inr (Inl Panic, s))
         else Some (Inl (procArrayGroupNext (allProcs s p),
                set_proc p (procArrayGroupNext_update (\<lambda>_. None) \<circ> procArrayGroupMember_update (\<lambda>_. False)) s)))"

definition group_lead :: "shmem \<Rightarrow> (unit res \<times> shmem) option" where
  "group_lead s =
     (let wakeidx = procArrayGroupFirst s in
      bindP (iterate group_clear_step (wakeidx, s \<lparr> procArrayGroupFirst := None \<rparr>)) (\<lambda>_ s.
        iterate group_wake_step (wakeidx, s)))"

text \<open>
  \<open>others\<close> is what the other processes do while this one waits: for the lock when it is leader, for its leader when it is not. A follower
  returns once its mark is gone; \<open>None\<close> is a follower that sleeps on.
\<close>

definition ProcArrayGroupClearXid ::
  "nat \<Rightarrow> TransactionId \<Rightarrow> (shmem \<Rightarrow> shmem) \<Rightarrow> shmem \<Rightarrow> (unit res \<times> shmem) option" where
  "ProcArrayGroupClearXid procno latestXid others s =
    (if \<not> TransactionIdIsValid (proc_xid (allProcs s procno)) then Some (Inl Panic, s)
     else
       case group_join procno latestXid s of (nextidx, s) \<Rightarrow>
         let s = others s in
         if nextidx \<noteq> None then
           if procArrayGroupMember (allProcs s procno) then None
           else if procArrayGroupNext (allProcs s procno) \<noteq> None then Some (Inl Panic, s)
           else Some (Inr (), s)
         else group_lead s)"

definition ProcArrayEndTransaction ::
  "nat \<Rightarrow> TransactionId \<Rightarrow> bool \<Rightarrow> (shmem \<Rightarrow> shmem) \<Rightarrow> shmem \<Rightarrow> (unit res \<times> shmem) option" where
  "ProcArrayEndTransaction procno latestXid lock_free others s =
    (let proc = allProcs s procno in
     if TransactionIdIsValid latestXid then
       if \<not> TransactionIdIsValid (proc_xid proc) then Some (Inl Panic, s)
       else if lock_free then Some (ProcArrayEndTransactionInternal procno latestXid s)
       else ProcArrayGroupClearXid procno latestXid others s
     else if TransactionIdIsValid (proc_xid proc) \<or> subxidStatus proc \<noteq> no_subxids then Some (Inl Panic, s)
     else
       Some (clear_vacuum_flags procno
         (set_proc procno (vxid_lxid_update (\<lambda>_. 0) \<circ> proc_xmin_update (\<lambda>_. InvalidTransactionId)
            \<circ> delayChkptFlags_update (\<lambda>_. 0) \<circ> recoveryConflictPending_update (\<lambda>_. False)) s)))"

definition ProcArrayClearTransaction :: "nat \<Rightarrow> shmem \<Rightarrow> unit res \<times> shmem" where
  "ProcArrayClearTransaction me s =
    (let proc = allProcs s me; off = pgxactoff proc in
     if \<not> hdr_bounds s off then (Inl Panic, s)
     else
       let s = s \<lparr> hdr_xids := (hdr_xids s)[off := InvalidTransactionId],
                  allProcs := (allProcs s)(me := proc \<lparr> proc_xid := InvalidTransactionId, vxid_lxid := 0,
                     proc_xmin := InvalidTransactionId, recoveryConflictPending := False \<rparr>) \<rparr> in
       if proc_statusFlags proc AND PROC_VACUUM_STATE_MASK \<noteq> 0 \<or> delayChkptFlags proc \<noteq> 0 then (Inl Panic, s)
       else clear_subxids me (increment_xact_completion_count s))"

text \<open>
  Removing an aborted subtransaction from the cache: the last entry takes its place. The scan runs downwards.
\<close>

fun last_index :: "'a list \<Rightarrow> 'a \<Rightarrow> nat \<Rightarrow> nat option" where
  "last_index xs x 0 = None"
| "last_index xs x (Suc j) = (if xs ! j = x then Some j else last_index xs x j)"

definition xid_cache_remove_one :: "nat \<Rightarrow> TransactionId \<Rightarrow> shmem \<Rightarrow> unit res \<times> shmem" where
  "xid_cache_remove_one me anxid s =
    (let proc = allProcs s me; off = pgxactoff proc; st = subxidStatus proc; n = sx_count st; xs = proc_subxids proc;
         shared = hdr_subxidStates s ! off in
     if \<not> n \<le> length xs then (Inl Panic, s)
     else
       case last_index xs anxid n of
         None \<Rightarrow> (Inr (), s)
       | Some j \<Rightarrow>
           if sx_count shared = 0 then (Inl Panic, s)
           else
             (Inr (), s \<lparr> hdr_subxidStates := (hdr_subxidStates s)[off := shared \<lparr> sx_count := sx_count shared - 1 \<rparr>],
                          allProcs := (allProcs s)(me := proc \<lparr> proc_subxids := xs[j := xs ! (n - 1)],
                             subxidStatus := st \<lparr> sx_count := n - 1 \<rparr> \<rparr>) \<rparr>))"

fun xid_cache_remove_all :: "nat \<Rightarrow> TransactionId list \<Rightarrow> shmem \<Rightarrow> unit res \<times> shmem" where
  "xid_cache_remove_all me [] s = (Inr (), s)"
| "xid_cache_remove_all me (x # xs) s = bindS (xid_cache_remove_one me x s) (\<lambda>_ s. xid_cache_remove_all me xs s)"

definition XidCacheRemoveRunningXids ::
  "nat \<Rightarrow> TransactionId \<Rightarrow> TransactionId list \<Rightarrow> TransactionId \<Rightarrow> shmem \<Rightarrow> unit res \<times> shmem" where
  "XidCacheRemoveRunningXids me xid xids latestXid s =
    (if \<not> TransactionIdIsValid xid then (Inl Panic, s)
     else if \<not> pgxactoff (allProcs s me) < length (hdr_subxidStates s) then (Inl Panic, s)
     else
       bindS (xid_cache_remove_all me (rev xids) s) (\<lambda>_ s.
       bindS (xid_cache_remove_one me xid s) (\<lambda>_ s.
       bindS (MaintainLatestCompletedXid latestXid s) (\<lambda>_ s. (Inr (), increment_xact_completion_count s)))))"

subsection \<open>Looking through the array\<close>

definition ProcNumberGetTransactionIds ::
  "int \<Rightarrow> shmem \<Rightarrow> TransactionId \<times> TransactionId \<times> nat \<times> bool" where
  "ProcNumberGetTransactionIds procNumber s =
    (if procNumber < 0 \<or> nat procNumber \<ge> length (hdr_xids s) then (InvalidTransactionId, InvalidTransactionId, 0, False)
     else
       let proc = allProcs s (nat procNumber) in
       if proc_pid proc \<noteq> 0
       then (proc_xid proc, proc_xmin proc, sx_count (subxidStatus proc), sx_overflowed (subxidStatus proc))
       else (InvalidTransactionId, InvalidTransactionId, 0, False))"

text \<open>The processes of the array in order, and those that satisfy a test; the test may also look at the index and the process number.\<close>

fun select_procs ::
  "(nat \<Rightarrow> int \<Rightarrow> PGPROC_XACT \<Rightarrow> bool) \<Rightarrow> shmem \<Rightarrow> nat list \<Rightarrow> (int \<times> PGPROC_XACT) list res" where
  "select_procs P s [] = Inr []"
| "select_procs P s (i # is) =
     bindR (slot_proc s i) (\<lambda>proc.
     bindR (select_procs P s is) (\<lambda>ps.
       Inr (if P i (pgprocnos s ! i) proc then (pgprocnos s ! i, proc) # ps else ps)))"

fun find_proc :: "(nat \<Rightarrow> PGPROC_XACT \<Rightarrow> bool) \<Rightarrow> shmem \<Rightarrow> nat list \<Rightarrow> PGPROC_XACT option res" where
  "find_proc P s [] = Inr None"
| "find_proc P s (i # is) =
     bindR (slot_proc s i) (\<lambda>proc. if P i proc then Inr (Some proc) else find_proc P s is)"

definition BackendPidGetProc :: "int \<Rightarrow> shmem \<Rightarrow> PGPROC_XACT option res" where
  "BackendPidGetProc pid s =
     (if pid = 0 then Inr None else find_proc (\<lambda>_ proc. proc_pid proc = pid) s [0..<numProcs s])"

fun find_xid :: "TransactionId \<Rightarrow> shmem \<Rightarrow> nat list \<Rightarrow> int res" where
  "find_xid xid s [] = Inr 0"
| "find_xid xid s (i # is) =
     (if \<not> i < length (hdr_xids s) then Inl Panic
      else if hdr_xids s ! i = xid then bindR (slot_proc s i) (\<lambda>proc. Inr (proc_pid proc))
      else find_xid xid s is)"

definition BackendXidGetPid :: "TransactionId \<Rightarrow> shmem \<Rightarrow> int res" where
  "BackendXidGetPid xid s = (if \<not> TransactionIdIsValid xid then Inr 0 else find_xid xid s [0..<numProcs s])"

text \<open>The oldest normal id of the array that precedes a start value.\<close>

fun oldest_xid :: "shmem \<Rightarrow> nat list \<Rightarrow> TransactionId \<Rightarrow> TransactionId res" where
  "oldest_xid s [] r = Inr r"
| "oldest_xid s (i # is) r =
     (if \<not> i < length (hdr_xids s) then Inl Panic
      else
        let xid = hdr_xids s ! i in
        if \<not> TransactionIdIsNormal xid then oldest_xid s is r
        else oldest_xid s is (if TransactionIdPrecedes xid r then xid else r))"

definition GetOldestSafeDecodingTransactionId :: "bool \<Rightarrow> bool \<Rightarrow> shmem \<Rightarrow> TransactionId res" where
  "GetOldestSafeDecodingTransactionId recovery_in_progress catalog_only s =
     (let r = fxid_xid (nextFullXid s);
          sx = replication_slot_xmin s;
          r = (if TransactionIdIsValid sx \<and> TransactionIdPrecedes sx r then sx else r);
          cx = replication_slot_catalog_xmin s;
          r = (if catalog_only \<and> TransactionIdIsValid cx \<and> TransactionIdPrecedes cx r then cx else r) in
      if \<not> recovery_in_progress then oldest_xid s [0..<numProcs s] r else Inr r)"

text \<open>\<open>s0\<close> is the shared memory when the counter is read, \<open>s\<close> when the array is scanned.\<close>

definition GetOldestActiveTransactionId :: "bool \<Rightarrow> shmem \<Rightarrow> shmem \<Rightarrow> TransactionId res" where
  "GetOldestActiveTransactionId recovery_in_progress s0 s =
     (if recovery_in_progress then Inl Panic
      else oldest_xid s [0..<numProcs s] (fxid_xid (nextFullXid s0)))"

definition HaveVirtualXIDsDelayingChkpt :: "u32 \<Rightarrow> shmem \<Rightarrow> bool res" where
  "HaveVirtualXIDsDelayingChkpt delay_type s =
     (if delay_type = 0 then Inl Panic
      else bindR (find_proc (\<lambda>_ proc. delayChkptFlags proc AND delay_type \<noteq> 0 \<and> vxid_lxid proc \<noteq> 0) s [0..<numProcs s])
             (\<lambda>found. Inr (found \<noteq> None)))"

definition proc_vxid :: "PGPROC_XACT \<Rightarrow> int \<times> u32" where
  "proc_vxid proc = (vxid_procNumber proc, vxid_lxid proc)"

definition GetCurrentVirtualXIDs ::
  "nat \<Rightarrow> u32 \<Rightarrow> TransactionId \<Rightarrow> bool \<Rightarrow> bool \<Rightarrow> u8 \<Rightarrow> shmem \<Rightarrow> (int \<times> u32) list res" where
  "GetCurrentVirtualXIDs me my_dbid limitXmin excludeXmin0 allDbs excludeVacuum s =
     bindR (select_procs (\<lambda>i pgprocno proc.
              pgprocno \<noteq> int me \<and> excludeVacuum AND hdr_statusFlags s ! i = 0
              \<and> (allDbs \<or> databaseId proc = my_dbid)
              \<and> \<not> (excludeXmin0 \<and> \<not> TransactionIdIsValid (proc_xmin proc))
              \<and> (\<not> TransactionIdIsValid limitXmin \<or> TransactionIdPrecedesOrEquals (proc_xmin proc) limitXmin)
              \<and> vxid_lxid proc \<noteq> 0) s [0..<numProcs s])
       (\<lambda>ps. Inr (map (proc_vxid \<circ> snd) ps))"

definition GetConflictingVirtualXIDs :: "TransactionId \<Rightarrow> u32 \<Rightarrow> shmem \<Rightarrow> (int \<times> u32) list res" where
  "GetConflictingVirtualXIDs limitXmin dbOid s =
     bindR (select_procs (\<lambda>_ _ proc.
              proc_pid proc \<noteq> 0 \<and> (dbOid = 0 \<or> databaseId proc = dbOid)
              \<and> (\<not> TransactionIdIsValid limitXmin
                 \<or> TransactionIdIsValid (proc_xmin proc) \<and> \<not> TransactionIdFollows (proc_xmin proc) limitXmin)
              \<and> vxid_lxid proc \<noteq> 0) s [0..<numProcs s])
       (\<lambda>ps. Inr (map (proc_vxid \<circ> snd) ps))"

text \<open>Reading without the lock: entries that are being added or removed are skipped.\<close>

fun count_active :: "nat option \<Rightarrow> int \<Rightarrow> shmem \<Rightarrow> nat list \<Rightarrow> int \<Rightarrow> int res" where
  "count_active me least s [] count = Inr count"
| "count_active me least s (i # is) count =
     bindR (load_at (pgprocnos s) (int i)) (\<lambda>pgprocno.
       if pgprocno = - 1 \<or> map_option int me = Some pgprocno then count_active me least s is count
       else bindR (slot_proc s i) (\<lambda>proc.
         if proc_xid proc = InvalidTransactionId \<or> proc_pid proc = 0 \<or> waits_for_lock proc
         then count_active me least s is count
         else if count + 1 \<ge> least then Inr (count + 1) else count_active me least s is (count + 1)))"

definition MinimumActiveBackends :: "nat option \<Rightarrow> int \<Rightarrow> shmem \<Rightarrow> bool res" where
  "MinimumActiveBackends me least s =
     (if least = 0 then Inr True
      else bindR (count_active me least s [0..<numProcs s] 0) (\<lambda>count. Inr (count \<ge> least)))"

definition CountDBConnections :: "u32 \<Rightarrow> shmem \<Rightarrow> nat res" where
  "CountDBConnections db s =
     bindR (select_procs (\<lambda>_ _ proc. proc_pid proc \<noteq> 0 \<and> isRegularBackend proc \<and> (db = 0 \<or> databaseId proc = db))
              s [0..<numProcs s]) (\<lambda>ps. Inr (length ps))"

definition CountUserBackends :: "u32 \<Rightarrow> shmem \<Rightarrow> nat res" where
  "CountUserBackends roleid s =
     bindR (select_procs (\<lambda>_ _ proc. proc_pid proc \<noteq> 0 \<and> isRegularBackend proc \<and> roleId proc = roleid)
              s [0..<numProcs s]) (\<lambda>ps. Inr (length ps))"

definition CountDBBackends :: "u32 \<Rightarrow> shmem \<Rightarrow> nat res" where
  "CountDBBackends db s =
     bindR (select_procs (\<lambda>_ _ proc. proc_pid proc \<noteq> 0 \<and> (db = 0 \<or> databaseId proc = db)) s [0..<numProcs s])
       (\<lambda>ps. Inr (length ps))"

text \<open>One round of \<^verbatim>\<open>CountOtherDBBackends\<close>: the backends and the prepared transactions of a database, not counting the caller.\<close>

fun count_other :: "nat \<Rightarrow> u32 \<Rightarrow> shmem \<Rightarrow> nat list \<Rightarrow> nat \<times> nat \<Rightarrow> (nat \<times> nat) res" where
  "count_other me db s [] r = Inr r"
| "count_other me db s (i # is) r =
     bindR (slot_proc s i) (\<lambda>proc.
       if databaseId proc \<noteq> db \<or> pgprocnos s ! i = int me then count_other me db s is r
       else if proc_pid proc = 0 then count_other me db s is (fst r, snd r + 1)
       else if \<not> i < length (hdr_statusFlags s) \<or> hdr_statusFlags s ! i AND PROC_IS_AUTOVACUUM \<noteq> 0 then Inl Panic
       else count_other me db s is (fst r + 1, snd r))"

text \<open>
  \<open>rounds\<close> is the shared memory found in each of the \<open>50\<close> rounds, \<open>check\<close> the result of each check for interrupts.
\<close>

fun count_other_rounds ::
  "nat \<Rightarrow> u32 \<Rightarrow> (nat \<Rightarrow> unit res) \<Rightarrow> (nat \<Rightarrow> shmem) \<Rightarrow> nat list \<Rightarrow> nat \<times> nat \<Rightarrow> (nat \<times> nat) option res" where
  "count_other_rounds me db check rounds [] r = Inr (Some r)"
| "count_other_rounds me db check rounds (k # ks) r =
     bindR (check k) (\<lambda>_.
     bindR (count_other me db (rounds k) [0..<numProcs (rounds k)] (0, 0)) (\<lambda>r.
       if r = (0, 0) then Inr None else count_other_rounds me db check rounds ks r))"

definition CountOtherDBBackends ::
  "nat \<Rightarrow> u32 \<Rightarrow> (nat \<Rightarrow> unit res) \<Rightarrow> (nat \<Rightarrow> shmem) \<Rightarrow> (nat \<times> nat) option res" where
  "CountOtherDBBackends me db check rounds = count_other_rounds me db check rounds [0..<50] (0, 0)"

text \<open>Signalling processes: the list of the processes signalled, as pid and process number, is part of the result.\<close>

fun signal_first ::
  "int \<times> u32 \<Rightarrow> bool \<Rightarrow> nat list \<Rightarrow> shmem \<Rightarrow> (int \<times> (int \<times> int) list) res \<times> shmem" where
  "signal_first vxid pending [] s = (Inr (0, []), s)"
| "signal_first vxid pending (i # is) s =
     tryS (slot_proc s i) s (\<lambda>proc.
       if proc_vxid proc = vxid then
         (Inr (proc_pid proc, if proc_pid proc \<noteq> 0 then [(proc_pid proc, vxid_procNumber proc)] else []),
          set_proc (nat (pgprocnos s ! i)) (recoveryConflictPending_update (\<lambda>_. pending)) s)
       else signal_first vxid pending is s)"

definition SignalVirtualTransaction ::
  "int \<times> u32 \<Rightarrow> bool \<Rightarrow> shmem \<Rightarrow> (int \<times> (int \<times> int) list) res \<times> shmem" where
  "SignalVirtualTransaction vxid conflictPending s = signal_first vxid conflictPending [0..<numProcs s] s"

definition CancelVirtualTransaction :: "int \<times> u32 \<Rightarrow> shmem \<Rightarrow> (int \<times> (int \<times> int) list) res \<times> shmem" where
  "CancelVirtualTransaction vxid s = SignalVirtualTransaction vxid True s"

fun cancel_all :: "u32 \<Rightarrow> bool \<Rightarrow> nat list \<Rightarrow> (int \<times> int) list \<Rightarrow> shmem \<Rightarrow> (int \<times> int) list res \<times> shmem" where
  "cancel_all db pending [] sent s = (Inr sent, s)"
| "cancel_all db pending (i # is) sent s =
     tryS (slot_proc s i) s (\<lambda>proc.
       if db = 0 \<or> databaseId proc = db then
         cancel_all db pending is
           (if proc_pid proc \<noteq> 0 then sent @ [(proc_pid proc, vxid_procNumber proc)] else sent)
           (set_proc (nat (pgprocnos s ! i)) (recoveryConflictPending_update (\<lambda>_. pending)) s)
       else cancel_all db pending is sent s)"

definition CancelDBBackends :: "u32 \<Rightarrow> bool \<Rightarrow> shmem \<Rightarrow> (int \<times> int) list res \<times> shmem" where
  "CancelDBBackends db conflictPending s = cancel_all db conflictPending [0..<numProcs s] [] s"

text \<open>
  Terminating the backends of a database: nothing is signalled unless no prepared transaction uses it and the caller may signal every one of them.
  The result is the list of the pids signalled; \<open>s\<close>, \<open>s1\<close> and \<open>s2\<close> are the shared memory in the three passes.
\<close>

record terminate_env =
  te_user_id :: u32
  te_superuser_arg :: "u32 \<Rightarrow> bool res"
  te_superuser :: "bool res"
  te_has_privs_of_role :: "u32 \<Rightarrow> u32 \<Rightarrow> bool res"
  te_get_database_name :: "u32 \<Rightarrow> string option res"

definition ROLE_PG_SIGNAL_BACKEND :: u32 where "ROLE_PG_SIGNAL_BACKEND = 4200"

definition may_terminate :: "terminate_env \<Rightarrow> u32 \<Rightarrow> unit res" where
  "may_terminate env role_id =
     bindR (te_superuser_arg env role_id) (\<lambda>target_super.
     bindR (if target_super then bindR (te_superuser env) (\<lambda>su. Inr (\<not> su)) else Inr False) (\<lambda>denied.
       if denied then Inl InsufficientPrivilege
       else
         bindR (te_has_privs_of_role env (te_user_id env) role_id) (\<lambda>privs.
           if privs then Inr ()
           else bindR (te_has_privs_of_role env (te_user_id env) ROLE_PG_SIGNAL_BACKEND) (\<lambda>privs.
             if privs then Inr () else Inl InsufficientPrivilege))))"

fun check_terminate :: "terminate_env \<Rightarrow> shmem \<Rightarrow> int list \<Rightarrow> unit res" where
  "check_terminate env s [] = Inr ()"
| "check_terminate env s (pid # pids) =
     bindR (BackendPidGetProc pid s) (\<lambda>found.
       case found of
         None \<Rightarrow> check_terminate env s pids
       | Some proc \<Rightarrow> bindR (may_terminate env (roleId proc)) (\<lambda>_. check_terminate env s pids))"

fun signal_terminate :: "shmem \<Rightarrow> int list \<Rightarrow> int list res" where
  "signal_terminate s [] = Inr []"
| "signal_terminate s (pid # pids) =
     bindR (BackendPidGetProc pid s) (\<lambda>found.
     bindR (signal_terminate s pids) (\<lambda>sent. Inr (if found = None then sent else pid # sent)))"

definition TerminateOtherDBBackends ::
  "terminate_env \<Rightarrow> nat \<Rightarrow> u32 \<Rightarrow> shmem \<Rightarrow> shmem \<Rightarrow> shmem \<Rightarrow> int list res" where
  "TerminateOtherDBBackends env me db s s1 s2 =
     bindR (select_procs (\<lambda>_ pgprocno proc. databaseId proc = db \<and> pgprocno \<noteq> int me) s [0..<numProcs s]) (\<lambda>ps.
       let pids = filter (\<lambda>pid. pid \<noteq> 0) (map (proc_pid \<circ> snd) ps) in
       if length pids < length ps then
         bindR (te_get_database_name env db) (\<lambda>name.
           case name of None \<Rightarrow> Inl Panic | Some dbname \<Rightarrow> Inl (ObjectInUse dbname))
       else
         bindR (check_terminate env s1 pids) (\<lambda>_. signal_terminate s2 pids))"

end
