(* ===== verification/ProcSnapshot.thy ===== *)
theory ProcSnapshot
  imports ProcArray
begin

unbundle bit_operations_syntax

section \<open>Snapshots and horizons\<close>

text \<open>
  The second half of \<^verbatim>\<open>backend/storage/ipc/procarray/src/lib.rs\<close> and \<^verbatim>\<open>running.rs\<close>: taking and reusing snapshots,
  asking whether a transaction is in progress, the horizons below which row versions may be removed, and the list of running transactions for a standby.
  The record \<open>backend\<close> holds the thread-local variables of one backend, \<open>pa_env\<close> what is asked of other modules.

  Taking a snapshot holds the array's lock in shared mode, which keeps transactions from ending but not from being assigned ids. What the other
  processes do meanwhile is the argument \<open>sched\<close>: between the store and the check of a reuse, until the lock is granted, and until slot \<open>i\<close> of the
  array is read; the scan is over at slot \<open>numProcs\<close>.
\<close>

record GlobalVisState =
  definitely_needed :: FullTransactionId
  maybe_needed :: FullTransactionId

record backend =
  MyDatabaseId :: u32
  TRANSACTION_XMIN :: TransactionId
  RECENT_XMIN :: TransactionId
  CACHED_XID_NOT_IN_PROGRESS :: TransactionId
  GLOBAL_VIS_SHARED_RELS :: GlobalVisState
  GLOBAL_VIS_CATALOG_RELS :: GlobalVisState
  GLOBAL_VIS_DATA_RELS :: GlobalVisState
  GLOBAL_VIS_TEMP_RELS :: GlobalVisState
  COMPUTE_XID_HORIZONS_RESULT_LAST_XMIN :: TransactionId

record pa_env =
  pe_recovery_in_progress :: bool
  pe_is_current :: "TransactionId \<Rightarrow> bool"
  pe_did_abort :: "TransactionId \<Rightarrow> bool res"
  pe_topmost :: "TransactionId \<Rightarrow> TransactionId res"
  pe_current_command_id :: "CommandId res"

record sched =
  sch_verify :: "shmem \<Rightarrow> shmem"
  sch_lock :: "shmem \<Rightarrow> shmem"
  sch_scan :: "shmem \<Rightarrow> nat \<Rightarrow> shmem"

subsection \<open>The published minimum\<close>

definition ProcArraySetOwnXmin :: "nat \<Rightarrow> TransactionId \<Rightarrow> shmem \<Rightarrow> backend \<Rightarrow> shmem \<times> backend" where
  "ProcArraySetOwnXmin me xm s b =
     (set_proc me (proc_xmin_update (\<lambda>_. xm)) s, b \<lparr> TRANSACTION_XMIN := xm \<rparr>)"

definition ProcArrayOwnXmin :: "nat \<Rightarrow> shmem \<Rightarrow> TransactionId" where
  "ProcArrayOwnXmin me s = proc_xmin (allProcs s me)"

definition ProcArrayInstallRestoredXmin ::
  "nat \<Rightarrow> TransactionId \<Rightarrow> nat \<Rightarrow> shmem \<Rightarrow> backend \<Rightarrow> bool res \<times> shmem \<times> backend" where
  "ProcArrayInstallRestoredXmin me xm source s b =
     (let src = allProcs s source; xid = proc_xmin src in
      if \<not> TransactionIdIsNormal xm then (Inl Panic, s, b)
      else if databaseId src = MyDatabaseId b \<and> TransactionIdIsNormal xid \<and> TransactionIdPrecedesOrEquals xid xm then
        let flags = (proc_statusFlags (allProcs s me) AND NOT PROC_XMIN_FLAGS) OR (proc_statusFlags src AND PROC_XMIN_FLAGS);
            s = set_proc me (proc_xmin_update (\<lambda>_. xm)) s; b = b \<lparr> TRANSACTION_XMIN := xm \<rparr> in
        (case set_status_flags me flags s of (Inl e, s) \<Rightarrow> (Inl e, s, b) | (Inr _, s) \<Rightarrow> (Inr True, s, b))
      else (Inr False, s, b))"

subsection \<open>Taking a snapshot\<close>

definition GetSnapshotDataReuse ::
  "nat \<Rightarrow> (shmem \<Rightarrow> shmem) \<Rightarrow> SnapshotData \<Rightarrow> shmem \<Rightarrow> backend \<Rightarrow> bool res \<times> SnapshotData \<times> shmem \<times> backend" where
  "GetSnapshotDataReuse me others snapshot s b =
    (if snapXactCompletionCount snapshot = 0 then (Inr False, snapshot, s, b)
     else if xactCompletionCount s \<noteq> snapXactCompletionCount snapshot then (Inr False, snapshot, s, b)
     else
       let published = (\<not> TransactionIdIsValid (proc_xmin (allProcs s me)));
           s = (if published then set_proc me (proc_xmin_update (\<lambda>_. snap_xmin snapshot)) s else s);
           s = others s in
       if xactCompletionCount s \<noteq> snapXactCompletionCount snapshot then
         (Inr False, snapshot,
          if published then set_proc me (proc_xmin_update (\<lambda>_. InvalidTransactionId)) s else s, b)
       else
         let b = (if published then b \<lparr> TRANSACTION_XMIN := snap_xmin snapshot \<rparr> else b);
             b = b \<lparr> RECENT_XMIN := snap_xmin snapshot \<rparr> in
         if \<not> TransactionIdPrecedesOrEquals (TRANSACTION_XMIN b) (RECENT_XMIN b) then (Inl Panic, snapshot, s, b)
         else (Inr True, snapshot \<lparr> active_count := 0, regd_count := 0, snap_copied := False \<rparr>, s, b))"

record snap_scan =
  sc_xmin :: TransactionId
  sc_xip :: "TransactionId list"
  sc_subxip :: "TransactionId list"
  sc_overflowed :: bool

text \<open>The subtransactions of one slot.\<close>

definition scan_subxids :: "shmem \<Rightarrow> nat \<Rightarrow> snap_scan \<Rightarrow> snap_scan res" where
  "scan_subxids s i a =
    (if sc_overflowed a then Inr a
     else
       let substate = hdr_subxidStates s ! i in
       if sx_overflowed substate then Inr (a \<lparr> sc_overflowed := True \<rparr>)
       else if sx_count substate > 0 then
         bindR (slot_proc s i) (\<lambda>proc.
         bindR (slice_to (sx_count substate) (proc_subxids proc)) (\<lambda>xs. Inr (a \<lparr> sc_subxip := sc_subxip a @ xs \<rparr>)))
       else Inr a)"

fun snapshot_scan ::
  "(nat \<Rightarrow> shmem) \<Rightarrow> nat \<Rightarrow> TransactionId \<Rightarrow> nat list \<Rightarrow> snap_scan \<Rightarrow> snap_scan res" where
  "snapshot_scan view myoff xmax [] a = Inr a"
| "snapshot_scan view myoff xmax (i # is) a =
    (let s = view i in
     if \<not> hdr_bounds s i then Inl Panic
     else
       let xid = hdr_xids s ! i in
       if xid = InvalidTransactionId \<or> i = myoff then snapshot_scan view myoff xmax is a
       else if \<not> TransactionIdIsNormal xid then Inl Panic
       else if \<not> NormalTransactionIdPrecedes xid xmax then snapshot_scan view myoff xmax is a
       else if hdr_statusFlags s ! i AND (PROC_IN_LOGICAL_DECODING OR PROC_IN_VACUUM) \<noteq> 0
       then snapshot_scan view myoff xmax is a
       else
         bindR (scan_subxids s i
                  (a \<lparr> sc_xmin := (if NormalTransactionIdPrecedes xid (sc_xmin a) then xid else sc_xmin a),
                       sc_xip := sc_xip a @ [xid] \<rparr>))
           (\<lambda>a. snapshot_scan view myoff xmax is a))"

definition recovery_scan :: "TransactionId \<Rightarrow> TransactionId \<Rightarrow> shmem \<Rightarrow> snap_scan res" where
  "recovery_scan xmin0 xmax s =
    (if \<not> maxKnownAssignedXids s \<le> int (GetMaxSnapshotSubxidCount s) then Inl Panic
     else
       bindR (KnownAssignedXidsGetAndSetXmin xmin0 xmax s) (\<lambda>(subs, xmin1).
         Inr \<lparr> sc_xmin = xmin1, sc_xip = [], sc_subxip = subs,
               sc_overflowed = TransactionIdPrecedesOrEquals xmin1 (lastOverflowedXid s) \<rparr>))"

text \<open>The bounds for removal that a snapshot gives for free.\<close>

definition vis_advance :: "FullTransactionId \<Rightarrow> FullTransactionId \<Rightarrow> GlobalVisState \<Rightarrow> GlobalVisState" where
  "vis_advance def_vis oldestfxid v =
     v \<lparr> definitely_needed := FullTransactionIdNewer def_vis (definitely_needed v),
         maybe_needed := FullTransactionIdNewer (maybe_needed v) oldestfxid \<rparr>"

definition temp_needed :: "FullTransactionId \<Rightarrow> TransactionId \<Rightarrow> FullTransactionId" where
  "temp_needed latest_completed myxid =
    (if TransactionIdIsNormal myxid then FullXidRelativeTo latest_completed myxid
     else
       let nxt = from_u64 (fxid_value latest_completed + 1) in
       if \<not> TransactionIdIsNormal (fxid_xid nxt)
       then from_u64 (fxid_value nxt + ucast (FirstNormalTransactionId - fxid_xid nxt))
       else nxt)"

definition snapshot_global_vis ::
  "FullTransactionId \<Rightarrow> TransactionId \<Rightarrow> TransactionId \<Rightarrow> TransactionId \<Rightarrow> TransactionId \<Rightarrow> TransactionId
     \<Rightarrow> backend \<Rightarrow> backend" where
  "snapshot_global_vis latest_completed oldestxid xm slot_xmin slot_catalog_xmin myxid b =
    (let oldestfxid = FullXidRelativeTo latest_completed oldestxid;
         def_vis_xid_data = TransactionIdOlder xm slot_xmin;
         def_vis_xid = TransactionIdOlder slot_catalog_xmin def_vis_xid_data;
         def_vis_fxid = FullXidRelativeTo latest_completed def_vis_xid;
         def_vis_fxid_data = FullXidRelativeTo latest_completed def_vis_xid_data;
         temp = temp_needed latest_completed myxid in
     b \<lparr> GLOBAL_VIS_SHARED_RELS := vis_advance def_vis_fxid oldestfxid (GLOBAL_VIS_SHARED_RELS b),
         GLOBAL_VIS_CATALOG_RELS := vis_advance def_vis_fxid oldestfxid (GLOBAL_VIS_CATALOG_RELS b),
         GLOBAL_VIS_DATA_RELS := vis_advance def_vis_fxid_data oldestfxid (GLOBAL_VIS_DATA_RELS b),
         GLOBAL_VIS_TEMP_RELS := \<lparr> definitely_needed = temp, maybe_needed = temp \<rparr> \<rparr>)"

text \<open>The part of \<^verbatim>\<open>GetSnapshotData\<close> under the lock, and what follows it; \<open>view i\<close> is the shared memory when slot \<open>i\<close> is read.\<close>

definition build_snapshot ::
  "pa_env \<Rightarrow> nat \<Rightarrow> (nat \<Rightarrow> shmem) \<Rightarrow> SnapshotData \<Rightarrow> shmem \<Rightarrow> backend
     \<Rightarrow> unit res \<times> SnapshotData \<times> shmem \<times> backend" where
  "build_snapshot env me view snapshot s b =
    (let latest_completed = latest_completed_xid s;
         off = pgxactoff (allProcs s me) in
     if \<not> off < length (hdr_xids s) \<or> hdr_xids s ! off \<noteq> proc_xid (allProcs s me) then (Inl Panic, snapshot, s, b)
     else
       let myxid = hdr_xids s ! off;
           xmax' = TransactionIdAdvance (fxid_xid latest_completed);
           xmin' = (if TransactionIdIsNormal myxid \<and> NormalTransactionIdPrecedes myxid xmax' then myxid else xmax');
           snapshot = snapshot \<lparr> takenDuringRecovery := pe_recovery_in_progress env \<rparr> in
       case (if \<not> pe_recovery_in_progress env then
               if \<not> numProcs s \<le> maxProcs s then Inl Panic
               else snapshot_scan view off xmax' [0..<numProcs s]
                      \<lparr> sc_xmin = xmin', sc_xip = [], sc_subxip = [], sc_overflowed = False \<rparr>
             else recovery_scan xmin' xmax' s) of
         Inl e \<Rightarrow> (Inl e, snapshot, s, b)
       | Inr a \<Rightarrow>
           let s1 = view (numProcs s);
               publish = (\<not> TransactionIdIsValid (proc_xmin (allProcs s1 me)));
               s' = (if publish then set_proc me (proc_xmin_update (\<lambda>_. sc_xmin a)) s1 else s1);
               b = (if publish then b \<lparr> TRANSACTION_XMIN := sc_xmin a \<rparr> else b) in
           if \<not> TransactionIdIsValid (fxid_xid latest_completed) \<or> \<not> TransactionIdIsValid (oldestXid s)
           then (Inl Panic, snapshot, s', b)
           else
             let b = snapshot_global_vis latest_completed (oldestXid s) (sc_xmin a) (replication_slot_xmin s1)
                       (replication_slot_catalog_xmin s1) myxid b;
                 b = b \<lparr> RECENT_XMIN := sc_xmin a \<rparr> in
             if \<not> TransactionIdPrecedesOrEquals (TRANSACTION_XMIN b) (RECENT_XMIN b) then (Inl Panic, snapshot, s', b)
             else
               let snapshot = snapshot \<lparr> snap_xip := sc_xip a, snap_subxip := sc_subxip a, snap_xmin := sc_xmin a,
                     snap_xmax := xmax', snap_xcnt := word_of_nat (length (sc_xip a)),
                     snap_subxcnt := int (length (sc_subxip a)), suboverflowed := sc_overflowed a,
                     snapXactCompletionCount := xactCompletionCount s \<rparr> in
               case pe_current_command_id env of
                 Inl e \<Rightarrow> (Inl e, snapshot, s', b)
               | Inr cid \<Rightarrow>
                   (Inr (), snapshot \<lparr> curcid := cid, active_count := 0, regd_count := 0, snap_copied := False \<rparr>, s', b))"

definition GetSnapshotData ::
  "pa_env \<Rightarrow> nat \<Rightarrow> sched \<Rightarrow> SnapshotData \<Rightarrow> shmem \<Rightarrow> backend \<Rightarrow> unit res \<times> SnapshotData \<times> shmem \<times> backend" where
  "GetSnapshotData env me sch snapshot s b =
    (case GetSnapshotDataReuse me (sch_verify sch) snapshot s b of
       (Inl e, snapshot, s, b) \<Rightarrow> (Inl e, snapshot, s, b)
     | (Inr True, snapshot, s, b) \<Rightarrow>
         (case pe_current_command_id env of
            Inl e \<Rightarrow> (Inl e, snapshot, s, b)
          | Inr cid \<Rightarrow> (Inr (), snapshot \<lparr> curcid := cid \<rparr>, s, b))
     | (Inr False, snapshot, s, b) \<Rightarrow>
         let s = sch_lock sch s in build_snapshot env me (sch_scan sch s) snapshot s b)"

subsection \<open>Is a transaction in progress?\<close>

text \<open>
  The scan looks for the id among the top-level ids and the cached subtransaction ids of the other processes; it gives back
  \<open>None\<close> when it has found it, and else the ids of the transactions whose cache has overflowed.
\<close>

fun in_progress_scan ::
  "(nat \<Rightarrow> shmem) \<Rightarrow> nat \<Rightarrow> TransactionId \<Rightarrow> nat list \<Rightarrow> TransactionId list \<Rightarrow> TransactionId list option res" where
  "in_progress_scan view myoff xid [] xids = Inr (Some xids)"
| "in_progress_scan view myoff xid (i # is) xids =
    (let s = view i in
     if i = myoff then in_progress_scan view myoff xid is xids
     else if \<not> hdr_bounds s i then Inl Panic
     else
       let pxid = hdr_xids s ! i in
       if \<not> TransactionIdIsValid pxid then in_progress_scan view myoff xid is xids
       else if pxid = xid then Inr None
       else if TransactionIdPrecedes xid pxid then in_progress_scan view myoff xid is xids
       else
         let substate = hdr_subxidStates s ! i in
         bindR (slot_proc s i) (\<lambda>proc.
         bindR (slice_to (sx_count substate) (proc_subxids proc)) (\<lambda>cached.
           if xid \<in> set cached then Inr None
           else in_progress_scan view myoff xid is (if sx_overflowed substate then xids @ [pxid] else xids))))"

definition transaction_id_is_in_progress_scan ::
  "pa_env \<Rightarrow> nat \<Rightarrow> (nat \<Rightarrow> shmem) \<Rightarrow> TransactionId \<Rightarrow> shmem \<Rightarrow> backend \<Rightarrow> bool res \<times> backend" where
  "transaction_id_is_in_progress_scan env me view xid s b =
    (let mypgxactoff = pgxactoff (allProcs s me);
         not_running = (Inr False, b \<lparr> CACHED_XID_NOT_IN_PROGRESS := xid \<rparr>) in
     if TransactionIdPrecedes (fxid_xid (latest_completed_xid s)) xid then (Inr True, b)
     else
       tryS (in_progress_scan view mypgxactoff xid [0..<numProcs s] []) b (\<lambda>found.
         case found of
           None \<Rightarrow> (Inr True, b)
         | Some xids \<Rightarrow>
             tryS (if pe_recovery_in_progress env then
                     if xids \<noteq> [] then Inl Panic
                     else
                       bindR (KnownAssignedXidExists xid s) (\<lambda>known.
                         if known then Inr None
                         else if TransactionIdPrecedesOrEquals xid (lastOverflowedXid s)
                         then bindR (KnownAssignedXidsGet xid s) (\<lambda>xs. Inr (Some xs))
                         else Inr (Some xids))
                   else Inr (Some xids)) b (\<lambda>found.
               case found of
                 None \<Rightarrow> (Inr True, b)
               | Some xids \<Rightarrow>
                   if xids = [] then not_running
                   else
                     tryS (pe_did_abort env xid) b (\<lambda>aborted.
                       if aborted then not_running
                       else
                         tryS (pe_topmost env xid) b (\<lambda>topxid.
                           if \<not> TransactionIdIsValid topxid then (Inl Panic, b)
                           else if topxid \<noteq> xid \<and> topxid \<in> set xids then (Inr True, b)
                           else not_running)))))"

definition TransactionIdIsInProgress ::
  "pa_env \<Rightarrow> nat \<Rightarrow> (nat \<Rightarrow> shmem) \<Rightarrow> TransactionId \<Rightarrow> shmem \<Rightarrow> backend \<Rightarrow> bool res \<times> backend" where
  "TransactionIdIsInProgress env me view xid s b =
    (if TransactionIdPrecedes xid (RECENT_XMIN b) then (Inr False, b)
     else if CACHED_XID_NOT_IN_PROGRESS b = xid then (Inr False, b)
     else if pe_is_current env xid then (Inr True, b)
     else transaction_id_is_in_progress_scan env me view xid s b)"

subsection \<open>Horizons\<close>

record ComputeXidHorizonsResult =
  hz_latest_completed :: FullTransactionId
  oldest_considered_running :: TransactionId
  shared_oldest_nonremovable :: TransactionId
  shared_oldest_nonremovable_raw :: TransactionId
  catalog_oldest_nonremovable :: TransactionId
  data_oldest_nonremovable :: TransactionId
  temp_oldest_nonremovable :: TransactionId
  slot_catalog_xmin :: TransactionId

fun horizon_scan ::
  "bool \<Rightarrow> u32 \<Rightarrow> shmem \<Rightarrow> nat list \<Rightarrow> ComputeXidHorizonsResult \<Rightarrow> ComputeXidHorizonsResult res" where
  "horizon_scan recov db s [] h = Inr h"
| "horizon_scan recov db s (i # is) h =
     bindR (slot_proc s i) (\<lambda>proc.
       if \<not> hdr_bounds s i then Inl Panic
       else
         let flags = hdr_statusFlags s ! i;
             xm = TransactionIdOlder (proc_xmin proc) (hdr_xids s ! i) in
         if \<not> TransactionIdIsValid xm then horizon_scan recov db s is h
         else
           let h = h \<lparr> oldest_considered_running := TransactionIdOlder (oldest_considered_running h) xm \<rparr> in
           if flags AND (PROC_IN_VACUUM OR PROC_IN_LOGICAL_DECODING) \<noteq> 0 then horizon_scan recov db s is h
           else
             let h = h \<lparr> shared_oldest_nonremovable := TransactionIdOlder (shared_oldest_nonremovable h) xm \<rparr> in
             if databaseId proc = db \<or> db = 0 \<or> flags AND PROC_AFFECTS_ALL_HORIZONS \<noteq> 0 \<or> recov
             then horizon_scan recov db s is
                    (h \<lparr> data_oldest_nonremovable := TransactionIdOlder (data_oldest_nonremovable h) xm \<rparr>)
             else horizon_scan recov db s is h)"

definition vis_apply :: "FullTransactionId \<Rightarrow> TransactionId \<Rightarrow> bool \<Rightarrow> GlobalVisState \<Rightarrow> GlobalVisState" where
  "vis_apply latest_completed nonremovable temp v =
    (let m = FullXidRelativeTo latest_completed nonremovable in
     v \<lparr> maybe_needed := m,
         definitely_needed := (if temp then m else FullTransactionIdNewer m (definitely_needed v)) \<rparr>)"

definition GlobalVisUpdateApply :: "ComputeXidHorizonsResult \<Rightarrow> backend \<Rightarrow> backend" where
  "GlobalVisUpdateApply h b =
     b \<lparr> GLOBAL_VIS_SHARED_RELS := vis_apply (hz_latest_completed h) (shared_oldest_nonremovable h) False (GLOBAL_VIS_SHARED_RELS b),
         GLOBAL_VIS_CATALOG_RELS := vis_apply (hz_latest_completed h) (catalog_oldest_nonremovable h) False (GLOBAL_VIS_CATALOG_RELS b),
         GLOBAL_VIS_DATA_RELS := vis_apply (hz_latest_completed h) (data_oldest_nonremovable h) False (GLOBAL_VIS_DATA_RELS b),
         GLOBAL_VIS_TEMP_RELS := vis_apply (hz_latest_completed h) (temp_oldest_nonremovable h) True (GLOBAL_VIS_TEMP_RELS b),
         COMPUTE_XID_HORIZONS_RESULT_LAST_XMIN := RECENT_XMIN b \<rparr>"

definition ComputeXidHorizons ::
  "pa_env \<Rightarrow> nat \<Rightarrow> shmem \<Rightarrow> backend \<Rightarrow> ComputeXidHorizonsResult res \<times> backend" where
  "ComputeXidHorizons env me s b =
    (let recov = pe_recovery_in_progress env;
         latest = latest_completed_xid s;
         initial = TransactionIdAdvance (fxid_xid latest);
         myxid = proc_xid (allProcs s me);
         h0 = \<lparr> hz_latest_completed = latest, oldest_considered_running = initial,
                shared_oldest_nonremovable = initial, shared_oldest_nonremovable_raw = initial,
                catalog_oldest_nonremovable = InvalidTransactionId, data_oldest_nonremovable = initial,
                temp_oldest_nonremovable = (if TransactionIdIsValid myxid then myxid else initial),
                slot_catalog_xmin = InvalidTransactionId \<rparr>;
         slot_xmin = replication_slot_xmin s;
         slot_cat = replication_slot_catalog_xmin s in
     if \<not> TransactionIdIsValid (fxid_xid latest) then (Inl Panic, b)
     else
       tryS (horizon_scan recov (MyDatabaseId b) s [0..<numProcs s] h0) b (\<lambda>h.
       tryS (if recov then KnownAssignedXidsGetOldestXmin s else Inr InvalidTransactionId) b (\<lambda>kaxmin.
         let h = (if recov then
                    h \<lparr> oldest_considered_running := TransactionIdOlder (oldest_considered_running h) kaxmin,
                        shared_oldest_nonremovable := TransactionIdOlder (shared_oldest_nonremovable h) kaxmin,
                        data_oldest_nonremovable := TransactionIdOlder (data_oldest_nonremovable h) kaxmin \<rparr>
                  else h);
             raw = shared_oldest_nonremovable h;
             shared = TransactionIdOlder (TransactionIdOlder raw slot_xmin) slot_cat;
             data = TransactionIdOlder (data_oldest_nonremovable h) slot_xmin;
             catal = TransactionIdOlder data slot_cat;
             running = TransactionIdOlder (TransactionIdOlder (TransactionIdOlder (oldest_considered_running h) shared) catal) data;
             h = h \<lparr> shared_oldest_nonremovable_raw := raw, slot_catalog_xmin := slot_cat, shared_oldest_nonremovable := shared,
                    data_oldest_nonremovable := data, catalog_oldest_nonremovable := catal, oldest_considered_running := running \<rparr> in
         (Inr h, GlobalVisUpdateApply h b))))"

datatype GlobalVisHorizonKind = Shared | Catalog | Data | Temp

record rel_vis =
  relisshared :: bool
  is_catalog_relation :: bool
  rd_islocaltemp :: bool
  rd_createSubid :: u32

definition GlobalVisHorizonKindForRel :: "pa_env \<Rightarrow> rel_vis \<Rightarrow> GlobalVisHorizonKind" where
  "GlobalVisHorizonKindForRel env rel =
    (if relisshared rel \<or> pe_recovery_in_progress env then Shared
     else if is_catalog_relation rel then Catalog
     else if \<not> (rd_islocaltemp rel \<or> rd_createSubid rel \<noteq> 0) then Data
     else Temp)"

fun horizon_of :: "GlobalVisHorizonKind \<Rightarrow> ComputeXidHorizonsResult \<Rightarrow> TransactionId" where
  "horizon_of Shared h = shared_oldest_nonremovable h"
| "horizon_of Catalog h = catalog_oldest_nonremovable h"
| "horizon_of Data h = data_oldest_nonremovable h"
| "horizon_of Temp h = temp_oldest_nonremovable h"

definition GetOldestNonRemovableTransactionIdShared ::
  "pa_env \<Rightarrow> nat \<Rightarrow> shmem \<Rightarrow> backend \<Rightarrow> TransactionId res \<times> backend" where
  "GetOldestNonRemovableTransactionIdShared env me s b =
     bindS (ComputeXidHorizons env me s b) (\<lambda>h b. (Inr (shared_oldest_nonremovable h), b))"

definition GetReplicationHorizons ::
  "pa_env \<Rightarrow> nat \<Rightarrow> shmem \<Rightarrow> backend \<Rightarrow> (TransactionId \<times> TransactionId) res \<times> backend" where
  "GetReplicationHorizons env me s b =
     bindS (ComputeXidHorizons env me s b) (\<lambda>h b. (Inr (shared_oldest_nonremovable_raw h, slot_catalog_xmin h), b))"

definition GetOldestNonRemovableTransactionId ::
  "pa_env \<Rightarrow> nat \<Rightarrow> rel_vis \<Rightarrow> shmem \<Rightarrow> backend \<Rightarrow> TransactionId res \<times> backend" where
  "GetOldestNonRemovableTransactionId env me rel s b =
     bindS (ComputeXidHorizons env me s b) (\<lambda>h b. (Inr (horizon_of (GlobalVisHorizonKindForRel env rel) h), b))"

definition GetOldestTransactionIdConsideredRunning ::
  "pa_env \<Rightarrow> nat \<Rightarrow> shmem \<Rightarrow> backend \<Rightarrow> TransactionId res \<times> backend" where
  "GetOldestTransactionIdConsideredRunning env me s b =
     bindS (ComputeXidHorizons env me s b) (\<lambda>h b. (Inr (oldest_considered_running h), b))"

fun vis_state_cell :: "GlobalVisHorizonKind \<Rightarrow> backend \<Rightarrow> GlobalVisState" where
  "vis_state_cell Shared b = GLOBAL_VIS_SHARED_RELS b"
| "vis_state_cell Catalog b = GLOBAL_VIS_CATALOG_RELS b"
| "vis_state_cell Data b = GLOBAL_VIS_DATA_RELS b"
| "vis_state_cell Temp b = GLOBAL_VIS_TEMP_RELS b"

definition GlobalVisTestFor :: "pa_env \<Rightarrow> rel_vis \<Rightarrow> backend \<Rightarrow> GlobalVisHorizonKind res" where
  "GlobalVisTestFor env rel b =
    (let handle = GlobalVisHorizonKindForRel env rel; v = vis_state_cell handle b in
     if \<not> (fxid_is_valid (definitely_needed v) \<and> fxid_is_valid (maybe_needed v)) then Inl Panic else Inr handle)"

definition GlobalVisTestShouldUpdate :: "GlobalVisState \<Rightarrow> backend \<Rightarrow> bool" where
  "GlobalVisTestShouldUpdate v b =
    (if \<not> TransactionIdIsValid (COMPUTE_XID_HORIZONS_RESULT_LAST_XMIN b) then True
     else if fxid_value (maybe_needed v) \<ge> fxid_value (definitely_needed v) then False
     else RECENT_XMIN b \<noteq> COMPUTE_XID_HORIZONS_RESULT_LAST_XMIN b)"

definition GlobalVisTestIsRemovableFullXid ::
  "pa_env \<Rightarrow> nat \<Rightarrow> GlobalVisHorizonKind \<Rightarrow> FullTransactionId \<Rightarrow> shmem \<Rightarrow> backend \<Rightarrow> bool res \<times> backend" where
  "GlobalVisTestIsRemovableFullXid env me handle fxid s b =
    (let v = vis_state_cell handle b in
     if fxid_value fxid < fxid_value (maybe_needed v) then (Inr True, b)
     else if fxid_value fxid \<ge> fxid_value (definitely_needed v) then (Inr False, b)
     else if GlobalVisTestShouldUpdate v b then
       bindS (ComputeXidHorizons env me s b) (\<lambda>_ b.
         let v = vis_state_cell handle b in
         if \<not> fxid_value fxid < fxid_value (definitely_needed v) then (Inl Panic, b)
         else (Inr (fxid_value fxid < fxid_value (maybe_needed v)), b))
     else (Inr False, b))"

definition GlobalVisTestIsRemovableXid ::
  "pa_env \<Rightarrow> nat \<Rightarrow> GlobalVisHorizonKind \<Rightarrow> TransactionId \<Rightarrow> shmem \<Rightarrow> backend \<Rightarrow> bool res \<times> backend" where
  "GlobalVisTestIsRemovableXid env me handle xid s b =
    (let v = vis_state_cell handle b in
     if \<not> TransactionIdIsValid xid \<or> \<not> TransactionIdIsValid (fxid_xid (definitely_needed v)) then (Inl Panic, b)
     else GlobalVisTestIsRemovableFullXid env me handle (FullXidRelativeTo (definitely_needed v) xid) s b)"

definition GlobalVisCheckRemovableFullXid ::
  "pa_env \<Rightarrow> nat \<Rightarrow> rel_vis \<Rightarrow> FullTransactionId \<Rightarrow> shmem \<Rightarrow> backend \<Rightarrow> bool res \<times> backend" where
  "GlobalVisCheckRemovableFullXid env me rel fxid s b =
     tryS (GlobalVisTestFor env rel b) b (\<lambda>handle. GlobalVisTestIsRemovableFullXid env me handle fxid s b)"

subsection \<open>The running transactions for a standby\<close>

record RunningTransactions =
  rt_xids :: "TransactionId list"
  rt_xcnt :: nat
  rt_subxcnt :: nat
  rt_subxid_overflow :: bool
  rt_next_xid :: TransactionId
  rt_oldest_running_xid :: TransactionId
  rt_oldest_database_running_xid :: TransactionId
  rt_latest_completed_xid :: TransactionId

text \<open>First pass: the ids, the oldest of them, of all databases and of one, and whether any cache has overflowed.\<close>

fun running_tops ::
  "u32 \<Rightarrow> shmem \<Rightarrow> nat list \<Rightarrow> TransactionId list \<times> TransactionId \<times> TransactionId \<times> bool
     \<Rightarrow> (TransactionId list \<times> TransactionId \<times> TransactionId \<times> bool) res" where
  "running_tops db s [] r = Inr r"
| "running_tops db s (i # is) (xids, oldest, oldest_db, over) =
    (if \<not> hdr_bounds s i then Inl Panic
     else
       let xid = hdr_xids s ! i in
       if \<not> TransactionIdIsValid xid then running_tops db s is (xids, oldest, oldest_db, over)
       else
         let oldest = (if TransactionIdPrecedes xid oldest then xid else oldest) in
         bindR (if TransactionIdPrecedes xid oldest_db
                then bindR (slot_proc s i) (\<lambda>proc. Inr (if databaseId proc = db then xid else oldest_db))
                else Inr oldest_db) (\<lambda>oldest_db.
           running_tops db s is (xids @ [xid], oldest, oldest_db, over \<or> sx_overflowed (hdr_subxidStates s ! i))))"

fun running_subs :: "shmem \<Rightarrow> nat list \<Rightarrow> TransactionId list \<Rightarrow> TransactionId list res" where
  "running_subs s [] xids = Inr xids"
| "running_subs s (i # is) xids =
    (if \<not> i < length (hdr_subxidStates s) then Inl Panic
     else
       let nsubxids = sx_count (hdr_subxidStates s ! i) in
       if nsubxids > 0 then
         bindR (slot_proc s i) (\<lambda>proc.
         bindR (slice_to nsubxids (proc_subxids proc)) (\<lambda>xs. running_subs s is (xids @ xs)))
       else running_subs s is xids)"

definition GetRunningTransactionData :: "pa_env \<Rightarrow> u32 \<Rightarrow> shmem \<Rightarrow> RunningTransactions res" where
  "GetRunningTransactionData env db s =
    (if pe_recovery_in_progress env then Inl Panic
     else
       let latest = fxid_xid (latest_completed_xid s);
           next_xid = fxid_xid (nextFullXid s) in
       bindR (running_tops db s [0..<numProcs s] ([], next_xid, next_xid, False)) (\<lambda>(tops, oldest, oldest_db, over).
       bindR (if \<not> over then running_subs s [0..<numProcs s] [] else Inr []) (\<lambda>subs.
         if \<not> TransactionIdIsValid next_xid \<or> \<not> TransactionIdIsValid oldest \<or> \<not> TransactionIdIsNormal latest then Inl Panic
         else
           Inr \<lparr> rt_xids = tops @ subs, rt_xcnt = length tops, rt_subxcnt = length subs, rt_subxid_overflow = over,
                 rt_next_xid = next_xid, rt_oldest_running_xid = oldest, rt_oldest_database_running_xid = oldest_db,
                 rt_latest_completed_xid = latest \<rparr>)))"

end
