(* ===== verification/ProcArraySpec.thy ===== *)
theory ProcArraySpec
  imports ProcArray
begin

unbundle bit_operations_syntax

section \<open>The process array and its mirrors\<close>

text \<open>
  The array is kept sorted by process number, and for speed the id, the state of the subtransaction cache and the flags of each
  process are mirrored in dense arrays at the process's index. \<open>pa_wf ps s\<close> says that \<open>ps\<close> are the processes of the array and that the mirrors are
  right. \<open>put_proc\<close> changes a process together with its mirrors; on well-formed states every operation of the array that
  changes one process is such a change, so that one lemma shows that all of them keep the mirrors right.
\<close>

definition mirrored :: "shmem \<Rightarrow> nat \<Rightarrow> PGPROC_XACT \<Rightarrow> bool" where
  "mirrored s i P \<longleftrightarrow> pgxactoff P = i \<and> hdr_xids s ! i = proc_xid P
     \<and> hdr_subxidStates s ! i = subxidStatus P \<and> hdr_statusFlags s ! i = proc_statusFlags P"

definition proc_ok :: "PGPROC_XACT \<Rightarrow> bool" where
  "proc_ok P \<longleftrightarrow> length (proc_subxids P) = PGPROC_MAX_CACHED_SUBXIDS \<and> sx_count (subxidStatus P) \<le> PGPROC_MAX_CACHED_SUBXIDS"

definition pa_sizes :: "shmem \<Rightarrow> bool" where
  "pa_sizes s \<longleftrightarrow> length (pgprocnos s) = maxProcs s \<and> maxProcs s \<le> length (hdr_xids s) \<and> maxProcs s < 2 ^ 31
     \<and> length (hdr_subxidStates s) = length (hdr_xids s) \<and> length (hdr_statusFlags s) = length (hdr_xids s)"

definition pa_wf :: "nat list \<Rightarrow> shmem \<Rightarrow> bool" where
  "pa_wf ps s \<longleftrightarrow> pa_sizes s \<and> numProcs s = length ps \<and> length ps \<le> maxProcs s
     \<and> (\<forall>i < maxProcs s. pgprocnos s ! i = (if i < length ps then int (ps ! i) else - 1))
     \<and> sorted_wrt (<) ps \<and> (\<forall>p \<in> set ps. p < length (hdr_xids s))
     \<and> (\<forall>i < length ps. mirrored s i (allProcs s (ps ! i)))
     \<and> (\<forall>p. proc_ok (allProcs s p))"

definition put_proc :: "nat \<Rightarrow> PGPROC_XACT \<Rightarrow> shmem \<Rightarrow> shmem" where
  "put_proc p P s =
     s \<lparr> allProcs := (allProcs s)(p := P), hdr_xids := (hdr_xids s)[pgxactoff P := proc_xid P],
         hdr_subxidStates := (hdr_subxidStates s)[pgxactoff P := subxidStatus P],
         hdr_statusFlags := (hdr_statusFlags s)[pgxactoff P := proc_statusFlags P] \<rparr>"

lemma no_subxids_simps [simp]: "sx_count no_subxids = 0" "\<not> sx_overflowed no_subxids"
  by (simp_all add: no_subxids_def)

lemma pa_wf_bounds:
  assumes "pa_wf ps s" and "i < length ps"
  shows "hdr_bounds s i" "i < length (pgprocnos s)" "pgprocnos s ! i = int (ps ! i)" "ps ! i < length (hdr_xids s)"
    "slot_proc s i = Inr (allProcs s (ps ! i))" "mirrored s i (allProcs s (ps ! i))"
  using assms by (auto simp: pa_wf_def pa_sizes_def hdr_bounds_def slot_proc_def)

lemma pa_wf_distinct: "pa_wf ps s \<Longrightarrow> distinct ps"
  unfolding pa_wf_def by (simp add: strict_sorted_iff)

lemma pa_wf_off:
  assumes "pa_wf ps s" and "p \<in> set ps"
  obtains i where "i < length ps" "ps ! i = p" "pgxactoff (allProcs s p) = i"
  using assms pa_wf_bounds(6) [OF assms(1)] by (auto simp: in_set_conv_nth mirrored_def)

lemma put_proc_wf:
  assumes wf: "pa_wf ps s" and p: "p \<in> set ps" and "pgxactoff P = pgxactoff (allProcs s p)" and "proc_ok P"
  shows "pa_wf ps (put_proc p P s)"
proof -
  from pa_wf_off [OF wf p] obtain i where i: "i < length ps" "ps ! i = p" "pgxactoff (allProcs s p) = i" .
  have ne: "ps ! j \<noteq> p" if "j < length ps" "j \<noteq> i" for j
    using that i pa_wf_distinct [OF wf] by (auto simp: nth_eq_iff_index_eq)
  have "mirrored (put_proc p P s) j (allProcs (put_proc p P s) (ps ! j))" if "j < length ps" for j
    using that ne [of j] i assms(3) pa_wf_bounds(1,6) [OF wf that]
    by (cases "j = i") (auto simp: mirrored_def put_proc_def hdr_bounds_def)
  then show ?thesis
    using wf assms(4) by (auto simp: pa_wf_def pa_sizes_def put_proc_def)
qed

text \<open>Only one of the mirrors changes: the others are what they were.\<close>

lemma put_proc_mirrors:
  assumes "pa_wf ps s" and "p \<in> set ps" and "P = allProcs s p"
  shows "(hdr_xids s)[pgxactoff P := proc_xid P] = hdr_xids s"
    "(hdr_subxidStates s)[pgxactoff P := subxidStatus P] = hdr_subxidStates s"
    "(hdr_statusFlags s)[pgxactoff P := proc_statusFlags P] = hdr_statusFlags s"
    "hdr_xids s ! pgxactoff P = proc_xid P" "hdr_subxidStates s ! pgxactoff P = subxidStatus P"
    "hdr_statusFlags s ! pgxactoff P = proc_statusFlags P" "hdr_bounds s (pgxactoff P)" "proc_ok P"
proof -
  from pa_wf_off [OF assms(1,2)] obtain i where i: "i < length ps" "ps ! i = p" "pgxactoff (allProcs s p) = i" .
  with pa_wf_bounds(1,6) [OF assms(1) i(1)] assms(3)
  have m: "hdr_bounds s (pgxactoff P)" "mirrored s (pgxactoff P) P" by simp_all
  then show "(hdr_xids s)[pgxactoff P := proc_xid P] = hdr_xids s"
    "(hdr_subxidStates s)[pgxactoff P := subxidStatus P] = hdr_subxidStates s"
    "(hdr_statusFlags s)[pgxactoff P := proc_statusFlags P] = hdr_statusFlags s"
    "hdr_xids s ! pgxactoff P = proc_xid P" "hdr_subxidStates s ! pgxactoff P = subxidStatus P"
    "hdr_statusFlags s ! pgxactoff P = proc_statusFlags P" "hdr_bounds s (pgxactoff P)"
    unfolding mirrored_def by (metis list_update_id)+
  show "proc_ok P" using assms(1,3) by (simp add: pa_wf_def)
qed

subsection \<open>Operations on one process\<close>

lemma set_status_flags_put:
  assumes "pa_wf ps s" and "p \<in> set ps"
  shows "set_status_flags p flags s = (Inr (), put_proc p ((allProcs s p) \<lparr> proc_statusFlags := flags \<rparr>) s)"
  using put_proc_mirrors [OF assms refl]
  by (simp add: set_status_flags_def put_proc_def Let_def hdr_bounds_def)

lemma clear_vacuum_flags_put:
  assumes "pa_wf ps s" and "p \<in> set ps"
  shows "\<exists>flags. clear_vacuum_flags p s = (Inr (), put_proc p ((allProcs s p) \<lparr> proc_statusFlags := flags \<rparr>) s)
     \<and> flags AND PROC_VACUUM_STATE_MASK = 0
     \<and> flags AND PROC_IN_LOGICAL_DECODING = proc_statusFlags (allProcs s p) AND PROC_IN_LOGICAL_DECODING"
proof (cases "proc_statusFlags (allProcs s p) AND PROC_VACUUM_STATE_MASK = 0")
  case True
  have "put_proc p (allProcs s p) s = s"
    using put_proc_mirrors [OF assms refl] by (simp add: put_proc_def)
  then show ?thesis
    using True by (intro exI [of _ "proc_statusFlags (allProcs s p)"]) (simp add: clear_vacuum_flags_def)
next
  case False
  let ?f = "proc_statusFlags (allProcs s p)"
  have "?f AND NOT PROC_VACUUM_STATE_MASK AND PROC_VACUUM_STATE_MASK = 0"
    by (simp add: and.assoc)
  moreover have "NOT PROC_VACUUM_STATE_MASK AND PROC_IN_LOGICAL_DECODING = PROC_IN_LOGICAL_DECODING"
    by (simp add: proc_flags)
  ultimately show ?thesis
    using False by (intro exI [of _ "?f AND NOT PROC_VACUUM_STATE_MASK"])
      (simp add: clear_vacuum_flags_def set_status_flags_put [OF assms] and.assoc)
qed

lemma clear_subxids_put:
  assumes "pa_wf ps s" and "p \<in> set ps"
  shows "clear_subxids p s = (Inr (), put_proc p ((allProcs s p) \<lparr> subxidStatus := no_subxids \<rparr>) s)"
proof (cases "subxidStatus (allProcs s p) = no_subxids")
  case True
  then have "(allProcs s p) \<lparr> subxidStatus := no_subxids \<rparr> = allProcs s p" by (cases "allProcs s p") simp
  moreover have "put_proc p (allProcs s p) s = s"
    using put_proc_mirrors [OF assms refl] by (simp add: put_proc_def)
  ultimately have "put_proc p ((allProcs s p) \<lparr> subxidStatus := no_subxids \<rparr>) s = s" by (simp only:)
  then show ?thesis
    using True put_proc_mirrors(5) [OF assms refl] by (simp add: clear_subxids_def)
next
  case False
  then have "sx_count (subxidStatus (allProcs s p)) > 0 \<or> sx_overflowed (subxidStatus (allProcs s p))"
    by (cases "subxidStatus (allProcs s p)") (auto simp: no_subxids_def)
  then show ?thesis
    using put_proc_mirrors [OF assms refl] by (auto simp: clear_subxids_def put_proc_def Let_def)
qed

lemma put_proc_put: "pgxactoff Q = pgxactoff P \<Longrightarrow> put_proc p Q (put_proc p P s) = put_proc p Q s"
  by (simp add: put_proc_def)

lemma put_proc_fields [simp]:
  "allProcs (put_proc p P s) = (allProcs s)(p := P)" "latestCompletedXid (put_proc p P s) = latestCompletedXid s"
  "nextXid (put_proc p P s) = nextXid s" "xactCompletionCount (put_proc p P s) = xactCompletionCount s"
  "numProcs (put_proc p P s) = numProcs s" "maxProcs (put_proc p P s) = maxProcs s"
  "pgprocnos (put_proc p P s) = pgprocnos s" "xidStopLimit (put_proc p P s) = xidStopLimit s"
  "xidVacLimit (put_proc p P s) = xidVacLimit s" "oldestXid (put_proc p P s) = oldestXid s"
  by (simp_all add: put_proc_def)

lemma pa_wf_cong:
  assumes "pa_wf ps s" and "pgprocnos s' = pgprocnos s" "maxProcs s' = maxProcs s" "numProcs s' = numProcs s"
    "hdr_xids s' = hdr_xids s" "hdr_subxidStates s' = hdr_subxidStates s" "hdr_statusFlags s' = hdr_statusFlags s"
    "allProcs s' = allProcs s"
  shows "pa_wf ps s'"
  using assms by (simp add: pa_wf_def pa_sizes_def mirrored_def)

lemma Maintain_nat:
  assumes "latestCompletedXid s = word_of_nat c" "normal_full c" "normal_full m" "near c m"
  shows "MaintainLatestCompletedXid (xid_of m) s = (Inr (), s \<lparr> latestCompletedXid := word_of_nat (max c m) \<rparr>)"
proof -
  have l: "latest_completed_xid s = fxid_of c" by (simp add: latest_completed_xid_def fxid_of_def assms(1))
  have v: "fxid_is_valid (fxid_of c)"
    using xid_of_valid [OF assms(2)] by (simp add: fxid_is_valid_def InvalidTransactionId_def)
  have "s \<lparr> latestCompletedXid := word_of_nat c \<rparr> = s" using assms(1) by (cases s) simp
  moreover have "FullXidRelativeTo (fxid_of c) (xid_of m) = fxid_of m"
    using assms(4) by (simp add: fxid_of_relative near_sym)
  ultimately show ?thesis
    using v xid_of_order(1) [OF assms(2-4)]
    by (auto simp: MaintainLatestCompletedXid_def Let_def l fxid_value_of max_def)
qed

text \<open>The process after its transaction has ended, with the flags that are left.\<close>

definition ended :: "u8 \<Rightarrow> PGPROC_XACT \<Rightarrow> PGPROC_XACT" where
  "ended flags P = P \<lparr> proc_xid := InvalidTransactionId, vxid_lxid := 0, proc_xmin := InvalidTransactionId,
     delayChkptFlags := 0, recoveryConflictPending := False, proc_statusFlags := flags, subxidStatus := no_subxids \<rparr>"

lemma EndTransactionInternal_put:
  assumes wf: "pa_wf ps s" and p: "p \<in> set ps" and xid: "TransactionIdIsValid (proc_xid (allProcs s p))"
    and lc: "latestCompletedXid s = word_of_nat c" "normal_full c" "normal_full m" "near c m"
  obtains flags where "flags AND PROC_VACUUM_STATE_MASK = 0"
    "flags AND PROC_IN_LOGICAL_DECODING = proc_statusFlags (allProcs s p) AND PROC_IN_LOGICAL_DECODING"
    "ProcArrayEndTransactionInternal p (xid_of m) s
      = (Inr (), (put_proc p (ended flags (allProcs s p)) s)
           \<lparr> latestCompletedXid := word_of_nat (max c m), xactCompletionCount := xactCompletionCount s + 1 \<rparr>)"
proof -
  let ?P = "allProcs s p"
  define P1 where "P1 = ?P \<lparr> proc_xid := InvalidTransactionId, vxid_lxid := 0, proc_xmin := InvalidTransactionId,
     delayChkptFlags := 0, recoveryConflictPending := False \<rparr>"
  note m = put_proc_mirrors [OF wf p refl]
  have s1: "s \<lparr> hdr_xids := (hdr_xids s)[pgxactoff ?P := InvalidTransactionId], allProcs := (allProcs s)(p := P1) \<rparr>
      = put_proc p P1 s"
    using m by (simp add: put_proc_def P1_def)
  have ok: "proc_ok P1" "proc_ok (Q \<lparr> proc_statusFlags := fl \<rparr>) = proc_ok Q" for Q fl
    using m(8) by (simp_all add: proc_ok_def P1_def)
  have off: "pgxactoff P1 = pgxactoff ?P" by (simp add: P1_def)
  have wf1: "pa_wf ps (put_proc p P1 s)" by (rule put_proc_wf [OF wf p off ok(1)])
  from clear_vacuum_flags_put [OF wf1 p] obtain flags where
    flags: "flags AND PROC_VACUUM_STATE_MASK = 0"
      "flags AND PROC_IN_LOGICAL_DECODING = proc_statusFlags ?P AND PROC_IN_LOGICAL_DECODING"
    and cl: "clear_vacuum_flags p (put_proc p P1 s) = (Inr (), put_proc p (P1 \<lparr> proc_statusFlags := flags \<rparr>) s)"
    by (auto simp: put_proc_put P1_def)
  let ?P2 = "P1 \<lparr> proc_statusFlags := flags \<rparr>"
  have wf2: "pa_wf ps (put_proc p ?P2 s)" by (rule put_proc_wf [OF wf p]) (simp_all add: off ok)
  have sub: "clear_subxids p (put_proc p ?P2 s) = (Inr (), put_proc p (ended flags ?P) s)"
    unfolding clear_subxids_put [OF wf2 p] by (simp add: put_proc_put ended_def P1_def)
  have mt: "MaintainLatestCompletedXid (xid_of m) (put_proc p (ended flags ?P) s)
      = (Inr (), (put_proc p (ended flags ?P) s) \<lparr> latestCompletedXid := word_of_nat (max c m) \<rparr>)"
    by (rule Maintain_nat) (use lc in simp_all)
  have "ProcArrayEndTransactionInternal p (xid_of m) s
      = (Inr (), (put_proc p (ended flags ?P) s)
           \<lparr> latestCompletedXid := word_of_nat (max c m), xactCompletionCount := xactCompletionCount s + 1 \<rparr>)"
    using m(4,7) xid unfolding ProcArrayEndTransactionInternal_def Let_def P1_def [symmetric] s1
    by (simp add: cl sub mt increment_xact_completion_count_def)
  with flags that show ?thesis by blast
qed

definition cached_xids :: "PGPROC_XACT \<Rightarrow> TransactionId list" where
  "cached_xids P = take (sx_count (subxidStatus P)) (proc_subxids P)"

lemma ended_simps [simp]:
  "proc_xid (ended flags P) = InvalidTransactionId" "subxidStatus (ended flags P) = no_subxids"
  "pgxactoff (ended flags P) = pgxactoff P" "proc_statusFlags (ended flags P) = flags"
  "proc_xmin (ended flags P) = InvalidTransactionId" "proc_ok (ended flags P) \<longleftrightarrow> length (proc_subxids P) = PGPROC_MAX_CACHED_SUBXIDS"
  by (simp_all add: ended_def proc_ok_def)

lemma ClearTransaction_put:
  assumes wf: "pa_wf ps s" and p: "p \<in> set ps" and "proc_statusFlags (allProcs s p) AND PROC_VACUUM_STATE_MASK = 0"
    and "delayChkptFlags (allProcs s p) = 0"
  shows "ProcArrayClearTransaction p s
    = (Inr (), (put_proc p (ended (proc_statusFlags (allProcs s p)) (allProcs s p)) s)
         \<lparr> xactCompletionCount := xactCompletionCount s + 1 \<rparr>)"
proof -
  let ?P = "allProcs s p"
  define P1 where "P1 = ?P \<lparr> proc_xid := InvalidTransactionId, vxid_lxid := 0, proc_xmin := InvalidTransactionId,
     recoveryConflictPending := False \<rparr>"
  let ?s1 = "(put_proc p P1 s) \<lparr> xactCompletionCount := xactCompletionCount s + 1 \<rparr>"
  note m = put_proc_mirrors [OF wf p refl]
  have s1: "s \<lparr> hdr_xids := (hdr_xids s)[pgxactoff ?P := InvalidTransactionId], allProcs := (allProcs s)(p := P1) \<rparr>
      = put_proc p P1 s"
    using m by (simp add: put_proc_def P1_def)
  have "proc_ok P1" "pgxactoff P1 = pgxactoff ?P" using m(8) by (simp_all add: proc_ok_def P1_def)
  then have "pa_wf ps (put_proc p P1 s)" by (intro put_proc_wf [OF wf p])
  then have wf1: "pa_wf ps ?s1" by (rule pa_wf_cong) simp_all
  have "P1 \<lparr> subxidStatus := no_subxids \<rparr> = ended (proc_statusFlags ?P) ?P"
    using assms(4) by (cases ?P) (simp add: P1_def ended_def)
  then have "put_proc p (P1 \<lparr> subxidStatus := no_subxids \<rparr>) ?s1
      = (put_proc p (ended (proc_statusFlags ?P) ?P) s) \<lparr> xactCompletionCount := xactCompletionCount s + 1 \<rparr>"
    by (simp add: put_proc_def P1_def)
  then show ?thesis
    using m(7) assms(3,4) clear_subxids_put [OF wf1 p]
    unfolding ProcArrayClearTransaction_def Let_def P1_def [symmetric] s1
    by (simp add: increment_xact_completion_count_def)
qed

lemma publish_top_put:
  assumes "pa_wf ps s" and "p \<in> set ps" and "subxidStatus (allProcs s p) = no_subxids"
  shows "publish_xid p False xid s = (Inr (), put_proc p ((allProcs s p) \<lparr> proc_xid := xid \<rparr>) s)"
  using put_proc_mirrors [OF assms(1,2) refl] assms(3) by (simp add: publish_xid_def put_proc_def Let_def)

definition with_sub :: "TransactionId \<Rightarrow> PGPROC_XACT \<Rightarrow> PGPROC_XACT" where
  "with_sub xid P =
    (let st = subxidStatus P; n = sx_count st in
     if n < PGPROC_MAX_CACHED_SUBXIDS
     then P \<lparr> proc_subxids := (proc_subxids P)[n := xid], subxidStatus := st \<lparr> sx_count := n + 1 \<rparr> \<rparr>
     else P \<lparr> subxidStatus := st \<lparr> sx_overflowed := True \<rparr> \<rparr>)"

lemma subxids_update_swap:
  "proc_subxids_update f (P \<lparr> subxidStatus := st \<rparr>) = P \<lparr> proc_subxids := f (proc_subxids P), subxidStatus := st \<rparr>"
  by (cases P) simp

lemma publish_sub_put:
  assumes "pa_wf ps s" and "p \<in> set ps"
  shows "publish_xid p True xid s = (Inr (), put_proc p (with_sub xid (allProcs s p)) s)"
  using put_proc_mirrors [OF assms refl] by (simp add: publish_xid_def put_proc_def with_sub_def Let_def subxids_update_swap)

lemma with_sub_simps:
  assumes "proc_ok P"
  shows "proc_ok (with_sub xid P)" "pgxactoff (with_sub xid P) = pgxactoff P" "proc_xid (with_sub xid P) = proc_xid P"
    "proc_statusFlags (with_sub xid P) = proc_statusFlags P"
    "sx_overflowed (subxidStatus P) \<Longrightarrow> sx_overflowed (subxidStatus (with_sub xid P))"
    "cached_xids (with_sub xid P) = cached_xids P @ [xid] \<and> sx_overflowed (subxidStatus (with_sub xid P)) = sx_overflowed (subxidStatus P)
     \<or> cached_xids (with_sub xid P) = cached_xids P \<and> sx_overflowed (subxidStatus (with_sub xid P))"
  using assms by (auto simp: with_sub_def proc_ok_def Let_def cached_xids_def take_Suc_conv_app_nth)

subsection \<open>Removing subtransactions from the cache\<close>

lemma last_index_Some: "last_index xs x n = Some j \<Longrightarrow> j < n \<and> xs ! j = x"
  by (induction xs x n rule: last_index.induct) (auto split: if_splits)

lemma last_index_None: "last_index xs x n = None \<Longrightarrow> n \<le> length xs \<Longrightarrow> x \<notin> set (take n xs)"
  by (induction xs x n rule: last_index.induct) (auto simp: take_Suc_conv_app_nth split: if_splits)

lemma swap_remove:
  assumes "j < n" "n \<le> length xs" "distinct (take n xs)"
  shows "set (take (n - 1) (xs[j := xs ! (n - 1)])) = set (take n xs) - {xs ! j}"
    "distinct (take (n - 1) (xs[j := xs ! (n - 1)]))"
proof -
  obtain m where m: "n = Suc m" using assms(1) by (cases n) auto
  let ?ys = "take m xs" and ?l = "xs ! m"
  have ys: "take n xs = ?ys @ [?l]" "length ?ys = m"
    using m assms(2) by (simp_all add: take_Suc_conv_app_nth)
  have upd: "take (n - 1) (xs[j := xs ! (n - 1)]) = ?ys[j := ?l]"
    using m by (simp add: take_update_swap)
  have d: "distinct ?ys" "?l \<notin> set ?ys" using assms(3) ys(1) by simp_all
  show "set (take (n - 1) (xs[j := xs ! (n - 1)])) = set (take n xs) - {xs ! j}"
  proof (cases "j = m")
    case True
    moreover have "?ys[m := ?l] = ?ys" using ys(2) by (intro list_update_beyond) simp
    ultimately show ?thesis unfolding upd ys(1) using d by auto
  next
    case False
    then have j: "j < length ?ys" "?ys ! j = xs ! j" using m assms(1) ys(2) by simp_all
    then have "xs ! j \<in> set ?ys" by (metis nth_mem)
    with d j show ?thesis unfolding upd ys(1) using set_update_distinct [OF d(1) j(1), of ?l] by auto
  qed
  show "distinct (take (n - 1) (xs[j := xs ! (n - 1)]))"
    unfolding upd using d by (simp add: distinct_list_update)
qed

lemma remove_one_put:
  assumes wf: "pa_wf ps s" and p: "p \<in> set ps" and d: "distinct (cached_xids (allProcs s p))"
  obtains P where "xid_cache_remove_one p x s = (Inr (), put_proc p P s)" "proc_ok P"
    "pgxactoff P = pgxactoff (allProcs s p)" "proc_xid P = proc_xid (allProcs s p)"
    "proc_statusFlags P = proc_statusFlags (allProcs s p)"
    "sx_overflowed (subxidStatus P) = sx_overflowed (subxidStatus (allProcs s p))"
    "set (cached_xids P) = set (cached_xids (allProcs s p)) - {x}" "distinct (cached_xids P)"
proof -
  let ?P = "allProcs s p"
  let ?n = "sx_count (subxidStatus ?P)"
  note m = put_proc_mirrors [OF wf p refl]
  have n: "?n \<le> length (proc_subxids ?P)" using m(8) by (simp add: proc_ok_def)
  show ?thesis
  proof (cases "last_index (proc_subxids ?P) x ?n")
    case None
    have "put_proc p ?P s = s" using m by (simp add: put_proc_def)
    moreover have "x \<notin> set (cached_xids ?P)" using last_index_None [OF None n] by (simp add: cached_xids_def)
    ultimately show ?thesis
      using None n m(8) d by (intro that [of ?P]) (simp_all add: xid_cache_remove_one_def Let_def)
  next
    case (Some j)
    let ?Q = "?P \<lparr> proc_subxids := (proc_subxids ?P)[j := proc_subxids ?P ! (?n - 1)],
      subxidStatus := (subxidStatus ?P) \<lparr> sx_count := ?n - 1 \<rparr> \<rparr>"
    have j: "j < ?n" "proc_subxids ?P ! j = x" using last_index_Some [OF Some] by simp_all
    have "xid_cache_remove_one p x s = (Inr (), put_proc p ?Q s)"
      using Some n j m by (simp add: xid_cache_remove_one_def Let_def put_proc_def)
    moreover have "set (cached_xids ?Q) = set (cached_xids ?P) - {x}" "distinct (cached_xids ?Q)"
      using swap_remove [OF j(1) n] d j(2) by (simp_all add: cached_xids_def)
    moreover have "proc_ok ?Q" using m(8) by (auto simp: proc_ok_def)
    ultimately show ?thesis
      by (intro that [of ?Q]) simp_all
  qed
qed

lemma remove_all_put:
  assumes "pa_wf ps s" and "p \<in> set ps" and "distinct (cached_xids (allProcs s p))"
  shows "\<exists>P. xid_cache_remove_all p xs s = (Inr (), put_proc p P s) \<and> proc_ok P
    \<and> pgxactoff P = pgxactoff (allProcs s p) \<and> proc_xid P = proc_xid (allProcs s p)
    \<and> proc_statusFlags P = proc_statusFlags (allProcs s p)
    \<and> sx_overflowed (subxidStatus P) = sx_overflowed (subxidStatus (allProcs s p))
    \<and> set (cached_xids P) = set (cached_xids (allProcs s p)) - set xs \<and> distinct (cached_xids P)"
  using assms
proof (induction xs arbitrary: s)
  case Nil
  note m = put_proc_mirrors [OF Nil(1,2) refl]
  have "put_proc p (allProcs s p) s = s" using m by (simp add: put_proc_def)
  with m(8) Nil(3) show ?case by (intro exI [of _ "allProcs s p"]) simp
next
  case (Cons x xs)
  from remove_one_put [OF Cons.prems, of x] obtain P where
    P: "xid_cache_remove_one p x s = (Inr (), put_proc p P s)" "proc_ok P"
      "pgxactoff P = pgxactoff (allProcs s p)" "proc_xid P = proc_xid (allProcs s p)"
      "proc_statusFlags P = proc_statusFlags (allProcs s p)"
      "sx_overflowed (subxidStatus P) = sx_overflowed (subxidStatus (allProcs s p))"
      "set (cached_xids P) = set (cached_xids (allProcs s p)) - {x}" "distinct (cached_xids P)" .
  have "pa_wf ps (put_proc p P s)" by (rule put_proc_wf [OF Cons.prems(1,2) P(3,2)])
  from Cons.IH [OF this Cons.prems(2)] P(8) obtain Q where
    Q: "xid_cache_remove_all p xs (put_proc p P s) = (Inr (), put_proc p Q (put_proc p P s))" "proc_ok Q"
      "pgxactoff Q = pgxactoff P" "proc_xid Q = proc_xid P" "proc_statusFlags Q = proc_statusFlags P"
      "sx_overflowed (subxidStatus Q) = sx_overflowed (subxidStatus P)"
      "set (cached_xids Q) = set (cached_xids P) - set xs" "distinct (cached_xids Q)" by auto
  then show ?case
    using P by (intro exI [of _ Q]) (auto simp: put_proc_put)
qed

subsection \<open>Joining and leaving\<close>

lemma shift_up_nth:
  assumes "a \<le> b" "b < length xs"
  shows "length (shift_up a b xs) = length xs"
    "i < length xs \<Longrightarrow> shift_up a b xs ! i = (if a < i \<and> i \<le> b then xs ! (i - 1) else xs ! i)"
proof -
  have "length (shift_up a b xs) = length xs
    \<and> (i < length xs \<longrightarrow> shift_up a b xs ! i = (if a < i \<and> i \<le> b then xs ! (i - 1) else xs ! i))"
    using assms
  proof (induction b arbitrary: xs)
    case (Suc b)
    show ?case
    proof (cases "a \<le> b")
      case True
      have "shift_up a (Suc b) xs = shift_up a b (xs[b + 1 := xs ! b])"
        using True by (simp add: shift_up_def)
      with Suc.IH [of "xs[b + 1 := xs ! b]"] True Suc.prems show ?thesis
        by (auto simp: nth_list_update le_Suc_eq)
    next
      case False
      with Suc.prems have "a = Suc b" by simp
      then show ?thesis by (auto simp: shift_up_def)
    qed
  qed (simp add: shift_up_def)
  then show "length (shift_up a b xs) = length xs"
    "i < length xs \<Longrightarrow> shift_up a b xs ! i = (if a < i \<and> i \<le> b then xs ! (i - 1) else xs ! i)" by auto
qed

lemma shift_down_nth:
  assumes "b < length xs"
  shows "length (shift_down a b xs) = length xs"
    "i < length xs \<Longrightarrow> shift_down a b xs ! i = (if a \<le> i \<and> i < b then xs ! (i + 1) else xs ! i)"
proof -
  have "length (shift_down a b xs) = length xs
    \<and> (\<forall>i < length xs. shift_down a b xs ! i = (if a \<le> i \<and> i < b then xs ! (i + 1) else xs ! i))"
    using assms
  proof (induction b)
    case (Suc b)
    show ?case
    proof (cases "a \<le> b")
      case True
      have "shift_down a (Suc b) xs = (shift_down a b xs)[b := shift_down a b xs ! (b + 1)]"
        using True by (simp add: shift_down_def)
      with Suc True show ?thesis by (auto simp: nth_list_update less_Suc_eq)
    qed (auto simp: shift_down_def)
  qed (simp add: shift_down_def)
  then show "length (shift_down a b xs) = length xs"
    "i < length xs \<Longrightarrow> shift_down a b xs ! i = (if a \<le> i \<and> i < b then xs ! (i + 1) else xs ! i)" by auto
qed

lemma set_offsets_nth:
  assumes "distinct ps" "distinct idx" "\<forall>i \<in> set idx. i < length ps \<and> pnos ! i = int (ps ! i)"
  shows "j < length ps \<Longrightarrow> set_offsets pnos idx procs (ps ! j)
      = (if j \<in> set idx then (procs (ps ! j)) \<lparr> pgxactoff := j \<rparr> else procs (ps ! j))"
    "\<exists>k. set_offsets pnos idx procs p = (procs p) \<lparr> pgxactoff := k \<rparr>"
proof -
  have "(j < length ps \<longrightarrow> set_offsets pnos idx procs (ps ! j)
      = (if j \<in> set idx then (procs (ps ! j)) \<lparr> pgxactoff := j \<rparr> else procs (ps ! j)))
    \<and> (\<exists>k. set_offsets pnos idx procs p = (procs p) \<lparr> pgxactoff := k \<rparr>)"
    using assms(2,3)
  proof (induction idx rule: rev_induct)
    case Nil
    have "procs p = (procs p) \<lparr> pgxactoff := pgxactoff (procs p) \<rparr>" by simp
    then show ?case by (auto simp: set_offsets_def intro: exI [of _ "pgxactoff (procs p)"])
  next
    case (snoc i idx)
    then have i: "i < length ps" "nat (pnos ! i) = ps ! i" "i \<notin> set idx" by auto
    have eq: "ps ! j = ps ! i \<longleftrightarrow> j = i" if "j < length ps"
      using that i(1) assms(1) by (simp add: nth_eq_iff_index_eq)
    have unf: "set_offsets pnos (idx @ [i]) procs = (let pr = set_offsets pnos idx procs in
        pr(ps ! i := (pr (ps ! i)) \<lparr> pgxactoff := i \<rparr>))"
      using i(2) by (simp add: set_offsets_def Let_def)
    from snoc have IH: "j < length ps \<longrightarrow> set_offsets pnos idx procs (ps ! j)
        = (if j \<in> set idx then (procs (ps ! j)) \<lparr> pgxactoff := j \<rparr> else procs (ps ! j))"
      "\<exists>k. set_offsets pnos idx procs p = (procs p) \<lparr> pgxactoff := k \<rparr>" by auto
    then obtain k where k: "set_offsets pnos idx procs p = (procs p) \<lparr> pgxactoff := k \<rparr>" by blast
    have "\<exists>k. set_offsets pnos (idx @ [i]) procs p = (procs p) \<lparr> pgxactoff := k \<rparr>"
      unfolding unf Let_def using k by (cases "p = ps ! i") auto
    moreover have "j < length ps \<longrightarrow> set_offsets pnos (idx @ [i]) procs (ps ! j)
        = (if j \<in> set (idx @ [i]) then (procs (ps ! j)) \<lparr> pgxactoff := j \<rparr> else procs (ps ! j))"
      unfolding unf Let_def using IH(1) eq i(3) by auto
    ultimately show ?case by blast
  qed
  then show "j < length ps \<Longrightarrow> set_offsets pnos idx procs (ps ! j)
      = (if j \<in> set idx then (procs (ps ! j)) \<lparr> pgxactoff := j \<rparr> else procs (ps ! j))"
    "\<exists>k. set_offsets pnos idx procs p = (procs p) \<lparr> pgxactoff := k \<rparr>" by auto
qed

lemma insert_index_wf:
  assumes wf: "pa_wf ps s" and "j \<le> length ps"
  shows "\<exists>k. j \<le> k \<and> k \<le> length ps \<and> insert_index s (int q) [j..<length ps] = Inr k
    \<and> (\<forall>i. j \<le> i \<and> i < k \<longrightarrow> ps ! i \<le> q) \<and> (k < length ps \<longrightarrow> q < ps ! k)"
  using assms(2)
proof (induction "length ps - j" arbitrary: j)
  case 0
  then show ?case using wf by (intro exI [of _ "length ps"]) (simp add: pa_wf_def)
next
  case (Suc d)
  then have j: "j < length ps" by simp
  note b = pa_wf_bounds [OF wf j]
  have ups: "[j..<length ps] = j # [Suc j..<length ps]" using j by (simp add: upt_conv_Cons)
  have step: "insert_index s (int q) [j..<length ps]
      = (if ps ! j > q then Inr j else insert_index s (int q) [Suc j..<length ps])"
    unfolding ups using b by (simp add: load_at_def mirrored_def)
  show ?case
  proof (cases "ps ! j > q")
    case True
    then show ?thesis using j step by (intro exI [of _ j]) auto
  next
    case False
    have "d = length ps - Suc j" "Suc j \<le> length ps" using Suc.hyps(2) j by simp_all
    from Suc.hyps(1) [OF this] obtain k where
      k: "Suc j \<le> k" "k \<le> length ps" "insert_index s (int q) [Suc j..<length ps] = Inr k"
        "\<forall>i. Suc j \<le> i \<and> i < k \<longrightarrow> ps ! i \<le> q" "k < length ps \<longrightarrow> q < ps ! k" by auto
    moreover have "ps ! i \<le> q" if "j \<le> i" "i < k" for i
      using that k(4) False by (cases "i = j") auto
    ultimately show ?thesis using step False by (intro exI [of _ k]) auto
  qed
qed

text \<open>What joining and leaving keep: of every process all but its index, and the transaction variables but the completion state.\<close>

definition same_procs :: "shmem \<Rightarrow> shmem \<Rightarrow> bool" where
  "same_procs s s' \<longleftrightarrow> (\<forall>p. \<exists>k. allProcs s' p = (allProcs s p) \<lparr> pgxactoff := k \<rparr>)
     \<and> nextXid s' = nextXid s \<and> xidStopLimit s' = xidStopLimit s \<and> xidVacLimit s' = xidVacLimit s
     \<and> oldestXid s' = oldestXid s \<and> maxProcs s' = maxProcs s \<and> length (hdr_xids s') = length (hdr_xids s)"

lemma off_update_eq: "pgxactoff P = k \<Longrightarrow> P \<lparr> pgxactoff := k \<rparr> = P"
  by (cases P) simp

lemma pa_wf_moved:
  assumes "pa_sizes s'" "numProcs s' = length ps'" "length ps' \<le> maxProcs s'"
    and pn: "\<forall>i < maxProcs s'. pgprocnos s' ! i = (if i < length ps' then int (ps' ! i) else - 1)"
    and sort: "sorted_wrt (<) ps'" "\<forall>p \<in> set ps'. p < length (hdr_xids s')"
    and hdr: "\<forall>i < length ps'. hdr_xids s' ! i = proc_xid (procs (ps' ! i))
       \<and> hdr_subxidStates s' ! i = subxidStatus (procs (ps' ! i)) \<and> hdr_statusFlags s' ! i = proc_statusFlags (procs (ps' ! i))"
    and all: "allProcs s' = set_offsets (pgprocnos s') [a..<length ps'] procs"
    and low: "\<forall>i < a. i < length ps' \<longrightarrow> pgxactoff (procs (ps' ! i)) = i" and ok: "\<forall>p. proc_ok (procs p)"
  shows "pa_wf ps' s'" "\<exists>k. allProcs s' p = (procs p) \<lparr> pgxactoff := k \<rparr>"
proof -
  have d: "distinct ps'" using sort(1) by (simp add: strict_sorted_iff)
  have offs: "\<forall>i \<in> set [a..<length ps']. i < length ps' \<and> pgprocnos s' ! i = int (ps' ! i)"
    using pn assms(3) by simp
  have same: "\<exists>k. allProcs s' p = (procs p) \<lparr> pgxactoff := k \<rparr>" for p
    unfolding all by (rule set_offsets_nth(2) [OF d distinct_upt offs])
  then show "\<exists>k. allProcs s' p = (procs p) \<lparr> pgxactoff := k \<rparr>" .
  have al: "allProcs s' (ps' ! i) = (procs (ps' ! i)) \<lparr> pgxactoff := i \<rparr>" if i: "i < length ps'" for i
    unfolding all set_offsets_nth(1) [OF d distinct_upt offs i]
    using i low by (cases "i < a") (simp_all add: off_update_eq)
  have "proc_ok (allProcs s' p)" for p
    using same [of p] ok by (auto simp: proc_ok_def)
  moreover have "mirrored s' i (allProcs s' (ps' ! i))" if "i < length ps'" for i
    using al [OF that] hdr that by (simp add: mirrored_def)
  ultimately show "pa_wf ps' s'"
    unfolding pa_wf_def using assms by blast
qed

lemma insort_split:
  assumes "sorted_wrt (<) ps" "(q :: nat) \<notin> set ps" "k \<le> length ps" "\<forall>i < k. ps ! i \<le> q" "k < length ps \<longrightarrow> q < ps ! k"
  shows "insort q ps = take k ps @ q # drop k ps" "sorted_wrt (<) (insort q ps)"
proof -
  let ?ps' = "take k ps @ q # drop k ps"
  have below: "p < q" if p: "p \<in> set (take k ps)" for p
    using p assms(2-4) by (auto simp: in_set_conv_nth) (metis le_neq_implies_less nth_mem order_less_le_trans)
  have above: "q < p" if p: "p \<in> set (drop k ps)" for p
  proof -
    from p obtain i where "i < length ps - k" "p = ps ! (k + i)" by (auto simp: in_set_conv_nth)
    then have i: "k + i < length ps" "p = ps ! (k + i)" by simp_all
    moreover have "ps ! k \<le> ps ! (k + i)"
      using assms(1) i(1) by (cases "i = 0") (auto simp: sorted_wrt_iff_nth_less intro: less_imp_le)
    ultimately show ?thesis using assms(5) by auto
  qed
  have sort: "sorted_wrt (<) ?ps'"
    using assms(1) below above sorted_wrt_append [of "(<)" "take k ps" "drop k ps"] append_take_drop_id [of k ps]
    by (auto simp: sorted_wrt_append)
  show ins: "insort q ps = ?ps'"
  proof (rule sorted_distinct_set_unique)
    show "sorted ?ps'" "distinct ?ps'" using sort by (simp_all add: strict_sorted_iff)
    show "sorted (insort q ps)" "distinct (insort q ps)"
      using assms(1,2) by (simp_all add: strict_sorted_iff sorted_insort distinct_insort)
    show "set (insort q ps) = set ?ps'"
      by (simp add: set_insort_key) (metis append_take_drop_id set_append)
  qed
  show "sorted_wrt (<) (insort q ps)" unfolding ins by (rule sort)
qed

lemma shift_up_insert:
  assumes "k \<le> n" "n < length xs"
  shows "length ((shift_up k n xs)[k := v]) = length xs"
    "i < length xs \<Longrightarrow> (shift_up k n xs)[k := v] ! i
       = (if i < k \<or> n < i then xs ! i else if i = k then v else xs ! (i - 1))"
  using assms by (auto simp: nth_list_update shift_up_nth)

lemma ProcArrayAdd_ok:
  assumes wf: "pa_wf ps s" and q: "q \<notin> set ps" "q < length (hdr_xids s)" and room: "length ps < maxProcs s"
  obtains s' where "ProcArrayAdd q s = (Inr (), s')" "pa_wf (insort q ps) s'" "same_procs s s'"
    "latestCompletedXid s' = latestCompletedXid s" "xactCompletionCount s' = xactCompletionCount s"
proof -
  let ?n = "length ps" and ?P = "allProcs s q" and ?ps' = "insort q ps"
  note w = wf [unfolded pa_wf_def pa_sizes_def]
  from insert_index_wf [OF wf, of 0 q] obtain k where k: "k \<le> ?n" "insert_index s (int q) [0..<?n] = Inr k"
    "\<forall>i < k. ps ! i \<le> q" "k < ?n \<longrightarrow> q < ps ! k" by auto
  have ins: "?ps' = take k ps @ q # drop k ps" "sorted_wrt (<) ?ps'"
    using insort_split [OF _ q(1) k(1,3,4)] w by simp_all
  have nth: "?ps' ! i = (if i < k then ps ! i else if i = k then q else ps ! (i - 1))" if "i < ?n + 1" for i
    using that k(1) by (auto simp: ins(1) nth_append nth_Cons')
  let ?pnos = "(shift_up k ?n (pgprocnos s))[k := int q]"
  let ?procs = "(allProcs s)(q := ?P \<lparr> pgxactoff := k \<rparr>)"
  define s' where "s' = s \<lparr> pgprocnos := ?pnos,
     hdr_xids := (shift_up k ?n (hdr_xids s))[k := proc_xid ?P],
     hdr_subxidStates := (shift_up k ?n (hdr_subxidStates s))[k := subxidStatus ?P],
     hdr_statusFlags := (shift_up k ?n (hdr_statusFlags s))[k := proc_statusFlags ?P],
     numProcs := ?n + 1, allProcs := set_offsets ?pnos [k + 1..<?n + 1] ?procs \<rparr>"
  have N: "?n < length (hdr_xids s)" "?n < length (hdr_subxidStates s)" "?n < length (hdr_statusFlags s)"
    "?n < length (pgprocnos s)" using w room by auto
  have run: "ProcArrayAdd q s = (Inr (), s')"
    using N room w k(2) by (simp add: ProcArrayAdd_def s'_def hdr_bounds_def Let_def)
  note up = shift_up_insert [OF k(1)]
  have core: "proc_xid (?procs p) = proc_xid (allProcs s p)" "subxidStatus (?procs p) = subxidStatus (allProcs s p)"
    "proc_statusFlags (?procs p) = proc_statusFlags (allProcs s p)" "proc_ok (?procs p)" for p
    using w by (simp_all add: proc_ok_def)
  have hdr: "\<forall>i < length ?ps'. hdr_xids s' ! i = proc_xid (?procs (?ps' ! i))
       \<and> hdr_subxidStates s' ! i = subxidStatus (?procs (?ps' ! i)) \<and> hdr_statusFlags s' ! i = proc_statusFlags (?procs (?ps' ! i))"
    unfolding core
  proof (intro allI impI)
    fix i assume "i < length ?ps'"
    then have i: "i < ?n + 1" by simp
    show "hdr_xids s' ! i = proc_xid (allProcs s (?ps' ! i))
       \<and> hdr_subxidStates s' ! i = subxidStatus (allProcs s (?ps' ! i)) \<and> hdr_statusFlags s' ! i = proc_statusFlags (allProcs s (?ps' ! i))"
      using nth [OF i] i k(1) N up(2) [OF N(1), of i] up(2) [OF N(2), of i] up(2) [OF N(3), of i]
        pa_wf_bounds(6) [OF wf, of i] pa_wf_bounds(6) [OF wf, of "i - 1"]
      by (cases "i < k"; cases "i = k") (simp_all add: s'_def mirrored_def)
  qed
  have low: "\<forall>i < k + 1. i < length ?ps' \<longrightarrow> pgxactoff (?procs (?ps' ! i)) = i"
  proof (intro allI impI)
    fix i assume "i < k + 1"
    then show "pgxactoff (?procs (?ps' ! i)) = i"
      using nth [of i] k(1) pa_wf_bounds(6) [OF wf, of i] q(1) by (cases "i = k") (auto simp: mirrored_def)
  qed
  have pn: "\<forall>i < maxProcs s'. pgprocnos s' ! i = (if i < length ?ps' then int (?ps' ! i) else - 1)"
  proof (intro allI impI)
    fix i assume i: "i < maxProcs s'"
    then show "pgprocnos s' ! i = (if i < length ?ps' then int (?ps' ! i) else - 1)"
      using up(2) [OF N(4), of i "int q"] nth [of i] w room k(1)
      by (cases "i < k"; cases "i = k"; cases "i \<le> ?n") (simp_all add: s'_def)
  qed
  have sz: "pa_sizes s'" "numProcs s' = length ?ps'" "length ?ps' \<le> maxProcs s'"
    "\<forall>p \<in> set ?ps'. p < length (hdr_xids s')"
    "allProcs s' = set_offsets (pgprocnos s') [k + 1..<length ?ps'] ?procs"
    using w up(1) [OF N(1)] up(1) [OF N(2)] up(1) [OF N(3)] up(1) [OF N(4)] room q(2)
    by (simp_all add: pa_sizes_def s'_def set_insort_key del: upt_Suc)
  note moved = pa_wf_moved [OF sz(1-3) pn ins(2) sz(4) hdr sz(5) low allI [OF core(4)]]
  have "\<exists>j. allProcs s' p = (allProcs s p) \<lparr> pgxactoff := j \<rparr>" for p
    using moved(2) [of p] by (cases "p = q") auto
  then show ?thesis
    using that [OF run moved(1)] up(1) [OF N(1)] by (simp add: s'_def same_procs_def)
qed

text \<open>
  Leaving: the slot's own mirrors do not matter any more.
\<close>

definition same_but_slot :: "nat \<Rightarrow> shmem \<Rightarrow> shmem \<Rightarrow> bool" where
  "same_but_slot i s s1 \<longleftrightarrow> pgprocnos s1 = pgprocnos s \<and> numProcs s1 = numProcs s \<and> maxProcs s1 = maxProcs s
     \<and> allProcs s1 = allProcs s \<and> nextXid s1 = nextXid s \<and> xidStopLimit s1 = xidStopLimit s
     \<and> xidVacLimit s1 = xidVacLimit s \<and> oldestXid s1 = oldestXid s
     \<and> length (hdr_xids s1) = length (hdr_xids s) \<and> length (hdr_subxidStates s1) = length (hdr_subxidStates s)
     \<and> length (hdr_statusFlags s1) = length (hdr_statusFlags s)
     \<and> (\<forall>j. j \<noteq> i \<longrightarrow> hdr_xids s1 ! j = hdr_xids s ! j \<and> hdr_subxidStates s1 ! j = hdr_subxidStates s ! j
          \<and> hdr_statusFlags s1 ! j = hdr_statusFlags s ! j)"

lemma remove1_nth:
  assumes "distinct ps" "i < length ps" "j < length ps - 1"
  shows "remove1 (ps ! i) ps ! j = (if j < i then ps ! j else ps ! (j + 1))"
proof -
  have "ps = take i ps @ ps ! i # drop (Suc i) ps" using assms(2) by (simp add: id_take_nth_drop)
  moreover have "ps ! i \<notin> set (take i ps)"
    using assms(1,2) by (auto simp: in_set_conv_nth nth_eq_iff_index_eq)
  ultimately have "remove1 (ps ! i) ps = take i ps @ drop (Suc i) ps"
    by (metis remove1.simps(2) remove1_append)
  then show ?thesis using assms(2,3) by (auto simp: nth_append)
qed

lemma remove_slot_wf:
  assumes wf: "pa_wf ps s" and i: "i < length ps" and same: "same_but_slot i s s1"
  shows "pa_wf (remove1 (ps ! i) ps) (remove_slot i s1)" "same_procs s (remove_slot i s1)"
proof -
  let ?n = "length ps" and ?ps' = "remove1 (ps ! i) ps" and ?s' = "remove_slot i s1"
  note w = wf [unfolded pa_wf_def pa_sizes_def] and sm = same [unfolded same_but_slot_def]
  have len: "length ?ps' = ?n - 1" using i by (simp add: length_remove1)
  have nth: "?ps' ! j = (if j < i then ps ! j else ps ! (j + 1))" if "j < ?n - 1" for j
    by (rule remove1_nth [OF pa_wf_distinct [OF wf] i that])
  have N: "?n - 1 < length (hdr_xids s1)" "?n - 1 < length (hdr_subxidStates s1)" "?n - 1 < length ((hdr_statusFlags s1)[i := 0])"
    "?n - 1 < length (pgprocnos s1)" using w sm i by auto
  have n: "numProcs s1 = ?n" using w sm by simp
  note down = shift_down_nth [OF N(1)] shift_down_nth [OF N(2)] shift_down_nth [OF N(3)] shift_down_nth [OF N(4)]
  have hdr: "\<forall>j < length ?ps'. hdr_xids ?s' ! j = proc_xid (allProcs s (?ps' ! j))
       \<and> hdr_subxidStates ?s' ! j = subxidStatus (allProcs s (?ps' ! j)) \<and> hdr_statusFlags ?s' ! j = proc_statusFlags (allProcs s (?ps' ! j))"
    unfolding len
  proof (intro allI impI)
    fix j assume j: "j < ?n - 1"
    then show "hdr_xids ?s' ! j = proc_xid (allProcs s (?ps' ! j))
       \<and> hdr_subxidStates ?s' ! j = subxidStatus (allProcs s (?ps' ! j)) \<and> hdr_statusFlags ?s' ! j = proc_statusFlags (allProcs s (?ps' ! j))"
      using nth [OF j] N down(2) [of j i] down(4) [of j i] down(6) [of j i] sm
        pa_wf_bounds(6) [OF wf, of j] pa_wf_bounds(6) [OF wf, of "j + 1"]
      by (cases "j < i") (simp_all add: remove_slot_def Let_def n mirrored_def)
  qed
  have low: "\<forall>j < i. j < length ?ps' \<longrightarrow> pgxactoff (allProcs s (?ps' ! j)) = j"
    using nth len pa_wf_bounds(6) [OF wf] i by (auto simp: mirrored_def)
  have pn: "\<forall>j < maxProcs ?s'. pgprocnos ?s' ! j = (if j < length ?ps' then int (?ps' ! j) else - 1)"
  proof (intro allI impI)
    fix j assume j: "j < maxProcs ?s'"
    then show "pgprocnos ?s' ! j = (if j < length ?ps' then int (?ps' ! j) else - 1)"
      using down(8) [of j i] down(7) [of i] nth [of j] w sm i len N(4)
      by (cases "j < i"; cases "j < ?n - 1"; cases "j = ?n - 1") (simp_all add: remove_slot_def Let_def n)
  qed
  have sz: "pa_sizes ?s'" "numProcs ?s' = length ?ps'" "length ?ps' \<le> maxProcs ?s'" "sorted_wrt (<) ?ps'"
    "\<forall>p \<in> set ?ps'. p < length (hdr_xids ?s')"
    "allProcs ?s' = set_offsets (pgprocnos ?s') [i..<length ?ps'] (allProcs s)"
    using w sm down(1) [of i] down(3) [of i] down(5) [of i] down(7) [of i] len i
    by (auto simp: pa_sizes_def remove_slot_def Let_def n strict_sorted_iff sorted_remove1 dest: notin_set_remove1)
  have ok: "\<forall>p. proc_ok (allProcs s p)" using w by simp
  note moved = pa_wf_moved [OF sz(1-3) pn sz(4,5) hdr sz(6) low ok]
  then show "pa_wf ?ps' ?s'" by blast
  show "same_procs s ?s'"
    unfolding same_procs_def using moved(2) sm down(1) [of i] by (simp add: remove_slot_def Let_def n)
qed

lemma ProcArrayRemove_idle:
  assumes wf: "pa_wf ps s" and p: "p \<in> set ps" and idle: "proc_xid (allProcs s p) = InvalidTransactionId"
  obtains s' where "ProcArrayRemove p InvalidTransactionId s = (Inr (), s')" "pa_wf (remove1 p ps) s'" "same_procs s s'"
    "latestCompletedXid s' = latestCompletedXid s" "xactCompletionCount s' = xactCompletionCount s"
proof -
  from pa_wf_off [OF wf p] obtain i where i: "i < length ps" "ps ! i = p" "pgxactoff (allProcs s p) = i" .
  note b = pa_wf_bounds [OF wf i(1)] and w = wf [unfolded pa_wf_def pa_sizes_def]
  have "length ps - 1 < length (hdr_xids s)" using w i(1) by linarith
  then have "ProcArrayRemove p InvalidTransactionId s = (Inr (), remove_slot i s)"
    using i b w idle
    by (simp add: ProcArrayRemove_def Let_def mirrored_def hdr_bounds_def TransactionIdIsValid_def)
  moreover have "same_but_slot i s s" by (simp add: same_but_slot_def)
  note remove_slot_wf [OF wf i(1) this]
  ultimately show ?thesis
    using that i(2) by (simp add: remove_slot_def Let_def)
qed

lemma ProcArrayRemove_busy:
  assumes wf: "pa_wf ps s" and p: "p \<in> set ps" and busy: "TransactionIdIsValid (proc_xid (allProcs s p))"
    and lc: "latestCompletedXid s = word_of_nat c" "normal_full c" "normal_full m" "near c m"
  obtains s' where "ProcArrayRemove p (xid_of m) s = (Inr (), s')" "pa_wf (remove1 p ps) s'" "same_procs s s'"
    "latestCompletedXid s' = word_of_nat (max c m)" "xactCompletionCount s' = xactCompletionCount s + 1"
proof -
  from pa_wf_off [OF wf p] obtain i where i: "i < length ps" "ps ! i = p" "pgxactoff (allProcs s p) = i" .
  note b = pa_wf_bounds [OF wf i(1)] and w = wf [unfolded pa_wf_def pa_sizes_def]
  let ?s1 = "s \<lparr> latestCompletedXid := word_of_nat (max c m), xactCompletionCount := xactCompletionCount s + 1,
    hdr_xids := (hdr_xids s)[i := InvalidTransactionId], hdr_subxidStates := (hdr_subxidStates s)[i := no_subxids] \<rparr>"
  have v: "TransactionIdIsValid (xid_of m)" using xid_of_valid [OF lc(3)] by (simp add: TransactionIdIsValid_def InvalidTransactionId_def)
  have "length ps - 1 < length (hdr_xids s)" using w i(1) by linarith
  then have "ProcArrayRemove p (xid_of m) s = (Inr (), remove_slot i ?s1)"
    using i b w busy v Maintain_nat [OF lc]
    by (simp add: ProcArrayRemove_def Let_def mirrored_def hdr_bounds_def increment_xact_completion_count_def)
  moreover have "same_but_slot i s ?s1" by (simp add: same_but_slot_def)
  note remove_slot_wf [OF wf i(1) this]
  ultimately show ?thesis
    using that i(2) by (simp add: remove_slot_def Let_def)
qed

end
