(* ===== verification/ProcArrayReach.thy ===== *)
theory ProcArrayReach
  imports ProcArraySpec
begin

unbundle bit_operations_syntax

section \<open>Running transactions\<close>

text \<open>
  What the array is for: it shows the transactions that are running. A transaction \<open>xact\<close> is a top-level id with the ids of its subtransactions, as natural
  numbers that do not wrap around. A configuration \<open>conf\<close> is the shared memory together with these transactions, the counters as numbers, and the oldest id
  that the wraparound limits are set for. \<open>assign_step\<close> is what processes may do while another holds the array's lock in shared mode:
  they may be assigned ids and change anything else that is not a transaction; \<open>conf_step\<close> adds the steps that need the lock exclusively. The
  invariant \<open>conf_ok\<close> holds in every reachable configuration, and no step fails an assertion.
\<close>

record xact =
  xt_top :: nat
  xt_subs :: "nat set"

definition tree :: "xact \<Rightarrow> nat set" where
  "tree x = insert (xt_top x) (xt_subs x)"

definition running :: "(nat \<Rightarrow> xact option) \<Rightarrow> nat \<Rightarrow> bool" where
  "running g f \<longleftrightarrow> (\<exists>p x. g p = Some x \<and> f \<in> tree x)"

record conf =
  procs :: "nat list"
  oldest :: nat
  nxt :: nat
  completed :: nat
  ends :: nat
  xacts :: "nat \<Rightarrow> xact option"
  mem :: shmem

definition idle :: "PGPROC_XACT \<Rightarrow> bool" where
  "idle P \<longleftrightarrow> proc_xid P = InvalidTransactionId \<and> subxidStatus P = no_subxids"

text \<open>A process shows a transaction: its cache holds subtransactions of it, and all of them unless it has overflowed.\<close>

definition shows_xact :: "PGPROC_XACT \<Rightarrow> xact \<Rightarrow> bool" where
  "shows_xact P x \<longleftrightarrow> proc_xid P = xid_of (xt_top x) \<and> distinct (cached_xids P)
     \<and> set (cached_xids P) \<subseteq> xid_of ` xt_subs x
     \<and> (\<not> sx_overflowed (subxidStatus P) \<longrightarrow> set (cached_xids P) = xid_of ` xt_subs x)"

definition xact_ok :: "nat \<Rightarrow> nat \<Rightarrow> xact \<Rightarrow> bool" where
  "xact_ok lo n x \<longleftrightarrow> finite (xt_subs x) \<and> (\<forall>f \<in> tree x. normal_full f \<and> lo \<le> f \<and> f < n)
     \<and> (\<forall>f \<in> xt_subs x. xt_top x < f)"

definition slot_ok :: "nat \<Rightarrow> nat \<Rightarrow> PGPROC_XACT \<Rightarrow> xact option \<Rightarrow> bool" where
  "slot_ok lo n P t = (case t of None \<Rightarrow> idle P | Some x \<Rightarrow> shows_xact P x \<and> xact_ok lo n x)"

definition limits_ok :: "nat \<Rightarrow> shmem \<Rightarrow> bool" where
  "limits_ok lo s \<longleftrightarrow> oldestXid s = xid_of lo \<and> xidStopLimit s = xid_of (stop_full lo)
     \<and> (\<exists>v. xidVacLimit s = xid_of v \<and> normal_full v \<and> lo \<le> v \<and> v \<le> lo + 2000000003)"

text \<open>The counters: all ids in use are within half the circle.\<close>

definition counters_ok :: "nat \<Rightarrow> nat \<Rightarrow> nat \<Rightarrow> nat \<Rightarrow> bool" where
  "counters_ok lo n c k \<longleftrightarrow> normal_full lo \<and> normal_full n \<and> normal_full c \<and> lo \<le> next_full c \<and> c < n
     \<and> n \<le> lo + 2145000000 \<and> n < 2 ^ 64 - 2 ^ 33 \<and> 0 < k \<and> k < 2 ^ 64"

definition counters_are :: "nat \<Rightarrow> nat \<Rightarrow> nat \<Rightarrow> shmem \<Rightarrow> bool" where
  "counters_are n c k s \<longleftrightarrow> nextXid s = word_of_nat n \<and> latestCompletedXid s = word_of_nat c
     \<and> xactCompletionCount s = word_of_nat k"

definition conf_ok :: "conf \<Rightarrow> bool" where
  "conf_ok C \<longleftrightarrow> pa_wf (procs C) (mem C) \<and> counters_are (nxt C) (completed C) (ends C) (mem C) \<and> limits_ok (oldest C) (mem C)
     \<and> counters_ok (oldest C) (nxt C) (completed C) (ends C)
     \<and> (\<forall>p. p \<notin> set (procs C) \<longrightarrow> xacts C p = None)
     \<and> (\<forall>p \<in> set (procs C). slot_ok (oldest C) (nxt C) (allProcs (mem C) p) (xacts C p))
     \<and> (\<forall>f. normal_full f \<and> completed C < f \<and> f < nxt C \<longrightarrow> running (xacts C) f)"

subsection \<open>Steps\<close>

text \<open>A change that is not a transaction's: processes outside the array may change in any way, the others not in what is mirrored.\<close>

definition same_core :: "PGPROC_XACT \<Rightarrow> PGPROC_XACT \<Rightarrow> bool" where
  "same_core P Q \<longleftrightarrow> proc_xid Q = proc_xid P \<and> subxidStatus Q = subxidStatus P \<and> proc_subxids Q = proc_subxids P
     \<and> proc_statusFlags Q = proc_statusFlags P \<and> pgxactoff Q = pgxactoff P"

definition quiet :: "nat list \<Rightarrow> shmem \<Rightarrow> shmem \<Rightarrow> bool" where
  "quiet ps s s' \<longleftrightarrow> nextXid s' = nextXid s \<and> latestCompletedXid s' = latestCompletedXid s
     \<and> xactCompletionCount s' = xactCompletionCount s \<and> xidStopLimit s' = xidStopLimit s \<and> xidVacLimit s' = xidVacLimit s
     \<and> oldestXid s' = oldestXid s \<and> pgprocnos s' = pgprocnos s \<and> numProcs s' = numProcs s \<and> maxProcs s' = maxProcs s
     \<and> hdr_xids s' = hdr_xids s \<and> hdr_subxidStates s' = hdr_subxidStates s \<and> hdr_statusFlags s' = hdr_statusFlags s
     \<and> (\<forall>p. proc_ok (allProcs s' p)) \<and> (\<forall>p \<in> set ps. same_core (allProcs s p) (allProcs s' p))"

definition assign_env :: "varsup_env \<Rightarrow> bool" where
  "assign_env env \<longleftrightarrow> \<not> v_bootstrap_mode env \<and> v_IsUnderPostmaster env \<and> (\<forall>s. v_others env s = s)"

inductive assign_step :: "conf \<Rightarrow> conf \<Rightarrow> bool" where
  assign_top: "p \<in> set (procs C) \<Longrightarrow> xacts C p = None \<Longrightarrow> assign_env env \<Longrightarrow> nxt C + 8 < 2 ^ 64 - 2 ^ 33 \<Longrightarrow>
    GetNewTransactionId env p False (mem C) = (Inr f, s') \<Longrightarrow>
    assign_step C (C \<lparr> nxt := next_full (nxt C), xacts := (xacts C)(p \<mapsto> \<lparr> xt_top = nxt C, xt_subs = {} \<rparr>), mem := s' \<rparr>)"
| assign_sub: "xacts C p = Some x \<Longrightarrow> assign_env env \<Longrightarrow> nxt C + 8 < 2 ^ 64 - 2 ^ 33 \<Longrightarrow>
    GetNewTransactionId env p True (mem C) = (Inr f, s') \<Longrightarrow>
    assign_step C (C \<lparr> nxt := next_full (nxt C),
      xacts := (xacts C)(p \<mapsto> x \<lparr> xt_subs := insert (nxt C) (xt_subs x) \<rparr>), mem := s' \<rparr>)"
| quiet_step: "quiet (procs C) (mem C) s' \<Longrightarrow> assign_step C (C \<lparr> mem := s' \<rparr>)"

inductive conf_step :: "conf \<Rightarrow> conf \<Rightarrow> bool" where
  assign: "assign_step C C' \<Longrightarrow> conf_step C C'"
| finish: "xacts C p = Some x \<Longrightarrow> ends C + 1 < 2 ^ 64 \<Longrightarrow>
    ProcArrayEndTransactionInternal p (xid_of (Max (tree x))) (mem C) = (r, s') \<Longrightarrow>
    conf_step C (C \<lparr> completed := max (completed C) (Max (tree x)), ends := ends C + 1, xacts := (xacts C)(p := None), mem := s' \<rparr>)"
| finish_sub: "xacts C p = Some x \<Longrightarrow> ends C + 1 < 2 ^ 64 \<Longrightarrow> set (f # fs) \<subseteq> xt_subs x \<Longrightarrow>
    XidCacheRemoveRunningXids p (xid_of f) (map xid_of fs) (xid_of (Max (set (f # fs)))) (mem C) = (r, s') \<Longrightarrow>
    conf_step C (C \<lparr> completed := max (completed C) (Max (set (f # fs))), ends := ends C + 1,
      xacts := (xacts C)(p \<mapsto> x \<lparr> xt_subs := xt_subs x - set (f # fs) \<rparr>), mem := s' \<rparr>)"
| prepare: "xacts C p = Some x \<Longrightarrow> xacts C q = Some x \<Longrightarrow> p \<noteq> q \<Longrightarrow> ends C + 1 < 2 ^ 64 \<Longrightarrow>
    proc_statusFlags (allProcs (mem C) p) AND PROC_VACUUM_STATE_MASK = 0 \<Longrightarrow> delayChkptFlags (allProcs (mem C) p) = 0 \<Longrightarrow>
    ProcArrayClearTransaction p (mem C) = (r, s') \<Longrightarrow>
    conf_step C (C \<lparr> ends := ends C + 1, xacts := (xacts C)(p := None), mem := s' \<rparr>)"
| join: "q \<notin> set (procs C) \<Longrightarrow> q < length (hdr_xids (mem C)) \<Longrightarrow>
    t = None \<and> idle (allProcs (mem C) q) \<or> (\<exists>p x. xacts C p = Some x \<and> t = Some x \<and> shows_xact (allProcs (mem C) q) x) \<Longrightarrow>
    ProcArrayAdd q (mem C) = (Inr (), s') \<Longrightarrow>
    conf_step C (C \<lparr> procs := insort q (procs C), xacts := (xacts C)(q := t), mem := s' \<rparr>)"
| leave: "p \<in> set (procs C) \<Longrightarrow> xacts C p = None \<Longrightarrow> ProcArrayRemove p InvalidTransactionId (mem C) = (r, s') \<Longrightarrow>
    conf_step C (C \<lparr> procs := remove1 p (procs C), mem := s' \<rparr>)"
| leave_prepared: "xacts C p = Some x \<Longrightarrow> ends C + 1 < 2 ^ 64 \<Longrightarrow>
    ProcArrayRemove p (xid_of (Max (tree x))) (mem C) = (r, s') \<Longrightarrow>
    conf_step C (C \<lparr> procs := remove1 p (procs C), completed := max (completed C) (Max (tree x)), ends := ends C + 1,
      xacts := (xacts C)(p := None), mem := s' \<rparr>)"
| flags: "p \<in> set (procs C) \<Longrightarrow> set_status_flags p fl (mem C) = (r, s') \<Longrightarrow> conf_step C (C \<lparr> mem := s' \<rparr>)"
| limits: "normal_full lo \<Longrightarrow> oldest C \<le> lo \<Longrightarrow> lo \<le> next_full (completed C) \<Longrightarrow> (\<forall>f. running (xacts C) f \<longrightarrow> lo \<le> f) \<Longrightarrow>
    v_autovacuum_freeze_max_age env \<le> 2000000000 \<Longrightarrow> SetTransactionIdLimit env (xid_of lo) db (mem C) = (r, s') \<Longrightarrow>
    conf_step C (C \<lparr> oldest := lo, mem := s' \<rparr>)"

definition conf_start :: "conf \<Rightarrow> bool" where
  "conf_start C \<longleftrightarrow> conf_ok C \<and> procs C = []"

inductive conf_reach :: "conf \<Rightarrow> bool" where
  start: "conf_start C \<Longrightarrow> conf_reach C"
| step: "conf_reach C \<Longrightarrow> conf_step C C' \<Longrightarrow> conf_reach C'"

subsection \<open>Facts on the invariant\<close>

lemma conf_okD:
  assumes "conf_ok C"
  shows "pa_wf (procs C) (mem C)" "counters_are (nxt C) (completed C) (ends C) (mem C)" "limits_ok (oldest C) (mem C)"
    "counters_ok (oldest C) (nxt C) (completed C) (ends C)" "p \<notin> set (procs C) \<Longrightarrow> xacts C p = None"
    "p \<in> set (procs C) \<Longrightarrow> slot_ok (oldest C) (nxt C) (allProcs (mem C) p) (xacts C p)"
    "normal_full f \<Longrightarrow> completed C < f \<Longrightarrow> f < nxt C \<Longrightarrow> running (xacts C) f"
  using assms by (auto simp: conf_ok_def)

lemma conf_xact:
  assumes "conf_ok C" and "xacts C p = Some x"
  shows "p \<in> set (procs C)" "shows_xact (allProcs (mem C) p) x" "xact_ok (oldest C) (nxt C) x"
proof -
  show p: "p \<in> set (procs C)" using conf_okD(5) [OF assms(1)] assms(2) by force
  with conf_okD(6) [OF assms(1) p] assms(2)
  show "shows_xact (allProcs (mem C) p) x" "xact_ok (oldest C) (nxt C) x" by (simp_all add: slot_ok_def)
qed

lemma conf_running:
  assumes "conf_ok C" and "running (xacts C) f"
  shows "normal_full f" "oldest C \<le> f" "f < nxt C"
  using assms conf_xact(3) by (auto simp: running_def xact_ok_def)

lemma tree_finite: "xact_ok lo n x \<Longrightarrow> finite (tree x)" "tree x \<noteq> {}" "xact_ok lo n x \<Longrightarrow> Max (tree x) \<in> tree x"
proof -
  show fin: "xact_ok lo n x \<Longrightarrow> finite (tree x)" and ne: "tree x \<noteq> {}" by (auto simp: xact_ok_def tree_def)
  show "xact_ok lo n x \<Longrightarrow> Max (tree x) \<in> tree x" by (rule Max_in [OF fin ne])
qed

text \<open>Any two ids between four below the oldest and half the circle are comparable.\<close>

lemma window_near:
  assumes "lo \<le> a + 4" "lo \<le> b + 4" "a \<le> lo + 2147000000" "b \<le> lo + 2147000000"
  shows "near a b"
  using assms by (auto simp: near_def)

lemma counters_window:
  assumes "counters_ok lo n c k"
  shows "lo \<le> c + 4" "c \<le> lo + 2145000000" "lo \<le> n" "n \<le> lo + 2145000000"
  using assms next_full_props(2) [of c] next_full_least [of c n] by (auto simp: counters_ok_def)

lemma xact_ok_mono: "xact_ok lo n x \<Longrightarrow> n \<le> n' \<Longrightarrow> xact_ok lo n' x"
  by (fastforce simp: xact_ok_def)

lemma slot_ok_mono: "slot_ok lo n P t \<Longrightarrow> n \<le> n' \<Longrightarrow> slot_ok lo n' P t"
  by (auto simp: slot_ok_def xact_ok_mono split: option.splits)

definition pa_same :: "shmem \<Rightarrow> shmem \<Rightarrow> bool" where
  "pa_same s s' \<longleftrightarrow> pgprocnos s' = pgprocnos s \<and> maxProcs s' = maxProcs s \<and> numProcs s' = numProcs s
     \<and> hdr_xids s' = hdr_xids s \<and> hdr_subxidStates s' = hdr_subxidStates s \<and> hdr_statusFlags s' = hdr_statusFlags s
     \<and> allProcs s' = allProcs s \<and> oldestXid s' = oldestXid s \<and> xidStopLimit s' = xidStopLimit s \<and> xidVacLimit s' = xidVacLimit s"

text \<open>The invariant after a change of one process and of the counters.\<close>

lemma conf_put:
  assumes C: "conf_ok C" and p: "p \<in> set (procs C)"
    and P: "pgxactoff P = pgxactoff (allProcs (mem C) p)" "proc_ok P" "slot_ok (oldest C) n P t"
    and s': "pa_same (put_proc p P (mem C)) s'"
    and cnt: "counters_are n c k s'" "counters_ok (oldest C) n c k" "nxt C \<le> n"
    and cov: "\<And>f. normal_full f \<Longrightarrow> c < f \<Longrightarrow> f < n \<Longrightarrow> running ((xacts C)(p := t)) f"
  shows "conf_ok (C \<lparr> nxt := n, completed := c, ends := k, xacts := (xacts C)(p := t), mem := s' \<rparr>)"
proof -
  have "pa_wf (procs C) (put_proc p P (mem C))"
    by (rule put_proc_wf [OF conf_okD(1) [OF C] p P(1,2)])
  then have "pa_wf (procs C) s'" by (rule pa_wf_cong) (use s' in \<open>simp_all add: pa_same_def\<close>)
  moreover have "limits_ok (oldest C) s'"
    using conf_okD(3) [OF C] s' by (simp add: limits_ok_def pa_same_def)
  moreover have "slot_ok (oldest C) n (allProcs s' q) (((xacts C)(p := t)) q)" if "q \<in> set (procs C)" for q
    using s' P(3) slot_ok_mono [OF conf_okD(6) [OF C that] cnt(3)] by (simp add: pa_same_def)
  moreover have "((xacts C)(p := t)) q = None" if "q \<notin> set (procs C)" for q
    using that p conf_okD(5) [OF C that] by auto
  ultimately show ?thesis
    using cnt cov by (simp add: conf_ok_def)
qed

subsection \<open>Assigning ids\<close>

lemma assign_cases:
  assumes C: "conf_ok C" and env: "assign_env env" and run: "GetNewTransactionId env p sub (mem C) = (Inr f, s')"
  obtains k where "nxt C < stop_full (oldest C)" "f = fxid_of (nxt C)"
    "publish_xid p sub (xid_of (nxt C)) ((mem C) \<lparr> autovac_signals := k, nextXid := word_of_nat (next_full (nxt C)) \<rparr>) = (Inr (), s')"
proof -
  note K = conf_okD(2-4) [OF C, unfolded counters_are_def limits_ok_def counters_ok_def]
  have w: "oldest C \<le> nxt C" "nxt C \<le> oldest C + 2145000000" using counters_window [OF conf_okD(4) [OF C]] by simp_all
  have nx: "nextFullXid (mem C) = fxid_of (nxt C)" using K by (simp add: nextFullXid_def fxid_of_def)
  have mode: "v_IsUnderPostmaster env" "\<not> v_bootstrap_mode env" "\<And>s. v_others env s = s"
    using env by (auto simp: assign_env_def)
  obtain v where v: "xidVacLimit (mem C) = xid_of v" "normal_full v" "oldest C \<le> v" "v \<le> oldest C + 2000000003" using K by blast
  have lt: "nxt C < stop_full (oldest C)"
  proof (rule ccontr)
    assume "\<not> ?thesis"
    with GetNewTransactionId_refused(1) [of "mem C" "oldest C" v "nxt C" env p sub] K v w mode run show False by auto
  qed
  from GetNewTransactionId_Inr [OF run mode(2)] obtain s1 where
    s1: "xid_limit_check env (mem C) = (Inr (), s1)" "f = nextFullXid s1"
      "publish_xid p sub (fxid_xid f) (s1 \<lparr> nextXid := fxid_value (FullTransactionIdAdvance f) \<rparr>) = (Inr (), s')"
    by blast
  then obtain k where k: "s1 = (mem C) \<lparr> autovac_signals := k \<rparr>"
    using xid_limit_check_cases [of env "mem C"] mode(3) by (cases "mem C") auto
  then have f: "f = fxid_of (nxt C)" using s1(2) nx by (simp add: nextFullXid_def)
  show ?thesis
    by (rule that [OF lt f, of k]) (use s1(3) k f in \<open>simp add: fxid_of_Advance fxid_value_of\<close>)
qed

lemma next_counters:
  assumes "counters_ok lo n c k" "n < stop_full lo" "n + 8 < 2 ^ 64 - 2 ^ 33"
  shows "counters_ok lo (next_full n) c k" "n \<le> next_full n"
  using assms next_full_props [of n] stop_full_bounds(2) [of lo] by (auto simp: counters_ok_def)

lemma below_next: "normal_full f \<Longrightarrow> f < next_full n \<Longrightarrow> f \<le> n"
  using next_full_least [of n f] by force

lemma running_upd: "running (g(p := t)) f \<longleftrightarrow> (\<exists>q x. q \<noteq> p \<and> g q = Some x \<and> f \<in> tree x) \<or> (\<exists>x. t = Some x \<and> f \<in> tree x)"
  by (auto simp: running_def split: if_splits)

lemma running_keep:
  "running g f \<Longrightarrow> (\<And>x. g p = Some x \<Longrightarrow> f \<in> tree x \<Longrightarrow> \<exists>y. t = Some y \<and> f \<in> tree y) \<Longrightarrow> running (g(p := t)) f"
  unfolding running_upd unfolding running_def by metis

lemma assign_top_ok:
  assumes C: "conf_ok C" and p: "p \<in> set (procs C)" "xacts C p = None" and env: "assign_env env"
    and big: "nxt C + 8 < 2 ^ 64 - 2 ^ 33" and run: "GetNewTransactionId env p False (mem C) = (Inr f, s')"
  shows "conf_ok (C \<lparr> nxt := next_full (nxt C), xacts := (xacts C)(p \<mapsto> \<lparr> xt_top = nxt C, xt_subs = {} \<rparr>), mem := s' \<rparr>)"
proof -
  let ?n = "nxt C" and ?x = "\<lparr> xt_top = nxt C, xt_subs = {} \<rparr>"
  let ?P = "allProcs (mem C) p"
  note K = conf_okD(4) [OF C]
  have idle: "idle ?P" using conf_okD(6) [OF C p(1)] p(2) by (simp add: slot_ok_def)
  from assign_cases [OF C env run] obtain k where lt: "?n < stop_full (oldest C)" "f = fxid_of ?n"
    and pub: "publish_xid p False (xid_of ?n) ((mem C) \<lparr> autovac_signals := k, nextXid := word_of_nat (next_full ?n) \<rparr>) = (Inr (), s')" .
  let ?s1 = "(mem C) \<lparr> autovac_signals := k, nextXid := word_of_nat (next_full ?n) \<rparr>"
  have "pa_wf (procs C) ?s1" by (rule pa_wf_cong [OF conf_okD(1) [OF C]]) simp_all
  from publish_top_put [OF this p(1), of "xid_of ?n"] pub idle
  have s': "s' = put_proc p (?P \<lparr> proc_xid := xid_of ?n \<rparr>) ?s1" by (simp add: idle_def)
  note nk = next_counters [OF K lt(1) big]
  have "conf_ok (C \<lparr> nxt := next_full ?n, completed := completed C, ends := ends C, xacts := (xacts C)(p := Some ?x), mem := s' \<rparr>)"
  proof (rule conf_put [OF C p(1)])
    show "pgxactoff (?P \<lparr> proc_xid := xid_of ?n \<rparr>) = pgxactoff ?P" by simp
    show "proc_ok (?P \<lparr> proc_xid := xid_of ?n \<rparr>)" using conf_okD(1) [OF C] by (simp add: pa_wf_def proc_ok_def)
    show "slot_ok (oldest C) (next_full ?n) (?P \<lparr> proc_xid := xid_of ?n \<rparr>) (Some ?x)"
      using idle K next_full_props(1) [of ?n] counters_window(3) [OF K]
      by (simp add: slot_ok_def shows_xact_def xact_ok_def tree_def idle_def cached_xids_def counters_ok_def)
    show "pa_same (put_proc p (?P \<lparr> proc_xid := xid_of ?n \<rparr>) (mem C)) s'" unfolding s' by (simp add: pa_same_def put_proc_def)
    show "counters_are (next_full ?n) (completed C) (ends C) s'"
      using conf_okD(2) [OF C] unfolding s' by (simp add: counters_are_def)
    fix g assume g: "normal_full g" "completed C < g" "g < next_full ?n"
    show "running ((xacts C)(p := Some ?x)) g"
    proof (cases "g = ?n")
      case False
      with g below_next [of g ?n] have "running (xacts C) g" by (intro conf_okD(7) [OF C]) auto
      then show ?thesis by (rule running_keep) (use p(2) in \<open>auto simp: tree_def\<close>)
    qed (simp add: running_upd tree_def)
  qed (rule nk)+
  then show ?thesis by simp
qed

lemma assign_sub_ok:
  assumes C: "conf_ok C" and x: "xacts C p = Some x" and env: "assign_env env"
    and big: "nxt C + 8 < 2 ^ 64 - 2 ^ 33" and run: "GetNewTransactionId env p True (mem C) = (Inr f, s')"
  shows "conf_ok (C \<lparr> nxt := next_full (nxt C), xacts := (xacts C)(p \<mapsto> x \<lparr> xt_subs := insert (nxt C) (xt_subs x) \<rparr>), mem := s' \<rparr>)"
proof -
  let ?n = "nxt C" and ?x = "x \<lparr> xt_subs := insert (nxt C) (xt_subs x) \<rparr>"
  let ?P = "allProcs (mem C) p"
  let ?Q = "with_sub (xid_of ?n) ?P"
  note K = conf_okD(4) [OF C] and X = conf_xact [OF C x]
  have ok: "proc_ok ?P" using conf_okD(1) [OF C] by (simp add: pa_wf_def)
  from assign_cases [OF C env run] obtain k where lt: "?n < stop_full (oldest C)" "f = fxid_of ?n"
    and pub: "publish_xid p True (xid_of ?n) ((mem C) \<lparr> autovac_signals := k, nextXid := word_of_nat (next_full ?n) \<rparr>) = (Inr (), s')" .
  let ?s1 = "(mem C) \<lparr> autovac_signals := k, nextXid := word_of_nat (next_full ?n) \<rparr>"
  have "pa_wf (procs C) ?s1" by (rule pa_wf_cong [OF conf_okD(1) [OF C]]) simp_all
  from publish_sub_put [OF this X(1), of "xid_of ?n"] pub have s': "s' = put_proc p ?Q ?s1" by simp
  note nk = next_counters [OF K lt(1) big] and ws = with_sub_simps [OF ok, of "xid_of ?n"]
  have fresh: "xid_of ?n \<notin> xid_of ` xt_subs x"
  proof
    assume "xid_of ?n \<in> xid_of ` xt_subs x"
    then obtain g where g: "g \<in> xt_subs x" "xid_of ?n = xid_of g" by blast
    then have "oldest C \<le> g" "g < ?n" using X(3) by (auto simp: xact_ok_def tree_def)
    then have "near ?n g" using counters_window [OF K] by (intro window_near [of "oldest C"]) auto
    with g(2) \<open>g < ?n\<close> show False by (simp add: xid_of_inj)
  qed
  have sh: "shows_xact ?Q ?x"
    using ws(3,5,6) X(2) fresh by (auto simp: shows_xact_def)
  have "conf_ok (C \<lparr> nxt := next_full ?n, completed := completed C, ends := ends C, xacts := (xacts C)(p := Some ?x), mem := s' \<rparr>)"
  proof (rule conf_put [OF C X(1)])
    show "slot_ok (oldest C) (next_full ?n) ?Q (Some ?x)"
      using sh X(3) K next_full_props(1) [of ?n] counters_window(3) [OF K]
      by (fastforce simp: slot_ok_def xact_ok_def tree_def counters_ok_def)
    show "pa_same (put_proc p ?Q (mem C)) s'" unfolding s' by (simp add: pa_same_def put_proc_def)
    show "counters_are (next_full ?n) (completed C) (ends C) s'"
      using conf_okD(2) [OF C] unfolding s' by (simp add: counters_are_def)
    fix g assume g: "normal_full g" "completed C < g" "g < next_full ?n"
    show "running ((xacts C)(p := Some ?x)) g"
    proof (cases "g = ?n")
      case False
      with g below_next [of g ?n] have "running (xacts C) g" by (intro conf_okD(7) [OF C]) auto
      then show ?thesis by (rule running_keep) (use x in \<open>auto simp: tree_def\<close>)
    qed (simp add: running_upd tree_def)
  qed (rule ws nk)+
  then show ?thesis by simp
qed

lemma quiet_ok:
  assumes C: "conf_ok C" and q: "quiet (procs C) (mem C) s'"
  shows "conf_ok (C \<lparr> mem := s' \<rparr>)"
proof -
  have core: "same_core (allProcs (mem C) p) (allProcs s' p)" if "p \<in> set (procs C)" for p
    using q that by (simp add: quiet_def)
  have "pa_wf (procs C) s'"
    using conf_okD(1) [OF C] q core nth_mem
    by (auto simp: pa_wf_def pa_sizes_def quiet_def mirrored_def same_core_def)
  moreover have "slot_ok lo n (allProcs s' p) t = slot_ok lo n (allProcs (mem C) p) t" if "p \<in> set (procs C)" for p lo n t
    using core [OF that] by (simp add: slot_ok_def idle_def shows_xact_def cached_xids_def same_core_def split: option.split)
  ultimately show ?thesis
    using C q by (simp add: conf_ok_def quiet_def counters_are_def limits_ok_def)
qed

lemma assign_step_ok: "assign_step C C' \<Longrightarrow> conf_ok C \<Longrightarrow> conf_ok C'"
  by (induction rule: assign_step.induct) (blast intro: assign_top_ok assign_sub_ok quiet_ok)+

subsection \<open>Ending transactions\<close>

text \<open>The counters after ids up to \<open>m\<close> have finished.\<close>

lemma finish_counters:
  assumes K: "counters_ok lo n c k" and m: "normal_full m" "lo \<le> m" "m < n" and k: "k + 1 < 2 ^ 64"
  shows "counters_ok lo n (max c m) (k + 1)" "near c m" "(word_of_nat k + 1 :: u64) = word_of_nat (k + 1)"
proof -
  note w = counters_window [OF K]
  show "near c m" by (rule window_near [of lo]) (use w m in auto)
  show "counters_ok lo n (max c m) (k + 1)"
    using K m k next_full_props(1) [of m] by (auto simp: counters_ok_def max_def)
  show "(word_of_nat k + 1 :: u64) = word_of_nat (k + 1)" by simp
qed

lemma conf_xid_valid:
  assumes "conf_ok C" "xacts C p = Some x"
  shows "TransactionIdIsValid (proc_xid (allProcs (mem C) p))"
  using conf_xact [OF assms] xid_of_valid [of "xt_top x"]
  by (auto simp: shows_xact_def xact_ok_def tree_def TransactionIdIsValid_def InvalidTransactionId_def)

lemma finish_put:
  assumes C: "conf_ok C" and x: "xacts C p = Some x" and k: "ends C + 1 < 2 ^ 64"
  obtains flags where "flags AND PROC_VACUUM_STATE_MASK = 0"
    "flags AND PROC_IN_LOGICAL_DECODING = proc_statusFlags (allProcs (mem C) p) AND PROC_IN_LOGICAL_DECODING"
    "ProcArrayEndTransactionInternal p (xid_of (Max (tree x))) (mem C) = (Inr (), (put_proc p (ended flags (allProcs (mem C) p)) (mem C))
       \<lparr> latestCompletedXid := word_of_nat (max (completed C) (Max (tree x))), xactCompletionCount := xactCompletionCount (mem C) + 1 \<rparr>)"
    "counters_ok (oldest C) (nxt C) (max (completed C) (Max (tree x))) (ends C + 1)"
proof -
  let ?m = "Max (tree x)"
  note X = conf_xact [OF C x] and K = conf_okD(4) [OF C]
  have m: "normal_full ?m" "oldest C \<le> ?m" "?m < nxt C" using tree_finite(3) [OF X(3)] X(3) by (auto simp: xact_ok_def)
  note fc = finish_counters [OF K m k]
  have cc: "latestCompletedXid (mem C) = word_of_nat (completed C)" "normal_full (completed C)" "xactCompletionCount (mem C) = word_of_nat (ends C)"
    using conf_okD(2) [OF C] K by (simp_all add: counters_are_def counters_ok_def)
  from EndTransactionInternal_put [OF conf_okD(1) [OF C] X(1) conf_xid_valid [OF C x] cc(1,2) m(1) fc(2)] show ?thesis
    using that fc(1) by blast
qed

lemma finish_ok:
  assumes C: "conf_ok C" and x: "xacts C p = Some x" and k: "ends C + 1 < 2 ^ 64"
    and run: "ProcArrayEndTransactionInternal p (xid_of (Max (tree x))) (mem C) = (r, s')"
  shows "conf_ok (C \<lparr> completed := max (completed C) (Max (tree x)), ends := ends C + 1, xacts := (xacts C)(p := None), mem := s' \<rparr>)"
    "r = Inr ()"
proof -
  let ?m = "Max (tree x)" and ?P = "allProcs (mem C) p" and ?c = "max (completed C) (Max (tree x))"
  note X = conf_xact [OF C x]
  from finish_put [OF C x k] obtain flags where
    e: "ProcArrayEndTransactionInternal p (xid_of ?m) (mem C)
      = (Inr (), (put_proc p (ended flags ?P) (mem C))
           \<lparr> latestCompletedXid := word_of_nat ?c, xactCompletionCount := xactCompletionCount (mem C) + 1 \<rparr>)"
    and fc: "counters_ok (oldest C) (nxt C) ?c (ends C + 1)" .
  with run show r: "r = Inr ()" by simp
  from e run have s': "s' = (put_proc p (ended flags ?P) (mem C))
      \<lparr> latestCompletedXid := word_of_nat ?c, xactCompletionCount := xactCompletionCount (mem C) + 1 \<rparr>" by simp
  have "conf_ok (C \<lparr> nxt := nxt C, completed := ?c, ends := ends C + 1, xacts := (xacts C)(p := None), mem := s' \<rparr>)"
  proof (rule conf_put [OF C X(1)])
    show "pgxactoff (ended flags ?P) = pgxactoff ?P" by simp
    have "proc_ok ?P" using conf_okD(1) [OF C] by (simp add: pa_wf_def)
    then show "proc_ok (ended flags ?P)" by (simp add: proc_ok_def [of ?P])
    show "slot_ok (oldest C) (nxt C) (ended flags ?P) None" by (simp add: slot_ok_def idle_def)
    show "pa_same (put_proc p (ended flags ?P) (mem C)) s'" unfolding s' by (simp add: pa_same_def put_proc_def)
    show "counters_are (nxt C) ?c (ends C + 1) s'"
      using conf_okD(2) [OF C] unfolding s' by (simp add: counters_are_def)
    fix f assume f: "normal_full f" "?c < f" "f < nxt C"
    then have "running (xacts C) f" by (intro conf_okD(7) [OF C]) auto
    moreover have "f \<notin> tree x" using f(2) Max_ge [OF tree_finite(1) [OF X(3)], of f] by auto
    ultimately show "running ((xacts C)(p := None)) f" by (rule_tac running_keep) (use x in auto)
  qed (use fc in simp_all)
  then show "conf_ok (C \<lparr> completed := ?c, ends := ends C + 1, xacts := (xacts C)(p := None), mem := s' \<rparr>)" by simp
qed

lemma counters_inj:
  assumes "counters_ok lo n c k" "\<forall>f \<in> A. lo \<le> f \<and> f < n"
  shows "inj_on xid_of A"
proof (rule inj_onI)
  fix a b assume ab: "a \<in> A" "b \<in> A" "xid_of a = xid_of b"
  then have "near a b" using assms(2) counters_window(4) [OF assms(1)] by (intro window_near [of lo]) fastforce+
  with ab(3) show "a = b" by (simp add: xid_of_inj)
qed

lemma finish_sub_ok:
  assumes C: "conf_ok C" and x: "xacts C p = Some x" and k: "ends C + 1 < 2 ^ 64" and fs: "set (f # fs) \<subseteq> xt_subs x"
    and run: "XidCacheRemoveRunningXids p (xid_of f) (map xid_of fs) (xid_of (Max (set (f # fs)))) (mem C) = (r, s')"
  shows "conf_ok (C \<lparr> completed := max (completed C) (Max (set (f # fs))), ends := ends C + 1,
      xacts := (xacts C)(p \<mapsto> x \<lparr> xt_subs := xt_subs x - set (f # fs) \<rparr>), mem := s' \<rparr>)" "r = Inr ()"
proof -
  let ?m = "Max (set (f # fs))" and ?P = "allProcs (mem C) p" and ?c = "max (completed C) (Max (set (f # fs)))"
  let ?x = "x \<lparr> xt_subs := xt_subs x - set (f # fs) \<rparr>"
  note X = conf_xact [OF C x] and K = conf_okD(4) [OF C] and wf = conf_okD(1) [OF C]
  have subs: "normal_full g" "oldest C \<le> g" "g < nxt C" if "g \<in> xt_subs x" for g
    using X(3) that by (auto simp: xact_ok_def tree_def)
  have "?m \<in> set (f # fs)" by (rule Max_in) auto
  then have m: "normal_full ?m" "oldest C \<le> ?m" "?m < nxt C" using subs fs by blast+
  note fc = finish_counters [OF K m k]
  have cc: "latestCompletedXid (mem C) = word_of_nat (completed C)" "normal_full (completed C)" "xactCompletionCount (mem C) = word_of_nat (ends C)"
    using conf_okD(2) [OF C] K by (simp_all add: counters_are_def counters_ok_def)
  have d: "distinct (cached_xids ?P)" using X(2) by (simp add: shows_xact_def)
  from remove_all_put [OF wf X(1) d, of "rev (map xid_of fs)"] obtain Q where
    Q: "xid_cache_remove_all p (rev (map xid_of fs)) (mem C) = (Inr (), put_proc p Q (mem C))" "proc_ok Q"
      "pgxactoff Q = pgxactoff ?P" "proc_xid Q = proc_xid ?P"
      "sx_overflowed (subxidStatus Q) = sx_overflowed (subxidStatus ?P)"
      "set (cached_xids Q) = set (cached_xids ?P) - xid_of ` set fs" "distinct (cached_xids Q)" by auto
  have "pa_wf (procs C) (put_proc p Q (mem C))" by (rule put_proc_wf [OF wf X(1) Q(3,2)])
  from remove_one_put [OF this X(1), of "xid_of f"] Q(7) obtain R where
    R: "xid_cache_remove_one p (xid_of f) (put_proc p Q (mem C)) = (Inr (), put_proc p R (put_proc p Q (mem C)))" "proc_ok R"
      "pgxactoff R = pgxactoff Q" "proc_xid R = proc_xid Q"
      "sx_overflowed (subxidStatus R) = sx_overflowed (subxidStatus Q)"
      "set (cached_xids R) = set (cached_xids Q) - {xid_of f}" "distinct (cached_xids R)" by auto
  have f: "TransactionIdIsValid (xid_of f)"
    using subs(1) [of f] fs xid_of_valid by (auto simp: TransactionIdIsValid_def InvalidTransactionId_def)
  have off: "pgxactoff ?P < length (hdr_subxidStates (mem C))"
    using put_proc_mirrors(7) [OF wf X(1) refl] by (simp add: hdr_bounds_def)
  let ?s = "put_proc p R (mem C)"
  have "MaintainLatestCompletedXid (xid_of ?m) ?s = (Inr (), ?s \<lparr> latestCompletedXid := word_of_nat ?c \<rparr>)"
    by (rule Maintain_nat) (use cc m fc in simp_all)
  then have e: "XidCacheRemoveRunningXids p (xid_of f) (map xid_of fs) (xid_of ?m) (mem C)
      = (Inr (), ?s \<lparr> latestCompletedXid := word_of_nat ?c, xactCompletionCount := xactCompletionCount (mem C) + 1 \<rparr>)"
    using f off Q(1) R(1,3) by (simp add: XidCacheRemoveRunningXids_def put_proc_put increment_xact_completion_count_def)
  with run show "r = Inr ()" by simp
  from e run have s': "s' = ?s \<lparr> latestCompletedXid := word_of_nat ?c, xactCompletionCount := xactCompletionCount (mem C) + 1 \<rparr>" by simp
  have inj: "xid_of ` (xt_subs x - set (f # fs)) = xid_of ` xt_subs x - xid_of ` set (f # fs)"
    using counters_inj [OF K, of "xt_subs x"] subs fs by (simp add: inj_on_image_set_diff)
  have sh: "shows_xact R ?x"
    using X(2) R Q inj by (auto simp: shows_xact_def)
  have "conf_ok (C \<lparr> nxt := nxt C, completed := ?c, ends := ends C + 1, xacts := (xacts C)(p := Some ?x), mem := s' \<rparr>)"
  proof (rule conf_put [OF C X(1)])
    show "pgxactoff R = pgxactoff ?P" "proc_ok R" using R Q by simp_all
    show "slot_ok (oldest C) (nxt C) R (Some ?x)"
      using sh X(3) by (auto simp: slot_ok_def xact_ok_def tree_def)
    show "pa_same ?s s'" unfolding s' by (simp add: pa_same_def put_proc_def)
    show "counters_are (nxt C) ?c (ends C + 1) s'"
      using conf_okD(2) [OF C] fc(3) unfolding s' by (simp add: counters_are_def)
    fix g assume g: "normal_full g" "?c < g" "g < nxt C"
    then have "running (xacts C) g" by (intro conf_okD(7) [OF C]) auto
    moreover have "g \<notin> set (f # fs)" using g(2) Max_ge [of "set (f # fs)" g] by auto
    ultimately show "running ((xacts C)(p := Some ?x)) g"
      by (rule_tac running_keep) (use x in \<open>auto simp: tree_def\<close>)
  qed (use fc in simp_all)
  then show "conf_ok (C \<lparr> completed := ?c, ends := ends C + 1, xacts := (xacts C)(p := Some ?x), mem := s' \<rparr>)" by simp
qed

lemma prepare_ok:
  assumes C: "conf_ok C" and x: "xacts C p = Some x" "xacts C q = Some x" "p \<noteq> q" and k: "ends C + 1 < 2 ^ 64"
    and fl: "proc_statusFlags (allProcs (mem C) p) AND PROC_VACUUM_STATE_MASK = 0" "delayChkptFlags (allProcs (mem C) p) = 0"
    and run: "ProcArrayClearTransaction p (mem C) = (r, s')"
  shows "conf_ok (C \<lparr> ends := ends C + 1, xacts := (xacts C)(p := None), mem := s' \<rparr>)" "r = Inr ()"
proof -
  let ?P = "allProcs (mem C) p"
  let ?Q = "ended (proc_statusFlags ?P) ?P"
  note X = conf_xact [OF C x(1)] and K = conf_okD(4) [OF C]
  note e = ClearTransaction_put [OF conf_okD(1) [OF C] X(1) fl]
  with run show "r = Inr ()" by simp
  from e run have s': "s' = (put_proc p ?Q (mem C)) \<lparr> xactCompletionCount := xactCompletionCount (mem C) + 1 \<rparr>" by simp
  have "conf_ok (C \<lparr> nxt := nxt C, completed := completed C, ends := ends C + 1, xacts := (xacts C)(p := None), mem := s' \<rparr>)"
  proof (rule conf_put [OF C X(1)])
    show "pgxactoff ?Q = pgxactoff ?P" by simp
    have "proc_ok ?P" using conf_okD(1) [OF C] by (simp add: pa_wf_def)
    then show "proc_ok ?Q" by (simp add: proc_ok_def [of ?P])
    show "slot_ok (oldest C) (nxt C) ?Q None" by (simp add: slot_ok_def idle_def)
    show "pa_same (put_proc p ?Q (mem C)) s'" unfolding s' by (simp add: pa_same_def put_proc_def)
    show "counters_are (nxt C) (completed C) (ends C + 1) s'"
      using conf_okD(2) [OF C] unfolding s' by (simp add: counters_are_def)
    show "counters_ok (oldest C) (nxt C) (completed C) (ends C + 1)" using K k by (simp add: counters_ok_def)
    fix f assume f: "normal_full f" "completed C < f" "f < nxt C"
    then have "running (xacts C) f" by (rule conf_okD(7) [OF C])
    then show "running ((xacts C)(p := None)) f"
      unfolding running_upd using x unfolding running_def by (metis option.inject)
  qed simp
  then show "conf_ok (C \<lparr> ends := ends C + 1, xacts := (xacts C)(p := None), mem := s' \<rparr>)" by simp
qed

subsection \<open>Joining and leaving\<close>

lemma slot_ok_off [simp]: "slot_ok lo n (P \<lparr> pgxactoff := k \<rparr>) t = slot_ok lo n P t"
  by (simp add: slot_ok_def idle_def shows_xact_def cached_xids_def split: option.split)

lemma conf_move:
  assumes C: "conf_ok C" and s': "pa_wf ps' s'" "same_procs (mem C) s'"
    and cnt: "counters_are (nxt C) c k s'" "counters_ok (oldest C) (nxt C) c k"
    and out: "\<And>p. p \<notin> set ps' \<Longrightarrow> t p = None"
    and sl: "\<And>p. p \<in> set ps' \<Longrightarrow> slot_ok (oldest C) (nxt C) (allProcs (mem C) p) (t p)"
    and cov: "\<And>f. normal_full f \<Longrightarrow> c < f \<Longrightarrow> f < nxt C \<Longrightarrow> running t f"
  shows "conf_ok (C \<lparr> procs := ps', completed := c, ends := k, xacts := t, mem := s' \<rparr>)"
proof -
  have "slot_ok (oldest C) (nxt C) (allProcs s' p) (t p)" if p: "p \<in> set ps'" for p
  proof -
    obtain j where "allProcs s' p = (allProcs (mem C) p) \<lparr> pgxactoff := j \<rparr>"
      using s'(2) by (auto simp: same_procs_def)
    with sl [OF p] show ?thesis by simp
  qed
  moreover have "limits_ok (oldest C) s'"
    using conf_okD(3) [OF C] s'(2) by (simp add: limits_ok_def same_procs_def)
  ultimately show ?thesis
    using s' cnt out cov by (simp add: conf_ok_def)
qed

lemma join_ok:
  assumes C: "conf_ok C" and q: "q \<notin> set (procs C)" "q < length (hdr_xids (mem C))"
    and t: "t = None \<and> idle (allProcs (mem C) q) \<or> (\<exists>p x. xacts C p = Some x \<and> t = Some x \<and> shows_xact (allProcs (mem C) q) x)"
    and run: "ProcArrayAdd q (mem C) = (Inr (), s')"
  shows "conf_ok (C \<lparr> procs := insort q (procs C), xacts := (xacts C)(q := t), mem := s' \<rparr>)"
proof -
  have "numProcs (mem C) = length (procs C)" using conf_okD(1) [OF C] by (simp add: pa_wf_def)
  with run have room: "length (procs C) < maxProcs (mem C)" by (auto simp: ProcArrayAdd_def Let_def split: if_splits)
  from ProcArrayAdd_ok [OF conf_okD(1) [OF C] q room] run have
    a: "pa_wf (insort q (procs C)) s'" "same_procs (mem C) s'" "latestCompletedXid s' = latestCompletedXid (mem C)"
      "xactCompletionCount s' = xactCompletionCount (mem C)" by (metis prod.inject)+
  have none: "xacts C q = None" by (rule conf_okD(5) [OF C q(1)])
  have tq: "slot_ok (oldest C) (nxt C) (allProcs (mem C) q) t"
    using t conf_xact(3) [OF C] by (auto simp: slot_ok_def)
  have "conf_ok (C \<lparr> procs := insort q (procs C), completed := completed C, ends := ends C, xacts := (xacts C)(q := t), mem := s' \<rparr>)"
  proof (rule conf_move [OF C a(1,2)])
    show "counters_are (nxt C) (completed C) (ends C) s'"
      using conf_okD(2) [OF C] a by (simp add: counters_are_def same_procs_def)
    show "((xacts C)(q := t)) p = None" if "p \<notin> set (insort q (procs C))" for p
      using that conf_okD(5) [OF C] by (auto simp: set_insort_key)
    show "slot_ok (oldest C) (nxt C) (allProcs (mem C) p) (((xacts C)(q := t)) p)" if "p \<in> set (insort q (procs C))" for p
      using that conf_okD(6) [OF C, of p] tq by (auto simp: set_insort_key)
    show "running ((xacts C)(q := t)) f" if "normal_full f" "completed C < f" "f < nxt C" for f
      using conf_okD(7) [OF C that] by (rule running_keep) (use none in simp)
  qed (rule conf_okD(4) [OF C])
  then show ?thesis by simp
qed

lemma leave_ok:
  assumes C: "conf_ok C" and p: "p \<in> set (procs C)" "xacts C p = None"
    and run: "ProcArrayRemove p InvalidTransactionId (mem C) = (r, s')"
  shows "conf_ok (C \<lparr> procs := remove1 p (procs C), mem := s' \<rparr>)" "r = Inr ()"
proof -
  have "proc_xid (allProcs (mem C) p) = InvalidTransactionId"
    using conf_okD(6) [OF C p(1)] p(2) by (simp add: slot_ok_def idle_def)
  from ProcArrayRemove_idle [OF conf_okD(1) [OF C] p(1) this] run have
    a: "r = Inr ()" "pa_wf (remove1 p (procs C)) s'" "same_procs (mem C) s'" "latestCompletedXid s' = latestCompletedXid (mem C)"
      "xactCompletionCount s' = xactCompletionCount (mem C)" by (metis prod.inject)+
  then show "r = Inr ()" by simp
  have "conf_ok (C \<lparr> procs := remove1 p (procs C), completed := completed C, ends := ends C, xacts := xacts C, mem := s' \<rparr>)"
  proof (rule conf_move [OF C a(2,3)])
    show "counters_are (nxt C) (completed C) (ends C) s'"
      using conf_okD(2) [OF C] a by (simp add: counters_are_def same_procs_def)
    show "xacts C q = None" if "q \<notin> set (remove1 p (procs C))" for q
      using that conf_okD(5) [OF C] p by (cases "q = p") auto
    show "slot_ok (oldest C) (nxt C) (allProcs (mem C) q) (xacts C q)" if "q \<in> set (remove1 p (procs C))" for q
      using that conf_okD(6) [OF C] by (blast dest: notin_set_remove1 [rotated])
  qed (rule conf_okD [OF C]; assumption?)+
  then show "conf_ok (C \<lparr> procs := remove1 p (procs C), mem := s' \<rparr>)" by simp
qed

lemma leave_prepared_ok:
  assumes C: "conf_ok C" and x: "xacts C p = Some x" and k: "ends C + 1 < 2 ^ 64"
    and run: "ProcArrayRemove p (xid_of (Max (tree x))) (mem C) = (r, s')"
  shows "conf_ok (C \<lparr> procs := remove1 p (procs C), completed := max (completed C) (Max (tree x)), ends := ends C + 1,
      xacts := (xacts C)(p := None), mem := s' \<rparr>)" "r = Inr ()"
proof -
  let ?m = "Max (tree x)" and ?c = "max (completed C) (Max (tree x))"
  note X = conf_xact [OF C x] and K = conf_okD(4) [OF C]
  have m: "normal_full ?m" "oldest C \<le> ?m" "?m < nxt C" using tree_finite(3) [OF X(3)] X(3) by (auto simp: xact_ok_def)
  note fc = finish_counters [OF K m k]
  have cc: "latestCompletedXid (mem C) = word_of_nat (completed C)" "normal_full (completed C)"
    using conf_okD(2) [OF C] K by (simp_all add: counters_are_def counters_ok_def)
  from ProcArrayRemove_busy [OF conf_okD(1) [OF C] X(1) conf_xid_valid [OF C x] cc m(1) fc(2)] run have
    a: "r = Inr ()" "pa_wf (remove1 p (procs C)) s'" "same_procs (mem C) s'" "latestCompletedXid s' = word_of_nat ?c"
      "xactCompletionCount s' = xactCompletionCount (mem C) + 1" by (metis prod.inject)+
  then show "r = Inr ()" by simp
  show "conf_ok (C \<lparr> procs := remove1 p (procs C), completed := ?c, ends := ends C + 1, xacts := (xacts C)(p := None), mem := s' \<rparr>)"
  proof (rule conf_move [OF C a(2,3)])
    show "counters_are (nxt C) ?c (ends C + 1) s'"
      using conf_okD(2) [OF C] a fc(3) by (simp add: counters_are_def same_procs_def)
    show "((xacts C)(p := None)) q = None" if "q \<notin> set (remove1 p (procs C))" for q
      using that conf_okD(5) [OF C] by (cases "q = p") auto
    show "slot_ok (oldest C) (nxt C) (allProcs (mem C) q) (((xacts C)(p := None)) q)" if "q \<in> set (remove1 p (procs C))" for q
    proof -
      have "q \<noteq> p" "q \<in> set (procs C)" using that pa_wf_distinct [OF conf_okD(1) [OF C]] by auto
      then show ?thesis using conf_okD(6) [OF C, of q] by simp
    qed
    fix f assume f: "normal_full f" "?c < f" "f < nxt C"
    then have "running (xacts C) f" by (intro conf_okD(7) [OF C]) auto
    moreover have "f \<notin> tree x" using f(2) Max_ge [OF tree_finite(1) [OF X(3)], of f] by auto
    ultimately show "running ((xacts C)(p := None)) f" by (rule_tac running_keep) (use x in auto)
  qed (rule fc(1))
qed

subsection \<open>Flags and limits\<close>

lemma flags_ok:
  assumes C: "conf_ok C" and p: "p \<in> set (procs C)" and run: "set_status_flags p fl (mem C) = (r, s')"
  shows "conf_ok (C \<lparr> mem := s' \<rparr>)" "r = Inr ()"
proof -
  let ?P = "allProcs (mem C) p"
  let ?Q = "?P \<lparr> proc_statusFlags := fl \<rparr>"
  note e = set_status_flags_put [OF conf_okD(1) [OF C] p, of fl]
  with run show "r = Inr ()" by simp
  from e run have s': "s' = put_proc p ?Q (mem C)" by simp
  have "conf_ok (C \<lparr> nxt := nxt C, completed := completed C, ends := ends C, xacts := (xacts C)(p := xacts C p), mem := s' \<rparr>)"
  proof (rule conf_put [OF C p])
    have "proc_ok ?P" using conf_okD(1) [OF C] by (simp add: pa_wf_def)
    then show "proc_ok ?Q" by (simp add: proc_ok_def)
    show "slot_ok (oldest C) (nxt C) ?Q (xacts C p)"
      using conf_okD(6) [OF C p] by (simp add: slot_ok_def idle_def shows_xact_def cached_xids_def split: option.splits)
    show "pa_same (put_proc p ?Q (mem C)) s'" by (simp add: s' pa_same_def)
    show "counters_are (nxt C) (completed C) (ends C) s'" using conf_okD(2) [OF C] by (simp add: s' counters_are_def)
    show "running ((xacts C)(p := xacts C p)) f" if "normal_full f" "completed C < f" "f < nxt C" for f
      using conf_okD(7) [OF C that] by simp
  qed (use conf_okD(4) [OF C] in simp_all)
  then show "conf_ok (C \<lparr> mem := s' \<rparr>)" by simp
qed

lemma SetTransactionIdLimit_touches:
  assumes "normal_full lo"
  obtains v w st wr k where "snd (SetTransactionIdLimit env (xid_of lo) db s) =
    s \<lparr> oldestXid := xid_of lo, xidVacLimit := v, xidWarnLimit := w, xidStopLimit := st, xidWrapLimit := wr, oldestXidDB := db,
        autovac_signals := k \<rparr>"
proof -
  have n: "TransactionIdIsNormal (xid_of lo)" using assms by (simp add: xid_of_normal)
  have t: "snd (tryS r u (\<lambda>_. (Inr (), u))) = u" for r :: "'x res" and u :: shmem by (cases r) simp_all
  have u: "(if c then u \<lparr> autovac_signals := j \<rparr> else u) = u \<lparr> autovac_signals := if c then j else autovac_signals u \<rparr>" for c j and u :: shmem
    by simp
  show ?thesis
    by (rule that) (simp only: SetTransactionIdLimit_def Let_def n t u not_True_eq_False if_False if_distrib [of snd] snd_conv if_cancel)
qed

lemma limits_step_ok:
  assumes C: "conf_ok C" and lo: "normal_full lo" "oldest C \<le> lo" "lo \<le> next_full (completed C)" "\<forall>f. running (xacts C) f \<longrightarrow> lo \<le> f"
    and age: "v_autovacuum_freeze_max_age env \<le> 2000000000" and run: "SetTransactionIdLimit env (xid_of lo) db (mem C) = (r, s')"
  shows "conf_ok (C \<lparr> oldest := lo, mem := s' \<rparr>)"
proof -
  let ?v = "skip_up (lo + unat (v_autovacuum_freeze_max_age env))"
  have l: "xidStopLimit s' = xid_of (stop_full lo)" "xidVacLimit s' = xid_of ?v"
    using SetTransactionIdLimit_limits(2,3) [OF lo(1), of env db "mem C"] run by simp_all
  have "unat (v_autovacuum_freeze_max_age env) \<le> 2000000000" using age by (simp add: word_le_nat_alt)
  then have "normal_full ?v" "lo \<le> ?v" "?v \<le> lo + 2000000003"
    using skip_up_normal skip_bounds(1,2) [of "lo + unat (v_autovacuum_freeze_max_age env)"] by auto
  note v = this
  from SetTransactionIdLimit_touches [OF lo(1), of env db "mem C"] run obtain v w st wr k where
    s': "s' = (mem C) \<lparr> oldestXid := xid_of lo, xidVacLimit := v, xidWarnLimit := w, xidStopLimit := st, xidWrapLimit := wr,
      oldestXidDB := db, autovac_signals := k \<rparr>" by (metis snd_conv)
  have rest: "pgprocnos s' = pgprocnos (mem C)" "maxProcs s' = maxProcs (mem C)" "numProcs s' = numProcs (mem C)"
    "hdr_xids s' = hdr_xids (mem C)" "hdr_subxidStates s' = hdr_subxidStates (mem C)" "hdr_statusFlags s' = hdr_statusFlags (mem C)"
    "allProcs s' = allProcs (mem C)" "nextXid s' = nextXid (mem C)" "latestCompletedXid s' = latestCompletedXid (mem C)"
    "xactCompletionCount s' = xactCompletionCount (mem C)"
    by (simp_all add: s')
  have lim: "limits_ok lo s'" using l v by (auto simp: limits_ok_def s')
  have "xact_ok lo (nxt C) x" if "xacts C p = Some x" for p x
    using conf_xact(3) [OF C that] lo(4) that by (auto simp: xact_ok_def running_def)
  then have "slot_ok lo (nxt C) (allProcs (mem C) p) (xacts C p)" if "p \<in> set (procs C)" for p
    using conf_okD(6) [OF C that] by (auto simp: slot_ok_def split: option.splits)
  moreover have "pa_wf (procs C) s'" by (rule pa_wf_cong [OF conf_okD(1) [OF C]]) (simp_all add: rest)
  moreover have "counters_ok lo (nxt C) (completed C) (ends C)"
    using conf_okD(4) [OF C] lo by (auto simp: counters_ok_def)
  ultimately show ?thesis
    using C lim by (simp add: conf_ok_def counters_are_def rest)
qed

lemma conf_step_ok: "conf_step C C' \<Longrightarrow> conf_ok C \<Longrightarrow> conf_ok C'"
  by (induction rule: conf_step.induct)
    (blast intro: assign_step_ok finish_ok(1) finish_sub_ok(1) prepare_ok(1) join_ok leave_ok(1) leave_prepared_ok(1) flags_ok(1)
      limits_step_ok)+

lemma conf_reach_ok: "conf_reach C \<Longrightarrow> conf_ok C"
  by (induction rule: conf_reach.induct) (auto simp: conf_start_def intro: conf_step_ok)

end
