(* ===== verification/ProcProgress.thy ===== *)
theory ProcProgress
  imports ProcArrayReach
begin

unbundle bit_operations_syntax

section \<open>Progress, and an example configuration\<close>

text \<open>
  Away from the wraparound limits the operations on the process array go through: a process without a transaction gets an id, a transaction
  can end, a process can join as long as there is room. The example runs five of them from an empty array, with the operations themselves.
\<close>

definition begin_xact :: "varsup_env \<Rightarrow> nat \<Rightarrow> conf \<Rightarrow> conf" where
  "begin_xact env p C = C \<lparr> nxt := next_full (nxt C), xacts := (xacts C)(p \<mapsto> \<lparr> xt_top = nxt C, xt_subs = {} \<rparr>),
     mem := snd (GetNewTransactionId env p False (mem C)) \<rparr>"

definition end_xact :: "nat \<Rightarrow> conf \<Rightarrow> conf" where
  "end_xact p C = (let m = Max (tree (the (xacts C p))) in
     C \<lparr> completed := max (completed C) m, ends := ends C + 1, xacts := (xacts C)(p := None),
         mem := snd (ProcArrayEndTransactionInternal p (xid_of m) (mem C)) \<rparr>)"

definition join_array :: "nat \<Rightarrow> conf \<Rightarrow> conf" where
  "join_array q C = C \<lparr> procs := insort q (procs C), xacts := (xacts C)(q := None), mem := snd (ProcArrayAdd q (mem C)) \<rparr>"

definition assigns :: "varsup_env \<Rightarrow> bool" where
  "assigns env \<longleftrightarrow> assign_env env \<and> \<not> v_parallel_mode env \<and> \<not> v_recovery_in_progress env \<and> (\<forall>x. extend_logs env x = Inr ())
     \<and> (\<forall>d. \<exists>nm. v_get_database_name env d = Inr nm)"

lemma limit_check_passes:
  assumes C: "conf_ok C" and env: "assigns env" and room: "nxt C < stop_full (oldest C)"
  obtains k where "xid_limit_check env (mem C) = (Inr (), (mem C) \<lparr> autovac_signals := k \<rparr>)"
proof -
  let ?s = "mem C" and ?n = "nxt C" and ?k = "\<lambda>j. (mem C) \<lparr> autovac_signals := j \<rparr>"
  note K = conf_okD(2-4) [OF C, unfolded counters_are_def limits_ok_def counters_ok_def] and w = counters_window [OF conf_okD(4) [OF C]]
  have nx: "fxid_xid (nextFullXid ?s) = xid_of ?n" using K by (simp add: nextFullXid_def fxid_of_def [symmetric])
  have "near ?n (stop_full (oldest C))" using w stop_full_bounds [of "oldest C"] by (intro window_near [of "oldest C"]) simp_all
  then have st: "\<not> TransactionIdFollowsOrEquals (xid_of ?n) (xidStopLimit ?s)"
    using xid_of_order(4) [of ?n "stop_full (oldest C)"] K room stop_full_bounds [of "oldest C"] by simp
  have e: "assign_env env" "\<And>d. \<exists>nm. v_get_database_name env d = Inr nm" using env by (simp_all add: assigns_def)
  obtain nm where "v_get_database_name env (oldestXidDB ?s) = Inr nm" using e(2) by blast
  then have "fst (xid_limit_check env ?s) = Inr ()" using st by (simp add: xid_limit_check_def nx Let_def)
  moreover have "?s = ?s \<lparr> autovac_signals := autovac_signals ?s \<rparr>" by simp
  ultimately show ?thesis
    using that xid_limit_check_cases [of env ?s] e(1) unfolding assign_env_def by (metis prod.collapse sum.distinct(1))
qed

lemma begin_runs:
  assumes C: "conf_ok C" and p: "p \<in> set (procs C)" "xacts C p = None" and env: "assigns env" and room: "nxt C < stop_full (oldest C)"
  obtains k where "GetNewTransactionId env p False (mem C) =
    (Inr (fxid_of (nxt C)), (put_proc p ((allProcs (mem C) p) \<lparr> proc_xid := xid_of (nxt C) \<rparr>) (mem C))
       \<lparr> autovac_signals := k, nextXid := word_of_nat (next_full (nxt C)) \<rparr>)"
proof -
  from limit_check_passes [OF C env room] obtain k where k: "xid_limit_check env (mem C) = (Inr (), (mem C) \<lparr> autovac_signals := k \<rparr>)" .
  have nx: "nextFullXid ((mem C) \<lparr> autovac_signals := k \<rparr>) = fxid_of (nxt C)"
    using conf_okD(2) [OF C] by (simp add: nextFullXid_def fxid_of_def counters_are_def)
  let ?s = "(mem C) \<lparr> autovac_signals := k, nextXid := word_of_nat (next_full (nxt C)) \<rparr>"
  have wf: "pa_wf (procs C) ?s" by (rule pa_wf_cong [OF conf_okD(1) [OF C]]) simp_all
  have idle: "subxidStatus (allProcs ?s p) = no_subxids" using conf_okD(6) [OF C p(1)] p(2) by (simp add: slot_ok_def idle_def)
  note pub = publish_top_put [OF wf p(1) idle, of "xid_of (nxt C)"]
  have mode: "\<not> v_parallel_mode env" "\<not> v_bootstrap_mode env" "\<not> v_recovery_in_progress env" "\<And>x. extend_logs env x = Inr ()"
    using env by (simp_all add: assigns_def assign_env_def)
  show ?thesis
    by (rule that [of k]) (simp add: GetNewTransactionId_def mode k nx Let_def fxid_of_Advance fxid_value_of pub put_proc_def)
qed

lemma begin_reach:
  assumes "conf_reach C" "p \<in> set (procs C)" "xacts C p = None" "assigns env" "nxt C < stop_full (oldest C)" "nxt C + 8 < 2 ^ 64 - 2 ^ 33"
  shows "conf_reach (begin_xact env p C)"
proof -
  have C: "conf_ok C" by (rule conf_reach_ok [OF assms(1)])
  from begin_runs [OF C assms(2-5)] obtain f s' where run: "GetNewTransactionId env p False (mem C) = (Inr f, s')" .
  have "assign_env env" using assms(4) by (simp add: assigns_def)
  from conf_reach.step [OF assms(1) conf_step.assign [OF assign_step.assign_top [OF assms(2,3) this assms(6) run]]] show ?thesis
    by (simp add: begin_xact_def run)
qed

lemma end_reach:
  assumes "conf_reach C" "xacts C p = Some x" "ends C + 1 < 2 ^ 64"
  shows "conf_reach (end_xact p C)"
  unfolding end_xact_def Let_def using conf_step.finish [OF assms(2,3)] conf_reach.step [OF assms(1)] assms(2) 
  by (metis option.sel prod.collapse)

lemma join_reach:
  assumes "conf_reach C" "q \<notin> set (procs C)" "q < length (hdr_xids (mem C))" "idle (allProcs (mem C) q)" "length (procs C) < maxProcs (mem C)"
  shows "conf_reach (join_array q C)"
proof -
  from ProcArrayAdd_ok [OF conf_okD(1) [OF conf_reach_ok [OF assms(1)]] assms(2,3,5)] obtain s' where "ProcArrayAdd q (mem C) = (Inr (), s')" .
  then show ?thesis
    unfolding join_array_def using conf_reach.step [OF assms(1) conf_step.join [OF assms(2,3)]] assms(4) by simp
qed


subsection \<open>The example\<close>

definition ex_start :: conf where
  "ex_start = \<lparr> procs = [], oldest = 100, nxt = 101, completed = 100, ends = 1, xacts = \<lambda>_. None,
     mem = (snd (SetTransactionIdLimit quiet_env (xid_of 100) 1 (initial_shmem 40))) \<lparr> nextXid := 101, latestCompletedXid := 100 \<rparr> \<rparr>"

text \<open>Process 1 runs transaction 101; transaction 102 of process 0 has ended.\<close>

definition ex_conf :: conf where
  "ex_conf = end_xact 0 (begin_xact quiet_env 0 (begin_xact quiet_env 1 (join_array 1 (join_array 0 ex_start))))"

definition plain :: "shmem \<Rightarrow> bool" where
  "plain s \<longleftrightarrow> (\<forall>p. proc_xmin (allProcs s p) = InvalidTransactionId \<and> databaseId (allProcs s p) = 0
     \<and> proc_statusFlags (allProcs s p) AND (PROC_IN_LOGICAL_DECODING OR PROC_VACUUM_STATE_MASK) = 0
     \<and> subxidStatus (allProcs s p) = no_subxids)"

lemma quiet_env_assigns: "assigns quiet_env"
  by (simp add: assigns_def assign_env_def) (simp add: quiet_env_def)

lemma ex_start_fields:
  "procs ex_start = []" "oldest ex_start = 100" "nxt ex_start = 101" "completed ex_start = 100" "ends ex_start = 1" "xacts ex_start = (\<lambda>_. None)"
  by (simp_all add: ex_start_def)

lemma ex_start_reach:
  "conf_reach ex_start" "plain (mem ex_start)" "maxProcs (mem ex_start) = 2" "length (hdr_xids (mem ex_start)) = 40" "idle (allProcs (mem ex_start) p)"
proof -
  have n: "normal_full 100" "normal_full 101" by (simp_all add: normal_full_def)
  from SetTransactionIdLimit_touches [OF n(1), of quiet_env 1 "initial_shmem 40"] obtain v w st wr k where
    eq: "snd (SetTransactionIdLimit quiet_env (xid_of 100) 1 (initial_shmem 40)) = (initial_shmem 40) \<lparr> oldestXid := xid_of 100, xidVacLimit := v,
      xidWarnLimit := w, xidStopLimit := st, xidWrapLimit := wr, oldestXidDB := 1, autovac_signals := k \<rparr>" .
  have m: "mem ex_start = (initial_shmem 40) \<lparr> oldestXid := xid_of 100, xidVacLimit := v, xidWarnLimit := w, xidStopLimit := st, xidWrapLimit := wr,
      oldestXidDB := 1, autovac_signals := k, nextXid := 101, latestCompletedXid := 100 \<rparr>" by (simp add: ex_start_def eq)
  show "plain (mem ex_start)" "idle (allProcs (mem ex_start) p)"
    by (simp_all add: plain_def m PGPROC_new_zeroed_def idle_def InvalidTransactionId_def)
  show sz: "maxProcs (mem ex_start) = 2" "length (hdr_xids (mem ex_start)) = 40" by (simp_all add: m NUM_AUXILIARY_PROCS_def)
  have "pa_wf [] (mem ex_start)"
    by (simp add: pa_wf_def pa_sizes_def m proc_ok_def PGPROC_new_zeroed_def no_subxids_def NUM_AUXILIARY_PROCS_def)
  moreover have "limits_ok 100 (mem ex_start)"
  proof -
    let ?v = "skip_up (100 + unat (v_autovacuum_freeze_max_age quiet_env))"
    have "normal_full ?v" "100 \<le> ?v" "?v \<le> 100 + 2000000003"
      using skip_up_normal skip_bounds(1,2) [of "100 + unat (v_autovacuum_freeze_max_age quiet_env)"] by auto
    then show ?thesis
      using SetTransactionIdLimit_limits(2,3) [OF n(1), of quiet_env 1 "initial_shmem 40"] by (auto simp: limits_ok_def eq m)
  qed
  moreover have "next_full 100 = 101" by (simp add: next_full_def)
  moreover have "nextXid (mem ex_start) = 101" "latestCompletedXid (mem ex_start) = 100" "xactCompletionCount (mem ex_start) = 1"
    by (simp_all add: m)
  ultimately have "conf_ok ex_start"
    using n by (auto simp: conf_ok_def counters_are_def counters_ok_def ex_start_fields)
  then show "conf_reach ex_start" by (intro conf_reach.start) (simp add: conf_start_def ex_start_def)
qed

text \<open>What the examples know of shared memory.\<close>

definition ex_ok :: "conf \<Rightarrow> bool" where
  "ex_ok C \<longleftrightarrow> conf_reach C \<and> plain (mem C) \<and> maxProcs (mem C) = 2 \<and> length (hdr_xids (mem C)) = 40
     \<and> (\<forall>p. p \<notin> set (procs C) \<longrightarrow> idle (allProcs (mem C) p))"

lemma plain_cong:
  assumes "plain s" and "\<And>p. proc_xmin (allProcs t p) = proc_xmin (allProcs s p) \<and> databaseId (allProcs t p) = databaseId (allProcs s p)
    \<and> proc_statusFlags (allProcs t p) = proc_statusFlags (allProcs s p) \<and> subxidStatus (allProcs t p) = subxidStatus (allProcs s p)"
  shows "plain t"
  using assms by (simp add: plain_def)

lemma ex_join:
  assumes C: "ex_ok C" and q: "q \<notin> set (procs C)" "q < 40" and "length (procs C) < 2"
  shows "ex_ok (join_array q C)"
proof -
  note c = C [unfolded ex_ok_def]
  from ProcArrayAdd_ok [OF conf_okD(1) [OF conf_reach_ok], of C q] assms c obtain s' where
    s': "ProcArrayAdd q (mem C) = (Inr (), s')" "same_procs (mem C) s'" by auto
  have same: "\<exists>k. allProcs s' p = (allProcs (mem C) p) \<lparr> pgxactoff := k \<rparr>" for p using s'(2) by (simp add: same_procs_def)
  have "proc_xmin (allProcs s' p) = proc_xmin (allProcs (mem C) p) \<and> databaseId (allProcs s' p) = databaseId (allProcs (mem C) p)
    \<and> proc_statusFlags (allProcs s' p) = proc_statusFlags (allProcs (mem C) p) \<and> subxidStatus (allProcs s' p) = subxidStatus (allProcs (mem C) p)" "idle (allProcs s' p) \<longleftrightarrow> idle (allProcs (mem C) p)" for p
    using same [of p] by (auto simp: idle_def)
  moreover have "conf_reach (join_array q C)" using assms c by (intro join_reach) auto
  ultimately show ?thesis
    using c s' plain_cong [of "mem C" s'] by (auto simp: ex_ok_def join_array_def set_insort_key same_procs_def)
qed

lemma ex_begin:
  assumes C: "ex_ok C" and p: "p \<in> set (procs C)" "xacts C p = None" and n: "nxt C < stop_full (oldest C)" "nxt C + 8 < 2 ^ 64 - 2 ^ 33"
  shows "ex_ok (begin_xact quiet_env p C)"
proof -
  note c = C [unfolded ex_ok_def]
  have ok: "conf_ok C" using c conf_reach_ok by blast
  from begin_runs [OF ok p quiet_env_assigns n(1)] obtain k where
    run: "GetNewTransactionId quiet_env p False (mem C) =
    (Inr (fxid_of (nxt C)), (put_proc p ((allProcs (mem C) p) \<lparr> proc_xid := xid_of (nxt C) \<rparr>) (mem C))
       \<lparr> autovac_signals := k, nextXid := word_of_nat (next_full (nxt C)) \<rparr>)" .
  then have k: "mem (begin_xact quiet_env p C) = (put_proc p ((allProcs (mem C) p) \<lparr> proc_xid := xid_of (nxt C) \<rparr>) (mem C))
       \<lparr> autovac_signals := k, nextXid := word_of_nat (next_full (nxt C)) \<rparr>" by (simp add: begin_xact_def)
  have "plain (mem (begin_xact quiet_env p C))" using c by (simp add: plain_def k put_proc_def)
  moreover have "conf_reach (begin_xact quiet_env p C)" using c p n quiet_env_assigns by (intro begin_reach) auto
  ultimately show ?thesis
    using c p by (auto simp: ex_ok_def k put_proc_def) (auto simp: begin_xact_def)
qed

lemma ex_end:
  assumes C: "ex_ok C" and x: "xacts C p = Some x" and n: "ends C + 1 < 2 ^ 64"
  shows "ex_ok (end_xact p C)"
proof -
  note c = C [unfolded ex_ok_def]
  have ok: "conf_ok C" using c conf_reach_ok by blast
  from finish_put [OF ok x n] obtain flags where
    fl: "flags AND PROC_VACUUM_STATE_MASK = 0"
      "flags AND PROC_IN_LOGICAL_DECODING = proc_statusFlags (allProcs (mem C) p) AND PROC_IN_LOGICAL_DECODING"
    and run: "ProcArrayEndTransactionInternal p (xid_of (Max (tree x))) (mem C) = (Inr (), (put_proc p (ended flags (allProcs (mem C) p)) (mem C))
       \<lparr> latestCompletedXid := word_of_nat (max (completed C) (Max (tree x))), xactCompletionCount := xactCompletionCount (mem C) + 1 \<rparr>)" .
  then have k: "mem (end_xact p C) = (put_proc p (ended flags (allProcs (mem C) p)) (mem C))
       \<lparr> latestCompletedXid := word_of_nat (max (completed C) (Max (tree x))), xactCompletionCount := xactCompletionCount (mem C) + 1 \<rparr>"
    by (simp add: end_xact_def x Let_def)
  have "plain (mem (end_xact p C))"
    using c fl by (auto simp: plain_def k put_proc_def ended_def bit.conj_disj_distrib or_eq_0_iff)
  moreover have "conf_reach (end_xact p C)" using c x n by (intro end_reach) auto
  moreover have "p \<in> set (procs C)" using conf_xact(1) [OF ok x] .
  ultimately show ?thesis
    using c by (auto simp: ex_ok_def k put_proc_def) (auto simp: end_xact_def Let_def)
qed

lemma ex_conf_fields:
  "procs ex_conf = [0, 1]" "oldest ex_conf = 100" "nxt ex_conf = 103" "completed ex_conf = 102" "ends ex_conf = 2"
  "xacts ex_conf = (\<lambda>_. None)(1 \<mapsto> \<lparr> xt_top = 101, xt_subs = {} \<rparr>)"
  by (simp_all add: ex_conf_def end_xact_def begin_xact_def join_array_def ex_start_fields next_full_def tree_def Let_def fun_upd_twist)

lemma ex_conf_ok: "ex_ok ex_conf"
proof -
  have s: "stop_full 100 = 2144483747" by (simp add: stop_full_def skip_down_def skip_up_def)
  show ?thesis
    unfolding ex_conf_def
    by (intro ex_end ex_begin ex_join)
       (simp_all add: ex_start_fields join_array_def begin_xact_def next_full_def s ex_ok_def ex_start_reach)
qed


lemma ex_conf_reach: "conf_reach ex_conf"
  using ex_conf_ok by (simp add: ex_ok_def)

subsection \<open>Properties\<close>

text \<open>
  C8: every configuration that the operations on the process array reach from an empty array is well formed. The slots hold the processes of the
  array in ascending order and the rest are free; the three arrays of \<^verbatim>\<open>ProcGlobal\<close> mirror what the processes have; the id counter, the latest completed
  id and the completion count are the ones of the history; a process without a transaction shows no id, a process with one shows its id and its
  subtransactions, all of them unless its cache has overflowed; and all ids between the latest completed one and the next are running.
\<close>

theorem process_array_invariant:
  assumes "conf_reach C"
  shows "conf_ok C"
  using assms by (rule conf_reach_ok)

theorem process_array_invariant_witness: "conf_reach ex_conf \<and> conf_ok ex_conf"
  using process_array_invariant [OF ex_conf_reach] ex_conf_reach by simp

lemma end_runs:
  assumes C: "conf_reach C" and x: "xacts C p = Some x" and k: "ends C + 1 < 2 ^ 64"
  shows "fst (ProcArrayEndTransactionInternal p (xid_of (Max (tree x))) (mem C)) = Inr ()"
  using finish_put [OF conf_reach_ok [OF C] x k] by (metis fst_conv)

text \<open>
  C16: the array makes progress. In every reachable configuration a process without a transaction gets the next id as long as the stop limit is not
  reached and the environment lets it, and a running transaction ends; both lead to a reachable configuration again, so that any number of processes can do
  so one after the other.
\<close>

theorem process_array_progress:
  assumes "conf_reach C"
  shows "(\<forall>p \<in> set (procs C). xacts C p = None \<and> assigns env \<and> nxt C < stop_full (oldest C) \<and> nxt C + 8 < 2 ^ 64 - 2 ^ 33 \<longrightarrow>
      fst (GetNewTransactionId env p False (mem C)) = Inr (fxid_of (nxt C)) \<and> conf_reach (begin_xact env p C))
    \<and> (\<forall>p x. xacts C p = Some x \<and> ends C + 1 < 2 ^ 64 \<longrightarrow>
      fst (ProcArrayEndTransactionInternal p (xid_of (Max (tree x))) (mem C)) = Inr () \<and> conf_reach (end_xact p C))"
proof (intro conjI ballI allI impI; (elim conjE)?)
  fix p assume p: "p \<in> set (procs C)" "xacts C p = None" "assigns env" "nxt C < stop_full (oldest C)" "nxt C + 8 < 2 ^ 64 - 2 ^ 33"
  from begin_runs [OF conf_reach_ok [OF assms] p(1-4)] show "fst (GetNewTransactionId env p False (mem C)) = Inr (fxid_of (nxt C))"
    by (metis fst_conv)
  show "conf_reach (begin_xact env p C)" by (rule begin_reach [OF assms p])
qed (rule end_runs [OF assms] end_reach [OF assms]; assumption)+

theorem process_array_progress_witness:
  "fst (GetNewTransactionId quiet_env 0 False (mem ex_conf)) = Inr (fxid_of 103) \<and> conf_reach (begin_xact quiet_env 0 ex_conf)
   \<and> fst (ProcArrayEndTransactionInternal 1 (xid_of 101) (mem ex_conf)) = Inr () \<and> conf_reach (end_xact 1 ex_conf)"
proof -
  have s: "stop_full 100 = 2144483747" by (simp add: stop_full_def skip_down_def skip_up_def)
  show ?thesis
    using conjunct1 [OF process_array_progress [OF ex_conf_reach, of quiet_env], rule_format, of 0]
      conjunct2 [OF process_array_progress [OF ex_conf_reach, of quiet_env], rule_format, of 1 "\<lparr> xt_top = 101, xt_subs = {} \<rparr>"]
      quiet_env_assigns s by (simp add: ex_conf_fields tree_def)
qed

end
