(* ===== verification/ProcSnapshotSpec.thy ===== *)
theory ProcSnapshotSpec
  imports ProcSnapshot ProcProgress
begin

unbundle bit_operations_syntax

section \<open>Snapshots show what was running\<close>

text \<open>
  A snapshot is taken in a configuration \<open>C\<close> while ids may be assigned: slot \<open>i\<close> of the array is read in a configuration \<open>V i\<close> that \<open>C\<close> has
  grown to. Ids assigned meanwhile are not older than \<^verbatim>\<open>xmax\<close>, so that the snapshot is that of \<open>C\<close>: it holds an id as running exactly
  if it is running or not yet assigned in \<open>C\<close>.
\<close>

definition grown :: "conf \<Rightarrow> conf \<Rightarrow> bool" where
  "grown C D \<longleftrightarrow> conf_ok D \<and> procs D = procs C \<and> oldest D = oldest C \<and> completed D = completed C \<and> ends D = ends C \<and> nxt C \<le> nxt D
     \<and> oldestXid (mem D) = oldestXid (mem C) \<and> maxProcs (mem D) = maxProcs (mem C)
     \<and> (\<forall>p \<in> set (procs C). proc_statusFlags (allProcs (mem D) p) = proc_statusFlags (allProcs (mem C) p))
     \<and> (\<forall>p x. xacts C p = Some x \<longrightarrow> (\<exists>y. xacts D p = Some y \<and> xt_top y = xt_top x \<and> xt_subs x \<subseteq> xt_subs y
           \<and> (\<forall>f \<in> xt_subs y - xt_subs x. nxt C \<le> f)))
     \<and> (\<forall>p y. xacts C p = None \<longrightarrow> xacts D p = Some y \<longrightarrow> (\<forall>f \<in> tree y. nxt C \<le> f))"

lemma grownD:
  assumes "grown C D"
  shows "conf_ok D" "procs D = procs C" "oldest D = oldest C" "completed D = completed C" "ends D = ends C" "nxt C \<le> nxt D"
    "oldestXid (mem D) = oldestXid (mem C)" "maxProcs (mem D) = maxProcs (mem C)"
    "p \<in> set (procs C) \<Longrightarrow> proc_statusFlags (allProcs (mem D) p) = proc_statusFlags (allProcs (mem C) p)"
    "xacts C p = Some x \<Longrightarrow> \<exists>y. xacts D p = Some y \<and> xt_top y = xt_top x \<and> xt_subs x \<subseteq> xt_subs y
       \<and> (\<forall>f \<in> xt_subs y - xt_subs x. nxt C \<le> f)"
    "xacts C p = None \<Longrightarrow> xacts D p = Some y \<Longrightarrow> f \<in> tree y \<Longrightarrow> nxt C \<le> f"
  using assms unfolding grown_def by blast+

lemma grown_refl: "conf_ok C \<Longrightarrow> grown C C"
  by (auto simp: grown_def)

lemma grown_trans:
  assumes CD: "grown C D" and DE: "grown D E"
  shows "grown C E"
proof -
  note d = grownD [OF CD] and e = grownD [OF DE]
  have a: "\<exists>z. xacts E p = Some z \<and> xt_top z = xt_top x \<and> xt_subs x \<subseteq> xt_subs z \<and> (\<forall>f \<in> xt_subs z - xt_subs x. nxt C \<le> f)"
    if x: "xacts C p = Some x" for p x
  proof -
    from d(10) [OF x] obtain y where y: "xacts D p = Some y" "xt_top y = xt_top x" "xt_subs x \<subseteq> xt_subs y"
      "\<forall>f \<in> xt_subs y - xt_subs x. nxt C \<le> f" by blast
    from e(10) [OF y(1)] obtain z where z: "xacts E p = Some z" "xt_top z = xt_top y" "xt_subs y \<subseteq> xt_subs z"
      "\<forall>f \<in> xt_subs z - xt_subs y. nxt D \<le> f" by blast
    have "nxt C \<le> f" if "f \<in> xt_subs z - xt_subs x" for f
      using that y(4) z(4) order_trans [OF d(6), of f] by (cases "f \<in> xt_subs y") auto
    moreover have "xt_subs x \<subseteq> xt_subs z" using y(3) z(3) by blast
    ultimately show ?thesis using y(2) z(1,2) by simp
  qed
  have b: "nxt C \<le> f" if n: "xacts C p = None" and z: "xacts E p = Some z" and f: "f \<in> tree z" for p z f
  proof (cases "xacts D p")
    case None
    then show ?thesis using e(11) [OF _ z f] d(6) by simp
  next
    case (Some y)
    from e(10) [OF this] z have "xt_top z = xt_top y" "\<forall>f \<in> xt_subs z - xt_subs y. nxt D \<le> f" by auto
    then have "f \<in> tree y \<or> nxt D \<le> f" using f by (auto simp: tree_def)
    then show ?thesis using d(11) [OF n Some] d(6) by auto
  qed
  have c: "proc_statusFlags (allProcs (mem E) p) = proc_statusFlags (allProcs (mem C) p)" if "p \<in> set (procs C)" for p
    using d(9) [OF that] e(9) [of p] d(2) that by simp
  show ?thesis
    unfolding grown_def
  proof (intro conjI)
    show "nxt C \<le> nxt E" using d(6) e(6) by (rule order_trans)
    show "\<forall>p \<in> set (procs C). proc_statusFlags (allProcs (mem E) p) = proc_statusFlags (allProcs (mem C) p)"
      by (rule ballI, rule c)
    show "\<forall>p x. xacts C p = Some x \<longrightarrow> (\<exists>y. xacts E p = Some y \<and> xt_top y = xt_top x \<and> xt_subs x \<subseteq> xt_subs y
        \<and> (\<forall>f \<in> xt_subs y - xt_subs x. nxt C \<le> f))"
      by (intro allI impI, rule a)
    show "\<forall>p y. xacts C p = None \<longrightarrow> xacts E p = Some y \<longrightarrow> (\<forall>f \<in> tree y. nxt C \<le> f)"
      by (intro allI impI ballI, rule b)
    show "conf_ok E" by (rule e(1))
    show "procs E = procs C" using d(2) e(2) by simp
    show "oldest E = oldest C" using d(3) e(3) by simp
    show "completed E = completed C" using d(4) e(4) by simp
    show "ends E = ends C" using d(5) e(5) by simp
    show "oldestXid (mem E) = oldestXid (mem C)" using d(7) e(7) by simp
    show "maxProcs (mem E) = maxProcs (mem C)" using d(8) e(8) by simp
  qed
qed

lemma assign_step_grown:
  assumes "assign_step C D" "conf_ok C"
  shows "grown C D"
proof -
  have ok: "conf_ok D" by (rule assign_step_ok [OF assms])
  show ?thesis
    using assms(1)
  proof cases
    case (assign_top p env f s')
    from assign_cases [OF assms(2) assign_top(4,6)] obtain k where
      "publish_xid p False (xid_of (nxt C)) ((mem C) \<lparr> autovac_signals := k, nextXid := word_of_nat (next_full (nxt C)) \<rparr>) = (Inr (), s')" .
    then have s': "oldestXid s' = oldestXid (mem C)" "maxProcs s' = maxProcs (mem C)"
      "proc_statusFlags (allProcs s' q) = proc_statusFlags (allProcs (mem C) q)" for q
      by (auto simp: publish_xid_def Let_def split: if_splits)
    then show ?thesis
      using ok assign_top(1,3) next_full_props(1) [of "nxt C"] by (auto simp: grown_def tree_def)
  next
    case (assign_sub p x env f s')
    from assign_cases [OF assms(2) assign_sub(3,5)] obtain k where
      "publish_xid p True (xid_of (nxt C)) ((mem C) \<lparr> autovac_signals := k, nextXid := word_of_nat (next_full (nxt C)) \<rparr>) = (Inr (), s')" .
    then have s': "oldestXid s' = oldestXid (mem C)" "maxProcs s' = maxProcs (mem C)"
      "proc_statusFlags (allProcs s' q) = proc_statusFlags (allProcs (mem C) q)" for q
      by (auto simp: publish_xid_def Let_def split: if_splits)
    then show ?thesis
      using ok assign_sub(1,2) next_full_props(1) [of "nxt C"] by (auto simp: grown_def tree_def)
  next
    case (quiet_step s')
    then show ?thesis
      using ok by (auto simp: grown_def quiet_def same_core_def)
  qed
qed

lemma assign_steps_grown: "assign_step\<^sup>*\<^sup>* C D \<Longrightarrow> conf_ok C \<Longrightarrow> grown C D"
proof (induction rule: rtranclp_induct)
  case (step D E)
  then have "grown C D" by blast
  moreover from this have "conf_ok D" by (simp add: grown_def)
  ultimately show ?case using assign_step_grown [OF step.hyps(2)] grown_trans by blast
qed (rule grown_refl)

subsection \<open>One slot of the array\<close>

abbreviation hidden :: u8 where
  "hidden \<equiv> PROC_IN_LOGICAL_DECODING OR PROC_IN_VACUUM"

text \<open>The transactions that a snapshot of process \<open>me\<close> lists.\<close>

definition listed :: "conf \<Rightarrow> nat \<Rightarrow> nat \<Rightarrow> xact \<Rightarrow> bool" where
  "listed C me p x \<longleftrightarrow> xacts C p = Some x \<and> p \<noteq> me \<and> xt_top x \<le> completed C
     \<and> proc_statusFlags (allProcs (mem C) p) AND hidden = 0"

definition is_listed :: "conf \<Rightarrow> nat \<Rightarrow> nat \<Rightarrow> bool" where
  "is_listed C me i \<longleftrightarrow> (\<exists>x. listed C me (procs C ! i) x)"

definition slot_top :: "conf \<Rightarrow> nat \<Rightarrow> nat" where
  "slot_top C i = xt_top (the (xacts C (procs C ! i)))"

definition slot_subs :: "conf \<Rightarrow> nat \<Rightarrow> nat set" where
  "slot_subs C i = xt_subs (the (xacts C (procs C ! i)))"

text \<open>Ids that may have been assigned during the scan.\<close>

definition later :: "conf \<Rightarrow> nat set" where
  "later C = {f. nxt C \<le> f \<and> f \<le> oldest C + 2145000000}"

lemma grown_slot:
  assumes C: "conf_ok C" and g: "grown C D" and i: "i < length (procs C)"
  shows "hdr_bounds (mem D) i" "slot_proc (mem D) i = Inr (allProcs (mem D) (procs C ! i))"
    "mirrored (mem D) i (allProcs (mem D) (procs C ! i))" "proc_ok (allProcs (mem D) (procs C ! i))"
    "hdr_statusFlags (mem D) ! i = proc_statusFlags (allProcs (mem C) (procs C ! i))"
    "xacts D (procs C ! i) = None \<Longrightarrow> hdr_xids (mem D) ! i = InvalidTransactionId \<and> xacts C (procs C ! i) = None"
    "xacts D (procs C ! i) = Some y \<Longrightarrow> hdr_xids (mem D) ! i = xid_of (xt_top y) \<and> normal_full (xt_top y)
       \<and> oldest C \<le> xt_top y \<and> xt_top y \<le> oldest C + 2145000000"
proof -
  let ?p = "procs C ! i"
  note d = grownD [OF g]
  have iD: "i < length (procs D)" "?p \<in> set (procs D)" "?p \<in> set (procs C)" using d(2) i by simp_all
  note b = pa_wf_bounds [OF conf_okD(1) [OF d(1)] iD(1), unfolded d(2)]
  show "hdr_bounds (mem D) i" "slot_proc (mem D) i = Inr (allProcs (mem D) ?p)" "mirrored (mem D) i (allProcs (mem D) ?p)"
    by (rule b)+
  show "proc_ok (allProcs (mem D) ?p)" using conf_okD(1) [OF d(1)] by (simp add: pa_wf_def)
  show "hdr_statusFlags (mem D) ! i = proc_statusFlags (allProcs (mem C) ?p)"
    using b(6) d(9) [OF iD(3)] by (simp add: mirrored_def)
  show "hdr_xids (mem D) ! i = InvalidTransactionId \<and> xacts C ?p = None" if n: "xacts D ?p = None"
  proof -
    have "slot_ok (oldest D) (nxt D) (allProcs (mem D) ?p) None" using conf_okD(6) [OF d(1) iD(2)] n by simp
    moreover have "xacts C ?p = None" using d(10) [of ?p] n by (cases "xacts C ?p") auto
    ultimately show ?thesis using b(6) by (simp add: slot_ok_def idle_def mirrored_def)
  qed
  show "hdr_xids (mem D) ! i = xid_of (xt_top y) \<and> normal_full (xt_top y)
       \<and> oldest C \<le> xt_top y \<and> xt_top y \<le> oldest C + 2145000000" if y: "xacts D ?p = Some y"
    using conf_xact(2,3) [OF d(1) y] b(6) d(3) counters_window(4) [OF conf_okD(4) [OF d(1)]]
    by (auto simp: shows_xact_def mirrored_def xact_ok_def tree_def)
qed

text \<open>An id of the array that precedes \<^verbatim>\<open>xmax\<close> was there when the scan began.\<close>

lemma grown_listed:
  assumes C: "conf_ok C" and g: "grown C D" and i: "i < length (procs C)" and ne: "procs C ! i \<noteq> me"
    and y: "xacts D (procs C ! i) = Some y"
  shows "NormalTransactionIdPrecedes (xid_of (xt_top y)) (xid_of (next_full (completed C))) \<longleftrightarrow> xt_top y \<le> completed C"
    "xt_top y \<le> completed C \<Longrightarrow> \<exists>x. xacts C (procs C ! i) = Some x \<and> xt_top y = xt_top x \<and> xt_subs x \<subseteq> xt_subs y
       \<and> xt_subs y \<subseteq> xt_subs x \<union> later C"
proof -
  let ?c = "completed C" and ?p = "procs C ! i"
  note K = conf_okD(4) [OF C] and w = counters_window [OF conf_okD(4) [OF C]] and d = grownD [OF g]
  have t: "normal_full (xt_top y)" "oldest C \<le> xt_top y" "xt_top y \<le> oldest C + 2145000000"
    using grown_slot(7) [OF C g i y] by auto
  have n: "?c < next_full ?c" "next_full ?c \<le> nxt C" "normal_full (next_full ?c)"
    using K next_full_props [of ?c] next_full_least [of ?c "nxt C"] by (auto simp: counters_ok_def)
  have "NormalTransactionIdPrecedes (xid_of (xt_top y)) (xid_of (next_full ?c)) \<longleftrightarrow> xt_top y < next_full ?c"
    by (rule xid_of_order(5) [OF t(1) n(3)], rule window_near [of "oldest C"]) (use t n w in auto)
  then show "NormalTransactionIdPrecedes (xid_of (xt_top y)) (xid_of (next_full ?c)) \<longleftrightarrow> xt_top y \<le> ?c"
    using n(1) below_next [OF t(1), of ?c] by auto
  assume le: "xt_top y \<le> ?c"
  have "xacts C ?p \<noteq> None"
  proof
    assume "xacts C ?p = None"
    from d(11) [OF this y, of "xt_top y"] have "nxt C \<le> xt_top y" by (simp add: tree_def)
    with le K show False by (simp add: counters_ok_def)
  qed
  then obtain x where x: "xacts C ?p = Some x" by blast
  from d(10) [OF x] y have xy: "xt_top y = xt_top x" "xt_subs x \<subseteq> xt_subs y" "\<forall>f \<in> xt_subs y - xt_subs x. nxt C \<le> f" by auto
  have "f \<le> oldest C + 2145000000" if "f \<in> xt_subs y" for f
    using conf_xact(3) [OF d(1) y] that d(3) counters_window(4) [OF conf_okD(4) [OF d(1)]]
    by (fastforce simp: xact_ok_def tree_def)
  with xy have "xt_subs y \<subseteq> xt_subs x \<union> later C" by (auto simp: later_def)
  with x xy show "\<exists>x. xacts C ?p = Some x \<and> xt_top y = xt_top x \<and> xt_subs x \<subseteq> xt_subs y \<and> xt_subs y \<subseteq> xt_subs x \<union> later C"
    by blast
qed

subsection \<open>The scan\<close>

definition scan_rel :: "conf \<Rightarrow> nat \<Rightarrow> nat list \<Rightarrow> snap_scan \<Rightarrow> snap_scan \<Rightarrow> bool" where
  "scan_rel C me is a a' \<longleftrightarrow>
     sc_xip a' = sc_xip a @ map (xid_of \<circ> slot_top C) (filter (is_listed C me) is)
   \<and> (\<forall>m. sc_xmin a = xid_of m \<and> normal_full m \<and> oldest C \<le> m \<and> m \<le> oldest C + 2147000000 \<longrightarrow>
        sc_xmin a' = xid_of (foldl min m (map (slot_top C) (filter (is_listed C me) is))))
   \<and> length (sc_subxip a') \<le> length (sc_subxip a) + PGPROC_MAX_CACHED_SUBXIDS * length is
   \<and> (\<not> sc_overflowed a' \<longrightarrow> \<not> sc_overflowed a
        \<and> set (sc_subxip a) \<union> (\<Union>i \<in> {i \<in> set is. is_listed C me i}. xid_of ` slot_subs C i) \<subseteq> set (sc_subxip a')
        \<and> set (sc_subxip a') \<subseteq> set (sc_subxip a) \<union> (\<Union>i \<in> {i \<in> set is. is_listed C me i}. xid_of ` slot_subs C i) \<union> xid_of ` later C)"

lemma scan_subxids_ok:
  assumes C: "conf_ok C" and g: "grown C D" and i: "i < length (procs C)"
    and x: "xacts C (procs C ! i) = Some x" and y: "xacts D (procs C ! i) = Some y"
    and xy: "xt_subs x \<subseteq> xt_subs y" "xt_subs y \<subseteq> xt_subs x \<union> later C"
  shows "\<exists>a'. scan_subxids (mem D) i a = Inr a' \<and> sc_xip a' = sc_xip a \<and> sc_xmin a' = sc_xmin a
    \<and> length (sc_subxip a') \<le> length (sc_subxip a) + PGPROC_MAX_CACHED_SUBXIDS
    \<and> (\<not> sc_overflowed a' \<longrightarrow> \<not> sc_overflowed a \<and> set (sc_subxip a) \<union> xid_of ` slot_subs C i \<subseteq> set (sc_subxip a')
         \<and> set (sc_subxip a') \<subseteq> set (sc_subxip a) \<union> xid_of ` slot_subs C i \<union> xid_of ` later C)"
proof -
  let ?P = "allProcs (mem D) (procs C ! i)"
  note gs = grown_slot [OF C g i]
  have sh: "shows_xact ?P y" by (rule conf_xact(2) [OF grownD(1) [OF g] y])
  have st: "hdr_subxidStates (mem D) ! i = subxidStatus ?P" using gs(3) by (simp add: mirrored_def)
  have sl: "slice_to (sx_count (subxidStatus ?P)) (proc_subxids ?P) = Inr (cached_xids ?P)"
    using gs(4) by (simp add: slice_to_def proc_ok_def cached_xids_def)
  have len: "length (cached_xids ?P) \<le> PGPROC_MAX_CACHED_SUBXIDS" using gs(4) by (simp add: proc_ok_def cached_xids_def)
  have subs: "slot_subs C i = xt_subs x" by (simp add: slot_subs_def x)
  have set: "set (cached_xids ?P) = xid_of ` xt_subs y" if "\<not> sx_overflowed (subxidStatus ?P)"
    using sh that by (simp add: shows_xact_def)
  have im: "xid_of ` xt_subs x \<subseteq> xid_of ` xt_subs y" "xid_of ` xt_subs y \<subseteq> xid_of ` xt_subs x \<union> xid_of ` later C"
    using xy by auto
  consider "sc_overflowed a" | "\<not> sc_overflowed a" "sx_overflowed (subxidStatus ?P)"
    | "\<not> sc_overflowed a" "\<not> sx_overflowed (subxidStatus ?P)" by blast
  then show ?thesis
  proof cases
    case 3
    show ?thesis
    proof (cases "sx_count (subxidStatus ?P) > 0")
      case True
      have "scan_subxids (mem D) i a = Inr (a \<lparr> sc_subxip := sc_subxip a @ cached_xids ?P \<rparr>)"
        using 3 True gs(2) sl by (simp add: scan_subxids_def Let_def st)
      then show ?thesis using 3 set im len subs by (intro exI [of _ "a \<lparr> sc_subxip := sc_subxip a @ cached_xids ?P \<rparr>"]) auto
    next
      case False
      then have "cached_xids ?P = []" by (simp add: cached_xids_def)
      then have "xt_subs y = {}" using set 3 by simp
      then show ?thesis using 3 False subs xy(1) by (intro exI [of _ a]) (auto simp: scan_subxids_def Let_def st)
    qed
  qed (auto simp: scan_subxids_def Let_def st)
qed

lemma snapshot_scan_ok:
  assumes C: "conf_ok C" and V: "\<forall>i < length (procs C). grown C (V i)" and "set is \<subseteq> {..<length (procs C)}"
    and me: "\<forall>i < length (procs C). i = myoff \<longleftrightarrow> procs C ! i = me"
  shows "\<exists>a'. snapshot_scan (\<lambda>i. mem (V i)) myoff (xid_of (next_full (completed C))) is a = Inr a' \<and> scan_rel C me is a a'"
  using assms(3)
proof (induction "is" arbitrary: a)
  case Nil
  show ?case by (auto simp: scan_rel_def)
next
  case (Cons i "is")
  let ?xmax = "xid_of (next_full (completed C))" and ?p = "procs C ! i"
  have i: "i < length (procs C)" and g: "grown C (V i)" using Cons.prems V by auto
  note gs = grown_slot [OF C g i]
  have IH: "\<exists>a'. snapshot_scan (\<lambda>i. mem (V i)) myoff ?xmax is a = Inr a' \<and> scan_rel C me is a a'" for a
    using Cons by simp
  have skip: "\<exists>a'. snapshot_scan (\<lambda>i. mem (V i)) myoff ?xmax (i # is) a = Inr a' \<and> scan_rel C me (i # is) a a'"
    if eq: "snapshot_scan (\<lambda>i. mem (V i)) myoff ?xmax (i # is) a = snapshot_scan (\<lambda>i. mem (V i)) myoff ?xmax is a"
      and nl: "\<not> is_listed C me i"
  proof -
    have "{j \<in> set (i # is). is_listed C me j} = {j \<in> set is. is_listed C me j}" using nl by auto
    then have "scan_rel C me (i # is) a a'" if "scan_rel C me is a a'" for a'
      using that nl by (simp add: scan_rel_def)
    with IH [of a] show ?thesis unfolding eq by blast
  qed
  show ?case
  proof (cases "?p = me \<or> xacts (V i) ?p = None")
    case True
    then have "hdr_xids (mem (V i)) ! i = InvalidTransactionId \<or> i = myoff" using gs(6) me i by auto
    moreover have "\<not> is_listed C me i" using True gs(6) by (auto simp: is_listed_def listed_def)
    ultimately show ?thesis using gs(1) by (intro skip) auto
  next
    case False
    then obtain y where y: "xacts (V i) ?p = Some y" and ne: "?p \<noteq> me" "i \<noteq> myoff" using me i by auto
    note gl = grown_listed [OF C g i ne(1) y] and g7 = gs(7) [OF y]
    have v: "xid_of (xt_top y) \<noteq> InvalidTransactionId" "TransactionIdIsNormal (xid_of (xt_top y))"
      using g7 xid_of_valid by (auto simp: InvalidTransactionId_def)
    have fl: "is_listed C me i \<longleftrightarrow> xt_top y \<le> completed C \<and> hdr_statusFlags (mem (V i)) ! i AND hidden = 0"
    proof (cases "xt_top y \<le> completed C")
      case True
      then show ?thesis using gl(2) ne(1) gs(5) by (auto simp: is_listed_def listed_def)
    next
      case False
      have "\<not> listed C me ?p x" for x
        using False grownD(10) [OF g, of ?p x] y by (auto simp: listed_def)
      with False show ?thesis by (simp add: is_listed_def)
    qed
    show ?thesis
    proof (cases "is_listed C me i")
      case False
      then show ?thesis using gs(1) ne v g7 gl(1) fl by (intro skip) (auto simp: Let_def)
    next
      case True
      with fl gl(2) obtain x where x: "xacts C ?p = Some x" "xt_top y = xt_top x" "xt_subs x \<subseteq> xt_subs y"
        "xt_subs y \<subseteq> xt_subs x \<union> later C" by blast
      let ?b = "a \<lparr> sc_xmin := (if NormalTransactionIdPrecedes (xid_of (xt_top y)) (sc_xmin a) then xid_of (xt_top y) else sc_xmin a),
        sc_xip := sc_xip a @ [xid_of (xt_top y)] \<rparr>"
      from scan_subxids_ok [OF C g i x(1) y x(3,4), of ?b] obtain b where b: "scan_subxids (mem (V i)) i ?b = Inr b"
        "sc_xip b = sc_xip ?b" "sc_xmin b = sc_xmin ?b" "length (sc_subxip b) \<le> length (sc_subxip a) + PGPROC_MAX_CACHED_SUBXIDS"
        "\<not> sc_overflowed b \<longrightarrow> \<not> sc_overflowed a \<and> set (sc_subxip a) \<union> xid_of ` slot_subs C i \<subseteq> set (sc_subxip b)
         \<and> set (sc_subxip b) \<subseteq> set (sc_subxip a) \<union> xid_of ` slot_subs C i \<union> xid_of ` later C" by auto
      from IH [of b] obtain a' where a': "snapshot_scan (\<lambda>i. mem (V i)) myoff ?xmax is b = Inr a'" "scan_rel C me is b a'" by blast
      have run: "snapshot_scan (\<lambda>i. mem (V i)) myoff ?xmax (i # is) a = Inr a'"
        using gs(1) ne v g7 gl(1) fl True b(1) a'(1) by (simp add: Let_def)
      have top: "slot_top C i = xt_top y" by (simp add: slot_top_def x)
      have xm: "sc_xmin b = xid_of (min m (slot_top C i))" if m: "sc_xmin a = xid_of m" "normal_full m" "oldest C \<le> m" "m \<le> oldest C + 2147000000" for m
      proof -
        have "near (xt_top y) m" by (rule window_near [of "oldest C"]) (use m g7 in auto)
        then have "NormalTransactionIdPrecedes (xid_of (xt_top y)) (xid_of m) \<longleftrightarrow> xt_top y < m"
          using m g7 by (intro xid_of_order(5)) auto
        with m(1) b(3) top show ?thesis by (auto simp: min_def)
      qed
      have "scan_rel C me (i # is) a a'"
        unfolding scan_rel_def
      proof (intro conjI allI impI)
        show "sc_xip a' = sc_xip a @ map (xid_of \<circ> slot_top C) (filter (is_listed C me) (i # is))"
          using a'(2) b(2) True top by (simp add: scan_rel_def)
        show "length (sc_subxip a') \<le> length (sc_subxip a) + PGPROC_MAX_CACHED_SUBXIDS * length (i # is)"
          using a'(2) b(4) by (simp add: scan_rel_def)
        fix m assume m: "sc_xmin a = xid_of m \<and> normal_full m \<and> oldest C \<le> m \<and> m \<le> oldest C + 2147000000"
        then have "normal_full (min m (slot_top C i))" "oldest C \<le> min m (slot_top C i)" "min m (slot_top C i) \<le> oldest C + 2147000000"
          using g7 top by (auto simp: min_def)
        then show "sc_xmin a' = xid_of (foldl min m (map (slot_top C) (filter (is_listed C me) (i # is))))"
          using a'(2) xm m True by (simp add: scan_rel_def)
      next
        assume "\<not> sc_overflowed a'"
        moreover have "{j \<in> set (i # is). is_listed C me j} = insert i {j \<in> set is. is_listed C me j}" using True by auto
        ultimately show "\<not> sc_overflowed a"
          "set (sc_subxip a) \<union> (\<Union>i \<in> {j \<in> set (i # is). is_listed C me j}. xid_of ` slot_subs C i) \<subseteq> set (sc_subxip a')"
          "set (sc_subxip a') \<subseteq> set (sc_subxip a) \<union> (\<Union>i \<in> {j \<in> set (i # is). is_listed C me j}. xid_of ` slot_subs C i) \<union> xid_of ` later C"
          using a'(2) b(5) unfolding scan_rel_def by (simp_all only: UN_insert) blast+
      qed
      with run show ?thesis by blast
    qed
  qed
qed

lemma foldl_min: "foldl min (m :: nat) xs \<in> insert m (set xs)" "foldl min m xs \<le> m" "x \<in> set xs \<Longrightarrow> foldl min m xs \<le> x"
proof (induction xs arbitrary: m)
  case (Cons y ys)
  { case 1 show ?case using Cons(1) [of "min m y"] by (auto simp: min_def split: if_splits)
  next case 2 show ?case using Cons(2) [of "min m y"] by simp
  next case 3 then show ?case using Cons(2) [of "min m y"] Cons(3) [of "min m y"] by auto }
qed auto

subsection \<open>What a snapshot says\<close>

text \<open>\<open>m\<close> is the \<^verbatim>\<open>xmin\<close> of a snapshot as a number.\<close>

definition counted :: "conf \<Rightarrow> nat \<Rightarrow> nat \<Rightarrow> bool" where
  "counted C me p \<longleftrightarrow> p = me \<or> proc_statusFlags (allProcs (mem C) p) AND hidden = 0"

definition snap_min :: "conf \<Rightarrow> nat \<Rightarrow> nat \<Rightarrow> bool" where
  "snap_min C me m \<longleftrightarrow> normal_full m \<and> oldest C \<le> m \<and> m \<le> next_full (completed C)
     \<and> (\<forall>p x. xacts C p = Some x \<and> counted C me p \<longrightarrow> m \<le> xt_top x)"

definition snapshot_of :: "conf \<Rightarrow> nat \<Rightarrow> nat \<Rightarrow> SnapshotData \<Rightarrow> bool" where
  "snapshot_of C me m sn \<longleftrightarrow> snap_min C me m \<and> snap_xmin sn = xid_of m \<and> snap_xmax sn = xid_of (next_full (completed C))
     \<and> \<not> takenDuringRecovery sn \<and> snapXactCompletionCount sn = word_of_nat (ends C)
     \<and> snap_xcnt sn = word_of_nat (length (snap_xip sn)) \<and> length (snap_xip sn) < 2 ^ 31 \<and> snap_subxcnt sn = int (length (snap_subxip sn))
     \<and> set (snap_xip sn) = xid_of ` {xt_top x | p x. listed C me p x}
     \<and> (\<not> suboverflowed sn \<longrightarrow>
          xid_of ` (\<Union>{xt_subs x | p x. listed C me p x}) \<subseteq> set (snap_subxip sn)
        \<and> set (snap_subxip sn) \<subseteq> xid_of ` (\<Union>{xt_subs x | p x. listed C me p x}) \<union> xid_of ` later C)"

lemma listed_slots:
  assumes C: "conf_ok C"
  shows "{slot_top C i | i. i < length (procs C) \<and> is_listed C me i} = {xt_top x | p x. listed C me p x}"
    "(\<Union>i \<in> {i. i < length (procs C) \<and> is_listed C me i}. slot_subs C i) = \<Union>{xt_subs x | p x. listed C me p x}"
proof -
  have slot: "\<exists>i < length (procs C). procs C ! i = p" if "listed C me p x" for p x
    using conf_xact(1) [OF C, of p x] that by (auto simp: listed_def in_set_conv_nth)
  have "slot_top C i = xt_top x \<and> slot_subs C i = xt_subs x" if "listed C me (procs C ! i) x" for i x
    using that by (simp add: listed_def slot_top_def slot_subs_def)
  note this' = this
  show "{slot_top C i | i. i < length (procs C) \<and> is_listed C me i} = {xt_top x | p x. listed C me p x}"
    unfolding is_listed_def using this' slot by auto metis
  show "(\<Union>i \<in> {i. i < length (procs C) \<and> is_listed C me i}. slot_subs C i) = \<Union>{xt_subs x | p x. listed C me p x}"
    unfolding is_listed_def using this' slot by auto metis+
qed

text \<open>
  The membership test on such a snapshot. Its hypotheses on \<^verbatim>\<open>pg_subtrans\<close>, which is asked when a cache has overflowed: the topmost parent of a
  running id is the top of its transaction, and the topmost parent of a finished one, an aborted subtransaction of a running transaction excepted, is
  not running.
\<close>

definition topmost_ok :: "conf \<Rightarrow> (TransactionId \<Rightarrow> TransactionId res) \<Rightarrow> nat \<Rightarrow> bool" where
  "topmost_ok C tm f \<longleftrightarrow> (\<forall>p x. xacts C p = Some x \<and> f \<in> tree x \<longrightarrow> tm (xid_of f) = Inr (xid_of (xt_top x)))
     \<and> (\<not> running (xacts C) f \<longrightarrow> f \<le> completed C \<longrightarrow>
          (\<exists>t. tm (xid_of f) = Inr (xid_of t) \<and> normal_full t \<and> oldest C \<le> t \<and> t \<le> f \<and> \<not> running (xacts C) t))"

definition foreign :: "conf \<Rightarrow> nat \<Rightarrow> nat \<Rightarrow> bool" where
  "foreign C me f \<longleftrightarrow> (\<forall>p x. xacts C p = Some x \<and> f \<in> tree x \<longrightarrow> p \<noteq> me \<and> proc_statusFlags (allProcs (mem C) p) AND hidden = 0)"

lemma listed_ids:
  assumes C: "conf_ok C" and m: "snap_min C me m" and x: "listed C me p x" "g \<in> tree x"
  shows "m \<le> g" "g \<le> oldest C + 2145000000" "oldest C \<le> g" "normal_full g" "running (xacts C) g"
proof -
  have xp: "xacts C p = Some x" using x(1) by (simp add: listed_def)
  note k = conf_xact(3) [OF C xp] and w = counters_window(4) [OF conf_okD(4) [OF C]]
  show "oldest C \<le> g" "normal_full g" "running (xacts C) g" using k x(2) xp by (auto simp: xact_ok_def running_def)
  have "g < nxt C" using k x(2) by (auto simp: xact_ok_def)
  then show "g \<le> oldest C + 2145000000" using w by simp
  have "xt_top x \<le> g" using k x(2) by (auto simp: xact_ok_def tree_def less_imp_le)
  moreover have "m \<le> xt_top x" using m x(1) by (auto simp: snap_min_def listed_def counted_def)
  ultimately show "m \<le> g" by simp
qed

lemma window_inj:
  assumes "xid_of t = xid_of g" "lo \<le> t" "t \<le> lo + 2145000000" "lo \<le> g" "g \<le> lo + 2145000000"
  shows "t = g"
  using assms(1) window_near [of lo t g] assms(2-) by (simp add: xid_of_inj)

lemma snapshot_lists:
  assumes C: "conf_ok C" and sn: "snapshot_of C me m sn" and t: "oldest C \<le> t" "t \<le> completed C"
  shows "xid_of t \<in> set (snap_xip sn) \<longleftrightarrow> (\<exists>p x. listed C me p x \<and> t = xt_top x)"
    "\<not> suboverflowed sn \<Longrightarrow> xid_of t \<in> set (snap_subxip sn) \<longleftrightarrow> (\<exists>p x. listed C me p x \<and> t \<in> xt_subs x)"
proof -
  note S = sn [unfolded snapshot_of_def] and w = counters_window [OF conf_okD(4) [OF C]]
  have m: "snap_min C me m" using S by simp
  have tn: "t < nxt C" using t conf_okD(4) [OF C] by (simp add: counters_ok_def)
  have t': "t \<le> oldest C + 2145000000" using t(2) w(2) by simp
  have inj: "t = g" if "xid_of t = xid_of g" "listed C me p x" "g \<in> tree x" for p x g
    using listed_ids(2,3) [OF C m that(2,3)] by (intro window_inj [OF that(1) t(1) t'])
  show "xid_of t \<in> set (snap_xip sn) \<longleftrightarrow> (\<exists>p x. listed C me p x \<and> t = xt_top x)"
    using S inj by (fastforce simp: tree_def)
  assume ov: "\<not> suboverflowed sn"
  show "xid_of t \<in> set (snap_subxip sn) \<longleftrightarrow> (\<exists>p x. listed C me p x \<and> t \<in> xt_subs x)"
  proof
    assume "xid_of t \<in> set (snap_subxip sn)"
    then have "xid_of t \<in> xid_of ` (\<Union>{xt_subs x | p x. listed C me p x}) \<union> xid_of ` later C" using S ov by blast
    moreover have False if "xid_of t = xid_of g" "g \<in> later C" for g
      using window_inj [OF that(1) t(1) t'] that(2) w(3) tn by (simp add: later_def)
    ultimately obtain p x g where "listed C me p x" "g \<in> xt_subs x" "xid_of t = xid_of g" by blast
    then show "\<exists>p x. listed C me p x \<and> t \<in> xt_subs x" using inj [of g p x] by (auto simp: tree_def)
  next
    assume "\<exists>p x. listed C me p x \<and> t \<in> xt_subs x"
    then show "xid_of t \<in> set (snap_subxip sn)" using S ov by blast
  qed
qed

lemma foreign_running:
  assumes C: "conf_ok C" and fo: "foreign C me f" and f: "f \<le> completed C"
  shows "running (xacts C) f \<longleftrightarrow> (\<exists>p x. listed C me p x \<and> f \<in> tree x)"
proof
  assume "running (xacts C) f"
  then obtain p x where x: "xacts C p = Some x" "f \<in> tree x" by (auto simp: running_def)
  then have "xt_top x \<le> f" using conf_xact(3) [OF C x(1)] by (auto simp: xact_ok_def tree_def less_imp_le)
  then have "listed C me p x" using x fo f by (auto simp: listed_def foreign_def)
  with x(2) show "\<exists>p x. listed C me p x \<and> f \<in> tree x" by blast
qed (auto simp: running_def listed_def)

lemma snapshot_slices:
  assumes "snapshot_of C me m sn"
  shows "xip_slice sn = Inr (snap_xip sn)" "subxip_slice sn = Inr (snap_subxip sn)"
  using assms by (simp_all add: snapshot_of_def slice_to_def unat_of_nat)

lemma snapshot_order:
  assumes C: "conf_ok C" and sn: "snapshot_of C me m sn" and t: "normal_full t" "oldest C \<le> t" "t \<le> oldest C + 2145000000"
  shows "TransactionIdPrecedes (xid_of t) (snap_xmin sn) \<longleftrightarrow> t < m"
    "TransactionIdFollowsOrEquals (xid_of t) (snap_xmax sn) \<longleftrightarrow> next_full (completed C) \<le> t"
proof -
  have K: "counters_ok (oldest C) (nxt C) (completed C) (ends C)" by (rule conf_okD(4) [OF C])
  note w = counters_window [OF K] and n = next_full_props [of "completed C"] next_full_least [of "completed C" "nxt C"]
  have m: "normal_full m" "oldest C \<le> m" "m \<le> next_full (completed C)" "next_full (completed C) \<le> nxt C"
    using sn n K by (auto simp: snapshot_of_def snap_min_def counters_ok_def)
  have "near t m" "near t (next_full (completed C))" using t m w by (auto intro!: window_near [of "oldest C"])
  then show "TransactionIdPrecedes (xid_of t) (snap_xmin sn) \<longleftrightarrow> t < m"
    "TransactionIdFollowsOrEquals (xid_of t) (snap_xmax sn) \<longleftrightarrow> next_full (completed C) \<le> t"
    using sn xid_of_order [OF t(1)] m n by (auto simp: snapshot_of_def)
qed

lemma snapshot_topmost:
  assumes C: "conf_ok C" and sn: "snapshot_of C me m sn" and ov: "suboverflowed sn"
    and tm: "topmost_ok C tm f" and fo: "foreign C me f" and f: "normal_full f" "oldest C \<le> f" "f \<le> completed C" "m \<le> f"
  shows "XidInMVCCSnapshot tm (xid_of f) sn = Inr (running (xacts C) f)"
proof -
  note S = sn [unfolded snapshot_of_def] and w = counters_window [OF conf_okD(4) [OF C]]
  have m: "snap_min C me m" using S by simp
  have lt: "f < next_full (completed C)" using f(3) next_full_props(1) [of "completed C"] by simp
  have body: "XidInMVCCSnapshot tm (xid_of f) sn = Inr (m \<le> t \<and> (\<exists>p x. listed C me p x \<and> t = xt_top x))"
    if "tm (xid_of f) = Inr (xid_of t)" "normal_full t" "oldest C \<le> t" "t \<le> completed C" for t
    using snapshot_order [OF C sn f(1,2)] snapshot_order(1) [OF C sn that(2,3)] snapshot_slices [OF sn] snapshot_lists(1) [OF C sn that(3,4)]
      f lt that w(2) S ov by (auto simp: XidInMVCCSnapshot_def)
  show ?thesis
  proof (cases "running (xacts C) f")
    case True
    then obtain p x where px: "listed C me p x" "f \<in> tree x" using foreign_running [OF C fo f(3)] by blast
    then have x: "xacts C p = Some x" "xt_top x \<le> completed C" by (simp_all add: listed_def)
    note t = listed_ids [OF C m px(1), of "xt_top x"]
    have "tm (xid_of f) = Inr (xid_of (xt_top x))" using tm x(1) px(2) by (auto simp: topmost_ok_def)
    then show ?thesis using body [of "xt_top x"] t x(2) px(1) True by (auto simp: tree_def)
  next
    case False
    then obtain t where t: "tm (xid_of f) = Inr (xid_of t)" "normal_full t" "oldest C \<le> t" "t \<le> f" "\<not> running (xacts C) t"
      using tm f(3) by (auto simp: topmost_ok_def)
    have "\<not> (\<exists>p x. listed C me p x \<and> t = xt_top x)" using listed_ids(5) [OF C m] t(5) by (auto simp: tree_def)
    then show ?thesis using body [OF t(1-3)] t(4) f(3) False by simp
  qed
qed

lemma snapshot_exact:
  assumes C: "conf_ok C" and sn: "snapshot_of C me m sn" and tm: "topmost_ok C tm f" and fo: "foreign C me f"
    and f: "normal_full f" "oldest C \<le> f" "f \<le> oldest C + 2145000000"
  shows "XidInMVCCSnapshot tm (xid_of f) sn = Inr (running (xacts C) f \<or> nxt C \<le> f)"
proof -
  let ?c = "completed C"
  note S = sn [unfolded snapshot_of_def] and ord = snapshot_order [OF C sn f]
  have m: "snap_min C me m" "m \<le> next_full ?c" using S by (simp_all add: snap_min_def)
  have n: "?c < next_full ?c" "next_full ?c \<le> nxt C"
    using conf_okD(4) [OF C] next_full_props [of ?c] next_full_least [of ?c "nxt C"] by (auto simp: counters_ok_def)
  have le: "f \<le> ?c" "f < nxt C" if "f < next_full ?c" using that below_next [OF f(1), of ?c] n by simp_all
  consider "f < m" | "m \<le> f" "next_full ?c \<le> f" | "m \<le> f" "f < next_full ?c" by linarith
  then show ?thesis
  proof cases
    case 1
    then have "f < next_full ?c" using m by simp
    moreover have "\<not> running (xacts C) f"
      using foreign_running [OF C fo le(1) [OF calculation]] listed_ids(1) [OF C m(1)] 1 by (meson not_le)
    ultimately show ?thesis using 1 ord le by (simp add: XidInMVCCSnapshot_def)
  next
    case 2
    have "running (xacts C) f \<or> nxt C \<le> f" using conf_okD(7) [OF C f(1)] 2 n by (cases "nxt C \<le> f") auto
    then show ?thesis using 2 ord by (simp add: XidInMVCCSnapshot_def)
  next
    case 3
    note fc = le [OF 3(2)]
    show ?thesis
    proof (cases "suboverflowed sn")
      case False
      then show ?thesis
        using 3 ord S snapshot_slices [OF sn] snapshot_lists [OF C sn f(2) fc(1)] foreign_running [OF C fo fc(1)] fc(2)
        by (auto simp: XidInMVCCSnapshot_def tree_def)
    next
      case True
      then show ?thesis using snapshot_topmost [OF C sn True tm fo f(1,2) fc(1) 3(1)] fc(2) by simp
    qed
  qed
qed

subsection \<open>Taking a snapshot\<close>

lemma conf_latest:
  assumes "conf_ok C"
  shows "latest_completed_xid (mem C) = fxid_of (completed C)" "fxid_xid (latest_completed_xid (mem C)) = xid_of (completed C)"
    "xid_of (completed C) \<noteq> 0" "oldestXid (mem C) = xid_of (oldest C)" "xid_of (oldest C) \<noteq> 0" "xactCompletionCount (mem C) = word_of_nat (ends C)"
proof -
  note a = conf_okD(2) [OF assms, unfolded counters_are_def] and k = conf_okD(4) [OF assms, unfolded counters_ok_def]
  show l: "latest_completed_xid (mem C) = fxid_of (completed C)" using a by (simp add: latest_completed_xid_def fxid_of_def)
  show "fxid_xid (latest_completed_xid (mem C)) = xid_of (completed C)" by (simp add: l)
  show "xid_of (completed C) \<noteq> 0" "xid_of (oldest C) \<noteq> 0" using k by (simp_all add: xid_of_valid)
  show "oldestXid (mem C) = xid_of (oldest C)" using conf_okD(3) [OF assms] by (simp add: limits_ok_def)
  show "xactCompletionCount (mem C) = word_of_nat (ends C)" using a by simp
qed

lemma conf_slot:
  assumes C: "conf_ok C" and p: "p \<in> set (procs C)"
  shows "pgxactoff (allProcs (mem C) p) < length (hdr_xids (mem C))"
    "hdr_xids (mem C) ! pgxactoff (allProcs (mem C) p) = proc_xid (allProcs (mem C) p)"
    "\<forall>i < length (procs C). i = pgxactoff (allProcs (mem C) p) \<longleftrightarrow> procs C ! i = p"
    "proc_xid (allProcs (mem C) p) = (case xacts C p of None \<Rightarrow> InvalidTransactionId | Some x \<Rightarrow> xid_of (xt_top x))"
proof -
  from pa_wf_off [OF conf_okD(1) [OF C] p] obtain i where i: "i < length (procs C)" "procs C ! i = p" "pgxactoff (allProcs (mem C) p) = i" .
  note b = pa_wf_bounds [OF conf_okD(1) [OF C] i(1)]
  show "pgxactoff (allProcs (mem C) p) < length (hdr_xids (mem C))"
    "hdr_xids (mem C) ! pgxactoff (allProcs (mem C) p) = proc_xid (allProcs (mem C) p)"
    using b i by (simp_all add: hdr_bounds_def mirrored_def)
  show "\<forall>i < length (procs C). i = pgxactoff (allProcs (mem C) p) \<longleftrightarrow> procs C ! i = p"
    using i nth_eq_iff_index_eq [OF pa_wf_distinct [OF conf_okD(1) [OF C]]] by metis
  show "proc_xid (allProcs (mem C) p) = (case xacts C p of None \<Rightarrow> InvalidTransactionId | Some x \<Rightarrow> xid_of (xt_top x))"
    using conf_okD(6) [OF C p] by (auto simp: slot_ok_def idle_def shows_xact_def split: option.splits)
qed

definition own_start :: "conf \<Rightarrow> nat \<Rightarrow> nat" where
  "own_start C me = (case xacts C me of None \<Rightarrow> next_full (completed C) | Some x \<Rightarrow> min (xt_top x) (next_full (completed C)))"

definition scanned_min :: "conf \<Rightarrow> nat \<Rightarrow> nat" where
  "scanned_min C me = foldl min (own_start C me) (map (slot_top C) (filter (is_listed C me) [0..<length (procs C)]))"

lemma scanned_min:
  assumes C: "conf_ok C"
  shows "snap_min C me (scanned_min C me)" "snap_min C me t \<Longrightarrow> t \<le> scanned_min C me"
proof -
  let ?n = "next_full (completed C)" and ?ts = "map (slot_top C) (filter (is_listed C me) [0..<length (procs C)])"
  note K = conf_okD(4) [OF C, unfolded counters_ok_def]
  have n: "normal_full ?n" "oldest C \<le> ?n" using next_full_props [of "completed C"] K by simp_all
  have top: "normal_full (xt_top x)" "oldest C \<le> xt_top x" if "xacts C p = Some x" for p x
    using conf_xact(3) [OF C that] by (simp_all add: xact_ok_def tree_def)
  have ts: "set ?ts = {xt_top x | p x. listed C me p x}"
    using listed_slots(1) [OF C, of me] by (auto simp: set_eq_iff image_iff)
  have own: "own_start C me \<in> insert ?n {xt_top x | x. xacts C me = Some x}" "own_start C me \<le> ?n"
    "xacts C me = Some x \<Longrightarrow> own_start C me \<le> xt_top x" for x
    by (auto simp: own_start_def min_def split: option.splits)
  note fm = foldl_min [of "own_start C me" ?ts, folded scanned_min_def]
  have mem: "scanned_min C me = ?n \<or> (\<exists>p x. xacts C p = Some x \<and> counted C me p \<and> scanned_min C me = xt_top x)"
  proof -
    from fm(1) ts consider "scanned_min C me = own_start C me" | p x where "listed C me p x" "scanned_min C me = xt_top x" by auto
    then show ?thesis
    proof cases
      case 1
      with own(1) show ?thesis by (auto simp: counted_def)
    next
      case (2 p x)
      then have "xacts C p = Some x \<and> counted C me p" by (simp add: listed_def counted_def)
      with 2(2) show ?thesis by blast
    qed
  qed
  have le: "scanned_min C me \<le> xt_top x"
    if x: "xacts C p = Some x" "counted C me p" for p x
  proof (cases "p = me")
    case True
    then show ?thesis using own(3) x fm(2) le_trans by blast
  next
    case False
    show ?thesis
    proof (cases "xt_top x \<le> completed C")
      case True
      then have "xt_top x \<in> set ?ts" using x False unfolding ts by (auto simp: listed_def counted_def)
      then show ?thesis unfolding scanned_min_def by (rule foldl_min(3))
    next
      case f: False
      then have "?n \<le> xt_top x" using next_full_least [of "completed C" "xt_top x"] top [OF x(1)] by simp
      then show ?thesis using fm(2) own(2) by simp
    qed
  qed
  show "snap_min C me (scanned_min C me)"
    using mem le n top fm(2) own(2) unfolding snap_min_def by auto
  show "t \<le> scanned_min C me" if "snap_min C me t"
    using that mem unfolding snap_min_def by metis
qed

lemma snapshot_global_vis_fields [simp]:
  "TRANSACTION_XMIN (snapshot_global_vis lc ox xm sx sc my b) = TRANSACTION_XMIN b"
  "MyDatabaseId (snapshot_global_vis lc ox xm sx sc my b) = MyDatabaseId b"
  by (simp_all add: snapshot_global_vis_def Let_def)

text \<open>What a snapshot leaves in shared memory: the minimum of the process, if it had published none.\<close>

definition publish_xmin :: "nat \<Rightarrow> TransactionId \<Rightarrow> shmem \<Rightarrow> shmem" where
  "publish_xmin me xm s =
    (if TransactionIdIsValid (proc_xmin (allProcs s me)) then s else set_proc me (proc_xmin_update (\<lambda>_. xm)) s)"

lemma build_snapshot_run:
  assumes off: "pgxactoff (allProcs s me) < length (hdr_xids s)" "hdr_xids s ! pgxactoff (allProcs s me) = proc_xid (allProcs s me)"
    and l: "fxid_xid (latest_completed_xid s) = c" "c \<noteq> 0" "oldestXid s \<noteq> 0" and sz: "numProcs s \<le> maxProcs s"
    and start: "(if TransactionIdIsNormal (proc_xid (allProcs s me)) \<and> NormalTransactionIdPrecedes (proc_xid (allProcs s me)) (TransactionIdAdvance c)
      then proc_xid (allProcs s me) else TransactionIdAdvance c) = x0"
    and scan: "snapshot_scan view (pgxactoff (allProcs s me)) (TransactionIdAdvance c) [0..<numProcs s]
      \<lparr> sc_xmin = x0, sc_xip = [], sc_subxip = [], sc_overflowed = False \<rparr> = Inr a"
    and env: "\<not> pe_recovery_in_progress env" "pe_current_command_id env = Inr cid"
    and le: "TransactionIdPrecedesOrEquals (sc_xmin a) (sc_xmin a)"
      "TransactionIdIsValid (proc_xmin (allProcs (view (numProcs s)) me)) \<Longrightarrow> TransactionIdPrecedesOrEquals (TRANSACTION_XMIN b) (sc_xmin a)"
  obtains b' where "build_snapshot env me view sn s b =
    (Inr (), sn \<lparr> takenDuringRecovery := False, snap_xip := sc_xip a, snap_subxip := sc_subxip a, snap_xmin := sc_xmin a,
       snap_xmax := TransactionIdAdvance c, snap_xcnt := word_of_nat (length (sc_xip a)), snap_subxcnt := int (length (sc_subxip a)),
       suboverflowed := sc_overflowed a, snapXactCompletionCount := xactCompletionCount s, curcid := cid, active_count := 0,
       regd_count := 0, snap_copied := False \<rparr>, publish_xmin me (sc_xmin a) (view (numProcs s)), b')"
    "RECENT_XMIN b' = sc_xmin a"
    "TRANSACTION_XMIN b' = (if TransactionIdIsValid (proc_xmin (allProcs (view (numProcs s)) me)) then TRANSACTION_XMIN b else sc_xmin a)"
proof -
  have v: "TransactionIdIsValid c" "TransactionIdIsValid (oldestXid s)" using l by (simp_all add: TransactionIdIsValid_def InvalidTransactionId_def)
  have n: "(\<not> pgxactoff (allProcs s me) < length (hdr_xids s) \<or> hdr_xids s ! pgxactoff (allProcs s me) \<noteq> proc_xid (allProcs s me)) = False"
    "(\<not> numProcs s \<le> maxProcs s) = False" "(\<not> pe_recovery_in_progress env) = True" using off sz env by simp_all
  let ?b = "\<lambda>b. (snapshot_global_vis (latest_completed_xid s) (oldestXid s) (sc_xmin a) (replication_slot_xmin (view (numProcs s)))
    (replication_slot_catalog_xmin (view (numProcs s))) (proc_xid (allProcs s me)) b) \<lparr> RECENT_XMIN := sc_xmin a \<rparr>"
  show ?thesis
  proof (cases "TransactionIdIsValid (proc_xmin (allProcs (view (numProcs s)) me))")
    case True
    show ?thesis
      by (rule that [of "?b b"]; (simp only: build_snapshot_def Let_def l(1) n off(2) start scan if_False if_True sum.case v True)?)
        (simp_all add: publish_xmin_def True off env le)
  next
    case False
    show ?thesis
      by (rule that [of "?b (b \<lparr> TRANSACTION_XMIN := sc_xmin a \<rparr>)"]; (simp only: build_snapshot_def Let_def l(1) n off(2) start scan if_False if_True sum.case v False)?)
        (simp_all add: publish_xmin_def False off env le)
  qed
qed

lemma build_snapshot_ok:
  assumes C: "conf_ok C" and me: "me \<in> set (procs C)" and V: "\<forall>i \<le> length (procs C). grown C (V i)"
    and env: "\<not> pe_recovery_in_progress env" "pe_current_command_id env = Inr cid"
    and pub: "proc_xmin (allProcs (mem (V (length (procs C)))) me) = InvalidTransactionId \<or> (\<exists>t. TRANSACTION_XMIN b = xid_of t \<and> snap_min C me t)"
  obtains sn b' where "build_snapshot env me (\<lambda>i. mem (V i)) sn0 (mem C) b
      = (Inr (), sn, publish_xmin me (xid_of (scanned_min C me)) (mem (V (length (procs C)))), b')"
    "snapshot_of C me (scanned_min C me) sn" "curcid sn = cid" "RECENT_XMIN b' = xid_of (scanned_min C me)"
    "length (snap_xip sn) \<le> length (procs C)" "length (snap_subxip sn) \<le> PGPROC_MAX_CACHED_SUBXIDS * length (procs C)"
proof -
  let ?n = "length (procs C)" and ?c = "completed C" and ?m = "scanned_min C me" and ?me = "allProcs (mem C) me"
  let ?a0 = "\<lparr> sc_xmin = xid_of (own_start C me), sc_xip = [], sc_subxip = [], sc_overflowed = False \<rparr>"
  note K = conf_okD(4) [OF C, unfolded counters_ok_def] and w = counters_window [OF conf_okD(4) [OF C]]
  note l = conf_latest [OF C] and off = conf_slot [OF C me] and m = scanned_min [OF C, of me]
  have sz: "numProcs (mem C) = ?n" "?n \<le> maxProcs (mem C)" "maxProcs (mem C) < 2 ^ 31"
    using conf_okD(1) [OF C] by (simp_all add: pa_wf_def pa_sizes_def)
  have nn: "normal_full (next_full ?c)" "next_full ?c \<le> nxt C" "oldest C \<le> next_full ?c"
    using next_full_props [of ?c] next_full_least [of ?c "nxt C"] K by simp_all
  have top: "normal_full (xt_top x)" "oldest C \<le> xt_top x" "xt_top x < nxt C" if "xacts C p = Some x" for p x
    using conf_xact(3) [OF C that] by (simp_all add: xact_ok_def tree_def)
  have start: "(if TransactionIdIsNormal (proc_xid ?me) \<and> NormalTransactionIdPrecedes (proc_xid ?me) (xid_of (next_full ?c))
      then proc_xid ?me else xid_of (next_full ?c)) = xid_of (own_start C me)"
  proof (cases "xacts C me")
    case None
    then show ?thesis by (simp add: off(4) own_start_def TransactionIdIsNormal_iff InvalidTransactionId_def)
  next
    case (Some x)
    have "near (xt_top x) (next_full ?c)" using top [OF Some] nn w(4) by (intro window_near [of "oldest C"]) simp_all
    then show ?thesis
      using Some xid_of_order(5) [OF top(1) [OF Some] nn(1)] top(1) [OF Some]
      by (simp add: off(4) own_start_def min_def xid_of_normal)
  qed
  have st: "normal_full (own_start C me)" "oldest C \<le> own_start C me" "own_start C me \<le> oldest C + 2147000000"
    using nn top w(4) by (auto simp: own_start_def min_def split: option.splits)
  have V': "\<forall>i < ?n. grown C (V i)" using V by simp
  have "set [0..<?n] \<subseteq> {..<?n}" by auto
  from snapshot_scan_ok [OF C V' this off(3), of ?a0] obtain a where
    a: "snapshot_scan (\<lambda>i. mem (V i)) (pgxactoff ?me) (xid_of (next_full ?c)) [0..<?n] ?a0 = Inr a"
    and rel: "scan_rel C me [0..<?n] ?a0 a" by auto
  have am: "sc_xmin a = xid_of ?m" using rel st by (auto simp: scan_rel_def scanned_min_def)
  have ip: "sc_xip a = map (xid_of \<circ> slot_top C) (filter (is_listed C me) [0..<?n])" using rel by (simp add: scan_rel_def)
  then have ipl: "length (sc_xip a) \<le> ?n" using length_filter_le [of "is_listed C me" "[0..<?n]"] by simp
  have sets: "set (sc_xip a) = xid_of ` {xt_top x | p x. listed C me p x}"
    unfolding ip listed_slots(1) [OF C, of me, symmetric] by auto
  have sub: "\<not> sc_overflowed a \<Longrightarrow> xid_of ` (\<Union>{xt_subs x | p x. listed C me p x}) \<subseteq> set (sc_subxip a)
      \<and> set (sc_subxip a) \<subseteq> xid_of ` (\<Union>{xt_subs x | p x. listed C me p x}) \<union> xid_of ` later C"
    using rel unfolding listed_slots(2) [OF C, of me, symmetric] scan_rel_def by (auto simp: image_UN)
  have subl: "length (sc_subxip a) \<le> PGPROC_MAX_CACHED_SUBXIDS * ?n" using rel by (simp add: scan_rel_def)
  have le: "TransactionIdPrecedesOrEquals (xid_of t) (xid_of ?m)" if "snap_min C me t" for t
  proof -
    have "near t ?m" using that m(1) nn w(4) by (intro window_near [of "oldest C"]) (auto simp: snap_min_def)
    then show ?thesis using xid_of_order(2) [of t ?m] that m by (simp add: snap_min_def)
  qed
  have pb: "TransactionIdPrecedesOrEquals (TRANSACTION_XMIN b) (sc_xmin a)" if "TransactionIdIsValid (proc_xmin (allProcs (mem (V ?n)) me))"
    using pub that le am by (auto simp: TransactionIdIsValid_def)
  have oz: "oldestXid (mem C) \<noteq> 0" using l(4,5) by simp
  have x1: "TransactionIdAdvance (xid_of ?c) = xid_of (next_full ?c)" by (rule xid_of_next)
  from build_snapshot_run [OF off(1,2) l(2,3) oz, unfolded x1 sz(1), OF sz(2) start a env, where sn = sn0 and b = b] le [OF m(1)] pb am
  obtain b' where run: "build_snapshot env me (\<lambda>i. mem (V i)) sn0 (mem C) b =
      (Inr (), sn0 \<lparr> takenDuringRecovery := False, snap_xip := sc_xip a, snap_subxip := sc_subxip a, snap_xmin := sc_xmin a,
       snap_xmax := xid_of (next_full ?c), snap_xcnt := word_of_nat (length (sc_xip a)), snap_subxcnt := int (length (sc_subxip a)),
       suboverflowed := sc_overflowed a, snapXactCompletionCount := xactCompletionCount (mem C), curcid := cid, active_count := 0,
       regd_count := 0, snap_copied := False \<rparr>, publish_xmin me (sc_xmin a) (mem (V ?n)), b')" and rx: "RECENT_XMIN b' = sc_xmin a"
    by metis
  show ?thesis
  proof (rule that [OF run [unfolded am]])
    show "RECENT_XMIN b' = xid_of ?m" using rx am by simp
  qed (use m(1) l(6) ipl sz sets sub subl am in \<open>simp_all add: snapshot_of_def\<close>)
qed

subsection \<open>The snapshot of a configuration\<close>

text \<open>
  How the other processes interleave with \<^verbatim>\<open>GetSnapshotData\<close> once its memory of the last snapshot is out of date: when it has the lock shared,
  shared memory is that of \<open>C\<close>, and while it scans, ids may be assigned but no transaction can end.
\<close>

definition scan_schedule :: "conf \<Rightarrow> (nat \<Rightarrow> conf) \<Rightarrow> shmem \<Rightarrow> sched \<Rightarrow> bool" where
  "scan_schedule C V s sch \<longleftrightarrow> sch_lock sch s = mem C \<and> (\<forall>i. assign_step\<^sup>*\<^sup>* C (V i) \<and> sch_scan sch (mem C) i = mem (V i))"

lemma GetSnapshotData_run:
  assumes C: "conf_reach C" and me: "me \<in> set (procs C)" and sch: "scan_schedule C V s sch"
    and old: "snapXactCompletionCount sn0 \<noteq> xactCompletionCount s"
    and env: "\<not> pe_recovery_in_progress env" "pe_current_command_id env = Inr cid"
    and pub: "proc_xmin (allProcs (mem (V (length (procs C)))) me) = InvalidTransactionId \<or> (\<exists>t. TRANSACTION_XMIN b = xid_of t \<and> snap_min C me t)"
  obtains sn b' where "GetSnapshotData env me sch sn0 s b = (Inr (), sn, publish_xmin me (xid_of (scanned_min C me)) (mem (V (length (procs C)))), b')"
    "snapshot_of C me (scanned_min C me) sn" "curcid sn = cid" "RECENT_XMIN b' = xid_of (scanned_min C me)"
    "length (snap_xip sn) \<le> GetMaxSnapshotXidCount (mem C)" "length (snap_subxip sn) \<le> GetMaxSnapshotSubxidCount (mem C)"
proof -
  have ok: "conf_ok C" by (rule conf_reach_ok [OF C])
  have sz: "length (procs C) \<le> maxProcs (mem C)" using conf_okD(1) [OF ok] by (simp add: pa_wf_def)
  then have sz': "PGPROC_MAX_CACHED_SUBXIDS * length (procs C) \<le> GetMaxSnapshotSubxidCount (mem C)"
    unfolding GetMaxSnapshotSubxidCount_def by (intro mult_le_mono) simp_all
  have V: "\<forall>i \<le> length (procs C). grown C (V i)" using sch assign_steps_grown [OF _ ok] by (auto simp: scan_schedule_def)
  have re: "GetSnapshotDataReuse me (sch_verify sch) sn0 s b = (Inr False, sn0, s, b)" using old by (auto simp: GetSnapshotDataReuse_def)
  have sc: "sch_lock sch s = mem C" "sch_scan sch (mem C) = (\<lambda>i. mem (V i))" using sch by (auto simp: scan_schedule_def)
  have "GetSnapshotData env me sch sn0 s b = build_snapshot env me (\<lambda>i. mem (V i)) sn0 (mem C) b"
    by (simp add: GetSnapshotData_def re sc)
  then show ?thesis
    using that build_snapshot_ok [OF ok me V env pub] le_trans [OF _ sz] le_trans [OF _ sz'] unfolding GetMaxSnapshotXidCount_def by metis
qed

text \<open>
  C2: a snapshot shows what was running when it was taken, although ids are assigned while the array is scanned. \<^verbatim>\<open>GetSnapshotData\<close> succeeds, the two
  id arrays it fills stay within the sizes they are allocated with, and for every id \<open>f\<close> in the window of live ids that is not of the process itself nor of one that the scan passes over, a vacuum or logical decoding, the
  membership test on the snapshot says exactly whether \<open>f\<close> is running or was not yet assigned at the moment the lock was taken, subtransactions and the case
  of overflowed caches, when \<^verbatim>\<open>pg_subtrans\<close> is asked, included.
\<close>

theorem GetSnapshotData_exact:
  assumes "conf_reach C" and "me \<in> set (procs C)" and "scan_schedule C V s sch"
    and "snapXactCompletionCount sn0 \<noteq> xactCompletionCount s"
    and "\<not> pe_recovery_in_progress env" "pe_current_command_id env = Inr cid"
    and "proc_xmin (allProcs (mem (V (length (procs C)))) me) = InvalidTransactionId \<or> (\<exists>t. TRANSACTION_XMIN b = xid_of t \<and> snap_min C me t)"
  shows "\<exists>sn s' b'. GetSnapshotData env me sch sn0 s b = (Inr (), sn, s', b') \<and> curcid sn = cid
    \<and> length (snap_xip sn) \<le> GetMaxSnapshotXidCount (mem C) \<and> length (snap_subxip sn) \<le> GetMaxSnapshotSubxidCount (mem C)
    \<and> (\<forall>f tm. normal_full f \<and> oldest C \<le> f \<and> f \<le> oldest C + 2145000000 \<and> foreign C me f \<and> topmost_ok C tm f \<longrightarrow>
         XidInMVCCSnapshot tm (xid_of f) sn = Inr (running (xacts C) f \<or> nxt C \<le> f))"
proof -
  from GetSnapshotData_run [OF assms] obtain sn b' where
    "GetSnapshotData env me sch sn0 s b = (Inr (), sn, publish_xmin me (xid_of (scanned_min C me)) (mem (V (length (procs C)))), b')"
    "snapshot_of C me (scanned_min C me) sn" "curcid sn = cid"
    "length (snap_xip sn) \<le> GetMaxSnapshotXidCount (mem C)" "length (snap_subxip sn) \<le> GetMaxSnapshotSubxidCount (mem C)" .
  then show ?thesis using snapshot_exact [OF conf_reach_ok [OF assms(1)]] by blast
qed

definition ex_backend :: backend where
  "ex_backend = (let v = \<lparr> definitely_needed = fxid_of 100, maybe_needed = fxid_of 100 \<rparr> in
     \<lparr> MyDatabaseId = 0, TRANSACTION_XMIN = 0, RECENT_XMIN = 0, CACHED_XID_NOT_IN_PROGRESS = 0, GLOBAL_VIS_SHARED_RELS = v,
       GLOBAL_VIS_CATALOG_RELS = v, GLOBAL_VIS_DATA_RELS = v, GLOBAL_VIS_TEMP_RELS = v, COMPUTE_XID_HORIZONS_RESULT_LAST_XMIN = 0 \<rparr>)"

definition ex_env :: pa_env where
  "ex_env = \<lparr> pe_recovery_in_progress = False, pe_is_current = \<lambda>_. False, pe_did_abort = \<lambda>_. Inr False, pe_topmost = Inr,
     pe_current_command_id = Inr 0 \<rparr>"

definition ex_sched :: sched where
  "ex_sched = \<lparr> sch_verify = \<lambda>s. s, sch_lock = \<lambda>s. s, sch_scan = \<lambda>s _. s \<rparr>"

lemma ex_schedule: "scan_schedule ex_conf (\<lambda>_. ex_conf) (mem ex_conf) ex_sched"
  by (simp add: scan_schedule_def ex_sched_def)

lemma ex_conf_mem: "proc_xmin (allProcs (mem ex_conf) p) = InvalidTransactionId" "proc_statusFlags (allProcs (mem ex_conf) p) AND hidden = 0"
  "databaseId (allProcs (mem ex_conf) p) = 0" "xactCompletionCount (mem ex_conf) = 2"
  using ex_conf_ok conf_latest(6) [OF conf_reach_ok [OF ex_conf_reach]]
  by (auto simp: ex_ok_def plain_def bit.conj_disj_distrib or_eq_0_iff PROC_VACUUM_STATE_MASK_def ex_conf_fields)

lemma ex_conf_running: "running (xacts ex_conf) f \<longleftrightarrow> f = 101"
  by (auto simp: running_def ex_conf_fields tree_def split: if_splits)

lemma ex_conf_visible: "foreign ex_conf 0 f" "normal_full f \<Longrightarrow> 100 \<le> f \<Longrightarrow> topmost_ok ex_conf Inr f"
  by (auto simp: foreign_def ex_conf_mem topmost_ok_def ex_conf_running ex_conf_fields(2-5) ex_conf_fields(6) tree_def split: if_splits)

theorem GetSnapshotData_exact_witness:
  "\<exists>sn s' b'. GetSnapshotData ex_env 0 ex_sched (sentinel SNAPSHOT_MVCC) (mem ex_conf) ex_backend = (Inr (), sn, s', b')
     \<and> XidInMVCCSnapshot Inr 101 sn = Inr True \<and> XidInMVCCSnapshot Inr 102 sn = Inr False \<and> XidInMVCCSnapshot Inr 103 sn = Inr True"
proof -
  have z: "snapXactCompletionCount (sentinel SNAPSHOT_MVCC) \<noteq> xactCompletionCount (mem ex_conf)"
    by (simp add: ex_conf_mem sentinel_def)
  from GetSnapshotData_exact [OF ex_conf_reach _ ex_schedule z, of 0 ex_env 0 ex_backend] obtain sn s' b' where
    run: "GetSnapshotData ex_env 0 ex_sched (sentinel SNAPSHOT_MVCC) (mem ex_conf) ex_backend = (Inr (), sn, s', b')"
    and vis: "\<And>f tm. normal_full f \<and> oldest ex_conf \<le> f \<and> f \<le> oldest ex_conf + 2145000000 \<and> foreign ex_conf 0 f \<and> topmost_ok ex_conf tm f \<Longrightarrow>
      XidInMVCCSnapshot tm (xid_of f) sn = Inr (running (xacts ex_conf) f \<or> nxt ex_conf \<le> f)"
    by (auto simp: ex_conf_fields ex_env_def ex_conf_mem)
  have "normal_full 101" "normal_full 102" "normal_full 103" by (simp_all add: normal_full_def)
  then show ?thesis
    using run ex_conf_visible vis [of 101 Inr] vis [of 102 Inr] vis [of 103 Inr] by (auto simp: ex_conf_running ex_conf_fields(1-5) xid_of_def)
qed

end
