(* ===== verification/SnapshotReuse.thy ===== *)
theory SnapshotReuse
  imports ProcSnapshotSpec
begin

section \<open>Reusing a snapshot\<close>

text \<open>
  Two configurations have the same future if they agree on which ids are running or not yet assigned. As long as no transaction ends, the completion
  count stands still and the future is the same; \<^verbatim>\<open>GetSnapshotDataReuse\<close> relies on it.
\<close>

definition same_future :: "conf \<Rightarrow> conf \<Rightarrow> bool" where
  "same_future C D \<longleftrightarrow> (\<forall>f. normal_full f \<longrightarrow> (running (xacts C) f \<or> nxt C \<le> f) = (running (xacts D) f \<or> nxt D \<le> f))"

lemma same_future_new:
  assumes "\<And>f. running (xacts D) f \<longleftrightarrow> running (xacts C) f \<or> f = nxt C" "nxt D = next_full (nxt C)"
  shows "same_future C D"
proof -
  have "(f = nxt C \<or> next_full (nxt C) \<le> f) = (nxt C \<le> f)" if "normal_full f" for f
    using below_next [OF that, of "nxt C"] next_full_props(1) [of "nxt C"] by force
  then show ?thesis using assms by (auto simp: same_future_def)
qed

lemma running_split: "running g f \<longleftrightarrow> (\<exists>q x. q \<noteq> p \<and> g q = Some x \<and> f \<in> tree x) \<or> (\<exists>x. g p = Some x \<and> f \<in> tree x)"
  using running_upd [of g p "g p" f] by simp

lemma step_future:
  assumes "conf_step C D" "conf_ok C"
  shows "ends C \<le> ends D \<and> (ends D = ends C \<longrightarrow> same_future C D)"
  using assms
proof (cases rule: conf_step.cases)
  case assign
  from this(1) show ?thesis
  proof cases
    case (assign_top p env f s')
    have "running (xacts D) f \<longleftrightarrow> running (xacts C) f \<or> f = nxt C" for f
      unfolding assign_top(1) using assign_top(3) running_split [of "xacts C" f p] by (simp add: running_upd tree_def)
    then have "same_future C D" by (rule same_future_new) (use assign_top in simp)
    then show ?thesis using assign_top by simp
  next
    case (assign_sub p x env f s')
    have "running (xacts D) f \<longleftrightarrow> running (xacts C) f \<or> f = nxt C" for f
      unfolding assign_sub(1) using assign_sub(2) running_split [of "xacts C" f p] by (auto simp: running_upd tree_def)
    then have "same_future C D" by (rule same_future_new) (use assign_sub in simp)
    then show ?thesis using assign_sub by simp
  next
    case (quiet_step s')
    then show ?thesis by (simp add: same_future_def)
  qed
next
  case (join q t s')
  have "xacts C q = None" using conf_okD(5) [OF assms(2)] join by simp
  then have "running ((xacts C)(q := t)) f = running (xacts C) f" for f
    using join(4) running_split [of "xacts C" f q] unfolding running_upd by (auto simp: running_def)
  then show ?thesis using join by (simp add: same_future_def)
qed (simp_all add: same_future_def)

lemma steps_future:
  assumes "conf_step\<^sup>*\<^sup>* C D" "conf_ok C"
  shows "conf_ok D \<and> ends C \<le> ends D \<and> (ends D = ends C \<longrightarrow> same_future C D)"
  using assms
proof (induction rule: rtranclp_induct)
  case (step D E)
  then have D: "conf_ok D" "ends C \<le> ends D" "ends D = ends C \<longrightarrow> same_future C D" by blast+
  with step_future [OF step.hyps(2) D(1)] conf_step_ok [OF step.hyps(2) D(1)] show ?case by (auto simp: same_future_def)
qed (simp add: same_future_def)

text \<open>An id that has been assigned and is not running never runs again.\<close>

lemma step_finished:
  assumes "conf_step C D" "conf_ok C"
  shows "nxt C \<le> nxt D \<and> (running (xacts D) f \<longrightarrow> running (xacts C) f \<or> nxt C \<le> f)"
  using assms
proof (cases rule: conf_step.cases)
  case assign
  from assign_step_grown [OF this(1) assms(2)] have g: "grown C D" .
  have "running (xacts C) f \<or> nxt C \<le> f" if r: "running (xacts D) f"
  proof -
    from r obtain p y where y: "xacts D p = Some y" "f \<in> tree y" by (auto simp: running_def)
    show ?thesis
    proof (cases "xacts C p")
      case None
      then show ?thesis using grownD(11) [OF g None y] by blast
    next
      case (Some x)
      from grownD(10) [OF g Some] y have "f \<in> tree x \<or> nxt C \<le> f" by (auto simp: tree_def)
      then show ?thesis using Some by (auto simp: running_def)
    qed
  qed
  then show ?thesis using grownD(6) [OF g] by blast
next
  case (finish_sub p x f fs r s')
  then show ?thesis by (auto simp: running_def tree_def split: if_splits)
next
  case (join q t s')
  then show ?thesis by (auto simp: running_def split: if_splits)
qed (auto simp: running_def split: if_splits)

lemma steps_finished:
  assumes "conf_step\<^sup>*\<^sup>* C D" "conf_ok C"
  shows "nxt C \<le> nxt D" "running (xacts D) f \<Longrightarrow> running (xacts C) f \<or> nxt C \<le> f"
proof -
  have "conf_ok D \<and> nxt C \<le> nxt D \<and> (running (xacts D) f \<longrightarrow> running (xacts C) f \<or> nxt C \<le> f)"
    using assms
  proof (induction rule: rtranclp_induct)
    case (step D E)
    then have D: "conf_ok D" "nxt C \<le> nxt D" "running (xacts D) f \<longrightarrow> running (xacts C) f \<or> nxt C \<le> f" by blast+
    from step_finished [OF step.hyps(2) D(1), of f] conf_step_ok [OF step.hyps(2) D(1)] D show ?case by auto
  qed simp
  then show "nxt C \<le> nxt D" "running (xacts D) f \<Longrightarrow> running (xacts C) f \<or> nxt C \<le> f" by blast+
qed

lemma assign_conf_steps: "assign_step\<^sup>*\<^sup>* C D \<Longrightarrow> conf_step\<^sup>*\<^sup>* C D"
  by (induction rule: rtranclp_induct) (auto intro: conf_step.assign rtranclp.rtrancl_into_rtrancl)

lemma publish_step:
  assumes "conf_ok C"
  shows "conf_step C (C \<lparr> mem := publish_xmin me xm (mem C) \<rparr>)"
proof -
  have "\<forall>p. proc_ok (allProcs (mem C) p)" using conf_okD(1) [OF assms] by (simp add: pa_wf_def)
  then have "quiet (procs C) (mem C) (publish_xmin me xm (mem C))"
    by (auto simp: quiet_def publish_xmin_def same_core_def proc_ok_def)
  then show ?thesis by (intro conf_step.assign assign_step.quiet_step)
qed

lemma Reuse_run:
  assumes C: "conf_ok C" and sn: "snapshot_of C me m sn" and D: "conf_ok D" "ends C \<le> ends D"
    and E: "conf_step\<^sup>*\<^sup>* (D \<lparr> mem := publish_xmin me (snap_xmin sn) (mem D) \<rparr>) E"
      "others (publish_xmin me (snap_xmin sn) (mem D)) = mem E"
    and pub: "proc_xmin (allProcs (mem D) me) = InvalidTransactionId \<or> TransactionIdPrecedesOrEquals (TRANSACTION_XMIN b) (snap_xmin sn)"
  obtains sn' s' b' where "GetSnapshotDataReuse me others sn (mem D) b = (Inr (ends E = ends C), sn', s', b')"
    "sn' = sn \<or> sn' = sn \<lparr> active_count := 0, regd_count := 0, snap_copied := False \<rparr>"
proof -
  let ?D = "D \<lparr> mem := publish_xmin me (snap_xmin sn) (mem D) \<rparr>"
  have D': "conf_ok ?D" by (rule conf_step_ok [OF publish_step [OF D(1)] D(1)])
  from steps_future [OF E(1) D'] have E': "conf_ok E" "ends D \<le> ends E" by simp_all
  have lt: "0 < ends X" "ends X < 2 ^ 64" if "conf_ok X" for X using conf_okD(4) [OF that] by (simp_all add: counters_ok_def)
  have un: "unat (xactCompletionCount (mem X)) = ends X" if "conf_ok X" for X using conf_latest(6) [OF that] lt(2) [OF that] by (simp add: unat_of_nat)
  have sc: "snapXactCompletionCount sn = xactCompletionCount (mem C)" using sn conf_latest(6) [OF C] by (simp add: snapshot_of_def)
  have cnt: "xactCompletionCount (mem X) = snapXactCompletionCount sn \<longleftrightarrow> ends X = ends C" if "conf_ok X" for X
    using un [OF that] un [OF C] unfolding sc by (metis unsigned_word_eqI)
  have nz: "snapXactCompletionCount sn \<noteq> 0" using un [OF C] lt(1) [OF C] unfolding sc by auto
  have "TransactionIdPrecedesOrEquals (snap_xmin sn) (snap_xmin sn)"
    using sn xid_of_order(2) [of m m] by (auto simp: snapshot_of_def snap_min_def near_def)
  note le = this
  show ?thesis
  proof (cases "ends D = ends C")
    case False
    then have "ends E \<noteq> ends C" using D(2) E'(2) by simp
    then show ?thesis using that [of sn "mem D" b] False cnt [OF D(1)] nz by (simp add: GetSnapshotDataReuse_def)
  next
    case True
    then have t: "xactCompletionCount (mem D) = snapXactCompletionCount sn" using cnt [OF D(1)] by simp
    have p: "(if \<not> TransactionIdIsValid (proc_xmin (allProcs (mem D) me)) then set_proc me (proc_xmin_update (\<lambda>_. snap_xmin sn)) (mem D) else mem D)
      = publish_xmin me (snap_xmin sn) (mem D)" by (simp add: publish_xmin_def)
    have a: "TransactionIdIsValid (proc_xmin (allProcs (mem D) me)) \<Longrightarrow> TransactionIdPrecedesOrEquals (TRANSACTION_XMIN b) (snap_xmin sn)"
      using pub by (auto simp: TransactionIdIsValid_def)
    show ?thesis
    proof (cases "ends E = ends C")
      case True
      let ?b = "(if \<not> TransactionIdIsValid (proc_xmin (allProcs (mem D) me)) then b \<lparr> TRANSACTION_XMIN := snap_xmin sn \<rparr> else b) \<lparr> RECENT_XMIN := snap_xmin sn \<rparr>"
      have "TransactionIdPrecedesOrEquals (TRANSACTION_XMIN ?b) (RECENT_XMIN ?b)" using le a by simp
      then have "GetSnapshotDataReuse me others sn (mem D) b = (Inr True, sn \<lparr> active_count := 0, regd_count := 0, snap_copied := False \<rparr>, mem E, ?b)"
        using cnt [OF E'(1)] nz t True unfolding GetSnapshotDataReuse_def Let_def p E(2) by (simp only: if_False if_True simp_thms)
      then show ?thesis by (intro that [OF _ disjI2 [OF refl]]) (simp add: True)
    next
      case False
      then have "\<exists>t. GetSnapshotDataReuse me others sn (mem D) b = (Inr False, sn, t, b)"
        using cnt [OF E'(1)] nz t unfolding GetSnapshotDataReuse_def Let_def p E(2) by (simp only: if_False if_True simp_thms prod.inject)
      then show ?thesis using that [of sn _ b] False by auto
    qed
  qed
qed

text \<open>
  C14: a snapshot is reused only if it is still exact. A process keeps the snapshot \<open>sn\<close> it took in \<open>C\<close> and asks again in a later configuration \<open>D\<close>;
  \<open>E\<close> is the one in which it looks at the completion count for the second time, after it has published its \<^verbatim>\<open>xmin\<close> and others have gone on. The
  snapshot is reused exactly if no transaction has ended since \<open>C\<close>, and then it is that of \<open>E\<close>: it holds an id as running exactly if it is running or
  not yet assigned in \<open>E\<close>.
\<close>

theorem GetSnapshotDataReuse_exact:
  assumes "conf_reach C" and "me \<in> set (procs C)" and "scan_schedule C V s sch"
    and "snapXactCompletionCount sn0 \<noteq> xactCompletionCount s"
    and "\<not> pe_recovery_in_progress env" "pe_current_command_id env = Inr cid"
    and "proc_xmin (allProcs (mem (V (length (procs C)))) me) = InvalidTransactionId \<or> (\<exists>t. TRANSACTION_XMIN b = xid_of t \<and> snap_min C me t)"
    and take: "GetSnapshotData env me sch sn0 s b = (Inr (), sn, s', b')"
    and D: "conf_step\<^sup>*\<^sup>* ((V (length (procs C))) \<lparr> mem := s' \<rparr>) D"
    and E: "conf_step\<^sup>*\<^sup>* (D \<lparr> mem := publish_xmin me (snap_xmin sn) (mem D) \<rparr>) E"
      "others (publish_xmin me (snap_xmin sn) (mem D)) = mem E"
    and pub: "proc_xmin (allProcs (mem D) me) = InvalidTransactionId \<or> TransactionIdPrecedesOrEquals (TRANSACTION_XMIN b'') (snap_xmin sn)"
  shows "\<exists>sn' t bt. GetSnapshotDataReuse me others sn (mem D) b'' = (Inr (ends E = ends C), sn', t, bt)
    \<and> (ends E = ends C \<longrightarrow> (\<forall>f tm. normal_full f \<and> oldest C \<le> f \<and> f \<le> oldest C + 2145000000 \<and> foreign C me f \<and> topmost_ok C tm f \<longrightarrow>
         XidInMVCCSnapshot tm (xid_of f) sn' = Inr (running (xacts E) f \<or> nxt E \<le> f)))"
proof -
  let ?V = "V (length (procs C))"
  have C: "conf_ok C" by (rule conf_reach_ok [OF assms(1)])
  from GetSnapshotData_run [OF assms(1-7)] take obtain m where
    s': "s' = publish_xmin me (xid_of m) (mem ?V)" and sn: "snapshot_of C me m sn" by auto
  have "conf_step\<^sup>*\<^sup>* C ?V" using assms(3) by (auto simp: scan_schedule_def intro: assign_conf_steps)
  moreover from steps_future [OF this C] have "conf_step\<^sup>*\<^sup>* ?V D" using D publish_step [of ?V] unfolding s' by (meson converse_rtranclp_into_rtranclp)
  ultimately have CD: "conf_step\<^sup>*\<^sup>* C D" by simp
  from steps_future [OF this C] have D': "conf_ok D" "ends C \<le> ends D" by blast+
  have "conf_step\<^sup>*\<^sup>* D E" using E(1) publish_step [OF D'(1)] by (meson converse_rtranclp_into_rtranclp)
  with CD have "conf_step\<^sup>*\<^sup>* C E" by simp
  from steps_future [OF this C] have fut: "ends E = ends C \<longrightarrow> same_future C E" by blast
  from Reuse_run [where others = others, OF C sn D' E pub] obtain sn' t bt where
    run: "GetSnapshotDataReuse me others sn (mem D) b'' = (Inr (ends E = ends C), sn', t, bt)"
    and sn': "sn' = sn \<or> sn' = sn \<lparr> active_count := 0, regd_count := 0, snap_copied := False \<rparr>" .
  have "snapshot_of C me m (sn \<lparr> active_count := 0, regd_count := 0, snap_copied := False \<rparr>)" using sn unfolding snapshot_of_def by simp
  with sn' sn have "snapshot_of C me m sn'" by blast
  from snapshot_exact [OF C this] fut have "XidInMVCCSnapshot tm (xid_of f) sn' = Inr (running (xacts E) f \<or> nxt E \<le> f)"
    if "ends E = ends C" "normal_full f \<and> oldest C \<le> f \<and> f \<le> oldest C + 2145000000 \<and> foreign C me f \<and> topmost_ok C tm f" for f tm
    using that by (simp add: same_future_def)
  with run show ?thesis by blast
qed

theorem GetSnapshotDataReuse_exact_witness:
  "\<exists>sn s' b' sn' t bt. GetSnapshotData ex_env 0 ex_sched (sentinel SNAPSHOT_MVCC) (mem ex_conf) ex_backend = (Inr (), sn, s', b')
     \<and> GetSnapshotDataReuse 0 (\<lambda>s. s) sn s' (b' \<lparr> TRANSACTION_XMIN := snap_xmin sn \<rparr>) = (Inr True, sn', t, bt)
     \<and> XidInMVCCSnapshot Inr 101 sn' = Inr True \<and> XidInMVCCSnapshot Inr 102 sn' = Inr False \<and> XidInMVCCSnapshot Inr 103 sn' = Inr True"
proof -
  have z: "snapXactCompletionCount (sentinel SNAPSHOT_MVCC) \<noteq> xactCompletionCount (mem ex_conf)" by (simp add: ex_conf_mem sentinel_def)
  have C: "0 \<in> set (procs ex_conf)" "\<not> pe_recovery_in_progress ex_env" "pe_current_command_id ex_env = Inr 0" by (simp_all add: ex_conf_fields ex_env_def)
  have pub: "proc_xmin (allProcs (mem ex_conf) 0) = InvalidTransactionId \<or> (\<exists>t. TRANSACTION_XMIN ex_backend = xid_of t \<and> snap_min ex_conf 0 t)"
    by (simp add: ex_conf_mem)
  from GetSnapshotData_run [OF ex_conf_reach C(1) ex_schedule z C(2,3) pub] obtain sn b' where
    run: "GetSnapshotData ex_env 0 ex_sched (sentinel SNAPSHOT_MVCC) (mem ex_conf) ex_backend
      = (Inr (), sn, publish_xmin 0 (xid_of (scanned_min ex_conf 0)) (mem ex_conf), b')"
    and sn: "snapshot_of ex_conf 0 (scanned_min ex_conf 0) sn" .
  let ?D = "ex_conf \<lparr> mem := publish_xmin 0 (xid_of (scanned_min ex_conf 0)) (mem ex_conf) \<rparr>"
  have x: "snap_xmin sn = xid_of (scanned_min ex_conf 0)" "TransactionIdPrecedesOrEquals (snap_xmin sn) (snap_xmin sn)"
    using sn xid_of_order(2) [of "scanned_min ex_conf 0" "scanned_min ex_conf 0"] by (auto simp: snapshot_of_def snap_min_def near_def)
  obtain sn' t bt where run2: "GetSnapshotDataReuse 0 (\<lambda>s. s) sn (mem ?D) (b' \<lparr> TRANSACTION_XMIN := snap_xmin sn \<rparr>) = (Inr True, sn', t, bt)"
    and vis: "\<And>f tm. normal_full f \<and> oldest ex_conf \<le> f \<and> f \<le> oldest ex_conf + 2145000000 \<and> foreign ex_conf 0 f \<and> topmost_ok ex_conf tm f \<Longrightarrow>
         XidInMVCCSnapshot tm (xid_of f) sn' = Inr (running (xacts ex_conf) f \<or> nxt ex_conf \<le> f)"
    using GetSnapshotDataReuse_exact [OF ex_conf_reach C(1) ex_schedule z C(2,3) _ run, of ?D "?D \<lparr> mem := publish_xmin 0 (snap_xmin sn) (mem ?D) \<rparr>" "\<lambda>s. s"
        "b' \<lparr> TRANSACTION_XMIN := snap_xmin sn \<rparr>"] x
    by (auto simp: ex_conf_mem)
  have "normal_full 101" "normal_full 102" "normal_full 103" by (simp_all add: normal_full_def)
  then show ?thesis
    using run run2 ex_conf_visible vis [of 101 Inr] vis [of 102 Inr] vis [of 103 Inr] by (auto simp: ex_conf_running ex_conf_fields(1-5) xid_of_def)
qed

end
