(* ===== verification/ProcInProgress.thy ===== *)
theory ProcInProgress
  imports ProcSnapshotSpec
begin

unbundle bit_operations_syntax

section \<open>Is a transaction in progress?\<close>

text \<open>
  The answer of \<^verbatim>\<open>TransactionIdIsInProgress\<close> is that of the configuration in which it gets the lock, although ids are assigned while it scans.
  One slot of the scan first: the id is found there, or it is not running there, or the cache of the process has overflowed and its transaction is kept to be
  compared with the topmost parent of the id.
\<close>

lemma shown_cache:
  assumes "conf_ok D" "xacts D p = Some y" "f \<le> oldest D + 2145000000" "oldest D \<le> f"
  shows "xid_of f \<in> set (cached_xids (allProcs (mem D) p)) \<Longrightarrow> f \<in> xt_subs y"
    "f \<in> xt_subs y \<Longrightarrow> \<not> sx_overflowed (subxidStatus (allProcs (mem D) p)) \<Longrightarrow> xid_of f \<in> set (cached_xids (allProcs (mem D) p))"
proof -
  note X = conf_xact(2,3) [OF assms(1,2)]
  have "f = g" if e: "xid_of f = xid_of g" and g: "g \<in> xt_subs y" for g
  proof (rule window_inj [OF e assms(4,3)])
    have "oldest D \<le> g" "g < nxt D" using X(2) g by (auto simp: xact_ok_def tree_def)
    then show "oldest D \<le> g" "g \<le> oldest D + 2145000000" using counters_window(4) [OF conf_okD(4) [OF assms(1)]] by auto
  qed
  then show "xid_of f \<in> set (cached_xids (allProcs (mem D) p)) \<Longrightarrow> f \<in> xt_subs y"
    using X(1) by (auto simp: shows_xact_def)
  show "f \<in> xt_subs y \<Longrightarrow> \<not> sx_overflowed (subxidStatus (allProcs (mem D) p)) \<Longrightarrow> xid_of f \<in> set (cached_xids (allProcs (mem D) p))"
    using X(1) by (auto simp: shows_xact_def)
qed

lemma probe_slot:
  assumes C: "conf_ok C" and g: "grown C (V i)" and i: "i < length (procs C)" and ne: "i \<noteq> myoff" "procs C ! i \<noteq> me"
    and f: "normal_full f" "oldest C \<le> f" "f \<le> completed C"
  shows "let scan = in_progress_scan (\<lambda>i. mem (V i)) myoff (xid_of f); X = xacts C (procs C ! i) in
      scan (i # is) xids = scan is xids \<and> (\<forall>x. X = Some x \<longrightarrow> f \<notin> tree x)
    \<or> scan (i # is) xids = Inr None \<and> (\<exists>x. X = Some x \<and> f \<in> tree x)
    \<or> (\<exists>x. X = Some x \<and> f \<noteq> xt_top x \<and> scan (i # is) xids = scan is (xids @ [xid_of (xt_top x)]))"
proof (cases "xacts (V i) (procs C ! i)")
  case None
  then show ?thesis using grown_slot(1,6) [OF C g i] ne by (simp add: TransactionIdIsValid_def)
next
  case (Some y)
  let ?p = "procs C ! i" and ?D = "V i"
  let ?P = "allProcs (mem ?D) ?p"
  note gs = grown_slot [OF C g i] and d = grownD [OF g]
  have w: "f \<le> oldest C + 2145000000" using f(3) counters_window(2) [OF conf_okD(4) [OF C]] by simp
  have fn: "f < nxt C" using f(3) conf_okD(4) [OF C] by (simp add: counters_ok_def)
  have y: "hdr_xids (mem ?D) ! i = xid_of (xt_top y)" "normal_full (xt_top y)" "oldest C \<le> xt_top y" "xt_top y \<le> oldest C + 2145000000"
    using gs(7) [OF Some] by simp_all
  have ord: "TransactionIdPrecedes (xid_of f) (xid_of (xt_top y)) \<longleftrightarrow> f < xt_top y"
    by (rule xid_of_order(1) [OF f(1) y(2)], rule window_near [of "oldest C"]) (use f y w in auto)
  have inj: "xid_of (xt_top y) = xid_of f \<longleftrightarrow> f = xt_top y" using window_inj [of f "xt_top y" "oldest C"] f(2) y(3,4) w by metis
  have v: "TransactionIdIsValid (xid_of (xt_top y))" using xid_of_valid [OF y(2)] by (simp add: TransactionIdIsValid_def InvalidTransactionId_def)
  have st: "hdr_subxidStates (mem ?D) ! i = subxidStatus ?P" using gs(3) by (simp add: mirrored_def)
  have sl: "slice_to (sx_count (subxidStatus ?P)) (proc_subxids ?P) = Inr (cached_xids ?P)"
    using gs(4) by (simp add: slice_to_def proc_ok_def cached_xids_def)
  have Y: "f \<in> tree y \<longleftrightarrow> (\<exists>x. xacts C ?p = Some x \<and> f \<in> tree x)"
  proof (cases "xacts C ?p")
    case None
    then have "f \<notin> tree y" using d(11) [OF None Some, of f] fn by (meson not_le)
    then show ?thesis using None by simp
  next
    case x: (Some x)
    from d(10) [OF x] Some have "xt_top y = xt_top x" "xt_subs x \<subseteq> xt_subs y" "\<forall>g \<in> xt_subs y - xt_subs x. nxt C \<le> g" by auto
    note xy = this
    have "f \<in> xt_subs y \<longleftrightarrow> f \<in> xt_subs x" using xy(2,3) fn by (metis DiffI leD subsetD)
    then show ?thesis using x xy(1) by (simp add: tree_def)
  qed
  have top: "\<exists>x. xacts C ?p = Some x \<and> xt_top x = xt_top y" if "xt_top y \<le> f"
  proof -
    have "xt_top y \<le> completed C" using that f(3) by simp
    from grown_listed(2) [OF C g i ne(2) Some this] show ?thesis by (elim exE conjE) (rule exI, rule conjI, assumption, rule sym)
  qed
  consider "f = xt_top y" | "f < xt_top y" | "xt_top y < f" by linarith
  then show ?thesis
  proof cases
    case 1
    then have "f \<in> tree y" by (simp add: tree_def)
    then have ex: "\<exists>x. xacts C ?p = Some x \<and> f \<in> tree x" using Y by simp
    have "in_progress_scan (\<lambda>i. mem (V i)) myoff (xid_of f) (i # is) xids = Inr None"
      using ne(1) gs(1) y(1) v inj 1 by (simp add: Let_def)
    then show ?thesis unfolding Let_def using ex by blast
  next
    case 2
    then have "f \<notin> tree y" using conf_xact(3) [OF d(1) Some] by (auto simp: xact_ok_def tree_def)
    then have no: "\<forall>x. xacts C ?p = Some x \<longrightarrow> f \<notin> tree x" using Y by blast
    have "in_progress_scan (\<lambda>i. mem (V i)) myoff (xid_of f) (i # is) xids = in_progress_scan (\<lambda>i. mem (V i)) myoff (xid_of f) is xids"
      using ne(1) gs(1) y(1) v inj ord 2 by (simp add: Let_def)
    then show ?thesis unfolding Let_def using no by blast
  next
    case 3
    note sc = shown_cache [OF d(1) Some, unfolded d(3), OF w f(2)]
    obtain x where x: "xacts C ?p = Some x" "xt_top x = xt_top y" using top 3 by auto
    have run: "in_progress_scan (\<lambda>i. mem (V i)) myoff (xid_of f) (i # is) xids =
        (if xid_of f \<in> set (cached_xids ?P) then Inr None
         else in_progress_scan (\<lambda>i. mem (V i)) myoff (xid_of f) is (if sx_overflowed (subxidStatus ?P) then xids @ [xid_of (xt_top y)] else xids))"
      using ne gs(1,2) y(1) v inj ord 3 st sl by (simp add: Let_def)
    have tr: "f \<in> tree y \<longleftrightarrow> f \<in> xt_subs y" using 3 by (auto simp: tree_def)
    have Yx: "f \<in> tree y \<longleftrightarrow> f \<in> tree x" using Y x(1) by simp
    show ?thesis
    proof (cases "xid_of f \<in> set (cached_xids ?P)")
      case True
      then have "f \<in> tree x" using sc(1) tr Yx by blast
      moreover have "in_progress_scan (\<lambda>i. mem (V i)) myoff (xid_of f) (i # is) xids = Inr None" using run True by (simp only: if_True)
      ultimately show ?thesis unfolding Let_def using x(1) by blast
    next
      case n: False
      show ?thesis
      proof (cases "sx_overflowed (subxidStatus ?P)")
        case True
        then have "in_progress_scan (\<lambda>i. mem (V i)) myoff (xid_of f) (i # is) xids
            = in_progress_scan (\<lambda>i. mem (V i)) myoff (xid_of f) is (xids @ [xid_of (xt_top x)])" using run n x(2) by (simp only: if_True if_False)
        moreover have "f \<noteq> xt_top x" using 3 x(2) by simp
        ultimately show ?thesis unfolding Let_def using x(1) by blast
      next
        case False
        then have "f \<notin> tree x" using n sc(2) tr Yx by blast
        moreover have "in_progress_scan (\<lambda>i. mem (V i)) myoff (xid_of f) (i # is) xids
            = in_progress_scan (\<lambda>i. mem (V i)) myoff (xid_of f) is xids" using run n False by (simp only: if_False)
        ultimately show ?thesis unfolding Let_def using x(1) by auto
      qed
    qed
  qed
qed

text \<open>The whole scan.\<close>

definition in_slots :: "conf \<Rightarrow> nat \<Rightarrow> nat set \<Rightarrow> nat \<Rightarrow> xact \<Rightarrow> bool" where
  "in_slots C me I f x \<longleftrightarrow> (\<exists>i \<in> I. procs C ! i \<noteq> me \<and> xacts C (procs C ! i) = Some x \<and> f \<in> tree x)"

lemma in_progress_scan_ok:
  assumes C: "conf_ok C" and V: "\<forall>i < length (procs C). grown C (V i)" and "set is \<subseteq> {..<length (procs C)}"
    and me: "\<forall>i < length (procs C). i = myoff \<longleftrightarrow> procs C ! i = me"
    and f: "normal_full f" "oldest C \<le> f" "f \<le> completed C"
  shows "in_progress_scan (\<lambda>i. mem (V i)) myoff (xid_of f) is xids = Inr None \<and> (\<exists>x. in_slots C me (set is) f x)
    \<or> (\<exists>ys. in_progress_scan (\<lambda>i. mem (V i)) myoff (xid_of f) is xids = Inr (Some (xids @ ys))
         \<and> (\<forall>y \<in> set ys. \<exists>p x. xacts C p = Some x \<and> y = xid_of (xt_top x))
         \<and> (\<forall>x. in_slots C me (set is) f x \<longrightarrow> f \<noteq> xt_top x \<and> xid_of (xt_top x) \<in> set ys))"
  using assms(3)
proof (induction "is" arbitrary: xids)
  case Nil
  show ?case by (simp add: in_slots_def)
next
  case (Cons i "is")
  let ?scan = "in_progress_scan (\<lambda>i. mem (V i)) myoff (xid_of f)" and ?p = "procs C ! i"
  have i: "i < length (procs C)" and g: "grown C (V i)" using Cons.prems V by auto
  have IH: "?scan is xids = Inr None \<and> (\<exists>x. in_slots C me (set is) f x)
    \<or> (\<exists>ys. ?scan is xids = Inr (Some (xids @ ys)) \<and> (\<forall>y \<in> set ys. \<exists>p x. xacts C p = Some x \<and> y = xid_of (xt_top x))
         \<and> (\<forall>x. in_slots C me (set is) f x \<longrightarrow> f \<noteq> xt_top x \<and> xid_of (xt_top x) \<in> set ys))" for xids
    using Cons.IH Cons.prems by simp
  have sl: "in_slots C me (set (i # is)) f x \<longleftrightarrow> ?p \<noteq> me \<and> xacts C ?p = Some x \<and> f \<in> tree x \<or> in_slots C me (set is) f x" for x
    by (auto simp: in_slots_def)
  have skip: ?case if eq: "?scan (i # is) xids = ?scan is xids" and n: "\<And>x. ?p = me \<or> xacts C ?p \<noteq> Some x \<or> f \<notin> tree x"
  proof -
    have "in_slots C me (set (i # is)) f x \<longleftrightarrow> in_slots C me (set is) f x" for x using n sl by blast
    then show ?thesis unfolding eq using IH [of xids] by simp
  qed
  show ?case
  proof (cases "i = myoff")
    case True
    then show ?thesis using me i by (intro skip) auto
  next
    case False
    then have ne: "?p \<noteq> me" using me i by auto
    from probe_slot [where V = V, OF C g i False ne f, of "is" xids] consider
      "?scan (i # is) xids = ?scan is xids" "\<forall>x. xacts C ?p = Some x \<longrightarrow> f \<notin> tree x"
      | x where "?scan (i # is) xids = Inr None" "xacts C ?p = Some x" "f \<in> tree x"
      | x where "xacts C ?p = Some x" "f \<noteq> xt_top x" "?scan (i # is) xids = ?scan is (xids @ [xid_of (xt_top x)])"
      unfolding Let_def by blast
    then show ?thesis
    proof cases
      case 1
      then show ?thesis by (intro skip) auto
    next
      case (2 x)
      then show ?thesis using sl ne by blast
    next
      case (3 x)
      have sl': "in_slots C me (set (i # is)) f z \<Longrightarrow> z = x \<or> in_slots C me (set is) f z" for z using sl [of z] 3(1) by auto
      from IH [of "xids @ [xid_of (xt_top x)]"] show ?thesis
      proof (elim disjE conjE exE)
        fix z assume "?scan is (xids @ [xid_of (xt_top x)]) = Inr None" "in_slots C me (set is) f z"
        then show ?thesis using 3(3) sl by metis
      next
        fix ys assume ys: "?scan is (xids @ [xid_of (xt_top x)]) = Inr (Some ((xids @ [xid_of (xt_top x)]) @ ys))"
          "\<forall>y \<in> set ys. \<exists>p x. xacts C p = Some x \<and> y = xid_of (xt_top x)"
          "\<forall>x. in_slots C me (set is) f x \<longrightarrow> f \<noteq> xt_top x \<and> xid_of (xt_top x) \<in> set ys"
        show ?thesis
        proof (rule disjI2, rule exI [of _ "xid_of (xt_top x) # ys"], intro conjI allI impI)
          show "?scan (i # is) xids = Inr (Some (xids @ xid_of (xt_top x) # ys))" unfolding 3(3) ys(1) by simp
          show "\<forall>y \<in> set (xid_of (xt_top x) # ys). \<exists>p x. xacts C p = Some x \<and> y = xid_of (xt_top x)"
            unfolding list.set ball_simps(7) by (rule conjI [OF _ ys(2)]) (use 3(1) in blast)
        next
          fix z assume "in_slots C me (set (i # is)) f z"
          then have z: "z = x \<or> in_slots C me (set is) f z" by (rule sl')
          then show "f \<noteq> xt_top z" using ys(3) 3(2) by blast
          show "xid_of (xt_top z) \<in> set (xid_of (xt_top x) # ys)" using z ys(3) by auto
        qed
      qed
    qed
  qed
qed

text \<open>
  What is asked of the surroundings of the test: the process recognises its own ids, \<^verbatim>\<open>RecentXmin\<close> is the minimum of a snapshot, the remembered id has
  finished, and \<^verbatim>\<open>pg_xact\<close> and \<^verbatim>\<open>pg_subtrans\<close> answer for ids not newer than the latest completed one.
\<close>

definition asks_ok :: "conf \<Rightarrow> nat \<Rightarrow> pa_env \<Rightarrow> backend \<Rightarrow> nat \<Rightarrow> bool" where
  "asks_ok C me env b f \<longleftrightarrow> \<not> pe_recovery_in_progress env
     \<and> (pe_is_current env (xid_of f) \<longleftrightarrow> (\<exists>x. xacts C me = Some x \<and> f \<in> tree x))
     \<and> (RECENT_XMIN b = InvalidTransactionId \<or> (\<exists>r. RECENT_XMIN b = xid_of r \<and> snap_min C me r))
     \<and> (CACHED_XID_NOT_IN_PROGRESS b = xid_of f \<longrightarrow> f \<le> completed C \<and> \<not> running (xacts C) f)
     \<and> (f \<le> completed C \<longrightarrow> (\<exists>a. pe_did_abort env (xid_of f) = Inr a \<and> (a \<longrightarrow> \<not> running (xacts C) f)))
     \<and> topmost_ok C (pe_topmost env) f"

lemma running_slots:
  assumes C: "conf_ok C"
  shows "running (xacts C) f \<longleftrightarrow> (\<exists>x. xacts C me = Some x \<and> f \<in> tree x) \<or> (\<exists>x. in_slots C me {0..<length (procs C)} f x)"
proof
  assume "running (xacts C) f"
  then obtain p x where px: "xacts C p = Some x" "f \<in> tree x" by (auto simp: running_def)
  from conf_xact(1) [OF C px(1)] obtain i where i: "i < length (procs C)" "procs C ! i = p" by (auto simp: in_set_conv_nth)
  show "(\<exists>x. xacts C me = Some x \<and> f \<in> tree x) \<or> (\<exists>x. in_slots C me {0..<length (procs C)} f x)"
  proof (cases "p = me")
    case False
    with px i have "in_slots C me {0..<length (procs C)} f x" unfolding in_slots_def by auto
    then show ?thesis by blast
  qed (use px in blast)
qed (auto simp: running_def in_slots_def)

lemma scan_exact:
  assumes C: "conf_ok C" and me: "me \<in> set (procs C)" and V: "\<forall>i. grown C (V i)"
    and f: "normal_full f" "oldest C \<le> f" "f \<le> oldest C + 2145000000" and env: "asks_ok C me env b f"
    and own: "\<not> (\<exists>x. xacts C me = Some x \<and> f \<in> tree x)"
  shows "\<exists>b'. transaction_id_is_in_progress_scan env me (\<lambda>i. mem (V i)) (xid_of f) (mem C) b = (Inr (running (xacts C) f \<or> nxt C \<le> f), b')
    \<and> (b' = b \<or> b' = b \<lparr> CACHED_XID_NOT_IN_PROGRESS := xid_of f \<rparr> \<and> f \<le> completed C \<and> \<not> running (xacts C) f)"
proof -
  let ?c = "completed C" and ?n = "length (procs C)" and ?off = "pgxactoff (allProcs (mem C) me)"
  note K = conf_okD(4) [OF C] and w = counters_window [OF conf_okD(4) [OF C]] and l = conf_latest [OF C]
  note off = conf_slot(3) [OF C me] and e = env [unfolded asks_ok_def]
  have np: "numProcs (mem C) = ?n" using conf_okD(1) [OF C] by (simp add: pa_wf_def)
  have cn: "normal_full ?c" "?c < nxt C" using K by (simp_all add: counters_ok_def)
  have "near ?c f" using w f by (auto simp: near_def)
  then have ord: "TransactionIdPrecedes (xid_of ?c) (xid_of f) \<longleftrightarrow> ?c < f" by (rule xid_of_order(1) [OF cn(1) f(1)])
  show ?thesis
  proof (cases "?c < f")
    case True
    have "running (xacts C) f \<or> nxt C \<le> f" using conf_okD(7) [OF C f(1) True] by (cases "nxt C \<le> f") auto
    then show ?thesis using True ord l(2) by (simp add: transaction_id_is_in_progress_scan_def Let_def)
  next
    case False
    then have fc: "f \<le> ?c" "\<not> nxt C \<le> f" using cn by simp_all
    have run: "running (xacts C) f \<longleftrightarrow> (\<exists>x. in_slots C me {0..<?n} f x)" using running_slots [OF C, of f me] own by blast
    have V': "\<forall>i < ?n. grown C (V i)" using V by simp
    have sub: "set [0..<?n] \<subseteq> {..<?n}" by auto
    from in_progress_scan_ok [where V = V, OF C V' sub off f(1,2) fc(1), of "[]"] consider
      "in_progress_scan (\<lambda>i. mem (V i)) ?off (xid_of f) [0..<?n] [] = Inr None" "running (xacts C) f"
      | ys where "in_progress_scan (\<lambda>i. mem (V i)) ?off (xid_of f) [0..<?n] [] = Inr (Some ys)"
        "\<forall>y \<in> set ys. \<exists>p x. xacts C p = Some x \<and> y = xid_of (xt_top x)"
        "\<forall>x. in_slots C me {0..<?n} f x \<longrightarrow> f \<noteq> xt_top x \<and> xid_of (xt_top x) \<in> set ys"
      unfolding run append_Nil set_upt by blast
    then show ?thesis
    proof cases
      case 1
      then show ?thesis using False ord l(2) np by (simp add: transaction_id_is_in_progress_scan_def Let_def)
    next
      case (2 ys)
      obtain a where a: "pe_did_abort env (xid_of f) = Inr a" "a \<longrightarrow> \<not> running (xacts C) f" using e fc(1) by blast
      let ?no = "(Inr False, b \<lparr> CACHED_XID_NOT_IN_PROGRESS := xid_of f \<rparr>)"
      have ev: "transaction_id_is_in_progress_scan env me (\<lambda>i. mem (V i)) (xid_of f) (mem C) b =
          (if ys = [] \<or> a then ?no else if xid_of t \<noteq> xid_of f \<and> xid_of t \<in> set ys then (Inr True, b) else ?no)"
        if "pe_topmost env (xid_of f) = Inr (xid_of t)" "normal_full t" for t
        using 2(1) False ord l(2) np e a(1) that xid_of_valid [OF that(2)]
        by (simp add: transaction_id_is_in_progress_scan_def Let_def TransactionIdIsValid_def InvalidTransactionId_def)
      show ?thesis
      proof (cases "running (xacts C) f")
        case True
        with run obtain x where x: "in_slots C me {0..<?n} f x" by blast
        then obtain p where px: "xacts C p = Some x" "f \<in> tree x" by (auto simp: in_slots_def)
        have top: "normal_full (xt_top x)" "oldest C \<le> xt_top x" "xt_top x < nxt C"
          using conf_xact(3) [OF C px(1)] by (simp_all add: xact_ok_def tree_def)
        have tm: "pe_topmost env (xid_of f) = Inr (xid_of (xt_top x))" using e px unfolding topmost_ok_def by blast
        have ne: "xid_of (xt_top x) \<noteq> xid_of f" using window_inj [of "xt_top x" f "oldest C"] top f w(4) 2(3) x by force
        show ?thesis using ev [OF tm top(1)] 2(3) x ne a(2) True by auto
      next
        case no: False
        then obtain t where t: "pe_topmost env (xid_of f) = Inr (xid_of t)" "normal_full t" "oldest C \<le> t" "t \<le> f" "\<not> running (xacts C) t"
          using e fc(1) unfolding topmost_ok_def by blast
        have "xid_of t \<notin> set ys"
        proof
          assume "xid_of t \<in> set ys"
          then obtain p x where px: "xacts C p = Some x" "xid_of t = xid_of (xt_top x)" using 2(2) by blast
          then have "oldest C \<le> xt_top x" "xt_top x < nxt C" using conf_xact(3) [OF C px(1)] by (simp_all add: xact_ok_def tree_def)
          then have "t = xt_top x" using window_inj [OF px(2) t(3)] t(4) f(3) w(4) by simp
          then have "running (xacts C) t" using px(1) by (auto simp: running_def tree_def)
          with t(5) show False by blast
        qed
        then show ?thesis using ev [OF t(1,2)] no fc by auto
      qed
    qed
  qed
qed


lemma recent_before:
  assumes C: "conf_ok C" and env: "asks_ok C me env b f" and f: "normal_full f" "oldest C \<le> f" "f \<le> oldest C + 2145000000"
    and seen: "\<forall>p x. xacts C p = Some x \<and> f \<in> tree x \<longrightarrow> counted C me p" and lt: "TransactionIdPrecedes (xid_of f) (RECENT_XMIN b)"
  shows "\<not> running (xacts C) f" "f < nxt C"
proof -
  have "RECENT_XMIN b \<noteq> InvalidTransactionId"
    using lt by (auto simp: TransactionIdPrecedes_def TransactionIdIsNormal_iff InvalidTransactionId_def)
  then obtain r where r: "RECENT_XMIN b = xid_of r" "snap_min C me r" using env by (auto simp: asks_ok_def)
  note K = conf_okD(4) [OF C] and w = counters_window [OF conf_okD(4) [OF C]]
  have rn: "normal_full r" "oldest C \<le> r" "r \<le> nxt C"
    using r(2) next_full_least [of "completed C" "nxt C"] K by (auto simp: snap_min_def counters_ok_def)
  have "near f r" using f rn w by (auto intro!: window_near [of "oldest C"])
  then have "f < r" using lt xid_of_order(1) [OF f(1) rn(1)] r(1) by simp
  then show "f < nxt C" using rn by simp
  show "\<not> running (xacts C) f"
  proof
    assume "running (xacts C) f"
    then obtain p x where x: "xacts C p = Some x" "f \<in> tree x" by (auto simp: running_def)
    have "r \<le> xt_top x" using r(2) x seen by (auto simp: snap_min_def)
    moreover have "xt_top x \<le> f" using conf_xact(3) [OF C x(1)] x(2) by (auto simp: xact_ok_def tree_def less_imp_le)
    ultimately show False using \<open>f < r\<close> by simp
  qed
qed

lemma in_progress_run:
  assumes reach: "conf_reach C" and me: "me \<in> set (procs C)" and V: "\<forall>i. assign_step\<^sup>*\<^sup>* C (V i)"
    and f: "normal_full f" "oldest C \<le> f" "f \<le> oldest C + 2145000000" and env: "asks_ok C me env b f"
    and seen: "\<forall>p x. xacts C p = Some x \<and> f \<in> tree x \<longrightarrow> counted C me p"
  shows "\<exists>b'. TransactionIdIsInProgress env me (\<lambda>i. mem (V i)) (xid_of f) (mem C) b = (Inr (running (xacts C) f \<or> nxt C \<le> f), b')
    \<and> (b' = b \<or> b' = b \<lparr> CACHED_XID_NOT_IN_PROGRESS := xid_of f \<rparr> \<and> f \<le> completed C \<and> \<not> running (xacts C) f)"
proof -
  have C: "conf_ok C" by (rule conf_reach_ok [OF reach])
  have G: "\<forall>i. grown C (V i)" using V assign_steps_grown [OF _ C] by blast
  have lt: "completed C < nxt C" using conf_okD(4) [OF C] by (simp add: counters_ok_def)
  consider "TransactionIdPrecedes (xid_of f) (RECENT_XMIN b)"
    | "\<not> TransactionIdPrecedes (xid_of f) (RECENT_XMIN b)" "CACHED_XID_NOT_IN_PROGRESS b = xid_of f"
    | "\<not> TransactionIdPrecedes (xid_of f) (RECENT_XMIN b)" "CACHED_XID_NOT_IN_PROGRESS b \<noteq> xid_of f" "\<exists>x. xacts C me = Some x \<and> f \<in> tree x"
    | "\<not> TransactionIdPrecedes (xid_of f) (RECENT_XMIN b)" "CACHED_XID_NOT_IN_PROGRESS b \<noteq> xid_of f" "\<not> (\<exists>x. xacts C me = Some x \<and> f \<in> tree x)"
    by blast
  then show ?thesis
  proof cases
    case 1
    then show ?thesis using recent_before [OF C env f seen 1] by (simp add: TransactionIdIsInProgress_def)
  next
    case 2
    then show ?thesis using env lt by (simp add: TransactionIdIsInProgress_def asks_ok_def)
  next
    case 3
    then have "running (xacts C) f" by (auto simp: running_def)
    then show ?thesis using 3 env by (simp add: TransactionIdIsInProgress_def asks_ok_def)
  next
    case 4
    then have "\<not> pe_is_current env (xid_of f)" using env by (simp add: asks_ok_def)
    then show ?thesis using scan_exact [OF C me G f env 4(3)] 4 by (simp add: TransactionIdIsInProgress_def)
  qed
qed



end
