(* ===== verification/ProcHorizon.thy ===== *)
theory ProcHorizon
  imports ProcSnapshotSpec
begin

unbundle bit_operations_syntax

section \<open>Horizons\<close>

text \<open>
  \<^verbatim>\<open>ComputeXidHorizons\<close> takes minima with \<^verbatim>\<open>TransactionIdOlder\<close>, for which the invalid id is neutral. An id that is the minimum of a finite set of live ids
  is written \<open>minx\<close> of that set; the operation is then the union of sets.
\<close>

definition live_id :: "conf \<Rightarrow> nat \<Rightarrow> bool" where
  "live_id C t \<longleftrightarrow> normal_full t \<and> oldest C \<le> t \<and> t \<le> nxt C"

definition minx :: "nat set \<Rightarrow> TransactionId" where
  "minx S = (if S = {} then InvalidTransactionId else xid_of (Min S))"

lemma minx_simps [simp]: "minx {} = InvalidTransactionId" "minx {t} = xid_of t"
  by (simp_all add: minx_def)

lemma minx_valid: "finite S \<Longrightarrow> \<forall>t \<in> S. live_id C t \<Longrightarrow> TransactionIdIsValid (minx S) \<longleftrightarrow> S \<noteq> {}"
  using xid_of_valid [of "Min S"] Min_in [of S] by (auto simp: minx_def TransactionIdIsValid_def InvalidTransactionId_def live_id_def)

lemma live_near:
  assumes "conf_ok C" "live_id C a" "live_id C b"
  shows "near a b"
  using assms counters_window(4) [OF conf_okD(4) [OF assms(1)]] by (intro window_near [of "oldest C"]) (auto simp: live_id_def)

lemma older_minx:
  assumes C: "conf_ok C" and S: "finite S" "\<forall>t \<in> S. live_id C t" and T: "finite T" "\<forall>t \<in> T. live_id C t"
  shows "TransactionIdOlder (minx S) (minx T) = minx (S \<union> T)"
proof (cases "S = {} \<or> T = {}")
  case True
  then show ?thesis
    using minx_valid [OF S] minx_valid [OF T] by (auto simp: TransactionIdOlder_def TransactionIdIsValid_def)
next
  case False
  have l: "live_id C (Min S)" "live_id C (Min T)" using False S T Min_in by blast+
  have "TransactionIdPrecedes (xid_of (Min S)) (xid_of (Min T)) \<longleftrightarrow> Min S < Min T"
    using live_near [OF C l] l by (intro xid_of_order(1)) (auto simp: live_id_def)
  moreover have "Min (S \<union> T) = min (Min S) (Min T)" using S T False by (intro Min_Un) auto
  moreover have "TransactionIdIsValid (xid_of (Min S))" "TransactionIdIsValid (xid_of (Min T))"
    using minx_valid [OF S] minx_valid [OF T] False by (simp_all add: minx_def)
  ultimately show ?thesis using False by (simp add: TransactionIdOlder_def minx_def min_def del: Min_less_iff Min_gr_iff)
qed

text \<open>The marks of a process: the minimum it has published and the id of its transaction.\<close>

definition marks :: "conf \<Rightarrow> (nat \<Rightarrow> nat option) \<Rightarrow> nat \<Rightarrow> nat set" where
  "marks C X p = set_option (X p) \<union> xt_top ` set_option (xacts C p)"

definition xmins_ok :: "conf \<Rightarrow> (nat \<Rightarrow> nat option) \<Rightarrow> bool" where
  "xmins_ok C X \<longleftrightarrow> (\<forall>p \<in> set (procs C). proc_xmin (allProcs (mem C) p) = minx (set_option (X p)) \<and> (\<forall>t \<in> set_option (X p). live_id C t))"

definition guards :: "conf \<Rightarrow> nat \<Rightarrow> bool" where
  "guards C p \<longleftrightarrow> proc_statusFlags (allProcs (mem C) p) AND hidden = 0"

definition guards_db :: "conf \<Rightarrow> u32 \<Rightarrow> nat \<Rightarrow> bool" where
  "guards_db C db p \<longleftrightarrow> guards C p \<and> (databaseId (allProcs (mem C) p) = db \<or> db = 0
     \<or> proc_statusFlags (allProcs (mem C) p) AND PROC_AFFECTS_ALL_HORIZONS \<noteq> 0)"

lemma marks_live:
  assumes "conf_ok C" "xmins_ok C X" "p \<in> set (procs C)"
  shows "finite (marks C X p)" "\<forall>t \<in> marks C X p. live_id C t"
    "TransactionIdOlder (proc_xmin (allProcs (mem C) p)) (proc_xid (allProcs (mem C) p)) = minx (marks C X p)"
proof -
  have top: "\<forall>t \<in> xt_top ` set_option (xacts C p). live_id C t"
    using conf_xact(3) [OF assms(1), of p] by (auto simp: live_id_def xact_ok_def tree_def less_imp_le)
  have x: "proc_xmin (allProcs (mem C) p) = minx (set_option (X p))" "\<forall>t \<in> set_option (X p). live_id C t"
    using assms(2,3) by (auto simp: xmins_ok_def)
  have id: "proc_xid (allProcs (mem C) p) = minx (xt_top ` set_option (xacts C p))"
    using conf_slot(4) [OF assms(1,3)] by (simp split: option.splits)
  show "finite (marks C X p)" by (simp add: marks_def)
  show "\<forall>t \<in> marks C X p. live_id C t" using top x(2) by (auto simp: marks_def)
  show "TransactionIdOlder (proc_xmin (allProcs (mem C) p)) (proc_xid (allProcs (mem C) p)) = minx (marks C X p)"
    unfolding x(1) id marks_def by (rule older_minx [OF assms(1)]) (use top x(2) in auto)
qed

subsection \<open>The scan\<close>

definition all_marks :: "conf \<Rightarrow> (nat \<Rightarrow> nat option) \<Rightarrow> (nat \<Rightarrow> bool) \<Rightarrow> nat list \<Rightarrow> nat set" where
  "all_marks C X P is = (\<Union>i \<in> {i \<in> set is. P (procs C ! i)}. marks C X (procs C ! i))"

lemma all_marks_simps [simp]:
  "all_marks C X P [] = {}"
  "all_marks C X P (i # is) = (if P (procs C ! i) then marks C X (procs C ! i) else {}) \<union> all_marks C X P is"
  by (auto simp: all_marks_def)

definition hz_is :: "nat set \<Rightarrow> nat set \<Rightarrow> nat set \<Rightarrow> ComputeXidHorizonsResult \<Rightarrow> bool" where
  "hz_is A B D h \<longleftrightarrow> oldest_considered_running h = minx A \<and> shared_oldest_nonremovable h = minx B \<and> data_oldest_nonremovable h = minx D"

lemma horizon_scan_ok:
  assumes C: "conf_ok C" and X: "xmins_ok C X" and "set is \<subseteq> {..<length (procs C)}"
    and "\<forall>t \<in> A \<union> B \<union> D. live_id C t" "finite (A \<union> B \<union> D)" and "hz_is A B D h"
  shows "\<exists>h'. horizon_scan False db (mem C) is h = Inr h'
    \<and> hz_is (A \<union> all_marks C X (\<lambda>_. True) is) (B \<union> all_marks C X (guards C) is) (D \<union> all_marks C X (guards_db C db) is) h'
    \<and> hz_latest_completed h' = hz_latest_completed h \<and> temp_oldest_nonremovable h' = temp_oldest_nonremovable h"
  using assms(3-)
proof (induction "is" arbitrary: A B D h)
  case (Cons i "is")
  let ?p = "procs C ! i"
  have i: "i < length (procs C)" "?p \<in> set (procs C)" using Cons.prems(1) by auto
  note b = pa_wf_bounds [OF conf_okD(1) [OF C] i(1)] and m = marks_live [OF C X i(2)]
  have mir: "hdr_xids (mem C) ! i = proc_xid (allProcs (mem C) ?p)" "hdr_statusFlags (mem C) ! i = proc_statusFlags (allProcs (mem C) ?p)"
    using b(6) by (simp_all add: mirrored_def)
  let ?M = "marks C X ?p"
  have fin: "finite A" "finite B" "finite D" using Cons.prems(3) by auto
  have lv: "\<forall>t \<in> A. live_id C t" "\<forall>t \<in> B. live_id C t" "\<forall>t \<in> D. live_id C t" using Cons.prems(2) by auto
  note old = older_minx [OF C fin(1) lv(1) m(1,2)] older_minx [OF C fin(2) lv(2) m(1,2)] older_minx [OF C fin(3) lv(3) m(1,2)]
  let ?B = "if guards C ?p then B \<union> ?M else B" and ?D = "if guards_db C db ?p then D \<union> ?M else D"
  let ?h = "h \<lparr> oldest_considered_running := minx (A \<union> ?M), shared_oldest_nonremovable := minx ?B, data_oldest_nonremovable := minx ?D \<rparr>"
  have hf: "h \<lparr> oldest_considered_running := minx A, shared_oldest_nonremovable := minx B, data_oldest_nonremovable := minx D \<rparr> = h"
    using Cons.prems(4) by (simp add: hz_is_def)
  have run: "horizon_scan False db (mem C) (i # is) h = horizon_scan False db (mem C) is ?h"
  proof (cases "?M = {}")
    case True
    then have "horizon_scan False db (mem C) (i # is) h = horizon_scan False db (mem C) is h"
      using b(1,5) m(3) mir by (simp add: Let_def TransactionIdIsValid_def)
    moreover have "?h = h" using True hf by simp
    ultimately show ?thesis by simp
  next
    case False
    then have v: "TransactionIdIsValid (minx ?M)" using minx_valid [OF m(1,2)] by simp
    have h: "oldest_considered_running h = minx A" "shared_oldest_nonremovable h = minx B" "data_oldest_nonremovable h = minx D"
      using Cons.prems(4) by (simp_all add: hz_is_def)
    have fl: "proc_statusFlags (allProcs (mem C) ?p) AND (PROC_IN_VACUUM OR PROC_IN_LOGICAL_DECODING) \<noteq> 0 \<longleftrightarrow> \<not> guards C ?p"
      by (simp add: guards_def or.commute)
    show ?thesis
    proof (cases "guards C ?p")
      case g: False
      then have "\<not> guards_db C db ?p" by (simp add: guards_db_def)
      then have e: "?h = h \<lparr> oldest_considered_running := minx (A \<union> ?M) \<rparr>" using g h by (cases h) simp
      show ?thesis unfolding e using b(1,5) m(3) mir v g h fl old by (simp add: Let_def)
    next
      case g: True
      show ?thesis
      proof (cases "guards_db C db ?p")
        case True
        then show ?thesis using b(1,5) m(3) mir v g h fl old by (simp add: Let_def guards_db_def)
      next
        case False
        have e: "?h = h \<lparr> oldest_considered_running := minx (A \<union> ?M), shared_oldest_nonremovable := minx (B \<union> ?M) \<rparr>"
          using g h False by (cases h) simp
        show ?thesis unfolding e using b(1,5) m(3) mir v g h fl old False by (simp add: Let_def guards_db_def)
      qed
    qed
  qed
  have "hz_is (A \<union> ?M) ?B ?D ?h" by (simp add: hz_is_def)
  moreover have "\<forall>t \<in> (A \<union> ?M) \<union> ?B \<union> ?D. live_id C t" using lv m(2) by auto
  moreover have "finite ((A \<union> ?M) \<union> ?B \<union> ?D)" using fin m(1) by simp
  moreover have "set is \<subseteq> {..<length (procs C)}" using Cons.prems(1) by simp
  ultimately obtain h' where h': "horizon_scan False db (mem C) is ?h = Inr h'"
    "hz_is ((A \<union> ?M) \<union> all_marks C X (\<lambda>_. True) is) (?B \<union> all_marks C X (guards C) is) (?D \<union> all_marks C X (guards_db C db) is) h'"
    "hz_latest_completed h' = hz_latest_completed ?h" "temp_oldest_nonremovable h' = temp_oldest_nonremovable ?h"
    using Cons.IH by blast
  have "A \<union> all_marks C X (\<lambda>_. True) (i # is) = (A \<union> ?M) \<union> all_marks C X (\<lambda>_. True) is"
    "B \<union> all_marks C X (guards C) (i # is) = ?B \<union> all_marks C X (guards C) is"
    "D \<union> all_marks C X (guards_db C db) (i # is) = ?D \<union> all_marks C X (guards_db C db) is" by auto
  then show ?case using h' run by simp
qed simp

subsection \<open>The horizons of a configuration\<close>

definition guarded :: "conf \<Rightarrow> (nat \<Rightarrow> nat option) \<Rightarrow> (nat \<Rightarrow> bool) \<Rightarrow> nat set" where
  "guarded C X P = insert (next_full (completed C)) (\<Union>p \<in> {p \<in> set (procs C). P p}. marks C X p)"

text \<open>The minima that the replication slots hold back.\<close>

definition slots_ok :: "conf \<Rightarrow> nat option \<Rightarrow> nat option \<Rightarrow> bool" where
  "slots_ok C sx sc \<longleftrightarrow> replication_slot_xmin (mem C) = minx (set_option sx) \<and> replication_slot_catalog_xmin (mem C) = minx (set_option sc)
     \<and> (\<forall>t \<in> set_option sx \<union> set_option sc. live_id C t)"

lemma next_live:
  assumes "conf_ok C"
  shows "live_id C (next_full (completed C))"
  using conf_okD(4) [OF assms] next_full_props [of "completed C"] next_full_least [of "completed C" "nxt C"]
  by (auto simp: live_id_def counters_ok_def)

lemma guarded_live:
  assumes "conf_ok C" "xmins_ok C X"
  shows "finite (guarded C X P)" "\<forall>t \<in> guarded C X P. live_id C t" "guarded C X P \<noteq> {}"
  using marks_live [OF assms] next_live [OF assms(1)] by (auto simp: guarded_def)

lemma guarded_all_marks: "insert (next_full (completed C)) (all_marks C X P [0..<length (procs C)]) = guarded C X P"
proof -
  have "(\<Union>i \<in> {i \<in> set [0..<length (procs C)]. P (procs C ! i)}. marks C X (procs C ! i)) = (\<Union>p \<in> {p \<in> set (procs C). P p}. marks C X p)"
    by (auto simp: in_set_conv_nth)
  then show ?thesis by (simp add: guarded_def all_marks_def)
qed

lemma guarded_mono: "(\<And>p. P p \<Longrightarrow> Q p) \<Longrightarrow> guarded C X P \<subseteq> guarded C X Q"
  by (auto simp: guarded_def)

definition horizons_are :: "conf \<Rightarrow> (nat \<Rightarrow> nat option) \<Rightarrow> nat set \<Rightarrow> nat set \<Rightarrow> nat \<Rightarrow> u32 \<Rightarrow> ComputeXidHorizonsResult \<Rightarrow> bool" where
  "horizons_are C X S T me db h \<longleftrightarrow>
     hz_latest_completed h = fxid_of (completed C)
   \<and> shared_oldest_nonremovable h = xid_of (Min (guarded C X (guards C) \<union> S \<union> T))
   \<and> data_oldest_nonremovable h = xid_of (Min (guarded C X (guards_db C db) \<union> S))
   \<and> catalog_oldest_nonremovable h = xid_of (Min (guarded C X (guards_db C db) \<union> S \<union> T))
   \<and> oldest_considered_running h = xid_of (Min (guarded C X (\<lambda>_. True) \<union> S \<union> T))
   \<and> temp_oldest_nonremovable h = xid_of (case xacts C me of None \<Rightarrow> next_full (completed C) | Some x \<Rightarrow> xt_top x)"

lemma ComputeXidHorizons_run:
  assumes C: "conf_ok C" and me: "me \<in> set (procs C)" and X: "xmins_ok C X" and sl: "slots_ok C sx sc" and env: "\<not> pe_recovery_in_progress env"
  obtains h where "ComputeXidHorizons env me (mem C) b = (Inr h, GlobalVisUpdateApply h b)"
    "horizons_are C X (set_option sx) (set_option sc) me (MyDatabaseId b) h"
proof -
  let ?n = "next_full (completed C)" and ?S = "set_option sx" and ?T = "set_option sc" and ?db = "MyDatabaseId b"
  let ?A = "guarded C X (\<lambda>_. True)" and ?B = "guarded C X (guards C)" and ?D = "guarded C X (guards_db C ?db)"
  let ?my = "proc_xid (allProcs (mem C) me)"
  let ?h0 = "\<lparr> hz_latest_completed = fxid_of (completed C), oldest_considered_running = xid_of ?n,
    shared_oldest_nonremovable = xid_of ?n, shared_oldest_nonremovable_raw = xid_of ?n,
    catalog_oldest_nonremovable = InvalidTransactionId, data_oldest_nonremovable = xid_of ?n,
    temp_oldest_nonremovable = (if TransactionIdIsValid ?my then ?my else xid_of ?n), slot_catalog_xmin = InvalidTransactionId \<rparr>"
  note l = conf_latest [OF C]
  have np: "numProcs (mem C) = length (procs C)" using conf_okD(1) [OF C] by (simp add: pa_wf_def)
  have h0: "hz_is {?n} {?n} {?n} ?h0" by (simp add: hz_is_def)
  have sub: "set [0..<length (procs C)] \<subseteq> {..<length (procs C)}" by auto
  from horizon_scan_ok [OF C X sub _ _ h0, of ?db] next_live [OF C] obtain h where
    h: "horizon_scan False ?db (mem C) [0..<length (procs C)] ?h0 = Inr h" "hz_is ?A ?B ?D h"
      "hz_latest_completed h = fxid_of (completed C)" "temp_oldest_nonremovable h = (if TransactionIdIsValid ?my then ?my else xid_of ?n)"
    by (auto simp: guarded_all_marks)
  have fin: "finite ?S" "finite ?T" by simp_all
  have lv: "\<forall>t \<in> ?S. live_id C t" "\<forall>t \<in> ?T. live_id C t" "\<forall>t \<in> ?S \<union> ?T. live_id C t" using sl by (auto simp: slots_ok_def)
  note gl = guarded_live [OF C X]
  have G: "finite (guarded C X P \<union> Y)" "\<forall>t \<in> guarded C X P \<union> Y. live_id C t" if "Y \<subseteq> ?S \<union> ?T" for P Y
    using gl that lv(3) finite_subset [OF that] by auto
  have old: "TransactionIdOlder (minx (guarded C X P \<union> Y)) (minx Z) = minx (guarded C X P \<union> Y \<union> Z)"
    if "Y \<subseteq> ?S \<union> ?T" "finite Z" "\<forall>t \<in> Z. live_id C t" for P Y Z
    by (rule older_minx [OF C G [OF that(1)] that(2,3)])
  have sx: "replication_slot_xmin (mem C) = minx ?S" "replication_slot_catalog_xmin (mem C) = minx ?T" using sl by (simp_all add: slots_ok_def)
  have hz: "oldest_considered_running h = minx ?A" "shared_oldest_nonremovable h = minx ?B" "data_oldest_nonremovable h = minx ?D"
    using h(2) by (simp_all add: hz_is_def)
  have sh: "TransactionIdOlder (TransactionIdOlder (minx ?B) (minx ?S)) (minx ?T) = minx (?B \<union> ?S \<union> ?T)"
    using old [of "{}" ?S] old [of ?S ?T] lv fin by simp
  have da: "TransactionIdOlder (minx ?D) (minx ?S) = minx (?D \<union> ?S)" using old [of "{}" ?S] lv fin by simp
  have ca: "TransactionIdOlder (minx (?D \<union> ?S)) (minx ?T) = minx (?D \<union> ?S \<union> ?T)" using old [of ?S ?T] lv fin by simp
  have ru: "TransactionIdOlder (TransactionIdOlder (TransactionIdOlder (minx ?A) (minx (?B \<union> ?S \<union> ?T))) (minx (?D \<union> ?S \<union> ?T))) (minx (?D \<union> ?S))
      = minx (?A \<union> ?S \<union> ?T)"
  proof -
    have A: "finite ?A" "\<forall>t \<in> ?A. live_id C t" using gl by auto
    have B: "finite (?B \<union> ?S \<union> ?T)" "\<forall>t \<in> ?B \<union> ?S \<union> ?T. live_id C t" using gl lv by auto
    have D: "finite (?D \<union> ?S \<union> ?T)" "\<forall>t \<in> ?D \<union> ?S \<union> ?T. live_id C t" "finite (?D \<union> ?S)" "\<forall>t \<in> ?D \<union> ?S. live_id C t" using gl lv by auto
    have AB: "finite (?A \<union> (?B \<union> ?S \<union> ?T))" "\<forall>t \<in> ?A \<union> (?B \<union> ?S \<union> ?T). live_id C t" using A B by auto
    have ABD: "finite (?A \<union> (?B \<union> ?S \<union> ?T) \<union> (?D \<union> ?S \<union> ?T))" "\<forall>t \<in> ?A \<union> (?B \<union> ?S \<union> ?T) \<union> (?D \<union> ?S \<union> ?T). live_id C t" using AB D by auto
    have "?B \<subseteq> ?A" "?D \<subseteq> ?A" by (auto intro!: guarded_mono)
    then have "?A \<union> (?B \<union> ?S \<union> ?T) \<union> (?D \<union> ?S \<union> ?T) \<union> (?D \<union> ?S) = ?A \<union> ?S \<union> ?T" by blast
    then show ?thesis
      unfolding older_minx [OF C A B] older_minx [OF C AB D(1,2)] older_minx [OF C ABD D(3,4)] by simp
  qed
  have ne: "minx (guarded C X P \<union> Y) = xid_of (Min (guarded C X P \<union> Y))" for P Y using gl(3) by (simp add: minx_def)
  have ne2: "minx (guarded C X P \<union> Y \<union> Z) = xid_of (Min (guarded C X P \<union> Y \<union> Z))" for P Y Z using gl(3) by (simp add: minx_def)
  have tm: "(if TransactionIdIsValid ?my then ?my else xid_of ?n) = xid_of (case xacts C me of None \<Rightarrow> ?n | Some x \<Rightarrow> xt_top x)"
    using conf_slot(4) [OF C me] conf_xid_valid [OF C, of me] by (simp add: TransactionIdIsValid_def split: option.splits)
  let ?h = "h \<lparr> shared_oldest_nonremovable_raw := minx ?B, slot_catalog_xmin := minx ?T, shared_oldest_nonremovable := minx (?B \<union> ?S \<union> ?T),
    data_oldest_nonremovable := minx (?D \<union> ?S), catalog_oldest_nonremovable := minx (?D \<union> ?S \<union> ?T),
    oldest_considered_running := minx (?A \<union> ?S \<union> ?T) \<rparr>"
  have v: "TransactionIdIsValid (xid_of (completed C))" using l(3) by (simp add: TransactionIdIsValid_def InvalidTransactionId_def)
  have "ComputeXidHorizons env me (mem C) b = (Inr ?h, GlobalVisUpdateApply ?h b)"
    unfolding ComputeXidHorizons_def Let_def l(1) fxid_of_xid xid_of_next tm np using env h(1) [unfolded tm] v
    by (simp add: hz sx sh da ca ru)
  moreover have "horizons_are C X ?S ?T me ?db ?h"
    unfolding horizons_are_def using h(3,4) tm ne ne2 by simp
  ultimately show ?thesis by (rule that)
qed


text \<open>The example with a slot that holds back the catalogs.\<close>

definition ex_slots :: conf where
  "ex_slots = ex_conf \<lparr> mem := ProcArraySetReplicationSlotXmin 0 100 (mem ex_conf) \<rparr>"

lemma ex_slots_reach: "conf_reach ex_slots"
proof -
  have "\<forall>p. proc_ok (allProcs (mem ex_conf) p)" using conf_okD(1) [OF conf_reach_ok [OF ex_conf_reach]] by (simp add: pa_wf_def)
  then have "quiet (procs ex_conf) (mem ex_conf) (ProcArraySetReplicationSlotXmin 0 100 (mem ex_conf))"
    by (simp add: quiet_def same_core_def ProcArraySetReplicationSlotXmin_def)
  then show ?thesis
    unfolding ex_slots_def by (intro conf_reach.step [OF ex_conf_reach] conf_step.assign assign_step.quiet_step)
qed

lemma ex_slots_ok: "xmins_ok ex_slots (\<lambda>_. None)" "slots_ok ex_slots None (Some 100)"
  by (simp_all add: xmins_ok_def slots_ok_def ex_slots_def ProcArraySetReplicationSlotXmin_def ex_conf_mem live_id_def ex_conf_fields
      normal_full_def InvalidTransactionId_def xid_of_def)

lemma ex_slots_fields: "procs ex_slots = [0, 1]" "completed ex_slots = 102" "xacts ex_slots = (\<lambda>_. None)(1 \<mapsto> \<lparr> xt_top = 101, xt_subs = {} \<rparr>)"
  "guards ex_slots p" "guards_db ex_slots 0 p"
  by (simp_all add: ex_slots_def ex_conf_fields guards_def guards_db_def ProcArraySetReplicationSlotXmin_def ex_conf_mem)


subsection \<open>Testing against remembered bounds\<close>

fun horizon_num :: "conf \<Rightarrow> (nat \<Rightarrow> nat option) \<Rightarrow> nat set \<Rightarrow> nat set \<Rightarrow> nat \<Rightarrow> u32 \<Rightarrow> GlobalVisHorizonKind \<Rightarrow> nat" where
  "horizon_num C X S T me db Shared = Min (guarded C X (guards C) \<union> S \<union> T)"
| "horizon_num C X S T me db Catalog = Min (guarded C X (guards_db C db) \<union> S \<union> T)"
| "horizon_num C X S T me db Data = Min (guarded C X (guards_db C db) \<union> S)"
| "horizon_num C X S T me db Temp = (case xacts C me of None \<Rightarrow> next_full (completed C) | Some x \<Rightarrow> xt_top x)"

lemma horizon_of_num: "horizons_are C X S T me db h \<Longrightarrow> horizon_of kind h = xid_of (horizon_num C X S T me db kind)"
  by (cases kind) (simp_all add: horizons_are_def)

lemma horizon_live:
  assumes C: "conf_ok C" and X: "xmins_ok C X" and S: "finite S" "\<forall>t \<in> S. live_id C t" "finite T" "\<forall>t \<in> T. live_id C t"
  shows "live_id C (horizon_num C X S T me db kind)"
proof -
  note g = guarded_live [OF C X]
  have m: "live_id C (Min (guarded C X P \<union> Y))" if "finite Y" "\<forall>t \<in> Y. live_id C t" for P Y
    using Min_in [of "guarded C X P \<union> Y"] g that by blast
  have t: "live_id C (xt_top x)" if "xacts C me = Some x" for x
    using conf_xact(3) [OF C that] by (simp add: live_id_def xact_ok_def tree_def)
  show ?thesis
    using m [of "S \<union> T"] m [of S] S t next_live [OF C] by (cases kind) (auto simp: Un_assoc split: option.splits)
qed

text \<open>A snapshot that is being taken, or that has been published, is not overtaken by a horizon.\<close>

lemma horizon_le_published:
  assumes C: "conf_ok C" and X: "xmins_ok C X" and S: "finite S" "finite T" and q: "q \<in> set (procs C)" "guards_db C db q"
    and t: "t \<in> marks C X q" and kind: "kind \<noteq> Temp"
  shows "horizon_num C X S T me db kind \<le> t"
proof -
  have "t \<in> guarded C X (guards_db C db)" using q t by (auto simp: guarded_def)
  moreover have "guarded C X (guards_db C db) \<subseteq> guarded C X (guards C)" by (rule guarded_mono) (simp add: guards_db_def)
  ultimately show ?thesis
    using kind guarded_live(1) [OF C X] S by (cases kind) (auto intro!: Min_le)
qed

lemma Newer_of:
  assumes "normal_full a" "normal_full b" "a < 2 ^ 64" "b < 2 ^ 64"
  shows "FullTransactionIdNewer (fxid_of a) (fxid_of b) = fxid_of (max a b)"
proof -
  have "fxid_is_valid (fxid_of a)" "fxid_is_valid (fxid_of b)"
    using xid_of_valid [OF assms(1)] xid_of_valid [OF assms(2)] by (simp_all add: fxid_is_valid_def InvalidTransactionId_def)
  then show ?thesis using fxid_of_less [OF assms(4,3)] by (auto simp: FullTransactionIdNewer_def max_def)
qed

text \<open>The bounds a backend remembers are sound if nothing below the lower one is needed.\<close>

definition vis_sound :: "conf \<Rightarrow> nat \<Rightarrow> GlobalVisState \<Rightarrow> bool" where
  "vis_sound C hz v \<longleftrightarrow> (\<exists>k d. maybe_needed v = fxid_of k \<and> definitely_needed v = fxid_of d \<and> k \<le> hz \<and> live_id C d)"

lemma vis_apply_sound:
  assumes C: "conf_ok C" and hz: "live_id C hz" and v: "vis_sound C x v"
  shows "vis_sound C hz (vis_apply (fxid_of (completed C)) (xid_of hz) temp v)"
    "maybe_needed (vis_apply (fxid_of (completed C)) (xid_of hz) temp v) = fxid_of hz"
    "definitely_needed v = fxid_of d \<Longrightarrow> live_id C d \<Longrightarrow> \<not> temp \<Longrightarrow> definitely_needed (vis_apply (fxid_of (completed C)) (xid_of hz) temp v) = fxid_of (max hz d)"
proof -
  note K = conf_okD(4) [OF C, unfolded counters_ok_def] and w = counters_window [OF conf_okD(4) [OF C]]
  have b: "t < 2 ^ 64" if "live_id C t" for t using that K by (simp add: live_id_def)
  have "near hz (completed C)" using hz w K by (auto simp: near_def live_id_def)
  then have rel: "FullXidRelativeTo (fxid_of (completed C)) (xid_of hz) = fxid_of hz" by (rule fxid_of_relative)
  obtain k d where d: "definitely_needed v = fxid_of d" "live_id C d" using v by (auto simp: vis_sound_def)
  have new: "FullTransactionIdNewer (fxid_of hz) (fxid_of d) = fxid_of (max hz d)" if "live_id C d" for d
    using that hz b by (intro Newer_of) (auto simp: live_id_def)
  show m: "maybe_needed (vis_apply (fxid_of (completed C)) (xid_of hz) temp v) = fxid_of hz" by (simp add: vis_apply_def rel Let_def)
  show dn: "definitely_needed (vis_apply (fxid_of (completed C)) (xid_of hz) temp v) = fxid_of (max hz d)"
    if "definitely_needed v = fxid_of d" "live_id C d" "\<not> temp" for d
    using that new [OF that(2)] by (simp add: vis_apply_def rel Let_def)
  show "vis_sound C hz (vis_apply (fxid_of (completed C)) (xid_of hz) temp v)"
  proof (cases temp)
    case True
    then show ?thesis using m hz by (auto simp: vis_sound_def vis_apply_def rel Let_def)
  next
    case False
    have "live_id C (max hz d)" using hz d(2) by (simp add: max_def)
    then show ?thesis using m dn [OF d False] by (auto simp: vis_sound_def)
  qed
qed

lemma vis_cell_update:
  "vis_state_cell kind (GlobalVisUpdateApply h b) = vis_apply (hz_latest_completed h) (horizon_of kind h) (kind = Temp) (vis_state_cell kind b)"
  by (cases kind) (simp_all add: GlobalVisUpdateApply_def)

text \<open>Between the two bounds, when they are due for an update, the exact horizon decides.\<close>

lemma removable_after_update:
  assumes C: "conf_ok C" and me: "me \<in> set (procs C)" and X: "xmins_ok C X" and sl: "slots_ok C sx sc" and env: "\<not> pe_recovery_in_progress env"
    and hz: "hz = horizon_num C X (set_option sx) (set_option sc) me (MyDatabaseId b) kind" and f: "live_id C f"
    and v: "maybe_needed (vis_state_cell kind b) = fxid_of k" "definitely_needed (vis_state_cell kind b) = fxid_of d" "k \<le> hz" "live_id C d"
      "kind = Temp \<longrightarrow> k = d"
    and b: "k \<le> f" "f < d" "GlobalVisTestShouldUpdate (vis_state_cell kind b) b" and hl: "live_id C hz"
  shows "\<exists>b'. GlobalVisTestIsRemovableFullXid env me kind (fxid_of f) (mem C) b = (Inr (f < hz), b') \<and> vis_sound C hz (vis_state_cell kind b')"
proof -
  let ?v = "vis_state_cell kind b"
  note K = conf_okD(4) [OF C, unfolded counters_ok_def]
  have b64: "t < 2 ^ 64" if "live_id C t" for t using that K by (simp add: live_id_def)
  have k64: "k < 2 ^ 64" using b64 [OF hl] v(3) by simp
  note less = fxid_of_less [OF b64 [OF f] k64] fxid_of_less [OF b64 [OF f] b64 [OF v(4)]]
  have vs: "vis_sound C hz ?v" using v(1-4) by (auto simp: vis_sound_def)
  from ComputeXidHorizons_run [OF C me X sl env] obtain h where
    h: "ComputeXidHorizons env me (mem C) b = (Inr h, GlobalVisUpdateApply h b)" and
    ha: "horizons_are C X (set_option sx) (set_option sc) me (MyDatabaseId b) h" .
  let ?w = "vis_state_cell kind (GlobalVisUpdateApply h b)"
  have "kind \<noteq> Temp" using v(5) b by auto
  then have w: "?w = vis_apply (fxid_of (completed C)) (xid_of hz) False ?v"
    using horizon_of_num [OF ha, of kind] ha hz by (simp add: vis_cell_update horizons_are_def)
  note va = vis_apply_sound [where temp = False, OF C hl vs]
  have wd: "definitely_needed ?w = fxid_of (max hz d)" "maybe_needed ?w = fxid_of hz" "vis_sound C hz ?w" using va(1,2) va(3) [OF v(2,4)] w by simp_all
  have md: "max hz d < 2 ^ 64" using b64 [OF hl] b64 [OF v(4)] by simp
  have "GlobalVisTestIsRemovableFullXid env me kind (fxid_of f) (mem C) b = (Inr (f < hz), GlobalVisUpdateApply h b)"
    using b less v(1,2) h wd fxid_of_less [OF b64 [OF f] b64 [OF hl]] fxid_of_less [OF b64 [OF f] md]
    by (simp add: GlobalVisTestIsRemovableFullXid_def Let_def not_less [symmetric] bindS_def)
  then show ?thesis using wd(3) by blast
qed

text \<open>
  C15: the removability test is sound and does not fail. A backend asks whether the id \<open>f\<close> is older than anything that may still be needed in relations of one
  kind, with bounds it remembers that are sound for the configuration. It gets an answer; if the answer is yes, \<open>f\<close> precedes the exact horizon of the
  configuration, whether the remembered bound or a new computation decided it; the remembered bounds are sound afterwards, and an id between the two bounds is
  compared with the exact horizon when none has been computed yet.
\<close>

theorem GlobalVisTestIsRemovableXid_sound:
  assumes reach: "conf_reach C" and me: "me \<in> set (procs C)" and X: "xmins_ok C X" and sl: "slots_ok C sx sc" and env: "\<not> pe_recovery_in_progress env"
    and hz: "hz = horizon_num C X (set_option sx) (set_option sc) me (MyDatabaseId b) kind" and f: "live_id C f"
    and v: "maybe_needed (vis_state_cell kind b) = fxid_of k" "definitely_needed (vis_state_cell kind b) = fxid_of d" "k \<le> hz" "live_id C d"
      "kind = Temp \<longrightarrow> k = d"
  shows "\<exists>r b'. GlobalVisTestIsRemovableXid env me kind (xid_of f) (mem C) b = (Inr r, b') \<and> (r \<longrightarrow> f < hz) \<and> vis_sound C hz (vis_state_cell kind b')
    \<and> (k \<le> f \<and> f < d \<and> COMPUTE_XID_HORIZONS_RESULT_LAST_XMIN b = InvalidTransactionId \<longrightarrow> r = (f < hz))"
proof -
  have C: "conf_ok C" by (rule conf_reach_ok [OF reach])
  note K = conf_okD(4) [OF C, unfolded counters_ok_def] and w = counters_window [OF conf_okD(4) [OF C]]
  let ?v = "vis_state_cell kind b"
  have S: "finite (set_option sx)" "\<forall>t \<in> set_option sx. live_id C t" "finite (set_option sc)" "\<forall>t \<in> set_option sc. live_id C t"
    using sl by (auto simp: slots_ok_def)
  have hl: "live_id C hz" unfolding hz by (rule horizon_live [OF C X S])
  have b64: "t < 2 ^ 64" if "live_id C t" for t using that K by (simp add: live_id_def)
  have k64: "k < 2 ^ 64" using b64 [OF hl] v(3) by simp
  note less = fxid_of_less [OF b64 [OF f] k64] fxid_of_less [OF b64 [OF f] b64 [OF v(4)]]
  have rel: "FullXidRelativeTo (fxid_of d) (xid_of f) = fxid_of f" by (rule fxid_of_relative [OF live_near [OF C f v(4)]])
  have valid: "TransactionIdIsValid (xid_of f)" "TransactionIdIsValid (xid_of d)"
    using xid_of_valid f v(4) by (simp_all add: TransactionIdIsValid_def InvalidTransactionId_def live_id_def)
  have run: "GlobalVisTestIsRemovableXid env me kind (xid_of f) (mem C) b = GlobalVisTestIsRemovableFullXid env me kind (fxid_of f) (mem C) b"
    using v(2) valid rel by (simp add: GlobalVisTestIsRemovableXid_def Let_def)
  have vs: "vis_sound C hz ?v" using v(1-4) by (auto simp: vis_sound_def)
  consider "f < k" | "d \<le> f" "k \<le> f" | "k \<le> f" "f < d" "\<not> GlobalVisTestShouldUpdate ?v b" | "k \<le> f" "f < d" "GlobalVisTestShouldUpdate ?v b" by linarith
  then show ?thesis
  proof cases
    case 1
    then show ?thesis
      using run less v(1,3) vs by (intro exI [of _ True] exI [of _ b]) (simp add: GlobalVisTestIsRemovableFullXid_def Let_def)
  next
    case 2
    then show ?thesis
      using run less v(1,2) vs by (intro exI [of _ False] exI [of _ b]) (simp add: GlobalVisTestIsRemovableFullXid_def Let_def not_less [symmetric])
  next
    case 3
    then have "COMPUTE_XID_HORIZONS_RESULT_LAST_XMIN b \<noteq> InvalidTransactionId" by (auto simp: GlobalVisTestShouldUpdate_def TransactionIdIsValid_def)
    then show ?thesis
      using 3 run less v(1,2) vs by (intro exI [of _ False] exI [of _ b]) (simp add: GlobalVisTestIsRemovableFullXid_def Let_def not_less [symmetric])
  next
    case 4
    from removable_after_update [OF C me X sl env hz f v 4 hl] run show ?thesis by auto
  qed
qed

theorem GlobalVisTestIsRemovableXid_sound_witness:
  "\<exists>b'. GlobalVisTestIsRemovableXid ex_env 0 Data 100 (mem ex_slots)
     (ex_backend \<lparr> GLOBAL_VIS_DATA_RELS := \<lparr> definitely_needed = fxid_of 103, maybe_needed = fxid_of 100 \<rparr> \<rparr>) = (Inr True, b')
   \<and> (\<exists>b'. GlobalVisTestIsRemovableXid ex_env 0 Data 102 (mem ex_slots)
     (ex_backend \<lparr> GLOBAL_VIS_DATA_RELS := \<lparr> definitely_needed = fxid_of 103, maybe_needed = fxid_of 100 \<rparr> \<rparr>) = (Inr False, b'))"
proof -
  let ?b = "ex_backend \<lparr> GLOBAL_VIS_DATA_RELS := \<lparr> definitely_needed = fxid_of 103, maybe_needed = fxid_of 100 \<rparr> \<rparr>"
  have n: "next_full 102 = 103" by (simp add: next_full_def)
  have g: "guarded ex_slots (\<lambda>_. None) P = (if P 1 then {103, 101} else {103})" for P
    by (auto simp: guarded_def marks_def ex_slots_fields n)
  have hz: "101 = horizon_num ex_slots (\<lambda>_. None) (set_option None) (set_option (Some 100)) 0 (MyDatabaseId ?b) Data"
    by (simp add: g ex_slots_fields ex_backend_def Let_def)
  have l: "live_id ex_slots f" if "100 \<le> f" "f \<le> 103" for f
    using that by (auto simp: live_id_def ex_slots_def ex_conf_fields normal_full_def)
  have "\<exists>b'. GlobalVisTestIsRemovableXid ex_env 0 Data (xid_of f) (mem ex_slots) ?b = (Inr (f < 101), b')" if "100 \<le> f" "f < 103" for f
  proof -
    have "COMPUTE_XID_HORIZONS_RESULT_LAST_XMIN ?b = InvalidTransactionId" "\<not> pe_recovery_in_progress ex_env" "0 \<in> set (procs ex_slots)"
      "maybe_needed (vis_state_cell Data ?b) = fxid_of 100" "definitely_needed (vis_state_cell Data ?b) = fxid_of 103"
      by (simp_all add: ex_slots_fields ex_env_def ex_backend_def Let_def InvalidTransactionId_def)
    with GlobalVisTestIsRemovableXid_sound [OF ex_slots_reach _ ex_slots_ok _ hz l, of ex_env f 100 103] l [of 103] that show ?thesis
      by auto
  qed
  from this [of 100] this [of 102] show ?thesis by (simp add: xid_of_def)
qed

end
