(* ===== verification/ProcGroup.thy ===== *)
theory ProcGroup
  imports ProcProgress
begin

section \<open>Ending transactions as a group\<close>

text \<open>
  Processes that cannot get the lock at once link themselves into a list through \<^verbatim>\<open>procArrayGroupNext\<close>. The leader ends the transactions of all processes of
  the list and then wakes them; both loops follow the links.
\<close>

primrec linked :: "shmem \<Rightarrow> nat option \<Rightarrow> nat list \<Rightarrow> bool" where
  "linked s nx [] \<longleftrightarrow> nx = None"
| "linked s nx (p # ps) \<longleftrightarrow> nx = Some p \<and> linked s (procArrayGroupNext (allProcs s p)) ps"

lemma linked_cong:
  assumes "\<And>p. p \<in> set ps \<Longrightarrow> procArrayGroupNext (allProcs t p) = procArrayGroupNext (allProcs s p)"
  shows "linked t nx ps = linked s nx ps"
  using assms by (induction ps arbitrary: nx) auto

lemma linked_unique: "linked s nx ps \<Longrightarrow> linked s nx qs \<Longrightarrow> ps = qs"
proof (induction ps arbitrary: nx qs)
  case Nil
  then show ?case by (cases qs) auto
next
  case (Cons p ps)
  then show ?case by (cases qs) auto
qed

lemma linked_suffix: "linked s nx (ps @ p # qs) \<Longrightarrow> linked s (Some p) (p # qs)"
  by (induction ps arbitrary: nx) auto

lemma linked_distinct: "linked s nx ps \<Longrightarrow> distinct ps"
proof (induction ps arbitrary: nx)
  case (Cons p ps)
  then have l: "linked s (Some p) (p # ps)" "distinct ps" by auto
  have "p \<notin> set ps"
  proof
    assume "p \<in> set ps"
    then obtain as bs where ps: "ps = as @ p # bs" by (auto simp: in_set_conv_decomp)
    then have "linked s (Some p) (p # bs)" using l(1) linked_suffix [of s "Some p" "p # as" p bs] by simp
    from linked_unique [OF this l(1)] ps have "length (p # bs) = length (p # as @ p # bs)" by simp
    then show False by simp
  qed
  with l(2) show ?case by simp
qed simp

text \<open>Every member of the list has a transaction, with the id its commit record carries.\<close>

definition members_ok :: "conf \<Rightarrow> nat list \<Rightarrow> bool" where
  "members_ok C ps \<longleftrightarrow> (\<forall>p \<in> set ps. \<exists>x. xacts C p = Some x \<and> procArrayGroupMemberXid (allProcs (mem C) p) = xid_of (Max (tree x)))"

definition same_group :: "shmem \<Rightarrow> shmem \<Rightarrow> bool" where
  "same_group s t \<longleftrightarrow> procArrayGroupFirst t = procArrayGroupFirst s
     \<and> (\<forall>p. procArrayGroupNext (allProcs t p) = procArrayGroupNext (allProcs s p)
          \<and> procArrayGroupMember (allProcs t p) = procArrayGroupMember (allProcs s p)
          \<and> procArrayGroupMemberXid (allProcs t p) = procArrayGroupMemberXid (allProcs s p))"

lemma end_same_group:
  assumes C: "conf_reach C" and x: "xacts C p = Some x" and k: "ends C + 1 < 2 ^ 64"
  shows "ProcArrayEndTransactionInternal p (xid_of (Max (tree x))) (mem C) = (Inr (), mem (end_xact p C))" "same_group (mem C) (mem (end_xact p C))"
proof -
  from finish_put [OF conf_reach_ok [OF C] x k] obtain flags where
    run: "ProcArrayEndTransactionInternal p (xid_of (Max (tree x))) (mem C) = (Inr (), (put_proc p (ended flags (allProcs (mem C) p)) (mem C))
       \<lparr> latestCompletedXid := word_of_nat (max (completed C) (Max (tree x))), xactCompletionCount := xactCompletionCount (mem C) + 1 \<rparr>)" .
  then show "ProcArrayEndTransactionInternal p (xid_of (Max (tree x))) (mem C) = (Inr (), mem (end_xact p C))"
    by (simp add: end_xact_def x Let_def)
  show "same_group (mem C) (mem (end_xact p C))"
    by (simp add: end_xact_def x Let_def run same_group_def put_proc_def ended_def)
qed

lemma group_clear_runs:
  assumes "conf_reach C" "linked (mem C) nx ps" "members_ok C ps" "ends C + length ps < 2 ^ 64"
  shows "\<exists>C'. iterate group_clear_step (nx, mem C) = Some (Inr (), mem C') \<and> conf_reach C' \<and> same_group (mem C) (mem C')
    \<and> xacts C' = (\<lambda>q. if q \<in> set ps then None else xacts C q) \<and> ends C' = ends C + length ps \<and> procs C' = procs C"
  using assms
proof (induction ps arbitrary: C nx)
  case Nil
  have "iterate group_clear_step (nx, mem C) = Some (Inr (), mem C)" using Nil by (subst iterate.simps) (simp add: group_clear_step_def)
  then show ?case using Nil by (intro exI [of _ C]) (simp add: same_group_def)
next
  case (Cons p ps)
  from Cons.prems(3) obtain x where x: "xacts C p = Some x" "procArrayGroupMemberXid (allProcs (mem C) p) = xid_of (Max (tree x))"
    by (auto simp: members_ok_def)
  let ?D = "end_xact p C"
  have k: "ends C + 1 < 2 ^ 64" using Cons.prems(4) by simp
  note e = end_same_group [OF Cons.prems(1) x(1) k]
  have D: "conf_reach ?D" by (rule end_reach [OF Cons.prems(1) x(1) k])
  have f: "ends ?D = ends C + 1" "xacts ?D = (xacts C)(p := None)" "procs ?D = procs C" by (simp_all add: end_xact_def Let_def)
  have dp: "p \<notin> set ps" using linked_distinct [OF Cons.prems(2)] by simp
  have nx: "nx = Some p" "linked (mem C) (procArrayGroupNext (allProcs (mem C) p)) ps" using Cons.prems(2) by simp_all
  have l: "linked (mem ?D) (procArrayGroupNext (allProcs (mem ?D) p)) ps"
    using nx(2) linked_cong [of ps "mem ?D" "mem C"] e(2) by (simp add: same_group_def)
  have m: "members_ok ?D ps" using Cons.prems(3) dp f(2) e(2) by (auto simp: members_ok_def same_group_def)
  have "p < length (hdr_xids (mem C))"
    using conf_xact(1) [OF conf_reach_ok [OF Cons.prems(1)] x(1)] conf_okD(1) [OF conf_reach_ok [OF Cons.prems(1)]] by (auto simp: pa_wf_def)
  then have "iterate group_clear_step (nx, mem C) = iterate group_clear_step (procArrayGroupNext (allProcs (mem ?D) p), mem ?D)"
    using nx(1) x(2) e(1) by (subst iterate.simps) (simp add: group_clear_step_def)
  with Cons.IH [OF D l m] Cons.prems(4) f show ?case
    by (auto simp: same_group_def fun_eq_iff) (use e(2) in \<open>auto simp: same_group_def\<close>)
qed

text \<open>Waking changes only the links and the marks of the members.\<close>

definition group_woken :: "nat set \<Rightarrow> shmem \<Rightarrow> shmem" where
  "group_woken P s = s \<lparr> allProcs := (\<lambda>p. if p \<in> P then (allProcs s p) \<lparr> procArrayGroupMember := False, procArrayGroupNext := None \<rparr> else allProcs s p) \<rparr>"

lemma group_wake_runs:
  assumes "linked s nx ps" "\<forall>p \<in> set ps. p < length (hdr_xids s)"
  shows "iterate group_wake_step (nx, s) = Some (Inr (), group_woken (set ps) s)"
  using assms
proof (induction ps arbitrary: s nx)
  case Nil
  have "group_woken {} s = s" by (simp add: group_woken_def)
  then show ?case using Nil by (simp add: group_wake_step_def)
next
  case (Cons p ps)
  let ?t = "group_woken {p} s"
  have dp: "p \<notin> set ps" using linked_distinct [OF Cons.prems(1)] by simp
  have eq: "procArrayGroupNext (allProcs ?t q) = procArrayGroupNext (allProcs s q)" if "q \<in> set ps" for q using that dp by (auto simp: group_woken_def)
  have "set_proc p (procArrayGroupNext_update (\<lambda>_. None) \<circ> procArrayGroupMember_update (\<lambda>_. False)) s = ?t"
    by (simp add: group_woken_def fun_upd_def cong: if_cong)
  then have "iterate group_wake_step (nx, s) = iterate group_wake_step (procArrayGroupNext (allProcs s p), ?t)"
    using Cons.prems by (intro iterate_step) (simp add: group_wake_step_def)
  also have "\<dots> = Some (Inr (), group_woken (set ps) ?t)"
  proof (rule Cons.IH)
    show "linked ?t (procArrayGroupNext (allProcs s p)) ps"
      using Cons.prems(1) linked_cong [of ps ?t s, OF eq] by simp
    show "\<forall>q \<in> set ps. q < length (hdr_xids ?t)" using Cons.prems(2) by (simp add: group_woken_def)
  qed
  also have "group_woken (set ps) ?t = group_woken (set (p # ps)) s" using dp by (auto simp: group_woken_def fun_eq_iff)
  finally show ?case .
qed

lemma quiet_reach: "conf_reach C \<Longrightarrow> quiet (procs C) (mem C) s \<Longrightarrow> conf_reach (C \<lparr> mem := s \<rparr>)"
  by (blast intro: conf_reach.step conf_step.assign assign_step.quiet_step)

lemma quiet_group:
  assumes "conf_reach C"
  shows "quiet (procs C) (mem C) ((mem C) \<lparr> procArrayGroupFirst := g \<rparr>)" "quiet (procs C) (mem C) (group_woken P (mem C))"
    "quiet (procs C) (mem C) (snd (group_join p xid (mem C)))"
proof -
  have "\<forall>p. proc_ok (allProcs (mem C) p)" using conf_okD(1) [OF conf_reach_ok [OF assms]] by (simp add: pa_wf_def)
  then show "quiet (procs C) (mem C) ((mem C) \<lparr> procArrayGroupFirst := g \<rparr>)" "quiet (procs C) (mem C) (group_woken P (mem C))"
    "quiet (procs C) (mem C) (snd (group_join p xid (mem C)))"
    by (auto simp: quiet_def same_core_def group_woken_def proc_ok_def group_join_def)
qed

lemma group_lead_runs:
  assumes C: "conf_reach C" and l: "linked (mem C) (procArrayGroupFirst (mem C)) ps" and m: "members_ok C ps" and k: "ends C + length ps < 2 ^ 64"
  obtains C' where "group_lead (mem C) = Some (Inr (), mem C')" "conf_reach C'" "xacts C' = (\<lambda>q. if q \<in> set ps then None else xacts C q)"
    "ends C' = ends C + length ps" "procArrayGroupFirst (mem C') = None"
    "\<forall>p \<in> set ps. procArrayGroupNext (allProcs (mem C') p) = None \<and> \<not> procArrayGroupMember (allProcs (mem C') p)"
proof -
  let ?g = "procArrayGroupFirst (mem C)" and ?D = "C \<lparr> mem := (mem C) \<lparr> procArrayGroupFirst := None \<rparr> \<rparr>"
  have D: "conf_reach ?D" by (rule quiet_reach [OF C quiet_group(1) [OF C]])
  have lD: "linked (mem ?D) ?g ps" using l linked_cong [of ps "mem ?D" "mem C" ?g] by simp
  have mD: "members_ok ?D ps" using m by (simp add: members_ok_def)
  have kD: "ends ?D + length ps < 2 ^ 64" and xD: "xacts ?D = xacts C" "ends ?D = ends C" "procs ?D = procs C" using k by simp_all
  from group_clear_runs [OF D lD mD kD, unfolded xD] obtain E where
    E: "iterate group_clear_step (?g, mem ?D) = Some (Inr (), mem E)" "conf_reach E" "same_group (mem ?D) (mem E)"
      "xacts E = (\<lambda>q. if q \<in> set ps then None else xacts C q)" "ends E = ends C + length ps" "procs E = procs C" by blast
  have lE: "linked (mem E) ?g ps" using lD linked_cong [of ps "mem E" "mem ?D" ?g] E(3) by (simp add: same_group_def)
  have "\<forall>p \<in> set ps. p < length (hdr_xids (mem E))"
  proof
    fix p assume "p \<in> set ps"
    then have "p \<in> set (procs E)" using m conf_xact(1) [OF conf_reach_ok [OF C]] E(6) by (auto simp: members_ok_def)
    then show "p < length (hdr_xids (mem E))" using conf_okD(1) [OF conf_reach_ok [OF E(2)]] by (simp add: pa_wf_def)
  qed
  note wk = group_wake_runs [OF lE this]
  let ?F = "E \<lparr> mem := group_woken (set ps) (mem E) \<rparr>"
  show ?thesis
  proof (rule that [of ?F])
    show "group_lead (mem C) = Some (Inr (), mem ?F)" using E(1) wk by (simp add: group_lead_def Let_def bindP_def)
    show "conf_reach ?F" by (rule quiet_reach [OF E(2) quiet_group(2) [OF E(2)]])
    show "procArrayGroupFirst (mem ?F) = None" using E(3) by (simp add: same_group_def group_woken_def)
  qed (simp_all add: E group_woken_def)
qed

text \<open>
  C11: group commit ends every waiting transaction and returns. A process that does not get the lock becomes leader if nobody is waiting yet; \<open>D\<close> is the
  configuration in which it gets the lock, with the processes \<open>ps\<close> linked behind it. Both loops over the list end, every transaction of the list has ended,
  all other processes keep theirs, the completion count has gone up once for each, the list is empty and every member is off it and can go on, and the configuration
  is again a reachable one.
\<close>

theorem ProcArrayEndTransaction_group:
  assumes "conf_reach C" and x: "xacts C p = Some x" and first: "procArrayGroupFirst (mem C) = None"
    and others: "others (snd (group_join p (xid_of (Max (tree x))) (mem C))) = mem D" and D: "conf_reach D"
    and l: "linked (mem D) (procArrayGroupFirst (mem D)) ps" "members_ok D ps" "ends D + length ps < 2 ^ 64"
  shows "\<exists>E. ProcArrayEndTransaction p (xid_of (Max (tree x))) False others (mem C) = Some (Inr (), mem E) \<and> conf_reach E
    \<and> xacts E = (\<lambda>q. if q \<in> set ps then None else xacts D q) \<and> ends E = ends D + length ps \<and> procArrayGroupFirst (mem E) = None
    \<and> (\<forall>q \<in> set ps. procArrayGroupNext (allProcs (mem E) q) = None \<and> \<not> procArrayGroupMember (allProcs (mem E) q))"
proof -
  note C = conf_reach_ok [OF assms(1)]
  have v: "TransactionIdIsValid (proc_xid (allProcs (mem C) p))" by (rule conf_xid_valid [OF C x])
  have "normal_full (Max (tree x))" using tree_finite(3) [OF conf_xact(3) [OF C x]] conf_xact(3) [OF C x] by (auto simp: xact_ok_def)
  then have m: "TransactionIdIsValid (xid_of (Max (tree x)))" using xid_of_valid by (simp add: TransactionIdIsValid_def InvalidTransactionId_def)
  have "fst (group_join p (xid_of (Max (tree x))) (mem C)) = None" using first by (simp add: group_join_def)
  then have "ProcArrayEndTransaction p (xid_of (Max (tree x))) False others (mem C) = group_lead (mem D)"
    using v m others by (simp add: ProcArrayEndTransaction_def ProcArrayGroupClearXid_def Let_def case_prod_unfold)
  moreover from group_lead_runs [OF D l] obtain E where "group_lead (mem D) = Some (Inr (), mem E)" "conf_reach E"
    "xacts E = (\<lambda>q. if q \<in> set ps then None else xacts D q)" "ends E = ends D + length ps" "procArrayGroupFirst (mem E) = None"
    "\<forall>p \<in> set ps. procArrayGroupNext (allProcs (mem E) p) = None \<and> \<not> procArrayGroupMember (allProcs (mem E) p)" .
  ultimately show ?thesis by (intro exI [of _ E]) simp
qed

definition ex_alone :: conf where
  "ex_alone = ex_conf \<lparr> mem := (mem ex_conf) \<lparr> procArrayGroupFirst := None \<rparr> \<rparr>"

theorem ProcArrayEndTransaction_group_witness:
  "\<exists>E. ProcArrayEndTransaction 1 101 False (\<lambda>s. s) (mem ex_alone) = Some (Inr (), mem E) \<and> conf_reach E \<and> xacts E = (\<lambda>_. None) \<and> ends E = 3"
proof -
  let ?s = "snd (group_join 1 (xid_of 101) (mem ex_alone))"
  let ?D = "ex_alone \<lparr> mem := ?s \<rparr>"
  have C: "conf_reach ex_alone" unfolding ex_alone_def by (rule quiet_reach [OF ex_conf_reach quiet_group(1) [OF ex_conf_reach]])
  have D: "conf_reach ?D" by (rule quiet_reach [OF C quiet_group(3) [OF C]])
  have x: "xacts ex_alone 1 = Some \<lparr> xt_top = 101, xt_subs = {} \<rparr>" "procArrayGroupFirst (mem ex_alone) = None" "ends ex_alone = 2"
    "xacts ex_alone = (\<lambda>_. None)(1 \<mapsto> \<lparr> xt_top = 101, xt_subs = {} \<rparr>)"
    by (simp_all add: ex_alone_def ex_conf_fields)
  have t: "Max (tree \<lparr> xt_top = 101, xt_subs = {} \<rparr>) = 101" by (simp add: tree_def)
  have l: "linked (mem ?D) (procArrayGroupFirst (mem ?D)) [1]" using x(2) by (simp add: group_join_def)
  have m: "members_ok ?D [1]" using x(1) t by (simp add: members_ok_def group_join_def)
  from ProcArrayEndTransaction_group [OF C x(1,2) _ D l m, of "\<lambda>s. s"] show ?thesis
    unfolding t by (auto simp: x xid_of_def fun_eq_iff)
qed

end
