(* ===== verification/Standby.thy ===== *)
theory Standby
  imports ProcSnapshot Subtrans "HOL-Library.Multiset" "HOL-Library.AList"
begin

section \<open>Logging running transactions and replaying them\<close>

text \<open>
  \<^verbatim>\<open>backend/storage/ipc/standby/src/lib.rs\<close>, the records with which a primary tells its standbys about running transactions and exclusive locks, and the
  recovery lock tables of \<^verbatim>\<open>recovery.rs\<close> in which the startup process of a standby keeps the locks of each transaction. A record's body is the list of its bytes, little-endian.

  The record \<open>standby_env\<close> holds what is asked of other modules: the write-ahead log takes a record or fails, memory for ids is allocated or not, locks are listed,
  acquired and released. The locks that the startup process has in the lock manager are the multiset \<open>lm_held\<close>; acquiring adds one, and releasing
  says whether there was one. Debug output and the nudge to the log writer (\<^verbatim>\<open>XLogSetAsyncXactLSN\<close>) are left out.
\<close>

record xl_standby_lock =
  sl_xid :: TransactionId
  sl_dbOid :: u32
  sl_relOid :: u32

record xlog_insert =
  xi_rmid :: u8
  xi_info :: u8
  xi_flags :: u8
  xi_main_data :: "u8 list"

record standby_env =
  sb_XLogStandbyInfoActive :: bool
  sb_skip_running_xacts :: bool
  sb_GetInsertRecPtr :: XLogRecPtr
  sb_GetRunningTransactionLocks :: "xl_standby_lock list res"
  sb_insert_record :: "xlog_insert \<Rightarrow> XLogRecPtr res"
  sb_alloc :: "nat \<Rightarrow> unit res"
  sb_did_commit :: "TransactionId \<Rightarrow> bool res"
  sb_did_abort :: "TransactionId \<Rightarrow> bool res"
  sb_is_prepared :: "TransactionId \<Rightarrow> bool res"
  sb_LockAcquire :: "u32 \<times> u32 \<Rightarrow> unit res"
  sb_LockRelease :: "u32 \<times> u32 \<Rightarrow> unit res"
  sb_invalidations :: "u8 list \<Rightarrow> unit res"

text \<open>The log is the list of records inserted so far.\<close>

abbreviation insert_record :: "standby_env \<Rightarrow> xlog_insert \<Rightarrow> xlog_insert list \<Rightarrow> XLogRecPtr res \<times> xlog_insert list" where
  "insert_record env r log \<equiv> tryS (sb_insert_record env r) log (\<lambda>recptr. (Inr recptr, log @ [r]))"

subsection \<open>The records of the primary\<close>

definition running_xacts_header :: "RunningTransactions \<Rightarrow> u8 list" where
  "running_xacts_header running =
     to_ne_bytes (word_of_nat (rt_xcnt running)) @ to_ne_bytes (word_of_nat (rt_subxcnt running))
     @ [if rt_subxid_overflow running then 1 else 0, 0, 0, 0]
     @ to_ne_bytes (rt_next_xid running) @ to_ne_bytes (rt_oldest_running_xid running) @ to_ne_bytes (rt_latest_completed_xid running)"

definition LogCurrentRunningXacts ::
  "standby_env \<Rightarrow> RunningTransactions \<Rightarrow> xlog_insert list \<Rightarrow> XLogRecPtr res \<times> xlog_insert list" where
  "LogCurrentRunningXacts env running log =
     (if length (rt_xids running) \<noteq> rt_xcnt running + rt_subxcnt running then (Inl Panic, log)
      else insert_record env
        \<lparr> xi_rmid = 8, xi_info = 0x10, xi_flags = 0x02,
          xi_main_data = running_xacts_header running @ concat (map to_ne_bytes (rt_xids running)) \<rparr> log)"

definition standby_locks_body :: "xl_standby_lock list \<Rightarrow> u8 list" where
  "standby_locks_body locks =
     concat (map (\<lambda>l. to_ne_bytes (sl_xid l) @ to_ne_bytes (sl_dbOid l) @ to_ne_bytes (sl_relOid l)) locks)"

definition LogAccessExclusiveLocks ::
  "standby_env \<Rightarrow> xl_standby_lock list \<Rightarrow> xlog_insert list \<Rightarrow> XLogRecPtr res \<times> xlog_insert list" where
  "LogAccessExclusiveLocks env locks log =
     insert_record env
       \<lparr> xi_rmid = 8, xi_info = 0x00, xi_flags = 0x02,
         xi_main_data = to_ne_bytes (word_of_nat (length locks)) @ standby_locks_body locks \<rparr> log"

definition LogStandbySnapshot ::
  "standby_env \<Rightarrow> pa_env \<Rightarrow> u32 \<Rightarrow> shmem \<Rightarrow> xlog_insert list \<Rightarrow> XLogRecPtr res \<times> xlog_insert list" where
  "LogStandbySnapshot env penv db s log =
    (if \<not> sb_XLogStandbyInfoActive env then (Inl Panic, log)
     else if sb_skip_running_xacts env then (Inr (sb_GetInsertRecPtr env), log)
     else
       tryS (sb_GetRunningTransactionLocks env) log (\<lambda>locks.
       bindS (if locks \<noteq> [] then LogAccessExclusiveLocks env locks log else (Inr 0, log)) (\<lambda>_ log.
       tryS (GetRunningTransactionData penv db s) log (\<lambda>running.
         LogCurrentRunningXacts env running log))))"

subsection \<open>The recovery lock tables\<close>

text \<open>
  \<open>rl_entries\<close> finds duplicates, \<open>rl_by_xid\<close> chains the locks of each transaction. The order of the hash table's keys, in which it is
  traversed, is that of the list.
\<close>

record RecoveryLockState =
  rl_entries :: "(TransactionId \<times> u32 \<times> u32) set"
  rl_by_xid :: "(TransactionId \<times> (u32 \<times> u32) list) list"
  lm_held :: "(u32 \<times> u32) multiset"

definition insert_entry :: "TransactionId \<Rightarrow> u32 \<Rightarrow> u32 \<Rightarrow> RecoveryLockState \<Rightarrow> bool \<times> RecoveryLockState" where
  "insert_entry xid db rel st =
     (if (xid, db, rel) \<in> rl_entries st then (False, st)
      else (True, st \<lparr> rl_entries := insert (xid, db, rel) (rl_entries st),
              rl_by_xid := AList.map_default xid [(db, rel)] (\<lambda>chain. chain @ [(db, rel)]) (rl_by_xid st) \<rparr>))"

definition StandbyAcquireAccessExclusiveLock ::
  "standby_env \<Rightarrow> TransactionId \<Rightarrow> u32 \<Rightarrow> u32 \<Rightarrow> RecoveryLockState option \<Rightarrow> unit res \<times> RecoveryLockState option" where
  "StandbyAcquireAccessExclusiveLock env xid db rel so =
    (if \<not> TransactionIdIsValid xid then (Inr (), so)
     else
       tryS (bindR (sb_did_commit env xid) (\<lambda>c. if c then Inr True else sb_did_abort env xid)) so (\<lambda>ended.
         if ended then (Inr (), so)
         else if rel = 0 then (Inl Panic, so)
         else
           (case so of
              None \<Rightarrow> (Inl Panic, so)
            | Some st \<Rightarrow>
                let (inserted, st) = insert_entry xid db rel st in
                if inserted then
                  tryS (sb_LockAcquire env (db, rel)) (Some st) (\<lambda>_. (Inr (), Some (st \<lparr> lm_held := add_mset (db, rel) (lm_held st) \<rparr>)))
                else (Inr (), Some st))))"

text \<open>A lock that the lock manager does not know is logged and then refused by a debug assertion.\<close>

fun release_xid_entry_locks ::
  "standby_env \<Rightarrow> TransactionId \<Rightarrow> (u32 \<times> u32) list \<Rightarrow> RecoveryLockState \<Rightarrow> unit res \<times> RecoveryLockState" where
  "release_xid_entry_locks env xid [] st = (Inr (), st)"
| "release_xid_entry_locks env xid ((db, rel) # chain) st =
     tryS (sb_LockRelease env (db, rel)) st (\<lambda>_.
       if (db, rel) \<notin># lm_held st then (Inl Panic, st)
       else release_xid_entry_locks env xid chain
              (st \<lparr> rl_entries := rl_entries st - {(xid, db, rel)}, lm_held := lm_held st - {#(db, rel)#} \<rparr>))"

text \<open>The loop that \<^verbatim>\<open>StandbyReleaseAllLocks\<close> and \<^verbatim>\<open>StandbyReleaseOldLocks\<close> share; \<open>stays\<close> is the test by which the latter passes over a transaction.\<close>

fun release_xids ::
  "standby_env \<Rightarrow> (TransactionId \<Rightarrow> bool res) \<Rightarrow> TransactionId list \<Rightarrow> RecoveryLockState \<Rightarrow> unit res \<times> RecoveryLockState" where
  "release_xids env stays [] st = (Inr (), st)"
| "release_xids env stays (xid # xids) st =
     tryS (stays xid) st (\<lambda>stay.
       if stay then release_xids env stays xids st
       else
         (case map_of (rl_by_xid st) xid of
            None \<Rightarrow> (Inl Panic, st)
          | Some chain \<Rightarrow>
              bindS (release_xid_entry_locks env xid chain (st \<lparr> rl_by_xid := AList.delete xid (rl_by_xid st) \<rparr>)) (\<lambda>_ st.
                release_xids env stays xids st)))"

definition StandbyReleaseAllLocks :: "standby_env \<Rightarrow> RecoveryLockState option \<Rightarrow> unit res \<times> RecoveryLockState option" where
  "StandbyReleaseAllLocks env so =
    (case so of
       None \<Rightarrow> (Inl Panic, so)
     | Some st \<Rightarrow> map_prod id Some (release_xids env (\<lambda>_. Inr False) (map fst (rl_by_xid st)) st))"

definition StandbyReleaseLocks ::
  "standby_env \<Rightarrow> TransactionId \<Rightarrow> RecoveryLockState option \<Rightarrow> unit res \<times> RecoveryLockState option" where
  "StandbyReleaseLocks env xid so =
    (if TransactionIdIsValid xid then
       (case so of
          None \<Rightarrow> (Inl Panic, so)
        | Some st \<Rightarrow>
            (case map_of (rl_by_xid st) xid of
               None \<Rightarrow> (Inr (), so)
             | Some chain \<Rightarrow>
                 map_prod id Some (release_xid_entry_locks env xid chain (st \<lparr> rl_by_xid := AList.delete xid (rl_by_xid st) \<rparr>))))
     else StandbyReleaseAllLocks env so)"

fun StandbyReleaseLockTree ::
  "standby_env \<Rightarrow> TransactionId \<Rightarrow> TransactionId list \<Rightarrow> RecoveryLockState option \<Rightarrow> unit res \<times> RecoveryLockState option" where
  "StandbyReleaseLockTree env xid [] so = StandbyReleaseLocks env xid so"
| "StandbyReleaseLockTree env xid (subxid # subxids) so =
     bindS (StandbyReleaseLocks env xid so) (\<lambda>_ so. StandbyReleaseLockTree env subxid subxids so)"

definition StandbyReleaseOldLocks ::
  "standby_env \<Rightarrow> TransactionId \<Rightarrow> RecoveryLockState option \<Rightarrow> unit res \<times> RecoveryLockState option" where
  "StandbyReleaseOldLocks env oldxid so =
    (case so of
       None \<Rightarrow> (Inl Panic, so)
     | Some st \<Rightarrow>
         map_prod id Some
           (release_xids env
              (\<lambda>xid. if \<not> TransactionIdIsValid xid then Inl Panic
                 else bindR (sb_is_prepared env xid) (\<lambda>prepared. Inr (prepared \<or> \<not> TransactionIdPrecedes xid oldxid)))
              (map fst (rl_by_xid st)) st))"

subsection \<open>Replay\<close>

text \<open>Reading ids from the bytes of a record; a slice out of range panics.\<close>

fun read_u32s :: "u8 list \<Rightarrow> nat \<Rightarrow> nat \<Rightarrow> u32 list res" where
  "read_u32s data base 0 = Inr []"
| "read_u32s data base (Suc n) =
     (if base + 4 \<le> length data
      then bindR (read_u32s data (base + 4) n) (\<lambda>xs. Inr (from_ne_bytes (take 4 (drop base data)) # xs))
      else Inl Panic)"

definition parse_running :: "standby_env \<Rightarrow> u8 list \<Rightarrow> RunningTransactionsData res" where
  "parse_running env data =
     bindR (read_u32s data 0 2) (\<lambda>counts.
     if \<not> 8 < length data then Inl Panic
     else
       bindR (read_u32s data 12 3) (\<lambda>fields.
         let xcnt = sint (counts ! 0); subxcnt = sint (counts ! 1) in
         if xcnt + subxcnt < - (2 ^ 31) \<or> 2 ^ 31 \<le> xcnt + subxcnt then Inl Panic
         else
           let total = nat ((xcnt + subxcnt) mod 2 ^ 64) in
           bindR (sb_alloc env total) (\<lambda>_.
           bindR (read_u32s data 24 total) (\<lambda>xids.
             Inr \<lparr> run_xcnt = xcnt, run_subxcnt = subxcnt,
                   run_subxid_status = (if data ! 8 \<noteq> 0 then SUBXIDS_MISSING else SUBXIDS_IN_ARRAY),
                   run_nextXid = fields ! 0, run_oldestRunningXid = fields ! 1, run_oldestDatabaseRunningXid = fields ! 1,
                   run_latestCompletedXid = fields ! 2, run_xids = xids \<rparr>))))"

fun redo_locks ::
  "standby_env \<Rightarrow> u8 list \<Rightarrow> nat \<Rightarrow> nat \<Rightarrow> RecoveryLockState option \<Rightarrow> unit res \<times> RecoveryLockState option" where
  "redo_locks env data base 0 so = (Inr (), so)"
| "redo_locks env data base (Suc n) so =
     tryS (read_u32s data base 3) so (\<lambda>f.
     bindS (StandbyAcquireAccessExclusiveLock env (f ! 0) (f ! 1) (f ! 2) so) (\<lambda>_ so. redo_locks env data (base + 12) n so))"

definition standby_redo ::
  "standby_env \<Rightarrow> kax_env \<Rightarrow> bool \<Rightarrow> u8 \<Rightarrow> u8 list \<Rightarrow> RecoveryLockState option \<times> startup
     \<Rightarrow> unit res \<times> RecoveryLockState option \<times> startup" where
  "standby_redo env kenv has_blocks xl_info data = (\<lambda>(so, s).
    (let info = xl_info AND NOT 0x0F in
     if has_blocks then (Inl Panic, so, s)
     else if standby_state s = STANDBY_DISABLED then (Inr (), so, s)
     else if info = 0x00 then
       tryS (read_u32s data 0 1) (so, s) (\<lambda>n.
         map_prod id (\<lambda>so. (so, s)) (redo_locks env data 4 (nat (sint (n ! 0) mod 2 ^ 64)) so))
     else if info = 0x10 then
       tryS (parse_running env data) (so, s) (\<lambda>running. map_prod id (\<lambda>s. (so, s)) (ProcArrayApplyRecoveryInfo kenv running s))
     else if info = 0x20 then tryS (sb_invalidations env data) (so, s) (\<lambda>_. (Inr (), so, s))
     else (Inl Panic, so, s)))"

end
