(* ===== verification/StandbyLocks.thy ===== *)
theory StandbyLocks
  imports Standby
begin

section \<open>The recovery lock tables keep the lock manager in step\<close>

text \<open>
  In every state that the operations on the recovery lock tables reach, the two tables agree and the startup process holds each relation's lock once for
  every transaction that is recorded with it. Releasing old locks therefore never meets a lock that the lock manager does not know, and releases exactly what it should.
\<close>

definition chained :: "(TransactionId \<times> (u32 \<times> u32) list) list \<Rightarrow> (TransactionId \<times> u32 \<times> u32) set" where
  "chained al = (\<Union>(x, ch) \<in> set al. {x} \<times> set ch)"

definition locks_ok :: "RecoveryLockState \<Rightarrow> bool" where
  "locks_ok st \<longleftrightarrow> distinct (map fst (rl_by_xid st)) \<and> (\<forall>(x, ch) \<in> set (rl_by_xid st). TransactionIdIsValid x \<and> distinct ch)
     \<and> rl_entries st = chained (rl_by_xid st) \<and> lm_held st = mset (concat (map snd (rl_by_xid st)))"

lemma chained_simps [simp]: "chained [] = {}" "chained (p # al) = {fst p} \<times> set (snd p) \<union> chained al"
  by (auto simp: chained_def)

lemma chained_key: "(x, p) \<in> chained al \<Longrightarrow> x \<in> fst ` set al"
  by (force simp: chained_def)

lemma chained_filter: "chained (filter (\<lambda>(x, ch). P x) al) = {(x, p) \<in> chained al. P x}"
  by (auto simp: chained_def)

subsection \<open>Acquiring\<close>

lemma map_default_chained: "chained (AList.map_default x [p] (\<lambda>ch. ch @ [p]) al) = insert (x, p) (chained al)"
  by (induction al) auto

lemma map_default_mset: "mset (concat (map snd (AList.map_default x [p] (\<lambda>ch. ch @ [p]) al))) = add_mset p (mset (concat (map snd al)))"
  by (induction al) auto

lemma map_default_chains:
  assumes "\<forall>(y, ch) \<in> set al. TransactionIdIsValid y \<and> distinct ch" "TransactionIdIsValid x" "(x, p) \<notin> chained al"
  shows "\<forall>(y, ch) \<in> set (AList.map_default x [p] (\<lambda>ch. ch @ [p]) al). TransactionIdIsValid y \<and> distinct ch"
  using assms by (induction al) auto

lemma recovery_acquire_ok:
  assumes "StandbyAcquireAccessExclusiveLock env x d r (Some st) = (Inr (), Some st')" "locks_ok st"
  shows "locks_ok st'"
proof -
  have ins: "locks_ok (snd (insert_entry x d r st) \<lparr> lm_held := add_mset (d, r) (lm_held st) \<rparr>)"
    if "(x, d, r) \<notin> rl_entries st" "TransactionIdIsValid x"
    using that assms(2) map_default_chains [of "rl_by_xid st" x "(d, r)"]
    by (simp add: locks_ok_def insert_entry_def map_default_chained map_default_mset distinct_map_default)
  have held: "lm_held (snd (insert_entry x d r st)) = lm_held st" by (simp add: insert_entry_def)
  show ?thesis
    using assms ins held
    by (auto simp: StandbyAcquireAccessExclusiveLock_def tryS_def split: if_splits sum.splits prod.splits) (simp_all add: insert_entry_def split: if_splits)
qed

subsection \<open>Releasing\<close>

lemma release_chain:
  assumes "release_xid_entry_locks env x ch st = (Inr (), st')"
  shows "st' = st \<lparr> rl_entries := rl_entries st - {x} \<times> set ch, lm_held := lm_held st - mset ch \<rparr>"
  using assms
proof (induction env x ch st rule: release_xid_entry_locks.induct)
  case (2 env x d r ch st)
  from 2(2) obtain u where "sb_LockRelease env (d, r) = Inr u" "(d, r) \<in># lm_held st"
    by (auto simp: tryS_def split: sum.splits if_splits)
  with 2 show ?case by (simp add: Diff_insert2 [symmetric] insert_Times_insert)
qed simp

lemma release_chain_runs:
  assumes "\<forall>p. sb_LockRelease env p = Inr ()" "mset ch \<subseteq># lm_held st"
  shows "fst (release_xid_entry_locks env x ch st) = Inr ()"
  using assms
proof (induction env x ch st rule: release_xid_entry_locks.induct)
  case (2 env x d r ch st)
  then have "(d, r) \<in># lm_held st" "mset ch \<subseteq># lm_held st - {#(d, r)#}" by (auto simp: insert_subset_eq_iff)
  with 2 show ?case by simp
qed simp

lemma delete_split:
  assumes "distinct (map fst al)" "map_of al x = Some ch"
  shows "mset (concat (map snd al)) = mset ch + mset (concat (map snd (AList.delete x al)))" "chained (AList.delete x al) = chained al - {x} \<times> set ch"
proof -
  have no: "AList.delete x al = al" if "x \<notin> fst ` set al" for al :: "(TransactionId \<times> (u32 \<times> u32) list) list"
    using that by (induction al) (auto simp: AList.delete_eq)
  show "mset (concat (map snd al)) = mset ch + mset (concat (map snd (AList.delete x al)))"
    using assms
  proof (induction al)
    case (Cons p al)
    then show ?case using no [of al] by (cases "fst p = x") (auto simp: AList.delete_eq)
  qed simp
  show "chained (AList.delete x al) = chained al - {x} \<times> set ch"
    using assms
  proof (induction al)
    case (Cons p al)
    then show ?case using no [of al] chained_key [of x _ al] by (cases "fst p = x") (auto simp: AList.delete_eq)
  qed simp
qed

lemma release_one:
  assumes ok: "locks_ok st" and x: "map_of (rl_by_xid st) x = Some ch"
  defines "st0 \<equiv> st \<lparr> rl_by_xid := AList.delete x (rl_by_xid st) \<rparr>"
  shows "release_xid_entry_locks env x ch st0 = (Inr (), st') \<Longrightarrow> locks_ok st' \<and> rl_by_xid st' = AList.delete x (rl_by_xid st)"
    and "\<forall>p. sb_LockRelease env p = Inr () \<Longrightarrow> \<exists>st'. release_xid_entry_locks env x ch st0 = (Inr (), st')"
proof -
  have d: "distinct (map fst (rl_by_xid st))" using ok by (simp add: locks_ok_def)
  note s = delete_split [OF d x]
  show "locks_ok st' \<and> rl_by_xid st' = AList.delete x (rl_by_xid st)" if "release_xid_entry_locks env x ch st0 = (Inr (), st')"
    using release_chain [OF that] ok s by (auto simp: locks_ok_def st0_def distinct_map_filter AList.delete_eq)
  show "\<exists>st'. release_xid_entry_locks env x ch st0 = (Inr (), st')" if "\<forall>p. sb_LockRelease env p = Inr ()"
  proof -
    have "mset ch \<subseteq># lm_held st0" using ok s(1) by (simp add: locks_ok_def st0_def)
    from release_chain_runs [OF that this, of x] show ?thesis by (metis prod.collapse)
  qed
qed

text \<open>The loop releases the chains of those transactions of its list that do not stay.\<close>

lemma release_xids_ok:
  assumes "release_xids env stays xs st = (Inr (), st')" "locks_ok st"
  shows "locks_ok st'"
  using assms
proof (induction xs arbitrary: st)
  case (Cons x xs)
  from Cons.prems(1) obtain stay where st: "stays x = Inr stay" by (cases "stays x") simp_all
  show ?case
  proof (cases stay)
    case True
    have "release_xids env stays xs st = (Inr (), st')" using Cons.prems(1) st True by simp
    then show ?thesis using Cons.prems(2) by (rule Cons.IH)
  next
    case False
    let ?st = "st \<lparr> rl_by_xid := AList.delete x (rl_by_xid st) \<rparr>"
    from False Cons.prems(1) st obtain ch where ch: "map_of (rl_by_xid st) x = Some ch" by (cases "map_of (rl_by_xid st) x") simp_all
    obtain r u where rel: "release_xid_entry_locks env x ch ?st = (r, u)" by (rule prod.exhaust)
    have u: "release_xid_entry_locks env x ch ?st = (Inr (), u)" "release_xids env stays xs u = (Inr (), st')"
      using False Cons.prems(1) st ch rel by (cases r; simp)+
    have "locks_ok u" using release_one(1) [OF Cons.prems(2) ch u(1)] by simp
    with u(2) show ?thesis by (rule Cons.IH)
  qed
qed simp

lemma release_xids_runs:
  assumes "locks_ok st" "\<forall>p. sb_LockRelease env p = Inr ()" "\<forall>x \<in> set xs. stays x = Inr (keep x)" "distinct xs" "set xs \<subseteq> fst ` set (rl_by_xid st)"
  shows "\<exists>st'. release_xids env stays xs st = (Inr (), st') \<and> rl_by_xid st' = filter (\<lambda>(x, ch). x \<in> set xs \<longrightarrow> keep x) (rl_by_xid st)"
  using assms(1,3-)
proof (induction xs arbitrary: st)
  case Nil
  then show ?case by simp
next
  case (Cons x xs)
  show ?case
  proof (cases "keep x")
    case True
    have "\<exists>st'. release_xids env stays xs st = (Inr (), st') \<and> rl_by_xid st' = filter (\<lambda>(x, ch). x \<in> set xs \<longrightarrow> keep x) (rl_by_xid st)"
      using Cons.prems(2-4) by (intro Cons.IH [OF Cons.prems(1)]) simp_all
    moreover have "filter (\<lambda>(y, ch). y \<in> set xs \<longrightarrow> keep y) (rl_by_xid st) = filter (\<lambda>(y, ch). y \<in> set (x # xs) \<longrightarrow> keep y) (rl_by_xid st)"
      using True by (intro filter_cong refl) auto
    moreover have "release_xids env stays (x # xs) st = release_xids env stays xs st" using Cons.prems(2) True by simp
    ultimately show ?thesis by (simp only:)
  next
    case False
    have "x \<in> fst ` set (rl_by_xid st)" using Cons.prems(4) by simp
    then obtain ch where ch: "map_of (rl_by_xid st) x = Some ch" by (cases "map_of (rl_by_xid st) x") (simp_all add: map_of_eq_None_iff)
    obtain u where u: "release_xid_entry_locks env x ch (st \<lparr> rl_by_xid := AList.delete x (rl_by_xid st) \<rparr>) = (Inr (), u)"
      using release_one(2) [OF Cons.prems(1) ch assms(2)] by blast
    have ok: "locks_ok u" "rl_by_xid u = AList.delete x (rl_by_xid st)" using release_one(1) [OF Cons.prems(1) ch u] by simp_all
    have "set xs \<subseteq> fst ` set (rl_by_xid st) - {x}" using Cons.prems(3,4) by auto
    also have "\<dots> = set (map fst (rl_by_xid u))" unfolding ok(2) AList.delete_keys by auto
    finally have "\<exists>st'. release_xids env stays xs u = (Inr (), st') \<and> rl_by_xid st' = filter (\<lambda>(x, ch). x \<in> set xs \<longrightarrow> keep x) (rl_by_xid u)"
      using Cons.prems(2,3) by (intro Cons.IH [OF ok(1)]) auto
    moreover have "filter (\<lambda>(y, ch). y \<in> set xs \<longrightarrow> keep y) (rl_by_xid u) = filter (\<lambda>(y, ch). y \<in> set (x # xs) \<longrightarrow> keep y) (rl_by_xid st)"
      using False unfolding ok(2) AList.delete_eq filter_filter by (intro filter_cong refl) auto
    moreover have "release_xids env stays (x # xs) st = release_xids env stays xs u" using Cons.prems(2) False ch u by simp
    ultimately show ?thesis by (simp only:)
  qed
qed

subsection \<open>Reachable tables\<close>

lemma map_prod_Some: "map_prod id Some r = (Inr (), Some st) \<longleftrightarrow> r = (Inr (), st)"
  by (cases r) simp

inductive locks_reach :: "RecoveryLockState \<Rightarrow> bool" where
  init: "locks_reach \<lparr> rl_entries = {}, rl_by_xid = [], lm_held = {#} \<rparr>"
| acquire: "locks_reach st \<Longrightarrow> StandbyAcquireAccessExclusiveLock env x d r (Some st) = (Inr (), Some st') \<Longrightarrow> locks_reach st'"
| release: "locks_reach st \<Longrightarrow> StandbyReleaseLocks env x (Some st) = (Inr (), Some st') \<Longrightarrow> locks_reach st'"
| release_old: "locks_reach st \<Longrightarrow> StandbyReleaseOldLocks env x (Some st) = (Inr (), Some st') \<Longrightarrow> locks_reach st'"

lemma locks_reach_ok: "locks_reach st \<Longrightarrow> locks_ok st"
proof (induction rule: locks_reach.induct)
  case init
  show ?case by (simp add: locks_ok_def)
next
  case (acquire st env x d r st')
  then show ?case using recovery_acquire_ok by blast
next
  case (release st env x st')
  show ?case
  proof (cases "TransactionIdIsValid x")
    case False
    with release.hyps(2) have "release_xids env (\<lambda>_. Inr False) (map fst (rl_by_xid st)) st = (Inr (), st')"
      by (simp add: StandbyReleaseLocks_def StandbyReleaseAllLocks_def map_prod_Some)
    then show ?thesis using release.IH by (rule release_xids_ok)
  next
    case True
    show ?thesis
    proof (cases "map_of (rl_by_xid st) x")
      case None
      with True release.hyps(2) have "st' = st" by (simp add: StandbyReleaseLocks_def)
      with release.IH show ?thesis by simp
    next
      case (Some ch)
      with True release.hyps(2)
      have "release_xid_entry_locks env x ch (st \<lparr> rl_by_xid := AList.delete x (rl_by_xid st) \<rparr>) = (Inr (), st')"
        by (simp add: StandbyReleaseLocks_def map_prod_Some)
      from release_one(1) [OF release.IH Some this] show ?thesis ..
    qed
  qed
next
  case (release_old st env x st')
  from release_old.hyps(2) obtain stays where "release_xids env stays (map fst (rl_by_xid st)) st = (Inr (), st')"
    unfolding StandbyReleaseOldLocks_def option.case map_prod_Some ..
  then show ?case using release_old.IH by (rule release_xids_ok)
qed

text \<open>A lock is held once for every transaction recorded with it.\<close>

lemma held_count:
  assumes "locks_ok st"
  shows "count (lm_held st) p = card {x. (x, p) \<in> rl_entries st}"
proof -
  have "count (mset (concat (map snd al))) p = card {x. (x, p) \<in> chained al}"
    if "distinct (map fst al)" "\<forall>(x, ch) \<in> set al. distinct ch" for al
    using that
  proof (induction al)
    case (Cons q al)
    have fin: "finite {x. (x, p) \<in> chained al}" by (rule finite_subset [of _ "fst ` set al"]) (auto dest: chained_key [where p = p])
    have new: "fst q \<notin> {x. (x, p) \<in> chained al}" using Cons.prems(1) chained_key [of "fst q" p al] by auto
    have "{x. (x, p) \<in> chained (q # al)} = (if p \<in> set (snd q) then insert (fst q) {x. (x, p) \<in> chained al} else {x. (x, p) \<in> chained al})"
      by auto
    moreover have "count (mset (snd q)) p = (if p \<in> set (snd q) then 1 else 0)"
      using Cons.prems(2) distinct_count_atmost_1 [of "snd q"] by (simp add: case_prod_beta del: split_paired_All)
    ultimately show ?case using Cons fin new by simp
  qed simp
  then show ?thesis using assms by (simp add: locks_ok_def case_prod_beta)
qed

text \<open>
  C29: the locks of transactions that ended without a record are released, and only those. From any reachable state of the recovery lock tables, and if the lock manager does not
  fail, \<^verbatim>\<open>StandbyReleaseOldLocks\<close> returns without having run into an assertion; the tables keep exactly the locks of transactions that are prepared or not older than \<open>oldxid\<close>; and
  afterwards the startup process holds each relation's lock as often as there are transactions recorded with it, so that the last one to end unlocks the relation.
\<close>

theorem StandbyReleaseOldLocks_exact:
  assumes "locks_reach st" and "\<forall>p. sb_LockRelease env p = Inr ()" and "\<forall>x. sb_is_prepared env x = Inr (prep x)"
  shows "\<exists>st'. StandbyReleaseOldLocks env oldxid (Some st) = (Inr (), Some st')
    \<and> rl_entries st' = {(x, p) \<in> rl_entries st. prep x \<or> \<not> TransactionIdPrecedes x oldxid}
    \<and> (\<forall>p. count (lm_held st') p = card {x. (x, p) \<in> rl_entries st'})"
proof -
  let ?stays = "\<lambda>xid. if \<not> TransactionIdIsValid xid then Inl Panic
                 else bindR (sb_is_prepared env xid) (\<lambda>prepared. Inr (prepared \<or> \<not> TransactionIdPrecedes xid oldxid))"
  let ?keep = "\<lambda>x. prep x \<or> \<not> TransactionIdPrecedes x oldxid"
  have ok: "locks_ok st" by (rule locks_reach_ok [OF assms(1)])
  have d: "distinct (map fst (rl_by_xid st))" "set (map fst (rl_by_xid st)) \<subseteq> fst ` set (rl_by_xid st)" using ok by (simp_all add: locks_ok_def)
  have "\<forall>x \<in> set (map fst (rl_by_xid st)). ?stays x = Inr (?keep x)" using ok assms(3) by (auto simp: locks_ok_def)
  from release_xids_runs [OF ok assms(2) this d] obtain st' where st': "release_xids env ?stays (map fst (rl_by_xid st)) st = (Inr (), st')"
    "rl_by_xid st' = filter (\<lambda>(x, ch). x \<in> set (map fst (rl_by_xid st)) \<longrightarrow> ?keep x) (rl_by_xid st)" by blast
  have "rl_by_xid st' = filter (\<lambda>(x, ch). ?keep x) (rl_by_xid st)"
    unfolding st'(2) by (rule filter_cong [OF refl]) (auto intro: rev_image_eqI)
  moreover have ok': "locks_ok st'" by (rule release_xids_ok [OF st'(1) ok])
  ultimately have "rl_entries st' = {(x, p) \<in> rl_entries st. ?keep x}"
    using ok chained_filter [of ?keep "rl_by_xid st"] by (simp add: locks_ok_def)
  moreover have "StandbyReleaseOldLocks env oldxid (Some st) = (Inr (), Some st')" using st'(1) by (simp add: StandbyReleaseOldLocks_def)
  ultimately show ?thesis using held_count [OF ok'] by (intro exI [of _ st'] conjI allI)
qed

definition ex_senv :: standby_env where
  "ex_senv = \<lparr> sb_XLogStandbyInfoActive = True, sb_skip_running_xacts = False, sb_GetInsertRecPtr = 0, sb_GetRunningTransactionLocks = Inr [],
     sb_insert_record = \<lambda>_. Inr 1, sb_alloc = \<lambda>_. Inr (), sb_did_commit = \<lambda>_. Inr False, sb_did_abort = \<lambda>_. Inr False, sb_is_prepared = \<lambda>_. Inr False,
     sb_LockAcquire = \<lambda>_. Inr (), sb_LockRelease = \<lambda>_. Inr (), sb_invalidations = \<lambda>_. Inr () \<rparr>"

theorem StandbyReleaseOldLocks_exact_witness:
  "\<exists>st st'. locks_reach st \<and> rl_entries st = {(100, 5, 16384), (103, 5, 16384)} \<and> StandbyReleaseOldLocks ex_senv 102 (Some st) = (Inr (), Some st')
     \<and> rl_entries st' = {(103, 5, 16384)} \<and> count (lm_held st') (5, 16384) = 1"
proof -
  let ?st = "\<lparr> rl_entries = {(103, 5, 16384), (100, 5, 16384)}, rl_by_xid = [(100, [(5, 16384)]), (103, [(5, 16384)])], lm_held = {#(5, 16384), (5, 16384)#} \<rparr>"
  note a = locks_reach.acquire [where env = ex_senv and d = 5 and r = 16384]
  have "locks_reach \<lparr> rl_entries = {(100, 5, 16384)}, rl_by_xid = [(100, [(5, 16384)])], lm_held = {#(5, 16384)#} \<rparr>"
    by (rule a [where x = 100, OF locks_reach.init])
       (simp add: StandbyAcquireAccessExclusiveLock_def insert_entry_def ex_senv_def TransactionIdIsValid_def InvalidTransactionId_def)
  then have r: "locks_reach ?st"
    by (rule a [where x = 103])
       (simp add: StandbyAcquireAccessExclusiveLock_def insert_entry_def ex_senv_def TransactionIdIsValid_def InvalidTransactionId_def)
  have "\<forall>p. sb_LockRelease ex_senv p = Inr ()" "\<forall>x. sb_is_prepared ex_senv x = Inr False" by (simp_all add: ex_senv_def)
  from StandbyReleaseOldLocks_exact [OF r this, of 102] obtain st' where st': "StandbyReleaseOldLocks ex_senv 102 (Some ?st) = (Inr (), Some st')"
    "rl_entries st' = {(x, p) \<in> rl_entries ?st. False \<or> \<not> TransactionIdPrecedes x 102}" "\<forall>p. count (lm_held st') p = card {x. (x, p) \<in> rl_entries st'}" by blast
  have "rl_entries st' = {(103, 5, 16384)}"
    unfolding st'(2) by (auto simp: TransactionIdPrecedes_def TransactionIdIsNormal_def FirstNormalTransactionId_def)
  with r st'(1,3) show ?thesis by (intro exI [of _ ?st] exI [of _ st']) auto
qed

end
