(* ===== verification/ProcRunning.thy ===== *)
theory ProcRunning
  imports ProcSnapshotSpec
begin

section \<open>The running transactions\<close>

text \<open>\<^verbatim>\<open>GetRunningTransactionData\<close> holds both locks, so that it sees one configuration.\<close>

definition slot_tops :: "conf \<Rightarrow> (nat \<Rightarrow> bool) \<Rightarrow> nat list \<Rightarrow> nat list" where
  "slot_tops C P is = concat (map (\<lambda>i. if P (procs C ! i) then map xt_top (case xacts C (procs C ! i) of None \<Rightarrow> [] | Some x \<Rightarrow> [x]) else []) is)"

definition any_overflow :: "conf \<Rightarrow> nat list \<Rightarrow> bool" where
  "any_overflow C is \<longleftrightarrow> (\<exists>i \<in> set is. sx_overflowed (subxidStatus (allProcs (mem C) (procs C ! i))))"

abbreviation in_db :: "conf \<Rightarrow> u32 \<Rightarrow> nat \<Rightarrow> bool" where
  "in_db C db p \<equiv> databaseId (allProcs (mem C) p) = db"

lemma slot_tops_Cons:
  "slot_tops C P (i # is) = (if P (procs C ! i) then map xt_top (case xacts C (procs C ! i) of None \<Rightarrow> [] | Some x \<Rightarrow> [x]) else []) @ slot_tops C P is"
  by (simp add: slot_tops_def)

lemma slot_tops_set: "set (slot_tops C P [0..<length (procs C)]) = {xt_top x | p x. p \<in> set (procs C) \<and> P p \<and> xacts C p = Some x}"
  by (auto simp: slot_tops_def in_set_conv_nth split: option.splits if_splits) (metis list.set_intros(1))+

lemma running_tops_ok:
  assumes C: "conf_ok C" and "set is \<subseteq> {..<length (procs C)}"
    and "normal_full o1" "oldest C \<le> o1" "o1 \<le> nxt C" "normal_full o2" "oldest C \<le> o2" "o2 \<le> nxt C"
  shows "running_tops db (mem C) is (xids, xid_of o1, xid_of o2, ov) =
    Inr (xids @ map xid_of (slot_tops C (\<lambda>_. True) is), xid_of (foldl min o1 (slot_tops C (\<lambda>_. True) is)),
         xid_of (foldl min o2 (slot_tops C (in_db C db) is)), ov \<or> any_overflow C is)"
  using assms(2-)
proof (induction "is" arbitrary: xids o1 o2 ov)
  case Nil
  then show ?case by (simp add: slot_tops_def any_overflow_def)
next
  case (Cons i "is")
  let ?p = "procs C ! i"
  have i: "i < length (procs C)" "?p \<in> set (procs C)" using Cons.prems(1) by auto
  note b = pa_wf_bounds [OF conf_okD(1) [OF C] i(1)]
  have mir: "hdr_xids (mem C) ! i = proc_xid (allProcs (mem C) ?p)" "hdr_subxidStates (mem C) ! i = subxidStatus (allProcs (mem C) ?p)"
    using b(6) by (simp_all add: mirrored_def)
  have sub: "set is \<subseteq> {..<length (procs C)}" using Cons.prems(1) by simp
  show ?case
  proof (cases "xacts C ?p")
    case None
    then have "idle (allProcs (mem C) ?p)" using conf_okD(6) [OF C i(2)] by (simp add: slot_ok_def)
    then have "proc_xid (allProcs (mem C) ?p) = InvalidTransactionId" "\<not> sx_overflowed (subxidStatus (allProcs (mem C) ?p))"
      by (simp_all add: idle_def no_subxids_def)
    then show ?thesis
      using b(1) mir None Cons.IH [OF sub Cons.prems(2-)] by (simp add: TransactionIdIsValid_def slot_tops_Cons any_overflow_def)
  next
    case (Some x)
    have x: "normal_full (xt_top x)" "oldest C \<le> xt_top x" "xt_top x < nxt C" "proc_xid (allProcs (mem C) ?p) = xid_of (xt_top x)"
      using conf_xact(2,3) [OF C Some] by (simp_all add: xact_ok_def tree_def shows_xact_def)
    have v: "TransactionIdIsValid (xid_of (xt_top x))" using xid_of_valid [OF x(1)] by (simp add: TransactionIdIsValid_def InvalidTransactionId_def)
    have w: "nxt C \<le> oldest C + 2145000000" using counters_window(4) [OF conf_okD(4) [OF C]] .
    have "near (xt_top x) o1" "near (xt_top x) o2" using x Cons.prems w by (auto intro!: window_near [of "oldest C"])
    then have ord: "TransactionIdPrecedes (xid_of (xt_top x)) (xid_of o1) \<longleftrightarrow> xt_top x < o1"
      "TransactionIdPrecedes (xid_of (xt_top x)) (xid_of o2) \<longleftrightarrow> xt_top x < o2"
      using xid_of_order(1) [OF x(1) Cons.prems(2)] xid_of_order(1) [OF x(1) Cons.prems(5)] by simp_all
    let ?o1 = "min o1 (xt_top x)" and ?o2 = "if in_db C db ?p then min o2 (xt_top x) else o2" and ?ov = "ov \<or> sx_overflowed (subxidStatus (allProcs (mem C) ?p))"
    have o: "(if xt_top x < o1 then xid_of (xt_top x) else xid_of o1) = xid_of ?o1" by (simp add: min_def)
    have "running_tops db (mem C) (i # is) (xids, xid_of o1, xid_of o2, ov) = running_tops db (mem C) is (xids @ [xid_of (xt_top x)], xid_of ?o1, xid_of ?o2, ?ov)"
      using b(1,5) mir x(4) v ord o by (cases "xt_top x < o2") (simp_all add: Let_def min_def)
    also have "\<dots> = Inr ((xids @ [xid_of (xt_top x)]) @ map xid_of (slot_tops C (\<lambda>_. True) is), xid_of (foldl min ?o1 (slot_tops C (\<lambda>_. True) is)),
         xid_of (foldl min ?o2 (slot_tops C (in_db C db) is)), ?ov \<or> any_overflow C is)"
      by (rule Cons.IH [OF sub]) (use x Cons.prems in \<open>auto simp: min_def\<close>)
    finally show ?thesis using Some by (auto simp: slot_tops_Cons any_overflow_def)
  qed
qed

lemma running_subs_ok:
  assumes C: "conf_ok C" and "set is \<subseteq> {..<length (procs C)}"
  shows "running_subs (mem C) is xids = Inr (xids @ concat (map (\<lambda>i. cached_xids (allProcs (mem C) (procs C ! i))) is))"
  using assms(2)
proof (induction "is" arbitrary: xids)
  case (Cons i "is")
  let ?p = "procs C ! i"
  have i: "i < length (procs C)" using Cons.prems by auto
  note b = pa_wf_bounds [OF conf_okD(1) [OF C] i]
  have st: "hdr_subxidStates (mem C) ! i = subxidStatus (allProcs (mem C) ?p)" using b(6) by (simp add: mirrored_def)
  have "proc_ok (allProcs (mem C) ?p)" using conf_okD(1) [OF C] by (simp add: pa_wf_def)
  then have sl: "slice_to (sx_count (subxidStatus (allProcs (mem C) ?p))) (proc_subxids (allProcs (mem C) ?p)) = Inr (cached_xids (allProcs (mem C) ?p))"
    by (simp add: slice_to_def proc_ok_def cached_xids_def)
  have z: "sx_count (subxidStatus (allProcs (mem C) ?p)) = 0 \<Longrightarrow> cached_xids (allProcs (mem C) ?p) = []" by (simp add: cached_xids_def)
  show ?case
    using b(1,5) st sl z Cons.IH Cons.prems by (cases "sx_count (subxidStatus (allProcs (mem C) ?p))") (simp_all add: hdr_bounds_def Let_def)
qed simp

lemma foldl_min_Min: "foldl min (m :: nat) xs = Min (insert m (set xs))"
  by (rule Min_eqI [symmetric]) (use foldl_min in auto)

definition tops_in :: "conf \<Rightarrow> (nat \<Rightarrow> bool) \<Rightarrow> nat set" where
  "tops_in C P = {xt_top x | p x. P p \<and> xacts C p = Some x}"

lemma slot_tops_all:
  assumes "conf_ok C"
  shows "set (slot_tops C P [0..<length (procs C)]) = tops_in C P"
  unfolding slot_tops_set tops_in_def using conf_xact(1) [OF assms] by blast

lemma procs_image: "(\<lambda>i. procs C ! i) ` {0..<length (procs C)} = set (procs C)"
  by (auto simp: set_conv_nth)

lemma cached_all:
  assumes C: "conf_ok C" and ov: "\<not> any_overflow C [0..<length (procs C)]"
  shows "set (concat (map (\<lambda>i. cached_xids (allProcs (mem C) (procs C ! i))) [0..<length (procs C)])) = xid_of ` (\<Union>{xt_subs x | p x. xacts C p = Some x})"
proof -
  have c: "set (cached_xids (allProcs (mem C) p)) = (case xacts C p of None \<Rightarrow> {} | Some x \<Rightarrow> xid_of ` xt_subs x)" if p: "p \<in> set (procs C)" for p
  proof -
    obtain i where "i < length (procs C)" "procs C ! i = p" using p by (auto simp: in_set_conv_nth)
    then have "\<not> sx_overflowed (subxidStatus (allProcs (mem C) p))" using ov by (auto simp: any_overflow_def)
    then show ?thesis
      using conf_okD(6) [OF C p] by (auto simp: slot_ok_def idle_def shows_xact_def cached_xids_def no_subxids_def split: option.splits)
  qed
  have "set (concat (map (\<lambda>i. cached_xids (allProcs (mem C) (procs C ! i))) [0..<length (procs C)])) = (\<Union>p \<in> set (procs C). set (cached_xids (allProcs (mem C) p)))"
    unfolding procs_image [of C, symmetric] by simp
  also have "\<dots> = (\<Union>p \<in> set (procs C). \<Union>x \<in> set_option (xacts C p). xid_of ` xt_subs x)"
    by (intro SUP_cong refl) (simp add: c split: option.split)
  also have "\<dots> = xid_of ` (\<Union>{xt_subs x | p x. xacts C p = Some x})"
  proof -
    have "(\<Union>p \<in> set (procs C). \<Union>x \<in> set_option (xacts C p). xt_subs x) = \<Union>{xt_subs x | p x. xacts C p = Some x}"
      using conf_xact(1) [OF C] by fastforce
    then show ?thesis by (simp only: image_UN [symmetric])
  qed
  finally show ?thesis .
qed

text \<open>The list fits into the workspace.\<close>

lemma concat_bound: "\<forall>i \<in> set is. length (g i) \<le> k \<Longrightarrow> length (concat (map g is)) \<le> k * length is"
  by (induction "is") auto

lemma running_fits:
  assumes C: "conf_ok C"
  shows "length (slot_tops C P [0..<length (procs C)]) + length (concat (map (\<lambda>i. cached_xids (allProcs (mem C) (procs C ! i))) [0..<length (procs C)]))
    \<le> GetMaxSnapshotSubxidCount (mem C)" (is "?a + ?b \<le> _")
proof -
  have "length (cached_xids (allProcs (mem C) p)) \<le> 64" for p
    using conf_okD(1) [OF C] by (simp add: pa_wf_def proc_ok_def cached_xids_def PGPROC_MAX_CACHED_SUBXIDS_def)
  then have "?b \<le> 64 * length [0..<length (procs C)]" by (intro concat_bound) simp
  moreover have "?a \<le> 1 * length [0..<length (procs C)]"
    unfolding slot_tops_def by (rule concat_bound) (simp split: option.split)
  moreover have "length (procs C) \<le> maxProcs (mem C)" using conf_okD(1) [OF C] by (simp add: pa_wf_def)
  ultimately show ?thesis by (simp add: GetMaxSnapshotSubxidCount_def PGPROC_MAX_CACHED_SUBXIDS_def)
qed

lemma GetRunningTransactionData_run:
  assumes C: "conf_ok C" and env: "\<not> pe_recovery_in_progress env"
  shows "\<exists>rt. GetRunningTransactionData env db (mem C) = Inr rt \<and> length (rt_xids rt) = rt_xcnt rt + rt_subxcnt rt
    \<and> set (take (rt_xcnt rt) (rt_xids rt)) = xid_of ` tops_in C (\<lambda>_. True)
    \<and> (rt_subxid_overflow rt \<longleftrightarrow> (\<exists>p \<in> set (procs C). sx_overflowed (subxidStatus (allProcs (mem C) p))))
    \<and> (if rt_subxid_overflow rt then rt_subxcnt rt = 0 else set (rt_xids rt) = xid_of ` {f. running (xacts C) f})
    \<and> rt_next_xid rt = xid_of (nxt C) \<and> rt_latest_completed_xid rt = xid_of (completed C)
    \<and> rt_oldest_running_xid rt = xid_of (Min (insert (nxt C) (tops_in C (\<lambda>_. True))))
    \<and> rt_oldest_database_running_xid rt = xid_of (Min (insert (nxt C) (tops_in C (in_db C db))))
    \<and> length (rt_xids rt) \<le> GetMaxSnapshotSubxidCount (mem C)"
proof -
  let ?is = "[0..<length (procs C)]" and ?n = "nxt C"
  note K = conf_okD(4) [OF C, unfolded counters_ok_def] and A = conf_okD(2) [OF C, unfolded counters_are_def]
  have np: "numProcs (mem C) = length (procs C)" using conf_okD(1) [OF C] by (simp add: pa_wf_def)
  have nx: "fxid_xid (nextFullXid (mem C)) = xid_of ?n" using A by (simp add: nextFullXid_def fxid_of_def [symmetric])
  have sub: "set ?is \<subseteq> {..<length (procs C)}" by auto
  have n: "normal_full ?n" "oldest C \<le> ?n" using K counters_window(3) [OF conf_okD(4) [OF C]] by simp_all
  let ?o1 = "Min (insert ?n (tops_in C (\<lambda>_. True)))" and ?o2 = "Min (insert ?n (tops_in C (in_db C db)))"
  have tops: "running_tops db (mem C) ?is ([], xid_of ?n, xid_of ?n, False)
      = Inr (map xid_of (slot_tops C (\<lambda>_. True) ?is), xid_of ?o1, xid_of ?o2, any_overflow C ?is)"
    using running_tops_ok [OF C sub n le_refl n le_refl, of db "[]" False] by (simp add: foldl_min_Min slot_tops_all [OF C])
  have tn: "normal_full t" if "t \<in> tops_in C P" for t P using that conf_xact(3) [OF C] by (auto simp: tops_in_def xact_ok_def tree_def)
  have "finite (tops_in C (\<lambda>_. True))" using slot_tops_all [OF C, symmetric] by simp
  then have "?o1 \<in> insert ?n (tops_in C (\<lambda>_. True))" by (intro Min_in) auto
  then have v: "xid_of ?o1 \<noteq> 0" "xid_of ?n \<noteq> 0" "TransactionIdIsNormal (xid_of (completed C))"
    using tn n K xid_of_valid by (auto simp: xid_of_normal)
  have run: "running (xacts C) f \<longleftrightarrow> f \<in> tops_in C (\<lambda>_. True) \<or> f \<in> \<Union>{xt_subs x | p x. xacts C p = Some x}" for f
    unfolding running_def tree_def tops_in_def by blast
  have ovp: "any_overflow C ?is \<longleftrightarrow> (\<exists>p \<in> set (procs C). sx_overflowed (subxidStatus (allProcs (mem C) p)))"
    unfolding procs_image [of C, symmetric] by (simp add: any_overflow_def)
  have ts: "set (map xid_of (slot_tops C (\<lambda>_. True) ?is)) = xid_of ` tops_in C (\<lambda>_. True)" by (simp add: slot_tops_all [OF C])
  define subs where "subs = (if any_overflow C ?is then [] else concat (map (\<lambda>i. cached_xids (allProcs (mem C) (procs C ! i))) ?is))"
  have rs: "(if \<not> any_overflow C ?is then running_subs (mem C) ?is [] else Inr []) = Inr subs"
    using running_subs_ok [OF C sub, of "[]"] by (simp add: subs_def)
  have all: "xid_of ` tops_in C (\<lambda>_. True) \<union> set subs = xid_of ` {f. running (xacts C) f}" if "\<not> any_overflow C ?is"
  proof -
    have s: "set subs = xid_of ` (\<Union>{xt_subs x | p x. xacts C p = Some x})"
      unfolding subs_def using that cached_all [OF C that] by (simp only: if_False)
    have "{f. running (xacts C) f} = tops_in C (\<lambda>_. True) \<union> \<Union>{xt_subs x | p x. xacts C p = Some x}" using run by blast
    then show ?thesis unfolding s by (simp only: image_Un)
  qed
  let ?rt = "\<lparr> rt_xids = map xid_of (slot_tops C (\<lambda>_. True) ?is) @ subs, rt_xcnt = length (slot_tops C (\<lambda>_. True) ?is), rt_subxcnt = length subs,
       rt_subxid_overflow = any_overflow C ?is, rt_next_xid = xid_of ?n, rt_oldest_running_xid = xid_of ?o1, rt_oldest_database_running_xid = xid_of ?o2,
       rt_latest_completed_xid = xid_of (completed C) \<rparr>"
  have "GetRunningTransactionData env db (mem C) = Inr ?rt"
    unfolding GetRunningTransactionData_def Let_def nx conf_latest(2) [OF C] np tops bindR_simps prod.case rs
    using env v by (simp add: TransactionIdIsValid_def InvalidTransactionId_def)
  moreover have "if any_overflow C ?is then length subs = 0 else set (map xid_of (slot_tops C (\<lambda>_. True) ?is) @ subs) = xid_of ` {f. running (xacts C) f}"
    using all ts by (simp add: subs_def)
  moreover have "length (slot_tops C (\<lambda>_. True) ?is) + length subs \<le> GetMaxSnapshotSubxidCount (mem C)"
    using running_fits [OF C] by (simp add: subs_def) (metis add_leD1)
  ultimately show ?thesis using ts ovp by (intro exI [of _ ?rt]) (simp only: RunningTransactions.simps length_append length_map take_append simp_thms, simp)
qed

text \<open>
  C28: the running transactions logged for standbys are exact. Outside recovery \<^verbatim>\<open>GetRunningTransactionData\<close> returns; the first part of the list holds the ids of
  all top-level transactions, and the whole list all running ids, subtransactions included, unless a cache has overflowed, which is said; the next id, the latest
  completed one and the oldest running ids, of all databases and of one, are those of the configuration.
\<close>

theorem GetRunningTransactionData_exact:
  assumes "conf_reach C" and env: "\<not> pe_recovery_in_progress env"
  shows "\<exists>rt. GetRunningTransactionData env db (mem C) = Inr rt \<and> length (rt_xids rt) = rt_xcnt rt + rt_subxcnt rt
    \<and> set (take (rt_xcnt rt) (rt_xids rt)) = xid_of ` tops_in C (\<lambda>_. True)
    \<and> (rt_subxid_overflow rt \<longleftrightarrow> (\<exists>p \<in> set (procs C). sx_overflowed (subxidStatus (allProcs (mem C) p))))
    \<and> (if rt_subxid_overflow rt then rt_subxcnt rt = 0 else set (rt_xids rt) = xid_of ` {f. running (xacts C) f})
    \<and> rt_next_xid rt = xid_of (nxt C) \<and> rt_latest_completed_xid rt = xid_of (completed C)
    \<and> rt_oldest_running_xid rt = xid_of (Min (insert (nxt C) (tops_in C (\<lambda>_. True))))
    \<and> rt_oldest_database_running_xid rt = xid_of (Min (insert (nxt C) (tops_in C (in_db C db))))
    \<and> length (rt_xids rt) \<le> GetMaxSnapshotSubxidCount (mem C)"
  by (rule GetRunningTransactionData_run [OF conf_reach_ok [OF assms(1)] env])

theorem GetRunningTransactionData_exact_witness:
  "\<exists>rt. GetRunningTransactionData ex_env 0 (mem ex_conf) = Inr rt \<and> set (take (rt_xcnt rt) (rt_xids rt)) = {101} \<and> rt_next_xid rt = 103
     \<and> rt_latest_completed_xid rt = 102 \<and> rt_oldest_running_xid rt = 101 \<and> rt_oldest_database_running_xid rt = 101"
proof -
  have "tops_in ex_conf P = (if P 1 then {101} else {})" for P
    by (auto simp: tops_in_def ex_conf_fields split: if_splits)
  moreover have "\<not> pe_recovery_in_progress ex_env" by (simp add: ex_env_def)
  ultimately show ?thesis
    using GetRunningTransactionData_exact [OF ex_conf_reach, of ex_env 0] by (auto simp: ex_conf_fields(1-5) ex_conf_mem xid_of_def)
qed

end
