(* ===== verification/StandbySpec.thy ===== *)
theory StandbySpec
  imports StandbyLocks KnownAssignedOps ProcRunning
begin

section \<open>What a standby learns about the primary\<close>

text \<open>
  The record of the running transactions is read back as it was written, replaying it builds the known assigned ids, and a snapshot taken on the standby
  shows the transactions that were running on the primary.
\<close>

subsection \<open>The record of running transactions\<close>

lemma to_ne_bytes_length [simp]: "length (to_ne_bytes w) = 4"
  by (simp add: to_ne_bytes_def)

lemma read_u32s_append:
  "read_u32s (pre @ concat (map to_ne_bytes xs) @ post) (length pre) (length xs) = Inr xs"
proof (induction xs arbitrary: pre)
  case (Cons x xs)
  show ?case using Cons.IH [of "pre @ to_ne_bytes x"] by (simp add: ne_bytes_roundtrip)
qed simp

lemma header_bytes:
  "running_xacts_header rt = concat (map to_ne_bytes [word_of_nat (rt_xcnt rt), word_of_nat (rt_subxcnt rt)])
     @ [if rt_subxid_overflow rt then 1 else 0, 0, 0, 0]
     @ concat (map to_ne_bytes [rt_next_xid rt, rt_oldest_running_xid rt, rt_latest_completed_xid rt])"
  by (simp add: running_xacts_header_def)

lemma sint_count: "n < 2 ^ 31 \<Longrightarrow> sint (word_of_nat n :: u32) = int n"
  by (simp add: sint_uint unsigned_of_nat take_bit_nat_eq_self signed_take_bit_int_eq_self of_nat_take_bit [symmetric])

text \<open>What replay makes of the record for \<open>rt\<close>.\<close>

definition replayed :: "RunningTransactions \<Rightarrow> RunningTransactionsData" where
  "replayed rt =
     \<lparr> run_xcnt = int (rt_xcnt rt), run_subxcnt = int (rt_subxcnt rt),
       run_subxid_status = (if rt_subxid_overflow rt then SUBXIDS_MISSING else SUBXIDS_IN_ARRAY),
       run_nextXid = rt_next_xid rt, run_oldestRunningXid = rt_oldest_running_xid rt,
       run_oldestDatabaseRunningXid = rt_oldest_running_xid rt, run_latestCompletedXid = rt_latest_completed_xid rt, run_xids = rt_xids rt \<rparr>"

lemma parse_running_header:
  assumes len: "length (rt_xids rt) = rt_xcnt rt + rt_subxcnt rt" "length (rt_xids rt) < 2 ^ 31" and al: "sb_alloc env (length (rt_xids rt)) = Inr ()"
  shows "parse_running env (running_xacts_header rt @ concat (map to_ne_bytes (rt_xids rt))) = Inr (replayed rt)"
proof -
  let ?h = "running_xacts_header rt" and ?b = "concat (map to_ne_bytes (rt_xids rt))"
  have l: "length ?h = 24" by (simp add: running_xacts_header_def)
  have r1: "read_u32s (?h @ ?b) 0 2 = Inr [word_of_nat (rt_xcnt rt), word_of_nat (rt_subxcnt rt)]"
    using read_u32s_append [of "[]" "[word_of_nat (rt_xcnt rt), word_of_nat (rt_subxcnt rt)]"] unfolding header_bytes by (simp del: read_u32s.simps add: numeral_2_eq_2 split del: if_split)
  have r2: "read_u32s (?h @ ?b) 12 3 = Inr [rt_next_xid rt, rt_oldest_running_xid rt, rt_latest_completed_xid rt]"
    using read_u32s_append [of "to_ne_bytes (word_of_nat (rt_xcnt rt)) @ to_ne_bytes (word_of_nat (rt_subxcnt rt)) @ [if rt_subxid_overflow rt then 1 else 0, 0, 0, 0]"
        "[rt_next_xid rt, rt_oldest_running_xid rt, rt_latest_completed_xid rt]" ?b] unfolding header_bytes by (simp del: read_u32s.simps add: numeral_3_eq_3 split del: if_split)
  have r3: "read_u32s (?h @ ?b) 24 (length (rt_xids rt)) = Inr (rt_xids rt)"
    using read_u32s_append [of ?h "rt_xids rt" "[]"] l by simp
  have f: "(?h @ ?b) ! 8 = (if rt_subxid_overflow rt then 1 else 0)"
    by (simp add: running_xacts_header_def nth_append)
  have s: "sint (word_of_nat (rt_xcnt rt) :: u32) = int (rt_xcnt rt)" "sint (word_of_nat (rt_subxcnt rt) :: u32) = int (rt_subxcnt rt)"
    using len by (simp_all add: sint_count)
  have t: "nat ((int (rt_xcnt rt) + int (rt_subxcnt rt)) mod 2 ^ 64) = length (rt_xids rt)"
    using len by (simp add: nat_eq_iff)
  show ?thesis
    unfolding parse_running_def r1 bindR_simps r2 Let_def nth_Cons_0 s f
    using len l al r3 t s by (simp add: replayed_def)
qed

subsection \<open>Replaying the record\<close>

text \<open>
  A standby \<open>s\<close> that has just begun to track transactions, behind the primary's configuration \<open>C\<close>: \<open>c\<close> is the latest id that it knows to have completed, \<open>n\<close> its next
  id and \<open>l\<close> the last one observed.
\<close>

definition behind :: "conf \<Rightarrow> nat \<Rightarrow> nat \<Rightarrow> nat \<Rightarrow> startup \<Rightarrow> bool" where
  "behind C c n l s \<longleftrightarrow> kax_inv [] s \<and> standby_state s = STANDBY_INITIALIZED
     \<and> latestCompletedXid s = word_of_nat c \<and> nextXid s = word_of_nat n \<and> LATEST_OBSERVED_XID s = xid_of l
     \<and> normal_full c \<and> normal_full n \<and> normal_full l \<and> 3 < oldest C \<and> oldest C \<le> c \<and> c < nxt C \<and> oldest C \<le> n \<and> n \<le> nxt C
     \<and> oldest C \<le> l \<and> l < nxt C \<and> maxKnownAssignedXids s + 1 < 2 ^ 31"

text \<open>The calls that replay makes succeed, and the fate of every running transaction is known or open.\<close>

definition replay_env :: "conf \<Rightarrow> kax_env \<Rightarrow> bool" where
  "replay_env C env \<longleftrightarrow> v_startup_process (k_varsup env) \<and> (\<forall>x. k_extend_subtrans env x = Inr ()) \<and> (\<forall>x. k_release_old_locks env x = Inr ())
     \<and> (\<forall>f. running (xacts C) f \<longrightarrow> (\<exists>a b. k_did_commit env (xid_of f) = Inr a \<and> k_did_abort env (xid_of f) = Inr b))"

definition still_open :: "kax_env \<Rightarrow> nat \<Rightarrow> bool" where
  "still_open env f \<longleftrightarrow> k_did_commit env (xid_of f) = Inr False \<and> k_did_abort env (xid_of f) = Inr False"

lemma window_image:
  assumes inj: "inj_on xid_of R" and xs: "set xs = xid_of ` R"
  obtains fs where "xs = map xid_of fs" "set fs = R"
proof
  have "xid_of (inv_into R xid_of x) = x" if "x \<in> set xs" for x using that by (simp add: xs f_inv_into_f)
  then show "xs = map xid_of (map (inv_into R xid_of) xs)" by (simp add: map_idI)
  show "set (map (inv_into R xid_of) xs) = R" using inj by (simp add: xs image_image)
qed

lemma oldest_running_prev:
  assumes C: "conf_ok C" and r: "r = Min (insert (nxt C) (tops_in C (\<lambda>_. True)))" "3 < oldest C"
  shows "normal_full r" "oldest C \<le> r" "r \<le> nxt C" "prev_full r \<le> completed C"
proof -
  have fin: "finite (tops_in C (\<lambda>_. True))" using slot_tops_all [OF C, symmetric] by simp
  have "r \<in> insert (nxt C) (tops_in C (\<lambda>_. True))" unfolding r using fin by (intro Min_in) auto
  then show nr: "normal_full r" and lo: "oldest C \<le> r"
    using conf_okD(4) [OF C] counters_window(3) [OF conf_okD(4) [OF C]] conf_xact(3) [OF C]
    by (auto simp: tops_in_def counters_ok_def xact_ok_def tree_def)
  show "r \<le> nxt C" unfolding r using fin by (intro Min_le) auto
  have K: "completed C < nxt C" "normal_full (nxt C)" using conf_okD(4) [OF C] by (simp_all add: counters_ok_def)
  have "r \<le> next_full (completed C)"
  proof (cases "next_full (completed C) = nxt C")
    case True
    then show ?thesis using \<open>r \<le> nxt C\<close> by simp
  next
    case False
    then have "next_full (completed C) < nxt C" using next_full_least [OF K] by simp
    then obtain p x where x: "xacts C p = Some x" "next_full (completed C) \<in> tree x"
      using conf_okD(7) [OF C next_full_props(3) next_full_props(1)] by (auto simp: running_def)
    then have "xt_top x \<le> next_full (completed C)" using conf_xact(3) [OF C x(1)] by (auto simp: xact_ok_def tree_def)
    moreover have "xt_top x \<in> tops_in C (\<lambda>_. True)" using x(1) by (auto simp: tops_in_def)
    then have "r \<le> xt_top x" unfolding r using fin by (intro Min_le) auto
    ultimately show ?thesis by simp
  qed
  moreover have "prev_full r < r" "normal_full (prev_full r)" using prev_full_props [of r] r(2) lo by simp_all
  ultimately show "prev_full r \<le> completed C"
    using next_full_least [of "completed C" "prev_full r"] by (cases "completed C < prev_full r") auto
qed

lemma Apply_run:
  assumes C: "conf_ok C" and s: "behind C c n l s" and env: "replay_env C env"
    and rt: "length (rt_xids rt) = rt_xcnt rt + rt_subxcnt rt" "\<not> rt_subxid_overflow rt" "set (rt_xids rt) = xid_of ` {f. running (xacts C) f}"
      "rt_next_xid rt = xid_of (nxt C)" "rt_latest_completed_xid rt = xid_of (completed C)"
      "rt_oldest_running_xid rt = xid_of (Min (insert (nxt C) (tops_in C (\<lambda>_. True))))"
    and room: "int (length (rt_xids rt)) \<le> maxKnownAssignedXids s"
    and epoch: "\<forall>f. running (xacts C) f \<longrightarrow> f div 2 ^ 32 = nxt C div 2 ^ 32"
  shows "\<exists>ps' s'. ProcArrayApplyRecoveryInfo env (replayed rt) s = (Inr (), s') \<and> kax_inv ps' s'
       \<and> set (live ps') = {f. running (xacts C) f \<and> still_open env f} \<and> ring_fulls ps' \<subseteq> {f. running (xacts C) f}
       \<and> latestCompletedXid s' = word_of_nat (max c (completed C)) \<and> standby_state s' = STANDBY_SNAPSHOT_READY
       \<and> lastOverflowedXid s' = InvalidTransactionId \<and> same_array s s'"
proof -
  let ?R = "{f. running (xacts C) f}" and ?r = "Min (insert (nxt C) (tops_in C (\<lambda>_. True)))" and ?N = "nxt C"
  note b = s [unfolded behind_def] and K = conf_okD(4) [OF C, unfolded counters_ok_def]
  have hi: "?N \<le> oldest C + 2145000000" using K by simp
  have R: "normal_full f" "oldest C \<le> f" "f < ?N" if "f \<in> ?R" for f using conf_running [OF C] that by simp_all
  have near: "near x y" if "oldest C \<le> x + 4" "oldest C \<le> y + 4" "x \<le> ?N" "y \<le> ?N" for x y
    using that hi by (intro window_near [of "oldest C"]) auto
  have nearR: "near x y" if "x \<in> ?R" "y \<in> ?R" for x y using R [OF that(1)] R [OF that(2)] by (intro near) auto
  have "inj_on xid_of ?R" using nearR xid_of_inj by (auto intro!: inj_onI)
  then obtain fs where fs: "rt_xids rt = map xid_of fs" "set fs = ?R" using rt(3) by (rule window_image)
  have win: "window (set fs)" using R(1) nearR by (auto simp: window_def fs(2))
  have ord: "\<forall>x \<in> set fs. \<forall>y \<in> set fs. x \<le> y \<longrightarrow> xid_of x \<le> xid_of y"
  proof (intro ballI impI)
    fix x y assume "x \<in> set fs" "y \<in> set fs" "x \<le> y"
    then have "x div 2 ^ 32 = y div 2 ^ 32" using epoch by (simp add: fs(2))
    then have "x mod 2 ^ 32 \<le> y mod 2 ^ 32" using \<open>x \<le> y\<close> by (metis add_le_cancel_left div_mult_mod_eq)
    then show "xid_of x \<le> xid_of y" by (simp add: word_le_nat_alt unat_xid_of)
  qed
  have r: "normal_full ?r" "oldest C \<le> ?r" "?r \<le> ?N" "prev_full ?r \<le> completed C"
    using oldest_running_prev [OF C refl] b by simp_all
  have r3: "3 < ?r" "3 < ?N" using r(2,3) b by linarith+
  note pr = prev_full_props [OF r3(1)] and pN = prev_full_props [OF r3(2)]
  have lo: "oldest C \<le> prev_full ?r + 4" "oldest C \<le> prev_full ?N + 4" "prev_full ?r \<le> ?N" "prev_full ?N \<le> ?N"
    using r(2,3) pr(1,2) pN(1,2) by linarith+
  have "\<exists>ps' s'. ExpireOldKnownAssignedTransactionIds env (xid_of ?r) s = (Inr (), s') \<and> kax_inv ps' s' \<and> live ps' = filter (\<lambda>x. ?r \<le> x \<or> False) (live [])
       \<and> latestCompletedXid s' = word_of_nat (max c (prev_full ?r)) \<and> nextXid s' = nextXid s \<and> LATEST_OBSERVED_XID s' = LATEST_OBSERVED_XID s
       \<and> standby_state s' = standby_state s \<and> same_array s s' \<and> ring_fulls ps' \<subseteq> ring_fulls []"
    using b r3 r(1) pr lo by (intro ExpireOld_run [where n = n]) (auto simp: ring_fulls_def intro!: near)
  then obtain ps1 s1 where e: "ExpireOldKnownAssignedTransactionIds env (xid_of ?r) s = (Inr (), s1)" "kax_inv ps1 s1" "ring_fulls ps1 \<subseteq> {}"
    "latestCompletedXid s1 = word_of_nat (max c (prev_full ?r))" "nextXid s1 = nextXid s" "LATEST_OBSERVED_XID s1 = LATEST_OBSERVED_XID s"
    "standby_state s1 = standby_state s" "same_array s s1" by (auto simp: ring_fulls_def)
  have ps1: "ps1 = []" using e(3) by (simp add: ring_fulls_def)
  let ?n = "max n (next_full (prev_full ?N))"
  let ?s2 = "s1 \<lparr> nextXid := word_of_nat ?n \<rparr>"
  have nN: "next_full (prev_full ?N) \<le> ?N" using next_full_least [OF pN(1)] K by simp
  have n: "normal_full ?n" "oldest C \<le> ?n" "?n \<le> ?N" using b nN next_full_props(3) [of "prev_full ?N"] by (auto simp: max_def)
  have adv: "AdvanceNextFullTransactionIdPastXid (k_varsup env) (TransactionIdRetreat_loop (xid_of ?N)) s1 = (Inr (), ?s2)"
    unfolding Retreat_nat [OF r3(2)] using b K e(5) env pN(3) lo(2,4) by (intro advance_max) (auto simp: replay_env_def intro!: near)
  have inv2: "kax_inv [] ?s2" by (rule kax_inv_cong [OF e(2) [unfolded ps1]]) simp_all
  let ?m = "max c (prev_full ?r)"
  have m: "normal_full ?m" "oldest C \<le> ?m + 4" "?m \<le> ?N" using b pr(3) lo(1,3) by (auto simp: max_def)
  have cm: "oldest C \<le> completed C + 4" "completed C \<le> ?N" using K counters_window(1) [OF conf_okD(4) [OF C]] by simp_all
  have "\<exists>ps' s'. build_known_assigned env (replayed rt) ?s2 = (Inr (), s') \<and> kax_inv ps' s'
       \<and> set (live ps') = set (unfinished env fs) \<and> LATEST_OBSERVED_XID s' = xid_of (prev_full ?N)
       \<and> latestCompletedXid s' = word_of_nat (max ?m (completed C))
       \<and> standby_state s' = (if run_subxid_status (replayed rt) = SUBXIDS_MISSING then STANDBY_SNAPSHOT_PENDING else STANDBY_SNAPSHOT_READY)
       \<and> ring_fulls ps' \<subseteq> set fs \<and> same_array ?s2 s'
       \<and> lastOverflowedXid s' = (if run_subxid_status (replayed rt) = SUBXIDS_IN_ARRAY then InvalidTransactionId else xid_of (prev_full ?N))"
  proof (rule build_run [OF inv2 _ _ win ord, where l = l and n = ?n])
    show "\<forall>f \<in> set fs. \<exists>c a. k_did_commit env (xid_of f) = Inr c \<and> k_did_abort env (xid_of f) = Inr a"
      using env by (simp add: replay_env_def fs(2))
    show "int (length fs) \<le> maxKnownAssignedXids ?s2" "maxKnownAssignedXids ?s2 + 1 < 2 ^ 31"
      using room b e(8) by (simp_all add: fs(1) same_array_def)
    show "near ?m (completed C)" "near (completed C) ?n" using m n cm by (auto intro!: near)
    show "nxt C < l + 2 ^ 31" using b hi by simp
  qed (use b e rt env K m n fs in \<open>simp_all add: replayed_def replay_env_def\<close>)
  then obtain ps' s' where f: "build_known_assigned env (replayed rt) ?s2 = (Inr (), s')" "kax_inv ps' s'"
    "set (live ps') = set (unfinished env fs)" "latestCompletedXid s' = word_of_nat (max ?m (completed C))" "standby_state s' = STANDBY_SNAPSHOT_READY"
    "ring_fulls ps' \<subseteq> set fs" "same_array ?s2 s'" "lastOverflowedXid s' = InvalidTransactionId"
    using rt(2) by (auto simp: replayed_def)
  have v: "TransactionIdIsValid (xid_of ?N)" "TransactionIdIsValid (xid_of ?r)" "TransactionIdIsNormal (xid_of (completed C))"
    using K r(1) by (auto simp: xid_of_normal)
  have "ProcArrayApplyRecoveryInfo env (replayed rt) s = (Inr (), s')"
    using b v e(1,7) adv f(1) env rt by (simp add: ProcArrayApplyRecoveryInfo_def replayed_def replay_env_def)
  moreover have "max ?m (completed C) = max c (completed C)" using r(4) by simp
  moreover have "set (unfinished env fs) = {f. running (xacts C) f \<and> still_open env f}" by (auto simp: unfinished_def still_open_def fs(2))
  moreover have "same_array s s'" using e(8) f(7) by (simp add: same_array_def)
  ultimately show ?thesis using f fs(2) by (intro exI [of _ ps'] exI [of _ s']) simp
qed

subsection \<open>A snapshot on the standby\<close>

lemma takeWhile_sorted: "sorted_wrt (<) (xs :: nat list) \<Longrightarrow> set (takeWhile (\<lambda>x. x < m) xs) = {x \<in> set xs. x < m}"
  by (induction xs) auto

lemma live_sorted: "ring_sorted ps \<Longrightarrow> sorted_wrt (<) (live ps)"
  by (simp add: live_def ring_sorted_def sorted_wrt_map sorted_wrt_filter)

text \<open>A process of the standby: it has a slot and, as every process of a standby, no transaction id.\<close>

definition standby_backend :: "nat \<Rightarrow> 'a ProcArrayStruct_scheme \<Rightarrow> bool" where
  "standby_backend me s \<longleftrightarrow> pgxactoff (allProcs s me) < length (hdr_xids s) \<and> hdr_xids s ! pgxactoff (allProcs s me) = InvalidTransactionId
     \<and> proc_xid (allProcs s me) = InvalidTransactionId \<and> TransactionIdIsValid (oldestXid s)
     \<and> maxKnownAssignedXids s \<le> int ((PGPROC_MAX_CACHED_SUBXIDS + 1) * maxProcs s)"

text \<open>The least id that the snapshot of a ring holds as running, when \<open>m\<close> is the upper bound.\<close>

definition ring_min :: "ring \<Rightarrow> nat \<Rightarrow> nat" where
  "ring_min ps m = (if live ps \<noteq> [] then min (hd (live ps)) m else m)"

lemma ring_min_props:
  assumes "ring_sorted ps"
  shows "normal_full (ring_min ps (next_full c))" "near f (next_full c) \<Longrightarrow> \<forall>x \<in> ring_fulls ps. near f x \<Longrightarrow> near f (ring_min ps (next_full c))"
proof -
  have "hd (live ps) \<in> ring_fulls ps" if "live ps \<noteq> []" using hd_in_set [OF that] live_subset [of ps] by blast
  with assms show "normal_full (ring_min ps (next_full c))" "near f (next_full c) \<Longrightarrow> \<forall>x \<in> ring_fulls ps. near f x \<Longrightarrow> near f (ring_min ps (next_full c))"
    by (auto simp: ring_min_def min_def ring_sorted_def next_full_props)
qed

lemma recovery_snapshot_run:
  assumes inv: "kax_inv ps t" and lc: "latestCompletedXid t = word_of_nat c" "normal_full c" and ne: "\<forall>x \<in> ring_fulls ps. near x (next_full c)"
    and me: "standby_backend me t" and ov: "lastOverflowedXid t = InvalidTransactionId"
    and env: "pe_recovery_in_progress env" "pe_current_command_id env = Inr cid"
    and pub: "proc_xmin (allProcs (view (numProcs t)) me) = InvalidTransactionId"
  shows "\<exists>sn s' b'. build_snapshot env me view sn0 t b = (Inr (), sn, s', b') \<and> takenDuringRecovery sn \<and> \<not> suboverflowed sn
    \<and> snap_xmin sn = xid_of (ring_min ps (next_full c)) \<and> snap_xmax sn = xid_of (next_full c)
    \<and> snap_subxip sn = map xid_of (takeWhile (\<lambda>x. x < next_full c) (live ps)) \<and> snap_subxcnt sn = int (length (snap_subxip sn))"
proof -
  let ?m = "next_full c" and ?k = "ring_min ps (next_full c)"
  have lx: "fxid_xid (latest_completed_xid t) = xid_of c" using lc(1) by (simp add: latest_completed_xid_def fxid_of_def [symmetric])
  have srt: "ring_sorted ps" using inv by (simp add: kax_inv_def kax_core_def)
  have get: "KnownAssignedXidsGetAndSetXmin (xid_of ?m) (xid_of ?m) t = Inr (map xid_of (takeWhile (\<lambda>x. x < ?m) (live ps)), xid_of ?k)"
    unfolding ring_min_def by (rule GetAndSetXmin_ok [OF inv next_full_props(3) ne next_full_props(3) ne])
  have nk: "normal_full ?k" by (rule ring_min_props(1) [OF srt])
  have so: "\<not> TransactionIdPrecedesOrEquals (xid_of ?k) InvalidTransactionId"
    using xid_of_valid [OF nk] by (simp add: TransactionIdPrecedesOrEquals_def InvalidTransactionId_def TransactionIdIsNormal_def FirstNormalTransactionId_def word_le_nat_alt unat_eq_0)
  have sc: "recovery_scan (xid_of ?m) (xid_of ?m) t
      = Inr \<lparr> sc_xmin = xid_of ?k, sc_xip = [], sc_subxip = map xid_of (takeWhile (\<lambda>x. x < ?m) (live ps)), sc_overflowed = False \<rparr>"
    using me get so by (simp add: recovery_scan_def standby_backend_def GetMaxSnapshotSubxidCount_def ov)
  have v: "TransactionIdIsValid (xid_of c)" "\<not> TransactionIdIsValid InvalidTransactionId" "\<not> TransactionIdIsNormal InvalidTransactionId"
    using xid_of_valid [OF lc(2)] by (simp_all add: TransactionIdIsValid_def InvalidTransactionId_def TransactionIdIsNormal_def FirstNormalTransactionId_def)
  have le: "TransactionIdPrecedesOrEquals x x" for x by (simp add: TransactionIdPrecedesOrEquals_def)
  show ?thesis
    unfolding build_snapshot_def Let_def lx xid_of_next
    using me env pub sc v le by (simp add: standby_backend_def snapshot_global_vis_def Let_def)
qed

lemma recovery_snapshot_member:
  assumes sn: "takenDuringRecovery sn" "\<not> suboverflowed sn" "snap_xmin sn = xid_of (ring_min ps (next_full c))" "snap_xmax sn = xid_of (next_full c)"
      "snap_subxip sn = map xid_of (takeWhile (\<lambda>x. x < next_full c) (live ps))" "snap_subxcnt sn = int (length (snap_subxip sn))"
    and srt: "ring_sorted ps" and f: "normal_full f" "near f (next_full c)" "\<forall>x \<in> ring_fulls ps. near f x"
  shows "XidInMVCCSnapshot tm (xid_of f) sn = Inr (f \<in> set (live ps) \<or> c < f)"
proof -
  let ?m = "next_full c" and ?k = "ring_min ps (next_full c)"
  note ls = live_sorted [OF srt]
  have hd: "hd (live ps) \<le> x" if "x \<in> set (live ps)" for x
    using ls that by (cases "live ps") auto
  have lf: "\<forall>x \<in> set (live ps). near f x" using f(3) live_subset [of ps] by auto
  note k = ring_min_props(1) [OF srt] ring_min_props(2) [OF srt f(2,3)]
  have fm: "?m \<le> f \<longleftrightarrow> c < f" using next_full_least [of c f] f(1) next_full_props(1) [of c] by auto
  have p: "TransactionIdPrecedes (xid_of f) (xid_of ?k) \<longleftrightarrow> f < ?k" "TransactionIdFollowsOrEquals (xid_of f) (xid_of ?m) \<longleftrightarrow> ?m \<le> f"
    using xid_of_order(1) [OF f(1) k] xid_of_order(4) [OF f(1) next_full_props(3) f(2)] by simp_all
  have out: "f \<notin> set (live ps) \<and> \<not> c < f" if "f < ?k" using that hd [of f] fm by (auto simp: ring_min_def split: if_splits)
  have mem: "xid_of f \<in> set (map xid_of (takeWhile (\<lambda>x. x < ?m) (live ps))) \<longleftrightarrow> f \<in> set (live ps)" if "f < ?m"
  proof -
    have "xid_of f \<in> xid_of ` {x \<in> set (live ps). x < ?m} \<longleftrightarrow> f \<in> {x \<in> set (live ps). x < ?m}" using lf xid_of_inj by (auto simp: image_iff)
    then show ?thesis using that by (simp add: takeWhile_sorted [OF ls])
  qed
  have sl: "slice_to (nat (max (snap_subxcnt sn) 0)) (snap_subxip sn) = Inr (snap_subxip sn)" by (simp add: sn(6) slice_to_def)
  show ?thesis
    unfolding XidInMVCCSnapshot_def sn(3,4) p sl using sn(1,2,5) out mem fm by auto
qed

text \<open>What the backends of the standby see of the startup process's memory.\<close>

abbreviation shared :: "startup \<Rightarrow> shmem" where
  "shared s \<equiv> ProcArrayStruct.truncate s"

lemma shared_fields:
  "kax_inv ps (shared s) \<longleftrightarrow> kax_inv ps s" "standby_backend me (shared s) \<longleftrightarrow> standby_backend me s"
  "latestCompletedXid (shared s) = latestCompletedXid s" "lastOverflowedXid (shared s) = lastOverflowedXid s"
  by (simp_all add: kax_inv_def kax_core_def standby_backend_def ProcArrayStruct.truncate_def)

lemma LogStandbySnapshot_last:
  assumes "LogStandbySnapshot senv penv db s log = (Inr lsn, log')" "\<not> sb_skip_running_xacts senv" "GetRunningTransactionData penv db s = Inr rt"
  shows "last log' = \<lparr> xi_rmid = 8, xi_info = 0x10, xi_flags = 0x02, xi_main_data = running_xacts_header rt @ concat (map to_ne_bytes (rt_xids rt)) \<rparr>"
  using assms
  by (auto simp: LogStandbySnapshot_def LogCurrentRunningXacts_def LogAccessExclusiveLocks_def tryS_def bindS_def split: if_splits sum.splits)

lemma standby_redo_running:
  assumes "parse_running env data = Inr r" "ProcArrayApplyRecoveryInfo kenv r s = (Inr (), s')" "standby_state s \<noteq> STANDBY_DISABLED"
  shows "standby_redo env kenv False 0x10 data (so, s) = (Inr (), so, s')"
  using assms by (simp add: standby_redo_def)

text \<open>
  Replaying the record of the configuration \<open>C\<close>: the ring holds the transactions running in \<open>C\<close> that have not ended, and the latest completed id is the later one of primary and standby.
\<close>

definition caught_up :: "conf \<Rightarrow> kax_env \<Rightarrow> nat \<Rightarrow> ring \<Rightarrow> startup \<Rightarrow> bool" where
  "caught_up C kenv c ps s \<longleftrightarrow> kax_inv ps s \<and> set (live ps) = {f. running (xacts C) f \<and> still_open kenv f} \<and> ring_fulls ps \<subseteq> {f. running (xacts C) f}
     \<and> latestCompletedXid s = word_of_nat (max c (completed C)) \<and> lastOverflowedXid s = InvalidTransactionId"

lemma standby_replays:
  assumes C: "conf_ok C" "\<not> pe_recovery_in_progress penv" "\<forall>p \<in> set (procs C). \<not> sx_overflowed (subxidStatus (allProcs (mem C) p))"
    and log: "LogStandbySnapshot senv penv db (mem C) log = (Inr lsn, log')" "\<not> sb_skip_running_xacts senv"
    and s: "behind C c n l s" "int (GetMaxSnapshotSubxidCount (mem C)) \<le> maxKnownAssignedXids s"
    and env: "replay_env C kenv" "\<forall>k. sb_alloc renv k = Inr ()" and epoch: "\<forall>f. running (xacts C) f \<longrightarrow> f div 2 ^ 32 = nxt C div 2 ^ 32"
  shows "\<exists>ps s'. standby_redo renv kenv False (xi_info (last log')) (xi_main_data (last log')) (so, s) = (Inr (), so, s')
    \<and> caught_up C kenv c ps s' \<and> standby_state s' = STANDBY_SNAPSHOT_READY \<and> same_array s s'"
proof -
  obtain rt where rt: "GetRunningTransactionData penv db (mem C) = Inr rt" "length (rt_xids rt) = rt_xcnt rt + rt_subxcnt rt"
    "\<not> rt_subxid_overflow rt" "set (rt_xids rt) = xid_of ` {f. running (xacts C) f}" "rt_next_xid rt = xid_of (nxt C)"
    "rt_latest_completed_xid rt = xid_of (completed C)" "rt_oldest_running_xid rt = xid_of (Min (insert (nxt C) (tops_in C (\<lambda>_. True))))"
    "length (rt_xids rt) \<le> GetMaxSnapshotSubxidCount (mem C)"
    using GetRunningTransactionData_run [OF C(1,2), of db] C(3) by (metis (no_types, lifting))
  have room: "int (length (rt_xids rt)) \<le> maxKnownAssignedXids s" using rt(8) s(2) by linarith
  obtain ps s' where a: "ProcArrayApplyRecoveryInfo kenv (replayed rt) s = (Inr (), s')" "kax_inv ps s'"
    "set (live ps) = {f. running (xacts C) f \<and> still_open kenv f}" "ring_fulls ps \<subseteq> {f. running (xacts C) f}"
    "latestCompletedXid s' = word_of_nat (max c (completed C))" "standby_state s' = STANDBY_SNAPSHOT_READY"
    "lastOverflowedXid s' = InvalidTransactionId" "same_array s s'"
    using Apply_run [OF C(1) s(1) env(1) rt(2-7) room epoch] by blast
  have "length (rt_xids rt) < 2 ^ 31" using room s(1) by (simp add: behind_def)
  then have p: "parse_running renv (running_xacts_header rt @ concat (map to_ne_bytes (rt_xids rt))) = Inr (replayed rt)"
    using env(2) rt(2) by (intro parse_running_header) simp_all
  have "standby_state s \<noteq> STANDBY_DISABLED" using s(1) by (simp add: behind_def)
  then have "standby_redo renv kenv False (xi_info (last log')) (xi_main_data (last log')) (so, s) = (Inr (), so, s')"
    unfolding LogStandbySnapshot_last [OF log rt(1)] using standby_redo_running [OF p a(1)] by simp
  then show ?thesis using a by (intro exI [of _ ps] exI [of _ s']) (simp add: caught_up_def)
qed

lemma caught_up_snapshot:
  assumes C: "conf_ok C" and up: "caught_up C kenv c ps s" and c: "normal_full c" "oldest C \<le> c" "c < nxt C" and me: "standby_backend me s"
    and env: "pe_recovery_in_progress env" "pe_current_command_id env = Inr cid"
    and ended: "\<forall>f. running (xacts C) f \<and> \<not> still_open kenv f \<longrightarrow> f \<le> c"
    and sch: "snapXactCompletionCount sn0 = 0" "sch_lock sch (shared s) = shared s" "proc_xmin (allProcs (sch_scan sch (shared s) (numProcs s)) me) = InvalidTransactionId"
  shows "\<exists>sn t b'. GetSnapshotData env me sch sn0 (shared s) b = (Inr (), sn, t, b')
    \<and> (\<forall>f tm. normal_full f \<and> oldest C \<le> f \<and> f \<le> oldest C + 2145000000 \<longrightarrow>
         XidInMVCCSnapshot tm (xid_of f) sn = Inr (running (xacts C) f \<and> still_open kenv f \<or> nxt C \<le> f))"
proof -
  let ?c = "max c (completed C)"
  note K = conf_okD(4) [OF C, unfolded counters_ok_def] and w = counters_window [OF conf_okD(4) [OF C]] and a = up [unfolded caught_up_def]
  have c': "normal_full ?c" "oldest C \<le> ?c + 4" "?c < nxt C" using c K w by (auto simp: max_def)
  have m: "next_full ?c \<le> nxt C" "?c < next_full ?c" using next_full_least [OF c'(3)] K next_full_props(1) by simp_all
  have near: "near x y" if "oldest C \<le> x + 4" "oldest C \<le> y + 4" "x \<le> oldest C + 2145000000" "y \<le> oldest C + 2145000000" for x y
    using that by (intro window_near [of "oldest C"]) auto
  have R: "oldest C \<le> f" "f < nxt C" if "f \<in> ring_fulls ps" for f using that a conf_running [OF C] by auto
  have ne: "\<forall>x \<in> ring_fulls ps. near x (next_full ?c)" using R m w c'(2) by (force intro!: near)
  have srt: "ring_sorted ps" using a by (simp add: kax_inv_def kax_core_def)
  have in_snap: "f \<in> set (live ps) \<or> ?c < f \<longleftrightarrow> running (xacts C) f \<and> still_open kenv f \<or> nxt C \<le> f" if "normal_full f" for f
    using conf_okD(7) [OF C that] ended c'(3) a by (auto simp: not_le)
  have sh: "kax_inv ps (shared s)" "latestCompletedXid (shared s) = word_of_nat ?c" "lastOverflowedXid (shared s) = InvalidTransactionId" "standby_backend me (shared s)"
    unfolding shared_fields using a me by blast+
  have np: "numProcs (shared s) = numProcs s" by (simp add: ProcArrayStruct.truncate_def)
  from recovery_snapshot_run [OF sh(1,2) c'(1) ne sh(4,3) env, where view = "sch_scan sch (shared s)", unfolded np, OF sch(3)]
  obtain sn t b' where sn: "build_snapshot env me (sch_scan sch (shared s)) sn0 (shared s) b = (Inr (), sn, t, b')"
    "takenDuringRecovery sn" "\<not> suboverflowed sn" "snap_xmin sn = xid_of (ring_min ps (next_full ?c))" "snap_xmax sn = xid_of (next_full ?c)"
    "snap_subxip sn = map xid_of (takeWhile (\<lambda>x. x < next_full ?c) (live ps))" "snap_subxcnt sn = int (length (snap_subxip sn))" by blast
  have "GetSnapshotData env me sch sn0 (shared s) b = (Inr (), sn, t, b')"
    using sch sn(1) by (simp add: GetSnapshotData_def GetSnapshotDataReuse_def)
  moreover have "XidInMVCCSnapshot tm (xid_of f) sn = Inr (running (xacts C) f \<and> still_open kenv f \<or> nxt C \<le> f)"
    if f: "normal_full f \<and> oldest C \<le> f \<and> f \<le> oldest C + 2145000000" for f tm
  proof -
    have "near f (next_full ?c)" "\<forall>x \<in> ring_fulls ps. near f x" using f R m w c'(2) by (force intro!: near)+
    then show ?thesis using recovery_snapshot_member [OF sn(2-7) srt] f in_snap by simp
  qed
  ultimately show ?thesis by blast
qed

text \<open>
  C5: a standby sees the transactions of the primary. In the configuration \<open>C\<close> of the primary, with no overflowed cache, \<^verbatim>\<open>LogStandbySnapshot\<close> writes its record; a standby that is
  behind reads these bytes and replays them. It is then ready for queries, and a snapshot that a process of the standby takes holds an id \<open>f\<close> as running exactly if
  it was running in \<open>C\<close> and has not ended on the standby meanwhile, or was not yet assigned. The hypotheses: the standby has room for as many ids as the primary may have,
  a transaction that has ended on the standby counts as completed there, and the running ids are of one epoch, without which the replay fails.
\<close>

theorem standby_snapshot_exact:
  assumes C: "conf_reach C" "\<not> pe_recovery_in_progress penv" "\<forall>p \<in> set (procs C). \<not> sx_overflowed (subxidStatus (allProcs (mem C) p))"
    and log: "LogStandbySnapshot senv penv db (mem C) log = (Inr lsn, log')" "\<not> sb_skip_running_xacts senv"
    and s: "behind C c n l s" "int (GetMaxSnapshotSubxidCount (mem C)) \<le> maxKnownAssignedXids s" "standby_backend me s"
    and env: "replay_env C kenv" "\<forall>k. sb_alloc renv k = Inr ()" "pe_recovery_in_progress env" "pe_current_command_id env = Inr cid"
    and ended: "\<forall>f. running (xacts C) f \<and> \<not> still_open kenv f \<longrightarrow> f \<le> c"
    and epoch: "\<forall>f. running (xacts C) f \<longrightarrow> f div 2 ^ 32 = nxt C div 2 ^ 32"
  shows "\<exists>s'. standby_redo renv kenv False (xi_info (last log')) (xi_main_data (last log')) (so, s) = (Inr (), so, s')
    \<and> standby_state s' = STANDBY_SNAPSHOT_READY \<and> allProcs s' = allProcs s
    \<and> (\<forall>sch sn0 b. snapXactCompletionCount sn0 = 0 \<and> sch_lock sch (shared s') = shared s'
         \<and> proc_xmin (allProcs (sch_scan sch (shared s') (numProcs s')) me) = InvalidTransactionId \<longrightarrow>
         (\<exists>sn t b'. GetSnapshotData env me sch sn0 (shared s') b = (Inr (), sn, t, b')
           \<and> (\<forall>f tm. normal_full f \<and> oldest C \<le> f \<and> f \<le> oldest C + 2145000000 \<longrightarrow>
                XidInMVCCSnapshot tm (xid_of f) sn = Inr (running (xacts C) f \<and> still_open kenv f \<or> nxt C \<le> f))))"
proof -
  have ok: "conf_ok C" by (rule conf_reach_ok [OF C(1)])
  from standby_replays [OF ok C(2,3) log s(1,2) env(1,2) epoch] obtain ps s' where
    a: "standby_redo renv kenv False (xi_info (last log')) (xi_main_data (last log')) (so, s) = (Inr (), so, s')"
      "caught_up C kenv c ps s'" "standby_state s' = STANDBY_SNAPSHOT_READY" "same_array s s'" by blast
  have c: "normal_full c" "oldest C \<le> c" "c < nxt C" using s(1) by (simp_all add: behind_def)
  have me: "standby_backend me s'" using s(3) a(4) by (simp add: standby_backend_def same_array_def)
  have "allProcs s' = allProcs s" using a(4) by (simp add: same_array_def)
  with a(1,3) caught_up_snapshot [OF ok a(2) c me env(3,4) ended] show ?thesis
    by (intro exI [of _ s'] conjI allI impI) simp_all
qed

definition ex_standby :: startup where
  "ex_standby = ex_empty \<lparr> oldestXid := 100, nextXid := 101, latestCompletedXid := 100, maxKnownAssignedXids := 130,
     knownAssignedXids := replicate 130 0, knownAssignedXidsValid := replicate 130 False, LATEST_OBSERVED_XID := 100 \<rparr>"

lemma ex_standby_ok: "behind ex_conf 100 101 100 ex_standby" "int (GetMaxSnapshotSubxidCount (mem ex_conf)) \<le> maxKnownAssignedXids ex_standby"
  "standby_backend 0 ex_standby" "replay_env ex_conf ex_kax_env" "p \<in> set (procs ex_conf) \<Longrightarrow> \<not> sx_overflowed (subxidStatus (allProcs (mem ex_conf) p))"
proof -
  show "behind ex_conf 100 101 100 ex_standby"
    by (simp add: behind_def ex_standby_def ex_empty_def ex_startup_def ex_conf_fields kax_inv_def kax_core_def ring_sorted_def ring_fulls_def normal_full_def xid_of_def)
  have "maxProcs (mem ex_conf) = 2" using ex_conf_ok by (simp add: ex_ok_def)
  then show "int (GetMaxSnapshotSubxidCount (mem ex_conf)) \<le> maxKnownAssignedXids ex_standby"
    by (simp add: GetMaxSnapshotSubxidCount_def PGPROC_MAX_CACHED_SUBXIDS_def ex_standby_def)
  show "standby_backend 0 ex_standby"
    by (simp add: standby_backend_def ex_standby_def ex_empty_def ex_startup_def initial_shmem_def ProcArrayShmemInit_def PGPROC_new_zeroed_def Let_def
        TransactionIdIsValid_def InvalidTransactionId_def PGPROC_MAX_CACHED_SUBXIDS_def NUM_AUXILIARY_PROCS_def
        TransamVariablesShared.defs PROC_HDR.defs ProcArrayStruct.defs startup.defs)
  show "replay_env ex_conf ex_kax_env" by (auto simp: replay_env_def ex_kax_env_def quiet_env_def)
  show "\<not> sx_overflowed (subxidStatus (allProcs (mem ex_conf) p))" using ex_conf_ok by (simp add: ex_ok_def plain_def no_subxids_def)
qed

lemma ex_log: "\<exists>lsn log. LogStandbySnapshot ex_senv ex_env 0 (mem ex_conf) [] = (Inr lsn, log)"
proof -
  have "\<not> pe_recovery_in_progress ex_env" by (simp add: ex_env_def)
  from GetRunningTransactionData_run [OF conf_reach_ok [OF ex_conf_reach] this, of 0] obtain rt where
    "GetRunningTransactionData ex_env 0 (mem ex_conf) = Inr rt" "length (rt_xids rt) = rt_xcnt rt + rt_subxcnt rt" by metis
  then show ?thesis by (simp add: LogStandbySnapshot_def LogCurrentRunningXacts_def ex_senv_def)
qed

theorem standby_snapshot_exact_witness:
  "\<exists>lsn log s' sn t b'. LogStandbySnapshot ex_senv ex_env 0 (mem ex_conf) [] = (Inr lsn, log)
     \<and> standby_redo ex_senv ex_kax_env False (xi_info (last log)) (xi_main_data (last log)) (None, ex_standby) = (Inr (), None, s')
     \<and> GetSnapshotData (ex_env \<lparr> pe_recovery_in_progress := True \<rparr>) 0 ex_sched (sentinel SNAPSHOT_MVCC) (shared s') ex_backend = (Inr (), sn, t, b')
     \<and> XidInMVCCSnapshot Inr 101 sn = Inr True \<and> XidInMVCCSnapshot Inr 102 sn = Inr False"
proof -
  obtain lsn log where log: "LogStandbySnapshot ex_senv ex_env 0 (mem ex_conf) [] = (Inr lsn, log)" using ex_log by blast
  let ?env = "ex_env \<lparr> pe_recovery_in_progress := True \<rparr>"
  have run: "running (xacts ex_conf) f \<longleftrightarrow> f = 101" for f by (auto simp: running_def ex_conf_fields tree_def split: if_splits)
  have op: "still_open ex_kax_env f" for f by (simp add: still_open_def ex_kax_env_def)
  have e: "\<not> pe_recovery_in_progress ex_env" "\<not> sb_skip_running_xacts ex_senv" "\<forall>k. sb_alloc ex_senv k = Inr ()" "pe_recovery_in_progress ?env"
    "pe_current_command_id ?env = Inr 0" by (simp_all add: ex_env_def ex_senv_def)
  have ep: "\<forall>f. running (xacts ex_conf) f \<longrightarrow> f div 2 ^ 32 = nxt ex_conf div 2 ^ 32" by (simp add: run ex_conf_fields(1-5))
  obtain s' where s': "standby_redo ex_senv ex_kax_env False (xi_info (last log)) (xi_main_data (last log)) (None, ex_standby) = (Inr (), None, s')"
    "allProcs s' = allProcs ex_standby"
    and sn: "\<forall>sch sn0 b. snapXactCompletionCount sn0 = 0 \<and> sch_lock sch (shared s') = shared s'
         \<and> proc_xmin (allProcs (sch_scan sch (shared s') (numProcs s')) 0) = InvalidTransactionId \<longrightarrow>
         (\<exists>sn t b'. GetSnapshotData ?env 0 sch sn0 (shared s') b = (Inr (), sn, t, b')
           \<and> (\<forall>f tm. normal_full f \<and> oldest ex_conf \<le> f \<and> f \<le> oldest ex_conf + 2145000000 \<longrightarrow>
                XidInMVCCSnapshot tm (xid_of f) sn = Inr (running (xacts ex_conf) f \<and> still_open ex_kax_env f \<or> nxt ex_conf \<le> f)))"
    using standby_snapshot_exact [OF ex_conf_reach e(1) _ log e(2) ex_standby_ok(1-3,4) e(3-5) _ ep, where so = None] ex_standby_ok(5) op by blast
  have "proc_xmin (allProcs (shared s') 0) = InvalidTransactionId"
    using s'(2) by (simp add: ProcArrayStruct.truncate_def ex_standby_def ex_empty_def ex_startup_def initial_shmem_def ProcArrayShmemInit_def PGPROC_new_zeroed_def
        Let_def InvalidTransactionId_def TransamVariablesShared.defs PROC_HDR.defs ProcArrayStruct.defs startup.defs)
  then obtain sn t b' where g: "GetSnapshotData ?env 0 ex_sched (sentinel SNAPSHOT_MVCC) (shared s') ex_backend = (Inr (), sn, t, b')"
    and x: "\<And>f tm. normal_full f \<and> oldest ex_conf \<le> f \<and> f \<le> oldest ex_conf + 2145000000 \<Longrightarrow>
                XidInMVCCSnapshot tm (xid_of f) sn = Inr (running (xacts ex_conf) f \<and> still_open ex_kax_env f \<or> nxt ex_conf \<le> f)"
    using sn [rule_format, of "sentinel SNAPSHOT_MVCC" ex_sched ex_backend] by (auto simp: sentinel_def ex_sched_def)
  have "XidInMVCCSnapshot Inr (xid_of 101) sn = Inr True" "XidInMVCCSnapshot Inr (xid_of 102) sn = Inr False"
    using x [of 101 Inr] x [of 102 Inr] by (simp_all add: run op ex_conf_fields(1-5) normal_full_def)
  then show ?thesis using log s'(1) g by (auto simp: xid_of_def)
qed

end
