(* ===== verification/Spec2Isabelle.thy ===== *)
theory Spec2Isabelle
  imports VisibilityAgree ClogTruncate FreeSpaceVacuum LockOps KnownAssignedOps SnapshotReuse ProcInProgress ProcHorizon ProcGroup StandbySpec
begin

text \<open>
  \<^bold>\<open>A verification development of the transaction core of pgrust.\<close>

  pgrust is a Rust rewrite of PostgreSQL. This development models the parts of it that decide which row
  versions a transaction sees, where the outcome of a transaction is recorded, how the free space of a
  relation is found, how the shared lock table is kept, how transaction ids are assigned, how the array of processes keeps the running transactions, from which snapshots and
  removal horizons are computed, and how a standby server tracks the running ones. Paths below are relative to \<^verbatim>\<open>src/crates/\<close>.

  \<^bold>\<open>How the parts interact.\<close> A row version carries in its header the id of the transaction that
  inserted it and of the one that deleted it. A visibility test compares these ids with a snapshot and asks for the outcome of
  the transactions. The outcome is two bits in the commit log; a subtransaction's outcome may depend on its parent, which
  the subtransaction log records. Both logs live in the pages of an SLRU buffer pool over segment files. A writer asks the free space
  map for a block, and every access is guarded by the heavyweight lock table. Ids come from one shared counter guarded by wraparound limits. Every
  process shows its id, its subtransactions and the oldest id it still needs in the process array; a snapshot is a scan of this array, and so is the horizon below which a
  vacuum may remove row versions. A
  standby server follows the primary's running transactions in a ring of known assigned ids.

  \<^bold>\<open>Conventions.\<close> Functions keep the names of the source. A fallible routine returns a value of the sum type
  \<open>'a res\<close>, with the errors of the source as constructors of \<open>pg_error\<close> and \<open>Panic\<close> for a failed assertion, an index out of range
  or an \<^verbatim>\<open>unwrap\<close>; state is passed explicitly, and an error comes with the state reached so far. Transaction ids, masks and block numbers are
  machine words, so that wraparound is that of the code. A loop that is not a recursion on data is \<open>iterate\<close>
  (theory \<open>PgPrelude\<close>), an option-valued fixed point whose value \<open>None\<close> means that the loop does not return; there is no fuel, and that
  loops return is part of the theorems. Calls into code that is not modelled are fields of records passed as
  arguments (\<open>vis_env\<close>, \<open>slru_ctl\<close>, \<open>clog_calls\<close>, \<open>fsm_env\<close>, \<open>varsup_env\<close>, \<open>kax_env\<close>, \<open>pa_env\<close>, \<open>terminate_env\<close>, \<open>standby_env\<close>); they may fail in any way unless a theorem says otherwise.

  \<^bold>\<open>Theories.\<close>

  \<^item> \<open>PgPrelude\<close>: results, loops, and facts on lists, bits and modular distance.

  \<^item> \<open>Xid\<close>: transaction ids and full transaction ids (\<^verbatim>\<open>_support/types/types_core/src/xact.rs\<close>, helpers of \<^verbatim>\<open>varsup\<close> and
    \<^verbatim>\<open>procarray\<close>). The circular 32-bit order agrees with the 64-bit order for ids less than half the circle apart.

  \<^item> \<open>ItemPtr\<close>: item pointers (\<^verbatim>\<open>types_tuple/src/itemptr.rs\<close>). Comparison, equality and the 64-bit key agree.

  \<^item> \<open>HeapTuple\<close>: the tuple header (\<^verbatim>\<open>types_tuple/src/htup.rs\<close>) and its flag bits.

  \<^item> \<open>ComboCid\<close>: combo command ids (\<^verbatim>\<open>backend/utils/time/combocid\<close>). Adjusting and reading back give the original pair; serialising
    and restoring are inverse.

  \<^item> \<open>Snapshot\<close>: snapshot data, the membership test \<^verbatim>\<open>XidInMVCCSnapshot\<close> (\<^verbatim>\<open>snapmgr\<close>), the page memo and multixact members.

  \<^item> \<open>Visibility\<close>, \<open>VisibilitySpec\<close>, \<open>VisibilityAgree\<close>: every routine of \<^verbatim>\<open>backend/access/heap/heapam_visibility\<close>. The locale
    \<open>mvcc_resolver\<close> is the interface through which the MVCC test asks for the status of a transaction; it is interpreted for the direct lookup and for the
    page memo. Shown: only hint bits change and they stay sound; the MVCC test decides a specification that does not mention hint bits; what vacuum calls dead no
    snapshot sees; the routines agree with one another where they should.

  \<^item> \<open>Slru\<close>, \<open>SlruSpec\<close>, \<open>SlruOps\<close>: the buffer pool (\<^verbatim>\<open>backend/access/transam/slru\<close>) with faults of every system call. The relation
    \<open>content\<close> is the abstract map of pages; every operation returns under any faults, keeps the invariant and refines its
    abstract counterpart. The locale \<open>page_cache\<close> is the pool's interface to the logs, interpreted for the two ways to read a page.

  \<^item> \<open>Clog\<close>, \<open>ClogTruncate\<close>: the commit log (\<^verbatim>\<open>backend/access/transam/clog\<close>). Statuses written are read back; a commit
    that spans pages and stops at an error never shows a committed parent with an unmarked child; truncation loses no live status.

  \<^item> \<open>Subtrans\<close>: the subtransaction log (\<^verbatim>\<open>backend/access/transam/subtrans\<close>). Parents written are read back; the walk to the
    topmost transaction ends on any contents.

  \<^item> \<open>Transam\<close>: transaction outcome (\<^verbatim>\<open>backend/access/transam/transam\<close>) over both logs and the one-entry cache. \<^verbatim>\<open>TransactionIdDidCommit\<close>
    decides the inductive predicate \<open>did_commit\<close>.

  \<^item> \<open>FsmPage\<close>: one page of the free space map (\<^verbatim>\<open>backend/storage/freespace/freespace/src/fsmpage.rs\<close>), a binary tree in an array. Updates keep the
    tree's invariant; the search returns on any page, torn or not, and on a sound page misses nothing.

  \<^item> \<open>FreeSpace\<close>, \<open>FreeSpaceSpec\<close>, \<open>FreeSpaceVacuum\<close>: the three-level map (\<^verbatim>\<open>freespace/src/lib.rs\<close>). Addresses map to blocks
    without overflow or overlap; a block handed out exists and has a recorded category that covers the request; recorded space is found after a vacuum.

  \<^item> \<open>LockTable\<close>, \<open>LockSpec\<close>, \<open>LockOps\<close>: the shared lock table (\<^verbatim>\<open>backend/storage/lmgr/lock\<close>). \<open>lock_reach\<close> is the inductive set of
    states reached by any interleaving of acquiring, releasing, giving up and queue reordering. In all of them conflicting holders are of one lock
    group, no waiter that could run is asleep, and the operations never run into their assertions.

  \<^item> \<open>XidNat\<close>: transaction ids as the low 32 bits of natural numbers. Within half the circle the comparisons of the code are those of
    the numbers; the theories below speak about numbers and meet the code through \<open>xid_of\<close>.

  \<^item> \<open>ProcGlobal\<close>: the shared memory of transactions and processes (\<^verbatim>\<open>varsup\<close>, \<^verbatim>\<open>types_storage/src/storage.rs\<close>, \<^verbatim>\<open>procarray\<close>)
    as records that extend each other.

  \<^item> \<open>Varsup\<close>: assigning transaction ids and object ids (\<^verbatim>\<open>backend/access/transam/varsup\<close>). Ids handed out stay within half the circle
    of the oldest one in use; object ids stay below a logged limit; recovery moves the counter only forward.

  \<^item> \<open>KnownAssigned\<close>, \<open>KnownAssignedSpec\<close>, \<open>KnownAssignedOps\<close>: the ids known to run on the primary
    (\<^verbatim>\<open>backend/storage/ipc/procarray/src/known_assigned.rs\<close>). The ring's invariant relates it to a sorted list of ids; replay adds and removes exactly the ids it should,
    and the initial build fails for ids on both sides of the 32-bit wraparound.

  \<^item> \<open>ProcArray\<close>, \<open>ProcArraySpec\<close>, \<open>ProcArrayReach\<close>, \<open>ProcProgress\<close>: the process array (\<^verbatim>\<open>backend/storage/ipc/procarray/src/lib.rs\<close>): joining and leaving,
    ending transactions, subtransaction caches, lookups, counts and signals. \<open>conf\<close> pairs the shared memory with the history it stands for, which transactions run, which ids
    are assigned, how many have ended; \<open>conf_ok\<close> relates the two, \<open>conf_step\<close> is one operation of one process, \<open>conf_reach\<close> the configurations reached. The
    invariant holds in all of them, ids can be assigned and transactions can end.

  \<^item> \<open>ProcGroup\<close>: group commit. A leader that ends the transactions of a list of waiting processes returns, ends exactly those and wakes them.

  \<^item> \<open>ProcSnapshot\<close>, \<open>ProcSnapshotSpec\<close>, \<open>SnapshotReuse\<close>: taking a snapshot while other processes are assigned ids, and reusing one. The snapshot is exact for the moment the lock
    was taken; it is reused only if it is still exact.

  \<^item> \<open>ProcInProgress\<close>, \<open>ProcHorizon\<close>, \<open>ProcRunning\<close>: \<^verbatim>\<open>TransactionIdIsInProgress\<close>, the removal horizons with the bounds each backend remembers, and the running transactions
    logged for standbys (\<^verbatim>\<open>running.rs\<close>) are exact for a reachable configuration.

  \<^item> \<open>Standby\<close>, \<open>StandbyLocks\<close>, \<open>StandbySpec\<close>: the records with which a primary describes its running transactions and exclusive locks, their replay, and the recovery lock
    tables (\<^verbatim>\<open>backend/storage/ipc/standby\<close>). A snapshot on a standby that has replayed the bytes logged by the primary shows exactly the transactions running there; old locks are
    released exactly, and a lock is held once for each transaction recorded with it.

  \<^item> This theory: properties that span components. What a snapshot calls finished is finished for whoever asks later; what a vacuum removes with a horizon from
    the process array no published snapshot sees.

  \<^bold>\<open>Bounds.\<close> The order of transaction ids is meaningful for ids less than \<open>2^31\<close> apart; theorems that need it say so. Free-space
  arithmetic is shown not to wrap for the addresses of a three-level map, which are all that occur. Lock modes are 1 to 8; counters
  of the lock table are integers, bounded by the number of processes times the number of modes. Configurations number the ids by unbounded naturals; the limits of
  \<open>Varsup\<close> keep those in use in a window of 2145000000, and steps stop short of \<open>2^64\<close> ids and ended transactions, where the 64-bit counters would wrap.

  \<^bold>\<open>Concurrency.\<close> An operation under the partition lock of the lock table is one step, and so is one under the exclusive lock of the process array. Scans of the array hold
  its lock in shared mode, and ids may be assigned between the reads of two slots: the scans take the memory they find at each slot as an argument, and theorems quantify over all such sequences. The reuse of a snapshot
  takes no lock; other processes may do any number of steps between its two looks at the completion count. Memory is sequentially consistent. The pool and the map are
  modelled for one backend at a time, except that the map's search may find the page changed when it exchanges its
  lock. The links that thread the lock and wait queues through shared memory are lists here.

  \<^bold>\<open>Not modelled.\<close> Parsing, planning, execution, catalogs, commands, data types, replication, the client protocol and process
  management: they work on large mutable structures and foreign state and have no contract that could be stated apart from it. The write-ahead
  log, the buffer manager and the storage manager appear as environments that may fail. Of the modelled crates, shared-memory setup,
  configuration hooks, statistics counters, log messages, directory scanning, the follower's side of the commit log's group update, the stacks of registered and active snapshots, the semaphores and signals of the process array, recovery conflicts, writing multixacts, the
  local lock table, the fast path for weak locks and the deadlock detector are left out.
\<close>

section \<open>Properties across components\<close>

text \<open>
  C4: what a snapshot calls finished is finished for everybody. A process takes a snapshot in \<open>C\<close>; any process asks in a later configuration \<open>D\<close> for an
  id that the snapshot does not hold as running: \<^verbatim>\<open>TransactionIdIsInProgress\<close> answers no. It is what the visibility routines rely on when they go from the snapshot to
  the commit log.
\<close>

theorem snapshot_then_in_progress:
  assumes C: "conf_reach C" "me \<in> set (procs C)" "scan_schedule C V s sch" "snapXactCompletionCount sn0 \<noteq> xactCompletionCount s"
      "\<not> pe_recovery_in_progress env" "pe_current_command_id env = Inr cid"
      "proc_xmin (allProcs (mem (V (length (procs C)))) me) = InvalidTransactionId \<or> (\<exists>t. TRANSACTION_XMIN b = xid_of t \<and> snap_min C me t)"
    and take: "GetSnapshotData env me sch sn0 s b = (Inr (), sn, s', b')"
    and f: "normal_full f" "oldest C \<le> f" "f \<le> oldest C + 2145000000" "foreign C me f" "topmost_ok C tm f"
    and out: "XidInMVCCSnapshot tm (xid_of f) sn = Inr False"
    and D: "conf_step\<^sup>*\<^sup>* ((V (length (procs C))) \<lparr> mem := s' \<rparr>) D" "p \<in> set (procs D)" "\<forall>i. assign_step\<^sup>*\<^sup>* D (W i)" "oldest D \<le> f"
      "asks_ok D p env' d f" "\<forall>q x. xacts D q = Some x \<and> f \<in> tree x \<longrightarrow> counted D p q"
  shows "fst (TransactionIdIsInProgress env' p (\<lambda>i. mem (W i)) (xid_of f) (mem D) d) = Inr False"
proof -
  let ?V = "V (length (procs C))"
  have ok: "conf_ok C" by (rule conf_reach_ok [OF C(1)])
  from GetSnapshotData_run [OF C] take obtain m where s': "s' = publish_xmin me (xid_of m) (mem ?V)" and sn: "snapshot_of C me m sn" by auto
  have past: "\<not> running (xacts C) f" "f < nxt C" using snapshot_exact [OF ok sn f(5,4,1-3)] out by auto
  have V: "conf_step\<^sup>*\<^sup>* C ?V" using C(3) by (auto simp: scan_schedule_def intro: assign_conf_steps)
  have "conf_step ?V (?V \<lparr> mem := s' \<rparr>)" unfolding s' by (rule publish_step) (use steps_future [OF V ok] in blast)
  with V D(1) have CD: "conf_step\<^sup>*\<^sup>* C D" by (meson converse_rtranclp_into_rtranclp rtranclp_trans)
  note fin = steps_finished [OF CD ok]
  have reach: "conf_reach D" using CD by (induction rule: rtranclp_induct) (auto intro: C(1) conf_reach.step)
  have now: "\<not> running (xacts D) f" "f < nxt D" using fin past by (meson not_le) (use fin past in simp)
  have "f \<le> oldest D + 2145000000" using now(2) counters_window(4) [OF conf_okD(4) [OF conf_reach_ok [OF reach]]] by simp
  from in_progress_run [OF reach D(2,3) f(1) D(4) this D(5,6)] now show ?thesis by auto
qed

theorem snapshot_then_in_progress_witness:
  "\<exists>sn s' b'. GetSnapshotData ex_env 0 ex_sched (sentinel SNAPSHOT_MVCC) (mem ex_conf) ex_backend = (Inr (), sn, s', b')
     \<and> fst (TransactionIdIsInProgress ex_env 0 (\<lambda>_. s') 102 s' ex_backend) = Inr False"
proof -
  have z: "snapXactCompletionCount (sentinel SNAPSHOT_MVCC) \<noteq> xactCompletionCount (mem ex_conf)" by (simp add: ex_conf_mem sentinel_def)
  have C: "0 \<in> set (procs ex_conf)" "\<not> pe_recovery_in_progress ex_env" "pe_current_command_id ex_env = Inr 0" by (simp_all add: ex_conf_fields ex_env_def)
  have pub: "proc_xmin (allProcs (mem ex_conf) 0) = InvalidTransactionId \<or> (\<exists>t. TRANSACTION_XMIN ex_backend = xid_of t \<and> snap_min ex_conf 0 t)"
    by (simp add: ex_conf_mem)
  from GetSnapshotData_run [OF ex_conf_reach C(1) ex_schedule z C(2,3) pub] obtain sn b' where
    run: "GetSnapshotData ex_env 0 ex_sched (sentinel SNAPSHOT_MVCC) (mem ex_conf) ex_backend
      = (Inr (), sn, publish_xmin 0 (xid_of (scanned_min ex_conf 0)) (mem ex_conf), b')"
    and sn: "snapshot_of ex_conf 0 (scanned_min ex_conf 0) sn" .
  let ?s = "publish_xmin 0 (xid_of (scanned_min ex_conf 0)) (mem ex_conf)"
  let ?D = "ex_conf \<lparr> mem := ?s \<rparr>"
  have n: "normal_full 102" by (simp add: normal_full_def)
  note vis = ex_conf_visible(1) [of 102] ex_conf_visible(2) [OF n]
  have w: "oldest ex_conf \<le> 102" "102 \<le> oldest ex_conf + 2145000000" "topmost_ok ex_conf Inr 102" using vis by (simp_all add: ex_conf_fields)
  have out: "XidInMVCCSnapshot Inr (xid_of 102) sn = Inr False"
    using snapshot_exact [OF conf_reach_ok [OF ex_conf_reach] sn w(3) vis(1) n w(1,2)] by (simp add: ex_conf_running ex_conf_fields(1-5))
  have "topmost_ok ?D Inr 102" using w(3) by (simp add: topmost_ok_def)
  then have a: "asks_ok ?D 0 ex_env ex_backend 102"
    using xid_of_valid [OF n] by (auto simp: asks_ok_def ex_env_def ex_backend_def Let_def ex_conf_fields(6) InvalidTransactionId_def)
  have c: "\<forall>q x. xacts ?D q = Some x \<and> 102 \<in> tree x \<longrightarrow> counted ?D 0 q"
    by (auto simp: ex_conf_fields(6) tree_def split: if_splits)
  have "fst (TransactionIdIsInProgress ex_env 0 (\<lambda>i. mem ?D) (xid_of 102) (mem ?D) ex_backend) = Inr False"
    using snapshot_then_in_progress [OF ex_conf_reach C(1) ex_schedule z C(2,3) pub run n w(1,2) vis(1) w(3) out, of ?D 0 "\<lambda>_. ?D" ex_env ex_backend] a c
    by (simp add: ex_conf_fields(1-5))
  with run show ?thesis by (simp add: xid_of_def)
qed

text \<open>
  C3: a vacuum removes nothing that a published snapshot sees. A process computes the horizon of a relation that is not a temporary one from the process array; another
  process of its database, not itself a vacuum, has published a minimum no later than the \<^verbatim>\<open>xmin\<close> of its snapshot. A tuple that the vacuum test calls dead for this horizon
  is not visible to the MVCC test with that snapshot.
\<close>

theorem vacuum_keeps_published_snapshots:
  assumes C: "conf_reach C" "v \<in> set (procs C)" "xmins_ok C X" "slots_ok C sx sc" "\<not> pe_recovery_in_progress penv"
    and hz: "GetOldestNonRemovableTransactionId penv v rel (mem C) b = (Inr oldest_xmin, b')" "GlobalVisHorizonKindForRel penv rel \<noteq> Temp"
    and q: "q \<in> set (procs C)" "guards_db C (MyDatabaseId b) q" "X q = Some t" "snap_xmin snapshot = xid_of m" "t \<le> m" "live_id C m"
    and tuple: "hints_sound env tup" "unmoved tup" "env_ok env" "\<forall>x. deleter env tup x \<longrightarrow> (\<exists>f. x = xid_of f \<and> live_id C f)"
    and dead: "HeapTupleSatisfiesVacuum env tup oldest_xmin buffer = (Inr HEAPTUPLE_DEAD, tup')"
    and same: "e_did_commit reader = e_did_commit env" "e_lookup reader = e_lookup env"
    and reader: "\<forall>x. e_is_current reader x \<longrightarrow> e_in_progress env x = Inr True" "env_ok reader" "snapshot_ok reader snapshot tup"
    and seen: "hint_ext tup seen" "xmin_frozen seen = xmin_frozen tup" "hints_sound reader seen" "own_ok reader seen"
  shows "fst (HeapTupleSatisfiesMVCC reader seen snapshot rbuffer) \<noteq> Inr True"
proof (rule vacuum_dead_hidden [OF tuple(1-3) dead same reader _ seen])
  have ok: "conf_ok C" by (rule conf_reach_ok [OF C(1)])
  let ?k = "GlobalVisHorizonKindForRel penv rel"
  let ?h = "horizon_num C X (set_option sx) (set_option sc) v (MyDatabaseId b) ?k"
  from ComputeXidHorizons_run [OF ok C(2-5)] obtain h where
    h: "ComputeXidHorizons penv v (mem C) b = (Inr h, GlobalVisUpdateApply h b)" "horizons_are C X (set_option sx) (set_option sc) v (MyDatabaseId b) h" .
  have ox: "oldest_xmin = xid_of ?h"
    using hz(1) h(1) horizon_of_num [OF h(2), of ?k] by (simp add: GetOldestNonRemovableTransactionId_def bindS_def)
  have S: "finite (set_option sx)" "\<forall>t \<in> set_option sx. live_id C t" "finite (set_option sc)" "\<forall>t \<in> set_option sc. live_id C t"
    using C(4) by (auto simp: slots_ok_def)
  have hl: "live_id C ?h" by (rule horizon_live [OF ok C(3) S])
  have "?h \<le> t" by (rule horizon_le_published [OF ok C(3) S(1,3) q(1,2) _ hz(2)]) (simp add: marks_def q(3))
  then have "?h \<le> m" using q(5) by simp
  have prec: "TransactionIdPrecedes (xid_of f) (xid_of g) \<longleftrightarrow> f < g" if "live_id C f" "live_id C g" for f g
    using live_near [OF ok that] that by (intro xid_of_order(1)) (auto simp: live_id_def)
  show "\<forall>x. deleter env tup x \<longrightarrow> TransactionIdPrecedes x oldest_xmin \<longrightarrow> TransactionIdPrecedes x (snap_xmin snapshot)"
  proof (intro allI impI)
    fix x assume "deleter env tup x" "TransactionIdPrecedes x oldest_xmin"
    then obtain f where f: "x = xid_of f" "live_id C f" "f < ?h" using tuple(4) prec [OF _ hl] unfolding ox by auto
    then show "TransactionIdPrecedes x (snap_xmin snapshot)" using prec [OF f(2) q(6)] \<open>?h \<le> m\<close> q(4) by simp
  qed
qed

definition ex_pub :: conf where
  "ex_pub = ex_slots \<lparr> mem := publish_xmin 0 101 (mem ex_slots) \<rparr>"

definition ex_reader :: vis_env where
  "ex_reader = demo_env \<lparr> e_is_current := \<lambda>_. False, e_in_progress := \<lambda>x. Inr (x = 101), e_did_commit := \<lambda>x. Inr (x = 100) \<rparr>"

definition ex_snapshot :: SnapshotData where
  "ex_snapshot = (sentinel SNAPSHOT_MVCC) \<lparr> snap_xmin := 101, snap_xmax := 103, snap_xip := [101], snap_xcnt := 1, curcid := 5 \<rparr>"

lemma ex_pub_ok: "conf_reach ex_pub" "xmins_ok ex_pub ((\<lambda>_. None)(0 := Some 101))" "slots_ok ex_pub None (Some 100)" "guards_db ex_pub 0 p"
  "procs ex_pub = [0, 1]" "completed ex_pub = 102" "xacts ex_pub = (\<lambda>_. None)(1 \<mapsto> \<lparr> xt_top = 101, xt_subs = {} \<rparr>)" "100 \<le> f \<Longrightarrow> f \<le> 103 \<Longrightarrow> live_id ex_pub f"
proof -
  show "conf_reach ex_pub" unfolding ex_pub_def by (rule conf_reach.step [OF ex_slots_reach publish_step [OF conf_reach_ok [OF ex_slots_reach]]])
  have l: "live_id ex_pub g" if "100 \<le> g" "g \<le> 103" for g
    using that by (auto simp: live_id_def ex_pub_def ex_slots_def ex_conf_fields normal_full_def)
  then show "100 \<le> f \<Longrightarrow> f \<le> 103 \<Longrightarrow> live_id ex_pub f" by blast
  have x: "\<And>p. proc_xmin (allProcs (mem ex_slots) p) = InvalidTransactionId"
    by (simp add: ex_slots_def ProcArraySetReplicationSlotXmin_def ex_conf_mem)
  show "xmins_ok ex_pub ((\<lambda>_. None)(0 := Some 101))"
    using l [of 101] x by (auto simp: xmins_ok_def ex_pub_def publish_xmin_def TransactionIdIsValid_def xid_of_def)
  show "slots_ok ex_pub None (Some 100)"
    using l [of 100] ex_slots_ok(2) by (auto simp: slots_ok_def ex_pub_def publish_xmin_def)
  show "guards_db ex_pub 0 p" using ex_slots_fields(5) [of p] by (auto simp: guards_db_def guards_def ex_pub_def publish_xmin_def)
  show "procs ex_pub = [0, 1]" "completed ex_pub = 102" "xacts ex_pub = (\<lambda>_. None)(1 \<mapsto> \<lparr> xt_top = 101, xt_subs = {} \<rparr>)"
    by (simp_all add: ex_pub_def ex_slots_fields)
qed

lemma ex_reader_ok: "env_ok ex_reader" "snapshot_ok ex_reader ex_snapshot tup" "hints_sound ex_reader (demo_tuple 100 100 0)" "own_ok ex_reader (demo_tuple 100 100 0)"
  "HeapTupleSatisfiesVacuum ex_reader (demo_tuple 100 100 0) 101 1 = (Inr HEAPTUPLE_DEAD, demo_tuple 100 100 0x0500)"
proof -
  show "env_ok ex_reader" by (auto simp: env_ok_def ex_reader_def demo_env_def finished_aborted_def InvalidTransactionId_def)
  show "snapshot_ok ex_reader ex_snapshot tup"
    by (auto simp: snapshot_ok_def ex_reader_def demo_env_def ex_snapshot_def sentinel_def XidInMVCCSnapshot_def slice_to_def
        TransactionIdPrecedes_def TransactionIdIsNormal_iff)
  show "hints_sound ex_reader (demo_tuple 100 100 0)" by (simp add: hints_sound_bits demo_tuple_def)
  show "own_ok ex_reader (demo_tuple 100 100 0)" by (simp add: own_ok_def ex_reader_def demo_simps)
  show "HeapTupleSatisfiesVacuum ex_reader (demo_tuple 100 100 0) 101 1 = (Inr HEAPTUPLE_DEAD, demo_tuple 100 100 0x0500)"
    by (simp add: HeapTupleSatisfiesVacuum_def HeapTupleSatisfiesVacuumHorizon_def vacuum_xmax_def
        TransactionIdPrecedes_def TransactionIdIsNormal_iff ex_reader_def demo_simps)
qed

theorem vacuum_keeps_published_snapshots_witness:
  "\<exists>b'. GetOldestNonRemovableTransactionId ex_env 1 \<lparr> relisshared = False, is_catalog_relation = False, rd_islocaltemp = False, rd_createSubid = 0 \<rparr> (mem ex_pub)
     ex_backend = (Inr 101, b') \<and> fst (HeapTupleSatisfiesMVCC ex_reader (demo_tuple 100 100 0) ex_snapshot 1) \<noteq> Inr True"
proof -
  let ?rel = "\<lparr> relisshared = False, is_catalog_relation = False, rd_islocaltemp = False, rd_createSubid = 0 \<rparr>" and ?X = "(\<lambda>_. None)(0 := Some 101)"
  have n: "next_full 102 = 103" by (simp add: next_full_def)
  have k: "GlobalVisHorizonKindForRel ex_env ?rel = Data" by (simp add: GlobalVisHorizonKindForRel_def ex_env_def)
  have e: "\<not> pe_recovery_in_progress ex_env" "MyDatabaseId ex_backend = 0" "1 \<in> set (procs ex_pub)" "0 \<in> set (procs ex_pub)"
    by (simp_all add: ex_env_def ex_backend_def Let_def ex_pub_ok)
  have g: "Min (guarded ex_pub ?X (guards_db ex_pub 0) \<union> {}) = 101"
    by (rule Min_eqI) (auto simp: guarded_def marks_def ex_pub_ok(4-7) n split: if_splits)
  from ComputeXidHorizons_run [OF conf_reach_ok [OF ex_pub_ok(1)] e(3) ex_pub_ok(2,3) e(1)] obtain h where
    h: "ComputeXidHorizons ex_env 1 (mem ex_pub) ex_backend = (Inr h, GlobalVisUpdateApply h ex_backend)"
      "horizons_are ex_pub ?X (set_option None) (set_option (Some 100)) 1 (MyDatabaseId ex_backend) h" .
  have hz: "GetOldestNonRemovableTransactionId ex_env 1 ?rel (mem ex_pub) ex_backend = (Inr 101, GlobalVisUpdateApply h ex_backend)"
    using h(1) horizon_of_num [OF h(2), of Data] g e(2) by (simp add: GetOldestNonRemovableTransactionId_def bindS_def k xid_of_def)
  have "fst (HeapTupleSatisfiesMVCC ex_reader (demo_tuple 100 100 0) ex_snapshot 1) \<noteq> Inr True"
  proof (rule vacuum_keeps_published_snapshots [OF ex_pub_ok(1) e(3) ex_pub_ok(2,3) e(1) hz _ e(4) _ _ _ _ _ ex_reader_ok(3) _ ex_reader_ok(1) _ ex_reader_ok(5)
        refl refl _ ex_reader_ok(1,2) _ refl ex_reader_ok(3,4)])
    show "GlobalVisHorizonKindForRel ex_env ?rel \<noteq> Temp" by (simp add: k)
    show "guards_db ex_pub (MyDatabaseId ex_backend) 0" unfolding e(2) by (rule ex_pub_ok(4))
    show "?X 0 = Some 101" by simp
    show "snap_xmin ex_snapshot = xid_of 101" by (simp add: ex_snapshot_def xid_of_def)
    show "live_id ex_pub 101" by (rule ex_pub_ok(8)) simp_all
    show "unmoved (demo_tuple 100 100 0)" by (simp add: unmoved_def demo_tuple_def)
    show "\<forall>x. deleter ex_reader (demo_tuple 100 100 0) x \<longrightarrow> (\<exists>f. x = xid_of f \<and> live_id ex_pub f)"
      using ex_pub_ok(8) [of 100] by (auto simp: deleter_def demo_simps xid_of_def intro!: exI [of _ 100])
    show "hint_ext (demo_tuple 100 100 0) (demo_tuple 100 100 0)" by (simp add: hint_ext_refl)
  qed (simp_all add: ex_reader_def)
  with hz show ?thesis by blast
qed

end
